(* ===== verification/Prelude.thy ===== *)
theory Prelude
  imports Main "HOL-Library.Word"
begin

text \<open>
  Shared vocabulary of the development.

  \<^item> \<open>c_error\<close> and \<open>result\<close>: C++ leaves out-of-range accesses, null dereferences and signed
    overflow undefined. The model makes each of them a value of the error type, so that a theorem
    that an operation returns \<open>Inr\<close> is a memory-safety statement.
  \<^item> \<open>bindR\<close>: sequencing of fallible steps.
  \<^item> \<open>mem_read\<close> and \<open>mem_write\<close>: the two halves of a \<open>memcpy\<close>, with the size argument converted to
    \<open>size_t\<close> as the call does.
  \<^item> \<open>add32\<close>, \<open>c_rem\<close>: \<open>int\<close> addition with its overflow check, and the truncating remainder.
\<close>

named_theorems c_simps "definitions of the C-level primitives, for unfolding"
named_theorems ring_simps "facts that carry the ring buffer proofs"

section \<open>Undefined behaviour as errors\<close>

datatype c_error =
    OutOfBounds      \<comment> \<open>access outside an array\<close>
  | NullDeref        \<comment> \<open>access through a null pointer\<close>
  | SignedOverflow   \<comment> \<open>result of an int operation outside 32 bits\<close>
  | DivByZero
  | UninitRead       \<comment> \<open>an indeterminate byte is used as a value\<close>
  | Diverges         \<comment> \<open>a loop that does not end\<close>
  | Uncaught         \<comment> \<open>an exception that no caller catches\<close>
  | CheckFailed      \<comment> \<open>a failed run-time check (\<open>CHECK_CONDITION\<close>, \<open>Log(kCrash)\<close>) ends the process\<close>
  | OutOfMemory      \<comment> \<open>the fatal error of an allocator that cannot get memory for its own data\<close>

type_synonym 'a result = "c_error + 'a"

definition bindR :: "'e + 'a \<Rightarrow> ('a \<Rightarrow> 'e + 'b) \<Rightarrow> 'e + 'b" where
  "bindR m f = (case m of Inl e \<Rightarrow> Inl e | Inr x \<Rightarrow> f x)"

lemma bindR_simps [simp]:
  "bindR (Inl e) f = Inl e"
  "bindR (Inr x) f = f x"
  by (simp_all add: bindR_def)

lemma bindR_eq_Inr: "bindR m f = Inr y \<longleftrightarrow> (\<exists>x. m = Inr x \<and> f x = Inr y)"
  by (cases m) auto

lemma bindR_assoc: "bindR (bindR m f) g = bindR m (\<lambda>x. bindR (f x) g)"
  by (cases m) simp_all

lemma bindR_cong [fundef_cong]:
  "m = m' \<Longrightarrow> (\<And>x. m' = Inr x \<Longrightarrow> f x = f' x) \<Longrightarrow> bindR m f = bindR m' f'"
  by (cases m') auto

section \<open>Machine integers\<close>

type_synonym byte = "8 word"

text \<open>A byte of an array: \<open>None\<close> is an indeterminate value (memory from \<open>new char[n]\<close>).\<close>
type_synonym cell = "byte option"

definition int_max :: int where "int_max = 2 ^ 31 - 1"
definition int_min :: int where "int_min = - (2 ^ 31)"

definition add32 :: "int \<Rightarrow> int \<Rightarrow> int result" where
  "add32 a b = (if int_min \<le> a + b \<and> a + b \<le> int_max then Inr (a + b) else Inl SignedOverflow)"

lemma add32_ok: "int_min \<le> a + b \<Longrightarrow> a + b \<le> int_max \<Longrightarrow> add32 a b = Inr (a + b)"
  by (simp add: add32_def)

lemma add32_eq_Inr: "add32 a b = Inr c \<longleftrightarrow> c = a + b \<and> int_min \<le> c \<and> c \<le> int_max"
  by (auto simp: add32_def)

text \<open>The conversion of an \<open>int\<close> argument to \<open>size_t\<close>: a negative value becomes huge.\<close>

definition to_size_t :: "int \<Rightarrow> int" where
  "to_size_t n = n mod 2 ^ 64"

lemma to_size_t_nonneg [simp]: "0 \<le> to_size_t n"
  by (simp add: to_size_t_def)

lemma to_size_t_id: "0 \<le> n \<Longrightarrow> n < 2 ^ 64 \<Longrightarrow> to_size_t n = n"
  by (simp add: to_size_t_def)

lemma to_size_t_int: "0 \<le> n \<Longrightarrow> n \<le> int_max \<Longrightarrow> to_size_t n = n"
  by (simp add: to_size_t_id int_max_def)

lemma to_size_t_neg: "n < 0 \<Longrightarrow> - (2 ^ 63) \<le> n \<Longrightarrow> to_size_t n = n + 2 ^ 64"
proof -
  assume "n < 0" "- (2 ^ 63) \<le> n"
  then have "(n + 2 ^ 64) mod 2 ^ 64 = n + 2 ^ 64" by (intro mod_pos_pos_trivial) auto
  then show ?thesis by (simp add: to_size_t_def)
qed

text \<open>The C++ remainder truncates towards zero.\<close>

definition c_rem :: "int \<Rightarrow> int \<Rightarrow> int" where
  "c_rem a b = sgn a * (\<bar>a\<bar> mod \<bar>b\<bar>)"

lemma c_rem_nonneg: "0 \<le> a \<Longrightarrow> 0 < b \<Longrightarrow> c_rem a b = a mod b"
  by (cases "a = 0") (auto simp: c_rem_def)

lemma c_rem_wrap:
  assumes "0 \<le> a" "a < 2 * b"
  shows "c_rem a b = (if a < b then a else a - b)"
proof -
  have b: "0 < b" using assms by simp
  show ?thesis
  proof (cases "a < b")
    case True
    with assms b show ?thesis by (simp add: c_rem_nonneg)
  next
    case False
    then have "a mod b = (a - b) mod b" by simp
    also have "\<dots> = a - b" using assms False by (intro mod_pos_pos_trivial) auto
    finally show ?thesis using False assms b by (simp add: c_rem_nonneg)
  qed
qed

section \<open>Arrays\<close>

definition mem_read :: "'a list \<Rightarrow> int \<Rightarrow> int \<Rightarrow> 'a list result" where
  "mem_read m off n =
     (if 0 \<le> off \<and> off + to_size_t n \<le> int (length m)
      then Inr (take (nat (to_size_t n)) (drop (nat off) m)) else Inl OutOfBounds)"

definition mem_write :: "'a list \<Rightarrow> int \<Rightarrow> 'a list \<Rightarrow> 'a list result" where
  "mem_write m off xs =
     (if 0 \<le> off \<and> off + int (length xs) \<le> int (length m)
      then Inr (take (nat off) m @ xs @ drop (nat off + length xs) m) else Inl OutOfBounds)"

text \<open>\<open>memcpy(dst + doff, src + soff, n)\<close>: the new contents of \<open>dst\<close>.\<close>

definition mem_cpy :: "'a list \<Rightarrow> int \<Rightarrow> 'a list \<Rightarrow> int \<Rightarrow> int \<Rightarrow> 'a list result" where
  "mem_cpy dst doff src soff n = bindR (mem_read src soff n) (mem_write dst doff)"

lemma mem_read_ok:
  assumes "0 \<le> off" "0 \<le> n" "off + n \<le> int (length m)" "n < 2 ^ 64"
  shows "mem_read m off n = Inr (take (nat n) (drop (nat off) m))"
  using assms by (simp add: mem_read_def to_size_t_id)

lemma mem_write_ok:
  assumes "0 \<le> off" "off + int (length xs) \<le> int (length m)"
  shows "mem_write m off xs = Inr (take (nat off) m @ xs @ drop (nat off + length xs) m)"
  using assms by (simp add: mem_write_def)

lemma mem_write_length: "mem_write m off xs = Inr m' \<Longrightarrow> length m' = length m"
  by (auto simp: mem_write_def split: if_splits)

lemma mem_read_neg:
  assumes "n < 0" "- (2 ^ 63) \<le> n" "int (length m) < 2 ^ 63"
  shows "mem_read m off n = Inl OutOfBounds"
  using assms by (simp add: mem_read_def to_size_t_neg)

lemma mem_cpy_ok:
  assumes "0 \<le> soff" "0 \<le> n" "soff + n \<le> int (length src)" "n < 2 ^ 64"
    and "0 \<le> doff" "doff + n \<le> int (length dst)"
  shows "mem_cpy dst doff src soff n =
    Inr (take (nat doff) dst @ take (nat n) (drop (nat soff) src) @ drop (nat (doff + n)) dst)"
proof -
  have len: "length (take (nat n) (drop (nat soff) src)) = nat n"
    using assms by simp
  have "nat doff + nat n = nat (doff + n)" using assms by simp
  with assms show ?thesis
    unfolding mem_cpy_def mem_read_ok [OF assms(1-4)] bindR_simps mem_write_def len by simp
qed

lemma take_append_exact: "length xs = n \<Longrightarrow> take n (xs @ ys) = xs"
  by simp

lemma drop_append_exact: "length xs = n \<Longrightarrow> drop n (xs @ ys) = ys"
  by simp

end
