(* ===== verification/Posix_Api.thy ===== *)
theory Posix_Api
  imports Prelude
begin

text \<open>
  The system calls the library makes, as a parameter of the model. A value of \<open>'k posix\<close> holds one
  function per call; each takes the kernel's state \<open>'k\<close> and returns the call's result with the next
  state. Nothing is defined here: what the code relies on of the documented behaviour of a call is
  a named predicate (\<open>recv_bounded\<close>, \<open>fionread_exact\<close>, \<open>stream_recv\<close>, \<open>send_bounded\<close>,
  \<open>send_progress\<close>) that the theorems carry as a hypothesis.
\<close>

text \<open>
  The outcome of \<open>recv\<close>: the bytes stored in the caller's buffer (none when the peer has closed the
  connection), or \<open>-1\<close> with \<open>errno\<close> set.
\<close>
datatype recv_res = Received "byte list" | RecvError int

fun recv_ret :: "recv_res \<Rightarrow> int" where
  "recv_ret (Received bs) = int (length bs)"
| "recv_ret (RecvError e) = -1"

text \<open>The outcome of \<open>send\<close>: a number of bytes accepted, or \<open>-1\<close> with \<open>errno\<close> set.\<close>
datatype send_res = Sent nat | SendError int

fun send_ret :: "send_res \<Rightarrow> int" where
  "send_ret (Sent n) = int n"
| "send_ret (SendError e) = -1"

text \<open>
  The address of a datagram's sender: \<open>struct sockaddr_in\<close>, in network byte order. \<open>sys_epoll_wait\<close>
  returns the ready descriptors with their event masks, none after a time-out or an error;
  \<open>sys_errno\<close> is the value of \<open>errno\<close>.
\<close>
record sockaddr_in =
  sin_addr :: "32 word"
  sin_port :: "16 word"

record 'k posix =
  sys_recv :: "int \<Rightarrow> int \<Rightarrow> 'k \<Rightarrow> recv_res \<times> 'k"
  sys_fionread :: "int \<Rightarrow> 'k \<Rightarrow> int \<times> 'k"
  sys_send :: "int \<Rightarrow> cell list \<Rightarrow> 'k \<Rightarrow> send_res \<times> 'k"
  sys_close :: "int \<Rightarrow> 'k \<Rightarrow> 'k"
  sys_epoll_add :: "int \<Rightarrow> int \<Rightarrow> 32 word \<Rightarrow> 'k \<Rightarrow> int \<times> 'k"
  sys_errno :: "'k \<Rightarrow> int"
  sys_epoll_create :: "int \<Rightarrow> 'k \<Rightarrow> int \<times> 'k"
  sys_epoll_wait :: "int \<Rightarrow> 'k \<Rightarrow> (int \<times> 32 word) list \<times> 'k"
  sys_socket :: "bool \<Rightarrow> 'k \<Rightarrow> int \<times> 'k"
  sys_bind :: "int \<Rightarrow> 16 word \<Rightarrow> 'k \<Rightarrow> int \<times> 'k"
  sys_listen :: "int \<Rightarrow> int \<Rightarrow> 'k \<Rightarrow> 'k"
  sys_accept :: "int \<Rightarrow> 'k \<Rightarrow> int \<times> 'k"
  sys_getfl :: "int \<Rightarrow> 'k \<Rightarrow> 32 word \<times> 'k"
  sys_setfl :: "int \<Rightarrow> 32 word \<Rightarrow> 'k \<Rightarrow> int \<times> 'k"
  sys_recvfrom :: "int \<Rightarrow> int \<Rightarrow> 'k \<Rightarrow> recv_res \<times> sockaddr_in \<times> 'k"
  sys_sendto :: "int \<Rightarrow> byte list \<Rightarrow> sockaddr_in \<Rightarrow> 'k \<Rightarrow> 'k"
  sys_procnum :: "'k \<Rightarrow> int"

text \<open>\<open>recv\<close> stores at most as many bytes as its length argument allows.\<close>
definition recv_bounded :: "'k posix \<Rightarrow> bool" where
  "recv_bounded os \<longleftrightarrow>
     (\<forall>fd n k bs k'. 0 \<le> n \<longrightarrow> sys_recv os fd n k = (Received bs, k') \<longrightarrow> int (length bs) \<le> n)"

text \<open>
  The count that \<open>ioctl(FIONREAD)\<close> reports is what the next \<open>recv\<close> can deliver: no data arrives
  between the two calls.
\<close>
definition fionread_exact :: "'k posix \<Rightarrow> bool" where
  "fionread_exact os \<longleftrightarrow>
     (\<forall>fd k r k1 n bs k2. sys_fionread os fd k = (r, k1) \<longrightarrow>
        sys_recv os fd n k1 = (Received bs, k2) \<longrightarrow> int (length bs) \<le> max 0 r)"

text \<open>
  A stream socket delivers the peer's bytes in order: \<open>pending fd k\<close> is what is still to be
  delivered on \<open>fd\<close>, and a \<open>recv\<close> takes a prefix of it. A failed \<open>recv\<close> and an \<open>ioctl\<close> take nothing.
\<close>
definition stream_recv :: "'k posix \<Rightarrow> (int \<Rightarrow> 'k \<Rightarrow> byte list) \<Rightarrow> bool" where
  "stream_recv os pending \<longleftrightarrow>
     (\<forall>fd n k bs k'. sys_recv os fd n k = (Received bs, k') \<longrightarrow> pending fd k = bs @ pending fd k') \<and>
     (\<forall>fd n k e k'. sys_recv os fd n k = (RecvError e, k') \<longrightarrow> pending fd k' = pending fd k) \<and>
     (\<forall>fd k r k'. sys_fionread os fd k = (r, k') \<longrightarrow> pending fd k' = pending fd k)"

text \<open>\<open>send\<close> accepts at most the bytes it is given.\<close>
definition send_bounded :: "'k posix \<Rightarrow> bool" where
  "send_bounded os \<longleftrightarrow>
     (\<forall>fd cs k n k'. sys_send os fd cs k = (Sent n, k') \<longrightarrow> n \<le> length cs)"

text \<open>A \<open>send\<close> of at least one byte on a stream socket accepts at least one or fails.\<close>
definition send_progress :: "'k posix \<Rightarrow> bool" where
  "send_progress os \<longleftrightarrow>
     (\<forall>fd cs k n k'. cs \<noteq> [] \<longrightarrow> sys_send os fd cs k = (Sent n, k') \<longrightarrow> 0 < n)"

text \<open>The bytes \<open>send\<close> accepts are appended to what the peer will read.\<close>
definition stream_send :: "'k posix \<Rightarrow> (int \<Rightarrow> 'k \<Rightarrow> cell list) \<Rightarrow> bool" where
  "stream_send os delivered \<longleftrightarrow>
     (\<forall>fd cs k n k'. sys_send os fd cs k = (Sent n, k') \<longrightarrow>
        delivered fd k' = delivered fd k @ take n cs) \<and>
     (\<forall>fd cs k e k'. sys_send os fd cs k = (SendError e, k') \<longrightarrow> delivered fd k' = delivered fd k)"

lemma recv_boundedD:
  "recv_bounded os \<Longrightarrow> sys_recv os fd n k = (Received bs, k') \<Longrightarrow> 0 \<le> n \<Longrightarrow> int (length bs) \<le> n"
  unfolding recv_bounded_def by blast

lemma fionread_exactD:
  "fionread_exact os \<Longrightarrow> sys_fionread os fd k = (r, k1) \<Longrightarrow>
   sys_recv os fd n k1 = (Received bs, k2) \<Longrightarrow> int (length bs) \<le> max 0 r"
  unfolding fionread_exact_def by blast

lemma stream_recvD:
  assumes "stream_recv os pending"
  shows "sys_recv os fd n k = (Received bs, k') \<Longrightarrow> pending fd k = bs @ pending fd k'"
    and "sys_recv os fd n k = (RecvError e, k') \<Longrightarrow> pending fd k' = pending fd k"
    and "sys_fionread os fd k = (r, k') \<Longrightarrow> pending fd k' = pending fd k"
  using assms unfolding stream_recv_def by blast+

lemma send_boundedD:
  "send_bounded os \<Longrightarrow> sys_send os fd cs k = (Sent n, k') \<Longrightarrow> n \<le> length cs"
  unfolding send_bounded_def by blast

lemma send_progressD:
  "send_progress os \<Longrightarrow> cs \<noteq> [] \<Longrightarrow> sys_send os fd cs k = (Sent n, k') \<Longrightarrow> 0 < n"
  unfolding send_progress_def by blast

lemma stream_sendD:
  assumes "stream_send os delivered"
  shows "sys_send os fd cs k = (Sent n, k') \<Longrightarrow> delivered fd k' = delivered fd k @ take n cs"
    and "sys_send os fd cs k = (SendError e, k') \<Longrightarrow> delivered fd k' = delivered fd k"
  using assms unfolding stream_send_def by blast+

text \<open>
  \<open>taken os fd bs k k'\<close>: a sequence of \<open>recv\<close> and \<open>ioctl\<close> calls on \<open>fd\<close> leads from \<open>k\<close> to \<open>k'\<close> and
  delivers \<open>bs\<close>.
\<close>

inductive taken :: "'k posix \<Rightarrow> int \<Rightarrow> byte list \<Rightarrow> 'k \<Rightarrow> 'k \<Rightarrow> bool" for os fd where
  taken_refl: "taken os fd [] k k"
| taken_recv: "taken os fd bs k k1 \<Longrightarrow> sys_recv os fd n k1 = (Received cs, k2) \<Longrightarrow>
    taken os fd (bs @ cs) k k2"
| taken_fail: "taken os fd bs k k1 \<Longrightarrow> sys_recv os fd n k1 = (RecvError e, k2) \<Longrightarrow>
    taken os fd bs k k2"
| taken_ioctl: "taken os fd bs k k1 \<Longrightarrow> sys_fionread os fd k1 = (r, k2) \<Longrightarrow> taken os fd bs k k2"

lemmas taken_recv1 = taken_recv [OF taken_refl, simplified]
lemmas taken_fail1 = taken_fail [OF taken_refl]
lemmas taken_ioctl1 = taken_ioctl [OF taken_refl]

lemma taken_trans:
  assumes "taken os fd bs k k1" "taken os fd cs k1 k2"
  shows "taken os fd (bs @ cs) k k2"
  using assms(2,1)
  by (induction rule: taken.induct)
    (auto simp flip: append_assoc intro: taken_recv taken_fail taken_ioctl)

lemma taken_stream:
  assumes "stream_recv os pending" "taken os fd bs k k'"
  shows "pending fd k = bs @ pending fd k'"
  using assms(2) by (induction rule: taken.induct) (auto dest: stream_recvD [OF assms(1)])

section \<open>A kernel with one connection\<close>

text \<open>
  A concrete kernel, to evaluate the model on: a receive queue and a list of what was sent. It meets
  every hypothesis above. In \<open>late_os\<close>, bytes in flight (\<open>sim_late\<close>) reach the queue right after an
  \<open>ioctl(FIONREAD)\<close> has reported its length, which a real peer can bring about at any time.
\<close>

record sim =
  sim_rx :: "byte list"
  sim_late :: "byte list"
  sim_tx :: "cell list"
  sim_closed :: "int list"
  sim_errno :: int
  sim_ready :: "(int \<times> 32 word) list list"
  sim_incoming :: "int list"
  sim_bound :: "16 word list"
  sim_dgrams :: "(byte list \<times> sockaddr_in) list"
  sim_replies :: "(byte list \<times> sockaddr_in) list"

definition EAGAIN :: int where "EAGAIN = 11"

definition sim_recv :: "int \<Rightarrow> int \<Rightarrow> sim \<Rightarrow> recv_res \<times> sim" where
  "sim_recv fd n k =
     (if sim_rx k = [] \<and> n \<noteq> 0 then (RecvError EAGAIN, k\<lparr>sim_errno := EAGAIN\<rparr>)
      else let m = nat (min n 65536)
           in (Received (take m (sim_rx k)), k\<lparr>sim_rx := drop m (sim_rx k)\<rparr>))"

definition sim_os :: "sim posix" where
  "sim_os = \<lparr>sys_recv = sim_recv,
             sys_fionread = (\<lambda>fd k. (min (int (length (sim_rx k))) 65536, k)),
             sys_send = (\<lambda>fd cs k. (Sent (length cs), k\<lparr>sim_tx := sim_tx k @ cs\<rparr>)),
             sys_close = (\<lambda>fd k. k\<lparr>sim_closed := fd # sim_closed k\<rparr>),
             sys_epoll_add = (\<lambda>ep fd ev k. (0, k)),
             sys_errno = sim_errno,
             sys_epoll_create = (\<lambda>n k. (3, k)),
             sys_epoll_wait = (\<lambda>ep k. case sim_ready k of [] \<Rightarrow> ([], k) | r # rs \<Rightarrow> (r, k\<lparr>sim_ready := rs\<rparr>)),
             sys_socket = (\<lambda>stream k. (4, k)),
             sys_bind = (\<lambda>fd port k. if port \<in> set (sim_bound k) then (-1, k\<lparr>sim_errno := 98\<rparr>)
               else (0, k\<lparr>sim_bound := port # sim_bound k\<rparr>)),
             sys_listen = (\<lambda>fd n k. k),
             sys_accept = (\<lambda>fd k. case sim_incoming k of [] \<Rightarrow> (-1, k\<lparr>sim_errno := EAGAIN\<rparr>)
               | c # cs \<Rightarrow> (c, k\<lparr>sim_incoming := cs\<rparr>)),
             sys_getfl = (\<lambda>fd k. (2, k)),
             sys_setfl = (\<lambda>fd fl k. (0, k)),
             sys_recvfrom = (\<lambda>fd n k. case sim_dgrams k of
                 [] \<Rightarrow> (RecvError EAGAIN, \<lparr>sin_addr = 0, sin_port = 0\<rparr>, k\<lparr>sim_errno := EAGAIN\<rparr>)
               | (bs, a) # ds \<Rightarrow> (Received (take (nat n) bs), a, k\<lparr>sim_dgrams := ds\<rparr>)),
             sys_sendto = (\<lambda>fd bs a k. k\<lparr>sim_replies := sim_replies k @ [(bs, a)]\<rparr>),
             sys_procnum = (\<lambda>k. 4)\<rparr>"

definition sim_idle :: sim where
  "sim_idle = \<lparr>sim_rx = [], sim_late = [], sim_tx = [], sim_closed = [], sim_errno = 0,
     sim_ready = [], sim_incoming = [], sim_bound = [], sim_dgrams = [], sim_replies = []\<rparr>"

definition late_os :: "sim posix" where
  "late_os = sim_os\<lparr>sys_fionread := (\<lambda>fd k.
     (min (int (length (sim_rx k))) 65536, k\<lparr>sim_rx := sim_rx k @ sim_late k, sim_late := []\<rparr>))\<rparr>"

text \<open>The receive queue of a socket is far below a gigabyte, so the counts of \<open>ioctl\<close> are small.\<close>

definition fionread_small :: "'k posix \<Rightarrow> bool" where
  "fionread_small os \<longleftrightarrow> (\<forall>fd k r k'. sys_fionread os fd k = (r, k') \<longrightarrow> r \<le> 2 ^ 30)"

lemma sim_os_ok:
  "recv_bounded sim_os" "fionread_exact sim_os" "fionread_small sim_os"
  "stream_recv sim_os (\<lambda>fd. sim_rx)"
  "send_bounded sim_os" "send_progress sim_os" "stream_send sim_os (\<lambda>fd. sim_tx)"
proof -
  show "recv_bounded sim_os"
    by (auto simp: recv_bounded_def sim_os_def sim_recv_def Let_def split: if_splits)
  show "fionread_exact sim_os"
    by (auto simp: fionread_exact_def sim_os_def sim_recv_def Let_def split: if_splits)
  show "fionread_small sim_os" by (auto simp: fionread_small_def sim_os_def min_def)
  show "stream_recv sim_os (\<lambda>fd. sim_rx)"
    by (auto simp: stream_recv_def sim_os_def sim_recv_def Let_def split: if_splits)
  show "send_bounded sim_os" by (auto simp: send_bounded_def sim_os_def)
  show "send_progress sim_os" by (auto simp: send_progress_def sim_os_def)
  show "stream_send sim_os (\<lambda>fd. sim_tx)" by (auto simp: stream_send_def sim_os_def)
qed

lemma late_os_ok:
  "recv_bounded late_os" "fionread_small late_os" "stream_recv late_os (\<lambda>fd k. sim_rx k @ sim_late k)"
proof -
  show "fionread_small late_os" by (auto simp: fionread_small_def late_os_def min_def)
  show "recv_bounded late_os"
    by (auto simp: recv_bounded_def late_os_def sim_os_def sim_recv_def Let_def split: if_splits)
  show "stream_recv late_os (\<lambda>fd k. sim_rx k @ sim_late k)"
    by (auto simp: stream_recv_def late_os_def sim_os_def sim_recv_def Let_def split: if_splits)
qed

end
