(* ===== verification/Byte_Order.thy ===== *)
theory Byte_Order
  imports Prelude
begin

unbundle bit_operations_syntax

text \<open>
  Integers in memory and on the wire. The library copies the bytes of a header into a \<open>uint32_t\<close> or a
  \<open>uint16_t\<close> with \<open>memcpy\<close> and swaps them with \<open>htonl\<close>/\<open>htons\<close> (it uses the \<open>hton\<close> functions in both
  directions, and \<open>ntoh\<close> for writing; on every host they are the same functions). The model is a
  little-endian host, as the x86-64 code of the memory allocator assumes throughout.
\<close>

definition le32 :: "32 word \<Rightarrow> byte list" where
  "le32 w = [ucast w, ucast (drop_bit 8 w), ucast (drop_bit 16 w), ucast (drop_bit 24 w)]"

definition of_le32 :: "byte list \<Rightarrow> 32 word" where
  "of_le32 bs = ucast (bs ! 0) OR push_bit 8 (ucast (bs ! 1)) OR
                push_bit 16 (ucast (bs ! 2)) OR push_bit 24 (ucast (bs ! 3))"

definition le16 :: "16 word \<Rightarrow> byte list" where
  "le16 w = [ucast w, ucast (drop_bit 8 w)]"

definition of_le16 :: "byte list \<Rightarrow> 16 word" where
  "of_le16 bs = ucast (bs ! 0) OR push_bit 8 (ucast (bs ! 1))"

text \<open>\<open>htonl\<close> (= \<open>ntohl\<close>) and \<open>htons\<close> (= \<open>ntohs\<close>) on a little-endian host.\<close>

definition htonl :: "32 word \<Rightarrow> 32 word" where
  "htonl w = of_le32 (rev (le32 w))"

definition htons :: "16 word \<Rightarrow> 16 word" where
  "htons w = of_le16 (rev (le16 w))"

lemma length_le [simp]: "length (le32 w) = 4" "length (le16 v) = 2"
  by (simp_all add: le32_def le16_def)

lemma of_le32_le32 [simp]: "of_le32 (le32 w) = w"
proof (rule bit_word_eqI)
  fix n
  assume "n < LENGTH(32)"
  then have n: "n < 32" by simp
  then consider "n < 8" | "8 \<le> n" "n < 16" | "16 \<le> n" "n < 24" | "24 \<le> n" "n < 32" by linarith
  then show "bit (of_le32 (le32 w)) n \<longleftrightarrow> bit w n"
    by cases (auto simp: of_le32_def le32_def bit_simps)
qed

lemma of_le16_le16 [simp]: "of_le16 (le16 w) = w"
proof (rule bit_word_eqI)
  fix n
  assume "n < LENGTH(16)"
  then consider "n < 8" | "8 \<le> n" "n < 16" by fastforce
  then show "bit (of_le16 (le16 w)) n \<longleftrightarrow> bit w n"
    by cases (auto simp: of_le16_def le16_def bit_simps)
qed

lemma byte_eqI: "(\<And>n. n < 8 \<Longrightarrow> bit a n = bit b n) \<Longrightarrow> a = (b :: byte)"
  by (rule bit_word_eqI) simp

lemma le32_of_le32:
  assumes "length bs = 4"
  shows "le32 (of_le32 bs) = bs"
proof -
  obtain a b c d where bs: "bs = [a, b, c, d]"
    using assms by (auto simp: numeral_eq_Suc length_Suc_conv)
  have "ucast (of_le32 bs) = a" "ucast (drop_bit 8 (of_le32 bs)) = b"
    "ucast (drop_bit 16 (of_le32 bs)) = c" "ucast (drop_bit 24 (of_le32 bs)) = d"
    by (rule byte_eqI; auto simp: bs of_le32_def bit_simps dest: bit_imp_le_length)+
  then show ?thesis by (simp add: le32_def bs)
qed

lemma le16_of_le16:
  assumes "length bs = 2"
  shows "le16 (of_le16 bs) = bs"
proof -
  obtain a b where bs: "bs = [a, b]"
    using assms by (auto simp: numeral_eq_Suc length_Suc_conv)
  have "ucast (of_le16 bs) = a" "ucast (drop_bit 8 (of_le16 bs)) = b"
    by (rule byte_eqI; auto simp: bs of_le16_def bit_simps dest: bit_imp_le_length)+
  then show ?thesis by (simp add: le16_def bs)
qed

lemma htonl_htonl [simp]: "htonl (htonl w) = w"
  by (simp add: htonl_def le32_of_le32)

lemma htons_htons [simp]: "htons (htons w) = w"
  by (simp add: htons_def le16_of_le16)

lemma le32_htonl: "le32 (htonl w) = rev (le32 w)"
  by (simp add: htonl_def le32_of_le32)

lemma le16_htons: "le16 (htons w) = rev (le16 w)"
  by (simp add: htons_def le16_of_le16)

end
