(* ===== verification/Proto_Messages.thy ===== *)
theory Proto_Messages
  imports Prelude
begin

unbundle bit_operations_syntax

text \<open>
  The protocol messages: src/packet/connector.pb.h and connector.pb.cc (classes \<open>CS_Ping\<close> and
  \<open>SC_RetPing\<close>, generated from data/proto/connector.proto), packet_id.pb.h, and
  src/packet/packet_factory.cpp. The two classes are the same code over a field with another name,
  so one record and one set of operations, the second class repeating them under its own names.
  The protobuf runtime they call (wire format, unknown fields, the wrappers \<open>ByteSize\<close>,
  \<open>SerializeToArray\<close> and \<open>ParseFromArray\<close>) is not part of the repository: it is the parameter \<open>'u wire\<close>,
  and what the code relies on is \<open>wire_ok\<close>.
\<close>

section \<open>The protobuf runtime\<close>

text \<open>
  \<open>'u\<close> is a set of unknown fields. \<open>w_read_tag\<close> is \<open>ReadTagWithCutoffNoLastTag(127)\<close>: the tag (0 at the
  end of the input), whether it is below the cutoff, and the input left. \<open>w_read_string\<close> reports
  success, the value stored, and the input left.
\<close>

record 'u wire =
  w_string_size :: "byte list \<Rightarrow> nat"
  w_write_string :: "nat \<Rightarrow> byte list \<Rightarrow> byte list"
  w_read_tag :: "byte list \<Rightarrow> nat \<times> bool \<times> byte list"
  w_read_string :: "byte list \<Rightarrow> bool \<times> byte list \<times> byte list"
  w_skip_field :: "nat \<Rightarrow> byte list \<Rightarrow> 'u \<Rightarrow> ('u \<times> byte list) option"
  w_no_unknown :: 'u
  w_have_unknown :: "'u \<Rightarrow> bool"
  w_unknown_size :: "'u \<Rightarrow> nat"
  w_unknown_bytes :: "'u \<Rightarrow> byte list"
  w_unknown_merge :: "'u \<Rightarrow> 'u \<Rightarrow> 'u"

text \<open>
  The documented wire format, as far as a message with one string field needs it: an encoded string
  field has the size that \<open>StringSize\<close> computes plus one byte of tag, starts with tag 10 (field 1,
  length-delimited), and decodes to the string; the end of the input reads as tag 0; reading a tag
  or skipping a field consumes input; the empty set of unknown fields encodes to nothing.
\<close>

definition wire_ok :: "'u wire \<Rightarrow> bool" where
  "wire_ok w \<longleftrightarrow>
     (\<forall>s. length (w_write_string w 1 s) = 1 + w_string_size w s) \<and>
     (\<forall>s rest. \<exists>mid. w_read_tag w (w_write_string w 1 s @ rest) = (10, True, mid) \<and>
                     w_read_string w mid = (True, s, rest)) \<and>
     w_read_tag w [] = (0, False, []) \<and>
     \<not> w_have_unknown w (w_no_unknown w)"

definition wire_consumes :: "'u wire \<Rightarrow> bool" where
  "wire_consumes w \<longleftrightarrow>
     (\<forall>inp tag ok rest. w_read_tag w inp = (tag, ok, rest) \<longrightarrow> tag \<noteq> 0 \<longrightarrow> length rest < length inp) \<and>
     (\<forall>inp ok s rest. w_read_string w inp = (ok, s, rest) \<longrightarrow> length rest \<le> length inp) \<and>
     (\<forall>tag inp u u' rest. w_skip_field w tag inp u = Some (u', rest) \<longrightarrow> length rest \<le> length inp)"

section \<open>A message with one optional string\<close>

record 'u string_msg =
  has_bits :: "32 word"
  param :: "byte list"
  unknown_fields :: 'u
  cached_size :: int

definition has_param :: "'u string_msg \<Rightarrow> bool" where
  "has_param m = (has_bits m AND 1 \<noteq> 0)"

definition set_has_param :: "'u string_msg \<Rightarrow> 'u string_msg" where
  "set_has_param m = m\<lparr>has_bits := has_bits m OR 1\<rparr>"

definition clear_has_param :: "'u string_msg \<Rightarrow> 'u string_msg" where
  "clear_has_param m = m\<lparr>has_bits := has_bits m AND NOT 1\<rparr>"

definition clear_param :: "'u string_msg \<Rightarrow> 'u string_msg" where
  "clear_param m = clear_has_param (m\<lparr>param := []\<rparr>)"

definition set_param :: "byte list \<Rightarrow> 'u string_msg \<Rightarrow> 'u string_msg" where
  "set_param v m = (set_has_param m)\<lparr>param := v\<rparr>"

text \<open>\<open>release_param\<close>: the string handed over and the message without it.\<close>

definition release_param :: "'u string_msg \<Rightarrow> byte list \<times> 'u string_msg" where
  "release_param m = (param m, (clear_has_param m)\<lparr>param := []\<rparr>)"

definition set_allocated_param :: "byte list option \<Rightarrow> 'u string_msg \<Rightarrow> 'u string_msg" where
  "set_allocated_param v m =
     (case v of Some s \<Rightarrow> (set_has_param m)\<lparr>param := s\<rparr> | None \<Rightarrow> (clear_has_param m)\<lparr>param := []\<rparr>)"

text \<open>The constructor with \<open>SharedCtor\<close>, and the copy constructor.\<close>

definition msg_new :: "'u wire \<Rightarrow> 'u string_msg" where
  "msg_new w = \<lparr>has_bits = 0, param = [], unknown_fields = w_no_unknown w, cached_size = 0\<rparr>"

definition msg_copy :: "'u wire \<Rightarrow> 'u string_msg \<Rightarrow> 'u string_msg" where
  "msg_copy w from =
     \<lparr>has_bits = has_bits from,
      param = (if has_param from then param from else []),
      unknown_fields = w_unknown_merge w (w_no_unknown w) (unknown_fields from),
      cached_size = 0\<rparr>"

definition msg_clear :: "'u wire \<Rightarrow> 'u string_msg \<Rightarrow> 'u string_msg" where
  "msg_clear w m =
     m\<lparr>param := (if has_bits m AND 1 \<noteq> 0 then [] else param m),
       has_bits := 0, unknown_fields := w_no_unknown w\<rparr>"

text \<open>
  \<open>MergePartialFromCodedStream\<close>: the value returned and the message, \<open>None\<close> when the loop does not
  end. A string field is read into \<open>mutable_param()\<close>, which sets the has-bit first.
\<close>

partial_function (option) msg_merge_partial ::
  "'u wire \<Rightarrow> byte list \<Rightarrow> 'u string_msg \<Rightarrow> (bool \<times> 'u string_msg) option" where
  "msg_merge_partial w inp m =
     (case w_read_tag w inp of (tag, p, rest) \<Rightarrow>
        if p \<and> tag div 8 = 1 \<and> tag mod 256 = 10 then
          (case w_read_string w rest of (ok, s, rest') \<Rightarrow>
             if ok then msg_merge_partial w rest' (set_param s m)
             else Some (False, set_param s m))
        else if tag = 0 then Some (True, m)
        else (case w_skip_field w tag rest (unknown_fields m) of
                None \<Rightarrow> Some (False, m)
              | Some (u, rest') \<Rightarrow> msg_merge_partial w rest' (m\<lparr>unknown_fields := u\<rparr>)))"

text \<open>
  \<open>SerializeWithCachedSizes\<close> and \<open>InternalSerializeWithCachedSizesToArray\<close>: the bytes written.
\<close>

definition msg_serialize :: "'u wire \<Rightarrow> 'u string_msg \<Rightarrow> byte list" where
  "msg_serialize w m =
     (if has_bits m AND 1 \<noteq> 0 then w_write_string w 1 (param m) else []) @
     (if w_have_unknown w (unknown_fields m) then w_unknown_bytes w (unknown_fields m) else [])"

text \<open>\<open>ByteSizeLong\<close>: the size, which it also caches as an \<open>int\<close>.\<close>

definition msg_byte_size :: "'u wire \<Rightarrow> 'u string_msg \<Rightarrow> nat \<times> 'u string_msg" where
  "msg_byte_size w m =
     (let total = (if w_have_unknown w (unknown_fields m) then w_unknown_size w (unknown_fields m) else 0) +
                  (if has_param m then 1 + w_string_size w (param m) else 0)
      in (total, m\<lparr>cached_size := int total\<rparr>))"

definition msg_merge_from :: "'u wire \<Rightarrow> 'u string_msg \<Rightarrow> 'u string_msg \<Rightarrow> 'u string_msg" where
  "msg_merge_from w from m =
     (let m1 = m\<lparr>unknown_fields := w_unknown_merge w (unknown_fields m) (unknown_fields from)\<rparr>
      in if has_param from then (set_has_param m1)\<lparr>param := param from\<rparr> else m1)"

text \<open>\<open>CopyFrom\<close>; \<open>same\<close> is the test \<open>&from == this\<close>.\<close>

definition msg_copy_from :: "'u wire \<Rightarrow> bool \<Rightarrow> 'u string_msg \<Rightarrow> 'u string_msg \<Rightarrow> 'u string_msg" where
  "msg_copy_from w same from m = (if same then m else msg_merge_from w from (msg_clear w m))"

definition msg_is_initialized :: "'u string_msg \<Rightarrow> bool" where
  "msg_is_initialized m = True"

definition msg_swap :: "'u string_msg \<Rightarrow> 'u string_msg \<Rightarrow> 'u string_msg \<times> 'u string_msg" where
  "msg_swap m other =
     (m\<lparr>param := param other, has_bits := has_bits other, unknown_fields := unknown_fields other,
        cached_size := cached_size other\<rparr>,
      other\<lparr>param := param m, has_bits := has_bits m, unknown_fields := unknown_fields m,
            cached_size := cached_size m\<rparr>)"

text \<open>
  \<open>SC_RetPing\<close>: the generated class repeats the operations over its field \<open>ret_param\<close>, which is field 1
  of its message too.
\<close>

definition has_ret_param :: "'u string_msg \<Rightarrow> bool" where "has_ret_param = has_param"
definition clear_ret_param :: "'u string_msg \<Rightarrow> 'u string_msg" where "clear_ret_param = clear_param"
definition set_ret_param :: "byte list \<Rightarrow> 'u string_msg \<Rightarrow> 'u string_msg" where "set_ret_param = set_param"
definition release_ret_param :: "'u string_msg \<Rightarrow> byte list \<times> 'u string_msg" where "release_ret_param = release_param"
definition set_allocated_ret_param :: "byte list option \<Rightarrow> 'u string_msg \<Rightarrow> 'u string_msg" where
  "set_allocated_ret_param = set_allocated_param"
definition ret_new :: "'u wire \<Rightarrow> 'u string_msg" where "ret_new = msg_new"
definition ret_copy :: "'u wire \<Rightarrow> 'u string_msg \<Rightarrow> 'u string_msg" where "ret_copy = msg_copy"
definition ret_clear :: "'u wire \<Rightarrow> 'u string_msg \<Rightarrow> 'u string_msg" where "ret_clear = msg_clear"
definition ret_merge_partial :: "'u wire \<Rightarrow> byte list \<Rightarrow> 'u string_msg \<Rightarrow> (bool \<times> 'u string_msg) option" where
  "ret_merge_partial = msg_merge_partial"
definition ret_serialize :: "'u wire \<Rightarrow> 'u string_msg \<Rightarrow> byte list" where "ret_serialize = msg_serialize"
definition ret_byte_size :: "'u wire \<Rightarrow> 'u string_msg \<Rightarrow> nat \<times> 'u string_msg" where "ret_byte_size = msg_byte_size"
definition ret_merge_from :: "'u wire \<Rightarrow> 'u string_msg \<Rightarrow> 'u string_msg \<Rightarrow> 'u string_msg" where
  "ret_merge_from = msg_merge_from"
definition ret_copy_from :: "'u wire \<Rightarrow> bool \<Rightarrow> 'u string_msg \<Rightarrow> 'u string_msg \<Rightarrow> 'u string_msg" where
  "ret_copy_from = msg_copy_from"
definition ret_is_initialized :: "'u string_msg \<Rightarrow> bool" where "ret_is_initialized = msg_is_initialized"
definition ret_swap :: "'u string_msg \<Rightarrow> 'u string_msg \<Rightarrow> 'u string_msg \<times> 'u string_msg" where "ret_swap = msg_swap"

lemmas sc_ret_ping = has_ret_param_def clear_ret_param_def set_ret_param_def release_ret_param_def
  set_allocated_ret_param_def ret_new_def ret_copy_def ret_clear_def ret_merge_partial_def ret_serialize_def
  ret_byte_size_def ret_merge_from_def ret_copy_from_def ret_is_initialized_def ret_swap_def

section \<open>Packets and the packet factory\<close>

datatype packet_id = CS_INVALID | CS_PING | SC_RET_PING | OtherId nat

text \<open>\<open>static_cast<proto::PacketId>\<close>; values outside the enumeration stay distinct.\<close>

fun packet_id_of :: "nat \<Rightarrow> packet_id" where
  "packet_id_of n = (if n = 0 then CS_INVALID else if n = 1 then CS_PING
                     else if n = 2 then SC_RET_PING else OtherId n)"

fun packet_id_value :: "packet_id \<Rightarrow> nat" where
  "packet_id_value CS_INVALID = 0"
| "packet_id_value CS_PING = 1"
| "packet_id_value SC_RET_PING = 2"
| "packet_id_value (OtherId n) = n"

fun packet_id_is_valid :: "nat \<Rightarrow> bool" where
  "packet_id_is_valid n = (n = 0 \<or> n = 1 \<or> n = 2)"

datatype 'u packet = CS_Ping "'u string_msg" | SC_RetPing "'u string_msg"

fun packet_msg :: "'u packet \<Rightarrow> 'u string_msg" where
  "packet_msg (CS_Ping m) = m"
| "packet_msg (SC_RetPing m) = m"

text \<open>\<open>object_funcs\<close> and \<open>create_packet\<close>; \<open>None\<close> is the null pointer.\<close>

definition create_packet :: "'u wire \<Rightarrow> nat \<Rightarrow> 'u packet option" where
  "create_packet w pid =
     (case packet_id_of pid of
        CS_PING \<Rightarrow> Some (CS_Ping (msg_new w))
      | SC_RET_PING \<Rightarrow> Some (SC_RetPing (ret_new w))
      | _ \<Rightarrow> None)"

section \<open>Facts\<close>

lemma has_param_set [simp]: "has_param (set_param v m)" "has_param (set_has_param m)"
proof -
  have "bit ((has_bits m OR 1) AND 1) 0" by (simp add: bit_simps)
  then have "(has_bits m OR 1) AND 1 \<noteq> 0" by (metis bit_0_eq bot_apply bot_bool_def)
  then show "has_param (set_param v m)" "has_param (set_has_param m)"
    by (simp_all add: has_param_def set_param_def set_has_param_def)
qed

lemma set_param_fields [simp]:
  "param (set_param v m) = v" "unknown_fields (set_param v m) = unknown_fields m"
  "cached_size (set_param v m) = cached_size m" "has_bits (set_param v m) = has_bits m OR 1"
  by (simp_all add: set_param_def set_has_param_def)

lemma has_param_clear [simp]: "\<not> has_param (clear_param m)"
proof -
  have "(x AND NOT 1) AND 1 = 0" for x :: "32 word"
    by (rule bit_word_eqI) (auto simp: bit_simps)
  then show ?thesis by (simp add: has_param_def clear_param_def clear_has_param_def)
qed

lemma msg_merge_partial_ends:
  assumes "wire_consumes w"
  shows "\<exists>r. msg_merge_partial w inp m = Some r"
proof (induction "length inp" arbitrary: inp m rule: less_induct)
  case less
  obtain tag p rest where t: "w_read_tag w inp = (tag, p, rest)" by (metis prod_cases3)
  obtain ok s rest1 where s: "w_read_string w rest = (ok, s, rest1)" by (metis prod_cases3)
  show ?case
  proof (cases "tag = 0")
    case True
    then show ?thesis using t by (subst msg_merge_partial.simps) (simp del: split_paired_Ex)
  next
    case False
    then have shorter: "length rest < length inp" "length rest1 \<le> length rest"
      using assms t s unfolding wire_consumes_def by blast+
    have skip: "length rest2 \<le> length rest" if "w_skip_field w tag rest u = Some (u', rest2)" for u u' rest2
      using assms that unfolding wire_consumes_def by blast
    show ?thesis
      using False t s shorter less.hyps skip
      by (subst msg_merge_partial.simps) (fastforce split: option.splits)
  qed
qed

lemma msg_roundtrip_core:
  assumes "wire_ok w" "has_param m" "unknown_fields m = w_no_unknown w"
  shows "\<exists>m'. msg_merge_partial w (msg_serialize w m) (msg_new w) = Some (True, m') \<and>
    has_param m' \<and> param m' = param m \<and> unknown_fields m' = unknown_fields m \<and>
    length (msg_serialize w m) = fst (msg_byte_size w m)"
proof -
  have ser: "msg_serialize w m = w_write_string w 1 (param m)"
    using assms unfolding wire_ok_def has_param_def msg_serialize_def by simp
  obtain mid where mid: "w_read_tag w (w_write_string w 1 (param m) @ []) = (10, True, mid)"
    "w_read_string w mid = (True, param m, [])"
    using assms(1) unfolding wire_ok_def by blast
  have eof: "w_read_tag w [] = (0, False, [])" using assms(1) by (simp add: wire_ok_def)
  have "msg_merge_partial w (msg_serialize w m) (msg_new w) = Some (True, set_param (param m) (msg_new w))"
    using mid unfolding ser
    by (subst msg_merge_partial.simps) (simp add: msg_merge_partial.simps [of w "[]"] eof)
  moreover have "length (msg_serialize w m) = fst (msg_byte_size w m)"
    using assms by (simp add: ser wire_ok_def msg_byte_size_def Let_def)
  ultimately show ?thesis using assms by (simp add: msg_new_def)
qed

text \<open>
  C25: the generated code round-trips. On the documented wire format, serialising a message whose
  string field is set and which has no unknown fields, and merging the bytes into a fresh message,
  succeeds and gives back the field; the number of bytes written is what \<open>ByteSizeLong\<close> announced.
\<close>
theorem msg_roundtrip:
  assumes "wire_ok w" "has_param m" "unknown_fields m = w_no_unknown w"
  shows "\<exists>m'. msg_merge_partial w (msg_serialize w m) (msg_new w) = Some (True, m') \<and>
    has_param m' \<and> param m' = param m \<and> unknown_fields m' = unknown_fields m \<and>
    length (msg_serialize w m) = fst (msg_byte_size w m)"
  by (rule msg_roundtrip_core [OF assms])

section \<open>The wire format\<close>

text \<open>
  The encoding the protobuf documentation describes, for evaluation: base-128 varints, tags
  \<open>8 * field + wire type\<close>, length-delimited strings, unknown fields kept as their bytes.
\<close>

fun varint :: "nat \<Rightarrow> byte list" where
  "varint n = (if n < 128 then [of_nat n] else of_nat (128 + n mod 128) # varint (n div 128))"

declare varint.simps [simp del]

fun read_varint :: "byte list \<Rightarrow> (nat \<times> byte list) option" where
  "read_varint [] = None"
| "read_varint (b # bs) =
     (if unat b < 128 then Some (unat b, bs)
      else (case read_varint bs of None \<Rightarrow> None | Some (n, rest) \<Rightarrow> Some (unat b - 128 + 128 * n, rest)))"

lemma unat_of_nat_byte: "n < 256 \<Longrightarrow> unat (of_nat n :: byte) = n"
  by (simp add: unat_of_nat take_bit_eq_mod)

lemma read_varint_varint: "read_varint (varint n @ rest) = Some (n, rest)"
proof (induction n rule: varint.induct)
  case (1 n)
  show ?case
  proof (cases "n < 128")
    case True
    then show ?thesis by (simp add: varint.simps [of n] unat_of_nat_byte)
  next
    case False
    then have "unat (of_nat (128 + n mod 128) :: byte) = 128 + n mod 128"
      by (intro unat_of_nat_byte) linarith
    with False 1 show ?thesis by (simp add: varint.simps [of n])
  qed
qed

lemma read_varint_shorter: "read_varint bs = Some (n, rest) \<Longrightarrow> length rest < length bs"
  by (induction bs arbitrary: n rest) (fastforce split: if_splits option.splits)+

definition wf_read_tag :: "byte list \<Rightarrow> nat \<times> bool \<times> byte list" where
  "wf_read_tag inp = (case read_varint inp of None \<Rightarrow> (0, False, []) | Some (t, rest) \<Rightarrow> (t, t \<le> 127 \<and> t \<noteq> 0, rest))"

definition wf_read_string :: "byte list \<Rightarrow> bool \<times> byte list \<times> byte list" where
  "wf_read_string inp =
     (case read_varint inp of None \<Rightarrow> (False, [], [])
      | Some (n, rest) \<Rightarrow> if length rest < n then (False, [], []) else (True, take n rest, drop n rest))"

definition wf_skip_field :: "nat \<Rightarrow> byte list \<Rightarrow> byte list \<Rightarrow> (byte list \<times> byte list) option" where
  "wf_skip_field tag inp u =
     (if tag mod 8 = 2 then (case wf_read_string inp of (ok, s, rest) \<Rightarrow>
         if ok then Some (u @ varint tag @ varint (length s) @ s, rest) else None)
      else if tag mod 8 = 0 then (case read_varint inp of None \<Rightarrow> None
         | Some (n, rest) \<Rightarrow> Some (u @ varint tag @ varint n, rest))
      else None)"

definition proto_wire :: "byte list wire" where
  "proto_wire =
     \<lparr>w_string_size = (\<lambda>s. length (varint (length s)) + length s),
      w_write_string = (\<lambda>n s. of_nat (8 * n + 2) # varint (length s) @ s),
      w_read_tag = wf_read_tag, w_read_string = wf_read_string, w_skip_field = wf_skip_field,
      w_no_unknown = [], w_have_unknown = (\<lambda>u. u \<noteq> []), w_unknown_size = length,
      w_unknown_bytes = (\<lambda>u. u), w_unknown_merge = (@)\<rparr>"

lemma proto_wire_ok: "wire_ok proto_wire"
proof -
  have "\<exists>mid. wf_read_tag (10 # varint (length s) @ s @ rest) = (10, True, mid) \<and>
      wf_read_string mid = (True, s, rest)" for s rest
    by (intro exI [of _ "varint (length s) @ s @ rest"])
      (simp add: wf_read_tag_def wf_read_string_def read_varint_varint)
  moreover have "wf_read_tag [] = (0, False, [])" by (simp add: wf_read_tag_def)
  ultimately show ?thesis by (auto simp: wire_ok_def proto_wire_def)
qed

lemma proto_wire_consumes: "wire_consumes proto_wire"
proof -
  have a: "wf_read_tag inp = (tag, ok, rest) \<Longrightarrow> tag \<noteq> 0 \<Longrightarrow> length rest < length inp" for inp tag ok rest
    by (auto simp: wf_read_tag_def split: option.splits dest: read_varint_shorter)
  have b: "wf_read_string inp = (ok, s, rest) \<Longrightarrow> length rest \<le> length inp" for inp ok s rest
    by (auto simp: wf_read_string_def split: option.splits if_splits dest!: read_varint_shorter)
  have c: "wf_skip_field tag inp u = Some (u', rest) \<Longrightarrow> length rest \<le> length inp" for tag inp u u' rest
    by (auto simp: wf_skip_field_def split: option.splits if_splits prod.splits dest: b read_varint_shorter)
  from a b c show ?thesis unfolding wire_consumes_def proto_wire_def by (simp; blast)
qed

theorem msg_roundtrip_witness:
  "\<exists>m'. msg_merge_partial proto_wire (msg_serialize proto_wire (set_param [35, 36] (msg_new proto_wire)))
      (msg_new proto_wire) = Some (True, m') \<and>
    has_param m' \<and> param m' = [35, 36] \<and> unknown_fields m' = [] \<and>
    length (msg_serialize proto_wire (set_param [35, 36] (msg_new proto_wire))) =
      fst (msg_byte_size proto_wire (set_param [35, 36] (msg_new proto_wire)))"
proof -
  have u: "unknown_fields (set_param [35, 36] (msg_new proto_wire)) = w_no_unknown proto_wire"
    "w_no_unknown proto_wire = []"
    by (simp_all add: msg_new_def proto_wire_def)
  show ?thesis using msg_roundtrip [OF proto_wire_ok has_param_set(1) u(1)] u by simp
qed

text \<open>
  C29: parsing ends on every input. If the runtime consumes input as documented, the loop of
  \<open>MergePartialFromCodedStream\<close> reaches the end or fails, whatever bytes a peer sends.
\<close>
theorem msg_merge_partial_total:
  assumes "wire_consumes w"
  shows "\<exists>ok m'. msg_merge_partial w inp m = Some (ok, m')"
  using msg_merge_partial_ends [OF assms, of inp m] by simp

theorem msg_merge_partial_total_witness:
  "\<exists>ok m'. msg_merge_partial proto_wire [10, 200, 1, 2] (msg_new proto_wire) = Some (ok, m')"
  by (rule msg_merge_partial_total [OF proto_wire_consumes])

text \<open>
  The packet factory and the enumeration agree: \<open>create_packet\<close> returns an object exactly for the
  identifiers \<open>CS_PING\<close> and \<open>SC_RET_PING\<close>, and a null pointer for every other value, \<open>CS_INVALID\<close>
  (a valid enumerator) included.
\<close>
theorem create_packet_domain:
  "create_packet w pid = None \<longleftrightarrow> packet_id_of pid \<notin> {CS_PING, SC_RET_PING}"
  by (auto simp: create_packet_def split: packet_id.splits)

end
