(* ===== verification/Ring_Buffer.thy ===== *)
theory Ring_Buffer
  imports Prelude
begin

text \<open>
  The circular byte buffer that \<open>SocketInput\<close> and \<open>SocketOutput\<close> (src/socket) both keep: the two
  classes declare the same five private members and the same \<open>length\<close> and \<open>resize\<close>. The record
  \<open>ring\<close> is those members, \<open>ring_contents\<close> the queue of bytes it stands for, \<open>ring_inv\<close> the
  invariant between the members, and the lemmas say what each elementary change of the members
  does to the queue. One cell is always left free, so \<open>head = tail\<close> means empty.
\<close>

record ring =
  rb_buffer :: "cell list"
  rb_len :: int
  rb_max :: int
  rb_head :: int
  rb_tail :: int

definition ring_contents :: "ring \<Rightarrow> cell list" where
  "ring_contents r =
     (if rb_head r < rb_tail r
      then take (nat (rb_tail r - rb_head r)) (drop (nat (rb_head r)) (rb_buffer r))
      else if rb_head r > rb_tail r
      then drop (nat (rb_head r)) (rb_buffer r) @ take (nat (rb_tail r)) (rb_buffer r)
      else [])"

definition ring_inv :: "ring \<Rightarrow> bool" where
  "ring_inv r \<longleftrightarrow>
     int (length (rb_buffer r)) = rb_len r \<and> 0 < rb_len r \<and> rb_len r \<le> int_max \<and>
     0 \<le> rb_head r \<and> rb_head r < rb_len r \<and> 0 \<le> rb_tail r \<and> rb_tail r < rb_len r"

text \<open>\<open>length()\<close> of both classes.\<close>

definition ring_length :: "ring \<Rightarrow> int" where
  "ring_length r =
     (if rb_head r < rb_tail r then rb_tail r - rb_head r
      else if rb_head r > rb_tail r then rb_len r - rb_head r + rb_tail r
      else 0)"

text \<open>
  \<open>resize(size)\<close> of both classes; \<open>half\<close> is the class's constant. The bytes of the new array that
  are not copied are indeterminate.
\<close>

definition ring_resize :: "int \<Rightarrow> int \<Rightarrow> ring \<Rightarrow> (bool \<times> ring) result" where
  "ring_resize half sz r =
     (if sz \<le> 0 then Inr (False, r) else
      let len = ring_length r;
          tmp_size = (if sz > half then sz else half)
      in bindR (add32 (rb_len r) tmp_size) (\<lambda>new_buffer_len.
         let new_buffer = replicate (nat new_buffer_len) None in
         bindR (if rb_head r < rb_tail r
                then mem_cpy new_buffer 0 (rb_buffer r) (rb_head r) (rb_tail r - rb_head r)
                else if rb_head r > rb_tail r
                then bindR (mem_cpy new_buffer 0 (rb_buffer r) (rb_head r) (rb_len r - rb_head r))
                       (\<lambda>b. mem_cpy b (rb_len r - rb_head r) (rb_buffer r) 0 (rb_tail r))
                else Inr new_buffer)
           (\<lambda>b. Inr (True, r\<lparr>rb_buffer := b, rb_len := new_buffer_len,
                             rb_head := 0, rb_tail := len\<rparr>))))"

section \<open>Facts about the members\<close>

lemma ring_invD:
  assumes "ring_inv r"
  shows "int (length (rb_buffer r)) = rb_len r" "0 < rb_len r" "rb_len r \<le> int_max"
    "0 \<le> rb_head r" "rb_head r < rb_len r" "0 \<le> rb_tail r" "rb_tail r < rb_len r"
  using assms by (auto simp: ring_inv_def)

lemma length_ring_contents [simp]:
  assumes "ring_inv r"
  shows "int (length (ring_contents r)) = ring_length r"
  using ring_invD [OF assms] by (auto simp: ring_contents_def ring_length_def)

lemma ring_length_bounds:
  assumes "ring_inv r"
  shows "0 \<le> ring_length r" "ring_length r < rb_len r"
  using ring_invD [OF assms] by (auto simp: ring_length_def)

lemma ring_contents_head0:
  "rb_head r = 0 \<Longrightarrow> 0 \<le> rb_tail r \<Longrightarrow> ring_contents r = take (nat (rb_tail r)) (rb_buffer r)"
  by (cases "rb_tail r = 0") (simp_all add: ring_contents_def)

section \<open>Elementary changes\<close>

text \<open>Dropping bytes at the head: \<open>head = (head + sz) % buffer_len\<close>.\<close>

definition ring_advance :: "int \<Rightarrow> ring \<Rightarrow> ring" where
  "ring_advance n r = r\<lparr>rb_head := c_rem (rb_head r + n) (rb_len r)\<rparr>"

lemma ring_advance_inv:
  assumes "ring_inv r" "0 \<le> n"
  shows "ring_inv (ring_advance n r)"
  using ring_invD [OF assms(1)] assms(2)
  by (simp add: ring_advance_def ring_inv_def c_rem_nonneg)

lemma ring_advance_contents:
  assumes inv: "ring_inv r" and n: "0 \<le> n" "n \<le> ring_length r"
  shows "ring_contents (ring_advance n r) = drop (nat n) (ring_contents r)"
proof -
  note i = ring_invD [OF inv]
  have head: "c_rem (rb_head r + n) (rb_len r) =
      (if rb_head r + n < rb_len r then rb_head r + n else rb_head r + n - rb_len r)"
    using i n ring_length_bounds [OF inv] by (intro c_rem_wrap) auto
  consider (less) "rb_head r < rb_tail r" | (more) "rb_head r > rb_tail r" | (eq) "rb_head r = rb_tail r"
    by linarith
  then show ?thesis
  proof cases
    case less
    then have le: "n \<le> rb_tail r - rb_head r" using n by (simp add: ring_length_def)
    let ?h = "nat (rb_head r)" and ?n = "nat n" and ?t = "nat (rb_tail r)"
    have old: "ring_contents r = take (?t - ?h) (drop ?h (rb_buffer r))"
      using less i by (simp add: ring_contents_def nat_diff_distrib)
    have "ring_contents (ring_advance n r) = take (?t - (?n + ?h)) (drop (?n + ?h) (rb_buffer r))"
    proof (cases "rb_head r + n < rb_tail r")
      case True
      moreover have "nat (rb_head r + n) = ?n + ?h" "nat (rb_tail r - (rb_head r + n)) = ?t - (?n + ?h)"
        using i n True by linarith+
      ultimately show ?thesis using i head by (simp add: ring_contents_def ring_advance_def)
    next
      case False
      then have "?t - (?n + ?h) = 0" "rb_head r + n = rb_tail r" using le i n by linarith+
      then show ?thesis using i head by (simp add: ring_contents_def ring_advance_def)
    qed
    then show ?thesis unfolding old by (simp add: drop_take add.commute)
  next
    case more
    then have nb: "n \<le> rb_len r - rb_head r + rb_tail r" using n by (simp add: ring_length_def)
    have len: "length (drop (nat (rb_head r)) (rb_buffer r)) = nat (rb_len r - rb_head r)"
      using i by simp
    show ?thesis
    proof (cases "rb_head r + n < rb_len r")
      case True
      then have "nat n - nat (rb_len r - rb_head r) = 0" by simp
      moreover have "nat (rb_head r + n) = nat n + nat (rb_head r)" using i n by simp
      ultimately show ?thesis
        using more True i n head len by (auto simp: ring_contents_def ring_advance_def)
    next
      case False
      let ?m = "nat (rb_head r + n - rb_len r)"
      have lhs: "ring_contents (ring_advance n r) =
          take (nat (rb_tail r) - ?m) (drop ?m (rb_buffer r))"
        using False more i nb n head
        by (auto simp: ring_contents_def ring_advance_def nat_diff_distrib)
      have "nat n - length (drop (nat (rb_head r)) (rb_buffer r)) = ?m"
        unfolding len using False i n by linarith
      moreover have "drop (nat n) (drop (nat (rb_head r)) (rb_buffer r)) = []"
        using len False i n by simp
      ultimately have "drop (nat n) (ring_contents r) = drop ?m (take (nat (rb_tail r)) (rb_buffer r))"
        using more by (simp add: ring_contents_def)
      then show ?thesis unfolding lhs by (simp add: drop_take)
    qed
  next
    case eq
    then have "n = 0" using n by (simp add: ring_length_def)
    with eq i head show ?thesis by (simp add: ring_contents_def ring_advance_def)
  qed
qed

text \<open>Storing bytes at the tail, in the part of the array that ends at \<open>buffer_len\<close>.\<close>

lemma take_drop_write:
  assumes "h \<le> t" "t \<le> length b"
  shows "take (t + length xs - h) (drop h (take t b @ xs @ ys)) = take (t - h) (drop h b) @ xs"
  using assms by (simp add: drop_take)

lemma ring_put_right:
  assumes inv: "ring_inv r" and le: "rb_head r \<le> rb_tail r"
    and room: "rb_tail r + int (length xs) < rb_len r"
    and w: "mem_write (rb_buffer r) (rb_tail r) xs = Inr b"
  shows "ring_contents (r\<lparr>rb_buffer := b, rb_tail := rb_tail r + int (length xs)\<rparr>) =
      ring_contents r @ xs"
    and "ring_inv (r\<lparr>rb_buffer := b, rb_tail := rb_tail r + int (length xs)\<rparr>)"
proof -
  note i = ring_invD [OF inv]
  let ?h = "nat (rb_head r)" and ?t = "nat (rb_tail r)"
  have b: "b = take ?t (rb_buffer r) @ xs @ drop (?t + length xs) (rb_buffer r)"
    using w by (auto simp: mem_write_def split: if_splits)
  have ht: "?h \<le> ?t" "?t \<le> length (rb_buffer r)" using i le by auto
  have old: "ring_contents r = take (?t - ?h) (drop ?h (rb_buffer r))"
    using le i by (auto simp: ring_contents_def nat_diff_distrib)
  show "ring_contents (r\<lparr>rb_buffer := b, rb_tail := rb_tail r + int (length xs)\<rparr>) =
      ring_contents r @ xs"
  proof (cases "rb_head r < rb_tail r + int (length xs)")
    case True
    have "nat (rb_tail r + int (length xs) - rb_head r) = ?t + length xs - ?h"
      using i le by linarith
    with True have "ring_contents (r\<lparr>rb_buffer := b, rb_tail := rb_tail r + int (length xs)\<rparr>) =
        take (?t + length xs - ?h) (drop ?h b)"
      by (simp add: ring_contents_def)
    then show ?thesis unfolding old b by (simp only: take_drop_write [OF ht])
  next
    case False
    with le have "length xs = 0" "rb_head r = rb_tail r" by linarith+
    with False show ?thesis by (simp add: ring_contents_def)
  qed
  show "ring_inv (r\<lparr>rb_buffer := b, rb_tail := rb_tail r + int (length xs)\<rparr>)"
    using i le room mem_write_length [OF w] by (simp add: ring_inv_def)
qed

text \<open>Filling the array to its end: the tail wraps to the first cell.\<close>

lemma ring_put_to_end:
  assumes inv: "ring_inv r" and le: "rb_head r \<le> rb_tail r" and pos: "0 < rb_head r"
    and full: "rb_tail r + int (length xs) = rb_len r"
    and w: "mem_write (rb_buffer r) (rb_tail r) xs = Inr b"
  shows "ring_contents (r\<lparr>rb_buffer := b, rb_tail := 0\<rparr>) = ring_contents r @ xs"
    and "ring_inv (r\<lparr>rb_buffer := b, rb_tail := 0\<rparr>)"
proof -
  note i = ring_invD [OF inv]
  let ?h = "nat (rb_head r)" and ?t = "nat (rb_tail r)"
  have "?t + length xs = length (rb_buffer r)" using i full by linarith
  then have b: "b = take ?t (rb_buffer r) @ xs"
    using w by (auto simp: mem_write_def split: if_splits)
  have ht: "?h \<le> ?t" "?t \<le> length (rb_buffer r)" using i le by auto
  have old: "ring_contents r = take (?t - ?h) (drop ?h (rb_buffer r))"
    using le i by (auto simp: ring_contents_def nat_diff_distrib)
  show "ring_contents (r\<lparr>rb_buffer := b, rb_tail := 0\<rparr>) = ring_contents r @ xs"
    using pos ht unfolding old b by (simp add: ring_contents_def drop_take)
  show "ring_inv (r\<lparr>rb_buffer := b, rb_tail := 0\<rparr>)"
    using i mem_write_length [OF w] by (simp add: ring_inv_def)
qed

text \<open>Storing bytes below the head.\<close>

lemma ring_put_left:
  assumes inv: "ring_inv r" and gt: "rb_head r > rb_tail r"
    and room: "rb_tail r + int (length xs) < rb_head r"
    and w: "mem_write (rb_buffer r) (rb_tail r) xs = Inr b"
  shows "ring_contents (r\<lparr>rb_buffer := b, rb_tail := rb_tail r + int (length xs)\<rparr>) =
      ring_contents r @ xs"
    and "ring_inv (r\<lparr>rb_buffer := b, rb_tail := rb_tail r + int (length xs)\<rparr>)"
proof -
  note i = ring_invD [OF inv]
  let ?h = "nat (rb_head r)" and ?t = "nat (rb_tail r)"
  have b: "b = take ?t (rb_buffer r) @ xs @ drop (?t + length xs) (rb_buffer r)"
    using w by (auto simp: mem_write_def split: if_splits)
  have le: "?t + length xs \<le> ?h" "?t \<le> length (rb_buffer r)" using i room by auto
  have "nat (rb_tail r + int (length xs)) = ?t + length xs" using i by simp
  moreover have "drop ?h b = drop ?h (rb_buffer r)"
    using le unfolding b by simp
  moreover have "take (?t + length xs) b = take ?t (rb_buffer r) @ xs"
    using le unfolding b by simp
  ultimately show "ring_contents (r\<lparr>rb_buffer := b, rb_tail := rb_tail r + int (length xs)\<rparr>) =
      ring_contents r @ xs"
    using gt room by (simp add: ring_contents_def)
  show "ring_inv (r\<lparr>rb_buffer := b, rb_tail := rb_tail r + int (length xs)\<rparr>)"
    using i room mem_write_length [OF w] by (simp add: ring_inv_def)
qed

section \<open>Growing\<close>

text \<open>Copying behind a prefix already in place, into fresh memory.\<close>

lemma mem_cpy_fresh:
  assumes "int (length xs) = doff" "0 \<le> soff" "0 \<le> n" "soff + n \<le> int (length src)"
    "n < 2 ^ 64" "nat n \<le> m"
  shows "mem_cpy (xs @ replicate m None) doff src soff n =
    Inr (xs @ take (nat n) (drop (nat soff) src) @ replicate (m - nat n) None)"
proof -
  have d: "nat doff = length xs" "nat (doff + n) = length xs + nat n" using assms by linarith+
  have "doff + n \<le> int (length (xs @ replicate m None))" using assms by simp
  with assms have "mem_cpy (xs @ replicate m None) doff src soff n =
      Inr (take (nat doff) (xs @ replicate m None) @ take (nat n) (drop (nat soff) src) @
           drop (nat (doff + n)) (xs @ replicate m None))"
    by (intro mem_cpy_ok) auto
  then show ?thesis unfolding d by simp
qed

lemma ring_relocate:
  assumes inv: "ring_inv r" and new: "rb_len r < new"
  shows "(if rb_head r < rb_tail r
        then mem_cpy (replicate (nat new) None) 0 (rb_buffer r) (rb_head r) (rb_tail r - rb_head r)
        else if rb_head r > rb_tail r
        then bindR (mem_cpy (replicate (nat new) None) 0 (rb_buffer r) (rb_head r) (rb_len r - rb_head r))
               (\<lambda>b. mem_cpy b (rb_len r - rb_head r) (rb_buffer r) 0 (rb_tail r))
        else Inr (replicate (nat new) None)) =
      Inr (ring_contents r @ replicate (nat new - length (ring_contents r)) None)"
proof -
  note i = ring_invD [OF inv]
  have big: "rb_len r < 2 ^ 31" using i by (simp add: int_max_def)
  have lc: "int (length (ring_contents r)) = ring_length r" using inv by simp
  consider (less) "rb_head r < rb_tail r" | (more) "rb_head r > rb_tail r" | (eq) "rb_head r = rb_tail r"
    by linarith
  then show ?thesis
  proof cases
    case less
    have c: "mem_cpy ([] @ replicate (nat new) None) 0 (rb_buffer r) (rb_head r) (rb_tail r - rb_head r) =
        Inr ([] @ take (nat (rb_tail r - rb_head r)) (drop (nat (rb_head r)) (rb_buffer r)) @
          replicate (nat new - nat (rb_tail r - rb_head r)) None)"
      by (rule mem_cpy_fresh) (use less i new big in auto)
    have n: "nat (rb_tail r - rb_head r) = length (ring_contents r)"
      using lc less by (simp add: ring_length_def)
    have rc: "take (length (ring_contents r)) (drop (nat (rb_head r)) (rb_buffer r)) = ring_contents r"
      unfolding n [symmetric] using less by (simp add: ring_contents_def)
    show ?thesis
      by (simp only: if_P [OF less] c [unfolded append_Nil] n rc)
  next
    case more
    let ?k = "rb_len r - rb_head r" and ?right = "drop (nat (rb_head r)) (rb_buffer r)"
    have right: "take (nat ?k) ?right = ?right" "length ?right = nat ?k" using i by simp_all
    have c1: "mem_cpy ([] @ replicate (nat new) None) 0 (rb_buffer r) (rb_head r) ?k =
        Inr ([] @ take (nat ?k) ?right @ replicate (nat new - nat ?k) None)"
      by (rule mem_cpy_fresh) (use more i new big in auto)
    have fits: "nat (rb_tail r) \<le> nat new - nat ?k" using more i new by linarith
    have c2: "mem_cpy (?right @ replicate (nat new - nat ?k) None) ?k (rb_buffer r) 0 (rb_tail r) =
        Inr (?right @ take (nat (rb_tail r)) (drop (nat 0) (rb_buffer r)) @
          replicate (nat new - nat ?k - nat (rb_tail r)) None)"
      by (rule mem_cpy_fresh) (use right(2) fits big i in simp_all)
    have rest: "nat new - nat ?k - nat (rb_tail r) = nat new - length (ring_contents r)"
      using lc more i by (simp add: ring_length_def)
    have rc: "?right @ take (nat (rb_tail r)) (rb_buffer r) = ring_contents r"
      using more by (simp add: ring_contents_def)
    have nlt: "\<not> rb_head r < rb_tail r" using more by simp
    show ?thesis
      by (simp only: if_not_P [OF nlt] if_P [OF more] c1 [unfolded append_Nil] right(1) bindR_simps c2
          rest nat_zero_as_int [symmetric] nat_0 drop_0 append_assoc [symmetric] rc)
  next
    case eq
    then show ?thesis by (simp add: ring_contents_def)
  qed
qed

lemma ring_resize_refuses: "sz \<le> 0 \<Longrightarrow> ring_resize half sz r = Inr (False, r)"
  by (simp add: ring_resize_def)

lemma ring_resize_ok:
  assumes inv: "ring_inv r" and sz: "0 < sz" and fits: "rb_len r + max sz half \<le> int_max"
  obtains r' where "ring_resize half sz r = Inr (True, r')"
    "ring_inv r'" "ring_contents r' = ring_contents r"
    "rb_len r' = rb_len r + max sz half" "rb_head r' = 0" "rb_tail r' = ring_length r"
    "rb_max r' = rb_max r"
proof -
  note i = ring_invD [OF inv]
  note bnds = ring_length_bounds [OF inv]
  let ?new = "rb_len r + max sz half"
  let ?buf = "rb_buffer r" and ?h = "nat (rb_head r)" and ?t = "nat (rb_tail r)"
  let ?b = "ring_contents r @ replicate (nat ?new - length (ring_contents r)) None"
  have big: "rb_len r < 2 ^ 31" using i by (simp add: int_max_def)
  have add: "add32 (rb_len r) (if sz > half then sz else half) = Inr ?new"
    using fits sz i by (auto simp: add32_def max_def int_min_def)
  have new: "rb_len r < ?new" using sz by simp
  have nlen: "length (replicate (nat ?new) (None :: cell)) = nat ?new" by simp
  have copy: "(if rb_head r < rb_tail r
        then mem_cpy (replicate (nat ?new) None) 0 ?buf (rb_head r) (rb_tail r - rb_head r)
        else if rb_head r > rb_tail r
        then bindR (mem_cpy (replicate (nat ?new) None) 0 ?buf (rb_head r) (rb_len r - rb_head r))
               (\<lambda>b. mem_cpy b (rb_len r - rb_head r) ?buf 0 (rb_tail r))
        else Inr (replicate (nat ?new) None)) = Inr ?b"
    by (rule ring_relocate [OF inv]) (use new in simp)
  let ?r = "r\<lparr>rb_buffer := ?b, rb_len := ?new, rb_head := 0, rb_tail := ring_length r\<rparr>"
  have lc: "length (ring_contents r) = nat (ring_length r)"
    using length_ring_contents [OF inv] by linarith
  show thesis
  proof (rule that [of ?r])
    show "ring_resize half sz r = Inr (True, ?r)"
      using sz by (simp add: ring_resize_def add copy Let_def)
    show "ring_inv ?r" using i new fits bnds lc by (simp add: ring_inv_def)
    show "ring_contents ?r = ring_contents r"
      using bnds lc by (subst ring_contents_head0) simp_all
  qed simp_all
qed

end
