(* ===== verification/Buffer_Spec.thy ===== *)
theory Buffer_Spec
  imports Prelude
begin

text \<open>
  The two interfaces through which the packet layer uses the socket buffers. \<open>byte_source\<close> is what
  \<open>Connector::exec_parse\<close> relies on of \<open>SocketInput\<close>, \<open>byte_sink\<close> what \<open>Connector::send_packet\<close> relies on
  of \<open>SocketOutput\<close>: each is a queue of bytes behind an abstraction function, and the lemmas a client
  needs are proved from the laws alone. The providers interpret them.
\<close>

locale byte_source =
  fixes fetch :: "cell list \<Rightarrow> int \<Rightarrow> 's \<Rightarrow> (cell list \<times> 's) result"
    and queued :: "'s \<Rightarrow> cell list"
    and wf :: "'s \<Rightarrow> bool"
  assumes fetch_available: "wf s \<Longrightarrow> 0 < n \<Longrightarrow> n \<le> int (length (queued s)) \<Longrightarrow> n \<le> int (length dst) \<Longrightarrow>
      \<exists>s'. fetch dst n s = Inr (take (nat n) (queued s) @ drop (nat n) dst, s') \<and> wf s' \<and>
           queued s' = drop (nat n) (queued s)"
    and fetch_unavailable: "wf s \<Longrightarrow> n = 0 \<or> int (length (queued s)) < n \<Longrightarrow> fetch dst n s = Inr (dst, s)"
    and fetch_below_zero: "wf s \<Longrightarrow> n < 0 \<Longrightarrow> int_min \<le> n \<Longrightarrow> fetch dst n s = Inl OutOfBounds"
begin

text \<open>A destination of the right size receives exactly the first bytes, none included.\<close>

lemma fetch_exact:
  assumes "wf s" "queued s = xs @ ys" "length dst = length xs"
  shows "\<exists>s'. fetch dst (int (length xs)) s = Inr (xs, s') \<and> wf s' \<and> queued s' = ys"
proof (cases "xs = []")
  case True
  with assms fetch_unavailable [of s 0 dst] show ?thesis by simp
next
  case False
  with assms fetch_available [of s "int (length xs)" dst] show ?thesis by simp
qed

text \<open>Two fetches in a row split a prefix of the queue.\<close>

lemma fetch_two:
  assumes "wf s" "queued s = xs @ ys @ zs" "length dst1 = length xs" "length dst2 = length ys"
  shows "\<exists>s1 s2. fetch dst1 (int (length xs)) s = Inr (xs, s1) \<and>
    fetch dst2 (int (length ys)) s1 = Inr (ys, s2) \<and> wf s2 \<and> queued s2 = zs"
proof -
  obtain s1 where s1: "fetch dst1 (int (length xs)) s = Inr (xs, s1)" "wf s1" "queued s1 = ys @ zs"
    using fetch_exact [OF assms(1,2,3)] by blast
  obtain s2 where "fetch dst2 (int (length ys)) s1 = Inr (ys, s2)" "wf s2" "queued s2 = zs"
    using fetch_exact [OF s1(2,3) assms(4)] by blast
  with s1 show ?thesis by blast
qed

end

locale byte_sink =
  fixes put :: "cell list \<Rightarrow> int \<Rightarrow> 's \<Rightarrow> (int \<times> 's) result"
    and queued :: "'s \<Rightarrow> cell list"
    and wf :: "'s \<Rightarrow> bool"
    and room :: "int \<Rightarrow> 's \<Rightarrow> bool"
  assumes put_appends: "wf s \<Longrightarrow> 0 \<le> n \<Longrightarrow> n \<le> int (length xs) \<Longrightarrow> room n s \<Longrightarrow>
      \<exists>s'. put xs n s = Inr (n, s') \<and> wf s' \<and> queued s' = queued s @ take (nat n) xs"
begin

lemma put_whole:
  assumes "wf s" "room (int (length xs)) s"
  shows "\<exists>s'. put xs (int (length xs)) s = Inr (int (length xs), s') \<and> wf s' \<and> queued s' = queued s @ xs"
  using put_appends [OF assms(1) _ _ assms(2), of xs] by simp

end

end
