(* ===== verification/Socket_Input.thy ===== *)
theory Socket_Input
  imports Ring_Buffer Posix_Api Buffer_Spec
begin

text \<open>
  src/socket/socket_input.cpp and socket_input.h: the buffer between a TCP socket and the packet
  parser. \<open>feed\<close> fills it from the socket, growing it up to about one megabyte; \<open>fetch\<close> takes bytes
  out. The theorems: under the documented behaviour of \<open>recv\<close>, \<open>feed\<close> stays inside its array and keeps the
  invariant, unless data that arrive between \<open>ioctl\<close> and \<open>recv\<close> overrun it (\<open>feed_overrun\<close>); what it stores,
  appended to what was there, is exactly what the socket delivered, in order; \<open>fetch\<close> removes exactly the bytes it
  copies out. Two more pin down behaviour the authors did not intend: a full buffer reported as a closed connection,
  and \<open>fetch\<close> with a negative size.
\<close>

type_synonym socket_input = ring

definition SOCKET_INPUT_SIZE :: int where "SOCKET_INPUT_SIZE = 16"
definition SOCKET_INPUT_SIZE_HALF :: int where "SOCKET_INPUT_SIZE_HALF = 8"
definition SOCKET_INPUT_MAXSIZE :: int where "SOCKET_INPUT_MAXSIZE = 1024 * 1024"

lemmas input_sizes = SOCKET_INPUT_SIZE_def SOCKET_INPUT_SIZE_HALF_def SOCKET_INPUT_MAXSIZE_def

text \<open>The constructor: a zeroed array of the initial size.\<close>

definition si_new :: socket_input where
  "si_new = \<lparr>rb_buffer = replicate (nat SOCKET_INPUT_SIZE) (Some 0), rb_len = SOCKET_INPUT_SIZE,
             rb_max = SOCKET_INPUT_MAXSIZE, rb_head = 0, rb_tail = 0\<rparr>"

definition si_init :: "socket_input \<Rightarrow> socket_input" where
  "si_init s = s\<lparr>rb_head := 0, rb_tail := 0, rb_len := SOCKET_INPUT_SIZE,
                 rb_buffer := replicate (nat SOCKET_INPUT_SIZE) (Some 0)\<rparr>"

definition si_resize :: "int \<Rightarrow> socket_input \<Rightarrow> (bool \<times> socket_input) result" where
  "si_resize = ring_resize SOCKET_INPUT_SIZE_HALF"

definition si_length :: "socket_input \<Rightarrow> int" where
  "si_length = ring_length"

text \<open>
  \<open>fetch(buff, size)\<close>: \<open>dst\<close> is the caller's array, returned with what \<open>fetch\<close> stored in it.
\<close>

definition si_fetch :: "cell list \<Rightarrow> int \<Rightarrow> socket_input \<Rightarrow> (cell list \<times> socket_input) result" where
  "si_fetch dst sz s =
     (if sz = 0 \<or> sz > si_length s then Inr (dst, s) else
      bindR (if rb_head s < rb_tail s then mem_cpy dst 0 (rb_buffer s) (rb_head s) sz
             else let right_size = rb_len s - rb_head s in
               if sz < right_size then mem_cpy dst 0 (rb_buffer s) (rb_head s) sz
               else bindR (mem_cpy dst 0 (rb_buffer s) (rb_head s) right_size)
                 (\<lambda>d. mem_cpy d right_size (rb_buffer s) 0 (sz - right_size)))
        (\<lambda>d. Inr (d, ring_advance sz s)))"

definition si_skip :: "int \<Rightarrow> socket_input \<Rightarrow> socket_input" where
  "si_skip sz s = (if sz = 0 \<or> sz > si_length s then s else ring_advance sz s)"

text \<open>\<open>recv(socket_fd, &buffer_[pos], n, 0)\<close>: the value returned and the array after the call.\<close>

definition si_recv ::
  "'k posix \<Rightarrow> int \<Rightarrow> int \<Rightarrow> int \<Rightarrow> socket_input \<Rightarrow> 'k \<Rightarrow> (int \<times> socket_input \<times> 'k) result" where
  "si_recv os fd pos n s k =
     (case sys_recv os fd (to_size_t n) k of
        (Received bs, k') \<Rightarrow>
          bindR (mem_write (rb_buffer s) pos (map Some bs))
            (\<lambda>b. Inr (int (length bs), s\<lparr>rb_buffer := b\<rparr>, k'))
      | (RecvError e, k') \<Rightarrow> Inr (-1, s, k'))"

text \<open>
  The block that every branch of \<open>feed\<close> ends with when the array is too small for the
  \<open>remain_bytes\<close> that \<open>ioctl\<close> reported: refuse beyond the maximum, grow, receive at the tail.
  \<open>n\<close> is the length passed to that \<open>recv\<close>.
\<close>

definition si_grow_recv ::
  "'k posix \<Rightarrow> int \<Rightarrow> int \<Rightarrow> int \<Rightarrow> int \<Rightarrow> socket_input \<Rightarrow> 'k \<Rightarrow> (int \<times> socket_input \<times> 'k) result"
where
  "si_grow_recv os fd remain n filled s k =
     bindR (add32 (rb_len s) remain) (\<lambda>a. bindR (add32 a 1) (\<lambda>needed.
     if needed > rb_max s then Inr (-1000, si_init s, k) else
     bindR (si_resize (remain + 1) s) (\<lambda>(ok, s1).
     if \<not> ok then Inr (0, s1, k) else
     bindR (si_recv os fd (rb_tail s1) n s1 k) (\<lambda>(received, s2, k2).
     if received \<le> 0 then Inr (received, s2, k2)
     else Inr (filled + received, s2\<lparr>rb_tail := rb_tail s2 + received\<rparr>, k2)))))"

text \<open>\<open>feed\<close> with the data at the start of the array (\<open>head_ == 0\<close>).\<close>

definition si_feed_start ::
  "'k posix \<Rightarrow> int \<Rightarrow> socket_input \<Rightarrow> 'k \<Rightarrow> (int \<times> socket_input \<times> 'k) result" where
  "si_feed_start os fd s k =
     (let free_bytes = rb_len s - rb_tail s - 1;
          more = (\<lambda>filled s k.
            case sys_fionread os fd k of (remain, k') \<Rightarrow>
              if remain > 0 then si_grow_recv os fd remain free_bytes filled s k'
              else Inr (filled, s, k'))
      in if free_bytes > 0 then
           bindR (si_recv os fd (rb_tail s) free_bytes s k) (\<lambda>(received, s1, k1).
           if received \<le> 0 then Inr (received, s1, k1) else
           let s2 = s1\<lparr>rb_tail := rb_tail s1 + received\<rparr> in
           if free_bytes = received then more received s2 k1 else Inr (received, s2, k1))
         else more 0 s k)"

text \<open>\<open>feed\<close> with \<open>0 < head_ <= tail_\<close>: fill to the end of the array, then from its start.\<close>

definition si_feed_tail ::
  "'k posix \<Rightarrow> int \<Rightarrow> socket_input \<Rightarrow> 'k \<Rightarrow> (int \<times> socket_input \<times> 'k) result" where
  "si_feed_tail os fd s k =
     (let free_bytes = rb_len s - rb_tail s
      in bindR (si_recv os fd (rb_tail s) free_bytes s k) (\<lambda>(received, s1, k1).
         if received \<le> 0 then Inr (received, s1, k1) else
         let s2 = s1\<lparr>rb_tail := c_rem (rb_tail s1 + received) (rb_len s1)\<rparr>
         in if received = free_bytes then
              (case sys_fionread os fd k1 of (remain, k2) \<Rightarrow>
                 if remain \<le> 0 then Inr (received, s2, k2)
                 else if remain > rb_head s2 - 1
                 then si_grow_recv os fd remain remain received s2 k2
                 else bindR (si_recv os fd 0 remain s2 k2) (\<lambda>(received', s3, k3).
                   if received' \<le> 0 then Inr (received', s3, k3)
                   else Inr (received + received', s3\<lparr>rb_tail := rb_tail s3 + received'\<rparr>, k3)))
            else Inr (received, s2, k1)))"

text \<open>\<open>feed\<close> with \<open>head_ > tail_\<close>: the free part lies below the head.\<close>

definition si_feed_wrapped ::
  "'k posix \<Rightarrow> int \<Rightarrow> socket_input \<Rightarrow> 'k \<Rightarrow> (int \<times> socket_input \<times> 'k) result" where
  "si_feed_wrapped os fd s k =
     (let free_bytes = rb_head s - rb_tail s - 1
      in bindR (si_recv os fd (rb_tail s) free_bytes s k) (\<lambda>(received, s1, k1).
         if received \<le> 0 then Inr (received, s1, k1) else
         let s2 = s1\<lparr>rb_tail := rb_tail s1 + received\<rparr>
         in if free_bytes = received then
              (case sys_fionread os fd k1 of (remain, k2) \<Rightarrow>
                 if remain > 0 then si_grow_recv os fd remain remain received s2 k2
                 else Inr (received, s2, k2))
            else Inr (received, s2, k1)))"

definition si_feed ::
  "'k posix \<Rightarrow> int \<Rightarrow> socket_input \<Rightarrow> 'k \<Rightarrow> (int \<times> socket_input \<times> 'k) result" where
  "si_feed os fd s k =
     (if rb_head s \<le> rb_tail s then
        if rb_head s = 0 then si_feed_start os fd s k else si_feed_tail os fd s k
      else si_feed_wrapped os fd s k)"

text \<open>
  The second \<open>recv\<close> of the first branch is still given the \<open>free_bytes\<close> of the first, not what \<open>ioctl\<close> reported
  and \<open>resize\<close> made room for. By how many bytes it exceeds that room (all but one cell of the new array), which takes data that
  arrived after the \<open>ioctl\<close>; 0 when it does not.
\<close>

definition feed_overrun :: "'k posix \<Rightarrow> int \<Rightarrow> socket_input \<Rightarrow> 'k \<Rightarrow> int" where
  "feed_overrun os fd s k =
     (let free_bytes = rb_len s - rb_tail s - 1;
          (r1, k1) = (if free_bytes > 0 then sys_recv os fd (to_size_t free_bytes) k else (Received [], k));
          (remain, k2) = sys_fionread os fd k1
      in if rb_head s = 0 \<and> recv_ret r1 = free_bytes \<and> 0 < remain \<and> rb_len s + remain + 1 \<le> rb_max s
         then max 0 (recv_ret (fst (sys_recv os fd (to_size_t free_bytes) k2)) - max (remain + 1) 8) else 0)"

text \<open>\<open>print_out\<close>: the bytes it prints after its three lines of counters.\<close>

definition si_print_out :: "socket_input \<Rightarrow> cell list result" where
  "si_print_out s =
     (if rb_head s < rb_tail s then mem_read (rb_buffer s) (rb_head s) (rb_tail s - rb_head s + 1)
      else if rb_head s > rb_tail s
      then bindR (mem_read (rb_buffer s) (rb_head s) (rb_len s - rb_head s)) (\<lambda>right.
           bindR (mem_read (rb_buffer s) 0 (rb_tail s + 1)) (\<lambda>left. Inr (right @ left)))
      else Inr [])"

text \<open>The invariant: a well-formed ring whose array stays within seven bytes of the maximum.\<close>

definition si_inv :: "socket_input \<Rightarrow> bool" where
  "si_inv s \<longleftrightarrow> ring_inv s \<and> rb_max s = SOCKET_INPUT_MAXSIZE \<and>
     SOCKET_INPUT_SIZE \<le> rb_len s \<and> rb_len s \<le> SOCKET_INPUT_MAXSIZE + 6"

section \<open>Construction, length, skipping\<close>

lemma si_invD:
  assumes "si_inv s"
  shows "ring_inv s" "rb_max s = 1048576" "16 \<le> rb_len s" "rb_len s \<le> 1048582"
  using assms by (auto simp: si_inv_def input_sizes)

lemma si_new_inv: "si_inv si_new" and si_new_contents: "ring_contents si_new = []"
  by (simp_all add: si_inv_def si_new_def ring_inv_def input_sizes int_max_def ring_contents_def)

lemma si_init_new: "rb_max s = SOCKET_INPUT_MAXSIZE \<Longrightarrow> si_init s = si_new"
  by (simp add: si_init_def si_new_def)

section \<open>Receiving into the array\<close>

lemma si_recv_cases:
  assumes fit: "\<forall>bs k'. sys_recv os fd (to_size_t n) k = (Received bs, k') \<longrightarrow>
      pos + int (length bs) \<le> int (length (rb_buffer s))"
    and pos: "0 \<le> pos"
  obtains (failed) k' where "si_recv os fd pos n s k = Inr (-1, s, k')" "taken os fd [] k k'"
  | (got) bs b k' where "si_recv os fd pos n s k = Inr (int (length bs), s\<lparr>rb_buffer := b\<rparr>, k')"
      "mem_write (rb_buffer s) pos (map Some bs) = Inr b"
      "sys_recv os fd (to_size_t n) k = (Received bs, k')" "taken os fd bs k k'"
proof (cases "sys_recv os fd (to_size_t n) k")
  case (Pair res k')
  show thesis
  proof (cases res)
    case (Received bs)
    with Pair have eq: "sys_recv os fd (to_size_t n) k = (Received bs, k')" by simp
    from fit eq pos obtain b where b: "mem_write (rb_buffer s) pos (map Some bs) = Inr b"
      by (simp add: mem_write_def)
    show thesis
      using got [of bs b k'] eq b taken_recv1 [OF eq] by (simp add: si_recv_def)
  next
    case (RecvError e)
    with Pair have eq: "sys_recv os fd (to_size_t n) k = (RecvError e, k')" by simp
    show thesis using failed [of k'] eq taken_fail1 [OF eq] by (simp add: si_recv_def)
  qed
qed

text \<open>
  What a call of \<open>feed\<close>, or one of its blocks, may do: drop everything beyond the maximum size, or
  append what the kernel delivered.
\<close>

definition fed ::
  "'k posix \<Rightarrow> int \<Rightarrow> socket_input \<Rightarrow> 'k \<Rightarrow> int \<Rightarrow> int \<times> socket_input \<times> 'k \<Rightarrow> bool" where
  "fed os fd s k filled out = (case out of (ret, s', k') \<Rightarrow>
     si_inv s' \<and> (\<exists>bs. taken os fd bs k k' \<and> (ret = -1000 \<and> s' = si_new \<or>
       ret \<noteq> -1000 \<and> ring_contents s' = ring_contents s @ map Some bs \<and> (0 < ret \<longrightarrow> ret = filled + int (length bs)))))"

text \<open>What it does when late data fill the last cell as well: the tail is then past the last index.\<close>

definition overfed ::
  "'k posix \<Rightarrow> int \<Rightarrow> socket_input \<Rightarrow> 'k \<Rightarrow> int \<Rightarrow> int \<times> socket_input \<times> 'k \<Rightarrow> bool" where
  "overfed os fd s k filled out = (case out of (ret, s', k') \<Rightarrow>
     rb_head s' = 0 \<and> rb_tail s' = rb_len s' \<and> (\<exists>bs. taken os fd bs k k' \<and> 0 < ret \<and>
       ring_contents s' = ring_contents s @ map Some bs \<and> ret = filled + int (length bs)))"

lemma fedI:
  assumes "si_inv s'" "ret \<noteq> -1000" "ring_contents s' = ring_contents s @ map Some bs"
    "taken os fd bs k k'" "0 < ret \<Longrightarrow> ret = filled + int (length bs)"
  shows "fed os fd s k filled (ret, s', k')"
  using assms by (auto simp: fed_def)

lemma fed_trans:
  assumes "fed os fd s1 k1 (filled + int (length bs)) out"
    and "ring_contents s1 = ring_contents s @ map Some bs" "taken os fd bs k k1"
  shows "fed os fd s k filled out"
proof -
  obtain ret s' k' where out: "out = (ret, s', k')" by (cases out)
  then obtain cs where cs: "si_inv s'" "taken os fd cs k1 k'" "ret = -1000 \<and> s' = si_new \<or> ret \<noteq> -1000 \<and>
      ring_contents s' = ring_contents s1 @ map Some cs \<and> (0 < ret \<longrightarrow> ret = filled + int (length bs) + int (length cs))"
    using assms(1) by (auto simp: fed_def)
  have "taken os fd (bs @ cs) k k'" by (rule taken_trans [OF assms(3) cs(2)])
  then show ?thesis using cs(1,3) assms(2) unfolding out fed_def prod.case by (intro conjI exI [of _ "bs @ cs"]) auto
qed

lemma overfed_trans:
  assumes "overfed os fd s1 k1 (filled + int (length bs)) out"
    and "ring_contents s1 = ring_contents s @ map Some bs" "taken os fd bs k k1"
  shows "overfed os fd s k filled out"
proof -
  obtain ret s' k' where out: "out = (ret, s', k')" by (cases out)
  then obtain cs where cs: "rb_head s' = 0" "rb_tail s' = rb_len s'" "taken os fd cs k1 k'" "0 < ret"
      "ring_contents s' = ring_contents s1 @ map Some cs" "ret = filled + int (length bs) + int (length cs)"
    using assms(1) by (auto simp: overfed_def)
  have "taken os fd (bs @ cs) k k'" by (rule taken_trans [OF assms(3) cs(3)])
  then show ?thesis using cs assms(2) unfolding out overfed_def prod.case by (intro conjI exI [of _ "bs @ cs"]) auto
qed

lemma si_inv_put:
  assumes "si_inv s" "ring_inv (s\<lparr>rb_buffer := b, rb_tail := t\<rparr>)"
  shows "si_inv (s\<lparr>rb_buffer := b, rb_tail := t\<rparr>)"
  using assms by (simp add: si_inv_def)

lemma si_grow_recv_spec:
  assumes inv: "si_inv s" and remain: "0 < remain" "remain \<le> 2 ^ 30" and filled: "0 \<le> filled"
    and room: "rb_len s + remain + 1 \<le> rb_max s \<longrightarrow> recv_ret (fst (sys_recv os fd (to_size_t n) k)) \<le> max (remain + 1) 8"
  shows "\<exists>out. si_grow_recv os fd remain n filled s k = Inr out \<and> fed os fd s k filled out"
proof -
  note i = si_invD [OF inv]
  have a: "add32 (rb_len s) remain = Inr (rb_len s + remain)"
    using i remain by (intro add32_ok) (auto simp: int_max_def int_min_def)
  have b: "add32 (rb_len s + remain) 1 = Inr (rb_len s + remain + 1)"
    using i remain by (intro add32_ok) (auto simp: int_max_def int_min_def)
  show ?thesis
  proof (cases "rb_len s + remain + 1 > rb_max s")
    case True
    then have "si_grow_recv os fd remain n filled s k = Inr (-1000, si_new, k)"
      using i by (simp add: si_grow_recv_def a b si_init_new input_sizes)
    moreover have "fed os fd s k filled (-1000, si_new, k)" using si_new_inv taken_refl [of os fd k] by (auto simp: fed_def)
    ultimately show ?thesis by blast
  next
    case False
    have grow: "rb_len s + max (remain + 1) 8 \<le> int_max" "0 < remain + 1"
      using i remain by (simp_all add: int_max_def)
    obtain s1 where s1: "ring_resize 8 (remain + 1) s = Inr (True, s1)" "ring_inv s1"
      "ring_contents s1 = ring_contents s" "rb_len s1 = rb_len s + max (remain + 1) 8"
      "rb_head s1 = 0" "rb_tail s1 = ring_length s" "rb_max s1 = rb_max s"
      by (rule ring_resize_ok [OF i(1) grow(2,1)])
    note l = ring_length_bounds [OF i(1)]
    have inv1: "si_inv s1" using s1 i False remain by (auto simp: si_inv_def input_sizes max_def)
    have small: "int (length bs) \<le> max (remain + 1) 8"
      if "sys_recv os fd (to_size_t n) k = (Received bs, k')" for bs k'
      using room False that by simp
    have tail: "0 \<le> rb_tail s1" using s1 l by simp
    have fit: "\<forall>bs k'. sys_recv os fd (to_size_t n) k = (Received bs, k') \<longrightarrow>
        rb_tail s1 + int (length bs) \<le> int (length (rb_buffer s1))"
      using small s1 l ring_invD(1) [OF s1(2)] by fastforce
    show ?thesis
    proof (cases rule: si_recv_cases [OF fit tail, case_names failed got])
      case (failed k')
      then have "si_grow_recv os fd remain n filled s k = Inr (-1, s1, k')"
        using False by (simp add: si_grow_recv_def a b si_resize_def SOCKET_INPUT_SIZE_HALF_def s1(1))
      with failed inv1 s1 show ?thesis by (auto intro!: fedI [where bs = "[]"])
    next
      case (got bs b k')
      let ?s = "s1\<lparr>rb_buffer := b, rb_tail := rb_tail s1 + int (length (map Some bs))\<rparr>"
      have room: "rb_tail s1 + int (length (map Some bs)) < rb_len s1"
        using small [OF got(3)] s1 l by simp
      have le: "rb_head s1 \<le> rb_tail s1" using s1 l by simp
      note put = ring_put_right [OF s1(2) le room got(2)]
      have run: "si_grow_recv os fd remain n filled s k =
          (if bs = [] then Inr (0, s1\<lparr>rb_buffer := b\<rparr>, k')
           else Inr (filled + int (length bs), ?s, k'))"
        using False by (simp add: si_grow_recv_def a b si_resize_def SOCKET_INPUT_SIZE_HALF_def s1(1) got(1))
      show ?thesis
      proof (cases "bs = []")
        case True
        then have "?s = s1\<lparr>rb_buffer := b\<rparr>" by simp
        with True run put got(4) si_inv_put [OF inv1 put(2)] s1(3) show ?thesis
          by (auto intro!: fedI [where bs = "[]"])
      next
        case False
        with run put got(4) si_inv_put [OF inv1 put(2)] s1(3) filled show ?thesis
          by (auto intro!: fedI [where bs = bs])
      qed
    qed
  qed
qed

lemma si_grow_recv_over:
  assumes inv: "si_inv s" and remain: "0 < remain" "remain \<le> 2 ^ 30" "rb_len s + remain + 1 \<le> rb_max s" and filled: "0 \<le> filled"
    and full: "rb_head s = 0" "rb_tail s = rb_len s - 1"
    and rv: "sys_recv os fd (to_size_t n) k = (Received bs, k')" and over: "max (remain + 1) 8 < int (length bs)"
  shows "if int (length bs) = max (remain + 1) 8 + 1
    then \<exists>out. si_grow_recv os fd remain n filled s k = Inr out \<and> overfed os fd s k filled out
    else si_grow_recv os fd remain n filled s k = Inl OutOfBounds"
proof -
  note i = si_invD [OF inv]
  have a: "add32 (rb_len s) remain = Inr (rb_len s + remain)"
    using i remain by (intro add32_ok) (auto simp: int_max_def int_min_def)
  have b: "add32 (rb_len s + remain) 1 = Inr (rb_len s + remain + 1)"
    using i remain by (intro add32_ok) (auto simp: int_max_def int_min_def)
  have grow: "rb_len s + max (remain + 1) 8 \<le> int_max" "0 < remain + 1"
    using i remain by (simp_all add: int_max_def)
  obtain s1 where s1: "ring_resize 8 (remain + 1) s = Inr (True, s1)" "ring_inv s1"
    "ring_contents s1 = ring_contents s" "rb_len s1 = rb_len s + max (remain + 1) 8"
    "rb_head s1 = 0" "rb_tail s1 = ring_length s" "rb_max s1 = rb_max s"
    by (rule ring_resize_ok [OF i(1) grow(2,1)])
  have tl: "rb_tail s1 = rb_len s - 1" "0 < rb_tail s1" "int (length (rb_buffer s1)) = rb_len s1" using s1(6) full i(3) ring_invD(1) [OF s1(2)] by (simp_all add: ring_length_def)
  have w: "mem_write (rb_buffer s1) (rb_tail s1) (map Some bs) = (if int (length bs) = max (remain + 1) 8 + 1
     then Inr (take (nat (rb_tail s1)) (rb_buffer s1) @ map Some bs) else Inl OutOfBounds)"
    using tl s1(4) over by (auto simp: mem_write_def)
  have ne: "bs \<noteq> []" using over by auto
  have run: "si_grow_recv os fd remain n filled s k = bindR (mem_write (rb_buffer s1) (rb_tail s1) (map Some bs)) (\<lambda>b.
      Inr (filled + int (length bs), s1\<lparr>rb_buffer := b, rb_tail := rb_tail s1 + int (length bs)\<rparr>, k'))"
    using remain over ne by (simp add: si_grow_recv_def a b si_resize_def SOCKET_INPUT_SIZE_HALF_def s1(1) si_recv_def rv bindR_assoc)
  show ?thesis
  proof (cases "int (length bs) = max (remain + 1) 8 + 1")
    case True
    let ?s = "s1\<lparr>rb_buffer := take (nat (rb_tail s1)) (rb_buffer s1) @ map Some bs, rb_tail := rb_tail s1 + int (length bs)\<rparr>"
    have "ring_contents s1 = take (nat (rb_tail s1)) (rb_buffer s1)" using tl s1(5) by (simp add: ring_contents_def)
    moreover have "ring_contents ?s = take (nat (rb_tail s1)) (rb_buffer s1) @ map Some bs"
      using tl s1(4,5) True by (simp add: ring_contents_def min_absorb2)
    ultimately have "ring_contents ?s = ring_contents s @ map Some bs" using s1(3) by simp
    then have "overfed os fd s k filled (filled + int (length bs), ?s, k')"
      using taken_recv1 [OF rv] True filled tl s1(4,5) over unfolding overfed_def prod.case by (intro conjI exI [of _ bs]) auto
    then show ?thesis using run True by (auto simp: w)
  qed (use run in \<open>simp add: w\<close>)
qed

lemma recv_fits:
  assumes "recv_bounded os" "0 \<le> n" "n \<le> int_max" "pos + n \<le> int (length b)"
  shows "\<forall>bs k'. sys_recv os fd (to_size_t n) k = (Received bs, k') \<longrightarrow>
    int (length bs) \<le> n \<and> pos + int (length bs) \<le> int (length b)"
proof (intro allI impI)
  fix bs k'
  assume "sys_recv os fd (to_size_t n) k = (Received bs, k')"
  then have "int (length bs) \<le> to_size_t n" by (rule recv_boundedD [OF assms(1)]) simp
  with assms(2-4) show "int (length bs) \<le> n \<and> pos + int (length bs) \<le> int (length b)"
    by (simp add: to_size_t_int)
qed

text \<open>The blocks that follow a first \<open>recv\<close>: ask for more, and grow when there is more.\<close>

lemma si_more_spec:
  assumes inv: "si_inv s" and sm: "fionread_small os"
    and filled: "0 \<le> filled" and io: "sys_fionread os fd k = (remain, k')"
    and room: "0 < remain \<longrightarrow> rb_len s + remain + 1 \<le> rb_max s \<longrightarrow> recv_ret (fst (sys_recv os fd (to_size_t n) k')) \<le> max (remain + 1) 8"
  shows "\<exists>out. (if remain > 0 then si_grow_recv os fd remain n filled s k' else Inr (filled, s, k')) =
    Inr out \<and> fed os fd s k filled out"
proof (cases "remain > 0")
  case True
  have "remain \<le> 2 ^ 30" using sm io unfolding fionread_small_def by blast
  from si_grow_recv_spec [OF inv True this filled room [rule_format, OF True, THEN impI]]
  obtain out where out: "si_grow_recv os fd remain n filled s k' = Inr out"
    "fed os fd s k' filled out" by blast
  have "fed os fd s k filled out"
    by (rule fed_trans [where bs = "[]", OF _ _ taken_ioctl1 [OF io]]) (use out(2) in simp_all)
  with True out show ?thesis by simp
next
  case False
  have "fed os fd s k filled (filled, s, k')"
    using inv filled taken_ioctl1 [OF io] by (intro fedI [where bs = "[]"]) auto
  with False show ?thesis by simp
qed

lemma recv_ret_bounded:
  assumes "recv_bounded os" "0 \<le> n" "n \<le> int_max" shows "recv_ret (fst (sys_recv os fd (to_size_t n) k)) \<le> n"
proof (cases "sys_recv os fd (to_size_t n) k")
  case (Pair r k')
  then show ?thesis using recv_boundedD [OF assms(1), of fd "to_size_t n" k] assms(2,3) by (cases r) (auto simp: to_size_t_int)
qed

lemma remain_bounded:
  assumes "recv_bounded os" "fionread_small os" "sys_fionread os fd k = (remain, k')"
  shows "0 < remain \<longrightarrow> L \<longrightarrow> recv_ret (fst (sys_recv os fd (to_size_t remain) k')) \<le> max (remain + 1) 8"
proof (intro impI)
  assume r: "0 < remain"
  have "remain \<le> 2 ^ 30" using assms(2,3) unfolding fionread_small_def by blast
  then show "recv_ret (fst (sys_recv os fd (to_size_t remain) k')) \<le> max (remain + 1) 8"
    using recv_ret_bounded [OF assms(1), of remain fd k'] r by (simp add: int_max_def)
qed

lemma si_feed_start_spec:
  assumes inv: "si_inv s" and rb: "recv_bounded os" and sm: "fionread_small os" and h: "rb_head s = 0"
    and late: "feed_overrun os fd s k = 0"
  shows "\<exists>out. si_feed_start os fd s k = Inr out \<and> fed os fd s k 0 out"
proof -
  note i = si_invD [OF inv] ring_invD [OF si_invD(1) [OF inv]]
  let ?free = "rb_len s - rb_tail s - 1"
  show ?thesis
  proof (cases "?free > 0")
    case False
    obtain remain k' where io: "sys_fionread os fd k = (remain, k')" by fastforce
    have "?free = 0" using False i by simp
    then have "0 < remain \<longrightarrow> rb_len s + remain + 1 \<le> rb_max s \<longrightarrow> recv_ret (fst (sys_recv os fd (to_size_t ?free) k')) \<le> max (remain + 1) 8"
      using recv_ret_bounded [OF rb, of 0 fd k'] by (auto simp: int_max_def intro: order_trans [of _ 0])
    from False si_more_spec [OF inv sm _ io this, of 0] show ?thesis
      by (simp add: si_feed_start_def io)
  next
    case True
    have fit': "\<forall>bs k'. sys_recv os fd (to_size_t ?free) k = (Received bs, k') \<longrightarrow>
        int (length bs) \<le> ?free \<and> rb_tail s + int (length bs) \<le> int (length (rb_buffer s))"
      by (rule recv_fits [OF rb]) (use True i in auto)
    then have fit: "\<forall>bs k'. sys_recv os fd (to_size_t ?free) k = (Received bs, k') \<longrightarrow>
        rb_tail s + int (length bs) \<le> int (length (rb_buffer s))" by blast
    have tail: "0 \<le> rb_tail s" using i by simp
    show ?thesis
    proof (cases rule: si_recv_cases [OF fit tail, case_names failed got])
      case (failed k')
      with True inv show ?thesis by (auto simp: si_feed_start_def intro!: fedI [where bs = "[]"])
    next
      case (got bs b k')
      let ?s = "s\<lparr>rb_buffer := b, rb_tail := rb_tail s + int (length (map Some bs))\<rparr>"
      have room: "rb_tail s + int (length (map Some bs)) < rb_len s" using fit' got(3) by auto
      have le: "rb_head s \<le> rb_tail s" using h tail by simp
      note put = ring_put_right [OF i(1) le room got(2)]
      note inv' = si_inv_put [OF inv put(2)]
      obtain remain k2 where io: "sys_fionread os fd k' = (remain, k2)" by fastforce
      consider (none) "bs = []" | (part) "bs \<noteq> []" "?free \<noteq> int (length bs)"
        | (all) "bs \<noteq> []" "?free = int (length bs)" by blast
      then show ?thesis
      proof cases
        case none
        with True got put inv' show ?thesis
          by (auto simp: si_feed_start_def intro!: fedI [where bs = "[]"])
      next
        case part
        with True got put inv' show ?thesis
          by (auto simp: si_feed_start_def intro!: fedI [where bs = bs])
      next
        case all
        have "0 < remain \<longrightarrow> rb_len ?s + remain + 1 \<le> rb_max ?s \<longrightarrow> recv_ret (fst (sys_recv os fd (to_size_t ?free) k2)) \<le> max (remain + 1) 8"
          using late True h all(2) got(3) io by (auto simp: feed_overrun_def Let_def)
        from si_more_spec [OF inv' sm _ io this, of "int (length bs)"]
        obtain out where out: "(if remain > 0 then si_grow_recv os fd remain ?free (int (length bs)) ?s k2
            else Inr (int (length bs), ?s, k2)) = Inr out" "fed os fd ?s k' (int (length bs)) out" by auto
        have "fed os fd s k 0 out"
          by (rule fed_trans [where bs = bs, OF _ _ got(4)]) (use out(2) put in simp_all)
        moreover have "si_feed_start os fd s k = Inr out"
          using True all(1) by (simp add: si_feed_start_def Let_def got(1) [unfolded all(2)] io all(2) flip: out(1))
        ultimately show ?thesis by blast
      qed
    qed
  qed
qed

text \<open>Late data that do not fit.\<close>

lemma si_feed_start_over:
  assumes inv: "si_inv s" and rb: "recv_bounded os" and sm: "fionread_small os" and late: "feed_overrun os fd s k \<noteq> 0"
  shows "if feed_overrun os fd s k = 1 then \<exists>out. si_feed_start os fd s k = Inr out \<and> overfed os fd s k 0 out
    else si_feed_start os fd s k = Inl OutOfBounds"
proof -
  note i = si_invD [OF inv] ring_invD [OF si_invD(1) [OF inv]]
  let ?free = "rb_len s - rb_tail s - 1"
  obtain r1 k1 where r1: "(if ?free > 0 then sys_recv os fd (to_size_t ?free) k else (Received [], k)) = (r1, k1)" by fastforce
  obtain remain k2 where io: "sys_fionread os fd k1 = (remain, k2)" by fastforce
  obtain r2 k3 where r2: "sys_recv os fd (to_size_t ?free) k2 = (r2, k3)" by fastforce
  have e: "feed_overrun os fd s k = (if rb_head s = 0 \<and> recv_ret r1 = ?free \<and> 0 < remain \<and> rb_len s + remain + 1 \<le> rb_max s
      then max 0 (recv_ret r2 - max (remain + 1) 8) else 0)"
    unfolding feed_overrun_def Let_def r1 io prod.case r2 fst_conv ..
  have c: "rb_head s = 0" "recv_ret r1 = ?free" "0 < remain" "rb_len s + remain + 1 \<le> rb_max s" "max (remain + 1) 8 < recv_ret r2"
    and ov: "feed_overrun os fd s k = recv_ret r2 - max (remain + 1) 8"
    using late unfolding e by (auto split: if_splits)
  have rm: "remain \<le> 2 ^ 30" using sm io unfolding fionread_small_def by blast
  obtain cs where cs: "r2 = Received cs" using c(3,5) by (cases r2) auto
  have fr: "?free > 0" using recv_ret_bounded [OF rb, of ?free fd k2] c(3,5) i by (simp add: r2 int_max_def)
  obtain bs where bs: "r1 = Received bs" using c(2) fr by (cases r1) auto
  have rv: "sys_recv os fd (to_size_t ?free) k = (Received bs, k1)" using r1 fr bs by simp
  have len: "int (length bs) = ?free" using c(2) bs by simp
  obtain b where b: "mem_write (rb_buffer s) (rb_tail s) (map Some bs) = Inr b" using len i by (simp add: mem_write_def)
  let ?s = "s\<lparr>rb_buffer := b, rb_tail := rb_tail s + int (length (map Some bs))\<rparr>"
  have room: "rb_tail s + int (length (map Some bs)) < rb_len s" "rb_head s \<le> rb_tail s" using len i c(1) by simp_all
  note put = ring_put_right [OF i(1) room(2,1) b]
  note inv' = si_inv_put [OF inv put(2)]
  have run: "si_feed_start os fd s k = si_grow_recv os fd remain ?free (int (length bs)) ?s k2"
    using fr len c(3) by (simp add: si_feed_start_def si_recv_def rv b io Let_def)
  have tk: "taken os fd bs k k2" using taken_trans [OF taken_recv1 [OF rv] taken_ioctl1 [OF io]] by simp
  have "if int (length cs) = max (remain + 1) 8 + 1
    then \<exists>out. si_grow_recv os fd remain ?free (int (length bs)) ?s k2 = Inr out \<and> overfed os fd ?s k2 (int (length bs)) out
    else si_grow_recv os fd remain ?free (int (length bs)) ?s k2 = Inl OutOfBounds"
    by (rule si_grow_recv_over [OF inv' c(3) rm _ _ _ _ _]) (use c cs r2 len in auto)
  moreover have "overfed os fd s k 0 out" if "overfed os fd ?s k2 (int (length bs)) out" for out
    by (rule overfed_trans [where bs = bs, OF _ _ tk]) (use that put in simp_all)
  moreover have "feed_overrun os fd s k = 1 \<longleftrightarrow> int (length cs) = max (remain + 1) 8 + 1" using ov cs by auto
  ultimately show ?thesis unfolding run by (auto split: if_splits)
qed

lemma si_feed_wrapped_spec:
  assumes inv: "si_inv s" and rb: "recv_bounded os" and sm: "fionread_small os" and h: "rb_head s > rb_tail s"
  shows "\<exists>out. si_feed_wrapped os fd s k = Inr out \<and> fed os fd s k 0 out"
proof -
  note i = si_invD [OF inv] ring_invD [OF si_invD(1) [OF inv]]
  let ?free = "rb_head s - rb_tail s - 1"
  have fit': "\<forall>bs k'. sys_recv os fd (to_size_t ?free) k = (Received bs, k') \<longrightarrow>
      int (length bs) \<le> ?free \<and> rb_tail s + int (length bs) \<le> int (length (rb_buffer s))"
    by (rule recv_fits [OF rb]) (use h i in auto)
  then have fit: "\<forall>bs k'. sys_recv os fd (to_size_t ?free) k = (Received bs, k') \<longrightarrow>
      rb_tail s + int (length bs) \<le> int (length (rb_buffer s))" by blast
  have tail: "0 \<le> rb_tail s" using i by simp
  show ?thesis
  proof (cases rule: si_recv_cases [OF fit tail, case_names failed got])
    case (failed k')
    with inv show ?thesis by (auto simp: si_feed_wrapped_def intro!: fedI [where bs = "[]"])
  next
    case (got bs b k')
    let ?s = "s\<lparr>rb_buffer := b, rb_tail := rb_tail s + int (length (map Some bs))\<rparr>"
    have room: "rb_tail s + int (length (map Some bs)) < rb_head s" using fit' got(3) by auto
    note put = ring_put_left [OF i(1) h room got(2)]
    note inv' = si_inv_put [OF inv put(2)]
    obtain remain k2 where io: "sys_fionread os fd k' = (remain, k2)" by fastforce
    consider (none) "bs = []" | (part) "bs \<noteq> []" "?free \<noteq> int (length bs)"
      | (all) "bs \<noteq> []" "?free = int (length bs)" by blast
    then show ?thesis
    proof cases
      case none
      with got put inv' show ?thesis
        by (auto simp: si_feed_wrapped_def intro!: fedI [where bs = "[]"])
    next
      case part
      with got put inv' show ?thesis
        by (auto simp: si_feed_wrapped_def intro!: fedI [where bs = bs])
    next
      case all
      from si_more_spec [OF inv' sm _ io remain_bounded [OF rb sm io], of "int (length bs)"]
      obtain out where out: "(if remain > 0 then si_grow_recv os fd remain remain (int (length bs)) ?s k2
          else Inr (int (length bs), ?s, k2)) = Inr out" "fed os fd ?s k' (int (length bs)) out" by auto
      have "fed os fd s k 0 out"
          by (rule fed_trans [where bs = bs, OF _ _ got(4)]) (use out(2) put in simp_all)
      moreover have "si_feed_wrapped os fd s k = Inr out"
        using all(1) by (simp add: si_feed_wrapped_def Let_def got(1) [unfolded all(2)] io all(2) flip: out(1))
      ultimately show ?thesis by blast
    qed
  qed
qed

text \<open>
  The branch \<open>0 < head_ <= tail_\<close>: after the array is filled to its end the tail is 0, and what is
  left goes below the head or into a larger array.
\<close>

lemma si_feed_tail_rest:
  assumes inv: "si_inv s" and rb: "recv_bounded os" and sm: "fionread_small os" and t: "rb_tail s = 0" and h: "0 < rb_head s"
    and filled: "0 \<le> filled" and io: "sys_fionread os fd k = (remain, k')"
  shows "\<exists>out. (if remain \<le> 0 then Inr (filled, s, k')
     else if remain > rb_head s - 1 then si_grow_recv os fd remain remain filled s k'
     else bindR (si_recv os fd 0 remain s k') (\<lambda>(received', s3, k3).
       if received' \<le> 0 then Inr (received', s3, k3)
       else Inr (filled + received', s3\<lparr>rb_tail := rb_tail s3 + received'\<rparr>, k3))) = Inr out \<and>
     fed os fd s k filled out"
proof (cases "remain \<le> rb_head s - 1 \<and> 0 < remain")
  case False
  with si_more_spec [OF inv sm filled io remain_bounded [OF rb sm io]] show ?thesis by auto
next
  case True
  note i = si_invD [OF inv] ring_invD [OF si_invD(1) [OF inv]]
  have fit': "\<forall>bs k2. sys_recv os fd (to_size_t remain) k' = (Received bs, k2) \<longrightarrow>
      int (length bs) \<le> remain \<and> 0 + int (length bs) \<le> int (length (rb_buffer s))"
    by (rule recv_fits [OF rb]) (use True i in auto)
  then have fit: "\<forall>bs k2. sys_recv os fd (to_size_t remain) k' = (Received bs, k2) \<longrightarrow>
      0 + int (length bs) \<le> int (length (rb_buffer s))" by blast
  have gt: "rb_head s > rb_tail s" using t h by simp
  show ?thesis
  proof (cases rule: si_recv_cases [OF fit order.refl, case_names failed got])
    case (failed k2)
    have "fed os fd s k filled (-1, s, k2)"
      using inv taken_trans [OF taken_ioctl1 [OF io] failed(2)] by (intro fedI [where bs = "[]"]) auto
    with True failed(1) show ?thesis by auto
  next
    case (got bs b k2)
    let ?s = "s\<lparr>rb_buffer := b, rb_tail := rb_tail s + int (length (map Some bs))\<rparr>"
    have room: "rb_tail s + int (length (map Some bs)) < rb_head s" using fit' got(3) True t by auto
    note put = ring_put_left [OF i(1) gt room got(2) [folded t]]
    note inv' = si_inv_put [OF inv put(2)]
    have tk: "taken os fd bs k k2" using taken_trans [OF taken_ioctl1 [OF io] got(4)] by simp
    have "fed os fd s k filled (if bs = [] then 0 else filled + int (length bs), ?s, k2)"
      using tk put(1) inv' filled by (intro fedI [where bs = bs]) auto
    moreover have "bs = [] \<Longrightarrow> ?s = s\<lparr>rb_buffer := b\<rparr>" by simp
    ultimately show ?thesis using True got(1) by (cases "bs = []") auto
  qed
qed

lemma si_feed_tail_spec:
  assumes inv: "si_inv s" and rb: "recv_bounded os" and sm: "fionread_small os" and h: "0 < rb_head s" "rb_head s \<le> rb_tail s"
  shows "\<exists>out. si_feed_tail os fd s k = Inr out \<and> fed os fd s k 0 out"
proof -
  note i = si_invD [OF inv] ring_invD [OF si_invD(1) [OF inv]]
  let ?free = "rb_len s - rb_tail s"
  have fit': "\<forall>bs k'. sys_recv os fd (to_size_t ?free) k = (Received bs, k') \<longrightarrow>
      int (length bs) \<le> ?free \<and> rb_tail s + int (length bs) \<le> int (length (rb_buffer s))"
    by (rule recv_fits [OF rb]) (use h i in auto)
  then have fit: "\<forall>bs k'. sys_recv os fd (to_size_t ?free) k = (Received bs, k') \<longrightarrow>
      rb_tail s + int (length bs) \<le> int (length (rb_buffer s))" by blast
  have tail: "0 \<le> rb_tail s" using i by simp
  show ?thesis
  proof (cases rule: si_recv_cases [OF fit tail, case_names failed got])
    case (failed k')
    with inv show ?thesis by (auto simp: si_feed_tail_def intro!: fedI [where bs = "[]"])
  next
    case (got bs b k')
    show ?thesis
    proof (cases "?free = int (length bs)")
      case False
      let ?s = "s\<lparr>rb_buffer := b, rb_tail := rb_tail s + int (length (map Some bs))\<rparr>"
      have room: "rb_tail s + int (length (map Some bs)) < rb_len s"
        using fit' got(3) False by (auto simp: less_le)
      note put = ring_put_right [OF i(1) h(2) room got(2)]
      note inv' = si_inv_put [OF inv put(2)]
      have "c_rem (rb_tail s + int (length bs)) (rb_len s) = rb_tail s + int (length bs)"
        using room tail i by (subst c_rem_wrap) auto
      then have run: "si_feed_tail os fd s k =
          (if bs = [] then Inr (0, s\<lparr>rb_buffer := b\<rparr>, k') else Inr (int (length bs), ?s, k'))"
        using False by (auto simp: si_feed_tail_def Let_def got(1))
      have "fed os fd s k 0 (int (length bs), ?s, k')"
        using put(1) inv' got(4) by (intro fedI [where bs = bs]) auto
      then show ?thesis using run by (cases "bs = []") auto
    next
      case True
      let ?s = "s\<lparr>rb_buffer := b, rb_tail := 0\<rparr>"
      have full: "rb_tail s + int (length (map Some bs)) = rb_len s" using True by simp
      note put = ring_put_to_end [OF i(1) h(2,1) full got(2)]
      note inv' = si_inv_put [OF inv put(2)]
      have ne: "bs \<noteq> []" using True i by auto
      have wrap: "c_rem (rb_tail s + int (length bs)) (rb_len s) = 0"
        using full tail i by (subst c_rem_wrap) auto
      obtain remain k2 where io: "sys_fionread os fd k' = (remain, k2)" by fastforce
      have s: "rb_tail ?s = 0" "0 < rb_head ?s" using h by simp_all
      have run: "si_feed_tail os fd s k = (if remain \<le> 0 then Inr (int (length bs), ?s, k2)
         else if remain > rb_head ?s - 1 then si_grow_recv os fd remain remain (int (length bs)) ?s k2
         else bindR (si_recv os fd 0 remain ?s k2) (\<lambda>(received', s3, k3).
           if received' \<le> 0 then Inr (received', s3, k3)
           else Inr (int (length bs) + received', s3\<lparr>rb_tail := rb_tail s3 + received'\<rparr>, k3)))"
        using ne by (simp add: si_feed_tail_def Let_def got(1) [unfolded True] True io wrap)
      from si_feed_tail_rest [OF inv' rb sm s _ io, of "int (length bs)"]
      obtain out where out: "si_feed_tail os fd s k = Inr out" "fed os fd ?s k' (int (length bs)) out"
        unfolding run by auto
      have "fed os fd s k 0 out"
        by (rule fed_trans [where bs = bs, OF _ _ got(4)]) (use out(2) put in simp_all)
      with out(1) show ?thesis by blast
    qed
  qed
qed

lemma feed_overrun_start: "feed_overrun os fd s k \<noteq> 0 \<Longrightarrow> rb_head s = 0"
  by (auto simp: feed_overrun_def Let_def split: prod.splits if_splits)

lemma si_feed_spec:
  assumes "si_inv s" "recv_bounded os" "fionread_small os" "feed_overrun os fd s k = 0"
  shows "\<exists>out. si_feed os fd s k = Inr out \<and> fed os fd s k 0 out"
proof -
  have "0 \<le> rb_head s" using ring_invD(4) [OF si_invD(1) [OF assms(1)]] .
  then consider "rb_head s = 0" "rb_head s \<le> rb_tail s" | "0 < rb_head s" "rb_head s \<le> rb_tail s"
    | "rb_head s > rb_tail s" by linarith
  then show ?thesis
    using si_feed_start_spec [OF assms(1-3) _ assms(4)] si_feed_tail_spec [OF assms(1-3)] si_feed_wrapped_spec [OF assms(1-3)]
    by cases (auto simp: si_feed_def simp del: split_paired_Ex)
qed

lemma si_feed_over:
  assumes "si_inv s" "recv_bounded os" "fionread_small os" "feed_overrun os fd s k \<noteq> 0"
  shows "if feed_overrun os fd s k = 1 then \<exists>out. si_feed os fd s k = Inr out \<and> overfed os fd s k 0 out
    else si_feed os fd s k = Inl OutOfBounds"
proof -
  have "rb_head s = 0" "rb_head s \<le> rb_tail s" using feed_overrun_start [OF assms(4)] ring_invD [OF si_invD(1) [OF assms(1)]] by simp_all
  then have "si_feed os fd s k = si_feed_start os fd s k" by (simp add: si_feed_def)
  then show ?thesis using si_feed_start_over [OF assms] by (simp only:)
qed

text \<open>No late data, no overrun.\<close>

lemma no_overrun:
  assumes "recv_bounded os" "fionread_exact os" shows "feed_overrun os fd s k = 0"
proof -
  let ?free = "rb_len s - rb_tail s - 1"
  obtain r1 k1 where r1: "(if ?free > 0 then sys_recv os fd (to_size_t ?free) k else (Received [], k)) = (r1, k1)" by fastforce
  obtain remain k2 where io: "sys_fionread os fd k1 = (remain, k2)" by fastforce
  obtain r2 k3 where r2: "sys_recv os fd (to_size_t ?free) k2 = (r2, k3)" by fastforce
  have "recv_ret r2 \<le> max 0 remain" using fionread_exactD [OF assms(2) io, of "to_size_t ?free"] r2 by (cases r2) auto
  then show ?thesis unfolding feed_overrun_def Let_def r1 io prod.case r2 fst_conv by auto
qed

section \<open>Fetching\<close>

lemma si_fetch_refuses: "sz = 0 \<or> sz > si_length s \<Longrightarrow> si_fetch dst sz s = Inr (dst, s)"
  by (auto simp: si_fetch_def)

lemma si_fetch_ok:
  assumes inv: "ring_inv s" and sz: "0 < sz" "sz \<le> ring_length s" and dst: "sz \<le> int (length dst)"
  shows "si_fetch dst sz s =
    Inr (take (nat sz) (ring_contents s) @ drop (nat sz) dst, ring_advance sz s)"
proof -
  note i = ring_invD [OF inv]
  have big: "rb_len s < 2 ^ 31" using i by (simp add: int_max_def)
  note l = ring_length_bounds [OF inv]
  let ?right = "rb_len s - rb_head s"
  show ?thesis
  proof (cases "rb_head s < rb_tail s \<or> sz < ?right")
    case True
    have "sz \<le> ?right" using True sz i by (auto simp: ring_length_def)
    then have "mem_cpy dst 0 (rb_buffer s) (rb_head s) sz =
        Inr (take (nat sz) (drop (nat (rb_head s)) (rb_buffer s)) @ drop (nat sz) dst)"
      using i sz dst big l by (subst mem_cpy_ok) auto
    moreover have "take (nat sz) (drop (nat (rb_head s)) (rb_buffer s)) = take (nat sz) (ring_contents s)"
      using True sz i by (auto simp: ring_contents_def ring_length_def split: if_splits)
    ultimately show ?thesis using True sz by (auto simp: si_fetch_def si_length_def Let_def)
  next
    case False
    let ?d = "drop (nat (rb_head s)) (rb_buffer s)"
    have gt: "rb_head s > rb_tail s" using False sz by (auto simp: ring_length_def split: if_splits)
    have d: "take (nat ?right) ?d = ?d" "length ?d = nat ?right" using i by simp_all
    have c1: "mem_cpy dst 0 (rb_buffer s) (rb_head s) ?right = Inr (?d @ drop (nat ?right) dst)"
      using i sz dst big l False d by (subst mem_cpy_ok) auto
    have eq: "nat (?right + (sz - ?right)) = nat sz" by simp
    have "mem_cpy (?d @ drop (nat ?right) dst) ?right (rb_buffer s) 0 (sz - ?right) =
        Inr (?d @ take (nat (sz - ?right)) (rb_buffer s) @ drop (nat sz - nat ?right) (drop (nat ?right) dst))"
      using i sz dst big l False d by (subst mem_cpy_ok) (auto simp: eq)
    moreover have "take (nat sz) (ring_contents s) = ?d @ take (nat (sz - ?right)) (rb_buffer s)"
    proof -
      have "nat sz - nat ?right = nat (sz - ?right)" "nat (sz - ?right) \<le> nat (rb_tail s)"
        "nat ?right \<le> nat sz"
        using False i sz gt by (simp_all add: ring_length_def)
      then show ?thesis using gt False d(2) sz by (simp add: ring_contents_def min_absorb1)
    qed
    moreover have "nat sz - nat ?right + nat ?right = nat sz" using False i by linarith
    then have "drop (nat sz - nat ?right) (drop (nat ?right) dst) = drop (nat sz) dst" by simp
    ultimately show ?thesis using False sz c1 by (auto simp: si_fetch_def si_length_def Let_def)
  qed
qed

lemma si_fetch_negative:
  assumes inv: "ring_inv s" and sz: "sz < 0" "int_min \<le> sz"
  shows "si_fetch dst sz s = Inl OutOfBounds"
proof -
  note i = ring_invD [OF inv]
  have m: "mem_read (rb_buffer s) (rb_head s) sz = Inl OutOfBounds"
    using i sz by (intro mem_read_neg) (auto simp: int_max_def int_min_def)
  have "\<not> (sz = 0 \<or> sz > si_length s)" "sz < rb_len s - rb_head s"
    using i sz ring_length_bounds [OF inv] by (auto simp: si_length_def)
  then show ?thesis by (simp add: si_fetch_def mem_cpy_def m Let_def)
qed

lemma si_skip_ok:
  assumes "ring_inv s" "0 < sz" "sz \<le> ring_length s"
  shows "ring_inv (si_skip sz s)" "ring_contents (si_skip sz s) = drop (nat sz) (ring_contents s)"
  using assms by (simp_all add: si_skip_def si_length_def ring_advance_inv ring_advance_contents)

text \<open>\<open>SocketInput\<close> provides the interface the packet parser reads from.\<close>

lemma si_inv_advance: "si_inv s \<Longrightarrow> 0 \<le> n \<Longrightarrow> si_inv (ring_advance n s)"
  using ring_advance_inv [of s n] by (simp add: si_inv_def ring_advance_def)

interpretation input_source: byte_source si_fetch ring_contents si_inv
proof unfold_locales
  fix s :: socket_input and n :: int and dst :: "cell list"
  assume inv: "si_inv s"
  note r = si_invD(1) [OF inv]
  show "\<exists>s'. si_fetch dst n s = Inr (take (nat n) (ring_contents s) @ drop (nat n) dst, s') \<and> si_inv s' \<and>
      ring_contents s' = drop (nat n) (ring_contents s)"
    if "0 < n" "n \<le> int (length (ring_contents s))" "n \<le> int (length dst)"
    using that si_fetch_ok [OF r, of n dst] si_inv_advance [OF inv, of n] ring_advance_contents [OF r, of n]
      length_ring_contents [OF r] by simp
  show "si_fetch dst n s = Inr (dst, s)" if "n = 0 \<or> int (length (ring_contents s)) < n"
    using that length_ring_contents [OF r] by (intro si_fetch_refuses) (simp add: si_length_def)
  show "si_fetch dst n s = Inl OutOfBounds" if "n < 0" "int_min \<le> n"
    using si_fetch_negative [OF r that] .
qed

section \<open>Properties\<close>

text \<open>
  C5: the memory safety of \<open>feed\<close>, exactly. Whatever the state of a well-formed input buffer, and whatever the socket delivers
  within the documented behaviour of \<open>recv\<close> (never more than asked for) and below a gigabyte in its queue: unless data that
  arrive between \<open>ioctl(FIONREAD)\<close> and the second \<open>recv\<close> overrun the new array, \<open>feed\<close> returns without an access
  outside the array or a signed overflow, and the buffer it leaves is well formed, with an array at most six bytes over the
  configured maximum. If they overrun it by one byte, it returns with the tail past the last index; if by more, it writes
  outside the array.
\<close>
theorem si_feed_safe:
  assumes "si_inv s" "recv_bounded os" "fionread_small os"
  shows "if feed_overrun os fd s k = 0
      then \<exists>ret s' k'. si_feed os fd s k = Inr (ret, s', k') \<and> si_inv s' \<and> rb_len s' \<le> SOCKET_INPUT_MAXSIZE + 6
    else if feed_overrun os fd s k = 1
      then \<exists>ret s' k'. si_feed os fd s k = Inr (ret, s', k') \<and> rb_tail s' = rb_len s'
    else si_feed os fd s k = Inl OutOfBounds"
proof (cases "feed_overrun os fd s k = 0")
  case True
  obtain out where "si_feed os fd s k = Inr out" "fed os fd s k 0 out"
    using si_feed_spec [OF assms True] by blast
  then show ?thesis using True by (cases out) (auto simp: fed_def si_inv_def)
next
  case False
  then show ?thesis using si_feed_over [OF assms False] by (auto simp: overfed_def split: if_splits)
qed

text \<open>16 bytes are queued and 14 more arrive after \<open>ioctl\<close> reported the one left.\<close>

definition late_burst :: sim where
  "late_burst = sim_idle\<lparr>sim_rx := replicate 16 1, sim_late := replicate 14 2\<rparr>"

theorem si_feed_safe_witness:
  "(\<exists>ret s' k'. si_feed sim_os 5 si_new (sim_idle\<lparr>sim_rx := [1, 2, 3]\<rparr>) =
     Inr (ret, s', k') \<and> si_inv s' \<and> rb_len s' \<le> SOCKET_INPUT_MAXSIZE + 6) \<and>
   feed_overrun late_os 5 si_new late_burst = 7 \<and> si_feed late_os 5 si_new late_burst = Inl OutOfBounds"
proof -
  have "feed_overrun sim_os 5 si_new (sim_idle\<lparr>sim_rx := [1, 2, 3]\<rparr>) = 0" by code_simp
  moreover have "feed_overrun late_os 5 si_new late_burst = 7" by code_simp
  ultimately show ?thesis
    using si_feed_safe [OF si_new_inv sim_os_ok(1,3), of 5 "sim_idle\<lparr>sim_rx := [1, 2, 3]\<rparr>"]
      si_feed_safe [OF si_new_inv late_os_ok(1) late_os_ok(2), of 5 late_burst] by simp
qed

text \<open>
  C6: \<open>feed\<close> neither loses, duplicates nor reorders the peer's bytes. Whenever it returns a value other than -1000, the
  bytes buffered before the call followed by those the socket still has to deliver are, after the
  call, the same sequence, and a positive result is the number of bytes taken from the socket; this also holds
  when late data fill the array up to its last cell. When it gives up on an oversized burst (-1000) the buffer is a new
  one: what it held and what the call took from the socket is dropped.
\<close>
theorem si_feed_stream:
  assumes "si_inv s" "recv_bounded os" "fionread_small os"
    and "stream_recv os pending" and "si_feed os fd s k = Inr (ret, s', k')"
  shows "if ret = -1000 then s' = si_new \<and> (\<exists>bs. pending fd k = bs @ pending fd k')
    else ring_contents s' @ map Some (pending fd k') = ring_contents s @ map Some (pending fd k) \<and>
      (0 < ret \<longrightarrow> ret = int (length (pending fd k)) - int (length (pending fd k')))"
proof -
  obtain bs where bs: "taken os fd bs k k'" "ret = -1000 \<and> s' = si_new \<or>
      ret \<noteq> -1000 \<and> ring_contents s' = ring_contents s @ map Some bs \<and> (0 < ret \<longrightarrow> ret = int (length bs))"
  proof (cases "feed_overrun os fd s k = 0")
    case True
    then show ?thesis using that si_feed_spec [OF assms(1-3) True] assms(5) by (auto simp: fed_def)
  next
    case False
    then show ?thesis using that si_feed_over [OF assms(1-3) False] assms(5) by (auto simp: overfed_def split: if_splits)
  qed
  have "pending fd k = bs @ pending fd k'" by (rule taken_stream [OF assms(4) bs(1)])
  then show ?thesis using bs(2) by auto
qed

definition sim_three :: sim where
  "sim_three = sim_idle\<lparr>sim_rx := [1, 2, 3]\<rparr>"

lemma si_feed_three:
  "si_feed sim_os 5 si_new sim_three =
     Inr (3, si_new\<lparr>rb_buffer := map Some [1, 2, 3] @ replicate 13 (Some 0), rb_tail := 3\<rparr>,
       sim_three\<lparr>sim_rx := []\<rparr>)"
  by code_simp

theorem si_feed_stream_witness:
  "ring_contents (si_new\<lparr>rb_buffer := map Some [1, 2, 3] @ replicate 13 (Some 0), rb_tail := 3\<rparr>) @ [] =
     ring_contents si_new @ map Some [1, 2, 3] \<and> (3 :: int) = 3 - 0"
  using si_feed_stream [OF si_new_inv sim_os_ok(1,3,4) si_feed_three] by (simp add: sim_three_def)

text \<open>
  C21: \<open>fetch\<close> hands out exactly the oldest bytes. With a positive size that is available and a
  destination large enough, the destination starts with the first \<open>size\<close> buffered bytes, and
  exactly those leave the buffer, also when they wrap around the end of the array.
\<close>
theorem si_fetch_takes_prefix:
  assumes "si_inv s" "0 < sz" "sz \<le> si_length s" "sz \<le> int (length dst)"
  shows "\<exists>s'. si_fetch dst sz s = Inr (take (nat sz) (ring_contents s) @ drop (nat sz) dst, s') \<and>
    si_inv s' \<and> ring_contents s' = drop (nat sz) (ring_contents s)"
  using input_source.fetch_available [OF assms(1,2) _ assms(4)] assms(3)
    length_ring_contents [OF si_invD(1) [OF assms(1)]] by (simp add: si_length_def)

theorem si_fetch_takes_prefix_witness:
  "\<exists>s'. si_fetch [None, None] 2
      \<lparr>rb_buffer = Some 7 # Some 8 # replicate 12 None @ [Some 5, Some 6], rb_len = 16, rb_max = 1048576,
       rb_head = 15, rb_tail = 2\<rparr> = Inr ([Some 6, Some 7], s') \<and> si_inv s' \<and> ring_contents s' = [Some 8]"
proof -
  let ?s = "\<lparr>rb_buffer = Some 7 # Some 8 # replicate 12 None @ [Some 5, Some 6], rb_len = 16,
    rb_max = 1048576, rb_head = 15, rb_tail = 2\<rparr> :: socket_input"
  have "si_inv ?s" by (simp add: si_inv_def ring_inv_def input_sizes int_max_def)
  from si_fetch_takes_prefix [OF this, of 2 "[None, None]"] show ?thesis
    by (simp add: si_length_def ring_length_def ring_contents_def)
qed

text \<open>
  A negative size defeats the guard of \<open>fetch\<close>: it passes \<open>size > length()\<close> and becomes a copy
  of nearly \<open>2^64\<close> bytes, whatever the buffer holds.
\<close>
theorem si_fetch_negative_faults:
  assumes "si_inv s" "sz < 0" "int_min \<le> sz"
  shows "si_fetch dst sz s = Inl OutOfBounds"
  using si_fetch_negative [OF si_invD(1) [OF assms(1)] assms(2,3)] .

theorem si_fetch_negative_faults_witness: "si_fetch [] (-6) si_new = Inl OutOfBounds"
  by (rule si_fetch_negative_faults [OF si_new_inv]) (simp_all add: int_min_def)

text \<open>
  a full buffer is reported as a dead connection. When no cell is free, \<open>feed\<close> calls \<open>recv\<close> with
  length 0 (or returns its initial count of 0), so it returns a value that is not positive however
  much data the socket holds; its caller closes the connection on 0 and on -1.
\<close>
theorem si_feed_full_not_positive:
  assumes "si_inv s" "recv_bounded os"
    and full: "si_length s = rb_len s - 1" and feed: "si_feed os fd s k = Inr (ret, s', k')"
  shows "ret \<le> 0"
proof -
  note i = si_invD [OF assms(1)] ring_invD [OF si_invD(1) [OF assms(1)]]
  have none: "bs = []" if "sys_recv os fd' (to_size_t 0) k1 = (Received bs, k2)" for fd' k1 bs k2
    using recv_boundedD [OF assms(2) that] by (simp add: to_size_t_def)
  have zero: "received = 0 \<or> received = -1"
    if "si_recv os fd pos 0 t k1 = Inr (received, t', k2)" for pos t k1 received t' k2
    using that none
    by (auto simp: si_recv_def bindR_eq_Inr split: prod.splits recv_res.splits)
  have grow: "ret' \<le> 0" if "si_grow_recv os fd r 0 0 t k1 = Inr (ret', t', k2)" for r t k1 ret' t' k2
    using that zero
    by (fastforce simp: si_grow_recv_def bindR_eq_Inr split: if_splits prod.splits)
  consider (start) "rb_head s = 0" "rb_tail s = rb_len s - 1" | (wrap) "rb_head s = rb_tail s + 1"
    using full i by (auto simp: si_length_def ring_length_def split: if_splits)
  then show ?thesis
  proof cases
    case start
    with feed i grow show ?thesis
      by (auto simp: si_feed_def si_feed_start_def Let_def split: if_splits prod.splits)
  next
    case wrap
    with feed zero show ?thesis
      by (fastforce simp: si_feed_def si_feed_wrapped_def Let_def bindR_eq_Inr split: if_splits prod.splits)
  qed
qed

definition si_full :: socket_input where
  "si_full = si_new\<lparr>rb_tail := 15\<rparr>"

lemma si_feed_full_eval:
  "si_feed sim_os 5 si_full sim_three =
     Inr (0, \<lparr>rb_buffer = replicate 15 (Some 0) @ replicate 9 None, rb_len = 24, rb_max = 1048576,
              rb_head = 0, rb_tail = 15\<rparr>, sim_three)"
  by code_simp

theorem si_feed_full_not_positive_witness:
  "\<exists>ret s' k'. si_feed sim_os 5 si_full sim_three = Inr (ret, s', k') \<and> ret \<le> 0"
proof -
  have inv: "si_inv si_full" "si_length si_full = rb_len si_full - 1"
    by (simp_all add: si_inv_def si_full_def si_new_def ring_inv_def input_sizes int_max_def
        si_length_def ring_length_def)
  obtain ret s' k' where r: "si_feed sim_os 5 si_full sim_three = Inr (ret, s', k')"
    using si_feed_full_eval by blast
  with si_feed_full_not_positive [OF inv(1) sim_os_ok(1) inv(2) r] show ?thesis by blast
qed

end
