(* ===== verification/Socket_Output.thy ===== *)
theory Socket_Output
  imports Ring_Buffer Posix_Api Buffer_Spec
begin

text \<open>
  src/socket/socket_output.cpp and socket_output.h: the buffer between the packet writer and a TCP
  socket. \<open>write\<close> appends a message, growing the array without bound; \<open>refresh\<close> sends everything.
  The theorems: \<open>write\<close> appends exactly the message and stays inside the array as long as \<open>head_\<close> is 0;
  \<open>refresh\<close> ends, and what it hands to the socket followed by what it keeps is what was buffered; a
  complete \<open>refresh\<close> empties the buffer and resets \<open>head_\<close> to 0. A last theorem shows what \<open>write\<close>
  does when \<open>head_\<close> is not 0, which only a failed \<open>refresh\<close> leaves behind.
\<close>

type_synonym socket_output = ring

definition SOCKET_OUTPUT_SIZE :: int where "SOCKET_OUTPUT_SIZE = 16 * 1024"
definition SOCKET_OUTPUT_SIZE_HALF :: int where "SOCKET_OUTPUT_SIZE_HALF = 8 * 1024"
definition SOCKET_OUTPUT_MAXSIZE :: int where "SOCKET_OUTPUT_MAXSIZE = 2014 * 1024"

lemmas output_sizes = SOCKET_OUTPUT_SIZE_def SOCKET_OUTPUT_SIZE_HALF_def SOCKET_OUTPUT_MAXSIZE_def

definition so_new :: socket_output where
  "so_new = \<lparr>rb_buffer = replicate (nat SOCKET_OUTPUT_SIZE) (Some 0), rb_len = SOCKET_OUTPUT_SIZE,
             rb_max = SOCKET_OUTPUT_MAXSIZE, rb_head = 0, rb_tail = 0\<rparr>"

definition so_init :: "socket_output \<Rightarrow> socket_output" where
  "so_init s = s\<lparr>rb_head := 0, rb_tail := 0, rb_len := SOCKET_OUTPUT_SIZE,
                 rb_buffer := replicate (nat SOCKET_OUTPUT_SIZE) (Some 0)\<rparr>"

definition so_resize :: "int \<Rightarrow> socket_output \<Rightarrow> (bool \<times> socket_output) result" where
  "so_resize = ring_resize SOCKET_OUTPUT_SIZE_HALF"

definition so_length :: "socket_output \<Rightarrow> int" where
  "so_length = ring_length"

definition so_free_bytes :: "socket_output \<Rightarrow> int" where
  "so_free_bytes s =
     (if rb_head s \<le> rb_tail s then rb_len s - rb_tail s + rb_head s - 1
      else rb_head s - rb_tail s - 1)"

text \<open>\<open>write(buff, size)\<close>: the value returned and the buffer after the call.\<close>

definition so_write :: "cell list \<Rightarrow> int \<Rightarrow> socket_output \<Rightarrow> (int \<times> socket_output) result" where
  "so_write buff sz s =
     bindR (let free_bytes = so_free_bytes s in
            if sz \<ge> free_bytes then so_resize (sz - free_bytes + 1) s else Inr (True, s))
       (\<lambda>(ok, s1). if \<not> ok then Inr (0, s1) else
        bindR (if rb_head s1 < rb_tail s1 then
                 if rb_head s1 = 0 then mem_cpy (rb_buffer s1) (rb_tail s1) buff 0 sz
                 else let tail_bytes = rb_len s1 - rb_tail s1 in
                   bindR (mem_cpy (rb_buffer s1) (rb_tail s1) buff 0 sz) (\<lambda>b.
                   if sz > tail_bytes then mem_cpy b 0 buff tail_bytes (sz - tail_bytes) else Inr b)
               else mem_cpy (rb_buffer s1) (rb_tail s1) buff 0 sz)
          (\<lambda>b. Inr (sz, s1\<lparr>rb_buffer := b, rb_tail := c_rem (rb_tail s1 + sz) (rb_len s1)\<rparr>)))"

text \<open>
  One \<open>while (left_bytes > 0)\<close> loop of \<open>refresh\<close>. The first component of the outcome is the value
  that \<open>refresh\<close> returns at once when a \<open>send\<close> fails; \<open>None\<close> outside is a loop that never ends.
\<close>

partial_function (option) so_send_loop ::
  "'k posix \<Rightarrow> int \<Rightarrow> int \<Rightarrow> int \<Rightarrow> socket_output \<Rightarrow> 'k \<Rightarrow>
   (int option \<times> int \<times> socket_output \<times> 'k) result option" where
  "so_send_loop os fd left_bytes out_bytes s k =
     (if left_bytes > 0 then
        (case mem_read (rb_buffer s) (rb_head s) left_bytes of
           Inl e \<Rightarrow> Some (Inl e)
         | Inr cs \<Rightarrow>
             (case sys_send os fd cs k of (res, k') \<Rightarrow>
                if send_ret res < 0 then Some (Inr (Some (send_ret res), out_bytes, s, k'))
                else so_send_loop os fd (left_bytes - send_ret res) (out_bytes + send_ret res)
                       (s\<lparr>rb_head := rb_head s + send_ret res\<rparr>) k'))
      else Some (Inr (None, out_bytes, s, k)))"

definition so_run_loop ::
  "'k posix \<Rightarrow> int \<Rightarrow> int \<Rightarrow> int \<Rightarrow> socket_output \<Rightarrow> 'k \<Rightarrow> (int option \<times> int \<times> socket_output \<times> 'k) result"
where
  "so_run_loop os fd left_bytes out_bytes s k =
     (case so_send_loop os fd left_bytes out_bytes s k of None \<Rightarrow> Inl Diverges | Some r \<Rightarrow> r)"

definition so_refresh ::
  "'k posix \<Rightarrow> int \<Rightarrow> socket_output \<Rightarrow> 'k \<Rightarrow> (int \<times> socket_output \<times> 'k) result" where
  "so_refresh os fd s k =
     bindR (if rb_head s < rb_tail s then so_run_loop os fd (rb_tail s - rb_head s) 0 s k
            else if rb_head s > rb_tail s then
              bindR (so_run_loop os fd (rb_len s - rb_head s) 0 s k) (\<lambda>(ret, out_bytes, s1, k1).
                case ret of Some v \<Rightarrow> Inr (Some v, out_bytes, s1, k1)
                | None \<Rightarrow> so_run_loop os fd (rb_tail s1) out_bytes (s1\<lparr>rb_head := 0\<rparr>) k1)
            else Inr (None, 0, s, k))
       (\<lambda>(ret, out_bytes, s', k').
          case ret of Some v \<Rightarrow> Inr (v, s', k')
          | None \<Rightarrow> Inr (out_bytes, s'\<lparr>rb_head := 0, rb_tail := 0\<rparr>, k'))"

text \<open>The state every complete operation leaves: well formed, data at the start of the array.\<close>

definition so_inv :: "socket_output \<Rightarrow> bool" where
  "so_inv s \<longleftrightarrow> ring_inv s \<and> rb_head s = 0"

section \<open>Writing\<close>

lemma so_new_inv: "so_inv so_new" and so_new_contents: "ring_contents so_new = []"
  by (simp_all add: so_inv_def so_new_def ring_inv_def output_sizes int_max_def ring_contents_def)

lemma so_put:
  assumes inv: "so_inv s" and sz: "0 \<le> sz" "sz \<le> int (length buff)" "rb_tail s + sz < rb_len s"
  shows "\<exists>b. mem_cpy (rb_buffer s) (rb_tail s) buff 0 sz = Inr b \<and>
    so_inv (s\<lparr>rb_buffer := b, rb_tail := rb_tail s + sz\<rparr>) \<and>
    ring_contents (s\<lparr>rb_buffer := b, rb_tail := rb_tail s + sz\<rparr>) = ring_contents s @ take (nat sz) buff"
proof -
  have r: "ring_inv s" and h: "rb_head s = 0" using inv by (auto simp: so_inv_def)
  note i = ring_invD [OF r]
  let ?xs = "take (nat sz) buff"
  have len: "int (length ?xs) = sz" using sz by simp
  have big: "rb_len s < 2 ^ 31" using i by (simp add: int_max_def)
  have rd: "mem_read buff 0 sz = Inr ?xs" using sz big i by (subst mem_read_ok) auto
  obtain b where b: "mem_write (rb_buffer s) (rb_tail s) ?xs = Inr b"
    using i sz by (simp add: mem_write_def)
  have le: "rb_head s \<le> rb_tail s" using h i by simp
  have room: "rb_tail s + int (length ?xs) < rb_len s" using sz by simp
  note put = ring_put_right [OF r le room b, unfolded len]
  show ?thesis using put h by (auto simp: mem_cpy_def rd b so_inv_def)
qed

lemma so_write_spec:
  assumes inv: "so_inv s" and sz: "0 \<le> sz" "sz \<le> int (length buff)"
    and fits: "so_free_bytes s \<le> sz \<longrightarrow>
      rb_len s + max (sz - so_free_bytes s + 1) SOCKET_OUTPUT_SIZE_HALF \<le> int_max"
  shows "\<exists>s'. so_write buff sz s = Inr (sz, s') \<and> so_inv s' \<and>
    ring_contents s' = ring_contents s @ take (nat sz) buff \<and>
    rb_len s' \<le> rb_len s + max (sz + 1) SOCKET_OUTPUT_SIZE_HALF"
proof -
  have r: "ring_inv s" and h: "rb_head s = 0" using inv by (auto simp: so_inv_def)
  note i = ring_invD [OF r]
  let ?free = "so_free_bytes s" and ?half = SOCKET_OUTPUT_SIZE_HALF
  have free: "?free = rb_len s - rb_tail s - 1" using h i by (simp add: so_free_bytes_def)
  have "\<exists>s1. (if sz \<ge> ?free then so_resize (sz - ?free + 1) s else Inr (True, s)) = Inr (True, s1) \<and>
      so_inv s1 \<and> ring_contents s1 = ring_contents s \<and> rb_tail s1 + sz < rb_len s1 \<and>
      rb_len s1 \<le> rb_len s + max (sz + 1) ?half"
  proof (cases "sz \<ge> ?free")
    case False
    then show ?thesis using inv free sz by (auto simp: output_sizes)
  next
    case True
    have grow: "0 < sz - ?free + 1" "rb_len s + max (sz - ?free + 1) ?half \<le> int_max"
      using True fits by auto
    obtain s1 where s1: "ring_resize ?half (sz - ?free + 1) s = Inr (True, s1)" "ring_inv s1"
      "ring_contents s1 = ring_contents s" "rb_len s1 = rb_len s + max (sz - ?free + 1) ?half"
      "rb_head s1 = 0" "rb_tail s1 = ring_length s"
      by (rule ring_resize_ok [OF r grow])
    have "ring_length s = rb_tail s" using h i by (simp add: ring_length_def)
    then have "rb_tail s1 + sz < rb_len s1" using s1 free by simp
    then show ?thesis using True s1 free i by (auto simp: so_resize_def so_inv_def)
  qed
  then obtain s1 where s1: "(if sz \<ge> ?free then so_resize (sz - ?free + 1) s else Inr (True, s)) = Inr (True, s1)"
    "so_inv s1" "ring_contents s1 = ring_contents s" "rb_tail s1 + sz < rb_len s1"
    "rb_len s1 \<le> rb_len s + max (sz + 1) ?half" by blast
  obtain b where b: "mem_cpy (rb_buffer s1) (rb_tail s1) buff 0 sz = Inr b"
    "so_inv (s1\<lparr>rb_buffer := b, rb_tail := rb_tail s1 + sz\<rparr>)"
    "ring_contents (s1\<lparr>rb_buffer := b, rb_tail := rb_tail s1 + sz\<rparr>) = ring_contents s1 @ take (nat sz) buff"
    using so_put [OF s1(2) sz s1(4)] by blast
  have h1: "rb_head s1 = 0" "0 \<le> rb_tail s1" using s1(2) by (auto simp: so_inv_def ring_inv_def)
  have wrap: "c_rem (rb_tail s1 + sz) (rb_len s1) = rb_tail s1 + sz"
    using s1(4) sz h1 by (subst c_rem_wrap) auto
  have "so_write buff sz s = Inr (sz, s1\<lparr>rb_buffer := b, rb_tail := rb_tail s1 + sz\<rparr>)"
    by (simp add: so_write_def Let_def s1(1) h1(1) b(1) wrap)
  with b s1 show ?thesis by auto
qed

text \<open>The only other outcome is the overflow of the array's length.\<close>

lemma so_write_overflow:
  assumes "so_inv s" "so_free_bytes s \<le> sz"
    and "int_max < rb_len s + max (sz - so_free_bytes s + 1) SOCKET_OUTPUT_SIZE_HALF"
  shows "so_write buff sz s = Inl SignedOverflow"
proof -
  let ?n = "sz - so_free_bytes s + 1"
  have "add32 (rb_len s) (if ?n > SOCKET_OUTPUT_SIZE_HALF then ?n else SOCKET_OUTPUT_SIZE_HALF) = Inl SignedOverflow"
    using assms(3) by (simp add: add32_def max_def split: if_splits)
  moreover have "\<not> ?n \<le> 0" using assms(2) by simp
  ultimately have "so_resize ?n s = Inl SignedOverflow"
    unfolding so_resize_def ring_resize_def Let_def by (metis (no_types) bindR_simps(1))
  then show ?thesis using assms(2) by (simp add: so_write_def Let_def)
qed

lemma so_write_keeps:
  assumes "so_inv s" "0 \<le> sz" "sz \<le> int (length buff)" "so_write buff sz s = Inr (r, s')"
  shows "so_inv s' \<and> ring_contents s' = ring_contents s @ take (nat sz) buff \<and> r = sz"
proof (cases "so_free_bytes s \<le> sz \<and>
    int_max < rb_len s + max (sz - so_free_bytes s + 1) SOCKET_OUTPUT_SIZE_HALF")
  case True
  with so_write_overflow [OF assms(1), of sz buff] assms(4) show ?thesis by simp
next
  case False
  with so_write_spec [OF assms(1-3)] assms(4) show ?thesis by fastforce
qed

lemma so_free_bytes_nonneg: "so_inv s \<Longrightarrow> 0 \<le> so_free_bytes s"
  by (auto simp: so_inv_def ring_inv_def so_free_bytes_def)

section \<open>Sending\<close>

lemma so_send_loop_spec:
  assumes sb: "send_bounded os" and sp: "send_progress os"
    and "0 \<le> left_bytes" "0 \<le> rb_head s" "rb_head s + left_bytes \<le> int (length (rb_buffer s))"
    "int (length (rb_buffer s)) \<le> int_max"
  shows "\<exists>m k'. 0 \<le> m \<and> m \<le> left_bytes \<and>
    (\<forall>delivered. stream_send os delivered \<longrightarrow>
       delivered fd k' = delivered fd k @ take (nat m) (drop (nat (rb_head s)) (rb_buffer s))) \<and>
    (so_send_loop os fd left_bytes out s k = Some (Inr (None, out + m, s\<lparr>rb_head := rb_head s + m\<rparr>, k')) \<and>
       m = left_bytes \<or>
     so_send_loop os fd left_bytes out s k = Some (Inr (Some (-1), out + m, s\<lparr>rb_head := rb_head s + m\<rparr>, k')) \<and>
       m < left_bytes)"
  using assms(3-)
proof (induction "nat left_bytes" arbitrary: left_bytes out s k rule: less_induct)
  case less
  show ?case
  proof (cases "left_bytes = 0")
    case True
    then show ?thesis by (intro exI [of _ 0] exI [of _ k]) (simp add: so_send_loop.simps)
  next
    case False
    then have pos: "left_bytes > 0" using less.prems by simp
    let ?d = "drop (nat (rb_head s)) (rb_buffer s)"
    let ?cs = "take (nat left_bytes) ?d"
    have rd: "mem_read (rb_buffer s) (rb_head s) left_bytes = Inr ?cs"
      using less.prems by (subst mem_read_ok) (auto simp: int_max_def)
    have len: "length ?cs = nat left_bytes" "?cs \<noteq> []" using less.prems pos by auto
    obtain res k1 where snd: "sys_send os fd ?cs k = (res, k1)" by fastforce
    show ?thesis
    proof (cases res)
      case (SendError e)
      with snd have "so_send_loop os fd left_bytes out s k = Some (Inr (Some (-1), out, s, k1))"
        using pos rd by (simp add: so_send_loop.simps)
      moreover have "stream_send os delivered \<Longrightarrow> delivered fd k1 = delivered fd k" for delivered
        using stream_sendD(2) snd SendError by metis
      ultimately show ?thesis using pos by (intro exI [of _ 0] exI [of _ k1]) simp
    next
      case (Sent n)
      have n: "0 < n" "n \<le> nat left_bytes"
        using send_progressD [OF sp len(2)] send_boundedD [OF sb] snd Sent len(1) by fastforce+
      let ?s = "s\<lparr>rb_head := rb_head s + int n\<rparr>" and ?left = "left_bytes - int n"
      have step: "so_send_loop os fd left_bytes out s k = so_send_loop os fd ?left (out + int n) ?s k1"
        using pos rd snd Sent by (subst so_send_loop.simps) simp
      have smaller: "nat ?left < nat left_bytes" using n pos by simp
      have pre: "0 \<le> ?left" "0 \<le> rb_head ?s" "rb_head ?s + ?left \<le> int (length (rb_buffer ?s))"
        "int (length (rb_buffer ?s)) \<le> int_max"
        using less.prems n by simp_all
      obtain m k' where IH: "0 \<le> m" "m \<le> ?left"
        "\<forall>delivered. stream_send os delivered \<longrightarrow>
           delivered fd k' = delivered fd k1 @ take (nat m) (drop (nat (rb_head ?s)) (rb_buffer ?s))"
        "so_send_loop os fd ?left (out + int n) ?s k1 =
           Some (Inr (None, out + int n + m, ?s\<lparr>rb_head := rb_head ?s + m\<rparr>, k')) \<and> m = ?left \<or>
         so_send_loop os fd ?left (out + int n) ?s k1 =
           Some (Inr (Some (-1), out + int n + m, ?s\<lparr>rb_head := rb_head ?s + m\<rparr>, k')) \<and> m < ?left"
        using less.hyps [OF smaller pre, of k1 "out + int n"] by blast
      have deliv: "delivered fd k' = delivered fd k @ take (nat (int n + m)) ?d"
        if "stream_send os delivered" for delivered
      proof -
        have a: "delivered fd k1 = delivered fd k @ take n ?cs"
          using stream_sendD(1) [OF that] snd Sent by blast
        have e: "nat (rb_head s + int n) = n + nat (rb_head s)" "nat (int n + m) = n + nat m"
          using less.prems IH(1) by linarith+
        have "take n ?cs = take n ?d" using n by simp
        with a IH(3) [rule_format, OF that] show ?thesis by (simp add: e take_add)
      qed
      show ?thesis
        using IH(1,2,4) deliv n step by (intro exI [of _ "int n + m"] exI [of _ k']) (auto simp: algebra_simps)
    qed
  qed
qed

lemma so_run_loop_spec:
  assumes "send_bounded os" "send_progress os"
    and "0 \<le> left_bytes" "0 \<le> rb_head s" "rb_head s + left_bytes \<le> int (length (rb_buffer s))"
    "int (length (rb_buffer s)) \<le> int_max"
  obtains m k' where "0 \<le> m" "m \<le> left_bytes"
    "\<forall>delivered. stream_send os delivered \<longrightarrow>
       delivered fd k' = delivered fd k @ take (nat m) (drop (nat (rb_head s)) (rb_buffer s))"
    "so_run_loop os fd left_bytes out s k =
       Inr (if m = left_bytes then None else Some (-1), out + m, s\<lparr>rb_head := rb_head s + m\<rparr>, k')"
  using so_send_loop_spec [OF assms, where k = k and out = out and fd = fd]
  by (auto simp: so_run_loop_def split: if_splits)

text \<open>The wrapped case: two loops, the first to the end of the array.\<close>

lemma so_refresh_wrapped:
  assumes sb: "send_bounded os" and sp: "send_progress os" and inv: "ring_inv s"
    and more: "rb_head s > rb_tail s"
  shows "\<exists>m ret s' k'. so_refresh os fd s k = Inr (ret, s', k') \<and> 0 \<le> m \<and> m \<le> ring_length s \<and>
    ring_inv s' \<and> ring_contents s' = drop (nat m) (ring_contents s) \<and>
    (\<forall>delivered. stream_send os delivered \<longrightarrow>
       delivered fd k' = delivered fd k @ take (nat m) (ring_contents s)) \<and>
    (ret = m \<and> m = ring_length s \<and> rb_head s' = 0 \<or> ret = -1 \<and> m < ring_length s)"
proof -
  note i = ring_invD [OF inv]
  let ?n = "rb_len s - rb_head s" and ?d = "drop (nat (rb_head s)) (rb_buffer s)"
  have rl: "ring_length s = ?n + rb_tail s" using more by (simp add: ring_length_def)
  have rc: "ring_contents s = ?d @ take (nat (rb_tail s)) (rb_buffer s)"
    using more by (simp add: ring_contents_def)
  have ld: "length ?d = nat ?n" using i by simp
  have nlt: "\<not> rb_head s < rb_tail s" using more by simp
  have pre: "0 \<le> ?n" "0 \<le> rb_head s" "rb_head s + ?n \<le> int (length (rb_buffer s))"
    "int (length (rb_buffer s)) \<le> int_max" using i by simp_all
  obtain m1 k1 where m1: "0 \<le> m1" "m1 \<le> ?n"
    "\<forall>delivered. stream_send os delivered \<longrightarrow> delivered fd k1 = delivered fd k @ take (nat m1) ?d"
    "so_run_loop os fd ?n 0 s k =
       Inr (if m1 = ?n then None else Some (-1), 0 + m1, s\<lparr>rb_head := rb_head s + m1\<rparr>, k1)"
    by (rule so_run_loop_spec [OF sb sp pre, where fd = fd and k = k and out = 0])
  show ?thesis
  proof (cases "m1 = ?n")
    case False
    have "c_rem (rb_head s + m1) (rb_len s) = rb_head s + m1"
      using m1 i False by (subst c_rem_wrap) auto
    then have adv: "s\<lparr>rb_head := rb_head s + m1\<rparr> = ring_advance m1 s" by (simp add: ring_advance_def)
    have run: "so_refresh os fd s k = Inr (-1, ring_advance m1 s, k1)"
      using more m1(4) False by (simp add: so_refresh_def adv)
    have "take (nat m1) (ring_contents s) = take (nat m1) ?d" using m1(1,2) ld rc by simp
    then show ?thesis
      using run m1 rl False i ring_advance_inv [OF inv m1(1)] ring_advance_contents [OF inv m1(1)]
      by (intro exI [of _ m1] exI [of _ "-1"] exI [of _ "ring_advance m1 s"] exI [of _ k1]) auto
  next
    case True
    let ?s = "s\<lparr>rb_head := 0\<rparr>"
    have pre2: "0 \<le> rb_tail s" "0 \<le> rb_head ?s" "rb_head ?s + rb_tail s \<le> int (length (rb_buffer ?s))"
      "int (length (rb_buffer ?s)) \<le> int_max" using i by simp_all
    obtain m2 k2 where m2: "0 \<le> m2" "m2 \<le> rb_tail s"
      "\<forall>delivered. stream_send os delivered \<longrightarrow>
         delivered fd k2 = delivered fd k1 @ take (nat m2) (drop (nat (rb_head ?s)) (rb_buffer ?s))"
      "so_run_loop os fd (rb_tail s) m1 ?s k1 =
         Inr (if m2 = rb_tail s then None else Some (-1), m1 + m2, ?s\<lparr>rb_head := rb_head ?s + m2\<rparr>, k2)"
      by (rule so_run_loop_spec [OF sb sp pre2, where fd = fd and k = k1 and out = m1])
    have "nat (m1 + m2) - nat ?n = nat m2" "nat ?n \<le> nat (m1 + m2)"
      "min (nat m2) (nat (rb_tail s)) = nat m2" using m1 m2 True by simp_all
    then have tk: "take (nat (m1 + m2)) (ring_contents s) = ?d @ take (nat m2) (rb_buffer s)"
      using ld unfolding rc by simp
    have deliv: "delivered fd k2 = delivered fd k @ take (nat (m1 + m2)) (ring_contents s)"
      if "stream_send os delivered" for delivered
      using m1(3) [rule_format, OF that] m2(3) [rule_format, OF that] True ld unfolding tk by simp
    have run: "so_refresh os fd s k = (if m2 = rb_tail s then Inr (m1 + m2, s\<lparr>rb_head := 0, rb_tail := 0\<rparr>, k2)
        else Inr (-1, s\<lparr>rb_head := m2\<rparr>, k2))"
      using nlt more m1(4) m2(4) True by (simp add: so_refresh_def)
    show ?thesis
    proof (cases "m2 = rb_tail s")
      case True
      have "drop (nat (m1 + m2)) (ring_contents s) = []"
        using True \<open>m1 = ?n\<close> length_ring_contents [OF inv] rl by simp
      then show ?thesis using run True \<open>m1 = ?n\<close> m1 m2 rl deliv i
        by (intro exI [of _ "m1 + m2"]) (auto simp: ring_inv_def ring_contents_def)
    next
      case False
      have "c_rem (rb_head s + (m1 + m2)) (rb_len s) = m2"
        using m2 i more True by (subst c_rem_wrap) auto
      then have adv: "s\<lparr>rb_head := m2\<rparr> = ring_advance (m1 + m2) s" by (simp add: ring_advance_def)
      have "0 \<le> m1 + m2" "m1 + m2 < ring_length s" using m1 m2 False True rl by simp_all
      then show ?thesis using run False deliv ring_advance_inv [OF inv] ring_advance_contents [OF inv]
        by (intro exI [of _ "m1 + m2"] exI [of _ "-1"] exI [of _ "ring_advance (m1 + m2) s"] exI [of _ k2])
          (auto simp: adv)
    qed
  qed
qed

text \<open>
  What \<open>refresh\<close> does to the ring: it hands out the first \<open>m\<close> bytes; all of them, or those before a
  failed \<open>send\<close>.
\<close>

lemma so_refresh_spec:
  assumes sb: "send_bounded os" and sp: "send_progress os" and inv: "ring_inv s"
  shows "\<exists>m ret s' k'. so_refresh os fd s k = Inr (ret, s', k') \<and> 0 \<le> m \<and> m \<le> ring_length s \<and>
    ring_inv s' \<and> ring_contents s' = drop (nat m) (ring_contents s) \<and>
    (\<forall>delivered. stream_send os delivered \<longrightarrow>
       delivered fd k' = delivered fd k @ take (nat m) (ring_contents s)) \<and>
    (ret = m \<and> m = ring_length s \<and> rb_head s' = 0 \<or> ret = -1 \<and> m < ring_length s)"
proof -
  note i = ring_invD [OF inv]
  consider (less) "rb_head s < rb_tail s" | (more) "rb_head s > rb_tail s" | (eq) "rb_head s = rb_tail s"
    by linarith
  then show ?thesis
  proof cases
    case eq
    then have "so_refresh os fd s k = Inr (0, s\<lparr>rb_head := 0, rb_tail := 0\<rparr>, k)"
      by (simp add: so_refresh_def)
    with eq i show ?thesis
      by (intro exI [of _ 0]) (auto simp: ring_inv_def ring_contents_def ring_length_def)
  next
    case less
    let ?n = "rb_tail s - rb_head s"
    have rl: "ring_length s = ?n" using less by (simp add: ring_length_def)
    have rc: "ring_contents s = take (nat ?n) (drop (nat (rb_head s)) (rb_buffer s))"
      using less by (simp add: ring_contents_def)
    have pre: "0 \<le> ?n" "0 \<le> rb_head s" "rb_head s + ?n \<le> int (length (rb_buffer s))"
      "int (length (rb_buffer s)) \<le> int_max" using less i by simp_all
    obtain m k' where m: "0 \<le> m" "m \<le> ?n"
      "\<forall>delivered. stream_send os delivered \<longrightarrow>
         delivered fd k' = delivered fd k @ take (nat m) (drop (nat (rb_head s)) (rb_buffer s))"
      "so_run_loop os fd ?n 0 s k =
         Inr (if m = ?n then None else Some (-1), 0 + m, s\<lparr>rb_head := rb_head s + m\<rparr>, k')"
      by (rule so_run_loop_spec [OF sb sp pre, where fd = fd and k = k and out = 0])
    have tk: "take (nat m) (ring_contents s) = take (nat m) (drop (nat (rb_head s)) (rb_buffer s))"
      using m(2) unfolding rc by (simp add: min_absorb1)
    show ?thesis
    proof (cases "m = ?n")
      case True
      have "so_refresh os fd s k = Inr (m, s\<lparr>rb_head := 0, rb_tail := 0\<rparr>, k')"
        using less m(4) True by (simp add: so_refresh_def)
      moreover have "drop (nat m) (ring_contents s) = []" using True rc by simp
      ultimately show ?thesis using m tk rl True i
        by (intro exI [of _ m]) (auto simp: ring_inv_def ring_contents_def)
    next
      case False
      have c: "c_rem (rb_head s + m) (rb_len s) = rb_head s + m"
        using m i less by (subst c_rem_wrap) auto
      then have adv: "s\<lparr>rb_head := rb_head s + m\<rparr> = ring_advance m s" by (simp add: ring_advance_def)
      have "so_refresh os fd s k = Inr (-1, ring_advance m s, k')"
        using less m(4) False by (simp add: so_refresh_def adv)
      then show ?thesis using m tk rl False ring_advance_inv [OF inv m(1)] ring_advance_contents [OF inv m(1)]
        by (intro exI [of _ m] exI [of _ "-1"] exI [of _ "ring_advance m s"] exI [of _ k']) auto
    qed
  next
    case more
    show ?thesis by (rule so_refresh_wrapped [OF sb sp inv more])
  qed
qed

text \<open>\<open>SocketOutput\<close> provides the interface the packet writer appends to.\<close>

definition so_room :: "int \<Rightarrow> socket_output \<Rightarrow> bool" where
  "so_room n s \<longleftrightarrow> rb_len s + max (n + 1) SOCKET_OUTPUT_SIZE_HALF \<le> int_max"

interpretation output_sink: byte_sink so_write ring_contents so_inv so_room
proof
  fix s :: socket_output and n :: int and xs :: "cell list"
  assume "so_inv s" "0 \<le> n" "n \<le> int (length xs)" "so_room n s"
  with so_write_spec [of s n xs] so_free_bytes_nonneg [of s]
  show "\<exists>s'. so_write xs n s = Inr (n, s') \<and> so_inv s' \<and> ring_contents s' = ring_contents s @ take (nat n) xs"
    unfolding so_room_def by (smt (verit))
qed

section \<open>Properties\<close>

text \<open>
  C10: \<open>write\<close> appends the message. While the data starts at the beginning of the array, which every
  successful operation maintains, \<open>write\<close> of \<open>size\<close> bytes succeeds, stays inside the array on every
  path (growing it when \<open>size\<close> does not fit), appends exactly the message to the bytes to be sent,
  and keeps the data at the beginning, provided only that the grown array's length is an \<open>int\<close>.
\<close>
theorem so_write_appends:
  assumes "so_inv s" "0 \<le> sz" "sz \<le> int (length buff)"
    and "rb_len s + max (sz + 1) SOCKET_OUTPUT_SIZE_HALF \<le> int_max"
  shows "\<exists>s'. so_write buff sz s = Inr (sz, s') \<and> so_inv s' \<and>
    ring_contents s' = ring_contents s @ take (nat sz) buff"
  using output_sink.put_appends [OF assms(1-3)] assms(4) by (simp add: so_room_def)

theorem so_write_appends_witness:
  "\<exists>s'. so_write [Some 1, Some 2] 2 so_new = Inr (2, s') \<and> so_inv s' \<and>
     ring_contents s' = ring_contents so_new @ take (nat 2) [Some 1, Some 2]"
  by (rule so_write_appends [OF so_new_inv]) (simp_all add: so_new_def output_sizes int_max_def)

text \<open>
  C9: \<open>refresh\<close> ends and loses nothing. If \<open>send\<close> accepts at most what it is given and makes progress,
  both loops end; what reached the socket followed by what is still buffered is exactly what was
  buffered, on success and after a failed \<open>send\<close>; and success (a result that is not negative) means
  that everything was sent and the buffer is empty with its data at the beginning.
\<close>
theorem so_refresh_delivers:
  assumes "ring_inv s" "send_bounded os" "send_progress os" "stream_send os delivered"
  shows "\<exists>ret s' k'. so_refresh os fd s k = Inr (ret, s', k') \<and> ring_inv s' \<and>
    delivered fd k' @ ring_contents s' = delivered fd k @ ring_contents s \<and>
    (ret = -1 \<and> ring_contents s' \<noteq> [] \<or> ret = so_length s \<and> so_inv s' \<and> ring_contents s' = [])"
proof -
  obtain m ret s' k' where r: "so_refresh os fd s k = Inr (ret, s', k')" "0 \<le> m" "m \<le> ring_length s"
    "ring_inv s'" "ring_contents s' = drop (nat m) (ring_contents s)"
    "delivered fd k' = delivered fd k @ take (nat m) (ring_contents s)"
    "ret = m \<and> m = ring_length s \<and> rb_head s' = 0 \<or> ret = -1 \<and> m < ring_length s"
    using so_refresh_spec [OF assms(2,3,1), of fd k] assms(4) by blast
  have "nat m < length (ring_contents s) \<longleftrightarrow> m < ring_length s"
    using r(2) length_ring_contents [OF assms(1)] by linarith
  then show ?thesis using r by (auto simp: so_inv_def so_length_def)
qed

definition so_two :: socket_output where
  "so_two = \<lparr>rb_buffer = [Some 9, None, Some 8], rb_len = 3, rb_max = SOCKET_OUTPUT_MAXSIZE,
             rb_head = 2, rb_tail = 1\<rparr>"

theorem so_refresh_delivers_witness:
  "\<exists>ret s' k'. so_refresh sim_os 5 so_two sim_idle = Inr (ret, s', k') \<and> ring_inv s' \<and>
    sim_tx k' @ ring_contents s' = sim_tx sim_idle @ [Some 8, Some 9] \<and>
    (ret = -1 \<and> ring_contents s' \<noteq> [] \<or> ret = so_length so_two \<and> so_inv s' \<and> ring_contents s' = [])"
proof -
  have "ring_inv so_two" "ring_contents so_two = [Some 8, Some 9]"
    by (simp_all add: ring_inv_def so_two_def int_max_def ring_contents_def)
  with so_refresh_delivers [OF this(1) sim_os_ok(5,6,7), of 5 sim_idle] show ?thesis by simp
qed

text \<open>
  C33: after a failed \<open>refresh\<close> the buffer is no longer safe to write to. When \<open>head_\<close> is positive and
  below \<open>tail_\<close>, a message that fits in the free space but not behind \<open>tail_\<close> is first copied whole to
  \<open>&buffer_[tail_]\<close>, past the end of the array.
\<close>
theorem so_write_wrapped_overflow:
  assumes "ring_inv s" "0 < rb_head s" "rb_head s < rb_tail s"
    and "rb_len s - rb_tail s < sz" "sz < so_free_bytes s" "sz \<le> int (length buff)"
  shows "so_write buff sz s = Inl OutOfBounds"
proof -
  note i = ring_invD [OF assms(1)]
  have sz: "0 \<le> sz" "sz < 2 ^ 64" using assms i by (auto simp: so_free_bytes_def int_max_def)
  have rd: "mem_read buff 0 sz = Inr (take (nat sz) buff)"
    using assms sz by (subst mem_read_ok) auto
  have "mem_write (rb_buffer s) (rb_tail s) (take (nat sz) buff) = Inl OutOfBounds"
    using assms i sz by (auto simp: mem_write_def)
  with assms show ?thesis by (simp add: so_write_def Let_def mem_cpy_def rd)
qed

theorem so_write_wrapped_overflow_witness:
  "so_write [Some 1, Some 2] 2 (so_two\<lparr>rb_buffer := replicate 8 None, rb_len := 8, rb_head := 6, rb_tail := 7\<rparr>) =
     Inl OutOfBounds"
  by (rule so_write_wrapped_overflow)
    (simp_all add: ring_inv_def so_two_def int_max_def so_free_bytes_def)

end
