(* ===== verification/Connector.thy ===== *)
theory Connector
  imports Posix_Api Byte_Order Proto_Messages Socket_Input Socket_Output
begin

unbundle bit_operations_syntax

text \<open>
  One connection: src/socket/socket.cpp (\<open>Socket\<close>, the pair of buffers on a descriptor),
  src/connector/connector.cpp (\<open>Connector\<close>, framing of packets) and src/user/user.cpp (\<open>User\<close>, the
  handler of packets). A packet on the wire is a 4-byte size that counts the header, a 2-byte id,
  both big-endian, and the serialised message. The protobuf wrappers \<open>ByteSize\<close>, \<open>SerializeToArray\<close>
  and \<open>ParseFromArray\<close> are the parameter \<open>'u protobuf\<close>; \<open>protobuf_ok\<close> says that they run the
  generated code of the message. Log output is left out.
\<close>

section \<open>The protobuf wrappers\<close>

record 'u protobuf =
  pb_wire :: "'u wire"
  pb_byte_size :: "'u packet \<Rightarrow> int"
  pb_serialize_to_array :: "'u packet \<Rightarrow> cell list \<Rightarrow> int \<Rightarrow> cell list"
  pb_parse_from_array :: "byte list \<Rightarrow> 'u packet \<Rightarrow> bool \<times> 'u packet"

fun packet_with :: "'u packet \<Rightarrow> 'u string_msg \<Rightarrow> 'u packet" where
  "packet_with (CS_Ping _) m = CS_Ping m"
| "packet_with (SC_RetPing _) m = SC_RetPing m"

definition packet_bytes :: "'u protobuf \<Rightarrow> 'u packet \<Rightarrow> byte list" where
  "packet_bytes pb p = msg_serialize (pb_wire pb) (packet_msg p)"

text \<open>
  \<open>ByteSize\<close> is the length of what the generated code writes, \<open>SerializeToArray\<close> stores those bytes
  at the start of an array that is large enough, and \<open>ParseFromArray\<close> clears the message and merges the
  bytes into it.
\<close>

definition protobuf_ok :: "'u protobuf \<Rightarrow> bool" where
  "protobuf_ok pb \<longleftrightarrow>
     (\<forall>p. int (length (packet_bytes pb p)) \<le> int_max \<longrightarrow>
        pb_byte_size pb p = int (length (packet_bytes pb p))) \<and>
     (\<forall>p dst. length (packet_bytes pb p) \<le> length dst \<longrightarrow>
        pb_serialize_to_array pb p dst (int (length dst)) =
          map Some (packet_bytes pb p) @ drop (length (packet_bytes pb p)) dst) \<and>
     (\<forall>bs p m. msg_merge_partial (pb_wire pb) bs (msg_clear (pb_wire pb) (packet_msg p)) = Some (True, m) \<longrightarrow>
        pb_parse_from_array pb bs p = (True, packet_with p m))"

section \<open>Socket\<close>

definition invalid_id :: int where "invalid_id = -1"

definition EPOLLIN :: "32 word" where "EPOLLIN = 1"
definition EPOLLOUT :: "32 word" where "EPOLLOUT = 4"
definition EPOLLERR :: "32 word" where "EPOLLERR = 8"
definition EPOLLHUP :: "32 word" where "EPOLLHUP = 16"

lemmas epoll_flags = EPOLLIN_def EPOLLOUT_def EPOLLERR_def EPOLLHUP_def

record epoll_event =
  ev_fd :: int
  ev_events :: "32 word"

record socket =
  socket_fd :: int
  epoll_fd :: int
  sk_event :: "epoll_event option"
  socket_input :: socket_input
  socket_output :: socket_output

definition socket_new :: socket where
  "socket_new = \<lparr>socket_fd = invalid_id, epoll_fd = invalid_id, sk_event = None,
                 socket_input = si_new, socket_output = so_new\<rparr>"

definition socket_close_socket :: "'k posix \<Rightarrow> socket \<Rightarrow> 'k \<Rightarrow> socket \<times> 'k" where
  "socket_close_socket os sk k =
     (if socket_fd sk \<noteq> invalid_id
      then (sk\<lparr>socket_fd := invalid_id\<rparr>, sys_close os (socket_fd sk) k) else (sk, k))"

definition socket_init :: "'k posix \<Rightarrow> int \<Rightarrow> int \<Rightarrow> socket \<Rightarrow> 'k \<Rightarrow> bool \<times> socket \<times> 'k" where
  "socket_init os fd ep sk k =
     (let ev = \<lparr>ev_fd = fd, ev_events = EPOLLIN OR EPOLLOUT OR EPOLLHUP OR EPOLLERR\<rparr>;
          (r, k') = sys_epoll_add os ep fd (ev_events ev) k
      in (True, sk\<lparr>socket_fd := fd, epoll_fd := ep, sk_event := Some ev\<rparr>, k'))"

definition socket_exec_read :: "'k posix \<Rightarrow> socket \<Rightarrow> 'k \<Rightarrow> (int \<times> socket \<times> 'k) result" where
  "socket_exec_read os sk k =
     bindR (si_feed os (socket_fd sk) (socket_input sk) k)
       (\<lambda>(r, si, k'). Inr (r, sk\<lparr>socket_input := si\<rparr>, k'))"

definition socket_exec_write :: "'k posix \<Rightarrow> socket \<Rightarrow> 'k \<Rightarrow> (int \<times> socket \<times> 'k) result" where
  "socket_exec_write os sk k =
     bindR (so_refresh os (socket_fd sk) (socket_output sk) k)
       (\<lambda>(r, so, k'). Inr (r, sk\<lparr>socket_output := so\<rparr>, k'))"

definition socket_fetch :: "cell list \<Rightarrow> int \<Rightarrow> socket \<Rightarrow> (cell list \<times> socket) result" where
  "socket_fetch dst sz sk =
     bindR (si_fetch dst sz (socket_input sk)) (\<lambda>(d, si). Inr (d, sk\<lparr>socket_input := si\<rparr>))"

definition socket_fetch_header :: "cell list \<Rightarrow> int \<Rightarrow> socket \<Rightarrow> (cell list \<times> socket) result" where
  "socket_fetch_header = socket_fetch"

definition socket_fetch_content :: "cell list \<Rightarrow> int \<Rightarrow> socket \<Rightarrow> (cell list \<times> socket) result" where
  "socket_fetch_content = socket_fetch"

definition socket_write :: "cell list \<Rightarrow> int \<Rightarrow> socket \<Rightarrow> socket result" where
  "socket_write buff sz sk =
     bindR (so_write buff sz (socket_output sk)) (\<lambda>(r, so). Inr (sk\<lparr>socket_output := so\<rparr>))"

section \<open>Connector and User\<close>

definition PACKET_BYTES_SIZE :: int where "PACKET_BYTES_SIZE = 4"
definition PACKET_ID_SIZE :: int where "PACKET_ID_SIZE = 2"
definition PACKET_HEADER_SIZE :: int where "PACKET_HEADER_SIZE = PACKET_BYTES_SIZE + PACKET_ID_SIZE"

lemmas packet_sizes = PACKET_BYTES_SIZE_def PACKET_ID_SIZE_def PACKET_HEADER_SIZE_def

text \<open>
  \<open>conn_socket = None\<close> is the empty \<open>shared_ptr\<close>. \<open>user_\<close> only refers back to its connector and has no
  state of its own.
\<close>

record connector =
  conn_socket :: "socket option"

definition connector_new :: connector where
  "connector_new = \<lparr>conn_socket = None\<rparr>"

definition the_socket :: "connector \<Rightarrow> socket result" where
  "the_socket c = (case conn_socket c of None \<Rightarrow> Inl NullDeref | Some sk \<Rightarrow> Inr sk)"

text \<open>The assignment of \<open>create_socket\<close> destroys a socket that the connector had, which closes its descriptor.\<close>

definition create_socket :: "'k posix \<Rightarrow> int \<Rightarrow> int \<Rightarrow> connector \<Rightarrow> 'k \<Rightarrow> bool \<times> connector \<times> 'k" where
  "create_socket os fd ep c k =
     (let k0 = (case conn_socket c of None \<Rightarrow> k | Some old \<Rightarrow> snd (socket_close_socket os old k));
          (ok, sk, k') = socket_init os fd ep socket_new k0
      in (ok, c\<lparr>conn_socket := Some sk\<rparr>, k'))"

text \<open>\<open>close_socket\<close>: closes the descriptor, then drops the socket, whose destructor closes again.\<close>

definition close_socket :: "'k posix \<Rightarrow> connector \<Rightarrow> 'k \<Rightarrow> (connector \<times> 'k) result" where
  "close_socket os c k =
     bindR (the_socket c) (\<lambda>sk.
       let (sk1, k1) = socket_close_socket os sk k;
           (sk2, k2) = socket_close_socket os sk1 k1
       in Inr (c\<lparr>conn_socket := None\<rparr>, k2))"

definition get_socketid :: "connector \<Rightarrow> int result" where
  "get_socketid c = bindR (the_socket c) (\<lambda>sk. Inr (socket_fd sk))"

definition connector_exec_read :: "'k posix \<Rightarrow> connector \<Rightarrow> 'k \<Rightarrow> (int \<times> connector \<times> 'k) result" where
  "connector_exec_read os c k =
     bindR (the_socket c) (\<lambda>sk. bindR (socket_exec_read os sk k)
       (\<lambda>(r, sk', k'). Inr (r, c\<lparr>conn_socket := Some sk'\<rparr>, k')))"

definition connector_exec_write :: "'k posix \<Rightarrow> connector \<Rightarrow> 'k \<Rightarrow> (int \<times> connector \<times> 'k) result" where
  "connector_exec_write os c k =
     bindR (the_socket c) (\<lambda>sk. bindR (socket_exec_write os sk k)
       (\<lambda>(r, sk', k'). Inr (r, c\<lparr>conn_socket := Some sk'\<rparr>, k')))"

text \<open>\<open>send_packet\<close>.\<close>

definition send_packet :: "'u protobuf \<Rightarrow> int \<Rightarrow> 'u packet \<Rightarrow> connector \<Rightarrow> connector result" where
  "send_packet pb pid p c =
     (let packet_size = word_of_int (pb_byte_size pb p) :: 32 word;
          total_packet_size = packet_size + word_of_int PACKET_HEADER_SIZE;
          packet_size_n = htonl total_packet_size;
          packet_id_n = htons (word_of_int pid)
      in bindR (mem_cpy (replicate 64 (Some 0)) 0 (map Some (le32 packet_size_n)) 0 PACKET_BYTES_SIZE)
        (\<lambda>packet_size_s.
         bindR (mem_cpy (replicate 64 (Some 0)) 0 (map Some (le16 packet_id_n)) 0 PACKET_ID_SIZE)
        (\<lambda>packet_id_s.
         let buff = pb_serialize_to_array pb p (replicate (unat packet_size) (Some 0)) (sint packet_size);
             message = replicate (unat total_packet_size) (Some 0)
         in bindR (mem_cpy message 0 packet_size_s 0 PACKET_BYTES_SIZE)
        (\<lambda>message. bindR (mem_cpy message PACKET_BYTES_SIZE packet_id_s 0 PACKET_ID_SIZE)
        (\<lambda>message. bindR (mem_cpy message PACKET_HEADER_SIZE buff 0 (uint packet_size))
        (\<lambda>message. bindR (the_socket c)
        (\<lambda>sk. bindR (socket_write message (sint total_packet_size) sk)
        (\<lambda>sk'. Inr (c\<lparr>conn_socket := Some sk'\<rparr>)))))))))"

text \<open>\<open>User::exec_packet\<close>: the answer to a ping; every other packet is ignored.\<close>

definition ping_reply_text :: "byte list" where
  "ping_reply_text = map of_char ''received your message ##new message##''"

definition user_send_packet :: "'u protobuf \<Rightarrow> int \<Rightarrow> 'u packet \<Rightarrow> connector \<Rightarrow> connector result" where
  "user_send_packet = send_packet"

definition exec_packet_ping :: "'u protobuf \<Rightarrow> 'u packet \<Rightarrow> connector \<Rightarrow> connector result" where
  "exec_packet_ping pb p c =
     (let ret_packet = SC_RetPing (set_ret_param ping_reply_text (ret_new (pb_wire pb)))
      in user_send_packet pb (int (packet_id_value SC_RET_PING)) ret_packet c)"

definition exec_packet :: "'u protobuf \<Rightarrow> nat \<Rightarrow> 'u packet \<Rightarrow> connector \<Rightarrow> connector result" where
  "exec_packet pb pid p c =
     (if packet_id_of pid = CS_PING then exec_packet_ping pb p c else Inr c)"

text \<open>
  \<open>exec_parse\<close>. \<open>bytes_of\<close> is the use of an array's bytes as values. The first part reads the packet
  (the id, the parsed message, the socket), the second hands it to the user.
\<close>

definition bytes_of :: "cell list \<Rightarrow> byte list result" where
  "bytes_of cs = (if None \<in> set cs then Inl UninitRead else Inr (map the cs))"

definition parse_packet :: "'u protobuf \<Rightarrow> socket \<Rightarrow> (nat \<times> 'u packet \<times> socket) result" where
  "parse_packet pb sk =
     bindR (socket_fetch_header (replicate (nat PACKET_HEADER_SIZE) (Some 0)) PACKET_HEADER_SIZE sk)
       (\<lambda>(header, sk1). bindR (bytes_of header)
       (\<lambda>packet_header.
         let packet_size = htonl (of_le32 (take 4 packet_header));
             packet_id = htons (of_le16 (drop 4 packet_header));
             content_size = packet_size - word_of_int PACKET_HEADER_SIZE
         in bindR (socket_fetch_content (replicate (unat content_size) None) (sint content_size) sk1)
       (\<lambda>(packet_cont, sk2).
         case create_packet (pb_wire pb) (unat packet_id) of
           None \<Rightarrow> Inl NullDeref
         | Some p \<Rightarrow> bindR (bytes_of packet_cont)
             (\<lambda>bs. Inr (unat packet_id, snd (pb_parse_from_array pb bs p), sk2)))))"

definition exec_parse :: "'u protobuf \<Rightarrow> connector \<Rightarrow> connector result" where
  "exec_parse pb c =
     bindR (the_socket c) (\<lambda>sk. bindR (parse_packet pb sk)
       (\<lambda>(pid, p, sk'). exec_packet pb pid p (c\<lparr>conn_socket := Some sk'\<rparr>)))"

section \<open>Frames\<close>

text \<open>A packet on the wire.\<close>

definition packet_header :: "16 word \<Rightarrow> 32 word \<Rightarrow> byte list" where
  "packet_header pid sz = rev (le32 sz) @ rev (le16 pid)"

definition frame :: "nat \<Rightarrow> byte list \<Rightarrow> byte list" where
  "frame pid body = packet_header (of_nat pid) (of_nat (6 + length body)) @ body"

lemma length_packet_header [simp]: "length (packet_header pid sz) = 6"
  by (simp add: packet_header_def)

lemma length_frame [simp]: "length (frame pid body) = 6 + length body"
  by (simp add: frame_def)

text \<open>Reading a header gives back what was put into it.\<close>

lemma packet_header_size: "htonl (of_le32 (take 4 (packet_header pid sz))) = sz"
  by (simp add: packet_header_def htonl_def le32_of_le32)

lemma packet_header_id: "htons (of_le16 (drop 4 (packet_header pid sz))) = pid"
  by (simp add: packet_header_def htons_def le16_of_le16)

lemmas packet_header_fields = packet_header_size packet_header_id

lemma bytes_of_map_Some [simp]: "bytes_of (map Some bs) = Inr bs"
  by (auto simp: bytes_of_def comp_def)

lemma bytes_of_replicate_None: "0 < n \<Longrightarrow> bytes_of (replicate n None) = Inl UninitRead"
  by (simp add: bytes_of_def)

lemma word32_small:
  assumes "n < 2 ^ 31"
  shows "unat (of_nat n :: 32 word) = n" "sint (of_nat n :: 32 word) = int n" "uint (of_nat n :: 32 word) = int n"
proof -
  show u: "unat (of_nat n :: 32 word) = n" using assms by (simp add: unat_of_nat take_bit_nat_eq_self)
  then show "uint (of_nat n :: 32 word) = int n" by (simp add: uint_nat)
  show "sint (of_nat n :: 32 word) = int n"
    using assms by (simp add: signed_of_nat signed_take_bit_int_eq_self)
qed

lemma word16_small: "n < 65536 \<Longrightarrow> unat (of_nat n :: 16 word) = n"
  by (simp add: unat_of_nat take_bit_nat_eq_self)

lemma content_size_frame:
  "(of_nat (6 + n) :: 32 word) - 6 = of_nat n"
  by simp

lemma header_size_nat: "nat PACKET_HEADER_SIZE = 6" "PACKET_HEADER_SIZE = int 6"
  by (simp_all add: packet_sizes)

text \<open>A complete packet at the front of the input is taken off it, and only it.\<close>

lemma parse_packet_complete:
  assumes inv: "si_inv (socket_input sk)" and body: "length body < 2 ^ 31"
    and q: "ring_contents (socket_input sk) = map Some (packet_header pid (of_nat (6 + length body))) @ map Some body @ rest"
  shows "\<exists>si'. si_inv si' \<and> ring_contents si' = rest \<and>
    parse_packet pb sk =
      (case create_packet (pb_wire pb) (unat pid) of None \<Rightarrow> Inl NullDeref
       | Some p \<Rightarrow> Inr (unat pid, snd (pb_parse_from_array pb body p), sk\<lparr>socket_input := si'\<rparr>))"
proof -
  obtain s1 s2 where s: "si_fetch (replicate 6 (Some 0)) 6 (socket_input sk) =
      Inr (map Some (packet_header pid (of_nat (6 + length body))), s1)"
    "si_fetch (replicate (length body) None) (int (length body)) s1 = Inr (map Some body, s2)"
    "si_inv s2" "ring_contents s2 = rest"
    using input_source.fetch_two [OF inv q, of "replicate 6 (Some 0)" "replicate (length body) None"] by auto
  show ?thesis
    by (intro exI [of _ s2])
      (simp add: parse_packet_def socket_fetch_header_def socket_fetch_content_def socket_fetch_def
        header_size_nat s packet_header_fields content_size_frame word32_small [OF body] Let_def
        del: of_nat_add split: option.splits)
qed

lemma parse_packet_body_missing:
  assumes inv: "si_inv (socket_input sk)"
    and n: "int (length rest) < int n" "n < 2 ^ 31"
    and q: "ring_contents (socket_input sk) = map Some (packet_header pid (of_nat (6 + n))) @ rest"
  shows "parse_packet pb sk =
    (if create_packet (pb_wire pb) (unat pid) = None then Inl NullDeref else Inl UninitRead)"
proof -
  obtain s1 where s: "si_fetch (replicate 6 (Some 0)) 6 (socket_input sk) =
      Inr (map Some (packet_header pid (of_nat (6 + n))), s1)" "si_inv s1" "ring_contents s1 = rest"
    using input_source.fetch_exact [OF inv q, of "replicate 6 (Some 0)"] by auto
  have "si_fetch (replicate n None) (int n) s1 = Inr (replicate n None, s1)"
    using input_source.fetch_unavailable [OF s(2)] s(3) n by simp
  moreover have "0 < n" using n(1) by simp
  ultimately show ?thesis
    using s by (simp add: parse_packet_def socket_fetch_header_def socket_fetch_content_def socket_fetch_def
        header_size_nat packet_header_fields content_size_frame word32_small [OF n(2)] n bytes_of_replicate_None Let_def
        del: of_nat_add split: option.splits)
qed

text \<open>With fewer bytes than a header the header stays zero and the content size wraps around.\<close>

lemma short_header_size:
  "htonl (of_le32 (replicate 4 0)) - 6 = (-6 :: 32 word)"
  by (simp add: of_le32_def htonl_def le32_def nth_replicate)

lemma parse_packet_short_header:
  assumes inv: "si_inv (socket_input sk)" and short: "int (length (ring_contents (socket_input sk))) < 6"
  shows "parse_packet pb sk = Inl OutOfBounds"
proof -
  have a: "si_fetch (replicate 6 (Some 0)) 6 (socket_input sk) = Inr (replicate 6 (Some 0), socket_input sk)"
    using input_source.fetch_unavailable [OF inv] short by simp
  have b: "bytes_of (replicate 6 (Some 0)) = Inr (replicate 6 0)"
    using bytes_of_map_Some [of "replicate 6 0"] by (simp del: bytes_of_map_Some)
  have "si_fetch dst (-6) (socket_input sk) = Inl OutOfBounds" for dst
    using input_source.fetch_below_zero [OF inv, of "-6" dst] by (simp add: int_min_def)
  with a b show ?thesis
    by (simp add: parse_packet_def socket_fetch_header_def socket_fetch_content_def socket_fetch_def
        header_size_nat short_header_size Let_def)
qed

section \<open>Sending\<close>

text \<open>The \<open>memcpy\<close> calls that put a message together.\<close>

lemma header_field_copy:
  assumes "length xs \<le> 64" "n = int (length xs)"
  shows "mem_cpy (replicate 64 (Some 0)) 0 xs 0 n = Inr (xs @ replicate (64 - length xs) (Some 0))"
  using assms by (subst mem_cpy_ok) (auto simp: drop_replicate)

lemma message_layout:
  assumes "length a = 4" "length b = 2" "length body < 2 ^ 31"
  shows "mem_cpy (replicate (6 + length body) (Some 0)) 0 (a @ x) 0 PACKET_BYTES_SIZE =
      Inr (a @ replicate (2 + length body) (Some 0))"
    and "mem_cpy (a @ replicate (2 + length body) (Some 0)) PACKET_BYTES_SIZE (b @ y) 0 PACKET_ID_SIZE =
      Inr (a @ b @ replicate (length body) (Some 0))"
    and "mem_cpy (a @ b @ replicate (length body) (Some 0)) PACKET_HEADER_SIZE body 0 (int (length body)) =
      Inr (a @ b @ body)"
  using assms by (simp_all add: mem_cpy_ok packet_sizes drop_replicate nat_add_distrib)

lemma send_packet_frame:
  assumes pb: "protobuf_ok pb" and len: "length (packet_bytes pb p) + 6 < 2 ^ 31"
    and sk: "conn_socket c = Some sk"
  shows "send_packet pb (int pid) p c =
    bindR (socket_write (map Some (frame pid (packet_bytes pb p))) (int (6 + length (packet_bytes pb p))) sk)
      (\<lambda>sk'. Inr (c\<lparr>conn_socket := Some sk'\<rparr>))"
proof -
  let ?b = "packet_bytes pb p"
  let ?f = "map Some (frame pid ?b)"
  have n: "length ?b < 2 ^ 31" "6 + length ?b < 2 ^ 31" using len by simp_all
  have sz: "pb_byte_size pb p = int (length ?b)"
    using pb len by (simp add: protobuf_ok_def int_max_def)
  have ser: "pb_serialize_to_array pb p (replicate (length ?b) (Some 0)) (int (length ?b)) = map Some ?b"
    using pb unfolding protobuf_ok_def by (metis append_Nil2 drop_replicate diff_self_eq_0 length_replicate order_refl replicate_0)
  have tot: "(of_nat (length ?b) :: 32 word) + word_of_int PACKET_HEADER_SIZE = of_nat (6 + length ?b)"
    by (simp add: packet_sizes)
  have f: "?f = map Some (le32 (htonl (of_nat (6 + length ?b)))) @ map Some (le16 (htons (of_nat pid))) @ map Some ?b"
    by (simp add: frame_def packet_header_def le32_htonl le16_htons)
  let ?a = "map Some (le32 (htonl (of_nat (6 + length ?b)))) :: cell list"
  let ?i = "map Some (le16 (htons (of_nat pid))) :: cell list"
  have copies: "mem_cpy (replicate 64 (Some 0)) 0 ?a 0 PACKET_BYTES_SIZE = Inr (?a @ replicate 60 (Some 0))"
    "mem_cpy (replicate 64 (Some 0)) 0 ?i 0 PACKET_ID_SIZE = Inr (?i @ replicate 62 (Some 0))"
    by (subst header_field_copy; simp add: packet_sizes)+
  have lay: "length ?a = 4" "length ?i = 2" "length (map Some ?b) < 2 ^ 31" using n by simp_all
  show ?thesis
    unfolding send_packet_def Let_def sz tot copies of_int_of_nat_eq word32_small [OF n(1)]
      word32_small [OF n(2)] ser bindR_simps
      message_layout [OF lay, unfolded length_map] f [symmetric] the_socket_def sk option.case ..
qed

lemma send_packet_room:
  assumes "protobuf_ok pb" "length (packet_bytes pb p) + 6 < 2 ^ 31" "conn_socket c = Some sk"
    and "so_inv (socket_output sk)" "so_room (int (6 + length (packet_bytes pb p))) (socket_output sk)"
  shows "\<exists>so'. so_inv so' \<and>
    ring_contents so' = ring_contents (socket_output sk) @ map Some (frame pid (packet_bytes pb p)) \<and>
    send_packet pb (int pid) p c = Inr (c\<lparr>conn_socket := Some (sk\<lparr>socket_output := so'\<rparr>)\<rparr>)"
proof -
  let ?f = "map Some (frame pid (packet_bytes pb p))"
  obtain so' where "so_write ?f (int (6 + length (packet_bytes pb p))) (socket_output sk) =
      Inr (int (6 + length (packet_bytes pb p)), so')"
    "so_inv so'" "ring_contents so' = ring_contents (socket_output sk) @ ?f"
    using output_sink.put_whole [OF assms(4), of ?f] assms(5) by auto
  then show ?thesis using send_packet_frame [OF assms(1-3), of pid] by (auto simp: socket_write_def)
qed

text \<open>Whatever room there is: if \<open>send_packet\<close> returns, the output buffer is well formed.\<close>

lemma send_packet_keeps:
  assumes "protobuf_ok pb" "length (packet_bytes pb p) + 6 < 2 ^ 31" "conn_socket c = Some sk"
    and "so_inv (socket_output sk)" "send_packet pb (int pid) p c = Inr c'"
  shows "\<exists>so'. c' = c\<lparr>conn_socket := Some (sk\<lparr>socket_output := so'\<rparr>)\<rparr> \<and> so_inv so'"
proof -
  let ?f = "map Some (frame pid (packet_bytes pb p))"
  obtain r so' where "so_write ?f (int (6 + length (packet_bytes pb p))) (socket_output sk) = Inr (r, so')"
    "c' = c\<lparr>conn_socket := Some (sk\<lparr>socket_output := so'\<rparr>)\<rparr>"
    using assms(5) unfolding send_packet_frame [OF assms(1-3)] by (auto simp: socket_write_def bindR_eq_Inr)
  moreover from so_write_keeps [OF assms(4) _ _ this(1)] have "so_inv so'" by simp
  ultimately show ?thesis by blast
qed

lemma si_fetch_keeps:
  assumes "si_inv s" "int_min \<le> n" "n \<le> int (length dst)" "si_fetch dst n s = Inr (d, s')"
  shows "si_inv s'"
proof -
  consider "n < 0" | "n = 0 \<or> int (length (ring_contents s)) < n" | "0 < n" "n \<le> int (length (ring_contents s))"
    by linarith
  then show ?thesis
    using assms input_source.fetch_below_zero [OF assms(1)] input_source.fetch_unavailable [OF assms(1)]
      input_source.fetch_available [OF assms(1)]
    by cases (fastforce, fastforce, fastforce)
qed

lemma sint_unat_bound: "int_min \<le> sint (w :: 32 word)" "sint w \<le> int (unat w)"
proof -
  show "int_min \<le> sint w" using sint_greater_eq [of w] by (simp add: int_min_def)
  have s: "sint w = signed_take_bit 31 (uint w)" by (simp add: sint_uint)
  show "sint w \<le> int (unat w)"
  proof (cases "uint w < 2 ^ 31")
    case True
    then have "sint w = uint w"
      unfolding s by (rule signed_take_bit_int_eq_self [rotated]) (rule order_trans [OF _ uint_ge_0], simp)
    then show ?thesis by simp
  next
    case False
    then have "sint w \<le> uint w - 2 ^ Suc 31" unfolding s by (intro signed_take_bit_int_less_eq) simp
    then show ?thesis by simp
  qed
qed

lemma parse_packet_keeps:
  assumes "si_inv (socket_input sk)" "parse_packet pb sk = Inr (pid, p, sk')"
  shows "\<exists>si. sk' = sk\<lparr>socket_input := si\<rparr> \<and> si_inv si"
proof -
  obtain header s1 h packet_cont s2 n where
    1: "si_fetch (replicate 6 (Some 0)) 6 (socket_input sk) = Inr (header, s1)" and
    2: "si_fetch (replicate (unat n) None) (sint (n :: 32 word)) s1 = Inr (packet_cont, s2)" and
    3: "sk' = sk\<lparr>socket_input := s2\<rparr>" and h: "bytes_of header = Inr h"
    using assms(2) unfolding parse_packet_def socket_fetch_header_def socket_fetch_content_def socket_fetch_def
      header_size_nat Let_def
    by (auto simp: bindR_eq_Inr split: option.splits)
  have "si_inv s1" by (rule si_fetch_keeps [OF assms(1) _ _ 1]) (simp_all add: int_min_def)
  from si_fetch_keeps [OF this _ _ 2] have "si_inv s2" using sint_unat_bound [of n] by simp
  with 3 show ?thesis by blast
qed

section \<open>A concrete protobuf runtime\<close>

definition proto_rt :: "byte list protobuf" where
  "proto_rt =
     \<lparr>pb_wire = proto_wire,
      pb_byte_size = (\<lambda>p. int (fst (msg_byte_size proto_wire (packet_msg p)))),
      pb_serialize_to_array = (\<lambda>p dst n.
        let bs = msg_serialize proto_wire (packet_msg p)
        in if int (length bs) \<le> n then map Some bs @ drop (length bs) dst else dst),
      pb_parse_from_array = (\<lambda>bs p.
        case msg_merge_partial proto_wire bs (msg_clear proto_wire (packet_msg p)) of
          Some (ok, m) \<Rightarrow> (ok, packet_with p m) | None \<Rightarrow> (False, p))\<rparr>"

lemma proto_wire_size: "length (msg_serialize proto_wire m) = fst (msg_byte_size proto_wire m)"
  by (simp add: msg_serialize_def msg_byte_size_def proto_wire_def has_param_def Let_def)

lemma proto_rt_ok: "protobuf_ok proto_rt"
  by (auto simp: protobuf_ok_def proto_rt_def packet_bytes_def proto_wire_size Let_def)

lemma proto_rt_wire [simp]: "pb_wire proto_rt = proto_wire"
  by (simp add: proto_rt_def)

text \<open>A connector on descriptor 7 that has received the bytes \<open>bs\<close>.\<close>

definition conn_holding :: "byte list \<Rightarrow> connector" where
  "conn_holding bs = \<lparr>conn_socket = Some (socket_new\<lparr>socket_fd := 7, epoll_fd := 3,
     socket_input := si_new\<lparr>rb_buffer := map Some bs @ replicate (16 - length bs) (Some 0),
                            rb_tail := int (length bs)\<rparr>\<rparr>)\<rparr>"

section \<open>Properties\<close>

definition socket_inv :: "socket \<Rightarrow> bool" where
  "socket_inv sk \<longleftrightarrow> si_inv (socket_input sk) \<and> so_inv (socket_output sk)"

lemma socket_new_inv: "socket_inv socket_new"
  by (simp add: socket_inv_def socket_new_def si_new_inv so_new_inv)

definition ping_reply :: "'u protobuf \<Rightarrow> 'u packet" where
  "ping_reply pb = SC_RetPing (set_param ping_reply_text (msg_new (pb_wire pb)))"

lemma packet_ids: "unat (of_nat 1 :: 16 word) = 1" "unat (of_nat 2 :: 16 word) = 2"
  by simp_all

lemma conn_holding_ok:
  assumes "length bs < 16"
  obtains sk where "conn_socket (conn_holding bs) = Some sk" "socket_inv sk"
    "ring_contents (socket_input sk) = map Some bs" "socket_output sk = so_new"
  using assms so_new_inv
  by (auto simp: conn_holding_def socket_inv_def socket_new_def si_inv_def si_new_def ring_inv_def input_sizes
      int_max_def ring_contents_def)

lemma proto_msg_size:
  assumes "length v < 128"
  shows "length (msg_serialize proto_wire (set_param v (msg_new proto_wire))) = 2 + length v"
  using assms unfolding proto_wire_size by (simp add: msg_byte_size_def msg_new_def proto_wire_def varint.simps Let_def)

lemma proto_reply_small: "length (packet_bytes proto_rt (ping_reply proto_rt)) = 39"
  using proto_msg_size [of ping_reply_text] by (simp add: packet_bytes_def ping_reply_def ping_reply_text_def)

lemma so_new_room: "n < 10000 \<Longrightarrow> so_room n so_new"
  by (simp add: so_room_def so_new_def output_sizes int_max_def)

text \<open>What reading, writing and parsing leave of a connection.\<close>

definition reply_ok :: "'u protobuf \<Rightarrow> bool" where
  "reply_ok pb \<longleftrightarrow> protobuf_ok pb \<and> length (packet_bytes pb (ping_reply pb)) + 6 < 2 ^ 31"

lemma proto_rt_reply: "reply_ok proto_rt"
  by (simp add: reply_ok_def proto_rt_ok proto_reply_small)

definition recv_ok :: "'k posix \<Rightarrow> bool" where
  "recv_ok os \<longleftrightarrow> recv_bounded os \<and> fionread_small os"

definition send_ok :: "'k posix \<Rightarrow> bool" where
  "send_ok os \<longleftrightarrow> send_bounded os \<and> send_progress os"

lemma sim_os_io: "recv_ok sim_os" "send_ok sim_os"
  by (simp_all add: recv_ok_def send_ok_def sim_os_ok)

lemma connector_read_keeps:
  assumes "conn_socket c = Some sk" "socket_inv sk" "recv_ok os" "feed_overrun os (socket_fd sk) (socket_input sk) k = 0"
  shows "\<exists>ret si k'. connector_exec_read os c k = Inr (ret, c\<lparr>conn_socket := Some (sk\<lparr>socket_input := si\<rparr>)\<rparr>, k') \<and>
    socket_inv (sk\<lparr>socket_input := si\<rparr>)"
proof -
  have "si_inv (socket_input sk)" using assms(2) by (simp add: socket_inv_def)
  with assms(3,4) obtain out where out: "si_feed os (socket_fd sk) (socket_input sk) k = Inr out"
    "fed os (socket_fd sk) (socket_input sk) k 0 out"
    using si_feed_spec [of "socket_input sk" os] unfolding recv_ok_def by blast
  obtain ret si k' where o: "out = (ret, si, k')" by (cases out)
  then have "si_inv si" using out(2) by (simp add: fed_def)
  then show ?thesis
    using out(1) o assms(1,2)
    by (intro exI [of _ ret] exI [of _ si] exI [of _ k'])
      (simp add: connector_exec_read_def the_socket_def socket_exec_read_def socket_inv_def)
qed

lemma connector_write_keeps:
  assumes "conn_socket c = Some sk" "socket_inv sk" "send_ok os"
  shows "\<exists>ret so k'. connector_exec_write os c k = Inr (ret, c\<lparr>conn_socket := Some (sk\<lparr>socket_output := so\<rparr>)\<rparr>, k') \<and>
    (ret \<noteq> -1 \<longrightarrow> socket_inv (sk\<lparr>socket_output := so\<rparr>))"
proof -
  have "ring_inv (socket_output sk)" using assms(2) by (simp add: socket_inv_def so_inv_def)
  with assms(3) obtain ret so k' where "so_refresh os (socket_fd sk) (socket_output sk) k = Inr (ret, so, k')"
    "ring_inv so" "rb_head so = 0 \<or> ret = -1"
    using so_refresh_spec [of os "socket_output sk" "socket_fd sk" k] unfolding send_ok_def by blast
  then show ?thesis
    using assms(1,2) by (auto simp: connector_exec_write_def the_socket_def socket_exec_write_def socket_inv_def so_inv_def)
qed

lemma exec_parse_keeps:
  assumes "conn_socket c = Some sk" "socket_inv sk" "reply_ok pb" "exec_parse pb c = Inr c'"
  shows "\<exists>sk'. conn_socket c' = Some sk' \<and> socket_inv sk' \<and> socket_fd sk' = socket_fd sk"
proof -
  obtain pid p sk1 where 1: "parse_packet pb sk = Inr (pid, p, sk1)"
    "exec_packet pb pid p (c\<lparr>conn_socket := Some sk1\<rparr>) = Inr c'"
    using assms(1,4) by (auto simp: exec_parse_def the_socket_def bindR_eq_Inr)
  obtain si where si: "sk1 = sk\<lparr>socket_input := si\<rparr>" "si_inv si"
    using parse_packet_keeps [OF _ 1(1)] assms(2) unfolding socket_inv_def by blast
  show ?thesis
  proof (cases "packet_id_of pid = CS_PING")
    case True
    then have "send_packet pb (int 2) (ping_reply pb) (c\<lparr>conn_socket := Some sk1\<rparr>) = Inr c'"
      using 1(2) by (simp add: exec_packet_def exec_packet_ping_def user_send_packet_def ping_reply_def sc_ret_ping Let_def)
    then show ?thesis
      using send_packet_keeps [of pb "ping_reply pb" "c\<lparr>conn_socket := Some sk1\<rparr>" sk1 2] assms(2,3) si
      by (auto simp: reply_ok_def socket_inv_def)
  next
    case False
    then show ?thesis using 1(2) si assms(2) by (auto simp: exec_packet_def socket_inv_def)
  qed
qed

lemma socket_created:
  "create_socket os fd ep c k = (ok, c', k') \<Longrightarrow>
   ok \<and> (\<exists>sk. conn_socket c' = Some sk \<and> socket_inv sk \<and> socket_fd sk = fd)"
  using socket_new_inv
  by (auto simp: create_socket_def socket_init_def Let_def socket_inv_def split: prod.splits)

lemma exec_parse_ping_core:
  assumes "protobuf_ok pb" "conn_socket c = Some sk" "socket_inv sk"
    and "ring_contents (socket_input sk) = map Some (frame 1 body) @ rest" "length body < 2 ^ 31"
    and "length (packet_bytes pb (ping_reply pb)) + 6 < 2 ^ 31"
    and "so_room (int (6 + length (packet_bytes pb (ping_reply pb)))) (socket_output sk)"
  shows "\<exists>sk'. exec_parse pb c = Inr (c\<lparr>conn_socket := Some sk'\<rparr>) \<and> socket_inv sk' \<and>
    ring_contents (socket_input sk') = rest \<and>
    ring_contents (socket_output sk') =
      ring_contents (socket_output sk) @ map Some (frame 2 (packet_bytes pb (ping_reply pb)))"
proof -
  have inv: "si_inv (socket_input sk)" "so_inv (socket_output sk)" using assms(3) by (simp_all add: socket_inv_def)
  have q: "ring_contents (socket_input sk) =
      map Some (packet_header (of_nat 1) (of_nat (6 + length body))) @ map Some body @ rest"
    using assms(4) by (simp add: frame_def)
  obtain si p where si: "si_inv si" "ring_contents si = rest"
    "parse_packet pb sk = Inr (1, p, sk\<lparr>socket_input := si\<rparr>)"
    using parse_packet_complete [OF inv(1) assms(5) q, of pb] by (auto simp: create_packet_def)
  let ?c = "c\<lparr>conn_socket := Some (sk\<lparr>socket_input := si\<rparr>)\<rparr>"
  obtain so where so: "so_inv so"
    "ring_contents so = ring_contents (socket_output sk) @ map Some (frame 2 (packet_bytes pb (ping_reply pb)))"
    "send_packet pb (int 2) (ping_reply pb) ?c =
      Inr (?c\<lparr>conn_socket := Some (sk\<lparr>socket_input := si, socket_output := so\<rparr>)\<rparr>)"
    using send_packet_room [OF assms(1,6), of ?c "sk\<lparr>socket_input := si\<rparr>" 2] inv assms(7) by auto
  have "exec_parse pb c = Inr (c\<lparr>conn_socket := Some (sk\<lparr>socket_input := si, socket_output := so\<rparr>)\<rparr>)"
    using so(3) by (simp add: exec_parse_def the_socket_def assms(2) si(3) exec_packet_def exec_packet_ping_def
        user_send_packet_def ping_reply_def sc_ret_ping Let_def)
  with si so show ?thesis
    by (intro exI [of _ "sk\<lparr>socket_input := si, socket_output := so\<rparr>"]) (simp add: socket_inv_def)
qed

text \<open>
  C4: a ping is answered. When a complete packet with id \<open>CS_PING\<close> is at the front of the input
  buffer, \<open>exec_parse\<close> succeeds whatever the packet's content, takes exactly that packet off the
  input, and appends to the output exactly one frame: the answer \<open>SC_RetPing\<close>, with its size and id
  in network byte order.
\<close>
theorem exec_parse_ping:
  assumes "protobuf_ok pb" "conn_socket c = Some sk" "socket_inv sk"
    and "ring_contents (socket_input sk) = map Some (frame 1 body) @ rest" "length body < 2 ^ 31"
    and "length (packet_bytes pb (ping_reply pb)) + 6 < 2 ^ 31"
    and "so_room (int (6 + length (packet_bytes pb (ping_reply pb)))) (socket_output sk)"
  shows "\<exists>sk'. exec_parse pb c = Inr (c\<lparr>conn_socket := Some sk'\<rparr>) \<and> socket_inv sk' \<and>
    ring_contents (socket_input sk') = rest \<and>
    ring_contents (socket_output sk') =
      ring_contents (socket_output sk) @ map Some (frame 2 (packet_bytes pb (ping_reply pb)))"
  by (rule exec_parse_ping_core [OF assms])

theorem exec_parse_ping_witness:
  "\<exists>sk'. exec_parse proto_rt (conn_holding (frame 1 [10, 1, 65] @ [0, 0])) = Inr \<lparr>conn_socket = Some sk'\<rparr> \<and>
    ring_contents (socket_input sk') = [Some 0, Some 0] \<and>
    ring_contents (socket_output sk') = map Some (frame 2 (packet_bytes proto_rt (ping_reply proto_rt)))"
proof -
  have "length (frame 1 [10, 1, 65] @ [0, 0]) < 16" by simp
  then obtain sk where sk: "conn_socket (conn_holding (frame 1 [10, 1, 65] @ [0, 0])) = Some sk" "socket_inv sk"
    "ring_contents (socket_input sk) = map Some (frame 1 [10, 1, 65] @ [0, 0])" "socket_output sk = so_new"
    by (rule conn_holding_ok)
  have "ring_contents (socket_input sk) = map Some (frame 1 [10, 1, 65]) @ [Some 0, Some 0]" using sk(3) by simp
  from exec_parse_ping [OF proto_rt_ok sk(1,2) this] show ?thesis
    by (auto simp: proto_reply_small so_new_room sk(4) so_new_contents conn_holding_def)
qed

text \<open>
  C20: \<open>send_packet\<close> writes one frame. For a message whose size with the header is an \<open>int\<close>, and while
  the output buffer can grow, it appends exactly the header (total size and id in network byte
  order) and the serialised message, and changes nothing else of the connector.
\<close>
theorem send_packet_appends_frame:
  assumes "protobuf_ok pb" "length (packet_bytes pb p) + 6 < 2 ^ 31"
    and "conn_socket c = Some sk" "socket_inv sk"
    and "so_room (int (6 + length (packet_bytes pb p))) (socket_output sk)"
  shows "\<exists>so'. send_packet pb (int pid) p c = Inr (c\<lparr>conn_socket := Some (sk\<lparr>socket_output := so'\<rparr>)\<rparr>) \<and>
    socket_inv (sk\<lparr>socket_output := so'\<rparr>) \<and>
    ring_contents so' = ring_contents (socket_output sk) @ map Some (frame pid (packet_bytes pb p))"
proof -
  have "so_inv (socket_output sk)" using assms(4) by (simp add: socket_inv_def)
  from send_packet_room [OF assms(1-3) this assms(5)] assms(4) show ?thesis
    by (auto simp: socket_inv_def)
qed

theorem send_packet_appends_frame_witness:
  "\<exists>so'. send_packet proto_rt (int 2) (ping_reply proto_rt) \<lparr>conn_socket = Some socket_new\<rparr> =
      Inr \<lparr>conn_socket = Some (socket_new\<lparr>socket_output := so'\<rparr>)\<rparr> \<and>
    ring_contents so' = map Some (frame 2 (packet_bytes proto_rt (ping_reply proto_rt)))"
  using send_packet_appends_frame [OF proto_rt_ok, of "ping_reply proto_rt" "\<lparr>conn_socket = Some socket_new\<rparr>" socket_new 2]
    so_new_room [of 45] socket_new_inv
  by (auto simp: proto_reply_small so_new_contents socket_new_def)

text \<open>
  C11: what one side sends the other side reads. If the input buffer of a connector starts with the
  frame that \<open>send_packet\<close> writes for a \<open>CS_Ping\<close> with its parameter set, then parsing it yields the
  packet id and a \<open>CS_Ping\<close> with the same parameter, and leaves the bytes behind the frame.
\<close>
theorem parse_packet_roundtrip:
  assumes "protobuf_ok pb" "wire_ok (pb_wire pb)" "socket_inv sk"
    and "has_param m" "unknown_fields m = w_no_unknown (pb_wire pb)"
    and "length (packet_bytes pb (CS_Ping m)) < 2 ^ 31"
    and "ring_contents (socket_input sk) = map Some (frame 1 (packet_bytes pb (CS_Ping m))) @ rest"
  shows "\<exists>m' sk'. parse_packet pb sk = Inr (1, CS_Ping m', sk') \<and> has_param m' \<and> param m' = param m \<and>
    socket_inv sk' \<and> ring_contents (socket_input sk') = rest \<and> socket_output sk' = socket_output sk"
proof -
  have inv: "si_inv (socket_input sk)" "so_inv (socket_output sk)" using assms(3) by (simp_all add: socket_inv_def)
  let ?b = "packet_bytes pb (CS_Ping m)"
  have q: "ring_contents (socket_input sk) =
      map Some (packet_header (of_nat 1) (of_nat (6 + length ?b))) @ map Some ?b @ rest"
    using assms(7) by (simp add: frame_def)
  have clear: "msg_clear (pb_wire pb) (msg_new (pb_wire pb)) = msg_new (pb_wire pb)"
    by (simp add: msg_clear_def msg_new_def)
  obtain m' where m': "msg_merge_partial (pb_wire pb) ?b (msg_new (pb_wire pb)) = Some (True, m')"
    "has_param m'" "param m' = param m"
    using msg_roundtrip_core [OF assms(2,4,5)] unfolding packet_bytes_def by auto
  then have "pb_parse_from_array pb ?b (CS_Ping (msg_new (pb_wire pb))) = (True, CS_Ping m')"
    using assms(1) clear unfolding protobuf_ok_def by (metis packet_msg.simps(1) packet_with.simps(1))
  then show ?thesis
    using parse_packet_complete [OF inv(1) assms(6) q, of pb] inv m' by (auto simp: create_packet_def socket_inv_def)
qed

theorem parse_packet_roundtrip_witness:
  "\<exists>m' sk'. parse_packet proto_rt (the (conn_socket (conn_holding
        (frame 1 (packet_bytes proto_rt (CS_Ping (set_param [65] (msg_new proto_wire)))))))) =
      Inr (1, CS_Ping m', sk') \<and> has_param m' \<and> param m' = [65]"
proof -
  let ?m = "set_param [65] (msg_new proto_wire)"
  let ?f = "frame 1 (packet_bytes proto_rt (CS_Ping ?m))"
  have len: "length (packet_bytes proto_rt (CS_Ping ?m)) = 3"
    using proto_msg_size [of "[65]"] by (simp add: packet_bytes_def)
  then have "length ?f < 16" by simp
  then obtain sk where sk: "conn_socket (conn_holding ?f) = Some sk" "socket_inv sk"
    "ring_contents (socket_input sk) = map Some ?f"
    by (rule conn_holding_ok)
  have "unknown_fields ?m = w_no_unknown (pb_wire proto_rt)" by (simp add: msg_new_def)
  from parse_packet_roundtrip [OF proto_rt_ok _ sk(2) has_param_set(1) this, of "[]"] sk proto_wire_ok
  show ?thesis by (auto simp: len)
qed

text \<open>
  C31: a packet header that has not arrived completely ends the process. With fewer than six bytes in
  the input buffer \<open>fetch_header\<close> stores nothing, the header is read as zero, the content size
  wraps around to \<open>2 ^ 32 - 6\<close>, \<open>fetch_content\<close> receives it as -6, and its \<open>memcpy\<close> runs out of the array.
\<close>
theorem exec_parse_short_header:
  assumes "conn_socket c = Some sk" "socket_inv sk" "int (length (ring_contents (socket_input sk))) < 6"
  shows "exec_parse pb c = Inl OutOfBounds"
  using parse_packet_short_header [of sk pb] assms
  by (simp add: exec_parse_def the_socket_def socket_inv_def)

theorem exec_parse_short_header_witness:
  "exec_parse proto_rt (conn_holding [0, 0, 0]) = Inl OutOfBounds"
proof -
  have "length [0, 0, 0 :: byte] < 16" by simp
  then obtain sk where sk: "conn_socket (conn_holding [0, 0, 0]) = Some sk" "socket_inv sk"
    "ring_contents (socket_input sk) = map Some [0, 0, 0]"
    by (rule conn_holding_ok)
  show ?thesis by (rule exec_parse_short_header [OF sk(1,2)]) (simp add: sk(3))
qed

text \<open>
  C32: a packet whose id the factory does not know ends the process: a complete packet with any id
  other than \<open>CS_PING\<close> and \<open>SC_RET_PING\<close> makes \<open>exec_parse\<close> call a member of a null pointer.
\<close>
theorem exec_parse_unknown_id:
  assumes "conn_socket c = Some sk" "socket_inv sk" "length body < 2 ^ 31"
    and "pid < 65536" "pid \<noteq> 1" "pid \<noteq> 2"
    and "ring_contents (socket_input sk) = map Some (frame pid body) @ rest"
  shows "exec_parse pb c = Inl NullDeref"
proof -
  have q: "ring_contents (socket_input sk) =
      map Some (packet_header (of_nat pid) (of_nat (6 + length body))) @ map Some body @ rest"
    using assms(7) by (simp add: frame_def)
  have "si_inv (socket_input sk)" using assms(2) by (simp add: socket_inv_def)
  from parse_packet_complete [OF this assms(3) q, of pb]
  have "parse_packet pb sk = Inl NullDeref"
    using assms(5,6) by (auto simp: create_packet_def word16_small [OF assms(4)])
  then show ?thesis by (simp add: exec_parse_def the_socket_def assms(1))
qed

theorem exec_parse_unknown_id_witness:
  "exec_parse proto_rt (conn_holding (frame 9 [])) = Inl NullDeref"
proof -
  have "length (frame 9 []) < 16" by simp
  then obtain sk where sk: "conn_socket (conn_holding (frame 9 [])) = Some sk" "socket_inv sk"
    "ring_contents (socket_input sk) = map Some (frame 9 [])"
    by (rule conn_holding_ok)
  show ?thesis by (rule exec_parse_unknown_id [OF sk(1,2), of "[]" 9 "[]"]) (simp_all add: sk(3))
qed

text \<open>
  a packet whose content has not arrived completely is not waited for. With a complete header
  of a known id and fewer content bytes than it announces, \<open>fetch_content\<close> stores nothing and the
  message is parsed from the uninitialised bytes of \<open>new char[content_size]\<close>.
\<close>
theorem exec_parse_partial_body:
  assumes "conn_socket c = Some sk" "socket_inv sk" "n < 2 ^ 31" "pid = 1 \<or> pid = 2"
    and "length rest < n"
    and "ring_contents (socket_input sk) = map Some (packet_header (of_nat pid) (of_nat (6 + n))) @ rest"
  shows "exec_parse pb c = Inl UninitRead"
proof -
  have "si_inv (socket_input sk)" using assms(2) by (simp add: socket_inv_def)
  moreover have "int (length rest) < int n" using assms(5) by simp
  ultimately have "parse_packet pb sk = Inl UninitRead"
    using parse_packet_body_missing [OF _ _ assms(3,6), of pb] assms(4) by (auto simp: create_packet_def)
  then show ?thesis by (simp add: exec_parse_def the_socket_def assms(1))
qed

theorem exec_parse_partial_body_witness:
  "exec_parse proto_rt (conn_holding (packet_header 1 9 @ [10])) = Inl UninitRead"
proof -
  have "length (packet_header 1 9 @ [10]) < 16" by simp
  then obtain sk where sk: "conn_socket (conn_holding (packet_header 1 9 @ [10])) = Some sk" "socket_inv sk"
    "ring_contents (socket_input sk) = map Some (packet_header 1 9 @ [10])"
    by (rule conn_holding_ok)
  show ?thesis by (rule exec_parse_partial_body [OF sk(1,2), of 3 1 "[Some 10]"]) (simp_all add: sk(3))
qed

end
