(* ===== verification/Client.thy ===== *)
theory Client
  imports Connector
begin

unbundle bit_operations_syntax

text \<open>
  The example client: src/example/client.cpp, the packet it sends (\<open>send_msg\<close>; \<open>udp_send\<close> builds the
  same bytes) and how it reads an answer (\<open>recv_msg\<close>). Both run once per socket of \<open>g_sockets\<close>; the
  model is the body of the loop. The console and the signal handler are left out.
\<close>

definition client_text :: "byte list" where
  "client_text = map of_char ''##new message##''"

definition client_packet :: "'u protobuf \<Rightarrow> 'u packet" where
  "client_packet pb = CS_Ping (set_param client_text (msg_new (pb_wire pb)))"

text \<open>\<open>strlen\<close>: the number of bytes before the first NUL of the array.\<close>

definition c_strlen :: "cell list \<Rightarrow> int result" where
  "c_strlen cs =
     (if None \<in> set (takeWhile (\<lambda>c. c \<noteq> Some 0) cs) then Inl UninitRead
      else if Some 0 \<in> set cs then Inr (int (length (takeWhile (\<lambda>c. c \<noteq> Some 0) cs))) else Inl OutOfBounds)"

text \<open>
  The message of \<open>send_msg\<close> and the number of its bytes that are sent. The id is copied with the size
  of the size field, and the content with the length \<open>strlen\<close> finds.
\<close>

definition client_message :: "'u protobuf \<Rightarrow> 'u packet \<Rightarrow> (cell list \<times> int) result" where
  "client_message pb p =
     (let packet_size = word_of_int (pb_byte_size pb p) + word_of_int PACKET_HEADER_SIZE :: 32 word;
          packet_id = htons (of_nat (packet_id_value CS_PING))
      in bindR (mem_cpy (replicate 64 (Some 0)) 0 (map Some (le32 (htonl packet_size))) 0 PACKET_BYTES_SIZE)
        (\<lambda>packet_size_s.
         bindR (mem_cpy (replicate 64 (Some 0)) 0 (map Some (le16 packet_id)) 0 PACKET_ID_SIZE)
        (\<lambda>packet_id_s.
         let buff = pb_serialize_to_array pb p (replicate 1024 (Some 0)) 1024
         in bindR (mem_cpy (replicate 2048 (Some 0)) 0 packet_size_s 0 PACKET_BYTES_SIZE)
        (\<lambda>message. bindR (mem_cpy message PACKET_BYTES_SIZE packet_id_s 0 PACKET_BYTES_SIZE)
        (\<lambda>message. bindR (c_strlen buff)
        (\<lambda>n. bindR (mem_cpy message PACKET_HEADER_SIZE buff 0 n)
        (\<lambda>message. Inr (message, uint packet_size))))))))"

definition send_msg :: "'k posix \<Rightarrow> 'u protobuf \<Rightarrow> int \<Rightarrow> 'k \<Rightarrow> (int \<times> 'k) result" where
  "send_msg os pb e k =
     bindR (client_message pb (client_packet pb)) (\<lambda>(message, packet_size).
     bindR (mem_read message 0 packet_size) (\<lambda>bytes.
       case sys_send os e bytes k of (r, k') \<Rightarrow> Inr (send_ret r, k')))"

text \<open>\<open>recv_msg\<close>: the size, the id and the bytes of \<open>buff\<close>; \<open>None\<close> when the header did not arrive.\<close>

definition recv_msg :: "'k posix \<Rightarrow> int \<Rightarrow> 'k \<Rightarrow> ((32 word \<times> 16 word \<times> byte list) option \<times> 'k) result" where
  "recv_msg os e k =
     (case sys_recv os e PACKET_HEADER_SIZE k of
        (RecvError _, k1) \<Rightarrow> Inr (None, k1)
      | (Received [], k1) \<Rightarrow> Inr (None, k1)
      | (Received hs, k1) \<Rightarrow>
          bindR (mem_write (replicate 64 0) 0 hs) (\<lambda>header.
          let packet_size = htonl (of_le32 (take 4 header));
              packet_id = htons (of_le16 (take 2 (drop 4 header)));
              buff = replicate 1024 (0 :: byte)
          in case sys_recv os e (uint (packet_size - word_of_int PACKET_HEADER_SIZE)) k1 of
               (RecvError _, k2) \<Rightarrow> Inr (Some (packet_size, packet_id, buff), k2)
             | (Received bs, k2) \<Rightarrow> bindR (mem_write buff 0 bs)
                 (\<lambda>b. Inr (Some (packet_size, packet_id, b), k2))))"

section \<open>Facts\<close>

lemma takeWhile_Some_ne:
  "0 \<notin> set bs \<Longrightarrow> takeWhile (\<lambda>c. c \<noteq> Some 0) (map Some bs @ Some 0 # r) = map Some bs"
  by (induction bs) auto

lemma c_strlen_padded:
  assumes "0 \<notin> set bs" "0 < n"
  shows "c_strlen (map Some bs @ replicate n (Some 0)) = Inr (int (length bs))"
proof -
  obtain m where n: "n = Suc m" using assms(2) by (cases n) auto
  then have t: "takeWhile (\<lambda>c. c \<noteq> Some 0) (map Some bs @ replicate n (Some 0)) = map Some bs"
    using takeWhile_Some_ne [OF assms(1)] by simp
  show ?thesis unfolding c_strlen_def t using n by auto
qed

text \<open>The copies, with the rest of the message unspecified.\<close>

lemma client_copy_size:
  assumes "length a = 4"
  shows "mem_cpy (replicate 2048 (Some 0)) 0 (a @ x) 0 PACKET_BYTES_SIZE = Inr (a @ replicate 2044 (Some 0))"
  using assms by (simp add: mem_cpy_ok packet_sizes drop_replicate)

lemma client_copy_id:
  fixes a b :: "cell list"
  assumes "length a = 4" "length b = 2"
  shows "mem_cpy (a @ replicate 2044 (Some 0)) PACKET_BYTES_SIZE (b @ replicate 62 (Some 0)) 0 PACKET_BYTES_SIZE =
    Inr (a @ b @ replicate 2042 (Some 0))"
proof -
  have "replicate 2 c @ replicate 2040 c = replicate 2042 c" for c :: cell by (simp flip: replicate_add)
  then show ?thesis using assms by (simp add: mem_cpy_ok packet_sizes drop_replicate take_replicate)
qed

lemma client_copy_body:
  assumes "length a = 4" "length b = 2" "length body \<le> 1024" "n = int (length body)"
  shows "mem_cpy (a @ b @ replicate 2042 (Some 0)) PACKET_HEADER_SIZE (body @ y) 0 n =
    Inr (a @ b @ body @ replicate (2042 - length body) (Some 0))"
  using assms by (simp add: mem_cpy_ok packet_sizes drop_replicate nat_add_distrib)

lemma client_message_core:
  assumes "protobuf_ok pb" "length (packet_bytes pb p) < 1024" "0 \<notin> set (packet_bytes pb p)"
  shows "\<exists>message sz. client_message pb p = Inr (message, sz) \<and> sz \<le> int (length message) \<and>
    take (nat sz) message = map Some (frame 1 (packet_bytes pb p))"
proof -
  let ?b = "packet_bytes pb p"
  have n: "length ?b < 2 ^ 31" "6 + length ?b < 2 ^ 31" using assms(2) by simp_all
  have sz: "pb_byte_size pb p = int (length ?b)" using assms(1,2) by (simp add: protobuf_ok_def int_max_def)
  have "pb_serialize_to_array pb p (replicate 1024 (Some 0)) (int (length (replicate 1024 (Some (0 :: byte))))) =
      map Some ?b @ drop (length ?b) (replicate 1024 (Some 0))"
    using assms(1,2) unfolding protobuf_ok_def by (metis length_replicate less_imp_le)
  then have ser: "pb_serialize_to_array pb p (replicate 1024 (Some 0)) 1024 =
      map Some ?b @ replicate (1024 - length ?b) (Some 0)" by (simp add: drop_replicate)
  have tot: "(of_nat (length ?b) :: 32 word) + word_of_int PACKET_HEADER_SIZE = of_nat (6 + length ?b)"
    by (simp add: packet_sizes)
  let ?a = "map Some (le32 (htonl (of_nat (6 + length ?b)))) :: cell list"
  let ?i = "map Some (le16 (htons (of_nat (packet_id_value CS_PING)))) :: cell list"
  have copies: "mem_cpy (replicate 64 (Some 0)) 0 ?a 0 PACKET_BYTES_SIZE = Inr (?a @ replicate 60 (Some 0))"
    "mem_cpy (replicate 64 (Some 0)) 0 ?i 0 PACKET_ID_SIZE = Inr (?i @ replicate 62 (Some 0))"
    by (subst header_field_copy; simp add: packet_sizes)+
  have len: "length ?a = 4" "length ?i = 2" "length (map Some ?b) \<le> 1024" using assms(2) by simp_all
  have "client_message pb p = Inr (?a @ ?i @ map Some ?b @ replicate (2042 - length ?b) (Some 0), int (6 + length ?b))"
    unfolding client_message_def Let_def sz of_int_of_nat_eq tot copies bindR_simps client_copy_size [OF len(1)]
      client_copy_id [OF len(1,2)] ser c_strlen_padded [OF assms(3) zero_less_diff [THEN iffD2, OF assms(2)]]
      client_copy_body [OF len, of "int (length ?b)", unfolded length_map, OF refl] word32_small [OF n(2)] ..
  moreover have "map Some (frame 1 ?b) = ?a @ ?i @ map Some ?b"
    by (simp add: frame_def packet_header_def le32_htonl le16_htons)
  ultimately show ?thesis by simp
qed

text \<open>
  The client's message is a frame. For a packet whose serialised bytes contain no NUL and fit the
  client's array, the bytes it sends are exactly the frame that the server's parser expects: the
  over-long copy of the id only overwrites bytes that the content replaces.
\<close>
theorem client_message_frame:
  assumes "protobuf_ok pb" "length (packet_bytes pb p) < 1024" "0 \<notin> set (packet_bytes pb p)"
  shows "\<exists>message sz. client_message pb p = Inr (message, sz) \<and> sz \<le> int (length message) \<and>
    take (nat sz) message = map Some (frame 1 (packet_bytes pb p))"
  by (rule client_message_core [OF assms])

lemma client_text_ok: "length client_text = 15" "0 \<notin> set client_text"
  by (simp_all add: client_text_def)

lemma proto_client_bytes: "packet_bytes proto_rt (client_packet proto_rt) = [10, 15] @ client_text"
  by (simp add: packet_bytes_def client_packet_def msg_serialize_def proto_wire_def client_text_ok varint.simps msg_new_def
      flip: has_param_def)

theorem client_message_frame_witness:
  "\<exists>message sz. client_message proto_rt (client_packet proto_rt) = Inr (message, sz) \<and>
    take (nat sz) message = map Some (frame 1 ([10, 15] @ client_text))"
  using client_message_frame [OF proto_rt_ok, of "client_packet proto_rt"] client_text_ok
  by (auto simp: proto_client_bytes)

text \<open>
  The client trusts the size the server announces: when the answer's content is longer than the
  client's array and has arrived, \<open>recv\<close> writes past its end.
\<close>

lemma recv_msg_overflow:
  assumes "sys_recv os e PACKET_HEADER_SIZE k = (Received (packet_header pid (of_nat (6 + n))), k1)"
    and "sys_recv os e (int n) k1 = (Received bs, k2)" "1024 < length bs" "n < 2 ^ 31"
  shows "recv_msg os e k = Inl OutOfBounds"
proof -
  obtain h hs where h: "packet_header pid (of_nat (6 + n)) = h # hs"
    by (metis length_packet_header list.exhaust list.size(3) zero_neq_numeral)
  let ?h = "packet_header pid (of_nat (6 + n))"
  have w: "mem_write (replicate 64 0) 0 ?h = Inr (?h @ replicate 58 0)" by (simp add: mem_write_def drop_replicate)
  have sz: "uint ((of_nat (6 + n) :: 32 word) - word_of_int PACKET_HEADER_SIZE) = int n"
    using word32_small(3) [OF assms(4)] by (simp add: packet_sizes)
  have t: "htonl (of_le32 (take 4 (?h @ replicate 58 0))) = of_nat (6 + n)"
    using packet_header_size [of pid] by simp
  have o: "mem_write (replicate 1024 0) 0 bs = Inl OutOfBounds" using assms(3) by (simp add: mem_write_def)
  show ?thesis
    unfolding recv_msg_def assms(1) prod.case recv_res.case h list.case
    unfolding h [symmetric] w bindR_simps Let_def t sz assms(2) prod.case recv_res.case o ..
qed

end
