(* ===== verification/Event_Loop.thy ===== *)
theory Event_Loop
  imports Posix_Api
begin

text \<open>
  The loop that the connector threads and the two listening services share: wait on an epoll
  descriptor, then handle the events that are ready one after the other. \<open>for_events\<close> is the inner
  \<open>for\<close>, \<open>epoll_loop\<close> the outer \<open>while (!stop_)\<close>. Another thread sets \<open>stop_\<close>, so the values the loop
  reads are an argument, and the model follows the loop for as long as that list says.
\<close>

fun for_events :: "('e \<Rightarrow> 's \<Rightarrow> 'k \<Rightarrow> ('s \<times> 'k) result) \<Rightarrow> 'e list \<Rightarrow> 's \<Rightarrow> 'k \<Rightarrow> ('s \<times> 'k) result" where
  "for_events handle [] st k = Inr (st, k)"
| "for_events handle (ev # evs) st k =
     bindR (handle ev st k) (\<lambda>(st1, k1). for_events handle evs st1 k1)"

fun epoll_loop ::
  "'k posix \<Rightarrow> ('s \<Rightarrow> int result) \<Rightarrow> (int \<times> 32 word \<Rightarrow> 's \<Rightarrow> 'k \<Rightarrow> ('s \<times> 'k) result) \<Rightarrow> bool list \<Rightarrow>
   's \<Rightarrow> 'k \<Rightarrow> ('s \<times> 'k) result" where
  "epoll_loop os epoll handle [] st k = Inr (st, k)"
| "epoll_loop os epoll handle (stop # stops) st k =
     (if stop then Inr (st, k)
      else bindR (epoll st) (\<lambda>ep.
        let (events, k1) = sys_epoll_wait os ep k
        in bindR (for_events handle events st k1) (\<lambda>(st2, k2). epoll_loop os epoll handle stops st2 k2)))"

text \<open>What a handler has to promise, and what the loop then keeps.\<close>

locale event_handler =
  fixes handle :: "int \<times> 32 word \<Rightarrow> 's \<Rightarrow> 'k \<Rightarrow> ('s \<times> 'k) result"
    and inv :: "'s \<Rightarrow> bool"
  assumes handle_keeps: "inv st \<Longrightarrow> handle ev st k = Inr (st', k') \<Longrightarrow> inv st'"
begin

lemma for_events_keeps: "inv st \<Longrightarrow> for_events handle evs st k = Inr (st', k') \<Longrightarrow> inv st'"
proof (induction evs arbitrary: st k)
  case (Cons ev evs)
  then obtain st1 k1 where "handle ev st k = Inr (st1, k1)" "for_events handle evs st1 k1 = Inr (st', k')"
    by (auto simp: bindR_eq_Inr)
  with Cons handle_keeps show ?case by blast
qed simp

lemma epoll_loop_keeps: "inv st \<Longrightarrow> epoll_loop os epoll handle stops st k = Inr (st', k') \<Longrightarrow> inv st'"
proof (induction stops arbitrary: st k)
  case (Cons stop stops)
  show ?case
  proof (cases stop)
    case False
    with Cons.prems(2) obtain ep where ep: "epoll st = Inr ep" by (auto simp: bindR_eq_Inr)
    obtain evs k1 where w: "sys_epoll_wait os ep k = (evs, k1)" by fastforce
    from ep w False Cons.prems(2) obtain st2 k2 where "for_events handle evs st k1 = Inr (st2, k2)"
      "epoll_loop os epoll handle stops st2 k2 = Inr (st', k')"
      by (auto simp: bindR_eq_Inr)
    with Cons for_events_keeps show ?thesis by blast
  qed (use Cons in simp)
qed simp

end

text \<open>A handler that never faults from a good state: then the loop does not either.\<close>

locale safe_handler = event_handler +
  assumes handle_safe: "inv st \<Longrightarrow> \<exists>r. handle ev st k = Inr r"
begin

lemma for_events_safe: "inv st \<Longrightarrow> \<exists>r. for_events handle evs st k = Inr r"
proof (induction evs arbitrary: st k)
  case (Cons ev evs)
  obtain st1 k1 where h: "handle ev st k = Inr (st1, k1)" using handle_safe [OF Cons.prems] by fast
  with handle_keeps [OF Cons.prems] have "inv st1" by blast
  from Cons.IH [OF this] h show ?case by (simp del: split_paired_Ex)
qed (simp del: split_paired_Ex)

lemma epoll_loop_safe:
  assumes "inv st" "\<And>s. inv s \<Longrightarrow> \<exists>ep. epoll s = Inr ep"
  shows "\<exists>r. epoll_loop os epoll handle stops st k = Inr r"
  using assms(1)
proof (induction stops arbitrary: st k)
  case (Cons stop stops)
  obtain ep where ep: "epoll st = Inr ep" using assms(2) [OF Cons.prems] by blast
  obtain evs k1 where w: "sys_epoll_wait os ep k = (evs, k1)" by fastforce
  obtain st2 k2 where f: "for_events handle evs st k1 = Inr (st2, k2)" using for_events_safe [OF Cons.prems] by fast
  with for_events_keeps [OF Cons.prems] have "inv st2" by blast
  from Cons.IH [OF this, of k2] ep w f show ?case by (simp del: split_paired_Ex)
qed (simp del: split_paired_Ex)

end

end
