(* ===== verification/Connector_Thread.thy ===== *)
theory Connector_Thread
  imports Connector Event_Loop
begin

unbundle bit_operations_syntax

text \<open>
  The event loop that owns a set of connections: src/connector/connector_thread.cpp. Its state is
  the map from descriptors to connectors and the epoll descriptor. The first part is the code of
  each member, run alone; the second interleaves the loop with \<open>accept_connector\<close>, which the
  listening thread calls, at the granularity of the mutex.
\<close>

section \<open>State and members\<close>

text \<open>\<open>ct_epoll_fd = None\<close>: \<open>epoll_fd_\<close> has no initialiser and is assigned in \<open>init\<close>.\<close>

record connector_thread =
  connectors :: "int \<rightharpoonup> connector"
  ct_epoll_fd :: "int option"

definition MAX_EVENT :: int where "MAX_EVENT = 256"

definition ct_new :: connector_thread where
  "ct_new = \<lparr>connectors = Map.empty, ct_epoll_fd = None\<rparr>"

definition ct_init :: "'k posix \<Rightarrow> connector_thread \<Rightarrow> 'k \<Rightarrow> connector_thread \<times> 'k" where
  "ct_init os st k = (let (ep, k') = sys_epoll_create os MAX_EVENT k in (st\<lparr>ct_epoll_fd := Some ep\<rparr>, k'))"

definition ct_epoll :: "connector_thread \<Rightarrow> int result" where
  "ct_epoll st = (case ct_epoll_fd st of None \<Rightarrow> Inl UninitRead | Some ep \<Rightarrow> Inr ep)"

definition ct_destroy :: "'k posix \<Rightarrow> connector_thread \<Rightarrow> 'k \<Rightarrow> 'k result" where
  "ct_destroy os st k = bindR (ct_epoll st) (\<lambda>ep. Inr (if ep \<noteq> invalid_id then sys_close os ep k else k))"

text \<open>
  \<open>record_errno\<close>: the text it logs. The case of \<open>EFAULT\<close> has no \<open>break\<close>; an error number without a case
  leaves a null pointer, which is then the format of a \<open>snprintf\<close>.
\<close>

definition EBADF :: int where "EBADF = 9"
definition ECONNRESET :: int where "ECONNRESET = 104"
definition ECONNREFUSED :: int where "ECONNREFUSED = 111"
definition EFAULT :: int where "EFAULT = 14"
definition EPIPE :: int where "EPIPE = 32"
definition EINTR :: int where "EINTR = 4"
definition EINVAL :: int where "EINVAL = 22"
definition ENOMEM :: int where "ENOMEM = 12"

lemmas errnos = EAGAIN_def EBADF_def ECONNRESET_def ECONNREFUSED_def EFAULT_def EPIPE_def EINTR_def
  EINVAL_def ENOMEM_def

definition record_errno :: "int \<Rightarrow> string result" where
  "record_errno errno =
     (if errno = EAGAIN then
        Inr (''The socket is marked nonblocking and the receive operation would block, '' @
             ''or a receive timeout had been set and the timeout expired before data was received'')
      else if errno = EBADF then Inr ''The argument sockfd is an invalid descriptor.''
      else if errno = ECONNRESET then Inr ''A connection was forcibly closed by a peer.''
      else if errno = ECONNREFUSED then Inr ''A remote host refused to allow the network connection''
      else if errno = EFAULT \<or> errno = EPIPE then
        Inr (''The socket is shut down for writing, '' @
             ''or the socket is connection-mode and is no longer connected.'')
      else if errno = EINTR then
        Inr ''The receive was interrupted by delivery of a signal before any data were available.''
      else if errno = EINVAL then Inr ''Invalid argument passed.''
      else if errno = ENOMEM then Inr ''Could not allocate memory''
      else Inl NullDeref)"

text \<open>\<open>~Connector\<close>: its socket, if it still has one, closes the descriptor.\<close>

definition destroy_connector :: "'k posix \<Rightarrow> connector \<Rightarrow> 'k \<Rightarrow> 'k" where
  "destroy_connector os c k =
     (case conn_socket c of None \<Rightarrow> k | Some sk \<Rightarrow> snd (socket_close_socket os sk k))"

text \<open>
  The critical section of \<open>accept_connector\<close>: the assignment to \<open>connectors_[fd]\<close> releases a connector
  that was there before.
\<close>

definition ct_insert ::
  "'k posix \<Rightarrow> connector \<Rightarrow> connector_thread \<Rightarrow> 'k \<Rightarrow> (connector_thread \<times> 'k) result" where
  "ct_insert os c st k =
     bindR (get_socketid c) (\<lambda>fd.
       Inr (st\<lparr>connectors := (connectors st)(fd \<mapsto> c)\<rparr>,
            case connectors st fd of None \<Rightarrow> k | Some old \<Rightarrow> destroy_connector os old k))"

definition ct_accept_connector ::
  "'k posix \<Rightarrow> int \<Rightarrow> connector_thread \<Rightarrow> 'k \<Rightarrow> (connector_thread \<times> 'k) result" where
  "ct_accept_connector os fd st k =
     bindR (ct_epoll st) (\<lambda>ep.
       let (create_ret, c, k1) = create_socket os fd ep connector_new k
       in if \<not> create_ret then Inr (st, destroy_connector os c k1) else ct_insert os c st k1)"

definition delete_connector ::
  "'k posix \<Rightarrow> int \<Rightarrow> connector_thread \<Rightarrow> 'k \<Rightarrow> (connector_thread \<times> 'k) result" where
  "delete_connector os fd st k =
     (case connectors st fd of
        None \<Rightarrow> Inr (st, k)
      | Some c \<Rightarrow> bindR (close_socket os c k)
          (\<lambda>(c', k'). Inr (st\<lparr>connectors := (connectors st)(fd := None)\<rparr>, k')))"

text \<open>
  \<open>exec_read\<close>: the lookup and the read, and what follows the read. \<open>connector_ptr\<close> is the object of
  the map, so the connector read into is stored back. The look-up holds the mutex, the read does not; they are one
  step here, since between them the listening thread can only insert descriptors that are not in the map.
\<close>

definition ct_read_step ::
  "'k posix \<Rightarrow> int \<Rightarrow> connector_thread \<Rightarrow> 'k \<Rightarrow> (int option \<times> connector_thread \<times> 'k) result" where
  "ct_read_step os fd st k =
     (case connectors st fd of
        None \<Rightarrow> Inr (None, st, k)
      | Some c \<Rightarrow> bindR (connector_exec_read os c k)
          (\<lambda>(ret, c', k'). Inr (Some ret, st\<lparr>connectors := (connectors st)(fd \<mapsto> c')\<rparr>, k')))"

definition ct_after_read ::
  "'k posix \<Rightarrow> int \<Rightarrow> int option \<Rightarrow> connector_thread \<Rightarrow> 'k \<Rightarrow> (connector_thread \<times> 'k) result" where
  "ct_after_read os fd r st k =
     (case r of
        None \<Rightarrow> Inr (st, k)
      | Some ret \<Rightarrow>
          if ret = 0 then delete_connector os fd st k
          else if ret = invalid_id then
            bindR (record_errno (sys_errno os k)) (\<lambda>_. delete_connector os fd st k)
          else Inr (st, k))"

definition ct_exec_read ::
  "'k posix \<Rightarrow> int \<Rightarrow> connector_thread \<Rightarrow> 'k \<Rightarrow> (connector_thread \<times> 'k) result" where
  "ct_exec_read os fd st k =
     bindR (ct_read_step os fd st k) (\<lambda>(r, st1, k1). ct_after_read os fd r st1 k1)"

definition ct_exec_parse :: "'u protobuf \<Rightarrow> int \<Rightarrow> connector_thread \<Rightarrow> connector_thread result" where
  "ct_exec_parse pb fd st =
     (case connectors st fd of
        None \<Rightarrow> Inr st
      | Some c \<Rightarrow> bindR (exec_parse pb c)
          (\<lambda>c'. Inr (st\<lparr>connectors := (connectors st)(fd \<mapsto> c')\<rparr>)))"

definition ct_write_step ::
  "'k posix \<Rightarrow> int \<Rightarrow> connector_thread \<Rightarrow> 'k \<Rightarrow> (int option \<times> connector_thread \<times> 'k) result" where
  "ct_write_step os fd st k =
     (case connectors st fd of
        None \<Rightarrow> Inr (None, st, k)
      | Some c \<Rightarrow> bindR (connector_exec_write os c k)
          (\<lambda>(ret, c', k'). Inr (Some ret, st\<lparr>connectors := (connectors st)(fd \<mapsto> c')\<rparr>, k')))"

definition ct_after_write ::
  "'k posix \<Rightarrow> int \<Rightarrow> int option \<Rightarrow> connector_thread \<Rightarrow> 'k \<Rightarrow> (connector_thread \<times> 'k) result" where
  "ct_after_write os fd r st k =
     (if r = Some invalid_id
      then bindR (record_errno (sys_errno os k)) (\<lambda>_. delete_connector os fd st k) else Inr (st, k))"

definition ct_exec_write ::
  "'k posix \<Rightarrow> int \<Rightarrow> connector_thread \<Rightarrow> 'k \<Rightarrow> (connector_thread \<times> 'k) result" where
  "ct_exec_write os fd st k =
     bindR (ct_write_step os fd st k) (\<lambda>(r, st1, k1). ct_after_write os fd r st1 k1)"

text \<open>The body of the loop over the events.\<close>

definition ct_event ::
  "'k posix \<Rightarrow> 'u protobuf \<Rightarrow> int \<times> 32 word \<Rightarrow> connector_thread \<Rightarrow> 'k \<Rightarrow> (connector_thread \<times> 'k) result" where
  "ct_event os pb ev st k =
     (case ev of (fd, events) \<Rightarrow>
        if events AND EPOLLIN \<noteq> 0 then
          bindR (ct_exec_read os fd st k) (\<lambda>(st1, k1).
            bindR (ct_exec_parse pb fd st1) (\<lambda>st2. Inr (st2, k1)))
        else if events AND EPOLLOUT \<noteq> 0 then ct_exec_write os fd st k
        else if events AND EPOLLHUP \<noteq> 0 then delete_connector os fd st k
        else if events AND EPOLLERR \<noteq> 0 then delete_connector os fd st k
        else Inr (st, k))"

definition ct_main_loop ::
  "'k posix \<Rightarrow> 'u protobuf \<Rightarrow> bool list \<Rightarrow> connector_thread \<Rightarrow> 'k \<Rightarrow> (connector_thread \<times> 'k) result" where
  "ct_main_loop os pb = epoll_loop os ct_epoll (ct_event os pb)"

section \<open>The invariant\<close>

text \<open>Every connector of the map has a well-formed socket on its own descriptor.\<close>

definition conn_ok :: "int \<Rightarrow> connector \<Rightarrow> bool" where
  "conn_ok fd c \<longleftrightarrow> (\<exists>sk. conn_socket c = Some sk \<and> socket_inv sk \<and> socket_fd sk = fd)"

definition ct_inv :: "connector_thread \<Rightarrow> bool" where
  "ct_inv st \<longleftrightarrow> (\<forall>fd c. connectors st fd = Some c \<longrightarrow> conn_ok fd c)"

text \<open>Except for \<open>fd\<close>, whose connector may hold a failed write and is about to be deleted.\<close>

definition ct_inv_but :: "int \<Rightarrow> connector_thread \<Rightarrow> bool" where
  "ct_inv_but fd st \<longleftrightarrow> (\<forall>f c. connectors st f = Some c \<longrightarrow> (f \<noteq> fd \<longrightarrow> conn_ok f c) \<and> conn_socket c \<noteq> None)"

lemma ct_inv_new: "ct_inv ct_new"
  by (simp add: ct_inv_def ct_new_def)

lemma ct_invD: "ct_inv st \<Longrightarrow> connectors st fd = Some c \<Longrightarrow> conn_ok fd c"
  by (simp add: ct_inv_def)

lemma ct_inv_but: "ct_inv st \<Longrightarrow> ct_inv_but fd st"
  by (auto simp: ct_inv_def ct_inv_but_def conn_ok_def)

lemma ct_inv_upd: "ct_inv st \<Longrightarrow> conn_ok fd c \<Longrightarrow> ct_inv (st\<lparr>connectors := (connectors st)(fd \<mapsto> c)\<rparr>)"
  by (auto simp: ct_inv_def)

lemma delete_connector_ok:
  assumes "ct_inv_but fd st"
  shows "\<exists>k'. delete_connector os fd st k = Inr (st\<lparr>connectors := (connectors st)(fd := None)\<rparr>, k') \<and>
    ct_inv (st\<lparr>connectors := (connectors st)(fd := None)\<rparr>)"
proof (cases "connectors st fd")
  case None
  then have "(connectors st)(fd := None) = connectors st" by auto
  then have "st\<lparr>connectors := (connectors st)(fd := None)\<rparr> = st" by simp
  moreover have "ct_inv st" using assms None by (fastforce simp: ct_inv_def ct_inv_but_def)
  ultimately show ?thesis using None by (simp add: delete_connector_def)
next
  case (Some c)
  then obtain sk where "conn_socket c = Some sk" using assms by (fastforce simp: ct_inv_but_def)
  with Some assms show ?thesis
    by (auto simp: delete_connector_def close_socket_def the_socket_def ct_inv_def ct_inv_but_def split: prod.splits)
qed

text \<open>Late data overrun the input buffer of the connector of \<open>fd\<close>.\<close>

definition overrun_at :: "'k posix \<Rightarrow> connector_thread \<Rightarrow> int \<Rightarrow> 'k \<Rightarrow> bool" where
  "overrun_at os st fd k = (case connectors st fd of None \<Rightarrow> False | Some c \<Rightarrow>
     (case conn_socket c of None \<Rightarrow> False | Some sk \<Rightarrow> feed_overrun os (socket_fd sk) (socket_input sk) k \<noteq> 0))"

lemma no_overrun_at: "recv_bounded os \<Longrightarrow> fionread_exact os \<Longrightarrow> \<not> overrun_at os st fd k"
  by (auto simp: overrun_at_def no_overrun split: option.splits)

lemma ct_read_step_ok:
  assumes "ct_inv st" "recv_ok os" "\<not> overrun_at os st fd k"
  shows "\<exists>r st' k'. ct_read_step os fd st k = Inr (r, st', k') \<and> ct_inv st' \<and>
    dom (connectors st') = dom (connectors st) \<and> ct_epoll_fd st' = ct_epoll_fd st"
proof (cases "connectors st fd")
  case None
  then show ?thesis using assms by (simp add: ct_read_step_def)
next
  case (Some c)
  obtain sk where sk: "conn_socket c = Some sk" "socket_inv sk" "socket_fd sk = fd"
    using ct_invD [OF assms(1) Some] by (auto simp: conn_ok_def)
  obtain ret si k' where r:
    "connector_exec_read os c k = Inr (ret, c\<lparr>conn_socket := Some (sk\<lparr>socket_input := si\<rparr>)\<rparr>, k')"
    "socket_inv (sk\<lparr>socket_input := si\<rparr>)"
    using connector_read_keeps [OF sk(1,2) assms(2), of k] assms(3) Some sk(1) by (auto simp: overrun_at_def)
  let ?c = "c\<lparr>conn_socket := Some (sk\<lparr>socket_input := si\<rparr>)\<rparr>"
  have "conn_ok fd ?c" using r(2) sk(3) by (simp add: conn_ok_def)
  moreover have "ct_read_step os fd st k = Inr (Some ret, st\<lparr>connectors := (connectors st)(fd \<mapsto> ?c)\<rparr>, k')"
    using Some r(1) by (simp add: ct_read_step_def)
  moreover have "dom ((connectors st)(fd \<mapsto> ?c)) = dom (connectors st)" using Some by auto
  ultimately show ?thesis using ct_inv_upd [OF assms(1)] by (simp del: split_paired_Ex)
qed

lemma ct_write_step_ok:
  assumes "ct_inv st" "send_ok os"
  shows "\<exists>r st' k'. ct_write_step os fd st k = Inr (r, st', k') \<and> ct_inv_but fd st' \<and>
    (r \<noteq> Some invalid_id \<longrightarrow> ct_inv st') \<and>
    dom (connectors st') = dom (connectors st) \<and> ct_epoll_fd st' = ct_epoll_fd st"
proof (cases "connectors st fd")
  case None
  then show ?thesis using assms ct_inv_but by (simp add: ct_write_step_def)
next
  case (Some c)
  obtain sk where sk: "conn_socket c = Some sk" "socket_inv sk" "socket_fd sk = fd"
    using ct_invD [OF assms(1) Some] by (auto simp: conn_ok_def)
  obtain ret so k' where r:
    "connector_exec_write os c k = Inr (ret, c\<lparr>conn_socket := Some (sk\<lparr>socket_output := so\<rparr>)\<rparr>, k')"
    "ret \<noteq> -1 \<longrightarrow> socket_inv (sk\<lparr>socket_output := so\<rparr>)"
    using connector_write_keeps [OF sk(1,2) assms(2), of k] by blast
  let ?c = "c\<lparr>conn_socket := Some (sk\<lparr>socket_output := so\<rparr>)\<rparr>"
  let ?st = "st\<lparr>connectors := (connectors st)(fd \<mapsto> ?c)\<rparr>"
  have "ret \<noteq> -1 \<longrightarrow> conn_ok fd ?c" using r(2) sk(3) by (simp add: conn_ok_def)
  then have "Some ret \<noteq> Some invalid_id \<longrightarrow> ct_inv ?st" using ct_inv_upd [OF assms(1)] by (simp add: invalid_id_def)
  moreover have "ct_inv_but fd ?st" using ct_inv_but [OF assms(1), of fd] by (auto simp: ct_inv_but_def)
  moreover have "ct_write_step os fd st k = Inr (Some ret, ?st, k')"
    using Some r(1) by (simp add: ct_write_step_def)
  moreover have "dom (connectors ?st) = dom (connectors st)" using Some by auto
  ultimately show ?thesis
    by (intro exI [of _ "Some ret"] exI [of _ ?st] exI [of _ k']) simp
qed

lemma ct_exec_parse_keeps:
  assumes "ct_inv st" "reply_ok pb" "ct_exec_parse pb fd st = Inr st'"
  shows "ct_inv st' \<and> dom (connectors st') = dom (connectors st) \<and> ct_epoll_fd st' = ct_epoll_fd st"
proof (cases "connectors st fd")
  case None
  then show ?thesis using assms by (simp add: ct_exec_parse_def)
next
  case (Some c)
  then obtain c' where c': "exec_parse pb c = Inr c'" "st' = st\<lparr>connectors := (connectors st)(fd \<mapsto> c')\<rparr>"
    using assms(3) by (auto simp: ct_exec_parse_def bindR_eq_Inr)
  obtain sk where sk: "conn_socket c = Some sk" "socket_inv sk" "socket_fd sk = fd"
    using ct_invD [OF assms(1) Some] by (auto simp: conn_ok_def)
  have "conn_ok fd c'" using exec_parse_keeps [OF sk(1,2) assms(2) c'(1)] sk(3) by (auto simp: conn_ok_def)
  then show ?thesis using ct_inv_upd [OF assms(1)] c'(2) Some by auto
qed

text \<open>What follows a read or a write: a fault only if \<open>errno\<close> has no text.\<close>

lemma ct_after_read_ok:
  assumes "ct_inv st"
  shows "(\<exists>st' k'. ct_after_read os fd r st k = Inr (st', k') \<and> ct_inv st' \<and>
      dom (connectors st') \<subseteq> dom (connectors st) \<and> ct_epoll_fd st' = ct_epoll_fd st) \<or>
    ct_after_read os fd r st k = Inl NullDeref \<and> r = Some invalid_id"
  using delete_connector_ok [OF ct_inv_but [OF assms], of os fd k] assms
  by (cases "record_errno (sys_errno os k)")
    (auto simp: ct_after_read_def record_errno_def split: option.splits if_splits)

lemma ct_after_write_ok:
  assumes "ct_inv_but fd st" "r \<noteq> Some invalid_id \<longrightarrow> ct_inv st"
  shows "(\<exists>st' k'. ct_after_write os fd r st k = Inr (st', k') \<and> ct_inv st' \<and>
      dom (connectors st') \<subseteq> dom (connectors st) \<and> ct_epoll_fd st' = ct_epoll_fd st) \<or>
    ct_after_write os fd r st k = Inl NullDeref \<and> r = Some invalid_id"
  using delete_connector_ok [OF assms(1), of os k] assms
  by (cases "record_errno (sys_errno os k)")
    (auto simp: ct_after_write_def record_errno_def split: if_splits)

lemma ct_exec_read_keeps:
  assumes "ct_inv st" "recv_ok os" "fionread_exact os" "ct_exec_read os fd st k = Inr (st', k')"
  shows "ct_inv st'"
proof -
  obtain r st1 k1 where 1: "ct_read_step os fd st k = Inr (r, st1, k1)" "ct_inv st1"
    using ct_read_step_ok [OF assms(1,2) no_overrun_at, of fd k] assms(2,3) by (auto simp: recv_ok_def)
  with assms(4) ct_after_read_ok [OF 1(2), of os fd r k1] show ?thesis by (auto simp: ct_exec_read_def)
qed

lemma ct_exec_write_keeps:
  assumes "ct_inv st" "send_ok os" "ct_exec_write os fd st k = Inr (st', k')"
  shows "ct_inv st'"
proof -
  obtain r st1 k1 where 1: "ct_write_step os fd st k = Inr (r, st1, k1)" "ct_inv_but fd st1"
    "r \<noteq> Some invalid_id \<longrightarrow> ct_inv st1"
    using ct_write_step_ok [OF assms(1,2), of fd k] by blast
  with assms(3) ct_after_write_ok [OF 1(2,3), of os k1] show ?thesis by (auto simp: ct_exec_write_def)
qed

lemma delete_connector_keeps: "ct_inv st \<Longrightarrow> delete_connector os fd st k = Inr (st', k') \<Longrightarrow> ct_inv st'"
  using delete_connector_ok [OF ct_inv_but, of st os fd k] by auto

definition ct_loop_inv :: "'k posix \<Rightarrow> 'u protobuf \<Rightarrow> connector_thread \<Rightarrow> bool" where
  "ct_loop_inv os pb st \<longleftrightarrow> recv_ok os \<and> fionread_exact os \<and> send_ok os \<and> reply_ok pb \<and> ct_inv st"

interpretation ct_loop: event_handler "ct_event os pb" "ct_loop_inv os pb" for os pb
proof
  fix st ev k st' k'
  assume "ct_loop_inv os pb st" and ev: "ct_event os pb ev st k = Inr (st', k')"
  then have i: "ct_inv st" "recv_ok os" "fionread_exact os" "send_ok os" "reply_ok pb" by (simp_all add: ct_loop_inv_def)
  have "ct_inv st'"
    using ev i(1) unfolding ct_event_def
    by (auto simp: bindR_eq_Inr split: prod.splits if_splits
        dest: ct_exec_read_keeps [OF i(1,2,3)] ct_exec_write_keeps [OF i(1,4)] delete_connector_keeps [OF i(1)]
          ct_exec_parse_keeps [OF _ i(5), THEN conjunct1])
  with i show "ct_loop_inv os pb st'" by (simp add: ct_loop_inv_def)
qed

section \<open>The loop and the listening thread\<close>

text \<open>
  The program counter of the loop between two entries into the mutex, and its next atomic step.
\<close>

datatype ct_pc =
    Loop "(int \<times> 32 word) list"
  | AfterRead int "int option" "(int \<times> 32 word) list"
  | Parsing int "(int \<times> 32 word) list"
  | AfterWrite int "int option" "(int \<times> 32 word) list"

fun ct_next ::
  "'k posix \<Rightarrow> 'u protobuf \<Rightarrow> connector_thread \<Rightarrow> ct_pc \<Rightarrow> 'k \<Rightarrow> (connector_thread \<times> ct_pc \<times> 'k) result" where
  "ct_next os pb st (Loop []) k =
     bindR (ct_epoll st) (\<lambda>ep. let (evs, k') = sys_epoll_wait os ep k in Inr (st, Loop evs, k'))"
| "ct_next os pb st (Loop ((fd, events) # evs)) k =
     (if events AND EPOLLIN \<noteq> 0 then
        bindR (ct_read_step os fd st k) (\<lambda>(r, st1, k1). Inr (st1, AfterRead fd r evs, k1))
      else if events AND EPOLLOUT \<noteq> 0 then
        bindR (ct_write_step os fd st k) (\<lambda>(r, st1, k1). Inr (st1, AfterWrite fd r evs, k1))
      else if events AND EPOLLHUP \<noteq> 0 \<or> events AND EPOLLERR \<noteq> 0 then
        bindR (delete_connector os fd st k) (\<lambda>(st1, k1). Inr (st1, Loop evs, k1))
      else Inr (st, Loop evs, k))"
| "ct_next os pb st (AfterRead fd r evs) k =
     bindR (ct_after_read os fd r st k) (\<lambda>(st1, k1). Inr (st1, Parsing fd evs, k1))"
| "ct_next os pb st (Parsing fd evs) k =
     bindR (ct_exec_parse pb fd st) (\<lambda>st1. Inr (st1, Loop evs, k))"
| "ct_next os pb st (AfterWrite fd r evs) k =
     bindR (ct_after_write os fd r st k) (\<lambda>(st1, k1). Inr (st1, Loop evs, k1))"

text \<open>
  The two threads. The third component of \<open>Running\<close> is the connector that the listening thread has
  created in \<open>accept_connector\<close> and not yet put into the map. \<open>accept\<close> returns a descriptor that is not
  open, hence not a key of the map. \<open>Faulted\<close> records where the process ended.
\<close>

datatype 'k ct_cfg =
    Running connector_thread ct_pc "connector option" 'k
  | Faulted ct_pc c_error

inductive ct_step :: "'k posix \<Rightarrow> 'u protobuf \<Rightarrow> 'k ct_cfg \<Rightarrow> 'k ct_cfg \<Rightarrow> bool" for os pb where
  loop_step: "ct_next os pb st pc k = Inr (st', pc', k') \<Longrightarrow>
    ct_step os pb (Running st pc pend k) (Running st' pc' pend k')"
| loop_fault: "ct_next os pb st pc k = Inl e \<Longrightarrow> ct_step os pb (Running st pc pend k) (Faulted pc e)"
| accept_create: "ct_epoll st = Inr ep \<Longrightarrow> connectors st fd = None \<Longrightarrow>
    create_socket os fd ep connector_new k = (True, c, k') \<Longrightarrow>
    ct_step os pb (Running st pc None k) (Running st pc (Some c) k')"
| accept_insert: "ct_insert os c st k = Inr (st', k') \<Longrightarrow>
    ct_step os pb (Running st pc (Some c) k) (Running st' pc None k')"
| accept_fault: "ct_insert os c st k = Inl e \<Longrightarrow>
    ct_step os pb (Running st pc (Some c) k) (Faulted pc e)"

inductive_cases ct_step_runningE: "ct_step os pb (Running st pc pend k) cfg"
inductive_cases ct_step_faultedE: "ct_step os pb (Faulted pc e) cfg"

definition pc_inv :: "ct_pc \<Rightarrow> connector_thread \<Rightarrow> bool" where
  "pc_inv pc st \<longleftrightarrow> (case pc of
      AfterWrite fd r evs \<Rightarrow> ct_inv_but fd st \<and> (r \<noteq> Some invalid_id \<longrightarrow> ct_inv st)
    | _ \<Rightarrow> ct_inv st)"

text \<open>Where a fault can come from: parsing a packet, or an error number without a text.\<close>

definition fault_site :: "ct_pc \<Rightarrow> c_error \<Rightarrow> bool" where
  "fault_site pc e \<longleftrightarrow> (case pc of
      Parsing fd evs \<Rightarrow> True
    | AfterRead fd r evs \<Rightarrow> e = NullDeref \<and> r = Some invalid_id
    | AfterWrite fd r evs \<Rightarrow> e = NullDeref \<and> r = Some invalid_id
    | Loop evs \<Rightarrow> False)"

fun cfg_inv :: "'k ct_cfg \<Rightarrow> bool" where
  "cfg_inv (Running st pc pend k) \<longleftrightarrow> ct_epoll_fd st \<noteq> None \<and> pc_inv pc st \<and>
     (\<forall>c. pend = Some c \<longrightarrow> (\<exists>fd. conn_ok fd c \<and> connectors st fd = None))"
| "cfg_inv (Faulted pc e) \<longleftrightarrow> fault_site pc e"

text \<open>The next step of the loop is a read that late data overrun.\<close>

fun cfg_overrun :: "'k posix \<Rightarrow> 'k ct_cfg \<Rightarrow> bool" where
  "cfg_overrun os (Running st (Loop ((fd, events) # evs)) pend k) \<longleftrightarrow> events AND EPOLLIN \<noteq> 0 \<and> overrun_at os st fd k"
| "cfg_overrun os cfg \<longleftrightarrow> False"

definition next_ok :: "connector_thread \<Rightarrow> ct_pc \<Rightarrow> (connector_thread \<times> ct_pc \<times> 'k) result \<Rightarrow> bool" where
  "next_ok st pc res \<longleftrightarrow> (case res of
      Inl e \<Rightarrow> fault_site pc e
    | Inr (st', pc', k') \<Rightarrow> pc_inv pc' st' \<and> dom (connectors st') \<subseteq> dom (connectors st) \<and>
        ct_epoll_fd st' = ct_epoll_fd st)"

lemma ct_next_loop_ok:
  assumes "ct_inv st" "ct_epoll_fd st \<noteq> None" "recv_ok os" "send_ok os" "\<not> cfg_overrun os (Running st (Loop evs) pend k)"
  shows "next_ok st (Loop evs) (ct_next os pb st (Loop evs) k)"
proof (cases evs)
  case Nil
  then show ?thesis using assms by (auto simp: next_ok_def ct_epoll_def pc_inv_def split: prod.splits)
next
  case (Cons ev evs')
  obtain fd m where ev: "ev = (fd, m)" by fastforce
  have rd: "\<exists>r st1 k1. ct_read_step os fd st k = Inr (r, st1, k1) \<and> ct_inv st1 \<and>
    dom (connectors st1) = dom (connectors st) \<and> ct_epoll_fd st1 = ct_epoll_fd st" if "m AND EPOLLIN \<noteq> 0"
    using ct_read_step_ok [OF assms(1,3), of fd k] assms(5) that by (simp add: Cons ev)
  obtain q st2 k2 where wr: "ct_write_step os fd st k = Inr (q, st2, k2)" "ct_inv_but fd st2"
    "q \<noteq> Some invalid_id \<longrightarrow> ct_inv st2" "dom (connectors st2) = dom (connectors st)"
    "ct_epoll_fd st2 = ct_epoll_fd st"
    using ct_write_step_ok [OF assms(1,4), of fd k] by blast
  obtain k3 where dl: "delete_connector os fd st k = Inr (st\<lparr>connectors := (connectors st)(fd := None)\<rparr>, k3)"
    "ct_inv (st\<lparr>connectors := (connectors st)(fd := None)\<rparr>)"
    using delete_connector_ok [OF ct_inv_but [OF assms(1)], of os fd k] by blast
  show ?thesis
  proof (cases "m AND EPOLLIN \<noteq> 0")
    case True
    then show ?thesis using rd by (auto simp: Cons ev next_ok_def pc_inv_def)
  next
    case False
    then show ?thesis using wr dl assms(1) by (auto simp: Cons ev next_ok_def pc_inv_def)
  qed
qed

lemma ct_next_ok:
  assumes "pc_inv pc st" "ct_epoll_fd st \<noteq> None" "recv_ok os" "send_ok os" "reply_ok pb" "\<not> cfg_overrun os (Running st pc pend k)"
  shows "next_ok st pc (ct_next os pb st pc k)"
proof (cases pc)
  case (Loop evs)
  then show ?thesis using ct_next_loop_ok [of st os evs pend k pb] assms by (simp add: pc_inv_def)
next
  case (AfterRead fd r evs)
  then have "ct_inv st" using assms(1) by (simp add: pc_inv_def)
  from ct_after_read_ok [OF this, of os fd r k] AfterRead show ?thesis
    by (auto simp: next_ok_def pc_inv_def fault_site_def)
next
  case (Parsing fd evs)
  then have i: "ct_inv st" using assms(1) by (simp add: pc_inv_def)
  show ?thesis
    using ct_exec_parse_keeps [OF i assms(5), of fd] Parsing
    by (cases "ct_exec_parse pb fd st") (auto simp: next_ok_def pc_inv_def fault_site_def)
next
  case (AfterWrite fd r evs)
  then have "ct_inv_but fd st" "r \<noteq> Some invalid_id \<longrightarrow> ct_inv st" using assms(1) by (simp_all add: pc_inv_def)
  from ct_after_write_ok [OF this, of os k] AfterWrite show ?thesis
    by (auto simp: next_ok_def pc_inv_def fault_site_def)
qed

lemma ct_insert_ok:
  assumes "conn_ok fd c" "connectors st fd = None" "pc_inv pc st"
  shows "\<exists>k'. ct_insert os c st k = Inr (st\<lparr>connectors := (connectors st)(fd \<mapsto> c)\<rparr>, k') \<and>
    pc_inv pc (st\<lparr>connectors := (connectors st)(fd \<mapsto> c)\<rparr>)"
proof -
  let ?st = "st\<lparr>connectors := (connectors st)(fd \<mapsto> c)\<rparr>"
  have "get_socketid c = Inr fd" using assms(1) by (auto simp: conn_ok_def get_socketid_def the_socket_def)
  moreover have "ct_inv st \<longrightarrow> ct_inv ?st" using ct_inv_upd assms(1) by blast
  moreover have "ct_inv_but f st \<longrightarrow> ct_inv_but f ?st" for f
    using assms(1) by (auto simp: ct_inv_but_def conn_ok_def)
  ultimately show ?thesis
    using assms(2,3) by (auto simp: ct_insert_def pc_inv_def split: ct_pc.splits)
qed

lemma cfg_inv_step:
  assumes "ct_step os pb cfg cfg'" "cfg_inv cfg" "recv_ok os" "send_ok os" "reply_ok pb" "\<not> cfg_overrun os cfg"
  shows "cfg_inv cfg'"
  using assms(1,2,6)
proof (induction rule: ct_step.induct)
  case (loop_step st pc k st' pc' k' pend)
  from loop_step(2) have "pc_inv pc st" "ct_epoll_fd st \<noteq> None" by auto
  from ct_next_ok [OF this assms(3-5) loop_step(3)] loop_step show ?case by (fastforce simp: next_ok_def)
next
  case (loop_fault st pc k e pend)
  from loop_fault(2) have "pc_inv pc st" "ct_epoll_fd st \<noteq> None" by auto
  from ct_next_ok [OF this assms(3-5) loop_fault(3)] loop_fault show ?case by (simp add: next_ok_def)
next
  case (accept_create st ep fd k c k' pc)
  with socket_created [OF accept_create(3)] show ?case by (auto simp: conn_ok_def)
next
  case (accept_insert c st k st' k' pc)
  then obtain fd where fd: "conn_ok fd c" "connectors st fd = None" "pc_inv pc st" by auto
  from ct_insert_ok [OF fd, of os k] accept_insert show ?case by auto
next
  case (accept_fault c st k e pc)
  then obtain fd where fd: "conn_ok fd c" "connectors st fd = None" "pc_inv pc st" by auto
  from ct_insert_ok [OF fd, of os k] accept_fault show ?case by auto
qed

text \<open>
  Handling one event, as steps of the loop alone: to the rest of the list when it returns, to the
  fault when it faults.
\<close>

definition event_steps where
  "event_steps os pb ev st k evs pend \<longleftrightarrow>
    (case ct_event os pb ev st k of
     Inr (st', k') \<Rightarrow> (ct_step os pb)\<^sup>*\<^sup>* (Running st (Loop (ev # evs)) pend k) (Running st' (Loop evs) pend k')
   | Inl e \<Rightarrow> \<exists>pc. (ct_step os pb)\<^sup>*\<^sup>* (Running st (Loop (ev # evs)) pend k) (Faulted pc e))"

lemma event_steps_read:
  assumes rd: "m AND EPOLLIN \<noteq> 0"
  shows "event_steps os pb (fd, m) st k evs pend"
proof -
  note one = loop_step [of os pb, THEN r_into_rtranclp [of "ct_step os pb"]]
    loop_fault [of os pb, THEN r_into_rtranclp [of "ct_step os pb"]]
  show ?thesis
  proof (cases "ct_read_step os fd st k")
    case (Inl e)
    then show ?thesis using one(2) [of st "Loop ((fd, m) # evs)" k e pend] rd
      by (auto simp: event_steps_def ct_event_def ct_exec_read_def)
  next
    case (Inr r1)
    obtain r st1 k1 where r1: "r1 = (r, st1, k1)" by (cases r1)
    have s1: "(ct_step os pb)\<^sup>*\<^sup>* (Running st (Loop ((fd, m) # evs)) pend k) (Running st1 (AfterRead fd r evs) pend k1)"
      by (rule one(1)) (simp add: rd Inr r1)
    show ?thesis
    proof (cases "ct_after_read os fd r st1 k1")
      case (Inl e)
      then have "ct_step os pb (Running st1 (AfterRead fd r evs) pend k1) (Faulted (AfterRead fd r evs) e)"
        by (intro loop_fault) simp
      with s1 show ?thesis using rd Inl Inr r1
        by (auto simp: event_steps_def ct_event_def ct_exec_read_def intro: rtranclp.rtrancl_into_rtrancl)
    next
      case r2: (Inr p)
      obtain st2 k2 where p: "p = (st2, k2)" by fastforce
      have "ct_step os pb (Running st1 (AfterRead fd r evs) pend k1) (Running st2 (Parsing fd evs) pend k2)"
        by (rule loop_step) (simp add: r2 p)
      with s1 have s2: "(ct_step os pb)\<^sup>*\<^sup>* (Running st (Loop ((fd, m) # evs)) pend k) (Running st2 (Parsing fd evs) pend k2)"
        by (rule rtranclp.rtrancl_into_rtrancl)
      have ct: "ct_event os pb (fd, m) st k = bindR (ct_exec_parse pb fd st2) (\<lambda>st3. Inr (st3, k2))"
        using rd Inr r1 r2 p by (simp add: ct_event_def ct_exec_read_def)
      show ?thesis
        by (cases "ct_exec_parse pb fd st2")
          (use s2 in \<open>auto simp: event_steps_def ct intro!: exI [of _ "Parsing fd evs"] rtranclp.rtrancl_into_rtrancl [OF s2]
            loop_fault loop_step\<close>)
    qed
  qed
qed

lemma event_steps_write:
  assumes wr: "m AND EPOLLIN = 0" "m AND EPOLLOUT \<noteq> 0"
  shows "event_steps os pb (fd, m) st k evs pend"
proof -
  note one = loop_step [of os pb, THEN r_into_rtranclp [of "ct_step os pb"]]
    loop_fault [of os pb, THEN r_into_rtranclp [of "ct_step os pb"]]
  show ?thesis
  proof (cases "ct_write_step os fd st k")
    case (Inl e)
    then show ?thesis using one(2) [of st "Loop ((fd, m) # evs)" k e pend] wr
      by (auto simp: event_steps_def ct_event_def ct_exec_write_def)
  next
    case (Inr r1)
    obtain r st1 k1 where r1: "r1 = (r, st1, k1)" by (cases r1)
    have s1: "(ct_step os pb)\<^sup>*\<^sup>* (Running st (Loop ((fd, m) # evs)) pend k) (Running st1 (AfterWrite fd r evs) pend k1)"
      by (rule one(1)) (simp add: wr Inr r1)
    have ct: "ct_event os pb (fd, m) st k = ct_after_write os fd r st1 k1"
      using wr Inr r1 by (simp add: ct_event_def ct_exec_write_def)
    show ?thesis
      by (cases "ct_after_write os fd r st1 k1")
        (auto simp: event_steps_def ct intro!: exI [of _ "AfterWrite fd r evs"] rtranclp.rtrancl_into_rtrancl [OF s1]
          loop_fault loop_step)
  qed
qed

lemma event_steps_other:
  assumes "m AND EPOLLIN = 0" "m AND EPOLLOUT = 0"
  shows "event_steps os pb (fd, m) st k evs pend"
  using assms
  by (cases "delete_connector os fd st k")
    (auto simp: event_steps_def ct_event_def intro!: exI [of _ "Loop ((fd, m) # evs)"] r_into_rtranclp loop_step loop_fault)

section \<open>Properties\<close>

text \<open>
  C3: the invariant of the connection table holds under every interleaving of the event loop with the
  listening thread, up to the first read that late data overrun. From an initialised thread with an empty table, in every
  reachable state each connector of the table (except one whose write just failed, which is deleted next) has a
  well-formed socket on its own descriptor, with the output data at the start of its array; and a fault can only come from
  \<open>exec_parse\<close>, or from \<open>record_errno\<close> on an error number it has no text for; unless the run passed through a
  state whose next step is a read in which data that arrive between \<open>ioctl\<close> and \<open>recv\<close> exceed the room that was made.
\<close>
theorem ct_reachable_inv:
  assumes "recv_ok os" "send_ok os" "reply_ok pb"
    and "(ct_step os pb)\<^sup>*\<^sup>* (Running (ct_new\<lparr>ct_epoll_fd := Some ep\<rparr>) (Loop []) None k) cfg"
  shows "cfg_inv cfg \<or> (\<exists>cfg1. (ct_step os pb)\<^sup>*\<^sup>* (Running (ct_new\<lparr>ct_epoll_fd := Some ep\<rparr>) (Loop []) None k) cfg1 \<and>
    (ct_step os pb)\<^sup>*\<^sup>* cfg1 cfg \<and> cfg_overrun os cfg1)"
  using assms(4)
proof (induction rule: rtranclp_induct)
  case base
  then show ?case using ct_inv_new by (simp add: pc_inv_def ct_inv_def ct_new_def)
next
  case (step y z)
  show ?case
  proof (cases "cfg_inv y \<and> \<not> cfg_overrun os y")
    case True
    then show ?thesis using cfg_inv_step step(2) assms(1-3) by blast
  next
    case False
    then show ?thesis using step by (meson r_into_rtranclp rtranclp.rtrancl_into_rtrancl)
  qed
qed

theorem ct_reachable_inv_witness:
  "cfg_inv (Running (ct_new\<lparr>ct_epoll_fd := Some 3\<rparr>) (Loop [(7, EPOLLIN)]) None (sim_idle :: sim))"
proof -
  have "(ct_step sim_os proto_rt)\<^sup>*\<^sup>*
      (Running (ct_new\<lparr>ct_epoll_fd := Some 3\<rparr>) (Loop []) None (sim_idle\<lparr>sim_ready := [[(7, EPOLLIN)]]\<rparr>))
      (Running (ct_new\<lparr>ct_epoll_fd := Some 3\<rparr>) (Loop [(7, EPOLLIN)]) None sim_idle)"
    by (rule r_into_rtranclp, rule loop_step) (simp add: ct_epoll_def sim_os_def sim_idle_def)
  moreover have "\<not> cfg_overrun sim_os cfg" for cfg
    by (cases "(sim_os, cfg)" rule: cfg_overrun.cases) (simp_all add: no_overrun_at sim_os_ok)
  ultimately show ?thesis using ct_reachable_inv [OF sim_os_io proto_rt_reply] by blast
qed

text \<open>
  The loop's body is what the atomic steps compose to. When handling an event returns, the steps
  of the loop alone lead from the event at the head of the list to the rest of the list, through the
  same state; when it faults, they lead to that fault.
\<close>
lemma ct_event_steps:
  "case ct_event os pb ev st k of
     Inr (st', k') \<Rightarrow> (ct_step os pb)\<^sup>*\<^sup>* (Running st (Loop (ev # evs)) pend k) (Running st' (Loop evs) pend k')
   | Inl e \<Rightarrow> \<exists>pc. (ct_step os pb)\<^sup>*\<^sup>* (Running st (Loop (ev # evs)) pend k) (Faulted pc e)"
proof -
  obtain fd m where "ev = (fd, m)" by fastforce
  then have "event_steps os pb ev st k evs pend"
    using event_steps_read event_steps_write event_steps_other by metis
  then show ?thesis by (simp add: event_steps_def)
qed

text \<open>
  \<open>main_loop\<close> keeps the table's invariant, for every sequence of events the kernel reports and for
  however long it runs, as long as no packet ends the process and no data arrives between \<open>ioctl\<close> and \<open>recv\<close>.
\<close>
theorem ct_main_loop_keeps:
  assumes "recv_ok os" "fionread_exact os" "send_ok os" "reply_ok pb" "ct_inv st"
    and "ct_main_loop os pb stops st k = Inr (st', k')"
  shows "ct_inv st'"
  using ct_loop.epoll_loop_keeps [of os pb st os ct_epoll stops k st' k'] assms
  by (simp add: ct_loop_inv_def ct_main_loop_def)

theorem ct_main_loop_keeps_witness:
  "ct_main_loop sim_os proto_rt [False, True] (ct_new\<lparr>ct_epoll_fd := Some 3\<rparr>) (sim_idle\<lparr>sim_ready := [[(7, EPOLLHUP)]]\<rparr>) =
     Inr (ct_new\<lparr>ct_epoll_fd := Some 3\<rparr>, sim_idle) \<and> ct_inv (ct_new\<lparr>ct_epoll_fd := Some 3\<rparr>)"
proof -
  have run: "ct_main_loop sim_os proto_rt [False, True] (ct_new\<lparr>ct_epoll_fd := Some 3\<rparr>)
      (sim_idle\<lparr>sim_ready := [[(7, EPOLLHUP)]]\<rparr>) = Inr (ct_new\<lparr>ct_epoll_fd := Some 3\<rparr>, sim_idle)"
    by (simp add: ct_main_loop_def ct_epoll_def sim_os_def sim_idle_def ct_event_def epoll_flags
        delete_connector_def ct_new_def)
  have "ct_inv (ct_new\<lparr>ct_epoll_fd := Some 3\<rparr>)" by (simp add: ct_inv_def ct_new_def)
  from ct_main_loop_keeps [OF sim_os_io(1) sim_os_ok(2) sim_os_io(2) proto_rt_reply this run] run show ?thesis by simp
qed

text \<open>
  C27: deleting a connector closes its descriptor exactly once, although both \<open>close_socket\<close> and the
  socket's destructor close it, and removes exactly its entry; a descriptor without a connector is
  left alone.
\<close>
theorem delete_connector_closes:
  assumes "ct_inv st" "fd \<noteq> invalid_id"
  shows "delete_connector os fd st k =
    Inr (st\<lparr>connectors := (connectors st)(fd := None)\<rparr>,
         if connectors st fd = None then k else sys_close os fd k)"
proof (cases "connectors st fd")
  case None
  moreover from None have "(connectors st)(fd := None) = connectors st" by auto
  ultimately show ?thesis by (simp add: delete_connector_def)
next
  case (Some c)
  with ct_invD [OF assms(1) Some] assms(2) show ?thesis
    by (auto simp: conn_ok_def delete_connector_def close_socket_def the_socket_def socket_close_socket_def)
qed

theorem delete_connector_closes_witness:
  "delete_connector sim_os 7 (ct_new\<lparr>connectors := [7 \<mapsto> conn_holding []]\<rparr>) sim_idle =
     Inr (ct_new, sim_idle\<lparr>sim_closed := [7]\<rparr>)"
proof -
  have "length ([] :: byte list) < 16" by simp
  then obtain sk where "conn_socket (conn_holding []) = Some sk" "socket_inv sk" by (rule conn_holding_ok)
  then have "ct_inv (ct_new\<lparr>connectors := [7 \<mapsto> conn_holding []]\<rparr>)"
    by (auto simp: ct_inv_def conn_ok_def ct_new_def conn_holding_def)
  from delete_connector_closes [OF this, of 7 sim_os sim_idle] show ?thesis
    by (auto simp: ct_new_def invalid_id_def sim_os_def sim_idle_def)
qed

end
