(* ===== verification/Connector_Manager.thy ===== *)
theory Connector_Manager
  imports Complex_Main Connector_Thread
begin

text \<open>
  The distribution of connections over the event loops: src/connector/connector_manager.cpp and the
  helpers \<open>hash_index\<close> and \<open>get_procnum\<close> of src/common/utils.h. The number of processors is a system
  call, the ratio a flag.
\<close>

definition invalid_index :: int where "invalid_index = -1"

text \<open>\<open>key % max\<close>: undefined for \<open>max = 0\<close>, and for the one quotient that is not an \<open>int\<close>.\<close>

definition hash_index :: "int \<Rightarrow> int \<Rightarrow> int result" where
  "hash_index key mx =
     (if mx = 0 then Inl DivByZero
      else if key = int_min \<and> mx = -1 then Inl SignedOverflow
      else Inr (c_rem key mx))"

text \<open>\<open>get_procnum\<close>: the static variable \<open>proc_num\<close> before and after the call.\<close>

definition get_procnum :: "'k posix \<Rightarrow> int \<Rightarrow> 'k \<Rightarrow> int \<times> int" where
  "get_procnum os proc_num k =
     (let n = (if proc_num = invalid_index then sys_procnum os k else proc_num) in (n, n))"

record connector_manager =
  connector_threads :: "connector_thread list"
  thread_num :: int

text \<open>
  \<open>static_cast<int>(get_procnum() * FLAGS_thread_num_ratio)\<close>, truncated towards zero, for a product
  that a \<open>double\<close> represents exactly.
\<close>

definition scaled_threads :: "int \<Rightarrow> rat \<Rightarrow> int" where
  "scaled_threads procs ratio =
     (let x = of_int procs * ratio in if 0 \<le> x then \<lfloor>x\<rfloor> else \<lceil>x\<rceil>)"

text \<open>The loop of \<open>init\<close>: one initialised thread per index.\<close>

fun cm_start :: "'k posix \<Rightarrow> nat \<Rightarrow> 'k \<Rightarrow> connector_thread list \<times> 'k" where
  "cm_start os 0 k = ([], k)"
| "cm_start os (Suc n) k =
     (let (t, k1) = ct_init os ct_new k; (ts, k2) = cm_start os n k1 in (t # ts, k2))"

text \<open>\<open>init\<close>; a negative number of threads makes \<open>vector::resize\<close> throw.\<close>

definition cm_init :: "'k posix \<Rightarrow> rat \<Rightarrow> 'k \<Rightarrow> (connector_manager \<times> 'k) result" where
  "cm_init os ratio k =
     (let n = scaled_threads (fst (get_procnum os invalid_index k)) ratio
      in if n < 0 then Inl Uncaught
         else let (ts, k') = cm_start os (nat n) k
              in Inr (\<lparr>connector_threads = ts, thread_num = n\<rparr>, k'))"

definition cm_accept_connector ::
  "'k posix \<Rightarrow> int \<Rightarrow> connector_manager \<Rightarrow> 'k \<Rightarrow> (connector_manager \<times> 'k) result" where
  "cm_accept_connector os fd m k =
     bindR (hash_index fd (thread_num m)) (\<lambda>index.
       if index < 0 \<or> index \<ge> int (length (connector_threads m)) then Inl OutOfBounds
       else bindR (ct_accept_connector os fd (connector_threads m ! nat index) k)
         (\<lambda>(t, k'). Inr (m\<lparr>connector_threads := (connector_threads m)[nat index := t]\<rparr>, k')))"

section \<open>Facts\<close>

definition cm_inv :: "connector_manager \<Rightarrow> bool" where
  "cm_inv m \<longleftrightarrow> thread_num m = int (length (connector_threads m)) \<and>
     (\<forall>t \<in> set (connector_threads m). ct_inv t \<and> ct_epoll_fd t \<noteq> None)"

lemma cm_start_ok:
  "cm_start os n k = (ts, k') \<Longrightarrow>
   length ts = n \<and> (\<forall>t \<in> set ts. ct_inv t \<and> ct_epoll_fd t \<noteq> None \<and> connectors t = Map.empty)"
  by (induction n arbitrary: k ts k')
    (auto simp: ct_init_def ct_new_def ct_inv_def Let_def split: prod.splits)

lemma hash_index_ok:
  assumes "0 \<le> fd" "0 < n"
  shows "hash_index fd n = Inr (fd mod n)"
  using assms by (simp add: hash_index_def int_min_def c_rem_nonneg)

lemma ct_accept_ok:
  assumes "ct_inv t" "ct_epoll_fd t = Some ep" "connectors t fd = None"
  shows "\<exists>c k'. ct_accept_connector os fd t k = Inr (t\<lparr>connectors := (connectors t)(fd \<mapsto> c)\<rparr>, k') \<and> conn_ok fd c"
proof -
  obtain ok c k1 where c: "create_socket os fd ep connector_new k = (ok, c, k1)" by (metis prod_cases3)
  from socket_created [OF this] have ok: "ok" "conn_ok fd c" by (auto simp: conn_ok_def)
  then have "get_socketid c = Inr fd" by (auto simp: conn_ok_def get_socketid_def the_socket_def)
  with ok c assms show ?thesis by (auto simp: ct_accept_connector_def ct_epoll_def ct_insert_def)
qed

lemma cm_accept_routes_lemma:
  assumes "cm_inv m" "0 < thread_num m" "0 \<le> fd"
    and "connectors (connector_threads m ! nat (fd mod thread_num m)) fd = None"
  shows "\<exists>c k'. let i = nat (fd mod thread_num m); t = connector_threads m ! i;
      m' = m\<lparr>connector_threads := (connector_threads m)[i := t\<lparr>connectors := (connectors t)(fd \<mapsto> c)\<rparr>]\<rparr>
    in cm_accept_connector os fd m k = Inr (m', k') \<and> conn_ok fd c \<and> cm_inv m' \<and> i < length (connector_threads m)"
proof -
  let ?i = "nat (fd mod thread_num m)"
  have n: "thread_num m = int (length (connector_threads m))" using assms(1) by (simp add: cm_inv_def)
  have i: "?i < length (connector_threads m)" "0 \<le> fd mod thread_num m" "fd mod thread_num m < thread_num m"
    using assms(2) n pos_mod_bound [of "thread_num m" fd] by (simp_all add: nat_less_iff)
  let ?t = "connector_threads m ! ?i"
  have t: "ct_inv ?t" "ct_epoll_fd ?t \<noteq> None" using assms(1) i(1) by (simp_all add: cm_inv_def)
  then obtain ep where ep: "ct_epoll_fd ?t = Some ep" by blast
  obtain c k' where c: "ct_accept_connector os fd ?t k = Inr (?t\<lparr>connectors := (connectors ?t)(fd \<mapsto> c)\<rparr>, k')"
    "conn_ok fd c"
    using ct_accept_ok [OF t(1) ep assms(4), of os k] by blast
  let ?m = "m\<lparr>connector_threads := (connector_threads m)[?i := ?t\<lparr>connectors := (connectors ?t)(fd \<mapsto> c)\<rparr>]\<rparr>"
  have "cm_accept_connector os fd m k = Inr (?m, k')"
    using c(1) i(2,3) unfolding cm_accept_connector_def hash_index_ok [OF assms(3,2)] n [symmetric] by simp
  moreover have "cm_inv ?m"
    using assms(1) ct_inv_upd [OF t(1) c(2)] t(2) by (auto simp: cm_inv_def dest!: set_update_subset_insert [THEN subsetD])
  ultimately show ?thesis using c(2) i(1) by (auto simp: Let_def)
qed

section \<open>Properties\<close>

text \<open>
  C22: a new connection reaches the event loop its descriptor hashes to. For a manager with at least
  one thread and a descriptor that no table holds, \<open>accept_connector\<close> succeeds, keeps the invariant
  of every table, puts a connector for that descriptor into the table of thread \<open>fd mod thread_num\<close>,
  and changes no other table and no other entry.
\<close>
theorem cm_accept_routes:
  assumes "cm_inv m" "0 < thread_num m" "0 \<le> fd"
    and "connectors (connector_threads m ! nat (fd mod thread_num m)) fd = None"
  shows "\<exists>c k'. let i = nat (fd mod thread_num m); t = connector_threads m ! i;
      m' = m\<lparr>connector_threads := (connector_threads m)[i := t\<lparr>connectors := (connectors t)(fd \<mapsto> c)\<rparr>]\<rparr>
    in cm_accept_connector os fd m k = Inr (m', k') \<and> conn_ok fd c \<and> cm_inv m' \<and> i < length (connector_threads m)"
  by (rule cm_accept_routes_lemma [OF assms])

text \<open>
  C34: with no threads the first connection ends the process. When the number of processors times the
  ratio truncates to zero (one processor and a ratio below one), initialisation succeeds and the
  first \<open>accept_connector\<close> divides by zero.
\<close>
theorem cm_zero_threads:
  assumes "scaled_threads (sys_procnum os k) ratio = 0"
  shows "\<exists>m k'. cm_init os ratio k = Inr (m, k') \<and> cm_accept_connector os fd m k' = Inl DivByZero"
  using assms
  by (intro exI [of _ "\<lparr>connector_threads = [], thread_num = 0\<rparr>"] exI [of _ k])
    (simp add: cm_init_def get_procnum_def cm_accept_connector_def hash_index_def Let_def)

theorem cm_zero_threads_witness:
  "\<exists>m k'. cm_init (sim_os\<lparr>sys_procnum := \<lambda>k. 1\<rparr>) (1 / 2) sim_idle = Inr (m, k') \<and>
    cm_accept_connector (sim_os\<lparr>sys_procnum := \<lambda>k. 1\<rparr>) 7 m k' = Inl DivByZero"
  by (rule cm_zero_threads) (simp add: scaled_threads_def floor_eq_iff)

text \<open>The manager starts with well-formed, empty tables.\<close>

lemma cm_init_ok:
  assumes "cm_init os ratio k = Inr (m, k')"
  shows "cm_inv m \<and> (\<forall>t \<in> set (connector_threads m). connectors t = Map.empty)"
proof -
  obtain n ts where "0 \<le> n" "cm_start os (nat n) k = (ts, k')" "m = \<lparr>connector_threads = ts, thread_num = n\<rparr>"
    using assms by (auto simp: cm_init_def Let_def split: if_splits prod.splits)
  with cm_start_ok [of os "nat n" k ts k'] show ?thesis by (auto simp: cm_inv_def)
qed

theorem cm_accept_routes_witness:
  "\<exists>m k1 c k'. cm_init sim_os (1 / 2) sim_idle = Inr (m, k1) \<and> thread_num m = 2 \<and>
     cm_accept_connector sim_os 7 m k1 =
       Inr (m\<lparr>connector_threads := (connector_threads m)[1 := (connector_threads m ! 1)\<lparr>connectors := [7 \<mapsto> c]\<rparr>]\<rparr>, k')"
proof -
  have "sys_procnum sim_os sim_idle = 4" "scaled_threads 4 (1 / 2) = 2"
    by (simp_all add: sim_os_def scaled_threads_def)
  then obtain m k1 where m: "cm_init sim_os (1 / 2) sim_idle = Inr (m, k1)" "thread_num m = 2"
    by (cases "cm_start sim_os 2 sim_idle") (simp add: cm_init_def get_procnum_def Let_def)
  from cm_init_ok [OF m(1)] have i: "cm_inv m" "\<forall>t \<in> set (connector_threads m). connectors t = Map.empty" by simp_all
  then have "length (connector_threads m) = 2" using m(2) by (simp add: cm_inv_def)
  then have e: "connectors (connector_threads m ! 1) = Map.empty" using i(2) by simp
  from cm_accept_routes [OF i(1), of 7 sim_os k1] e m show ?thesis by (simp add: Let_def) blast
qed

end
