(* ===== verification/Thread_Pool.thy ===== *)
theory Thread_Pool
  imports Prelude "HOL-Library.Multiset"
begin

text \<open>
  The task queue and the thread pool: src/common/thread/thread_pool.h. \<open>Queue\<close> is a mutex around a
  \<open>std::queue\<close>, so each of its operations is one atomic step; the pool is a set of workers that poll
  it. The workers, the threads that push tasks and the destructor run concurrently: their steps are
  the relation \<open>pool_step\<close>, and the pool's history (tasks pushed, taken from the queue, started, finished) is part
  of the state so that the theorems can refer to it. The test of \<open>stop_\<close>, the pop and the call of the task
  are separate steps, as they are in the code.
\<close>

section \<open>Queue\<close>

type_synonym 't queue = "'t list"

definition queue_push :: "'t \<Rightarrow> 't queue \<Rightarrow> 't queue" where
  "queue_push t q = q @ [t]"

text \<open>\<open>pop\<close>: \<open>None\<close> when it returns \<open>false\<close>, otherwise the task stored in \<open>*t\<close>.\<close>

fun queue_pop :: "'t queue \<Rightarrow> 't option \<times> 't queue" where
  "queue_pop [] = (None, [])"
| "queue_pop (t # q) = (Some t, q)"

text \<open>The contract the pool relies on: a first-in first-out queue over an abstract sequence.\<close>

locale fifo =
  fixes push :: "'t \<Rightarrow> 'q \<Rightarrow> 'q"
    and pop :: "'q \<Rightarrow> 't option \<times> 'q"
    and items :: "'q \<Rightarrow> 't list"
  assumes push_items: "items (push t q) = items q @ [t]"
    and pop_items: "pop q = (r, q') \<Longrightarrow> items q = (case r of None \<Rightarrow> [] | Some t \<Rightarrow> [t]) @ items q'"
    and pop_none: "pop q = (None, q') \<Longrightarrow> items q = []"
begin

lemma pop_some_iff: "(\<exists>t q'. pop q = (Some t, q')) \<longleftrightarrow> items q \<noteq> []"
proof
  assume "items q \<noteq> []"
  then show "\<exists>t q'. pop q = (Some t, q')" using pop_none by (cases "pop q", cases "fst (pop q)") auto
next
  assume "\<exists>t q'. pop q = (Some t, q')"
  then show "items q \<noteq> []" using pop_items by fastforce
qed

text \<open>A popped item was the oldest, whatever is pushed in between.\<close>

lemma pop_push: "pop q = (Some t, q') \<Longrightarrow> \<exists>q''. pop (push u q) = (Some t, q'') \<and> items q'' = items q' @ [u]"
proof -
  assume p: "pop q = (Some t, q')"
  then have i: "items (push u q) = t # items q' @ [u]" using pop_items [OF p] by (simp add: push_items)
  then obtain t' q'' where q: "pop (push u q) = (Some t', q'')" using pop_some_iff by fastforce
  from pop_items [OF q] i show ?thesis using q by auto
qed

end

interpretation task_queue: fifo queue_push queue_pop "\<lambda>q. q"
  by unfold_locales (auto simp: queue_push_def elim: queue_pop.elims)

section \<open>The pool\<close>

text \<open>
  A worker is at the test of \<open>stop_\<close>, has passed it and is about to pop, holds a task it has popped, is in the call of the
  task, or has left the loop.
\<close>

datatype 't worker = Polling | Fetching | Holding 't | Busy 't | Exited

record 't pool =
  tasks :: "'t queue"
  workers :: "'t worker list"
  stop_flag :: bool
  joined :: bool
  pushed :: "'t list"
  taken_tasks :: "'t list"
  started :: "'t list"
  finished :: "'t list"

text \<open>The constructor: \<open>thread_count\<close> workers; the loop runs zero times for a negative count.\<close>

definition pool_new :: "int \<Rightarrow> 't pool" where
  "pool_new thread_count =
     \<lparr>tasks = [], workers = replicate (nat thread_count) Polling, stop_flag = False, joined = False,
      pushed = [], taken_tasks = [], started = [], finished = []\<rparr>"

definition pool_push :: "'t \<Rightarrow> 't pool \<Rightarrow> 't pool" where
  "pool_push t p = p\<lparr>tasks := queue_push t (tasks p), pushed := pushed p @ [t]\<rparr>"

text \<open>The steps of one turn of the worker's loop: the test, the pop, the call of the task and its return.\<close>

definition worker_test :: "nat \<Rightarrow> 't pool \<Rightarrow> 't pool" where
  "worker_test i p = p\<lparr>workers := (workers p)[i := if stop_flag p then Exited else Fetching]\<rparr>"

definition worker_pop :: "nat \<Rightarrow> 't pool \<Rightarrow> 't pool" where
  "worker_pop i p =
     (case queue_pop (tasks p) of
        (None, q) \<Rightarrow> p\<lparr>tasks := q, workers := (workers p)[i := Polling]\<rparr>
      | (Some t, q) \<Rightarrow> p\<lparr>tasks := q, workers := (workers p)[i := Holding t], taken_tasks := taken_tasks p @ [t]\<rparr>)"

definition worker_start :: "nat \<Rightarrow> 't \<Rightarrow> 't pool \<Rightarrow> 't pool" where
  "worker_start i t p = p\<lparr>workers := (workers p)[i := Busy t], started := started p @ [t]\<rparr>"

definition worker_run :: "nat \<Rightarrow> 't \<Rightarrow> 't pool \<Rightarrow> 't pool" where
  "worker_run i t p = p\<lparr>workers := (workers p)[i := Polling], finished := finished p @ [t]\<rparr>"

text \<open>The destructor: it sets the flag and then waits for every worker.\<close>

definition pool_stop :: "'t pool \<Rightarrow> 't pool" where
  "pool_stop p = p\<lparr>stop_flag := True\<rparr>"

text \<open>\<open>push\<close> does not look at \<open>stop_\<close>; after the destructor has returned there is no pool to push to.\<close>

inductive pool_step :: "'t pool \<Rightarrow> 't pool \<Rightarrow> bool" where
  step_push: "\<not> joined p \<Longrightarrow> pool_step p (pool_push t p)"
| step_test: "i < length (workers p) \<Longrightarrow> workers p ! i = Polling \<Longrightarrow> pool_step p (worker_test i p)"
| step_pop: "i < length (workers p) \<Longrightarrow> workers p ! i = Fetching \<Longrightarrow> pool_step p (worker_pop i p)"
| step_start: "i < length (workers p) \<Longrightarrow> workers p ! i = Holding t \<Longrightarrow> pool_step p (worker_start i t p)"
| step_run: "i < length (workers p) \<Longrightarrow> workers p ! i = Busy t \<Longrightarrow> pool_step p (worker_run i t p)"
| step_stop: "pool_step p (pool_stop p)"
| step_join: "stop_flag p \<Longrightarrow> \<forall>w \<in> set (workers p). w = Exited \<Longrightarrow> pool_step p (p\<lparr>joined := True\<rparr>)"

inductive_cases pool_stepE: "pool_step p p'"

section \<open>Facts\<close>

text \<open>The tasks that are popped but not yet called, and those in a call.\<close>

definition waiting :: "'t worker list \<Rightarrow> 't list" where
  "waiting ws = concat (map (\<lambda>w. case w of Holding t \<Rightarrow> [t] | _ \<Rightarrow> []) ws)"

definition running :: "'t worker list \<Rightarrow> 't list" where
  "running ws = concat (map (\<lambda>w. case w of Busy t \<Rightarrow> [t] | _ \<Rightarrow> []) ws)"

lemma concat_update:
  assumes "i < length ws"
  shows "mset (concat (map f (ws[i := v]))) + mset (f (ws ! i)) = mset (concat (map f ws)) + mset (f v)"
proof -
  have "ws = take i ws @ ws ! i # drop (Suc i) ws" using assms by (rule id_take_nth_drop)
  then have "mset (concat (map f ws)) = mset (concat (map f (take i ws))) + mset (f (ws ! i)) + mset (concat (map f (drop (Suc i) ws)))"
    by (metis concat.simps(2) list.simps(9) map_append concat_append mset_append add.assoc)
  then show ?thesis using assms by (simp add: upd_conv_take_nth_drop)
qed

lemmas waiting_update = concat_update [of _ _ "\<lambda>w. case w of Holding t \<Rightarrow> [t] | _ \<Rightarrow> []", folded waiting_def]
  and running_update = concat_update [of _ _ "\<lambda>w. case w of Busy t \<Rightarrow> [t] | _ \<Rightarrow> []", folded running_def]

definition pool_inv :: "'t pool \<Rightarrow> bool" where
  "pool_inv p \<longleftrightarrow> pushed p = taken_tasks p @ tasks p \<and>
     mset (taken_tasks p) = mset (started p) + mset (waiting (workers p)) \<and>
     mset (started p) = mset (finished p) + mset (running (workers p)) \<and>
     (length (workers p) \<le> 1 \<longrightarrow> taken_tasks p = started p @ waiting (workers p)) \<and>
     (Exited \<in> set (workers p) \<or> joined p \<longrightarrow> stop_flag p) \<and>
     (joined p \<longrightarrow> (\<forall>w \<in> set (workers p). w = Exited))"

lemma pool_inv_new: "pool_inv (pool_new n)"
  by (auto simp: pool_inv_def pool_new_def waiting_def running_def)

lemma mset_move:
  fixes a b w v tk s st :: "'a multiset"
  assumes "a + w = b + v" "tk + w + s = (s + b) + st + v" shows "tk = st + a"
proof -
  have "tk + w + s = s + (b + v) + st" using assms(2) by (simp add: ac_simps)
  also have "\<dots> = (st + a) + w + s" by (simp add: assms(1) [symmetric] ac_simps)
  finally show ?thesis by simp
qed

text \<open>A step of worker \<open>i\<close> from \<open>w\<close> to \<open>v\<close>.\<close>

lemma worker_step_inv:
  assumes "pool_inv p" "i < length (workers p)" "workers p ! i = w" "w \<noteq> Exited" "v = Exited \<longrightarrow> stop_flag p"
    and tk: "pushed p = tk @ q" "mset tk + mset (waiting [w]) + mset (started p) = mset (taken_tasks p) + mset st + mset (waiting [v])"
    and st: "mset st + mset (running [w]) + mset (finished p) = mset (started p) + mset fin + mset (running [v])"
    and one: "taken_tasks p = started p @ waiting [w] \<longrightarrow> tk = st @ waiting [v]"
  shows "pool_inv (p\<lparr>tasks := q, workers := (workers p)[i := v], taken_tasks := tk, started := st, finished := fin\<rparr>)"
proof -
  have e: "mset (taken_tasks p) = mset (started p) + mset (waiting (workers p))" "mset (started p) = mset (finished p) + mset (running (workers p))"
    "length (workers p) \<le> 1 \<longrightarrow> taken_tasks p = started p @ waiting (workers p)" "Exited \<in> set (workers p) \<longrightarrow> stop_flag p" "\<not> joined p"
    using assms(1-4) nth_mem [OF assms(2)] by (auto simp: pool_inv_def)
  have "mset (waiting ((workers p)[i := v])) + mset (waiting [w]) = mset (waiting (workers p)) + mset (waiting [v])"
    using waiting_update [OF assms(2), of v] assms(3) by (simp add: waiting_def)
  then have "mset tk = mset st + mset (waiting ((workers p)[i := v]))" by (rule mset_move) (rule tk(2) [unfolded e(1)])
  moreover have "mset (running ((workers p)[i := v])) + mset (running [w]) = mset (running (workers p)) + mset (running [v])"
    using running_update [OF assms(2), of v] assms(3) by (simp add: running_def)
  then have "mset st = mset fin + mset (running ((workers p)[i := v]))" by (rule mset_move) (rule st [unfolded e(2)])
  moreover have "tk = st @ waiting ((workers p)[i := v])" if l: "length (workers p) \<le> 1"
  proof -
    obtain x where "workers p = [x]" using l assms(2) by (cases "workers p") auto
    then have "workers p = [w]" "i = 0" using assms(2,3) by auto
    then show ?thesis using e(3) one by simp
  qed
  moreover have "Exited \<in> set ((workers p)[i := v]) \<longrightarrow> stop_flag p"
    using e(4) assms(5) set_update_subset_insert [of "workers p" i v] by auto
  ultimately show ?thesis using tk(1) e(5) by (simp add: pool_inv_def)
qed

lemmas hand_simps = waiting_def running_def

lemma pool_inv_step: "pool_step p p' \<Longrightarrow> pool_inv p \<Longrightarrow> pool_inv p'"
proof (induction rule: pool_step.induct)
  case (step_push p t)
  then show ?case by (auto simp: pool_inv_def pool_push_def queue_push_def)
next
  case (step_test i p)
  have "pool_inv (p\<lparr>tasks := tasks p, workers := (workers p)[i := if stop_flag p then Exited else Fetching],
      taken_tasks := taken_tasks p, started := started p, finished := finished p\<rparr>)"
    by (rule worker_step_inv [OF step_test(3,1,2)]) (use step_test(3) in \<open>auto simp: pool_inv_def hand_simps\<close>)
  then show ?case by (simp add: worker_test_def)
next
  case (step_pop i p)
  obtain r q where pop: "queue_pop (tasks p) = (r, q)" by fastforce
  note it = task_queue.pop_items [OF pop]
  show ?case
  proof (cases r)
    case None
    have "pool_inv (p\<lparr>tasks := q, workers := (workers p)[i := Polling], taken_tasks := taken_tasks p, started := started p, finished := finished p\<rparr>)"
      by (rule worker_step_inv [OF step_pop(3,1,2)]) (use step_pop(3) it None in \<open>auto simp: pool_inv_def hand_simps\<close>)
    then show ?thesis using None by (simp add: worker_pop_def pop)
  next
    case (Some t)
    have "pool_inv (p\<lparr>tasks := q, workers := (workers p)[i := Holding t], taken_tasks := taken_tasks p @ [t], started := started p, finished := finished p\<rparr>)"
      by (rule worker_step_inv [OF step_pop(3,1,2)]) (use step_pop(3) it Some in \<open>auto simp: pool_inv_def hand_simps\<close>)
    then show ?thesis using Some by (simp add: worker_pop_def pop)
  qed
next
  case (step_start i p t)
  have "pool_inv (p\<lparr>tasks := tasks p, workers := (workers p)[i := Busy t], taken_tasks := taken_tasks p, started := started p @ [t], finished := finished p\<rparr>)"
    by (rule worker_step_inv [OF step_start(3,1,2)]) (use step_start(3) in \<open>auto simp: pool_inv_def hand_simps\<close>)
  then show ?case by (simp add: worker_start_def)
next
  case (step_run i p t)
  have "pool_inv (p\<lparr>tasks := tasks p, workers := (workers p)[i := Polling], taken_tasks := taken_tasks p, started := started p, finished := finished p @ [t]\<rparr>)"
    by (rule worker_step_inv [OF step_run(3,1,2)]) (use step_run(3) in \<open>auto simp: pool_inv_def hand_simps\<close>)
  then show ?case by (simp add: worker_run_def)
qed (auto simp: pool_inv_def pool_stop_def)

lemma pool_inv_reachable: "pool_step\<^sup>*\<^sup>* p p' \<Longrightarrow> pool_inv p \<Longrightarrow> pool_inv p'"
  by (induction rule: rtranclp_induct) (auto intro: pool_inv_step)

lemma pool_step_workers: "pool_step p p' \<Longrightarrow> length (workers p') = length (workers p)"
  by (induction rule: pool_step.induct)
    (auto simp: pool_push_def worker_test_def worker_pop_def worker_start_def worker_run_def pool_stop_def split: prod.splits option.splits)

lemma pool_workers: "pool_step\<^sup>*\<^sup>* p p' \<Longrightarrow> length (workers p') = length (workers p)"
  by (induction rule: rtranclp_induct) (auto dest: pool_step_workers)

section \<open>Properties\<close>

text \<open>
  C24: tasks leave the queue in the order they were pushed, each is called at most once, and none is lost. In every state the
  pool can reach, the tasks pushed are the tasks popped, in that order, followed by the queue; each task popped is
  either called or held by exactly one worker that is about to call it; each task called has returned or is in the call of exactly
  one worker; a pool of one worker also calls them in the order they were pushed; and once the destructor has joined the
  workers no task is held or running.
\<close>
theorem pool_fifo_once:
  assumes "pool_step\<^sup>*\<^sup>* (pool_new n) p"
  shows "pushed p = taken_tasks p @ tasks p \<and>
    mset (taken_tasks p) = mset (started p) + mset (waiting (workers p)) \<and>
    mset (started p) = mset (finished p) + mset (running (workers p)) \<and>
    (n \<le> 1 \<longrightarrow> pushed p = started p @ waiting (workers p) @ tasks p) \<and>
    (joined p \<longrightarrow> waiting (workers p) = [] \<and> running (workers p) = [])"
proof -
  have i: "pool_inv p" using pool_inv_reachable [OF assms pool_inv_new] .
  moreover have "joined p \<longrightarrow> waiting (workers p) = [] \<and> running (workers p) = []" using i by (auto simp: pool_inv_def hand_simps)
  moreover have "length (workers p) = nat n" using pool_workers [OF assms] by (simp add: pool_new_def)
  ultimately show ?thesis by (simp add: pool_inv_def)
qed

text \<open>Two workers pop two tasks and call them in the other order.\<close>

definition race_pool :: "nat pool" where
  "race_pool = worker_run 1 6 (worker_start 0 5 (worker_start 1 6 (worker_pop 1 (worker_pop 0 (worker_test 1 (worker_test 0
     (pool_push 6 (pool_push 5 (pool_new 2)))))))))"

lemma race_pool_reached: "pool_step\<^sup>*\<^sup>* (pool_new 2) race_pool"
proof -
  let ?p1 = "pool_push 5 (pool_new 2) :: nat pool" and ?p2 = "pool_push 6 (pool_push 5 (pool_new 2)) :: nat pool"
  note d = pool_new_def pool_push_def queue_push_def worker_test_def worker_pop_def worker_start_def worker_run_def numeral_2_eq_2
  have "pool_step (pool_new 2) ?p1" "pool_step ?p1 ?p2" by (rule step_push, simp add: d)+
  moreover have "pool_step ?p2 (worker_test 0 ?p2)" by (rule step_test) (simp_all add: d)
  moreover have "pool_step (worker_test 0 ?p2) (worker_test 1 (worker_test 0 ?p2))" by (rule step_test) (simp_all add: d)
  moreover have "pool_step (worker_test 1 (worker_test 0 ?p2)) (worker_pop 0 (worker_test 1 (worker_test 0 ?p2)))" by (rule step_pop) (simp_all add: d)
  moreover have "pool_step (worker_pop 0 (worker_test 1 (worker_test 0 ?p2))) (worker_pop 1 (worker_pop 0 (worker_test 1 (worker_test 0 ?p2))))"
    by (rule step_pop) (simp_all add: d)
  moreover let ?p6 = "worker_pop 1 (worker_pop 0 (worker_test 1 (worker_test 0 ?p2)))"
  have "pool_step ?p6 (worker_start 1 6 ?p6)" by (rule step_start) (simp_all add: d)
  moreover have "pool_step (worker_start 1 6 ?p6) (worker_start 0 5 (worker_start 1 6 ?p6))" by (rule step_start) (simp_all add: d)
  moreover have "pool_step (worker_start 0 5 (worker_start 1 6 ?p6)) race_pool" unfolding race_pool_def by (rule step_run) (simp_all add: d)
  ultimately show ?thesis by (meson converse_rtranclp_into_rtranclp rtranclp.rtrancl_refl)
qed

theorem pool_fifo_once_witness:
  "taken_tasks race_pool = [5, 6] \<and> started race_pool = [6, 5] \<and> finished race_pool = [6] \<and>
   mset (started race_pool) = mset (finished race_pool) + mset (running (workers race_pool))"
proof -
  have "taken_tasks race_pool = [5, 6]" "started race_pool = [6, 5]" "finished race_pool = [6]" by code_simp+
  then show ?thesis using pool_fifo_once [OF race_pool_reached] by simp
qed

text \<open>One worker empties the queue, if it is given the turns.\<close>

lemma worker_takes:
  assumes "\<not> stop_flag p" "i < length (workers p)" "workers p ! i = Polling" "tasks p = t # q"
  shows "pool_step\<^sup>*\<^sup>* p (p\<lparr>tasks := q, taken_tasks := taken_tasks p @ [t], started := started p @ [t], finished := finished p @ [t]\<rparr>)"
proof -
  let ?p1 = "p\<lparr>workers := (workers p)[i := Fetching]\<rparr>"
  let ?p2 = "p\<lparr>tasks := q, workers := (workers p)[i := Holding t], taken_tasks := taken_tasks p @ [t]\<rparr>"
  let ?p3 = "worker_start i t ?p2"
  have "worker_test i p = ?p1" "worker_pop i ?p1 = ?p2" using assms by (simp_all add: worker_test_def worker_pop_def)
  then have 1: "pool_step p ?p1" "pool_step ?p1 ?p2" using step_test [OF assms(2,3)] step_pop [of i ?p1] assms(2) by simp_all
  have 2: "pool_step ?p2 ?p3" by (rule step_start) (use assms in simp_all)
  have 3: "pool_step ?p3 (worker_run i t ?p3)" by (rule step_run) (use assms in \<open>simp_all add: worker_start_def\<close>)
  have "(workers p)[i := Polling] = workers p" using assms(3) by (metis list_update_id)
  then have "worker_run i t ?p3 = p\<lparr>tasks := q, taken_tasks := taken_tasks p @ [t], started := started p @ [t], finished := finished p @ [t]\<rparr>"
    by (simp add: worker_run_def worker_start_def)
  then show ?thesis using 1 2 3 by (metis (no_types) converse_rtranclp_into_rtranclp r_into_rtranclp)
qed

text \<open>
  C28: queued tasks can always be completed while the pool runs: from every state with a worker at its
  loop test and the stop flag unset there is a run of the workers alone that starts and finishes every
  queued task in order.
\<close>
theorem pool_drains:
  assumes "\<not> stop_flag p" "i < length (workers p)" "workers p ! i = Polling"
  shows "pool_step\<^sup>*\<^sup>* p (p\<lparr>tasks := [], taken_tasks := taken_tasks p @ tasks p, started := started p @ tasks p, finished := finished p @ tasks p\<rparr>)"
  using assms
proof (induction "tasks p" arbitrary: p)
  case Nil
  then have "p\<lparr>tasks := [], taken_tasks := taken_tasks p @ tasks p, started := started p @ tasks p, finished := finished p @ tasks p\<rparr> = p" by simp
  then show ?case by (metis rtranclp.rtrancl_refl)
next
  case (Cons t q)
  let ?p1 = "p\<lparr>tasks := q, taken_tasks := taken_tasks p @ [t], started := started p @ [t], finished := finished p @ [t]\<rparr>"
  have s: "pool_step\<^sup>*\<^sup>* p ?p1" by (rule worker_takes [OF Cons.prems Cons.hyps(2) [symmetric]])
  have "pool_step\<^sup>*\<^sup>* ?p1 (?p1\<lparr>tasks := [], taken_tasks := taken_tasks ?p1 @ tasks ?p1, started := started ?p1 @ tasks ?p1, finished := finished ?p1 @ tasks ?p1\<rparr>)"
    by (rule Cons.hyps(1)) (use Cons.prems in simp_all)
  moreover have "?p1\<lparr>tasks := [], taken_tasks := taken_tasks ?p1 @ tasks ?p1, started := started ?p1 @ tasks ?p1, finished := finished ?p1 @ tasks ?p1\<rparr> =
      p\<lparr>tasks := [], taken_tasks := taken_tasks p @ tasks p, started := started p @ tasks p, finished := finished p @ tasks p\<rparr>"
    using Cons.hyps(2) [symmetric] by simp
  ultimately show ?case using s by (metis (no_types) rtranclp_trans)
qed

theorem pool_drains_witness:
  "pool_step\<^sup>*\<^sup>* (pool_push (5 :: nat) (pool_new 1))
     ((pool_push 5 (pool_new 1))\<lparr>tasks := [], taken_tasks := [5], started := [5], finished := [5]\<rparr>)"
  using pool_drains [of "pool_push (5 :: nat) (pool_new 1)" 0]
  by (simp add: pool_push_def pool_new_def queue_push_def)

text \<open>
  stopping the pool drops queued tasks. The destructor sets the flag and joins; a task that is
  still queued is then never run, and the future that \<open>push\<close> returned for it never becomes ready.
\<close>
lemma pool_stop_drops:
  "\<exists>p. pool_step\<^sup>*\<^sup>* (pool_new 1) p \<and> joined p \<and> pushed p = [t] \<and> finished p = [] \<and> tasks p = [t]"
proof -
  let ?p1 = "pool_push t (pool_new 1)" and ?p2 = "pool_stop (pool_push t (pool_new 1))"
  let ?p3 = "?p2\<lparr>workers := [Exited]\<rparr>"
  have 1: "pool_step (pool_new 1) ?p1" by (rule step_push) (simp add: pool_new_def)
  have 2: "pool_step ?p1 ?p2" by (rule step_stop)
  have "pool_step ?p2 (worker_test 0 ?p2)"
    by (rule step_test) (simp_all add: pool_stop_def pool_push_def pool_new_def)
  moreover have "worker_test 0 ?p2 = ?p3" by (simp add: worker_test_def pool_stop_def pool_push_def pool_new_def)
  ultimately have 3: "pool_step ?p2 ?p3" by simp
  have 4: "pool_step ?p3 (?p3\<lparr>joined := True\<rparr>)" by (rule step_join) (simp_all add: pool_stop_def)
  have "pool_step\<^sup>*\<^sup>* (pool_new 1) (?p3\<lparr>joined := True\<rparr>)"
    by (rule converse_rtranclp_into_rtranclp [of pool_step, OF 1]
        converse_rtranclp_into_rtranclp [of pool_step, OF 2]
        converse_rtranclp_into_rtranclp [of pool_step, OF 3] r_into_rtranclp [of pool_step, OF 4])+
  then show ?thesis
    by (intro exI [of _ "?p3\<lparr>joined := True\<rparr>"]) (simp add: pool_stop_def pool_push_def pool_new_def queue_push_def)
qed

end
