(* ===== verification/Listen_Service.thy ===== *)
theory Listen_Service
  imports Connector_Manager Thread_Pool
begin

unbundle bit_operations_syntax

text \<open>
  The listening services: src/listen/ (the base class, the factory, the TCP service that accepts
  connections and the UDP service that hands datagrams to a thread pool), src/socket/udp_socket.cpp,
  src/packet/udp_packet.h and src/main_module.cpp. The flags (port, communication type, thread
  ratio) come from gflags and are arguments.
\<close>

section \<open>UDP sockets and packets\<close>

record udp_packet =
  up_socket_fd :: int
  up_in_sock :: sockaddr_in
  up_packet_id :: int
  up_packet_msg :: "byte list"

record udp_socket =
  us_fd :: int
  us_epoll_fd :: int
  us_event :: "epoll_event option"

definition udp_new :: udp_socket where
  "udp_new = \<lparr>us_fd = invalid_id, us_epoll_fd = invalid_id, us_event = None\<rparr>"

definition udp_close_socket :: "'k posix \<Rightarrow> udp_socket \<Rightarrow> 'k \<Rightarrow> udp_socket \<times> 'k" where
  "udp_close_socket os u k =
     (if us_fd u \<noteq> invalid_id then (u\<lparr>us_fd := invalid_id\<rparr>, sys_close os (us_fd u) k) else (u, k))"

definition udp_init :: "'k posix \<Rightarrow> int \<Rightarrow> int \<Rightarrow> udp_socket \<Rightarrow> 'k \<Rightarrow> bool \<times> udp_socket \<times> 'k" where
  "udp_init os fd ep u k =
     (let ev = \<lparr>ev_fd = fd, ev_events = EPOLLIN OR EPOLLHUP OR EPOLLERR\<rparr>;
          (r, k') = sys_epoll_add os ep fd (ev_events ev) k
      in (True, u\<lparr>us_fd := fd, us_epoll_fd := ep, us_event := Some ev\<rparr>, k'))"

text \<open>The string that starts at a \<open>const char*\<close>: up to the first NUL of the array.\<close>

definition c_string :: "byte list \<Rightarrow> byte list result" where
  "c_string bs = (if 0 \<in> set bs then Inr (takeWhile (\<lambda>b. b \<noteq> 0) bs) else Inl OutOfBounds)"

definition UDP_PACKET_SIZE :: int where "UDP_PACKET_SIZE = 20480"

text \<open>
  \<open>exec_read\<close>: the number of bytes received, and the packet filled in when there are any. The local
  array is zeroed first. The size field is decoded and not used.
\<close>

definition udp_exec_read ::
  "'k posix \<Rightarrow> udp_socket \<Rightarrow> 'k \<Rightarrow> (int \<times> udp_packet option \<times> 'k) result" where
  "udp_exec_read os u k =
     (case sys_recvfrom os (us_fd u) UDP_PACKET_SIZE k of (res, in_sock, k') \<Rightarrow>
        case res of
          RecvError e \<Rightarrow> Inr (0, None, k')
        | Received bs \<Rightarrow>
            if bs = [] then Inr (0, None, k') else
            bindR (mem_write (replicate (nat UDP_PACKET_SIZE) 0) 0 bs) (\<lambda>packet.
            let packet_size = htonl (of_le32 (take 4 packet));
                packet_id = uint (htons (of_le16 (take 2 (drop 4 packet))))
            in bindR (c_string (drop 6 packet)) (\<lambda>msg.
               Inr (int (length bs),
                    Some \<lparr>up_socket_fd = us_fd u, up_in_sock = in_sock, up_packet_id = packet_id,
                          up_packet_msg = msg\<rparr>, k'))))"

definition udp_exec_write :: "udp_socket \<Rightarrow> int" where
  "udp_exec_write u = 0"

section \<open>The services\<close>

datatype service_kind = TCPListenService | UDPListenService

record listen_service =
  ls_kind :: service_kind
  listen_fd :: int
  ls_epoll_fd :: int
  ls_stop :: bool
  ls_thread :: bool
  ls_socket :: "udp_socket option"
  ls_pool :: "udp_packet pool option"
  ls_manager :: "connector_manager option"

definition listen_new :: "service_kind \<Rightarrow> listen_service" where
  "listen_new kind = \<lparr>ls_kind = kind, listen_fd = invalid_id, ls_epoll_fd = invalid_id, ls_stop = False,
     ls_thread = False, ls_socket = None, ls_pool = None, ls_manager = None\<rparr>"

text \<open>\<open>ListenServiceFactory\<close>: the table that \<open>init\<close> fills, and \<open>create_service\<close>; \<open>None\<close> is \<open>nullptr\<close>.\<close>

definition listen_services :: "string \<rightharpoonup> service_kind" where
  "listen_services = [''SOCK_STREAM'' \<mapsto> TCPListenService, ''SOCK_DGRAM'' \<mapsto> UDPListenService]"

definition create_service :: "string \<Rightarrow> listen_service option" where
  "create_service service_type = map_option listen_new (listen_services service_type)"

definition listen_stop :: "listen_service \<Rightarrow> listen_service" where
  "listen_stop s = s\<lparr>ls_stop := True\<rparr>"

text \<open>The destructors: \<open>stop()\<close>, then \<open>close(listen_fd_)\<close>, then the members.\<close>

definition listen_destroy :: "'k posix \<Rightarrow> listen_service \<Rightarrow> 'k \<Rightarrow> listen_service \<times> 'k" where
  "listen_destroy os s k =
     (let s1 = listen_stop s; k1 = sys_close os (listen_fd s1) k
      in (s1\<lparr>ls_socket := None\<rparr>,
          case ls_socket s1 of None \<Rightarrow> k1 | Some u \<Rightarrow> snd (udp_close_socket os u k1)))"

text \<open>\<open>socket\<close> and \<open>bind\<close>, the part both services share; the text logged when \<open>bind\<close> fails.\<close>

definition EADDRINUSE :: int where "EADDRINUSE = 98"

definition bind_error_text :: "int \<Rightarrow> string" where
  "bind_error_text errno =
     (if errno = EADDRINUSE then ''The given address is already in use''
      else if errno = EINVAL then ''The socket is already bound to an address.''
      else ''error occured while bind'')"

definition bind_socket ::
  "'k posix \<Rightarrow> bool \<Rightarrow> int \<Rightarrow> listen_service \<Rightarrow> 'k \<Rightarrow> bool \<times> listen_service \<times> 'k" where
  "bind_socket os stream port s k =
     (let (fd, k1) = sys_socket os stream k;
          s1 = s\<lparr>listen_fd := fd\<rparr>;
          (ret, k2) = sys_bind os fd (htons (word_of_int port)) k1
      in if ret = invalid_id then (False, s1, sys_close os fd k2) else (True, s1, k2))"

text \<open>\<open>TCPListenService::init_socket\<close>.\<close>

definition tcp_init_socket ::
  "'k posix \<Rightarrow> int \<Rightarrow> listen_service \<Rightarrow> 'k \<Rightarrow> bool \<times> listen_service \<times> 'k" where
  "tcp_init_socket os port s k =
     (case bind_socket os True port s k of (ok, s1, k1) \<Rightarrow>
        if \<not> ok then (False, s1, k1)
        else let k2 = sys_listen os (listen_fd s1) 256 k1;
                 (ep, k3) = sys_epoll_create os MAX_EVENT k2;
                 s2 = s1\<lparr>ls_epoll_fd := ep\<rparr>
             in if ep = invalid_id then (False, s2, sys_close os (listen_fd s2) k3)
                else let (ret, k4) = sys_epoll_add os ep (listen_fd s2) (EPOLLIN OR EPOLLHUP OR EPOLLERR) k3
                     in if ret = invalid_id then (False, s2, sys_close os (listen_fd s2) k4)
                        else (True, s2, k4))"

text \<open>\<open>UDPListenService::init_socket\<close>.\<close>

definition udp_init_socket ::
  "'k posix \<Rightarrow> int \<Rightarrow> listen_service \<Rightarrow> 'k \<Rightarrow> bool \<times> listen_service \<times> 'k" where
  "udp_init_socket os port s k =
     (case bind_socket os False port s k of (ok, s1, k1) \<Rightarrow>
        if \<not> ok then (False, s1, k1)
        else let (ep, k2) = sys_epoll_create os MAX_EVENT k1;
                 s2 = s1\<lparr>ls_epoll_fd := ep\<rparr>
             in if ep = invalid_id then (False, s2, sys_close os (listen_fd s2) k2)
                else let (_, u, k3) = udp_init os (listen_fd s2) ep udp_new k2
                     in (True, s2\<lparr>ls_socket := Some u\<rparr>, k3))"

text \<open>\<open>ListenService::init\<close>; both \<open>init_config\<close> are empty.\<close>

definition listen_init ::
  "'k posix \<Rightarrow> int \<Rightarrow> listen_service \<Rightarrow> 'k \<Rightarrow> bool \<times> listen_service \<times> 'k" where
  "listen_init os port s k =
     (case ls_kind s of
        TCPListenService \<Rightarrow> tcp_init_socket os port s k
      | UDPListenService \<Rightarrow> udp_init_socket os port s k)"

text \<open>\<open>ConnectorManager::instance()\<close>: the first call constructs the manager.\<close>

definition manager_instance ::
  "'k posix \<Rightarrow> rat \<Rightarrow> listen_service \<Rightarrow> 'k \<Rightarrow> (connector_manager \<times> listen_service \<times> 'k) result" where
  "manager_instance os ratio s k =
     (case ls_manager s of
        Some m \<Rightarrow> Inr (m, s, k)
      | None \<Rightarrow> bindR (cm_init os ratio k) (\<lambda>(m, k'). Inr (m, s\<lparr>ls_manager := Some m\<rparr>, k')))"

text \<open>
  \<open>run\<close> and \<open>run_logic\<close>: the base class starts the thread that runs \<open>main_loop\<close>; then TCP constructs the
  connector manager and UDP the thread pool.
\<close>

definition listen_run ::
  "'k posix \<Rightarrow> rat \<Rightarrow> listen_service \<Rightarrow> 'k \<Rightarrow> (listen_service \<times> 'k) result" where
  "listen_run os ratio s k =
     (let s1 = s\<lparr>ls_thread := True\<rparr>
      in case ls_kind s of
           TCPListenService \<Rightarrow> bindR (manager_instance os ratio s1 k) (\<lambda>(_, s2, k2). Inr (s2, k2))
         | UDPListenService \<Rightarrow>
             Inr (s1\<lparr>ls_pool := Some (pool_new (fst (get_procnum os invalid_index k)))\<rparr>, k))"

text \<open>The text that \<open>accept_connection\<close> logs when \<open>accept\<close> fails.\<close>

definition EPERM :: int where "EPERM = 1"

definition accept_error_text :: "int \<Rightarrow> string" where
  "accept_error_text errno =
     (if errno = EAGAIN then ''The socket is marked nonblocking and no connections are present to be accepted''
      else if errno = EBADF then ''sockfd is not an open file descriptor''
      else if errno = EFAULT then ''The addr argument is not in a writable part of the user address space''
      else if errno = EINTR then ''The system call was interrupted by a signal''
      else if errno = EINVAL then ''Socket is not listening for connections, or addrlen is invalid''
      else if errno = ENOMEM then ''Not enough free memory''
      else if errno = EPERM then ''Firewall rules forbid connection''
      else ''unknown error'')"

definition O_NONBLOCK :: "32 word" where "O_NONBLOCK = 2048"

definition accept_connection ::
  "'k posix \<Rightarrow> rat \<Rightarrow> listen_service \<Rightarrow> 'k \<Rightarrow> (bool \<times> listen_service \<times> 'k) result" where
  "accept_connection os ratio s k =
     (let (new_socket_fd, k1) = sys_accept os (listen_fd s) k
      in if new_socket_fd = -1 then Inr (False, s, k1)
         else let (flag, k2) = sys_getfl os new_socket_fd k1;
                  (ret, k3) = sys_setfl os new_socket_fd (flag OR O_NONBLOCK) k2
              in if ret = invalid_id then Inr (False, s, k3)
                 else bindR (manager_instance os ratio s k3) (\<lambda>(m, s1, k4).
                      bindR (cm_accept_connector os new_socket_fd m k4) (\<lambda>(m', k5).
                      Inr (True, s1\<lparr>ls_manager := Some m'\<rparr>, k5))))"

definition ls_epoll :: "listen_service \<Rightarrow> int result" where
  "ls_epoll s = Inr (ls_epoll_fd s)"

definition tcp_event ::
  "'k posix \<Rightarrow> rat \<Rightarrow> int \<times> 32 word \<Rightarrow> listen_service \<Rightarrow> 'k \<Rightarrow> (listen_service \<times> 'k) result" where
  "tcp_event os ratio ev s k =
     (if fst ev = listen_fd s
      then bindR (accept_connection os ratio s k) (\<lambda>(_, s', k'). Inr (s', k'))
      else Inr (s, k))"

definition tcp_main_loop ::
  "'k posix \<Rightarrow> rat \<Rightarrow> bool list \<Rightarrow> listen_service \<Rightarrow> 'k \<Rightarrow> (listen_service \<times> 'k) result" where
  "tcp_main_loop os ratio = epoll_loop os ls_epoll (tcp_event os ratio)"

text \<open>
  \<open>UDPListenService\<close>: the event handler pushes a packet as a task of the pool, and \<open>exec_packet\<close> is what
  a worker runs for it.
\<close>

definition udp_event ::
  "'k posix \<Rightarrow> int \<times> 32 word \<Rightarrow> listen_service \<Rightarrow> 'k \<Rightarrow> (listen_service \<times> 'k) result" where
  "udp_event os ev s k =
     (if fst ev = listen_fd s then
        (case ls_socket s of
           None \<Rightarrow> Inl NullDeref
         | Some u \<Rightarrow> bindR (udp_exec_read os u k) (\<lambda>(ret, pkt, k').
             if ret > 0 then
               (case (ls_pool s, pkt) of
                  (Some pool, Some p) \<Rightarrow> Inr (s\<lparr>ls_pool := Some (pool_push p pool)\<rparr>, k')
                | (Some pool, None) \<Rightarrow> Inl UninitRead
                | (None, _) \<Rightarrow> Inl NullDeref)
             else Inr (s, k')))
      else Inr (s, k))"

definition udp_main_loop ::
  "'k posix \<Rightarrow> bool list \<Rightarrow> listen_service \<Rightarrow> 'k \<Rightarrow> (listen_service \<times> 'k) result" where
  "udp_main_loop os = epoll_loop os ls_epoll (udp_event os)"

definition udp_reply_text :: "byte list" where
  "udp_reply_text = map of_char ''receive your message, CSPING''"

definition udp_exec_packet :: "'k posix \<Rightarrow> udp_packet \<Rightarrow> 'k \<Rightarrow> 'k" where
  "udp_exec_packet os p k =
     (if packet_id_of (nat (up_packet_id p)) = CS_PING
      then sys_sendto os (up_socket_fd p) udp_reply_text (up_in_sock p) k else k)"

text \<open>\<open>libnetwork::main_module_run\<close>; \<open>None\<close> is \<open>nullptr\<close>, after which a service that was created is destroyed.\<close>

definition main_module_run ::
  "'k posix \<Rightarrow> string \<Rightarrow> int \<Rightarrow> rat \<Rightarrow> 'k \<Rightarrow> (listen_service option \<times> 'k) result" where
  "main_module_run os communication_type port ratio k =
     (case create_service communication_type of
        None \<Rightarrow> Inr (None, k)
      | Some s \<Rightarrow>
          (case listen_init os port s k of (init_ret, s1, k1) \<Rightarrow>
             if \<not> init_ret then Inr (None, snd (listen_destroy os s1 k1))
             else bindR (listen_run os ratio s1 k1) (\<lambda>(s2, k2). Inr (Some s2, k2))))"

section \<open>Invariants of the loops\<close>

definition tcp_inv :: "listen_service \<Rightarrow> bool" where
  "tcp_inv s \<longleftrightarrow> (\<forall>m. ls_manager s = Some m \<longrightarrow> cm_inv m)"

lemma ct_accept_keeps:
  assumes "ct_inv t" "ct_accept_connector os fd t k = Inr (t', k')"
  shows "ct_inv t' \<and> ct_epoll_fd t' = ct_epoll_fd t \<and> ct_epoll_fd t \<noteq> None"
proof -
  obtain ep where ep: "ct_epoll_fd t = Some ep"
    using assms(2) by (auto simp: ct_accept_connector_def ct_epoll_def split: option.splits)
  obtain ok c k1 where c: "create_socket os fd ep connector_new k = (ok, c, k1)" by (metis prod_cases3)
  from socket_created [OF this] have ok: "ok" "conn_ok fd c" by (auto simp: conn_ok_def)
  then have "get_socketid c = Inr fd" by (auto simp: conn_ok_def get_socketid_def the_socket_def)
  with ok c ep assms ct_inv_upd [OF assms(1) ok(2)] show ?thesis
    by (auto simp: ct_accept_connector_def ct_epoll_def ct_insert_def)
qed

lemma cm_accept_keeps:
  assumes "cm_inv m" "cm_accept_connector os fd m k = Inr (m', k')"
  shows "cm_inv m'"
proof -
  obtain i t where i: "0 \<le> i" "i < int (length (connector_threads m))"
    "ct_accept_connector os fd (connector_threads m ! nat i) k = Inr (t, k')"
    "m' = m\<lparr>connector_threads := (connector_threads m)[nat i := t]\<rparr>"
    using assms(2) by (fastforce simp: cm_accept_connector_def bindR_eq_Inr not_less not_le split: if_splits)
  then have "connector_threads m ! nat i \<in> set (connector_threads m)" by simp
  with assms(1) have "ct_inv (connector_threads m ! nat i)" by (simp add: cm_inv_def)
  from ct_accept_keeps [OF this i(3)] assms(1) i(4) show ?thesis
    by (auto simp: cm_inv_def dest!: set_update_subset_insert [THEN subsetD])
qed

lemma manager_instance_keeps:
  assumes "tcp_inv s" "manager_instance os ratio s k = Inr (m, s', k')"
  shows "cm_inv m \<and> tcp_inv s' \<and> s' = s\<lparr>ls_manager := Some m\<rparr>"
  using assms cm_init_ok [of os ratio k]
  by (auto simp: manager_instance_def tcp_inv_def bindR_eq_Inr split: option.splits)

lemma accept_connection_keeps:
  assumes "tcp_inv s" "accept_connection os ratio s k = Inr (ok, s', k')"
  shows "tcp_inv s'"
  using assms
  by (fastforce simp: accept_connection_def bindR_eq_Inr tcp_inv_def Let_def split: prod.splits if_splits
      dest: manager_instance_keeps [OF assms(1)] cm_accept_keeps)

interpretation tcp_loop: event_handler "tcp_event os ratio" tcp_inv for os ratio
  by unfold_locales
    (auto simp: tcp_event_def bindR_eq_Inr split: if_splits dest: accept_connection_keeps)

text \<open>
  Once the manager has a thread the handler cannot fault: \<open>accept\<close> returns a descriptor or -1, and
  every thread has its epoll descriptor.
\<close>

definition accept_ok :: "'k posix \<Rightarrow> bool" where
  "accept_ok os \<longleftrightarrow> (\<forall>fd k. -1 \<le> fst (sys_accept os fd k))"

definition tcp_ready :: "'k posix \<Rightarrow> listen_service \<Rightarrow> bool" where
  "tcp_ready os s \<longleftrightarrow> accept_ok os \<and> (\<exists>m. ls_manager s = Some m \<and> cm_inv m \<and> 0 < thread_num m)"

lemma ct_accept_total:
  assumes "ct_epoll_fd t = Some ep"
  shows "\<exists>t' k'. ct_accept_connector os fd t k = Inr (t', k')"
proof -
  obtain ok c k1 where c: "create_socket os fd ep connector_new k = (ok, c, k1)" by (metis prod_cases3)
  from socket_created [OF this] have "ok" "get_socketid c = Inr fd"
    by (auto simp: get_socketid_def the_socket_def)
  with c assms show ?thesis by (simp add: ct_accept_connector_def ct_epoll_def ct_insert_def)
qed

lemma cm_accept_total:
  assumes "cm_inv m" "0 < thread_num m" "0 \<le> fd"
  shows "\<exists>m' k'. cm_accept_connector os fd m k = Inr (m', k') \<and> cm_inv m' \<and> thread_num m' = thread_num m"
proof -
  let ?t = "connector_threads m ! nat (fd mod thread_num m)"
  have n: "thread_num m = int (length (connector_threads m))" using assms(1) by (simp add: cm_inv_def)
  have i: "0 \<le> fd mod thread_num m" "fd mod thread_num m < thread_num m" using assms(2) by simp_all
  then have "?t \<in> set (connector_threads m)" by (simp add: n nat_less_iff)
  then obtain ep where "ct_epoll_fd ?t = Some ep" using assms(1) by (auto simp: cm_inv_def)
  then obtain t k' where "ct_accept_connector os fd ?t k = Inr (t, k')" using ct_accept_total [of ?t ep os fd k] by auto
  then have "cm_accept_connector os fd m k =
      Inr (m\<lparr>connector_threads := (connector_threads m)[nat (fd mod thread_num m) := t]\<rparr>, k')"
    using i unfolding cm_accept_connector_def hash_index_ok [OF assms(3,2)] n [symmetric] by simp
  with cm_accept_keeps [OF assms(1) this] show ?thesis by auto
qed

lemma tcp_event_ready:
  assumes "tcp_ready os s"
  shows "\<exists>s' k'. tcp_event os ratio ev s k = Inr (s', k') \<and> tcp_ready os s'"
proof -
  obtain m where m: "ls_manager s = Some m" "cm_inv m" "0 < thread_num m" and os: "accept_ok os"
    using assms by (auto simp: tcp_ready_def)
  obtain fd k1 where fd: "sys_accept os (listen_fd s) k = (fd, k1)" by fastforce
  have "-1 \<le> fst (sys_accept os (listen_fd s) k)" using os by (simp add: accept_ok_def)
  then consider "fst ev \<noteq> listen_fd s" | "fd = -1" | "fst ev = listen_fd s" "0 \<le> fd" using fd by fastforce
  then show ?thesis
  proof cases
    case 3
    obtain fl k2 where gf: "sys_getfl os fd k1 = (fl, k2)" by fastforce
    obtain ret k3 where sf: "sys_setfl os fd (fl OR O_NONBLOCK) k2 = (ret, k3)" by fastforce
    obtain m' k' where m': "cm_accept_connector os fd m k3 = Inr (m', k')" "cm_inv m'" "thread_num m' = thread_num m"
      using cm_accept_total [OF m(2,3) 3(2), of os k3] by blast
    have "tcp_ready os (s\<lparr>ls_manager := Some m'\<rparr>)" using m' m(3) os by (simp add: tcp_ready_def)
    then show ?thesis using 3 assms m(1) m'(1) fd gf sf
      by (cases "ret = invalid_id") (simp_all add: tcp_event_def accept_connection_def manager_instance_def)
  qed (use assms fd in \<open>simp_all add: tcp_event_def accept_connection_def\<close>)
qed

interpretation tcp_safe: safe_handler "tcp_event os ratio" "tcp_ready os" for os ratio
proof
  fix st st' ev k k'
  assume "tcp_ready os st" "tcp_event os ratio ev st k = Inr (st', k')"
  then show "tcp_ready os st'" using tcp_event_ready [of os st ratio ev k] by auto
next
  fix st ev k
  assume "tcp_ready os st"
  then show "\<exists>r. tcp_event os ratio ev st k = Inr r" using tcp_event_ready [of os st ratio ev k] by blast
qed

definition udp_inv :: "listen_service \<Rightarrow> bool" where
  "udp_inv s \<longleftrightarrow> ls_socket s \<noteq> None \<and> (\<forall>p. ls_pool s = Some p \<longrightarrow> pool_inv p)"

lemma pool_inv_push: "pool_inv p \<Longrightarrow> pool_inv (pool_push t p)"
  by (auto simp: pool_inv_def pool_push_def queue_push_def)

interpretation udp_loop: event_handler "udp_event os" udp_inv for os
  by unfold_locales
    (auto simp: udp_event_def bindR_eq_Inr udp_inv_def pool_inv_push split: if_splits option.splits)

section \<open>Properties\<close>

text \<open>
  C30: the listening loop does not fault. Once the manager has been constructed with at least one
  thread, the loop runs for every sequence of events, every outcome of the system calls it makes and
  however long it is left running, and afterwards every connection table is well formed and there is
  still a thread for the next connection.
\<close>
theorem tcp_main_loop_safe:
  assumes "tcp_ready os s"
  shows "\<exists>s' k'. tcp_main_loop os ratio stops s k = Inr (s', k') \<and> tcp_ready os s'"
proof -
  have "\<exists>r. tcp_main_loop os ratio stops s k = Inr r"
    unfolding tcp_main_loop_def by (rule tcp_safe.epoll_loop_safe [OF assms]) (simp add: ls_epoll_def)
  then obtain s' k' where r: "tcp_main_loop os ratio stops s k = Inr (s', k')" by auto
  with tcp_safe.epoll_loop_keeps [OF assms] show ?thesis unfolding tcp_main_loop_def by blast
qed

theorem tcp_main_loop_safe_witness:
  "let os = sim_os\<lparr>sys_accept := \<lambda>fd k. (7, k)\<rparr>; s = listen_new TCPListenService in
   \<exists>m k1 s' k'. cm_init os (1 / 2) (sim_idle\<lparr>sim_ready := [[(listen_fd s, 1)], [(listen_fd s, 1)]]\<rparr>) = Inr (m, k1) \<and>
     tcp_main_loop os 1 [False, False, True] (s\<lparr>ls_manager := Some m\<rparr>) k1 = Inr (s', k') \<and> tcp_ready os s'"
proof -
  let ?os = "sim_os\<lparr>sys_accept := \<lambda>fd k. (7, k)\<rparr>" and ?s = "listen_new TCPListenService"
  let ?k = "sim_idle\<lparr>sim_ready := [[(listen_fd ?s, 1)], [(listen_fd ?s, 1)]]\<rparr>"
  have "sys_procnum ?os ?k = 4" "scaled_threads 4 (1 / 2) = 2" by (simp_all add: sim_os_def scaled_threads_def)
  then obtain m k1 where m: "cm_init ?os (1 / 2) ?k = Inr (m, k1)" "thread_num m = 2"
    by (cases "cm_start ?os 2 ?k") (simp add: cm_init_def get_procnum_def Let_def)
  have "accept_ok ?os" by (simp add: accept_ok_def)
  then have "tcp_ready ?os (?s\<lparr>ls_manager := Some m\<rparr>)" using m cm_init_ok [OF m(1)] by (simp add: tcp_ready_def)
  from tcp_main_loop_safe [OF this] m(1) show ?thesis unfolding Let_def by blast
qed

text \<open>
  C23: a connection that is accepted and made non-blocking reaches a connector. If the manager exists
  with at least one thread, \<open>accept\<close> returns a descriptor \<open>fd\<close> that no table holds and \<open>fcntl\<close> succeeds,
  then \<open>accept_connection\<close> returns \<open>true\<close> and the table of thread \<open>fd mod thread_num\<close> has a well-formed
  connector for \<open>fd\<close>.
\<close>
theorem accept_connection_registers:
  assumes "ls_manager s = Some m" "cm_inv m" "0 < thread_num m"
    and "sys_accept os (listen_fd s) k = (fd, k1)" "0 \<le> fd"
    and "\<forall>k. fst (sys_setfl os fd fl k) = 0" "\<forall>k. fst (sys_getfl os fd k) = fl'" "fl = fl' OR O_NONBLOCK"
    and "connectors (connector_threads m ! nat (fd mod thread_num m)) fd = None"
  shows "\<exists>m' k' c. accept_connection os ratio s k = Inr (True, s\<lparr>ls_manager := Some m'\<rparr>, k') \<and> cm_inv m' \<and>
    connectors (connector_threads m' ! nat (fd mod thread_num m)) fd = Some c \<and> conn_ok fd c"
proof -
  obtain k2 where g: "sys_getfl os fd k1 = (fl', k2)" using assms(7) by (metis prod.collapse)
  obtain k3 where f: "sys_setfl os fd fl k2 = (0, k3)" using assms(6) by (metis prod.collapse)
  obtain c k' where c: "let i = nat (fd mod thread_num m); t = connector_threads m ! i;
      m' = m\<lparr>connector_threads := (connector_threads m)[i := t\<lparr>connectors := (connectors t)(fd \<mapsto> c)\<rparr>]\<rparr>
    in cm_accept_connector os fd m k3 = Inr (m', k') \<and> conn_ok fd c \<and> cm_inv m' \<and> i < length (connector_threads m)"
    using cm_accept_routes_lemma [OF assms(2,3,5,9), of os k3] by blast
  then show ?thesis
    using assms(1,4,5,8) g f
    by (auto simp: accept_connection_def Let_def manager_instance_def invalid_id_def)
qed

theorem accept_connection_registers_witness:
  "\<exists>m m' k' c. cm_init sim_os 1 sim_idle = Inr (m, sim_idle) \<and>
    accept_connection sim_os 1 ((listen_new TCPListenService)\<lparr>ls_manager := Some m\<rparr>)
      (sim_idle\<lparr>sim_incoming := [7]\<rparr>) =
      Inr (True, (listen_new TCPListenService)\<lparr>ls_manager := Some m'\<rparr>, k') \<and>
    connectors (connector_threads m' ! 3) 7 = Some c"
proof -
  have "sys_procnum sim_os sim_idle = 4" "scaled_threads 4 1 = 4"
    by (simp_all add: sim_os_def scaled_threads_def)
  moreover have "snd (cm_start sim_os n sim_idle) = sim_idle" for n
    by (induction n) (auto simp: ct_init_def sim_os_def Let_def split: prod.splits)
  then obtain ts where "cm_start sim_os 4 sim_idle = (ts, sim_idle)" by (metis prod.collapse)
  ultimately obtain m where m: "cm_init sim_os 1 sim_idle = Inr (m, sim_idle)" "thread_num m = 4"
    by (simp add: cm_init_def get_procnum_def Let_def)
  from cm_init_ok [OF m(1)] have i: "cm_inv m" "\<forall>t \<in> set (connector_threads m). connectors t = Map.empty" by simp_all
  then have "length (connector_threads m) = 4" using m(2) by (simp add: cm_inv_def)
  then have e: "connectors (connector_threads m ! nat (7 mod thread_num m)) 7 = None" using i(2) m(2) by simp
  let ?s = "(listen_new TCPListenService)\<lparr>ls_manager := Some m\<rparr>"
  have acc: "sys_accept sim_os (listen_fd ?s) (sim_idle\<lparr>sim_incoming := [7]\<rparr>) = (7, sim_idle)"
    by (simp add: sim_os_def sim_idle_def)
  have fl: "\<forall>k. fst (sys_setfl sim_os 7 (2 OR O_NONBLOCK) k) = 0" "\<forall>k. fst (sys_getfl sim_os 7 k) = 2"
    by (simp_all add: sim_os_def)
  have "ls_manager ?s = Some m" "0 < thread_num m" "0 \<le> (7 :: int)" using m(2) by simp_all
  from accept_connection_registers [OF this(1) i(1) this(2) acc this(3) fl refl e, of 1]
  have "\<exists>m' k' c. accept_connection sim_os 1 ?s (sim_idle\<lparr>sim_incoming := [7]\<rparr>) =
      Inr (True, ?s\<lparr>ls_manager := Some m'\<rparr>, k') \<and> connectors (connector_threads m' ! 3) 7 = Some c"
    using m(2) by auto
  with m show ?thesis by auto
qed

text \<open>
  A failed initialisation closes the listening socket. Whichever call fails (\<open>bind\<close>,
  \<open>epoll_create\<close>, \<open>epoll_ctl\<close>), the last thing \<open>init\<close> does before it reports failure is to close the
  socket it created; when it succeeds, the service has the epoll descriptor it waits on.
\<close>
lemma listen_init_closes_on_failure:
  assumes "listen_init os port s k = (ok, s', k')"
  shows "if ok then ls_epoll_fd s' \<noteq> invalid_id else \<exists>k1. k' = sys_close os (listen_fd s') k1"
  using assms
  by (cases "ls_kind s")
    (auto simp: listen_init_def tcp_init_socket_def udp_init_socket_def bind_socket_def udp_init_def Let_def
      split: prod.splits if_splits)

lemma listen_init_closes_on_failure_witness:
  "let (ok, s', k') = listen_init sim_os 9527 (listen_new TCPListenService)
       (sim_idle\<lparr>sim_bound := [htons 9527]\<rparr>)
   in \<not> ok \<and> (\<exists>k1. k' = sys_close sim_os (listen_fd s') k1)"
proof -
  obtain ok s' k' where r: "listen_init sim_os 9527 (listen_new TCPListenService)
       (sim_idle\<lparr>sim_bound := [htons 9527]\<rparr>) = (ok, s', k')" by (metis prod_cases3)
  then have "\<not> ok"
    by (auto simp: listen_init_def listen_new_def tcp_init_socket_def bind_socket_def sim_os_def invalid_id_def)
  with listen_init_closes_on_failure [OF r] r show ?thesis by simp
qed

lemma udp_packet_array:
  assumes "length bs \<le> nat UDP_PACKET_SIZE"
  shows "mem_write (replicate (nat UDP_PACKET_SIZE) 0) 0 bs =
    Inr (bs @ replicate (nat UDP_PACKET_SIZE - length bs) 0)"
proof -
  have "0 \<le> UDP_PACKET_SIZE" by (simp add: UDP_PACKET_SIZE_def)
  with assms show ?thesis by (simp add: mem_write_def drop_replicate)
qed

lemma c_string_padded: "0 < n \<Longrightarrow> c_string (bs @ replicate n 0) = Inr (takeWhile (\<lambda>b. b \<noteq> 0) bs)"
proof -
  assume "0 < n"
  then have n: "replicate n (0 :: byte) = 0 # replicate (n - 1) 0" by (cases n) simp_all
  have "takeWhile (\<lambda>b. b \<noteq> 0) (bs @ 0 # ys) = takeWhile (\<lambda>b. b \<noteq> 0) bs" for ys
    by (induction bs) simp_all
  then show ?thesis unfolding n c_string_def by simp
qed

text \<open>
  C26: a UDP ping is answered. A datagram whose header carries the id \<open>CS_PING\<close>, shorter than the receive
  array, is queued as one task of the pool with its content up to the first NUL, and running that
  task sends exactly one answer, to the address the datagram came from. The size field has no effect.
\<close>
theorem udp_ping_answered:
  assumes "ls_socket s = Some u" "ls_pool s = Some pool"
    and "sys_recvfrom os (us_fd u) UDP_PACKET_SIZE k = (Received (packet_header 1 sz @ body), addr, k')"
    and "6 + length body < nat UDP_PACKET_SIZE"
  shows "\<exists>p. udp_event os (listen_fd s, ev) s k = Inr (s\<lparr>ls_pool := Some (pool_push p pool)\<rparr>, k') \<and>
    up_packet_msg p = takeWhile (\<lambda>b. b \<noteq> 0) body \<and>
    (\<forall>k. udp_exec_packet os p k = sys_sendto os (us_fd u) udp_reply_text addr k)"
proof -
  let ?bs = "packet_header 1 sz @ body" and ?n = "nat UDP_PACKET_SIZE - (6 + length body)"
  let ?p = "\<lparr>up_socket_fd = us_fd u, up_in_sock = addr, up_packet_id = 1,
    up_packet_msg = takeWhile (\<lambda>b. b \<noteq> 0) body\<rparr>"
  have m: "mem_write (replicate (nat UDP_PACKET_SIZE) 0) 0 ?bs = Inr (?bs @ replicate ?n 0)"
    using udp_packet_array [of ?bs] assms(4) by simp
  have "take 2 (drop 4 (packet_header 1 sz)) = drop 4 (packet_header 1 sz)" by simp
  then have pid: "htons (of_le16 (take 2 (drop 4 (?bs @ replicate ?n 0)))) = 1"
    using packet_header_id [of 1 sz] by simp
  have str: "c_string (drop 6 (?bs @ replicate ?n 0)) = Inr (takeWhile (\<lambda>b. b \<noteq> 0) body)"
    using c_string_padded [of ?n body] assms(4) by simp
  have ne: "?bs \<noteq> []" by (metis length_packet_header append_is_Nil_conv list.size(3) zero_neq_numeral)
  have "udp_exec_read os u k = Inr (int (length ?bs), Some ?p, k')"
    unfolding udp_exec_read_def assms(3) prod.case recv_res.case if_not_P [OF ne] m bindR_simps Let_def pid str by simp
  then have "udp_event os (listen_fd s, ev) s k = Inr (s\<lparr>ls_pool := Some (pool_push ?p pool)\<rparr>, k')"
    using assms(1,2) by (simp add: udp_event_def)
  moreover have "\<forall>k. udp_exec_packet os ?p k = sys_sendto os (us_fd u) udp_reply_text addr k"
    by (simp add: udp_exec_packet_def)
  ultimately show ?thesis by (intro exI [of _ ?p]) simp
qed

theorem udp_ping_answered_witness:
  "\<exists>p. udp_event sim_os (4, EPOLLIN)
      ((listen_new UDPListenService)\<lparr>listen_fd := 4, ls_socket := Some (udp_new\<lparr>us_fd := 4\<rparr>), ls_pool := Some (pool_new 1)\<rparr>)
      (sim_idle\<lparr>sim_dgrams := [(packet_header 1 8 @ [65, 66], \<lparr>sin_addr = 1, sin_port = 2\<rparr>)]\<rparr>) =
    Inr ((listen_new UDPListenService)\<lparr>listen_fd := 4, ls_socket := Some (udp_new\<lparr>us_fd := 4\<rparr>),
      ls_pool := Some (pool_push p (pool_new 1))\<rparr>, sim_idle) \<and> up_packet_msg p = [65, 66]"
proof -
  let ?s = "(listen_new UDPListenService)\<lparr>listen_fd := 4, ls_socket := Some (udp_new\<lparr>us_fd := 4\<rparr>), ls_pool := Some (pool_new 1)\<rparr>"
  let ?k = "sim_idle\<lparr>sim_dgrams := [(packet_header 1 8 @ [65, 66], \<lparr>sin_addr = 1, sin_port = 2\<rparr>)]\<rparr>"
  have "length (packet_header 1 8 @ [65, 66 :: byte]) \<le> nat UDP_PACKET_SIZE"
    by (simp add: UDP_PACKET_SIZE_def)
  then have "sys_recvfrom sim_os (us_fd (udp_new\<lparr>us_fd := 4\<rparr>)) UDP_PACKET_SIZE ?k =
      (Received (packet_header 1 8 @ [65, 66]), \<lparr>sin_addr = 1, sin_port = 2\<rparr>, sim_idle)"
    by (simp add: sim_os_def sim_idle_def del: length_append take_append)
  from udp_ping_answered [OF _ _ this, of ?s "pool_new 1" EPOLLIN]
  show ?thesis by (auto simp: UDP_PACKET_SIZE_def)
qed

text \<open>
  a datagram that fills the receive array ends the process: with no NUL behind the header, building
  the packet's string reads past the end of the local array.
\<close>
theorem udp_unterminated_datagram:
  assumes "sys_recvfrom os (us_fd u) UDP_PACKET_SIZE k = (Received bs, addr, k')"
    and "length bs = nat UDP_PACKET_SIZE" "0 \<notin> set (drop 6 bs)"
  shows "udp_exec_read os u k = Inl OutOfBounds"
proof -
  have ne: "bs \<noteq> []" using assms(2) by (auto simp: UDP_PACKET_SIZE_def)
  have m: "mem_write (replicate (nat UDP_PACKET_SIZE) 0) 0 bs = Inr bs" using udp_packet_array [of bs] assms(2) by simp
  show ?thesis
    unfolding udp_exec_read_def assms(1) prod.case recv_res.case if_not_P [OF ne] m bindR_simps Let_def
    using assms(3) by (simp add: c_string_def)
qed

theorem udp_unterminated_datagram_witness:
  "udp_exec_read sim_os (udp_new\<lparr>us_fd := 4\<rparr>)
     (sim_idle\<lparr>sim_dgrams := [(replicate (nat UDP_PACKET_SIZE) 65, \<lparr>sin_addr = 1, sin_port = 2\<rparr>)]\<rparr>) = Inl OutOfBounds"
proof (rule udp_unterminated_datagram)
  show "sys_recvfrom sim_os (us_fd (udp_new\<lparr>us_fd := 4\<rparr>)) UDP_PACKET_SIZE
      (sim_idle\<lparr>sim_dgrams := [(replicate (nat UDP_PACKET_SIZE) 65, \<lparr>sin_addr = 1, sin_port = 2\<rparr>)]\<rparr>) =
    (Received (replicate (nat UDP_PACKET_SIZE) 65), \<lparr>sin_addr = 1, sin_port = 2\<rparr>, sim_idle)"
    by (simp add: sim_os_def sim_idle_def)
qed (auto dest: in_set_dropD)

text \<open>
  Starting the module either gives a service that is bound, waits on an epoll descriptor and runs,
  or gives nothing: an unknown communication type has no effect at all.
\<close>
theorem main_module_run_result:
  assumes "main_module_run os ctype port ratio k = Inr (r, k')"
  shows "case r of
      Some s \<Rightarrow> ls_thread s \<and> ls_epoll_fd s \<noteq> invalid_id \<and> listen_services ctype = Some (ls_kind s)
    | None \<Rightarrow> listen_services ctype = None \<and> k' = k \<or>
        (\<exists>kind s1 k1. listen_services ctype = Some kind \<and> listen_init os port (listen_new kind) k = (False, s1, k1))"
proof (cases "listen_services ctype")
  case None
  then show ?thesis using assms by (simp add: main_module_run_def create_service_def)
next
  case (Some kind)
  obtain ok s1 k1 where i: "listen_init os port (listen_new kind) k = (ok, s1, k1)" by (metis prod_cases3)
  have kind: "ls_kind s1 = kind \<and> (ok \<longrightarrow> ls_epoll_fd s1 \<noteq> invalid_id)"
    using i by (cases kind)
      (auto simp: listen_init_def listen_new_def tcp_init_socket_def udp_init_socket_def bind_socket_def Let_def
        split: prod.splits if_splits)
  show ?thesis
  proof (cases ok)
    case False
    then show ?thesis using assms Some i by (auto simp: main_module_run_def create_service_def)
  next
    case True
    then obtain s2 where "r = Some s2" "listen_run os ratio s1 k1 = Inr (s2, k')"
      using assms Some i by (auto simp: main_module_run_def create_service_def bindR_eq_Inr)
    then show ?thesis
      using Some kind True
      by (auto simp: listen_run_def manager_instance_def bindR_eq_Inr Let_def
          split: service_kind.splits option.splits)
  qed
qed

theorem main_module_run_result_witness:
  "main_module_run sim_os ''SOCK_RAW'' 9527 1 sim_idle = Inr (None, sim_idle) \<and> listen_services ''SOCK_RAW'' = None"
proof -
  have r: "main_module_run sim_os ''SOCK_RAW'' 9527 1 sim_idle = Inr (None, sim_idle)"
    by (simp add: main_module_run_def create_service_def listen_services_def)
  from main_module_run_result [OF r] show ?thesis by (simp add: r listen_services_def)
qed

end
