(* ===== verification/Log_File.thy ===== *)
theory Log_File
  imports Prelude
begin

text \<open>
  The log: src/log/log.cpp and the macros of src/log/log.h. A line is the local time, the prefix of
  its type and the text, which the macros cut to their array of 1024 bytes. The clock, the file system
  and the flag are arguments.
\<close>

datatype log_type = INFO_LOG | WARN_LOG | ERROR_LOG | FATAL_LOG | DEBUG_LOG

fun g_LogInfo :: "log_type \<Rightarrow> string" where
  "g_LogInfo INFO_LOG = ''Info: ''"
| "g_LogInfo WARN_LOG = ''Warning: ''"
| "g_LogInfo ERROR_LOG = ''Error: ''"
| "g_LogInfo FATAL_LOG = ''Fatal: ''"
| "g_LogInfo DEBUG_LOG = ''Debug''"

text \<open>\<open>%d\<close> and \<open>%0wd\<close> for a number that is not negative.\<close>

fun dec :: "nat \<Rightarrow> string" where
  "dec n = (if n < 10 then [char_of (48 + n)] else dec (n div 10) @ [char_of (48 + n mod 10)])"

declare dec.simps [simp del]

definition dec_pad :: "nat \<Rightarrow> nat \<Rightarrow> string" where
  "dec_pad w n = replicate (w - length (dec n)) CHR ''0'' @ dec n"

text \<open>\<open>struct tm\<close>, and \<open>get_timestr\<close>: \<open>snprintf\<close> into 128 bytes.\<close>

record tm =
  tm_year :: nat
  tm_mon :: nat
  tm_mday :: nat
  tm_hour :: nat
  tm_min :: nat
  tm_sec :: nat

definition snprintf_cut :: "nat \<Rightarrow> string \<Rightarrow> string" where
  "snprintf_cut sz s = take (sz - 1) s"

definition get_timestr :: "tm \<Rightarrow> string" where
  "get_timestr t = snprintf_cut 128
     (dec_pad 4 (tm_year t + 1900) @ ''-'' @ dec_pad 2 (tm_mon t + 1) @ ''-'' @ dec_pad 2 (tm_mday t) @ ''_'' @
      dec_pad 2 (tm_hour t) @ '':'' @ dec_pad 2 (tm_min t) @ '':'' @ dec_pad 2 (tm_sec t))"

text \<open>
  The log object: whether \<open>init\<close> has opened a file, the name it was given, the lines written to the
  file and to standard output. A stream that is not open discards what is written to it.
\<close>

record log_file =
  log_init_done :: bool
  log_name :: string
  log_lines :: "string list"
  log_stdout :: "string list"

definition log_new :: log_file where
  "log_new = \<lparr>log_init_done = False, log_name = [], log_lines = [], log_stdout = []\<rparr>"

definition log_init :: "(string \<Rightarrow> bool) \<Rightarrow> string \<Rightarrow> log_file \<Rightarrow> log_file" where
  "log_init can_open name l = (if can_open name then l\<lparr>log_init_done := True, log_name := name\<rparr> else l)"

definition log_line :: "tm \<Rightarrow> log_type \<Rightarrow> string \<Rightarrow> string" where
  "log_line t ty text = get_timestr t @ '' '' @ g_LogInfo ty @ ''.'' @ '' '' @ text"

definition log_write :: "(string \<Rightarrow> bool) \<Rightarrow> bool \<Rightarrow> tm \<Rightarrow> log_type \<Rightarrow> string \<Rightarrow> log_file \<Rightarrow> log_file" where
  "log_write can_open flag_stdout t ty text l =
     (let l1 = (if \<not> log_init_done l then log_init can_open ''default'' l else l);
          l2 = (if log_init_done l1 then l1\<lparr>log_lines := log_lines l1 @ [log_line t ty text]\<rparr> else l1)
      in if flag_stdout \<or> ty = DEBUG_LOG
         then l2\<lparr>log_stdout := log_stdout l2 @ [log_line t ty text]\<rparr> else l2)"

text \<open>The macros: the formatted text is cut to 1023 characters.\<close>

definition log_macro :: "(string \<Rightarrow> bool) \<Rightarrow> bool \<Rightarrow> tm \<Rightarrow> log_type \<Rightarrow> string \<Rightarrow> log_file \<Rightarrow> log_file" where
  "log_macro can_open flag_stdout t ty formatted = log_write can_open flag_stdout t ty (snprintf_cut 1024 formatted)"

section \<open>Facts\<close>

lemma dec_small: "n < 10 \<Longrightarrow> dec n = [char_of (48 + n)]"
  by (simp add: dec.simps)

lemma length_dec: "n < 10 ^ Suc w \<Longrightarrow> length (dec n) \<le> Suc w"
proof (induction w arbitrary: n)
  case 0
  then show ?case by (simp add: dec_small)
next
  case (Suc w)
  then have "n div 10 < 10 ^ Suc w" by (simp add: less_mult_imp_div_less mult.commute)
  with Suc.IH have "length (dec (n div 10)) \<le> Suc w" by blast
  then show ?case by (subst dec.simps) simp
qed

lemma length_dec_pad: "n < 10 ^ Suc w \<Longrightarrow> length (dec_pad (Suc w) n) = Suc w"
  using length_dec [of n w] by (simp add: dec_pad_def)

lemma length_dec_pad_2: "n < 100 \<Longrightarrow> length (dec_pad 2 n) = 2"
  using length_dec_pad [of n 1] by (simp add: numeral_2_eq_2)

lemma length_dec_pad_4: "n < 10000 \<Longrightarrow> length (dec_pad 4 n) = 4"
proof -
  have "Suc 3 = 4" "(10 :: nat) ^ 4 = 10000" by simp_all
  then show "n < 10000 \<Longrightarrow> length (dec_pad 4 n) = 4" using length_dec_pad [of n 3] by metis
qed

text \<open>
  A log entry is one line with a fixed-width time stamp. For a calendar date up to the year 9999
  the stamp has exactly 19 characters, so nothing of it is cut; a macro writes one line of at most
  1054 characters to an open log, keeps the earlier ones, and copies it to standard output exactly
  when the flag is set or the type is \<open>DEBUG_LOG\<close>.
\<close>
theorem log_macro_line:
  assumes "tm_year t + 1900 < 10000" "tm_mon t < 12" "tm_mday t < 32" "tm_hour t < 24" "tm_min t < 60" "tm_sec t < 61"
    and "log_init_done l"
  shows "length (get_timestr t) = 19 \<and> (\<exists>line. length line \<le> 1054 \<and>
    log_lines (log_macro can_open flag t ty formatted l) = log_lines l @ [line] \<and>
    log_stdout (log_macro can_open flag t ty formatted l) =
      (if flag \<or> ty = DEBUG_LOG then log_stdout l @ [line] else log_stdout l))"
proof -
  have ts: "length (get_timestr t) = 19"
    using assms by (simp add: get_timestr_def snprintf_cut_def length_dec_pad_2 length_dec_pad_4)
  have "length (g_LogInfo ty) \<le> 9" by (cases ty) simp_all
  then have "length (log_line t ty (snprintf_cut 1024 formatted)) \<le> 1054"
    using ts by (simp add: log_line_def snprintf_cut_def)
  with assms(7) ts show ?thesis
    by (intro conjI exI [of _ "log_line t ty (snprintf_cut 1024 formatted)"])
      (simp_all add: log_macro_def log_write_def Let_def)
qed

theorem log_macro_line_witness:
  "length (get_timestr \<lparr>tm_year = 124, tm_mon = 1, tm_mday = 29, tm_hour = 23, tm_min = 5, tm_sec = 0\<rparr>) = 19 \<and>
   (\<exists>line. log_lines (log_macro (\<lambda>n. True) False
      \<lparr>tm_year = 124, tm_mon = 1, tm_mday = 29, tm_hour = 23, tm_min = 5, tm_sec = 0\<rparr> INFO_LOG ''up''
      (log_new\<lparr>log_init_done := True\<rparr>)) = [line])"
  using log_macro_line [of "\<lparr>tm_year = 124, tm_mon = 1, tm_mday = 29, tm_hour = 23, tm_min = 5, tm_sec = 0\<rparr>"
      "log_new\<lparr>log_init_done := True\<rparr>" "\<lambda>n. True" False INFO_LOG "''up''"]
  by (auto simp: log_new_def)

end
