(* ===== verification/Tc_Prelude.thy ===== *)
theory Tc_Prelude
  imports Complex_Main Prelude
begin

unbundle bit_operations_syntax

text \<open>
  Shared vocabulary of the allocator theories (src/libs/tcmalloc/src). Addresses, page numbers and
  sizes are integers; where the code relies on or guards against wrap-around, \<open>to_size_t\<close> takes the value
  modulo \<open>2 ^ 64\<close>. The Makefile does not define \<open>NDEBUG\<close>, so \<open>ASSERT\<close> is a run-time check like
  \<open>CHECK_CONDITION\<close>, and both are modelled as \<open>check\<close>.
\<close>

type_synonym addr = int

abbreviation (input) NULL :: addr where "NULL \<equiv> 0"

named_theorems tc_simps "facts about checks, masks and alignment"

definition check :: "bool \<Rightarrow> 'a result \<Rightarrow> 'a result" where
  "check c m = (if c then m else Inl CheckFailed)"

lemma check_simps [simp]: "check True m = m" "check False m = Inl CheckFailed"
  by (simp_all add: check_def)

lemma check_eq_Inr: "check c m = Inr y \<longleftrightarrow> c \<and> m = Inr y"
  by (simp add: check_def)

lemma check_cong [fundef_cong]: "c = c' \<Longrightarrow> (c' \<Longrightarrow> m = m') \<Longrightarrow> check c m = check c' m'"
  by (simp add: check_def)

section \<open>Powers of two and alignment\<close>

definition pow2 :: "int \<Rightarrow> bool" where
  "pow2 a \<longleftrightarrow> 0 < a \<and> a AND (a - 1) = 0"

lemma pow2_power: "pow2 (2 ^ n)"
proof -
  have "(2 :: int) ^ n AND (2 ^ n - 1) = take_bit n (2 ^ n)"
    by (simp add: take_bit_eq_mask mask_eq_exp_minus_1)
  then show ?thesis by (simp add: pow2_def take_bit_eq_mod)
qed

text \<open>\<open>p & (a - 1)\<close> is the remainder by a power of two.\<close>

lemma and_mask: "p AND (2 ^ n - 1 :: int) = p mod 2 ^ n"
  by (simp flip: take_bit_eq_mod add: take_bit_eq_mask mask_eq_exp_minus_1)

lemma and_not_mask: "p AND NOT (2 ^ n - 1 :: int) = p div 2 ^ n * 2 ^ n"
proof -
  have "p AND NOT (mask n) = push_bit n (drop_bit n p)"
    by (rule bit_eqI) (auto simp: bit_simps)
  then show ?thesis by (simp add: mask_eq_exp_minus_1 push_bit_eq_mult drop_bit_eq_div)
qed

text \<open>Rounding up to a multiple, as \<open>((x + a - 1) / a) * a\<close>.\<close>

definition round_up :: "int \<Rightarrow> int \<Rightarrow> int" where
  "round_up x a = ((x + a - 1) div a) * a"

lemma round_up_ge: "0 < a \<Longrightarrow> x \<le> round_up x a"
proof -
  assume "0 < a"
  then have "(x + a - 1) mod a < a" by simp
  moreover have "(x + a - 1) div a * a + (x + a - 1) mod a = x + a - 1" by (rule div_mult_mod_eq)
  ultimately show ?thesis unfolding round_up_def by linarith
qed

lemma round_up_less: "0 < a \<Longrightarrow> round_up x a < x + a"
proof -
  assume "0 < a"
  then have "0 \<le> (x + a - 1) mod a" by simp
  moreover have "(x + a - 1) div a * a + (x + a - 1) mod a = x + a - 1" by (rule div_mult_mod_eq)
  ultimately show ?thesis unfolding round_up_def by linarith
qed

lemma round_up_mod [simp]: "round_up x a mod a = 0"
  by (simp add: round_up_def)

text \<open>The distance to the next multiple, as \<open>a - (p & (a - 1))\<close> when that is not \<open>a\<close>.\<close>

definition align_adjust :: "int \<Rightarrow> int \<Rightarrow> int" where
  "align_adjust p a = (if p AND (a - 1) \<noteq> 0 then a - (p AND (a - 1)) else 0)"

lemma align_adjust_props:
  assumes "a = 2 ^ n"
  shows "0 \<le> align_adjust p a" "align_adjust p a < a" "(p + align_adjust p a) mod a = 0"
proof -
  have m: "0 \<le> p mod a" "p mod a < a" using assms by simp_all
  have "p + (a - p mod a) = (p div a + 1) * a" using div_mult_mod_eq [of p a] by (simp add: algebra_simps)
  then have "(p + (a - p mod a)) mod a = 0" by simp
  moreover have "p AND (a - 1) = p mod a" unfolding assms by (rule and_mask)
  ultimately show "0 \<le> align_adjust p a" "align_adjust p a < a" "(p + align_adjust p a) mod a = 0"
    using m by (auto simp: align_adjust_def)
qed

lemma align_adjust_mult:
  assumes "a = 2 ^ n" "p mod b = 0" "a = b * c" "0 < b"
  shows "align_adjust p a \<le> a - b"
proof -
  have "b dvd a" unfolding assms(3) by (rule dvd_triv_left)
  with assms have b: "b dvd a" "b dvd p" by auto
  then have "b dvd p mod a" by (simp add: dvd_mod)
  moreover have "0 \<le> p mod a" using assms by simp
  ultimately have "p mod a = 0 \<or> b \<le> p mod a" using zdvd_imp_le [of b "p mod a"] by linarith
  moreover have "p AND (a - 1) = p mod a" unfolding assms(1) by (rule and_mask)
  moreover have "b \<le> a" using b(1) assms(1,4) by (intro zdvd_imp_le) auto
  ultimately show ?thesis by (auto simp: align_adjust_def)
qed

end
