(* ===== verification/Sys_Alloc.thy ===== *)
theory Sys_Alloc
  imports Tc_Prelude
begin

unbundle bit_operations_syntax

text \<open>
  Memory from the operating system: src/libs/tcmalloc/src/system-alloc.cc. Two allocators, over \<open>sbrk\<close>
  and over \<open>mmap\<close>, are combined by the default one, and \<open>TCMalloc_SystemAlloc\<close> and
  \<open>TCMalloc_SystemRelease\<close> are what the rest of the allocator calls. The system calls and the flags are
  fields of \<open>tc_env\<close>, the state of the operating system is the type \<open>'k\<close>, and the static variables of the
  file are the record \<open>sys_state\<close>. \<open>mem_os\<close> states what the manual pages promise of the calls, over a
  function that gives the addresses the process owns.
\<close>

section \<open>State and system calls\<close>

record 'k tc_env =
  skip_sbrk :: bool                 \<comment> \<open>\<open>FLAGS_malloc_skip_sbrk\<close>\<close>
  skip_mmap :: bool                 \<comment> \<open>\<open>FLAGS_malloc_skip_mmap\<close>\<close>
  disable_memory_release :: bool    \<comment> \<open>\<open>FLAGS_malloc_disable_memory_release\<close>\<close>
  devmem_start :: int               \<comment> \<open>\<open>FLAGS_malloc_devmem_start\<close>\<close>
  heap_limit_mb :: int              \<comment> \<open>\<open>FLAGS_tcmalloc_heap_limit_mb\<close>\<close>
  release_rate :: rat               \<comment> \<open>\<open>FLAGS_tcmalloc_release_rate\<close>, taken as exact\<close>
  os_getpagesize :: int
  os_sbrk :: "int \<Rightarrow> 'k \<Rightarrow> addr \<times> 'k"
  os_mmap :: "int \<Rightarrow> 'k \<Rightarrow> addr \<times> 'k"
  os_munmap :: "addr \<Rightarrow> int \<Rightarrow> 'k \<Rightarrow> 'k"
  os_madvise :: "addr \<Rightarrow> int \<Rightarrow> 'k \<Rightarrow> (int \<times> bool) \<times> 'k"   \<comment> \<open>result, and whether \<open>errno\<close> is \<open>EAGAIN\<close>\<close>

text \<open>\<open>(void* ) -1\<close>, what \<open>sbrk\<close> and \<open>mmap\<close> return when they fail.\<close>

definition ptr_minus_one :: addr where "ptr_minus_one = 2 ^ 64 - 1"

datatype child_alloc = SbrkSysAllocator | MmapSysAllocator

record sys_state =
  ss_pagesize :: int
  ss_inited :: bool
  ss_failed :: "bool list"
  ss_allocs :: "child_alloc option list"
  ss_taken :: int

definition kAddressBits :: nat where "kAddressBits = 48"
definition sizeof_MemoryAligner :: int where "sizeof_MemoryAligner = 64"
definition kMaxAllocators :: nat where "kMaxAllocators = 2"

definition CheckAddressBits :: "int \<Rightarrow> bool" where
  "CheckAddressBits ptr \<longleftrightarrow> drop_bit kAddressBits ptr = 0"

section \<open>The two allocators\<close>

type_synonym 'k alloc_fun = "'k tc_env \<Rightarrow> int \<Rightarrow> int \<Rightarrow> sys_state \<Rightarrow> 'k \<Rightarrow> (addr \<times> int) option \<times> sys_state \<times> 'k"

text \<open>The result is the block and the value stored in \<open>actual_size\<close>; \<open>None\<close> is a null pointer.\<close>

definition sbrk_alloc :: "'k alloc_fun" where
  "sbrk_alloc env size0 alignment ss k =
     (if skip_sbrk env then (None, ss, k)
      else if to_size_t (size0 + alignment) \<ge> 2 ^ 63 then (None, ss, k)
      else
        let sz = to_size_t (to_size_t (size0 + alignment - 1) div alignment * alignment);
            (brk, k1) = os_sbrk env 0 k
        in if to_size_t (brk + sz) < sz then (None, ss, k1)
        else case os_sbrk env sz k1 of (ptr, k2) \<Rightarrow>
          if ptr = ptr_minus_one then (None, ss, k2)
          else if ptr AND (alignment - 1) = 0 then (Some (ptr, sz), ss, k2)
          else let extra = alignment - (ptr AND (alignment - 1));
                   (r2, k3) = os_sbrk env extra k2
               in if r2 = to_size_t (ptr + sz) then (Some (ptr + extra, sz), ss, k3)
                  else case os_sbrk env (sz + alignment - 1) k3 of (ptr', k4) \<Rightarrow>
                    if ptr' = ptr_minus_one then (None, ss, k4)
                    else (Some (ptr' + align_adjust ptr' alignment, sz), ss, k4))"

definition mmap_alloc :: "'k alloc_fun" where
  "mmap_alloc env size0 alignment0 ss k =
     (if skip_mmap env then (None, ss, k)
      else
        let ss = (if ss_pagesize ss = 0 then ss\<lparr>ss_pagesize := os_getpagesize env\<rparr> else ss);
            alignment = (if alignment0 < ss_pagesize ss then ss_pagesize ss else alignment0);
            sz = to_size_t (to_size_t (size0 + alignment - 1) div alignment * alignment)
        in if sz < size0 then (None, ss, k)
        else
          let extra = (if alignment > ss_pagesize ss then alignment - ss_pagesize ss else 0);
              (ptr, k1) = os_mmap env (to_size_t (sz + extra)) k
          in if ptr = ptr_minus_one then (None, ss, k1)
          else
            let adjust = align_adjust ptr alignment;
                k2 = (if adjust > 0 then os_munmap env ptr adjust k1 else k1);
                k3 = (if adjust < extra then os_munmap env (ptr + adjust + sz) (extra - adjust) k2 else k2)
            in (Some (ptr + adjust, sz), ss, k3))"

definition child_alloc_fun :: "child_alloc \<Rightarrow> 'k alloc_fun" where
  "child_alloc_fun c = (case c of SbrkSysAllocator \<Rightarrow> sbrk_alloc | MmapSysAllocator \<Rightarrow> mmap_alloc)"

section \<open>The default allocator\<close>

text \<open>The constructor and \<open>SetChildAllocator\<close>.\<close>

definition default_new :: "sys_state \<Rightarrow> sys_state" where
  "default_new ss = ss\<lparr>ss_failed := replicate kMaxAllocators True, ss_allocs := replicate kMaxAllocators None\<rparr>"

definition SetChildAllocator :: "child_alloc \<Rightarrow> nat \<Rightarrow> sys_state \<Rightarrow> sys_state" where
  "SetChildAllocator c index ss =
     (if index < kMaxAllocators
      then ss\<lparr>ss_allocs := (ss_allocs ss)[index := Some c], ss_failed := (ss_failed ss)[index := False]\<rparr> else ss)"

text \<open>\<open>DefaultSysAllocator::Alloc\<close>: the loop over the children \<open>is\<close>, then the reset of \<open>failed_\<close>.\<close>

fun default_loop :: "'k tc_env \<Rightarrow> nat list \<Rightarrow> int \<Rightarrow> int \<Rightarrow> sys_state \<Rightarrow> 'k \<Rightarrow> (addr \<times> int) option \<times> sys_state \<times> 'k" where
  "default_loop env [] sz alignment ss k = (None, ss\<lparr>ss_failed := replicate kMaxAllocators False\<rparr>, k)"
| "default_loop env (i # is) sz alignment ss k =
     (case (ss_failed ss ! i, ss_allocs ss ! i) of
        (False, Some c) \<Rightarrow>
          (case child_alloc_fun c env sz alignment ss k of
             (Some r, ss1, k1) \<Rightarrow> (Some r, ss1, k1)
           | (None, ss1, k1) \<Rightarrow> default_loop env is sz alignment (ss1\<lparr>ss_failed := (ss_failed ss1)[i := True]\<rparr>) k1)
      | _ \<Rightarrow> default_loop env is sz alignment ss k)"

definition default_alloc :: "'k alloc_fun" where
  "default_alloc env sz alignment ss k = default_loop env [0..<kMaxAllocators] sz alignment ss k"

text \<open>Without \<open>NDEBUG\<close> and with 8-byte pointers the \<open>mmap\<close> allocator comes first.\<close>

definition InitSystemAllocators :: "sys_state \<Rightarrow> sys_state" where
  "InitSystemAllocators ss =
     SetChildAllocator SbrkSysAllocator 1 (SetChildAllocator MmapSysAllocator 0 (default_new ss))"

definition TCMalloc_SystemAlloc ::
  "'k tc_env \<Rightarrow> int \<Rightarrow> int \<Rightarrow> sys_state \<Rightarrow> 'k \<Rightarrow> ((addr \<times> int) option \<times> sys_state \<times> 'k) result" where
  "TCMalloc_SystemAlloc env sz alignment0 ss k =
     (if to_size_t (sz + alignment0) < sz then Inr (None, ss, k)
      else
        let ss = (if ss_inited ss then ss else (InitSystemAllocators ss)\<lparr>ss_inited := True\<rparr>);
            alignment = (if alignment0 < sizeof_MemoryAligner then sizeof_MemoryAligner else alignment0)
        in case default_alloc env sz alignment ss k of
             (None, ss1, k1) \<Rightarrow> Inr (None, ss1, k1)
           | (Some (ptr, actual), ss1, k1) \<Rightarrow>
               check (CheckAddressBits (to_size_t (ptr + actual - 1)))
                 (Inr (Some (ptr, actual), ss1\<lparr>ss_taken := to_size_t (ss_taken ss1 + actual)\<rparr>, k1)))"

section \<open>Release\<close>

text \<open>\<open>do result = madvise(...) while (result == -1 && errno == EAGAIN)\<close>.\<close>

partial_function (option) madvise_loop :: "'k tc_env \<Rightarrow> addr \<Rightarrow> int \<Rightarrow> 'k \<Rightarrow> (int \<times> 'k) option" where
  "madvise_loop env start len k =
     (case os_madvise env start len k of ((ret, again), k') \<Rightarrow>
        if ret = - 1 \<and> again then madvise_loop env start len k' else Some (ret, k'))"

declare madvise_loop.simps [code]

definition TCMalloc_SystemRelease ::
  "'k tc_env \<Rightarrow> addr \<Rightarrow> int \<Rightarrow> sys_state \<Rightarrow> 'k \<Rightarrow> (bool \<times> sys_state \<times> 'k) result" where
  "TCMalloc_SystemRelease env start len ss k =
     (if devmem_start env \<noteq> 0 then Inr (False, ss, k)
      else if disable_memory_release env then Inr (False, ss, k)
      else
        let ss = (if ss_pagesize ss = 0 then ss\<lparr>ss_pagesize := os_getpagesize env\<rparr> else ss);
            pagemask = ss_pagesize ss - 1;
            end_ptr = to_size_t (start + len);
            new_start = to_size_t (start + ss_pagesize ss - 1) AND NOT pagemask;
            new_end = end_ptr AND NOT pagemask
        in check (new_start AND pagemask = 0) (check (new_end AND pagemask = 0)
          (check (new_start \<ge> start) (check (new_end \<le> end_ptr)
            (if new_end > new_start then
               (case madvise_loop env new_start (new_end - new_start) k of
                  None \<Rightarrow> Inl Diverges
                | Some (ret, k') \<Rightarrow> Inr (ret \<noteq> - 1, ss, k'))
             else Inr (False, ss, k))))))"

text \<open>\<open>TCMalloc_SystemCommit\<close> does nothing.\<close>

definition TCMalloc_SystemCommit :: "addr \<Rightarrow> int \<Rightarrow> 'k \<Rightarrow> 'k" where
  "TCMalloc_SystemCommit start len k = k"

section \<open>What the system calls promise\<close>

definition new_block :: "('k \<Rightarrow> addr set) \<Rightarrow> 'k \<Rightarrow> 'k \<Rightarrow> addr \<Rightarrow> int \<Rightarrow> bool" where
  "new_block own k k' r n \<longleftrightarrow>
     0 < r \<and> r + n \<le> 2 ^ 47 \<and> {r..<r + n} \<inter> own k = {} \<and> own k \<union> {r..<r + n} \<subseteq> own k'"

text \<open>
  \<open>sbrk\<close> and \<open>mmap\<close> give memory the process did not own, in the user half of the address space;
  \<open>mmap\<close> gives whole system pages; \<open>munmap\<close> takes away at most the named range; \<open>madvise\<close> takes nothing.
\<close>

definition mem_os :: "'k tc_env \<Rightarrow> ('k \<Rightarrow> addr set) \<Rightarrow> bool" where
  "mem_os env own \<longleftrightarrow>
     (\<forall>n k r k'. 0 \<le> n \<longrightarrow> os_sbrk env n k = (r, k') \<longrightarrow>
        (if r = ptr_minus_one then own k \<subseteq> own k' else new_block own k k' r n)) \<and>
     (\<forall>n k r k'. 0 \<le> n \<longrightarrow> os_mmap env n k = (r, k') \<longrightarrow>
        (if r = ptr_minus_one then own k \<subseteq> own k' else new_block own k k' r n \<and> r mod os_getpagesize env = 0)) \<and>
     (\<forall>a n k. own k - {a..<a + n} \<subseteq> own (os_munmap env a n k)) \<and>
     (\<forall>a n k. own k \<subseteq> own (snd (os_madvise env a n k))) \<and>
     (\<exists>j. 6 \<le> j \<and> j \<le> 13 \<and> os_getpagesize env = 2 ^ j)"

lemma mem_os_sbrk:
  "mem_os env own \<Longrightarrow> 0 \<le> n \<Longrightarrow> os_sbrk env n k = (r, k') \<Longrightarrow>
     (r = ptr_minus_one \<longrightarrow> own k \<subseteq> own k') \<and> (r \<noteq> ptr_minus_one \<longrightarrow> new_block own k k' r n)"
  unfolding mem_os_def by metis

lemma mem_os_mmap:
  "mem_os env own \<Longrightarrow> 0 \<le> n \<Longrightarrow> os_mmap env n k = (r, k') \<Longrightarrow>
     (r = ptr_minus_one \<longrightarrow> own k \<subseteq> own k') \<and>
     (r \<noteq> ptr_minus_one \<longrightarrow> new_block own k k' r n \<and> r mod os_getpagesize env = 0)"
  unfolding mem_os_def by metis

lemma mem_os_munmap: "mem_os env own \<Longrightarrow> own k - {a..<a + n} \<subseteq> own (os_munmap env a n k)"
  by (simp add: mem_os_def)

lemma mem_os_madvise: "mem_os env own \<Longrightarrow> os_madvise env a n k = (x, k') \<Longrightarrow> own k \<subseteq> own k'"
  unfolding mem_os_def by (metis snd_conv)

lemma mem_os_pagesize: "mem_os env own \<Longrightarrow> \<exists>j. 6 \<le> j \<and> j \<le> 13 \<and> os_getpagesize env = 2 ^ j"
  by (simp add: mem_os_def)

text \<open>A state of the file's variables that can arise: the page size is not yet or correctly known.\<close>

definition sys_ok :: "'k tc_env \<Rightarrow> sys_state \<Rightarrow> bool" where
  "sys_ok env ss \<longleftrightarrow> (ss_pagesize ss = 0 \<or> ss_pagesize ss = os_getpagesize env) \<and>
     (ss_inited ss \<longrightarrow> length (ss_failed ss) = kMaxAllocators \<and> length (ss_allocs ss) = kMaxAllocators)"

text \<open>The contract of a system allocator: an aligned block of new memory, at least as long as asked for.\<close>

definition granted :: "('k \<Rightarrow> addr set) \<Rightarrow> int \<Rightarrow> int \<Rightarrow> addr \<Rightarrow> int \<Rightarrow> 'k \<Rightarrow> 'k \<Rightarrow> bool" where
  "granted own sz alignment p n k k' \<longleftrightarrow>
     p mod alignment = 0 \<and> sz \<le> n \<and> n mod alignment = 0 \<and> new_block own k k' p n"

locale sys_allocator =
  fixes alloc :: "'k alloc_fun"
  assumes alloc_grants:
    "mem_os env own \<Longrightarrow> sys_ok env ss \<Longrightarrow> ss_inited ss \<Longrightarrow> 0 < sz \<Longrightarrow> sz + 2 ^ a < 2 ^ 64 \<Longrightarrow> 6 \<le> a \<Longrightarrow>
     alloc env sz (2 ^ a) ss k = (res, ss', k') \<Longrightarrow>
     sys_ok env ss' \<and> ss_inited ss' \<and> ss_taken ss' = ss_taken ss \<and>
     (case res of None \<Rightarrow> own k \<subseteq> own k' | Some (p, n) \<Rightarrow> granted own sz (2 ^ a) p n k k')"
begin

text \<open>A block for whole pages covers whole pages.\<close>

lemma alloc_pages:
  assumes "mem_os env own" "sys_ok env ss" "ss_inited ss" "0 < sz" "sz + 2 ^ 13 < 2 ^ 64"
    "alloc env sz (2 ^ 13) ss k = (Some (p, n), ss', k')"
  shows "p = p div 2 ^ 13 * 2 ^ 13" "n = n div 2 ^ 13 * 2 ^ 13" "sz \<le> n" "0 < p div 2 ^ 13"
proof -
  have g: "granted own sz (2 ^ 13) p n k k'" using alloc_grants [OF assms(1-5) _ assms(6)] by simp
  then show "p = p div 2 ^ 13 * 2 ^ 13" "n = n div 2 ^ 13 * 2 ^ 13" "sz \<le> n"
    by (auto simp: granted_def dvd_eq_mod_eq_0)
  moreover have "0 < p" using g by (simp add: granted_def new_block_def)
  ultimately have "0 < p div 2 ^ 13 * 2 ^ 13" by metis
  then show "0 < p div 2 ^ 13" by (simp add: zero_less_mult_iff)
qed

end

section \<open>The allocators keep the contract\<close>

lemma new_block_sub:
  "new_block own k k' r n \<Longrightarrow> r \<le> p \<Longrightarrow> p + m \<le> r + n \<Longrightarrow> new_block own k k' p m"
proof -
  assume a: "new_block own k k' r n" "r \<le> p" "p + m \<le> r + n"
  then have "{p..<p + m} \<subseteq> {r..<r + n}" by auto
  with a(1) have "{p..<p + m} \<inter> own k = {}" "own k \<union> {p..<p + m} \<subseteq> own k'"
    unfolding new_block_def by blast+
  moreover have "0 < p" "p + m \<le> 2 ^ 47" using a unfolding new_block_def by linarith+
  ultimately show ?thesis by (simp add: new_block_def)
qed

lemma new_block_before: "own k \<subseteq> own k1 \<Longrightarrow> new_block own k1 k' r n \<Longrightarrow> new_block own k k' r n"
  unfolding new_block_def by blast

lemma new_block_owns: "new_block own k k' r n \<Longrightarrow> own k \<subseteq> own k'"
  by (simp add: new_block_def)

lemma new_block_join:
  assumes "new_block own k k1 r n" "new_block own k1 k' (r + n) m" "0 \<le> n" "0 \<le> m"
  shows "new_block own k k' r (n + m)"
proof -
  have "{r..<r + (n + m)} = {r..<r + n} \<union> {r + n..<r + n + m}"
    using assms(3,4) by (simp add: ivl_disj_un_two(3) add.assoc)
  with assms(1,2) show ?thesis by (auto simp: new_block_def)
qed

lemma new_block_trim:
  assumes "new_block own k k1 r n" "own k1 - {a..<b} \<subseteq> own k'" "{a..<b} \<subseteq> {r..<r + n}"
    "r \<le> p" "p + m \<le> r + n" "{p..<p + m} \<inter> {a..<b} = {}"
  shows "new_block own k k' p m"
proof -
  have sub: "{p..<p + m} \<subseteq> {r..<r + n}" using assms(4,5) by auto
  then have "own k \<union> {p..<p + m} \<subseteq> own k1 - {a..<b}"
    using assms(1,3,6) unfolding new_block_def by blast
  with assms(2) have "own k \<union> {p..<p + m} \<subseteq> own k'" by blast
  moreover have "new_block own k k1 p m" using assms(1,4,5) by (rule new_block_sub)
  ultimately show ?thesis by (simp add: new_block_def)
qed

text \<open>The rounded size: exact unless the sum wraps around, and then smaller than the size asked for.\<close>

lemma rounded_size:
  assumes "0 < sz" "sz < 2 ^ 64" "0 < al" "al \<le> 2 ^ 63"
  defines "r \<equiv> to_size_t (to_size_t (sz + al - 1) div al * al)"
  shows "sz + al - 1 < 2 ^ 64 \<Longrightarrow> r = round_up sz al" "\<not> sz + al - 1 < 2 ^ 64 \<Longrightarrow> r < sz"
proof -
  assume l: "sz + al - 1 < 2 ^ 64"
  then have "to_size_t (sz + al - 1) = sz + al - 1" using assms by (intro to_size_t_id) auto
  moreover have "0 \<le> round_up sz al" using round_up_ge [of al sz] assms by linarith
  moreover have "round_up sz al < 2 ^ 64"
    using l div_mult_mod_eq [of "sz + al - 1" al] pos_mod_sign [of al "sz + al - 1"] assms
    unfolding round_up_def by linarith
  ultimately show "r = round_up sz al" by (simp add: r_def round_up_def to_size_t_id)
next
  assume l: "\<not> sz + al - 1 < 2 ^ 64"
  have "(sz + al - 1) mod 2 ^ 64 = (sz + al - 1 - 2 ^ 64) mod 2 ^ 64" by (rule minus_mod_self2 [symmetric])
  also have "\<dots> = sz + al - 1 - 2 ^ 64" using l assms by (intro mod_pos_pos_trivial) auto
  finally have "to_size_t (sz + al - 1) = sz + al - 1 - 2 ^ 64" by (simp add: to_size_t_def)
  moreover have "(sz + al - 1 - 2 ^ 64) div al = 0" using l assms by (intro div_pos_pos_trivial) auto
  ultimately show "r < sz" using assms by (simp add: r_def to_size_t_def)
qed

lemma pow_le_63: "0 < sz \<Longrightarrow> sz + (2 :: int) ^ a < 2 ^ 64 \<Longrightarrow> (2 :: int) ^ a \<le> 2 ^ 63"
proof -
  assume "0 < sz" "sz + (2 :: int) ^ a < 2 ^ 64"
  then have "(2 :: int) ^ a < 2 ^ 64" by linarith
  then have "a < 64" by (rule power_less_imp_less_exp [rotated]) simp
  then show ?thesis by (intro power_increasing) auto
qed

text \<open>Room for the alignment, as the comment in the code argues.\<close>

lemma round_up_room:
  assumes "0 < sz" "sz + 2 ^ a < (2 ^ 64 :: int)"
  shows "round_up sz (2 ^ a) \<le> 2 ^ 64 - 2 ^ a"
proof -
  let ?al = "2 ^ a :: int" and ?q = "(sz + 2 ^ a - 1) div 2 ^ a"
  have "(2 :: int) ^ a < 2 ^ 64" using assms by linarith
  then have "a < 64" by (rule power_less_imp_less_exp [rotated]) simp
  then have c: "(2 :: int) ^ 64 = 2 ^ (64 - a) * ?al" by (simp flip: power_add)
  have "?q * ?al < 2 ^ (64 - a) * ?al" using round_up_less [of ?al sz] assms c by (simp add: round_up_def)
  then have "?q \<le> 2 ^ (64 - a) - 1" by simp
  then have "?q * ?al \<le> (2 ^ (64 - a) - 1) * ?al" by (intro mult_right_mono) simp_all
  then show ?thesis using c by (simp add: round_up_def algebra_simps)
qed

lemma granted_intro:
  "p mod al = 0 \<Longrightarrow> 0 < al \<Longrightarrow> new_block own k k' p (round_up sz al) \<Longrightarrow> granted own sz al p (round_up sz al) k k'"
  by (simp add: granted_def round_up_ge)

text \<open>Finding an aligned block by asking for more, in the two ways the code does.\<close>

lemma aligned_in_block:
  assumes "new_block own k k' r (n + 2 ^ a - 1)" "0 \<le> n"
  shows "new_block own k k' (r + align_adjust r (2 ^ a)) n" "(r + align_adjust r (2 ^ a)) mod 2 ^ a = 0"
  using align_adjust_props [OF refl, of r a] new_block_sub [OF assms(1), of "r + align_adjust r (2 ^ a)" n]
  by simp_all

lemma sbrk_alloc_grants:
  assumes os: "mem_os env own" and sz: "0 < sz" "sz + 2 ^ a < 2 ^ 64"
    and run: "sbrk_alloc env sz (2 ^ a) ss k = (res, ss', k')"
  shows "ss' = ss \<and> (case res of None \<Rightarrow> own k \<subseteq> own k' | Some (p, n) \<Rightarrow> granted own sz (2 ^ a) p n k k')"
proof -
  let ?al = "2 ^ a :: int" and ?n = "round_up sz (2 ^ a)"
  have al: "0 < ?al" "?al \<le> 2 ^ 63" using pow_le_63 sz by auto
  have n: "to_size_t (to_size_t (sz + ?al - 1) div ?al * ?al) = ?n" using rounded_size(1) [of sz ?al] al sz by simp
  have n0: "0 \<le> ?n" using round_up_ge [of ?al sz] al sz by simp
  obtain brk k1 where b: "os_sbrk env 0 k = (brk, k1)" by fastforce
  have o1: "own k \<subseteq> own k1" using mem_os_sbrk [OF os _ b] by (auto simp: new_block_def)
  obtain r k2 where r: "os_sbrk env ?n k1 = (r, k2)" by fastforce
  note s2 = mem_os_sbrk [OF os n0 r]
  define ex where "ex = ?al - (r AND (?al - 1))"
  obtain r2 k3 where r2: "os_sbrk env ex k2 = (r2, k3)" by fastforce
  have ex: "0 \<le> ex" using pos_mod_bound [of ?al r] al unfolding ex_def and_mask by linarith
  note s3 = mem_os_sbrk [OF os ex r2]
  obtain r3 k4 where r3: "os_sbrk env (?n + ?al - 1) k3 = (r3, k4)" by fastforce
  note s4 = mem_os_sbrk [OF os _ r3]
  have e: "sbrk_alloc env sz ?al ss k =
      (if skip_sbrk env then (None, ss, k) else if to_size_t (sz + ?al) \<ge> 2 ^ 63 then (None, ss, k)
       else if to_size_t (brk + ?n) < ?n then (None, ss, k1) else if r = ptr_minus_one then (None, ss, k2)
       else if r AND (?al - 1) = 0 then (Some (r, ?n), ss, k2)
       else if r2 = to_size_t (r + ?n) then (Some (r + ex, ?n), ss, k3)
       else if r3 = ptr_minus_one then (None, ss, k4) else (Some (r3 + align_adjust r3 ?al, ?n), ss, k4))"
    unfolding sbrk_alloc_def Let_def n b prod.case r ex_def [symmetric] r2 r3 ..
  show ?thesis
  proof (cases "skip_sbrk env \<or> to_size_t (sz + ?al) \<ge> 2 ^ 63 \<or> to_size_t (brk + ?n) < ?n \<or> r = ptr_minus_one")
    case True
    have f: "\<exists>k''. sbrk_alloc env sz ?al ss k = (None, ss, k'') \<and> own k \<subseteq> own k''"
    proof (cases "skip_sbrk env \<or> to_size_t (sz + ?al) \<ge> 2 ^ 63 \<or> to_size_t (brk + ?n) < ?n")
      case t: True
      then show ?thesis using o1 unfolding e by (cases "skip_sbrk env"; cases "to_size_t (sz + ?al) \<ge> 2 ^ 63") simp_all
    next
      case False
      with True have "r = ptr_minus_one" by blast
      then show ?thesis using False s2 o1 unfolding e by auto
    qed
    then show ?thesis using run by auto
  next
    case False
    then have "new_block own k1 k2 r ?n" using s2 by blast
    with o1 have nb: "new_block own k k2 r ?n" by (rule new_block_before)
    then have o2: "own k \<subseteq> own k2" by (rule new_block_owns)
    have o3: "own k \<subseteq> own k3" using s3 o2 by (auto simp: new_block_def)
    consider "r AND (?al - 1) = 0" | "r AND (?al - 1) \<noteq> 0" "r2 = to_size_t (r + ?n)"
      | "r AND (?al - 1) \<noteq> 0" "r2 \<noteq> to_size_t (r + ?n)" by blast
    then show ?thesis
    proof cases
      case 1
      then have "res = Some (r, ?n)" "ss' = ss" "k' = k2"
        using run False unfolding e by simp_all
      with 1 nb al show ?thesis by (auto simp: and_mask intro!: granted_intro)
    next
      case 2
      have "0 < r" "r + ?n \<le> 2 ^ 47" using nb by (simp_all add: new_block_def)
      then have w: "to_size_t (r + ?n) = r + ?n" using n0 by (intro to_size_t_id) auto
      then have "r2 \<noteq> ptr_minus_one" using 2(2) \<open>r + ?n \<le> 2 ^ 47\<close> by (simp add: ptr_minus_one_def)
      with s3 2(2) w have nb2: "new_block own k k3 r (?n + ex)" using nb n0 ex by (auto intro: new_block_join)
      have adj: "align_adjust r ?al = ex" using 2(1) by (simp add: align_adjust_def ex_def)
      have "res = Some (r + ex, ?n)" "ss' = ss" "k' = k3"
        using run False 2 unfolding e by simp_all
      moreover have "granted own sz ?al (r + ex) ?n k k3"
        using new_block_sub [OF nb2, of "r + ex" ?n] ex align_adjust_props(3) [OF refl, of r a] adj al
        by (auto intro!: granted_intro)
      ultimately show ?thesis by simp
    next
      case 3
      have e3: "sbrk_alloc env sz ?al ss k =
          (if r3 = ptr_minus_one then (None, ss, k4) else (Some (r3 + align_adjust r3 ?al, ?n), ss, k4))"
        using False 3 unfolding e by simp
      show ?thesis
      proof (cases "r3 = ptr_minus_one")
        case True
        with e3 run s4 o3 n0 al show ?thesis by auto
      next
        case nf: False
        have nb3: "new_block own k k4 r3 (?n + ?al - 1)" using s4 nf n0 al by (intro new_block_before [where own = own, OF o3]) simp
        note nb4 = aligned_in_block [OF nb3 n0]
        with e3 run nf al show ?thesis by (auto intro!: granted_intro)
      qed
    qed
  qed
qed

lemma mmap_alloc_grants:
  assumes os: "mem_os env own" and ok: "sys_ok env ss" and sz: "0 < sz" "sz + 2 ^ a < 2 ^ 64"
    and run: "mmap_alloc env sz (2 ^ a) ss k = (res, ss', k')"
  shows "(ss' = ss \<or> ss' = ss\<lparr>ss_pagesize := os_getpagesize env\<rparr>) \<and>
    (case res of None \<Rightarrow> own k \<subseteq> own k' | Some (p, n) \<Rightarrow> granted own sz (2 ^ a) p n k k')"
proof (cases "skip_mmap env")
  case True
  then show ?thesis using run by (auto simp: mmap_alloc_def)
next
  case noskip: False
  obtain j where j: "6 \<le> j" "j \<le> 13" "os_getpagesize env = 2 ^ j" using mem_os_pagesize [OF os] by blast
  define s1 where "s1 = (if ss_pagesize ss = 0 then ss\<lparr>ss_pagesize := os_getpagesize env\<rparr> else ss)"
  have ps: "ss_pagesize s1 = 2 ^ j" using ok j by (auto simp: s1_def sys_ok_def)
  define b where "b = max a j"
  let ?al = "2 ^ b :: int" and ?n = "round_up sz (2 ^ b)"
  have al_eq: "(if (2 :: int) ^ a < 2 ^ j then 2 ^ j else 2 ^ a) = ?al" by (auto simp: b_def max_def)
  have "(2 :: int) ^ j \<le> 2 ^ 63" using j by (intro power_increasing) auto
  then have al: "0 < ?al" "?al \<le> 2 ^ 63" using pow_le_63 [OF sz] by (auto simp: b_def max_def)
  define ex where "ex = (if ?al > 2 ^ j then ?al - 2 ^ j else 0 :: int)"
  define n where "n = to_size_t (to_size_t (sz + ?al - 1) div ?al * ?al)"
  obtain r k1 where r: "os_mmap env (to_size_t (n + ex)) k = (r, k1)" by fastforce
  note m = mem_os_mmap [OF os to_size_t_nonneg r]
  define adj where "adj = align_adjust r ?al"
  define k2 where "k2 = (if adj > 0 then os_munmap env r adj k1 else k1)"
  define k3 where "k3 = (if adj < ex then os_munmap env (r + adj + n) (ex - adj) k2 else k2)"
  have e: "mmap_alloc env sz (2 ^ a) ss k =
      (if n < sz then (None, s1, k) else if r = ptr_minus_one then (None, s1, k1) else (Some (r + adj, n), s1, k3))"
    unfolding mmap_alloc_def Let_def if_not_P [OF noskip] s1_def [symmetric] ps al_eq n_def [symmetric]
      ex_def [symmetric] r prod.case adj_def [symmetric] k2_def [symmetric] k3_def [symmetric] by simp
  show ?thesis
  proof (cases "n < sz \<or> r = ptr_minus_one")
    case True
    then show ?thesis using e run m by (auto simp: s1_def split: if_splits)
  next
    case False
    have lt: "sz + ?al - 1 < 2 ^ 64" 
    proof (rule ccontr)
      have "sz < 2 ^ 64" using sz zero_less_power [of "2 :: int" a] by linarith
      moreover assume "\<not> sz + ?al - 1 < 2 ^ 64"
      ultimately have "n < sz" unfolding n_def using rounded_size(2) al sz(1) by blast
      with False show False by blast
    qed
    then have n: "n = ?n" using rounded_size(1) [of sz ?al] al sz by (simp add: n_def)
    have ex0: "0 \<le> ex" by (simp add: ex_def)
    have adj: "0 \<le> adj" "adj < ?al" "(r + adj) mod ?al = 0" using align_adjust_props [OF refl, of r b] by (simp_all add: adj_def)
    have adj_ex: "adj \<le> ex"
    proof (cases "?al > 2 ^ j")
      case True
      then have "?al = 2 ^ j * 2 ^ (b - j)" by (simp add: b_def flip: power_add)
      then show ?thesis using align_adjust_mult [of ?al b r "2 ^ j"] m False j(3) True by (simp add: adj_def ex_def)
    next
      case eq: False
      then have "?al = 2 ^ j" by (auto simp: b_def max_def split: if_splits)
      then show ?thesis using m False j(3) and_mask [of r j] by (simp add: adj_def align_adjust_def ex0)
    qed
    have w: "to_size_t (n + ex) = n + ex"
    proof (intro to_size_t_id)
      show "0 \<le> n + ex" using False sz ex0 by simp
      show "n + ex < 2 ^ 64"
      proof (cases "?al > 2 ^ j")
        case True
        then have "b = a" by (auto simp: b_def max_def split: if_splits)
        then have "n \<le> 2 ^ 64 - ?al" using round_up_room [of sz b] sz n by simp
        then show ?thesis using zero_less_power [of "2 :: int" j] unfolding ex_def if_P [OF True] by linarith
      qed (use n lt round_up_less [of ?al sz] al in \<open>simp add: ex_def\<close>)
    qed
    have nb: "new_block own k k1 r (n + ex)" using m False w by simp
    have "new_block own k k2 (r + adj) (n + ex - adj)"
    proof (cases "adj > 0")
      case True
      then show ?thesis unfolding k2_def if_P [OF True]
        by (intro new_block_trim [OF nb mem_os_munmap [OF os]]) (use adj_ex n False sz in auto)
    next
      case False
      then show ?thesis using nb adj by (simp add: k2_def)
    qed
    then have "new_block own k k3 (r + adj) n" if "adj < ex"
      unfolding k3_def if_P [OF that]
      by (rule new_block_trim [where own = own, OF _ mem_os_munmap [OF os, of k2 "r + adj + n" "ex - adj"]])
        (use that False sz in auto)
    moreover have "new_block own k k3 (r + adj) n" if "\<not> adj < ex"
      using \<open>new_block own k k2 (r + adj) (n + ex - adj)\<close> that adj_ex by (simp add: k3_def)
    ultimately have "new_block own k k3 (r + adj) n" by blast
    moreover have "(2 :: int) ^ a dvd ?al" by (rule le_imp_power_dvd) (simp add: b_def)
    then have "(r + adj) mod 2 ^ a = 0" "n mod 2 ^ a = 0"
      using adj(3) round_up_mod [of sz ?al] unfolding n mod_eq_0_iff_dvd by (auto intro: dvd_trans)
    ultimately have "granted own sz (2 ^ a) (r + adj) n k k3" using False by (simp add: granted_def)
    then show ?thesis using e run False by (auto simp: s1_def)
  qed
qed

lemma child_alloc_grants:
  assumes "mem_os env own" "sys_ok env ss" "0 < sz" "sz + 2 ^ a < 2 ^ 64"
    "child_alloc_fun c env sz (2 ^ a) ss k = (res, ss', k')"
  shows "(ss' = ss \<or> ss' = ss\<lparr>ss_pagesize := os_getpagesize env\<rparr>) \<and>
    (case res of None \<Rightarrow> own k \<subseteq> own k' | Some (p, n) \<Rightarrow> granted own sz (2 ^ a) p n k k')"
  using assms sbrk_alloc_grants [OF assms(1,3,4), of ss k res ss' k'] mmap_alloc_grants [OF assms(1-4), of k res ss' k']
  by (cases c) (auto simp: child_alloc_fun_def)

lemma sys_ok_page [simp]: "sys_ok env ss \<Longrightarrow> sys_ok env (ss\<lparr>ss_pagesize := os_getpagesize env\<rparr>)"
  by (simp add: sys_ok_def)

lemma granted_before: "own k \<subseteq> own k1 \<Longrightarrow> granted own sz al p n k1 k' \<Longrightarrow> granted own sz al p n k k'"
  unfolding granted_def using new_block_before [where own = own] by blast

lemma default_loop_grants:
  assumes "mem_os env own" "sys_ok env ss" "ss_inited ss" "0 < sz" "sz + 2 ^ a < 2 ^ 64"
    "default_loop env is sz (2 ^ a) ss k = (res, ss', k')"
  shows "sys_ok env ss' \<and> ss_inited ss' \<and> ss_taken ss' = ss_taken ss \<and>
     (case res of None \<Rightarrow> own k \<subseteq> own k' | Some (p, n) \<Rightarrow> granted own sz (2 ^ a) p n k k')"
  using assms(2,3,6)
proof (induction "is" arbitrary: ss k)
  case Nil
  then show ?case by (auto simp: sys_ok_def)
next
  case (Cons i "is")
  show ?case
  proof (cases "\<not> ss_failed ss ! i \<and> ss_allocs ss ! i \<noteq> None")
    case False
    then show ?thesis using Cons by (auto split: bool.splits option.splits)
  next
    case True
    then obtain c where c: "ss_failed ss ! i = False" "ss_allocs ss ! i = Some c" by auto
    obtain r s1 k1 where run: "child_alloc_fun c env sz (2 ^ a) ss k = (r, s1, k1)" by (metis prod_cases3)
    note g = child_alloc_grants [OF assms(1) Cons.prems(1) assms(4,5) run]
    then have s1: "sys_ok env s1" "ss_inited s1" "ss_taken s1 = ss_taken ss" using Cons.prems(1,2) by auto
    show ?thesis
    proof (cases r)
      case (Some pn)
      then show ?thesis using Cons.prems(3) c run g s1 by auto
    next
      case None
      let ?s = "s1\<lparr>ss_failed := (ss_failed s1)[i := True]\<rparr>"
      have "sys_ok env ?s" "ss_inited ?s" using s1 by (auto simp: sys_ok_def)
      moreover have "default_loop env is sz (2 ^ a) ?s k1 = (res, ss', k')"
        using Cons.prems(3) c run None by simp
      ultimately have ih: "sys_ok env ss' \<and> ss_inited ss' \<and> ss_taken ss' = ss_taken ?s \<and>
         (case res of None \<Rightarrow> own k1 \<subseteq> own k' | Some (p, n) \<Rightarrow> granted own sz (2 ^ a) p n k1 k')"
        by (rule Cons.IH)
      have "own k \<subseteq> own k1" using g None by simp
      with ih s1 show ?thesis by (auto split: option.splits intro: granted_before [where own = own])
    qed
  qed
qed

interpretation sbrk_sys: sys_allocator sbrk_alloc
proof
  fix env :: "'k tc_env" and own ss sz a k res ss' k'
  assume "mem_os env own" "sys_ok env ss" "ss_inited ss" "0 < sz" "sz + 2 ^ a < 2 ^ 64"
    "sbrk_alloc env sz (2 ^ a) ss k = (res, ss', k')"
  then show "sys_ok env ss' \<and> ss_inited ss' \<and> ss_taken ss' = ss_taken ss \<and>
     (case res of None \<Rightarrow> own k \<subseteq> own k' | Some (p, n) \<Rightarrow> granted own sz (2 ^ a) p n k k')"
    using sbrk_alloc_grants [of env own sz a ss k res ss' k'] by simp
qed

interpretation mmap_sys: sys_allocator mmap_alloc
proof
  fix env :: "'k tc_env" and own ss sz a k res ss' k'
  assume "mem_os env own" "sys_ok env ss" "ss_inited ss" "0 < sz" "sz + 2 ^ a < 2 ^ 64"
    "mmap_alloc env sz (2 ^ a) ss k = (res, ss', k')"
  then show "sys_ok env ss' \<and> ss_inited ss' \<and> ss_taken ss' = ss_taken ss \<and>
     (case res of None \<Rightarrow> own k \<subseteq> own k' | Some (p, n) \<Rightarrow> granted own sz (2 ^ a) p n k k')"
    using mmap_alloc_grants [of env own ss sz a k res ss' k'] by auto
qed

interpretation default_sys: sys_allocator default_alloc
  by unfold_locales (rule default_loop_grants, auto simp: default_alloc_def)

section \<open>The entry points\<close>

lemma sys_ok_init: "sys_ok env ss \<Longrightarrow> sys_ok env ((InitSystemAllocators ss)\<lparr>ss_inited := True\<rparr>)"
  by (simp add: sys_ok_def InitSystemAllocators_def SetChildAllocator_def default_new_def)

lemma CheckAddressBits_block:
  assumes "new_block own k k' p n" "0 < n"
  shows "CheckAddressBits (to_size_t (p + n - 1))"
proof -
  have r: "0 < p" "p + n \<le> 2 ^ 47" using assms(1) by (simp_all add: new_block_def)
  with assms(2) have "to_size_t (p + n - 1) = p + n - 1" by (intro to_size_t_id) auto
  moreover have "(p + n - 1) div 2 ^ 48 = 0" using r assms(2) by (intro div_pos_pos_trivial) auto
  ultimately show ?thesis by (simp add: CheckAddressBits_def kAddressBits_def drop_bit_eq_div)
qed

lemma pow_6: "6 \<le> a \<Longrightarrow> (64 :: int) \<le> 2 ^ a"
  using power_increasing [of 6 a "2 :: int"] by simp

lemma SystemAlloc_grants:
  assumes "mem_os env own" "sys_ok env ss" "0 < sz" "sz + 2 ^ a < 2 ^ 64" "6 \<le> a"
  shows "\<exists>res ss' k'. TCMalloc_SystemAlloc env sz (2 ^ a) ss k = Inr (res, ss', k') \<and>
    sys_ok env ss' \<and> ss_inited ss' \<and>
    (case res of None \<Rightarrow> own k \<subseteq> own k' \<and> ss_taken ss' = ss_taken ss
     | Some (p, n) \<Rightarrow> p mod 2 ^ a = 0 \<and> sz \<le> n \<and> n mod 2 ^ a = 0 \<and> new_block own k k' p n \<and>
         ss_taken ss' = to_size_t (ss_taken ss + n))"
proof -
  define s1 where "s1 = (if ss_inited ss then ss else (InitSystemAllocators ss)\<lparr>ss_inited := True\<rparr>)"
  have s1: "sys_ok env s1" "ss_inited s1" "ss_taken s1 = ss_taken ss"
    using sys_ok_init [OF assms(2)] assms(2)
    by (auto simp: s1_def InitSystemAllocators_def SetChildAllocator_def default_new_def)
  obtain res s2 k2 where run: "default_alloc env sz (2 ^ a) s1 k = (res, s2, k2)" by (metis prod_cases3)
  note g = default_sys.alloc_grants [OF assms(1) s1(1,2) assms(3,4,5) run]
  have w: "\<not> to_size_t (sz + 2 ^ a) < sz" using to_size_t_id [of "sz + 2 ^ a"] assms(3,4) by simp
  have e: "TCMalloc_SystemAlloc env sz (2 ^ a) ss k =
     (case res of None \<Rightarrow> Inr (None, s2, k2) | Some (ptr, actual) \<Rightarrow>
        check (CheckAddressBits (to_size_t (ptr + actual - 1)))
          (Inr (Some (ptr, actual), s2\<lparr>ss_taken := to_size_t (ss_taken s2 + actual)\<rparr>, k2)))"
    using run w pow_6 [OF assms(5)]
    by (simp add: TCMalloc_SystemAlloc_def Let_def sizeof_MemoryAligner_def s1_def [symmetric] split: option.splits)
  show ?thesis
  proof (cases res)
    case None
    with e g s1 show ?thesis by auto
  next
    case (Some pn)
    obtain p n where pn: "pn = (p, n)" by fastforce
    have gr: "granted own sz (2 ^ a) p n k k2" using g Some pn by simp
    then have "CheckAddressBits (to_size_t (p + n - 1))"
      using assms(3) by (intro CheckAddressBits_block) (auto simp: granted_def)
    moreover have "sys_ok env (s2\<lparr>ss_taken := t\<rparr>)" for t using g by (simp add: sys_ok_def)
    ultimately show ?thesis using e Some pn g gr s1 by (simp add: granted_def)
  qed
qed

text \<open>\<open>TCMalloc_SystemRelease\<close>: it needs that \<open>madvise\<close> does not report \<open>EAGAIN\<close> forever.\<close>

definition madvise_ends :: "'k tc_env \<Rightarrow> bool" where
  "madvise_ends env \<longleftrightarrow> (\<forall>a n k. madvise_loop env a n k \<noteq> None)"

lemma madvise_loop_owns:
  assumes os: "mem_os env own" and run: "madvise_loop env a n k = Some (ret, k')"
  shows "own k \<subseteq> own k'"
proof -
  have "mem_os env own \<longrightarrow> own k \<subseteq> own (snd (ret, k'))"
  proof (rule madvise_loop.raw_induct [OF _ run, where P = "\<lambda>env a n k y. mem_os env own \<longrightarrow> own k \<subseteq> own (snd y)"])
    fix f :: "'a tc_env \<Rightarrow> int \<Rightarrow> int \<Rightarrow> 'a \<Rightarrow> (int \<times> 'a) option" and env start len k y
    assume ih: "\<And>env start len k y. f env start len k = Some y \<Longrightarrow> mem_os env own \<longrightarrow> own k \<subseteq> own (snd y)"
      and step: "(case os_madvise env start len k of
        ((ret, again), k') \<Rightarrow> if ret = - 1 \<and> again then f env start len k' else Some (ret, k')) = Some y"
    obtain ret again k1 where m: "os_madvise env start len k = ((ret, again), k1)" by (metis surj_pair)
    show "mem_os env own \<longrightarrow> own k \<subseteq> own (snd y)"
    proof
      assume os: "mem_os env own"
      then have "own k \<subseteq> own k1" using m by (rule mem_os_madvise)
      moreover have "own k1 \<subseteq> own (snd y)" using step m ih os by (auto split: if_splits)
      ultimately show "own k \<subseteq> own (snd y)" by blast
    qed
  qed
  with os show ?thesis by simp
qed

lemma SystemRelease_ok:
  assumes "mem_os env own" "madvise_ends env" "sys_ok env ss" "0 \<le> start" "0 \<le> len" "start + len \<le> 2 ^ 47"
  shows "\<exists>b ss' k'. TCMalloc_SystemRelease env start len ss k = Inr (b, ss', k') \<and>
    sys_ok env ss' \<and> ss_inited ss' = ss_inited ss \<and> ss_taken ss' = ss_taken ss \<and> own k \<subseteq> own k'"
proof (cases "devmem_start env \<noteq> 0 \<or> disable_memory_release env")
  case True
  then show ?thesis using assms(3) by (auto simp: TCMalloc_SystemRelease_def)
next
  case False
  obtain j where j: "j \<le> 13" "os_getpagesize env = 2 ^ j" using mem_os_pagesize [OF assms(1)] by blast
  define s1 where "s1 = (if ss_pagesize ss = 0 then ss\<lparr>ss_pagesize := os_getpagesize env\<rparr> else ss)"
  have s1: "sys_ok env s1" "ss_pagesize s1 = 2 ^ j" "ss_inited s1 = ss_inited ss" "ss_taken s1 = ss_taken ss"
    using assms(3) j by (auto simp: s1_def sys_ok_def)
  have p: "(2 :: int) ^ j \<le> 2 ^ 13" using j by (intro power_increasing) auto
  have p1: "(1 :: int) \<le> 2 ^ j" by simp
  have w1: "to_size_t (start + len) = start + len" using assms(4-6) by (intro to_size_t_id) auto
  have "0 \<le> start + 2 ^ j - 1" using assms(4) p1 by linarith
  moreover have "start + 2 ^ j - 1 < 2 ^ 47 + 2 ^ 13" using assms(4-6) p by linarith
  then have "start + 2 ^ j - 1 < 2 ^ 64" by simp
  ultimately have w2: "to_size_t (start + 2 ^ j - 1) = start + 2 ^ j - 1" by (rule to_size_t_id)
  have up: "start \<le> (start + 2 ^ j - 1) div 2 ^ j * 2 ^ j" using round_up_ge [of "2 ^ j" start] by (simp add: round_up_def)
  have dn: "(start + len) div 2 ^ j * 2 ^ j \<le> start + len" 
    using div_mult_mod_eq [of "start + len" "2 ^ j"] pos_mod_sign [of "2 ^ j" "start + len"] p1 by linarith
  define a b where "a = (start + 2 ^ j - 1) div 2 ^ j * 2 ^ j" and "b = (start + len) div 2 ^ j * 2 ^ j"
  have e: "TCMalloc_SystemRelease env start len ss k =
     (if b > a then (case madvise_loop env a (b - a) k of None \<Rightarrow> Inl Diverges | Some (ret, k') \<Rightarrow> Inr (ret \<noteq> - 1, s1, k'))
      else Inr (False, s1, k))"
    using False up dn w1 w2
    by (simp add: TCMalloc_SystemRelease_def Let_def s1_def [symmetric] s1(2) and_not_mask and_mask a_def [symmetric] b_def [symmetric])
       (simp add: a_def b_def)
  show ?thesis
  proof (cases "b > a")
    case True
    then obtain ret k' where m: "madvise_loop env a (b - a) k = Some (ret, k')"
      using assms(2) unfolding madvise_ends_def by fastforce
    then have "own k \<subseteq> own k'" by (rule madvise_loop_owns [OF assms(1)])
    with e True m s1 show ?thesis by auto
  qed (use e s1 in auto)
qed

section \<open>A concrete operating system\<close>

text \<open>
  The break grows upwards from where it is, \<open>mmap\<close> always fails and \<open>madvise\<close> always succeeds. It
  instantiates the parameters in the witnesses.
\<close>

definition bump_env :: "int tc_env" where
  "bump_env = \<lparr>skip_sbrk = False, skip_mmap = False, disable_memory_release = False, devmem_start = 0,
     heap_limit_mb = 0, release_rate = 1, os_getpagesize = 4096,
     os_sbrk = (\<lambda>n k. if 0 < k \<and> k + n \<le> 2 ^ 47 then (k, k + n) else (ptr_minus_one, k)),
     os_mmap = (\<lambda>n k. (ptr_minus_one, k)), os_munmap = (\<lambda>a n k. k), os_madvise = (\<lambda>a n k. ((0, False), k))\<rparr>"

definition bump_own :: "int \<Rightarrow> addr set" where "bump_own k = {0<..<k}"

definition sys_state_new :: sys_state where
  "sys_state_new = \<lparr>ss_pagesize = 0, ss_inited = False, ss_failed = [], ss_allocs = [], ss_taken = 0\<rparr>"

lemma bump_mem_os: "mem_os bump_env bump_own"
  unfolding mem_os_def by (auto simp: bump_env_def bump_own_def new_block_def ptr_minus_one_def intro: exI [of _ 12])

lemma bump_madvise_ends: "madvise_ends bump_env"
  by (simp add: madvise_ends_def madvise_loop.simps bump_env_def)

lemma sys_state_new_ok: "sys_ok env sys_state_new"
  by (simp add: sys_ok_def sys_state_new_def)

text \<open>
  C36: \<open>TCMalloc_SystemAlloc\<close> keeps its documented contract. For a power-of-two alignment of at least a
  cache line and a request that does not overflow, it never fails a check, and it either returns null and
  takes no memory away from the process, or returns an aligned block, at least as long as asked for, of memory
  that the process did not own before and owns afterwards, and adds its length to \<open>TCMalloc_SystemTaken\<close>. This
  holds whichever of \<open>sbrk\<close> and \<open>mmap\<close> serves the request, and whichever way the block is aligned.
\<close>

theorem system_alloc_grants:
  assumes "mem_os env own" "sys_ok env ss" "0 < sz" "sz + 2 ^ a < 2 ^ 64" "6 \<le> a"
  shows "\<exists>res ss' k'. TCMalloc_SystemAlloc env sz (2 ^ a) ss k = Inr (res, ss', k') \<and>
    sys_ok env ss' \<and> ss_inited ss' \<and>
    (case res of None \<Rightarrow> own k \<subseteq> own k' \<and> ss_taken ss' = ss_taken ss
     | Some (p, n) \<Rightarrow> p mod 2 ^ a = 0 \<and> sz \<le> n \<and> n mod 2 ^ a = 0 \<and> new_block own k k' p n \<and>
         ss_taken ss' = to_size_t (ss_taken ss + n))"
  using assms by (rule SystemAlloc_grants)

theorem system_alloc_grants_witness:
  "TCMalloc_SystemAlloc bump_env 1000 (2 ^ 13) sys_state_new 5000 =
     Inr (Some (8192, 8192), \<lparr>ss_pagesize = 4096, ss_inited = True, ss_failed = [True, False],
       ss_allocs = [Some MmapSysAllocator, Some SbrkSysAllocator], ss_taken = 8192\<rparr>, 16384) \<and>
   new_block bump_own 5000 16384 8192 8192"
proof -
  have e: "TCMalloc_SystemAlloc bump_env 1000 (2 ^ 13) sys_state_new 5000 =
     Inr (Some (8192, 8192), \<lparr>ss_pagesize = 4096, ss_inited = True, ss_failed = [True, False],
       ss_allocs = [Some MmapSysAllocator, Some SbrkSysAllocator], ss_taken = 8192\<rparr>, 16384)"
    by code_simp
  show ?thesis
    using system_alloc_grants [OF bump_mem_os sys_state_new_ok, of 1000 13 5000] unfolding e by simp
qed

end
