(* ===== verification/Linked_List.thy ===== *)
theory Linked_List
  imports Tc_Prelude
begin

text \<open>
  The intrusive singly linked lists of the allocator: src/libs/tcmalloc/src/linked_list.h. A free
  object holds the address of the next free object in its first word, and NULL (0) ends a list. The
  store gives the word at each address that may be accessed; reading or writing any other address is an
  error. \<open>sll h p xs\<close> says that the list that starts at \<open>p\<close> links exactly the objects \<open>xs\<close>, and each
  operation is proved against the corresponding operation on \<open>xs\<close>.
\<close>

type_synonym store = "addr \<Rightarrow> addr option"

named_theorems sll_simps "how the list operations act on a linked list"

section \<open>The operations\<close>

definition SLL_Next :: "store \<Rightarrow> addr \<Rightarrow> addr result" where
  "SLL_Next h t = (if t = NULL then Inl NullDeref else case h t of None \<Rightarrow> Inl OutOfBounds | Some n \<Rightarrow> Inr n)"

definition SLL_SetNext :: "store \<Rightarrow> addr \<Rightarrow> addr \<Rightarrow> store result" where
  "SLL_SetNext h t n =
     (if t = NULL then Inl NullDeref else if h t = None then Inl OutOfBounds else Inr (h(t \<mapsto> n)))"

text \<open>The list variable is the first component of a result, the changed store the last.\<close>

definition SLL_Push :: "store \<Rightarrow> addr \<Rightarrow> addr \<Rightarrow> (addr \<times> store) result" where
  "SLL_Push h lst element = bindR (SLL_SetNext h element lst) (\<lambda>h'. Inr (element, h'))"

definition SLL_Pop :: "store \<Rightarrow> addr \<Rightarrow> (addr \<times> addr) result" where
  "SLL_Pop h lst = bindR (SLL_Next h lst) (\<lambda>nxt. Inr (nxt, lst))"

definition SLL_TryPop :: "store \<Rightarrow> addr \<Rightarrow> (addr \<times> addr option) result" where
  "SLL_TryPop h lst =
     (if lst = NULL then Inr (lst, None) else bindR (SLL_Next h lst) (\<lambda>nxt. Inr (nxt, Some lst)))"

text \<open>The loop \<open>for (int i = 1; i < N; ++i) tmp = SLL_Next(tmp)\<close>.\<close>

fun SLL_walk :: "store \<Rightarrow> nat \<Rightarrow> addr \<Rightarrow> addr result" where
  "SLL_walk h 0 tmp = Inr tmp"
| "SLL_walk h (Suc n) tmp = bindR (SLL_Next h tmp) (SLL_walk h n)"

text \<open>\<open>SLL_PopRange\<close>: the new head, the first and last object of the range, the store.\<close>

definition SLL_PopRange :: "store \<Rightarrow> addr \<Rightarrow> int \<Rightarrow> (addr \<times> addr \<times> addr \<times> store) result" where
  "SLL_PopRange h head N =
     (if N = 0 then Inr (head, NULL, NULL, h)
      else bindR (SLL_walk h (nat (N - 1)) head) (\<lambda>tmp.
           bindR (SLL_Next h tmp) (\<lambda>head'.
           bindR (SLL_SetNext h tmp NULL) (\<lambda>h'. Inr (head', head, tmp, h')))))"

definition SLL_PushRange :: "store \<Rightarrow> addr \<Rightarrow> addr \<Rightarrow> addr \<Rightarrow> (addr \<times> store) result" where
  "SLL_PushRange h head start end_ptr =
     (if start = NULL then Inr (head, h)
      else bindR (SLL_SetNext h end_ptr head) (\<lambda>h'. Inr (start, h')))"

text \<open>
  The loop of \<open>SLL_Size\<close> with its \<open>int\<close> counter; on a cyclic list it would overflow the counter, so it
  ends in any case.
\<close>

function SLL_count :: "store \<Rightarrow> addr \<Rightarrow> int \<Rightarrow> int result" where
  "SLL_count h head count =
     (if head = NULL then Inr count
      else if count \<ge> int_max then Inl SignedOverflow
      else bindR (SLL_Next h head) (\<lambda>nxt. SLL_count h nxt (count + 1)))"
  by pat_completeness auto
termination
  by (relation "measure (\<lambda>(h, head, count). nat (int_max - count))") auto

declare SLL_count.simps [simp del]

definition SLL_Size :: "store \<Rightarrow> addr \<Rightarrow> int result" where
  "SLL_Size h head = SLL_count h head 0"

section \<open>Linked lists\<close>

text \<open>\<open>lseg h p xs q\<close>: from \<open>p\<close> the links run through \<open>xs\<close> and arrive at \<open>q\<close>.\<close>

primrec lseg :: "store \<Rightarrow> addr \<Rightarrow> addr list \<Rightarrow> addr \<Rightarrow> bool" where
  "lseg h p [] q \<longleftrightarrow> p = q"
| "lseg h p (x # xs) q \<longleftrightarrow> p = x \<and> x \<noteq> NULL \<and> (case h x of None \<Rightarrow> False | Some n \<Rightarrow> lseg h n xs q)"

abbreviation sll :: "store \<Rightarrow> addr \<Rightarrow> addr list \<Rightarrow> bool" where
  "sll h p xs \<equiv> lseg h p xs NULL"

lemma lseg_append: "lseg h p (xs @ ys) q \<longleftrightarrow> (\<exists>r. lseg h p xs r \<and> lseg h r ys q)"
  by (induction xs arbitrary: p) (auto split: option.splits)

lemma lseg_frame [simp]: "a \<notin> set xs \<Longrightarrow> lseg (h(a := v)) p xs q = lseg h p xs q"
  by (induction xs arbitrary: p) (auto split: option.splits)

lemma lseg_fun: "lseg h p xs q \<Longrightarrow> lseg h p xs r \<Longrightarrow> q = r"
  by (induction xs arbitrary: p) (auto split: option.splits)

lemma lseg_dom: "lseg h p xs q \<Longrightarrow> set xs \<subseteq> dom h - {NULL}"
  by (induction xs arbitrary: p) (auto split: option.splits)

lemma sll_NULL [simp]: "sll h NULL xs \<longleftrightarrow> xs = []"
  by (cases xs) auto

lemma sll_nonnull: "p \<noteq> NULL \<Longrightarrow> sll h p xs \<longleftrightarrow> (\<exists>n ys. xs = p # ys \<and> h p = Some n \<and> sll h n ys)"
  by (cases xs) (auto split: option.splits)

text \<open>The objects of a list are distinct, since following the links from one of them again would never end.\<close>

lemma sll_fun: "sll h p xs \<Longrightarrow> sll h p ys \<Longrightarrow> xs = ys"
proof (induction xs arbitrary: p ys)
  case (Cons x xs)
  then show ?case by (cases ys) (auto split: option.splits)
qed auto

lemma sll_suffix: "sll h p (xs @ x # ys) \<Longrightarrow> sll h x (x # ys)"
  by (auto simp: lseg_append)

lemma sll_distinct: "sll h p xs \<Longrightarrow> distinct xs"
proof (rule ccontr)
  assume l: "sll h p xs" and "\<not> distinct xs"
  then obtain as bs cs x where "xs = as @ [x] @ bs @ [x] @ cs" using not_distinct_decomp by blast
  with l have "sll h x (x # bs @ x # cs)" "sll h x (x # cs)"
    using sll_suffix [of h p as x "bs @ x # cs"] sll_suffix [of h p "as @ x # bs" x cs] by simp_all
  then have "x # bs @ x # cs = x # cs" by (rule sll_fun)
  then have "length (x # bs @ x # cs) = length (x # cs)" by (rule arg_cong)
  then show False by simp
qed

section \<open>The operations on linked lists\<close>

lemma SLL_Next_Inr: "SLL_Next h t = Inr n \<longleftrightarrow> t \<noteq> NULL \<and> h t = Some n"
  by (auto simp: SLL_Next_def split: option.splits)

lemma SLL_SetNext_ok [sll_simps]: "t \<noteq> NULL \<Longrightarrow> t \<in> dom h \<Longrightarrow> SLL_SetNext h t n = Inr (h(t \<mapsto> n))"
  by (auto simp: SLL_SetNext_def)

lemma SLL_Push_sll:
  assumes "sll h p xs" "e \<noteq> NULL" "e \<in> dom h" "e \<notin> set xs"
  shows "SLL_Push h p e = Inr (e, h(e \<mapsto> p))" "sll (h(e \<mapsto> p)) e (e # xs)"
  using assms by (simp_all add: SLL_Push_def sll_simps)

lemma SLL_Pop_sll:
  assumes "sll h p (x # xs)"
  shows "\<exists>n. SLL_Pop h p = Inr (n, x) \<and> sll h n xs"
  using assms by (auto simp: SLL_Pop_def SLL_Next_def split: option.splits)

lemma SLL_TryPop_sll:
  assumes "sll h p xs"
  shows "case xs of [] \<Rightarrow> SLL_TryPop h p = Inr (NULL, None)
         | x # ys \<Rightarrow> \<exists>n. SLL_TryPop h p = Inr (n, Some x) \<and> sll h n ys"
  using assms by (auto simp: SLL_TryPop_def SLL_Next_def split: list.splits option.splits)

lemma SLL_walk_lseg: "lseg h p xs q \<Longrightarrow> SLL_walk h (length xs) p = Inr q"
  by (induction xs arbitrary: p) (auto simp: SLL_Next_def split: option.splits)

lemma SLL_count_sll:
  assumes "sll h p xs" "0 \<le> c" "c + int (length xs) \<le> int_max"
  shows "SLL_count h p c = Inr (c + int (length xs))"
  using assms
proof (induction xs arbitrary: p c)
  case Nil
  then show ?case by (simp add: SLL_count.simps)
next
  case (Cons x xs)
  then obtain n where n: "h x = Some n" "sll h n xs" "p = x" "x \<noteq> NULL" by (auto split: option.splits)
  with Cons.IH [OF n(2), of "c + 1"] Cons.prems show ?case
    by (subst SLL_count.simps) (simp add: SLL_Next_def)
qed

lemma SLL_Size_sll: "sll h p xs \<Longrightarrow> int (length xs) \<le> int_max \<Longrightarrow> SLL_Size h p = Inr (int (length xs))"
  using SLL_count_sll [of h p xs 0] by (simp add: SLL_Size_def)

text \<open>Taking a range off a list: the range and the rest are lists of their own.\<close>

lemma SLL_PopRange_split:
  assumes "sll h p (xs @ x # ys)"
  shows "\<exists>q. h x = Some q \<and> SLL_PopRange h p (int (length xs) + 1) = Inr (q, p, x, h(x \<mapsto> NULL)) \<and>
      sll (h(x \<mapsto> NULL)) p (xs @ [x]) \<and> sll (h(x \<mapsto> NULL)) q ys"
proof -
  obtain q where seg: "lseg h p xs x" and q: "h x = Some q" "sll h q ys" "x \<noteq> NULL"
    using assms by (auto simp: lseg_append split: option.splits)
  have d: "x \<notin> set xs" "x \<notin> set ys" using sll_distinct [OF assms] by auto
  have w: "SLL_walk h (length xs) p = Inr x" using seg by (rule SLL_walk_lseg)
  have "sll (h(x \<mapsto> NULL)) p (xs @ [x])" using seg d q(3) by (auto simp: lseg_append)
  moreover have "SLL_PopRange h p (int (length xs) + 1) = Inr (q, p, x, h(x \<mapsto> NULL))"
    using w q by (auto simp: SLL_PopRange_def SLL_Next_def SLL_SetNext_def)
  ultimately show ?thesis using q d by simp
qed

lemma SLL_PopRange_all:
  assumes "sll h p zs" "0 < n" "n \<le> length zs"
  shows "\<exists>q e h'. SLL_PopRange h p (int n) = Inr (q, p, e, h') \<and> sll h' p (take n zs) \<and> sll h' q (drop n zs) \<and>
     e = last (take n zs) \<and> h' = h(e \<mapsto> NULL)"
proof -
  have "take n zs \<noteq> []" using assms by auto
  then obtain xs x where t: "take n zs = xs @ [x]" by (metis append_butlast_last_id)
  have z: "zs = xs @ x # drop n zs" by (metis append_take_drop_id t append.assoc append_Cons append_Nil)
  have "int (length xs) + 1 = int n" using arg_cong [OF t, of length] assms(3) by simp
  with SLL_PopRange_split [of h p xs x "drop n zs"] assms(1) z t show ?thesis by auto
qed

lemma SLL_PushRange_sll:
  assumes "sll h s (xs @ [e])" "sll h p ys" "set (xs @ [e]) \<inter> set ys = {}"
  shows "SLL_PushRange h p s e = Inr (s, h(e \<mapsto> p))" "sll (h(e \<mapsto> p)) s (xs @ e # ys)"
proof -
  have d: "e \<notin> set xs" "e \<notin> set ys" using sll_distinct [OF assms(1)] assms(3) by auto
  have e: "lseg h s xs e" "e \<noteq> NULL" "h e = Some NULL"
    using assms(1) by (auto simp: lseg_append split: option.splits)
  have "s \<noteq> NULL" using e by (cases xs) auto
  with e show "SLL_PushRange h p s e = Inr (s, h(e \<mapsto> p))"
    by (simp add: SLL_PushRange_def SLL_SetNext_def)
  show "sll (h(e \<mapsto> p)) s (xs @ e # ys)"
    using e d assms(2) by (auto simp: lseg_append)
qed

text \<open>
  \<open>SLL_PopRange\<close> and \<open>SLL_PushRange\<close> are inverse to each other. On a list of at least N objects,
  N > 0, \<open>SLL_PopRange\<close> does not fault, cuts off exactly the first N objects as a list of their own, in order,
  leaves exactly the others, and reports the first and last object of the range; \<open>SLL_Size\<close> then counts N.
  Pushing the range back gives the original head and the original store.
\<close>

theorem sll_range_roundtrip:
  assumes "sll h p zs" "0 < n" "n \<le> length zs" "int n \<le> int_max"
  shows "\<exists>q e h'. SLL_PopRange h p (int n) = Inr (q, p, e, h') \<and>
      sll h' p (take n zs) \<and> sll h' q (drop n zs) \<and> e = last (take n zs) \<and>
      SLL_Size h' p = Inr (int n) \<and> SLL_PushRange h' q p e = Inr (p, h)"
proof -
  obtain q e h' where pop: "SLL_PopRange h p (int n) = Inr (q, p, e, h')"
    and parts: "sll h' p (take n zs)" "sll h' q (drop n zs)" and e: "e = last (take n zs)" "h' = h(e \<mapsto> NULL)"
    using SLL_PopRange_all [OF assms(1-3)] by blast
  have "SLL_Size h' p = Inr (int n)" using SLL_Size_sll [OF parts(1)] assms by simp
  moreover have "SLL_PushRange h' q p e = Inr (p, h)"
  proof -
    have "take n zs \<noteq> []" using assms(2,3) by auto
    then have t: "take n zs = butlast (take n zs) @ [e]" using e(1) by (metis append_butlast_last_id)
    then have z: "zs = butlast (take n zs) @ e # drop n zs" by (metis append_take_drop_id append.assoc append_Cons append_Nil)
    have "h e = Some q"
    proof -
      obtain r where r: "h e = Some r" "sll h r (drop n zs)"
        using assms(1) z lseg_append [of h p "butlast (take n zs)" "e # drop n zs"] by (auto split: option.splits)
      have "e \<notin> set (drop n zs)" using sll_distinct [OF assms(1)] z by (metis distinct.simps(2) distinct_append)
      with parts(2) e(2) have "sll h q (drop n zs)" by simp
      with r show ?thesis by (cases "drop n zs") auto
    qed
    then have "h'(e \<mapsto> q) = h" using e(2) by auto
    moreover have "set (take n zs) \<inter> set (drop n zs) = {}"
      using sll_distinct [OF assms(1)] by (rule set_take_disj_set_drop_if_distinct) simp
    ultimately show ?thesis using SLL_PushRange_sll(1) [of h' p "butlast (take n zs)" e q "drop n zs"] parts t by simp
  qed
  ultimately show ?thesis using pop parts e by blast
qed

theorem sll_range_roundtrip_witness:
  "\<exists>q e h'. SLL_PopRange [8 \<mapsto> 16, 16 \<mapsto> 24, 24 \<mapsto> 0] 8 2 = Inr (q, 8, e, h') \<and>
      sll h' 8 [8, 16] \<and> sll h' q [24] \<and> e = 16 \<and>
      SLL_Size h' 8 = Inr 2 \<and> SLL_PushRange h' q 8 e = Inr (8, [8 \<mapsto> 16, 16 \<mapsto> 24, 24 \<mapsto> 0])"
  using sll_range_roundtrip [of "[8 \<mapsto> 16, 16 \<mapsto> 24, 24 \<mapsto> 0]" 8 "[8, 16, 24]" 2]
  by (simp add: int_max_def numeral_2_eq_2)

end
