(* ===== verification/Metadata_Alloc.thy ===== *)
theory Metadata_Alloc
  imports Sys_Alloc Linked_List
begin

unbundle bit_operations_syntax

text \<open>
  Memory for the allocator's own data: \<open>MetaDataAlloc\<close> (src/libs/tcmalloc/src/common.cc) cuts pieces off
  8 MB chunks, and \<open>PageHeapAllocator\<close> (page_heap_allocator.h) cuts objects of one type off those, with a
  free list threaded through the deleted objects. The invariant says which addresses are in use; the result
  is that \<open>New\<close> never hands out memory that overlaps an object in use.
\<close>

section \<open>MetaDataAlloc\<close>

record meta_state =
  metadata_system_bytes :: int
  metadata_chunk_alloc :: addr
  metadata_chunk_avail :: int

record 'k world =
  w_meta :: meta_state
  w_sys :: sys_state
  w_os :: 'k

definition kMetadataAllocChunkSize :: int where "kMetadataAllocChunkSize = 8 * 1024 * 1024"
definition kMetadataAllignment :: int where "kMetadataAllignment = sizeof_MemoryAligner"

lemmas meta_consts = kMetadataAllocChunkSize_def kMetadataAllignment_def sizeof_MemoryAligner_def

definition sys_alloc_w :: "'k tc_env \<Rightarrow> int \<Rightarrow> int \<Rightarrow> 'k world \<Rightarrow> ((addr \<times> int) option \<times> 'k world) result" where
  "sys_alloc_w env bytes alignment w =
     bindR (TCMalloc_SystemAlloc env bytes alignment (w_sys w) (w_os w)) (\<lambda>(res, ss, k).
       Inr (res, w\<lparr>w_sys := ss, w_os := k\<rparr>))"

definition meta_cut :: "int \<Rightarrow> int \<Rightarrow> 'k world \<Rightarrow> addr \<times> 'k world" where
  "meta_cut bytes alignment w =
     (let m = w_meta w; n = bytes + alignment
      in (metadata_chunk_alloc m + alignment,
          w\<lparr>w_meta := \<lparr>metadata_system_bytes = to_size_t (metadata_system_bytes m + n),
             metadata_chunk_alloc = metadata_chunk_alloc m + n,
             metadata_chunk_avail = metadata_chunk_avail m - n\<rparr>\<rparr>))"

definition MetaDataAlloc :: "'k tc_env \<Rightarrow> int \<Rightarrow> 'k world \<Rightarrow> (addr \<times> 'k world) result" where
  "MetaDataAlloc env bytes w =
     (if bytes \<ge> kMetadataAllocChunkSize then
        bindR (sys_alloc_w env bytes kMetadataAllignment w) (\<lambda>(res, w1).
          case res of None \<Rightarrow> Inr (NULL, w1)
          | Some (rv, _) \<Rightarrow> Inr (rv, w1\<lparr>w_meta := (w_meta w1)\<lparr>metadata_system_bytes :=
              to_size_t (metadata_system_bytes (w_meta w1) + bytes)\<rparr>\<rparr>))
      else
        let alignment = (- metadata_chunk_alloc (w_meta w)) AND (kMetadataAllignment - 1)
        in if metadata_chunk_avail (w_meta w) < bytes + alignment then
             bindR (sys_alloc_w env kMetadataAllocChunkSize kMetadataAllignment w) (\<lambda>(res, w1).
               case res of None \<Rightarrow> Inr (NULL, w1)
               | Some (ptr, real_size) \<Rightarrow>
                   Inr (meta_cut bytes 0 (w1\<lparr>w_meta := (w_meta w1)\<lparr>metadata_chunk_alloc := ptr,
                     metadata_chunk_avail := real_size\<rparr>\<rparr>)))
           else Inr (meta_cut bytes alignment w))"

section \<open>PageHeapAllocator\<close>

record ph_allocator =
  pha_free_area :: addr
  pha_free_avail :: int
  pha_free_list :: addr
  pha_inuse :: int

definition kAllocIncrement :: int where "kAllocIncrement = 131072"

text \<open>Memory from the system is zero: its words become accessible with value 0.\<close>

definition map_zero :: "addr \<Rightarrow> int \<Rightarrow> store \<Rightarrow> store" where
  "map_zero p n h = (\<lambda>a. if p \<le> a \<and> a < p + n then Some 0 else h a)"

text \<open>\<open>sz\<close> is \<open>sizeof(T)\<close>.\<close>

definition pha_new ::
  "int \<Rightarrow> 'k tc_env \<Rightarrow> ph_allocator \<Rightarrow> store \<Rightarrow> 'k world \<Rightarrow> (addr \<times> ph_allocator \<times> store \<times> 'k world) result" where
  "pha_new sz env al h w =
     (if pha_free_list al \<noteq> NULL then
        bindR (SLL_Pop h (pha_free_list al)) (\<lambda>(nxt, result).
          Inr (result, al\<lparr>pha_free_list := nxt, pha_inuse := pha_inuse al + 1\<rparr>, h, w))
      else
        bindR (if pha_free_avail al < sz then
                 bindR (MetaDataAlloc env kAllocIncrement w) (\<lambda>(area, w1).
                   if area = NULL then Inl OutOfMemory
                   else Inr (al\<lparr>pha_free_area := area, pha_free_avail := kAllocIncrement\<rparr>, map_zero area kAllocIncrement h, w1))
               else Inr (al, h, w))
          (\<lambda>(al1, h1, w1).
             Inr (pha_free_area al1,
                  al1\<lparr>pha_free_area := pha_free_area al1 + sz, pha_free_avail := pha_free_avail al1 - sz,
                      pha_inuse := pha_inuse al1 + 1\<rparr>, h1, w1)))"

definition pha_delete :: "addr \<Rightarrow> ph_allocator \<Rightarrow> store \<Rightarrow> (ph_allocator \<times> store) result" where
  "pha_delete p al h =
     bindR (SLL_SetNext h p (pha_free_list al)) (\<lambda>h'.
       Inr (al\<lparr>pha_free_list := p, pha_inuse := pha_inuse al - 1\<rparr>, h'))"

definition pha_init :: "int \<Rightarrow> 'k tc_env \<Rightarrow> store \<Rightarrow> 'k world \<Rightarrow> (ph_allocator \<times> store \<times> 'k world) result" where
  "pha_init sz env h w =
     check (sz \<le> kAllocIncrement)
       (bindR (pha_new sz env \<lparr>pha_free_area = NULL, pha_free_avail = 0, pha_free_list = NULL, pha_inuse = 0\<rparr> h w)
         (\<lambda>(p, al, h1, w1). bindR (pha_delete p al h1) (\<lambda>(al2, h2). Inr (al2, h2, w1))))"

text \<open>The adapter for the standard library: one object at a time, initialised on first use.\<close>

definition stl_allocate ::
  "int \<Rightarrow> 'k tc_env \<Rightarrow> int \<Rightarrow> ph_allocator \<times> bool \<Rightarrow> store \<Rightarrow> 'k world \<Rightarrow>
   (addr \<times> (ph_allocator \<times> bool) \<times> store \<times> 'k world) result" where
  "stl_allocate sz env n st h w = (case st of (al, initialized) \<Rightarrow>
     bindR (if initialized then Inr (al, h, w) else pha_init sz env h w) (\<lambda>(al1, h1, w1).
       check (n = 1) (bindR (pha_new sz env al1 h1 w1) (\<lambda>(p, al2, h2, w2). Inr (p, (al2, True), h2, w2)))))"

definition stl_deallocate :: "addr \<Rightarrow> int \<Rightarrow> ph_allocator \<times> bool \<Rightarrow> store \<Rightarrow> ((ph_allocator \<times> bool) \<times> store) result" where
  "stl_deallocate p n st h = (case st of (al, initialized) \<Rightarrow>
     check (n = 1) (bindR (pha_delete p al h) (\<lambda>(al1, h1). Inr ((al1, initialized), h1))))"

section \<open>What MetaDataAlloc hands out\<close>

abbreviation block :: "addr \<Rightarrow> int \<Rightarrow> addr set" where "block p n \<equiv> {p..<p + n}"

text \<open>\<open>X\<close>: addresses handed out so far. The rest of the chunk is owned and not handed out.\<close>

definition meta_ok :: "'k tc_env \<Rightarrow> ('k \<Rightarrow> addr set) \<Rightarrow> addr set \<Rightarrow> 'k world \<Rightarrow> bool" where
  "meta_ok env own X w \<longleftrightarrow> sys_ok env (w_sys w) \<and> X \<subseteq> own (w_os w) \<and> 0 \<le> metadata_chunk_avail (w_meta w) \<and>
     0 \<le> metadata_chunk_alloc (w_meta w) \<and>
     (0 < metadata_chunk_avail (w_meta w) \<longrightarrow> 0 < metadata_chunk_alloc (w_meta w)) \<and>
     metadata_chunk_alloc (w_meta w) + metadata_chunk_avail (w_meta w) \<le> 2 ^ 47 \<and>
     block (metadata_chunk_alloc (w_meta w)) (metadata_chunk_avail (w_meta w)) \<subseteq> own (w_os w) - X"

lemma meta_ok_subset: "meta_ok env own X w \<Longrightarrow> Y \<subseteq> X \<Longrightarrow> meta_ok env own Y w"
  by (auto simp: meta_ok_def)

lemma sys_alloc_w_ok:
  assumes "mem_os env own" "sys_ok env (w_sys w)" "0 < sz" "sz + 2 ^ a < 2 ^ 64" "6 \<le> a"
  shows "\<exists>res w'. sys_alloc_w env sz (2 ^ a) w = Inr (res, w') \<and> sys_ok env (w_sys w') \<and> w_meta w' = w_meta w \<and>
    (case res of None \<Rightarrow> own (w_os w) \<subseteq> own (w_os w')
     | Some (p, n) \<Rightarrow> p mod 2 ^ a = 0 \<and> sz \<le> n \<and> n mod 2 ^ a = 0 \<and> new_block own (w_os w) (w_os w') p n)"
proof -
  obtain res ss' k' where r: "TCMalloc_SystemAlloc env sz (2 ^ a) (w_sys w) (w_os w) = Inr (res, ss', k')"
    "sys_ok env ss'" "case res of None \<Rightarrow> own (w_os w) \<subseteq> own k' \<and> ss_taken ss' = ss_taken (w_sys w)
     | Some (p, n) \<Rightarrow> p mod 2 ^ a = 0 \<and> sz \<le> n \<and> n mod 2 ^ a = 0 \<and> new_block own (w_os w) k' p n \<and>
         ss_taken ss' = to_size_t (ss_taken (w_sys w) + n)"
    using SystemAlloc_grants [OF assms] by blast
  then show ?thesis by (auto simp: sys_alloc_w_def split: option.splits)
qed

text \<open>The distance to the next cache line.\<close>

lemma align_64: "(- x :: int) AND 63 = (- x) mod 64"
  using and_mask [of "- x" 6] by simp

lemma align_64_props: "0 \<le> (- x :: int) mod 64" "(x + (- x) mod 64) mod 64 = 0"
  by (simp_all only: pos_mod_sign mod_add_right_eq) simp_all

text \<open>Cutting a piece off the chunk.\<close>

lemma meta_cut_ok:
  assumes "meta_ok env own X w" "0 < bytes" "0 \<le> a" "(metadata_chunk_alloc (w_meta w) + a) mod 64 = 0"
    "bytes + a \<le> metadata_chunk_avail (w_meta w)" "meta_cut bytes a w = (p, w')"
  shows "0 < p \<and> p mod 64 = 0 \<and> block p bytes \<inter> X = {} \<and> meta_ok env own (X \<union> block p bytes) w' \<and> w_os w' = w_os w"
proof -
  let ?c = "metadata_chunk_alloc (w_meta w)" and ?n = "metadata_chunk_avail (w_meta w)"
  have p: "p = ?c + a" and w': "w_os w' = w_os w" "w_sys w' = w_sys w"
    "metadata_chunk_alloc (w_meta w') = ?c + (bytes + a)" "metadata_chunk_avail (w_meta w') = ?n - (bytes + a)"
    using assms(6) by (auto simp: meta_cut_def Let_def)
  have s1: "block p bytes \<subseteq> block ?c ?n" using assms(2,3,5) p by auto
  have s2: "block (?c + (bytes + a)) (?n - (bytes + a)) \<subseteq> block ?c ?n" using assms(2,3,5) by auto
  have s3: "block (?c + (bytes + a)) (?n - (bytes + a)) \<inter> block p bytes = {}" using p by auto
  have ch: "block ?c ?n \<subseteq> own (w_os w) - X" "X \<subseteq> own (w_os w)" using assms(1) by (simp_all add: meta_ok_def)
  have "0 < ?c" using assms by (auto simp: meta_ok_def)
  moreover have "block p bytes \<inter> X = {}" using s1 ch by blast
  moreover have "X \<union> block p bytes \<subseteq> own (w_os w)" using s1 ch by blast
  moreover have "block (?c + (bytes + a)) (?n - (bytes + a)) \<subseteq> own (w_os w) - (X \<union> block p bytes)" using s2 s3 ch by blast
  ultimately show ?thesis using assms(1-5) p w' unfolding meta_ok_def by simp
qed

text \<open>More memory owned, and a new block handed out beside the chunk.\<close>

lemma meta_ok_grow:
  assumes "meta_ok env own X w" "own (w_os w) \<subseteq> own (w_os w')" "sys_ok env (w_sys w')"
    "metadata_chunk_alloc (w_meta w') = metadata_chunk_alloc (w_meta w)"
    "metadata_chunk_avail (w_meta w') = metadata_chunk_avail (w_meta w)"
  shows "meta_ok env own X w'"
  using assms(1,2) unfolding meta_ok_def assms(4,5) by (simp add: assms(3)) blast

lemma meta_ok_add:
  assumes "meta_ok env own X w" "new_block own (w_os w) (w_os w') p n" "sys_ok env (w_sys w')"
    "metadata_chunk_alloc (w_meta w') = metadata_chunk_alloc (w_meta w)"
    "metadata_chunk_avail (w_meta w') = metadata_chunk_avail (w_meta w)"
  shows "block p n \<inter> X = {} \<and> meta_ok env own (X \<union> block p n) w'"
  using assms(1,2) unfolding meta_ok_def assms(4,5) new_block_def by (simp add: assms(3)) blast

lemma meta_ok_chunk:
  assumes "meta_ok env own X w" "new_block own (w_os w) (w_os w') p n" "sys_ok env (w_sys w')" "0 \<le> n"
    "metadata_chunk_alloc (w_meta w') = p" "metadata_chunk_avail (w_meta w') = n"
  shows "meta_ok env own X w'"
  using assms(1,2) unfolding meta_ok_def assms(5,6) new_block_def by (simp add: assms(3,4)) blast

text \<open>The contract: null, or an aligned block that overlaps nothing handed out before.\<close>

lemma MetaDataAlloc_ok:
  assumes os: "mem_os env own" and ok: "meta_ok env own X w" and b: "0 < bytes" "bytes < 2 ^ 47"
  shows "\<exists>p w'. MetaDataAlloc env bytes w = Inr (p, w') \<and> own (w_os w) \<subseteq> own (w_os w') \<and>
    (if p = NULL then meta_ok env own X w'
     else 0 < p \<and> p mod 64 = 0 \<and> block p bytes \<inter> X = {} \<and> block p bytes \<subseteq> own (w_os w') \<and> meta_ok env own (X \<union> block p bytes) w')"
proof -
  have "(2 :: int) ^ 6 = 64" by simp
  note sys = sys_alloc_w_ok [OF os, where a = 6, unfolded this]
  have so: "sys_ok env (w_sys w)" using ok by (simp add: meta_ok_def)
  consider (big) "bytes \<ge> kMetadataAllocChunkSize"
    | (new) "bytes < kMetadataAllocChunkSize"
        "metadata_chunk_avail (w_meta w) < bytes + (- metadata_chunk_alloc (w_meta w)) mod 64"
    | (cut) "bytes < kMetadataAllocChunkSize"
        "\<not> metadata_chunk_avail (w_meta w) < bytes + (- metadata_chunk_alloc (w_meta w)) mod 64" by linarith
  then show ?thesis
  proof cases
    case big
    obtain res w1 where r: "sys_alloc_w env bytes 64 w = Inr (res, w1)" "sys_ok env (w_sys w1)" "w_meta w1 = w_meta w"
      "case res of None \<Rightarrow> own (w_os w) \<subseteq> own (w_os w1)
       | Some (p, n) \<Rightarrow> p mod 64 = 0 \<and> bytes \<le> n \<and> n mod 64 = 0 \<and> new_block own (w_os w) (w_os w1) p n"
      using sys [OF so b(1)] b(2) by (auto simp del: split_paired_Ex)
    show ?thesis
    proof (cases res)
      case None
      then show ?thesis using r big meta_ok_grow [OF ok _ r(2)]
        by (simp add: MetaDataAlloc_def kMetadataAllignment_def sizeof_MemoryAligner_def)
    next
      case (Some pn)
      then obtain p n where pn: "res = Some (p, n)" by (cases pn) auto
      then have nb: "new_block own (w_os w) (w_os w1) p n" "p mod 64 = 0" "bytes \<le> n" using r by auto
      then have nb': "new_block own (w_os w) (w_os w1) p bytes" by (intro new_block_sub [OF nb(1)]) auto
      let ?w = "w1\<lparr>w_meta := (w_meta w1)\<lparr>metadata_system_bytes := to_size_t (metadata_system_bytes (w_meta w1) + bytes)\<rparr>\<rparr>"
      have "MetaDataAlloc env bytes w = Inr (p, ?w)" 
        using r(1) pn big by (simp add: MetaDataAlloc_def kMetadataAllignment_def sizeof_MemoryAligner_def)
      moreover have "block p bytes \<inter> X = {} \<and> meta_ok env own (X \<union> block p bytes) ?w"
        using nb' r(2,3) by (intro meta_ok_add [OF ok]) simp_all
      ultimately show ?thesis using nb' nb(2) by (simp add: new_block_def)
    qed
  next
    case new
    obtain res w1 where r: "sys_alloc_w env kMetadataAllocChunkSize 64 w = Inr (res, w1)" "sys_ok env (w_sys w1)" "w_meta w1 = w_meta w"
      "case res of None \<Rightarrow> own (w_os w) \<subseteq> own (w_os w1)
       | Some (p, n) \<Rightarrow> p mod 64 = 0 \<and> kMetadataAllocChunkSize \<le> n \<and> n mod 64 = 0 \<and> new_block own (w_os w) (w_os w1) p n"
      using sys [OF so, of kMetadataAllocChunkSize] by (auto simp: meta_consts simp del: split_paired_Ex)
    show ?thesis
    proof (cases res)
      case None
      then show ?thesis using r new meta_ok_grow [OF ok _ r(2)]
        by (simp add: MetaDataAlloc_def kMetadataAllignment_def sizeof_MemoryAligner_def align_64)
    next
      case (Some pn)
      then obtain p n where pn: "res = Some (p, n)" by (cases pn) auto
      then have nb: "new_block own (w_os w) (w_os w1) p n" "p mod 64 = 0" "kMetadataAllocChunkSize \<le> n" using r by auto
      let ?w = "w1\<lparr>w_meta := (w_meta w1)\<lparr>metadata_chunk_alloc := p, metadata_chunk_avail := n\<rparr>\<rparr>"
      have "meta_ok env own X ?w"
        using nb r(2) new(1) b(1) by (intro meta_ok_chunk [OF ok]) simp_all
      moreover obtain q w2 where c: "meta_cut bytes 0 ?w = (q, w2)" by fastforce
      ultimately have q: "0 < q \<and> q mod 64 = 0 \<and> block q bytes \<inter> X = {} \<and> meta_ok env own (X \<union> block q bytes) w2 \<and> w_os w2 = w_os ?w"
        using nb new(1) b(1) by (intro meta_cut_ok [of env own X ?w bytes 0]) auto
      have "MetaDataAlloc env bytes w = Inr (q, w2)"
        using r(1) pn new c by (simp add: MetaDataAlloc_def kMetadataAllignment_def sizeof_MemoryAligner_def align_64)
      moreover have "own (w_os w) \<subseteq> own (w_os w2)" using q nb by (simp add: new_block_def)
      moreover have "block q bytes \<subseteq> own (w_os w2)" using q unfolding meta_ok_def by blast
      ultimately show ?thesis using q by auto
    qed
  next
    case cut
    let ?a = "(- metadata_chunk_alloc (w_meta w)) mod 64"
    obtain q w2 where c: "meta_cut bytes ?a w = (q, w2)" by fastforce
    have q: "0 < q \<and> q mod 64 = 0 \<and> block q bytes \<inter> X = {} \<and> meta_ok env own (X \<union> block q bytes) w2 \<and> w_os w2 = w_os w"
      using cut b by (intro meta_cut_ok [OF ok _ _ _ _ c] align_64_props) auto
    have "MetaDataAlloc env bytes w = Inr (q, w2)"
      using cut c by (simp add: MetaDataAlloc_def kMetadataAllignment_def sizeof_MemoryAligner_def align_64)
    moreover have "block q bytes \<subseteq> own (w_os w2)" using q unfolding meta_ok_def by blast
    ultimately show ?thesis using q by auto
  qed
qed

section \<open>Objects never overlap\<close>

definition apart :: "int \<Rightarrow> addr set \<Rightarrow> bool" where
  "apart sz S \<longleftrightarrow> (\<forall>x\<in>S. \<forall>y\<in>S. x \<noteq> y \<longrightarrow> block x sz \<inter> block y sz = {})"

definition blocks :: "int \<Rightarrow> addr set \<Rightarrow> addr set" where
  "blocks sz S = (\<Union>x\<in>S. block x sz)"

lemma apart_insert: "apart sz S \<Longrightarrow> block p sz \<inter> blocks sz S = {} \<Longrightarrow> apart sz (insert p S)"
  unfolding apart_def blocks_def by blast

lemma blocks_insert [simp]: "blocks sz (insert p S) = block p sz \<union> blocks sz S"
  by (simp add: blocks_def)

lemma blocks_mem: "0 < sz \<Longrightarrow> S \<subseteq> blocks sz S"
  by (auto simp: blocks_def)

text \<open>
  \<open>U\<close>: the objects in use, \<open>F\<close>: the deleted ones on the free list, \<open>Z\<close>: memory that others got from
  \<open>MetaDataAlloc\<close> or from the system. All objects ever cut are apart, accessible, and apart from the area
  that is still to be cut.
\<close>

definition pha_rep :: "int \<Rightarrow> addr set \<Rightarrow> addr list \<Rightarrow> ph_allocator \<Rightarrow> store \<Rightarrow> bool" where
  "pha_rep sz U F al h \<longleftrightarrow>
     sll h (pha_free_list al) F \<and> set F \<inter> U = {} \<and> finite U \<and>
     apart sz (U \<union> set F) \<and> (\<forall>x\<in>U \<union> set F. 0 < x \<and> h x \<noteq> None) \<and>
     0 \<le> pha_free_avail al \<and> (0 < pha_free_avail al \<longrightarrow> 0 < pha_free_area al) \<and>
     (\<forall>a\<in>block (pha_free_area al) (pha_free_avail al). h a \<noteq> None) \<and>
     blocks sz (U \<union> set F) \<inter> block (pha_free_area al) (pha_free_avail al) = {}"

definition pha_mem :: "int \<Rightarrow> addr set \<Rightarrow> addr list \<Rightarrow> ph_allocator \<Rightarrow> addr set" where
  "pha_mem sz U F al = blocks sz (U \<union> set F) \<union> block (pha_free_area al) (pha_free_avail al)"

definition pha_inv ::
  "int \<Rightarrow> 'k tc_env \<Rightarrow> ('k \<Rightarrow> addr set) \<Rightarrow> addr set \<Rightarrow> addr set \<Rightarrow> ph_allocator \<Rightarrow> store \<Rightarrow> 'k world \<Rightarrow> bool" where
  "pha_inv sz env own Z U al h w \<longleftrightarrow>
     (\<exists>F. pha_rep sz U F al h \<and> Z \<inter> pha_mem sz U F al = {} \<and> meta_ok env own (Z \<union> pha_mem sz U F al) w)"

lemma pha_new_pop:
  assumes "pha_rep sz U F al h" "pha_free_list al \<noteq> NULL"
  shows "\<exists>x F' al'. pha_new sz env al h w = Inr (x, al', h, w) \<and> F = x # F' \<and> pha_rep sz (insert x U) F' al' h \<and>
    pha_mem sz (insert x U) F' al' = pha_mem sz U F al \<and> x \<notin> U"
proof -
  have l: "sll h (pha_free_list al) F" using assms(1) by (simp add: pha_rep_def)
  then obtain F' where F: "F = pha_free_list al # F'" using assms(2) sll_nonnull by blast
  let ?x = "pha_free_list al"
  obtain n where n: "SLL_Pop h ?x = Inr (n, ?x)" "sll h n F'" using SLL_Pop_sll [of h ?x ?x F'] l F by auto
  let ?al = "al\<lparr>pha_free_list := n, pha_inuse := pha_inuse al + 1\<rparr>"
  have d: "?x \<notin> set F'" using sll_distinct [OF l] F by simp
  have "pha_new sz env al h w = Inr (?x, ?al, h, w)" using assms(2) n by (simp add: pha_new_def)
  moreover have x: "?x \<notin> U" using assms(1) F by (auto simp: pha_rep_def)
  moreover have "insert ?x U \<union> set F' = U \<union> set F" using F by auto
  ultimately show ?thesis using assms(1) n d F
    by (intro exI [of _ ?x] exI [of _ F'] exI [of _ ?al]) (auto simp: pha_rep_def pha_mem_def)
qed

text \<open>Cutting an object off the free area.\<close>

lemma pha_cut_rep:
  assumes "pha_rep sz U F al h" "0 < sz" "sz \<le> pha_free_avail al"
  defines "p \<equiv> pha_free_area al"
  defines "al' \<equiv> al\<lparr>pha_free_area := p + sz, pha_free_avail := pha_free_avail al - sz, pha_inuse := pha_inuse al + 1\<rparr>"
  shows "pha_rep sz (insert p U) F al' h \<and> pha_mem sz (insert p U) F al' = pha_mem sz U F al \<and> p \<notin> U \<union> set F"
proof -
  let ?A = "block p (pha_free_avail al)" and ?R = "block (p + sz) (pha_free_avail al - sz)"
  have A: "?A = block p sz \<union> ?R" "block p sz \<inter> ?R = {}" using assms(2,3) by auto
  have p: "p \<in> ?A" using assms(2,3) by simp
  have dis: "blocks sz (U \<union> set F) \<inter> ?A = {}" and acc: "\<forall>a\<in>?A. h a \<noteq> None" and pos: "0 < p"
    using assms(1-3) by (auto simp: pha_rep_def p_def)
  then have new: "p \<notin> U \<union> set F" using p blocks_mem [OF assms(2), of "U \<union> set F"] by blast
  have "block p sz \<inter> blocks sz (U \<union> set F) = {}" using dis A by blast
  then have "apart sz (insert p (U \<union> set F))" using assms(1) by (intro apart_insert) (auto simp: pha_rep_def)
  moreover have "blocks sz (insert p (U \<union> set F)) \<inter> ?R = {}" using A dis by (simp add: Int_Un_distrib2) blast
  moreover have "\<forall>a\<in>?R. h a \<noteq> None" using acc A by blast
  moreover have "h p \<noteq> None" using acc p by blast
  moreover have "pha_mem sz (insert p U) F al' = pha_mem sz U F al"
    using A unfolding pha_mem_def al'_def p_def [symmetric] by (simp add: Un_assoc) blast
  ultimately show ?thesis using assms(1-3) new pos unfolding al'_def by (simp add: pha_rep_def)
qed

lemma map_zero_sll:
  assumes "sll h q F" "set F \<inter> block p n = {}"
  shows "sll (map_zero p n h) q F"
  using assms by (induction F arbitrary: q) (auto simp: map_zero_def split: option.splits if_splits)

text \<open>A fresh area replaces the rest of the old one.\<close>

lemma pha_refill_rep:
  assumes rep: "pha_rep sz U F al h" and sz: "0 < sz" and p: "0 < p" and n: "0 \<le> n"
    and dis: "block p n \<inter> pha_mem sz U F al = {}"
  shows "pha_rep sz U F (al\<lparr>pha_free_area := p, pha_free_avail := n\<rparr>) (map_zero p n h)"
proof -
  have b: "blocks sz (U \<union> set F) \<inter> block p n = {}" using dis by (auto simp: pha_mem_def)
  with blocks_mem [OF sz, of "U \<union> set F"] have m: "(U \<union> set F) \<inter> block p n = {}" by blast
  then have "sll (map_zero p n h) (pha_free_list al) F"
    using rep by (intro map_zero_sll) (auto simp: pha_rep_def)
  moreover have "\<forall>x\<in>U \<union> set F. map_zero p n h x \<noteq> None" using rep by (auto simp: pha_rep_def map_zero_def)
  moreover have "\<forall>a\<in>block p n. map_zero p n h a \<noteq> None" by (simp add: map_zero_def)
  ultimately show ?thesis using rep b p n by (simp add: pha_rep_def)
qed

text \<open>\<open>New\<close>: it fails only when no memory can be had; otherwise the object is new.\<close>

lemma pha_new_ok:
  assumes os: "mem_os env own" and inv: "pha_inv sz env own Z U al h w" and sz: "0 < sz" "sz \<le> kAllocIncrement"
  shows "pha_new sz env al h w = Inl OutOfMemory \<or>
    (\<exists>p al' h' w'. pha_new sz env al h w = Inr (p, al', h', w') \<and> p \<notin> U \<and> 0 < p \<and>
       block p sz \<inter> (Z \<union> blocks sz U) = {} \<and> own (w_os w) \<subseteq> own (w_os w') \<and> pha_inv sz env own Z (insert p U) al' h' w')"
proof -
  obtain F where rep: "pha_rep sz U F al h" and Z: "Z \<inter> pha_mem sz U F al = {}"
    and m: "meta_ok env own (Z \<union> pha_mem sz U F al) w"
    using inv by (auto simp: pha_inv_def)
  text \<open>In every successful case the new object is one of those the new state accounts for.\<close>
  have fin: ?thesis
    if new: "pha_new sz env al h w = Inr (p, al', h', w')" "p \<notin> U" "pha_rep sz (insert p U) F' al' h'"
      "Z \<inter> pha_mem sz (insert p U) F' al' = {}" "meta_ok env own (Z \<union> pha_mem sz (insert p U) F' al') w'"
      "own (w_os w) \<subseteq> own (w_os w')" for p al' h' w' F'
  proof -
    have ap: "apart sz (insert p U \<union> set F')" "0 < p" using new(3) by (auto simp: pha_rep_def)
    then have "block p sz \<inter> blocks sz U = {}" using new(2) unfolding apart_def blocks_def by fastforce
    moreover have "block p sz \<subseteq> pha_mem sz (insert p U) F' al'" by (auto simp: pha_mem_def blocks_def)
    ultimately have "block p sz \<inter> (Z \<union> blocks sz U) = {}" using new(4) by blast
    with new ap(2) show ?thesis unfolding pha_inv_def by blast
  qed
  show ?thesis
  proof (cases "pha_free_list al \<noteq> NULL")
    case True
    from pha_new_pop [OF rep this, of env w] show ?thesis using fin Z m by force
  next
    case nf: False
    show ?thesis
    proof (cases "pha_free_avail al < sz")
      case False
      let ?al = "al\<lparr>pha_free_area := pha_free_area al + sz, pha_free_avail := pha_free_avail al - sz, pha_inuse := pha_inuse al + 1\<rparr>"
      have n: "pha_new sz env al h w = Inr (pha_free_area al, ?al, h, w)" using nf False by (simp add: pha_new_def)
      have c: "pha_rep sz (insert (pha_free_area al) U) F ?al h" "pha_free_area al \<notin> U"
        "pha_mem sz (insert (pha_free_area al) U) F ?al = pha_mem sz U F al"
        using pha_cut_rep [OF rep sz(1)] False by simp_all
      show ?thesis by (rule fin [OF n c(2,1)]) (use c(3) Z m in simp_all)
    next
      case True
      obtain p w1 where a: "MetaDataAlloc env kAllocIncrement w = Inr (p, w1)" "own (w_os w) \<subseteq> own (w_os w1)"
        "if p = NULL then meta_ok env own (Z \<union> pha_mem sz U F al) w1
         else 0 < p \<and> p mod 64 = 0 \<and> block p kAllocIncrement \<inter> (Z \<union> pha_mem sz U F al) = {} \<and>
           block p kAllocIncrement \<subseteq> own (w_os w1) \<and> meta_ok env own (Z \<union> pha_mem sz U F al \<union> block p kAllocIncrement) w1"
        using MetaDataAlloc_ok [OF os m, of kAllocIncrement] by (auto simp: kAllocIncrement_def)
      show ?thesis
      proof (cases "p = NULL")
        case True
        with a(1) nf \<open>pha_free_avail al < sz\<close> show ?thesis by (simp add: pha_new_def)
      next
        case False
        then have p: "0 < p" "block p kAllocIncrement \<inter> (Z \<union> pha_mem sz U F al) = {}"
          "meta_ok env own (Z \<union> pha_mem sz U F al \<union> block p kAllocIncrement) w1" using a(3) by simp_all
        let ?a1 = "al\<lparr>pha_free_area := p, pha_free_avail := kAllocIncrement\<rparr>" and ?h1 = "map_zero p kAllocIncrement h"
        let ?a2 = "?a1\<lparr>pha_free_area := p + sz, pha_free_avail := kAllocIncrement - sz, pha_inuse := pha_inuse al + 1\<rparr>"
        have r1: "pha_rep sz U F ?a1 ?h1" using p sz by (intro pha_refill_rep [OF rep sz(1)]) auto
        have sub: "pha_mem sz U F ?a1 \<subseteq> pha_mem sz U F al \<union> block p kAllocIncrement" by (auto simp: pha_mem_def)
        have r2: "pha_rep sz (insert p U) F ?a2 ?h1" "pha_mem sz (insert p U) F ?a2 = pha_mem sz U F ?a1" "p \<notin> U \<union> set F"
          using pha_cut_rep [OF r1 sz(1)] sz by simp_all
        have "pha_new sz env al h w = Inr (p, ?a2, ?h1, w1)"
          using a(1) nf \<open>pha_free_avail al < sz\<close> False by (simp add: pha_new_def)
        moreover have "Z \<inter> pha_mem sz (insert p U) F ?a2 = {}" unfolding r2(2) using sub Z p(2) by blast
        moreover have "meta_ok env own (Z \<union> pha_mem sz (insert p U) F ?a2) w1"
          unfolding r2(2) by (rule meta_ok_subset [OF p(3)]) (use sub in blast)
        ultimately show ?thesis using r2(3) a(2) by (intro fin [OF _ _ r2(1)]) simp_all
      qed
    qed
  qed
qed

lemma pha_delete_ok:
  assumes "pha_inv sz env own Z U al h w" "p \<in> U"
  shows "\<exists>al' h'. pha_delete p al h = Inr (al', h') \<and> pha_inv sz env own Z (U - {p}) al' h' w"
proof -
  obtain F where rep: "pha_rep sz U F al h" and Z: "Z \<inter> pha_mem sz U F al = {}"
    and m: "meta_ok env own (Z \<union> pha_mem sz U F al) w"
    using assms(1) by (auto simp: pha_inv_def)
  let ?al = "al\<lparr>pha_free_list := p, pha_inuse := pha_inuse al - 1\<rparr>" and ?h = "h(p \<mapsto> pha_free_list al)"
  have p: "p \<noteq> NULL" "p \<in> dom h" "p \<notin> set F" using rep assms(2) by (auto simp: pha_rep_def)
  have "pha_delete p al h = Inr (?al, ?h)" using p by (simp add: pha_delete_def sll_simps)
  moreover have "sll ?h p (p # F)" using rep p by (simp add: pha_rep_def)
  moreover have U: "(U - {p}) \<union> set (p # F) = U \<union> set F" using assms(2) by auto
  moreover have "set (p # F) \<inter> (U - {p}) = {}" using rep by (auto simp: pha_rep_def)
  ultimately have "pha_rep sz (U - {p}) (p # F) ?al ?h"
    using rep p unfolding pha_rep_def U by (simp del: list.set lseg.simps)
  moreover have "pha_mem sz (U - {p}) (p # F) ?al = pha_mem sz U F al" unfolding pha_mem_def U by simp
  ultimately show ?thesis using \<open>pha_delete p al h = _\<close> Z m unfolding pha_inv_def by metis
qed

text \<open>\<open>inuse\<close> counts, and an object that is never deleted may be forgotten.\<close>

lemma pha_inuse_new: "pha_new sz env al h w = Inr (p, al', h', w') \<Longrightarrow> pha_inuse al' = pha_inuse al + 1"
  by (auto simp: pha_new_def bindR_eq_Inr split: if_splits)

lemma pha_inuse_delete: "pha_delete p al h = Inr (al', h') \<Longrightarrow> pha_inuse al' = pha_inuse al - 1"
  by (auto simp: pha_delete_def bindR_eq_Inr)

lemma pha_inv_forget:
  assumes "pha_inv sz env own Z U al h w" "V \<subseteq> U"
  shows "pha_inv sz env own Z V al h w"
proof -
  obtain F where F: "pha_rep sz U F al h" "Z \<inter> pha_mem sz U F al = {}" "meta_ok env own (Z \<union> pha_mem sz U F al) w"
    using assms(1) by (auto simp: pha_inv_def)
  have b: "blocks sz (V \<union> set F) \<subseteq> blocks sz (U \<union> set F)" using assms(2) by (auto simp: blocks_def)
  then have m: "pha_mem sz V F al \<subseteq> pha_mem sz U F al" by (auto simp: pha_mem_def)
  have "finite V" using assms(2) F(1) finite_subset by (auto simp: pha_rep_def)
  then have "pha_rep sz V F al h" using F(1) b assms(2) unfolding pha_rep_def apart_def by blast
  then show ?thesis using F(2) m meta_ok_subset [OF F(3), of "Z \<union> pha_mem sz V F al"] unfolding pha_inv_def by blast
qed

section \<open>The interface to the rest of the allocator\<close>

text \<open>Sequences of requests: a new object, or the deletion of one in use (other deletions are not made).\<close>

datatype pool_op = PNew | PDelete addr

fun pool_run :: "('s \<Rightarrow> (addr \<times> 's) result) \<Rightarrow> (addr \<Rightarrow> 's \<Rightarrow> 's result) \<Rightarrow> pool_op list \<Rightarrow> addr set \<Rightarrow> 's \<Rightarrow> (addr set \<times> 's) result" where
  "pool_run new_obj delete_obj [] U s = Inr (U, s)"
| "pool_run new_obj delete_obj (PNew # ops) U s =
     bindR (new_obj s) (\<lambda>(p, s1). pool_run new_obj delete_obj ops (insert p U) s1)"
| "pool_run new_obj delete_obj (PDelete p # ops) U s =
     (if p \<in> U then bindR (delete_obj p s) (\<lambda>s1. pool_run new_obj delete_obj ops (U - {p}) s1)
      else pool_run new_obj delete_obj ops U s)"

locale object_pool =
  fixes inv :: "addr set \<Rightarrow> 's \<Rightarrow> bool"
    and new_obj :: "'s \<Rightarrow> (addr \<times> 's) result"
    and delete_obj :: "addr \<Rightarrow> 's \<Rightarrow> 's result"
    and osz :: int
  assumes new_fresh: "inv U s \<Longrightarrow> new_obj s = Inr (p, s') \<Longrightarrow> p \<notin> U \<and> block p osz \<inter> blocks osz U = {} \<and> inv (insert p U) s'"
    and new_fails: "inv U s \<Longrightarrow> new_obj s = Inl e \<Longrightarrow> e = OutOfMemory"
    and delete_keeps: "inv U s \<Longrightarrow> p \<in> U \<Longrightarrow> \<exists>s'. delete_obj p s = Inr s' \<and> inv (U - {p}) s'"
begin

lemma run_keeps:
  "inv U s \<Longrightarrow> apart osz U \<Longrightarrow>
   case pool_run new_obj delete_obj ops U s of Inl e \<Rightarrow> e = OutOfMemory | Inr (U', s') \<Rightarrow> inv U' s' \<and> apart osz U'"
proof (induction ops arbitrary: U s)
  case (Cons op ops)
  show ?case
  proof (cases op)
    case PNew
    show ?thesis
    proof (cases "new_obj s")
      case (Inl e)
      then show ?thesis using new_fails [OF Cons.prems(1)] PNew by simp
    next
      case (Inr r)
      obtain p s1 where r: "r = (p, s1)" by fastforce
      have n: "p \<notin> U \<and> block p osz \<inter> blocks osz U = {} \<and> inv (insert p U) s1"
        using new_fresh [OF Cons.prems(1)] Inr r by simp
      then have "apart osz (insert p U)" using Cons.prems(2) by (intro apart_insert) auto
      then show ?thesis using Cons.IH [of "insert p U" s1] n Inr r PNew by simp
    qed
  next
    case (PDelete p)
    show ?thesis
    proof (cases "p \<in> U")
      case True
      then obtain s1 where "delete_obj p s = Inr s1" "inv (U - {p}) s1" using delete_keeps [OF Cons.prems(1)] by blast
      moreover have "apart osz (U - {p})" using Cons.prems(2) by (auto simp: apart_def)
      ultimately show ?thesis using Cons.IH [of "U - {p}" s1] True PDelete by simp
    qed (use Cons PDelete in simp)
  qed
qed simp

end

abbreviation pha_state_new :: "int \<Rightarrow> 'k tc_env \<Rightarrow> ph_allocator \<times> store \<times> 'k world \<Rightarrow> (addr \<times> ph_allocator \<times> store \<times> 'k world) result" where
  "pha_state_new sz env s \<equiv> (case s of (al, h, w) \<Rightarrow> pha_new sz env al h w)"

abbreviation pha_state_delete :: "addr \<Rightarrow> ph_allocator \<times> store \<times> 'k world \<Rightarrow> (ph_allocator \<times> store \<times> 'k world) result" where
  "pha_state_delete p s \<equiv> (case s of (al, h, w) \<Rightarrow> bindR (pha_delete p al h) (\<lambda>(al1, h1). Inr (al1, h1, w)))"

definition pha_state_inv ::
  "int \<Rightarrow> 'k tc_env \<Rightarrow> ('k \<Rightarrow> addr set) \<Rightarrow> addr set \<Rightarrow> addr set \<Rightarrow> ph_allocator \<times> store \<times> 'k world \<Rightarrow> bool" where
  "pha_state_inv sz env own Z U s \<longleftrightarrow>
     mem_os env own \<and> 0 < sz \<and> sz \<le> kAllocIncrement \<and> finite U \<and>
     (case s of (al, h, w) \<Rightarrow> pha_inv sz env own Z U al h w \<and> pha_inuse al = int (card U))"

interpretation pha: object_pool "pha_state_inv sz env own Z" "pha_state_new sz env" pha_state_delete sz
  for sz :: int and env :: "'k tc_env" and own :: "'k \<Rightarrow> addr set" and Z :: "addr set"
proof
  fix U and s s' :: "ph_allocator \<times> store \<times> 'k world" and p
  assume i: "pha_state_inv sz env own Z U s" and n: "pha_state_new sz env s = Inr (p, s')"
  obtain al h w where s: "s = (al, h, w)" by (metis prod_cases3)
  from i have "mem_os env own" "pha_inv sz env own Z U al h w" "0 < sz" "sz \<le> kAllocIncrement"
    by (simp_all add: pha_state_inv_def s)
  from pha_new_ok [OF this] n i show "p \<notin> U \<and> block p sz \<inter> blocks sz U = {} \<and> pha_state_inv sz env own Z (insert p U) s'"
    unfolding s pha_state_inv_def by (auto dest!: pha_inuse_new)
next
  fix U and s :: "ph_allocator \<times> store \<times> 'k world" and e
  assume i: "pha_state_inv sz env own Z U s" and n: "pha_state_new sz env s = Inl e"
  obtain al h w where s: "s = (al, h, w)" by (metis prod_cases3)
  from i have "mem_os env own" "pha_inv sz env own Z U al h w" "0 < sz" "sz \<le> kAllocIncrement"
    by (simp_all add: pha_state_inv_def s)
  from pha_new_ok [OF this] n show "e = OutOfMemory" unfolding s by auto
next
  fix U and s :: "ph_allocator \<times> store \<times> 'k world" and p
  assume i: "pha_state_inv sz env own Z U s" and p: "p \<in> U"
  obtain al h w where s: "s = (al, h, w)" by (metis prod_cases3)
  from i have "pha_inv sz env own Z U al h w" by (simp add: pha_state_inv_def s)
  then obtain al' h' where d: "pha_delete p al h = Inr (al', h')" "pha_inv sz env own Z (U - {p}) al' h' w"
    using pha_delete_ok p by blast
  have "int (card (U - {p})) = int (card U) - 1" using i p card_Suc_Diff1 [of U p] by (simp add: pha_state_inv_def)
  then show "\<exists>s'. pha_state_delete p s = Inr s' \<and> pha_state_inv sz env own Z (U - {p}) s'"
    using i d pha_inuse_delete [OF d(1)] unfolding s pha_state_inv_def by simp
qed

lemma pha_init_ok:
  assumes os: "mem_os env own" and m: "meta_ok env own Z w" and sz: "0 < sz" "sz \<le> kAllocIncrement"
    and run: "pha_init sz env h w = Inr (al, h1, w1)"
  shows "pha_inv sz env own Z {} al h1 w1" "pha_inuse al = 0"
proof -
  let ?a0 = "\<lparr>pha_free_area = NULL, pha_free_avail = 0, pha_free_list = NULL, pha_inuse = 0\<rparr>"
  have "pha_rep sz {} [] ?a0 h" by (simp add: pha_rep_def apart_def blocks_def)
  then have i0: "pha_inv sz env own Z {} ?a0 h w" using m by (intro pha_inv_def [THEN iffD2] exI [of _ "[]"]) (simp add: pha_mem_def blocks_def)
  obtain p a1 h2 w2 where n: "pha_new sz env ?a0 h w = Inr (p, a1, h2, w2)" "pha_inv sz env own Z {p} a1 h2 w2"
    using pha_new_ok [OF os i0 sz] run sz(2) by (auto simp: pha_init_def)
  obtain a2 h3 where d: "pha_delete p a1 h2 = Inr (a2, h3)" "pha_inv sz env own Z {} a2 h3 w2"
    using pha_delete_ok [OF n(2), of p] by auto
  with n(1) run sz(2) show "pha_inv sz env own Z {} al h1 w1" by (simp add: pha_init_def)
  show "pha_inuse al = 0" using pha_inuse_new [OF n(1)] pha_inuse_delete [OF d(1)] d(1) n(1) run sz(2) by (simp add: pha_init_def)
qed

lemma pha_inv_facts:
  assumes "pha_inv sz env own Z U al h w"
  shows "blocks sz U \<inter> Z = {}"
  using assms unfolding pha_inv_def pha_mem_def blocks_def by (auto simp: pha_rep_def)

text \<open>
  C19: Objects of a \<open>PageHeapAllocator\<close> never overlap. After \<open>Init\<close>, any sequence of \<open>New\<close> and \<open>Delete\<close> (of
  objects in use) either stops with the fatal out-of-memory error, never with an access fault, or leaves objects
  in use that are pairwise disjoint in memory and disjoint from everything \<open>MetaDataAlloc\<close> handed out to others,
  and \<open>inuse()\<close> counts them.
\<close>

theorem pha_objects_apart:
  assumes "mem_os env own" "meta_ok env own Z w" "0 < sz" "sz \<le> kAllocIncrement"
    and "pha_init sz env h w = Inr (al, h1, w1)"
  shows "case pool_run (pha_state_new sz env) pha_state_delete ops {} (al, h1, w1) of
      Inl e \<Rightarrow> e = OutOfMemory
    | Inr (U, al2, h2, w2) \<Rightarrow> apart sz U \<and> blocks sz U \<inter> Z = {} \<and> pha_inuse al2 = int (card U)"
proof -
  have "pha_state_inv sz env own Z {} (al, h1, w1)"
    using pha_init_ok [OF assms] assms(1,3,4) by (simp add: pha_state_inv_def)
  from pha.run_keeps [OF this, of ops] show ?thesis
    using pha_inv_facts [of sz env own Z] by (fastforce simp: apart_def [of sz "{}"] pha_state_inv_def split: sum.splits)
qed

definition world_new :: "'k \<Rightarrow> 'k world" where
  "world_new k = \<lparr>w_meta = \<lparr>metadata_system_bytes = 0, metadata_chunk_alloc = NULL, metadata_chunk_avail = 0\<rparr>,
     w_sys = sys_state_new, w_os = k\<rparr>"

lemma world_new_ok: "meta_ok env own {} (world_new k)"
  by (simp add: meta_ok_def world_new_def sys_state_new_ok)

theorem pha_objects_apart_witness:
  "case pha_init 48 bump_env (\<lambda>_. None) (world_new 5000) of
     Inl e \<Rightarrow> False
   | Inr (al, h1, w1) \<Rightarrow>
       (case pool_run (pha_state_new 48 bump_env) pha_state_delete [PNew, PNew, PDelete 5056] {} (al, h1, w1) of
          Inl e \<Rightarrow> False
        | Inr (U, al2, h2, w2) \<Rightarrow> U = {5104} \<and> apart 48 U \<and> blocks 48 U \<inter> {} = {} \<and> pha_inuse al2 = 1)"
proof -
  have i: "case pha_init 48 bump_env (\<lambda>_. None) (world_new 5000) of Inl e \<Rightarrow> False | Inr (al, h1, w1) \<Rightarrow>
      (case pool_run (pha_state_new 48 bump_env) pha_state_delete [PNew, PNew, PDelete 5056] {} (al, h1, w1) of
         Inl e \<Rightarrow> False | Inr (U, al2, h2, w2) \<Rightarrow> U = {5104})"
    by code_simp
  show ?thesis
  proof (cases "pha_init 48 bump_env (\<lambda>_. None) (world_new 5000)")
    case (Inr r)
    then obtain al h1 w1 where r: "pha_init 48 bump_env (\<lambda>_. None) (world_new 5000) = Inr (al, h1, w1)" by (metis prod_cases3)
    from pha_objects_apart [OF bump_mem_os world_new_ok _ _ r, of "[PNew, PNew, PDelete 5056]"] i r show ?thesis
      by (auto simp: kAllocIncrement_def simp del: pool_run.simps split: sum.splits)
  qed (use i in simp)
qed

end
