(* ===== verification/Span.thy ===== *)
theory Span
  imports Metadata_Alloc
begin

text \<open>
  Spans, runs of contiguous pages, and the circular doubly linked lists of spans:
  src/libs/tcmalloc/src/span.h and span.cc. Spans live in a store that gives the span at each address;
  a list is reached through a header span. \<open>dll st l xs\<close> says that the header \<open>l\<close> links exactly the spans
  \<open>xs\<close>. The refinement shows that the pointer operations on the list are the operations on the sequence
  \<open>xs\<close>, which is how the page heap and the central free lists use them.
\<close>

datatype span_location = IN_USE | ON_NORMAL_FREELIST | ON_RETURNED_FREELIST

record span =
  sp_start :: int
  sp_length :: int
  sp_next :: addr
  sp_prev :: addr
  sp_objects :: addr
  sp_refcount :: int
  sp_sizeclass :: nat
  sp_location :: span_location
  sp_sample :: bool
  sp_has_span_iter :: bool

type_synonym span_store = "addr \<Rightarrow> span option"

definition sizeof_Span :: int where "sizeof_Span = 48"

definition deref :: "span_store \<Rightarrow> addr \<Rightarrow> span result" where
  "deref st p = (if p = NULL then Inl NullDeref else case st p of None \<Rightarrow> Inl OutOfBounds | Some s \<Rightarrow> Inr s)"

definition modify :: "addr \<Rightarrow> (span \<Rightarrow> span) \<Rightarrow> span_store \<Rightarrow> span_store result" where
  "modify p f st = bindR (deref st p) (\<lambda>s. Inr (st(p \<mapsto> f s)))"

lemma deref_Inr: "deref st p = Inr s \<longleftrightarrow> p \<noteq> NULL \<and> st p = Some s"
  by (auto simp: deref_def split: option.splits)

lemma deref_ok [simp]: "p \<noteq> NULL \<Longrightarrow> st p = Some s \<Longrightarrow> deref st p = Inr s"
  by (simp add: deref_def)

lemma modify_ok [simp]: "p \<noteq> NULL \<Longrightarrow> st p = Some s \<Longrightarrow> modify p f st = Inr (st(p \<mapsto> f s))"
  by (simp add: modify_def)

section \<open>Allocation\<close>

definition span_of :: "int \<Rightarrow> int \<Rightarrow> span" where
  "span_of p len = \<lparr>sp_start = p, sp_length = len, sp_next = NULL, sp_prev = NULL, sp_objects = NULL, sp_refcount = 0,
     sp_sizeclass = 0, sp_location = IN_USE, sp_sample = False, sp_has_span_iter = False\<rparr>"

definition NewSpan ::
  "'k tc_env \<Rightarrow> int \<Rightarrow> int \<Rightarrow> ph_allocator \<Rightarrow> store \<Rightarrow> 'k world \<Rightarrow> span_store \<Rightarrow>
   (addr \<times> ph_allocator \<times> store \<times> 'k world \<times> span_store) result" where
  "NewSpan env p len al h w st =
     bindR (pha_new sizeof_Span env al h w) (\<lambda>(result, al1, h1, w1). Inr (result, al1, h1, w1, st(result \<mapsto> span_of p len)))"

text \<open>A deleted span is overwritten, so the store no longer has it.\<close>

definition DeleteSpan ::
  "addr \<Rightarrow> ph_allocator \<Rightarrow> store \<Rightarrow> span_store \<Rightarrow> (ph_allocator \<times> store \<times> span_store) result" where
  "DeleteSpan sp al h st =
     bindR (deref st sp) (\<lambda>_. bindR (pha_delete sp al h) (\<lambda>(al1, h1). Inr (al1, h1, st(sp := None))))"

section \<open>Best fit\<close>

record span_ptr_with_length =
  spl_span :: addr
  spl_length :: int

definition span_ptr :: "addr \<Rightarrow> span \<Rightarrow> span_ptr_with_length" where
  "span_ptr p s = \<lparr>spl_span = p, spl_length = sp_length s\<rparr>"

text \<open>\<open>SpanBestFitLess\<close>; \<open>start_of\<close> reads \<open>span->start\<close>.\<close>

definition SpanBestFitLess :: "(addr \<Rightarrow> int) \<Rightarrow> span_ptr_with_length \<Rightarrow> span_ptr_with_length \<Rightarrow> bool" where
  "SpanBestFitLess start_of a b =
     (if spl_length a < spl_length b then True
      else if spl_length a > spl_length b then False
      else start_of (spl_span a) < start_of (spl_span b))"

lemma SpanBestFitLess_order:
  "\<not> SpanBestFitLess f a a"
  "SpanBestFitLess f a b \<Longrightarrow> SpanBestFitLess f b c \<Longrightarrow> SpanBestFitLess f a c"
  "f (spl_span a) \<noteq> f (spl_span b) \<Longrightarrow> SpanBestFitLess f a b \<or> SpanBestFitLess f b a"
  by (auto simp: SpanBestFitLess_def split: if_splits)

section \<open>Doubly linked lists\<close>

definition DLL_Init :: "addr \<Rightarrow> span_store \<Rightarrow> span_store result" where
  "DLL_Init l st = bindR (modify l (\<lambda>s. s\<lparr>sp_next := l\<rparr>) st) (modify l (\<lambda>s. s\<lparr>sp_prev := l\<rparr>))"

definition DLL_Remove :: "addr \<Rightarrow> span_store \<Rightarrow> span_store result" where
  "DLL_Remove sp st =
     bindR (deref st sp) (\<lambda>s.
     bindR (modify (sp_prev s) (\<lambda>p. p\<lparr>sp_next := sp_next s\<rparr>) st) (\<lambda>st1.
     bindR (deref st1 sp) (\<lambda>s1.
     bindR (modify (sp_next s1) (\<lambda>n. n\<lparr>sp_prev := sp_prev s1\<rparr>) st1) (\<lambda>st2.
     bindR (modify sp (\<lambda>x. x\<lparr>sp_prev := NULL\<rparr>) st2)
       (modify sp (\<lambda>x. x\<lparr>sp_next := NULL\<rparr>))))))"

definition DLL_IsEmpty :: "addr \<Rightarrow> span_store \<Rightarrow> bool result" where
  "DLL_IsEmpty l st = bindR (deref st l) (\<lambda>s. Inr (sp_next s = l))"

definition DLL_Prepend :: "addr \<Rightarrow> addr \<Rightarrow> span_store \<Rightarrow> span_store result" where
  "DLL_Prepend l sp st =
     bindR (deref st sp) (\<lambda>s. check (sp_next s = NULL) (check (sp_prev s = NULL)
     (bindR (deref st l) (\<lambda>h.
      bindR (modify sp (\<lambda>x. x\<lparr>sp_next := sp_next h\<rparr>) st) (\<lambda>st1.
      bindR (modify sp (\<lambda>x. x\<lparr>sp_prev := l\<rparr>) st1) (\<lambda>st2.
      bindR (deref st2 l) (\<lambda>h2.
      bindR (modify (sp_next h2) (\<lambda>x. x\<lparr>sp_prev := sp\<rparr>) st2)
        (modify l (\<lambda>x. x\<lparr>sp_next := sp\<rparr>)))))))))"

text \<open>The loop of \<open>DLL_Length\<close> with its \<open>int\<close> counter.\<close>

function dll_count :: "addr \<Rightarrow> addr \<Rightarrow> int \<Rightarrow> span_store \<Rightarrow> int result" where
  "dll_count l s result st =
     (if s = l then Inr result
      else if result \<ge> int_max then Inl SignedOverflow
      else bindR (deref st s) (\<lambda>x. dll_count l (sp_next x) (result + 1) st))"
  by pat_completeness auto
termination by (relation "measure (\<lambda>(l, s, result, st). nat (int_max - result))") auto

declare dll_count.simps [simp del]

definition DLL_Length :: "addr \<Rightarrow> span_store \<Rightarrow> int result" where
  "DLL_Length l st = bindR (deref st l) (\<lambda>h. dll_count l (sp_next h) 0 st)"

section \<open>Lists of spans\<close>

definition nx :: "span_store \<Rightarrow> addr \<Rightarrow> addr option" where "nx st a = map_option sp_next (st a)"
definition pv :: "span_store \<Rightarrow> addr \<Rightarrow> addr option" where "pv st a = map_option sp_prev (st a)"

definition link :: "(addr \<Rightarrow> addr option) \<Rightarrow> (addr \<Rightarrow> addr option) \<Rightarrow> addr \<Rightarrow> addr \<Rightarrow> bool" where
  "link n p a b \<longleftrightarrow> n a = Some b \<and> p b = Some a"

definition ring :: "(addr \<Rightarrow> addr option) \<Rightarrow> (addr \<Rightarrow> addr option) \<Rightarrow> addr \<Rightarrow> addr list \<Rightarrow> bool" where
  "ring n p l xs \<longleftrightarrow> distinct (l # xs) \<and> NULL \<notin> set (l # xs) \<and> successively (link n p) (l # xs @ [l])"

abbreviation dll :: "span_store \<Rightarrow> addr \<Rightarrow> addr list \<Rightarrow> bool" where
  "dll st l xs \<equiv> ring (nx st) (pv st) l xs"

lemma successively_frame:
  "successively P zs \<Longrightarrow> (\<And>a b. a \<in> set (butlast zs) \<Longrightarrow> b \<in> set (tl zs) \<Longrightarrow> P a b \<Longrightarrow> Q a b) \<Longrightarrow> successively Q zs"
proof (induction zs rule: induct_list012)
  case (3 x y zs)
  have "successively Q (y # zs)"
    by (rule 3(2)) (use 3(3,4) in \<open>auto split: if_splits dest: in_set_butlastD\<close>)
  then show ?case using 3(3,4) by auto
qed simp_all

lemma ring_prepend:
  assumes "ring n p l xs" "s \<notin> set (l # xs)" "s \<noteq> NULL"
  defines "f \<equiv> hd (xs @ [l])"
  shows "ring (n(s \<mapsto> f, l \<mapsto> s)) (p(s \<mapsto> l, f \<mapsto> s)) l (s # xs)"
proof -
  let ?n = "n(s \<mapsto> f, l \<mapsto> s)" and ?p = "p(s \<mapsto> l, f \<mapsto> s)"
  have d: "distinct (l # xs)" "NULL \<notin> set (l # xs)" "successively (link n p) (l # xs @ [l])" using assms(1) by (auto simp: ring_def)
  obtain ys where ys: "xs @ [l] = f # ys" unfolding f_def by (cases "xs @ [l]") auto
  have bl: "butlast (xs @ [l]) = xs" by simp
  have f: "f \<in> set (l # xs)" "f \<notin> set ys"
    using ys d(1) by (cases xs; auto)+
  have "successively (link n p) (xs @ [l])" using d(3) by (auto simp: successively_Cons)
  then have "successively (link ?n ?p) (xs @ [l])"
  proof (rule successively_frame)
    fix a b
    assume "a \<in> set (butlast (xs @ [l]))" "b \<in> set (tl (xs @ [l]))" and ab: "link n p a b"
    then have m: "a \<in> set xs" "b \<in> set ys" by (simp_all only: bl) (simp_all only: ys list.sel)
    have "set ys \<subseteq> set (xs @ [l])" unfolding ys by auto
    with m d(1) f(2) assms(2) have "a \<noteq> l" "a \<noteq> s" "b \<noteq> s" "b \<noteq> f" by auto
    with ab show "link ?n ?p a b" by (simp add: link_def)
  qed
  moreover have "link ?n ?p s f" "link ?n ?p l s" using assms(2) f by (auto simp: link_def)
  ultimately show ?thesis using d assms(2,3) ys unfolding ring_def by (simp add: successively_Cons)
qed

lemma ring_remove:
  assumes "ring n p l (us @ s # vs)"
  defines "a \<equiv> last (l # us)" and "b \<equiv> hd (vs @ [l])"
  shows "n s = Some b" "p s = Some a" "ring (n(a \<mapsto> b, s \<mapsto> 0)) (p(b \<mapsto> a, s \<mapsto> 0)) l (us @ vs)"
proof -
  let ?n = "n(a \<mapsto> b, s \<mapsto> 0)" and ?p = "p(b \<mapsto> a, s \<mapsto> 0)"
  have d: "distinct (l # us @ s # vs)" "NULL \<notin> set (l # us @ s # vs)" using assms(1) by (auto simp: ring_def)
  have "successively (link n p) ((l # us) @ s # vs @ [l])" using assms(1) by (simp add: ring_def)
  then have s1: "successively (link n p) (l # us)" "link n p a s" and s2: "successively (link n p) (s # vs @ [l])"
    unfolding successively_append_iff a_def by auto
  then have s3: "successively (link n p) (vs @ [l])" "link n p s b" by (auto simp: successively_Cons b_def split: if_splits)
  then show "n s = Some b" "p s = Some a" using s1(2) by (auto simp: link_def)
  obtain ys where ys: "vs @ [l] = b # ys" unfolding b_def by (cases "vs @ [l]") auto
  have bl: "butlast (vs @ [l]) = vs" by simp
  have lu: "butlast (l # us) @ [a] = l # us" unfolding a_def by simp
  have a: "a \<in> set (l # us)" unfolding a_def by (rule last_in_set) simp
  have b: "b \<in> set (l # vs)" "b \<notin> set ys" using ys d(1) by (cases vs; auto)+
  have a_bl: "a \<notin> set (butlast (l # us))" using d(1) lu by (metis distinct_append distinct.simps(2) not_distinct_conv_prefix append_Cons in_set_butlastD distinct_butlast)
  have "successively (link ?n ?p) (l # us)"
  proof (rule successively_frame [OF s1(1)])
    fix x y
    assume x: "x \<in> set (butlast (l # us))" and y: "y \<in> set (tl (l # us))" and xy: "link n p x y"
    have "x \<noteq> a" using x a_bl by blast
    moreover have "x \<noteq> s" using in_set_butlastD [OF x] d(1) by auto
    moreover have "y \<noteq> b" "y \<noteq> s" using y b(1) d(1) by auto
    ultimately show "link ?n ?p x y" using xy by (simp add: link_def)
  qed
  moreover have "successively (link ?n ?p) (vs @ [l])"
  proof (rule successively_frame [OF s3(1)])
    fix x y
    assume "x \<in> set (butlast (vs @ [l]))" "y \<in> set (tl (vs @ [l]))" and xy: "link n p x y"
    then have m: "x \<in> set vs" "y \<in> set ys" by (simp_all only: bl) (simp_all only: ys list.sel)
    have "set ys \<subseteq> set (vs @ [l])" unfolding ys by auto
    with m d(1) a b(2) have "x \<noteq> a" "x \<noteq> s" "y \<noteq> s" "y \<noteq> b" by auto
    with xy show "link ?n ?p x y" by (simp add: link_def)
  qed
  moreover have "link ?n ?p a b" using a b d(1) by (auto simp: link_def)
  ultimately have "successively (link ?n ?p) ((l # us) @ vs @ [l])"
    unfolding successively_append_iff [of _ "l # us"] a_def b_def by auto
  then show "ring ?n ?p l (us @ vs)" using d unfolding ring_def by auto
qed

text \<open>How a modification of a span acts on the links.\<close>

lemma links_modify [simp]:
  "st a = Some x \<Longrightarrow> nx (st(a \<mapsto> x\<lparr>sp_next := v\<rparr>)) = (nx st)(a \<mapsto> v)"
  "st a = Some x \<Longrightarrow> pv (st(a \<mapsto> x\<lparr>sp_next := v\<rparr>)) = pv st"
  "st a = Some x \<Longrightarrow> nx (st(a \<mapsto> x\<lparr>sp_prev := v\<rparr>)) = nx st"
  "st a = Some x \<Longrightarrow> pv (st(a \<mapsto> x\<lparr>sp_prev := v\<rparr>)) = (pv st)(a \<mapsto> v)"
  by (auto simp: nx_def pv_def)

lemma nx_Some: "nx st a = Some b \<longleftrightarrow> (\<exists>x. st a = Some x \<and> sp_next x = b)"
  by (simp add: nx_def)

lemma pv_Some: "pv st a = Some b \<longleftrightarrow> (\<exists>x. st a = Some x \<and> sp_prev x = b)"
  by (simp add: pv_def)

lemma successively_nx: "successively (link n p) zs \<Longrightarrow> a \<in> set (butlast zs) \<Longrightarrow> n a \<noteq> None"
  by (induction zs rule: induct_list012) (auto simp: link_def split: if_splits)

lemma ring_dom: "dll st l xs \<Longrightarrow> set (l # xs) \<subseteq> dom st"
proof
  fix a
  assume r: "dll st l xs" "a \<in> set (l # xs)"
  have "butlast (l # xs @ [l]) = l # xs" by simp
  then have "nx st a \<noteq> None" using successively_nx [of "nx st" "pv st" "l # xs @ [l]" a] r by (metis ring_def)
  then show "a \<in> dom st" by (auto simp: nx_def)
qed

lemma ring_ends:
  assumes "dll st l xs"
  shows "nx st l = Some (hd (xs @ [l]))" "pv st l = Some (last (l # xs))"
proof -
  have s: "successively (link (nx st) (pv st)) ((l # xs) @ [l])" using assms by (simp add: ring_def)
  then show "nx st l = Some (hd (xs @ [l]))" by (cases xs) (auto simp: link_def)
  from s show "pv st l = Some (last (l # xs))" unfolding successively_append_iff by (auto simp: link_def)
qed

text \<open>What a list operation leaves alone: everything but the two links.\<close>

definition body :: "span_store \<Rightarrow> addr \<Rightarrow> span option" where
  "body st a = map_option (\<lambda>x. x\<lparr>sp_next := NULL, sp_prev := NULL\<rparr>) (st a)"

lemma modify_links:
  assumes "a \<noteq> NULL" "a \<in> dom st"
  shows "\<exists>st'. modify a (\<lambda>x. x\<lparr>sp_next := v\<rparr>) st = Inr st' \<and> nx st' = (nx st)(a \<mapsto> v) \<and> pv st' = pv st \<and> dom st' = dom st \<and> body st' = body st"
    "\<exists>st'. modify a (\<lambda>x. x\<lparr>sp_prev := v\<rparr>) st = Inr st' \<and> nx st' = nx st \<and> pv st' = (pv st)(a \<mapsto> v) \<and> dom st' = dom st \<and> body st' = body st"
proof -
  obtain x where x: "st a = Some x" using assms(2) by auto
  have "body (st(a \<mapsto> x\<lparr>sp_next := v\<rparr>)) = body st" "body (st(a \<mapsto> x\<lparr>sp_prev := v\<rparr>)) = body st"
    using x by (auto simp: body_def fun_eq_iff)
  then show "\<exists>st'. modify a (\<lambda>x. x\<lparr>sp_next := v\<rparr>) st = Inr st' \<and> nx st' = (nx st)(a \<mapsto> v) \<and> pv st' = pv st \<and> dom st' = dom st \<and> body st' = body st"
    "\<exists>st'. modify a (\<lambda>x. x\<lparr>sp_prev := v\<rparr>) st = Inr st' \<and> nx st' = nx st \<and> pv st' = (pv st)(a \<mapsto> v) \<and> dom st' = dom st \<and> body st' = body st"
    using x assms by (auto simp: insert_absorb)
qed

lemma deref_links:
  assumes "a \<noteq> NULL" "a \<in> dom st"
  shows "\<exists>x. deref st a = Inr x \<and> nx st a = Some (sp_next x) \<and> pv st a = Some (sp_prev x)"
  using assms by (auto simp: nx_def pv_def)

lemma DLL_Prepend_ring:
  assumes r: "dll st l xs" and s: "s \<notin> set (l # xs)" "s \<noteq> NULL" "nx st s = Some NULL" "pv st s = Some NULL"
  shows "\<exists>st'. DLL_Prepend l s st = Inr st' \<and> dll st' l (s # xs) \<and> dom st' = dom st \<and> body st' = body st"
proof -
  let ?f = "hd (xs @ [l])"
  have f: "?f \<in> set (l # xs)" by (cases xs) auto
  have nz: "l \<noteq> NULL" "?f \<noteq> NULL" using r f by (auto simp: ring_def)
  have dm: "s \<in> dom st" "l \<in> dom st" "?f \<in> dom st" using ring_dom [OF r] f s(3) by (auto simp: nx_def)
  obtain x where x: "deref st s = Inr x" "sp_next x = NULL" "sp_prev x = NULL" using deref_links [OF s(2) dm(1)] s(3,4) by auto
  obtain h where h: "deref st l = Inr h" "sp_next h = ?f" using deref_links [OF nz(1) dm(2)] ring_ends [OF r] by auto
  obtain st1 where st1: "modify s (\<lambda>x. x\<lparr>sp_next := ?f\<rparr>) st = Inr st1" "nx st1 = (nx st)(s \<mapsto> ?f)" "pv st1 = pv st" "dom st1 = dom st" "body st1 = body st"
    using modify_links(1) [OF s(2) dm(1)] by blast
  obtain st2 where st2: "modify s (\<lambda>x. x\<lparr>sp_prev := l\<rparr>) st1 = Inr st2" "nx st2 = nx st1" "pv st2 = (pv st1)(s \<mapsto> l)" "dom st2 = dom st" "body st2 = body st"
    using modify_links(2) [OF s(2), of st1] dm(1) st1 by metis
  obtain h2 where h2: "deref st2 l = Inr h2" "sp_next h2 = ?f"
    using deref_links [OF nz(1), of st2] dm(2) st1(2) st2(2,4) ring_ends(1) [OF r] s(1) by auto
  obtain st3 where st3: "modify ?f (\<lambda>x. x\<lparr>sp_prev := s\<rparr>) st2 = Inr st3" "nx st3 = nx st2" "pv st3 = (pv st2)(?f \<mapsto> s)" "dom st3 = dom st" "body st3 = body st"
    using modify_links(2) [OF nz(2), of st2] dm(3) st2 by metis
  obtain st4 where st4: "modify l (\<lambda>x. x\<lparr>sp_next := s\<rparr>) st3 = Inr st4" "nx st4 = (nx st3)(l \<mapsto> s)" "pv st4 = pv st3" "dom st4 = dom st" "body st4 = body st"
    using modify_links(1) [OF nz(1), of st3] dm(2) st3 by metis
  have "DLL_Prepend l s st = Inr st4"
    using x h st1(1) st2(1) h2 st3(1) st4(1) by (simp add: DLL_Prepend_def)
  moreover have "dll st4 l (s # xs)" using ring_prepend [OF r s(1,2)] unfolding st4(2,3) st3(2,3) st2(2,3) st1(2,3) .
  ultimately show ?thesis using st4(4,5) by blast
qed

lemma DLL_Remove_ring:
  assumes r: "dll st l (us @ s # vs)"
  shows "\<exists>st'. DLL_Remove s st = Inr st' \<and> dll st' l (us @ vs) \<and> dom st' = dom st \<and> body st' = body st \<and>
    nx st' s = Some NULL \<and> pv st' s = Some NULL"
proof -
  let ?a = "last (l # us)" and ?b = "hd (vs @ [l])"
  have ab: "?a \<in> set (l # us)" "?b \<in> set (l # vs)" using last_in_set [of "l # us"] by (simp, cases vs, auto)
  have nz: "?a \<noteq> NULL" "?b \<noteq> NULL" "s \<noteq> NULL" and ne: "?a \<noteq> s" "?b \<noteq> s" using r ab by (auto simp: ring_def)
  have dm: "s \<in> dom st" "?a \<in> dom st" "?b \<in> dom st" using ring_dom [OF r] ab by auto
  obtain x where x: "deref st s = Inr x" "sp_next x = ?b" "sp_prev x = ?a"
    using deref_links [OF nz(3) dm(1)] ring_remove(1,2) [OF r] by auto
  obtain st1 where st1: "modify ?a (\<lambda>p. p\<lparr>sp_next := ?b\<rparr>) st = Inr st1" "nx st1 = (nx st)(?a \<mapsto> ?b)" "pv st1 = pv st" "dom st1 = dom st" "body st1 = body st"
    using modify_links(1) [OF nz(1) dm(2)] by blast
  obtain x1 where x1: "deref st1 s = Inr x1" "sp_next x1 = ?b" "sp_prev x1 = ?a"
    using deref_links [OF nz(3), of st1] dm(1) st1(2-4) ring_remove(1,2) [OF r] ne by auto
  obtain st2 where st2: "modify ?b (\<lambda>n. n\<lparr>sp_prev := ?a\<rparr>) st1 = Inr st2" "nx st2 = nx st1" "pv st2 = (pv st1)(?b \<mapsto> ?a)" "dom st2 = dom st" "body st2 = body st"
    using modify_links(2) [OF nz(2), of st1] dm(3) st1 by metis
  obtain st3 where st3: "modify s (\<lambda>x. x\<lparr>sp_prev := NULL\<rparr>) st2 = Inr st3" "nx st3 = nx st2" "pv st3 = (pv st2)(s \<mapsto> NULL)" "dom st3 = dom st" "body st3 = body st"
    using modify_links(2) [OF nz(3), of st2] dm(1) st2 by metis
  obtain st4 where st4: "modify s (\<lambda>x. x\<lparr>sp_next := NULL\<rparr>) st3 = Inr st4" "nx st4 = (nx st3)(s \<mapsto> NULL)" "pv st4 = pv st3" "dom st4 = dom st" "body st4 = body st"
    using modify_links(1) [OF nz(3), of st3] dm(1) st3 by metis
  have "DLL_Remove s st = Inr st4" using x st1(1) x1 st2(1) st3(1) st4(1) by (simp add: DLL_Remove_def)
  moreover have "dll st4 l (us @ vs)" using ring_remove(3) [OF r] unfolding st4(2,3) st3(2,3) st2(2,3) st1(2,3) .
  ultimately show ?thesis using st3(3) st4(2-5) by auto
qed

lemma dll_count_ring:
  assumes "successively (link (nx st) (pv st)) (xs @ [l])" "l \<notin> set xs" "NULL \<notin> set xs" "0 \<le> c" "c + int (length xs) \<le> int_max"
  shows "dll_count l (hd (xs @ [l])) c st = Inr (c + int (length xs))"
  using assms
proof (induction xs arbitrary: c)
  case Nil
  then show ?case by (simp add: dll_count.simps)
next
  case (Cons x xs)
  then have lk: "link (nx st) (pv st) x (hd (xs @ [l]))" "successively (link (nx st) (pv st)) (xs @ [l])"
    by (auto simp: successively_Cons)
  then obtain y where y: "st x = Some y" "sp_next y = hd (xs @ [l])" by (auto simp: link_def nx_def)
  with Cons.IH [OF lk(2), of "c + 1"] Cons.prems show ?case
    by (subst dll_count.simps) auto
qed

lemma DLL_Length_ring: "dll st l xs \<Longrightarrow> int (length xs) \<le> int_max \<Longrightarrow> DLL_Length l st = Inr (int (length xs))"
proof -
  assume r: "dll st l xs" and le: "int (length xs) \<le> int_max"
  obtain h where "deref st l = Inr h" "sp_next h = hd (xs @ [l])"
    using deref_links [of l st] ring_dom [OF r] ring_ends(1) [OF r] r by (auto simp: ring_def)
  moreover have "successively (link (nx st) (pv st)) (xs @ [l])" using r by (auto simp: ring_def successively_Cons)
  ultimately show ?thesis using dll_count_ring [of st xs l 0] r le by (simp add: DLL_Length_def ring_def)
qed

lemma DLL_IsEmpty_ring: "dll st l xs \<Longrightarrow> DLL_IsEmpty l st = Inr (xs = [])"
proof -
  assume r: "dll st l xs"
  obtain h where "deref st l = Inr h" "sp_next h = hd (xs @ [l])"
    using deref_links [of l st] ring_dom [OF r] ring_ends(1) [OF r] r by (auto simp: ring_def)
  then show ?thesis using r by (cases xs) (auto simp: DLL_IsEmpty_def ring_def)
qed

lemma DLL_Init_ring: "l \<noteq> NULL \<Longrightarrow> l \<in> dom st \<Longrightarrow> \<exists>st'. DLL_Init l st = Inr st' \<and> dll st' l []"
  by (auto simp: DLL_Init_def ring_def link_def nx_def pv_def)

lemma ring_frame: "dll st l' ys \<Longrightarrow> (\<And>a. a \<in> set (l' # ys) \<Longrightarrow> nx st' a = nx st a \<and> pv st' a = pv st a) \<Longrightarrow> dll st' l' ys"
proof -
  assume r: "dll st l' ys" and eq: "\<And>a. a \<in> set (l' # ys) \<Longrightarrow> nx st' a = nx st a \<and> pv st' a = pv st a"
  have "successively (link (nx st) (pv st)) (l' # ys @ [l'])" using r by (simp add: ring_def)
  then have "successively (link (nx st') (pv st')) (l' # ys @ [l'])"
  proof (rule successively_frame)
    fix a b
    assume "a \<in> set (butlast (l' # ys @ [l']))" "b \<in> set (tl (l' # ys @ [l']))" "link (nx st) (pv st) a b"
    moreover from this have "a \<in> set (l' # ys)" "b \<in> set (l' # ys)" by auto
    ultimately show "link (nx st') (pv st') a b" using eq by (simp add: link_def)
  qed
  with r show ?thesis by (simp add: ring_def)
qed

text \<open>
  C37: The circular lists of spans implement sequences. If the header \<open>l\<close> links the spans \<open>xs\<close>, then
  \<open>DLL_IsEmpty\<close> and \<open>DLL_Length\<close> answer for \<open>xs\<close>, the header's \<open>next\<close> and \<open>prev\<close> are the first and last span
  (or the header), \<open>DLL_Prepend\<close> of an unlinked span passes its assertions and gives the sequence with the span
  in front, and \<open>DLL_Remove\<close> of any span of \<open>xs\<close> gives the sequence without it and leaves the span unlinked. No
  operation faults or changes anything but links.
\<close>

theorem dll_refines_list:
  assumes "dll st l xs"
  shows "DLL_IsEmpty l st = Inr (xs = []) \<and>
    nx st l = Some (hd (xs @ [l])) \<and> pv st l = Some (last (l # xs)) \<and>
    (int (length xs) \<le> int_max \<longrightarrow> DLL_Length l st = Inr (int (length xs))) \<and>
    (\<forall>s. s \<notin> set (l # xs) \<and> s \<noteq> NULL \<and> nx st s = Some NULL \<and> pv st s = Some NULL \<longrightarrow>
       (\<exists>st'. DLL_Prepend l s st = Inr st' \<and> dll st' l (s # xs) \<and> body st' = body st)) \<and>
    (\<forall>s. s \<in> set xs \<longrightarrow>
       (\<exists>st'. DLL_Remove s st = Inr st' \<and> dll st' l (remove1 s xs) \<and> body st' = body st \<and>
          nx st' s = Some NULL \<and> pv st' s = Some NULL))"
proof -
  have "\<exists>st'. DLL_Remove s st = Inr st' \<and> dll st' l (remove1 s xs) \<and> body st' = body st \<and> nx st' s = Some NULL \<and> pv st' s = Some NULL"
    if m: "s \<in> set xs" for s
  proof -
    obtain us vs where xs: "xs = us @ s # vs" "s \<notin> set us" using split_list_first [OF m] by blast
    then have "remove1 s xs = us @ vs" by (simp add: remove1_append)
    with DLL_Remove_ring [of st l us s vs] assms xs(1) show ?thesis by auto
  qed
  moreover have "\<exists>st'. DLL_Prepend l s st = Inr st' \<and> dll st' l (s # xs) \<and> body st' = body st"
    if "s \<notin> set (l # xs)" "s \<noteq> NULL" "nx st s = Some NULL" "pv st s = Some NULL" for s
    using DLL_Prepend_ring [OF assms that] by blast
  ultimately show ?thesis
    using DLL_IsEmpty_ring [OF assms] ring_ends [OF assms] DLL_Length_ring [OF assms] by blast
qed

theorem dll_refines_list_witness:
  "\<exists>st st1 st2. DLL_Init 8 [8 \<mapsto> span_of 0 0, 16 \<mapsto> span_of 1 1] = Inr st \<and> DLL_Prepend 8 16 st = Inr st1 \<and>
     dll st1 8 [16] \<and> DLL_Length 8 st1 = Inr 1 \<and> DLL_Remove 16 st1 = Inr st2 \<and> DLL_IsEmpty 8 st2 = Inr True"
proof -
  obtain st where i: "DLL_Init 8 [8 \<mapsto> span_of 0 0, 16 \<mapsto> span_of 1 1] = Inr st" "dll st 8 []"
    "nx st 16 = Some NULL" "pv st 16 = Some NULL"
    by (auto simp: DLL_Init_def ring_def link_def nx_def pv_def span_of_def)
  obtain st1 where p: "DLL_Prepend 8 16 st = Inr st1" "dll st1 8 [16]"
    using dll_refines_list [OF i(2), THEN conjunct2, THEN conjunct2, THEN conjunct2, THEN conjunct2, THEN conjunct1, rule_format, of 16] i(3,4)
    by auto
  have len: "DLL_Length 8 st1 = Inr 1" using dll_refines_list [OF p(2)] by (simp add: int_max_def)
  obtain st2 where "DLL_Remove 16 st1 = Inr st2" "dll st2 8 []"
    using dll_refines_list [OF p(2), THEN conjunct2, THEN conjunct2, THEN conjunct2, THEN conjunct2, THEN conjunct2, rule_format, of 16]
    by auto
  moreover from this have "DLL_IsEmpty 8 st2 = Inr True" using dll_refines_list [of st2 8 "[]"] by simp
  ultimately show ?thesis using i p len by blast
qed

end
