(* ===== verification/Page_Map.thy ===== *)
theory Page_Map
  imports Tc_Prelude
begin

unbundle bit_operations_syntax

text \<open>
  The page maps of the allocator: src/libs/tcmalloc/src/pagemap.h. A flat array and radix trees with two
  and three levels map page numbers below \<open>2 ^ BITS\<close> to pointers. A node is a function from indices to
  entries, and every access states its bound. The allocator for nodes is an argument, as in the constructor;
  it may return null. The interface \<open>page_map\<close> says what a page map promises, and each map provides it.
\<close>

type_synonym leaf = "int \<Rightarrow> addr"
type_synonym 'w node_alloc = "int \<Rightarrow> 'w \<Rightarrow> (addr \<times> 'w) result"

definition read_at :: "int \<Rightarrow> (int \<Rightarrow> 'a) \<Rightarrow> int \<Rightarrow> 'a result" where
  "read_at len a i = (if 0 \<le> i \<and> i < len then Inr (a i) else Inl OutOfBounds)"

definition write_at :: "int \<Rightarrow> (int \<Rightarrow> 'a) \<Rightarrow> int \<Rightarrow> 'a \<Rightarrow> (int \<Rightarrow> 'a) result" where
  "write_at len a i v = (if 0 \<le> i \<and> i < len then Inr (a(i := v)) else Inl OutOfBounds)"

lemma read_at_ok [simp]: "0 \<le> i \<Longrightarrow> i < len \<Longrightarrow> read_at len a i = Inr (a i)"
  by (simp add: read_at_def)

lemma write_at_ok [simp]: "0 \<le> i \<Longrightarrow> i < len \<Longrightarrow> write_at len a i v = Inr (a(i := v))"
  by (simp add: write_at_def)

text \<open>Scanning a leaf forward for a non-null entry.\<close>

function scan_leaf :: "int \<Rightarrow> leaf \<Rightarrow> int \<Rightarrow> addr" where
  "scan_leaf len l i = (if i < len then (if l i \<noteq> NULL then l i else scan_leaf len l (i + 1)) else NULL)"
  by pat_completeness auto
termination by (relation "measure (\<lambda>(len, l, i). nat (len - i))") auto

declare scan_leaf.simps [simp del]

section \<open>Single-level array\<close>

definition pm1_new :: leaf where "pm1_new = (\<lambda>_. NULL)"

text \<open>\<open>n <= LENGTH - x\<close>, in unsigned arithmetic.\<close>

definition pm1_ensure :: "nat \<Rightarrow> int \<Rightarrow> int \<Rightarrow> bool" where
  "pm1_ensure BITS x n \<longleftrightarrow> n \<le> to_size_t (2 ^ BITS - x)"

definition pm1_get :: "nat \<Rightarrow> leaf \<Rightarrow> int \<Rightarrow> addr result" where
  "pm1_get BITS m k = (if drop_bit BITS k > 0 then Inr NULL else read_at (2 ^ BITS) m k)"

definition pm1_set :: "nat \<Rightarrow> leaf \<Rightarrow> int \<Rightarrow> addr \<Rightarrow> leaf result" where
  "pm1_set BITS m k v = write_at (2 ^ BITS) m k v"

definition pm1_next :: "nat \<Rightarrow> leaf \<Rightarrow> int \<Rightarrow> addr" where
  "pm1_next BITS m k = scan_leaf (2 ^ BITS) m k"

section \<open>Two-level radix tree\<close>

definition leaf_bits2 :: "nat \<Rightarrow> nat" where "leaf_bits2 BITS = (BITS + 1) div 2"
definition root_bits2 :: "nat \<Rightarrow> nat" where "root_bits2 BITS = BITS - leaf_bits2 BITS"

type_synonym pm2 = "int \<Rightarrow> leaf option"

definition pm2_new :: pm2 where "pm2_new = (\<lambda>_. None)"

definition pm2_get :: "nat \<Rightarrow> pm2 \<Rightarrow> int \<Rightarrow> addr result" where
  "pm2_get BITS m k =
     (let i1 = drop_bit (leaf_bits2 BITS) k; i2 = k AND (2 ^ leaf_bits2 BITS - 1)
      in if drop_bit BITS k > 0 then Inr NULL
         else bindR (read_at (2 ^ root_bits2 BITS) m i1) (\<lambda>e.
           case e of None \<Rightarrow> Inr NULL | Some l \<Rightarrow> read_at (2 ^ leaf_bits2 BITS) l i2))"

definition pm2_set :: "nat \<Rightarrow> pm2 \<Rightarrow> int \<Rightarrow> addr \<Rightarrow> pm2 result" where
  "pm2_set BITS m k v =
     (let i1 = drop_bit (leaf_bits2 BITS) k; i2 = k AND (2 ^ leaf_bits2 BITS - 1)
      in check (i1 < 2 ^ root_bits2 BITS)
           (bindR (read_at (2 ^ root_bits2 BITS) m i1) (\<lambda>e.
              case e of None \<Rightarrow> Inl NullDeref
              | Some l \<Rightarrow> bindR (write_at (2 ^ leaf_bits2 BITS) l i2 v) (\<lambda>l'. Inr (m(i1 \<mapsto> l'))))))"

text \<open>The end of the loop, \<open>start + n - 1\<close>, is computed in 64 bits.\<close>

lemma next_key: "k < (k div 2 ^ L + 1) * (2 :: int) ^ L"
proof -
  have "k mod 2 ^ L < 2 ^ L" by simp
  with div_mult_mod_eq [of k "2 ^ L"] show ?thesis unfolding distrib_right by linarith
qed

lemma div_less_key: "k div 2 ^ L < (2 :: int) ^ R \<Longrightarrow> k < 2 ^ (L + R)"
proof -
  assume "k div 2 ^ L < (2 :: int) ^ R"
  then have "(k div 2 ^ L + 1) * 2 ^ L \<le> (2 :: int) ^ R * 2 ^ L" by (intro mult_right_mono) simp_all
  with next_key [of k L] have "k < 2 ^ R * 2 ^ L" by (rule less_le_trans)
  then show ?thesis by (simp add: power_add mult.commute)
qed

lemma next_key_measure: "k < (B :: int) \<Longrightarrow> nat (B - (k div 2 ^ L + 1) * 2 ^ L) < nat (B - k)"
  using next_key [of k L] by linarith

function pm2_ensure_loop ::
  "nat \<Rightarrow> 'w node_alloc \<Rightarrow> int \<Rightarrow> int \<Rightarrow> pm2 \<Rightarrow> 'w \<Rightarrow> (bool \<times> pm2 \<times> 'w) result" where
  "pm2_ensure_loop BITS alloc key lst m w =
     (if key \<le> lst then
        let i1 = drop_bit (leaf_bits2 BITS) key
        in if i1 \<ge> 2 ^ root_bits2 BITS then Inr (False, m, w)
           else
             let next_k = push_bit (leaf_bits2 BITS) (i1 + 1)
             in (case m i1 of
                   Some _ \<Rightarrow> pm2_ensure_loop BITS alloc next_k lst m w
                 | None \<Rightarrow>
                     bindR (alloc (8 * 2 ^ leaf_bits2 BITS) w) (\<lambda>(p, w1).
                       if p = NULL then Inr (False, m, w1)
                       else pm2_ensure_loop BITS alloc next_k lst (m(i1 \<mapsto> (\<lambda>_. NULL))) w1))
      else Inr (True, m, w))"
  by pat_completeness auto
termination
  by (relation "measure (\<lambda>(BITS, alloc, key, lst, m, w). nat (2 ^ (leaf_bits2 BITS + root_bits2 BITS) - key))")
     (auto simp: drop_bit_eq_div push_bit_eq_mult not_le intro!: next_key_measure div_less_key
           simp del: diff_less_eq zless_nat_conj nat_less_eq_zless)

declare pm2_ensure_loop.simps [simp del]

definition pm2_ensure :: "nat \<Rightarrow> 'w node_alloc \<Rightarrow> int \<Rightarrow> int \<Rightarrow> pm2 \<Rightarrow> 'w \<Rightarrow> (bool \<times> pm2 \<times> 'w) result" where
  "pm2_ensure BITS alloc start n m w = pm2_ensure_loop BITS alloc start (to_size_t (start + n - 1)) m w"

definition pm2_preallocate :: "nat \<Rightarrow> 'w node_alloc \<Rightarrow> pm2 \<Rightarrow> 'w \<Rightarrow> (pm2 \<times> 'w) result" where
  "pm2_preallocate BITS alloc m w =
     (if BITS < 20 then bindR (pm2_ensure BITS alloc 0 (2 ^ BITS) m w) (\<lambda>(_, m1, w1). Inr (m1, w1)) else Inr (m, w))"

function pm2_next :: "nat \<Rightarrow> pm2 \<Rightarrow> int \<Rightarrow> addr" where
  "pm2_next BITS m k =
     (if k < 2 ^ BITS then
        let i1 = drop_bit (leaf_bits2 BITS) k;
            found = (case m i1 of None \<Rightarrow> NULL
                     | Some l \<Rightarrow> scan_leaf (2 ^ leaf_bits2 BITS) l (k AND (2 ^ leaf_bits2 BITS - 1)))
        in if found \<noteq> NULL then found else pm2_next BITS m (push_bit (leaf_bits2 BITS) (i1 + 1))
      else NULL)"
  by pat_completeness auto
termination
  by (relation "measure (\<lambda>(BITS, m, k). nat (2 ^ BITS - k))")
     (auto simp: drop_bit_eq_div push_bit_eq_mult next_key)

declare pm2_next.simps [simp del]

section \<open>Three-level radix tree\<close>

definition interior_bits3 :: "nat \<Rightarrow> nat" where "interior_bits3 BITS = (BITS + 2) div 3"
definition leaf_bits3 :: "nat \<Rightarrow> nat" where "leaf_bits3 BITS = BITS - 2 * interior_bits3 BITS"

type_synonym pm3 = "int \<Rightarrow> (int \<Rightarrow> leaf option) option"

definition pm3_new :: pm3 where "pm3_new = (\<lambda>_. None)"

definition pm3_i1 :: "nat \<Rightarrow> int \<Rightarrow> int" where
  "pm3_i1 BITS k = drop_bit (leaf_bits3 BITS + interior_bits3 BITS) k"
definition pm3_i2 :: "nat \<Rightarrow> int \<Rightarrow> int" where
  "pm3_i2 BITS k = drop_bit (leaf_bits3 BITS) k AND (2 ^ interior_bits3 BITS - 1)"
definition pm3_i3 :: "nat \<Rightarrow> int \<Rightarrow> int" where
  "pm3_i3 BITS k = k AND (2 ^ leaf_bits3 BITS - 1)"

definition pm3_get :: "nat \<Rightarrow> pm3 \<Rightarrow> int \<Rightarrow> addr result" where
  "pm3_get BITS m k =
     (if drop_bit BITS k > 0 then Inr NULL
      else bindR (read_at (2 ^ interior_bits3 BITS) m (pm3_i1 BITS k)) (\<lambda>e1. case e1 of None \<Rightarrow> Inr NULL | Some n \<Rightarrow>
           bindR (read_at (2 ^ interior_bits3 BITS) n (pm3_i2 BITS k)) (\<lambda>e2. case e2 of None \<Rightarrow> Inr NULL | Some l \<Rightarrow>
           read_at (2 ^ leaf_bits3 BITS) l (pm3_i3 BITS k))))"

definition pm3_set :: "nat \<Rightarrow> pm3 \<Rightarrow> int \<Rightarrow> addr \<Rightarrow> pm3 result" where
  "pm3_set BITS m k v =
     check (drop_bit BITS k = 0)
       (bindR (read_at (2 ^ interior_bits3 BITS) m (pm3_i1 BITS k)) (\<lambda>e1. case e1 of None \<Rightarrow> Inl NullDeref | Some n \<Rightarrow>
        bindR (read_at (2 ^ interior_bits3 BITS) n (pm3_i2 BITS k)) (\<lambda>e2. case e2 of None \<Rightarrow> Inl NullDeref | Some l \<Rightarrow>
        bindR (write_at (2 ^ leaf_bits3 BITS) l (pm3_i3 BITS k) v) (\<lambda>l'.
          Inr (m(pm3_i1 BITS k \<mapsto> n(pm3_i2 BITS k \<mapsto> l')))))))"

text \<open>One turn of \<open>Ensure\<close>: the node and the leaf for a key, \<open>False\<close> when one cannot be allocated.\<close>

definition pm3_make_node :: "nat \<Rightarrow> 'w node_alloc \<Rightarrow> int \<Rightarrow> pm3 \<Rightarrow> 'w \<Rightarrow> (bool \<times> pm3 \<times> 'w) result" where
  "pm3_make_node BITS alloc i1 m w =
     (case m i1 of
        Some _ \<Rightarrow> Inr (True, m, w)
      | None \<Rightarrow> bindR (alloc (8 * 2 ^ interior_bits3 BITS) w) (\<lambda>(p, w1).
          if p = NULL then Inr (False, m, w1) else Inr (True, m(i1 \<mapsto> (\<lambda>_. None)), w1)))"

definition pm3_make_leaf :: "nat \<Rightarrow> 'w node_alloc \<Rightarrow> int \<Rightarrow> int \<Rightarrow> pm3 \<Rightarrow> 'w \<Rightarrow> (bool \<times> pm3 \<times> 'w) result" where
  "pm3_make_leaf BITS alloc i1 i2 m w =
     (case m i1 of
        None \<Rightarrow> Inl NullDeref
      | Some n \<Rightarrow>
          (case n i2 of
             Some _ \<Rightarrow> Inr (True, m, w)
           | None \<Rightarrow> bindR (alloc (8 * 2 ^ leaf_bits3 BITS) w) (\<lambda>(p, w1).
               if p = NULL then Inr (False, m, w1) else Inr (True, m(i1 \<mapsto> n(i2 \<mapsto> (\<lambda>_. NULL))), w1))))"

definition pm3_make :: "nat \<Rightarrow> 'w node_alloc \<Rightarrow> int \<Rightarrow> pm3 \<Rightarrow> 'w \<Rightarrow> (bool \<times> pm3 \<times> 'w) result" where
  "pm3_make BITS alloc key m w =
     bindR (pm3_make_node BITS alloc (pm3_i1 BITS key) m w) (\<lambda>(ok, m1, w1).
       if \<not> ok then Inr (False, m1, w1) else pm3_make_leaf BITS alloc (pm3_i1 BITS key) (pm3_i2 BITS key) m1 w1)"

function pm3_ensure_loop ::
  "nat \<Rightarrow> 'w node_alloc \<Rightarrow> int \<Rightarrow> int \<Rightarrow> pm3 \<Rightarrow> 'w \<Rightarrow> (bool \<times> pm3 \<times> 'w) result" where
  "pm3_ensure_loop BITS alloc key lst m w =
     (if key \<le> lst then
        if pm3_i1 BITS key \<ge> 2 ^ interior_bits3 BITS \<or> pm3_i2 BITS key \<ge> 2 ^ interior_bits3 BITS then Inr (False, m, w)
        else bindR (pm3_make BITS alloc key m w) (\<lambda>(ok, m1, w1).
          if \<not> ok then Inr (False, m1, w1)
          else pm3_ensure_loop BITS alloc (push_bit (leaf_bits3 BITS) (drop_bit (leaf_bits3 BITS) key + 1)) lst m1 w1)
      else Inr (True, m, w))"
  by pat_completeness auto
termination
proof (relation "measure (\<lambda>(BITS, alloc, key, lst, m, w). nat (2 ^ (leaf_bits3 BITS + 2 * interior_bits3 BITS) - key))", goal_cases)
  case (2 BITS alloc key lst m w r ok m1w1 m1 w1)
  let ?L = "leaf_bits3 BITS" and ?I = "interior_bits3 BITS"
  have "key div 2 ^ (?L + ?I) < 2 ^ ?I" using 2 by (simp add: pm3_i1_def drop_bit_eq_div not_le)
  from div_less_key [OF this] have "key < 2 ^ (?L + 2 * ?I)" by (simp add: mult_2 add.assoc)
  from next_key_measure [OF this, of ?L] show ?case by (simp add: drop_bit_eq_div push_bit_eq_mult)
qed simp

declare pm3_ensure_loop.simps [simp del]

definition pm3_ensure :: "nat \<Rightarrow> 'w node_alloc \<Rightarrow> int \<Rightarrow> int \<Rightarrow> pm3 \<Rightarrow> 'w \<Rightarrow> (bool \<times> pm3 \<times> 'w) result" where
  "pm3_ensure BITS alloc start n m w = pm3_ensure_loop BITS alloc start (to_size_t (start + n - 1)) m w"

function pm3_next :: "nat \<Rightarrow> pm3 \<Rightarrow> int \<Rightarrow> addr" where
  "pm3_next BITS m k =
     (if k < 2 ^ BITS then
        (case m (pm3_i1 BITS k) of
           None \<Rightarrow> pm3_next BITS m (push_bit (leaf_bits3 BITS + interior_bits3 BITS) (pm3_i1 BITS k + 1))
         | Some n \<Rightarrow>
             let found = (case n (pm3_i2 BITS k) of None \<Rightarrow> NULL
                          | Some l \<Rightarrow> scan_leaf (2 ^ leaf_bits3 BITS) l (pm3_i3 BITS k))
             in if found \<noteq> NULL then found
                else pm3_next BITS m (push_bit (leaf_bits3 BITS) (drop_bit (leaf_bits3 BITS) k + 1)))
      else NULL)"
  by pat_completeness auto
termination
  by (relation "measure (\<lambda>(BITS, m, k). nat (2 ^ BITS - k))")
     (auto simp: pm3_i1_def drop_bit_eq_div push_bit_eq_mult next_key)

declare pm3_next.simps [simp del]

section \<open>The contract of a page map\<close>

text \<open>\<open>v\<close> is the first non-null value of \<open>f\<close> from \<open>k\<close> on below \<open>B\<close>, or null when there is none.\<close>

definition next_spec :: "(int \<Rightarrow> addr) \<Rightarrow> int \<Rightarrow> int \<Rightarrow> addr \<Rightarrow> bool" where
  "next_spec f k B v \<longleftrightarrow>
     (v = NULL \<and> (\<forall>j. k \<le> j \<and> j < B \<longrightarrow> f j = NULL)) \<or>
     (\<exists>j. k \<le> j \<and> j < B \<and> f j = v \<and> v \<noteq> NULL \<and> (\<forall>i. k \<le> i \<and> i < j \<longrightarrow> f i = NULL))"

text \<open>Storing one value under several keys, as the callers do.\<close>

fun set_keys :: "('m \<Rightarrow> int \<Rightarrow> addr \<Rightarrow> 'm result) \<Rightarrow> int list \<Rightarrow> addr \<Rightarrow> 'm \<Rightarrow> 'm result" where
  "set_keys set_at [] v m = Inr m"
| "set_keys set_at (k # ks) v m = bindR (set_at m k v) (set_keys set_at ks v)"

locale page_map =
  fixes get_at :: "'m \<Rightarrow> int \<Rightarrow> addr result"
    and set_at :: "'m \<Rightarrow> int \<Rightarrow> addr \<Rightarrow> 'm result"
    and next_at :: "'m \<Rightarrow> int \<Rightarrow> addr"
    and ensured :: "'m \<Rightarrow> int \<Rightarrow> bool"
    and lookup :: "'m \<Rightarrow> int \<Rightarrow> addr"
    and bits :: nat
  assumes get_lookup: "0 \<le> k \<Longrightarrow> get_at m k = Inr (lookup m k)"
    and lookup_unset: "\<not> ensured m k \<Longrightarrow> lookup m k = NULL"
    and set_lookup: "ensured m k \<Longrightarrow> \<exists>m'. set_at m k v = Inr m' \<and> lookup m' = (lookup m)(k := v) \<and> ensured m' = ensured m"
    and next_first: "0 \<le> k \<Longrightarrow> next_spec (lookup m) k (2 ^ bits) (next_at m k)"
begin

lemma set_keys_lookup:
  "(\<And>k. k \<in> set ks \<Longrightarrow> ensured m k) \<Longrightarrow>
   \<exists>m'. set_keys set_at ks v m = Inr m' \<and> lookup m' = (\<lambda>j. if j \<in> set ks then v else lookup m j) \<and> ensured m' = ensured m"
proof (induction ks arbitrary: m)
  case (Cons k ks)
  obtain m1 where m1: "set_at m k v = Inr m1" "lookup m1 = (lookup m)(k := v)" "ensured m1 = ensured m"
    using set_lookup [of m k v] Cons.prems by auto
  obtain m2 where "set_keys set_at ks v m1 = Inr m2" "lookup m2 = (\<lambda>j. if j \<in> set ks then v else lookup m1 j)"
    "ensured m2 = ensured m1"
    using Cons.IH [of m1] Cons.prems m1(3) by auto
  with m1 show ?case by (auto simp: fun_eq_iff)
qed (simp add: fun_eq_iff)

lemma get_after_set: "ensured m k \<Longrightarrow> set_at m k v = Inr m' \<Longrightarrow> 0 \<le> j \<Longrightarrow> get_at m' j = (if j = k then Inr v else get_at m j)"
  using set_lookup [of m k v] get_lookup by auto

end

locale growing_page_map = page_map +
  fixes ensure :: "'w node_alloc \<Rightarrow> int \<Rightarrow> int \<Rightarrow> 'm \<Rightarrow> 'w \<Rightarrow> (bool \<times> 'm \<times> 'w) result"
  assumes ensure_keeps:
      "0 \<le> start \<Longrightarrow> 0 < n \<Longrightarrow> start + n \<le> 2 ^ 64 \<Longrightarrow> ensure alloc start n m w = Inr (ok, m', w') \<Longrightarrow>
       lookup m' = lookup m \<and> (\<forall>k. ensured m k \<longrightarrow> ensured m' k) \<and>
       (ok \<longrightarrow> (\<forall>k. start \<le> k \<and> k < start + n \<longrightarrow> ensured m' k))"
    and ensure_inv:
      "(\<And>sz w. P w \<Longrightarrow> 0 < sz \<Longrightarrow> sz \<le> 2 ^ bits * 8 \<Longrightarrow> \<exists>p w'. alloc sz w = Inr (p, w') \<and> P w') \<Longrightarrow> P w \<Longrightarrow>
       \<exists>ok m' w'. ensure alloc start n m w = Inr (ok, m', w') \<and> P w'"
begin

text \<open>After a successful \<open>ensure\<close> every key of the range can be set, and setting them changes nothing else.\<close>

lemma ensure_set:
  assumes "0 \<le> start" "0 < n" "start + n \<le> 2 ^ 64" "ensure alloc start n m w = Inr (True, m1, w1)"
    "\<And>k. k \<in> set ks \<Longrightarrow> start \<le> k \<and> k < start + n"
  shows "\<exists>m'. set_keys set_at ks v m1 = Inr m' \<and> lookup m' = (\<lambda>j. if j \<in> set ks then v else lookup m j)"
proof -
  have k: "lookup m1 = lookup m" "\<And>k. k \<in> set ks \<Longrightarrow> ensured m1 k" using ensure_keeps [OF assms(1-4)] assms(5) by auto
  obtain m' where "set_keys set_at ks v m1 = Inr m'" "lookup m' = (\<lambda>j. if j \<in> set ks then v else lookup m1 j)"
    using set_keys_lookup [of ks m1 v] k(2) by blast
  then show ?thesis unfolding k(1) by blast
qed

end

section \<open>Scanning\<close>

lemma next_spec_skip: "(\<And>j. k \<le> j \<Longrightarrow> j < k' \<Longrightarrow> f j = NULL) \<Longrightarrow> k \<le> k' \<Longrightarrow> next_spec f k' B v \<Longrightarrow> next_spec f k B v"
  unfolding next_spec_def by (metis linorder_not_less order_trans)

lemma scan_leaf_spec: "next_spec l i len (scan_leaf len l i)"
proof (induction len l i rule: scan_leaf.induct)
  case (1 len l i)
  show ?case
  proof (cases "i < len \<and> l i = NULL")
    case True
    then have "next_spec l (i + 1) len (scan_leaf len l (i + 1))" using 1 by simp
    with True show ?thesis by (subst scan_leaf.simps) (auto intro: next_spec_skip [of i "i + 1"])
  next
    case False
    then show ?thesis by (subst scan_leaf.simps) (auto simp: next_spec_def)
  qed
qed

text \<open>Scanning one leaf, which holds the values of the keys from \<open>b\<close> on.\<close>

lemma next_spec_leaf:
  assumes "next_spec l (k - b) len v" "\<And>j. b \<le> j \<Longrightarrow> j < b + len \<Longrightarrow> f j = l (j - b)" "b \<le> k" "b + len \<le> B"
  shows "v \<noteq> NULL \<Longrightarrow> next_spec f k B v" "v = NULL \<Longrightarrow> k \<le> j \<Longrightarrow> j < b + len \<Longrightarrow> f j = NULL"
proof -
  assume "v \<noteq> NULL"
  then obtain i where i: "k - b \<le> i" "i < len" "l i = v" "\<forall>i'. k - b \<le> i' \<and> i' < i \<longrightarrow> l i' = NULL"
    using assms(1) by (auto simp: next_spec_def)
  have "f (b + i) = v" using assms(2) [of "b + i"] assms(3) i by simp
  moreover have "f j = NULL" if "k \<le> j" "j < b + i" for j
  proof -
    have "f j = l (j - b)" using assms(2) [of j] assms(3) i(2) that by simp
    also have "\<dots> = NULL" using i(4) that by simp
    finally show ?thesis .
  qed
  ultimately show "next_spec f k B v" using i assms(3,4) \<open>v \<noteq> NULL\<close>
    unfolding next_spec_def by (intro disjI2 exI [of _ "b + i"]) auto
next
  assume "v = NULL" "k \<le> j" "j < b + len"
  then show "f j = NULL" using assms by (auto simp: next_spec_def)
qed

section \<open>The maps keep the contract\<close>

lemma drop_bit_pos_iff: "0 \<le> k \<Longrightarrow> drop_bit B k > 0 \<longleftrightarrow> \<not> k < (2 :: int) ^ B"
  by (simp add: drop_bit_eq_div pos_imp_zdiv_pos_iff not_less)

lemma leaf_base:
  fixes k :: int
  assumes "k div 2 ^ L * 2 ^ L \<le> j" "j < k div 2 ^ L * 2 ^ L + 2 ^ L"
  shows "j div 2 ^ L = k div 2 ^ L" "j mod 2 ^ L = j - k div 2 ^ L * 2 ^ L"
proof -
  define b r where "b = k div 2 ^ L" and "r = j - b * 2 ^ L"
  have "j = r + b * 2 ^ L" "0 \<le> r" "r < 2 ^ L" using assms by (simp_all add: b_def r_def)
  then have "j div 2 ^ L = b" "j mod 2 ^ L = r" by simp_all
  then show "j div 2 ^ L = k div 2 ^ L" "j mod 2 ^ L = j - k div 2 ^ L * 2 ^ L"
    unfolding r_def b_def .
qed

subsection \<open>Single-level array\<close>

definition pm1_lookup :: "nat \<Rightarrow> leaf \<Rightarrow> int \<Rightarrow> addr" where
  "pm1_lookup BITS m k = (if 0 \<le> k \<and> k < 2 ^ BITS then m k else NULL)"

interpretation pm1: page_map "pm1_get BITS" "pm1_set BITS" "pm1_next BITS" "\<lambda>m k. 0 \<le> k \<and> k < 2 ^ BITS" "pm1_lookup BITS" BITS
  for BITS :: nat
proof
  fix m :: leaf and k :: int
  assume "0 \<le> k"
  moreover have "next_spec m k (2 ^ BITS) (pm1_next BITS m k)" unfolding pm1_next_def by (rule scan_leaf_spec)
  ultimately show "next_spec (pm1_lookup BITS m) k (2 ^ BITS) (pm1_next BITS m k)"
    unfolding next_spec_def pm1_lookup_def by auto
next
  fix m :: leaf and k :: int and v :: addr
  assume "0 \<le> k \<and> k < 2 ^ BITS"
  then show "\<exists>m'. pm1_set BITS m k v = Inr m' \<and> pm1_lookup BITS m' = (pm1_lookup BITS m)(k := v) \<and>
      (\<lambda>j. 0 \<le> j \<and> j < 2 ^ BITS) = (\<lambda>j :: int. 0 \<le> j \<and> j < 2 ^ BITS)"
    by (intro exI [of _ "m(k := v)"]) (auto simp: pm1_set_def pm1_lookup_def fun_eq_iff)
qed (auto simp: pm1_get_def pm1_lookup_def drop_bit_pos_iff)

text \<open>\<open>Ensure\<close> of the flat array is right only for a start inside the array.\<close>

lemma pm1_ensure_iff: "0 \<le> x \<Longrightarrow> x \<le> 2 ^ BITS \<Longrightarrow> BITS < 64 \<Longrightarrow> pm1_ensure BITS x n \<longleftrightarrow> x + n \<le> 2 ^ BITS"
proof -
  assume "0 \<le> x" "x \<le> 2 ^ BITS" "BITS < 64"
  moreover have "(2 :: int) ^ BITS < 2 ^ 64" using \<open>BITS < 64\<close> by (intro power_strict_increasing) auto
  ultimately have "to_size_t (2 ^ BITS - x) = 2 ^ BITS - x" by (intro to_size_t_id) linarith+
  then show ?thesis by (auto simp: pm1_ensure_def)
qed

lemma pm1_ensure_outside: "pm1_ensure 20 (2 ^ 20 + 1) 1"
  by (simp add: pm1_ensure_def to_size_t_def)

subsection \<open>Two-level tree\<close>

lemma bits2 [simp]: "leaf_bits2 BITS + root_bits2 BITS = BITS"
  by (simp add: leaf_bits2_def root_bits2_def)

definition pm2_ensured :: "nat \<Rightarrow> pm2 \<Rightarrow> int \<Rightarrow> bool" where
  "pm2_ensured BITS m k \<longleftrightarrow> 0 \<le> k \<and> k < 2 ^ BITS \<and> m (k div 2 ^ leaf_bits2 BITS) \<noteq> None"

definition pm2_lookup :: "nat \<Rightarrow> pm2 \<Rightarrow> int \<Rightarrow> addr" where
  "pm2_lookup BITS m k =
     (if 0 \<le> k \<and> k < 2 ^ BITS then
        case m (k div 2 ^ leaf_bits2 BITS) of None \<Rightarrow> NULL | Some l \<Rightarrow> l (k mod 2 ^ leaf_bits2 BITS) else NULL)"

lemma index2:
  fixes k :: int
  assumes "0 \<le> k" "k < 2 ^ BITS"
  shows "0 \<le> k div 2 ^ leaf_bits2 BITS" "k div 2 ^ leaf_bits2 BITS < 2 ^ root_bits2 BITS"
proof -
  show "0 \<le> k div 2 ^ leaf_bits2 BITS" using assms by (simp add: pos_imp_zdiv_nonneg_iff)
  have "k < 2 ^ root_bits2 BITS * 2 ^ leaf_bits2 BITS"
    using assms(2) by (simp flip: power_add add: add.commute)
  then have "\<not> 2 ^ root_bits2 BITS * 2 ^ leaf_bits2 BITS \<le> k div 2 ^ leaf_bits2 BITS * 2 ^ leaf_bits2 BITS"
    using div_mult_mod_eq [of k "2 ^ leaf_bits2 BITS"] pos_mod_sign [of "2 ^ leaf_bits2 BITS" k] by (smt (verit) zero_less_power)
  then show "k div 2 ^ leaf_bits2 BITS < 2 ^ root_bits2 BITS" by simp
qed

lemma pm2_get_lookup: "0 \<le> k \<Longrightarrow> pm2_get BITS m k = Inr (pm2_lookup BITS m k)"
proof (cases "k < 2 ^ BITS")
  case True
  moreover assume "0 \<le> k"
  ultimately show ?thesis using index2 [of k BITS]
    by (simp add: pm2_get_def Let_def drop_bit_pos_iff pm2_lookup_def drop_bit_eq_div [of "leaf_bits2 BITS"] and_mask split: option.splits)
qed (simp add: pm2_get_def Let_def drop_bit_pos_iff pm2_lookup_def)

lemma pm2_set_lookup:
  assumes "pm2_ensured BITS m k"
  shows "\<exists>m'. pm2_set BITS m k v = Inr m' \<and> pm2_lookup BITS m' = (pm2_lookup BITS m)(k := v) \<and> pm2_ensured BITS m' = pm2_ensured BITS m"
proof -
  let ?L = "2 ^ leaf_bits2 BITS :: int"
  obtain l where l: "m (k div ?L) = Some l" and k: "0 \<le> k" "k < 2 ^ BITS" using assms by (auto simp: pm2_ensured_def)
  let ?m = "m(k div ?L \<mapsto> l(k mod ?L := v))"
  have "pm2_set BITS m k v = Inr ?m"
    using index2 [OF k] l by (simp add: pm2_set_def Let_def drop_bit_eq_div and_mask)
  moreover have "pm2_lookup BITS ?m j = ((pm2_lookup BITS m)(k := v)) j" for j
    using l k div_mult_mod_eq [of j ?L] div_mult_mod_eq [of k ?L] by (auto simp: pm2_lookup_def)
  then have "pm2_lookup BITS ?m = (pm2_lookup BITS m)(k := v)" by (rule ext)
  moreover have "pm2_ensured BITS ?m = pm2_ensured BITS m" using l by (intro ext) (auto simp: pm2_ensured_def)
  ultimately show ?thesis by blast
qed

lemma leaf_top: "k < 2 ^ BITS \<Longrightarrow> 0 \<le> k \<Longrightarrow> k div 2 ^ leaf_bits2 BITS * 2 ^ leaf_bits2 BITS + 2 ^ leaf_bits2 BITS \<le> (2 :: int) ^ BITS"
proof -
  assume "k < 2 ^ BITS" "0 \<le> k"
  then have "(k div 2 ^ leaf_bits2 BITS + 1) * 2 ^ leaf_bits2 BITS \<le> (2 :: int) ^ root_bits2 BITS * 2 ^ leaf_bits2 BITS"
    using index2 [of k BITS] by (intro mult_right_mono) simp_all
  then show ?thesis by (simp add: distrib_right flip: power_add) (simp add: add.commute)
qed

lemma pm2_next_first: "0 \<le> k \<Longrightarrow> next_spec (pm2_lookup BITS m) k (2 ^ BITS) (pm2_next BITS m k)"
proof (induction BITS m k rule: pm2_next.induct)
  case (1 BITS m k)
  let ?L = "2 ^ leaf_bits2 BITS :: int"
  let ?b = "k div ?L * ?L" and ?f = "pm2_lookup BITS m"
  define found where "found = (case m (k div ?L) of None \<Rightarrow> NULL | Some l \<Rightarrow> scan_leaf ?L l (k mod ?L))"
  show ?case
  proof (cases "k < 2 ^ BITS")
    case False
    then show ?thesis by (subst pm2_next.simps) (auto simp: next_spec_def)
  next
    case True
    have top: "?b + ?L \<le> 2 ^ BITS" using leaf_top True 1(2) by simp
    have kb: "?b \<le> k" "k mod ?L = k - ?b" 
      using div_mult_mod_eq [of k ?L] pos_mod_sign [of ?L k] zero_less_power [of "2 :: int" "leaf_bits2 BITS"] by linarith+
    define l where "l = (case m (k div ?L) of None \<Rightarrow> (\<lambda>_. NULL) | Some l \<Rightarrow> l)"
    have f: "?f j = l (j - ?b)" if "?b \<le> j" "j < ?b + ?L" for j
    proof -
      have "0 \<le> ?b" using index2(1) [OF 1(2) True] by simp
      with that top have "0 \<le> j" "j < 2 ^ BITS" by linarith+
      with leaf_base [OF that] show ?thesis by (simp add: pm2_lookup_def l_def split: option.splits)
    qed
    have sp: "next_spec l (k - ?b) ?L found"
      using scan_leaf_spec [of l "k mod ?L" ?L] kb(2)
      by (auto simp: found_def l_def next_spec_def split: option.splits)
    note lf = next_spec_leaf [OF sp f kb(1) top]
    have e: "pm2_next BITS m k = (if found \<noteq> NULL then found else pm2_next BITS m ((k div ?L + 1) * ?L))"
      unfolding pm2_next.simps [of BITS m k] if_P [OF True] Let_def drop_bit_eq_div push_bit_eq_mult and_mask found_def ..
    show ?thesis
    proof (cases "found = NULL")
      case nf: True
      have "0 \<le> (k div ?L + 1) * ?L" using next_key [of k "leaf_bits2 BITS"] 1(2) by linarith
      then have "next_spec ?f ((k div ?L + 1) * ?L) (2 ^ BITS) (pm2_next BITS m ((k div ?L + 1) * ?L))"
        using 1(1) [OF True refl refl, unfolded drop_bit_eq_div push_bit_eq_mult and_mask, folded found_def] nf by simp
      then show ?thesis unfolding e using nf lf(2) next_key [of k "leaf_bits2 BITS"]
        by (auto simp: distrib_right intro!: next_spec_skip [of k "?b + ?L"])
    qed (use e lf(1) in simp)
  qed
qed

lemma pm2_fresh_leaf:
  assumes "m i1 = None"
  shows "pm2_lookup BITS (m(i1 \<mapsto> (\<lambda>_. NULL))) = pm2_lookup BITS m"
    "pm2_ensured BITS m k \<Longrightarrow> pm2_ensured BITS (m(i1 \<mapsto> (\<lambda>_. NULL))) k"
  using assms by (auto simp: pm2_lookup_def pm2_ensured_def fun_eq_iff)

text \<open>One turn of \<open>Ensure\<close> covers the keys up to the next leaf.\<close>

lemma pm2_ensured_leaf:
  assumes "0 \<le> key" "key div 2 ^ leaf_bits2 BITS < 2 ^ root_bits2 BITS" "m (key div 2 ^ leaf_bits2 BITS) \<noteq> None"
    "key \<le> k" "k < (key div 2 ^ leaf_bits2 BITS + 1) * 2 ^ leaf_bits2 BITS"
  shows "pm2_ensured BITS m k"
proof -
  let ?L = "2 ^ leaf_bits2 BITS :: int"
  have "key div ?L * ?L \<le> key" using div_mult_mod_eq [of key ?L] pos_mod_sign [of ?L key] by (smt (verit) zero_less_power)
  then have "k div ?L = key div ?L" using assms(4,5) by (intro leaf_base(1)) (simp_all add: distrib_right)
  moreover from this have "k < 2 ^ BITS" using assms(2) div_less_key [of k "leaf_bits2 BITS" "root_bits2 BITS"] by simp
  ultimately show ?thesis using assms by (simp add: pm2_ensured_def)
qed

lemma pm2_ensure_loop_keeps:
  "0 \<le> key \<Longrightarrow> pm2_ensure_loop BITS alloc key lst m w = Inr (ok, m', w') \<Longrightarrow>
   pm2_lookup BITS m' = pm2_lookup BITS m \<and> (\<forall>k. pm2_ensured BITS m k \<longrightarrow> pm2_ensured BITS m' k) \<and>
   (ok \<longrightarrow> (\<forall>k. key \<le> k \<and> k \<le> lst \<longrightarrow> pm2_ensured BITS m' k))"
proof (induction BITS alloc key lst m w rule: pm2_ensure_loop.induct)
  case (1 BITS alloc key lst m w)
  let ?L = "2 ^ leaf_bits2 BITS :: int"
  let ?i = "key div ?L" and ?n = "(key div ?L + 1) * ?L"
  note run = 1(4)
  have n0: "0 \<le> ?n" using next_key [of key "leaf_bits2 BITS"] 1(3) by linarith
  note defs = drop_bit_eq_div push_bit_eq_mult
  have fin: ?case if step: "pm2_lookup BITS m' = pm2_lookup BITS m1" "\<forall>k. pm2_ensured BITS m1 k \<longrightarrow> pm2_ensured BITS m' k"
      "ok \<longrightarrow> (\<forall>k. ?n \<le> k \<and> k \<le> lst \<longrightarrow> pm2_ensured BITS m' k)"
    and m1: "pm2_lookup BITS m1 = pm2_lookup BITS m" "\<forall>k. pm2_ensured BITS m k \<longrightarrow> pm2_ensured BITS m1 k" "m1 ?i \<noteq> None"
    and i: "?i < 2 ^ root_bits2 BITS" for m1
  proof -
    have "pm2_ensured BITS m' k" if "ok" "key \<le> k" "k \<le> lst" for k
    proof (cases "k < ?n")
      case True
      then show ?thesis using pm2_ensured_leaf [where m = m1, OF 1(3) i m1(3) that(2)] step(2) by blast
    qed (use step(3) that in auto)
    then show ?thesis using step m1 by auto
  qed
  show ?case
  proof (cases "key \<le> lst \<and> ?i < 2 ^ root_bits2 BITS")
    case False
    then show ?thesis using run unfolding pm2_ensure_loop.simps [of BITS alloc key lst m w] Let_def defs
      by (auto split: if_splits)
  next
    case True
    then have le: "key \<le> lst" and i: "\<not> 2 ^ root_bits2 BITS \<le> ?i" by auto
    show ?thesis
    proof (cases "m ?i")
      case (Some l)
      then have "pm2_ensure_loop BITS alloc ?n lst m w = Inr (ok, m', w')"
        using run le i unfolding pm2_ensure_loop.simps [of BITS alloc key lst m w] Let_def defs by simp
      with 1(2) [OF le refl, unfolded defs, OF i refl Some n0] i Some fin [of m] show ?thesis by auto
    next
      case None
      let ?m = "m(?i \<mapsto> (\<lambda>_. NULL))"
      obtain p w1 where a: "alloc (8 * ?L) w = Inr (p, w1)"
        and r: "(if p = NULL then Inr (False, m, w1) else pm2_ensure_loop BITS alloc ?n lst ?m w1) = Inr (ok, m', w')"
        using run le i None unfolding pm2_ensure_loop.simps [of BITS alloc key lst m w] Let_def defs
        by (cases "alloc (8 * ?L) w") auto
      show ?thesis
      proof (cases "p = NULL")
        case True
        with r show ?thesis by auto
      next
        case False
        with r have r: "pm2_ensure_loop BITS alloc ?n lst ?m w1 = Inr (ok, m', w')" by simp
        have ih: "pm2_lookup BITS m' = pm2_lookup BITS ?m \<and> (\<forall>k. pm2_ensured BITS ?m k \<longrightarrow> pm2_ensured BITS m' k) \<and>
            (ok \<longrightarrow> (\<forall>k. ?n \<le> k \<and> k \<le> lst \<longrightarrow> pm2_ensured BITS m' k))"
          using 1(1) [OF le refl, unfolded defs, OF i refl None a refl False n0 r] .
        show ?thesis by (rule fin [of ?m]) (use ih i pm2_fresh_leaf [of m ?i, OF None] in auto)
      qed
    qed
  qed
qed

lemma pm2_ensure_loop_inv:
  assumes alloc: "\<And>sz w. P w \<Longrightarrow> 0 < sz \<Longrightarrow> sz \<le> 2 ^ BITS * 8 \<Longrightarrow> \<exists>p w'. alloc sz w = Inr (p, w') \<and> P w'"
  shows "P w \<Longrightarrow> \<exists>ok m' w'. pm2_ensure_loop BITS alloc key lst m w = Inr (ok, m', w') \<and> P w'"
  using alloc
proof (induction BITS alloc key lst m w rule: pm2_ensure_loop.induct)
  case (1 BITS alloc key lst m w)
  note defs = drop_bit_eq_div push_bit_eq_mult
  let ?L = "2 ^ leaf_bits2 BITS :: int"
  let ?i = "key div ?L" and ?n = "(key div ?L + 1) * ?L"
  show ?case
  proof (cases "key \<le> lst \<and> \<not> 2 ^ root_bits2 BITS \<le> ?i")
    case False
    then show ?thesis using 1(3) unfolding pm2_ensure_loop.simps [of BITS alloc key lst m w] Let_def defs by auto
  next
    case True
    then have le: "key \<le> lst" and i: "\<not> 2 ^ root_bits2 BITS \<le> ?i" by auto
    show ?thesis
    proof (cases "m ?i")
      case (Some l)
      have "\<exists>ok m' w'. pm2_ensure_loop BITS alloc ?n lst m w = Inr (ok, m', w') \<and> P w'"
        by (rule 1(2) [OF le refl, unfolded defs, OF i refl Some 1(3,4)])
      with le i Some show ?thesis unfolding pm2_ensure_loop.simps [of BITS alloc key lst m w] Let_def defs by simp
    next
      case None
      have "?L \<le> 2 ^ BITS" by (rule power_increasing) (simp_all add: leaf_bits2_def)
      then obtain p w1 where a: "alloc (8 * ?L) w = Inr (p, w1)" "P w1" using 1(4) [OF 1(3), of "8 * ?L"] by auto
      show ?thesis
      proof (cases "p = NULL")
        case True
        with le i None a show ?thesis unfolding pm2_ensure_loop.simps [of BITS alloc key lst m w] Let_def defs by auto
      next
        case False
        have "\<exists>ok m' w'. pm2_ensure_loop BITS alloc ?n lst (m(?i \<mapsto> (\<lambda>_. NULL))) w1 = Inr (ok, m', w') \<and> P w'"
          by (rule 1(1) [OF le refl, unfolded defs, OF i refl None a(1) refl False a(2) 1(4)])
        with le i None a False show ?thesis
          unfolding pm2_ensure_loop.simps [of BITS alloc key lst m w] Let_def defs by simp
      qed
    qed
  qed
qed

lemma last_key: "0 \<le> start \<Longrightarrow> 0 < n \<Longrightarrow> start + n \<le> 2 ^ 64 \<Longrightarrow> to_size_t (start + n - 1) = start + n - 1"
  by (rule to_size_t_id) auto

interpretation pm2: growing_page_map "pm2_get BITS" "pm2_set BITS" "pm2_next BITS" "pm2_ensured BITS" "pm2_lookup BITS" BITS
  "pm2_ensure BITS :: 'w node_alloc \<Rightarrow> _"
  for BITS :: nat
proof
  fix start n m ok m' and alloc :: "'w node_alloc" and w w'
  assume a: "0 \<le> start" "0 < n" "start + n \<le> 2 ^ 64" "pm2_ensure BITS alloc start n m w = Inr (ok, m', w')"
  then show "pm2_lookup BITS m' = pm2_lookup BITS m \<and> (\<forall>k. pm2_ensured BITS m k \<longrightarrow> pm2_ensured BITS m' k) \<and>
      (ok \<longrightarrow> (\<forall>k. start \<le> k \<and> k < start + n \<longrightarrow> pm2_ensured BITS m' k))"
    using pm2_ensure_loop_keeps [OF a(1), of BITS alloc "start + n - 1" m w ok m' w'] last_key [OF a(1-3)]
    by (auto simp: pm2_ensure_def)
qed (auto simp: pm2_get_lookup pm2_next_first pm2_set_lookup pm2_ensure_def simp del: split_paired_Ex intro: pm2_ensure_loop_inv,
     auto simp: pm2_lookup_def pm2_ensured_def)

subsection \<open>Three-level tree\<close>

text \<open>The leaf for the leaf number \<open>q\<close>; both index computations split a leaf number.\<close>

definition leaf3 :: "nat \<Rightarrow> pm3 \<Rightarrow> int \<Rightarrow> leaf option" where
  "leaf3 BITS m q = (case m (q div 2 ^ interior_bits3 BITS) of None \<Rightarrow> None | Some n \<Rightarrow> n (q mod 2 ^ interior_bits3 BITS))"

lemma index3:
  "pm3_i1 BITS k = k div 2 ^ leaf_bits3 BITS div 2 ^ interior_bits3 BITS"
  "pm3_i2 BITS k = k div 2 ^ leaf_bits3 BITS mod 2 ^ interior_bits3 BITS"
  "pm3_i3 BITS k = k mod 2 ^ leaf_bits3 BITS"
  by (simp_all add: pm3_i1_def pm3_i2_def pm3_i3_def drop_bit_eq_div and_mask power_add zdiv_zmult2_eq)

lemma leaf3_fresh_node: "m i = None \<Longrightarrow> leaf3 BITS (m(i \<mapsto> (\<lambda>_. None))) = leaf3 BITS m"
  by (auto simp: leaf3_def fun_eq_iff)

lemma leaf3_update:
  assumes "m (q div 2 ^ interior_bits3 BITS) = Some n"
  shows "leaf3 BITS (m(q div 2 ^ interior_bits3 BITS \<mapsto> n(q mod 2 ^ interior_bits3 BITS \<mapsto> l))) = (leaf3 BITS m)(q \<mapsto> l)"
proof (rule ext)
  fix j :: int
  let ?I = "2 ^ interior_bits3 BITS :: int"
  show "leaf3 BITS (m(q div ?I \<mapsto> n(q mod ?I \<mapsto> l))) j = ((leaf3 BITS m)(q \<mapsto> l)) j"
    using assms div_mult_mod_eq [of j ?I] div_mult_mod_eq [of q ?I] by (auto simp: leaf3_def)
qed

definition pm3_ensured :: "nat \<Rightarrow> pm3 \<Rightarrow> int \<Rightarrow> bool" where
  "pm3_ensured BITS m k \<longleftrightarrow> 0 \<le> k \<and> k < 2 ^ BITS \<and> leaf3 BITS m (k div 2 ^ leaf_bits3 BITS) \<noteq> None"

definition pm3_lookup :: "nat \<Rightarrow> pm3 \<Rightarrow> int \<Rightarrow> addr" where
  "pm3_lookup BITS m k =
     (if 0 \<le> k \<and> k < 2 ^ BITS then
        case leaf3 BITS m (k div 2 ^ leaf_bits3 BITS) of None \<Rightarrow> NULL | Some l \<Rightarrow> l (k mod 2 ^ leaf_bits3 BITS) else NULL)"

lemma div_below:
  fixes k :: int
  assumes "0 \<le> k" "k < 2 ^ (L + R)"
  shows "0 \<le> k div 2 ^ L" "k div 2 ^ L < 2 ^ R"
proof -
  show "0 \<le> k div 2 ^ L" using assms by (simp add: pos_imp_zdiv_nonneg_iff)
  have "k < 2 ^ R * 2 ^ L" using assms(2) by (simp add: power_add mult.commute)
  then have "\<not> 2 ^ R * 2 ^ L \<le> k div 2 ^ L * 2 ^ L"
    using div_mult_mod_eq [of k "2 ^ L"] pos_mod_sign [of "2 ^ L" k] by (smt (verit) zero_less_power)
  then show "k div 2 ^ L < 2 ^ R" by simp
qed

text \<open>The indices are in range for every key, since the levels cover all bits.\<close>

lemma index3_range:
  assumes "0 \<le> k" "k < 2 ^ BITS"
  shows "0 \<le> pm3_i1 BITS k" "pm3_i1 BITS k < 2 ^ interior_bits3 BITS"
    "0 \<le> pm3_i2 BITS k" "pm3_i2 BITS k < 2 ^ interior_bits3 BITS"
    "0 \<le> pm3_i3 BITS k" "pm3_i3 BITS k < 2 ^ leaf_bits3 BITS"
proof -
  have "(2 :: int) ^ BITS \<le> 2 ^ (leaf_bits3 BITS + (interior_bits3 BITS + interior_bits3 BITS))"
    by (rule power_increasing) (simp_all add: leaf_bits3_def)
  then have "k < 2 ^ (leaf_bits3 BITS + (interior_bits3 BITS + interior_bits3 BITS))" using assms(2) by linarith
  from div_below [OF assms(1) this] div_below [of "k div 2 ^ leaf_bits3 BITS" "interior_bits3 BITS" "interior_bits3 BITS"]
  show "0 \<le> pm3_i1 BITS k" "pm3_i1 BITS k < 2 ^ interior_bits3 BITS"
    "0 \<le> pm3_i2 BITS k" "pm3_i2 BITS k < 2 ^ interior_bits3 BITS"
    "0 \<le> pm3_i3 BITS k" "pm3_i3 BITS k < 2 ^ leaf_bits3 BITS"
    by (simp_all add: index3)
qed

lemma pm3_get_lookup: "0 \<le> k \<Longrightarrow> pm3_get BITS m k = Inr (pm3_lookup BITS m k)"
proof (cases "k < 2 ^ BITS")
  case True
  moreover assume "0 \<le> k"
  ultimately show ?thesis using index3_range [of k BITS]
    by (auto simp: pm3_get_def drop_bit_pos_iff pm3_lookup_def leaf3_def index3 split: option.splits)
qed (simp add: pm3_get_def drop_bit_pos_iff pm3_lookup_def)

lemma pm3_set_lookup:
  assumes "pm3_ensured BITS m k"
  shows "\<exists>m'. pm3_set BITS m k v = Inr m' \<and> pm3_lookup BITS m' = (pm3_lookup BITS m)(k := v) \<and> pm3_ensured BITS m' = pm3_ensured BITS m"
proof -
  let ?L = "2 ^ leaf_bits3 BITS :: int" and ?I = "2 ^ interior_bits3 BITS :: int"
  let ?q = "k div ?L"
  obtain l where l: "leaf3 BITS m ?q = Some l" and k: "0 \<le> k" "k < 2 ^ BITS" using assms by (auto simp: pm3_ensured_def)
  then obtain n where n: "m (?q div ?I) = Some n" "n (?q mod ?I) = Some l" by (auto simp: leaf3_def split: option.splits)
  let ?m = "m(?q div ?I \<mapsto> n(?q mod ?I \<mapsto> l(k mod ?L := v)))"
  have d: "drop_bit BITS k = 0" using k by (simp add: drop_bit_eq_div div_pos_pos_trivial)
  have "pm3_set BITS m k v = Inr ?m" using index3_range [OF k] n d by (simp add: pm3_set_def index3)
  moreover have u: "leaf3 BITS ?m = (leaf3 BITS m)(?q \<mapsto> l(k mod ?L := v))" using n(1) by (rule leaf3_update)
  have "pm3_lookup BITS ?m j = ((pm3_lookup BITS m)(k := v)) j" for j
    using l k div_mult_mod_eq [of j ?L] div_mult_mod_eq [of k ?L] unfolding pm3_lookup_def u by auto
  then have "pm3_lookup BITS ?m = (pm3_lookup BITS m)(k := v)" by (rule ext)
  moreover have "pm3_ensured BITS ?m = pm3_ensured BITS m" using l unfolding pm3_ensured_def u by (intro ext) auto
  ultimately show ?thesis by blast
qed

text \<open>Keys of the same leaf.\<close>

lemma pm3_lookup_leaf:
  assumes "0 \<le> k" "k < 2 ^ BITS" "leaf_bits3 BITS \<le> BITS"
    "k div 2 ^ leaf_bits3 BITS * 2 ^ leaf_bits3 BITS \<le> j" "j < k div 2 ^ leaf_bits3 BITS * 2 ^ leaf_bits3 BITS + 2 ^ leaf_bits3 BITS"
  shows "pm3_lookup BITS m j = (case leaf3 BITS m (k div 2 ^ leaf_bits3 BITS) of None \<Rightarrow> NULL
      | Some l \<Rightarrow> l (j - k div 2 ^ leaf_bits3 BITS * 2 ^ leaf_bits3 BITS))"
    "k div 2 ^ leaf_bits3 BITS * 2 ^ leaf_bits3 BITS + 2 ^ leaf_bits3 BITS \<le> (2 :: int) ^ BITS"
proof -
  let ?L = "2 ^ leaf_bits3 BITS :: int"
  have s: "leaf_bits3 BITS + (BITS - leaf_bits3 BITS) = BITS" using assms(3) by simp
  have q: "0 \<le> k div ?L" "k div ?L < 2 ^ (BITS - leaf_bits3 BITS)"
    using div_below [of k "leaf_bits3 BITS" "BITS - leaf_bits3 BITS"] assms(1,2) s by simp_all
  then have "(k div ?L + 1) * ?L \<le> 2 ^ (BITS - leaf_bits3 BITS) * ?L" by (intro mult_right_mono) simp_all
  then show top: "k div ?L * ?L + ?L \<le> 2 ^ BITS" using s by (simp add: distrib_right flip: power_add)
  have "0 \<le> k div ?L * ?L" using q by simp
  with assms(4,5) top have "0 \<le> j" "j < 2 ^ BITS" by linarith+
  with leaf_base [OF assms(4,5)] show "pm3_lookup BITS m j = (case leaf3 BITS m (k div ?L) of None \<Rightarrow> NULL | Some l \<Rightarrow> l (j - k div ?L * ?L))"
    by (simp add: pm3_lookup_def split: option.splits)
qed

text \<open>Keys below a missing interior node.\<close>

lemma pm3_lookup_no_node:
  assumes "m (pm3_i1 BITS k) = None" "k \<le> j" "j < (pm3_i1 BITS k + 1) * 2 ^ (leaf_bits3 BITS + interior_bits3 BITS)"
  shows "pm3_lookup BITS m j = NULL"
proof -
  let ?S = "leaf_bits3 BITS + interior_bits3 BITS"
  have i: "pm3_i1 BITS x = x div 2 ^ ?S" for x by (simp add: pm3_i1_def drop_bit_eq_div)
  have "k div 2 ^ ?S * 2 ^ ?S \<le> k" using div_mult_mod_eq [of k "2 ^ ?S"] pos_mod_sign [of "2 ^ ?S" k] by (smt (verit) zero_less_power)
  then have "j div 2 ^ ?S = k div 2 ^ ?S" using assms(2,3) by (intro leaf_base(1)) (simp_all add: i distrib_right)
  then have "m (pm3_i1 BITS j) = None" using assms(1) by (simp add: i)
  then show ?thesis by (simp add: pm3_lookup_def leaf3_def index3)
qed

lemma pm3_next_first:
  "0 \<le> k \<Longrightarrow> leaf_bits3 BITS \<le> BITS \<Longrightarrow> next_spec (pm3_lookup BITS m) k (2 ^ BITS) (pm3_next BITS m k)"
proof (induction BITS m k rule: pm3_next.induct)
  case (1 BITS m k)
  let ?L = "2 ^ leaf_bits3 BITS :: int" and ?S = "leaf_bits3 BITS + interior_bits3 BITS"
  let ?b = "k div ?L * ?L" and ?f = "pm3_lookup BITS m"
  let ?up = "(pm3_i1 BITS k + 1) * 2 ^ ?S" and ?nx = "(k div ?L + 1) * ?L"
  note defs = drop_bit_eq_div push_bit_eq_mult
  have up: "k < ?up" using next_key [of k ?S] by (simp add: pm3_i1_def drop_bit_eq_div)
  have nx: "k < ?nx" by (rule next_key)
  show ?case
  proof (cases "k < 2 ^ BITS")
    case False
    then show ?thesis by (subst pm3_next.simps) (auto simp: next_spec_def)
  next
    case True
    show ?thesis
    proof (cases "m (pm3_i1 BITS k)")
      case None
      have "next_spec ?f ?up (2 ^ BITS) (pm3_next BITS m ?up)"
        using 1(1) [OF True None, unfolded defs] up 1(3,4) by simp
      then have "next_spec ?f k (2 ^ BITS) (pm3_next BITS m ?up)"
        using up pm3_lookup_no_node [of m BITS k, OF None] by (intro next_spec_skip [of k ?up]) auto
      then show ?thesis using True None by (subst pm3_next.simps) (simp add: push_bit_eq_mult)
    next
      case (Some n)
      define found where "found = (case n (pm3_i2 BITS k) of None \<Rightarrow> NULL | Some l \<Rightarrow> scan_leaf ?L l (pm3_i3 BITS k))"
      define l where "l = (case leaf3 BITS m (k div ?L) of None \<Rightarrow> (\<lambda>_. NULL) | Some l \<Rightarrow> l)"
      have kb: "?b \<le> k" "k mod ?L = k - ?b"
        using div_mult_mod_eq [of k ?L] pos_mod_sign [of ?L k] zero_less_power [of "2 :: int" "leaf_bits3 BITS"] by linarith+
      have kt: "k < ?b + ?L" using nx by (simp add: distrib_right)
      have f: "?f j = l (j - ?b)" if "?b \<le> j" "j < ?b + ?L" for j
        using pm3_lookup_leaf(1) [OF 1(3) True 1(4) that, of m] by (simp add: l_def split: option.splits)
      have lf3: "leaf3 BITS m (k div ?L) = n (pm3_i2 BITS k)" using Some by (simp add: leaf3_def index3)
      have sp: "next_spec l (k - ?b) ?L found"
        using scan_leaf_spec [of l "k mod ?L" ?L] kb(2)
        by (auto simp: found_def l_def next_spec_def lf3 index3(3) split: option.splits)
      note lf = next_spec_leaf [OF sp f kb(1) pm3_lookup_leaf(2) [OF 1(3) True 1(4) kb(1) kt]]
      have e: "pm3_next BITS m k = (if found \<noteq> NULL then found else pm3_next BITS m ?nx)"
        unfolding pm3_next.simps [of BITS m k] if_P [OF True] Some option.case Let_def defs found_def ..
      show ?thesis
      proof (cases "found = NULL")
        case nf: True
        have "next_spec ?f ?nx (2 ^ BITS) (pm3_next BITS m ?nx)"
          using 1(2) [OF True Some refl, unfolded defs, folded found_def] nf nx 1(3,4) by simp
        then show ?thesis unfolding e using nf lf(2) nx
          by (auto simp: distrib_right intro!: next_spec_skip [of k "?b + ?L"])
      qed (use e lf(1) in simp)
    qed
  qed
qed

text \<open>One turn of \<open>Ensure\<close>.\<close>

lemma pm3_make_node_keeps:
  "pm3_make_node BITS alloc i1 m w = Inr (ok, m', w') \<Longrightarrow> leaf3 BITS m' = leaf3 BITS m \<and> (ok \<longrightarrow> m' i1 \<noteq> None)"
  using leaf3_fresh_node [of m i1 BITS]
  by (auto simp: pm3_make_node_def bindR_eq_Inr split: option.splits if_splits)

lemma pm3_make_leaf_keeps:
  assumes "pm3_make_leaf BITS alloc (q div 2 ^ interior_bits3 BITS) (q mod 2 ^ interior_bits3 BITS) m w = Inr (ok, m', w')"
  shows "leaf3 BITS m' = leaf3 BITS m \<and> (ok \<longrightarrow> leaf3 BITS m q \<noteq> None) \<or>
    (leaf3 BITS m q = None \<and> leaf3 BITS m' = (leaf3 BITS m)(q \<mapsto> (\<lambda>_. NULL)))"
  using assms leaf3_update [of m q BITS]
  by (auto simp: pm3_make_leaf_def leaf3_def [of BITS m q] bindR_eq_Inr split: option.splits if_splits)

lemma pm3_make_keeps:
  assumes "pm3_make BITS alloc key m w = Inr (ok, m', w')"
  shows "pm3_lookup BITS m' = pm3_lookup BITS m \<and> (\<forall>k. pm3_ensured BITS m k \<longrightarrow> pm3_ensured BITS m' k) \<and>
    (ok \<longrightarrow> leaf3 BITS m' (key div 2 ^ leaf_bits3 BITS) \<noteq> None)"
proof -
  let ?I = "2 ^ interior_bits3 BITS :: int" and ?q = "key div 2 ^ leaf_bits3 BITS"
  obtain ok1 m1 w1 where n: "pm3_make_node BITS alloc (?q div ?I) m w = Inr (ok1, m1, w1)"
    and run: "(if \<not> ok1 then Inr (False, m1, w1) else pm3_make_leaf BITS alloc (?q div ?I) (?q mod ?I) m1 w1) = Inr (ok, m', w')"
    using assms unfolding pm3_make_def index3 bindR_eq_Inr by auto
  have l1: "leaf3 BITS m1 = leaf3 BITS m" using pm3_make_node_keeps [OF n] by simp
  have "leaf3 BITS m' = leaf3 BITS m \<and> (ok \<longrightarrow> leaf3 BITS m ?q \<noteq> None) \<or>
      (leaf3 BITS m ?q = None \<and> leaf3 BITS m' = (leaf3 BITS m)(?q \<mapsto> (\<lambda>_. NULL)))"
  proof (cases ok1)
    case True
    then show ?thesis using run pm3_make_leaf_keeps [of BITS alloc ?q m1 w1 ok m' w'] unfolding l1 by simp
  qed (use run l1 in auto)
  then show ?thesis
  proof (elim disjE conjE)
    assume u: "leaf3 BITS m' = leaf3 BITS m" and ok: "ok \<longrightarrow> leaf3 BITS m ?q \<noteq> None"
    show ?thesis using ok unfolding pm3_lookup_def pm3_ensured_def u by simp
  next
    assume u: "leaf3 BITS m ?q = None" "leaf3 BITS m' = (leaf3 BITS m)(?q \<mapsto> (\<lambda>_. NULL))"
    then have "pm3_lookup BITS m' = pm3_lookup BITS m" by (auto simp: pm3_lookup_def fun_eq_iff)
    with u show ?thesis by (auto simp: pm3_ensured_def)
  qed
qed

lemma pm3_ensured_leaf:
  assumes "leaf_bits3 BITS + 2 * interior_bits3 BITS = BITS" "0 \<le> key" "pm3_i1 BITS key < 2 ^ interior_bits3 BITS"
    "leaf3 BITS m (key div 2 ^ leaf_bits3 BITS) \<noteq> None"
    "key \<le> k" "k < (key div 2 ^ leaf_bits3 BITS + 1) * 2 ^ leaf_bits3 BITS"
  shows "pm3_ensured BITS m k"
proof -
  let ?L = "2 ^ leaf_bits3 BITS :: int"
  have "key div ?L * ?L \<le> key" using div_mult_mod_eq [of key ?L] pos_mod_sign [of ?L key] by (smt (verit) zero_less_power)
  then have q: "k div ?L = key div ?L" using assms(5,6) by (intro leaf_base(1)) (simp_all add: distrib_right)
  have "key div ?L < 2 ^ (interior_bits3 BITS + interior_bits3 BITS)" using assms(3) unfolding index3 by (rule div_less_key)
  then have "k < 2 ^ (leaf_bits3 BITS + (interior_bits3 BITS + interior_bits3 BITS))" unfolding q [symmetric] by (rule div_less_key)
  then have "k < 2 ^ BITS" using assms(1) by (simp add: mult_2)
  then show ?thesis using assms(2,4,5) q by (simp add: pm3_ensured_def)
qed

lemma pm3_ensure_loop_keeps:
  "0 \<le> key \<Longrightarrow> leaf_bits3 BITS + 2 * interior_bits3 BITS = BITS \<Longrightarrow>
   pm3_ensure_loop BITS alloc key lst m w = Inr (ok, m', w') \<Longrightarrow>
   pm3_lookup BITS m' = pm3_lookup BITS m \<and> (\<forall>k. pm3_ensured BITS m k \<longrightarrow> pm3_ensured BITS m' k) \<and>
   (ok \<longrightarrow> (\<forall>k. key \<le> k \<and> k \<le> lst \<longrightarrow> pm3_ensured BITS m' k))"
proof (induction BITS alloc key lst m w rule: pm3_ensure_loop.induct)
  case (1 BITS alloc key lst m w)
  let ?L = "2 ^ leaf_bits3 BITS :: int"
  let ?n = "(key div ?L + 1) * ?L"
  let ?out = "pm3_i1 BITS key \<ge> 2 ^ interior_bits3 BITS \<or> pm3_i2 BITS key \<ge> 2 ^ interior_bits3 BITS"
  note defs = drop_bit_eq_div push_bit_eq_mult
  note unf = pm3_ensure_loop.simps [of BITS alloc key lst m w, unfolded defs]
  show ?case
  proof (cases "key \<le> lst \<and> \<not> ?out")
    case False
    then show ?thesis using 1(4) unfolding unf by (auto split: if_splits)
  next
    case True
    then obtain ok1 m1 w1 where mk: "pm3_make BITS alloc key m w = Inr (ok1, m1, w1)"
      and run: "(if \<not> ok1 then Inr (False, m1, w1) else pm3_ensure_loop BITS alloc ?n lst m1 w1) = Inr (ok, m', w')"
      using 1(4) unfolding unf by (auto simp: bindR_eq_Inr)
    note k = pm3_make_keeps [OF mk]
    show ?thesis
    proof (cases ok1)
      case False
      then show ?thesis using run k by auto
    next
      case ok1: True
      have n0: "0 \<le> ?n" using next_key [of key "leaf_bits3 BITS"] 1(2) by linarith
      have ih: "pm3_lookup BITS m' = pm3_lookup BITS m1 \<and> (\<forall>k. pm3_ensured BITS m1 k \<longrightarrow> pm3_ensured BITS m' k) \<and>
          (ok \<longrightarrow> (\<forall>k. ?n \<le> k \<and> k \<le> lst \<longrightarrow> pm3_ensured BITS m' k))"
        using 1(1) [of "(ok1, m1, w1)" ok1 "(m1, w1)" m1 w1, unfolded defs] True mk ok1 n0 1(3) run by simp
      have "pm3_ensured BITS m' j" if "ok" "key \<le> j" "j \<le> lst" for j
      proof (cases "j < ?n")
        case lt: True
        have "pm3_ensured BITS m1 j"
          by (rule pm3_ensured_leaf [OF 1(3) 1(2) _ _ that(2) lt]) (use True k ok1 in auto)
        with ih show ?thesis by blast
      qed (use ih that in auto)
      with ih k show ?thesis by auto
    qed
  qed
qed

lemma pm3_make_inv:
  assumes "P w" "\<And>sz w. P w \<Longrightarrow> 0 < sz \<Longrightarrow> sz \<le> 2 ^ BITS * 8 \<Longrightarrow> \<exists>p w'. alloc sz w = Inr (p, w') \<and> P w'"
    "leaf_bits3 BITS + 2 * interior_bits3 BITS = BITS"
  shows "\<exists>ok m' w'. pm3_make BITS alloc key m w = Inr (ok, m', w') \<and> P w'"
proof -
  have b: "(2 :: int) ^ leaf_bits3 BITS \<le> 2 ^ BITS" "(2 :: int) ^ interior_bits3 BITS \<le> 2 ^ BITS"
    using assms(3) by (intro power_increasing; simp)+
  obtain p1 w1 where a1: "alloc (8 * 2 ^ interior_bits3 BITS) w = Inr (p1, w1)" "P w1"
    using assms(2) [OF assms(1), of "8 * 2 ^ interior_bits3 BITS"] b by auto
  have node: "\<exists>ok m1 w1. pm3_make_node BITS alloc i1 m w = Inr (ok, m1, w1) \<and> P w1" for i1
    using a1 assms(1) by (auto simp: pm3_make_node_def simp del: split_paired_Ex split: option.splits)
  have lf: "\<exists>ok m2 w2. pm3_make_leaf BITS alloc i1 i2 m1 w1 = Inr (ok, m2, w2) \<and> P w2" if "P w1" "m1 i1 \<noteq> None" for i1 i2 m1 w1
  proof -
    have "\<exists>p w2. alloc (8 * 2 ^ leaf_bits3 BITS) w1 = Inr (p, w2) \<and> P w2"
      using assms(2) [OF that(1), of "8 * 2 ^ leaf_bits3 BITS"] b by simp
    then show ?thesis using that by (auto simp: pm3_make_leaf_def simp del: split_paired_Ex split: option.splits)
  qed
  obtain ok m1 w2 where n: "pm3_make_node BITS alloc (pm3_i1 BITS key) m w = Inr (ok, m1, w2)" "P w2" using node by blast
  show ?thesis
  proof (cases ok)
    case True
    then have "m1 (pm3_i1 BITS key) \<noteq> None" using pm3_make_node_keeps [OF n(1)] by simp
    from lf [of w2 m1 "pm3_i1 BITS key" "pm3_i2 BITS key", OF n(2) this] show ?thesis using n(1) True by (auto simp: pm3_make_def)
  qed (use n in \<open>auto simp: pm3_make_def\<close>)
qed

lemma pm3_ensure_loop_inv:
  assumes "\<And>sz w. P w \<Longrightarrow> 0 < sz \<Longrightarrow> sz \<le> 2 ^ BITS * 8 \<Longrightarrow> \<exists>p w'. alloc sz w = Inr (p, w') \<and> P w'"
    "leaf_bits3 BITS + 2 * interior_bits3 BITS = BITS"
  shows "P w \<Longrightarrow> \<exists>ok m' w'. pm3_ensure_loop BITS alloc key lst m w = Inr (ok, m', w') \<and> P w'"
  using assms
proof (induction BITS alloc key lst m w rule: pm3_ensure_loop.induct)
  case (1 BITS alloc key lst m w)
  let ?out = "pm3_i1 BITS key \<ge> 2 ^ interior_bits3 BITS \<or> pm3_i2 BITS key \<ge> 2 ^ interior_bits3 BITS"
  show ?case
  proof (cases "key \<le> lst \<and> \<not> ?out")
    case False
    then show ?thesis using 1(2) by (subst pm3_ensure_loop.simps) auto
  next
    case True
    obtain ok1 m1 w1 where mk: "pm3_make BITS alloc key m w = Inr (ok1, m1, w1)" "P w1"
      using pm3_make_inv [of P w BITS alloc key m, OF 1(2-4)] by blast
    show ?thesis
    proof (cases ok1)
      case False
      with True mk show ?thesis by (subst pm3_ensure_loop.simps) auto
    next
      case ok1: True
      with 1(1) [of "(ok1, m1, w1)" ok1 "(m1, w1)" m1 w1] True mk 1(3,4) show ?thesis
        by (subst pm3_ensure_loop.simps) simp
    qed
  qed
qed

text \<open>The instance for 64-bit addresses and 8 KB pages, \<open>MapSelector<64>\<close>.\<close>

lemma bits51: "leaf_bits3 51 + 2 * interior_bits3 51 = 51" "leaf_bits3 51 \<le> 51"
  by (simp_all add: leaf_bits3_def interior_bits3_def)

interpretation pm3: growing_page_map "pm3_get 51" "pm3_set 51" "pm3_next 51" "pm3_ensured 51" "pm3_lookup 51" 51
  "pm3_ensure 51 :: 'w node_alloc \<Rightarrow> _"
proof
  fix start n m ok m' and alloc :: "'w node_alloc" and w w'
  assume a: "0 \<le> start" "0 < n" "start + n \<le> 2 ^ 64" "pm3_ensure 51 alloc start n m w = Inr (ok, m', w')"
  then show "pm3_lookup 51 m' = pm3_lookup 51 m \<and> (\<forall>k. pm3_ensured 51 m k \<longrightarrow> pm3_ensured 51 m' k) \<and>
      (ok \<longrightarrow> (\<forall>k. start \<le> k \<and> k < start + n \<longrightarrow> pm3_ensured 51 m' k))"
    using pm3_ensure_loop_keeps [OF a(1) bits51(1), of alloc "start + n - 1" m w ok m' w'] last_key [OF a(1-3)]
    by (auto simp: pm3_ensure_def)
next
  fix P :: "'w \<Rightarrow> bool" and alloc :: "'w node_alloc" and w start n m
  assume "\<And>sz w. P w \<Longrightarrow> 0 < sz \<Longrightarrow> sz \<le> 2 ^ 51 * 8 \<Longrightarrow> \<exists>p w'. alloc sz w = Inr (p, w') \<and> P w'" "P w"
  then show "\<exists>ok m' w'. pm3_ensure 51 alloc start n m w = Inr (ok, m', w') \<and> P w'"
    unfolding pm3_ensure_def by (rule pm3_ensure_loop_inv [OF _ bits51(1)])
next
  fix k :: int and m
  assume "0 \<le> k"
  then show "next_spec (pm3_lookup 51 m) k (2 ^ 51) (pm3_next 51 m k)" using bits51(2) by (rule pm3_next_first)
qed (auto simp: pm3_get_lookup pm3_set_lookup, auto simp: pm3_lookup_def pm3_ensured_def)

section \<open>The map of the x86-64 build\<close>

text \<open>
  C18: The two-level page map behaves like a map from page numbers to pointers. When \<open>Ensure(start, n)\<close>
  succeeds, it has changed no entry, and for every page of the range \<open>set\<close> succeeds without touching memory
  outside its nodes; afterwards \<open>get\<close> returns the new value for that page and the old value for every other
  64-bit page number, and \<open>Next\<close> finds the first entry that is not null. If a node cannot be allocated, or the
  range leaves the map, \<open>Ensure\<close> returns false and no entry has changed.
\<close>

theorem pm2_refines_map:
  assumes "0 \<le> start" "0 < n" "start + n \<le> 2 ^ 64" "pm2_ensure BITS alloc start n m w = Inr (ok, m1, w1)"
  shows "(\<forall>j\<ge>0. pm2_get BITS m1 j = pm2_get BITS m j) \<and>
    (ok \<longrightarrow> (\<forall>k v. start \<le> k \<and> k < start + n \<longrightarrow> (\<exists>m2. pm2_set BITS m1 k v = Inr m2 \<and>
       (\<forall>j\<ge>0. pm2_get BITS m2 j = (if j = k then Inr v else pm2_get BITS m j)) \<and>
       (\<forall>j\<ge>0. next_spec (\<lambda>i. case pm2_get BITS m2 i of Inr p \<Rightarrow> p) j (2 ^ BITS) (pm2_next BITS m2 j)))))"
proof -
  note e = pm2.ensure_keeps [OF assms]
  have g: "pm2_get BITS m1 j = pm2_get BITS m j" if "0 \<le> j" for j
    using e that by (simp add: pm2.get_lookup)
  have "\<exists>m2. pm2_set BITS m1 k v = Inr m2 \<and>
       (\<forall>j\<ge>0. pm2_get BITS m2 j = (if j = k then Inr v else pm2_get BITS m j)) \<and>
       (\<forall>j\<ge>0. next_spec (\<lambda>i. case pm2_get BITS m2 i of Inr p \<Rightarrow> p) j (2 ^ BITS) (pm2_next BITS m2 j))"
    if "ok" "start \<le> k" "k < start + n" for k v
  proof -
    have en: "pm2_ensured BITS m1 k" using e that by blast
    then obtain m2 where m2: "pm2_set BITS m1 k v = Inr m2" using pm2.set_lookup by blast
    have "next_spec (\<lambda>i. case pm2_get BITS m2 i of Inr p \<Rightarrow> p) j (2 ^ BITS) (pm2_next BITS m2 j)" if "0 \<le> j" for j
      using pm2.next_first [OF that, of BITS m2] that
      by (auto simp: next_spec_def pm2.get_lookup)
    with m2 pm2.get_after_set [OF en m2] g show ?thesis by auto
  qed
  with g show ?thesis by blast
qed

theorem pm2_refines_map_witness:
  "case pm2_ensure 4 (\<lambda>sz w. Inr (64, w + 1)) 3 6 pm2_new (0 :: int) of
     Inl e \<Rightarrow> False
   | Inr (ok, m1, w1) \<Rightarrow> ok \<and> w1 = 3 \<and>
       (\<exists>m2. pm2_set 4 m1 7 99 = Inr m2 \<and> pm2_get 4 m2 7 = Inr 99 \<and> pm2_get 4 m2 6 = Inr 0)"
proof -
  have r: "case pm2_ensure 4 (\<lambda>sz w. Inr (64, w + 1)) 3 6 pm2_new (0 :: int) of
      Inl e \<Rightarrow> False | Inr (ok, m1, w1) \<Rightarrow> ok \<and> w1 = 3"
    by code_simp
  then obtain m1 where e: "pm2_ensure 4 (\<lambda>sz w. Inr (64, w + 1)) 3 6 pm2_new (0 :: int) = Inr (True, m1, 3)"
    by (auto split: sum.splits)
  have "pm2_get 4 pm2_new 6 = Inr 0" by code_simp
  moreover obtain m2 where "pm2_set 4 m1 7 99 = Inr m2"
    "\<forall>j\<ge>0. pm2_get 4 m2 j = (if j = 7 then Inr 99 else pm2_get 4 pm2_new j)"
    using conjunct2 [OF pm2_refines_map [OF _ _ _ e], rule_format, of 7 99] by auto
  ultimately show ?thesis by (simp add: e)
qed

end
