(* ===== verification/Size_Map.thy ===== *)
theory Size_Map
  imports Prelude
begin

unbundle bit_operations_syntax

text \<open>
  Size classes of the memory allocator: src/libs/tcmalloc/src/common.h and common.cc. A request is
  rounded up to a size class; \<open>SizeMap::Init\<close> computes the classes and the table that maps a size to
  its class, and checks its own work. The model is the x86-64 build without the configuration macros:
  8 KB pages, 16-byte minimal alignment. Sizes are at most 256 KB here, far from any overflow, so they
  are integers; the one function for arbitrary sizes, \<open>pages\<close>, works on 64-bit words.
\<close>

section \<open>Constants\<close>

definition kPageShift :: nat where "kPageShift = 13"
definition kPageSize :: int where "kPageSize = 8192"
definition kClassSizesMax :: nat where "kClassSizesMax = 96"
definition kMaxSize :: int where "kMaxSize = 262144"
definition kAlignment :: int where "kAlignment = 8"
definition kMinAlign :: int where "kMinAlign = 16"
definition kMaxSmallSize :: int where "kMaxSmallSize = 1024"
definition kClassArraySize :: int where "kClassArraySize = (kMaxSize + 127 + 120 * 128) div 128 + 1"

lemmas size_consts = kPageShift_def kPageSize_def kClassSizesMax_def kMaxSize_def kAlignment_def
  kMinAlign_def kMaxSmallSize_def

text \<open>\<open>pages\<close>: bytes to pages, rounded up.\<close>

definition pages :: "64 word \<Rightarrow> 64 word" where
  "pages bytes = drop_bit kPageShift bytes +
     (if bytes AND (of_int kPageSize - 1) > 0 then 1 else 0)"

section \<open>Alignment\<close>

text \<open>\<open>LgFloor\<close>: five halving steps.\<close>

definition lg_step :: "nat \<Rightarrow> int \<times> nat \<Rightarrow> int \<times> nat" where
  "lg_step i nl = (case nl of (n, log) \<Rightarrow>
     let shift = 2 ^ i; x = n div 2 ^ shift in if x \<noteq> 0 then (x, log + shift) else (n, log))"

definition lg_floor :: "int \<Rightarrow> nat" where
  "lg_floor n = snd (lg_step 0 (lg_step 1 (lg_step 2 (lg_step 3 (lg_step 4 (n, 0))))))"

text \<open>
  \<open>LgFloor\<close> asserts at its end that the number has been shifted down to 1. It has, for every number of 32 bits
  but 0, so the assertion is no branch of the definition. The range that \<open>ClassIndex\<close> asserts is the condition of its
  callers and a hypothesis of the lemmas about it.
\<close>

lemma lg_step_range:
  assumes "0 < n" "n < 2 ^ (2 ^ Suc i)"
  shows "0 < fst (lg_step i (n, k)) \<and> fst (lg_step i (n, k)) < 2 ^ (2 ^ i)"
proof -
  let ?b = "2 ^ (2 ^ i) :: int"
  have "n < ?b * ?b" using assms(2) by (simp add: mult_2 power_add)
  moreover have "?b * (n div ?b) \<le> n" using pos_mod_sign [of ?b n] mult_div_mod_eq [of ?b n] by (smt (verit) zero_less_power)
  ultimately have "?b * (n div ?b) < ?b * ?b" by (rule le_less_trans [rotated])
  then have "n div ?b < ?b" by simp
  moreover have "0 \<le> n div ?b" using assms(1) by (simp add: pos_imp_zdiv_nonneg_iff)
  moreover have "n < ?b" if "n div ?b = 0" using that assms(1) zdiv_eq_0_iff [of n ?b] by auto
  ultimately show ?thesis using assms(1) by (auto simp: lg_step_def Let_def)
qed

lemma lg_floor_assert:
  assumes "0 < n" "n < 2 ^ 32"
  shows "fst (lg_step 0 (lg_step 1 (lg_step 2 (lg_step 3 (lg_step 4 (n, 0)))))) = 1"
proof -
  have s: "0 < fst (lg_step i p) \<and> fst (lg_step i p) < 2 ^ (2 ^ i)" if "0 < fst p \<and> fst p < 2 ^ (2 ^ Suc i)" for i p
    using lg_step_range [of "fst p" i "snd p"] that by simp
  let ?p4 = "lg_step 4 (n, 0)" let ?p3 = "lg_step 3 ?p4" let ?p2 = "lg_step 2 ?p3" let ?p1 = "lg_step 1 ?p2"
  have "0 < fst ?p4 \<and> fst ?p4 < 2 ^ (2 ^ 4)" by (rule s) (use assms in simp)
  then have "0 < fst ?p3 \<and> fst ?p3 < 2 ^ (2 ^ 3)" by (intro s) simp
  then have "0 < fst ?p2 \<and> fst ?p2 < 2 ^ (2 ^ 2)" by (intro s) simp
  then have "0 < fst ?p1 \<and> fst ?p1 < 2 ^ (2 ^ 1)" by (intro s) simp
  then have "0 < fst (lg_step 0 ?p1) \<and> fst (lg_step 0 ?p1) < 2 ^ (2 ^ 0)" by (intro s) simp
  then show ?thesis by simp
qed

text \<open>\<open>AlignmentForSize\<close> before its two checks, and with them.\<close>

definition raw_alignment :: "int \<Rightarrow> int" where
  "raw_alignment sz =
     (let alignment =
        (if sz > kMaxSize then kPageSize
         else if sz \<ge> 128 then 2 ^ lg_floor sz div 8
         else if sz \<ge> kMinAlign then kMinAlign
         else kAlignment)
      in if alignment > kPageSize then kPageSize else alignment)"

definition alignment_for_size :: "int \<Rightarrow> int result" where
  "alignment_for_size sz =
     (let alignment = raw_alignment sz
      in if \<not> (sz < kMinAlign \<or> alignment \<ge> kMinAlign) then Inl CheckFailed
         else if alignment AND (alignment - 1) \<noteq> 0 then Inl CheckFailed
         else Inr alignment)"

text \<open>\<open>NumMoveSize\<close>; \<open>transfer\<close> is \<open>FLAGS_tcmalloc_transfer_num_objects\<close>, 32 unless the environment says otherwise.\<close>

definition kDefaultTransferNumObjecs :: int where "kDefaultTransferNumObjecs = 32"

definition num_move_size :: "int \<Rightarrow> int \<Rightarrow> int" where
  "num_move_size transfer sz =
     (if sz = 0 then 0 else
      let num = 65536 div sz;
          num = (if num < 2 then 2 else num)
      in if num > transfer then transfer else num)"

section \<open>The size map\<close>

record size_map =
  class_array :: "nat list"
  num_objects_to_move :: "int list"
  class_to_size :: "int list"
  class_to_pages :: "int list"
  num_size_classes :: nat

definition small_size_class :: "int \<Rightarrow> int" where "small_size_class s = (s + 7) div 8"
definition large_size_class :: "int \<Rightarrow> int" where "large_size_class s = (s + 127 + 120 * 128) div 128"

definition class_index :: "int \<Rightarrow> int" where
  "class_index s = (if s \<le> kMaxSmallSize then small_size_class s else large_size_class s)"

definition class_index_maybe :: "int \<Rightarrow> int option" where
  "class_index_maybe s =
     (if s \<le> kMaxSmallSize then Some ((s + 7) div 8)
      else if s \<le> kMaxSize then Some ((s + 127 + 120 * 128) div 128) else None)"

definition size_class :: "size_map \<Rightarrow> int \<Rightarrow> nat" where
  "size_class m s = class_array m ! nat (class_index s)"

definition get_size_class :: "size_map \<Rightarrow> int \<Rightarrow> nat option" where
  "get_size_class m s = map_option (\<lambda>idx. class_array m ! nat idx) (class_index_maybe s)"

definition byte_size_for_class :: "size_map \<Rightarrow> nat \<Rightarrow> int" where
  "byte_size_for_class m cl = class_to_size m ! cl"

text \<open>
  The span size for a class: the inner \<open>while\<close> adds pages until the waste is at most an eighth, the
  outer \<open>do\<close> until the span holds \<open>blocks\<close> objects.
\<close>

function grow_waste :: "int \<Rightarrow> int \<Rightarrow> int" where
  "grow_waste sz psize =
     (if 0 < sz \<and> psize mod sz > psize div 8 then grow_waste sz (psize + kPageSize) else psize)"
  by pat_completeness auto
termination
proof (relation "measure (\<lambda>(sz, psize). nat (8 * sz - psize))", goal_cases)
  case 1
  then show ?case by simp
next
  case (2 sz psize)
  then have "psize mod sz < sz" "psize mod sz > psize div 8" by simp_all
  then have "psize < 8 * sz" by linarith
  then show ?case by (simp add: size_consts)
qed

declare grow_waste.simps [simp del]

lemma grow_waste_ge: "psize \<le> grow_waste sz psize"
proof (induction sz psize rule: grow_waste.induct)
  case (1 sz psize)
  then show ?case
    by (subst grow_waste.simps) (auto simp: size_consts intro: order_trans [of psize "psize + 8192"])
qed

function span_bytes :: "int \<Rightarrow> int \<Rightarrow> int \<Rightarrow> int" where
  "span_bytes sz blocks psize =
     (let p = grow_waste sz (psize + kPageSize)
      in if 0 < sz \<and> p div sz < blocks then span_bytes sz blocks p else p)"
  by pat_completeness auto
termination
proof (relation "measure (\<lambda>(sz, blocks, psize). nat (blocks * sz - psize))", goal_cases)
  case 1
  then show ?case by simp
next
  case (2 sz blocks psize p)
  then have "p < blocks * sz" by (smt (verit) mult_le_cancel_right_pos pos_mod_sign mult_div_mod_eq zdiv_mono1 nonzero_mult_div_cancel_right)
  moreover have "psize + kPageSize \<le> p" using 2(1) grow_waste_ge by simp
  ultimately show ?case by (simp add: size_consts)
qed

declare span_bytes.simps [simp del]

text \<open>The quotient \<open>NumMoveSize(size) / 4\<close> is compared with a \<open>size_t\<close>, so a negative one would be huge.\<close>

definition blocks_to_move :: "int \<Rightarrow> int \<Rightarrow> int" where
  "blocks_to_move transfer sz =
     (let n = num_move_size transfer sz
      in (if 0 \<le> n then n div 4 else - (- n div 4)) mod 2 ^ 64)"

text \<open>One turn of the loop over the sizes: \<open>(sc, sizes, pages)\<close> before and after.\<close>

definition add_class :: "int \<Rightarrow> int \<Rightarrow> nat \<times> int list \<times> int list \<Rightarrow> (nat \<times> int list \<times> int list) result" where
  "add_class transfer sz st = (case st of (sc, sizes, pgs) \<Rightarrow>
     let psize = span_bytes sz (blocks_to_move transfer sz) 0;
         my_pages = psize div 2 ^ kPageShift
     in if 1 < sc \<and> my_pages = pgs ! (sc - 1) \<and>
           my_pages * 2 ^ kPageShift div sz = pgs ! (sc - 1) * 2 ^ kPageShift div sizes ! (sc - 1)
        then Inr (sc, sizes[sc - 1 := sz], pgs)
        else if kClassSizesMax \<le> sc then Inl OutOfBounds
        else Inr (sc + 1, sizes[sc := sz], pgs[sc := my_pages]))"

function class_loop :: "int \<Rightarrow> int \<Rightarrow> nat \<times> int list \<times> int list \<Rightarrow> (nat \<times> int list \<times> int list) result" where
  "class_loop transfer sz st =
     (if sz \<le> kMaxSize then
        bindR (alignment_for_size sz) (\<lambda>alignment.
          if alignment \<le> 0 then Inl DivByZero
          else if sz mod alignment \<noteq> 0 then Inl CheckFailed
          else bindR (add_class transfer sz st) (class_loop transfer (sz + alignment)))
      else Inr st)"
  by pat_completeness auto
termination
  by (relation "measure (\<lambda>(transfer, sz, st). nat (kMaxSize + 1 - sz))") auto

declare class_loop.simps [simp del]

text \<open>The loop that fills \<open>class_array_\<close> for one class, and for all.\<close>

function fill_class :: "nat \<Rightarrow> int \<Rightarrow> int \<Rightarrow> nat list \<Rightarrow> nat list" where
  "fill_class c s mx arr =
     (if s \<le> mx then fill_class c (s + kAlignment) mx (arr[nat (class_index s) := c]) else arr)"
  by pat_completeness auto
termination
  by (relation "measure (\<lambda>(c, s, mx, arr). nat (mx + 1 - s))") (auto simp: size_consts)

declare fill_class.simps [simp del]

function fill_classes :: "int list \<Rightarrow> nat \<Rightarrow> nat \<Rightarrow> int \<Rightarrow> nat list \<Rightarrow> nat list" where
  "fill_classes sizes n c next_size arr =
     (if c < n then fill_classes sizes n (c + 1) (sizes ! c + kAlignment) (fill_class c next_size (sizes ! c) arr)
      else arr)"
  by pat_completeness auto
termination
  by (relation "measure (\<lambda>(sizes, n, c, next_size, arr). n - c)") auto

declare fill_classes.simps [simp del]

text \<open>The first check: every size up to the maximum has the smallest class that holds it.\<close>

function check_sizes :: "size_map \<Rightarrow> int \<Rightarrow> unit result" where
  "check_sizes m sz =
     (if sz \<le> kMaxSize then
        let sc = size_class m sz in
        if sc = 0 \<or> sc \<ge> num_size_classes m then Inl CheckFailed
        else if 1 < sc \<and> sz \<le> class_to_size m ! (sc - 1) then Inl CheckFailed
        else if sz > class_to_size m ! sc \<or> class_to_size m ! sc = 0 then Inl CheckFailed
        else check_sizes m (if sz \<le> kMaxSmallSize then sz + 8 else sz + 128)
      else Inr ())"
  by pat_completeness auto
termination
  by (relation "measure (\<lambda>(m, sz). nat (kMaxSize + 1 - sz))") auto

declare check_sizes.simps [simp del]

text \<open>The second check: a multiple of a power of two gets a class that is a multiple of it.\<close>

function check_multiples :: "size_map \<Rightarrow> int \<Rightarrow> int \<Rightarrow> unit result" where
  "check_multiples m align sz =
     (if 0 < align \<and> sz < kPageSize then
        if class_to_size m ! size_class m sz mod align \<noteq> 0 then Inl CheckFailed
        else check_multiples m align (sz + align)
      else Inr ())"
  by pat_completeness auto
termination
  by (relation "measure (\<lambda>(m, align, sz). nat (kPageSize - sz))") auto

declare check_multiples.simps [simp del]

function check_aligns :: "size_map \<Rightarrow> int \<Rightarrow> unit result" where
  "check_aligns m align =
     (if 0 < align \<and> align \<le> kPageSize
      then bindR (check_multiples m align align) (\<lambda>_. check_aligns m (align * 2)) else Inr ())"
  by pat_completeness auto
termination
  by (relation "measure (\<lambda>(m, align). nat (kPageSize + 1 - align))") auto

declare check_aligns.simps [simp del]

text \<open>\<open>SizeMap::Init\<close>, on the zeroed static storage.\<close>

definition size_map_init :: "int \<Rightarrow> size_map result" where
  "size_map_init transfer =
     (if class_index 0 \<noteq> 0 \<or> class_index kMaxSize \<ge> kClassArraySize then Inl CheckFailed
      else bindR (class_loop transfer kAlignment (1, replicate kClassSizesMax 0, replicate kClassSizesMax 0))
        (\<lambda>(sc, sizes, pgs).
          if sc > kClassSizesMax then Inl CheckFailed
          else let m = \<lparr>class_array = fill_classes sizes sc 1 0 (replicate (nat kClassArraySize) 0),
                        num_objects_to_move = replicate kClassSizesMax 0,
                        class_to_size = sizes, class_to_pages = pgs, num_size_classes = sc\<rparr>
               in bindR (check_sizes m 0) (\<lambda>_. bindR (check_aligns m kMinAlign) (\<lambda>_.
                  Inr (m\<lparr>num_objects_to_move :=
                    map (\<lambda>cl. if 0 < cl \<and> cl < sc then num_move_size transfer (sizes ! cl) else 0)
                      [0..<kClassSizesMax]\<rparr>)))))"

section \<open>The class table\<close>

text \<open>\<open>top i\<close>: the largest size with index \<open>i\<close>.\<close>

definition top_size :: "int \<Rightarrow> int" where
  "top_size i = (if i \<le> 128 then 8 * i else 128 * (i - 120))"

lemmas class_index_defs = class_index_def small_size_class_def large_size_class_def kMaxSmallSize_def

lemma class_index_range:
  assumes "0 \<le> s" "s \<le> kMaxSize"
  shows "0 \<le> class_index s" "class_index s < kClassArraySize"
  using assms by (auto simp: class_index_defs kClassArraySize_def kMaxSize_def)

lemma top_size_index:
  assumes "0 \<le> i"
  shows "class_index (top_size i) = i" "top_size i mod 8 = 0" "0 \<le> top_size i"
  using assms by (auto simp: class_index_defs top_size_def)

lemma size_le_top: "0 \<le> s \<Longrightarrow> s \<le> top_size (class_index s)"
  by (auto simp: class_index_defs top_size_def)

text \<open>No class boundary lies between a size and the top of its index.\<close>

lemma top_le_boundary:
  assumes "0 \<le> s" "s \<le> b" "b mod 8 = 0" "1024 < b \<longrightarrow> b mod 128 = 0"
  shows "top_size (class_index s) \<le> b"
proof (cases "s \<le> 1024")
  case True
  then have i: "class_index s = (s + 7) div 8" "(s + 7) div 8 \<le> 128" by (simp_all add: class_index_defs)
  have "(s + 7) div 8 \<le> (b + 7) div 8" using assms(2) by (intro zdiv_mono1) simp_all
  moreover have "8 * ((b + 7) div 8) = b" using assms(3) by presburger
  ultimately show ?thesis using i by (simp add: top_size_def)
next
  case False
  then have i: "class_index s = (s + 127) div 128 + 120" "8 < (s + 127) div 128" by (simp_all add: class_index_defs)
  have "(s + 127) div 128 \<le> (b + 127) div 128" using assms(2) by (intro zdiv_mono1) simp_all
  moreover obtain k where k: "b = 128 * k" using assms(2,4) False by (auto simp: mod_eq_0_iff_dvd dvd_def)
  then have "128 * ((b + 127) div 128) = b" by simp
  ultimately show ?thesis using i by (simp add: top_size_def)
qed

definition class_ok :: "int list \<Rightarrow> nat \<Rightarrow> nat \<Rightarrow> int \<Rightarrow> bool" where
  "class_ok sizes n c s \<longleftrightarrow> 0 < c \<and> c < n \<and> s \<le> sizes ! c \<and> (1 < c \<longrightarrow> sizes ! (c - 1) < s)"

definition filled :: "int list \<Rightarrow> nat \<Rightarrow> int \<Rightarrow> nat list \<Rightarrow> bool" where
  "filled sizes n s arr \<longleftrightarrow> length arr = nat kClassArraySize \<and>
     (\<forall>i. 0 \<le> i \<and> top_size i < s \<longrightarrow> class_ok sizes n (arr ! nat i) (top_size i))"

lemma filled_step:
  assumes "filled sizes n s arr" "0 \<le> s" "s mod 8 = 0" "s \<le> kMaxSize" "class_ok sizes n c s"
  shows "filled sizes n (s + 8) (arr[nat (class_index s) := c])"
proof -
  have len: "length arr = nat kClassArraySize" using assms(1) by (simp add: filled_def)
  have "class_ok sizes n (arr[nat (class_index s) := c] ! nat i) (top_size i)" if i: "0 \<le> i" "top_size i < s + 8" for i
  proof (cases "top_size i < s")
    case True
    have "class_index s \<noteq> i" using size_le_top [OF assms(2)] True by auto
    moreover have "0 \<le> class_index s" using class_index_range assms by blast
    ultimately have "nat (class_index s) \<noteq> nat i" using i(1) by simp
    then show ?thesis using assms(1) True i(1) by (simp add: filled_def)
  next
    case False
    then have "top_size i = s" using i top_size_index(2) [OF i(1)] assms(3) by presburger
    then have "class_index s = i" using top_size_index(1) [OF i(1)] by simp
    moreover have "nat (class_index s) < length arr" using class_index_range [of s] assms len by simp
    ultimately show ?thesis using assms(5) \<open>top_size i = s\<close> by simp
  qed
  with len show ?thesis by (simp add: filled_def)
qed

lemma fill_class_filled:
  assumes "filled sizes n s arr" "0 \<le> s" "s mod 8 = 0" "mx mod 8 = 0" "mx \<le> kMaxSize" "s \<le> mx + 8"
    and "\<And>x. s \<le> x \<Longrightarrow> x \<le> mx \<Longrightarrow> class_ok sizes n c x"
  shows "filled sizes n (mx + 8) (fill_class c s mx arr)"
  using assms
proof (induction c s mx arr rule: fill_class.induct)
  case (1 c s mx arr)
  show ?case
  proof (cases "s \<le> mx")
    case True
    then have "s + 8 \<le> mx + 8" "(s + 8) mod 8 = 0" using 1(4,5) by auto
    moreover have "filled sizes n (s + 8) (arr[nat (class_index s) := c])"
      using filled_step 1 True by simp
    ultimately show ?thesis using 1 True by (subst fill_class.simps) (simp add: kAlignment_def)
  next
    case False
    then have "s = mx + 8" using 1(4,5,7) by presburger
    then show ?thesis using 1(2) by (subst fill_class.simps) simp
  qed
qed

text \<open>The conditions on the class sizes that the table and the checks rest on.\<close>

definition sizes_ok :: "int list \<Rightarrow> nat \<Rightarrow> bool" where
  "sizes_ok sizes n \<longleftrightarrow> 1 < n \<and> sizes ! (n - 1) = kMaxSize \<and>
     (\<forall>c \<in> {1..<n}. 0 < sizes ! c \<and> sizes ! c \<le> kMaxSize \<and> sizes ! c mod 8 = 0 \<and>
        (1024 < sizes ! c \<longrightarrow> sizes ! c mod 128 = 0) \<and> (1 < c \<longrightarrow> sizes ! (c - 1) < sizes ! c))"

lemma sizes_okD:
  assumes "sizes_ok sizes n" "0 < c" "c < n"
  shows "0 < sizes ! c" "sizes ! c \<le> kMaxSize" "sizes ! c mod 8 = 0" "1024 < sizes ! c \<longrightarrow> sizes ! c mod 128 = 0"
    "1 < c \<longrightarrow> sizes ! (c - 1) < sizes ! c"
proof -
  have "c \<in> {1..<n}" using assms by simp
  with assms(1) show "0 < sizes ! c" "sizes ! c \<le> kMaxSize" "sizes ! c mod 8 = 0"
    "1024 < sizes ! c \<longrightarrow> sizes ! c mod 128 = 0" "1 < c \<longrightarrow> sizes ! (c - 1) < sizes ! c"
    unfolding sizes_ok_def by blast+
qed

lemma fill_classes_filled:
  assumes "sizes_ok sizes n" "0 < c" "c \<le> n" "next_size = (if c = 1 then 0 else sizes ! (c - 1) + 8)"
    and "filled sizes n next_size arr"
  shows "filled sizes n (kMaxSize + 8) (fill_classes sizes n c next_size arr)"
  using assms
proof (induction sizes n c next_size arr rule: fill_classes.induct)
  case (1 sizes n c next_size arr)
  show ?case
  proof (cases "c < n")
    case False
    then have "next_size = kMaxSize + 8" using 1(2-5) by (auto simp: sizes_ok_def)
    then show ?thesis using 1(6) False by (subst fill_classes.simps) simp
  next
    case True
    note c = sizes_okD [OF 1(2,3) True]
    have nx: "0 \<le> next_size" "next_size mod 8 = 0" "next_size \<le> sizes ! c + 8"
    proof (atomize (full), cases "c = 1")
      case True
      then show "0 \<le> next_size \<and> next_size mod 8 = 0 \<and> next_size \<le> sizes ! c + 8" using 1(5) c(1) by simp
    next
      case False
      then have "0 < c - 1" "c - 1 < n" "1 < c" using 1(3) True by simp_all
      then show "0 \<le> next_size \<and> next_size mod 8 = 0 \<and> next_size \<le> sizes ! c + 8"
        using 1(5) c(5) False sizes_okD(1,3) [OF 1(2), of "c - 1"] by simp
    qed
    have "class_ok sizes n c x" if "next_size \<le> x" "x \<le> sizes ! c" for x
      using that 1(3,5) True by (auto simp: class_ok_def)
    then have f: "filled sizes n (sizes ! c + 8) (fill_class c next_size (sizes ! c) arr)"
      using fill_class_filled [OF 1(6) nx(1,2) c(3,2) nx(3)] by blast
    have "filled sizes n (kMaxSize + 8)
        (fill_classes sizes n (c + 1) (sizes ! c + kAlignment) (fill_class c next_size (sizes ! c) arr))"
      by (rule 1(1) [OF True 1(2)]) (use 1(3) True f in \<open>simp_all add: kAlignment_def\<close>)
    then show ?thesis using True by (subst fill_classes.simps) simp
  qed
qed

lemma filled_class:
  assumes "sizes_ok sizes n" "filled sizes n (kMaxSize + 8) arr" "0 \<le> s" "s \<le> kMaxSize"
  shows "class_ok sizes n (arr ! nat (class_index s)) s"
proof -
  let ?i = "class_index s" and ?c = "arr ! nat (class_index s)"
  note i = class_index_range [OF assms(3,4)]
  have "?i \<le> 2168" using i(2) by (simp add: kClassArraySize_def kMaxSize_def)
  then have "top_size ?i < kMaxSize + 8" by (auto simp: top_size_def kMaxSize_def)
  with assms(2) i have ok: "class_ok sizes n ?c (top_size ?i)" by (simp add: filled_def)
  have "sizes ! (?c - 1) < s" if "1 < ?c"
  proof (rule ccontr)
    assume "\<not> sizes ! (?c - 1) < s"
    then have "s \<le> sizes ! (?c - 1)" by simp
    moreover have "0 < ?c - 1" "?c - 1 < n" using ok that by (auto simp: class_ok_def)
    ultimately have "top_size ?i \<le> sizes ! (?c - 1)"
      using top_le_boundary [OF assms(3)] sizes_okD [OF assms(1)] by blast
    with ok that show False by (simp add: class_ok_def)
  qed
  with ok size_le_top [OF assms(3)] show ?thesis by (auto simp: class_ok_def)
qed

section \<open>The checks of \<open>Init\<close>\<close>

definition map_ok :: "size_map \<Rightarrow> bool" where
  "map_ok m \<longleftrightarrow> sizes_ok (class_to_size m) (num_size_classes m) \<and>
     (\<forall>s. 0 \<le> s \<and> s \<le> kMaxSize \<longrightarrow> class_ok (class_to_size m) (num_size_classes m) (size_class m s) s)"

lemma check_sizes_ok:
  assumes "map_ok m" "0 \<le> sz"
  shows "check_sizes m sz = Inr ()"
  using assms(2)
proof (induction "nat (kMaxSize + 1 - sz)" arbitrary: sz rule: less_induct)
  case less
  show ?case
  proof (cases "sz \<le> kMaxSize")
    case True
    let ?c = "size_class m sz" and ?n = "if sz \<le> kMaxSmallSize then sz + 8 else sz + 128"
    have ok: "class_ok (class_to_size m) (num_size_classes m) ?c sz" using assms(1) less.prems True by (simp add: map_ok_def)
    then have "0 < class_to_size m ! ?c"
      using sizes_okD(1) [of "class_to_size m" "num_size_classes m" ?c] assms(1) by (auto simp: class_ok_def map_ok_def)
    moreover have "check_sizes m ?n = Inr ()" by (rule less.hyps) (use True less.prems in \<open>auto simp: kMaxSize_def\<close>)
    ultimately show ?thesis using ok True by (subst check_sizes.simps) (auto simp: class_ok_def Let_def)
  qed (subst check_sizes.simps, simp)
qed

text \<open>
  The second check passes if, for each power of two, every class below a page whose range contains a
  multiple of it is itself a multiple: it is enough to look at the largest multiple in the range.
\<close>

definition aligned_for :: "int list \<Rightarrow> nat \<Rightarrow> int \<Rightarrow> bool" where
  "aligned_for sizes n a \<longleftrightarrow>
     (\<forall>c \<in> {1..<n}. (c = 1 \<or> sizes ! (c - 1) < kPageSize) \<longrightarrow>
        (if c = 1 then 0 else sizes ! (c - 1)) < sizes ! c div a * a \<longrightarrow> sizes ! c mod a = 0)"

lemma check_multiples_ok:
  assumes "map_ok m" "aligned_for (class_to_size m) (num_size_classes m) a" "0 < a" "0 < sz" "sz mod a = 0"
  shows "check_multiples m a sz = Inr ()"
  using assms(4,5)
proof (induction "nat (kPageSize - sz)" arbitrary: sz rule: less_induct)
  case less
  show ?case
  proof (cases "sz < kPageSize")
    case True
    let ?c = "size_class m sz" and ?sizes = "class_to_size m"
    have "sz \<le> kMaxSize" using True by (simp add: size_consts)
    then have ok: "class_ok ?sizes (num_size_classes m) ?c sz" using assms(1) less.prems by (simp add: map_ok_def)
    have "sz div a * a = sz" using less.prems(2) assms(3) by auto
    moreover have "sz div a * a \<le> ?sizes ! ?c div a * a"
      using ok assms(3) by (intro mult_right_mono zdiv_mono1) (auto simp: class_ok_def)
    ultimately have "sz \<le> ?sizes ! ?c div a * a" by simp
    moreover have "?c \<in> {1..<num_size_classes m}" using ok by (auto simp: class_ok_def)
    moreover have "?c = 1 \<or> ?sizes ! (?c - 1) < kPageSize" "(if ?c = 1 then 0 else ?sizes ! (?c - 1)) < sz"
      using ok True less.prems(1) by (auto simp: class_ok_def)
    ultimately have "?sizes ! ?c mod a = 0"
      using assms(2) unfolding aligned_for_def by (meson less_le_trans)
    moreover have "check_multiples m a (sz + a) = Inr ()"
      by (rule less.hyps) (use True less.prems assms(3) in \<open>auto simp: kPageSize_def\<close>)
    ultimately show ?thesis using True assms(3) by (subst check_multiples.simps) simp
  qed (subst check_multiples.simps, simp)
qed

lemma check_aligns_ok:
  assumes "map_ok m" "0 < a" "\<And>j. a * 2 ^ j \<le> kPageSize \<Longrightarrow> aligned_for (class_to_size m) (num_size_classes m) (a * 2 ^ j)"
  shows "check_aligns m a = Inr ()"
  using assms(2,3)
proof (induction "nat (kPageSize + 1 - a)" arbitrary: a rule: less_induct)
  case less
  show ?case
  proof (cases "a \<le> kPageSize")
    case True
    have "check_multiples m a a = Inr ()"
      using check_multiples_ok [OF assms(1), of a a] less.prems(1) less.prems(2) [of 0] True by simp
    moreover have "check_aligns m (a * 2) = Inr ()"
    proof (rule less.hyps)
      show "aligned_for (class_to_size m) (num_size_classes m) (a * 2 * 2 ^ j)" if "a * 2 * 2 ^ j \<le> kPageSize" for j
        using less.prems(2) [of "Suc j"] that by (simp add: mult.assoc)
    qed (use less.prems True in auto)
    ultimately show ?thesis using True less.prems(1) by (subst check_aligns.simps) simp
  qed (subst check_aligns.simps, simp)
qed

section \<open>The default configuration\<close>

definition default_sizes :: "int list" where
  "default_sizes =
     [0, 8, 16, 32, 48, 64, 80, 96, 112, 128, 144, 160, 176, 192, 208, 224, 240, 256, 288, 320, 352, 384, 416,
      448, 480, 512, 576, 640, 704, 768, 896, 1024, 1152, 1280, 1408, 1536, 1792, 2048, 2304, 2560, 2816,
      3072, 3328, 4096, 4608, 5120, 6144, 6656, 8192, 9216, 10240, 12288, 13312, 16384, 20480, 24576, 26624,
      32768, 40960, 49152, 57344, 65536, 73728, 81920, 90112, 98304, 106496, 114688, 122880, 131072, 139264,
      147456, 155648, 163840, 172032, 180224, 188416, 196608, 204800, 212992, 221184, 229376, 237568, 245760,
      253952, 262144, 0, 0, 0, 0, 0, 0, 0, 0, 0, 0]"

definition default_pages :: "int list" where
  "default_pages =
     [0, 1, 1, 1, 1, 1, 1, 1, 1, 1, 1, 1, 1, 1, 1, 1, 1, 1, 1, 1, 1, 1, 1, 1, 1, 1, 1, 1, 1, 1, 1, 1,
      2, 2, 2, 2, 2, 2, 2, 2, 3, 2, 3, 2, 3, 2, 3, 5, 2, 5, 4, 3, 5, 2, 5, 3, 7, 4, 5, 6, 7, 8, 9, 10, 11, 12, 13,
      14, 15, 16, 17, 18, 19, 20, 21, 22, 23, 24, 25, 26, 27, 28, 29, 30, 31, 32, 0, 0, 0, 0, 0, 0, 0, 0, 0, 0]"

lemma default_class_loop:
  "class_loop 32 kAlignment (1, replicate kClassSizesMax 0, replicate kClassSizesMax 0) =
   Inr (86, default_sizes, default_pages)"
  by code_simp

lemma default_sizes_ok: "sizes_ok default_sizes 86"
  by code_simp

lemma default_aligned:
  "\<forall>a \<in> set [16, 32, 64, 128, 256, 512, 1024, 2048, 4096, 8192]. aligned_for default_sizes 86 a"
  by code_simp

lemma default_aligned_power:
  assumes "kMinAlign * 2 ^ j \<le> kPageSize"
  shows "aligned_for default_sizes 86 (kMinAlign * 2 ^ j)"
proof -
  have "j < 10"
  proof (rule ccontr)
    assume "\<not> j < 10"
    then have "(2 :: int) ^ 10 \<le> 2 ^ j" by (intro power_increasing) simp_all
    then show False using assms by (simp add: size_consts)
  qed
  moreover have "\<forall>j < 10. kMinAlign * 2 ^ j \<in> set [16, 32, 64, 128, 256, 512, 1024, 2048, 4096, 8192]" by code_simp
  ultimately have "kMinAlign * 2 ^ j \<in> set [16, 32, 64, 128, 256, 512, 1024, 2048, 4096, 8192]" by blast
  with default_aligned show ?thesis by blast
qed

definition default_map :: size_map where
  "default_map = \<lparr>class_array = fill_classes default_sizes 86 1 0 (replicate (nat kClassArraySize) 0),
     num_objects_to_move =
       map (\<lambda>cl. if 0 < cl \<and> cl < 86 then num_move_size 32 (default_sizes ! cl) else 0) [0..<kClassSizesMax],
     class_to_size = default_sizes, class_to_pages = default_pages, num_size_classes = 86\<rparr>"

lemma filled_start: "filled sizes n 0 (replicate (nat kClassArraySize) 0)"
  unfolding filled_def using top_size_index(3) by (fastforce simp: not_less)

lemma default_map_ok: "map_ok (default_map\<lparr>num_objects_to_move := x\<rparr>)"
proof -
  have "filled default_sizes 86 (kMaxSize + 8) (fill_classes default_sizes 86 1 0 (replicate (nat kClassArraySize) 0))"
    by (rule fill_classes_filled [OF default_sizes_ok]) (simp_all add: filled_start)
  from filled_class [OF default_sizes_ok this] default_sizes_ok show ?thesis
    by (simp add: map_ok_def default_map_def size_class_def)
qed

lemma size_map_init_default: "size_map_init kDefaultTransferNumObjecs = Inr default_map"
proof -
  let ?m = "default_map\<lparr>num_objects_to_move := replicate kClassSizesMax 0\<rparr>"
  have "check_sizes ?m 0 = Inr ()" using check_sizes_ok [OF default_map_ok] by simp
  moreover have "check_aligns ?m kMinAlign = Inr ()"
    by (rule check_aligns_ok [OF default_map_ok])
      (use default_aligned_power in \<open>simp_all add: default_map_def kMinAlign_def\<close>)
  moreover have "class_index 0 = 0" "class_index kMaxSize < kClassArraySize"
    using class_index_range(2) [of kMaxSize] by (simp_all add: class_index_defs kMaxSize_def)
  moreover have "\<not> kClassSizesMax < 86" by (simp add: kClassSizesMax_def)
  ultimately show ?thesis
    unfolding size_map_init_def kDefaultTransferNumObjecs_def default_class_loop bindR_simps prod.case Let_def
    by (simp add: default_map_def)
qed

lemma class_index_maybe_eq: "0 \<le> s \<Longrightarrow> s \<le> kMaxSize \<Longrightarrow> class_index_maybe s = Some (class_index s)"
  by (simp add: class_index_maybe_def class_index_defs)

section \<open>Properties\<close>

text \<open>
  C17: \<open>SizeMap::Init\<close> computes a correct size-class table. With the default transfer count, none of its
  checks fails; every request of at most \<open>kMaxSize\<close> bytes gets a class that holds it, and the smallest
  such class; larger requests get none.
\<close>
theorem size_map_smallest_fit:
  "\<exists>m. size_map_init kDefaultTransferNumObjecs = Inr m \<and> num_size_classes m = 86 \<and>
    (\<forall>s. kMaxSize < s \<longrightarrow> get_size_class m s = None) \<and>
    (\<forall>s. 0 \<le> s \<and> s \<le> kMaxSize \<longrightarrow> (\<exists>c. get_size_class m s = Some c \<and> 0 < c \<and> c < num_size_classes m \<and>
       s \<le> byte_size_for_class m c \<and> (\<forall>d. 0 < d \<and> d < c \<longrightarrow> byte_size_for_class m d < s)))"
proof -
  have mono: "default_sizes ! d \<le> default_sizes ! (c - 1)" if "0 < d" "d < c" "c < 86" for c d
    using that
  proof (induction c)
    case (Suc c)
    show ?case
    proof (cases "d = c")
      case False
      with Suc have "default_sizes ! d \<le> default_sizes ! (c - 1)" "default_sizes ! (c - 1) < default_sizes ! c"
        using sizes_okD(5) [OF default_sizes_ok, of c] by simp_all
      then show ?thesis by simp
    qed simp
  qed simp
  have "\<exists>c. get_size_class default_map s = Some c \<and> 0 < c \<and> c < num_size_classes default_map \<and>
      s \<le> byte_size_for_class default_map c \<and> (\<forall>d. 0 < d \<and> d < c \<longrightarrow> byte_size_for_class default_map d < s)"
    if s: "0 \<le> s" "s \<le> kMaxSize" for s
  proof -
    have "map_ok default_map" using default_map_ok [of "num_objects_to_move default_map"] by simp
    then have ok: "class_ok default_sizes 86 (size_class default_map s) s"
      using s by (simp add: map_ok_def default_map_def)
    have "default_sizes ! d < s" if "0 < d" "d < size_class default_map s" for d
      using mono [of d "size_class default_map s"] ok that by (fastforce simp: class_ok_def)
    with ok show ?thesis
      by (intro exI [of _ "size_class default_map s"])
        (auto simp: get_size_class_def class_index_maybe_eq [OF s] size_class_def class_ok_def byte_size_for_class_def
          default_map_def)
  qed
  moreover have "get_size_class default_map s = None" if "kMaxSize < s" for s
    using that by (simp add: get_size_class_def class_index_maybe_def size_consts)
  ultimately show ?thesis
    by (intro exI [of _ default_map]) (simp add: size_map_init_default default_map_def)
qed

theorem size_map_smallest_fit_witness:
  "\<exists>m c. size_map_init kDefaultTransferNumObjecs = Inr m \<and> get_size_class m 1025 = Some c \<and> 1025 \<le> byte_size_for_class m c"
proof -
  obtain m where m: "size_map_init kDefaultTransferNumObjecs = Inr m"
    "\<forall>s. 0 \<le> s \<and> s \<le> kMaxSize \<longrightarrow> (\<exists>c. get_size_class m s = Some c \<and> 0 < c \<and> c < num_size_classes m \<and>
       s \<le> byte_size_for_class m c \<and> (\<forall>d. 0 < d \<and> d < c \<longrightarrow> byte_size_for_class m d < s))"
    using size_map_smallest_fit by blast
  have "0 \<le> (1025 :: int) \<and> (1025 :: int) \<le> kMaxSize" by (simp add: kMaxSize_def)
  with m show ?thesis by blast
qed

lemma div_round_up:
  fixes n d :: nat
  assumes "0 < d"
  shows "(n + (d - 1)) div d = n div d + (if n mod d \<noteq> 0 then 1 else 0)"
proof -
  let ?r = "n mod d"
  have "n + (d - 1) = d * (n div d) + (?r + (d - 1))" by simp
  then have "(n + (d - 1)) div d = n div d + (?r + (d - 1)) div d"
    using assms by (metis div_mult_self4 less_numeral_extra(3))
  moreover have "(?r + (d - 1)) div d = (if ?r \<noteq> 0 then 1 else 0)"
  proof (cases "?r = 0")
    case True
    then show ?thesis using assms by simp
  next
    case False
    then have e: "?r + (d - 1) = (?r - 1) + d" using assms by simp
    have "?r - 1 < d" using assms mod_less_divisor [of d n] by linarith
    then have lt: "(?r - 1) div d = 0" by (rule div_less)
    have "(?r - 1 + d) div d = (?r - 1) div d + 1" using assms by (intro div_add_self2) simp
    then show ?thesis unfolding e lt using False by simp
  qed
  ultimately show ?thesis by simp
qed

text \<open>Rounding a number of bytes up to whole pages.\<close>

lemma pages_words: "unat (pages b) = (unat b + 8191) div 8192"
proof -
  have m: "b AND 8191 = take_bit 13 b" by (simp add: take_bit_eq_mask mask_eq_exp_minus_1)
  have d: "unat (drop_bit 13 b) = unat b div 8192"
    unfolding unat_drop_bit_eq by (simp add: drop_bit_eq_div)
  have t: "unat (take_bit 13 b) = unat b mod 8192"
    by (simp add: take_bit_eq_mod unat_mod)
  have pos: "b AND 8191 > 0 \<longleftrightarrow> unat b mod 8192 \<noteq> 0"
    unfolding m word_gt_0 using t by (metis unat_eq_zero)
  have small: "unat b div 8192 < 2 ^ 51" using unsigned_less [of b] by (simp add: div_less_iff_less_mult)
  then have "unat (drop_bit 13 b + 1) = unat b div 8192 + 1"
    using d by (simp add: unat_word_ariths)
  moreover have "(unat b + 8191) div 8192 = unat b div 8192 + (if unat b mod 8192 \<noteq> 0 then 1 else 0)"
    using div_round_up [of 8192 "unat b"] by simp
  ultimately show ?thesis using d pos by (simp add: pages_def kPageShift_def kPageSize_def)
qed

text \<open>
  C35: \<open>pages\<close> rounds a number of bytes up to whole pages, for every 64-bit value, without overflow.
\<close>
theorem pages_round_up: "unat (pages b) = (unat b + 8191) div 8192"
  by (rule pages_words)

end
