(* ===== verification/Page_Heap.thy ===== *)
theory Page_Heap
  imports Span Page_Map Size_Map
begin

unbundle bit_operations_syntax

text \<open>
  The page heap: src/libs/tcmalloc/src/page_heap.h and page_heap.cc. It hands out and takes back spans,
  keeps the free ones in lists by length and, above 128 pages, in two sets ordered for best fit, splits spans
  that are too long, merges neighbours of the same kind, returns memory to the system and takes more from it.

  The doubly linked lists are the sequences they link (theory \<open>Span\<close> shows that the list operations act as
  the operations on sequences used here), and a \<open>SpanSet\<close> is the sequence of its elements in order. The
  counters of \<open>Stats\<close> are 64-bit words. Without \<open>NDEBUG\<close> every \<open>ASSERT\<close> is live and appears as a \<open>check\<close>.
  \<open>RecordGrowth\<close>, which only keeps stack traces for profiles, and the memory of the set nodes are left out.
\<close>

section \<open>State\<close>

definition kMaxPages :: int where "kMaxPages = 128"
definition kMinSystemAlloc :: int where "kMinSystemAlloc = kMaxPages"
definition kMaxReleaseDelay :: int where "kMaxReleaseDelay = 1048576"
definition kDefaultReleaseDelay :: int where "kDefaultReleaseDelay = 262144"
definition kMaxValidPages :: int where "kMaxValidPages = 2 ^ 51 - 1"
definition kPageMapBigAllocationThreshold :: "64 word" where "kPageMapBigAllocationThreshold = 134217728"
definition kForcedCoalesceInterval :: "64 word" where "kForcedCoalesceInterval = 134217728"

text \<open>\<open>MapSelector<48>\<close>: a two-level map for page numbers of \<open>48 - kPageShift\<close> bits.\<close>

definition map_bits :: nat where "map_bits = 35"

record ph_stats =
  system_bytes :: "64 word"
  free_bytes :: "64 word"
  unmapped_bytes :: "64 word"
  committed_bytes :: "64 word"
  scavenge_count :: "64 word"
  commit_count :: "64 word"
  total_commit_bytes :: "64 word"
  decommit_count :: "64 word"
  total_decommit_bytes :: "64 word"
  reserve_count :: "64 word"
  total_reserve_bytes :: "64 word"

definition stats_new :: ph_stats where
  "stats_new = \<lparr>system_bytes = 0, free_bytes = 0, unmapped_bytes = 0, committed_bytes = 0, scavenge_count = 0,
     commit_count = 0, total_commit_bytes = 0, decommit_count = 0, total_decommit_bytes = 0, reserve_count = 0,
     total_reserve_bytes = 0\<rparr>"

record 'k page_heap =
  ph_spans :: span_store
  ph_pagemap :: pm2
  ph_normal :: "int \<Rightarrow> addr list"
  ph_returned :: "int \<Rightarrow> addr list"
  ph_large_normal :: "span_ptr_with_length list"
  ph_large_returned :: "span_ptr_with_length list"
  ph_stats_of :: ph_stats
  ph_scavenge_counter :: int
  ph_release_index :: int
  ph_aggressive_decommit :: bool
  ph_span_allocator :: ph_allocator
  ph_words :: store
  ph_world :: "'k world"

abbreviation upd_stats :: "(ph_stats \<Rightarrow> ph_stats) \<Rightarrow> 'k page_heap \<Rightarrow> 'k page_heap" where
  "upd_stats f h \<equiv> h\<lparr>ph_stats_of := f (ph_stats_of h)\<rparr>"

text \<open>The constructor; the span allocator and the world come from the static initialisation.\<close>

definition page_heap_new :: "ph_allocator \<Rightarrow> store \<Rightarrow> 'k world \<Rightarrow> 'k page_heap" where
  "page_heap_new al words w =
     \<lparr>ph_spans = (\<lambda>_. None), ph_pagemap = pm2_new, ph_normal = (\<lambda>_. []), ph_returned = (\<lambda>_. []),
      ph_large_normal = [], ph_large_returned = [], ph_stats_of = stats_new, ph_scavenge_counter = 0,
      ph_release_index = kMaxPages, ph_aggressive_decommit = False,
      ph_span_allocator = al, ph_words = words, ph_world = w\<rparr>"

section \<open>Access to spans and to the page map\<close>

definition the_span :: "'k page_heap \<Rightarrow> addr \<Rightarrow> span result" where
  "the_span h sp = deref (ph_spans h) sp"

definition upd_span :: "addr \<Rightarrow> (span \<Rightarrow> span) \<Rightarrow> 'k page_heap \<Rightarrow> 'k page_heap result" where
  "upd_span sp f h = bindR (modify sp f (ph_spans h)) (\<lambda>st. Inr (h\<lparr>ph_spans := st\<rparr>))"

definition GetDescriptor :: "'k page_heap \<Rightarrow> int \<Rightarrow> addr result" where
  "GetDescriptor h p = pm2_get map_bits (ph_pagemap h) p"

definition pagemap_set :: "int \<Rightarrow> addr \<Rightarrow> 'k page_heap \<Rightarrow> 'k page_heap result" where
  "pagemap_set p sp h = bindR (pm2_set map_bits (ph_pagemap h) p sp) (\<lambda>m. Inr (h\<lparr>ph_pagemap := m\<rparr>))"

definition RecordSpan :: "addr \<Rightarrow> 'k page_heap \<Rightarrow> 'k page_heap result" where
  "RecordSpan sp h =
     bindR (the_span h sp) (\<lambda>s.
     bindR (pagemap_set (sp_start s) sp h) (\<lambda>h1.
       if sp_length s > 1 then pagemap_set (sp_start s + sp_length s - 1) sp h1 else Inr h1))"

definition new_span :: "'k tc_env \<Rightarrow> int \<Rightarrow> int \<Rightarrow> 'k page_heap \<Rightarrow> (addr \<times> 'k page_heap) result" where
  "new_span env p len h =
     bindR (NewSpan env p len (ph_span_allocator h) (ph_words h) (ph_world h) (ph_spans h)) (\<lambda>(sp, al, words, w, st).
       Inr (sp, h\<lparr>ph_span_allocator := al, ph_words := words, ph_world := w, ph_spans := st\<rparr>))"

definition delete_span :: "addr \<Rightarrow> 'k page_heap \<Rightarrow> 'k page_heap result" where
  "delete_span sp h =
     bindR (DeleteSpan sp (ph_span_allocator h) (ph_words h) (ph_spans h)) (\<lambda>(al, words, st).
       Inr (h\<lparr>ph_span_allocator := al, ph_words := words, ph_spans := st\<rparr>))"

text \<open>\<open>len << kPageShift\<close> as a number of bytes.\<close>

definition page_bytes :: "int \<Rightarrow> 64 word" where
  "page_bytes len = word_of_int (push_bit kPageShift len)"

text \<open>Conversion to a 32-bit \<open>int\<close>, as in \<open>const int extra = span->length - n\<close>.\<close>

definition to_int32 :: "int \<Rightarrow> int" where
  "to_int32 x = (x + 2 ^ 31) mod 2 ^ 32 - 2 ^ 31"

section \<open>Sets of large spans\<close>

definition start_of :: "span_store \<Rightarrow> addr \<Rightarrow> int" where
  "start_of st a = (case st a of None \<Rightarrow> 0 | Some s \<Rightarrow> sp_start s)"

text \<open>\<open>std::set\<close> with \<open>SpanBestFitLess\<close>: insertion (and whether it took place), \<open>upper_bound\<close>.\<close>

definition set_insert :: "span_store \<Rightarrow> span_ptr_with_length \<Rightarrow> span_ptr_with_length list \<Rightarrow> span_ptr_with_length list \<times> bool" where
  "set_insert st e xs =
     (let lo = takeWhile (\<lambda>x. SpanBestFitLess (start_of st) x e) xs;
          hi = dropWhile (\<lambda>x. SpanBestFitLess (start_of st) x e) xs
      in case hi of
           [] \<Rightarrow> (lo @ [e], True)
         | y # ys \<Rightarrow> if SpanBestFitLess (start_of st) e y then (lo @ e # hi, True) else (xs, False))"

text \<open>The bound is a span with start 0 and length \<open>n\<close>.\<close>

definition above_bound :: "span_store \<Rightarrow> int \<Rightarrow> span_ptr_with_length \<Rightarrow> bool" where
  "above_bound st n x \<longleftrightarrow> n < spl_length x \<or> (n = spl_length x \<and> 0 < start_of st (spl_span x))"

definition upper_bound :: "span_store \<Rightarrow> int \<Rightarrow> span_ptr_with_length list \<Rightarrow> span_ptr_with_length option" where
  "upper_bound st n xs = find (above_bound st n) xs"

section \<open>Free lists\<close>

definition large_set :: "span_location \<Rightarrow> 'k page_heap \<Rightarrow> span_ptr_with_length list" where
  "large_set loc h = (if loc = ON_RETURNED_FREELIST then ph_large_returned h else ph_large_normal h)"

definition set_large :: "span_location \<Rightarrow> span_ptr_with_length list \<Rightarrow> 'k page_heap \<Rightarrow> 'k page_heap" where
  "set_large loc xs h = (if loc = ON_RETURNED_FREELIST then h\<lparr>ph_large_returned := xs\<rparr> else h\<lparr>ph_large_normal := xs\<rparr>)"

definition small_list :: "span_location \<Rightarrow> int \<Rightarrow> 'k page_heap \<Rightarrow> addr list" where
  "small_list loc i h = (if loc = ON_NORMAL_FREELIST then ph_normal h i else ph_returned h i)"

definition set_small :: "span_location \<Rightarrow> int \<Rightarrow> addr list \<Rightarrow> 'k page_heap \<Rightarrow> 'k page_heap" where
  "set_small loc i xs h =
     (if loc = ON_NORMAL_FREELIST then h\<lparr>ph_normal := (ph_normal h)(i := xs)\<rparr> else h\<lparr>ph_returned := (ph_returned h)(i := xs)\<rparr>)"

text \<open>
  \<open>set->insert\<close> allocates a node through \<open>STLPageHeapAllocator\<close>, whose failure ends the process; the nodes are not
  modelled, so this failure is no case of the definition below.
\<close>

definition PrependToFreeList :: "addr \<Rightarrow> 'k page_heap \<Rightarrow> 'k page_heap result" where
  "PrependToFreeList sp h =
     bindR (the_span h sp) (\<lambda>s. check (sp_location s \<noteq> IN_USE)
       (let h1 = (if sp_location s = ON_NORMAL_FREELIST
                  then upd_stats (\<lambda>t. t\<lparr>free_bytes := free_bytes t + page_bytes (sp_length s)\<rparr>) h
                  else upd_stats (\<lambda>t. t\<lparr>unmapped_bytes := unmapped_bytes t + page_bytes (sp_length s)\<rparr>) h)
        in if sp_length s > kMaxPages then
             (case set_insert (ph_spans h) (span_ptr sp s) (large_set (sp_location s) h1) of (xs, inserted) \<Rightarrow>
                check inserted (check (\<not> sp_has_span_iter s)
                  (upd_span sp (\<lambda>s. s\<lparr>sp_has_span_iter := True\<rparr>) (set_large (sp_location s) xs h1))))
           else if sp_length s - 1 < 0 then Inl OutOfBounds
           else Inr (set_small (sp_location s) (sp_length s - 1) (sp # small_list (sp_location s) (sp_length s - 1) h1) h1)))"

definition RemoveFromFreeList :: "addr \<Rightarrow> 'k page_heap \<Rightarrow> 'k page_heap result" where
  "RemoveFromFreeList sp h =
     bindR (the_span h sp) (\<lambda>s. check (sp_location s \<noteq> IN_USE)
       (let h1 = (if sp_location s = ON_NORMAL_FREELIST
                  then upd_stats (\<lambda>t. t\<lparr>free_bytes := free_bytes t - page_bytes (sp_length s)\<rparr>) h
                  else upd_stats (\<lambda>t. t\<lparr>unmapped_bytes := unmapped_bytes t - page_bytes (sp_length s)\<rparr>) h)
        in if sp_length s > kMaxPages then
             check (sp_has_span_iter s) (check (span_ptr sp s \<in> set (large_set (sp_location s) h1))
               (upd_span sp (\<lambda>s. s\<lparr>sp_has_span_iter := False\<rparr>)
                  (set_large (sp_location s) (remove1 (span_ptr sp s) (large_set (sp_location s) h1)) h1)))
           else if sp \<in> set (small_list (sp_location s) (sp_length s - 1) h1)
           then Inr (set_small (sp_location s) (sp_length s - 1)
                       (remove1 sp (small_list (sp_location s) (sp_length s - 1) h1)) h1)
           else Inl NullDeref))"

section \<open>Commit and decommit\<close>

definition CommitSpan :: "addr \<Rightarrow> 'k page_heap \<Rightarrow> 'k page_heap result" where
  "CommitSpan sp h =
     bindR (the_span h sp) (\<lambda>s.
       let b = page_bytes (sp_length s);
           w = (ph_world h)\<lparr>w_os := TCMalloc_SystemCommit (push_bit kPageShift (sp_start s)) (push_bit kPageShift (sp_length s)) (w_os (ph_world h))\<rparr>
       in Inr (upd_stats (\<lambda>t. t\<lparr>commit_count := commit_count t + 1, committed_bytes := committed_bytes t + b,
                total_commit_bytes := total_commit_bytes t + b\<rparr>) (h\<lparr>ph_world := w\<rparr>)))"

definition DecommitSpan :: "'k tc_env \<Rightarrow> addr \<Rightarrow> 'k page_heap \<Rightarrow> (bool \<times> 'k page_heap) result" where
  "DecommitSpan env sp h =
     bindR (the_span h sp) (\<lambda>s.
       let h1 = upd_stats (\<lambda>t. t\<lparr>decommit_count := decommit_count t + 1\<rparr>) h; b = page_bytes (sp_length s)
       in bindR (TCMalloc_SystemRelease env (push_bit kPageShift (sp_start s)) (push_bit kPageShift (sp_length s))
                   (w_sys (ph_world h1)) (w_os (ph_world h1))) (\<lambda>(rv, ss, k).
            let h2 = h1\<lparr>ph_world := (ph_world h1)\<lparr>w_sys := ss, w_os := k\<rparr>\<rparr>
            in Inr (rv, if rv then upd_stats (\<lambda>t. t\<lparr>committed_bytes := committed_bytes t - b,
                          total_decommit_bytes := total_decommit_bytes t + b\<rparr>) h2 else h2)))"

definition stats_balanced :: "'k page_heap \<Rightarrow> bool" where
  "stats_balanced h \<longleftrightarrow> unmapped_bytes (ph_stats_of h) + committed_bytes (ph_stats_of h) = system_bytes (ph_stats_of h)"

section \<open>Carving\<close>

text \<open>The debug check on the span behind the leftover.\<close>

definition leftover_apart :: "addr \<Rightarrow> 'k page_heap \<Rightarrow> bool result" where
  "leftover_apart leftover h =
     bindR (the_span h leftover) (\<lambda>l.
     bindR (GetDescriptor h (sp_start l + sp_length l)) (\<lambda>nxt.
       if nxt = NULL then Inr True
       else bindR (the_span h nxt) (\<lambda>s. Inr (sp_location s = IN_USE \<or> sp_location s \<noteq> sp_location l))))"

definition Carve :: "'k tc_env \<Rightarrow> addr \<Rightarrow> int \<Rightarrow> 'k page_heap \<Rightarrow> (addr \<times> 'k page_heap) result" where
  "Carve env sp n h =
     check (n > 0) (bindR (the_span h sp) (\<lambda>s. check (sp_location s \<noteq> IN_USE)
     (let old_location = sp_location s in
      bindR (RemoveFromFreeList sp h) (\<lambda>h1.
      bindR (upd_span sp (\<lambda>s. s\<lparr>sp_location := IN_USE\<rparr>) h1) (\<lambda>h2.
      let extra = to_int32 (sp_length s - n) in
      check (extra \<ge> 0)
      (bindR (if extra > 0 then
                bindR (new_span env (sp_start s + n) extra h2) (\<lambda>(leftover, h3).
                bindR (upd_span leftover (\<lambda>l. l\<lparr>sp_location := old_location\<rparr>) h3) (\<lambda>h4.
                bindR (RecordSpan leftover h4) (\<lambda>h5.
                bindR (leftover_apart leftover h5) (\<lambda>ok. check ok
                (bindR (PrependToFreeList leftover h5) (\<lambda>h6.
                 bindR (upd_span sp (\<lambda>s. s\<lparr>sp_length := n\<rparr>) h6) (\<lambda>h7.
                 pagemap_set (sp_start s + n - 1) sp h7)))))))
              else Inr h2) (\<lambda>h8.
       bindR (if old_location = ON_RETURNED_FREELIST then CommitSpan sp h8 else Inr h8) (\<lambda>h9.
       bindR (the_span h9 sp) (\<lambda>s'. check (sp_location s' = IN_USE) (check (sp_length s' = n)
       (check (stats_balanced h9) (Inr (sp, h9)))))))))))))"

definition Split :: "'k tc_env \<Rightarrow> addr \<Rightarrow> int \<Rightarrow> 'k page_heap \<Rightarrow> (addr \<times> 'k page_heap) result" where
  "Split env sp n h =
     bindR (the_span h sp) (\<lambda>s.
       check (0 < n) (check (n < sp_length s) (check (sp_location s = IN_USE) (check (sp_sizeclass s = 0)
       (let extra = to_int32 (sp_length s - n) in
        bindR (new_span env (sp_start s + n) (to_size_t extra) h) (\<lambda>(leftover, h1).
        bindR (RecordSpan leftover h1) (\<lambda>h2.
        bindR (pagemap_set (sp_start s + n - 1) sp h2) (\<lambda>h3.
        bindR (upd_span sp (\<lambda>s. s\<lparr>sp_length := n\<rparr>) h3) (\<lambda>h4. Inr (leftover, h4))))))))))"

section \<open>Merging\<close>

text \<open>\<open>CheckAndHandlePreMerge\<close>: the neighbour if it is to be merged, else null.\<close>

definition CheckAndHandlePreMerge :: "'k tc_env \<Rightarrow> addr \<Rightarrow> addr \<Rightarrow> 'k page_heap \<Rightarrow> (addr \<times> 'k page_heap) result" where
  "CheckAndHandlePreMerge env sp other h =
     (if other = NULL then Inr (NULL, h)
      else bindR (the_span h other) (\<lambda>t. bindR (the_span h sp) (\<lambda>s.
        if ph_aggressive_decommit h \<and> sp_location t = ON_NORMAL_FREELIST \<and> sp_location s = ON_RETURNED_FREELIST then
          bindR (DecommitSpan env other h) (\<lambda>(worked, h1).
            if \<not> worked then Inr (NULL, h1) else bindR (RemoveFromFreeList other h1) (\<lambda>h2. Inr (other, h2)))
        else if sp_location t \<noteq> sp_location s then Inr (NULL, h)
        else bindR (RemoveFromFreeList other h) (\<lambda>h2. Inr (other, h2)))))"

definition merge_prev :: "'k tc_env \<Rightarrow> addr \<Rightarrow> int \<Rightarrow> 'k page_heap \<Rightarrow> 'k page_heap result" where
  "merge_prev env sp p h =
     bindR (GetDescriptor h (p - 1)) (\<lambda>d.
     bindR (CheckAndHandlePreMerge env sp d h) (\<lambda>(prev, h1).
       if prev = NULL then Inr h1
       else bindR (the_span h1 prev) (\<lambda>t. check (sp_start t + sp_length t = p)
         (bindR (delete_span prev h1) (\<lambda>h2.
          bindR (upd_span sp (\<lambda>s. s\<lparr>sp_start := sp_start s - sp_length t, sp_length := sp_length s + sp_length t\<rparr>) h2) (\<lambda>h3.
          bindR (the_span h3 sp) (\<lambda>s. pagemap_set (sp_start s) sp h3)))))))"

definition merge_next :: "'k tc_env \<Rightarrow> addr \<Rightarrow> int \<Rightarrow> 'k page_heap \<Rightarrow> 'k page_heap result" where
  "merge_next env sp e h =
     bindR (GetDescriptor h e) (\<lambda>d.
     bindR (CheckAndHandlePreMerge env sp d h) (\<lambda>(nxt, h1).
       if nxt = NULL then Inr h1
       else bindR (the_span h1 nxt) (\<lambda>t. check (sp_start t = e)
         (bindR (delete_span nxt h1) (\<lambda>h2.
          bindR (upd_span sp (\<lambda>s. s\<lparr>sp_length := sp_length s + sp_length t\<rparr>) h2) (\<lambda>h3.
          bindR (the_span h3 sp) (\<lambda>s. pagemap_set (sp_start s + sp_length s - 1) sp h3)))))))"

definition MergeIntoFreeList :: "'k tc_env \<Rightarrow> addr \<Rightarrow> 'k page_heap \<Rightarrow> 'k page_heap result" where
  "MergeIntoFreeList env sp h =
     bindR (the_span h sp) (\<lambda>s. check (sp_location s \<noteq> IN_USE)
     (bindR (if ph_aggressive_decommit h \<and> sp_location s = ON_NORMAL_FREELIST then
               bindR (DecommitSpan env sp h) (\<lambda>(rv, h1).
                 if rv then upd_span sp (\<lambda>s. s\<lparr>sp_location := ON_RETURNED_FREELIST\<rparr>) h1 else Inr h1)
             else Inr h) (\<lambda>h2.
      bindR (merge_prev env sp (sp_start s) h2) (\<lambda>h3.
      bindR (merge_next env sp (sp_start s + sp_length s) h3) (\<lambda>h4. PrependToFreeList sp h4)))))"

section \<open>Release\<close>

definition ReleaseSpan :: "'k tc_env \<Rightarrow> addr \<Rightarrow> 'k page_heap \<Rightarrow> (int \<times> 'k page_heap) result" where
  "ReleaseSpan env sp h =
     bindR (the_span h sp) (\<lambda>s. check (sp_location s = ON_NORMAL_FREELIST)
     (bindR (DecommitSpan env sp h) (\<lambda>(rv, h1).
        if rv then
          bindR (RemoveFromFreeList sp h1) (\<lambda>h2.
          bindR (the_span h2 sp) (\<lambda>s2.
          bindR (upd_span sp (\<lambda>s. s\<lparr>sp_location := ON_RETURNED_FREELIST\<rparr>) h2) (\<lambda>h3.
          bindR (MergeIntoFreeList env sp h3) (\<lambda>h4. Inr (sp_length s2, h4)))))
        else Inr (0, h1))))"

text \<open>The span to release next: the first of the large set, or the last of a list.\<close>

definition release_candidate :: "'k page_heap \<Rightarrow> addr option" where
  "release_candidate h =
     (if ph_release_index h = kMaxPages
      then (case ph_large_normal h of [] \<Rightarrow> None | e # _ \<Rightarrow> Some (spl_span e))
      else if ph_normal h (ph_release_index h) = [] then None else Some (last (ph_normal h (ph_release_index h))))"

text \<open>The inner loop of \<open>ReleaseAtLeastNPages\<close>; the flag says that the function returns at once.\<close>

fun release_round :: "'k tc_env \<Rightarrow> nat \<Rightarrow> int \<Rightarrow> int \<Rightarrow> 'k page_heap \<Rightarrow> (bool \<times> int \<times> 'k page_heap) result" where
  "release_round env 0 num_pages released h = Inr (False, released, h)"
| "release_round env (Suc i) num_pages released h =
     (if released < num_pages then
        let h1 = (if ph_release_index h > kMaxPages then h\<lparr>ph_release_index := 0\<rparr> else h)
        in case release_candidate h1 of
             None \<Rightarrow> release_round env i num_pages released (h1\<lparr>ph_release_index := ph_release_index h1 + 1\<rparr>)
           | Some sp \<Rightarrow> bindR (ReleaseSpan env sp h1) (\<lambda>(released_len, h2).
               if released_len = 0 then Inr (True, released, h2)
               else release_round env i num_pages (released + released_len) (h2\<lparr>ph_release_index := ph_release_index h2 + 1\<rparr>))
      else Inr (False, released, h))"

partial_function (option) release_loop ::
  "'k tc_env \<Rightarrow> int \<Rightarrow> int \<Rightarrow> 'k page_heap \<Rightarrow> (int \<times> 'k page_heap) result option" where
  "release_loop env num_pages released h =
     (if released < num_pages \<and> free_bytes (ph_stats_of h) > 0 then
        (case release_round env (nat (kMaxPages + 1)) num_pages released h of
           Inl e \<Rightarrow> Some (Inl e)
         | Inr r \<Rightarrow>
             if fst r then Some (Inr (fst (snd r), snd (snd r)))
             else release_loop env num_pages (fst (snd r)) (snd (snd r)))
      else Some (Inr (released, h)))"

declare release_loop.simps [code]

definition ReleaseAtLeastNPages :: "'k tc_env \<Rightarrow> int \<Rightarrow> 'k page_heap \<Rightarrow> (int \<times> 'k page_heap) result" where
  "ReleaseAtLeastNPages env num_pages h =
     (case release_loop env num_pages 0 h of None \<Rightarrow> Inl Diverges | Some r \<Rightarrow> r)"

text \<open>The release rate is a \<open>double\<close>; the arithmetic on it is taken as exact.\<close>

definition scavenge_delay :: "rat \<Rightarrow> int \<Rightarrow> int" where
  "scavenge_delay rate released_pages =
     (let wait = 1000 / rate * of_int released_pages
      in if wait > of_int kMaxReleaseDelay then kMaxReleaseDelay else \<lfloor>wait\<rfloor>)"

definition IncrementalScavenge :: "'k tc_env \<Rightarrow> int \<Rightarrow> 'k page_heap \<Rightarrow> 'k page_heap result" where
  "IncrementalScavenge env n h =
     (let h1 = h\<lparr>ph_scavenge_counter := ph_scavenge_counter h - n\<rparr>
      in if ph_scavenge_counter h1 \<ge> 0 then Inr h1
         else if release_rate env \<le> 1 / 1000000 then Inr (h1\<lparr>ph_scavenge_counter := kDefaultReleaseDelay\<rparr>)
         else bindR (ReleaseAtLeastNPages env 1 (upd_stats (\<lambda>t. t\<lparr>scavenge_count := scavenge_count t + 1\<rparr>) h1))
           (\<lambda>(released_pages, h2). Inr (h2\<lparr>ph_scavenge_counter :=
              if released_pages = 0 then kDefaultReleaseDelay else scavenge_delay (release_rate env) released_pages\<rparr>)))"

definition Delete :: "'k tc_env \<Rightarrow> addr \<Rightarrow> 'k page_heap \<Rightarrow> 'k page_heap result" where
  "Delete env sp h =
     bindR (the_span h sp) (\<lambda>s. check (sp_location s = IN_USE) (check (sp_length s > 0)
     (bindR (GetDescriptor h (sp_start s)) (\<lambda>d1. check (d1 = sp)
     (bindR (GetDescriptor h (sp_start s + sp_length s - 1)) (\<lambda>d2. check (d2 = sp)
     (bindR (upd_span sp (\<lambda>s. s\<lparr>sp_sizeclass := 0, sp_sample := False, sp_location := ON_NORMAL_FREELIST\<rparr>) h) (\<lambda>h1.
      bindR (MergeIntoFreeList env sp h1) (\<lambda>h2.
      bindR (IncrementalScavenge env (sp_length s) h2) (\<lambda>h3.
      check (stats_balanced h3) (Inr h3)))))))))))"

section \<open>Allocation\<close>

definition EnsureLimit :: "'k tc_env \<Rightarrow> int \<Rightarrow> bool \<Rightarrow> 'k page_heap \<Rightarrow> (bool \<times> 'k page_heap) result" where
  "EnsureLimit env n with_release h =
     (let limit = to_size_t (drop_bit kPageShift (heap_limit_mb env * 1024 * 1024))
      in if limit = 0 then Inr (True, h)
         else
           let taken0 = drop_bit kPageShift (ss_taken (w_sys (ph_world h)));
               unmapped = uint (drop_bit kPageShift (unmapped_bytes (ph_stats_of h)))
           in check (taken0 \<ge> unmapped)
             (let taken = taken0 - unmapped
              in if to_size_t (taken + n) > limit \<and> with_release then
                   bindR (ReleaseAtLeastNPages env (to_size_t (taken + n) - limit) h) (\<lambda>(released, h1).
                     Inr (to_size_t (to_size_t (taken - released) + n) \<le> limit, h1))
                 else Inr (to_size_t (taken + n) \<le> limit, h)))"

text \<open>The candidates of \<open>AllocLarge\<close>: \<open>best_normal\<close> and \<open>best\<close>.\<close>

definition best_spans :: "int \<Rightarrow> 'k page_heap \<Rightarrow> (addr option \<times> addr option) result" where
  "best_spans n h =
     (let place = upper_bound (ph_spans h) n (ph_large_normal h); best_normal = map_option spl_span place
      in bindR (case best_normal of None \<Rightarrow> Inr None
                | Some b \<Rightarrow> bindR (the_span h b) (\<lambda>s. check (sp_location s = ON_NORMAL_FREELIST) (Inr (Some s)))) (\<lambda>bs.
         case upper_bound (ph_spans h) n (ph_large_returned h) of
           None \<Rightarrow> Inr (best_normal, best_normal)
         | Some e \<Rightarrow> bindR (the_span h (spl_span e)) (\<lambda>c. check (sp_location c = ON_RETURNED_FREELIST)
             (Inr (best_normal,
               case bs of None \<Rightarrow> Some (spl_span e)
               | Some b \<Rightarrow> if sp_length c < sp_length b \<or> (sp_length c = sp_length b \<and> sp_start c < sp_start b)
                           then Some (spl_span e) else best_normal)))))"

text \<open>\<open>AllocLarge\<close> calls itself after releasing memory, so it is a partial function.\<close>

partial_function (option) alloc_large :: "'k tc_env \<Rightarrow> int \<Rightarrow> 'k page_heap \<Rightarrow> (addr option \<times> 'k page_heap) result option" where
  "alloc_large env n h =
     (case best_spans n h of
        Inl e \<Rightarrow> Some (Inl e)
      | Inr bs \<Rightarrow>
          if snd bs = fst bs then
            (case snd bs of
               None \<Rightarrow> Some (Inr (None, h))
             | Some best \<Rightarrow> Some (bindR (Carve env best n h) (\<lambda>(sp, h1). Inr (Some sp, h1))))
          else
            (case EnsureLimit env n False h of
               Inl e \<Rightarrow> Some (Inl e)
             | Inr r1 \<Rightarrow>
                 if fst r1 then
                   Some (case snd bs of None \<Rightarrow> Inl NullDeref
                         | Some best \<Rightarrow> bindR (Carve env best n (snd r1)) (\<lambda>(sp, h2). Inr (Some sp, h2)))
                 else
                   (case EnsureLimit env n True (snd r1) of
                      Inl e \<Rightarrow> Some (Inl e)
                    | Inr r2 \<Rightarrow>
                        if fst r2 then alloc_large env n (snd r2)
                        else Some (check (fst bs = None) (Inr (None, snd r2))))))"

declare alloc_large.simps [code]

definition AllocLarge :: "'k tc_env \<Rightarrow> int \<Rightarrow> 'k page_heap \<Rightarrow> (addr option \<times> 'k page_heap) result" where
  "AllocLarge env n h = (case alloc_large env n h of None \<Rightarrow> Inl Diverges | Some r \<Rightarrow> r)"

text \<open>\<open>SearchFreeAndLargeLists\<close>: the loop over the lengths from \<open>s\<close> on.\<close>

function search_lists :: "'k tc_env \<Rightarrow> int \<Rightarrow> int \<Rightarrow> 'k page_heap \<Rightarrow> (addr option \<times> 'k page_heap) result" where
  "search_lists env n s h =
     (if s \<le> kMaxPages then
        (case ph_normal h (s - 1) of
           sp # _ \<Rightarrow>
             bindR (the_span h sp) (\<lambda>x. check (sp_location x = ON_NORMAL_FREELIST)
               (bindR (Carve env sp n h) (\<lambda>(r, h1). Inr (Some r, h1))))
         | [] \<Rightarrow>
             if ph_returned h (s - 1) = [] then search_lists env n (s + 1) h
             else bindR (EnsureLimit env n True h) (\<lambda>(ok, h1).
               if ok then
                 (case ph_returned h1 (s - 1) of
                    sp # _ \<Rightarrow>
                      bindR (the_span h1 sp) (\<lambda>x. check (sp_location x = ON_RETURNED_FREELIST)
                        (bindR (Carve env sp n h1) (\<lambda>(r, h2). Inr (Some r, h2))))
                  | [] \<Rightarrow> search_lists env n (s + 1) h1)
               else search_lists env n (s + 1) h1))
      else AllocLarge env n h)"
  by pat_completeness auto
termination by (relation "measure (\<lambda>(env, n, s, h). nat (kMaxPages + 1 - s))") auto

declare search_lists.simps [simp del]

definition SearchFreeAndLargeLists :: "'k tc_env \<Rightarrow> int \<Rightarrow> 'k page_heap \<Rightarrow> (addr option \<times> 'k page_heap) result" where
  "SearchFreeAndLargeLists env n h = check (n > 0) (search_lists env n n h)"

definition sys_alloc_ph :: "'k tc_env \<Rightarrow> int \<Rightarrow> 'k page_heap \<Rightarrow> ((addr \<times> int) option \<times> 'k page_heap) result" where
  "sys_alloc_ph env ask h =
     bindR (EnsureLimit env ask True h) (\<lambda>(ok, h1).
       if ok then bindR (sys_alloc_w env (to_size_t (push_bit kPageShift ask)) kPageSize (ph_world h1)) (\<lambda>(res, w).
         Inr (res, h1\<lparr>ph_world := w\<rparr>))
       else Inr (None, h1))"

text \<open>The part of \<open>GrowHeap\<close> after memory was obtained.\<close>

definition grow_with :: "'k tc_env \<Rightarrow> addr \<Rightarrow> int \<Rightarrow> 'k page_heap \<Rightarrow> (bool \<times> 'k page_heap) result" where
  "grow_with env ptr actual_size h =
     (let ask = drop_bit kPageShift actual_size; b = page_bytes ask;
          old_system_bytes = system_bytes (ph_stats_of h);
          h1 = upd_stats (\<lambda>t. t\<lparr>reserve_count := reserve_count t + 1, commit_count := commit_count t + 1,
                 system_bytes := system_bytes t + b, committed_bytes := committed_bytes t + b,
                 total_commit_bytes := total_commit_bytes t + b, total_reserve_bytes := total_reserve_bytes t + b\<rparr>) h;
          p = drop_bit kPageShift ptr
      in check (p > 0)
        (bindR (if old_system_bytes < kPageMapBigAllocationThreshold \<and> system_bytes (ph_stats_of h1) \<ge> kPageMapBigAllocationThreshold
                then bindR (pm2_preallocate map_bits (MetaDataAlloc env) (ph_pagemap h1) (ph_world h1)) (\<lambda>(m, w).
                       Inr (h1\<lparr>ph_pagemap := m, ph_world := w\<rparr>))
                else Inr h1) (\<lambda>h2.
         bindR (pm2_ensure map_bits (MetaDataAlloc env) (p - 1) (ask + 2) (ph_pagemap h2) (ph_world h2)) (\<lambda>(ok, m, w).
         let h3 = h2\<lparr>ph_pagemap := m, ph_world := w\<rparr>
         in if ok then
              bindR (new_span env p ask h3) (\<lambda>(sp, h4).
              bindR (RecordSpan sp h4) (\<lambda>h5.
              bindR (Delete env sp h5) (\<lambda>h6. check (stats_balanced h6) (Inr (True, h6)))))
            else Inr (False, h3)))))"

definition GrowHeap :: "'k tc_env \<Rightarrow> int \<Rightarrow> 'k page_heap \<Rightarrow> (bool \<times> 'k page_heap) result" where
  "GrowHeap env n h =
     check (kMaxPages \<ge> kMinSystemAlloc)
     (if n > kMaxValidPages then Inr (False, h)
      else
        let ask = (if n > kMinSystemAlloc then n else kMinSystemAlloc)
        in bindR (sys_alloc_ph env ask h) (\<lambda>(res, h1).
           case res of
             Some (ptr, actual_size) \<Rightarrow> grow_with env ptr actual_size h1
           | None \<Rightarrow>
               if n < ask then
                 bindR (sys_alloc_ph env n h1) (\<lambda>(res2, h2).
                   case res2 of Some (ptr, actual_size) \<Rightarrow> grow_with env ptr actual_size h2 | None \<Rightarrow> Inr (False, h2))
               else Inr (False, h1)))"

text \<open>\<open>New\<close>; null comes with \<open>errno = ENOMEM\<close>.\<close>

definition New :: "'k tc_env \<Rightarrow> int \<Rightarrow> 'k page_heap \<Rightarrow> (addr option \<times> 'k page_heap) result" where
  "New env n h =
     check (n > 0)
     (bindR (SearchFreeAndLargeLists env n h) (\<lambda>(result, h1).
      case result of Some sp \<Rightarrow> Inr (Some sp, h1)
      | None \<Rightarrow>
        let t = ph_stats_of h1 in
        bindR (if free_bytes t \<noteq> 0 \<and> unmapped_bytes t \<noteq> 0 \<and> free_bytes t + unmapped_bytes t \<ge> system_bytes t div 4 \<and>
                  system_bytes t div kForcedCoalesceInterval \<noteq> (system_bytes t + page_bytes n) div kForcedCoalesceInterval
               then bindR (ReleaseAtLeastNPages env 0x7fffffff h1) (\<lambda>(_, h2). SearchFreeAndLargeLists env n h2)
               else Inr (None, h1)) (\<lambda>(result2, h3).
        case result2 of Some sp \<Rightarrow> Inr (Some sp, h3)
        | None \<Rightarrow>
          bindR (GrowHeap env n h3) (\<lambda>(grown, h4).
            if \<not> grown then check (stats_balanced h4) (Inr (None, h4))
            else SearchFreeAndLargeLists env n h4))))"

section \<open>Registration, statistics, checks\<close>

definition RegisterSizeClass :: "addr \<Rightarrow> nat \<Rightarrow> 'k page_heap \<Rightarrow> 'k page_heap result" where
  "RegisterSizeClass sp sc h =
     bindR (the_span h sp) (\<lambda>s. check (sp_location s = IN_USE)
     (bindR (GetDescriptor h (sp_start s)) (\<lambda>d1. check (d1 = sp)
     (bindR (GetDescriptor h (sp_start s + sp_length s - 1)) (\<lambda>d2. check (d2 = sp)
     (bindR (upd_span sp (\<lambda>s. s\<lparr>sp_sizeclass := sc\<rparr>) h) (\<lambda>h1.
      bindR (set_keys (pm2_set map_bits) [sp_start s + 1..sp_start s + sp_length s - 2] sp (ph_pagemap h1)) (\<lambda>m.
      Inr (h1\<lparr>ph_pagemap := m\<rparr>)))))))))"

definition GetSmallSpanStats :: "'k page_heap \<Rightarrow> (int \<times> int) list" where
  "GetSmallSpanStats h = map (\<lambda>i. (int (length (ph_normal h i)), int (length (ph_returned h i)))) [0..kMaxPages - 1]"

text \<open>Number of large spans, pages in normal ones, pages in returned ones.\<close>

definition GetLargeSpanStats :: "'k page_heap \<Rightarrow> int \<times> int \<times> int" where
  "GetLargeSpanStats h =
     (int (length (ph_large_normal h) + length (ph_large_returned h)),
      sum_list (map spl_length (ph_large_normal h)), sum_list (map spl_length (ph_large_returned h)))"

datatype range_type = RANGE_INUSE | RANGE_FREE | RANGE_UNMAPPED

record malloc_range =
  range_address :: int
  range_length :: int
  range_type_of :: range_type
  range_fraction :: rat

definition GetNextRange :: "size_map \<Rightarrow> 'k page_heap \<Rightarrow> int \<Rightarrow> malloc_range option result" where
  "GetNextRange m h start =
     (let sp = pm2_next map_bits (ph_pagemap h) start
      in if sp = NULL then Inr None
         else bindR (the_span h sp) (\<lambda>s.
           let len = push_bit kPageShift (sp_length s)
           in Inr (Some \<lparr>range_address = push_bit kPageShift (sp_start s), range_length = len,
                range_type_of = (case sp_location s of IN_USE \<Rightarrow> RANGE_INUSE | ON_NORMAL_FREELIST \<Rightarrow> RANGE_FREE
                                 | ON_RETURNED_FREELIST \<Rightarrow> RANGE_UNMAPPED),
                range_fraction =
                  (if sp_location s = IN_USE then
                     if sp_sizeclass s > 0
                     then of_int (class_to_size m ! sp_sizeclass s * sp_refcount s) / of_int len else 1
                   else 0)\<rparr>)))"

fun CheckList :: "'k page_heap \<Rightarrow> int \<Rightarrow> int \<Rightarrow> span_location \<Rightarrow> addr list \<Rightarrow> bool result" where
  "CheckList h min_pages max_pages freelist [] = Inr True"
| "CheckList h min_pages max_pages freelist (sp # sps) =
     bindR (the_span h sp) (\<lambda>s. check (sp_location s = freelist) (check (sp_length s \<ge> min_pages)
     (check (sp_length s \<le> max_pages)
     (bindR (GetDescriptor h (sp_start s)) (\<lambda>d1. check (d1 = sp)
     (bindR (GetDescriptor h (sp_start s + sp_length s - 1)) (\<lambda>d2. check (d2 = sp)
       (CheckList h min_pages max_pages freelist sps))))))))"

fun CheckSet :: "'k page_heap \<Rightarrow> int \<Rightarrow> span_location \<Rightarrow> span_ptr_with_length list \<Rightarrow> bool result" where
  "CheckSet h min_pages freelist [] = Inr True"
| "CheckSet h min_pages freelist (e # es) =
     bindR (the_span h (spl_span e)) (\<lambda>s. check (sp_length s = spl_length e) (check (sp_location s = freelist)
     (check (sp_length s \<ge> min_pages)
     (bindR (GetDescriptor h (sp_start s)) (\<lambda>d1. check (d1 = spl_span e)
     (bindR (GetDescriptor h (sp_start s + sp_length s - 1)) (\<lambda>d2. check (d2 = spl_span e)
       (CheckSet h min_pages freelist es))))))))"

fun check_lists :: "'k page_heap \<Rightarrow> int list \<Rightarrow> bool result" where
  "check_lists h [] = Inr True"
| "check_lists h (s # ss) =
     bindR (CheckList h s s ON_NORMAL_FREELIST (ph_normal h (s - 1))) (\<lambda>_.
     bindR (CheckList h s s ON_RETURNED_FREELIST (ph_returned h (s - 1))) (\<lambda>_. check_lists h ss))"

definition CheckExpensive :: "'k page_heap \<Rightarrow> bool result" where
  "CheckExpensive h =
     bindR (CheckSet h (kMaxPages + 1) ON_NORMAL_FREELIST (ph_large_normal h)) (\<lambda>_.
     bindR (CheckSet h (kMaxPages + 1) ON_RETURNED_FREELIST (ph_large_returned h)) (\<lambda>_.
     check_lists h [1..kMaxPages]))"

end
