(* ===== verification/Page_Heap_Inv.thy ===== *)
theory Page_Heap_Inv
  imports Page_Heap
begin

unbundle bit_operations_syntax

text \<open>
  The invariant of the page heap and its preservation. \<open>geo\<close>: the spans are disjoint runs of pages, the page
  map leads from the first and the last page of every span to it, and every page with an entry belongs to
  a span. \<open>parts\<close>: the free lists and sets hold exactly the free spans of their kind and length, and the byte
  counters are the sums over them. \<open>mem_ok\<close>: the span objects are allocated, and the pages are owned and
  apart from the metadata. While an operation works, some spans are on no list although they are marked
  free; \<open>F\<close> is the set of these. \<open>coalesced\<close>, that no two free spans of one kind are neighbours, is kept
  separate: it holds as long as aggressive decommit is off.
\<close>

section \<open>The parts of the invariant\<close>

abbreviation lkp :: "pm2 \<Rightarrow> int \<Rightarrow> addr" where "lkp \<equiv> pm2_lookup map_bits"
abbreviation ens :: "pm2 \<Rightarrow> int \<Rightarrow> bool" where "ens \<equiv> pm2_ensured map_bits"

definition page_set :: "span \<Rightarrow> int set" where
  "page_set s = {sp_start s..<sp_start s + sp_length s}"

definition span_ok :: "pm2 \<Rightarrow> addr \<Rightarrow> span \<Rightarrow> bool" where
  "span_ok m a s \<longleftrightarrow> a \<noteq> NULL \<and> 0 < sp_start s \<and> 0 < sp_length s \<and> sp_start s + sp_length s \<le> 2 ^ 34 \<and>
     (\<forall>k. sp_start s - 1 \<le> k \<and> k \<le> sp_start s + sp_length s \<longrightarrow> ens m k) \<and>
     lkp m (sp_start s) = a \<and> lkp m (sp_start s + sp_length s - 1) = a \<and>
     (sp_location s \<noteq> IN_USE \<longrightarrow> sp_sizeclass s = 0) \<and> (sp_sizeclass s \<noteq> 0 \<longrightarrow> (\<forall>k\<in>page_set s. lkp m k = a)) \<and>
     (sp_sample s \<longrightarrow> sp_location s = IN_USE)"

text \<open>A change of a span that keeps its size class and its mark as a sample, or resets them.\<close>

definition class_kept :: "span \<Rightarrow> span \<Rightarrow> bool" where
  "class_kept s s' \<longleftrightarrow> (sp_sizeclass s' = 0 \<or>
     (sp_sizeclass s' = sp_sizeclass s \<and> (sp_location s' = sp_location s \<or> sp_location s' = IN_USE))) \<and>
     (sp_sample s' \<longrightarrow> sp_location s' = IN_USE \<or> (sp_sample s \<and> sp_location s' = sp_location s))"

definition geo :: "span_store \<Rightarrow> pm2 \<Rightarrow> bool" where
  "geo st m \<longleftrightarrow> finite (dom st) \<and> (\<forall>a s. st a = Some s \<longrightarrow> span_ok m a s) \<and>
     (\<forall>a b s t. st a = Some s \<longrightarrow> st b = Some t \<longrightarrow> a \<noteq> b \<longrightarrow> page_set s \<inter> page_set t = {}) \<and>
     (\<forall>k. lkp m k \<noteq> NULL \<longrightarrow> (\<exists>a s. st a = Some s \<and> k \<in> page_set s))"

definition loc_set :: "addr set \<Rightarrow> span_store \<Rightarrow> span_location \<Rightarrow> addr set" where
  "loc_set F st loc = {a. a \<notin> F \<and> (\<exists>s. st a = Some s \<and> sp_location s = loc)}"

definition span_len :: "span_store \<Rightarrow> addr \<Rightarrow> int" where
  "span_len st a = (case st a of None \<Rightarrow> 0 | Some s \<Rightarrow> sp_length s)"

definition small_ok :: "addr set \<Rightarrow> span_store \<Rightarrow> span_location \<Rightarrow> (int \<Rightarrow> addr list) \<Rightarrow> bool" where
  "small_ok F st loc f \<longleftrightarrow> (\<forall>i. 0 \<le> i \<and> i < kMaxPages \<longrightarrow>
     distinct (f i) \<and> set (f i) = {a \<in> loc_set F st loc. span_len st a = i + 1})"

definition large_ok :: "addr set \<Rightarrow> span_store \<Rightarrow> span_location \<Rightarrow> span_ptr_with_length list \<Rightarrow> bool" where
  "large_ok F st loc xs \<longleftrightarrow> sorted_wrt (SpanBestFitLess (start_of st)) xs \<and>
     set xs = (\<lambda>a. \<lparr>spl_span = a, spl_length = span_len st a\<rparr>) ` {a \<in> loc_set F st loc. kMaxPages < span_len st a}"

definition iter_ok :: "addr set \<Rightarrow> span_store \<Rightarrow> bool" where
  "iter_ok F st \<longleftrightarrow> (\<forall>a s. st a = Some s \<longrightarrow> sp_has_span_iter s = (a \<notin> F \<and> sp_location s \<noteq> IN_USE \<and> kMaxPages < sp_length s))"

definition loc_bytes :: "addr set \<Rightarrow> span_store \<Rightarrow> span_location \<Rightarrow> 64 word" where
  "loc_bytes F st loc = (\<Sum>a\<in>loc_set F st loc. page_bytes (span_len st a))"

definition coalesced :: "addr set \<Rightarrow> span_store \<Rightarrow> bool" where
  "coalesced F st \<longleftrightarrow> (\<forall>loc. loc \<noteq> IN_USE \<longrightarrow> (\<forall>a\<in>loc_set F st loc. \<forall>b\<in>loc_set F st loc.
     start_of st a + span_len st a \<noteq> start_of st b))"

definition parts :: "addr set \<Rightarrow> 'k page_heap \<Rightarrow> bool" where
  "parts F h \<longleftrightarrow>
     small_ok F (ph_spans h) ON_NORMAL_FREELIST (ph_normal h) \<and> small_ok F (ph_spans h) ON_RETURNED_FREELIST (ph_returned h) \<and>
     large_ok F (ph_spans h) ON_NORMAL_FREELIST (ph_large_normal h) \<and> large_ok F (ph_spans h) ON_RETURNED_FREELIST (ph_large_returned h) \<and>
     iter_ok F (ph_spans h) \<and>
     free_bytes (ph_stats_of h) = loc_bytes F (ph_spans h) ON_NORMAL_FREELIST \<and>
     unmapped_bytes (ph_stats_of h) = loc_bytes F (ph_spans h) ON_RETURNED_FREELIST"

text \<open>The bytes of the pages the heap manages; they stay apart from the metadata.\<close>

definition heap_pages :: "span_store \<Rightarrow> int set" where
  "heap_pages st = {k. \<exists>a s. st a = Some s \<and> k \<in> page_set s}"

definition heap_mem :: "span_store \<Rightarrow> addr set" where
  "heap_mem st = {x. x div kPageSize \<in> heap_pages st}"

definition mem_ok :: "'k tc_env \<Rightarrow> ('k \<Rightarrow> addr set) \<Rightarrow> 'k page_heap \<Rightarrow> bool" where
  "mem_ok env own h \<longleftrightarrow> pha_inv sizeof_Span env own (heap_mem (ph_spans h)) (dom (ph_spans h))
     (ph_span_allocator h) (ph_words h) (ph_world h)"

definition ph_inv :: "'k tc_env \<Rightarrow> ('k \<Rightarrow> addr set) \<Rightarrow> addr set \<Rightarrow> 'k page_heap \<Rightarrow> bool" where
  "ph_inv env own F h \<longleftrightarrow> geo (ph_spans h) (ph_pagemap h) \<and> parts F h \<and> mem_ok env own h"

text \<open>What is missing from \<open>unmapped + committed = system\<close>.\<close>

definition gap :: "'k page_heap \<Rightarrow> 64 word" where
  "gap h = system_bytes (ph_stats_of h) - unmapped_bytes (ph_stats_of h) - committed_bytes (ph_stats_of h)"

lemma balanced_gap: "stats_balanced h \<longleftrightarrow> gap h = 0"
  by (auto simp: stats_balanced_def gap_def algebra_simps)

section \<open>Frame rules\<close>

text \<open>The parts depend only on the spans outside \<open>F\<close>.\<close>

lemma loc_set_cong: "\<forall>a. a \<notin> F \<longrightarrow> st' a = st a \<Longrightarrow> loc_set F st' loc = loc_set F st loc"
  by (auto simp: loc_set_def)

lemma outside_cong:
  assumes "\<forall>a. a \<notin> F \<longrightarrow> st' a = st a"
  shows "small_ok F st' loc f = small_ok F st loc f" "large_ok F st' loc xs = large_ok F st loc xs"
    "loc_bytes F st' loc = loc_bytes F st loc" "coalesced F st' = coalesced F st"
proof -
  have l: "loc_set F st' loc = loc_set F st loc" for loc using assms by (rule loc_set_cong)
  have n: "span_len st' a = span_len st a" "start_of st' a = start_of st a" if "a \<in> loc_set F st loc" for a loc
    using assms that by (auto simp: span_len_def start_of_def loc_set_def)
  show "small_ok F st' loc f = small_ok F st loc f"
    using n by (auto simp: small_ok_def l cong: conj_cong)
  show "loc_bytes F st' loc = loc_bytes F st loc"
    unfolding loc_bytes_def l by (rule sum.cong) (use n in auto)
  show "coalesced F st' = coalesced F st"
    unfolding coalesced_def l using n by (metis (no_types, lifting))
  have im: "(\<lambda>a. \<lparr>spl_span = a, spl_length = span_len st' a\<rparr>) ` {a \<in> loc_set F st loc. kMaxPages < span_len st' a} =
      (\<lambda>a. \<lparr>spl_span = a, spl_length = span_len st a\<rparr>) ` {a \<in> loc_set F st loc. kMaxPages < span_len st a}" (is "?L = ?R")
    using n by (auto intro!: image_eqI)
  have "sorted_wrt (SpanBestFitLess (start_of st')) xs = sorted_wrt (SpanBestFitLess (start_of st)) xs" if "set xs = ?R"
  proof -
    have "SpanBestFitLess (start_of st') x y = SpanBestFitLess (start_of st) x y" if "x \<in> set xs" "y \<in> set xs" for x y
      using that \<open>set xs = ?R\<close> n(2) by (auto simp: SpanBestFitLess_def)
    then show ?thesis by (metis (no_types, lifting) sorted_wrt_mono_rel)
  qed
  then show "large_ok F st' loc xs = large_ok F st loc xs" unfolding large_ok_def l im by blast
qed

text \<open>A span that is in use, or an address without a span, may be counted into \<open>F\<close> or not.\<close>

lemma inuse_outside:
  assumes "st a = None \<or> (\<exists>s. st a = Some s \<and> sp_location s = IN_USE)" "loc \<noteq> IN_USE"
  shows "loc_set (insert a F) st loc = loc_set F st loc"
  using assms by (auto simp: loc_set_def)

lemma parts_inuse:
  assumes "ph_spans h a = None \<or> (\<exists>s. ph_spans h a = Some s \<and> sp_location s = IN_USE)"
  shows "parts (insert a F) h = parts F h"
proof -
  have l: "loc_set (insert a F) (ph_spans h) loc = loc_set F (ph_spans h) loc" if "loc \<noteq> IN_USE" for loc
    using inuse_outside [of "ph_spans h" a loc F, OF assms that] .
  have "iter_ok (insert a F) (ph_spans h) = iter_ok F (ph_spans h)" using assms by (auto simp: iter_ok_def)
  then show ?thesis unfolding parts_def small_ok_def large_ok_def loc_bytes_def using l by simp
qed

text \<open>Any change of floating spans, of the map, of the allocator and of the other counters keeps the parts.\<close>

lemma parts_cong:
  assumes "parts F h" "\<forall>a. a \<notin> F \<longrightarrow> ph_spans h' a = ph_spans h a"
    "\<And>a s. a \<in> F \<Longrightarrow> ph_spans h' a = Some s \<Longrightarrow> \<not> sp_has_span_iter s"
    "ph_normal h' = ph_normal h" "ph_returned h' = ph_returned h" "ph_large_normal h' = ph_large_normal h"
    "ph_large_returned h' = ph_large_returned h"
    "free_bytes (ph_stats_of h') = free_bytes (ph_stats_of h)" "unmapped_bytes (ph_stats_of h') = unmapped_bytes (ph_stats_of h)"
  shows "parts F h'"
proof -
  have "iter_ok F (ph_spans h')" using assms(1-3) unfolding parts_def iter_ok_def by metis
  with assms(1) show ?thesis
    unfolding parts_def assms(4-9) using outside_cong [of F "ph_spans h'" "ph_spans h", OF assms(2)] by simp
qed

lemma span_ok_cong:
  assumes "span_ok m a s" "sp_start s' = sp_start s" "sp_length s' = sp_length s" "class_kept s s'"
  shows "span_ok m a s'"
proof -
  have ps: "page_set s' = page_set s" using assms(2,3) by (simp add: page_set_def)
  have "(sp_location s' \<noteq> IN_USE \<longrightarrow> sp_sizeclass s' = 0) \<and> (sp_sizeclass s' \<noteq> 0 \<longrightarrow> (\<forall>k\<in>page_set s. lkp m k = a)) \<and>
      (sp_sample s' \<longrightarrow> sp_location s' = IN_USE)"
    using assms(1,4) unfolding span_ok_def class_kept_def by metis
  then show ?thesis using assms(1) unfolding span_ok_def ps assms(2,3) by blast
qed

lemma geo_cong:
  assumes "geo st m" "dom st' = dom st" "\<And>a s s'. st a = Some s \<Longrightarrow> st' a = Some s' \<Longrightarrow> sp_start s' = sp_start s \<and> sp_length s' = sp_length s \<and> class_kept s s'"
  shows "geo st' m"
proof -
  have g: "\<exists>s. st a = Some s \<and> sp_start s' = sp_start s \<and> sp_length s' = sp_length s \<and> class_kept s s'" if "st' a = Some s'" for a s'
  proof -
    have "a \<in> dom st" using that assms(2) by auto
    then show ?thesis using assms(3) that by auto
  qed
  have g': "\<exists>s'. st' a = Some s' \<and> page_set s' = page_set s" if "st a = Some s" for a s
  proof -
    have "a \<in> dom st'" using that assms(2) by auto
    then show ?thesis using assms(3) [OF that] by (auto simp: page_set_def)
  qed
  have p: "\<exists>s. st a = Some s \<and> page_set s' = page_set s" if "st' a = Some s'" for a s'
    using g [OF that] by (auto simp: page_set_def)
  have "span_ok m a s'" if a: "st' a = Some s'" for a s'
  proof -
    obtain s where s: "st a = Some s" "sp_start s' = sp_start s" "sp_length s' = sp_length s" "class_kept s s'" using g [OF a] by blast
    have "span_ok m a s" using assms(1) s(1) unfolding geo_def by blast
    then show ?thesis using s(2-4) by (rule span_ok_cong)
  qed
  moreover have "page_set s \<inter> page_set t = {}" if "st' a = Some s" "st' b = Some t" "a \<noteq> b" for a b s t
    using p [OF that(1)] p [OF that(2)] that(3) assms(1) unfolding geo_def by metis
  moreover have "\<exists>a s. st' a = Some s \<and> k \<in> page_set s" if "lkp m k \<noteq> NULL" for k
    using assms(1) that g' unfolding geo_def by metis
  ultimately show ?thesis using assms(1,2) unfolding geo_def by metis
qed

section \<open>The ordered sets\<close>

lemma best_fit_distinct: "sorted_wrt (SpanBestFitLess f) xs \<Longrightarrow> distinct xs"
  by (induction xs) (auto simp: SpanBestFitLess_order(1))

lemma set_insert_ok:
  assumes "sorted_wrt (SpanBestFitLess (start_of st)) xs"
    "\<And>y. y \<in> set xs \<Longrightarrow> start_of st (spl_span y) \<noteq> start_of st (spl_span e)"
  shows "\<exists>ys. set_insert st e xs = (ys, True) \<and> sorted_wrt (SpanBestFitLess (start_of st)) ys \<and> set ys = insert e (set xs)"
proof -
  define less where "less = SpanBestFitLess (start_of st)"
  define lo where "lo = takeWhile (\<lambda>x. less x e) xs"
  define hi where "hi = dropWhile (\<lambda>x. less x e) xs"
  have xs: "xs = lo @ hi" by (simp add: lo_def hi_def)
  have "sorted_wrt less (lo @ hi)" using assms(1) by (simp add: xs less_def)
  then have c: "sorted_wrt less lo" "sorted_wrt less hi" "\<forall>x\<in>set lo. \<forall>y\<in>set hi. less x y"
    unfolding sorted_wrt_append by blast+
  have l: "\<forall>x\<in>set lo. less x e" unfolding lo_def by (auto dest: set_takeWhileD)
  have h: "\<forall>x\<in>set hi. less e x"
  proof (cases hi)
    case (Cons y ys)
    have "\<not> less y e" using Cons hd_dropWhile [of "\<lambda>x. less x e" xs] by (auto simp: hi_def)
    moreover have "y \<in> set xs" using Cons xs by simp
    ultimately have "less e y" using SpanBestFitLess_order(3) [of "start_of st" y e] assms(2) less_def by blast
    moreover have "\<forall>x\<in>set ys. less y x" using c(2) Cons by simp
    ultimately show ?thesis using Cons SpanBestFitLess_order(2) [of "start_of st" e y] by (auto simp: less_def)
  qed simp
  have "sorted_wrt less (lo @ e # hi)" using c l h unfolding sorted_wrt_append by auto
  moreover have "set_insert st e xs = (lo @ e # hi, True)"
    using h by (cases hi) (auto simp: set_insert_def Let_def hi_def [symmetric, unfolded less_def] lo_def [symmetric, unfolded less_def] less_def)
  moreover have "set (lo @ e # hi) = insert e (set xs)" by (auto simp: xs)
  ultimately show ?thesis by (auto simp: less_def simp del: set_append)
qed

lemma best_fit_remove:
  assumes "sorted_wrt (SpanBestFitLess f) xs"
  shows "sorted_wrt (SpanBestFitLess f) (remove1 e xs)" "set (remove1 e xs) = set xs - {e}"
  using assms best_fit_distinct [OF assms]
  by (auto simp: distinct_remove1_removeAll removeAll_filter_not_eq sorted_wrt_filter)

section \<open>Taking a span off its list\<close>

lemma loc_set_insert: "loc_set (insert a F) st loc = loc_set F st loc - {a}"
  by (auto simp: loc_set_def)

lemma loc_set_mem: "st a = Some s \<Longrightarrow> a \<in> loc_set F st loc \<longleftrightarrow> a \<notin> F \<and> sp_location s = loc"
  by (auto simp: loc_set_def)

lemma loc_bytes_remove:
  assumes "finite (dom st)" "st a = Some s" "a \<notin> F"
  shows "loc_bytes (insert a F) st loc = loc_bytes F st loc - (if sp_location s = loc then page_bytes (sp_length s) else 0)"
proof -
  have fin: "finite (loc_set F st loc)" by (rule finite_subset [OF _ assms(1)]) (auto simp: loc_set_def)
  have "span_len st a = sp_length s" using assms(2) by (simp add: span_len_def)
  then show ?thesis using assms(2,3) fin
    by (cases "sp_location s = loc") (simp_all add: loc_bytes_def loc_set_insert loc_set_mem sum_diff1)
qed

lemma small_ok_remove:
  assumes "small_ok F st loc f" "st a = Some s" "a \<notin> F"
  shows "sp_location s = loc \<Longrightarrow> sp_length s \<le> kMaxPages \<Longrightarrow> 0 < sp_length s \<Longrightarrow>
      small_ok (insert a F) st loc (f(sp_length s - 1 := remove1 a (f (sp_length s - 1)))) \<and> a \<in> set (f (sp_length s - 1))"
    "sp_location s \<noteq> loc \<or> sp_length s > kMaxPages \<Longrightarrow> small_ok (insert a F) st loc f"
  using assms by (auto simp: small_ok_def loc_set_insert loc_set_mem span_len_def)

lemma large_ok_remove:
  assumes "large_ok F st loc xs" "st a = Some s" "a \<notin> F"
  shows "sp_location s = loc \<Longrightarrow> sp_length s > kMaxPages \<Longrightarrow>
      large_ok (insert a F) st loc (remove1 (span_ptr a s) xs) \<and> span_ptr a s \<in> set xs"
    "sp_location s \<noteq> loc \<or> sp_length s \<le> kMaxPages \<Longrightarrow> large_ok (insert a F) st loc xs"
proof -
  let ?f = "\<lambda>a. \<lparr>spl_span = a, spl_length = span_len st a\<rparr>" and ?S = "{a \<in> loc_set F st loc. kMaxPages < span_len st a}"
  have l: "span_len st a = sp_length s" using assms(2) by (simp add: span_len_def)
  have S: "{b \<in> loc_set (insert a F) st loc. kMaxPages < span_len st b} = ?S - {a}" by (auto simp: loc_set_insert)
  have inj: "?f ` (?S - {a}) = ?f ` ?S - {?f a}" by auto
  {
    assume "sp_location s = loc" "sp_length s > kMaxPages"
    then have "a \<in> ?S" using assms l by (simp add: loc_set_mem)
    then have mem: "?f a \<in> ?f ` ?S" by (rule imageI)
    have fa: "span_ptr a s = ?f a" by (simp add: span_ptr_def l)
    have xs: "sorted_wrt (SpanBestFitLess (start_of st)) xs" "set xs = ?f ` ?S" using assms(1) by (simp_all add: large_ok_def)
    show "large_ok (insert a F) st loc (remove1 (span_ptr a s) xs) \<and> span_ptr a s \<in> set xs"
      unfolding large_ok_def S inj fa best_fit_remove(2) [OF xs(1)] xs(2) using best_fit_remove(1) [OF xs(1)] mem by blast
  next
    assume "sp_location s \<noteq> loc \<or> sp_length s \<le> kMaxPages"
    then have "?S - {a} = ?S" using assms l by (auto simp: loc_set_mem)
    then show "large_ok (insert a F) st loc xs" using assms(1) unfolding large_ok_def S by simp
  }
qed

lemma coalesced_insert: "coalesced F st \<Longrightarrow> coalesced (insert a F) st"
  by (auto simp: coalesced_def loc_set_insert)

text \<open>What an operation on the lists leaves alone.\<close>

definition same_rest :: "'k page_heap \<Rightarrow> 'k page_heap \<Rightarrow> bool" where
  "same_rest h h' \<longleftrightarrow> ph_pagemap h' = ph_pagemap h \<and> ph_span_allocator h' = ph_span_allocator h \<and> ph_words h' = ph_words h \<and>
     ph_world h' = ph_world h \<and> ph_aggressive_decommit h' = ph_aggressive_decommit h \<and>
     ph_release_index h' = ph_release_index h \<and> system_bytes (ph_stats_of h') = system_bytes (ph_stats_of h)"

lemma Remove_ok:
  assumes p: "parts F h" and fin: "finite (dom (ph_spans h))" and sp: "ph_spans h sp = Some s" "sp \<noteq> NULL" "sp \<notin> F"
    and s: "sp_location s \<noteq> IN_USE" "0 < sp_length s"
  shows "\<exists>h'. RemoveFromFreeList sp h = Inr h' \<and> parts (insert sp F) h' \<and> same_rest h h' \<and>
    ph_spans h' = (ph_spans h)(sp \<mapsto> s\<lparr>sp_has_span_iter := False\<rparr>) \<and>
    gap h' = gap h + (if sp_location s = ON_RETURNED_FREELIST then page_bytes (sp_length s) else 0) \<and>
    committed_bytes (ph_stats_of h') = committed_bytes (ph_stats_of h)"
proof -
  let ?st = "ph_spans h" and ?loc = "sp_location s"
  let ?st' = "?st(sp \<mapsto> s\<lparr>sp_has_span_iter := False\<rparr>)"
  have loc: "?loc = ON_NORMAL_FREELIST \<or> ?loc = ON_RETURNED_FREELIST" using s(1) by (cases ?loc) auto
  have P: "small_ok F ?st ON_NORMAL_FREELIST (ph_normal h)" "small_ok F ?st ON_RETURNED_FREELIST (ph_returned h)"
    "large_ok F ?st ON_NORMAL_FREELIST (ph_large_normal h)" "large_ok F ?st ON_RETURNED_FREELIST (ph_large_returned h)"
    "iter_ok F ?st" "free_bytes (ph_stats_of h) = loc_bytes F ?st ON_NORMAL_FREELIST"
    "unmapped_bytes (ph_stats_of h) = loc_bytes F ?st ON_RETURNED_FREELIST"
    using p by (simp_all add: parts_def)
  note sm = small_ok_remove [where st = ?st, OF _ sp(1,3)] and lg = large_ok_remove [where st = ?st, OF _ sp(1,3)]
  note lb = loc_bytes_remove [where st = ?st, OF fin sp(1,3)]
  note oc = outside_cong [of "insert sp F" ?st' ?st]
  have it: "sp_has_span_iter s = (sp_length s > kMaxPages)" using P(5) sp s by (auto simp: iter_ok_def)
  have io: "iter_ok (insert sp F) ?st'" using P(5) by (auto simp: iter_ok_def)
  show ?thesis
  proof (cases "sp_length s > kMaxPages")
    case True
    let ?h1 = "if ?loc = ON_NORMAL_FREELIST
        then upd_stats (\<lambda>t. t\<lparr>free_bytes := free_bytes t - page_bytes (sp_length s)\<rparr>) h
        else upd_stats (\<lambda>t. t\<lparr>unmapped_bytes := unmapped_bytes t - page_bytes (sp_length s)\<rparr>) h"
    let ?h' = "(set_large ?loc (remove1 (span_ptr sp s) (large_set ?loc h)) ?h1)\<lparr>ph_spans := ?st'\<rparr>"
    have "span_ptr sp s \<in> set (large_set ?loc h)" using lg(1) [OF P(3)] lg(1) [OF P(4)] loc True by (auto simp: large_set_def)
    then have "RemoveFromFreeList sp h = Inr ?h'"
      using sp s it True by (auto simp: RemoveFromFreeList_def the_span_def Let_def upd_span_def large_set_def set_large_def)
    moreover have "parts (insert sp F) ?h'"
      using loc True P(6,7) lb sm(2) [OF P(1)] sm(2) [OF P(2)] lg [OF P(3)] lg [OF P(4)] io oc(1-3)
      by (auto simp: parts_def large_set_def set_large_def)
    ultimately show ?thesis using loc by (auto simp: same_rest_def gap_def large_set_def set_large_def)
  next
    case False
    then have st': "?st' = ?st" using it sp(1) by auto
    let ?h1 = "if ?loc = ON_NORMAL_FREELIST
        then upd_stats (\<lambda>t. t\<lparr>free_bytes := free_bytes t - page_bytes (sp_length s)\<rparr>) h
        else upd_stats (\<lambda>t. t\<lparr>unmapped_bytes := unmapped_bytes t - page_bytes (sp_length s)\<rparr>) h"
    let ?h' = "set_small ?loc (sp_length s - 1) (remove1 sp (small_list ?loc (sp_length s - 1) h)) ?h1"
    have "sp \<in> set (small_list ?loc (sp_length s - 1) h)"
      using sm(1) [OF P(1)] sm(1) [OF P(2)] loc False s(2) by (auto simp: small_list_def)
    then have "RemoveFromFreeList sp h = Inr ?h'"
      using sp s False by (auto simp: RemoveFromFreeList_def the_span_def Let_def small_list_def set_small_def)
    moreover have "parts (insert sp F) ?h'"
      using loc False s(2) P(6,7) lb sm [OF P(1)] sm [OF P(2)] lg(2) [OF P(3)] lg(2) [OF P(4)] io unfolding st'
      by (auto simp: parts_def small_list_def set_small_def)
    ultimately show ?thesis using loc st' by (auto simp: same_rest_def gap_def small_list_def set_small_def)
  qed
qed

section \<open>Putting a span on its list\<close>

lemma loc_set_remove:
  "st a = Some s \<Longrightarrow> loc_set (F - {a}) st loc = (if sp_location s = loc then insert a (loc_set F st loc) else loc_set F st loc - {a})"
  by (auto simp: loc_set_def)

lemma loc_set_float: "a \<in> F \<Longrightarrow> a \<notin> loc_set F st loc"
  by (simp add: loc_set_def)

lemma loc_bytes_add:
  assumes "finite (dom st)" "st a = Some s" "a \<in> F"
  shows "loc_bytes (F - {a}) st loc = loc_bytes F st loc + (if sp_location s = loc then page_bytes (sp_length s) else 0)"
proof -
  have fin: "finite (loc_set F st loc)" by (rule finite_subset [OF _ assms(1)]) (auto simp: loc_set_def)
  have "span_len st a = sp_length s" using assms(2) by (simp add: span_len_def)
  then show ?thesis using fin loc_set_float [OF assms(3)]
    by (simp add: loc_bytes_def loc_set_remove [of st a s, OF assms(2)])
qed

lemma small_ok_add:
  assumes "small_ok F st loc f" "st a = Some s" "a \<in> F"
  shows "sp_location s = loc \<Longrightarrow> sp_length s \<le> kMaxPages \<Longrightarrow> 0 < sp_length s \<Longrightarrow>
      small_ok (F - {a}) st loc (f(sp_length s - 1 := a # f (sp_length s - 1)))"
    "sp_location s \<noteq> loc \<or> sp_length s > kMaxPages \<Longrightarrow> small_ok (F - {a}) st loc f"
  using assms loc_set_float [OF assms(3), of st loc]
  by (auto simp: small_ok_def loc_set_remove span_len_def)

lemma large_ok_add:
  assumes "large_ok F st loc xs" "st a = Some s" "a \<in> F"
    and starts: "\<forall>b t. st b = Some t \<longrightarrow> b \<noteq> a \<longrightarrow> sp_start t \<noteq> sp_start s"
  shows "sp_location s = loc \<Longrightarrow> sp_length s > kMaxPages \<Longrightarrow>
      \<exists>ys. set_insert st (span_ptr a s) xs = (ys, True) \<and> large_ok (F - {a}) st loc ys"
    "sp_location s \<noteq> loc \<or> sp_length s \<le> kMaxPages \<Longrightarrow> large_ok (F - {a}) st loc xs"
proof -
  let ?f = "\<lambda>a. \<lparr>spl_span = a, spl_length = span_len st a\<rparr>" and ?S = "{a \<in> loc_set F st loc. kMaxPages < span_len st a}"
  have l: "span_len st a = sp_length s" using assms(2) by (simp add: span_len_def)
  have na: "a \<notin> loc_set F st loc" using assms(3) by (rule loc_set_float)
  {
    assume c: "sp_location s = loc" "sp_length s > kMaxPages"
    have S: "{b \<in> loc_set (F - {a}) st loc. kMaxPages < span_len st b} = insert a ?S"
      using c l by (auto simp: loc_set_remove [of st a s, OF assms(2)])
    have xs: "sorted_wrt (SpanBestFitLess (start_of st)) xs" "set xs = ?f ` ?S" using assms(1) by (simp_all add: large_ok_def)
    have "start_of st (spl_span y) \<noteq> start_of st (spl_span (span_ptr a s))" if y: "y \<in> set xs" for y
    proof -
      obtain b where b: "y = ?f b" "b \<in> loc_set F st loc" using y unfolding xs(2) by blast
      then obtain t where "st b = Some t" "b \<noteq> a" using na by (auto simp: loc_set_def)
      then show ?thesis using b(1) starts assms(2) by (simp add: start_of_def span_ptr_def)
    qed
    from set_insert_ok [OF xs(1) this] obtain ys where ys: "set_insert st (span_ptr a s) xs = (ys, True)"
      "sorted_wrt (SpanBestFitLess (start_of st)) ys" "set ys = insert (span_ptr a s) (set xs)" by blast
    have "large_ok (F - {a}) st loc ys" unfolding large_ok_def S ys(3) xs(2) using ys(2) by (simp add: span_ptr_def l)
    with ys(1) show "\<exists>ys. set_insert st (span_ptr a s) xs = (ys, True) \<and> large_ok (F - {a}) st loc ys" by blast
  next
    assume c: "sp_location s \<noteq> loc \<or> sp_length s \<le> kMaxPages"
    have "{b \<in> loc_set (F - {a}) st loc. kMaxPages < span_len st b} = ?S"
      using c l na by (auto simp: loc_set_remove [of st a s, OF assms(2)])
    then show "large_ok (F - {a}) st loc xs" using assms(1) unfolding large_ok_def by simp
  }
qed

lemma coalesced_add:
  assumes "coalesced F st" "st a = Some s" "a \<in> F" "0 < sp_length s"
    "\<And>b. b \<in> loc_set F st (sp_location s) \<Longrightarrow> start_of st b + span_len st b \<noteq> sp_start s \<and> sp_start s + sp_length s \<noteq> start_of st b"
  shows "coalesced (F - {a}) st"
proof -
  have a: "start_of st a = sp_start s" "span_len st a = sp_length s" using assms(2) by (simp_all add: start_of_def span_len_def)
  show ?thesis
    using assms(1,4,5) a unfolding coalesced_def loc_set_remove [of st a s, OF assms(2)] by auto
qed

lemma Prepend_ok:
  assumes p: "parts F h" and fin: "finite (dom (ph_spans h))" and sp: "ph_spans h sp = Some s" "sp \<noteq> NULL" "sp \<in> F"
    and s: "sp_location s \<noteq> IN_USE" "0 < sp_length s"
    and starts: "\<And>b t. ph_spans h b = Some t \<Longrightarrow> b \<noteq> sp \<Longrightarrow> sp_start t \<noteq> sp_start s"
  shows "\<exists>h'. PrependToFreeList sp h = Inr h' \<and> parts (F - {sp}) h' \<and> same_rest h h' \<and>
    ph_spans h' = (ph_spans h)(sp \<mapsto> s\<lparr>sp_has_span_iter := (sp_length s > kMaxPages)\<rparr>) \<and>
    gap h' = gap h - (if sp_location s = ON_RETURNED_FREELIST then page_bytes (sp_length s) else 0) \<and>
    committed_bytes (ph_stats_of h') = committed_bytes (ph_stats_of h)"
proof -
  let ?st = "ph_spans h" and ?loc = "sp_location s"
  let ?it = "sp_length s > kMaxPages"
  let ?s' = "s\<lparr>sp_has_span_iter := ?it\<rparr>"
  let ?st' = "?st(sp \<mapsto> ?s')"
  have loc: "?loc = ON_NORMAL_FREELIST \<or> ?loc = ON_RETURNED_FREELIST" using s(1) by (cases ?loc) auto
  have P: "small_ok F ?st ON_NORMAL_FREELIST (ph_normal h)" "small_ok F ?st ON_RETURNED_FREELIST (ph_returned h)"
    "large_ok F ?st ON_NORMAL_FREELIST (ph_large_normal h)" "large_ok F ?st ON_RETURNED_FREELIST (ph_large_returned h)"
    "iter_ok F ?st" "free_bytes (ph_stats_of h) = loc_bytes F ?st ON_NORMAL_FREELIST"
    "unmapped_bytes (ph_stats_of h) = loc_bytes F ?st ON_RETURNED_FREELIST"
    using p by (simp_all add: parts_def)
  have it: "\<not> sp_has_span_iter s" using P(5) sp by (auto simp: iter_ok_def)
  text \<open>The parts do not see the iterator flag, so they may be shown for the store with the flag set.\<close>
  have ag: "\<forall>a. a \<notin> F \<longrightarrow> ?st' a = ?st a" using sp(3) by auto
  note oc = outside_cong [of F ?st' ?st, OF ag] loc_set_cong [of F ?st' ?st, OF ag]
  have sp': "?st' sp = Some ?s'" by simp
  have starts': "\<forall>b t. ?st' b = Some t \<longrightarrow> b \<noteq> sp \<longrightarrow> sp_start t \<noteq> sp_start ?s'" using starts by auto
  note sm = small_ok_add [where st = ?st', OF _ sp' sp(3)] and lg = large_ok_add [where st = ?st', OF _ sp' sp(3) starts']
  have fin': "finite (dom ?st')" using fin by simp
  note lb = loc_bytes_add [where st = ?st', OF fin' sp' sp(3)]
  have io: "iter_ok (F - {sp}) ?st'" using P(5) s(1) sp(3) by (auto simp: iter_ok_def)
  have same: "start_of ?st' b = start_of ?st b" "span_len ?st' b = span_len ?st b" for b
    using sp(1) by (auto simp: start_of_def span_len_def)
  have ins: "set_insert ?st' e xs = set_insert ?st e xs" for e xs
  proof -
    have e: "start_of ?st' = start_of ?st" using same(1) by (rule ext)
    show ?thesis unfolding set_insert_def e ..
  qed
  let ?h1 = "if ?loc = ON_NORMAL_FREELIST
      then upd_stats (\<lambda>t. t\<lparr>free_bytes := free_bytes t + page_bytes (sp_length s)\<rparr>) h
      else upd_stats (\<lambda>t. t\<lparr>unmapped_bytes := unmapped_bytes t + page_bytes (sp_length s)\<rparr>) h"
  show ?thesis
  proof (cases ?it)
    case True
    have ptr: "span_ptr sp ?s' = span_ptr sp s" by (simp add: span_ptr_def)
    have "\<exists>ys. set_insert ?st (span_ptr sp s) (large_set ?loc h) = (ys, True) \<and> large_ok (F - {sp}) ?st' ?loc ys"
    proof -
      have "large_ok F ?st' ?loc (large_set ?loc h)" unfolding oc(2) using P(3,4) loc by (auto simp: large_set_def)
      then show ?thesis using lg(1) [of ?loc "large_set ?loc h"] True unfolding ins ptr by simp
    qed
    then obtain ys where ys: "set_insert ?st (span_ptr sp s) (large_set ?loc h) = (ys, True)" "large_ok (F - {sp}) ?st' ?loc ys" by blast
    let ?h' = "(set_large ?loc ys ?h1)\<lparr>ph_spans := ?st'\<rparr>"
    have "PrependToFreeList sp h = Inr ?h'"
      using sp s it True ys(1) by (auto simp: PrependToFreeList_def the_span_def Let_def upd_span_def large_set_def set_large_def)
    moreover have "parts (F - {sp}) ?h'"
      using loc True P lb sm(2) [of _ "ph_normal h"] sm(2) [of _ "ph_returned h"] lg(2) [of _ "ph_large_normal h"] lg(2) [of _ "ph_large_returned h"] ys(2) io
      unfolding oc(1-3) by (auto simp: parts_def set_large_def)
    ultimately show ?thesis using loc by (auto simp: same_rest_def gap_def set_large_def)
  next
    case False
    then have st': "?st' = ?st" using it sp(1) by auto
    let ?h' = "set_small ?loc (sp_length s - 1) (sp # small_list ?loc (sp_length s - 1) h) ?h1"
    have "PrependToFreeList sp h = Inr ?h'"
      using sp s False by (auto simp: PrependToFreeList_def the_span_def Let_def small_list_def set_small_def)
    moreover have "parts (F - {sp}) ?h'"
      using loc False s(2) P lb sm [of _ "ph_normal h"] sm [of _ "ph_returned h"] lg(2) [of _ "ph_large_normal h"] lg(2) [of _ "ph_large_returned h"] io
      unfolding oc(1-3) st' by (auto simp: parts_def small_list_def set_small_def)
    ultimately show ?thesis using loc st' by (auto simp: same_rest_def gap_def small_list_def set_small_def)
  qed
qed

end
