(* ===== verification/Page_Heap_Merge.thy ===== *)
theory Page_Heap_Merge
  imports Page_Heap_Inv
begin

unbundle bit_operations_syntax

text \<open>
  Merging, releasing and deleting keep the invariant of the page heap, end, and fail no assertion.
\<close>

section \<open>Runs of fallible code\<close>

text \<open>\<open>sure m Q\<close>: \<open>m\<close> returns a value with \<open>Q\<close>. \<open>unless_oom m Q\<close>: it does, or it ran out of memory.\<close>

definition sure :: "'a result \<Rightarrow> ('a \<Rightarrow> bool) \<Rightarrow> bool" where
  "sure m Q \<longleftrightarrow> (\<exists>x. m = Inr x \<and> Q x)"

definition unless_oom :: "'a result \<Rightarrow> ('a \<Rightarrow> bool) \<Rightarrow> bool" where
  "unless_oom m Q \<longleftrightarrow> m = Inl OutOfMemory \<or> sure m Q"

lemma sure_simps [simp]: "sure (Inr x) Q = Q x" "sure (Inl e) Q = False"
  by (simp_all add: sure_def)

lemma sure_bind: "sure m P \<Longrightarrow> (\<And>x. P x \<Longrightarrow> sure (f x) Q) \<Longrightarrow> sure (bindR m f) Q"
  by (auto simp: sure_def)

lemma sure_mono: "sure m P \<Longrightarrow> (\<And>x. P x \<Longrightarrow> Q x) \<Longrightarrow> sure m Q"
  by (auto simp: sure_def)

lemma sure_check: "b \<Longrightarrow> sure m Q \<Longrightarrow> sure (check b m) Q"
  by simp

lemma oom_simps [simp]: "unless_oom (Inr x) Q = Q x" "unless_oom (Inl e) Q = (e = OutOfMemory)"
  by (auto simp: unless_oom_def)

lemma oom_sure: "sure m Q \<Longrightarrow> unless_oom m Q"
  by (simp add: unless_oom_def)

lemma oom_bind: "unless_oom m P \<Longrightarrow> (\<And>x. P x \<Longrightarrow> unless_oom (f x) Q) \<Longrightarrow> unless_oom (bindR m f) Q"
  unfolding unless_oom_def sure_def by (metis bindR_simps)

lemma oom_mono: "unless_oom m P \<Longrightarrow> (\<And>x. P x \<Longrightarrow> Q x) \<Longrightarrow> unless_oom m Q"
  by (auto simp: unless_oom_def sure_def)

section \<open>Geometry\<close>

lemma geo_span: "geo st m \<Longrightarrow> st a = Some s \<Longrightarrow> span_ok m a s"
  by (auto simp: geo_def)

text \<open>A span whose pages keep their entries in the map is as good as before.\<close>

lemma span_ok_frame:
  assumes "span_ok m a s" "\<And>k. k \<in> page_set s \<Longrightarrow> lkp m' k = lkp m k" "ens m' = ens m"
  shows "span_ok m' a s"
proof -
  have "sp_start s \<in> page_set s" "sp_start s + sp_length s - 1 \<in> page_set s" using assms(1) by (auto simp: span_ok_def page_set_def)
  with assms show ?thesis by (auto simp: span_ok_def)
qed

lemma free_class:
  assumes "geo st m" "st a = Some s" "sp_location s \<noteq> IN_USE" shows "sp_sizeclass s = 0" "\<not> sp_sample s"
  using geo_span [of st m a s] assms by (auto simp: span_ok_def)

lemma geo_disjoint: "geo st m \<Longrightarrow> st a = Some s \<Longrightarrow> st b = Some t \<Longrightarrow> a \<noteq> b \<Longrightarrow> page_set s \<inter> page_set t = {}"
  unfolding geo_def by metis

lemma geo_finite: "geo st m \<Longrightarrow> finite (dom st)"
  by (simp add: geo_def)

lemma geo_owner: "geo st m \<Longrightarrow> lkp m k \<noteq> NULL \<Longrightarrow> \<exists>a s. st a = Some s \<and> k \<in> page_set s"
  by (simp add: geo_def)

lemma span_len_some [simp]: "st a = Some s \<Longrightarrow> span_len st a = sp_length s"
  by (simp add: span_len_def)

lemma start_of_some [simp]: "st a = Some s \<Longrightarrow> start_of st a = sp_start s"
  by (simp add: start_of_def)

text \<open>Two spans with a common page are one.\<close>

lemma geo_same:
  assumes "geo st m" "st a = Some s" "st b = Some t" "k \<in> page_set s" "k \<in> page_set t"
  shows "a = b"
proof (rule ccontr)
  assume "a \<noteq> b"
  then show False using geo_disjoint [of st m a s b t] assms by blast
qed

lemma geo_starts:
  assumes "geo st m" "st a = Some s" "st b = Some t" "b \<noteq> a"
  shows "sp_start t \<noteq> sp_start s"
proof
  assume e: "sp_start t = sp_start s"
  have "0 < sp_length s" "0 < sp_length t"
    using geo_span [of st m a s, OF assms(1,2)] geo_span [of st m b t, OF assms(1,3)] by (simp_all add: span_ok_def)
  then have "sp_start s \<in> page_set s" "sp_start s \<in> page_set t" using e by (simp_all add: page_set_def)
  from geo_same [of st m a s b t, OF assms(1-3) this] assms(4) show False by simp
qed

text \<open>The descriptor of the page in front of a span, and of the page behind it.\<close>

lemma geo_prev:
  assumes g: "geo st m" and s: "st a = Some s"
  shows "(\<exists>t. st (lkp m (sp_start s - 1)) = Some t \<and> lkp m (sp_start s - 1) \<noteq> a \<and> sp_start t + sp_length t = sp_start s) \<or>
    (lkp m (sp_start s - 1) = NULL \<and> (\<forall>b t. st b = Some t \<longrightarrow> sp_start t + sp_length t \<noteq> sp_start s))"
proof (cases "lkp m (sp_start s - 1) = NULL")
  case True
  have "sp_start t + sp_length t \<noteq> sp_start s" if t: "st b = Some t" for b t
    using geo_span [of st m b t, OF g t] True by (auto simp: span_ok_def)
  then show ?thesis using True by blast
next
  case False
  then obtain b t where t: "st b = Some t" "sp_start s - 1 \<in> page_set t" using geo_owner [OF g] by blast
  have os: "0 < sp_length s" using geo_span [of st m a s, OF g s] by (simp add: span_ok_def)
  then have "b \<noteq> a" using t s by (auto simp: page_set_def)
  then have "sp_start s \<notin> page_set t" using geo_same [of st m a s b t "sp_start s", OF g s t(1)] os by (auto simp: page_set_def)
  then have e: "sp_start t + sp_length t = sp_start s" using t(2) by (auto simp: page_set_def)
  moreover have "lkp m (sp_start t + sp_length t - 1) = b" using geo_span [of st m b t, OF g t(1)] by (simp add: span_ok_def)
  ultimately show ?thesis using t(1) \<open>b \<noteq> a\<close> by auto
qed

lemma geo_next:
  assumes g: "geo st m" and s: "st a = Some s"
  shows "(\<exists>t. st (lkp m (sp_start s + sp_length s)) = Some t \<and> lkp m (sp_start s + sp_length s) \<noteq> a \<and> sp_start t = sp_start s + sp_length s) \<or>
    (lkp m (sp_start s + sp_length s) = NULL \<and> (\<forall>b t. st b = Some t \<longrightarrow> sp_start t \<noteq> sp_start s + sp_length s))"
proof (cases "lkp m (sp_start s + sp_length s) = NULL")
  case True
  have "sp_start t \<noteq> sp_start s + sp_length s" if t: "st b = Some t" for b t
    using geo_span [of st m b t, OF g t] True by (auto simp: span_ok_def)
  then show ?thesis using True by blast
next
  case False
  then obtain b t where t: "st b = Some t" "sp_start s + sp_length s \<in> page_set t" using geo_owner [OF g] by blast
  have os: "0 < sp_length s" using geo_span [of st m a s, OF g s] by (simp add: span_ok_def)
  have "b \<noteq> a" using t s by (auto simp: page_set_def)
  then have "sp_start s + sp_length s - 1 \<notin> page_set t"
    using geo_same [of st m a s b t "sp_start s + sp_length s - 1", OF g s t(1)] os by (auto simp: page_set_def)
  then have e: "sp_start t = sp_start s + sp_length s" using t(2) by (auto simp: page_set_def)
  moreover have "lkp m (sp_start t) = b" using geo_span [of st m b t, OF g t(1)] by (simp add: span_ok_def)
  ultimately show ?thesis using t(1) \<open>b \<noteq> a\<close> by auto
qed

text \<open>A span takes over its neighbour.\<close>

lemma geo_absorb:
  assumes g: "geo st m" and a: "st a = Some s" and b: "st b = Some t" and ne: "a \<noteq> b"
    and side: "sp_start s' = sp_start t \<and> sp_start s = sp_start t + sp_length t \<and> k = sp_start t \<or>
      sp_start s' = sp_start s \<and> sp_start t = sp_start s + sp_length s \<and> k = sp_start t + sp_length t - 1"
    and len: "sp_length s' = sp_length s + sp_length t" and sc: "sp_sizeclass s' = 0" "\<not> sp_sample s'"
    and m': "lkp m' = (lkp m)(k := a)" "ens m' = ens m"
  shows "geo (st(b := None, a \<mapsto> s')) m'" "heap_pages (st(b := None, a \<mapsto> s')) = heap_pages st"
proof -
  let ?st = "st(b := None, a \<mapsto> s')"
  have os: "span_ok m a s" "span_ok m b t" using geo_span [OF g] a b by blast+
  then have l: "0 < sp_length s" "0 < sp_length t" by (simp_all add: span_ok_def)
  then have ps: "page_set s' = page_set s \<union> page_set t" using side len by (auto simp: page_set_def)
  have kt: "k \<in> page_set t" using side l by (auto simp: page_set_def)
  have old: "st c = Some u" if "?st c = Some u" "c \<noteq> a" for c u using that by (auto split: if_splits)
  have dis: "page_set u \<inter> page_set s' = {}" if "?st c = Some u" "c \<noteq> a" for c u
  proof -
    have "c \<noteq> b" using that by auto
    then show ?thesis using geo_disjoint [OF g old [OF that] a] geo_disjoint [OF g old [OF that] b] that(2) unfolding ps by blast
  qed
  have "span_ok m' a s'"
  proof -
    have f: "a \<noteq> NULL" "0 < sp_start s" "0 < sp_length s" "sp_start s + sp_length s \<le> 2 ^ 34"
      "lkp m (sp_start s) = a" "lkp m (sp_start s + sp_length s - 1) = a" and es: "\<forall>k. sp_start s - 1 \<le> k \<and> k \<le> sp_start s + sp_length s \<longrightarrow> ens m k"
      using os(1) unfolding span_ok_def by blast+
    have h: "0 < sp_start t" "0 < sp_length t" "sp_start t + sp_length t \<le> 2 ^ 34"
      and et: "\<forall>k. sp_start t - 1 \<le> k \<and> k \<le> sp_start t + sp_length t \<longrightarrow> ens m k"
      using os(2) unfolding span_ok_def by blast+
    have "ens m k" if "sp_start s' - 1 \<le> k" "k \<le> sp_start s' + sp_length s'" for k
    proof -
      have "sp_start s - 1 \<le> k \<and> k \<le> sp_start s + sp_length s \<or> sp_start t - 1 \<le> k \<and> k \<le> sp_start t + sp_length t"
        using that side len f(3) h(2) by linarith
      then show ?thesis using es et by blast
    qed
    moreover have "0 < sp_start s'" "0 < sp_length s'" "sp_start s' + sp_length s' \<le> 2 ^ 34" using side len f(2-4) h by linarith+
    moreover have "lkp m' (sp_start s') = a" "lkp m' (sp_start s' + sp_length s' - 1) = a"
      using side len f(5,6) unfolding m'(1) by (auto simp: add_ac)
    ultimately show ?thesis using f(1) sc unfolding span_ok_def m'(2) by blast
  qed
  moreover have "span_ok m' c u" if c: "?st c = Some u" "c \<noteq> a" for c u
  proof -
    have "k \<notin> page_set u" using dis [OF c] kt ps by blast
    then show ?thesis using m' by (intro span_ok_frame [OF geo_span [OF g old [OF c]]]) auto
  qed
  ultimately have sok: "span_ok m' c u" if "?st c = Some u" for c u using that by (cases "c = a") auto
  have dj: "page_set u \<inter> page_set v = {}" if "?st c = Some u" "?st d = Some v" "c \<noteq> d" for c d u v
  proof -
    consider "c = a" "d \<noteq> a" | "c \<noteq> a" "d = a" | "c \<noteq> a" "d \<noteq> a" using \<open>c \<noteq> d\<close> by blast
    then show ?thesis
    proof cases
      case 1
      then show ?thesis using dis [OF that(2)] that(1) by auto
    next
      case 2
      then show ?thesis using dis [OF that(1)] that(2) by auto
    next
      case 3
      then show ?thesis using geo_disjoint [OF g old [OF that(1)] old [OF that(2)] that(3)] by blast
    qed
  qed
  show hp: "heap_pages ?st = heap_pages st"
  proof
    show "heap_pages ?st \<subseteq> heap_pages st" using a b ps old by (auto simp: heap_pages_def split: if_splits)
    show "heap_pages st \<subseteq> heap_pages ?st"
    proof
      fix x assume "x \<in> heap_pages st"
      then obtain c u where c: "st c = Some u" "x \<in> page_set u" by (auto simp: heap_pages_def)
      show "x \<in> heap_pages ?st"
      proof (cases "c = a \<or> c = b")
        case True
        then have "Some u = Some s \<or> Some u = Some t" using c(1) a b by metis
        then have "x \<in> page_set s'" using c(2) unfolding ps by blast
        then show ?thesis by (auto simp: heap_pages_def)
      next
        case False
        then have "?st c = Some u" using c by simp
        then show ?thesis using c(2) unfolding heap_pages_def by blast
      qed
    qed
  qed
  have own: "\<exists>c u. ?st c = Some u \<and> j \<in> page_set u" if j: "lkp m' j \<noteq> NULL" for j
  proof -
    have "j \<in> heap_pages st"
    proof (cases "j = k")
      case True then show ?thesis using kt b by (auto simp: heap_pages_def)
    next
      case False then show ?thesis using j m'(1) geo_owner [OF g, of j] by (auto simp: heap_pages_def)
    qed
    then show ?thesis unfolding hp [symmetric] by (auto simp: heap_pages_def)
  qed
  show "geo ?st m'" unfolding geo_def using geo_finite [OF g] sok dj own by (intro conjI allI impI) auto
qed

section \<open>Steps on one field\<close>

lemma page_bytes_add: "page_bytes (a + b) = page_bytes a + page_bytes b"
  by (simp add: page_bytes_def push_bit_eq_mult distrib_right)

lemma GetDescriptor_ok: "0 \<le> k \<Longrightarrow> GetDescriptor h k = Inr (lkp (ph_pagemap h) k)"
  unfolding GetDescriptor_def by (rule pm2.get_lookup)

lemma pagemap_set_ok:
  assumes "ens (ph_pagemap h) k"
  shows "sure (pagemap_set k sp h) (\<lambda>h'. \<exists>m'. h' = h\<lparr>ph_pagemap := m'\<rparr> \<and> lkp m' = (lkp (ph_pagemap h))(k := sp) \<and> ens m' = ens (ph_pagemap h))"
  using pm2.set_lookup [OF assms, of sp] by (auto simp: pagemap_set_def)

lemma upd_span_ok: "ph_spans h sp = Some s \<Longrightarrow> sp \<noteq> NULL \<Longrightarrow> upd_span sp f h = Inr (h\<lparr>ph_spans := (ph_spans h)(sp \<mapsto> f s)\<rparr>)"
  by (simp add: upd_span_def)

lemma the_span_ok: "ph_spans h sp = Some s \<Longrightarrow> sp \<noteq> NULL \<Longrightarrow> the_span h sp = Inr s"
  by (simp add: the_span_def)

lemma pha_inv_grow:
  assumes "pha_inv sz env own Z U al hs w" "own (w_os w) \<subseteq> own (w_os w')" "sys_ok env (w_sys w')" "w_meta w' = w_meta w"
  shows "pha_inv sz env own Z U al hs w'"
  using assms meta_ok_grow [OF _ assms(2,3)] unfolding pha_inv_def by auto

lemma delete_span_ok:
  assumes "pha_inv sizeof_Span env own Z (dom (ph_spans h)) (ph_span_allocator h) (ph_words h) (ph_world h)"
    "ph_spans h sp = Some s" "sp \<noteq> NULL"
  shows "sure (delete_span sp h) (\<lambda>h'. \<exists>al ws. h' = h\<lparr>ph_span_allocator := al, ph_words := ws, ph_spans := (ph_spans h)(sp := None)\<rparr> \<and>
    pha_inv sizeof_Span env own Z (dom (ph_spans h) - {sp}) al ws (ph_world h))"
proof -
  have "sp \<in> dom (ph_spans h)" using assms(2) by auto
  from pha_delete_ok [OF assms(1) this] obtain al ws where
    "pha_delete sp (ph_span_allocator h) (ph_words h) = Inr (al, ws)" "pha_inv sizeof_Span env own Z (dom (ph_spans h) - {sp}) al ws (ph_world h)"
    by blast
  then show ?thesis using assms(2,3) by (auto simp: delete_span_def DeleteSpan_def)
qed

text \<open>Steps that touch only the world and the counters of commits.\<close>

definition same_lists :: "'k page_heap \<Rightarrow> 'k page_heap \<Rightarrow> bool" where
  "same_lists h h' \<longleftrightarrow> ph_spans h' = ph_spans h \<and> ph_pagemap h' = ph_pagemap h \<and> ph_normal h' = ph_normal h \<and>
     ph_returned h' = ph_returned h \<and> ph_large_normal h' = ph_large_normal h \<and> ph_large_returned h' = ph_large_returned h \<and>
     free_bytes (ph_stats_of h') = free_bytes (ph_stats_of h) \<and> unmapped_bytes (ph_stats_of h') = unmapped_bytes (ph_stats_of h) \<and>
     ph_aggressive_decommit h' = ph_aggressive_decommit h \<and> ph_release_index h' = ph_release_index h \<and>
     system_bytes (ph_stats_of h') = system_bytes (ph_stats_of h)"

lemma parts_same_lists: "same_lists h h' \<Longrightarrow> parts F h' = parts F h"
  by (simp add: same_lists_def parts_def)

lemma DecommitSpan_ok:
  assumes env: "mem_os env own" "madvise_ends env" and g: "geo (ph_spans h) (ph_pagemap h)" and m: "mem_ok env own h"
    and sp: "ph_spans h sp = Some s"
  shows "sure (DecommitSpan env sp h) (\<lambda>(rv, h'). mem_ok env own h' \<and> same_lists h h' \<and>
    gap h' = gap h + (if rv then page_bytes (sp_length s) else 0))"
proof -
  have ok: "sp \<noteq> NULL" "0 < sp_start s" "0 < sp_length s" "sp_start s + sp_length s \<le> 2 ^ 34"
    using geo_span [of _ _ sp s, OF g sp] by (simp_all add: span_ok_def)
  have so: "sys_ok env (w_sys (ph_world h))" using m by (auto simp: mem_ok_def pha_inv_def meta_ok_def)
  have pb: "push_bit kPageShift x = x * 8192" for x :: int by (simp add: push_bit_eq_mult kPageShift_def)
  have "sp_start s * 8192 + sp_length s * 8192 \<le> 2 ^ 47" using ok(4) by simp
  then obtain b ss' k' where r: "TCMalloc_SystemRelease env (sp_start s * 8192) (sp_length s * 8192) (w_sys (ph_world h)) (w_os (ph_world h)) = Inr (b, ss', k')"
    "sys_ok env ss'" "own (w_os (ph_world h)) \<subseteq> own k'"
    using SystemRelease_ok [OF env so, of "sp_start s * 8192" "sp_length s * 8192" "w_os (ph_world h)"] ok by auto
  let ?w = "(ph_world h)\<lparr>w_sys := ss', w_os := k'\<rparr>"
  have "pha_inv sizeof_Span env own (heap_mem (ph_spans h)) (dom (ph_spans h)) (ph_span_allocator h) (ph_words h) ?w"
    by (rule pha_inv_grow [of _ _ _ _ _ _ _ "ph_world h"]) (use m r in \<open>simp_all add: mem_ok_def\<close>)
  then show ?thesis using sp ok(1) r(1)
    by (auto simp: DecommitSpan_def the_span_ok pb Let_def mem_ok_def same_lists_def gap_def algebra_simps)
qed

section \<open>Frames\<close>

text \<open>The spans in use.\<close>

definition live :: "span_store \<Rightarrow> span_store" where
  "live st a = (case st a of None \<Rightarrow> None | Some s \<Rightarrow> if sp_location s = IN_USE then Some s else None)"

definition normals :: "span_store \<Rightarrow> addr set" where
  "normals st = {a. \<exists>s. st a = Some s \<and> sp_location s = ON_NORMAL_FREELIST}"

text \<open>Operations on free spans keep the spans in use, the pages, the memory taken from the system, and
  turn no other span into a normal one.\<close>

definition framed :: "'k page_heap \<Rightarrow> 'k page_heap \<Rightarrow> bool" where
  "framed h h' \<longleftrightarrow> live (ph_spans h') = live (ph_spans h) \<and> heap_pages (ph_spans h') = heap_pages (ph_spans h) \<and>
     normals (ph_spans h') \<subseteq> normals (ph_spans h) \<and>
     ph_aggressive_decommit h' = ph_aggressive_decommit h \<and> ph_release_index h' = ph_release_index h \<and>
     system_bytes (ph_stats_of h') = system_bytes (ph_stats_of h)"

lemma framed_refl: "framed h h"
  by (simp add: framed_def)

lemma framed_trans: "framed h1 h2 \<Longrightarrow> framed h2 h3 \<Longrightarrow> framed h1 h3"
  unfolding framed_def by auto

lemma framed_same_lists: "same_lists h h' \<Longrightarrow> framed h h'"
  by (simp add: same_lists_def framed_def)

lemma live_free: "st a = Some s \<Longrightarrow> sp_location s \<noteq> IN_USE \<Longrightarrow> sp_location s' \<noteq> IN_USE \<Longrightarrow> live (st(a \<mapsto> s')) = live st"
  by (auto simp: live_def)

lemma live_drop: "st a = Some s \<Longrightarrow> sp_location s \<noteq> IN_USE \<Longrightarrow> live (st(a := None)) = live st"
  by (auto simp: live_def)

section \<open>Merging with one neighbour\<close>

definition ret_bytes :: "span \<Rightarrow> 64 word" where
  "ret_bytes s = (if sp_location s = ON_RETURNED_FREELIST then page_bytes (sp_length s) else 0)"

text \<open>The span \<open>sp\<close> is marked free and on no list; its bytes are missing from the unmapped ones if it is returned.\<close>

definition floating :: "'k tc_env \<Rightarrow> ('k \<Rightarrow> addr set) \<Rightarrow> addr \<Rightarrow> span \<Rightarrow> 'k page_heap \<Rightarrow> bool" where
  "floating env own sp s h \<longleftrightarrow> ph_inv env own {sp} h \<and> ph_spans h sp = Some s \<and> sp_location s \<noteq> IN_USE \<and> gap h = ret_bytes s"

lemma parts_iter: "parts F h \<Longrightarrow> a \<in> F \<Longrightarrow> ph_spans h a = Some s \<Longrightarrow> \<not> sp_has_span_iter s"
  by (auto simp: parts_def iter_ok_def)

lemma floatingD:
  assumes "floating env own sp s h"
  shows "geo (ph_spans h) (ph_pagemap h)" "parts {sp} h" "mem_ok env own h" "ph_spans h sp = Some s"
    "sp_location s \<noteq> IN_USE" "gap h = ret_bytes s" "sp \<noteq> NULL" "0 < sp_length s" "0 < sp_start s"
    "\<not> sp_has_span_iter s"
proof -
  show f: "geo (ph_spans h) (ph_pagemap h)" "parts {sp} h" "mem_ok env own h" "ph_spans h sp = Some s"
    "sp_location s \<noteq> IN_USE" "gap h = ret_bytes s"
    using assms by (simp_all add: floating_def ph_inv_def)
  show "sp \<noteq> NULL" "0 < sp_length s" "0 < sp_start s"
    using geo_span [of _ _ sp s, OF f(1,4)] by (simp_all add: span_ok_def)
  show "\<not> sp_has_span_iter s" using parts_iter [OF f(2) _ f(4)] by simp
qed

lemma heap_mem_cong: "heap_pages st' = heap_pages st \<Longrightarrow> heap_mem st' = heap_mem st"
  by (simp add: heap_mem_def)

lemma heap_pages_upd:
  assumes "st a = Some s" "page_set s' = page_set s"
  shows "heap_pages (st(a \<mapsto> s')) = heap_pages st"
proof (intro equalityI subsetI)
  show "k \<in> heap_pages st" if "k \<in> heap_pages (st(a \<mapsto> s'))" for k
    using that assms unfolding heap_pages_def by (auto split: if_splits)
  show "k \<in> heap_pages (st(a \<mapsto> s'))" if k: "k \<in> heap_pages st" for k
  proof -
    obtain b t where "st b = Some t" "k \<in> page_set t" using k by (auto simp: heap_pages_def)
    then have "\<exists>t'. (st(a \<mapsto> s')) b = Some t' \<and> k \<in> page_set t'" using assms by (cases "b = a") auto
    then show ?thesis unfolding heap_pages_def by blast
  qed
qed

lemma absorb_ok:
  assumes sp: "ph_spans h sp = Some s" and o: "ph_spans h ot = Some t" "ot \<noteq> sp"
    and g: "geo (ph_spans h) (ph_pagemap h)" and p: "parts {sp, ot} h" and m: "mem_ok env own h"
    and loc: "sp_location s \<noteq> IN_USE" "sp_location t \<noteq> IN_USE"
    and gp: "gap h = (if sp_location s = ON_RETURNED_FREELIST then page_bytes (sp_length s) + page_bytes (sp_length t) else 0)"
    and side: "sp_start (f s) = sp_start t \<and> sp_start s = sp_start t + sp_length t \<and> K (f s) = sp_start t \<or>
      sp_start (f s) = sp_start s \<and> sp_start t = sp_start s + sp_length s \<and> K (f s) = sp_start t + sp_length t - 1"
    and f: "sp_length (f s) = sp_length s + sp_length t" "sp_location (f s) = sp_location s" "sp_has_span_iter (f s) = sp_has_span_iter s"
      "sp_sizeclass (f s) = sp_sizeclass s" "sp_sample (f s) = sp_sample s"
  shows "sure (bindR (delete_span ot h) (\<lambda>h2. bindR (upd_span sp f h2) (\<lambda>h3. bindR (the_span h3 sp) (\<lambda>s. pagemap_set (K s) sp h3))))
    (\<lambda>h'. floating env own sp (f s) h' \<and> framed h h' \<and> ph_spans h' = (ph_spans h)(ot := None, sp \<mapsto> f s))"
proof -
  let ?st = "ph_spans h" and ?s' = "f s"
  let ?st' = "?st(ot := None, sp \<mapsto> ?s')"
  have os: "span_ok (ph_pagemap h) sp s" "span_ok (ph_pagemap h) ot t" using geo_span [OF g] sp o by blast+
  then have nn: "sp \<noteq> NULL" "ot \<noteq> NULL" by (simp_all add: span_ok_def)
  have ek: "ens (ph_pagemap h) (K ?s')"
    using os(2) side unfolding span_ok_def by (metis (no_types, lifting) diff_add_cancel linorder_not_le order_less_imp_le
        zle_diff1_eq zless_add1_eq add.commute less_add_same_cancel1 order_refl)
  show ?thesis
  proof (rule sure_bind [OF delete_span_ok [OF m [unfolded mem_ok_def] o(1) nn(2)]])
    fix h2 assume "\<exists>al ws. h2 = h\<lparr>ph_span_allocator := al, ph_words := ws, ph_spans := ?st(ot := None)\<rparr> \<and>
      pha_inv sizeof_Span env own (heap_mem ?st) (dom ?st - {ot}) al ws (ph_world h)"
    then obtain al ws where h2: "h2 = h\<lparr>ph_span_allocator := al, ph_words := ws, ph_spans := ?st(ot := None)\<rparr>"
      and pi: "pha_inv sizeof_Span env own (heap_mem ?st) (dom ?st - {ot}) al ws (ph_world h)" by blast
    define h3 where "h3 = h2\<lparr>ph_spans := ?st'\<rparr>"
    have u: "upd_span sp f h2 = Inr h3" using upd_span_ok [of h2 sp s f] sp o(2) nn(1) by (simp add: h2 h3_def)
    have w: "the_span h3 sp = Inr ?s'" using nn(1) by (simp add: h3_def the_span_def)
    have e3: "ens (ph_pagemap h3) (K ?s')" using ek by (simp add: h3_def h2)
    have "floating env own sp ?s' h' \<and> framed h h' \<and> ph_spans h' = ?st'"
      if pm: "\<exists>m'. h' = h3\<lparr>ph_pagemap := m'\<rparr> \<and> lkp m' = (lkp (ph_pagemap h3))(K ?s' := sp) \<and> ens m' = ens (ph_pagemap h3)" for h'
    proof -
      obtain m' where h': "h' = h3\<lparr>ph_pagemap := m'\<rparr>" "lkp m' = (lkp (ph_pagemap h))(K ?s' := sp)" "ens m' = ens (ph_pagemap h)"
        using pm unfolding h3_def h2 by auto
      have "sp_sizeclass ?s' = 0" "\<not> sp_sample ?s'" using free_class [OF g sp loc(1)] f(4,5) by simp_all
      note ab = geo_absorb [OF g sp o(1) o(2) [symmetric] side f(1) this h'(2,3)]
      have st': "ph_spans h' = ?st'" by (simp add: h'(1) h3_def)
      have "parts {sp, ot} h'"
        by (rule parts_cong [OF p]) (use parts_iter [OF p] sp o(2) f(3) in \<open>auto simp: h'(1) h3_def h2\<close>)
      then have pa: "parts {sp} h'" using parts_inuse [of h' ot "{sp}"] o(2) by (simp add: st' insert_commute)
      have "dom ?st' = dom ?st - {ot}" using sp o by auto
      then have me: "mem_ok env own h'" unfolding mem_ok_def st' heap_mem_cong [OF ab(2)] using pi by (simp add: h'(1) h3_def h2)
      have "gap h' = ret_bytes ?s'" using gp f by (simp add: gap_def h'(1) h3_def h2 ret_bytes_def page_bytes_add)
      moreover have "geo (ph_spans h') (ph_pagemap h')" using ab(1) by (simp add: h'(1) h3_def)
      ultimately have "floating env own sp ?s' h'" using pa me loc(1) f(2) st' by (simp add: floating_def ph_inv_def)
      moreover have "live ?st' = live ?st"
        using live_free [of "?st(ot := None)" sp s ?s'] live_drop [of ?st ot t] sp o loc f(2) by simp
      moreover have "normals ?st' \<subseteq> normals ?st" using sp f(2) by (auto simp: normals_def split: if_splits)
      ultimately show ?thesis using ab(2) st' by (simp add: framed_def) (simp add: h'(1) h3_def h2)
    qed
    then show "sure (bindR (upd_span sp f h2) (\<lambda>h3. bindR (the_span h3 sp) (\<lambda>s. pagemap_set (K s) sp h3)))
        (\<lambda>h'. floating env own sp ?s' h' \<and> framed h h' \<and> ph_spans h' = ?st')"
      unfolding u bindR_simps w by (rule sure_mono [OF pagemap_set_ok [OF e3]])
  qed
qed

text \<open>The neighbour \<open>ot\<close> is taken off its list, or its kind differs and it stays.\<close>

lemma premerge_ok:
  assumes env: "mem_os env own" "madvise_ends env" and fl: "floating env own sp s h"
    and o: "ph_spans h ot = Some t" "ot \<noteq> sp"
  shows "sure (CheckAndHandlePreMerge env sp ot h) (\<lambda>(r, h').
    if r = NULL then floating env own sp s h' \<and> same_lists h h' \<and> sp_location t \<noteq> sp_location s
    else r = ot \<and> ph_spans h' = (ph_spans h)(ot \<mapsto> t\<lparr>sp_has_span_iter := False\<rparr>) \<and> geo (ph_spans h') (ph_pagemap h') \<and>
      parts {sp, ot} h' \<and> mem_ok env own h' \<and> framed h h' \<and> sp_location t \<noteq> IN_USE \<and>
      gap h' = (if sp_location s = ON_RETURNED_FREELIST then page_bytes (sp_length s) + page_bytes (sp_length t) else 0) \<and>
      (\<not> ph_aggressive_decommit h \<longrightarrow> sp_location t = sp_location s))"
proof -
  note F = floatingD [OF fl]
  have ot: "ot \<noteq> NULL" "0 < sp_length t" using geo_span [of _ _ ot t, OF F(1) o(1)] by (simp_all add: span_ok_def)
  let ?Q = "\<lambda>h1 h'. ph_spans h' = (ph_spans h)(ot \<mapsto> t\<lparr>sp_has_span_iter := False\<rparr>) \<and> geo (ph_spans h') (ph_pagemap h') \<and>
      parts {sp, ot} h' \<and> mem_ok env own h' \<and> framed h h' \<and> sp_location t \<noteq> IN_USE \<and> gap h' = gap h1 + ret_bytes t"
  text \<open>Taking the neighbour off its list, from a state that differs in the counters of commits.\<close>
  have rem: "sure (RemoveFromFreeList ot h1) (?Q h1)"
    if h1: "same_lists h h1" "mem_ok env own h1" "sp_location t \<noteq> IN_USE" for h1
  proof -
    have e: "ph_spans h1 = ph_spans h" "ph_pagemap h1 = ph_pagemap h" using h1(1) by (simp_all add: same_lists_def)
    have p1: "parts {sp} h1" using F(2) parts_same_lists [OF h1(1)] by simp
    have "ph_spans h1 ot = Some t" "finite (dom (ph_spans h1))" using o(1) geo_finite [OF F(1)] by (simp_all add: e)
    from Remove_ok [OF p1 this(2,1) ot(1) _ h1(3) ot(2)] o(2) obtain h' where
      h': "RemoveFromFreeList ot h1 = Inr h'" "parts {sp, ot} h'" "same_rest h1 h'"
        "ph_spans h' = (ph_spans h)(ot \<mapsto> t\<lparr>sp_has_span_iter := False\<rparr>)" "gap h' = gap h1 + ret_bytes t"
      by (auto simp: e ret_bytes_def insert_commute)
    have pm: "ph_pagemap h' = ph_pagemap h" using h'(3) e(2) by (simp add: same_rest_def)
    have pg: "heap_pages (ph_spans h') = heap_pages (ph_spans h)"
      unfolding h'(4) by (rule heap_pages_upd [of "ph_spans h" ot t, OF o(1)]) (simp add: page_set_def)
    have dm: "dom (ph_spans h') = dom (ph_spans h)" using o(1) by (auto simp: h'(4))
    have "geo (ph_spans h') (ph_pagemap h')"
      unfolding pm by (rule geo_cong [OF F(1) dm]) (use o(1) in \<open>auto simp: h'(4) class_kept_def split: if_splits\<close>)
    moreover have "mem_ok env own h'"
      using h1(2) h'(3) dm heap_mem_cong [OF pg] by (simp add: mem_ok_def same_rest_def e)
    moreover have "framed h h'"
      using h'(3) h1(1) pg live_free [of "ph_spans h" ot t "t\<lparr>sp_has_span_iter := False\<rparr>", OF o(1)] h1(3) o(1)
      by (auto simp: framed_def same_lists_def same_rest_def h'(4) normals_def split: if_splits)
    ultimately show ?thesis using h' h1(3) by simp
  qed
  have ts: "the_span h ot = Inr t" "the_span h sp = Inr s" using o(1) ot(1) F(4,7) by (simp_all add: the_span_def)
  show ?thesis
  proof (cases "ph_aggressive_decommit h \<and> sp_location t = ON_NORMAL_FREELIST \<and> sp_location s = ON_RETURNED_FREELIST")
    case True
    obtain rv h1 where d: "DecommitSpan env ot h = Inr (rv, h1)" "mem_ok env own h1" "same_lists h h1"
      "gap h1 = gap h + (if rv then page_bytes (sp_length t) else 0)"
      using DecommitSpan_ok [OF env F(1,3) o(1)] by (auto simp: sure_def)
    show ?thesis
    proof (cases rv)
      case rv: True
      obtain h' where h': "RemoveFromFreeList ot h1 = Inr h'" "?Q h1 h'" using rem [OF d(3,2)] True by (auto simp: sure_def)
      then show ?thesis using True rv d(1,4) F(6) ot(1) ts by (auto simp: CheckAndHandlePreMerge_def ret_bytes_def)
    next
      case rv: False
      have "floating env own sp s h1" using fl d(2-4) rv parts_same_lists [OF d(3)]
        by (simp add: floating_def ph_inv_def same_lists_def)
      then show ?thesis using True rv d ot(1) ts by (simp add: CheckAndHandlePreMerge_def)
    qed
  next
    case False
    show ?thesis
    proof (cases "sp_location t = sp_location s")
      case True
      have "same_lists h h" by (simp add: same_lists_def)
      then obtain h' where h': "RemoveFromFreeList ot h = Inr h'" "?Q h h'" using rem [of h] F(3,5) True by (auto simp: sure_def)
      then show ?thesis using True False F(6) ot(1) ts by (auto simp: CheckAndHandlePreMerge_def ret_bytes_def)
    next
      case df: False
      then show ?thesis using False fl ot(1) ts by (auto simp: CheckAndHandlePreMerge_def same_lists_def)
    qed
  qed
qed

section \<open>Merging with both neighbours\<close>

text \<open>No free span of the kind of \<open>s\<close> ends where \<open>s\<close> starts; none starts where \<open>s\<close> ends.\<close>

definition left_apart :: "addr \<Rightarrow> span \<Rightarrow> span_store \<Rightarrow> bool" where
  "left_apart sp s st \<longleftrightarrow> (\<forall>b\<in>loc_set {sp} st (sp_location s). start_of st b + span_len st b \<noteq> sp_start s)"

definition right_apart :: "addr \<Rightarrow> span \<Rightarrow> span_store \<Rightarrow> bool" where
  "right_apart sp s st \<longleftrightarrow> (\<forall>b\<in>loc_set {sp} st (sp_location s). sp_start s + sp_length s \<noteq> start_of st b)"

text \<open>What one merge keeps.\<close>

definition merged :: "'k tc_env \<Rightarrow> ('k \<Rightarrow> addr set) \<Rightarrow> addr \<Rightarrow> span \<Rightarrow> 'k page_heap \<Rightarrow> span \<Rightarrow> 'k page_heap \<Rightarrow> bool" where
  "merged env own sp s h s' h' \<longleftrightarrow> floating env own sp s' h' \<and> framed h h' \<and> sp_location s' = sp_location s \<and>
     (\<forall>loc. loc_set {sp} (ph_spans h') loc \<subseteq> loc_set {sp} (ph_spans h) loc) \<and>
     (\<forall>loc. \<forall>b\<in>loc_set {sp} (ph_spans h') loc. start_of (ph_spans h') b = start_of (ph_spans h) b \<and>
        span_len (ph_spans h') b = span_len (ph_spans h) b)"

lemma merged_coalesced:
  assumes "merged env own sp s h s' h'" "coalesced {sp} (ph_spans h)"
  shows "coalesced {sp} (ph_spans h')"
  unfolding coalesced_def
proof (intro allI impI ballI)
  fix loc a b assume l: "loc \<noteq> IN_USE" "a \<in> loc_set {sp} (ph_spans h') loc" "b \<in> loc_set {sp} (ph_spans h') loc"
  then have "a \<in> loc_set {sp} (ph_spans h) loc" "b \<in> loc_set {sp} (ph_spans h) loc" using assms(1) unfolding merged_def by blast+
  then have "start_of (ph_spans h) a + span_len (ph_spans h) a \<noteq> start_of (ph_spans h) b" using assms(2) l(1) unfolding coalesced_def by blast
  then show "start_of (ph_spans h') a + span_len (ph_spans h') a \<noteq> start_of (ph_spans h') b"
    using assms(1) l unfolding merged_def by metis
qed

lemma merged_refl: "floating env own sp s h \<Longrightarrow> merged env own sp s h s h"
  by (simp add: merged_def framed_refl)

lemma merged_same_lists: "floating env own sp s h' \<Longrightarrow> same_lists h h' \<Longrightarrow> merged env own sp s h s h'"
  using framed_same_lists [of h h'] by (simp add: merged_def same_lists_def)

lemma merged_absorb:
  assumes "floating env own sp s' h'" "framed h h'" "sp_location s' = sp_location s" "sp \<noteq> ot"
    "ph_spans h' = (ph_spans h)(ot := None, sp \<mapsto> s')"
  shows "merged env own sp s h s' h'" "\<And>loc. ot \<notin> loc_set {sp} (ph_spans h') loc"
proof -
  show "\<And>loc. ot \<notin> loc_set {sp} (ph_spans h') loc" using assms(4,5) by (auto simp: loc_set_def)
  have "\<forall>loc. loc_set {sp} (ph_spans h') loc \<subseteq> loc_set {sp} (ph_spans h) loc"
    using assms(4,5) by (auto simp: loc_set_def split: if_splits)
  moreover have "\<forall>loc. \<forall>b\<in>loc_set {sp} (ph_spans h') loc. start_of (ph_spans h') b = start_of (ph_spans h) b \<and>
        span_len (ph_spans h') b = span_len (ph_spans h) b"
    using assms(4,5) by (auto simp: loc_set_def start_of_def span_len_def split: if_splits)
  ultimately show "merged env own sp s h s' h'" using assms(1-3) by (simp add: merged_def)
qed

text \<open>The spans that touch \<open>s\<close> on either side are its neighbours in the page map.\<close>

lemma left_unique:
  assumes g: "geo st m" and s: "st sp = Some s" and t: "st ot = Some t" "sp_start t + sp_length t = sp_start s" and ne: "sp_location t \<noteq> sp_location s"
  shows "left_apart sp s st"
  unfolding left_apart_def
proof
  fix b assume "b \<in> loc_set {sp} st (sp_location s)"
  then obtain u where u: "st b = Some u" "sp_location u = sp_location s" by (auto simp: loc_set_def)
  have "0 < sp_length t" "0 < sp_length u" using geo_span [of st m, OF g] t(1) u(1) unfolding span_ok_def by blast+
  then have "sp_start t + sp_length t - 1 \<in> page_set t" "sp_start u + sp_length u = sp_start s \<Longrightarrow> sp_start t + sp_length t - 1 \<in> page_set u"
    using t(2) by (auto simp: page_set_def)
  then have "sp_start u + sp_length u = sp_start s \<Longrightarrow> ot = b" using geo_same [of st m ot t b u, OF g t(1) u(1)] by blast
  then show "start_of st b + span_len st b \<noteq> sp_start s" using u t(1) ne by auto
qed

lemma right_unique:
  assumes g: "geo st m" and s: "st sp = Some s" and t: "st ot = Some t" "sp_start t = sp_start s + sp_length s" and ne: "sp_location t \<noteq> sp_location s"
  shows "right_apart sp s st"
  unfolding right_apart_def
proof
  fix b assume "b \<in> loc_set {sp} st (sp_location s)"
  then obtain u where u: "st b = Some u" "sp_location u = sp_location s" by (auto simp: loc_set_def)
  have "b \<noteq> ot" using u t(1) ne by auto
  then show "sp_start s + sp_length s \<noteq> start_of st b" using geo_starts [of st m ot t b u, OF g t(1) u(1)] u(1) t(2) by simp
qed

text \<open>After the merge with a neighbour of the same kind, the next span on that side is of another kind.\<close>

lemma beyond:
  assumes mg: "merged env own sp s h s' h'" and co: "coalesced {sp} (ph_spans h)" and loc: "sp_location s \<noteq> IN_USE"
    and t: "ph_spans h ot = Some t" "ot \<noteq> sp" "sp_location t = sp_location s"
  shows "sp_start s' = sp_start t \<Longrightarrow> left_apart sp s' (ph_spans h')"
    "sp_start s' + sp_length s' = sp_start t + sp_length t \<Longrightarrow> right_apart sp s' (ph_spans h')"
proof -
  have ot: "ot \<in> loc_set {sp} (ph_spans h) (sp_location s)" using t by (auto simp: loc_set_def)
  have b: "b \<in> loc_set {sp} (ph_spans h) (sp_location s) \<and> start_of (ph_spans h') b = start_of (ph_spans h) b \<and>
      span_len (ph_spans h') b = span_len (ph_spans h) b" if "b \<in> loc_set {sp} (ph_spans h') (sp_location s')" for b
    using mg that unfolding merged_def by auto
  have c: "start_of (ph_spans h) b + span_len (ph_spans h) b \<noteq> sp_start t \<and> sp_start t + sp_length t \<noteq> start_of (ph_spans h) b"
    if "b \<in> loc_set {sp} (ph_spans h) (sp_location s)" for b
    using co loc that ot start_of_some [of "ph_spans h" ot t, OF t(1)] span_len_some [of "ph_spans h" ot t, OF t(1)]
    unfolding coalesced_def by metis
  show "left_apart sp s' (ph_spans h')" if "sp_start s' = sp_start t" unfolding left_apart_def using b c that by metis
  show "right_apart sp s' (ph_spans h')" if "sp_start s' + sp_length s' = sp_start t + sp_length t"
    unfolding right_apart_def using b c that by metis
qed

text \<open>The common part of the two merges: \<open>d\<close> is the neighbour in the page map, if there is one.\<close>

definition absorb ::
  "'k tc_env \<Rightarrow> addr \<Rightarrow> addr \<Rightarrow> (span \<Rightarrow> bool) \<Rightarrow> (span \<Rightarrow> span \<Rightarrow> span) \<Rightarrow> (span \<Rightarrow> int) \<Rightarrow> 'k page_heap \<Rightarrow> 'k page_heap result" where
  "absorb env sp d touches f K h =
     bindR (CheckAndHandlePreMerge env sp d h) (\<lambda>(r, h1).
       if r = NULL then Inr h1
       else bindR (the_span h1 r) (\<lambda>t. check (touches t)
         (bindR (delete_span r h1) (\<lambda>h2. bindR (upd_span sp (f t) h2) (\<lambda>h3. bindR (the_span h3 sp) (\<lambda>s. pagemap_set (K s) sp h3))))))"

definition grow_left :: "span \<Rightarrow> span \<Rightarrow> span" where
  "grow_left t s = s\<lparr>sp_start := sp_start s - sp_length t, sp_length := sp_length s + sp_length t\<rparr>"

definition grow_right :: "span \<Rightarrow> span \<Rightarrow> span" where
  "grow_right t s = s\<lparr>sp_length := sp_length s + sp_length t\<rparr>"

lemma merge_absorb:
  "merge_prev env sp p h = bindR (GetDescriptor h (p - 1)) (\<lambda>d. absorb env sp d (\<lambda>t. sp_start t + sp_length t = p) grow_left sp_start h)"
  "merge_next env sp e h = bindR (GetDescriptor h e) (\<lambda>d. absorb env sp d (\<lambda>t. sp_start t = e) grow_right (\<lambda>s. sp_start s + sp_length s - 1) h)"
  by (simp_all add: merge_prev_def merge_next_def absorb_def grow_left_def [abs_def] grow_right_def [abs_def])

lemma absorb_neighbour:
  assumes env: "mem_os env own" "madvise_ends env" and fl: "floating env own sp s h" and d: "ph_spans h d = Some t" "d \<noteq> sp"
    and f: "\<And>u. f (t\<lparr>sp_has_span_iter := u\<rparr>) = f t" "sp_length (f t s) = sp_length s + sp_length t" "sp_location (f t s) = sp_location s"
      "sp_has_span_iter (f t s) = sp_has_span_iter s" "sp_sizeclass (f t s) = sp_sizeclass s" "sp_sample (f t s) = sp_sample s"
    and touch: "\<And>u. touches (t\<lparr>sp_has_span_iter := u\<rparr>)"
    and side: "sp_start (f t s) = sp_start t \<and> sp_start s = sp_start t + sp_length t \<and> K (f t s) = sp_start t \<or>
      sp_start (f t s) = sp_start s \<and> sp_start t = sp_start s + sp_length s \<and> K (f t s) = sp_start t + sp_length t - 1"
  shows "sure (absorb env sp d touches f K h) (\<lambda>h'.
    merged env own sp s h s h' \<and> ph_spans h' = ph_spans h \<and> sp_location t \<noteq> sp_location s \<or>
    merged env own sp s h (f t s) h' \<and> (\<not> ph_aggressive_decommit h \<longrightarrow> sp_location t = sp_location s))"
proof -
  note F = floatingD [OF fl]
  let ?t = "t\<lparr>sp_has_span_iter := False\<rparr>"
  obtain r h1 where r: "CheckAndHandlePreMerge env sp d h = Inr (r, h1)" and q: "if r = NULL then floating env own sp s h1 \<and> same_lists h h1 \<and> sp_location t \<noteq> sp_location s
    else r = d \<and> ph_spans h1 = (ph_spans h)(d \<mapsto> ?t) \<and> geo (ph_spans h1) (ph_pagemap h1) \<and>
    parts {sp, d} h1 \<and> mem_ok env own h1 \<and> framed h h1 \<and> sp_location t \<noteq> IN_USE \<and>
    gap h1 = (if sp_location s = ON_RETURNED_FREELIST then page_bytes (sp_length s) + page_bytes (sp_length t) else 0) \<and>
    (\<not> ph_aggressive_decommit h \<longrightarrow> sp_location t = sp_location s)"
    using premerge_ok [OF env fl d] unfolding sure_def by auto
  show ?thesis
  proof (cases "r = NULL")
    case True
    then show ?thesis using q r merged_same_lists [of env own sp s h1 h] by (auto simp: absorb_def same_lists_def)
  next
    case False
    have rd: "r = d" and q1: "ph_spans h1 = (ph_spans h)(d \<mapsto> ?t)" and q2: "geo (ph_spans h1) (ph_pagemap h1)" "parts {sp, d} h1"
      "mem_ok env own h1" "framed h h1" "sp_location t \<noteq> IN_USE"
      and gp: "gap h1 = (if sp_location s = ON_RETURNED_FREELIST then page_bytes (sp_length s) + page_bytes (sp_length t) else 0)"
      and lt: "\<not> ph_aggressive_decommit h \<longrightarrow> sp_location t = sp_location s"
      using q unfolding if_not_P [OF False] by blast+
    have "sure (bindR (delete_span d h1) (\<lambda>h2. bindR (upd_span sp (f t) h2) (\<lambda>h3. bindR (the_span h3 sp) (\<lambda>s. pagemap_set (K s) sp h3))))
        (\<lambda>h'. floating env own sp (f t s) h' \<and> framed h1 h' \<and> ph_spans h' = (ph_spans h1)(d := None, sp \<mapsto> f t s))"
      by (rule absorb_ok [of h1 sp s d ?t]) (use d F(4,5) q1 q2 gp side f in auto)
    then have "sure (absorb env sp d touches f K h)
        (\<lambda>h'. floating env own sp (f t s) h' \<and> framed h1 h' \<and> ph_spans h' = (ph_spans h1)(d := None, sp \<mapsto> f t s))"
      using r rd q1 False touch f(1) by (simp add: absorb_def the_span_def)
    then show ?thesis
    proof (rule sure_mono, intro disjI2 conjI)
      fix h' assume h': "floating env own sp (f t s) h' \<and> framed h1 h' \<and> ph_spans h' = (ph_spans h1)(d := None, sp \<mapsto> f t s)"
      then have "ph_spans h' = (ph_spans h)(d := None, sp \<mapsto> f t s)" using q1 by simp
      then show "merged env own sp s h (f t s) h'"
        using merged_absorb(1) [of env own sp "f t s" h' h s d] h' framed_trans [OF q2(4), of h'] d(2) f(3) by auto
    qed (rule lt)
  qed
qed

lemma absorb_null: "absorb env sp NULL touches f K h = Inr h"
  by (simp add: absorb_def CheckAndHandlePreMerge_def)

lemma merge_prev_ok:
  assumes env: "mem_os env own" "madvise_ends env" and fl: "floating env own sp s h"
  shows "sure (merge_prev env sp (sp_start s) h) (\<lambda>h'. \<exists>s'. merged env own sp s h s' h' \<and>
    sp_start s' + sp_length s' = sp_start s + sp_length s \<and>
    (\<not> ph_aggressive_decommit h \<longrightarrow> coalesced {sp} (ph_spans h) \<longrightarrow> left_apart sp s' (ph_spans h')))"
proof -
  note F = floatingD [OF fl]
  let ?d = "lkp (ph_pagemap h) (sp_start s - 1)"
  have gd: "GetDescriptor h (sp_start s - 1) = Inr ?d" using F(9) by (intro GetDescriptor_ok) simp
  from geo_prev [OF F(1,4)] show ?thesis unfolding merge_absorb(1) gd bindR_simps
  proof (elim disjE exE conjE)
    fix t assume t: "ph_spans h ?d = Some t" "?d \<noteq> sp" "sp_start t + sp_length t = sp_start s"
    show "sure (absorb env sp ?d (\<lambda>t. sp_start t + sp_length t = sp_start s) grow_left sp_start h) (\<lambda>h'. \<exists>s'. merged env own sp s h s' h' \<and>
        sp_start s' + sp_length s' = sp_start s + sp_length s \<and>
        (\<not> ph_aggressive_decommit h \<longrightarrow> coalesced {sp} (ph_spans h) \<longrightarrow> left_apart sp s' (ph_spans h')))"
    proof (rule sure_mono [OF absorb_neighbour [OF env fl t(1,2)]])
      fix h' assume "merged env own sp s h s h' \<and> ph_spans h' = ph_spans h \<and> sp_location t \<noteq> sp_location s \<or>
        merged env own sp s h (grow_left t s) h' \<and> (\<not> ph_aggressive_decommit h \<longrightarrow> sp_location t = sp_location s)"
      then show "\<exists>s'. merged env own sp s h s' h' \<and> sp_start s' + sp_length s' = sp_start s + sp_length s \<and>
          (\<not> ph_aggressive_decommit h \<longrightarrow> coalesced {sp} (ph_spans h) \<longrightarrow> left_apart sp s' (ph_spans h'))"
      proof (elim disjE conjE)
        assume "merged env own sp s h s h'" "ph_spans h' = ph_spans h" "sp_location t \<noteq> sp_location s"
        then show ?thesis using left_unique [OF F(1,4) t(1,3)] by (intro exI [of _ s]) simp
      next
        assume a: "merged env own sp s h (grow_left t s) h'" "\<not> ph_aggressive_decommit h \<longrightarrow> sp_location t = sp_location s"
        show ?thesis using a beyond(1) [OF a(1) _ F(5) t(1,2)] t(3) by (intro exI [of _ "grow_left t s"]) (simp add: grow_left_def)
      qed
    qed (use t in \<open>auto simp: grow_left_def\<close>)
  next
    assume "?d = NULL" "\<forall>b t. ph_spans h b = Some t \<longrightarrow> sp_start t + sp_length t \<noteq> sp_start s"
    moreover then have "left_apart sp s (ph_spans h)" by (auto simp: left_apart_def loc_set_def)
    ultimately show "sure (absorb env sp ?d (\<lambda>t. sp_start t + sp_length t = sp_start s) grow_left sp_start h) (\<lambda>h'. \<exists>s'. merged env own sp s h s' h' \<and>
        sp_start s' + sp_length s' = sp_start s + sp_length s \<and>
        (\<not> ph_aggressive_decommit h \<longrightarrow> coalesced {sp} (ph_spans h) \<longrightarrow> left_apart sp s' (ph_spans h')))"
      using merged_refl [OF fl] by (auto simp: absorb_null)
  qed
qed

lemma merge_next_ok:
  assumes env: "mem_os env own" "madvise_ends env" and fl: "floating env own sp s h"
  shows "sure (merge_next env sp (sp_start s + sp_length s) h) (\<lambda>h'. \<exists>s'. merged env own sp s h s' h' \<and> sp_start s' = sp_start s \<and>
    (\<not> ph_aggressive_decommit h \<longrightarrow> coalesced {sp} (ph_spans h) \<longrightarrow> right_apart sp s' (ph_spans h')))"
proof -
  note F = floatingD [OF fl]
  let ?e = "sp_start s + sp_length s"
  let ?d = "lkp (ph_pagemap h) ?e"
  let ?run = "absorb env sp ?d (\<lambda>t. sp_start t = ?e) grow_right (\<lambda>s. sp_start s + sp_length s - 1) h"
  let ?Q = "\<lambda>h'. \<exists>s'. merged env own sp s h s' h' \<and> sp_start s' = sp_start s \<and>
    (\<not> ph_aggressive_decommit h \<longrightarrow> coalesced {sp} (ph_spans h) \<longrightarrow> right_apart sp s' (ph_spans h'))"
  have gd: "GetDescriptor h ?e = Inr ?d" using F(8,9) by (intro GetDescriptor_ok) simp
  from geo_next [OF F(1,4)] show ?thesis unfolding merge_absorb(2) gd bindR_simps
  proof (elim disjE exE conjE)
    fix t assume t: "ph_spans h ?d = Some t" "?d \<noteq> sp" "sp_start t = ?e"
    show "sure ?run ?Q"
    proof (rule sure_mono [OF absorb_neighbour [OF env fl t(1,2)]])
      fix h' assume "merged env own sp s h s h' \<and> ph_spans h' = ph_spans h \<and> sp_location t \<noteq> sp_location s \<or>
        merged env own sp s h (grow_right t s) h' \<and> (\<not> ph_aggressive_decommit h \<longrightarrow> sp_location t = sp_location s)"
      then show "?Q h'"
      proof (elim disjE conjE)
        assume "merged env own sp s h s h'" "ph_spans h' = ph_spans h" "sp_location t \<noteq> sp_location s"
        then show "?Q h'" using right_unique [OF F(1,4) t(1,3)] by (intro exI [of _ s]) simp
      next
        assume a: "merged env own sp s h (grow_right t s) h'" "\<not> ph_aggressive_decommit h \<longrightarrow> sp_location t = sp_location s"
        show "?Q h'" using a beyond(2) [OF a(1) _ F(5) t(1,2)] t(3) by (intro exI [of _ "grow_right t s"]) (simp add: grow_right_def)
      qed
    qed (use t in \<open>auto simp: grow_right_def\<close>)
  next
    assume "?d = NULL" "\<forall>b t. ph_spans h b = Some t \<longrightarrow> sp_start t \<noteq> ?e"
    moreover then have "right_apart sp s (ph_spans h)" unfolding right_apart_def loc_set_def using start_of_some by fastforce
    ultimately show "sure ?run ?Q" using merged_refl [OF fl] by (auto simp: absorb_null)
  qed
qed

section \<open>Merging into the free lists\<close>

text \<open>The span is put on the list of its kind; this ends a merge.\<close>

lemma prepend_floating:
  assumes fl: "floating env own sp s h"
  shows "sure (PrependToFreeList sp h) (\<lambda>h'. ph_inv env own {} h' \<and> stats_balanced h' \<and> framed h h' \<and>
    (coalesced {sp} (ph_spans h) \<longrightarrow> left_apart sp s (ph_spans h) \<longrightarrow> right_apart sp s (ph_spans h) \<longrightarrow> coalesced {} (ph_spans h')))"
proof -
  note F = floatingD [OF fl]
  let ?st = "ph_spans h" and ?s' = "s\<lparr>sp_has_span_iter := (sp_length s > kMaxPages)\<rparr>"
  obtain h' where h': "PrependToFreeList sp h = Inr h'" "parts {} h'" "same_rest h h'" "ph_spans h' = ?st(sp \<mapsto> ?s')"
    "gap h' = gap h - ret_bytes s"
    using Prepend_ok [OF F(2) geo_finite [OF F(1)] F(4,7) _ F(5,8)] geo_starts [OF F(1,4)] by (auto simp: ret_bytes_def)
  have pg: "heap_pages (ph_spans h') = heap_pages ?st"
    unfolding h'(4) by (rule heap_pages_upd [of ?st sp s, OF F(4)]) (simp add: page_set_def)
  have dm: "dom (ph_spans h') = dom ?st" using F(4) by (auto simp: h'(4))
  have "geo (ph_spans h') (ph_pagemap h)"
    by (rule geo_cong [OF F(1) dm]) (use F(4) in \<open>auto simp: h'(4) class_kept_def split: if_splits\<close>)
  moreover have "mem_ok env own h'"
    using F(3) h'(3) dm heap_mem_cong [OF pg] by (simp add: mem_ok_def same_rest_def)
  ultimately have inv: "ph_inv env own {} h'" using h'(2,3) by (simp add: ph_inv_def same_rest_def)
  have fr: "framed h h'"
    using h'(3) pg live_free [of ?st sp s ?s', OF F(4)] F(5) F(4)
    by (auto simp: framed_def same_rest_def h'(4) normals_def split: if_splits)
  have co: "coalesced {} (ph_spans h')" if "coalesced {sp} ?st" "left_apart sp s ?st" "right_apart sp s ?st"
  proof -
    have ag: "\<forall>a. a \<notin> {sp} \<longrightarrow> ph_spans h' a = ?st a" by (simp add: h'(4))
    have e: "start_of (ph_spans h') b = start_of ?st b" "span_len (ph_spans h') b = span_len ?st b" if "b \<in> loc_set {sp} ?st loc" for b loc
      using that by (auto simp: h'(4) loc_set_def start_of_def span_len_def)
    have "coalesced ({sp} - {sp}) (ph_spans h')"
    proof (rule coalesced_add [of _ _ sp ?s'])
      show "coalesced {sp} (ph_spans h')" using outside_cong(4) [OF ag] that(1) by simp
      fix b assume "b \<in> loc_set {sp} (ph_spans h') (sp_location ?s')"
      then have "b \<in> loc_set {sp} ?st (sp_location s)" using loc_set_cong [OF ag] by simp
      then show "start_of (ph_spans h') b + span_len (ph_spans h') b \<noteq> sp_start ?s' \<and> sp_start ?s' + sp_length ?s' \<noteq> start_of (ph_spans h') b"
        using that(2,3) e unfolding left_apart_def right_apart_def by auto
    qed (use F(8) in \<open>auto simp: h'(4)\<close>)
    then show ?thesis by simp
  qed
  show ?thesis using h'(1,5) inv fr co F(6) by (simp add: balanced_gap)
qed

lemma merged_framed: "merged env own sp s h s' h' \<Longrightarrow> framed h h'"
  by (simp add: merged_def)

lemma merged_left:
  assumes "merged env own sp s h s' h'" "left_apart sp s (ph_spans h)" "sp_start s' = sp_start s"
  shows "left_apart sp s' (ph_spans h')"
  using assms unfolding merged_def left_apart_def by (metis subsetD)

text \<open>From the two merges on.\<close>

lemma merge_both_ok:
  assumes env: "mem_os env own" "madvise_ends env" and fl: "floating env own sp s h"
  shows "sure (bindR (merge_prev env sp (sp_start s) h) (\<lambda>h3. bindR (merge_next env sp (sp_start s + sp_length s) h3) (\<lambda>h4. PrependToFreeList sp h4)))
    (\<lambda>h'. ph_inv env own {} h' \<and> stats_balanced h' \<and> framed h h' \<and>
      (\<not> ph_aggressive_decommit h \<longrightarrow> coalesced {sp} (ph_spans h) \<longrightarrow> coalesced {} (ph_spans h')))"
proof (rule sure_bind [OF merge_prev_ok [OF env fl]])
  fix h3 assume "\<exists>s'. merged env own sp s h s' h3 \<and> sp_start s' + sp_length s' = sp_start s + sp_length s \<and>
    (\<not> ph_aggressive_decommit h \<longrightarrow> coalesced {sp} (ph_spans h) \<longrightarrow> left_apart sp s' (ph_spans h3))"
  then obtain s3 where m3: "merged env own sp s h s3 h3" "sp_start s3 + sp_length s3 = sp_start s + sp_length s"
    "\<not> ph_aggressive_decommit h \<longrightarrow> coalesced {sp} (ph_spans h) \<longrightarrow> left_apart sp s3 (ph_spans h3)" by blast
  then have f3: "floating env own sp s3 h3" by (simp add: merged_def)
  show "sure (bindR (merge_next env sp (sp_start s + sp_length s) h3) (\<lambda>h4. PrependToFreeList sp h4))
    (\<lambda>h'. ph_inv env own {} h' \<and> stats_balanced h' \<and> framed h h' \<and>
      (\<not> ph_aggressive_decommit h \<longrightarrow> coalesced {sp} (ph_spans h) \<longrightarrow> coalesced {} (ph_spans h')))"
    unfolding m3(2) [symmetric]
  proof (rule sure_bind [OF merge_next_ok [OF env f3]])
    fix h4 assume "\<exists>s'. merged env own sp s3 h3 s' h4 \<and> sp_start s' = sp_start s3 \<and>
      (\<not> ph_aggressive_decommit h3 \<longrightarrow> coalesced {sp} (ph_spans h3) \<longrightarrow> right_apart sp s' (ph_spans h4))"
    then obtain s4 where m4: "merged env own sp s3 h3 s4 h4" "sp_start s4 = sp_start s3"
      "\<not> ph_aggressive_decommit h3 \<longrightarrow> coalesced {sp} (ph_spans h3) \<longrightarrow> right_apart sp s4 (ph_spans h4)" by blast
    then have f4: "floating env own sp s4 h4" by (simp add: merged_def)
    have fr: "framed h h4" using framed_trans [OF merged_framed [OF m3(1)] merged_framed [OF m4(1)]] .
    have ag: "ph_aggressive_decommit h3 = ph_aggressive_decommit h" using merged_framed [OF m3(1)] by (simp add: framed_def)
    have tidy: "coalesced {sp} (ph_spans h4) \<and> left_apart sp s4 (ph_spans h4) \<and> right_apart sp s4 (ph_spans h4)"
      if "\<not> ph_aggressive_decommit h" "coalesced {sp} (ph_spans h)"
      using that m3(3) m4(3) ag merged_coalesced [OF m3(1) that(2)] merged_coalesced [OF m4(1)] merged_left [OF m4(1) _ m4(2)] by blast
    show "sure (PrependToFreeList sp h4) (\<lambda>h'. ph_inv env own {} h' \<and> stats_balanced h' \<and> framed h h' \<and>
      (\<not> ph_aggressive_decommit h \<longrightarrow> coalesced {sp} (ph_spans h) \<longrightarrow> coalesced {} (ph_spans h')))"
      by (rule sure_mono [OF prepend_floating [OF f4]]) (use tidy framed_trans [OF fr] in blast)
  qed
qed

text \<open>\<open>MergeIntoFreeList\<close> of a span that was just marked free. With aggressive decommit it is decommitted first.\<close>

lemma MergeIntoFreeList_ok:
  assumes env: "mem_os env own" "madvise_ends env" and fl: "floating env own sp s h"
  shows "sure (MergeIntoFreeList env sp h) (\<lambda>h'. ph_inv env own {} h' \<and> stats_balanced h' \<and> framed h h' \<and>
    (\<not> ph_aggressive_decommit h \<longrightarrow> coalesced {sp} (ph_spans h) \<longrightarrow> coalesced {} (ph_spans h')))"
proof (cases "ph_aggressive_decommit h \<and> sp_location s = ON_NORMAL_FREELIST")
  case False
  then show ?thesis using merge_both_ok [OF env fl] floatingD [OF fl] by (auto simp: MergeIntoFreeList_def the_span_def)
next
  case True
  note F = floatingD [OF fl]
  obtain rv h1 where d: "DecommitSpan env sp h = Inr (rv, h1)" "mem_ok env own h1" "same_lists h h1"
    "gap h1 = gap h + (if rv then page_bytes (sp_length s) else 0)"
    using DecommitSpan_ok [OF env F(1,3,4)] by (auto simp: sure_def)
  have fl1: "ph_inv env own {sp} h1" "ph_spans h1 sp = Some s"
    using F(1-4) d(2,3) parts_same_lists [OF d(3)] by (simp_all add: ph_inv_def same_lists_def)
  let ?s2 = "if rv then s\<lparr>sp_location := ON_RETURNED_FREELIST\<rparr> else s"
  let ?h2 = "h1\<lparr>ph_spans := (ph_spans h1)(sp \<mapsto> ?s2)\<rparr>"
  have dm: "dom (ph_spans ?h2) = dom (ph_spans h1)" using fl1(2) by auto
  have pg: "heap_pages (ph_spans ?h2) = heap_pages (ph_spans h1)"
    using heap_pages_upd [of "ph_spans h1" sp s ?s2, OF fl1(2)] by (simp add: page_set_def)
  have "geo (ph_spans ?h2) (ph_pagemap h1)"
    using fl1(1) by (intro geo_cong [OF _ dm]) (use fl1(2) free_class [OF F(1,4,5)] in \<open>auto simp: ph_inv_def class_kept_def split: if_splits\<close>)
  moreover have "parts {sp} ?h2"
    by (rule parts_cong [of _ h1]) (use fl1 F(10) in \<open>auto simp: ph_inv_def split: if_splits\<close>)
  moreover have "mem_ok env own ?h2" using d(2) dm heap_mem_cong [OF pg] by (simp add: mem_ok_def)
  moreover have "gap ?h2 = ret_bytes ?s2" using d(4) F(6) True by (simp add: gap_def ret_bytes_def)
  ultimately have fl2: "floating env own sp ?s2 ?h2" using F(5) by (simp add: floating_def ph_inv_def)
  have fr: "framed h ?h2"
    using d(3) pg live_free [of "ph_spans h1" sp s ?s2, OF fl1(2)] F(5) fl1(2)
    by (auto simp: framed_def same_lists_def normals_def split: if_splits)
  have u: "(if rv then upd_span sp (\<lambda>s. s\<lparr>sp_location := ON_RETURNED_FREELIST\<rparr>) h1 else Inr h1) = Inr ?h2"
    using fl1(2) F(7) by (auto simp: upd_span_ok fun_upd_idem)
  have "MergeIntoFreeList env sp h =
      bindR (merge_prev env sp (sp_start ?s2) ?h2) (\<lambda>h3. bindR (merge_next env sp (sp_start ?s2 + sp_length ?s2) h3) (\<lambda>h4. PrependToFreeList sp h4))"
    using True F(4,5,7) d(1) u by (auto simp: MergeIntoFreeList_def the_span_def)
  then show ?thesis using merge_both_ok [OF env fl2] framed_trans [OF fr] True by (auto elim!: sure_mono)
qed

end
