(* ===== verification/Page_Heap_Delete.thy ===== *)
theory Page_Heap_Delete
  imports Page_Heap_Merge
begin

unbundle bit_operations_syntax

text \<open>
  Returning memory to the system and freeing spans: \<open>ReleaseSpan\<close>, \<open>ReleaseAtLeastNPages\<close>,
  \<open>IncrementalScavenge\<close> and \<open>Delete\<close> keep the invariant, end, and fail no assertion.
\<close>

section \<open>The invariant between operations\<close>

definition heap_ok :: "'k tc_env \<Rightarrow> ('k \<Rightarrow> addr set) \<Rightarrow> 'k page_heap \<Rightarrow> bool" where
  "heap_ok env own h \<longleftrightarrow> ph_inv env own {} h \<and> stats_balanced h \<and> 0 \<le> ph_release_index h \<and> ph_release_index h \<le> kMaxPages + 1 \<and>
     (\<not> ph_aggressive_decommit h \<longrightarrow> coalesced {} (ph_spans h))"

definition kept :: "'k page_heap \<Rightarrow> 'k page_heap \<Rightarrow> bool" where
  "kept h h' \<longleftrightarrow> live (ph_spans h') = live (ph_spans h) \<and> heap_pages (ph_spans h') = heap_pages (ph_spans h) \<and>
     normals (ph_spans h') \<subseteq> normals (ph_spans h) \<and> ph_aggressive_decommit h' = ph_aggressive_decommit h \<and>
     system_bytes (ph_stats_of h') = system_bytes (ph_stats_of h)"

lemma kept_heap_refl: "kept h h"
  by (simp add: kept_def)

lemma kept_heap_trans: "kept h1 h2 \<Longrightarrow> kept h2 h3 \<Longrightarrow> kept h1 h3"
  unfolding kept_def by auto

lemma framed_kept: "framed h h' \<Longrightarrow> kept h h'"
  by (simp add: framed_def kept_def)

lemma heap_ok_index: "heap_ok env own h \<Longrightarrow> 0 \<le> i \<Longrightarrow> i \<le> kMaxPages + 1 \<Longrightarrow> heap_ok env own (h\<lparr>ph_release_index := i\<rparr>)"
  by (auto simp: heap_ok_def ph_inv_def parts_def mem_ok_def stats_balanced_def)

lemma heap_ok_counter [simp]: "heap_ok env own (h\<lparr>ph_scavenge_counter := c\<rparr>) = heap_ok env own h"
  by (simp add: heap_ok_def ph_inv_def parts_def mem_ok_def stats_balanced_def)

lemma heap_ok_scavenge [simp]: "heap_ok env own (h\<lparr>ph_stats_of := (ph_stats_of h)\<lparr>scavenge_count := c\<rparr>\<rparr>) = heap_ok env own h"
  by (simp add: heap_ok_def ph_inv_def parts_def mem_ok_def stats_balanced_def)

lemma heap_okD:
  assumes "heap_ok env own h"
  shows "geo (ph_spans h) (ph_pagemap h)" "parts {} h" "mem_ok env own h" "gap h = 0"
  using assms by (simp_all add: heap_ok_def ph_inv_def balanced_gap)

text \<open>A span whose record changes in other fields than start and length, while it is off the lists.\<close>

lemma coalesced_floating:
  assumes "coalesced {} st" shows "coalesced {sp} (st(sp \<mapsto> s'))"
  using outside_cong(4) [of "{sp}" "st(sp \<mapsto> s')" st] coalesced_insert [OF assms, of sp] by simp

lemma floatingI:
  assumes g: "geo st (ph_pagemap h)" and p: "parts {sp} h" and m: "mem_ok env own h" and st: "ph_spans h = st" "st sp = Some s"
    and s': "sp_start s' = sp_start s" "sp_length s' = sp_length s" "\<not> sp_has_span_iter s'" "sp_location s' \<noteq> IN_USE" and gp: "gap h = ret_bytes s'"
    and sc: "sp_sizeclass s' = 0" "\<not> sp_sample s'"
  shows "floating env own sp s' (h\<lparr>ph_spans := st(sp \<mapsto> s')\<rparr>)"
proof -
  let ?h = "h\<lparr>ph_spans := st(sp \<mapsto> s')\<rparr>"
  have dm: "dom (st(sp \<mapsto> s')) = dom st" using st(2) by auto
  have pg: "heap_pages (st(sp \<mapsto> s')) = heap_pages st"
    using heap_pages_upd [of st sp s s', OF st(2)] s' by (simp add: page_set_def)
  have "geo (st(sp \<mapsto> s')) (ph_pagemap h)"
    by (rule geo_cong [OF g dm]) (use st(2) s' sc in \<open>auto simp: class_kept_def split: if_splits\<close>)
  moreover have "parts {sp} ?h" by (rule parts_cong [OF p]) (use st s' in auto)
  moreover have "mem_ok env own ?h" using m dm heap_mem_cong [OF pg] st(1) by (simp add: mem_ok_def)
  ultimately show ?thesis using s'(4) gp by (simp add: floating_def ph_inv_def gap_def)
qed

section \<open>Releasing one span\<close>

lemma ReleaseSpan_ok:
  assumes env: "mem_os env own" "madvise_ends env" and ok: "heap_ok env own h"
    and sp: "ph_spans h sp = Some s" "sp_location s = ON_NORMAL_FREELIST"
  shows "sure (ReleaseSpan env sp h) (\<lambda>(n, h'). heap_ok env own h' \<and> framed h h' \<and> 0 \<le> n \<and>
    (n \<noteq> 0 \<longrightarrow> sp \<notin> normals (ph_spans h')))"
proof -
  note H = heap_okD [OF ok]
  have s: "sp \<noteq> NULL" "0 < sp_length s" using geo_span [of _ _ sp s, OF H(1) sp(1)] by (simp_all add: span_ok_def)
  obtain rv h1 where d: "DecommitSpan env sp h = Inr (rv, h1)" "mem_ok env own h1" "same_lists h h1"
    "gap h1 = gap h + (if rv then page_bytes (sp_length s) else 0)"
    using DecommitSpan_ok [OF env H(1,3) sp(1)] by (auto simp: sure_def)
  have e: "ph_spans h1 = ph_spans h" "ph_pagemap h1 = ph_pagemap h" using d(3) by (simp_all add: same_lists_def)
  have p1: "parts {} h1" using H(2) parts_same_lists [OF d(3)] by simp
  show ?thesis
  proof (cases rv)
    case False
    then have "heap_ok env own h1"
      using ok d p1 H(4) by (simp add: heap_ok_def ph_inv_def balanced_gap same_lists_def)
    then show ?thesis using False d(1) sp s framed_same_lists [OF d(3)] by (simp add: ReleaseSpan_def the_span_def)
  next
    case True
    let ?s2 = "s\<lparr>sp_has_span_iter := False\<rparr>"
    let ?s3 = "?s2\<lparr>sp_location := ON_RETURNED_FREELIST\<rparr>"
    obtain h2 where h2: "RemoveFromFreeList sp h1 = Inr h2" "parts {sp} h2" "same_rest h1 h2" "ph_spans h2 = (ph_spans h)(sp \<mapsto> ?s2)" "gap h2 = gap h1"
      using Remove_ok [OF p1, of sp s] geo_finite [OF H(1)] sp s by (auto simp: e)
    have pm2: "ph_pagemap h2 = ph_pagemap h" using h2(3) e(2) by (simp add: same_rest_def)
    have sp2: "(ph_spans h2) sp = Some ?s2" by (simp add: h2(4))
    have dm: "dom (ph_spans h2) = dom (ph_spans h)" using sp(1) by (auto simp: h2(4))
    have pg: "heap_pages (ph_spans h2) = heap_pages (ph_spans h)"
      unfolding h2(4) by (rule heap_pages_upd [of "ph_spans h" sp s, OF sp(1)]) (simp add: page_set_def)
    have g2: "geo (ph_spans h2) (ph_pagemap h2)"
      unfolding pm2 by (rule geo_cong [OF H(1) dm]) (use sp(1) in \<open>auto simp: h2(4) class_kept_def split: if_splits\<close>)
    have m2: "mem_ok env own h2" using d(2) h2(3) dm heap_mem_cong [OF pg] by (simp add: mem_ok_def same_rest_def e)
    let ?h3 = "h2\<lparr>ph_spans := (ph_spans h2)(sp \<mapsto> ?s3)\<rparr>"
    have fl: "floating env own sp ?s3 ?h3"
      by (rule floatingI [OF g2 h2(2) m2 refl sp2]) (use h2(5) d(4) H(4) True free_class [OF H(1) sp(1)] sp(2) in \<open>auto simp: ret_bytes_def\<close>)
    have fr: "framed h ?h3"
      using h2(3) d(3) heap_pages_upd [of "ph_spans h2" sp ?s2 ?s3, OF sp2] pg
        live_free [of "ph_spans h" sp s ?s3, OF sp(1)] sp(2)
      by (auto simp: framed_def same_lists_def same_rest_def h2(4) normals_def page_set_def split: if_splits)
    have nn: "sp \<notin> normals (ph_spans ?h3)" by (simp add: normals_def)
    have co: "coalesced {sp} (ph_spans ?h3)" if "\<not> ph_aggressive_decommit h"
      using coalesced_floating [of "ph_spans h" sp ?s3] ok that by (simp add: heap_ok_def h2(4))
    have run: "ReleaseSpan env sp h = bindR (MergeIntoFreeList env sp ?h3) (\<lambda>h4. Inr (sp_length s, h4))"
      using True d(1) sp s h2(1) sp2 by (simp add: ReleaseSpan_def the_span_def upd_span_ok)
    show ?thesis unfolding run
    proof (rule sure_bind [OF MergeIntoFreeList_ok [OF env fl]])
      fix h4 assume a: "ph_inv env own {} h4 \<and> stats_balanced h4 \<and> framed ?h3 h4 \<and>
        (\<not> ph_aggressive_decommit ?h3 \<longrightarrow> coalesced {sp} (ph_spans ?h3) \<longrightarrow> coalesced {} (ph_spans h4))"
      then have f4: "framed h h4" using framed_trans [OF fr] by blast
      moreover have "sp \<notin> normals (ph_spans h4)" using a nn by (auto simp: framed_def)
      moreover have "heap_ok env own h4" using a f4 ok co fr by (auto simp: heap_ok_def framed_def)
      ultimately show "sure (Inr (sp_length s, h4)) (\<lambda>(n, h'). heap_ok env own h' \<and> framed h h' \<and> 0 \<le> n \<and> (n \<noteq> 0 \<longrightarrow> sp \<notin> normals (ph_spans h')))"
        using s(2) by simp
    qed
  qed
qed

section \<open>Releasing at least some pages\<close>

text \<open>The list or set that holds a free span of a given length.\<close>

definition bucket :: "int \<Rightarrow> int" where
  "bucket len = (if len > kMaxPages then kMaxPages else len - 1)"

definition bucket_empty :: "span_store \<Rightarrow> int \<Rightarrow> bool" where
  "bucket_empty st i \<longleftrightarrow> (\<forall>a s. st a = Some s \<longrightarrow> sp_location s = ON_NORMAL_FREELIST \<longrightarrow> bucket (sp_length s) \<noteq> i)"

lemma normals_loc: "normals st = loc_set {} st ON_NORMAL_FREELIST"
  by (simp add: normals_def loc_set_def)

lemma candidate_ok:
  assumes p: "parts {} h" and i: "0 \<le> ph_release_index h" "ph_release_index h \<le> kMaxPages"
  shows "case release_candidate h of None \<Rightarrow> bucket_empty (ph_spans h) (ph_release_index h) | Some sp \<Rightarrow> sp \<in> normals (ph_spans h)"
proof (cases "ph_release_index h = kMaxPages")
  case True
  have xs: "set (ph_large_normal h) = (\<lambda>a. \<lparr>spl_span = a, spl_length = span_len (ph_spans h) a\<rparr>) `
      {a \<in> loc_set {} (ph_spans h) ON_NORMAL_FREELIST. kMaxPages < span_len (ph_spans h) a}"
    using p by (simp add: parts_def large_ok_def)
  show ?thesis
  proof (cases "ph_large_normal h")
    case Nil
    then have "\<not> kMaxPages < span_len (ph_spans h) a" if "a \<in> loc_set {} (ph_spans h) ON_NORMAL_FREELIST" for a using xs that by auto
    then have "bucket_empty (ph_spans h) kMaxPages"
      unfolding bucket_empty_def bucket_def by (force simp: loc_set_def)
    then show ?thesis using True Nil by (simp add: release_candidate_def)
  next
    case (Cons e es)
    then have "e \<in> set (ph_large_normal h)" by simp
    then have "spl_span e \<in> loc_set {} (ph_spans h) ON_NORMAL_FREELIST" unfolding xs by auto
    then show ?thesis using True Cons by (simp add: release_candidate_def normals_loc)
  qed
next
  case False
  then have xs: "set (ph_normal h (ph_release_index h)) = {a \<in> loc_set {} (ph_spans h) ON_NORMAL_FREELIST. span_len (ph_spans h) a = ph_release_index h + 1}"
    using p i by (auto simp: parts_def small_ok_def)
  show ?thesis
  proof (cases "ph_normal h (ph_release_index h) = []")
    case True
    then have "span_len (ph_spans h) a \<noteq> ph_release_index h + 1" if "a \<in> loc_set {} (ph_spans h) ON_NORMAL_FREELIST" for a using xs that by auto
    then have "sp_length s \<noteq> ph_release_index h + 1" if "ph_spans h a = Some s" "sp_location s = ON_NORMAL_FREELIST" for a s
      using that loc_set_mem [of "ph_spans h" a s "{}" ON_NORMAL_FREELIST] by fastforce
    then have "bucket_empty (ph_spans h) (ph_release_index h)"
      unfolding bucket_empty_def bucket_def using False by (metis diff_add_cancel)
    then show ?thesis using True False by (simp add: release_candidate_def)
  next
    case ne: False
    then have "last (ph_normal h (ph_release_index h)) \<in> set (ph_normal h (ph_release_index h))" by simp
    then show ?thesis using False ne unfolding xs by (simp add: release_candidate_def normals_loc)
  qed
qed

text \<open>The index the next step of the round looks at.\<close>

definition next_index :: "'k page_heap \<Rightarrow> int" where
  "next_index h = (if ph_release_index h > kMaxPages then 0 else ph_release_index h)"

definition round_ok ::
  "'k tc_env \<Rightarrow> ('k \<Rightarrow> addr set) \<Rightarrow> nat \<Rightarrow> int \<Rightarrow> int \<Rightarrow> 'k page_heap \<Rightarrow> bool \<times> int \<times> 'k page_heap \<Rightarrow> bool" where
  "round_ok env own i N rel h = (\<lambda>(stop, rel', h'). heap_ok env own h' \<and> kept h h' \<and> rel \<le> rel' \<and>
     (rel < rel' \<longrightarrow> normals (ph_spans h') \<noteq> normals (ph_spans h)) \<and>
     (rel < N \<and> \<not> stop \<and> rel' = rel \<longrightarrow> (\<forall>j<i. bucket_empty (ph_spans h) ((next_index h + int j) mod (kMaxPages + 1)))))"

lemma release_round_ok:
  assumes env: "mem_os env own" "madvise_ends env"
  shows "heap_ok env own h \<Longrightarrow> sure (release_round env i N rel h) (round_ok env own i N rel h)"
proof (induction i arbitrary: rel h)
  case 0
  then show ?case by (simp add: round_ok_def kept_heap_refl)
next
  case (Suc i)
  show ?case
  proof (cases "rel < N")
    case False
    then show ?thesis using Suc.prems by (simp add: round_ok_def kept_heap_refl)
  next
    case lt: True
    let ?h1 = "h\<lparr>ph_release_index := next_index h\<rparr>"
    have h1: "(if ph_release_index h > kMaxPages then h\<lparr>ph_release_index := 0\<rparr> else h) = ?h1" by (simp add: next_index_def)
    have ix: "0 \<le> next_index h" "next_index h \<le> kMaxPages" using Suc.prems by (auto simp: heap_ok_def next_index_def kMaxPages_def)
    have ok1: "heap_ok env own ?h1" by (rule heap_ok_index [OF Suc.prems]) (use ix in simp_all)
    note cand = candidate_ok [OF heap_okD(2) [OF ok1]]
    show ?thesis
    proof (cases "release_candidate ?h1")
      case None
      let ?h2 = "?h1\<lparr>ph_release_index := next_index h + 1\<rparr>"
      have be: "bucket_empty (ph_spans h) (next_index h)" using cand ix None by simp
      have "heap_ok env own ?h2" by (rule heap_ok_index [OF ok1]) (use ix in simp_all)
      from Suc.IH [OF this, of rel] have "sure (release_round env i N rel ?h2) (round_ok env own (Suc i) N rel h)"
      proof (rule sure_mono)
        fix r assume r: "round_ok env own i N rel ?h2 r"
        have ni: "(next_index ?h2 + int j) mod (kMaxPages + 1) = (next_index h + int (Suc j)) mod (kMaxPages + 1)" for j
          using ix by (cases "next_index h = kMaxPages") (simp_all add: next_index_def kMaxPages_def algebra_simps)
        have "bucket_empty (ph_spans h) ((next_index h + int j) mod (kMaxPages + 1))"
          if "\<forall>j<i. bucket_empty (ph_spans h) ((next_index ?h2 + int j) mod (kMaxPages + 1))" "j < Suc i" for j
        proof (cases j)
          case 0
          have "next_index h mod (kMaxPages + 1) = next_index h" using ix by simp
          then show ?thesis using 0 be by simp
        next
          case (Suc k)
          have "bucket_empty (ph_spans h) ((next_index ?h2 + int k) mod (kMaxPages + 1))" using that Suc by blast
          then show ?thesis unfolding ni Suc .
        qed
        then show "round_ok env own (Suc i) N rel h r" using r unfolding round_ok_def by (auto simp: kept_def)
      qed
      then show ?thesis using lt None h1 by (simp add: Let_def)
    next
      case (Some sp)
      then obtain s where s: "ph_spans ?h1 sp = Some s" "sp_location s = ON_NORMAL_FREELIST"
        using cand ix by (auto simp: normals_def)
      have run: "release_round env (Suc i) N rel h = bindR (ReleaseSpan env sp ?h1) (\<lambda>(n, h2).
          if n = 0 then Inr (True, rel, h2) else release_round env i N (rel + n) (h2\<lparr>ph_release_index := ph_release_index h2 + 1\<rparr>))"
        using lt Some h1 by (simp add: Let_def)
      show ?thesis unfolding run
      proof (rule sure_bind [OF ReleaseSpan_ok [OF env ok1 s]], clarify)
        fix n :: int and h2 assume r: "heap_ok env own h2" "framed ?h1 h2" "0 \<le> n" "n \<noteq> 0 \<longrightarrow> sp \<notin> normals (ph_spans h2)"
        have k2: "kept h h2" using framed_kept [OF r(2)] by (simp add: kept_def)
        show "sure (if n = 0 then Inr (True, rel, h2) else release_round env i N (rel + n) (h2\<lparr>ph_release_index := ph_release_index h2 + 1\<rparr>))
          (round_ok env own (Suc i) N rel h)"
        proof (cases "n = 0")
          case True
          then show ?thesis using r(1) k2 by (simp add: round_ok_def)
        next
          case False
          let ?h3 = "h2\<lparr>ph_release_index := ph_release_index h2 + 1\<rparr>"
          have ok3: "heap_ok env own ?h3" by (rule heap_ok_index [OF r(1)]) (use r(2) ix in \<open>simp_all add: framed_def\<close>)
          have k3: "kept h ?h3" using k2 by (simp add: kept_def)
          have "sp \<in> normals (ph_spans h)" "sp \<notin> normals (ph_spans ?h3)" using s r(4) False by (auto simp: normals_def)
          then show ?thesis using False r(3) kept_heap_trans [OF k3]
            by (auto intro!: sure_mono [OF Suc.IH [OF ok3, of "rel + n"]] simp: round_ok_def) (auto simp: kept_def)
        qed
      qed
    qed
  qed
qed

text \<open>The loop ends because every round that does not end it releases a span.\<close>

lemma all_buckets_empty:
  assumes e: "\<forall>j<nat (kMaxPages + 1). bucket_empty st ((k + int j) mod (kMaxPages + 1))" and g: "geo st m"
  shows "normals st = {}"
proof (rule ccontr)
  assume "normals st \<noteq> {}"
  then obtain a s where s: "st a = Some s" "sp_location s = ON_NORMAL_FREELIST" by (auto simp: normals_def)
  let ?b = "bucket (sp_length s)" and ?K = "kMaxPages + 1"
  have b: "0 \<le> ?b" "?b < ?K" using geo_span [of st m a s, OF g s(1)] by (auto simp: bucket_def span_ok_def kMaxPages_def)
  let ?j = "nat ((?b - k) mod ?K)"
  have K: "0 < ?K" by (simp add: kMaxPages_def)
  have "(k + int ?j) mod ?K = (k + (?b - k) mod ?K) mod ?K" using K by simp
  also have "\<dots> = ?b" using b by (simp add: mod_simps)
  finally have "bucket_empty st ?b" using e K by (metis nat_less_eq_zless pos_mod_bound pos_mod_sign)
  then show False using s by (auto simp: bucket_empty_def)
qed

lemma release_loop_ok:
  assumes env: "mem_os env own" "madvise_ends env"
  shows "heap_ok env own h \<Longrightarrow> \<exists>n h'. release_loop env N rel h = Some (Inr (n, h')) \<and> heap_ok env own h' \<and> kept h h' \<and> rel \<le> n"
proof (induction "card (normals (ph_spans h))" arbitrary: rel h rule: less_induct)
  case less
  show ?case
  proof (cases "rel < N \<and> free_bytes (ph_stats_of h) > 0")
    case False
    then show ?thesis using less.prems kept_heap_refl [of h] by (subst release_loop.simps) auto
  next
    case True
    note H = heap_okD [OF less.prems]
    obtain stop rel' h' where r: "release_round env (nat (kMaxPages + 1)) N rel h = Inr (stop, rel', h')"
      and q: "round_ok env own (nat (kMaxPages + 1)) N rel h (stop, rel', h')"
      using release_round_ok [OF env less.prems, of "nat (kMaxPages + 1)" N rel] by (auto simp: sure_def)
    have q': "heap_ok env own h'" "kept h h'" "rel \<le> rel'" using q by (simp_all add: round_ok_def)
    have step: "release_loop env N rel h = (if stop then Some (Inr (rel', h')) else release_loop env N rel' h')"
      using True by (subst release_loop.simps) (simp add: r)
    show ?thesis
    proof (cases stop)
      case True
      then show ?thesis using step q' by simp
    next
      case False
      have "normals (ph_spans h) \<noteq> {}"
        using True H(2) by (auto simp: parts_def loc_bytes_def normals_loc)
      then have "rel' \<noteq> rel" using all_buckets_empty [OF _ H(1)] q True False by (auto simp: round_ok_def)
      then have "normals (ph_spans h') \<subset> normals (ph_spans h)" using q by (auto simp: round_ok_def kept_def)
      moreover have "finite (normals (ph_spans h))"
        by (rule finite_subset [OF _ geo_finite [OF H(1)]]) (auto simp: normals_def)
      ultimately have "card (normals (ph_spans h')) < card (normals (ph_spans h))" by (rule psubset_card_mono [rotated])
      from less.hyps [OF this q'(1), of rel'] obtain n h2 where
        "release_loop env N rel' h' = Some (Inr (n, h2))" "heap_ok env own h2" "kept h' h2" "rel' \<le> n" by blast
      then show ?thesis using step False q' kept_heap_trans [OF q'(2)] by fastforce
    qed
  qed
qed

lemma ReleaseAtLeastNPages_ok:
  assumes "mem_os env own" "madvise_ends env" "heap_ok env own h"
  shows "sure (ReleaseAtLeastNPages env N h) (\<lambda>(n, h'). heap_ok env own h' \<and> kept h h' \<and> 0 \<le> n)"
  using release_loop_ok [OF assms, of N 0] by (auto simp: ReleaseAtLeastNPages_def)

lemma IncrementalScavenge_ok:
  assumes "mem_os env own" "madvise_ends env" "heap_ok env own h"
  shows "sure (IncrementalScavenge env n h) (\<lambda>h'. heap_ok env own h' \<and> kept h h')"
proof -
  let ?h1 = "h\<lparr>ph_scavenge_counter := ph_scavenge_counter h - n\<rparr>"
  let ?h2 = "upd_stats (\<lambda>t. t\<lparr>scavenge_count := scavenge_count t + 1\<rparr>) ?h1"
  have "heap_ok env own ?h2" using heap_ok_scavenge [where h = ?h1] assms(3) by simp
  moreover have "kept h ?h2" "kept h ?h1" by (simp_all add: kept_def)
  ultimately show ?thesis using assms(3)
    by (auto simp: IncrementalScavenge_def Let_def kept_def intro!: sure_bind [OF ReleaseAtLeastNPages_ok [OF assms(1,2)]])
qed

section \<open>Delete\<close>

lemma Delete_ok:
  assumes env: "mem_os env own" "madvise_ends env" and ok: "heap_ok env own h"
    and sp: "ph_spans h sp = Some s" "sp_location s = IN_USE"
  shows "sure (Delete env sp h) (\<lambda>h'. heap_ok env own h' \<and> live (ph_spans h') = (live (ph_spans h))(sp := None) \<and>
    heap_pages (ph_spans h') = heap_pages (ph_spans h) \<and> ph_aggressive_decommit h' = ph_aggressive_decommit h \<and>
    system_bytes (ph_stats_of h') = system_bytes (ph_stats_of h))"
proof -
  note H = heap_okD [OF ok]
  have s: "sp \<noteq> NULL" "0 < sp_length s" "0 < sp_start s" "lkp (ph_pagemap h) (sp_start s) = sp"
    "lkp (ph_pagemap h) (sp_start s + sp_length s - 1) = sp"
    using geo_span [of _ _ sp s, OF H(1) sp(1)] by (simp_all add: span_ok_def)
  let ?s' = "s\<lparr>sp_sizeclass := 0, sp_sample := False, sp_location := ON_NORMAL_FREELIST\<rparr>"
  let ?h1 = "h\<lparr>ph_spans := (ph_spans h)(sp \<mapsto> ?s')\<rparr>"
  have p: "parts {sp} h" using parts_inuse [of h sp "{}"] H(2) sp by simp
  have "\<not> sp_has_span_iter s" using parts_iter [OF p _ sp(1)] by simp
  then have fl: "floating env own sp ?s' ?h1"
    by (intro floatingI [OF H(1) p H(3) refl sp(1)]) (use H(4) in \<open>auto simp: ret_bytes_def\<close>)
  have lv: "live (ph_spans ?h1) = (live (ph_spans h))(sp := None)" by (auto simp: live_def)
  have pg: "heap_pages (ph_spans ?h1) = heap_pages (ph_spans h)"
    using heap_pages_upd [of "ph_spans h" sp s ?s', OF sp(1)] by (simp add: page_set_def)
  have co: "\<not> ph_aggressive_decommit h \<Longrightarrow> coalesced {sp} (ph_spans ?h1)"
    using coalesced_floating [of "ph_spans h" sp ?s'] ok by (simp add: heap_ok_def)
  have gd: "GetDescriptor h (sp_start s) = Inr sp" "GetDescriptor h (sp_start s + sp_length s - 1) = Inr sp"
    using GetDescriptor_ok [of _ h] s by simp_all
  have run: "Delete env sp h = bindR (MergeIntoFreeList env sp ?h1) (\<lambda>h2. bindR (IncrementalScavenge env (sp_length s) h2) (\<lambda>h3.
      check (stats_balanced h3) (Inr h3)))"
    using sp s(1,2) gd by (simp add: Delete_def the_span_def upd_span_ok)
  show ?thesis unfolding run
  proof (rule sure_bind [OF MergeIntoFreeList_ok [OF env fl]])
    fix h2 assume a: "ph_inv env own {} h2 \<and> stats_balanced h2 \<and> framed ?h1 h2 \<and>
      (\<not> ph_aggressive_decommit ?h1 \<longrightarrow> coalesced {sp} (ph_spans ?h1) \<longrightarrow> coalesced {} (ph_spans h2))"
    then have f2: "framed ?h1 h2" by blast
    have ok2: "heap_ok env own h2" using a ok co by (simp add: heap_ok_def framed_def)
    show "sure (bindR (IncrementalScavenge env (sp_length s) h2) (\<lambda>h3. check (stats_balanced h3) (Inr h3)))
      (\<lambda>h'. heap_ok env own h' \<and> live (ph_spans h') = (live (ph_spans h))(sp := None) \<and>
        heap_pages (ph_spans h') = heap_pages (ph_spans h) \<and> ph_aggressive_decommit h' = ph_aggressive_decommit h \<and>
        system_bytes (ph_stats_of h') = system_bytes (ph_stats_of h))"
    proof (rule sure_bind [OF IncrementalScavenge_ok [OF env ok2]])
      fix h3 assume h3: "heap_ok env own h3 \<and> kept h2 h3"
      then have "stats_balanced h3" "kept ?h1 h3" using kept_heap_trans [OF framed_kept [OF f2]] by (auto simp: heap_ok_def)
      then show "sure (check (stats_balanced h3) (Inr h3)) (\<lambda>h'. heap_ok env own h' \<and> live (ph_spans h') = (live (ph_spans h))(sp := None) \<and>
        heap_pages (ph_spans h') = heap_pages (ph_spans h) \<and> ph_aggressive_decommit h' = ph_aggressive_decommit h \<and>
        system_bytes (ph_stats_of h') = system_bytes (ph_stats_of h))"
        using h3 lv pg by (simp add: kept_def)
    qed
  qed
qed

end
