(* ===== verification/Page_Heap_Alloc.thy ===== *)
theory Page_Heap_Alloc
  imports Page_Heap_Delete
begin

unbundle bit_operations_syntax

text \<open>
  Allocation: \<open>Carve\<close>, \<open>Split\<close>, the searches, \<open>GrowHeap\<close> and \<open>New\<close> keep the invariant, end, fail no
  assertion, and hand out exactly the pages asked for.
\<close>

section \<open>Cutting a span in two\<close>

lemma geo_split:
  assumes g: "geo st m" and s: "st a = Some s" and lo: "lo \<notin> dom st" "lo \<noteq> NULL" and n: "0 < n" "n < sp_length s"
    and s': "sp_start s' = sp_start s" "sp_length s' = n" and l: "sp_start l = sp_start s + n" "sp_length l = sp_length s - n"
    and sc: "sp_sizeclass s' = 0" "sp_sizeclass l = 0" and sm: "sp_sample s' \<longrightarrow> sp_location s' = IN_USE" "\<not> sp_sample l"
    and m': "lkp m' = (lkp m)(sp_start s + n := lo, sp_start s + sp_length s - 1 := lo, sp_start s + n - 1 := a)" "ens m' = ens m"
  shows "geo (st(lo \<mapsto> l, a \<mapsto> s')) m'" "heap_pages (st(lo \<mapsto> l, a \<mapsto> s')) = heap_pages st"
proof -
  let ?st = "st(lo \<mapsto> l, a \<mapsto> s')"
  have al: "a \<noteq> lo" using s lo by auto
  have os: "span_ok m a s" using geo_span [of st m a s, OF g s] .
  then have f: "a \<noteq> NULL" "0 < sp_start s" "sp_start s + sp_length s \<le> 2 ^ 34" "lkp m (sp_start s) = a"
    and es: "\<forall>k. sp_start s - 1 \<le> k \<and> k \<le> sp_start s + sp_length s \<longrightarrow> ens m k"
    unfolding span_ok_def by blast+
  have ps: "page_set s = page_set s' \<union> page_set l" "page_set s' \<inter> page_set l = {}" using s' l n by (auto simp: page_set_def)
  have old: "st c = Some u" if "?st c = Some u" "c \<noteq> a" "c \<noteq> lo" for c u using that by (auto split: if_splits)
  have dis: "page_set u \<inter> page_set s = {}" if "?st c = Some u" "c \<noteq> a" "c \<noteq> lo" for c u
    using geo_disjoint [of st m c u a s, OF g old [OF that] s that(2)] .
  have ens': "ens m' k" if "sp_start s - 1 \<le> k" "k \<le> sp_start s + sp_length s" for k using es that unfolding m'(2) by blast
  have oa: "span_ok m' a s'" unfolding span_ok_def s'
    using f n ens' sc sm by (auto simp: m'(1))
  have ol: "span_ok m' lo l" unfolding span_ok_def l
    using f n lo(2) ens' sc sm by (auto simp: m'(1))
  have oc: "span_ok m' c u" if c: "?st c = Some u" "c \<noteq> a" "c \<noteq> lo" for c u
  proof -
    have "sp_start s + n \<in> page_set s" "sp_start s + sp_length s - 1 \<in> page_set s" "sp_start s + n - 1 \<in> page_set s"
      using n by (auto simp: page_set_def)
    then have "lkp m' k = lkp m k" if "k \<in> page_set u" for k
      using dis [OF c] disjoint_iff [of "page_set u" "page_set s"] that unfolding m'(1) by (metis fun_upd_other)
    then show ?thesis by (rule span_ok_frame [OF geo_span [of st m c u, OF g old [OF c]] _ m'(2)])
  qed
  have sok: "span_ok m' c u" if c: "?st c = Some u" for c u
  proof -
    consider "c = a" | "c = lo" | "c \<noteq> a" "c \<noteq> lo" by blast
    then show ?thesis
    proof cases
      case 1 then show ?thesis using c oa by simp
    next
      case 2 then show ?thesis using c ol al by simp
    qed (rule oc [OF c])
  qed
  have sub: "page_set u \<subseteq> page_set s" if c: "?st c = Some u" "c = a \<or> c = lo" for c u
  proof -
    have "u = s' \<or> u = l" using c al by (auto split: if_splits)
    then show ?thesis unfolding ps(1) by blast
  qed
  have dj: "page_set u \<inter> page_set v = {}" if uv: "?st c = Some u" "?st d = Some v" and cd: "c \<noteq> d" for c d u v
  proof -
    consider "c = a \<or> c = lo" "d = a \<or> d = lo" | "c = a \<or> c = lo" "d \<noteq> a" "d \<noteq> lo" | "c \<noteq> a" "c \<noteq> lo" "d = a \<or> d = lo"
      | "c \<noteq> a" "c \<noteq> lo" "d \<noteq> a" "d \<noteq> lo" by blast
    then show ?thesis
    proof cases
      case 1
      then have "u = s' \<and> v = l \<or> u = l \<and> v = s'" using uv cd al by (auto split: if_splits)
      then show ?thesis using ps(2) by blast
    next
      case 2 then show ?thesis using sub [OF uv(1)] dis [OF uv(2)] by blast
    next
      case 3 then show ?thesis using sub [OF uv(2)] dis [OF uv(1)] by blast
    next
      case 4 then show ?thesis using geo_disjoint [of st m c u d v, OF g old [OF uv(1)] old [OF uv(2)] cd] by blast
    qed
  qed
  show hp: "heap_pages ?st = heap_pages st"
  proof (intro equalityI subsetI)
    fix x assume "x \<in> heap_pages ?st"
    then obtain c u where c: "?st c = Some u" "x \<in> page_set u" by (auto simp: heap_pages_def)
    then have "x \<in> page_set s \<or> st c = Some u" using sub [OF c(1)] old [OF c(1)] by blast
    then show "x \<in> heap_pages st" using s c(2) unfolding heap_pages_def by blast
  next
    fix x assume "x \<in> heap_pages st"
    then obtain c u where c: "st c = Some u" "x \<in> page_set u" by (auto simp: heap_pages_def)
    have "c \<noteq> lo" using c(1) lo(1) by auto
    then have "c = a \<and> (x \<in> page_set s' \<or> x \<in> page_set l) \<or> ?st c = Some u" using c s ps(1) by (cases "c = a") auto
    moreover have "?st a = Some s'" "?st lo = Some l" using al by simp_all
    ultimately show "x \<in> heap_pages ?st" using c(2) unfolding heap_pages_def by blast
  qed
  have own: "\<exists>c u. ?st c = Some u \<and> j \<in> page_set u" if j: "lkp m' j \<noteq> NULL" for j
  proof -
    have "j \<in> heap_pages st"
    proof (cases "lkp m j = NULL")
      case True
      then have "j = sp_start s + n \<or> j = sp_start s + sp_length s - 1 \<or> j = sp_start s + n - 1" using j m'(1) by (auto split: if_splits)
      then have "j \<in> page_set s" using n by (auto simp: page_set_def)
      then show ?thesis using s unfolding heap_pages_def by blast
    next
      case False then show ?thesis using geo_owner [OF g, of j] by (auto simp: heap_pages_def)
    qed
    then show ?thesis unfolding hp [symmetric] by (auto simp: heap_pages_def)
  qed
  show "geo ?st m'" unfolding geo_def using geo_finite [OF g] sok dj own by (intro conjI allI impI) auto
qed

section \<open>New spans\<close>

lemma new_span_ok:
  assumes os: "mem_os env own" and inv: "pha_inv sizeof_Span env own Z (dom (ph_spans h)) (ph_span_allocator h) (ph_words h) (ph_world h)"
  shows "unless_oom (new_span env p len h) (\<lambda>(lo, h'). ph_spans h lo = None \<and> lo \<noteq> NULL \<and>
    (\<exists>al ws w. h' = h\<lparr>ph_span_allocator := al, ph_words := ws, ph_world := w, ph_spans := (ph_spans h)(lo \<mapsto> span_of p len)\<rparr> \<and>
      pha_inv sizeof_Span env own Z (insert lo (dom (ph_spans h))) al ws w))"
proof -
  have "0 < sizeof_Span" "sizeof_Span \<le> kAllocIncrement" by (simp_all add: sizeof_Span_def kAllocIncrement_def)
  from pha_new_ok [OF os inv this] show ?thesis
    by (auto simp: new_span_def NewSpan_def simp del: split_paired_Ex)
qed

lemma RecordSpan_ok:
  assumes l: "ph_spans h lo = Some l" "lo \<noteq> NULL" "0 < sp_length l"
    and e: "ens (ph_pagemap h) (sp_start l)" "ens (ph_pagemap h) (sp_start l + sp_length l - 1)"
  shows "sure (RecordSpan lo h) (\<lambda>h'. \<exists>m'. h' = h\<lparr>ph_pagemap := m'\<rparr> \<and>
    lkp m' = (lkp (ph_pagemap h))(sp_start l := lo, sp_start l + sp_length l - 1 := lo) \<and> ens m' = ens (ph_pagemap h))"
proof -
  obtain m1 where m1: "pagemap_set (sp_start l) lo h = Inr (h\<lparr>ph_pagemap := m1\<rparr>)" "lkp m1 = (lkp (ph_pagemap h))(sp_start l := lo)"
    "ens m1 = ens (ph_pagemap h)" using pagemap_set_ok [OF e(1), of lo] by (auto simp: sure_def)
  show ?thesis
  proof (cases "sp_length l > 1")
    case True
    have "ens (ph_pagemap (h\<lparr>ph_pagemap := m1\<rparr>)) (sp_start l + sp_length l - 1)" using e(2) m1(3) by simp
    from pagemap_set_ok [OF this, of lo] show ?thesis using True l m1 by (auto simp: RecordSpan_def the_span_def sure_def)
  next
    case False
    then have "sp_start l + sp_length l - 1 = sp_start l" using l(3) by simp
    then have "lkp m1 = (lkp (ph_pagemap h))(sp_start l := lo, sp_start l + sp_length l - 1 := lo)" using m1(2) by simp
    then show ?thesis using False l m1(1,3) unfolding RecordSpan_def the_span_def by (simp del: fun_upd_apply) blast
  qed
qed

section \<open>Carving\<close>

text \<open>Less than 16 TB are ever owned, so a length fits the \<open>int\<close> that \<open>Carve\<close> and \<open>Split\<close> use for the leftover.\<close>

definition mem_cap :: "('k \<Rightarrow> addr set) \<Rightarrow> bool" where
  "mem_cap own \<longleftrightarrow> (\<forall>k. finite (own k) \<and> card (own k) < 2 ^ 44)"

lemma heap_mem_owned: "mem_ok env own h \<Longrightarrow> heap_mem (ph_spans h) \<subseteq> own (w_os (ph_world h))"
  by (auto simp: mem_ok_def pha_inv_def meta_ok_def)

lemma span_small:
  assumes cap: "mem_cap own" and g: "geo (ph_spans h) (ph_pagemap h)" and m: "mem_ok env own h" and s: "ph_spans h sp = Some s"
  shows "sp_length s < 2 ^ 31"
proof -
  have l: "0 < sp_length s" using geo_span [of _ _ sp s, OF g s] by (simp add: span_ok_def)
  let ?B = "{sp_start s * kPageSize..<(sp_start s + sp_length s) * kPageSize}"
  have ps: "kPageSize = 8192" by (simp add: kPageSize_def kPageShift_def)
  have "?B \<subseteq> heap_mem (ph_spans h)"
  proof
    fix x assume x: "x \<in> ?B"
    have "x div 8192 \<in> page_set s" using x unfolding page_set_def ps by auto
    then show "x \<in> heap_mem (ph_spans h)" using s unfolding heap_mem_def heap_pages_def ps by blast
  qed
  then have "?B \<subseteq> own (w_os (ph_world h))" using heap_mem_owned [OF m] by blast
  then have "card ?B \<le> card (own (w_os (ph_world h)))" using cap by (intro card_mono) (auto simp: mem_cap_def)
  also have "\<dots> < 2 ^ 44" using cap by (simp add: mem_cap_def)
  finally have "card ?B < 2 ^ 44" .
  then have "nat (sp_length s * 8192) < 2 ^ 44" unfolding ps by (simp add: algebra_simps)
  then show ?thesis using l by (simp add: nat_less_iff)
qed

lemma to_int32_id: "- (2 ^ 31) \<le> x \<Longrightarrow> x < 2 ^ 31 \<Longrightarrow> to_int32 x = x"
  by (simp add: to_int32_def)

text \<open>\<open>Carve\<close> in three parts: take the span off its list, cut off what is left over, commit.\<close>

definition cut_off :: "'k tc_env \<Rightarrow> addr \<Rightarrow> int \<Rightarrow> span_location \<Rightarrow> int \<Rightarrow> int \<Rightarrow> 'k page_heap \<Rightarrow> 'k page_heap result" where
  "cut_off env sp n loc start extra h2 =
     bindR (new_span env (start + n) extra h2) (\<lambda>(leftover, h3).
     bindR (upd_span leftover (\<lambda>l. l\<lparr>sp_location := loc\<rparr>) h3) (\<lambda>h4.
     bindR (RecordSpan leftover h4) (\<lambda>h5.
     bindR (leftover_apart leftover h5) (\<lambda>ok. check ok
     (bindR (PrependToFreeList leftover h5) (\<lambda>h6.
      bindR (upd_span sp (\<lambda>s. s\<lparr>sp_length := n\<rparr>) h6) (\<lambda>h7. pagemap_set (start + n - 1) sp h7)))))))"

lemma Carve_parts:
  "Carve env sp n h =
     check (n > 0) (bindR (the_span h sp) (\<lambda>s. check (sp_location s \<noteq> IN_USE)
     (bindR (RemoveFromFreeList sp h) (\<lambda>h1. bindR (upd_span sp (\<lambda>s. s\<lparr>sp_location := IN_USE\<rparr>) h1) (\<lambda>h2.
      check (to_int32 (sp_length s - n) \<ge> 0)
      (bindR (if to_int32 (sp_length s - n) > 0 then cut_off env sp n (sp_location s) (sp_start s) (to_int32 (sp_length s - n)) h2 else Inr h2) (\<lambda>h8.
       bindR (if sp_location s = ON_RETURNED_FREELIST then CommitSpan sp h8 else Inr h8) (\<lambda>h9.
       bindR (the_span h9 sp) (\<lambda>s'. check (sp_location s' = IN_USE) (check (sp_length s' = n)
       (check (stats_balanced h9) (Inr (sp, h9)))))))))))))"
  unfolding Carve_def cut_off_def Let_def by (rule refl)

lemma take_ok:
  assumes ok: "heap_ok env own h" and sp: "ph_spans h sp = Some s" "sp_location s \<noteq> IN_USE"
  shows "\<exists>h1 h2. RemoveFromFreeList sp h = Inr h1 \<and> upd_span sp (\<lambda>s. s\<lparr>sp_location := IN_USE\<rparr>) h1 = Inr h2 \<and>
    ph_spans h2 = (ph_spans h)(sp \<mapsto> s\<lparr>sp_has_span_iter := False, sp_location := IN_USE\<rparr>) \<and>
    geo (ph_spans h2) (ph_pagemap h2) \<and> parts {} h2 \<and> mem_ok env own h2 \<and> gap h2 = ret_bytes s \<and>
    heap_pages (ph_spans h2) = heap_pages (ph_spans h) \<and> same_rest h h2"
proof -
  note H = heap_okD [OF ok]
  have s: "sp \<noteq> NULL" "0 < sp_length s" using geo_span [of _ _ sp s, OF H(1) sp(1)] by (simp_all add: span_ok_def)
  let ?s' = "s\<lparr>sp_has_span_iter := False, sp_location := IN_USE\<rparr>"
  obtain h1 where h1: "RemoveFromFreeList sp h = Inr h1" "parts {sp} h1" "same_rest h h1"
    "ph_spans h1 = (ph_spans h)(sp \<mapsto> s\<lparr>sp_has_span_iter := False\<rparr>)" "gap h1 = gap h + ret_bytes s"
    using Remove_ok [OF H(2) geo_finite [OF H(1)] sp(1) s(1) _ sp(2) s(2)] by (auto simp: ret_bytes_def)
  let ?h2 = "h1\<lparr>ph_spans := (ph_spans h)(sp \<mapsto> ?s')\<rparr>"
  have u: "upd_span sp (\<lambda>s. s\<lparr>sp_location := IN_USE\<rparr>) h1 = Inr ?h2" using s(1) by (simp add: upd_span_ok h1(4))
  have dm: "dom (ph_spans ?h2) = dom (ph_spans h)" using sp(1) by auto
  have pg: "heap_pages (ph_spans ?h2) = heap_pages (ph_spans h)"
    using heap_pages_upd [of "ph_spans h" sp s ?s', OF sp(1)] by (simp add: page_set_def)
  have "geo (ph_spans ?h2) (ph_pagemap h)"
    by (rule geo_cong [OF H(1) dm]) (use sp(1) in \<open>auto simp: class_kept_def split: if_splits\<close>)
  moreover have "parts {sp} ?h2" by (rule parts_cong [OF h1(2)]) (auto simp: h1(4))
  then have "parts {} ?h2" using parts_inuse [of ?h2 sp "{}"] by simp
  moreover have "mem_ok env own ?h2" using H(3) h1(3) dm heap_mem_cong [OF pg] by (simp add: mem_ok_def same_rest_def)
  moreover have "gap ?h2 = gap h1" by (simp add: gap_def)
  ultimately show ?thesis using h1(1,3,5) H(4) u pg by (simp add: same_rest_def)
qed

lemma commit_ok:
  assumes "ph_spans h sp = Some s" "sp \<noteq> NULL"
  shows "\<exists>h'. CommitSpan sp h = Inr h' \<and> gap h' = gap h - page_bytes (sp_length s) \<and> same_lists h h' \<and>
    ph_world h' = ph_world h \<and> ph_span_allocator h' = ph_span_allocator h \<and> ph_words h' = ph_words h"
  using assms by (simp add: CommitSpan_def the_span_def Let_def gap_def same_lists_def TCMalloc_SystemCommit_def)

text \<open>The right neighbour of the span that is cut is not of the kind \<open>loc\<close>.\<close>

definition right_free :: "span_store \<Rightarrow> span \<Rightarrow> span_location \<Rightarrow> bool" where
  "right_free st s loc \<longleftrightarrow> (\<forall>b t. st b = Some t \<longrightarrow> sp_start t = sp_start s + sp_length s \<longrightarrow> sp_location t \<noteq> loc)"

lemma leftover_apart_ok:
  assumes g: "geo st m" and s: "st sp = Some s" and lo: "lo \<notin> dom st" "lo \<noteq> NULL"
    and h: "ph_spans h = st(lo \<mapsto> l)" "lkp (ph_pagemap h) (sp_start s + sp_length s) = lkp m (sp_start s + sp_length s)"
    and l: "sp_start l + sp_length l = sp_start s + sp_length s" and rf: "right_free st s (sp_location l)"
  shows "leftover_apart lo h = Inr True"
proof -
  let ?e = "sp_start s + sp_length s"
  have "0 \<le> ?e" using geo_span [of st m sp s, OF g s] by (simp add: span_ok_def)
  then have gd: "GetDescriptor h ?e = Inr (lkp m ?e)" using GetDescriptor_ok [of ?e h] h(2) by simp
  have tl: "the_span h lo = Inr l" using lo h(1) by (simp add: the_span_def)
  from geo_next [of st m sp s, OF g s] show ?thesis
  proof (elim disjE exE conjE)
    fix t assume t: "st (lkp m ?e) = Some t" "lkp m ?e \<noteq> sp" "sp_start t = ?e"
    then have "lkp m ?e \<noteq> lo" "lkp m ?e \<noteq> NULL"
      using lo(1) geo_span [of st m "lkp m ?e" t, OF g t(1)] by (auto simp: span_ok_def)
    moreover have "sp_location t \<noteq> sp_location l" using rf t(1,3) unfolding right_free_def by blast
    ultimately show ?thesis using t(1) tl gd l h(1) by (simp add: leftover_apart_def the_span_def)
  qed (use tl gd l in \<open>simp add: leftover_apart_def\<close>)
qed

text \<open>What \<open>cut_off\<close> does: the span keeps its first \<open>n\<close> pages, a new free span has the others.\<close>

definition cut_result :: "'k tc_env \<Rightarrow> ('k \<Rightarrow> addr set) \<Rightarrow> addr \<Rightarrow> span \<Rightarrow> int \<Rightarrow> span_location \<Rightarrow> 'k page_heap \<Rightarrow> 'k page_heap \<Rightarrow> bool" where
  "cut_result env own sp s n loc h h' \<longleftrightarrow> (\<exists>lo l. lo \<notin> dom (ph_spans h) \<and> sp_start l = sp_start s + n \<and> sp_length l = sp_length s - n \<and>
     sp_location l = loc \<and> ph_spans h' = (ph_spans h)(lo \<mapsto> l, sp \<mapsto> s\<lparr>sp_length := n\<rparr>)) \<and>
     geo (ph_spans h') (ph_pagemap h') \<and> parts {} h' \<and> mem_ok env own h' \<and> heap_pages (ph_spans h') = heap_pages (ph_spans h) \<and>
     gap h' = gap h - (if loc = ON_RETURNED_FREELIST then page_bytes (sp_length s - n) else 0) \<and>
     ph_aggressive_decommit h' = ph_aggressive_decommit h \<and> ph_release_index h' = ph_release_index h \<and>
     system_bytes (ph_stats_of h') = system_bytes (ph_stats_of h)"

lemma cut_off_ok:
  assumes os: "mem_os env own" and g: "geo (ph_spans h) (ph_pagemap h)" and p: "parts {} h" and m: "mem_ok env own h"
    and sp: "ph_spans h sp = Some s" "sp_location s = IN_USE" "sp_sizeclass s = 0" and n: "0 < n" "n < sp_length s"
    and loc: "loc \<noteq> IN_USE" "right_free (ph_spans h) s loc"
  shows "unless_oom (cut_off env sp n loc (sp_start s) (sp_length s - n) h) (cut_result env own sp s n loc h)"
  unfolding cut_off_def
proof (rule oom_bind [OF new_span_ok [OF os m [unfolded mem_ok_def]]], clarify)
  let ?st = "ph_spans h" and ?e = "sp_start s + sp_length s" and ?k = "sp_start s + n"
  have so: "span_ok (ph_pagemap h) sp s" using geo_span [of ?st _ sp s, OF g sp(1)] .
  have s: "sp \<noteq> NULL" using so by (simp add: span_ok_def)
  have es: "ens (ph_pagemap h) k" if "sp_start s \<le> k" "k < ?e" for k using so that by (simp add: span_ok_def)
  fix lo al ws w assume nl: "?st lo = None" and nn: "lo \<noteq> NULL"
    and pi: "pha_inv sizeof_Span env own (heap_mem ?st) (insert lo (dom ?st)) al ws w"
  then have lo: "lo \<notin> dom ?st" "lo \<noteq> NULL" and ne: "sp \<noteq> lo" "?st lo = None" using sp(1) by auto
  define l where "l = (span_of ?k (sp_length s - n))\<lparr>sp_location := loc\<rparr>"
  have l: "sp_start l = ?k" "sp_length l = sp_length s - n" "sp_location l = loc" "\<not> sp_has_span_iter l" "sp_sizeclass l = 0" "\<not> sp_sample l"
    by (simp_all add: l_def span_of_def)
  let ?h3 = "h\<lparr>ph_span_allocator := al, ph_words := ws, ph_world := w, ph_spans := ?st(lo \<mapsto> span_of ?k (sp_length s - n))\<rparr>"
  define h4 where "h4 = h\<lparr>ph_span_allocator := al, ph_words := ws, ph_world := w, ph_spans := ?st(lo \<mapsto> l)\<rparr>"
  have u4: "upd_span lo (\<lambda>l. l\<lparr>sp_location := loc\<rparr>) ?h3 = Inr h4" using lo(2) by (simp add: upd_span_ok h4_def l_def)
  obtain m5 where m5: "RecordSpan lo h4 = Inr (h4\<lparr>ph_pagemap := m5\<rparr>)" "lkp m5 = (lkp (ph_pagemap h))(?k := lo, ?e - 1 := lo)" "ens m5 = ens (ph_pagemap h)"
    using RecordSpan_ok [of h4 lo l] lo(2) l n es by (auto simp: sure_def h4_def)
  define h5 where "h5 = h4\<lparr>ph_pagemap := m5\<rparr>"
  have ap: "leftover_apart lo h5 = Inr True"
    by (rule leftover_apart_ok [where l = l, OF g sp(1) lo]) (use l loc(2) m5(2) n in \<open>auto simp: h5_def h4_def\<close>)
  have "parts {sp, lo} h" using parts_inuse [of h sp "{lo}"] parts_inuse [of h lo "{}"] p sp ne by simp
  then have "parts {sp, lo} h5"
    by (rule parts_cong) (use l(4) ne parts_iter [OF \<open>parts {sp, lo} h\<close>] sp(1) in \<open>auto simp: h5_def h4_def split: if_splits\<close>)
  then have p5: "parts {lo} h5" using parts_inuse [of h5 sp "{lo}"] sp ne by (simp add: h5_def h4_def)
  have st5: "ph_spans h5 = ?st(lo \<mapsto> l)" by (simp add: h5_def h4_def)
  have kp: "?k \<in> page_set s" using n by (simp add: page_set_def)
  have starts: "sp_start t \<noteq> sp_start l" if b: "ph_spans h5 b = Some t" "b \<noteq> lo" for b t
  proof
    assume e: "sp_start t = sp_start l"
    have bt: "?st b = Some t" using b by (simp add: st5)
    then have "?k \<in> page_set t" using e l(1) geo_span [of ?st _ b t, OF g] by (simp add: page_set_def span_ok_def)
    then have "b = sp" using geo_same [of ?st _ b t sp s, OF g bt sp(1)] kp by blast
    then show False using bt sp(1) e l(1) n by simp
  qed
  let ?l' = "l\<lparr>sp_has_span_iter := (sp_length l > kMaxPages)\<rparr>"
  have "finite (dom (ph_spans h5))" using geo_finite [OF g] by (simp add: st5)
  then obtain h6 where h6: "PrependToFreeList lo h5 = Inr h6" "parts {} h6" "same_rest h5 h6" "ph_spans h6 = ?st(lo \<mapsto> ?l')"
    "gap h6 = gap h5 - (if loc = ON_RETURNED_FREELIST then page_bytes (sp_length s - n) else 0)"
    using Prepend_ok [OF p5, of lo l] lo(2) loc(1) l n starts by (auto simp: st5)
  let ?s' = "s\<lparr>sp_length := n\<rparr>"
  let ?st' = "?st(lo \<mapsto> ?l', sp \<mapsto> ?s')"
  define h7 where "h7 = h6\<lparr>ph_spans := ?st'\<rparr>"
  have u7: "upd_span sp (\<lambda>s. s\<lparr>sp_length := n\<rparr>) h6 = Inr h7" using s ne sp(1) by (simp add: upd_span_ok h6(4) h7_def)
  have pm7: "ph_pagemap h7 = m5" using h6(3) by (simp add: h7_def same_rest_def h5_def)
  have "ens (ph_pagemap h7) (?k - 1)" using es [of "?k - 1"] n unfolding pm7 m5(3) by simp
  from pagemap_set_ok [OF this, of sp] obtain m8 where m8: "pagemap_set (?k - 1) sp h7 = Inr (h7\<lparr>ph_pagemap := m8\<rparr>)"
    "lkp m8 = (lkp (ph_pagemap h))(?k := lo, ?e - 1 := lo, ?k - 1 := sp)" "ens m8 = ens (ph_pagemap h)"
    unfolding pm7 m5(2,3) by (auto simp: sure_def)
  define h8 where "h8 = h7\<lparr>ph_pagemap := m8\<rparr>"
  have st8: "ph_spans h8 = ?st'" by (simp add: h8_def h7_def)
  have gs: "geo ?st' m8" "heap_pages ?st' = heap_pages ?st"
    by (rule geo_split [OF g sp(1) lo n _ _ _ _ _ _ _ _ m8(2,3)]; simp add: l sp(2,3))+
  have "parts {sp} h6" using parts_inuse [of h6 sp "{}"] h6(2,4) sp ne by simp
  then have "parts {sp} h8"
    by (rule parts_cong) (use ne parts_iter [OF \<open>parts {sp} h6\<close>, of sp s] sp(1) in \<open>auto simp: h8_def h7_def h6(4)\<close>)
  then have p8: "parts {} h8" using parts_inuse [of h8 sp "{}"] sp(2) by (simp add: st8)
  have dm: "dom ?st' = insert lo (dom ?st)" using sp(1) by auto
  have "mem_ok env own h8" unfolding mem_ok_def st8 heap_mem_cong [OF gs(2)] dm
    using pi h6(3) by (simp add: h8_def h7_def same_rest_def h5_def h4_def)
  moreover have "gap h8 = gap h - (if loc = ON_RETURNED_FREELIST then page_bytes (sp_length s - n) else 0)"
    using h6(5) by (simp add: gap_def h8_def h7_def h5_def h4_def)
  moreover have "ph_aggressive_decommit h8 = ph_aggressive_decommit h \<and> ph_release_index h8 = ph_release_index h \<and>
      system_bytes (ph_stats_of h8) = system_bytes (ph_stats_of h)"
    using h6(3) by (simp add: h8_def h7_def same_rest_def h5_def h4_def)
  moreover have "\<exists>lo l. lo \<notin> dom ?st \<and> sp_start l = ?k \<and> sp_length l = sp_length s - n \<and> sp_location l = loc \<and> ?st' = ?st(lo \<mapsto> l, sp \<mapsto> ?s')"
    using lo(1) l by (intro exI [of _ lo] exI [of _ ?l']) simp
  ultimately have "cut_result env own sp s n loc h h8"
    using gs p8 unfolding cut_result_def st8 by (simp add: h8_def)
  then show "unless_oom (bindR (upd_span lo (\<lambda>l. l\<lparr>sp_location := loc\<rparr>) ?h3) (\<lambda>h4.
     bindR (RecordSpan lo h4) (\<lambda>h5. bindR (leftover_apart lo h5) (\<lambda>ok. check ok
     (bindR (PrependToFreeList lo h5) (\<lambda>h6. bindR (upd_span sp (\<lambda>s. s\<lparr>sp_length := n\<rparr>) h6) (\<lambda>h7. pagemap_set (?k - 1) sp h7)))))))
     (cut_result env own sp s n loc h)"
    unfolding u4 bindR_simps m5(1) h5_def [symmetric] ap check_simps h6(1) u7 m8(1) h8_def [symmetric] by simp
qed

lemma coalesced_inuse: "st sp = Some s \<Longrightarrow> sp_location s = IN_USE \<Longrightarrow> coalesced {sp} st = coalesced {} st"
  unfolding coalesced_def using inuse_outside [of st sp _ "{}"] by auto

text \<open>Cutting a free span off the rear of a free span of the same kind leaves the heap coalesced.\<close>

lemma cut_coalesced:
  assumes co: "coalesced {} st" and sp: "st sp = Some s" "sp_location s \<noteq> IN_USE" and lo: "lo \<noteq> sp" "sp_location l = sp_location s"
    and l: "sp_start l = sp_start s + n" "sp_length l = sp_length s - n" and n: "0 < n" "n < sp_length s"
    and s': "sp_start s' = sp_start s" "sp_length s' = n" "sp_location s' = IN_USE"
    and g: "geo (st(lo \<mapsto> l, sp \<mapsto> s')) m"
  shows "coalesced {} (st(lo \<mapsto> l, sp \<mapsto> s'))"
proof -
  let ?st = "st(lo \<mapsto> l, sp \<mapsto> s')" and ?F = "{lo, sp}"
  have ag: "\<forall>a. a \<notin> ?F \<longrightarrow> ?st a = st a" by simp
  have c2: "coalesced ?F ?st" unfolding outside_cong(4) [of ?F ?st st, OF ag] by (intro coalesced_insert co)
  have stl: "?st lo = Some l" "?st sp = Some s'" using lo(1) by simp_all
  have "coalesced (?F - {lo}) ?st"
  proof (rule coalesced_add [of ?F ?st lo l, OF c2 stl(1)])
    fix b assume "b \<in> loc_set ?F ?st (sp_location l)"
    then obtain u where b: "b \<noteq> lo" "b \<noteq> sp" and u: "?st b = Some u" "st b = Some u" "sp_location u = sp_location s"
      using lo(2) by (auto simp: loc_set_def)
    have "0 < sp_length u" using geo_span [of ?st m b u, OF g u(1)] by (simp add: span_ok_def)
    then have "sp_start u + sp_length u = sp_start l \<Longrightarrow> sp_start l - 1 \<in> page_set u \<and> sp_start l - 1 \<in> page_set s'"
      using l n s' by (auto simp: page_set_def)
    then have "sp_start u + sp_length u \<noteq> sp_start l" using geo_same [of ?st m b u sp s', OF g u(1) stl(2)] b(2) by blast
    moreover have "start_of st sp + span_len st sp \<noteq> start_of st b"
      using co sp u loc_set_mem [of st sp s "{}"] loc_set_mem [of st b u "{}"] unfolding coalesced_def by blast
    ultimately show "start_of ?st b + span_len ?st b \<noteq> sp_start l \<and> sp_start l + sp_length l \<noteq> start_of ?st b"
      using start_of_some [of ?st b u, OF u(1)] span_len_some [of ?st b u, OF u(1)] start_of_some [of st b u, OF u(2)]
        start_of_some [of st sp s, OF sp(1)] span_len_some [of st sp s, OF sp(1)] l by simp
  qed (use l n in auto)
  then show ?thesis using coalesced_inuse [of ?st sp s', OF stl(2) s'(3)] lo(1) by (simp add: insert_Diff_if)
qed

text \<open>A request for \<open>n\<close> pages was span_granted: a span that was not in use is, with \<open>n\<close> pages; nothing else in use changed.\<close>

definition span_granted :: "'k tc_env \<Rightarrow> ('k \<Rightarrow> addr set) \<Rightarrow> 'k page_heap \<Rightarrow> int \<Rightarrow> addr \<Rightarrow> 'k page_heap \<Rightarrow> bool" where
  "span_granted env own h n sp h' \<longleftrightarrow> heap_ok env own h' \<and> live (ph_spans h) sp = None \<and>
     (\<exists>s. sp_length s = n \<and> sp_location s = IN_USE \<and> sp_sizeclass s = 0 \<and> \<not> sp_sample s \<and> live (ph_spans h') = (live (ph_spans h))(sp \<mapsto> s)) \<and>
     heap_pages (ph_spans h) \<subseteq> heap_pages (ph_spans h') \<and> ph_aggressive_decommit h' = ph_aggressive_decommit h"

lemma span_granted_after:
  assumes "span_granted env own h1 n sp h'" "live (ph_spans h1) = live (ph_spans h)" "heap_pages (ph_spans h) \<subseteq> heap_pages (ph_spans h1)"
    "ph_aggressive_decommit h1 = ph_aggressive_decommit h"
  shows "span_granted env own h n sp h'"
  using assms unfolding span_granted_def by auto

text \<open>The last part of \<open>Carve\<close>.\<close>

lemma carve_finish:
  assumes h: "geo (ph_spans h) (ph_pagemap h)" "parts {} h" "mem_ok env own h" and sp: "ph_spans h sp = Some s" "sp \<noteq> NULL" "sp_location s = IN_USE"
    and gp: "gap h = (if loc = ON_RETURNED_FREELIST then page_bytes (sp_length s) else 0)"
    and rest: "0 \<le> ph_release_index h" "ph_release_index h \<le> kMaxPages + 1" "coalesced {} (ph_spans h)"
  shows "sure (bindR (if loc = ON_RETURNED_FREELIST then CommitSpan sp h else Inr h) (\<lambda>h9.
       bindR (the_span h9 sp) (\<lambda>s'. check (sp_location s' = IN_USE) (check (sp_length s' = sp_length s)
       (check (stats_balanced h9) (Inr (sp, h9))))))) (\<lambda>(r, h'). r = sp \<and> heap_ok env own h' \<and> same_lists h h')"
proof -
  obtain h9 where h9: "(if loc = ON_RETURNED_FREELIST then CommitSpan sp h else Inr h) = Inr h9" "gap h9 = 0" "same_lists h h9"
    "ph_world h9 = ph_world h" "ph_span_allocator h9 = ph_span_allocator h" "ph_words h9 = ph_words h"
    using commit_ok [OF sp(1,2)] gp by (cases "loc = ON_RETURNED_FREELIST") (auto simp: same_lists_def)
  have "heap_ok env own h9"
    using h rest h9 parts_same_lists [OF h9(3)] by (simp add: heap_ok_def ph_inv_def balanced_gap mem_ok_def same_lists_def)
  then show ?thesis unfolding h9(1) using sp h9(2,3) by (simp add: the_span_def balanced_gap same_lists_def)
qed

lemma Carve_ok:
  assumes os: "mem_os env own" and cap: "mem_cap own" and ok: "heap_ok env own h" and ag: "\<not> ph_aggressive_decommit h"
    and sp: "ph_spans h sp = Some s" "sp_location s \<noteq> IN_USE" and n: "0 < n" "n \<le> sp_length s"
  shows "unless_oom (Carve env sp n h) (\<lambda>(r, h'). r = sp \<and> span_granted env own h n sp h')"
proof -
  note H = heap_okD [OF ok]
  let ?st = "ph_spans h" and ?s2 = "s\<lparr>sp_has_span_iter := False, sp_location := IN_USE\<rparr>"
  have co: "coalesced {} ?st" using ok ag by (simp add: heap_ok_def)
  have nn: "sp \<noteq> NULL" using geo_span [of ?st _ sp s, OF H(1) sp(1)] by (simp add: span_ok_def)
  have ex: "to_int32 (sp_length s - n) = sp_length s - n"
    using span_small [OF cap H(1,3) sp(1)] n by (intro to_int32_id) simp_all
  obtain h1 h2 where h2: "RemoveFromFreeList sp h = Inr h1" "upd_span sp (\<lambda>s. s\<lparr>sp_location := IN_USE\<rparr>) h1 = Inr h2" "ph_spans h2 = ?st(sp \<mapsto> ?s2)"
    "geo (ph_spans h2) (ph_pagemap h2)" "parts {} h2" "mem_ok env own h2" "gap h2 = ret_bytes s" "heap_pages (ph_spans h2) = heap_pages ?st" "same_rest h h2"
    using take_ok [OF ok sp] by blast
  have sp2: "ph_spans h2 sp = Some ?s2" by (simp add: h2(3))
  have ri: "0 \<le> ph_release_index h2" "ph_release_index h2 \<le> kMaxPages + 1" using ok h2(9) by (simp_all add: heap_ok_def same_rest_def)
  have lsp: "live ?st sp = None" using sp by (simp add: live_def)
  have sc: "sp_sizeclass s = 0" "\<not> sp_sample s" by (rule free_class [OF H(1) sp])+
  have run: "Carve env sp n h = bindR (if sp_length s - n > 0 then cut_off env sp n (sp_location s) (sp_start s) (sp_length s - n) h2 else Inr h2) (\<lambda>h8.
       bindR (if sp_location s = ON_RETURNED_FREELIST then CommitSpan sp h8 else Inr h8) (\<lambda>h9.
       bindR (the_span h9 sp) (\<lambda>s'. check (sp_location s' = IN_USE) (check (sp_length s' = n)
       (check (stats_balanced h9) (Inr (sp, h9)))))))"
    using n sp nn ex h2(1,2) by (simp add: Carve_parts the_span_def)
  text \<open>What has to be known about the state before the last part.\<close>
  have fin: "sure (bindR (if sp_location s = ON_RETURNED_FREELIST then CommitSpan sp h8 else Inr h8) (\<lambda>h9.
       bindR (the_span h9 sp) (\<lambda>s'. check (sp_location s' = IN_USE) (check (sp_length s' = n)
       (check (stats_balanced h9) (Inr (sp, h9))))))) (\<lambda>(r, h'). r = sp \<and> span_granted env own h n sp h')"
    if h8: "geo (ph_spans h8) (ph_pagemap h8)" "parts {} h8" "mem_ok env own h8" "ph_spans h8 sp = Some s8" "sp_length s8 = n" "sp_location s8 = IN_USE"
      "live (ph_spans h8) = (live ?st)(sp \<mapsto> s8)" "heap_pages (ph_spans h8) = heap_pages ?st"
      "gap h8 = (if sp_location s = ON_RETURNED_FREELIST then page_bytes n else 0)" "coalesced {} (ph_spans h8)"
      "ph_aggressive_decommit h8 = ph_aggressive_decommit h \<and> ph_release_index h8 = ph_release_index h \<and>
       system_bytes (ph_stats_of h8) = system_bytes (ph_stats_of h)" "sp_sizeclass s8 = 0" "\<not> sp_sample s8" for h8 s8
  proof -
    have r8: "0 \<le> ph_release_index h8" "ph_release_index h8 \<le> kMaxPages + 1" using h8(11) ok by (simp_all add: heap_ok_def)
    have "span_granted env own h n sp h'" if "heap_ok env own h'" "same_lists h8 h'" for h'
      unfolding span_granted_def using that h8(5-8,11-13) lsp by (intro conjI exI [of _ s8]) (simp_all add: same_lists_def)
    then show ?thesis using carve_finish [OF h8(1-4) nn h8(6) h8(9) [folded h8(5)] r8 h8(10)] unfolding h8(5)
      by (auto elim!: sure_mono)
  qed
  show ?thesis
  proof (cases "n = sp_length s")
    case True
    have "live (ph_spans h2) = (live ?st)(sp \<mapsto> ?s2)" by (auto simp: h2(3) live_def)
    moreover have "coalesced {} (ph_spans h2)"
      using coalesced_floating [OF co, of sp ?s2] coalesced_inuse [of "ph_spans h2" sp ?s2, OF sp2] by (simp add: h2(3))
    ultimately have "sure (Carve env sp n h) (\<lambda>(r, h'). r = sp \<and> span_granted env own h n sp h')"
      unfolding run using fin [of h2 ?s2, OF h2(4-6) sp2] h2(7-9) True sc by (simp add: ret_bytes_def same_rest_def)
    then show ?thesis by (rule oom_sure)
  next
    case False
    then have lt: "n < sp_length ?s2" using n by simp
    have rf: "right_free (ph_spans h2) ?s2 (sp_location s)"
      unfolding right_free_def
    proof (intro allI impI notI)
      fix b t assume b: "ph_spans h2 b = Some t" "sp_start t = sp_start ?s2 + sp_length ?s2" "sp_location t = sp_location s"
      then have bt: "?st b = Some t" using sp(2) by (auto simp: h2(3) split: if_splits)
      have "start_of ?st sp + span_len ?st sp \<noteq> start_of ?st b"
        using co sp(2) loc_set_mem [of ?st sp s "{}", OF sp(1)] loc_set_mem [of ?st b t "{}", OF bt] b(3) unfolding coalesced_def by blast
      then show False using b(2) bt sp(1) by simp
    qed
    have cut: "unless_oom (cut_off env sp n (sp_location s) (sp_start s) (sp_length s - n) h2) (cut_result env own sp ?s2 n (sp_location s) h2)"
      using cut_off_ok [OF os h2(4-6) sp2 _ _ n(1) lt sp(2) rf] sc by simp
    have "unless_oom (Carve env sp n h) (\<lambda>(r, h'). r = sp \<and> span_granted env own h n sp h')"
      unfolding run
    proof (rule oom_bind [where P = "cut_result env own sp ?s2 n (sp_location s) h2"])
      show "unless_oom (if sp_length s - n > 0 then cut_off env sp n (sp_location s) (sp_start s) (sp_length s - n) h2 else Inr h2)
          (cut_result env own sp ?s2 n (sp_location s) h2)" using cut lt by simp
      fix h8 assume r: "cut_result env own sp ?s2 n (sp_location s) h2 h8"
      let ?s8 = "?s2\<lparr>sp_length := n\<rparr>"
      obtain lo l where lo: "lo \<notin> dom (ph_spans h2)" "sp_start l = sp_start s + n" "sp_length l = sp_length s - n" "sp_location l = sp_location s"
        "ph_spans h8 = (ph_spans h2)(lo \<mapsto> l, sp \<mapsto> ?s8)" using r by (auto simp: cut_result_def)
      have g8: "geo (ph_spans h8) (ph_pagemap h8)" "parts {} h8" "mem_ok env own h8" "heap_pages (ph_spans h8) = heap_pages (ph_spans h2)"
        "gap h8 = gap h2 - (if sp_location s = ON_RETURNED_FREELIST then page_bytes (sp_length s - n) else 0)"
        "ph_aggressive_decommit h8 = ph_aggressive_decommit h2 \<and> ph_release_index h8 = ph_release_index h2 \<and>
          system_bytes (ph_stats_of h8) = system_bytes (ph_stats_of h2)"
        using r by (simp_all add: cut_result_def)
      have ne: "lo \<noteq> sp" "?st lo = None" using lo(1) by (auto simp: h2(3) split: if_splits)
      have st8: "ph_spans h8 = ?st(lo \<mapsto> l, sp \<mapsto> ?s8)" using ne(1) by (simp add: lo(5) h2(3) fun_upd_twist)
      have "live (ph_spans h8) = (live ?st)(sp \<mapsto> ?s8)" using ne sp(2) lo(4) by (auto simp: st8 live_def)
      moreover have "coalesced {} (ph_spans h8)" unfolding st8
        by (rule cut_coalesced [OF co sp ne(1) lo(4,2,3) n(1) _ _ _ _ g8(1) [unfolded st8]]) (use lt in simp_all)
      moreover have "gap h8 = (if sp_location s = ON_RETURNED_FREELIST then page_bytes n else 0)"
        using g8(5) h2(7) page_bytes_add [of "sp_length s - n" n] by (simp add: ret_bytes_def)
      ultimately show "unless_oom (bindR (if sp_location s = ON_RETURNED_FREELIST then CommitSpan sp h8 else Inr h8) (\<lambda>h9.
         bindR (the_span h9 sp) (\<lambda>s'. check (sp_location s' = IN_USE) (check (sp_length s' = n)
         (check (stats_balanced h9) (Inr (sp, h9))))))) (\<lambda>(r, h'). r = sp \<and> span_granted env own h n sp h')"
        using fin [of h8 ?s8, OF g8(1-3)] g8(4,6) h2(8,9) sc by (intro oom_sure) (simp add: st8 same_rest_def)
    qed
    then show ?thesis .
  qed
qed

section \<open>Searching\<close>

lemma EnsureLimit_none: "heap_limit_mb env = 0 \<Longrightarrow> EnsureLimit env n b h = Inr (True, h)"
  by (simp add: EnsureLimit_def to_size_t_def)

text \<open>A free span with at least \<open>n\<close> pages.\<close>

definition fits :: "int \<Rightarrow> span_store \<Rightarrow> addr \<Rightarrow> bool" where
  "fits n st a \<longleftrightarrow> (\<exists>s. st a = Some s \<and> sp_location s \<noteq> IN_USE \<and> n \<le> sp_length s)"

lemma upper_bound_some:
  assumes "large_ok {} st loc xs" "upper_bound st n xs = Some e"
  shows "\<exists>s. st (spl_span e) = Some s \<and> sp_location s = loc \<and> n \<le> sp_length s"
proof -
  have e: "e \<in> set xs" "above_bound st n e" using assms(2) by (auto simp: upper_bound_def find_Some_iff)
  then obtain a where a: "e = \<lparr>spl_span = a, spl_length = span_len st a\<rparr>" "a \<in> loc_set {} st loc" using assms(1) by (auto simp: large_ok_def)
  then show ?thesis using e(2) by (auto simp: loc_set_def above_bound_def)
qed

lemma upper_bound_none:
  assumes "large_ok {} st loc xs" "upper_bound st n xs = None" "geo st m" "st a = Some s" "sp_location s = loc" "n \<le> sp_length s"
  shows "sp_length s \<le> kMaxPages"
proof (rule ccontr)
  assume "\<not> sp_length s \<le> kMaxPages"
  then have "\<lparr>spl_span = a, spl_length = span_len st a\<rparr> \<in> set xs"
    using assms(1,4,5) loc_set_mem [of st a s "{}" loc, OF assms(4)] by (auto simp: large_ok_def)
  then have "\<not> above_bound st n \<lparr>spl_span = a, spl_length = span_len st a\<rparr>" using assms(2) by (auto simp: upper_bound_def find_None_iff)
  moreover have "0 < sp_start s" using geo_span [of st m a s, OF assms(3,4)] by (simp add: span_ok_def)
  ultimately show False using assms(4,6) by (auto simp: above_bound_def)
qed

lemma best_spans_ok:
  assumes g: "geo (ph_spans h) (ph_pagemap h)" and p: "parts {} h"
  shows "sure (best_spans n h) (\<lambda>(bn, b). (bn \<noteq> None \<longrightarrow> b \<noteq> None) \<and>
    (case b of None \<Rightarrow> (\<forall>a s. ph_spans h a = Some s \<longrightarrow> sp_location s \<noteq> IN_USE \<longrightarrow> n \<le> sp_length s \<longrightarrow> sp_length s \<le> kMaxPages)
     | Some a \<Rightarrow> fits n (ph_spans h) a))"
proof -
  let ?st = "ph_spans h"
  have L: "large_ok {} ?st ON_NORMAL_FREELIST (ph_large_normal h)" "large_ok {} ?st ON_RETURNED_FREELIST (ph_large_returned h)"
    using p by (simp_all add: parts_def)
  have nn: "a \<noteq> NULL" if "?st a = Some s" for a s using geo_span [of ?st _ a s, OF g that] by (simp add: span_ok_def)
  have free: "sp_location s = ON_NORMAL_FREELIST \<or> sp_location s = ON_RETURNED_FREELIST" if "sp_location s \<noteq> IN_USE" for s
    using that by (cases "sp_location s") auto
  show ?thesis
  proof (cases "upper_bound ?st n (ph_large_normal h)")
    case N: None
    show ?thesis
    proof (cases "upper_bound ?st n (ph_large_returned h)")
      case None
      have "sp_length s \<le> kMaxPages" if "?st a = Some s" "sp_location s \<noteq> IN_USE" "n \<le> sp_length s" for a s
        using upper_bound_none [OF L(1) N g that(1) _ that(3)] upper_bound_none [OF L(2) None g that(1) _ that(3)] free [OF that(2)] by blast
      then show ?thesis using N None by (simp add: best_spans_def Let_def)
    next
      case (Some e)
      obtain s where s: "?st (spl_span e) = Some s" "sp_location s = ON_RETURNED_FREELIST" "n \<le> sp_length s"
        using upper_bound_some [OF L(2) Some] by blast
      then show ?thesis using N Some nn [OF s(1)] by (simp add: best_spans_def Let_def the_span_def fits_def)
    qed
  next
    case N: (Some d)
    obtain t where t: "?st (spl_span d) = Some t" "sp_location t = ON_NORMAL_FREELIST" "n \<le> sp_length t"
      using upper_bound_some [OF L(1) N] by blast
    show ?thesis
    proof (cases "upper_bound ?st n (ph_large_returned h)")
      case None
      then show ?thesis using N t nn [OF t(1)] by (simp add: best_spans_def Let_def the_span_def fits_def)
    next
      case (Some e)
      obtain s where s: "?st (spl_span e) = Some s" "sp_location s = ON_RETURNED_FREELIST" "n \<le> sp_length s"
        using upper_bound_some [OF L(2) Some] by blast
      then show ?thesis using N Some t nn [OF s(1)] nn [OF t(1)] by (simp add: best_spans_def Let_def the_span_def fits_def)
    qed
  qed
qed

text \<open>What a search for \<open>n\<close> pages among the spans of at least \<open>len\<close> pages gives.\<close>

definition search_result :: "'k tc_env \<Rightarrow> ('k \<Rightarrow> addr set) \<Rightarrow> 'k page_heap \<Rightarrow> int \<Rightarrow> int \<Rightarrow> addr option \<times> 'k page_heap \<Rightarrow> bool" where
  "search_result env own h n len = (\<lambda>(r, h'). case r of
     None \<Rightarrow> h' = h \<and> (\<forall>a s. ph_spans h a = Some s \<longrightarrow> sp_location s \<noteq> IN_USE \<longrightarrow> n \<le> sp_length s \<longrightarrow> sp_length s < len)
   | Some sp \<Rightarrow> span_granted env own h n sp h')"

text \<open>The hypotheses under which allocation is analysed: no heap limit, no aggressive decommit.\<close>

definition plain_heap :: "'k tc_env \<Rightarrow> ('k \<Rightarrow> addr set) \<Rightarrow> 'k page_heap \<Rightarrow> bool" where
  "plain_heap env own h \<longleftrightarrow> mem_os env own \<and> mem_cap own \<and> heap_limit_mb env = 0 \<and> heap_ok env own h \<and> \<not> ph_aggressive_decommit h"

lemma carve_search:
  assumes h: "plain_heap env own h" and f: "fits n (ph_spans h) a" "0 < n"
  shows "unless_oom (bindR (Carve env a n h) (\<lambda>(sp, h1). Inr (Some sp, h1))) (search_result env own h n len)"
proof -
  obtain s where s: "ph_spans h a = Some s" "sp_location s \<noteq> IN_USE" "n \<le> sp_length s" using f(1) by (auto simp: fits_def)
  have "unless_oom (Carve env a n h) (\<lambda>(r, h'). r = a \<and> span_granted env own h n a h')"
    using h by (intro Carve_ok [OF _ _ _ _ s(1,2) f(2) s(3)]) (simp_all add: plain_heap_def)
  then show ?thesis by (rule oom_bind) (auto simp: search_result_def)
qed

lemma AllocLarge_ok:
  assumes h: "plain_heap env own h" and n: "0 < n"
  shows "unless_oom (AllocLarge env n h) (search_result env own h n (kMaxPages + 1))"
proof -
  have ok: "heap_ok env own h" and lim: "heap_limit_mb env = 0" using h by (simp_all add: plain_heap_def)
  obtain bn b where b: "best_spans n h = Inr (bn, b)" and q: "(bn \<noteq> None \<longrightarrow> b \<noteq> None) \<and>
    (case b of None \<Rightarrow> (\<forall>a s. ph_spans h a = Some s \<longrightarrow> sp_location s \<noteq> IN_USE \<longrightarrow> n \<le> sp_length s \<longrightarrow> sp_length s \<le> kMaxPages)
     | Some a \<Rightarrow> fits n (ph_spans h) a)"
    using best_spans_ok [OF heap_okD(1,2) [OF ok], of n] by (auto simp: sure_def)
  show ?thesis
  proof (cases b)
    case None
    then show ?thesis using q b by (auto simp: AllocLarge_def alloc_large.simps [of env n h] search_result_def)
  next
    case (Some a)
    then have "AllocLarge env n h = bindR (Carve env a n h) (\<lambda>(sp, h1). Inr (Some sp, h1))"
      using b lim by (auto simp: AllocLarge_def alloc_large.simps [of env n h] EnsureLimit_none)
    then show ?thesis using carve_search [OF h _ n, of a] q Some by simp
  qed
qed

lemma small_list_head:
  assumes p: "parts {} h" and s: "0 < s" "s \<le> kMaxPages"
  shows "ph_normal h (s - 1) = sp # sps \<Longrightarrow> \<exists>x. ph_spans h sp = Some x \<and> sp_location x = ON_NORMAL_FREELIST \<and> sp_length x = s"
    "ph_returned h (s - 1) = sp # sps \<Longrightarrow> \<exists>x. ph_spans h sp = Some x \<and> sp_location x = ON_RETURNED_FREELIST \<and> sp_length x = s"
    "ph_normal h (s - 1) = [] \<Longrightarrow> ph_returned h (s - 1) = [] \<Longrightarrow> ph_spans h a = Some x \<Longrightarrow> sp_location x \<noteq> IN_USE \<Longrightarrow> sp_length x \<noteq> s"
proof -
  have N: "set (ph_normal h (s - 1)) = {a \<in> loc_set {} (ph_spans h) ON_NORMAL_FREELIST. span_len (ph_spans h) a = s}"
    and R: "set (ph_returned h (s - 1)) = {a \<in> loc_set {} (ph_spans h) ON_RETURNED_FREELIST. span_len (ph_spans h) a = s}"
    using p s by (auto simp: parts_def small_ok_def)
  show "\<exists>x. ph_spans h sp = Some x \<and> sp_location x = ON_NORMAL_FREELIST \<and> sp_length x = s" if "ph_normal h (s - 1) = sp # sps"
  proof -
    have "sp \<in> set (ph_normal h (s - 1))" using that by simp
    then show ?thesis unfolding N by (auto simp: loc_set_def)
  qed
  show "\<exists>x. ph_spans h sp = Some x \<and> sp_location x = ON_RETURNED_FREELIST \<and> sp_length x = s" if "ph_returned h (s - 1) = sp # sps"
  proof -
    have "sp \<in> set (ph_returned h (s - 1))" using that by simp
    then show ?thesis unfolding R by (auto simp: loc_set_def)
  qed
  show "sp_length x \<noteq> s" if e: "ph_normal h (s - 1) = []" "ph_returned h (s - 1) = []" and x: "ph_spans h a = Some x" "sp_location x \<noteq> IN_USE"
  proof
    assume "sp_length x = s"
    then have "a \<in> set (ph_normal h (s - 1)) \<or> a \<in> set (ph_returned h (s - 1))"
      unfolding N R using x by (cases "sp_location x") (auto simp: loc_set_def)
    then show False using e by simp
  qed
qed

lemma search_lists_ok:
  assumes h: "plain_heap env own h" and n: "0 < n"
  shows "n \<le> s \<Longrightarrow> unless_oom (search_lists env n s h) (search_result env own h n s)"
proof (induction "nat (kMaxPages + 1 - s)" arbitrary: s rule: less_induct)
  case less
  have ok: "heap_ok env own h" and lim: "heap_limit_mb env = 0" using h by (simp_all add: plain_heap_def)
  note H = heap_okD [OF ok]
  have nn: "a \<noteq> NULL" if "ph_spans h a = Some x" for a x using geo_span [of _ _ a x, OF H(1) that] by (simp add: span_ok_def)
  show ?case
  proof (cases "s \<le> kMaxPages")
    case False
    have "unless_oom (AllocLarge env n h) (search_result env own h n s)"
    proof (rule oom_mono [OF AllocLarge_ok [OF h n]])
      show "search_result env own h n (kMaxPages + 1) x \<Longrightarrow> search_result env own h n s x" for x
        using False by (cases x) (fastforce simp: search_result_def split: option.splits)
    qed
    then show ?thesis using False by (simp add: search_lists.simps)
  next
    case True
    have s0: "0 < s" using n less.prems by simp
    note hd = small_list_head [OF H(2) s0 True]
    show ?thesis
    proof (cases "ph_normal h (s - 1)")
      case (Cons sp sps)
      obtain x where x: "ph_spans h sp = Some x" "sp_location x = ON_NORMAL_FREELIST" "sp_length x = s" using hd(1) [OF Cons] by blast
      have run: "search_lists env n s h = bindR (Carve env sp n h) (\<lambda>(r, h1). Inr (Some r, h1))"
        unfolding search_lists.simps [of env n s h] using True Cons x nn [OF x(1)] by (simp add: the_span_def)
      show ?thesis unfolding run by (rule carve_search [OF h _ n]) (use x less.prems in \<open>simp add: fits_def\<close>)
    next
      case N: Nil
      show ?thesis
      proof (cases "ph_returned h (s - 1)")
        case (Cons sp sps)
        obtain x where x: "ph_spans h sp = Some x" "sp_location x = ON_RETURNED_FREELIST" "sp_length x = s" using hd(2) [OF Cons] by blast
        have run: "search_lists env n s h = bindR (Carve env sp n h) (\<lambda>(r, h1). Inr (Some r, h1))"
          unfolding search_lists.simps [of env n s h] using True N Cons x nn [OF x(1)] lim by (simp add: the_span_def EnsureLimit_none)
        show ?thesis unfolding run by (rule carve_search [OF h _ n]) (use x less.prems in \<open>simp add: fits_def\<close>)
      next
        case R: Nil
        have run: "search_lists env n s h = search_lists env n (s + 1) h"
          unfolding search_lists.simps [of env n s h] using True N R by simp
        have "unless_oom (search_lists env n (s + 1) h) (search_result env own h n (s + 1))"
          using less.hyps [of "s + 1"] less.prems True by simp
        then show ?thesis unfolding run
        proof (rule oom_mono)
          show "search_result env own h n (s + 1) x \<Longrightarrow> search_result env own h n s x" for x
            using hd(3) [OF N R] by (cases x) (fastforce simp: search_result_def split: option.splits)
        qed
      qed
    qed
  qed
qed

lemma SearchFreeAndLargeLists_ok:
  assumes "plain_heap env own h" "0 < n"
  shows "unless_oom (SearchFreeAndLargeLists env n h) (search_result env own h n n)"
  using search_lists_ok [OF assms, of n] assms(2) by (simp add: SearchFreeAndLargeLists_def)

end
