(* ===== verification/Page_Heap_New.thy ===== *)
theory Page_Heap_New
  imports Page_Heap_Alloc
begin

unbundle bit_operations_syntax

text \<open>
  Growing the heap, \<open>New\<close>, \<open>Split\<close>, \<open>RegisterSizeClass\<close> and the checks of the page heap, and the
  properties of the page heap as a whole.
\<close>

section \<open>Memory from the system\<close>

lemma pha_inv_subset:
  assumes "pha_inv sz env own Z U al hs w" "Z' \<subseteq> Z" shows "pha_inv sz env own Z' U al hs w"
proof -
  obtain F where F: "pha_rep sz U F al hs" "Z \<inter> pha_mem sz U F al = {}" "meta_ok env own (Z \<union> pha_mem sz U F al) w"
    using assms(1) by (auto simp: pha_inv_def)
  have "meta_ok env own (Z' \<union> pha_mem sz U F al) w" by (rule meta_ok_subset [OF F(3)]) (use assms(2) in blast)
  then show ?thesis using F assms(2) unfolding pha_inv_def by blast
qed

lemma pha_inv_add:
  assumes "pha_inv sz env own Z U al hs w" "new_block own (w_os w) (w_os w') p n" "sys_ok env (w_sys w')" "w_meta w' = w_meta w"
  shows "block p n \<inter> Z = {} \<and> pha_inv sz env own (Z \<union> block p n) U al hs w'"
proof -
  obtain F where F: "pha_rep sz U F al hs" "Z \<inter> pha_mem sz U F al = {}" "meta_ok env own (Z \<union> pha_mem sz U F al) w"
    using assms(1) by (auto simp: pha_inv_def)
  have a: "block p n \<inter> (Z \<union> pha_mem sz U F al) = {}" "meta_ok env own ((Z \<union> pha_mem sz U F al) \<union> block p n) w'"
    using meta_ok_add [OF F(3) assms(2,3)] assms(4) by simp_all
  then have "meta_ok env own ((Z \<union> block p n) \<union> pha_mem sz U F al) w'" by (simp add: Un_ac)
  moreover have "(Z \<union> block p n) \<inter> pha_mem sz U F al = {}" using F(2) a(1) by blast
  ultimately show ?thesis using F(1) a(1) unfolding pha_inv_def by blast
qed

lemma pha_inv_node:
  assumes "mem_os env own" "pha_inv sz env own Z U al hs w" "0 < b" "b \<le> 2 ^ map_bits * 8"
  shows "\<exists>p w'. MetaDataAlloc env b w = Inr (p, w') \<and> pha_inv sz env own Z U al hs w'"
proof -
  obtain F where F: "pha_rep sz U F al hs" "Z \<inter> pha_mem sz U F al = {}" "meta_ok env own (Z \<union> pha_mem sz U F al) w"
    using assms(2) by (auto simp: pha_inv_def)
  have "b < 2 ^ 47" using assms(4) by (simp add: map_bits_def)
  from MetaDataAlloc_ok [OF assms(1) F(3) assms(3) this] obtain p w' where
    w': "MetaDataAlloc env b w = Inr (p, w')" "if p = NULL then meta_ok env own (Z \<union> pha_mem sz U F al) w'
       else meta_ok env own ((Z \<union> pha_mem sz U F al) \<union> block p b) w'" by (auto split: if_splits)
  then have "meta_ok env own (Z \<union> pha_mem sz U F al) w'" by (auto split: if_splits elim: meta_ok_subset)
  then show ?thesis using w'(1) F unfolding pha_inv_def by blast
qed

text \<open>Memory for \<open>ask\<close> pages; only the world changes.\<close>

lemma sys_alloc_ph_ok:
  assumes os: "mem_os env own" and lim: "heap_limit_mb env = 0" and m: "mem_ok env own h" and ask: "0 < ask" "ask \<le> kMaxValidPages"
  shows "sure (sys_alloc_ph env ask h) (\<lambda>(res, h'). \<exists>w. h' = h\<lparr>ph_world := w\<rparr> \<and> mem_ok env own h' \<and>
    (case res of None \<Rightarrow> True
     | Some (p, n) \<Rightarrow> 0 < p \<and> p mod kPageSize = 0 \<and> n mod kPageSize = 0 \<and> ask * kPageSize \<le> n \<and> p + n \<le> 2 ^ 47 \<and>
         block p n \<inter> heap_mem (ph_spans h) = {} \<and>
         pha_inv sizeof_Span env own (heap_mem (ph_spans h) \<union> block p n) (dom (ph_spans h)) (ph_span_allocator h) (ph_words h) w))"
proof -
  let ?P = "pha_inv sizeof_Span env own (heap_mem (ph_spans h)) (dom (ph_spans h)) (ph_span_allocator h) (ph_words h)"
  have pi: "?P (ph_world h)" using m by (simp add: mem_ok_def)
  then have so: "sys_ok env (w_sys (ph_world h))" by (auto simp: pha_inv_def meta_ok_def)
  have ps: "kPageSize = 2 ^ 13" by (simp add: kPageSize_def)
  have sz: "to_size_t (push_bit kPageShift ask) = ask * 8192"
    using ask by (simp add: push_bit_eq_mult kPageShift_def kMaxValidPages_def to_size_t_id)
  show ?thesis
  proof (cases "ask = kMaxValidPages")
    case True
    then have "sys_alloc_w env (ask * 8192) (2 ^ 13) (ph_world h) = Inr (None, ph_world h)"
      by (simp add: sys_alloc_w_def TCMalloc_SystemAlloc_def kMaxValidPages_def to_size_t_def)
    then show ?thesis using m sz by (auto simp: sys_alloc_ph_def EnsureLimit_none [OF lim] ps intro!: exI [of _ "ph_world h"])
  next
    case False
    then have lt: "ask * 8192 + 2 ^ 13 < 2 ^ 64" using ask(2) by (simp add: kMaxValidPages_def)
    obtain res w where r: "sys_alloc_w env (ask * 8192) (2 ^ 13) (ph_world h) = Inr (res, w)" "sys_ok env (w_sys w)" "w_meta w = w_meta (ph_world h)"
      and q: "case res of None \<Rightarrow> own (w_os (ph_world h)) \<subseteq> own (w_os w)
       | Some (p, n) \<Rightarrow> p mod 2 ^ 13 = 0 \<and> ask * 8192 \<le> n \<and> n mod 2 ^ 13 = 0 \<and> new_block own (w_os (ph_world h)) (w_os w) p n"
      using sys_alloc_w_ok [OF os so _ lt] ask(1) by auto
    have run: "sys_alloc_ph env ask h = Inr (res, h\<lparr>ph_world := w\<rparr>)"
      using r(1) sz by (simp add: sys_alloc_ph_def EnsureLimit_none [OF lim] ps)
    show ?thesis
    proof (cases res)
      case None
      then have "?P w" using pha_inv_grow [OF pi _ r(2,3)] q by simp
      then show ?thesis unfolding run using None by (auto simp: mem_ok_def intro!: exI [of _ w])
    next
      case (Some pn)
      then obtain p n where pn: "res = Some (p, n)" by (cases pn) auto
      then have nb: "new_block own (w_os (ph_world h)) (w_os w) p n" "p mod 2 ^ 13 = 0" "ask * 8192 \<le> n" "n mod 2 ^ 13 = 0" using q by simp_all
      have ad: "block p n \<inter> heap_mem (ph_spans h) = {}"
        "pha_inv sizeof_Span env own (heap_mem (ph_spans h) \<union> block p n) (dom (ph_spans h)) (ph_span_allocator h) (ph_words h) w"
        using pha_inv_add [OF pi nb(1) r(2,3)] by blast+
      have "?P w" by (rule pha_inv_subset [OF ad(2)]) blast
      then show ?thesis unfolding run using pn nb ad by (auto simp: mem_ok_def new_block_def ps intro!: exI [of _ w])
    qed
  qed
qed

section \<open>Adding a run of pages\<close>

lemma geo_add:
  assumes g: "geo st m" and lo: "sp \<notin> dom st" "sp \<noteq> NULL" and s: "0 < sp_start s" "0 < sp_length s" "sp_start s + sp_length s \<le> 2 ^ 34"
    and e: "\<And>k. sp_start s - 1 \<le> k \<Longrightarrow> k \<le> sp_start s + sp_length s \<Longrightarrow> ens m k" and new: "page_set s \<inter> heap_pages st = {}"
    and sc: "sp_sizeclass s = 0" "\<not> sp_sample s"
    and m': "lkp m' = (lkp m)(sp_start s := sp, sp_start s + sp_length s - 1 := sp)" "ens m' = ens m"
  shows "geo (st(sp \<mapsto> s)) m'" "heap_pages (st(sp \<mapsto> s)) = heap_pages st \<union> page_set s"
proof -
  let ?st = "st(sp \<mapsto> s)"
  have dis: "page_set u \<inter> page_set s = {}" if "st c = Some u" for c u using new that unfolding heap_pages_def by blast
  have ends: "sp_start s \<in> page_set s" "sp_start s + sp_length s - 1 \<in> page_set s" using s by (simp_all add: page_set_def)
  have "span_ok m' sp s" unfolding span_ok_def m' using lo(2) s e sc by simp
  moreover have "span_ok m' c u" if c: "st c = Some u" for c u
  proof -
    have "lkp m' k = lkp m k" if "k \<in> page_set u" for k
      using dis [OF c] ends disjoint_iff [of "page_set u" "page_set s"] that unfolding m'(1) by (metis fun_upd_other)
    then show ?thesis by (rule span_ok_frame [OF geo_span [of st m c u, OF g c] _ m'(2)])
  qed
  ultimately have sok: "span_ok m' c u" if "?st c = Some u" for c u using that by (cases "c = sp") simp_all
  have dj: "page_set u \<inter> page_set v = {}" if uv: "?st c = Some u" "?st d = Some v" and cd: "c \<noteq> d" for c d u v
  proof (cases "c = sp")
    case True
    then show ?thesis using uv cd dis [of d v] by auto
  next
    case c: False
    then show ?thesis using uv cd dis [of c u] geo_disjoint [of st m c u d v, OF g] by (cases "d = sp") simp_all
  qed
  show hp: "heap_pages ?st = heap_pages st \<union> page_set s"
  proof (intro equalityI subsetI)
    fix x assume "x \<in> heap_pages ?st"
    then obtain c u where "?st c = Some u" "x \<in> page_set u" by (auto simp: heap_pages_def)
    then show "x \<in> heap_pages st \<union> page_set s" by (cases "c = sp") (auto simp: heap_pages_def)
  next
    fix x assume "x \<in> heap_pages st \<union> page_set s"
    then have "(\<exists>c u. st c = Some u \<and> x \<in> page_set u) \<or> x \<in> page_set s" by (auto simp: heap_pages_def)
    then have "\<exists>c u. ?st c = Some u \<and> x \<in> page_set u"
    proof (elim disjE exE conjE)
      fix c u assume c: "st c = Some u" "x \<in> page_set u"
      then have "?st c = Some u" using lo(1) by auto
      then show ?thesis using c(2) by blast
    qed auto
    then show "x \<in> heap_pages ?st" by (simp add: heap_pages_def)
  qed
  have own: "\<exists>c u. ?st c = Some u \<and> j \<in> page_set u" if j: "lkp m' j \<noteq> NULL" for j
  proof -
    have "j \<in> heap_pages st \<union> page_set s"
    proof (cases "lkp m j = NULL")
      case True
      then show ?thesis using j m'(1) ends by (auto split: if_splits)
    next
      case False then show ?thesis using geo_owner [OF g, of j] by (auto simp: heap_pages_def)
    qed
    then show ?thesis unfolding hp [symmetric] by (auto simp: heap_pages_def)
  qed
  show "geo ?st m'" unfolding geo_def using geo_finite [OF g] sok dj own by (intro conjI allI impI) auto
qed

lemma geo_ensured:
  assumes "geo st m" "lkp m' = lkp m" "\<forall>k. ens m k \<longrightarrow> ens m' k" shows "geo st m'"
  using assms unfolding geo_def span_ok_def by auto

text \<open>The bytes of a run of whole pages.\<close>

lemma heap_mem_add:
  assumes "heap_pages st' = heap_pages st \<union> {p..<p + k}" shows "heap_mem st' = heap_mem st \<union> block (p * kPageSize) (k * kPageSize)"
proof -
  have "x div kPageSize \<in> {p..<p + k} \<longleftrightarrow> x \<in> block (p * kPageSize) (k * kPageSize)" for x :: int by (auto simp: kPageSize_def)
  then show ?thesis using assms unfolding heap_mem_def by blast
qed

text \<open>A fresh span in use is added for pages that were not managed before.\<close>

lemma add_span_ok:
  assumes os: "mem_os env own" and ok: "heap_ok env own h" and p: "0 < p" "0 < k" "p + k \<le> 2 ^ 34"
    and e: "\<And>j. p - 1 \<le> j \<Longrightarrow> j \<le> p + k \<Longrightarrow> ens (ph_pagemap h) j"
    and new: "block (p * kPageSize) (k * kPageSize) \<inter> heap_mem (ph_spans h) = {}"
    and pi: "pha_inv sizeof_Span env own (heap_mem (ph_spans h) \<union> block (p * kPageSize) (k * kPageSize)) (dom (ph_spans h))
      (ph_span_allocator h) (ph_words h) (ph_world h)"
  shows "unless_oom (bindR (new_span env p k h) (\<lambda>(sp, h4). bindR (RecordSpan sp h4) (\<lambda>h5. Inr (sp, h5))))
    (\<lambda>(sp, h5). ph_spans h sp = None \<and> ph_spans h5 = (ph_spans h)(sp \<mapsto> span_of p k) \<and> heap_ok env own h5 \<and>
      heap_pages (ph_spans h5) = heap_pages (ph_spans h) \<union> {p..<p + k} \<and> ph_aggressive_decommit h5 = ph_aggressive_decommit h)"
proof (rule oom_bind [OF new_span_ok [OF os pi]], clarify)
  note H = heap_okD [OF ok]
  let ?st = "ph_spans h" and ?s = "span_of p k"
  fix sp al ws w assume sp: "?st sp = None" "sp \<noteq> NULL"
    and pi': "pha_inv sizeof_Span env own (heap_mem ?st \<union> block (p * kPageSize) (k * kPageSize)) (insert sp (dom ?st)) al ws w"
  let ?h4 = "h\<lparr>ph_span_allocator := al, ph_words := ws, ph_world := w, ph_spans := ?st(sp \<mapsto> ?s)\<rparr>"
  have s: "sp_start ?s = p" "sp_length ?s = k" "sp_location ?s = IN_USE" "\<not> sp_has_span_iter ?s" "sp_sizeclass ?s = 0" "\<not> sp_sample ?s" by (simp_all add: span_of_def)
  have "page_set ?s = {p..<p + k}" by (simp add: page_set_def span_of_def)
  moreover have "{p..<p + k} \<inter> heap_pages ?st = {}"
  proof (rule ccontr)
    assume "{p..<p + k} \<inter> heap_pages ?st \<noteq> {}"
    then obtain j where j: "p \<le> j" "j < p + k" "j \<in> heap_pages ?st" by auto
    then have "j * kPageSize \<in> block (p * kPageSize) (k * kPageSize)" by (simp add: kPageSize_def)
    moreover have "j * kPageSize \<in> heap_mem ?st" using j(3) by (simp add: heap_mem_def kPageSize_def)
    ultimately show False using new by blast
  qed
  ultimately have ps: "page_set ?s = {p..<p + k}" "page_set ?s \<inter> heap_pages ?st = {}" by simp_all
  obtain m5 where m5: "RecordSpan sp ?h4 = Inr (?h4\<lparr>ph_pagemap := m5\<rparr>)" "lkp m5 = (lkp (ph_pagemap h))(p := sp, p + k - 1 := sp)" "ens m5 = ens (ph_pagemap h)"
    using RecordSpan_ok [of ?h4 sp ?s] sp(2) s p(2) e by (auto simp: sure_def)
  let ?h5 = "?h4\<lparr>ph_pagemap := m5\<rparr>"
  have g5: "geo (?st(sp \<mapsto> ?s)) m5" "heap_pages (?st(sp \<mapsto> ?s)) = heap_pages ?st \<union> page_set ?s"
    by (rule geo_add [where m' = m5, OF H(1) _ sp(2) _ _ _ _ ps(2)]; use sp(1) s p e m5(2,3) in auto)+
  have "parts {sp} h" using parts_inuse [of h sp "{}"] H(2) sp(1) by simp
  then have "parts {sp} ?h5" by (rule parts_cong) (use s(4) in auto)
  then have p5: "parts {} ?h5" using parts_inuse [of ?h5 sp "{}"] s(3) by simp
  have "heap_mem (?st(sp \<mapsto> ?s)) = heap_mem ?st \<union> block (p * kPageSize) (k * kPageSize)"
    by (rule heap_mem_add) (use g5(2) ps(1) in simp)
  then have m: "mem_ok env own ?h5" using pi' by (simp add: mem_ok_def)
  have co: "coalesced {} (?st(sp \<mapsto> ?s))" if "coalesced {} ?st"
    using coalesced_floating [OF that, of sp ?s] coalesced_inuse [of "?st(sp \<mapsto> ?s)" sp ?s] s(3) by simp
  have "heap_ok env own ?h5"
    using ok g5(1) p5 m co by (simp add: heap_ok_def ph_inv_def stats_balanced_def)
  then show "unless_oom (bindR (RecordSpan sp ?h4) (\<lambda>h5. Inr (sp, h5)))
    (\<lambda>(sp, h5). ?st sp = None \<and> ph_spans h5 = ?st(sp \<mapsto> ?s) \<and> heap_ok env own h5 \<and>
      heap_pages (ph_spans h5) = heap_pages ?st \<union> {p..<p + k} \<and> ph_aggressive_decommit h5 = ph_aggressive_decommit h)"
    using m5(1) sp(1) g5(2) ps(1) by simp
qed

text \<open>What the operations that do not hand out a span keep.\<close>

definition heap_stable :: "'k tc_env \<Rightarrow> ('k \<Rightarrow> addr set) \<Rightarrow> 'k page_heap \<Rightarrow> 'k page_heap \<Rightarrow> bool" where
  "heap_stable env own h h' \<longleftrightarrow> heap_ok env own h' \<and> live (ph_spans h') = live (ph_spans h) \<and>
     heap_pages (ph_spans h) \<subseteq> heap_pages (ph_spans h') \<and> ph_aggressive_decommit h' = ph_aggressive_decommit h"

lemma live_add: "st sp = None \<Longrightarrow> (live (st(sp \<mapsto> s)))(sp := None) = live st"
  by (auto simp: live_def)

lemma grow_with_ok:
  assumes env: "mem_os env own" "madvise_ends env" and ok: "heap_ok env own h"
    and p: "0 < p" "p mod kPageSize = 0" "n mod kPageSize = 0" "0 < n" "p + n \<le> 2 ^ 47"
    and new: "block p n \<inter> heap_mem (ph_spans h) = {}"
    and pi: "pha_inv sizeof_Span env own (heap_mem (ph_spans h) \<union> block p n) (dom (ph_spans h)) (ph_span_allocator h) (ph_words h) (ph_world h)"
  shows "unless_oom (grow_with env p n h) (\<lambda>(b, h'). heap_stable env own h h')"
proof -
  note H = heap_okD [OF ok]
  let ?p = "p div kPageSize" and ?k = "n div kPageSize"
  have P: "p = ?p * kPageSize" "n = ?k * kPageSize" using p(2,3) by (metis div_mult_mod_eq add.right_neutral)+
  have pk: "0 < ?p" "0 < ?k" "?p + ?k \<le> 2 ^ 34" using P p(1,4,5) by (simp_all add: kPageSize_def)
  let ?b = "page_bytes ?k"
  let ?h1 = "upd_stats (\<lambda>t. t\<lparr>reserve_count := reserve_count t + 1, commit_count := commit_count t + 1,
      system_bytes := system_bytes t + ?b, committed_bytes := committed_bytes t + ?b,
      total_commit_bytes := total_commit_bytes t + ?b, total_reserve_bytes := total_reserve_bytes t + ?b\<rparr>) h"
  have db: "drop_bit kPageShift x = x div kPageSize" for x :: int by (simp add: drop_bit_eq_div kPageShift_def kPageSize_def)
  let ?I = "pha_inv sizeof_Span env own (heap_mem (ph_spans h) \<union> block p n) (dom (ph_spans h)) (ph_span_allocator h) (ph_words h)"
  obtain b m w where en: "pm2_ensure map_bits (MetaDataAlloc env) (?p - 1) (?k + 2) (ph_pagemap h) (ph_world h) = Inr (b, m, w)" "?I w"
    using pm2.ensure_inv [of ?I map_bits "MetaDataAlloc env" "ph_world h" "?p - 1" "?k + 2" "ph_pagemap h"] pha_inv_node [OF env(1)] pi by blast
  have lk: "lkp m = lkp (ph_pagemap h)" "\<forall>j. ens (ph_pagemap h) j \<longrightarrow> ens m j" "b \<longrightarrow> (\<forall>j. ?p - 1 \<le> j \<and> j < ?p - 1 + (?k + 2) \<longrightarrow> ens m j)"
    using pm2.ensure_keeps [OF _ _ _ en(1)] pk by simp_all
  define h3 where "h3 = ?h1\<lparr>ph_pagemap := m, ph_world := w\<rparr>"
  have f3: "ph_spans h3 = ph_spans h" "ph_pagemap h3 = m" "ph_world h3 = w" "ph_span_allocator h3 = ph_span_allocator h" "ph_words h3 = ph_words h"
    "ph_aggressive_decommit h3 = ph_aggressive_decommit h"
    by (simp_all add: h3_def)
  have "geo (ph_spans h) m" using geo_ensured [OF H(1) lk(1,2)] .
  moreover have "parts {} h3" by (rule parts_cong [OF H(2)]) (simp_all add: h3_def)
  moreover have "mem_ok env own h3" using pha_inv_subset [OF en(2)] unfolding mem_ok_def f3 by blast
  moreover have "gap h3 = gap h" by (simp add: gap_def h3_def)
  ultimately have ok3: "heap_ok env own h3" using ok H(4) by (simp add: heap_ok_def ph_inv_def f3 balanced_gap) (simp add: h3_def)
  have run: "grow_with env p n h = (if b then bindR (new_span env ?p ?k h3) (\<lambda>(sp, h4). bindR (RecordSpan sp h4) (\<lambda>h5.
      bindR (Delete env sp h5) (\<lambda>h6. check (stats_balanced h6) (Inr (True, h6))))) else Inr (False, h3))"
    using pk(1) en(1) unfolding grow_with_def Let_def db h3_def
    by (simp add: pm2_preallocate_def map_bits_def [symmetric]) (simp add: map_bits_def)
  show ?thesis
  proof (cases b)
    case False
    then show ?thesis using run ok3 f3 by (simp add: heap_stable_def)
  next
    case True
    have e3: "ens (ph_pagemap h3) j" if "?p - 1 \<le> j" "j \<le> ?p + ?k" for j using lk(3) True that by (simp add: f3)
    have ad: "unless_oom (bindR (new_span env ?p ?k h3) (\<lambda>(sp, h4). bindR (RecordSpan sp h4) (\<lambda>h5. Inr (sp, h5))))
      (\<lambda>(sp, h5). ph_spans h3 sp = None \<and> ph_spans h5 = (ph_spans h3)(sp \<mapsto> span_of ?p ?k) \<and> heap_ok env own h5 \<and>
        heap_pages (ph_spans h5) = heap_pages (ph_spans h3) \<union> {?p..<?p + ?k} \<and> ph_aggressive_decommit h5 = ph_aggressive_decommit h3)"
      by (rule add_span_ok [OF env(1) ok3 pk e3]) (use new en(2) P f3 in simp_all)
    have run': "grow_with env p n h = bindR (bindR (new_span env ?p ?k h3) (\<lambda>(sp, h4). bindR (RecordSpan sp h4) (\<lambda>h5. Inr (sp, h5))))
        (\<lambda>(sp, h5). bindR (Delete env sp h5) (\<lambda>h6. check (stats_balanced h6) (Inr (True, h6))))"
      unfolding run bindR_assoc using True by (simp add: bindR_assoc split_def)
    show ?thesis unfolding run'
    proof (rule oom_bind [OF ad], clarify)
      fix sp h5 assume h5: "ph_spans h3 sp = None" "ph_spans h5 = (ph_spans h3)(sp \<mapsto> span_of ?p ?k)" "heap_ok env own h5"
        "heap_pages (ph_spans h5) = heap_pages (ph_spans h3) \<union> {?p..<?p + ?k}" "ph_aggressive_decommit h5 = ph_aggressive_decommit h3"
      have "sp_location (span_of ?p ?k) = IN_USE" by (simp add: span_of_def)
      from Delete_ok [OF env h5(3) _ this, of sp] show "unless_oom (bindR (Delete env sp h5) (\<lambda>h6. check (stats_balanced h6) (Inr (True, h6)))) (\<lambda>(b, h'). heap_stable env own h h')"
        using h5 live_add [of "ph_spans h3" sp "span_of ?p ?k"] by (auto simp: sure_def heap_stable_def heap_ok_def f3)
    qed
  qed
qed

section \<open>Growing the heap\<close>

lemma heap_stable_refl: "heap_ok env own h \<Longrightarrow> heap_stable env own h h"
  by (simp add: heap_stable_def)

lemma heap_stable_trans: "heap_stable env own h1 h2 \<Longrightarrow> heap_stable env own h2 h3 \<Longrightarrow> heap_stable env own h1 h3"
  unfolding heap_stable_def by auto

lemma heap_stable_kept: "heap_ok env own h' \<Longrightarrow> kept h h' \<Longrightarrow> heap_stable env own h h'"
  by (simp add: heap_stable_def kept_def)

lemma heap_stable_world:
  assumes "heap_ok env own h" "mem_ok env own (h\<lparr>ph_world := w\<rparr>)"
  shows "heap_stable env own h (h\<lparr>ph_world := w\<rparr>)"
  using assms by (auto simp: heap_stable_def heap_ok_def ph_inv_def parts_def stats_balanced_def)

lemma plain_heap_stable: "plain_heap env own h \<Longrightarrow> heap_stable env own h h' \<Longrightarrow> plain_heap env own h'"
  by (simp add: plain_heap_def heap_stable_def)

text \<open>Asking the system, then making the answer a span.\<close>

lemma alloc_and_grow:
  assumes h: "plain_heap env own h" and env: "madvise_ends env" and ask: "0 < ask" "ask \<le> kMaxValidPages"
    and none: "\<And>h1. heap_stable env own h h1 \<Longrightarrow> unless_oom (f h1) (\<lambda>(b, h'). heap_stable env own h h')"
  shows "unless_oom (bindR (sys_alloc_ph env ask h) (\<lambda>(res, h1). case res of Some (ptr, n) \<Rightarrow> grow_with env ptr n h1 | None \<Rightarrow> f h1))
    (\<lambda>(b, h'). heap_stable env own h h')"
proof -
  have H: "mem_os env own" "heap_limit_mb env = 0" "heap_ok env own h" using h by (simp_all add: plain_heap_def)
  obtain res w where r: "sys_alloc_ph env ask h = Inr (res, h\<lparr>ph_world := w\<rparr>)" "mem_ok env own (h\<lparr>ph_world := w\<rparr>)"
    and q: "case res of None \<Rightarrow> True
     | Some (p, n) \<Rightarrow> 0 < p \<and> p mod kPageSize = 0 \<and> n mod kPageSize = 0 \<and> ask * kPageSize \<le> n \<and> p + n \<le> 2 ^ 47 \<and>
         block p n \<inter> heap_mem (ph_spans h) = {} \<and>
         pha_inv sizeof_Span env own (heap_mem (ph_spans h) \<union> block p n) (dom (ph_spans h)) (ph_span_allocator h) (ph_words h) w"
    using sys_alloc_ph_ok [OF H(1,2) heap_okD(3) [OF H(3)] ask] by (auto simp: sure_def)
  have st: "heap_stable env own h (h\<lparr>ph_world := w\<rparr>)" using heap_stable_world [OF H(3) r(2)] .
  show ?thesis
  proof (cases res)
    case None
    then show ?thesis using r(1) none [OF st] by simp
  next
    case (Some pn)
    then obtain p n where pn: "res = Some (p, n)" by (cases pn) auto
    have n0: "0 < n" using q pn ask(1) by (auto simp: kPageSize_def)
    have "unless_oom (grow_with env p n (h\<lparr>ph_world := w\<rparr>)) (\<lambda>(b, h'). heap_stable env own (h\<lparr>ph_world := w\<rparr>) h')"
      by (rule grow_with_ok [OF H(1) env _ _ _ _ n0]) (use st q pn in \<open>simp_all add: heap_stable_def\<close>)
    then have "unless_oom (grow_with env p n (h\<lparr>ph_world := w\<rparr>)) (\<lambda>(b, h'). heap_stable env own h h')"
      by (rule oom_mono) (use heap_stable_trans [OF st] in auto)
    then show ?thesis using r(1) pn by simp
  qed
qed

lemma GrowHeap_ok:
  assumes h: "plain_heap env own h" and env: "madvise_ends env" and n: "0 < n"
  shows "unless_oom (GrowHeap env n h) (\<lambda>(b, h'). heap_stable env own h h')"
proof -
  have ok: "heap_ok env own h" using h by (simp add: plain_heap_def)
  let ?ask = "if n > kMinSystemAlloc then n else kMinSystemAlloc"
  let ?again = "\<lambda>h1. if n < ?ask then bindR (sys_alloc_ph env n h1) (\<lambda>(res2, h2).
      case res2 of Some (ptr, actual_size) \<Rightarrow> grow_with env ptr actual_size h2 | None \<Rightarrow> Inr (False, h2)) else Inr (False, h1)"
  have c: "kMaxPages \<ge> kMinSystemAlloc" "kMinSystemAlloc \<le> kMaxValidPages" by (simp_all add: kMinSystemAlloc_def kMaxPages_def kMaxValidPages_def)
  show ?thesis
  proof (cases "n > kMaxValidPages")
    case True
    then show ?thesis using c heap_stable_refl [OF ok] by (simp add: GrowHeap_def)
  next
    case False
    then have le: "n \<le> kMaxValidPages" "0 < ?ask" "?ask \<le> kMaxValidPages" using c n by auto
    have "unless_oom (?again h1) (\<lambda>(b, h'). heap_stable env own h h')" if s: "heap_stable env own h h1" for h1
    proof (cases "n < ?ask")
      case True
      have "unless_oom (bindR (sys_alloc_ph env n h1) (\<lambda>(res2, h2).
          case res2 of Some (ptr, actual_size) \<Rightarrow> grow_with env ptr actual_size h2 | None \<Rightarrow> Inr (False, h2))) (\<lambda>(b, h'). heap_stable env own h1 h')"
        by (rule alloc_and_grow [OF plain_heap_stable [OF h s] env n le(1)]) simp
      then have "unless_oom (bindR (sys_alloc_ph env n h1) (\<lambda>(res2, h2).
          case res2 of Some (ptr, actual_size) \<Rightarrow> grow_with env ptr actual_size h2 | None \<Rightarrow> Inr (False, h2))) (\<lambda>(b, h'). heap_stable env own h h')"
        by (rule oom_mono) (use heap_stable_trans [OF s] in auto)
      then show ?thesis using True by simp
    next
      case False
      then show ?thesis using s by simp
    qed
    from alloc_and_grow [OF h env le(2,3), of ?again, OF this] show ?thesis
      unfolding GrowHeap_def Let_def using False c(1) by (simp add: option.case_eq_if split_def cong: option.case_cong if_cong)
  qed
qed

section \<open>New\<close>

lemma New_ok:
  assumes h: "plain_heap env own h" and env: "madvise_ends env" and n: "0 < n"
  shows "unless_oom (New env n h) (\<lambda>(r, h'). case r of None \<Rightarrow> heap_stable env own h h' \<and> (\<forall>a. \<not> fits n (ph_spans h) a) | Some sp \<Rightarrow> span_granted env own h n sp h')"
proof -
  let ?Q = "\<lambda>(r, h'). case r of None \<Rightarrow> heap_stable env own h h' \<and> (\<forall>a. \<not> fits n (ph_spans h) a) | Some sp \<Rightarrow> span_granted env own h n sp h'"
  have H: "mem_os env own" "heap_ok env own h" using h by (simp_all add: plain_heap_def)
  text \<open>A search in a later state, and the step that grows the heap.\<close>
  have later: "unless_oom (SearchFreeAndLargeLists env n h1) (\<lambda>(r, h'). case r of None \<Rightarrow> heap_stable env own h h' | Some sp \<Rightarrow> span_granted env own h n sp h')"
    if s: "heap_stable env own h h1" for h1
  proof (rule oom_mono [OF SearchFreeAndLargeLists_ok [OF plain_heap_stable [OF h s] n]], clarify)
    fix r h' assume "search_result env own h1 n n (r, h')"
    then show "case r of None \<Rightarrow> heap_stable env own h h' | Some sp \<Rightarrow> span_granted env own h n sp h'"
      using s by (cases r) (auto simp: search_result_def heap_stable_def intro: span_granted_after)
  qed
  have grow: "unless_oom (bindR (GrowHeap env n h3) (\<lambda>(grown, h4).
        if \<not> grown then check (stats_balanced h4) (Inr (None, h4)) else SearchFreeAndLargeLists env n h4))
      (\<lambda>(r, h'). case r of None \<Rightarrow> heap_stable env own h h' | Some sp \<Rightarrow> span_granted env own h n sp h')"
    if s: "heap_stable env own h h3" for h3
  proof (rule oom_bind [OF GrowHeap_ok [OF plain_heap_stable [OF h s] env n]], clarify)
    fix grown h4 assume "heap_stable env own h3 h4"
    then have s4: "heap_stable env own h h4" using heap_stable_trans [OF s] by blast
    then have "stats_balanced h4" by (simp add: heap_stable_def heap_ok_def)
    then show "unless_oom (if \<not> grown then check (stats_balanced h4) (Inr (None, h4)) else SearchFreeAndLargeLists env n h4)
        (\<lambda>(r, h'). case r of None \<Rightarrow> heap_stable env own h h' | Some sp \<Rightarrow> span_granted env own h n sp h')"
      using later [OF s4] s4 by simp
  qed
  let ?c = "\<lambda>t. free_bytes t \<noteq> 0 \<and> unmapped_bytes t \<noteq> 0 \<and> free_bytes t + unmapped_bytes t \<ge> system_bytes t div 4 \<and>
    system_bytes t div kForcedCoalesceInterval \<noteq> (system_bytes t + page_bytes n) div kForcedCoalesceInterval"
  let ?second = "\<lambda>h1. if ?c (ph_stats_of h1) then bindR (ReleaseAtLeastNPages env 0x7fffffff h1) (\<lambda>(_, h2). SearchFreeAndLargeLists env n h2) else Inr (None, h1)"
  have second: "unless_oom (?second h) (\<lambda>(r, h'). case r of None \<Rightarrow> heap_stable env own h h' | Some sp \<Rightarrow> span_granted env own h n sp h')"
  proof -
    have "unless_oom (bindR (ReleaseAtLeastNPages env 0x7fffffff h) (\<lambda>(_, h2). SearchFreeAndLargeLists env n h2))
        (\<lambda>(r, h'). case r of None \<Rightarrow> heap_stable env own h h' | Some sp \<Rightarrow> span_granted env own h n sp h')"
    proof (rule oom_bind [OF oom_sure [OF ReleaseAtLeastNPages_ok [OF H(1) env H(2)]]], clarify)
      fix a :: int and h2 assume "heap_ok env own h2" "kept h h2"
      then show "unless_oom (SearchFreeAndLargeLists env n h2) (\<lambda>(r, h'). case r of None \<Rightarrow> heap_stable env own h h' | Some sp \<Rightarrow> span_granted env own h n sp h')"
        using later heap_stable_kept by blast
    qed
    then show ?thesis using heap_stable_refl [OF H(2)] by simp
  qed
  have run: "New env n h = bindR (SearchFreeAndLargeLists env n h) (\<lambda>(result, h1). case result of Some sp \<Rightarrow> Inr (Some sp, h1)
      | None \<Rightarrow> bindR (?second h1) (\<lambda>(result2, h3). case result2 of Some sp \<Rightarrow> Inr (Some sp, h3)
        | None \<Rightarrow> bindR (GrowHeap env n h3) (\<lambda>(grown, h4). if \<not> grown then check (stats_balanced h4) (Inr (None, h4)) else SearchFreeAndLargeLists env n h4)))"
    using n unfolding New_def Let_def by simp
  show ?thesis unfolding run
  proof (rule oom_bind [OF SearchFreeAndLargeLists_ok [OF h n]], clarify)
    fix r h1 assume r: "search_result env own h n n (r, h1)"
    show "unless_oom (case r of Some sp \<Rightarrow> Inr (Some sp, h1)
      | None \<Rightarrow> bindR (?second h1) (\<lambda>(result2, h3). case result2 of Some sp \<Rightarrow> Inr (Some sp, h3)
        | None \<Rightarrow> bindR (GrowHeap env n h3) (\<lambda>(grown, h4). if \<not> grown then check (stats_balanced h4) (Inr (None, h4)) else SearchFreeAndLargeLists env n h4))) ?Q"
    proof (cases r)
      case (Some sp)
      then show ?thesis using r by (simp add: search_result_def)
    next
      case None
      then have e: "h1 = h" and nf: "\<forall>a. \<not> fits n (ph_spans h) a" using r by (auto simp: search_result_def fits_def)
      have "unless_oom (bindR (?second h) (\<lambda>(result2, h3). case result2 of Some sp \<Rightarrow> Inr (Some sp, h3)
        | None \<Rightarrow> bindR (GrowHeap env n h3) (\<lambda>(grown, h4). if \<not> grown then check (stats_balanced h4) (Inr (None, h4)) else SearchFreeAndLargeLists env n h4)))
        (\<lambda>(r, h'). case r of None \<Rightarrow> heap_stable env own h h' | Some sp \<Rightarrow> span_granted env own h n sp h')"
      proof (rule oom_bind [OF second], clarify)
        fix r2 h3 assume "case r2 of None \<Rightarrow> heap_stable env own h h3 | Some sp \<Rightarrow> span_granted env own h n sp h3"
        then show "unless_oom (case r2 of Some sp \<Rightarrow> Inr (Some sp, h3)
          | None \<Rightarrow> bindR (GrowHeap env n h3) (\<lambda>(grown, h4). if \<not> grown then check (stats_balanced h4) (Inr (None, h4)) else SearchFreeAndLargeLists env n h4))
          (\<lambda>(r, h'). case r of None \<Rightarrow> heap_stable env own h h' | Some sp \<Rightarrow> span_granted env own h n sp h')"
          using grow [of h3] by (cases r2) simp_all
      qed
      then show ?thesis unfolding None e using nf by (auto elim!: oom_mono split: option.splits)
    qed
  qed
qed

section \<open>Splitting a span in use\<close>

lemma parts_inuse_upd:
  assumes p: "parts {} h" and a: "ph_spans h a = Some s" "sp_location s = IN_USE" "sp_location s' = IN_USE" "sp_has_span_iter s' = sp_has_span_iter s"
    and h': "ph_spans h' = (ph_spans h)(a \<mapsto> s')" "ph_normal h' = ph_normal h" "ph_returned h' = ph_returned h"
      "ph_large_normal h' = ph_large_normal h" "ph_large_returned h' = ph_large_returned h"
      "free_bytes (ph_stats_of h') = free_bytes (ph_stats_of h)" "unmapped_bytes (ph_stats_of h') = unmapped_bytes (ph_stats_of h)"
  shows "parts {} h'"
proof -
  have pa: "parts {a} h" using parts_inuse [of h a "{}"] p a by simp
  have "parts {a} h'" by (rule parts_cong [OF pa]) (use parts_iter [OF pa _ a(1)] a(4) h' in auto)
  then show ?thesis using parts_inuse [of h' a "{}"] h'(1) a(3) by simp
qed

lemma Split_ok:
  assumes os: "mem_os env own" and cap: "mem_cap own" and ok: "heap_ok env own h"
    and sp: "ph_spans h sp = Some s" "sp_location s = IN_USE" "sp_sizeclass s = 0" and n: "0 < n" "n < sp_length s"
  shows "unless_oom (Split env sp n h) (\<lambda>(lo, h'). heap_ok env own h' \<and> ph_spans h lo = None \<and> heap_pages (ph_spans h') = heap_pages (ph_spans h) \<and>
    live (ph_spans h') = (live (ph_spans h))(lo \<mapsto> span_of (sp_start s + n) (sp_length s - n), sp \<mapsto> s\<lparr>sp_length := n\<rparr>))"
proof -
  note H = heap_okD [OF ok]
  let ?st = "ph_spans h" and ?k = "sp_start s + n" and ?e = "sp_start s + sp_length s"
  have so: "span_ok (ph_pagemap h) sp s" using geo_span [of ?st _ sp s, OF H(1) sp(1)] .
  have nn: "sp \<noteq> NULL" using so by (simp add: span_ok_def)
  have es: "ens (ph_pagemap h) j" if "sp_start s \<le> j" "j < ?e" for j using so that by (simp add: span_ok_def)
  have ex: "to_size_t (to_int32 (sp_length s - n)) = sp_length s - n"
    using span_small [OF cap H(1,3) sp(1)] n by (simp add: to_int32_id to_size_t_id)
  have run: "Split env sp n h = bindR (new_span env ?k (sp_length s - n) h) (\<lambda>(leftover, h1). bindR (RecordSpan leftover h1) (\<lambda>h2.
      bindR (pagemap_set (?k - 1) sp h2) (\<lambda>h3. bindR (upd_span sp (\<lambda>s. s\<lparr>sp_length := n\<rparr>) h3) (\<lambda>h4. Inr (leftover, h4)))))"
    using sp nn n ex by (simp add: Split_def the_span_def Let_def)
  show ?thesis unfolding run
  proof (rule oom_bind [OF new_span_ok [OF os H(3) [unfolded mem_ok_def]]], clarify)
    let ?l = "span_of ?k (sp_length s - n)" and ?s' = "s\<lparr>sp_length := n\<rparr>"
    fix lo al ws w assume lo: "?st lo = None" "lo \<noteq> NULL" and pi: "pha_inv sizeof_Span env own (heap_mem ?st) (insert lo (dom ?st)) al ws w"
    let ?h1 = "h\<lparr>ph_span_allocator := al, ph_words := ws, ph_world := w, ph_spans := ?st(lo \<mapsto> ?l)\<rparr>"
    have ne: "sp \<noteq> lo" using lo sp by auto
    have l: "sp_start ?l = ?k" "sp_length ?l = sp_length s - n" "sp_location ?l = IN_USE" "\<not> sp_has_span_iter ?l" "sp_sizeclass ?l = 0" "\<not> sp_sample ?l" by (simp_all add: span_of_def)
    obtain m2 where m2: "RecordSpan lo ?h1 = Inr (?h1\<lparr>ph_pagemap := m2\<rparr>)" "lkp m2 = (lkp (ph_pagemap h))(?k := lo, ?e - 1 := lo)" "ens m2 = ens (ph_pagemap h)"
      using RecordSpan_ok [of ?h1 lo ?l] lo(2) l n es by (auto simp: sure_def)
    obtain m3 where m3: "pagemap_set (?k - 1) sp (?h1\<lparr>ph_pagemap := m2\<rparr>) = Inr (?h1\<lparr>ph_pagemap := m3\<rparr>)"
      "lkp m3 = (lkp (ph_pagemap h))(?k := lo, ?e - 1 := lo, ?k - 1 := sp)" "ens m3 = ens (ph_pagemap h)"
      using pagemap_set_ok [of "?h1\<lparr>ph_pagemap := m2\<rparr>" "?k - 1" sp] es [of "?k - 1"] n m2(2,3) by (auto simp: sure_def)
    let ?st' = "?st(lo \<mapsto> ?l, sp \<mapsto> ?s')"
    let ?h4 = "?h1\<lparr>ph_pagemap := m3, ph_spans := ?st'\<rparr>"
    have u: "upd_span sp (\<lambda>s. s\<lparr>sp_length := n\<rparr>) (?h1\<lparr>ph_pagemap := m3\<rparr>) = Inr ?h4" using nn ne sp(1) by (simp add: upd_span_ok)
    have ld: "lo \<notin> dom ?st" using lo(1) by auto
    have gs: "geo ?st' m3" "heap_pages ?st' = heap_pages ?st"
      by (rule geo_split [OF H(1) sp(1) ld lo(2) n _ _ _ _ _ _ _ _ m3(2,3)]; simp add: l sp(2,3))+
    have "parts {lo} h" using parts_inuse [of h lo "{}"] H(2) lo(1) by simp
    then have "parts {lo} ?h1" by (rule parts_cong) (use l(4) in auto)
    then have p1: "parts {} ?h1" using parts_inuse [of ?h1 lo "{}"] l(3) by simp
    have p4: "parts {} ?h4" by (rule parts_inuse_upd [OF p1, of sp s ?s']) (use sp ne in simp_all)
    have "dom ?st' = insert lo (dom ?st)" using sp(1) by auto
    then have m4: "mem_ok env own ?h4" using pi heap_mem_cong [OF gs(2)] by (simp add: mem_ok_def)
    have co: "coalesced {} ?st'" if "coalesced {} ?st"
    proof -
      have "coalesced {} (?st(lo \<mapsto> ?l))"
        using coalesced_floating [OF that, of lo ?l] coalesced_inuse [of "?st(lo \<mapsto> ?l)" lo ?l] l(3) by simp
      then show ?thesis using coalesced_floating [of "?st(lo \<mapsto> ?l)" sp ?s'] coalesced_inuse [of ?st' sp ?s'] sp(2) by simp
    qed
    have "heap_ok env own ?h4" using ok gs(1) p4 m4 co by (simp add: heap_ok_def ph_inv_def stats_balanced_def)
    moreover have "live ?st' = (live ?st)(lo \<mapsto> ?l, sp \<mapsto> ?s')" using sp(2) l(3) by (auto simp: live_def)
    ultimately show "unless_oom (bindR (RecordSpan lo ?h1) (\<lambda>h2. bindR (pagemap_set (?k - 1) sp h2) (\<lambda>h3.
        bindR (upd_span sp (\<lambda>s. s\<lparr>sp_length := n\<rparr>) h3) (\<lambda>h4. Inr (lo, h4)))))
      (\<lambda>(lo, h'). heap_ok env own h' \<and> ?st lo = None \<and> heap_pages (ph_spans h') = heap_pages ?st \<and>
        live (ph_spans h') = (live ?st)(lo \<mapsto> span_of ?k (sp_length s - n), sp \<mapsto> ?s'))"
      unfolding m2(1) bindR_simps m3(1) u using lo(1) gs(2) by simp
  qed
qed

section \<open>Registering a size class\<close>

lemma geo_interior:
  assumes g: "geo st m" and s: "st sp = Some s" "sp_location s = IN_USE" and ks: "ks \<subseteq> page_set s"
    and ends: "page_set s \<subseteq> insert (sp_start s) (insert (sp_start s + sp_length s - 1) ks)"
    and m': "lkp m' = (\<lambda>j. if j \<in> ks then sp else lkp m j)" "ens m' = ens m"
  shows "geo (st(sp \<mapsto> s\<lparr>sp_sizeclass := sc\<rparr>)) m'"
proof -
  let ?s' = "s\<lparr>sp_sizeclass := sc\<rparr>"
  let ?st = "st(sp \<mapsto> ?s')"
  have so: "span_ok m sp s" using geo_span [of st m sp s, OF g s(1)] .
  have ps: "page_set ?s' = page_set s" by (simp add: page_set_def)
  have all: "lkp m' j = sp" if "j \<in> page_set s" for j using that ends so unfolding m'(1) by (auto simp: span_ok_def)
  moreover have "sp_start s \<in> page_set s" "sp_start s + sp_length s - 1 \<in> page_set s" using so by (auto simp: span_ok_def page_set_def)
  ultimately have "span_ok m' sp ?s'" using so s(2) unfolding span_ok_def ps m'(2) by simp
  moreover have "span_ok m' c u" if c: "st c = Some u" "c \<noteq> sp" for c u
  proof (rule span_ok_frame [OF geo_span [of st m c u, OF g c(1)] _ m'(2)])
    fix j assume "j \<in> page_set u"
    then have "j \<notin> ks" using geo_same [of st m sp s c u, OF g s(1) c(1)] ks c(2) by blast
    then show "lkp m' j = lkp m j" by (simp add: m'(1))
  qed
  ultimately have sok: "span_ok m' c u" if "?st c = Some u" for c u using that by (cases "c = sp") simp_all
  have old: "\<exists>v. st c = Some v \<and> page_set v = page_set u" if "?st c = Some u" for c u using that s(1) ps by (cases "c = sp") auto
  have dj: "page_set u \<inter> page_set v = {}" if "?st c = Some u" "?st d = Some v" "c \<noteq> d" for c d u v
    using old [OF that(1)] old [OF that(2)] that(3) geo_disjoint [OF g] by metis
  have own: "\<exists>c u. ?st c = Some u \<and> j \<in> page_set u" if "lkp m' j \<noteq> NULL" for j
  proof (cases "j \<in> page_set s")
    case True then show ?thesis using ps by (intro exI [of _ sp] exI [of _ ?s']) simp
  next
    case False
    then have "lkp m j \<noteq> NULL" using that ks unfolding m'(1) by (auto split: if_splits)
    then obtain c u where "st c = Some u" "j \<in> page_set u" using geo_owner [OF g] by blast
    then show ?thesis using False s(1) by (intro exI [of _ c] exI [of _ u]) auto
  qed
  show ?thesis unfolding geo_def using geo_finite [OF g] sok dj own by (intro conjI allI impI) auto
qed

lemma RegisterSizeClass_ok:
  assumes ok: "heap_ok env own h" and sp: "ph_spans h sp = Some s" "sp_location s = IN_USE"
  shows "sure (RegisterSizeClass sp sc h) (\<lambda>h'. heap_ok env own h' \<and> ph_spans h' = (ph_spans h)(sp \<mapsto> s\<lparr>sp_sizeclass := sc\<rparr>) \<and>
    (\<forall>k\<in>page_set s. GetDescriptor h' k = Inr sp))"
proof -
  note H = heap_okD [OF ok]
  let ?st = "ph_spans h" and ?e = "sp_start s + sp_length s" and ?s' = "s\<lparr>sp_sizeclass := sc\<rparr>"
  have so: "sp \<noteq> NULL" "0 < sp_start s" "0 < sp_length s" "lkp (ph_pagemap h) (sp_start s) = sp" "lkp (ph_pagemap h) (?e - 1) = sp"
    and es: "\<forall>j. sp_start s - 1 \<le> j \<and> j \<le> ?e \<longrightarrow> ens (ph_pagemap h) j"
    using geo_span [of ?st _ sp s, OF H(1) sp(1)] by (simp_all add: span_ok_def)
  let ?ks = "[sp_start s + 1..?e - 2]"
  have "\<And>k. k \<in> set ?ks \<Longrightarrow> ens (ph_pagemap h) k" using es by auto
  from pm2.set_keys_lookup [of ?ks map_bits "ph_pagemap h" sp, OF this] obtain m' where m': "set_keys (pm2_set map_bits) ?ks sp (ph_pagemap h) = Inr m'"
    "lkp m' = (\<lambda>j. if j \<in> set ?ks then sp else lkp (ph_pagemap h) j)" "ens m' = ens (ph_pagemap h)" by blast
  let ?h' = "h\<lparr>ph_spans := ?st(sp \<mapsto> ?s'), ph_pagemap := m'\<rparr>"
  have gd: "GetDescriptor h (sp_start s) = Inr sp" "GetDescriptor h (?e - 1) = Inr sp" using GetDescriptor_ok [of _ h] so by simp_all
  have run: "RegisterSizeClass sp sc h = Inr ?h'"
    using sp so(1) gd m'(1) by (simp add: RegisterSizeClass_def the_span_def upd_span_ok)
  have dm: "dom (?st(sp \<mapsto> ?s')) = dom ?st" using sp(1) by auto
  have pg: "heap_pages (?st(sp \<mapsto> ?s')) = heap_pages ?st" by (rule heap_pages_upd [of ?st sp s, OF sp(1)]) (simp add: page_set_def)
  have "geo (?st(sp \<mapsto> ?s')) m'" by (rule geo_interior [OF H(1) sp _ _ m'(2,3)]) (auto simp: page_set_def)
  moreover have "parts {} ?h'" by (rule parts_inuse_upd [OF H(2) sp(1), of ?s']) (use sp(2) in simp_all)
  moreover have "mem_ok env own ?h'" using H(3) dm heap_mem_cong [OF pg] by (simp add: mem_ok_def)
  moreover have "coalesced {} (?st(sp \<mapsto> ?s'))" if "coalesced {} ?st"
    using coalesced_floating [OF that, of sp ?s'] coalesced_inuse [of "?st(sp \<mapsto> ?s')" sp ?s'] sp(2) by simp
  ultimately have "heap_ok env own ?h'" using ok by (simp add: heap_ok_def ph_inv_def stats_balanced_def)
  moreover have "GetDescriptor ?h' k = Inr sp" if "k \<in> page_set s" for k
  proof -
    have k: "sp_start s \<le> k" "k < ?e" using that by (simp_all add: page_set_def)
    then have "k \<in> set ?ks \<or> k = sp_start s \<or> k = ?e - 1" by auto
    then have "lkp m' k = sp" using m'(2) so(4,5) by auto
    then show ?thesis using GetDescriptor_ok [of k ?h'] k so(2) by simp
  qed
  ultimately show ?thesis using run by simp
qed

end
