(* ===== verification/Page_Heap_Props.thy ===== *)
theory Page_Heap_Props
  imports Page_Heap_New
begin

text \<open>
  The page heap as seen by its clients: an interface for sources of page runs, its interpretation on the
  page heap, and the properties of the page heap.
\<close>

section \<open>The expensive check\<close>

lemma descriptor_ends:
  assumes "geo (ph_spans h) (ph_pagemap h)" "ph_spans h sp = Some s"
  shows "sp \<noteq> NULL" "GetDescriptor h (sp_start s) = Inr sp" "GetDescriptor h (sp_start s + sp_length s - 1) = Inr sp"
  using geo_span [of _ _ sp s, OF assms] by (simp_all add: span_ok_def GetDescriptor_ok)

lemma CheckList_ok:
  assumes "geo (ph_spans h) (ph_pagemap h)"
    "\<forall>sp\<in>set xs. \<exists>s. ph_spans h sp = Some s \<and> sp_location s = loc \<and> lo \<le> sp_length s \<and> sp_length s \<le> hi"
  shows "CheckList h lo hi loc xs = Inr True"
  using assms(2) by (induction xs) (auto simp: the_span_def descriptor_ends [OF assms(1)])

lemma CheckSet_ok:
  assumes "geo (ph_spans h) (ph_pagemap h)"
    "\<forall>e\<in>set xs. \<exists>s. ph_spans h (spl_span e) = Some s \<and> sp_location s = loc \<and> lo \<le> sp_length s \<and> spl_length e = sp_length s"
  shows "CheckSet h lo loc xs = Inr True"
  using assms(2) by (induction xs) (auto simp: the_span_def descriptor_ends [OF assms(1)])

lemma check_lists_ok:
  assumes "geo (ph_spans h) (ph_pagemap h)" "parts {} h" "\<forall>s\<in>set ss. 1 \<le> s \<and> s \<le> kMaxPages"
  shows "check_lists h ss = Inr True"
  using assms(3)
proof (induction ss)
  case (Cons s ss)
  have small: "\<forall>sp\<in>set (f (s - 1)). \<exists>x. ph_spans h sp = Some x \<and> sp_location x = loc \<and> s \<le> sp_length x \<and> sp_length x \<le> s"
    if f: "small_ok {} (ph_spans h) loc f" for f loc
  proof
    fix sp assume "sp \<in> set (f (s - 1))"
    moreover have "set (f (s - 1)) = {a \<in> loc_set {} (ph_spans h) loc. span_len (ph_spans h) a = s}" using f Cons.prems by (auto simp: small_ok_def)
    ultimately show "\<exists>x. ph_spans h sp = Some x \<and> sp_location x = loc \<and> s \<le> sp_length x \<and> sp_length x \<le> s" by (auto simp: loc_set_def)
  qed
  have "small_ok {} (ph_spans h) ON_NORMAL_FREELIST (ph_normal h)" "small_ok {} (ph_spans h) ON_RETURNED_FREELIST (ph_returned h)"
    using assms(2) by (simp_all add: parts_def)
  then show ?case using Cons CheckList_ok [OF assms(1) small] by simp
qed simp

lemma CheckExpensive_ok:
  assumes "heap_ok env own h" shows "CheckExpensive h = Inr True"
proof -
  note H = heap_okD [OF assms]
  have "\<forall>e\<in>set xs. \<exists>s. ph_spans h (spl_span e) = Some s \<and> sp_location s = loc \<and> kMaxPages + 1 \<le> sp_length s \<and> spl_length e = sp_length s"
    if "large_ok {} (ph_spans h) loc xs" for xs loc
    using that by (auto simp: large_ok_def loc_set_def)
  then have "CheckSet h (kMaxPages + 1) loc xs = Inr True" if "large_ok {} (ph_spans h) loc xs" for loc xs
    using CheckSet_ok [OF H(1)] that by blast
  moreover have "check_lists h [1..kMaxPages] = Inr True" by (rule check_lists_ok [OF H(1,2)]) simp
  ultimately show ?thesis using H(2) by (simp add: CheckExpensive_def parts_def)
qed

section \<open>The constructor\<close>

lemma page_heap_new_ok:
  assumes "pha_inv sizeof_Span env own {} {} al ws w"
  shows "heap_ok env own (page_heap_new al ws w)"
proof -
  have e: "heap_pages (\<lambda>_. None) = {}" "heap_mem (\<lambda>_. None) = {}" by (simp_all add: heap_pages_def heap_mem_def)
  have "geo (\<lambda>_. None) pm2_new" by (simp add: geo_def pm2_new_def pm2_lookup_def)
  then show ?thesis using assms
    by (simp add: heap_ok_def ph_inv_def mem_ok_def page_heap_new_def e parts_def small_ok_def large_ok_def iter_ok_def loc_bytes_def
        loc_set_def stats_new_def stats_balanced_def coalesced_def kMaxPages_def)
qed

section \<open>Sources of page runs\<close>

text \<open>
  What the central lists and the large allocations rely on. A client asks for pages and gives back, by its
  position, one of the runs it holds.
\<close>

datatype run_request = Ask int | Give nat

fun serve ::
  "(int \<Rightarrow> 's \<Rightarrow> (addr option \<times> 's) result) \<Rightarrow> (addr \<Rightarrow> 's \<Rightarrow> 's result) \<Rightarrow> run_request list \<Rightarrow> addr list \<Rightarrow> 's \<Rightarrow> (addr list \<times> 's) result" where
  "serve new_run free_run [] held s = Inr (held, s)"
| "serve new_run free_run (Ask n # rs) held s =
     bindR (new_run n s) (\<lambda>(r, s'). serve new_run free_run rs (case r of None \<Rightarrow> held | Some a \<Rightarrow> a # held) s')"
| "serve new_run free_run (Give i # rs) held s =
     (if i < length held then bindR (free_run (held ! i) s) (\<lambda>s'. serve new_run free_run rs (remove1 (held ! i) held) s')
      else serve new_run free_run rs held s)"

locale page_source =
  fixes ok :: "'s \<Rightarrow> bool" and used :: "'s \<Rightarrow> addr \<Rightarrow> span option"
    and new_run :: "int \<Rightarrow> 's \<Rightarrow> (addr option \<times> 's) result" and free_run :: "addr \<Rightarrow> 's \<Rightarrow> 's result"
  assumes new_law: "ok s \<Longrightarrow> 0 < n \<Longrightarrow> unless_oom (new_run n s) (\<lambda>(r, s'). ok s' \<and>
      (case r of None \<Rightarrow> used s' = used s | Some a \<Rightarrow> used s a = None \<and> (\<exists>x. sp_length x = n \<and> used s' = (used s)(a \<mapsto> x))))"
    and free_law: "ok s \<Longrightarrow> used s a = Some x \<Longrightarrow> sure (free_run a s) (\<lambda>s'. ok s' \<and> used s' = (used s)(a := None))"
    and apart_law: "ok s \<Longrightarrow> used s a = Some x \<Longrightarrow> used s b = Some y \<Longrightarrow> a \<noteq> b \<Longrightarrow> page_set x \<inter> page_set y = {}"
begin

text \<open>Whatever a client asks for and gives back, it holds exactly the runs that are in use, each once.\<close>

lemma serve_ok:
  "ok s \<Longrightarrow> distinct held \<Longrightarrow> set held = dom (used s) \<Longrightarrow> \<forall>n. Ask n \<in> set rs \<longrightarrow> 0 < n \<Longrightarrow>
   unless_oom (serve new_run free_run rs held s) (\<lambda>(held', s'). ok s' \<and> distinct held' \<and> set held' = dom (used s'))"
proof (induction rs arbitrary: held s)
  case (Cons q rs)
  show ?case
  proof (cases q)
    case (Ask n)
    then have n: "0 < n" using Cons.prems by simp
    show ?thesis unfolding Ask serve.simps
    proof (rule oom_bind [OF new_law [OF Cons.prems(1) n]], clarify)
      fix r s' assume s': "ok s'" and r: "case r of None \<Rightarrow> used s' = used s | Some a \<Rightarrow> used s a = None \<and> (\<exists>x. sp_length x = n \<and> used s' = (used s)(a \<mapsto> x))"
      show "unless_oom (serve new_run free_run rs (case r of None \<Rightarrow> held | Some a \<Rightarrow> a # held) s')
        (\<lambda>(held', s'). ok s' \<and> distinct held' \<and> set held' = dom (used s'))"
        by (rule Cons.IH [OF s']) (use Cons.prems(2-4) r in \<open>auto split: option.splits\<close>)
    qed
  next
    case (Give i)
    show ?thesis
    proof (cases "i < length held")
      case True
      then have "held ! i \<in> dom (used s)" using Cons.prems(3) by auto
      then obtain x where x: "used s (held ! i) = Some x" by blast
      have "unless_oom (bindR (free_run (held ! i) s) (\<lambda>s'. serve new_run free_run rs (remove1 (held ! i) held) s'))
        (\<lambda>(held', s'). ok s' \<and> distinct held' \<and> set held' = dom (used s'))"
      proof (rule oom_bind [OF oom_sure [OF free_law [OF Cons.prems(1) x]]])
        fix s' assume "ok s' \<and> used s' = (used s)(held ! i := None)"
        then show "unless_oom (serve new_run free_run rs (remove1 (held ! i) held) s') (\<lambda>(held', s'). ok s' \<and> distinct held' \<and> set held' = dom (used s'))"
          using Cons.prems(2-4) by (intro Cons.IH) (auto split: if_splits)
      qed
      then show ?thesis using True Give by simp
    next
      case False
      then show ?thesis using Cons Give by simp
    qed
  qed
qed simp

end

lemma live_Some: "live st a = Some s \<longleftrightarrow> st a = Some s \<and> sp_location s = IN_USE"
  by (auto simp: live_def split: option.splits if_splits)

interpretation ph: page_source "\<lambda>h. plain_heap env own h \<and> madvise_ends env" "\<lambda>h. live (ph_spans h)" "New env" "Delete env"
  for env :: "'k tc_env" and own :: "'k \<Rightarrow> addr set"
proof
  fix h :: "'k page_heap" and n :: int
  assume h: "plain_heap env own h \<and> madvise_ends env" and n: "0 < n"
  then have ph: "plain_heap env own h" "madvise_ends env" by simp_all
  show "unless_oom (New env n h) (\<lambda>(r, h'). (plain_heap env own h' \<and> madvise_ends env) \<and>
      (case r of None \<Rightarrow> live (ph_spans h') = live (ph_spans h)
       | Some a \<Rightarrow> live (ph_spans h) a = None \<and> (\<exists>x. sp_length x = n \<and> live (ph_spans h') = (live (ph_spans h))(a \<mapsto> x))))"
  proof (rule oom_mono [OF New_ok [OF ph n]], clarify)
    fix r h' assume r: "case r of None \<Rightarrow> heap_stable env own h h' \<and> (\<forall>a. \<not> fits n (ph_spans h) a) | Some sp \<Rightarrow> span_granted env own h n sp h'"
    show "(plain_heap env own h' \<and> madvise_ends env) \<and>
      (case r of None \<Rightarrow> live (ph_spans h') = live (ph_spans h)
       | Some a \<Rightarrow> live (ph_spans h) a = None \<and> (\<exists>x. sp_length x = n \<and> live (ph_spans h') = (live (ph_spans h))(a \<mapsto> x)))"
      using h r by (cases r) (auto simp: heap_stable_def span_granted_def plain_heap_def)
  qed
next
  fix h :: "'k page_heap" and a x
  assume h: "plain_heap env own h \<and> madvise_ends env" and x: "live (ph_spans h) a = Some x"
  have "sure (Delete env a h) (\<lambda>h'. heap_ok env own h' \<and> live (ph_spans h') = (live (ph_spans h))(a := None) \<and>
      heap_pages (ph_spans h') = heap_pages (ph_spans h) \<and> ph_aggressive_decommit h' = ph_aggressive_decommit h \<and>
      system_bytes (ph_stats_of h') = system_bytes (ph_stats_of h))"
    by (rule Delete_ok) (use h x in \<open>auto simp: plain_heap_def live_Some\<close>)
  then show "sure (Delete env a h) (\<lambda>h'. (plain_heap env own h' \<and> madvise_ends env) \<and> live (ph_spans h') = (live (ph_spans h))(a := None))"
    by (rule sure_mono) (use h in \<open>auto simp: plain_heap_def\<close>)
next
  fix h :: "'k page_heap" and a b x y
  assume "plain_heap env own h \<and> madvise_ends env" "live (ph_spans h) a = Some x" "live (ph_spans h) b = Some y" "a \<noteq> b"
  then show "page_set x \<inter> page_set y = {}"
    using geo_disjoint [of "ph_spans h" "ph_pagemap h" a x b y] heap_okD(1) [of env own h] by (auto simp: plain_heap_def live_Some)
qed

section \<open>A system with a bounded amount of memory\<close>

definition cap_env :: "int tc_env" where
  "cap_env = bump_env\<lparr>os_sbrk := (\<lambda>n k. if 0 < k \<and> k + n \<le> 2 ^ 40 then (k, k + n) else (ptr_minus_one, k))\<rparr>"

definition cap_own :: "int \<Rightarrow> addr set" where "cap_own k = {0<..<min k (2 ^ 40)}"

lemma cap_mem_os: "mem_os cap_env cap_own"
  unfolding mem_os_def by (auto simp: cap_env_def bump_env_def cap_own_def new_block_def ptr_minus_one_def intro: exI [of _ 12])

lemma cap_madvise_ends: "madvise_ends cap_env"
  by (simp add: madvise_ends_def madvise_loop.simps cap_env_def bump_env_def)

lemma cap_mem_cap: "mem_cap cap_own"
  unfolding mem_cap_def cap_own_def by (auto simp: min_def)

text \<open>The static initialisation of the span allocator and of the page heap.\<close>

definition start_heap :: "'k tc_env \<Rightarrow> 'k world \<Rightarrow> 'k page_heap result" where
  "start_heap env w0 = bindR (pha_init sizeof_Span env (\<lambda>_. None) w0) (\<lambda>(al, ws, w). Inr (page_heap_new al ws w))"

lemma start_heap_ok:
  assumes "mem_os env own" "meta_ok env own {} w0" "start_heap env w0 = Inr h"
  shows "heap_ok env own h \<and> \<not> ph_aggressive_decommit h \<and> live (ph_spans h) = (\<lambda>_. None)"
proof -
  obtain al ws w where r: "pha_init sizeof_Span env (\<lambda>_. None) w0 = Inr (al, ws, w)" "h = page_heap_new al ws w"
    using assms(3) by (auto simp: start_heap_def bindR_eq_Inr)
  have "0 < sizeof_Span" "sizeof_Span \<le> kAllocIncrement" by (simp_all add: sizeof_Span_def kAllocIncrement_def)
  from pha_init_ok [OF assms(1,2) this r(1)] show ?thesis
    using page_heap_new_ok [of env own al ws w] by (auto simp: r(2) page_heap_new_def live_def)
qed

definition cap_heap :: "int page_heap" where
  "cap_heap = (case start_heap cap_env (world_new 5000) of Inr h \<Rightarrow> h | Inl e \<Rightarrow> page_heap_new \<lparr>pha_free_area = 0, pha_free_avail = 0, pha_free_list = 0, pha_inuse = 0\<rparr> (\<lambda>_. None) (world_new 5000))"

lemma cap_heap_start: "start_heap cap_env (world_new 5000) = Inr cap_heap"
proof -
  have "case start_heap cap_env (world_new 5000) of Inr h \<Rightarrow> True | Inl e \<Rightarrow> False" by code_simp
  then show ?thesis by (auto simp: cap_heap_def split: sum.splits)
qed

lemma cap_heap_plain: "plain_heap cap_env cap_own cap_heap"
  using start_heap_ok [OF cap_mem_os world_new_ok cap_heap_start] cap_mem_os cap_mem_cap
  by (simp add: plain_heap_def) (simp add: cap_env_def bump_env_def)

section \<open>Properties\<close>

text \<open>
  C13: \<open>New\<close>. In every heap that satisfies the invariant, for every positive number of pages, the
  allocation ends without a failed assertion or invalid access; the only failure is that the system has no
  memory for a span descriptor. It keeps the invariant; it returns null only if no free span has enough
  pages, and otherwise a span that was not in use and now has exactly the pages asked for, while every other
  span in use is as before.
\<close>
theorem page_heap_new_grants:
  assumes "plain_heap env own h" "madvise_ends env" "0 < n"
  shows "unless_oom (New env n h) (\<lambda>(r, h'). heap_ok env own h' \<and>
    (case r of None \<Rightarrow> live (ph_spans h') = live (ph_spans h) \<and> (\<forall>a. \<not> fits n (ph_spans h) a)
     | Some sp \<Rightarrow> live (ph_spans h) sp = None \<and>
         (\<exists>s. sp_length s = n \<and> sp_location s = IN_USE \<and> live (ph_spans h') = (live (ph_spans h))(sp \<mapsto> s))))"
  by (rule oom_mono [OF New_ok [OF assms]]) (auto simp: heap_stable_def span_granted_def split: option.splits)

theorem page_heap_new_grants_witness:
  "case New cap_env 200 cap_heap of Inr (Some sp, h') \<Rightarrow> (\<exists>s. sp_length s = 200 \<and> live (ph_spans h') = [sp \<mapsto> s]) | _ \<Rightarrow> False"
proof -
  have e: "case New cap_env 200 cap_heap of Inr (Some sp, h') \<Rightarrow> True | _ \<Rightarrow> False" by code_simp
  have "live (ph_spans cap_heap) = (\<lambda>_. None)" using start_heap_ok [OF cap_mem_os world_new_ok cap_heap_start] by simp
  with page_heap_new_grants [OF cap_heap_plain cap_madvise_ends, of 200] e show ?thesis
    by (auto simp: unless_oom_def sure_def split: sum.splits option.splits)
qed

text \<open>
  \<open>Delete\<close>. Freeing a span in use keeps the invariant: the free lists and sets hold exactly the free
  spans by kind and length, the page map leads from the ends of every span to it, spans are disjoint, the
  byte counters agree with the lists and \<open>unmapped + committed = system\<close>. Apart from the nodes of the \<open>std::set\<close>s,
  whose allocation is not modelled, it always ends, also with scavenging and with aggressive decommit, fails no assertion, frees exactly that span, and loses no page.
\<close>
lemma page_heap_delete_keeps:
  assumes "mem_os env own" "madvise_ends env" "heap_ok env own h" "ph_spans h sp = Some s" "sp_location s = IN_USE"
  shows "\<exists>h'. Delete env sp h = Inr h' \<and> heap_ok env own h' \<and> live (ph_spans h') = (live (ph_spans h))(sp := None) \<and>
    heap_pages (ph_spans h') = heap_pages (ph_spans h)"
  using Delete_ok [OF assms] by (auto simp: sure_def)

lemma page_heap_delete_keeps_witness:
  "case New cap_env 3 cap_heap of
     Inr (Some sp, h) \<Rightarrow> (\<exists>h'. Delete cap_env sp h = Inr h' \<and> heap_ok cap_env cap_own h' \<and> live (ph_spans h') = (\<lambda>_. None))
   | _ \<Rightarrow> False"
proof -
  have e: "case New cap_env 3 cap_heap of Inr (Some sp, h) \<Rightarrow> True | _ \<Rightarrow> False" by code_simp
  then obtain sp h where n: "New cap_env 3 cap_heap = Inr (Some sp, h)" by (auto split: sum.splits option.splits)
  have l0: "live (ph_spans cap_heap) = (\<lambda>_. None)" using start_heap_ok [OF cap_mem_os world_new_ok cap_heap_start] by simp
  have "span_granted cap_env cap_own cap_heap 3 sp h"
    using New_ok [OF cap_heap_plain cap_madvise_ends, of 3] n by (simp add: unless_oom_def)
  then obtain s where h: "heap_ok cap_env cap_own h" "live (ph_spans h) = [sp \<mapsto> s]" by (auto simp: span_granted_def l0)
  then have "ph_spans h sp = Some s" "sp_location s = IN_USE" using live_Some [of "ph_spans h" sp s] by simp_all
  from page_heap_delete_keeps [OF cap_mem_os cap_madvise_ends h(1) this] show ?thesis using h(2) by (auto simp: n)
qed

text \<open>
  C8: the page heap as a source of page runs. From the static initialisation on, whatever positive numbers
  of pages a client asks for and whichever of its runs it gives back, in any order, no operation fails (but
  for want of memory), the client holds exactly the spans in use, each once, no page belongs to two of them,
  every page belongs to memory the process owns, and the heap passes its own check.
\<close>
theorem page_heap_serves:
  assumes "mem_os env own" "mem_cap own" "madvise_ends env" "heap_limit_mb env = 0" "meta_ok env own {} w0"
    and "start_heap env w0 = Inr h0" "\<forall>n. Ask n \<in> set rs \<longrightarrow> 0 < n"
  shows "unless_oom (serve (New env) (Delete env) rs [] h0) (\<lambda>(held, h). distinct held \<and> set held = dom (live (ph_spans h)) \<and>
    (\<forall>a b s t. live (ph_spans h) a = Some s \<longrightarrow> live (ph_spans h) b = Some t \<longrightarrow> a \<noteq> b \<longrightarrow> page_set s \<inter> page_set t = {}) \<and>
    heap_mem (ph_spans h) \<subseteq> own (w_os (ph_world h)) \<and> CheckExpensive h = Inr True)"
proof -
  have s0: "heap_ok env own h0" "\<not> ph_aggressive_decommit h0" "live (ph_spans h0) = (\<lambda>_. None)"
    using start_heap_ok [OF assms(1,5,6)] by simp_all
  then have "plain_heap env own h0 \<and> madvise_ends env" using assms by (simp add: plain_heap_def)
  then have "unless_oom (serve (New env) (Delete env) rs [] h0) (\<lambda>(held, h). (plain_heap env own h \<and> madvise_ends env) \<and>
      distinct held \<and> set held = dom (live (ph_spans h)))"
    by (rule ph.serve_ok) (use s0(3) assms(7) in simp_all)
  then show ?thesis
  proof (rule oom_mono)
    fix x assume x: "case x of (held, h) \<Rightarrow> (plain_heap env own h \<and> madvise_ends env) \<and> distinct held \<and> set held = dom (live (ph_spans h))"
    obtain held h where hh: "x = (held, h)" by fastforce
    then have p: "plain_heap env own h" and d: "distinct held" "set held = dom (live (ph_spans h))" using x by simp_all
    have h: "heap_ok env own h" using p by (simp add: plain_heap_def)
    have "page_set s \<inter> page_set t = {}" if "live (ph_spans h) a = Some s" "live (ph_spans h) b = Some t" "a \<noteq> b" for a b s t
      using ph.apart_law [of env own h a s b t] p assms(3) that by blast
    then show "case x of (held, h) \<Rightarrow> distinct held \<and> set held = dom (live (ph_spans h)) \<and>
      (\<forall>a b s t. live (ph_spans h) a = Some s \<longrightarrow> live (ph_spans h) b = Some t \<longrightarrow> a \<noteq> b \<longrightarrow> page_set s \<inter> page_set t = {}) \<and>
      heap_mem (ph_spans h) \<subseteq> own (w_os (ph_world h)) \<and> CheckExpensive h = Inr True"
      unfolding hh using d heap_mem_owned [OF heap_okD(3) [OF h]] CheckExpensive_ok [OF h] by simp
  qed
qed

theorem page_heap_serves_witness:
  "case serve (New cap_env) (Delete cap_env) [Ask 2, Ask 300, Give 1, Ask 1] [] cap_heap of
     Inr (held, h) \<Rightarrow> length held = 2 \<and> set held = dom (live (ph_spans h)) \<and> CheckExpensive h = Inr True | Inl e \<Rightarrow> False"
proof -
  let ?rs = "[Ask 2, Ask 300, Give 1, Ask 1]"
  have e: "case serve (New cap_env) (Delete cap_env) ?rs [] cap_heap of Inr (held, h) \<Rightarrow> length held = 2 | Inl e \<Rightarrow> False" by code_simp
  have "heap_limit_mb cap_env = 0" by (simp add: cap_env_def bump_env_def)
  from page_heap_serves [OF cap_mem_os cap_mem_cap cap_madvise_ends this world_new_ok cap_heap_start, of ?rs] e show ?thesis
    by (auto simp: unless_oom_def sure_def split: sum.splits)
qed

text \<open>
  A heap with three spans behind each other: four returned pages, a normal free page, a page in use.
\<close>

definition mixed_spans :: span_store where
  "mixed_spans = [1000 \<mapsto> (span_of 8 4)\<lparr>sp_location := ON_RETURNED_FREELIST\<rparr>,
     1064 \<mapsto> (span_of 12 1)\<lparr>sp_location := ON_NORMAL_FREELIST\<rparr>, 1128 \<mapsto> span_of 13 1]"

definition mixed_leaf :: leaf where
  "mixed_leaf = ((((\<lambda>_. NULL)(8 := 1000))(11 := 1000))(12 := 1064))(13 := 1128)"

definition mixed_heap :: "int page_heap" where
  "mixed_heap = (page_heap_new \<lparr>pha_free_area = 0, pha_free_avail = 0, pha_free_list = 0, pha_inuse = 3\<rparr>
     [1000 \<mapsto> 0, 1064 \<mapsto> 0, 1128 \<mapsto> 0] (world_new 200000))
   \<lparr>ph_spans := mixed_spans, ph_pagemap := [0 \<mapsto> mixed_leaf], ph_normal := (\<lambda>_. [])(0 := [1064]), ph_returned := (\<lambda>_. [])(3 := [1000]),
    ph_stats_of := stats_new\<lparr>system_bytes := 49152, free_bytes := 8192, unmapped_bytes := 32768, committed_bytes := 16384\<rparr>\<rparr>"

lemma mixed_cases: "mixed_spans a = Some s \<longleftrightarrow> a = 1000 \<and> s = (span_of 8 4)\<lparr>sp_location := ON_RETURNED_FREELIST\<rparr> \<or>
    a = 1064 \<and> s = (span_of 12 1)\<lparr>sp_location := ON_NORMAL_FREELIST\<rparr> \<or> a = 1128 \<and> s = span_of 13 1"
  by (auto simp: mixed_spans_def)

lemma mixed_geo: "geo mixed_spans [0 \<mapsto> mixed_leaf]"
proof -
  have lb: "leaf_bits2 map_bits = 18" by (simp add: leaf_bits2_def map_bits_def)
  have z: "k div 2 ^ 18 = 0 \<longleftrightarrow> 0 \<le> k \<and> k < 2 ^ 18" for k :: int by auto
  have l: "lkp [0 \<mapsto> mixed_leaf] k = (if 0 \<le> k \<and> k < 2 ^ 18 then mixed_leaf k else NULL)" for k
  proof (cases "0 \<le> k \<and> k < 2 ^ 18")
    case True
    then have "k div 2 ^ 18 = 0" "k mod 2 ^ 18 = k" by simp_all
    then show ?thesis unfolding pm2_lookup_def lb using True by (simp add: map_bits_def)
  next
    case False
    then have "k div 2 ^ 18 \<noteq> 0" using z [of k] by blast
    then show ?thesis unfolding pm2_lookup_def lb using False by (simp only: fun_upd_apply if_False option.case if_cancel)
  qed
  have e: "ens [0 \<mapsto> mixed_leaf] k" if "0 \<le> k" "k < 100" for k
    unfolding pm2_ensured_def lb using that by (auto simp: map_bits_def)
  have ml: "mixed_leaf 8 = 1000" "mixed_leaf 11 = 1000" "mixed_leaf 12 = 1064" "mixed_leaf 13 = 1128" by (simp_all add: mixed_leaf_def)
  have "span_ok [0 \<mapsto> mixed_leaf] a s" if "mixed_spans a = Some s" for a s
    using that unfolding mixed_cases span_ok_def l by (elim disjE) (auto simp: span_of_def ml intro!: e)
  moreover have "page_set s \<inter> page_set t = {}" if "mixed_spans a = Some s" "mixed_spans b = Some t" "a \<noteq> b" for a b s t
    using that unfolding mixed_cases by (auto simp: page_set_def span_of_def)
  moreover have "\<exists>a s. mixed_spans a = Some s \<and> k \<in> page_set s" if "lkp [0 \<mapsto> mixed_leaf] k \<noteq> NULL" for k
  proof -
    have "k \<in> {8, 11, 12, 13}" using that unfolding l by (auto simp: mixed_leaf_def split: if_splits)
    then show ?thesis unfolding mixed_cases by (auto simp: page_set_def span_of_def conj_disj_distribR ex_disj_distrib)
  qed
  moreover have "finite (dom mixed_spans)" by (simp add: mixed_spans_def)
  ultimately show ?thesis unfolding geo_def by blast
qed

lemma mixed_loc:
  "loc_set {} mixed_spans ON_NORMAL_FREELIST = {1064}" "loc_set {} mixed_spans ON_RETURNED_FREELIST = {1000}"
  by (simp_all add: set_eq_iff loc_set_def mixed_cases conj_disj_distribR ex_disj_distrib span_of_def)

lemma mixed_len: "span_len mixed_spans 1064 = 1" "span_len mixed_spans 1000 = 4"
  by (simp_all add: span_len_def mixed_spans_def span_of_def)

lemma mixed_parts: "parts {} mixed_heap"
proof -
  have "small_ok {} mixed_spans ON_NORMAL_FREELIST ((\<lambda>_. [])(0 := [1064]))" "small_ok {} mixed_spans ON_RETURNED_FREELIST ((\<lambda>_. [])(3 := [1000]))"
    unfolding small_ok_def mixed_loc by (auto simp: mixed_len)
  moreover have "large_ok {} mixed_spans ON_NORMAL_FREELIST []" "large_ok {} mixed_spans ON_RETURNED_FREELIST []"
    unfolding large_ok_def mixed_loc by (auto simp: mixed_len kMaxPages_def)
  moreover have "iter_ok {} mixed_spans" by (auto simp: iter_ok_def mixed_cases span_of_def kMaxPages_def)
  moreover have "loc_bytes {} mixed_spans ON_NORMAL_FREELIST = 8192" "loc_bytes {} mixed_spans ON_RETURNED_FREELIST = 32768"
    unfolding loc_bytes_def mixed_loc by (simp_all add: mixed_len page_bytes_def kPageShift_def push_bit_eq_mult)
  ultimately show ?thesis by (simp add: parts_def mixed_heap_def page_heap_new_def)
qed

lemma mixed_mem: "mem_ok cap_env cap_own mixed_heap"
proof -
  let ?al = "\<lparr>pha_free_area = 0, pha_free_avail = 0, pha_free_list = 0, pha_inuse = 3\<rparr>"
  have d: "dom mixed_spans = {1000, 1064, 1128}" by (auto simp: mixed_spans_def split: if_splits)
  have pm: "pha_mem sizeof_Span {1000, 1064, 1128} [] ?al \<subseteq> {1000..2000}" by (auto simp: pha_mem_def blocks_def sizeof_Span_def)
  have hm: "heap_mem mixed_spans \<subseteq> {60000..120000}"
  proof
    fix x assume "x \<in> heap_mem mixed_spans"
    then have "8 \<le> x div 8192" "x div 8192 \<le> 13" by (auto simp: heap_mem_def heap_pages_def mixed_cases page_set_def span_of_def kPageSize_def)
    then show "x \<in> {60000..120000}" by auto
  qed
  have rep: "pha_rep sizeof_Span {1000, 1064, 1128} [] ?al [1000 \<mapsto> 0, 1064 \<mapsto> 0, 1128 \<mapsto> 0]"
    by (auto simp: pha_rep_def apart_def blocks_def sizeof_Span_def)
  moreover have "heap_mem mixed_spans \<inter> pha_mem sizeof_Span {1000, 1064, 1128} [] ?al = {}" using pm hm by fastforce
  moreover have "meta_ok cap_env cap_own (heap_mem mixed_spans \<union> pha_mem sizeof_Span {1000, 1064, 1128} [] ?al) (world_new 200000)"
  proof -
    have "heap_mem mixed_spans \<union> pha_mem sizeof_Span {1000, 1064, 1128} [] ?al \<subseteq> cap_own 200000"
      using pm hm by (fastforce simp: cap_own_def)
    then show ?thesis by (simp add: meta_ok_def world_new_def sys_state_new_ok)
  qed
  ultimately show ?thesis unfolding mem_ok_def pha_inv_def by (auto simp: mixed_heap_def page_heap_new_def d)
qed

lemma mixed_ok: "heap_ok cap_env cap_own mixed_heap"
proof -
  have "coalesced {} mixed_spans"
    unfolding coalesced_def
  proof (intro allI impI)
    fix loc :: span_location assume "loc \<noteq> IN_USE"
    then show "\<forall>a\<in>loc_set {} mixed_spans loc. \<forall>b\<in>loc_set {} mixed_spans loc. start_of mixed_spans a + span_len mixed_spans a \<noteq> start_of mixed_spans b"
      by (cases loc) (simp_all add: mixed_loc mixed_len)
  qed
  then show ?thesis using mixed_geo mixed_parts mixed_mem
    by (simp add: heap_ok_def ph_inv_def) (simp add: mixed_heap_def page_heap_new_def stats_balanced_def kMaxPages_def)
qed

text \<open>
  Aggressive decommit breaks an invariant that \<open>Carve\<close> asserts. In a heap that satisfies the whole
  invariant, with a returned span, a normal free span and a span in use behind each other, aggressive
  decommit is switched on and the span in use is freed: it is decommitted together with the normal span,
  but not merged with the returned one in front, so two returned spans are neighbours. The next allocation
  cuts the first, and the assertion that the span behind the leftover is of another kind fails.
\<close>
lemma page_heap_aggressive_assert:
  "heap_ok cap_env cap_own mixed_heap \<and> \<not> ph_aggressive_decommit mixed_heap \<and>
   bindR (Delete cap_env 1128 (mixed_heap\<lparr>ph_aggressive_decommit := True\<rparr>)) (New cap_env 3) = Inl CheckFailed"
proof -
  have "case bindR (Delete cap_env 1128 (mixed_heap\<lparr>ph_aggressive_decommit := True\<rparr>)) (New cap_env 3) of Inl e \<Rightarrow> e = CheckFailed | Inr x \<Rightarrow> False"
    by code_simp
  then have "bindR (Delete cap_env 1128 (mixed_heap\<lparr>ph_aggressive_decommit := True\<rparr>)) (New cap_env 3) = Inl CheckFailed"
    by (auto split: sum.splits)
  then show ?thesis using mixed_ok by (simp add: mixed_heap_def page_heap_new_def)
qed

end
