(* ===== verification/Packed_Cache.thy ===== *)
theory Packed_Cache
  imports Tc_Prelude
begin

unbundle bit_operations_syntax

text \<open>
  The cache of size classes by page number: src/libs/tcmalloc/src/packed-cache-inl.h. An entry packs the
  upper part of the key, a bit that marks it invalid, and the value; the lower part of the key is its
  place in the array. The cache may forget: a look-up returns the value stored last for the key, or
  nothing. Keys and entries are non-negative integers below \<open>2 ^ 64\<close>.
\<close>

section \<open>The operations\<close>

definition kKeybits :: nat where "kKeybits = 35"
definition kHashbits :: nat where "kHashbits = 16"
definition kValuebits :: nat where "kValuebits = 7"
definition kInvalidMask :: int where "kInvalidMask = 128"

type_synonym packed_cache = "int \<Rightarrow> int"

definition pc_hash :: "int \<Rightarrow> int" where
  "pc_hash key = key AND (2 ^ kHashbits - 1)"

definition KeyToUpper :: "int \<Rightarrow> int" where
  "KeyToUpper k = k XOR pc_hash k"

definition key_ok :: "int \<Rightarrow> bool" where
  "key_ok key \<longleftrightarrow> key = key AND (2 ^ kKeybits - 1)"

definition pc_TryGet :: "packed_cache \<Rightarrow> int \<Rightarrow> int option result" where
  "pc_TryGet c key =
     check (key_ok key)
       (let expected_entry = key AND NOT (2 ^ kHashbits - 1);
            entry = c (pc_hash key) XOR expected_entry
        in Inr (if entry \<ge> 2 ^ kValuebits then None else Some entry))"

text \<open>\<open>memset\<close> with \<open>kInvalidMask\<close> in every byte.\<close>

definition pc_Clear :: packed_cache where
  "pc_Clear = (\<lambda>_. 0x8080808080808080)"

definition pc_Put :: "int \<Rightarrow> int \<Rightarrow> packed_cache \<Rightarrow> packed_cache result" where
  "pc_Put key val c =
     check (key_ok key) (check (val = val AND (2 ^ kValuebits - 1))
       (Inr (c(pc_hash key := KeyToUpper key OR val))))"

definition pc_Invalidate :: "int \<Rightarrow> packed_cache \<Rightarrow> packed_cache result" where
  "pc_Invalidate key c = check (key_ok key) (Inr (c(pc_hash key := KeyToUpper key OR kInvalidMask)))"

section \<open>Facts\<close>

lemmas pc_bits = kKeybits_def kHashbits_def kValuebits_def kInvalidMask_def

lemma key_ok_iff: "key_ok k \<longleftrightarrow> 0 \<le> k \<and> k < 2 ^ 35"
  unfolding key_ok_def and_mask pc_bits by (metis mod_pos_pos_trivial pos_mod_bound pos_mod_sign zero_less_numeral zero_less_power)

lemma pc_hash_mod: "pc_hash k = k mod 2 ^ 16"
  unfolding pc_hash_def and_mask pc_bits ..

lemma upper_div: "(k :: int) AND NOT (2 ^ kHashbits - 1) = k div 2 ^ 16 * 2 ^ 16"
  unfolding and_not_mask pc_bits ..

lemma KeyToUpper_div: "KeyToUpper k = k div 2 ^ 16 * 2 ^ 16"
proof -
  have "k XOR (k AND mask 16) = k AND NOT (mask 16)" by (rule bit_eqI) (auto simp: bit_simps)
  then show ?thesis using upper_div [of k] by (simp add: KeyToUpper_def pc_hash_def pc_bits mask_eq_exp_minus_1)
qed

text \<open>A multiple of \<open>2 ^ 16\<close> and a value below \<open>2 ^ 16\<close> do not share bits.\<close>

lemma or_low:
  assumes "0 \<le> v" "v < 2 ^ 16"
  shows "(u * 2 ^ 16) OR v = u * 2 ^ 16 + (v :: int)"
proof -
  have "(u * 2 ^ 16) AND v = 0"
  proof (rule bit_eqI)
    fix n
    have "take_bit 16 v = v" using assms by (simp add: take_bit_int_eq_self)
    then have "bit v n \<Longrightarrow> n < 16" by (metis bit_take_bit_iff)
    moreover have "u * 2 ^ 16 = push_bit 16 u" by (simp add: push_bit_eq_mult)
    ultimately show "bit ((u * 2 ^ 16) AND v) n = bit (0 :: int) n" by (auto simp: bit_simps)
  qed
  then show ?thesis by (rule disjunctive_add_eq_or [symmetric])
qed

lemma xor_div:
  assumes "0 \<le> v" "v < 2 ^ 16" "(u * 2 ^ 16 + v) XOR (w * 2 ^ 16) < (2 ^ 16 :: int)" "0 \<le> u" "0 \<le> w"
  shows "u = w"
proof -
  let ?x = "(u * 2 ^ 16 + v) XOR (w * 2 ^ 16)"
  have "0 \<le> ?x" using assms by simp
  then have "drop_bit 16 ?x = 0" using assms(3) by (simp add: drop_bit_eq_div)
  then have "drop_bit 16 (u * 2 ^ 16 + v) XOR drop_bit 16 (w * 2 ^ 16) = 0" by (simp add: drop_bit_xor)
  then have "drop_bit 16 (u * 2 ^ 16 + v) = drop_bit 16 (w * 2 ^ 16)"
    by (metis bit.xor_self xor.assoc xor.left_neutral xor.right_neutral)
  then show ?thesis using assms(1,2) by (simp add: drop_bit_eq_div)
qed

lemma xor_same: "(u * 2 ^ 16 + v) XOR (u * 2 ^ 16) = (v :: int)" if "0 \<le> v" "v < 2 ^ 16"
proof -
  have "(u * 2 ^ 16 + v) XOR (u * 2 ^ 16) = ((u * 2 ^ 16) OR v) XOR (u * 2 ^ 16)" using or_low [OF that] by simp
  also have "\<dots> = v"
  proof (rule bit_eqI)
    fix n
    have "take_bit 16 v = v" using that by (simp add: take_bit_int_eq_self)
    then have "bit v n \<Longrightarrow> n < 16" by (metis bit_take_bit_iff)
    moreover have "u * 2 ^ 16 = push_bit 16 u" by (simp add: push_bit_eq_mult)
    ultimately show "bit (((u * 2 ^ 16) OR v) XOR (u * 2 ^ 16)) n = bit v n" by (auto simp: bit_simps)
  qed
  finally show ?thesis .
qed

text \<open>A look-up of a key after an entry was written for another or the same key.\<close>

lemma entry_lookup:
  assumes "key_ok k" "key_ok k'" "0 \<le> v" "v < 2 ^ 16"
  shows "pc_TryGet (c(pc_hash k := KeyToUpper k OR v)) k' =
    (if pc_hash k' = pc_hash k then Inr (if k' = k \<and> v < 128 then Some v else None) else pc_TryGet c k')"
proof -
  have up: "KeyToUpper k OR v = k div 2 ^ 16 * 2 ^ 16 + v" unfolding KeyToUpper_div by (rule or_low [OF assms(3,4)])
  have same: "k = k'" if "k mod 2 ^ 16 = k' mod 2 ^ 16" "k div 2 ^ 16 = k' div 2 ^ 16"
    using that by (metis div_mult_mod_eq)
  let ?e = "(k div 2 ^ 16 * 2 ^ 16 + v) XOR (k' div 2 ^ 16 * 2 ^ 16)"
  have div: "k div 2 ^ 16 = k' div 2 ^ 16" if "?e < 128"
    by (rule xor_div [OF assms(3,4)]) (use that assms(1,2) in \<open>simp_all add: key_ok_iff pos_imp_zdiv_nonneg_iff\<close>)
  show ?thesis
  proof (cases "pc_hash k' = pc_hash k")
    case True
    then have e: "pc_TryGet (c(pc_hash k := KeyToUpper k OR v)) k' = Inr (if 128 \<le> ?e then None else Some ?e)"
      using assms(2) unfolding pc_TryGet_def upper_div up by (simp add: pc_bits Let_def)
    have "k = k'" if "?e < 128" using same div [OF that] True by (simp add: pc_hash_mod)
    moreover have "?e = v" if "k = k'" using xor_same [OF assms(3,4)] that by simp
    ultimately have "(if 128 \<le> ?e then None else Some ?e) = (if k' = k \<and> v < 128 then Some v else None)"
      by (metis not_le)
    then show ?thesis unfolding if_P [OF True] e by (simp only:)
  next
    case False
    then show ?thesis by (simp add: pc_TryGet_def)
  qed
qed

lemma pc_Put_ok: "key_ok k \<Longrightarrow> 0 \<le> v \<Longrightarrow> v < 128 \<Longrightarrow> pc_Put k v c = Inr (c(pc_hash k := KeyToUpper k OR v))"
  unfolding pc_Put_def and_mask by (simp add: pc_bits)

lemma pc_TryGet_Clear: "key_ok k \<Longrightarrow> pc_TryGet pc_Clear k = Inr None"
proof -
  assume k: "key_ok k"
  have u: "0x8080808080808080 = (0x808080808080 * 2 ^ 16 + 0x8080 :: int)" by simp
  have "\<not> (0x8080808080808080 :: int) XOR (k div 2 ^ 16 * 2 ^ 16) < 2 ^ 16"
  proof
    assume "(0x8080808080808080 :: int) XOR (k div 2 ^ 16 * 2 ^ 16) < 2 ^ 16"
    then have "0x808080808080 = k div 2 ^ 16"
      using k by (intro xor_div [where v = "0x8080"]) (simp_all add: key_ok_iff pos_imp_zdiv_nonneg_iff)
    moreover have "k div 2 ^ 16 \<le> 2 ^ 35 div 2 ^ 16" using k by (intro zdiv_mono1) (simp_all add: key_ok_iff)
    ultimately show False by simp
  qed
  then show ?thesis using k unfolding pc_TryGet_def upper_div by (simp add: pc_Clear_def pc_bits Let_def)
qed

section \<open>Properties\<close>

text \<open>
  The cache as a map that may forget, an interface for its clients: a hit is the value that was put last
  under that very key, and an invalidated key misses.
\<close>

locale lossy_map =
  fixes lookup :: "'c \<Rightarrow> 'k \<Rightarrow> 'v option" and put :: "'k \<Rightarrow> 'v \<Rightarrow> 'c \<Rightarrow> 'c" and drop_key :: "'k \<Rightarrow> 'c \<Rightarrow> 'c"
    and key :: "'k \<Rightarrow> bool" and val :: "'v \<Rightarrow> bool"
  assumes lookup_put: "key k \<Longrightarrow> val v \<Longrightarrow> lookup (put k v c) k = Some v"
    and lookup_other: "key k \<Longrightarrow> key k' \<Longrightarrow> val v \<Longrightarrow> k' \<noteq> k \<Longrightarrow> lookup (put k v c) k' \<in> {None, lookup c k'}"
    and lookup_drop: "key k \<Longrightarrow> lookup (drop_key k c) k = None"
    and lookup_drop_other: "key k \<Longrightarrow> key k' \<Longrightarrow> k' \<noteq> k \<Longrightarrow> lookup (drop_key k c) k' \<in> {None, lookup c k'}"
begin

text \<open>What every cached value agrees with stays so, when the map it agrees with changes along.\<close>

definition agrees :: "'k set \<Rightarrow> ('k \<Rightarrow> 'v option) \<Rightarrow> 'c \<Rightarrow> bool" where
  "agrees K f c \<longleftrightarrow> (\<forall>k\<in>K. key k \<and> (\<forall>v. lookup c k = Some v \<longrightarrow> f k = Some v))"

lemma agrees_put:
  assumes "agrees K f c" "key k" "val v"
  shows "agrees (insert k K) (f(k \<mapsto> v)) (put k v c)"
  unfolding agrees_def
proof (intro ballI conjI allI impI)
  fix k' v' assume k': "k' \<in> insert k K"
  then show "key k'" using assms(1,2) by (auto simp: agrees_def)
  assume l: "lookup (put k v c) k' = Some v'"
  show "(f(k \<mapsto> v)) k' = Some v'"
  proof (cases "k' = k")
    case True then show ?thesis using l lookup_put [OF assms(2,3)] by simp
  next
    case False
    then have "key k'" "lookup c k' = Some v'" "k' \<in> K"
      using lookup_other [of k k' v c] assms l k' by (auto simp: agrees_def)
    then show ?thesis using assms(1) False by (simp add: agrees_def)
  qed
qed

lemma agrees_drop:
  assumes "agrees K f c" "key k"
  shows "agrees (insert k K) (f(k := None)) (drop_key k c)"
  unfolding agrees_def
proof (intro ballI conjI allI impI)
  fix k' v' assume k': "k' \<in> insert k K"
  then show "key k'" using assms by (auto simp: agrees_def)
  assume l: "lookup (drop_key k c) k' = Some v'"
  then have ne: "k' \<noteq> k" using lookup_drop [OF assms(2)] by auto
  then have "key k'" "lookup c k' = Some v'" "k' \<in> K"
    using lookup_drop_other [of k k' c] assms l k' by (auto simp: agrees_def)
  then show "(f(k := None)) k' = Some v'" using assms(1) ne by (simp add: agrees_def)
qed

end

text \<open>The operations on keys and values that pass their assertions.\<close>

definition pc_lookup :: "packed_cache \<Rightarrow> int \<Rightarrow> int option" where
  "pc_lookup c k = (case pc_TryGet c k of Inr r \<Rightarrow> r | Inl e \<Rightarrow> None)"

definition pc_put :: "int \<Rightarrow> int \<Rightarrow> packed_cache \<Rightarrow> packed_cache" where
  "pc_put k v c = c(pc_hash k := KeyToUpper k OR v)"

lemma pc_lookup_entry:
  assumes "key_ok k" "key_ok k'" "0 \<le> v" "v < 2 ^ 16"
  shows "pc_lookup (pc_put k v c) k' =
    (if pc_hash k' = pc_hash k then (if k' = k \<and> v < 128 then Some v else None) else pc_lookup c k')"
  using entry_lookup [OF assms] by (simp add: pc_lookup_def pc_put_def)

lemma pc_runs:
  "key_ok k \<Longrightarrow> pc_TryGet c k = Inr (pc_lookup c k)"
  "key_ok k \<Longrightarrow> 0 \<le> v \<Longrightarrow> v < 128 \<Longrightarrow> pc_Put k v c = Inr (pc_put k v c)"
  "key_ok k \<Longrightarrow> pc_Invalidate k c = Inr (pc_put k kInvalidMask c)"
  by (simp_all add: pc_lookup_def pc_TryGet_def Let_def pc_Put_ok pc_put_def pc_Invalidate_def)

interpretation pc: lossy_map pc_lookup pc_put "\<lambda>k. pc_put k kInvalidMask" key_ok "\<lambda>v. 0 \<le> v \<and> v < 128"
  by unfold_locales (auto simp: pc_lookup_entry kInvalidMask_def)

text \<open>A run of the cache from \<open>Clear\<close>, the latest operation first, and what it should remember.\<close>

datatype pc_op = PutOp int int | InvalidateOp int

fun pc_apply :: "pc_op \<Rightarrow> packed_cache \<Rightarrow> packed_cache result" where
  "pc_apply (PutOp k v) c = pc_Put k v c"
| "pc_apply (InvalidateOp k) c = pc_Invalidate k c"

fun pc_run :: "pc_op list \<Rightarrow> packed_cache result" where
  "pc_run [] = Inr pc_Clear"
| "pc_run (x # xs) = bindR (pc_run xs) (pc_apply x)"

fun op_ok :: "pc_op \<Rightarrow> bool" where
  "op_ok (PutOp k v) = (key_ok k \<and> 0 \<le> v \<and> v < 128)"
| "op_ok (InvalidateOp k) = key_ok k"

text \<open>The value put last for a key and not invalidated since; and the same, but forgotten when a key with the same place is used.\<close>

fun last_put :: "pc_op list \<Rightarrow> int \<Rightarrow> int option" where
  "last_put [] = (\<lambda>_. None)"
| "last_put (PutOp k v # xs) = (last_put xs)(k \<mapsto> v)"
| "last_put (InvalidateOp k # xs) = (last_put xs)(k := None)"

fun kept_put :: "pc_op list \<Rightarrow> int \<Rightarrow> int option" where
  "kept_put [] k = None"
| "kept_put (PutOp k' v # xs) k = (if k' = k then Some v else if k' mod 2 ^ 16 = k mod 2 ^ 16 then None else kept_put xs k)"
| "kept_put (InvalidateOp k' # xs) k = (if k' mod 2 ^ 16 = k mod 2 ^ 16 then None else kept_put xs k)"

lemma pc_run_lookup:
  assumes "\<forall>x\<in>set xs. op_ok x"
  shows "\<exists>c. pc_run xs = Inr c \<and> (\<forall>k. key_ok k \<longrightarrow> pc_lookup c k = kept_put xs k) \<and> pc.agrees {k. key_ok k} (last_put xs) c"
  using assms
proof (induction xs)
  case Nil
  have "pc_lookup pc_Clear k = None" if "key_ok k" for k using pc_TryGet_Clear [OF that] by (simp add: pc_lookup_def)
  then show ?case by (simp add: pc.agrees_def)
next
  case (Cons x xs)
  then obtain c where c: "pc_run xs = Inr c" "\<And>k. key_ok k \<Longrightarrow> pc_lookup c k = kept_put xs k" "pc.agrees {k. key_ok k} (last_put xs) c" by auto
  show ?case
  proof (cases x)
    case (PutOp k v)
    then have ok: "key_ok k" "0 \<le> v" "v < 128" using Cons.prems by simp_all
    then have e: "insert k {k. key_ok k} = {k. key_ok k}" by auto
    have "pc_lookup (pc_put k v c) k' = kept_put (x # xs) k'" if "key_ok k'" for k'
      using pc_lookup_entry [OF ok(1) that ok(2), of c] ok(3) c(2) [OF that] by (auto simp: PutOp pc_hash_mod)
    moreover have "pc_run (x # xs) = Inr (pc_put k v c)" using c(1) ok by (simp add: PutOp pc_runs)
    moreover have "pc.agrees {k. key_ok k} (last_put (x # xs)) (pc_put k v c)"
      using pc.agrees_put [OF c(3) ok(1), of v] ok(2,3) unfolding PutOp last_put.simps e by blast
    ultimately show ?thesis by blast
  next
    case (InvalidateOp k)
    then have ok: "key_ok k" using Cons.prems by simp
    then have e: "insert k {k. key_ok k} = {k. key_ok k}" by auto
    have "pc_lookup (pc_put k kInvalidMask c) k' = kept_put (x # xs) k'" if "key_ok k'" for k'
      using pc_lookup_entry [OF ok that, of kInvalidMask c] c(2) [OF that] by (auto simp: InvalidateOp pc_hash_mod kInvalidMask_def)
    moreover have "pc_run (x # xs) = Inr (pc_put k kInvalidMask c)" using c(1) ok by (simp add: InvalidateOp pc_runs)
    moreover have "pc.agrees {k. key_ok k} (last_put (x # xs)) (pc_put k kInvalidMask c)"
      using pc.agrees_drop [OF c(3) ok] unfolding InvalidateOp last_put.simps e .
    ultimately show ?thesis by blast
  qed
qed

text \<open>
  C38: the packed cache refines a map that may forget. After \<open>Clear\<close> and any sequence of \<open>Put\<close> and \<open>Invalidate\<close> with page
  numbers below \<open>2 ^ 35\<close> and size classes below 128, no assertion fails, and a look-up of any such page number returns
  exactly the class put last for it, unless it was invalidated since or an operation on another number with the same low 16 bits
  came later: then, and for numbers that were never put, it misses. So a hit is never stale.
\<close>
theorem packed_cache_refines_lossy_map:
  assumes "\<forall>x\<in>set xs. op_ok x" "key_ok k"
  shows "\<exists>c. pc_run xs = Inr c \<and> pc_TryGet c k = Inr (kept_put xs k) \<and> (kept_put xs k = None \<or> kept_put xs k = last_put xs k)"
proof -
  obtain c where c: "pc_run xs = Inr c" "pc_lookup c k = kept_put xs k" "pc.agrees {k. key_ok k} (last_put xs) c"
    using pc_run_lookup [OF assms(1)] assms(2) by blast
  then have "kept_put xs k = None \<or> kept_put xs k = last_put xs k" using assms(2) by (cases "kept_put xs k") (auto simp: pc.agrees_def)
  then show ?thesis using c pc_runs(1) [OF assms(2), of c] by simp
qed

theorem packed_cache_refines_lossy_map_witness:
  "\<exists>c. pc_run [PutOp 65539 21, PutOp 7 9, PutOp 3 5] = Inr c \<and> pc_TryGet c 3 = Inr None \<and> last_put [PutOp 65539 21, PutOp 7 9, PutOp 3 5] 3 = Some 5"
  using packed_cache_refines_lossy_map [of "[PutOp 65539 21, PutOp 7 9, PutOp 3 5]" 3] by (auto simp: key_ok_iff)

end
