(* ===== verification/Central_Free_List.thy ===== *)
theory Central_Free_List
  imports Page_Heap_Props Packed_Cache
begin

unbundle bit_operations_syntax

text \<open>
  The central free lists: src/libs/tcmalloc/src/central_freelist.h and central_freelist.cc. There is one
  per size class. It cuts spans from the page heap into objects, keeps the spans with and without free
  objects in two lists, counts how many objects of each span are out, and gives a span back when all of
  its objects have returned. In front of the spans is a transfer cache: slots that hold whole chains of
  \<open>num_objects_to_move\<close> objects; the classes take slots from each other.

  The statics of src/libs/tcmalloc/src/static_vars.h that the lists use are one record. Each operation
  is one step: the locks, which the code releases around calls of the page heap, are left out. The lists
  of spans are the sequences they link, as in \<open>Page_Heap\<close>. The words of the objects are a store; the words of a
  span that goes back to the page heap are forgotten, because decommitting it may clear them.
\<close>

section \<open>State\<close>

definition kMaxNumTransferEntries :: int where "kMaxNumTransferEntries = 64"

record central_list =
  cf_size_class :: nat
  cf_empty :: "addr list"
  cf_nonempty :: "addr list"
  cf_num_spans :: "64 word"
  cf_counter :: "64 word"
  cf_tc_slots :: "int \<Rightarrow> addr \<times> addr"
  cf_used_slots :: int
  cf_cache_size :: int
  cf_max_cache_size :: int

record 'k tcm =
  tm_sizemap :: size_map
  tm_central :: "nat \<Rightarrow> central_list"
  tm_race :: int
  tm_heap :: "'k page_heap"
  tm_cache :: packed_cache
  tm_mem :: store

abbreviation objects_to_move :: "'k tcm \<Rightarrow> nat \<Rightarrow> int" where
  "objects_to_move t cl \<equiv> num_objects_to_move (tm_sizemap t) ! cl"

abbreviation upd_central :: "nat \<Rightarrow> central_list \<Rightarrow> 'k tcm \<Rightarrow> 'k tcm" where
  "upd_central cl c t \<equiv> t\<lparr>tm_central := (tm_central t)(cl := c)\<rparr>"

definition cf_Init :: "size_map \<Rightarrow> nat \<Rightarrow> central_list result" where
  "cf_Init m cl =
     (let c = \<lparr>cf_size_class = cl, cf_empty = [], cf_nonempty = [], cf_num_spans = 0, cf_counter = 0,
               cf_tc_slots = (\<lambda>_. (NULL, NULL)), cf_used_slots = 0, cf_cache_size = 16,
               cf_max_cache_size = kMaxNumTransferEntries\<rparr>
      in if cl > 0 then
           let bytes = byte_size_for_class m cl; objs_to_move = num_objects_to_move m ! cl
           in check (objs_to_move > 0 \<and> bytes > 0)
             (let max_size = min kMaxNumTransferEntries (max 1 (1024 * 1024 div (bytes * objs_to_move)));
                  size = min 16 max_size
              in check (size \<le> max_size) (Inr (c\<lparr>cf_cache_size := size, cf_max_cache_size := max_size\<rparr>)))
         else check (cf_cache_size c \<le> cf_max_cache_size c) (Inr c))"

section \<open>Objects to spans\<close>

definition MapObjectToSpan :: "'k tcm \<Rightarrow> addr \<Rightarrow> addr result" where
  "MapObjectToSpan t object = GetDescriptor (tm_heap t) (drop_bit kPageShift object)"

text \<open>\<open>DLL_Remove\<close> of a span in one of the two lists.\<close>

definition unlink :: "addr \<Rightarrow> central_list \<Rightarrow> central_list result" where
  "unlink sp c =
     (if sp \<in> set (cf_empty c) then Inr (c\<lparr>cf_empty := remove1 sp (cf_empty c)\<rparr>)
      else if sp \<in> set (cf_nonempty c) then Inr (c\<lparr>cf_nonempty := remove1 sp (cf_nonempty c)\<rparr>)
      else Inl NullDeref)"

definition forget :: "span \<Rightarrow> store \<Rightarrow> store" where
  "forget s m = (\<lambda>a. if sp_start s \<le> a div kPageSize \<and> a div kPageSize < sp_start s + sp_length s then None else m a)"

text \<open>\<open>(span->length << kPageShift) / ByteSizeForClass(span->sizeclass)\<close>\<close>

definition objects_per_span :: "size_map \<Rightarrow> span \<Rightarrow> int result" where
  "objects_per_span m s =
     (let sz = byte_size_for_class m (sp_sizeclass s)
      in if sz = 0 then Inl DivByZero else Inr (to_size_t (push_bit kPageShift (sp_length s)) div sz))"

definition ReleaseToSpans :: "'k tc_env \<Rightarrow> nat \<Rightarrow> addr \<Rightarrow> 'k tcm \<Rightarrow> 'k tcm result" where
  "ReleaseToSpans env cl object t =
     bindR (MapObjectToSpan t object) (\<lambda>sp. check (sp \<noteq> NULL)
     (bindR (the_span (tm_heap t) sp) (\<lambda>s. check (sp_refcount s > 0)
     (bindR (if sp_objects s = NULL
             then bindR (unlink sp (tm_central t cl)) (\<lambda>c. Inr (c\<lparr>cf_nonempty := sp # cf_nonempty c\<rparr>))
             else Inr (tm_central t cl)) (\<lambda>c1.
      let c2 = c1\<lparr>cf_counter := cf_counter c1 + 1\<rparr>
      in bindR (upd_span sp (\<lambda>s. s\<lparr>sp_refcount := sp_refcount s - 1\<rparr>) (tm_heap t)) (\<lambda>h1.
         if sp_refcount s - 1 = 0 then
           bindR (objects_per_span (tm_sizemap t) s) (\<lambda>n.
           bindR (unlink sp (c2\<lparr>cf_counter := cf_counter c2 - word_of_int n\<rparr>)) (\<lambda>c3.
           let c4 = c3\<lparr>cf_num_spans := cf_num_spans c3 - 1\<rparr>
           in bindR (Delete env sp h1) (\<lambda>h2.
              Inr (upd_central cl c4 (t\<lparr>tm_heap := h2, tm_mem := forget s (tm_mem t)\<rparr>)))))
         else
           bindR (SLL_SetNext (tm_mem t) object (sp_objects s)) (\<lambda>m.
           bindR (upd_span sp (\<lambda>s. s\<lparr>sp_objects := object\<rparr>) h1) (\<lambda>h2.
           Inr (upd_central cl c2 (t\<lparr>tm_heap := h2, tm_mem := m\<rparr>))))))))))"

text \<open>\<open>ReleaseListToSpans\<close>; on a cyclic list the loop might not end.\<close>

partial_function (option) release_list :: "'k tc_env \<Rightarrow> nat \<Rightarrow> addr \<Rightarrow> 'k tcm \<Rightarrow> 'k tcm result option" where
  "release_list env cl start t =
     (if start = NULL then Some (Inr t)
      else case SLL_Next (tm_mem t) start of
             Inl e \<Rightarrow> Some (Inl e)
           | Inr nxt \<Rightarrow> (case ReleaseToSpans env cl start t of
               Inl e \<Rightarrow> Some (Inl e)
             | Inr t1 \<Rightarrow> release_list env cl nxt t1))"

declare release_list.simps [code]

definition ReleaseListToSpans :: "'k tc_env \<Rightarrow> nat \<Rightarrow> addr \<Rightarrow> 'k tcm \<Rightarrow> 'k tcm result" where
  "ReleaseListToSpans env cl start t = (case release_list env cl start t of None \<Rightarrow> Inl Diverges | Some r \<Rightarrow> r)"

section \<open>The transfer cache\<close>

definition ShrinkCache :: "'k tc_env \<Rightarrow> nat \<Rightarrow> bool \<Rightarrow> 'k tcm \<Rightarrow> (bool \<times> 'k tcm) result" where
  "ShrinkCache env cl force t =
     (let c = tm_central t cl
      in if cf_cache_size c = 0 then Inr (False, t)
         else if \<not> force \<and> cf_used_slots c = cf_cache_size c then Inr (False, t)
         else check (cf_used_slots c \<le> cf_cache_size c) (check (0 \<le> cf_cache_size c)
           (if cf_cache_size c = 0 then Inr (False, t)
            else if cf_used_slots c = cf_cache_size c then
              if \<not> force then Inr (False, t)
              else let c1 = c\<lparr>cf_cache_size := cf_cache_size c - 1, cf_used_slots := cf_used_slots c - 1\<rparr>
                   in bindR (ReleaseListToSpans env cl (fst (cf_tc_slots c1 (cf_used_slots c1))) (upd_central cl c1 t)) (\<lambda>t1.
                      Inr (True, t1))
            else Inr (True, upd_central cl (c\<lparr>cf_cache_size := cf_cache_size c - 1\<rparr>) t))))"

text \<open>\<open>while (t >= num_size_classes) t -= num_size_classes\<close>; without classes it would not end.\<close>

function wrap_class :: "int \<Rightarrow> int \<Rightarrow> int result" where
  "wrap_class n t = (if t < n then Inr t else if n \<le> 0 then Inl Diverges else wrap_class n (t - n))"
  by pat_completeness auto
termination by (relation "measure (\<lambda>(n, t). nat t)") auto

declare wrap_class.simps [simp del]

text \<open>
  \<open>EvictRandomSizeClass\<close>. Between the increment of \<open>race_counter\<close> and its reset no other step runs, so the
  counter of the model is the one that a single thread sees.
\<close>

definition EvictRandomSizeClass :: "'k tc_env \<Rightarrow> nat \<Rightarrow> bool \<Rightarrow> 'k tcm \<Rightarrow> (bool \<times> 'k tcm) result" where
  "EvictRandomSizeClass env locked_size_class force t =
     (let n = int (num_size_classes (tm_sizemap t)); r = tm_race t; t1 = t\<lparr>tm_race := r + 1\<rparr>
      in if r \<ge> int_max then Inl SignedOverflow
         else bindR (if r \<ge> n then bindR (wrap_class n r) (\<lambda>i. Inr (i, t1\<lparr>tm_race := i\<rparr>)) else Inr (r, t1)) (\<lambda>(i, t2).
           check (i \<ge> 0) (check (i < n)
             (if nat i = locked_size_class then Inr (False, t2) else ShrinkCache env (nat i) force t2))))"

definition MakeCacheSpace :: "'k tc_env \<Rightarrow> nat \<Rightarrow> 'k tcm \<Rightarrow> (bool \<times> 'k tcm) result" where
  "MakeCacheSpace env cl t =
     (let c = tm_central t cl
      in if cf_used_slots c < cf_cache_size c then Inr (True, t)
         else if cf_cache_size c = cf_max_cache_size c then Inr (False, t)
         else bindR (bindR (EvictRandomSizeClass env (cf_size_class c) False t) (\<lambda>(ok, t1).
                if ok then Inr (True, t1) else EvictRandomSizeClass env (cf_size_class c) True t1)) (\<lambda>(ok, t2).
              let c2 = tm_central t2 cl
              in if ok \<and> cf_cache_size c2 < cf_max_cache_size c2
                 then Inr (True, upd_central cl (c2\<lparr>cf_cache_size := cf_cache_size c2 + 1\<rparr>) t2)
                 else Inr (False, t2)))"

definition InsertRange :: "'k tc_env \<Rightarrow> nat \<Rightarrow> addr \<Rightarrow> addr \<Rightarrow> int \<Rightarrow> 'k tcm \<Rightarrow> 'k tcm result" where
  "InsertRange env cl start end_ptr N t =
     bindR (if N = objects_to_move t (cf_size_class (tm_central t cl)) then MakeCacheSpace env cl t else Inr (False, t)) (\<lambda>(space, t1).
       if space then
         let c = tm_central t1 cl; slot = cf_used_slots c
         in check (slot \<ge> 0) (check (slot < cf_max_cache_size c)
           (if slot \<ge> kMaxNumTransferEntries then Inl OutOfBounds
            else Inr (upd_central cl (c\<lparr>cf_used_slots := slot + 1, cf_tc_slots := (cf_tc_slots c)(slot := (start, end_ptr))\<rparr>) t1)))
       else ReleaseListToSpans env cl start t1)"

section \<open>Taking objects\<close>

text \<open>The loop of \<open>FetchFromOneSpans\<close>: how many objects, the last of them and the one behind it.\<close>

function fetch_walk :: "store \<Rightarrow> int \<Rightarrow> int \<Rightarrow> addr \<Rightarrow> (int \<times> addr \<times> addr) result" where
  "fetch_walk m N result cur =
     bindR (SLL_Next m cur) (\<lambda>nxt.
       if result + 1 < N \<and> nxt \<noteq> NULL then fetch_walk m N (result + 1) nxt else Inr (result + 1, cur, nxt))"
  by pat_completeness auto
termination by (relation "measure (\<lambda>(m, N, result, cur). nat (N - result))") auto

declare fetch_walk.simps [simp del]

text \<open>The number of objects, the first and the last.\<close>

definition FetchFromOneSpans :: "nat \<Rightarrow> int \<Rightarrow> 'k tcm \<Rightarrow> (int \<times> addr \<times> addr \<times> 'k tcm) result" where
  "FetchFromOneSpans cl N t =
     (let c = tm_central t cl
      in case cf_nonempty c of
           [] \<Rightarrow> Inr (0, NULL, NULL, t)
         | sp # _ \<Rightarrow>
             bindR (the_span (tm_heap t) sp) (\<lambda>s. check (sp_objects s \<noteq> NULL)
             (bindR (fetch_walk (tm_mem t) N 0 (sp_objects s)) (\<lambda>(result, prev, cur).
              bindR (if cur = NULL then bindR (unlink sp c) (\<lambda>c1. Inr (c1\<lparr>cf_empty := sp # cf_empty c1\<rparr>)) else Inr c) (\<lambda>c2.
              bindR (upd_span sp (\<lambda>s. s\<lparr>sp_objects := cur\<rparr>) (tm_heap t)) (\<lambda>h1.
              bindR (SLL_SetNext (tm_mem t) prev NULL) (\<lambda>m1.
              bindR (upd_span sp (\<lambda>s. s\<lparr>sp_refcount := (sp_refcount s + result) mod 2 ^ 16\<rparr>) h1) (\<lambda>h2.
              Inr (result, sp_objects s, prev,
                upd_central cl (c2\<lparr>cf_counter := cf_counter c2 - word_of_int result\<rparr>) (t\<lparr>tm_heap := h2, tm_mem := m1\<rparr>))))))))))"

text \<open>\<open>SetCachedSizeClass\<close> for the pages of a span.\<close>

fun cache_classes :: "int list \<Rightarrow> int \<Rightarrow> packed_cache \<Rightarrow> packed_cache result" where
  "cache_classes [] cl c = Inr c"
| "cache_classes (p # ps) cl c = check (cl \<noteq> 0) (bindR (pc_Put p cl c) (cache_classes ps cl))"

text \<open>
  The loop of \<open>Populate\<close> that links the objects of a span: the place that the last link is to be written
  to, the first object and the number of objects. The memory of a span that was just granted may be written.
\<close>

function cut_objects :: "int \<Rightarrow> addr \<Rightarrow> addr \<Rightarrow> addr option \<Rightarrow> addr \<Rightarrow> int \<Rightarrow> store \<Rightarrow> (addr option \<times> addr \<times> addr \<times> int \<times> store) result" where
  "cut_objects sz limit ptr tail first num m =
     (if sz \<le> 0 then (if ptr + sz \<le> limit then Inl Diverges else Inr (tail, first, ptr, num, m))
      else if ptr + sz \<le> limit then
        cut_objects sz limit (ptr + sz) (Some ptr) (if tail = None then ptr else first) (num + 1)
          (case tail of None \<Rightarrow> m | Some a \<Rightarrow> m(a \<mapsto> ptr))
      else Inr (tail, first, ptr, num, m))"
  by pat_completeness auto
termination by (relation "measure (\<lambda>(sz, limit, ptr, tail, first, num, m). nat (limit - ptr))") auto

declare cut_objects.simps [simp del]

definition Populate :: "'k tc_env \<Rightarrow> nat \<Rightarrow> 'k tcm \<Rightarrow> 'k tcm result" where
  "Populate env cl t =
     (let sc = cf_size_class (tm_central t cl); npages = class_to_pages (tm_sizemap t) ! sc in
      bindR (New env npages (tm_heap t)) (\<lambda>(r, h1).
        case r of
          None \<Rightarrow> Inr (t\<lparr>tm_heap := h1\<rparr>)
        | Some sp \<Rightarrow>
            bindR (RegisterSizeClass sp sc h1) (\<lambda>h2.
            bindR (the_span h2 sp) (\<lambda>s. check (sp_length s = npages)
            (bindR (cache_classes [sp_start s..sp_start s + npages - 1] (int sc) (tm_cache t)) (\<lambda>pc.
             let ptr = push_bit kPageShift (sp_start s); limit = ptr + push_bit kPageShift npages
             in bindR (cut_objects (byte_size_for_class (tm_sizemap t) sc) limit ptr None NULL 0 (tm_mem t)) (\<lambda>(tail, first, ptr', num, m1).
                check (ptr' \<le> limit)
                (let m2 = (case tail of None \<Rightarrow> m1 | Some a \<Rightarrow> m1(a \<mapsto> NULL)); c = tm_central t cl in
                 bindR (upd_span sp (\<lambda>s. s\<lparr>sp_objects := (if tail = None then NULL else first), sp_refcount := 0\<rparr>) h2) (\<lambda>h3.
                 Inr (upd_central cl (c\<lparr>cf_nonempty := sp # cf_nonempty c, cf_num_spans := cf_num_spans c + 1,
                        cf_counter := cf_counter c + word_of_int num\<rparr>)
                      (t\<lparr>tm_heap := h3, tm_cache := pc, tm_mem := m2\<rparr>)))))))))))"

definition FetchFromOneSpansSafe :: "'k tc_env \<Rightarrow> nat \<Rightarrow> int \<Rightarrow> 'k tcm \<Rightarrow> (int \<times> addr \<times> addr \<times> 'k tcm) result" where
  "FetchFromOneSpansSafe env cl N t =
     bindR (FetchFromOneSpans cl N t) (\<lambda>(result, start, end_ptr, t1).
       if result = 0 then bindR (Populate env cl t1) (FetchFromOneSpans cl N) else Inr (result, start, end_ptr, t1))"

text \<open>The loop of \<open>RemoveRange\<close>.\<close>

lemma fetch_walk_pos: "fetch_walk m N r p = Inr (n, prev, cur) \<Longrightarrow> r < n"
  by (induction m N r p rule: fetch_walk.induct) (subst (asm) (2) fetch_walk.simps, fastforce simp: bindR_eq_Inr split: if_splits)

lemma FetchFromOneSpans_nonneg: "FetchFromOneSpans cl N t = Inr (n, s, e, t') \<Longrightarrow> 0 \<le> n"
  by (auto simp: FetchFromOneSpans_def bindR_eq_Inr check_eq_Inr Let_def dest!: fetch_walk_pos split: list.splits)

function remove_loop :: "nat \<Rightarrow> int \<Rightarrow> int \<Rightarrow> addr \<Rightarrow> addr \<Rightarrow> 'k tcm \<Rightarrow> (int \<times> addr \<times> addr \<times> 'k tcm) result" where
  "remove_loop cl N result start end_ptr t =
     (if result < N then
        (case FetchFromOneSpans cl (N - result) t of
           Inl e \<Rightarrow> Inl e
         | Inr (n, head, tail, t1) \<Rightarrow>
             if n = 0 then Inr (result, start, end_ptr, t1)
             else (case SLL_PushRange (tm_mem t1) start head tail of
                     Inl e \<Rightarrow> Inl e
                   | Inr (start', m) \<Rightarrow> remove_loop cl N (result + n) start' end_ptr (t1\<lparr>tm_mem := m\<rparr>)))
      else Inr (result, start, end_ptr, t))"
  by pat_completeness auto
termination
  by (relation "measure (\<lambda>(cl, N, result, start, end_ptr, t). nat (N - result))")
    (auto dest!: FetchFromOneSpans_nonneg)

declare remove_loop.simps [simp del]

definition RemoveRange :: "'k tc_env \<Rightarrow> nat \<Rightarrow> int \<Rightarrow> 'k tcm \<Rightarrow> (int \<times> addr \<times> addr \<times> 'k tcm) result" where
  "RemoveRange env cl N t =
     check (N > 0)
       (let c = tm_central t cl
        in if N = objects_to_move t (cf_size_class c) \<and> cf_used_slots c > 0 then
             let slot = cf_used_slots c - 1; (head, tail) = cf_tc_slots c slot
             in check (slot \<ge> 0) (Inr (N, head, tail, upd_central cl (c\<lparr>cf_used_slots := slot\<rparr>) t))
           else bindR (FetchFromOneSpansSafe env cl N t) (\<lambda>(result, start, end_ptr, t1).
             if result \<noteq> 0 then remove_loop cl N result start end_ptr t1 else Inr (result, start, end_ptr, t1)))"

section \<open>Statistics\<close>

definition cf_length :: "nat \<Rightarrow> 'k tcm \<Rightarrow> int" where
  "cf_length cl t = to_int32 (uint (cf_counter (tm_central t cl)))"

definition tc_length :: "nat \<Rightarrow> 'k tcm \<Rightarrow> int" where
  "tc_length cl t = cf_used_slots (tm_central t cl) * objects_to_move t (cf_size_class (tm_central t cl))"

definition OverheadBytes :: "nat \<Rightarrow> 'k tcm \<Rightarrow> 64 word result" where
  "OverheadBytes cl t =
     (let c = tm_central t cl; sc = cf_size_class c
      in if sc = 0 then Inr 0
         else let pages_per_span = class_to_pages (tm_sizemap t) ! sc; object_size = class_to_size (tm_sizemap t) ! sc
              in check (object_size > 0) (Inr (cf_num_spans c * word_of_int (pages_per_span * kPageSize mod object_size))))"

end
