(* ===== verification/Central_Inv.thy ===== *)
theory Central_Inv
  imports Central_Free_List
begin

unbundle bit_operations_syntax

text \<open>
  The invariant of the central free lists and the operations on spans. \<open>F a\<close> is the sequence of free objects
  of the span \<open>a\<close>, \<open>X\<close> the set of objects that are out: in the transfer cache, in a thread cache or in use.
\<close>

section \<open>The objects of a span\<close>

definition cell_count :: "size_map \<Rightarrow> span \<Rightarrow> int" where
  "cell_count m s = sp_length s * kPageSize div byte_size_for_class m (sp_sizeclass s)"

definition cell_list :: "size_map \<Rightarrow> span \<Rightarrow> addr list" where
  "cell_list m s = map (\<lambda>i. sp_start s * kPageSize + int i * byte_size_for_class m (sp_sizeclass s)) [0..<nat (cell_count m s)]"

abbreviation cells :: "size_map \<Rightarrow> span \<Rightarrow> addr set" where
  "cells m s \<equiv> set (cell_list m s)"

definition class_fits :: "size_map \<Rightarrow> nat \<Rightarrow> bool" where
  "class_fits m c \<longleftrightarrow> 8 \<le> byte_size_for_class m c \<and> byte_size_for_class m c mod 8 = 0 \<and> 0 < class_to_pages m ! c \<and>
     byte_size_for_class m c \<le> class_to_pages m ! c * kPageSize \<and> class_to_pages m ! c * kPageSize div byte_size_for_class m c < 2 ^ 16 \<and>
     0 < num_objects_to_move m ! c \<and> num_objects_to_move m ! c < 2 ^ 16"

definition classes_ok :: "size_map \<Rightarrow> bool" where
  "classes_ok m \<longleftrightarrow> 0 < num_size_classes m \<and> num_size_classes m \<le> kClassSizesMax \<and>
     num_objects_to_move m ! 0 = 0 \<and> (\<forall>c \<in> {1..<num_size_classes m}. class_fits m c)"

lemma classes_okD: "classes_ok m \<Longrightarrow> c \<noteq> 0 \<Longrightarrow> c < num_size_classes m \<Longrightarrow> class_fits m c"
  by (simp add: classes_ok_def)

lemma default_classes_ok: "classes_ok default_map"
proof -
  have "\<forall>c \<in> set [1..<86]. let z = default_sizes ! c; p = default_pages ! c; n = num_move_size 32 z in
      8 \<le> z \<and> z mod 8 = 0 \<and> 0 < p \<and> z \<le> p * kPageSize \<and> p * kPageSize div z < 65536 \<and> 0 < n \<and> n < 65536" by code_simp
  then show ?thesis
    by (simp add: classes_ok_def class_fits_def byte_size_for_class_def default_map_def kClassSizesMax_def Let_def)
qed

lemma distinct_cells: "0 < byte_size_for_class m (sp_sizeclass s) \<Longrightarrow> distinct (cell_list m s)"
  by (simp add: cell_list_def distinct_map inj_on_def)

lemma cells_size:
  assumes "0 < byte_size_for_class m (sp_sizeclass s)" "0 \<le> sp_length s"
  shows "length (cell_list m s) = nat (cell_count m s)" "card (cells m s) = nat (cell_count m s)" "0 \<le> cell_count m s"
proof -
  show "length (cell_list m s) = nat (cell_count m s)" by (simp add: cell_list_def)
  then show "card (cells m s) = nat (cell_count m s)" using distinct_card [OF distinct_cells [OF assms(1)]] by simp
  show "0 \<le> cell_count m s" using assms by (simp add: cell_count_def kPageSize_def pos_imp_zdiv_nonneg_iff)
qed

text \<open>An object lies within the pages of its span.\<close>

lemma cell_extent:
  assumes "x \<in> cells m s" "0 < byte_size_for_class m (sp_sizeclass s)"
  shows "sp_start s * kPageSize \<le> x" "x + byte_size_for_class m (sp_sizeclass s) \<le> (sp_start s + sp_length s) * kPageSize"
proof -
  let ?z = "byte_size_for_class m (sp_sizeclass s)"
  have "x \<in> (\<lambda>i. sp_start s * kPageSize + int i * ?z) ` {0..<nat (cell_count m s)}" using assms(1) by (simp add: cell_list_def)
  then obtain i where i: "x = sp_start s * kPageSize + int i * ?z" "i \<in> {0..<nat (cell_count m s)}" by (rule imageE)
  then have "i < nat (cell_count m s)" by simp
  then have "int i + 1 \<le> cell_count m s" by linarith
  then have "(int i + 1) * ?z \<le> cell_count m s * ?z" using assms(2) by (simp add: mult_right_mono)
  also have "\<dots> \<le> sp_length s * kPageSize"
    using div_mult_mod_eq [of "sp_length s * kPageSize" ?z] pos_mod_sign [OF assms(2), of "sp_length s * kPageSize"] by (simp add: cell_count_def)
  finally show "x + ?z \<le> (sp_start s + sp_length s) * kPageSize" by (simp add: i(1) algebra_simps)
  show "sp_start s * kPageSize \<le> x" using i assms(2) by simp
qed

lemma page_bounds: "a * kPageSize \<le> x \<Longrightarrow> a \<le> x div kPageSize" "x < b * kPageSize \<Longrightarrow> x div kPageSize < b"
  unfolding kPageSize_def by linarith+

lemma cell_page:
  assumes "x \<in> cells m s" "0 < byte_size_for_class m (sp_sizeclass s)"
  shows "x div kPageSize \<in> page_set s"
proof -
  have "x < (sp_start s + sp_length s) * kPageSize" using cell_extent [OF assms] assms(2) by linarith
  then show ?thesis using page_bounds cell_extent(1) [OF assms] by (simp add: page_set_def)
qed

lemma cells_cong: "sp_start s' = sp_start s \<Longrightarrow> sp_length s' = sp_length s \<Longrightarrow> sp_sizeclass s' = sp_sizeclass s \<Longrightarrow> cell_list m s' = cell_list m s"
  by (simp add: cell_list_def cell_count_def)

section \<open>Spans with a size class\<close>

definition sized :: "'k tcm \<Rightarrow> addr \<Rightarrow> span option" where
  "sized t a = (case live (ph_spans (tm_heap t)) a of None \<Rightarrow> None | Some s \<Rightarrow> if sp_sizeclass s = 0 then None else Some s)"

lemma sized_Some:
  "sized t a = Some s \<longleftrightarrow> ph_spans (tm_heap t) a = Some s \<and> sp_location s = IN_USE \<and> sp_sizeclass s \<noteq> 0"
  by (auto simp: sized_def live_def split: option.splits if_splits)

lemma sized_live: "live (ph_spans (tm_heap t')) = live (ph_spans (tm_heap t)) \<Longrightarrow> sized t' = sized t"
  by (simp add: sized_def fun_eq_iff)

text \<open>The class an object belongs to.\<close>

definition class_of :: "'k tcm \<Rightarrow> addr \<Rightarrow> nat \<Rightarrow> bool" where
  "class_of t x c \<longleftrightarrow> (\<exists>a s. sized t a = Some s \<and> x \<in> cells (tm_sizemap t) s \<and> sp_sizeclass s = c)"

text \<open>The cached classes agree with the spans in use; the first page of a span without a class misses.\<close>

definition cached_fine :: "packed_cache \<Rightarrow> span \<Rightarrow> bool" where
  "cached_fine pc s \<longleftrightarrow> (if sp_sizeclass s = 0 then pc_lookup pc (sp_start s) = None
     else \<forall>p\<in>page_set s. pc_lookup pc p \<in> {None, Some (int (sp_sizeclass s))})"

definition cache_ok :: "span_store \<Rightarrow> packed_cache \<Rightarrow> bool" where
  "cache_ok st pc \<longleftrightarrow> (\<forall>a s. live st a = Some s \<longrightarrow> cached_fine pc s)"

lemma cache_ok_upd: "cache_ok st pc \<Longrightarrow> live st' = (live st)(a \<mapsto> s') \<Longrightarrow> cached_fine pc s' \<Longrightarrow> cache_ok st' pc"
  by (auto simp: cache_ok_def)

lemma cache_ok_del: "cache_ok st pc \<Longrightarrow> live st' = (live st)(a := None) \<Longrightarrow> cache_ok st' pc"
  by (auto simp: cache_ok_def)

lemma cached_fine_cong:
  "cached_fine pc s \<Longrightarrow> sp_start s' = sp_start s \<Longrightarrow> sp_length s' = sp_length s \<Longrightarrow> sp_sizeclass s' = sp_sizeclass s \<Longrightarrow> cached_fine pc s'"
  by (auto simp: cached_fine_def page_set_def split: if_splits)

lemma sized_cached: "cache_ok (ph_spans (tm_heap t)) pc \<Longrightarrow> sized t a = Some s \<Longrightarrow> cached_fine pc s"
  by (simp add: cache_ok_def sized_def split: option.splits if_splits)

definition span_fine :: "'k tcm \<Rightarrow> (addr \<Rightarrow> addr list) \<Rightarrow> addr set \<Rightarrow> addr \<Rightarrow> span \<Rightarrow> bool" where
  "span_fine t F X a s \<longleftrightarrow> sp_sizeclass s < num_size_classes (tm_sizemap t) \<and>
     sp_length s = class_to_pages (tm_sizemap t) ! sp_sizeclass s \<and>
     sll (tm_mem t) (sp_objects s) (F a) \<and> set (F a) = cells (tm_sizemap t) s - X \<and>
     sp_refcount s = int (card (cells (tm_sizemap t) s \<inter> X))"

definition class_spans :: "'k tcm \<Rightarrow> nat \<Rightarrow> addr set" where
  "class_spans t c = {a. \<exists>s. sized t a = Some s \<and> sp_sizeclass s = c}"

definition lists_fine :: "'k tcm \<Rightarrow> (addr \<Rightarrow> addr list) \<Rightarrow> nat \<Rightarrow> central_list \<Rightarrow> bool" where
  "lists_fine t F c l \<longleftrightarrow> cf_size_class l = c \<and> distinct (cf_empty l) \<and> distinct (cf_nonempty l) \<and>
     set (cf_empty l) = {a \<in> class_spans t c. F a = []} \<and> set (cf_nonempty l) = {a \<in> class_spans t c. F a \<noteq> []} \<and>
     cf_num_spans l = of_nat (card (class_spans t c)) \<and> cf_counter l = of_nat (\<Sum>a\<in>class_spans t c. length (F a))"

definition spans_ok :: "'k tc_env \<Rightarrow> ('k \<Rightarrow> addr set) \<Rightarrow> (addr \<Rightarrow> addr list) \<Rightarrow> addr set \<Rightarrow> 'k tcm \<Rightarrow> bool" where
  "spans_ok env own F X t \<longleftrightarrow> plain_heap env own (tm_heap t) \<and> madvise_ends env \<and> classes_ok (tm_sizemap t) \<and>
     cache_ok (ph_spans (tm_heap t)) (tm_cache t) \<and>
     (\<forall>a s. sized t a = Some s \<longrightarrow> span_fine t F X a s) \<and>
     (\<forall>x\<in>X. x \<in> dom (tm_mem t) \<and> (\<exists>a s. sized t a = Some s \<and> x \<in> cells (tm_sizemap t) s)) \<and>
     (\<forall>c<num_size_classes (tm_sizemap t). lists_fine t F c (tm_central t c))"

text \<open>The spans in use that are not cut into objects.\<close>

definition plain :: "'k tcm \<Rightarrow> addr \<Rightarrow> span option" where
  "plain t a = (case live (ph_spans (tm_heap t)) a of None \<Rightarrow> None | Some s \<Rightarrow> if sp_sizeclass s = 0 then Some s else None)"

lemma plain_live: "live (ph_spans (tm_heap t')) = live (ph_spans (tm_heap t)) \<Longrightarrow> plain t' = plain t"
  by (simp add: plain_def fun_eq_iff)

lemma plain_upd:
  assumes "live (ph_spans (tm_heap t')) = (live (ph_spans (tm_heap t)))(a := x)"
    and "\<And>s. x = Some s \<Longrightarrow> sp_sizeclass s \<noteq> 0" "\<And>s. live (ph_spans (tm_heap t)) a = Some s \<Longrightarrow> sp_sizeclass s \<noteq> 0"
  shows "plain t' = plain t"
  using assms by (auto simp: plain_def fun_eq_iff split: option.splits)

text \<open>
  What an operation on spans leaves alone: the transfer cache, the spans that are not cut, and the objects \<open>X\<close> with their
  words and classes.
\<close>

definition same_slots :: "central_list \<Rightarrow> central_list \<Rightarrow> bool" where
  "same_slots c c' \<longleftrightarrow> cf_tc_slots c' = cf_tc_slots c \<and> cf_used_slots c' = cf_used_slots c \<and>
     cf_cache_size c' = cf_cache_size c \<and> cf_max_cache_size c' = cf_max_cache_size c"

definition kept_objects :: "addr set \<Rightarrow> 'k tcm \<Rightarrow> 'k tcm \<Rightarrow> bool" where
  "kept_objects X t t' \<longleftrightarrow> tm_sizemap t' = tm_sizemap t \<and> plain t' = plain t \<and>
     (\<forall>x\<in>X. tm_mem t' x = tm_mem t x \<and> (\<forall>c. class_of t x c \<longrightarrow> class_of t' x c))"

definition kept_rest :: "addr set \<Rightarrow> 'k tcm \<Rightarrow> 'k tcm \<Rightarrow> bool" where
  "kept_rest X t t' \<longleftrightarrow> kept_objects X t t' \<and> tm_race t' = tm_race t \<and> (\<forall>c. same_slots (tm_central t c) (tm_central t' c))"

lemma kept_refl [simp]: "kept_objects X t t" "kept_rest X t t"
  by (simp_all add: kept_objects_def kept_rest_def same_slots_def)

lemma kept_trans:
  "kept_objects X t t1 \<Longrightarrow> kept_objects X t1 t2 \<Longrightarrow> kept_objects X t t2"
  "kept_rest X t t1 \<Longrightarrow> kept_rest X t1 t2 \<Longrightarrow> kept_rest X t t2"
  by (auto simp: kept_objects_def kept_rest_def same_slots_def)

lemma kept_mono:
  "kept_objects X t t' \<Longrightarrow> Y \<subseteq> X \<Longrightarrow> kept_objects Y t t'"
  "kept_rest X t t' \<Longrightarrow> Y \<subseteq> X \<Longrightarrow> kept_rest Y t t'"
  by (auto simp: kept_objects_def kept_rest_def)

lemma lseg_cong: "(\<And>x. x \<in> set xs \<Longrightarrow> m' x = m x) \<Longrightarrow> lseg m' p xs q = lseg m p xs q"
  by (induction xs arbitrary: p) (auto split: option.splits)

lemma kept_sll: "kept_objects X t t' \<Longrightarrow> set xs \<subseteq> X \<Longrightarrow> sll (tm_mem t') p xs = sll (tm_mem t) p xs"
  by (rule lseg_cong) (auto simp: kept_objects_def)

section \<open>Facts about the invariant\<close>

lemma spans_okD:
  assumes "spans_ok env own F X t"
  shows "plain_heap env own (tm_heap t)" "madvise_ends env" "classes_ok (tm_sizemap t)"
    "cache_ok (ph_spans (tm_heap t)) (tm_cache t)" "\<And>a s. sized t a = Some s \<Longrightarrow> span_fine t F X a s"
    "\<And>c. c < num_size_classes (tm_sizemap t) \<Longrightarrow> lists_fine t F c (tm_central t c)"
    "heap_ok env own (tm_heap t)" "mem_os env own" "geo (ph_spans (tm_heap t)) (ph_pagemap (tm_heap t))"
  using assms heap_okD(1) [of env own "tm_heap t"] unfolding spans_ok_def plain_heap_def by blast+

lemma out_object:
  assumes "spans_ok env own F X t" "x \<in> X"
  shows "x \<in> dom (tm_mem t)" "\<exists>a s. sized t a = Some s \<and> x \<in> cells (tm_sizemap t) s"
  using assms unfolding spans_ok_def by blast+

lemma sized_fits:
  assumes "spans_ok env own F X t" "sized t a = Some s"
  shows "class_fits (tm_sizemap t) (sp_sizeclass s)" "0 < byte_size_for_class (tm_sizemap t) (sp_sizeclass s)"
proof -
  show "class_fits (tm_sizemap t) (sp_sizeclass s)"
    using spans_okD(5) [OF assms] spans_okD(3) [OF assms(1)] assms(2) by (auto simp: span_fine_def sized_Some intro: classes_okD)
  then show "0 < byte_size_for_class (tm_sizemap t) (sp_sizeclass s)" by (simp add: class_fits_def)
qed

lemma sized_span_ok:
  assumes "spans_ok env own F X t" "sized t a = Some s"
  shows "span_ok (ph_pagemap (tm_heap t)) a s"
  using geo_span [OF spans_okD(9) [OF assms(1)], of a s] assms(2) by (simp add: sized_Some)

lemma cells_disjoint:
  assumes "spans_ok env own F X t" "sized t a = Some s" "sized t b = Some u" "x \<in> cells (tm_sizemap t) s" "x \<in> cells (tm_sizemap t) u"
  shows "a = b"
  using geo_same [OF spans_okD(9) [OF assms(1)], of a s b u "x div kPageSize"] assms
    cell_page [OF assms(4) sized_fits(2) [OF assms(1,2)]] cell_page [OF assms(5) sized_fits(2) [OF assms(1,3)]]
  by (simp add: sized_Some)

lemma cell_nonnull:
  assumes "spans_ok env own F X t" "sized t a = Some s" "x \<in> cells (tm_sizemap t) s"
  shows "0 < x"
  using cell_extent(1) [OF assms(3) sized_fits(2) [OF assms(1,2)]] sized_span_ok [OF assms(1,2)] by (auto simp: span_ok_def kPageSize_def)

text \<open>The page map leads from an object to its span.\<close>

lemma MapObjectToSpan_ok:
  assumes "spans_ok env own F X t" "sized t a = Some s" "x \<in> cells (tm_sizemap t) s"
  shows "MapObjectToSpan t x = Inr a"
proof -
  have p: "x div kPageSize \<in> page_set s" by (rule cell_page [OF assms(3) sized_fits(2) [OF assms(1,2)]])
  have so: "span_ok (ph_pagemap (tm_heap t)) a s" by (rule sized_span_ok [OF assms(1,2)])
  then have "lkp (ph_pagemap (tm_heap t)) (x div kPageSize) = a" using p assms(2) by (simp add: span_ok_def sized_Some)
  moreover have "0 \<le> x div kPageSize" using p so by (auto simp: span_ok_def page_set_def)
  moreover have "drop_bit kPageShift x = x div kPageSize" by (simp add: drop_bit_eq_div kPageShift_def kPageSize_def)
  ultimately show ?thesis using GetDescriptor_ok [of "x div kPageSize" "tm_heap t"] by (simp add: MapObjectToSpan_def)
qed

lemma finite_class_spans: "spans_ok env own F X t \<Longrightarrow> finite (class_spans t c)"
  using geo_finite [OF spans_okD(9)] by (rule finite_subset [rotated]) (auto simp: class_spans_def sized_Some)

end
