(* ===== verification/Central_Spans.thy ===== *)
theory Central_Spans
  imports Central_Inv
begin

unbundle bit_operations_syntax

text \<open>
  Objects go back to their spans and come from them: \<open>ReleaseToSpans\<close>, \<open>ReleaseListToSpans\<close>,
  \<open>FetchFromOneSpans\<close> and \<open>Populate\<close> keep the invariant, end, and fail no assertion.
\<close>

section \<open>Changes of a span in use\<close>

lemma touch_ok:
  assumes ok: "heap_ok env own h" and a: "ph_spans h a = Some s" "sp_location s = IN_USE"
    and s': "sp_start s' = sp_start s" "sp_length s' = sp_length s" "sp_location s' = sp_location s" "sp_sizeclass s' = sp_sizeclass s"
      "sp_has_span_iter s' = sp_has_span_iter s"
  shows "heap_ok env own (h\<lparr>ph_spans := (ph_spans h)(a \<mapsto> s')\<rparr>)"
proof -
  note H = heap_okD [OF ok]
  let ?st = "ph_spans h" and ?h' = "h\<lparr>ph_spans := (ph_spans h)(a \<mapsto> s')\<rparr>"
  have dm: "dom (?st(a \<mapsto> s')) = dom ?st" using a(1) by auto
  have pg: "heap_pages (?st(a \<mapsto> s')) = heap_pages ?st"
    by (rule heap_pages_upd [of ?st a s, OF a(1)]) (simp add: page_set_def s')
  have "geo (?st(a \<mapsto> s')) (ph_pagemap h)"
    by (rule geo_cong [OF H(1) dm]) (use a s' in \<open>auto simp: class_kept_def split: if_splits\<close>)
  moreover have "parts {} ?h'" by (rule parts_inuse_upd [OF H(2) a(1), of s']) (use a(2) s' in simp_all)
  moreover have "mem_ok env own ?h'" using H(3) dm heap_mem_cong [OF pg] by (simp add: mem_ok_def)
  moreover have "coalesced {} (?st(a \<mapsto> s'))" if "coalesced {} ?st"
    using coalesced_floating [OF that, of a s'] coalesced_inuse [of "?st(a \<mapsto> s')" a s'] a(2) s'(3) by simp
  ultimately show ?thesis using ok by (simp add: heap_ok_def ph_inv_def stats_balanced_def)
qed

lemma live_touch: "sp_location s' = IN_USE \<Longrightarrow> live (st(a \<mapsto> s')) = (live st)(a \<mapsto> s')"
  by (auto simp: live_def)

lemma sized_upd:
  assumes "live (ph_spans (tm_heap t')) = (live (ph_spans (tm_heap t)))(a \<mapsto> s')" "sp_sizeclass s' \<noteq> 0"
  shows "sized t' = (sized t)(a \<mapsto> s')"
  using assms by (auto simp: sized_def fun_eq_iff)

lemma sized_del:
  assumes "live (ph_spans (tm_heap t')) = (live (ph_spans (tm_heap t)))(a := None)"
  shows "sized t' = (sized t)(a := None)"
  using assms by (auto simp: sized_def fun_eq_iff)

section \<open>Congruence of the parts of the invariant\<close>

lemma span_fine_cong:
  assumes "span_fine t F X b u" "tm_sizemap t' = tm_sizemap t" "F' b = F b" "\<And>y. y \<in> set (F b) \<Longrightarrow> tm_mem t' y = tm_mem t y"
    and "cells (tm_sizemap t) u \<inter> X' = cells (tm_sizemap t) u \<inter> X"
  shows "span_fine t' F' X' b u"
proof -
  have "sll (tm_mem t') p (F b) = sll (tm_mem t) p (F b)" for p by (rule lseg_cong) (rule assms(4))
  moreover have "cells (tm_sizemap t) u - X' = cells (tm_sizemap t) u - X" using assms(5) by blast
  ultimately show ?thesis using assms(1) unfolding span_fine_def assms(2,3,5) by simp
qed

lemma lists_fine_cong:
  assumes "lists_fine t F c l" "class_spans t' c = class_spans t c" "\<And>a. a \<in> class_spans t c \<Longrightarrow> F' a = F a"
  shows "lists_fine t' F' c l"
proof -
  have "(\<Sum>a\<in>class_spans t c. length (F' a)) = (\<Sum>a\<in>class_spans t c. length (F a))" by (rule sum.cong) (simp_all add: assms(3))
  moreover have "{a \<in> class_spans t c. F' a = []} = {a \<in> class_spans t c. F a = []}"
    "{a \<in> class_spans t c. F' a \<noteq> []} = {a \<in> class_spans t c. F a \<noteq> []}" using assms(3) by auto
  ultimately show ?thesis using assms(1) unfolding lists_fine_def assms(2) by simp
qed

lemma class_spans_upd:
  assumes "sized t a = Some s" "sized t' = (sized t)(a \<mapsto> s')" "sp_sizeclass s' = sp_sizeclass s"
  shows "class_spans t' c = class_spans t c"
  using assms by (auto simp: class_spans_def split: if_splits)

lemma class_spans_del:
  assumes "sized t a = Some s" "sized t' = (sized t)(a := None)"
  shows "class_spans t' c = class_spans t c - {a}"
  using assms by (auto simp: class_spans_def split: if_splits)

lemma class_of_upd:
  assumes "class_of t x c" "tm_sizemap t' = tm_sizemap t" "sized t a = Some s" "sized t' = (sized t)(a \<mapsto> s')"
    and "sp_start s' = sp_start s" "sp_length s' = sp_length s" "sp_sizeclass s' = sp_sizeclass s"
  shows "class_of t' x c"
proof -
  obtain b u where b: "sized t b = Some u" "x \<in> cells (tm_sizemap t) u" "sp_sizeclass u = c" using assms(1) by (auto simp: class_of_def)
  then show ?thesis unfolding class_of_def
    using assms(2-4) cells_cong [OF assms(5-7)] assms(7) by (cases "b = a") (force intro: exI [of _ a], force)
qed

lemma span_a: "spans_ok env own F X t \<Longrightarrow> sized t a = Some s \<Longrightarrow> a \<noteq> NULL \<and> the_span (tm_heap t) a = Inr s"
  using sized_span_ok [of env own F X t a s] by (auto simp: span_ok_def sized_Some the_span_def)

text \<open>The words of the free objects of other spans are not those of this span.\<close>

lemma other_cells:
  assumes ok: "spans_ok env own F X t" and s: "sized t a = Some s" and b: "sized t b = Some u" "b \<noteq> a" and y: "y \<in> cells (tm_sizemap t) u"
  shows "y \<notin> cells (tm_sizemap t) s" "\<not> (sp_start s \<le> y div kPageSize \<and> y div kPageSize < sp_start s + sp_length s)"
proof -
  show "y \<notin> cells (tm_sizemap t) s" using cells_disjoint [OF ok s b(1)] b(2) y by blast
  have "y div kPageSize \<in> page_set u" by (rule cell_page [OF y sized_fits(2) [OF ok b(1)]])
  then have "y div kPageSize \<notin> page_set s"
    using geo_same [OF spans_okD(9) [OF ok], of a s b u] s b by (auto simp: sized_Some)
  then show "\<not> (sp_start s \<le> y div kPageSize \<and> y div kPageSize < sp_start s + sp_length s)" by (simp add: page_set_def)
qed

section \<open>Releasing an object\<close>

text \<open>The span is on the list of those with free objects afterwards.\<close>

lemma to_nonempty:
  assumes fine: "lists_fine t F c l" and a: "a \<in> class_spans t c" and e: "p = NULL \<longleftrightarrow> F a = []"
  shows "\<exists>l1. (if p = NULL then bindR (unlink a l) (\<lambda>l. Inr (l\<lparr>cf_nonempty := a # cf_nonempty l\<rparr>)) else Inr l) = Inr l1 \<and>
    set (cf_empty l1) = set (cf_empty l) - {a} \<and> set (cf_nonempty l1) = insert a (set (cf_nonempty l)) \<and>
    distinct (cf_empty l1) \<and> distinct (cf_nonempty l1) \<and> cf_num_spans l1 = cf_num_spans l \<and> cf_counter l1 = cf_counter l \<and>
    cf_size_class l1 = cf_size_class l \<and> same_slots l l1"
proof -
  have l: "distinct (cf_empty l)" "distinct (cf_nonempty l)" "a \<in> set (cf_empty l) \<longleftrightarrow> F a = []" "a \<in> set (cf_nonempty l) \<longleftrightarrow> F a \<noteq> []"
    using fine a unfolding lists_fine_def by auto
  show ?thesis using l e by (cases "F a = []") (auto simp: unlink_def same_slots_def)
qed

lemma objects_per_span_ok:
  assumes "spans_ok env own F X t" "sized t a = Some s"
  shows "objects_per_span (tm_sizemap t) s = Inr (cell_count (tm_sizemap t) s)"
proof -
  have l: "0 < sp_length s" "sp_length s \<le> 2 ^ 34" using sized_span_ok [OF assms] by (auto simp: span_ok_def)
  then have "to_size_t (push_bit kPageShift (sp_length s)) = sp_length s * kPageSize"
    by (intro to_size_t_id [THEN trans]) (simp_all add: push_bit_eq_mult kPageShift_def kPageSize_def)
  then show ?thesis using sized_fits(2) [OF assms] by (simp add: objects_per_span_def cell_count_def)
qed

lemma free_count:
  assumes "spans_ok env own F X t" "sized t a = Some s"
  shows "int (length (F a)) = cell_count (tm_sizemap t) s - int (card (cells (tm_sizemap t) s \<inter> X))"
proof -
  have f: "sll (tm_mem t) (sp_objects s) (F a)" "set (F a) = cells (tm_sizemap t) s - X" using spans_okD(5) [OF assms] by (simp_all add: span_fine_def)
  have "card (cells (tm_sizemap t) s - X) + card (cells (tm_sizemap t) s \<inter> X) = card (cells (tm_sizemap t) s)"
    using card_Diff_subset_Int [of "cells (tm_sizemap t) s" X] card_mono [of "cells (tm_sizemap t) s" "cells (tm_sizemap t) s \<inter> X"] by simp
  moreover have "length (F a) = card (cells (tm_sizemap t) s - X)" using distinct_card [OF sll_distinct [OF f(1)]] f(2) by simp
  moreover have "0 \<le> sp_length s" using sized_span_ok [OF assms] by (simp add: span_ok_def)
  ultimately show ?thesis using cells_size [OF sized_fits(2) [OF assms]] by simp
qed

text \<open>An object comes back to a span that has others out: it becomes its first free object.\<close>

lemma push_object:
  assumes ok: "spans_ok env own F X t" and s: "sized t a = Some s" and x: "x \<in> cells (tm_sizemap t) s" "x \<in> X"
    and l1: "set (cf_empty l1) = set (cf_empty (tm_central t (sp_sizeclass s))) - {a}"
      "set (cf_nonempty l1) = insert a (set (cf_nonempty (tm_central t (sp_sizeclass s))))" "distinct (cf_empty l1)" "distinct (cf_nonempty l1)"
      "cf_num_spans l1 = cf_num_spans (tm_central t (sp_sizeclass s))" "cf_counter l1 = cf_counter (tm_central t (sp_sizeclass s))"
      "cf_size_class l1 = cf_size_class (tm_central t (sp_sizeclass s))" "same_slots (tm_central t (sp_sizeclass s)) l1"
    and t': "t' = upd_central (sp_sizeclass s) (l1\<lparr>cf_counter := cf_counter l1 + 1\<rparr>)
      (t\<lparr>tm_heap := (tm_heap t)\<lparr>ph_spans := (ph_spans (tm_heap t))(a \<mapsto> s\<lparr>sp_refcount := sp_refcount s - 1, sp_objects := x\<rparr>)\<rparr>,
         tm_mem := (tm_mem t)(x \<mapsto> sp_objects s)\<rparr>)"
  shows "spans_ok env own (F(a := x # F a)) (X - {x}) t'" "kept_rest (X - {x}) t t'"
proof -
  let ?s' = "s\<lparr>sp_refcount := sp_refcount s - 1, sp_objects := x\<rparr>" and ?F = "F(a := x # F a)" and ?m = "tm_sizemap t" and ?c = "sp_sizeclass s"
  note O = spans_okD [OF ok]
  have as: "ph_spans (tm_heap t) a = Some s" "sp_location s = IN_USE" "?c \<noteq> 0" using s by (simp_all add: sized_Some)
  have lv: "live (ph_spans (tm_heap t')) = (live (ph_spans (tm_heap t)))(a \<mapsto> ?s')" by (simp add: t' live_touch as(2))
  have pl: "plain t' = plain t"
    by (rule plain_upd [OF lv]) (use as in \<open>auto simp: live_def split: option.splits if_splits\<close>)
  have sz: "sized t' = (sized t)(a \<mapsto> ?s')" by (rule sized_upd [OF lv]) (simp add: as(3))
  have m': "tm_sizemap t' = ?m" "tm_cache t' = tm_cache t" "tm_race t' = tm_race t" "tm_mem t' = (tm_mem t)(x \<mapsto> sp_objects s)" by (simp_all add: t')
  have cs: "cell_list ?m ?s' = cell_list ?m s" by (rule cells_cong) simp_all
  have cl: "class_spans t' c = class_spans t c" for c by (rule class_spans_upd [OF s sz]) simp
  have f: "span_fine t F X a s" by (rule O(5) [OF s])
  have n: "?c < num_size_classes ?m" using f by (simp add: span_fine_def)
  have ap: "a \<in> class_spans t ?c" using s by (auto simp: class_spans_def)
  have xF: "x \<notin> set (F b)" if "sized t b = Some u" for b u
    using O(5) [OF that] x(2) by (auto simp: span_fine_def)
  have "spans_ok env own ?F (X - {x}) t'"
    unfolding spans_ok_def
  proof (intro conjI allI impI ballI)
    show "plain_heap env own (tm_heap t')" using O(1) touch_ok [OF O(7) as(1,2), of ?s'] by (simp add: plain_heap_def t')
    show "madvise_ends env" "classes_ok (tm_sizemap t')" using O(2,3) by (simp_all add: m')
    show "cache_ok (ph_spans (tm_heap t')) (tm_cache t')"
      unfolding m' by (rule cache_ok_upd [OF O(4) lv], rule cached_fine_cong [OF sized_cached [OF O(4) s]]) simp_all
  next
    fix b u assume b: "sized t' b = Some u"
    show "span_fine t' ?F (X - {x}) b u"
    proof (cases "b = a")
      case True
      have u: "u = ?s'" using b True by (simp add: sz)
      have "sll (tm_mem t') x (x # F a)" using f xF [OF s] cell_nonnull [OF ok s x(1)] by (simp add: span_fine_def m')
      moreover have "set (x # F a) = cells ?m s - (X - {x})" using f x by (auto simp: span_fine_def)
      moreover have "cells ?m s \<inter> X = insert x (cells ?m s \<inter> (X - {x}))" using x by blast
      ultimately show ?thesis using f unfolding True u span_fine_def m' cs by simp
    next
      case False
      then have u: "sized t b = Some u" using b by (simp add: sz)
      have "x \<notin> cells ?m u" using cells_disjoint [OF ok s u x(1)] False by blast
      then show ?thesis by (intro span_fine_cong [OF O(5) [OF u]]) (use False xF [OF u] in \<open>auto simp: m'\<close>)
    qed
  next
    fix y assume y: "y \<in> X - {x}"
    then have d: "y \<in> dom (tm_mem t)" using out_object [OF ok, of y] by blast
    obtain b u where b: "sized t b = Some u" "y \<in> cells ?m u" using out_object [OF ok, of y] y by blast
    show "y \<in> dom (tm_mem t')" using d y by (simp add: m')
    show "\<exists>b u. sized t' b = Some u \<and> y \<in> cells (tm_sizemap t') u"
    proof (cases "b = a")
      case True then show ?thesis using b s cs by (intro exI [of _ a] exI [of _ ?s']) (simp add: sz m')
    next
      case False then show ?thesis using b by (intro exI [of _ b] exI [of _ u]) (simp add: sz m')
    qed
  next
    fix c assume c: "c < num_size_classes (tm_sizemap t')"
    then have old: "lists_fine t F c (tm_central t c)" using O(6) by (simp add: m')
    show "lists_fine t' ?F c (tm_central t' c)"
    proof (cases "c = ?c")
      case False
      then have a: "a \<notin> class_spans t c" and ct: "tm_central t' c = tm_central t c" using s by (auto simp: class_spans_def t')
      show ?thesis unfolding ct by (rule lists_fine_cong [OF old cl]) (use a in auto)
    next
      case True
      have "(\<Sum>b\<in>class_spans t c. length (?F b)) = (\<Sum>b\<in>class_spans t c. length (F b)) + 1"
        using finite_class_spans [OF ok, of c] ap True by (simp add: sum.remove [of _ a])
      then show ?thesis using old l1 ap unfolding lists_fine_def cl True by (auto simp: t')
    qed
  qed
  moreover have "class_of t' y c" if "class_of t y c" for y c by (rule class_of_upd [OF that m'(1) s sz]) simp_all
  then have "kept_objects (X - {x}) t t'" by (simp add: kept_objects_def m' pl)
  then have "kept_rest (X - {x}) t t'" using l1(8) by (simp add: kept_rest_def m' same_slots_def t')
  ultimately show "spans_ok env own ?F (X - {x}) t'" "kept_rest (X - {x}) t t'" by blast+
qed

text \<open>The last object of a span comes back: the span goes to the page heap.\<close>

lemma drop_span:
  assumes ok: "spans_ok env own F X t" and s: "sized t a = Some s" and x: "cells (tm_sizemap t) s \<inter> X = {x}"
    and l: "set (cf_empty l) = set (cf_empty (tm_central t (sp_sizeclass s))) - {a}"
      "set (cf_nonempty l) = set (cf_nonempty (tm_central t (sp_sizeclass s))) - {a}" "distinct (cf_empty l)" "distinct (cf_nonempty l)"
      "cf_num_spans l = cf_num_spans (tm_central t (sp_sizeclass s)) - 1"
      "cf_counter l = cf_counter (tm_central t (sp_sizeclass s)) + 1 - word_of_int (cell_count (tm_sizemap t) s)"
      "cf_size_class l = cf_size_class (tm_central t (sp_sizeclass s))" "same_slots (tm_central t (sp_sizeclass s)) l"
    and h: "plain_heap env own h" "live (ph_spans h) = (live (ph_spans (tm_heap t)))(a := None)"
    and t': "t' = upd_central (sp_sizeclass s) l (t\<lparr>tm_heap := h, tm_mem := forget s (tm_mem t)\<rparr>)"
  shows "spans_ok env own F (X - {x}) t'" "kept_rest (X - {x}) t t'"
proof -
  let ?m = "tm_sizemap t" and ?c = "sp_sizeclass s"
  note O = spans_okD [OF ok]
  have m': "tm_sizemap t' = ?m" "tm_cache t' = tm_cache t" "tm_race t' = tm_race t" "tm_mem t' = forget s (tm_mem t)" "tm_heap t' = h" by (simp_all add: t')
  have lv: "live (ph_spans (tm_heap t')) = (live (ph_spans (tm_heap t)))(a := None)" by (simp add: m' h(2))
  have pl: "plain t' = plain t"
    by (rule plain_upd [OF lv]) (use s in \<open>auto simp: sized_def split: option.splits if_splits\<close>)
  have sz: "sized t' = (sized t)(a := None)" by (rule sized_del [OF lv])
  have cl: "class_spans t' c = class_spans t c - {a}" for c by (rule class_spans_del [OF s sz])
  have f: "span_fine t F X a s" by (rule O(5) [OF s])
  have n: "?c < num_size_classes ?m" using f by (simp add: span_fine_def)
  have ap: "a \<in> class_spans t ?c" using s by (auto simp: class_spans_def)
  have mem: "tm_mem t' y = tm_mem t y" if "sized t b = Some u" "b \<noteq> a" "y \<in> cells ?m u" for b u y
    unfolding m' forget_def by (rule if_not_P [OF other_cells(2) [OF ok s that]])
  have elsewhere: "\<exists>b u. b \<noteq> a \<and> sized t b = Some u \<and> y \<in> cells ?m u" if y: "y \<in> X - {x}" for y
  proof -
    obtain b u where b: "sized t b = Some u" "y \<in> cells ?m u" using out_object [OF ok, of y] y by blast
    moreover have "b \<noteq> a"
    proof
      assume "b = a"
      then have "y \<in> cells ?m s \<inter> X" using b s y by simp
      then show False using x y by simp
    qed
    ultimately show ?thesis by blast
  qed
  have "spans_ok env own F (X - {x}) t'"
    unfolding spans_ok_def
  proof (intro conjI allI impI ballI)
    show "plain_heap env own (tm_heap t')" "madvise_ends env" "classes_ok (tm_sizemap t')" using O(2,3) h(1) by (simp_all add: m')
    show "cache_ok (ph_spans (tm_heap t')) (tm_cache t')" unfolding m'(2) by (rule cache_ok_del [OF O(4) lv])
  next
    fix b u assume "sized t' b = Some u"
    then have b: "b \<noteq> a" "sized t b = Some u" by (auto simp: sz split: if_splits)
    have "x \<notin> cells ?m u" using cells_disjoint [OF ok s b(2), of x] b(1) x by blast
    moreover have "set (F b) \<subseteq> cells ?m u" using O(5) [OF b(2)] by (auto simp: span_fine_def)
    ultimately show "span_fine t' F (X - {x}) b u" using mem [OF b(2,1)] by (intro span_fine_cong [OF O(5) [OF b(2)]]) (auto simp: m')
  next
    fix y assume y: "y \<in> X - {x}"
    then obtain b u where b: "b \<noteq> a" "sized t b = Some u" "y \<in> cells ?m u" using elsewhere by blast
    have "y \<in> dom (tm_mem t)" using out_object [OF ok, of y] y by blast
    then show "y \<in> dom (tm_mem t')" using mem [OF b(2,1,3)] by (auto simp: dom_def)
    show "\<exists>b u. sized t' b = Some u \<and> y \<in> cells (tm_sizemap t') u" using b by (intro exI [of _ b] exI [of _ u]) (simp add: sz m')
  next
    fix c assume c: "c < num_size_classes (tm_sizemap t')"
    then have old: "lists_fine t F c (tm_central t c)" using O(6) by (simp add: m')
    show "lists_fine t' F c (tm_central t' c)"
    proof (cases "c = ?c")
      case False
      then have "a \<notin> class_spans t c" and ct: "tm_central t' c = tm_central t c" using s by (auto simp: class_spans_def t')
      then have "class_spans t' c = class_spans t c" using cl [of c] by blast
      then show ?thesis unfolding ct by (rule lists_fine_cong [OF old]) simp
    next
      case True
      have fin: "finite (class_spans t c)" by (rule finite_class_spans [OF ok])
      have "card (class_spans t c) = Suc (card (class_spans t c - {a}))" using card.remove [OF fin] ap True by simp
      moreover have "(\<Sum>b\<in>class_spans t c. length (F b)) = length (F a) + (\<Sum>b\<in>class_spans t c - {a}. length (F b))"
        using sum.remove [OF fin, of a] ap True by simp
      moreover have "cell_count ?m s = int (length (F a)) + 1" using free_count [OF ok s] x by simp
      ultimately show ?thesis using old l unfolding lists_fine_def cl True by (auto simp: t')
    qed
  qed
  moreover have "class_of t' y c" if y: "y \<in> X - {x}" and c: "class_of t y c" for y c
  proof -
    obtain b u where b: "b \<noteq> a" "sized t b = Some u" "y \<in> cells ?m u" using elsewhere [OF y] by blast
    obtain b' u' where b': "sized t b' = Some u'" "y \<in> cells ?m u'" "sp_sizeclass u' = c" using c by (auto simp: class_of_def)
    have "b' = b" using cells_disjoint [OF ok b'(1) b(2) b'(2) b(3)] .
    then show ?thesis using b b' by (intro exI [of _ b] exI [of _ u] class_of_def [THEN iffD2]) (simp add: sz m')
  qed
  moreover have "tm_mem t' y = tm_mem t y" if "y \<in> X - {x}" for y using elsewhere [OF that] mem by blast
  ultimately show "spans_ok env own F (X - {x}) t'" "kept_rest (X - {x}) t t'"
    using l(8) pl by (auto simp: kept_rest_def kept_objects_def m'(1,3) same_slots_def t')
qed

lemma ReleaseToSpans_ok:
  assumes ok: "spans_ok env own F X t" and x: "x \<in> X" "class_of t x cl"
  shows "sure (ReleaseToSpans env cl x t) (\<lambda>t'. (\<exists>F'. spans_ok env own F' (X - {x}) t') \<and> kept_rest (X - {x}) t t')"
proof -
  obtain a s where s: "sized t a = Some s" "x \<in> cells (tm_sizemap t) s" "sp_sizeclass s = cl" using x(2) by (auto simp: class_of_def)
  note O = spans_okD [OF ok]
  have f: "span_fine t F X a s" by (rule O(5) [OF s(1)])
  have nn: "a \<noteq> NULL" "the_span (tm_heap t) a = Inr s" using span_a [OF ok s(1)] by blast+
  have as: "ph_spans (tm_heap t) a = Some s" "sp_location s = IN_USE" using s(1) by (simp_all add: sized_Some)
  have cx: "cells (tm_sizemap t) s \<inter> X = insert x (cells (tm_sizemap t) s \<inter> X - {x})" using s(2) x(1) by blast
  have rc: "sp_refcount s = int (card (cells (tm_sizemap t) s \<inter> X))" using f by (simp add: span_fine_def)
  have pos: "0 < sp_refcount s" using s(2) x(1) unfolding rc by (auto simp: card_gt_0_iff)
  have fine: "lists_fine t F cl (tm_central t cl)" using O(6) f s(3) by (simp add: span_fine_def)
  have ap: "a \<in> class_spans t cl" using s by (auto simp: class_spans_def)
  have pe: "sp_objects s = NULL \<longleftrightarrow> F a = []"
    using f by (cases "F a") (auto simp: span_fine_def)
  obtain l1 where run: "(if sp_objects s = NULL then bindR (unlink a (tm_central t cl)) (\<lambda>c. Inr (c\<lparr>cf_nonempty := a # cf_nonempty c\<rparr>))
      else Inr (tm_central t cl)) = Inr l1"
    and l1: "set (cf_empty l1) = set (cf_empty (tm_central t cl)) - {a}" "set (cf_nonempty l1) = insert a (set (cf_nonempty (tm_central t cl)))"
      "distinct (cf_empty l1)" "distinct (cf_nonempty l1)" "cf_num_spans l1 = cf_num_spans (tm_central t cl)"
      "cf_counter l1 = cf_counter (tm_central t cl)" "cf_size_class l1 = cf_size_class (tm_central t cl)" "same_slots (tm_central t cl) l1"
    using to_nonempty [OF fine ap pe] by blast
  let ?s1 = "s\<lparr>sp_refcount := sp_refcount s - 1\<rparr>"
  let ?h1 = "(tm_heap t)\<lparr>ph_spans := (ph_spans (tm_heap t))(a \<mapsto> ?s1)\<rparr>"
  have u: "upd_span a (\<lambda>s. s\<lparr>sp_refcount := sp_refcount s - 1\<rparr>) (tm_heap t) = Inr ?h1" using as nn by (simp add: upd_span_ok)
  note start = MapObjectToSpan_ok [OF ok s(1,2)] nn pos run u
  show ?thesis
  proof (cases "sp_refcount s = 1")
    case True
    then have one: "cells (tm_sizemap t) s \<inter> X = {x}" using rc cx by (metis card_1_singletonE insert_absorb2 insert_iff of_nat_eq_1_iff singletonD)
    let ?c2 = "l1\<lparr>cf_counter := cf_counter l1 + 1\<rparr>"
    let ?l = "l1\<lparr>cf_counter := cf_counter l1 + 1 - word_of_int (cell_count (tm_sizemap t) s), cf_nonempty := remove1 a (cf_nonempty l1),
      cf_num_spans := cf_num_spans l1 - 1\<rparr>"
    have ul: "unlink a (?c2\<lparr>cf_counter := cf_counter ?c2 - word_of_int (cell_count (tm_sizemap t) s)\<rparr>) = Inr (?l\<lparr>cf_num_spans := cf_num_spans l1\<rparr>)"
      using l1(1,2) by (simp add: unlink_def)
    have ok1: "heap_ok env own ?h1" by (rule touch_ok [OF O(7) as]) simp_all
    obtain h2 where h2: "Delete env a ?h1 = Inr h2" "heap_ok env own h2" "live (ph_spans h2) = (live (ph_spans ?h1))(a := None)"
      "ph_aggressive_decommit h2 = ph_aggressive_decommit ?h1"
      using Delete_ok [OF O(8,2) ok1, of a ?s1] as(2) by (auto simp: sure_def)
    have pl: "plain_heap env own h2" using O(1) h2(2,4) by (simp add: plain_heap_def)
    have lv: "live (ph_spans h2) = (live (ph_spans (tm_heap t)))(a := None)" using h2(3) live_touch [of ?s1 "ph_spans (tm_heap t)" a] as(2) by simp
    let ?t' = "upd_central cl ?l (t\<lparr>tm_heap := h2, tm_mem := forget s (tm_mem t)\<rparr>)"
    have "ReleaseToSpans env cl x t = Inr ?t'"
      unfolding ReleaseToSpans_def using start ul h2(1) True objects_per_span_ok [OF ok s(1)] by simp
    moreover have "spans_ok env own F (X - {x}) ?t'" "kept_rest (X - {x}) t ?t'"
      by (rule drop_span [OF ok s(1) one _ _ _ _ _ _ _ _ pl lv, unfolded s(3), where l = ?l, OF _ _ _ _ _ _ _ _ refl];
          use l1 in \<open>auto simp: same_slots_def\<close>)+
    ultimately show ?thesis by (simp only: sure_simps) blast
  next
    case False
    let ?t' = "upd_central cl (l1\<lparr>cf_counter := cf_counter l1 + 1\<rparr>)
      (t\<lparr>tm_heap := (tm_heap t)\<lparr>ph_spans := (ph_spans (tm_heap t))(a \<mapsto> s\<lparr>sp_refcount := sp_refcount s - 1, sp_objects := x\<rparr>)\<rparr>,
         tm_mem := (tm_mem t)(x \<mapsto> sp_objects s)\<rparr>)"
    have "x \<in> dom (tm_mem t)" using out_object [OF ok x(1)] by blast
    moreover have "x \<noteq> NULL" using cell_nonnull [OF ok s(1,2)] by simp
    ultimately have "SLL_SetNext (tm_mem t) x (sp_objects s) = Inr ((tm_mem t)(x \<mapsto> sp_objects s))" by (simp add: sll_simps)
    moreover have "upd_span a (\<lambda>s. s\<lparr>sp_objects := x\<rparr>) ?h1 =
        Inr ((tm_heap t)\<lparr>ph_spans := (ph_spans (tm_heap t))(a \<mapsto> s\<lparr>sp_refcount := sp_refcount s - 1, sp_objects := x\<rparr>)\<rparr>)"
      using nn by (simp add: upd_span_ok)
    ultimately have "ReleaseToSpans env cl x t = Inr ?t'"
      unfolding ReleaseToSpans_def using start False by simp
    moreover have "spans_ok env own (F(a := x # F a)) (X - {x}) ?t'" "kept_rest (X - {x}) t ?t'"
      by (rule push_object [OF ok s(1,2) x(1), unfolded s(3), OF l1 refl])+
    ultimately show ?thesis by (simp only: sure_simps) blast
  qed
qed

text \<open>A whole list goes back.\<close>

definition given_back :: "'k tc_env \<Rightarrow> ('k \<Rightarrow> addr set) \<Rightarrow> addr set \<Rightarrow> 'k tcm \<Rightarrow> 'k tcm \<Rightarrow> bool" where
  "given_back env own Y t t' \<longleftrightarrow> (\<exists>F. spans_ok env own F Y t') \<and> kept_rest Y t t'"

lemma release_list_ok:
  assumes "spans_ok env own F X t" "sll (tm_mem t) p ys" "set ys \<subseteq> X" "\<forall>y\<in>set ys. class_of t y cl"
  shows "\<exists>t'. release_list env cl p t = Some (Inr t') \<and> given_back env own (X - set ys) t t'"
  using assms
proof (induction ys arbitrary: p t F X)
  case Nil
  then have "release_list env cl p t = Some (Inr t)" by (subst release_list.simps) simp
  with Nil show ?case by (auto simp: given_back_def)
next
  case (Cons y ys)
  then obtain n where p: "p = y" "y \<noteq> NULL" "tm_mem t y = Some n" "sll (tm_mem t) n ys" by (auto split: option.splits)
  have yx: "y \<in> X" "class_of t y cl" "set ys \<subseteq> X - {y}" using Cons.prems(3,4) sll_distinct [OF Cons.prems(2)] by auto
  obtain t1 F1 where t1: "ReleaseToSpans env cl y t = Inr t1" "spans_ok env own F1 (X - {y}) t1" "kept_rest (X - {y}) t t1"
    using ReleaseToSpans_ok [OF Cons.prems(1) yx(1,2)] by (auto simp: sure_def)
  have k: "kept_objects (X - {y}) t t1" using t1(3) by (simp add: kept_rest_def)
  have "sll (tm_mem t1) n ys" using p(4) kept_sll [OF k yx(3)] by simp
  moreover have "\<forall>z\<in>set ys. class_of t1 z cl" using k yx(3) Cons.prems(4) by (auto simp: kept_objects_def)
  ultimately obtain t' where t': "release_list env cl n t1 = Some (Inr t')" "given_back env own (X - {y} - set ys) t1 t'"
    using Cons.IH [OF t1(2) _ yx(3)] by blast
  have "release_list env cl p t = Some (Inr t')"
    using p t1(1) t'(1) by (subst release_list.simps) (simp add: SLL_Next_def)
  moreover have "X - set (y # ys) = X - {y} - set ys" by auto
  ultimately show ?case using t'(2) kept_trans(2) [OF kept_mono(2) [OF t1(3)]] unfolding given_back_def by auto
qed

lemma ReleaseListToSpans_ok:
  assumes "spans_ok env own F X t" "sll (tm_mem t) p ys" "set ys \<subseteq> X" "\<forall>y\<in>set ys. class_of t y cl"
  shows "sure (ReleaseListToSpans env cl p t) (given_back env own (X - set ys) t)"
  using release_list_ok [OF assms] by (auto simp: ReleaseListToSpans_def)

section \<open>Taking objects from a span\<close>

lemma fetch_walk_ok:
  assumes "sll m p xs" "xs \<noteq> []" "r < N"
  shows "\<exists>q. let k = min (nat (N - r)) (length xs) in fetch_walk m N r p = Inr (r + int k, last (take k xs), q) \<and> sll m q (drop k xs)"
  using assms
proof (induction xs arbitrary: p r)
  case (Cons x xs)
  then obtain n where n: "p = x" "x \<noteq> NULL" "m x = Some n" "sll m n xs" by (auto split: option.splits)
  have nx: "SLL_Next m p = Inr n" using n by (simp add: SLL_Next_def)
  show ?case
  proof (cases "r + 1 < N \<and> n \<noteq> NULL")
    case True
    then have ne: "xs \<noteq> []" using n(4) by auto
    define k where "k = min (nat (N - (r + 1))) (length xs)"
    have k: "min (nat (N - r)) (length (x # xs)) = Suc k" using True by (auto simp: min_def k_def)
    have k0: "0 < k" using True ne by (simp add: k_def)
    obtain q where q: "fetch_walk m N (r + 1) n = Inr (r + 1 + int k, last (take k xs), q)" "sll m q (drop k xs)"
      using Cons.IH [OF n(4) ne, of "r + 1"] True unfolding Let_def k_def by blast
    have "fetch_walk m N r p = Inr (r + int (Suc k), last (take (Suc k) (x # xs)), q)"
      using q(1) True nx k0 ne by (subst fetch_walk.simps) simp
    then show ?thesis using q(2) unfolding Let_def k by (intro exI [of _ q]) simp
  next
    case False
    then have k: "min (nat (N - r)) (length (x # xs)) = 1" using n(4) Cons.prems(3) by (auto simp: min_def)
    have "fetch_walk m N r p = Inr (r + 1, x, n)" using False nx n(1) by (subst fetch_walk.simps) auto
    then show ?thesis using n(4) unfolding Let_def k by (intro exI [of _ n]) simp
  qed
qed simp

text \<open>Cutting a linked list behind its first \<open>k\<close> objects.\<close>

lemma sll_cut:
  assumes "sll m p xs" "0 < k" "k \<le> length xs" "sll m q (drop k xs)"
  shows "sll (m(last (take k xs) \<mapsto> NULL)) p (take k xs)" "sll (m(last (take k xs) \<mapsto> NULL)) q (drop k xs)"
proof -
  obtain q' e h' where c: "sll h' p (take k xs)" "sll h' q' (drop k xs)" "e = last (take k xs)" "h' = m(e \<mapsto> NULL)"
    using SLL_PopRange_all [OF assms(1-3)] by blast
  then show "sll (m(last (take k xs) \<mapsto> NULL)) p (take k xs)" by simp
  have "take k xs \<noteq> []" using assms(2,3) by auto
  then have "e \<in> set (take k xs)" using c(3) by simp
  then have "e \<notin> set (drop k xs)" using set_take_disj_set_drop_if_distinct [OF sll_distinct [OF assms(1)], of k k] by blast
  then show "sll (m(last (take k xs) \<mapsto> NULL)) q (drop k xs)" using assms(4) c(3) by simp
qed

text \<open>The objects \<open>ys\<close> of class \<open>c\<close> were taken; they were not out before.\<close>

definition taken :: "'k tc_env \<Rightarrow> ('k \<Rightarrow> addr set) \<Rightarrow> addr set \<Rightarrow> nat \<Rightarrow> addr list \<Rightarrow> 'k tcm \<Rightarrow> 'k tcm \<Rightarrow> bool" where
  "taken env own X c ys t t' \<longleftrightarrow> (\<exists>F. spans_ok env own F (X \<union> set ys) t') \<and> kept_rest X t t' \<and> set ys \<inter> X = {} \<and>
     (\<forall>y\<in>set ys. class_of t' y c)"

lemma take_objects:
  assumes ok: "spans_ok env own F X t" and s: "sized t a = Some s" and k: "0 < k" "k \<le> length (F a)"
    and q: "sll (tm_mem t) q (drop k (F a))"
    and l: "set (cf_empty l) = (if q = NULL then insert a (set (cf_empty (tm_central t (sp_sizeclass s)))) else set (cf_empty (tm_central t (sp_sizeclass s))))"
      "set (cf_nonempty l) = (if q = NULL then set (cf_nonempty (tm_central t (sp_sizeclass s))) - {a} else set (cf_nonempty (tm_central t (sp_sizeclass s))))"
      "distinct (cf_empty l)" "distinct (cf_nonempty l)" "cf_num_spans l = cf_num_spans (tm_central t (sp_sizeclass s))"
      "cf_counter l = cf_counter (tm_central t (sp_sizeclass s)) - of_nat k" "cf_size_class l = cf_size_class (tm_central t (sp_sizeclass s))"
      "same_slots (tm_central t (sp_sizeclass s)) l"
    and t': "t' = upd_central (sp_sizeclass s) l
      (t\<lparr>tm_heap := (tm_heap t)\<lparr>ph_spans := (ph_spans (tm_heap t))(a \<mapsto> s\<lparr>sp_objects := q, sp_refcount := (sp_refcount s + int k) mod 2 ^ 16\<rparr>)\<rparr>,
         tm_mem := (tm_mem t)(last (take k (F a)) \<mapsto> NULL)\<rparr>)"
  shows "taken env own X (sp_sizeclass s) (take k (F a)) t t'"
proof -
  let ?s' = "s\<lparr>sp_objects := q, sp_refcount := (sp_refcount s + int k) mod 2 ^ 16\<rparr>" and ?F = "F(a := drop k (F a))"
  let ?m = "tm_sizemap t" and ?c = "sp_sizeclass s" and ?ys = "take k (F a)" and ?e = "last (take k (F a))"
  note O = spans_okD [OF ok]
  have as: "ph_spans (tm_heap t) a = Some s" "sp_location s = IN_USE" "?c \<noteq> 0" using s by (simp_all add: sized_Some)
  have lv: "live (ph_spans (tm_heap t')) = (live (ph_spans (tm_heap t)))(a \<mapsto> ?s')" by (simp add: t' live_touch as(2))
  have pl: "plain t' = plain t"
    by (rule plain_upd [OF lv]) (use as in \<open>auto simp: live_def split: option.splits if_splits\<close>)
  have sz: "sized t' = (sized t)(a \<mapsto> ?s')" by (rule sized_upd [OF lv]) (simp add: as(3))
  have m': "tm_sizemap t' = ?m" "tm_cache t' = tm_cache t" "tm_race t' = tm_race t" "tm_mem t' = (tm_mem t)(?e \<mapsto> NULL)" by (simp_all add: t')
  have cs: "cell_list ?m ?s' = cell_list ?m s" by (rule cells_cong) simp_all
  have cl: "class_spans t' c = class_spans t c" for c by (rule class_spans_upd [OF s sz]) simp
  have f: "span_fine t F X a s" by (rule O(5) [OF s])
  then have fl: "sll (tm_mem t) (sp_objects s) (F a)" and fs: "set (F a) = cells ?m s - X"
    and rc: "sp_refcount s = int (card (cells ?m s \<inter> X))" by (simp_all add: span_fine_def)
  have ap: "a \<in> class_spans t ?c" using s by (auto simp: class_spans_def)
  have "?ys \<noteq> []" using k by auto
  then have ey: "?e \<in> set ?ys" by (rule last_in_set)
  have yc: "set ?ys \<subseteq> cells ?m s" "set ?ys \<inter> X = {}" using fs set_take_subset [of k "F a"] by auto
  have dd: "set ?ys \<inter> set (drop k (F a)) = {}" using set_take_disj_set_drop_if_distinct [OF sll_distinct [OF fl], of k k] by simp
  have un: "set (F a) = set ?ys \<union> set (drop k (F a))" by (metis append_take_drop_id set_append)
  have elsewhere: "set ?ys \<inter> cells ?m u = {}" if "sized t b = Some u" "b \<noteq> a" for b u
    using other_cells(1) [OF ok s that] yc(1) by blast
  have "spans_ok env own ?F (X \<union> set ?ys) t'"
    unfolding spans_ok_def
  proof (intro conjI allI impI ballI)
    show "plain_heap env own (tm_heap t')" using O(1) touch_ok [OF O(7) as(1,2), of ?s'] by (simp add: plain_heap_def t')
    show "madvise_ends env" "classes_ok (tm_sizemap t')" using O(2,3) by (simp_all add: m')
    show "cache_ok (ph_spans (tm_heap t')) (tm_cache t')"
      unfolding m' by (rule cache_ok_upd [OF O(4) lv], rule cached_fine_cong [OF sized_cached [OF O(4) s]]) simp_all
  next
    fix b u assume b: "sized t' b = Some u"
    show "span_fine t' ?F (X \<union> set ?ys) b u"
    proof (cases "b = a")
      case True
      have u: "u = ?s'" using b True by (simp add: sz)
      have "sll (tm_mem t') q (drop k (F a))" unfolding m'(4) by (rule sll_cut(2) [OF fl k q])
      moreover have "set (drop k (F a)) = cells ?m s - (X \<union> set ?ys)" using fs un dd by blast
      moreover have "card (cells ?m s \<inter> (X \<union> set ?ys)) = card (cells ?m s \<inter> X) + k"
      proof -
        have "cells ?m s \<inter> (X \<union> set ?ys) = (cells ?m s \<inter> X) \<union> set ?ys" using yc(1) by blast
        moreover have "card (set ?ys) = k" using distinct_card [OF distinct_take [OF sll_distinct [OF fl]], of k] k(2) by simp
        moreover have "card ((cells ?m s \<inter> X) \<union> set ?ys) = card (cells ?m s \<inter> X) + card (set ?ys)"
          by (rule card_Un_disjoint) (use yc(2) in auto)
        ultimately show ?thesis by simp
      qed
      moreover have "sp_refcount s + int k < 2 ^ 16"
      proof -
        have "cell_count ?m s < 2 ^ 16"
          using sized_fits(1) [OF ok s] f by (simp add: cell_count_def class_fits_def span_fine_def)
        then show ?thesis using free_count [OF ok s] k(2) unfolding rc by linarith
      qed
      ultimately show ?thesis using f rc unfolding True u span_fine_def m'(1) cs by simp
    next
      case False
      then have u: "sized t b = Some u" using b by (simp add: sz)
      have "set (F b) \<subseteq> cells ?m u" using O(5) [OF u] by (auto simp: span_fine_def)
      then have "?e \<notin> set (F b)" using elsewhere [OF u False] ey by blast
      then show ?thesis by (intro span_fine_cong [OF O(5) [OF u]]) (use False elsewhere [OF u False] in \<open>auto simp: m'\<close>)
    qed
  next
    fix y assume y: "y \<in> X \<union> set ?ys"
    have "y \<in> X \<or> y \<in> set ?ys" using y by blast
    then have "y \<in> dom (tm_mem t)" using out_object(1) [OF ok, of y] lseg_dom [OF fl] un by blast
    then show "y \<in> dom (tm_mem t')" by (simp add: m')
    have "\<exists>b u. sized t b = Some u \<and> y \<in> cells ?m u" using y out_object(2) [OF ok, of y] s yc(1) by blast
    then obtain b u where b: "sized t b = Some u" "y \<in> cells ?m u" by blast
    show "\<exists>b u. sized t' b = Some u \<and> y \<in> cells (tm_sizemap t') u"
    proof (cases "b = a")
      case True then show ?thesis using b s cs by (intro exI [of _ a] exI [of _ ?s']) (simp add: sz m')
    next
      case False then show ?thesis using b by (intro exI [of _ b] exI [of _ u]) (simp add: sz m')
    qed
  next
    fix c assume c: "c < num_size_classes (tm_sizemap t')"
    then have old: "lists_fine t F c (tm_central t c)" using O(6) by (simp add: m')
    show "lists_fine t' ?F c (tm_central t' c)"
    proof (cases "c = ?c")
      case False
      then have a: "a \<notin> class_spans t c" and ct: "tm_central t' c = tm_central t c" using s by (auto simp: class_spans_def t')
      show ?thesis unfolding ct by (rule lists_fine_cong [OF old cl]) (use a in auto)
    next
      case True
      have "(\<Sum>b\<in>class_spans t c. length (F b)) = (\<Sum>b\<in>class_spans t c. length (?F b)) + k"
        using finite_class_spans [OF ok, of c] ap True k(2) by (simp add: sum.remove [of _ a])
      moreover have "q = NULL \<longleftrightarrow> drop k (F a) = []" using q by (cases "drop k (F a)") auto
      moreover have "F a \<noteq> []" using k by auto
      ultimately show ?thesis using old l ap unfolding lists_fine_def cl True by (auto simp: t')
    qed
  qed
  moreover have ck: "class_of t' y c" if "class_of t y c" for y c by (rule class_of_upd [OF that m'(1) s sz]) simp_all
  have "?e \<notin> X" using ey yc(2) by blast
  then have "kept_objects X t t'" using ck pl by (auto simp: kept_objects_def m')
  then have "kept_rest X t t'" using l(8) by (simp add: kept_rest_def m' same_slots_def t')
  moreover have "class_of t' y ?c" if "y \<in> set ?ys" for y
    by (rule ck) (use s yc(1) that in \<open>auto simp: class_of_def\<close>)
  ultimately show ?thesis using yc(2) unfolding taken_def by blast
qed

lemma FetchFromOneSpans_ok:
  assumes ok: "spans_ok env own F X t" and c: "c < num_size_classes (tm_sizemap t)" "0 < N"
  shows "sure (FetchFromOneSpans c N t) (\<lambda>(n, start, e, t').
    if cf_nonempty (tm_central t c) = [] then n = 0 \<and> start = NULL \<and> e = NULL \<and> t' = t
    else \<exists>ys. ys \<noteq> [] \<and> n = int (length ys) \<and> n \<le> N \<and> sll (tm_mem t') start ys \<and> e = last ys \<and> taken env own X c ys t t')"
proof (cases "cf_nonempty (tm_central t c)")
  case Nil then show ?thesis by (simp add: FetchFromOneSpans_def)
next
  case (Cons a rest)
  note O = spans_okD [OF ok]
  let ?l = "tm_central t c"
  have fine: "lists_fine t F c ?l" by (rule O(6) [OF c(1)])
  then have "a \<in> class_spans t c" and ne: "F a \<noteq> []" using Cons unfolding lists_fine_def by auto
  then obtain s where s: "sized t a = Some s" "sp_sizeclass s = c" by (auto simp: class_spans_def)
  have f: "sll (tm_mem t) (sp_objects s) (F a)" using O(5) [OF s(1)] by (simp add: span_fine_def)
  have nn: "a \<noteq> NULL" "the_span (tm_heap t) a = Inr s" using span_a [OF ok s(1)] by blast+
  have as: "ph_spans (tm_heap t) a = Some s" using s(1) by (simp add: sized_Some)
  have po: "sp_objects s \<noteq> NULL" using f ne by auto
  define k where "k = min (nat N) (length (F a))"
  have k: "0 < k" "k \<le> length (F a)" "int k \<le> N" using c(2) ne by (auto simp: k_def)
  let ?ys = "take k (F a)"
  obtain q where w: "fetch_walk (tm_mem t) N 0 (sp_objects s) = Inr (int k, last ?ys, q)" and q: "sll (tm_mem t) q (drop k (F a))"
    using fetch_walk_ok [OF f ne, of 0 N] c(2) by (auto simp: Let_def k_def)
  have yn: "?ys \<noteq> []" using k by auto
  then have "last ?ys \<in> set (F a)" by (meson in_set_takeD last_in_set)
  then have e: "last ?ys \<noteq> NULL" "last ?ys \<in> dom (tm_mem t)" using lseg_dom [OF f] by auto
  have ua: "a \<notin> set (cf_empty ?l)" using fine ne unfolding lists_fine_def by auto
  let ?l2 = "if q = NULL then ?l\<lparr>cf_nonempty := remove1 a (cf_nonempty ?l), cf_empty := a # cf_empty ?l\<rparr> else ?l"
  have ul: "(if q = NULL then bindR (unlink a ?l) (\<lambda>c1. Inr (c1\<lparr>cf_empty := a # cf_empty c1\<rparr>)) else Inr ?l) = Inr ?l2"
    using ua Cons by (simp add: unlink_def)
  let ?l3 = "?l2\<lparr>cf_counter := cf_counter ?l2 - word_of_int (int k)\<rparr>"
  let ?t' = "upd_central c ?l3
      (t\<lparr>tm_heap := (tm_heap t)\<lparr>ph_spans := (ph_spans (tm_heap t))(a \<mapsto> s\<lparr>sp_objects := q, sp_refcount := (sp_refcount s + int k) mod 2 ^ 16\<rparr>)\<rparr>,
         tm_mem := (tm_mem t)(last ?ys \<mapsto> NULL)\<rparr>)"
  have run: "FetchFromOneSpans c N t = Inr (int k, sp_objects s, last ?ys, ?t')"
    using Cons nn po w ul as e by (simp add: FetchFromOneSpans_def upd_span_ok sll_simps Let_def)
  have "taken env own X c ?ys t ?t'"
    by (rule take_objects [OF ok s(1) k(1,2) q, unfolded s(2), OF _ _ _ _ _ _ _ _ refl])
      (use fine ua Cons in \<open>auto simp: lists_fine_def same_slots_def\<close>)
  moreover have "sll (tm_mem ?t') (sp_objects s) ?ys" using sll_cut(1) [OF f k(1,2) q] by simp
  ultimately show ?thesis using run yn k(2,3) Cons by (auto intro!: exI [of _ ?ys])
qed

end
