(* ===== verification/Central_Populate.thy ===== *)
theory Central_Populate
  imports Central_Spans
begin

unbundle bit_operations_syntax

text \<open>
  \<open>Populate\<close>: a span from the page heap is cut into objects. It keeps the invariant, and afterwards the
  class has a span with free objects unless the page heap had none to give.
\<close>

section \<open>Cutting\<close>

text \<open>The addresses of the objects between \<open>ptr\<close> and \<open>limit\<close>.\<close>

definition slots_from :: "int \<Rightarrow> addr \<Rightarrow> nat \<Rightarrow> addr list" where
  "slots_from z ptr k = map (\<lambda>i. ptr + int i * z) [0..<k]"

lemma slots_from_Suc: "slots_from z ptr (Suc k) = ptr # slots_from z (ptr + z) k"
proof -
  have "[0..<Suc k] = 0 # map Suc [0..<k]" by (simp add: map_Suc_upt upt_conv_Cons del: upt_Suc)
  then show ?thesis by (simp add: slots_from_def algebra_simps del: upt_Suc)
qed

lemma slots_from_0 [simp]: "slots_from z ptr 0 = []"
  by (simp add: slots_from_def)

lemma slots_from_ge: "0 < z \<Longrightarrow> x \<in> set (slots_from z ptr k) \<Longrightarrow> ptr \<le> x"
  by (auto simp: slots_from_def)

lemma cut_objects_ok:
  assumes z: "0 < z" and k: "ptr + int k * z \<le> limit" "limit < ptr + int k * z + z" and a: "a < ptr" "0 < a"
  shows "\<exists>e m'. cut_objects z limit ptr (Some a) first num m = Inr (Some e, first, ptr + int k * z, num + int k, m') \<and>
    sll (m'(e \<mapsto> NULL)) a (a # slots_from z ptr k) \<and> (\<forall>b. b \<notin> set (a # slots_from z ptr k) \<longrightarrow> (m'(e \<mapsto> NULL)) b = m b)"
  using k a
proof (induction k arbitrary: ptr a num m)
  case 0
  then have "cut_objects z limit ptr (Some a) first num m = Inr (Some a, first, ptr, num, m)"
    using z by (subst cut_objects.simps) simp
  then show ?case using 0 by (intro exI [of _ a] exI [of _ m]) simp
next
  case (Suc k)
  have "(ptr + z) + int k * z \<le> limit" "limit < (ptr + z) + int k * z + z" "ptr < ptr + z" "0 < ptr"
    using Suc.prems z by (simp_all add: algebra_simps)
  then obtain e m' where e: "cut_objects z limit (ptr + z) (Some ptr) first (num + 1) (m(a \<mapsto> ptr)) =
      Inr (Some e, first, ptr + z + int k * z, num + 1 + int k, m')"
    "sll (m'(e \<mapsto> NULL)) ptr (ptr # slots_from z (ptr + z) k)"
    "\<forall>b. b \<notin> set (ptr # slots_from z (ptr + z) k) \<longrightarrow> (m'(e \<mapsto> NULL)) b = (m(a \<mapsto> ptr)) b"
    using Suc.IH [of "ptr + z" ptr "num + 1" "m(a \<mapsto> ptr)"] by blast
  have "0 \<le> int k * z" using z by simp
  then have "ptr + z \<le> limit" using Suc.prems(1) by (simp add: algebra_simps)
  then have run: "cut_objects z limit ptr (Some a) first num m = Inr (Some e, first, ptr + int (Suc k) * z, num + int (Suc k), m')"
    using e(1) z by (subst cut_objects.simps) (simp add: algebra_simps)
  have "a \<notin> set (ptr # slots_from z (ptr + z) k)" using slots_from_ge [OF z, of a "ptr + z" k] Suc.prems(3) z by auto
  then have "(m'(e \<mapsto> NULL)) a = Some ptr" using e(3) by simp
  then have "sll (m'(e \<mapsto> NULL)) a (a # slots_from z ptr (Suc k))"
    using e(2) Suc.prems(4) unfolding slots_from_Suc by (simp only: lseg.simps option.case) simp
  moreover have "(m'(e \<mapsto> NULL)) b = m b" if "b \<notin> set (a # slots_from z ptr (Suc k))" for b
    using that e(3) unfolding slots_from_Suc by simp
  ultimately show ?case using run by blast
qed

text \<open>All objects of a span, from the empty list.\<close>

lemma cut_span_ok:
  assumes z: "0 < z" and k: "0 < k" "ptr + int k * z \<le> limit" "limit < ptr + int k * z + z" and p: "0 < ptr"
  shows "\<exists>e m'. cut_objects z limit ptr None f 0 m = Inr (Some e, ptr, ptr + int k * z, int k, m') \<and>
    sll (m'(e \<mapsto> NULL)) ptr (slots_from z ptr k) \<and> (\<forall>b. b \<notin> set (slots_from z ptr k) \<longrightarrow> (m'(e \<mapsto> NULL)) b = m b)"
proof -
  obtain j where j: "k = Suc j" using k(1) gr0_conv_Suc by blast
  have "0 \<le> int j * z" using z by simp
  then have le: "ptr + z \<le> limit" using k(2) by (simp add: j algebra_simps)
  have "\<exists>e m'. cut_objects z limit (ptr + z) (Some ptr) ptr 1 m = Inr (Some e, ptr, ptr + z + int j * z, 1 + int j, m') \<and>
    sll (m'(e \<mapsto> NULL)) ptr (ptr # slots_from z (ptr + z) j) \<and> (\<forall>b. b \<notin> set (ptr # slots_from z (ptr + z) j) \<longrightarrow> (m'(e \<mapsto> NULL)) b = m b)"
    by (rule cut_objects_ok [OF z]) (use k z p in \<open>simp_all add: j algebra_simps\<close>)
  moreover have "cut_objects z limit ptr None f 0 m = cut_objects z limit (ptr + z) (Some ptr) ptr 1 m"
    using le z by (subst cut_objects.simps) simp
  ultimately show ?thesis unfolding j slots_from_Suc by (simp add: algebra_simps)
qed

section \<open>Caching the class of the pages\<close>

lemma cache_classes_ok:
  assumes "\<forall>p\<in>set ps. key_ok p" "0 < cl" "cl < 128"
  shows "\<exists>pc'. cache_classes ps cl pc = Inr pc' \<and> (\<forall>p. key_ok p \<longrightarrow>
    (if p \<in> set ps then pc_lookup pc' p \<in> {None, Some cl} else pc_lookup pc' p \<in> {None, pc_lookup pc p}))"
  using assms(1)
proof (induction ps arbitrary: pc)
  case (Cons q ps)
  let ?pc1 = "pc_put q cl pc"
  have q: "key_ok q" using Cons.prems by simp
  obtain pc' where pc': "cache_classes ps cl ?pc1 = Inr pc'" and l: "\<forall>p. key_ok p \<longrightarrow>
    (if p \<in> set ps then pc_lookup pc' p \<in> {None, Some cl} else pc_lookup pc' p \<in> {None, pc_lookup ?pc1 p})"
    using Cons.IH [of ?pc1] Cons.prems by auto
  have "cache_classes (q # ps) cl pc = Inr pc'" using pc' pc_runs(2) [OF q, of cl pc] assms(2,3) by simp
  moreover have "if p \<in> set (q # ps) then pc_lookup pc' p \<in> {None, Some cl} else pc_lookup pc' p \<in> {None, pc_lookup pc p}" if p: "key_ok p" for p
  proof (cases "p = q")
    case True
    have "pc_lookup ?pc1 q = Some cl" using pc.lookup_put [of q cl pc] q assms(2,3) by simp
    moreover have "if p \<in> set ps then pc_lookup pc' p \<in> {None, Some cl} else pc_lookup pc' p \<in> {None, pc_lookup ?pc1 p}" using l p by blast
    ultimately show ?thesis using True by (auto split: if_splits)
  next
    case False
    have "pc_lookup ?pc1 p \<in> {None, pc_lookup pc p}" using pc.lookup_other [of q p cl pc] q p False assms(2,3) by simp
    moreover have "if p \<in> set ps then pc_lookup pc' p \<in> {None, Some cl} else pc_lookup pc' p \<in> {None, pc_lookup ?pc1 p}" using l p by blast
    ultimately show ?thesis using False by (auto split: if_splits)
  qed
  ultimately show ?case by blast
qed simp

section \<open>A new span of a class\<close>

lemma spans_ok_heap:
  assumes ok: "spans_ok env own F X t" and h: "plain_heap env own h" "live (ph_spans h) = live (ph_spans (tm_heap t))"
  shows "spans_ok env own F X (t\<lparr>tm_heap := h\<rparr>)" "kept_rest X t (t\<lparr>tm_heap := h\<rparr>)"
proof -
  let ?t = "t\<lparr>tm_heap := h\<rparr>"
  have sz: "sized ?t = sized t" by (rule sized_live) (simp add: h(2))
  have "cache_ok (ph_spans h) (tm_cache t)" using spans_okD(4) [OF ok] by (simp add: cache_ok_def h(2))
  moreover have "span_fine ?t F X a u = span_fine t F X a u" for a u by (simp add: span_fine_def)
  moreover have "class_spans ?t c = class_spans t c" for c by (simp add: class_spans_def sz)
  then have "lists_fine ?t F c l = lists_fine t F c l" for c l by (simp add: lists_fine_def)
  ultimately show "spans_ok env own F X ?t" using ok h(1) by (simp add: spans_ok_def sz)
  have "plain ?t = plain t" by (rule plain_live) (simp add: h(2))
  then show "kept_rest X t ?t" by (simp add: kept_rest_def kept_objects_def class_of_def sz same_slots_def)
qed

lemma span_keys:
  assumes "span_ok m a s" "p \<in> page_set s" shows "key_ok p"
  using assms by (auto simp: key_ok_iff span_ok_def page_set_def)

lemma cached_fine_less:
  assumes "cached_fine pc s" "\<And>p. p \<in> page_set s \<Longrightarrow> pc_lookup pc' p \<in> {None, pc_lookup pc p}" "sp_start s \<in> page_set s"
  shows "cached_fine pc' s"
proof (cases "sp_sizeclass s = 0")
  case True then show ?thesis using assms(1) assms(2) [OF assms(3)] by (simp add: cached_fine_def)
next
  case False
  then have "\<forall>p\<in>page_set s. pc_lookup pc p \<in> {None, Some (int (sp_sizeclass s))}" using assms(1) by (simp add: cached_fine_def)
  then have "\<forall>p\<in>page_set s. pc_lookup pc' p \<in> {None, Some (int (sp_sizeclass s))}" using assms(2) by fastforce
  then show ?thesis using False by (simp add: cached_fine_def)
qed

lemma add_span:
  assumes ok: "spans_ok env own F X t" and c: "c < num_size_classes (tm_sizemap t)" "c \<noteq> 0"
    and h: "plain_heap env own h" "live (ph_spans h) = (live (ph_spans (tm_heap t)))(a \<mapsto> s)" "live (ph_spans (tm_heap t)) a = None"
    and s: "sp_sizeclass s = c" "sp_length s = class_to_pages (tm_sizemap t) ! c" "sp_location s = IN_USE" "sp_refcount s = 0"
    and pc: "\<forall>p. key_ok p \<longrightarrow> (if p \<in> page_set s then pc_lookup pc' p \<in> {None, Some (int c)} else pc_lookup pc' p \<in> {None, pc_lookup (tm_cache t) p})"
    and mem: "sll mem' (sp_objects s) (cell_list (tm_sizemap t) s)" "\<forall>b. b \<notin> cells (tm_sizemap t) s \<longrightarrow> mem' b = tm_mem t b"
    and l: "l = (tm_central t c)\<lparr>cf_nonempty := a # cf_nonempty (tm_central t c), cf_num_spans := cf_num_spans (tm_central t c) + 1,
      cf_counter := cf_counter (tm_central t c) + word_of_int (cell_count (tm_sizemap t) s)\<rparr>"
    and t': "t' = upd_central c l (t\<lparr>tm_heap := h, tm_cache := pc', tm_mem := mem'\<rparr>)"
  shows "spans_ok env own (F(a := cell_list (tm_sizemap t) s)) X t'" "kept_rest X t t'"
proof -
  let ?m = "tm_sizemap t" and ?F = "F(a := cell_list (tm_sizemap t) s)"
  note O = spans_okD [OF ok]
  have m': "tm_sizemap t' = ?m" "tm_cache t' = pc'" "tm_race t' = tm_race t" "tm_mem t' = mem'" "tm_heap t' = h" by (simp_all add: t')
  have lv: "live (ph_spans (tm_heap t')) = (live (ph_spans (tm_heap t)))(a \<mapsto> s)" by (simp add: m' h(2))
  have pl: "plain t' = plain t" by (rule plain_upd [OF lv]) (use s(1) c(2) h(3) in auto)
  have sz: "sized t' = (sized t)(a \<mapsto> s)" by (rule sized_upd [OF lv]) (simp add: s(1) c(2))
  have na: "sized t a = None" using h(3) by (simp add: sized_def)
  have g: "geo (ph_spans h) (ph_pagemap h)" using h(1) heap_okD(1) by (auto simp: plain_heap_def)
  have fit: "class_fits ?m c" by (rule classes_okD [OF O(3) c(2,1)])
  then have z: "0 < byte_size_for_class ?m (sp_sizeclass s)" using s(1) by (simp add: class_fits_def)
  have ha: "ph_spans h a = Some s" using h(2) live_Some [of "ph_spans h" a s] by simp
  have other: "ph_spans h b = Some u" "page_set u \<inter> page_set s = {}" if b: "live (ph_spans (tm_heap t)) b = Some u" for b u
  proof -
    have "b \<noteq> a" using b h(3) by auto
    then have "live (ph_spans h) b = Some u" using b h(2) by simp
    then show hb: "ph_spans h b = Some u" using live_Some [of "ph_spans h" b u] by simp
    show "page_set u \<inter> page_set s = {}" by (rule geo_disjoint [OF g hb ha \<open>b \<noteq> a\<close>])
  qed
  have apart: "x \<notin> cells ?m s" if "sized t b = Some u" "x \<in> cells ?m u" for b u x
  proof
    assume "x \<in> cells ?m s"
    then have "x div kPageSize \<in> page_set s" by (rule cell_page [OF _ z])
    moreover have "x div kPageSize \<in> page_set u" by (rule cell_page [OF that(2) sized_fits(2) [OF ok that(1)]])
    moreover have "live (ph_spans (tm_heap t)) b = Some u" using that(1) by (simp add: sized_def split: option.splits if_splits)
    ultimately show False using other(2) by blast
  qed
  have xs: "x \<notin> cells ?m s" if "x \<in> X" for x using out_object(2) [OF ok that] apart by blast
  have cl: "class_spans t' k = (if k = c then insert a (class_spans t k) else class_spans t k)" for k
    using na s(1) by (auto simp: class_spans_def sz split: if_splits)
  have an: "a \<notin> class_spans t c" using na by (auto simp: class_spans_def)
  have "cached_fine pc' u" if b: "live (ph_spans (tm_heap t)) b = Some u" for b u
  proof -
    have so: "span_ok (ph_pagemap h) b u" by (rule geo_span [OF g other(1) [OF b]])
    have "pc_lookup pc' p \<in> {None, pc_lookup (tm_cache t) p}" if "p \<in> page_set u" for p
      using pc span_keys [OF so that] other(2) [OF b] that by (metis disjoint_iff)
    moreover have "sp_start u \<in> page_set u" using so by (simp add: span_ok_def page_set_def)
    moreover have "cached_fine (tm_cache t) u" using O(4) b by (simp add: cache_ok_def)
    ultimately show ?thesis using cached_fine_less by blast
  qed
  moreover have "cached_fine pc' s"
  proof -
    have "pc_lookup pc' p \<in> {None, Some (int c)}" if "p \<in> page_set s" for p
      using pc span_keys [OF geo_span [OF g ha] that] that by metis
    then show ?thesis using s(1) c(2) by (simp add: cached_fine_def)
  qed
  ultimately have co: "cache_ok (ph_spans h) pc'" unfolding cache_ok_def h(2) by auto
  show "spans_ok env own ?F X t'"
    unfolding spans_ok_def
  proof (intro conjI allI impI ballI)
    show "plain_heap env own (tm_heap t')" "madvise_ends env" "classes_ok (tm_sizemap t')" "cache_ok (ph_spans (tm_heap t')) (tm_cache t')"
      using h(1) O(2,3) co by (simp_all add: m')
  next
    fix b u assume b: "sized t' b = Some u"
    show "span_fine t' ?F X b u"
    proof (cases "b = a")
      case True
      have "cells ?m s \<inter> X = {}" using xs by blast
      moreover from this have "cells ?m s - X = cells ?m s" by blast
      ultimately show ?thesis using True b s c(1) mem(1) by (simp add: sz span_fine_def m')
    next
      case False
      then have u: "sized t b = Some u" using b by (simp add: sz)
      have "set (F b) \<subseteq> cells ?m u" using O(5) [OF u] by (auto simp: span_fine_def)
      then show ?thesis using mem(2) apart [OF u] False by (intro span_fine_cong [OF O(5) [OF u]]) (auto simp: m')
    qed
  next
    fix y assume y: "y \<in> X"
    then show "y \<in> dom (tm_mem t')" using out_object(1) [OF ok y] mem(2) xs [OF y] by (simp add: m' dom_def)
    obtain b u where b: "sized t b = Some u" "y \<in> cells ?m u" using out_object(2) [OF ok y] by blast
    then show "\<exists>b u. sized t' b = Some u \<and> y \<in> cells (tm_sizemap t') u" using na by (intro exI [of _ b] exI [of _ u]) (auto simp: sz m')
  next
    fix k assume "k < num_size_classes (tm_sizemap t')"
    then have old: "lists_fine t F k (tm_central t k)" using O(6) by (simp add: m')
    show "lists_fine t' ?F k (tm_central t' k)"
    proof (cases "k = c")
      case False
      then have "class_spans t' k = class_spans t k" and ct: "tm_central t' k = tm_central t k" using cl [of k] by (simp, simp add: t')
      moreover have "a \<notin> class_spans t k" using na by (auto simp: class_spans_def)
      ultimately show ?thesis unfolding ct by (intro lists_fine_cong [OF old]) auto
    next
      case True
      have fin: "finite (class_spans t c)" by (rule finite_class_spans [OF ok])
      have e: "(\<Sum>b\<in>class_spans t c. length (?F b)) = (\<Sum>b\<in>class_spans t c. length (F b))" by (rule sum.cong) (use an in auto)
      have pos: "0 < cell_count ?m s" "0 \<le> sp_length s"
        using fit s(1,2) z by (simp_all add: cell_count_def class_fits_def pos_imp_zdiv_pos_iff)
      then have len: "length (cell_list ?m s) = nat (cell_count ?m s)" using cells_size(1) [OF z] by simp
      moreover have "cell_list ?m s \<noteq> []" using len pos by auto
      moreover have "word_of_int (cell_count ?m s) = (of_nat (nat (cell_count ?m s)) :: 64 word)" using pos by simp
      moreover have "{b \<in> class_spans t c. ?F b = []} = {b \<in> class_spans t c. F b = []}"
        "{b \<in> class_spans t c. ?F b \<noteq> []} = {b \<in> class_spans t c. F b \<noteq> []}" using an by auto
      ultimately show ?thesis using old an fin e unfolding lists_fine_def cl True
        by (auto simp: t' l)
    qed
  qed
  have "class_of t' y k" if k: "class_of t y k" for y k
  proof -
    obtain b u where b: "sized t b = Some u" "y \<in> cells ?m u" "sp_sizeclass u = k" using k by (auto simp: class_of_def)
    then have "sized t' b = Some u" using na by (auto simp: sz)
    then show ?thesis using b unfolding class_of_def m' by blast
  qed
  then have "kept_objects X t t'" using mem(2) xs by (simp add: kept_objects_def m' pl)
  then show "kept_rest X t t'" by (simp add: kept_rest_def m' same_slots_def) (simp add: t' l)
qed

lemma RegisterSizeClass_mode: "RegisterSizeClass sp c h = Inr h' \<Longrightarrow> ph_aggressive_decommit h' = ph_aggressive_decommit h"
  by (auto simp: RegisterSizeClass_def upd_span_def bindR_eq_Inr check_eq_Inr)

lemma cell_list_slots:
  assumes "0 < byte_size_for_class m (sp_sizeclass s)"
  shows "cell_list m s = slots_from (byte_size_for_class m (sp_sizeclass s)) (sp_start s * kPageSize) (nat (cell_count m s))"
  by (simp add: cell_list_def slots_from_def)

text \<open>After \<open>Populate\<close> the class has a free object, or the page heap gave no span.\<close>

lemma Populate_ok:
  assumes ok: "spans_ok env own F X t" and c: "c < num_size_classes (tm_sizemap t)" "c \<noteq> 0"
  shows "unless_oom (Populate env c t) (\<lambda>t'. given_back env own X t t' \<and>
    (cf_nonempty (tm_central t' c) = [] \<longrightarrow> (\<forall>a. \<not> fits (class_to_pages (tm_sizemap t) ! c) (ph_spans (tm_heap t)) a)))"
proof -
  note O = spans_okD [OF ok]
  let ?m = "tm_sizemap t" and ?n = "class_to_pages (tm_sizemap t) ! c" and ?z = "byte_size_for_class (tm_sizemap t) c"
  have fit: "class_fits ?m c" by (rule classes_okD [OF O(3) c(2,1)])
  then have n: "0 < ?n" and z: "0 < ?z" "?z \<le> ?n * kPageSize" by (simp_all add: class_fits_def)
  have sc: "cf_size_class (tm_central t c) = c" using O(6) [OF c(1)] by (simp add: lists_fine_def)
  have c128: "0 < int c" "int c < 128" using c O(3) by (simp_all add: classes_ok_def kClassSizesMax_def)
  show ?thesis
    unfolding Populate_def sc Let_def
  proof (rule oom_bind [OF New_ok [OF O(1,2) n]], clarify)
    fix r h1 assume r: "case r of None \<Rightarrow> heap_stable env own (tm_heap t) h1 \<and> (\<forall>a. \<not> fits ?n (ph_spans (tm_heap t)) a)
      | Some sp \<Rightarrow> span_granted env own (tm_heap t) ?n sp h1"
    let ?Q = "\<lambda>t'. given_back env own X t t' \<and> (cf_nonempty (tm_central t' c) = [] \<longrightarrow> (\<forall>a. \<not> fits ?n (ph_spans (tm_heap t)) a))"
    let ?K = "\<lambda>sp. bindR (RegisterSizeClass sp c h1) (\<lambda>h2. bindR (the_span h2 sp) (\<lambda>s. check (sp_length s = ?n)
            (bindR (cache_classes [sp_start s..sp_start s + ?n - 1] (int c) (tm_cache t)) (\<lambda>pc.
             bindR (cut_objects ?z (push_bit kPageShift (sp_start s) + push_bit kPageShift ?n) (push_bit kPageShift (sp_start s)) None NULL 0 (tm_mem t)) (\<lambda>(tail, first, ptr', num, m1).
                check (ptr' \<le> push_bit kPageShift (sp_start s) + push_bit kPageShift ?n)
                 (bindR (upd_span sp (\<lambda>s. s\<lparr>sp_objects := (if tail = None then NULL else first), sp_refcount := 0\<rparr>) h2) (\<lambda>h3.
                 Inr (upd_central c ((tm_central t c)\<lparr>cf_nonempty := sp # cf_nonempty (tm_central t c), cf_num_spans := cf_num_spans (tm_central t c) + 1,
                        cf_counter := cf_counter (tm_central t c) + word_of_int num\<rparr>)
                      (t\<lparr>tm_heap := h3, tm_cache := pc, tm_mem := (case tail of None \<Rightarrow> m1 | Some a \<Rightarrow> m1(a \<mapsto> NULL))\<rparr>)))))))))"
    have some: "sure (?K sp) ?Q" if g: "span_granted env own (tm_heap t) ?n sp h1" for sp
    proof -
      obtain s0 where h1: "heap_ok env own h1" "live (ph_spans (tm_heap t)) sp = None" "sp_length s0 = ?n" "sp_location s0 = IN_USE"
        "live (ph_spans h1) = (live (ph_spans (tm_heap t)))(sp \<mapsto> s0)" "ph_aggressive_decommit h1 = ph_aggressive_decommit (tm_heap t)"
        using g by (auto simp: span_granted_def)
      have sp0: "ph_spans h1 sp = Some s0" using h1(5) live_Some [of "ph_spans h1" sp s0] by simp
      let ?s1 = "s0\<lparr>sp_sizeclass := c\<rparr>" and ?p = "sp_start s0 * kPageSize"
      obtain h2 where h2: "RegisterSizeClass sp c h1 = Inr h2" "heap_ok env own h2" "ph_spans h2 = (ph_spans h1)(sp \<mapsto> ?s1)"
        "ph_aggressive_decommit h2 = ph_aggressive_decommit h1"
        using RegisterSizeClass_ok [OF h1(1) sp0 h1(4), of c] RegisterSizeClass_mode [of sp c h1] by (auto simp: sure_def)
      have g2: "geo (ph_spans h2) (ph_pagemap h2)" using heap_okD(1) [OF h2(2)] .
      have s2: "ph_spans h2 sp = Some ?s1" by (simp add: h2(3))
      have so: "span_ok (ph_pagemap h2) sp ?s1" by (rule geo_span [OF g2 s2])
      then have nn: "sp \<noteq> NULL" "0 < sp_start s0" by (simp_all add: span_ok_def)
      have ps: "set [sp_start s0..sp_start s0 + ?n - 1] = page_set ?s1" by (auto simp: page_set_def h1(3))
      obtain pc' where pc': "cache_classes [sp_start s0..sp_start s0 + ?n - 1] (int c) (tm_cache t) = Inr pc'"
        and pl: "\<forall>p. key_ok p \<longrightarrow> (if p \<in> page_set ?s1 then pc_lookup pc' p \<in> {None, Some (int c)} else pc_lookup pc' p \<in> {None, pc_lookup (tm_cache t) p})"
        using cache_classes_ok [of "[sp_start s0..sp_start s0 + ?n - 1]" "int c" "tm_cache t"] span_keys [OF so] c128 unfolding ps by blast
      let ?k = "nat (cell_count ?m ?s1)"
      have k: "0 < ?k" "int ?k = ?n * kPageSize div ?z"
        using z h1(3) by (simp_all add: cell_count_def pos_imp_zdiv_pos_iff pos_imp_zdiv_nonneg_iff)
      have fill: "int ?k * ?z \<le> ?n * kPageSize" "?n * kPageSize < int ?k * ?z + ?z"
        using div_mult_mod_eq [of "?n * kPageSize" ?z] pos_mod_bound [OF z(1), of "?n * kPageSize"] pos_mod_sign [OF z(1), of "?n * kPageSize"]
        unfolding k(2) by linarith+
      have "0 < ?p" using nn(2) by (simp add: kPageSize_def)
      from cut_span_ok [OF z(1) k(1) _ _ this, of "?p + ?n * kPageSize" NULL "tm_mem t"] fill obtain e m' where
        e: "cut_objects ?z (?p + ?n * kPageSize) ?p None NULL 0 (tm_mem t) = Inr (Some e, ?p, ?p + int ?k * ?z, int ?k, m')"
          "sll (m'(e \<mapsto> NULL)) ?p (slots_from ?z ?p ?k)" "\<forall>b. b \<notin> set (slots_from ?z ?p ?k) \<longrightarrow> (m'(e \<mapsto> NULL)) b = tm_mem t b"
        by auto
      have cells: "cell_list ?m ?s1 = slots_from ?z ?p ?k" using cell_list_slots [of ?m ?s1] z(1) by simp
      have pb: "push_bit kPageShift (sp_start s0) = ?p" "push_bit kPageShift ?n = ?n * kPageSize"
        by (simp_all add: push_bit_eq_mult kPageShift_def kPageSize_def)
      let ?s3 = "?s1\<lparr>sp_objects := ?p, sp_refcount := 0\<rparr>"
      let ?h3 = "h2\<lparr>ph_spans := (ph_spans h2)(sp \<mapsto> ?s3)\<rparr>"
      let ?l = "(tm_central t c)\<lparr>cf_nonempty := sp # cf_nonempty (tm_central t c), cf_num_spans := cf_num_spans (tm_central t c) + 1,
        cf_counter := cf_counter (tm_central t c) + word_of_int (int ?k)\<rparr>"
      let ?t' = "upd_central c ?l (t\<lparr>tm_heap := ?h3, tm_cache := pc', tm_mem := m'(e \<mapsto> NULL)\<rparr>)"
      have u: "upd_span sp (\<lambda>s. s\<lparr>sp_objects := ?p, sp_refcount := 0\<rparr>) h2 = Inr ?h3"
        using nn(1) s2 by (simp add: upd_span_ok)
      have run: "?K sp = Inr ?t'" using h2(1) s2 nn(1) h1(3) pc' e(1) fill(1) u by (simp add: the_span_def pb)
      have "heap_ok env own ?h3" by (rule touch_ok [OF h2(2) s2]) (use h1(4) in simp_all)
      then have pl3: "plain_heap env own ?h3" using O(1) h1(6) h2(4) by (simp add: plain_heap_def)
      have lv: "live (ph_spans ?h3) = (live (ph_spans (tm_heap t)))(sp \<mapsto> ?s3)" using h1(4,5) by (simp add: h2(3) live_touch)
      have cs: "cell_list ?m ?s3 = slots_from ?z ?p ?k" using cells cells_cong [of ?s3 ?s1 ?m] by simp
      have ps3: "page_set ?s3 = page_set ?s1" by (simp add: page_set_def)
      have s3: "sp_sizeclass ?s3 = c" "sp_length ?s3 = ?n" "sp_location ?s3 = IN_USE" "sp_refcount ?s3 = 0" using h1(3,4) by simp_all
      have m3: "sll (m'(e \<mapsto> NULL)) (sp_objects ?s3) (cell_list ?m ?s3)" using e(2) unfolding cs by simp
      have l3: "?l = (tm_central t c)\<lparr>cf_nonempty := sp # cf_nonempty (tm_central t c), cf_num_spans := cf_num_spans (tm_central t c) + 1,
          cf_counter := cf_counter (tm_central t c) + word_of_int (cell_count ?m ?s3)\<rparr>"
        using k(1) by (simp add: cell_count_def)
      note add = add_span [where s = ?s3, OF ok c pl3 lv h1(2) s3 pl [folded ps3] m3 e(3) [folded cs] l3 refl]
      have "spans_ok env own (F(sp := cell_list ?m ?s3)) X ?t'" "kept_rest X t ?t'" by (rule add)+
      then have "given_back env own X t ?t'" unfolding given_back_def by blast
      then show ?thesis unfolding run by simp
    qed
    have none: "sure (Inr (t\<lparr>tm_heap := h1\<rparr>)) ?Q" if g: "heap_stable env own (tm_heap t) h1" "\<forall>a. \<not> fits ?n (ph_spans (tm_heap t)) a"
    proof -
      have "plain_heap env own h1" "live (ph_spans h1) = live (ph_spans (tm_heap t))" using g O(1) by (auto simp: heap_stable_def plain_heap_def)
      from spans_ok_heap [OF ok this] show ?thesis using g(2) by (auto simp: given_back_def)
    qed
    show "unless_oom (case r of None \<Rightarrow> Inr (t\<lparr>tm_heap := h1\<rparr>) | Some sp \<Rightarrow> ?K sp) ?Q"
      by (rule oom_sure) (use r some none in \<open>cases r; simp\<close>)
  qed
qed

end
