(* ===== verification/Central_Transfer.thy ===== *)
theory Central_Transfer
  imports Central_Populate
begin

unbundle bit_operations_syntax

text \<open>
  Whole ranges of objects: \<open>RemoveRange\<close> and \<open>InsertRange\<close> with the transfer cache in front of the spans.
  The chains in the slots are objects that are out of their spans but with nobody; \<open>Y\<close> is the set of
  objects that clients hold.
\<close>

section \<open>Ranges from the spans\<close>

text \<open>The words of the objects that are out belong to whoever holds them.\<close>

lemma spans_ok_mem:
  assumes ok: "spans_ok env own F X t" and m: "\<And>a. a \<notin> X \<Longrightarrow> m a = tm_mem t a" "X \<subseteq> dom m"
  shows "spans_ok env own F X (t\<lparr>tm_mem := m\<rparr>)"
proof -
  let ?t = "t\<lparr>tm_mem := m\<rparr>"
  have sz: "sized ?t = sized t" by (rule sized_live) simp
  have "span_fine ?t F X a s" if "sized t a = Some s" for a s
  proof -
    have f: "span_fine t F X a s" by (rule spans_okD(5) [OF ok that])
    then have "y \<notin> X" if "y \<in> set (F a)" for y using that by (auto simp: span_fine_def)
    then show ?thesis by (intro span_fine_cong [OF f]) (auto simp: m(1))
  qed
  moreover have "class_spans ?t c = class_spans t c" for c by (simp add: class_spans_def sz)
  then have "lists_fine ?t F c l = lists_fine t F c l" for c l by (simp add: lists_fine_def)
  ultimately show ?thesis using ok m(2) unfolding spans_ok_def sz by auto
qed

lemma plain_central [simp]: "plain (t\<lparr>tm_central := C\<rparr>) = plain t" "plain (t\<lparr>tm_race := r\<rparr>) = plain t" "plain (t\<lparr>tm_mem := m\<rparr>) = plain t"
  by (rule plain_live, simp)+

lemma class_of_mem [simp]: "class_of (t\<lparr>tm_mem := m\<rparr>) = class_of t"
proof -
  have "sized (t\<lparr>tm_mem := m\<rparr>) = sized t" by (rule sized_live) simp
  then show ?thesis by (simp add: class_of_def fun_eq_iff)
qed

lemma taken_nil: "given_back env own X t t' \<Longrightarrow> taken env own X c [] t t'"
  by (simp add: given_back_def taken_def)

lemma taken_after:
  assumes "given_back env own X t t1" "taken env own X c ys t1 t'"
  shows "taken env own X c ys t t'"
  using assms kept_trans(2) unfolding given_back_def taken_def by blast

lemma FetchFromOneSpansSafe_ok:
  assumes ok: "spans_ok env own F X t" and c: "c < num_size_classes (tm_sizemap t)" "c \<noteq> 0" "0 < N"
  shows "unless_oom (FetchFromOneSpansSafe env c N t) (\<lambda>(n, start, e, t'). \<exists>ys. n = int (length ys) \<and> n \<le> N \<and>
    sll (tm_mem t') start ys \<and> (ys \<noteq> [] \<longrightarrow> e = last ys) \<and> taken env own X c ys t t' \<and>
    (ys = [] \<longrightarrow> e = NULL \<and> (\<forall>a. \<not> fits (class_to_pages (tm_sizemap t) ! c) (ph_spans (tm_heap t)) a)))"
proof (cases "cf_nonempty (tm_central t c) = []")
  case False
  obtain n start e t' ys where r: "FetchFromOneSpans c N t = Inr (n, start, e, t')" "ys \<noteq> []" "n = int (length ys)" "n \<le> N" "sll (tm_mem t') start ys"
    "e = last ys" "taken env own X c ys t t'"
    using FetchFromOneSpans_ok [OF ok c(1,3)] False by (auto simp: sure_def)
  then show ?thesis by (auto simp: FetchFromOneSpansSafe_def intro!: exI [of _ ys])
next
  case True
  have f: "FetchFromOneSpans c N t = Inr (0, NULL, NULL, t)" using FetchFromOneSpans_ok [OF ok c(1,3)] True by (auto simp: sure_def)
  show ?thesis
    unfolding FetchFromOneSpansSafe_def f bindR_simps prod.case if_P [OF refl]
  proof (rule oom_bind [OF Populate_ok [OF ok c(1,2)]], elim conjE)
    fix t1 assume g: "given_back env own X t t1"
      and no: "cf_nonempty (tm_central t1 c) = [] \<longrightarrow> (\<forall>a. \<not> fits (class_to_pages (tm_sizemap t) ! c) (ph_spans (tm_heap t)) a)"
    then obtain F1 where ok1: "spans_ok env own F1 X t1" and m1: "tm_sizemap t1 = tm_sizemap t"
      by (auto simp: given_back_def kept_rest_def kept_objects_def)
    have "sure (FetchFromOneSpans c N t1) (\<lambda>(n, start, e, t'). \<exists>ys. n = int (length ys) \<and> n \<le> N \<and>
      sll (tm_mem t') start ys \<and> (ys \<noteq> [] \<longrightarrow> e = last ys) \<and> taken env own X c ys t t' \<and>
      (ys = [] \<longrightarrow> e = NULL \<and> (\<forall>a. \<not> fits (class_to_pages (tm_sizemap t) ! c) (ph_spans (tm_heap t)) a)))"
    proof (rule sure_mono [OF FetchFromOneSpans_ok [OF ok1, of c N]], unfold m1, rule c(1), rule c(3), clarify)
      fix n start e t'
      assume r: "if cf_nonempty (tm_central t1 c) = [] then n = 0 \<and> start = NULL \<and> e = NULL \<and> t' = t1
        else \<exists>ys. ys \<noteq> [] \<and> n = int (length ys) \<and> n \<le> N \<and> sll (tm_mem t') start ys \<and> e = last ys \<and> taken env own X c ys t1 t'"
      show "\<exists>ys. n = int (length ys) \<and> n \<le> N \<and> sll (tm_mem t') start ys \<and> (ys \<noteq> [] \<longrightarrow> e = last ys) \<and> taken env own X c ys t t' \<and>
        (ys = [] \<longrightarrow> e = NULL \<and> (\<forall>a. \<not> fits (class_to_pages (tm_sizemap t) ! c) (ph_spans (tm_heap t)) a))"
      proof (cases "cf_nonempty (tm_central t1 c) = []")
        case True
        then show ?thesis using r no c(3) taken_nil [OF g] by (intro exI [of _ "[]"]) simp
      next
        case False
        then obtain ys where "ys \<noteq> []" "n = int (length ys)" "n \<le> N" "sll (tm_mem t') start ys" "e = last ys" "taken env own X c ys t1 t'"
          using r by auto
        then show ?thesis using taken_after [OF g] by (intro exI [of _ ys]) simp
      qed
    qed
    then show "unless_oom (FetchFromOneSpans c N t1) (\<lambda>(n, start, e, t'). \<exists>ys. n = int (length ys) \<and> n \<le> N \<and>
      sll (tm_mem t') start ys \<and> (ys \<noteq> [] \<longrightarrow> e = last ys) \<and> taken env own X c ys t t' \<and>
      (ys = [] \<longrightarrow> e = NULL \<and> (\<forall>a. \<not> fits (class_to_pages (tm_sizemap t) ! c) (ph_spans (tm_heap t)) a)))" by (rule oom_sure)
  qed
qed

text \<open>A second range is put in front of the first.\<close>

lemma taken_more:
  assumes t1: "taken env own X c ys t t1" "sll (tm_mem t1) p ys" and t2: "taken env own (X \<union> set ys) c zs t1 t2" "sll (tm_mem t2) q zs" "zs \<noteq> []"
  shows "SLL_PushRange (tm_mem t2) p q (last zs) = Inr (q, (tm_mem t2)(last zs \<mapsto> p))"
    "taken env own X c (zs @ ys) t (t2\<lparr>tm_mem := (tm_mem t2)(last zs \<mapsto> p)\<rparr>)" "sll ((tm_mem t2)(last zs \<mapsto> p)) q (zs @ ys)"
proof -
  obtain F where ok: "spans_ok env own F (X \<union> set ys \<union> set zs) t2" using t2(1) by (auto simp: taken_def)
  have k: "kept_rest (X \<union> set ys) t1 t2" "set zs \<inter> (X \<union> set ys) = {}" "\<forall>y\<in>set zs. class_of t2 y c" using t2(1) by (simp_all add: taken_def)
  have k1: "kept_rest X t t1" "set ys \<inter> X = {}" "\<forall>y\<in>set ys. class_of t1 y c" using t1(1) by (simp_all add: taken_def)
  have ko: "kept_objects (X \<union> set ys) t1 t2" using k(1) by (simp add: kept_rest_def)
  have p2: "sll (tm_mem t2) p ys" using t1(2) kept_sll [OF ko, of ys p] by simp
  obtain vs where z: "zs = vs @ [last zs]" using t2(3) by (metis append_butlast_last_id)
  have q2: "sll (tm_mem t2) q (vs @ [last zs])" using t2(2) z by simp
  have d: "set (vs @ [last zs]) \<inter> set ys = {}" using k(2) unfolding z [symmetric] by blast
  show "SLL_PushRange (tm_mem t2) p q (last zs) = Inr (q, (tm_mem t2)(last zs \<mapsto> p))" by (rule SLL_PushRange_sll(1) [OF q2 p2 d])
  have zy: "zs @ ys = vs @ last zs # ys" using z by (metis append.assoc append_Cons append_Nil)
  show "sll ((tm_mem t2)(last zs \<mapsto> p)) q (zs @ ys)" unfolding zy by (rule SLL_PushRange_sll(2) [OF q2 p2 d])
  let ?t = "t2\<lparr>tm_mem := (tm_mem t2)(last zs \<mapsto> p)\<rparr>"
  have lz: "last zs \<in> set zs" using t2(3) by simp
  have "spans_ok env own F (X \<union> set ys \<union> set zs) ?t"
    by (rule spans_ok_mem [OF ok]) (use lz out_object(1) [OF ok] in auto)
  moreover have "X \<union> set ys \<union> set zs = X \<union> set (zs @ ys)" by auto
  moreover have "kept_rest X t1 ?t"
    using kept_mono(2) [OF k(1), of X] lz k(2) by (auto simp: kept_rest_def kept_objects_def)
  moreover have "class_of ?t y c" if "y \<in> set (zs @ ys)" for y
    using that k(3) k1(3) ko by (auto simp: kept_objects_def)
  ultimately show "taken env own X c (zs @ ys) t ?t"
    using kept_trans(2) [OF k1(1)] k(2) k1(2) unfolding taken_def by auto
qed

lemma remove_loop_ok:
  assumes "taken env own X c ys t0 t" "sll (tm_mem t) p ys" "ys \<noteq> []" "int (length ys) \<le> N" "c < num_size_classes (tm_sizemap t)"
  shows "sure (remove_loop c N (int (length ys)) p (last ys) t) (\<lambda>(n, start, e, t'). \<exists>zs. zs \<noteq> [] \<and> n = int (length zs) \<and> n \<le> N \<and>
    sll (tm_mem t') start zs \<and> e = last zs \<and> taken env own X c zs t0 t')"
  using assms
proof (induction "nat (N - int (length ys))" arbitrary: ys t p rule: less_induct)
  case less
  show ?case
  proof (cases "int (length ys) < N")
    case False
    then show ?thesis using less.prems by (subst remove_loop.simps) (auto intro!: exI [of _ ys])
  next
    case True
    obtain F where ok: "spans_ok env own F (X \<union> set ys) t" using less.prems(1) by (auto simp: taken_def)
    note fetch = FetchFromOneSpans_ok [OF ok less.prems(5), of "N - int (length ys)"]
    show ?thesis
    proof (cases "cf_nonempty (tm_central t c) = []")
      case none: True
      then have "FetchFromOneSpans c (N - int (length ys)) t = Inr (0, NULL, NULL, t)" using fetch True by (auto simp: sure_def)
      then show ?thesis using less.prems True by (subst remove_loop.simps) (auto intro!: exI [of _ ys])
    next
      case False
      then obtain n q e t1 zs where r: "FetchFromOneSpans c (N - int (length ys)) t = Inr (n, q, e, t1)" "zs \<noteq> []" "n = int (length zs)"
        "n \<le> N - int (length ys)" "sll (tm_mem t1) q zs" "e = last zs" "taken env own (X \<union> set ys) c zs t t1"
        using fetch True by (auto simp: sure_def)
      note more = taken_more [OF less.prems(1,2) r(7,5,2)]
      let ?t2 = "t1\<lparr>tm_mem := (tm_mem t1)(last zs \<mapsto> p)\<rparr>"
      have m: "tm_sizemap ?t2 = tm_sizemap t" using r(7) by (simp add: taken_def kept_rest_def kept_objects_def)
      have "remove_loop c N (int (length ys)) p (last ys) t = remove_loop c N (int (length (zs @ ys))) q (last (zs @ ys)) ?t2"
        using r(1-3,6) more(1) True less.prems(3) by (subst remove_loop.simps) (simp add: add.commute)
      moreover have "nat (N - int (length (zs @ ys))) < nat (N - int (length ys))" using True r(2) by (simp add: nat_less_eq_zless)
      ultimately show ?thesis
        using less.hyps [of "zs @ ys" ?t2 q] more(2,3) r(3,4) less.prems(3,5) m by simp
    qed
  qed
qed

section \<open>The transfer cache\<close>

text \<open>The slots in use; \<open>T (c, i)\<close> is the chain in slot \<open>i\<close> of class \<open>c\<close>.\<close>

definition used_slots :: "'k tcm \<Rightarrow> (nat \<times> int) set" where
  "used_slots t = {(c, i). c < num_size_classes (tm_sizemap t) \<and> 0 \<le> i \<and> i < cf_used_slots (tm_central t c)}"

definition chain_ok :: "'k tcm \<Rightarrow> nat \<Rightarrow> addr \<times> addr \<Rightarrow> addr list \<Rightarrow> bool" where
  "chain_ok t c slot ys \<longleftrightarrow> ys \<noteq> [] \<and> sll (tm_mem t) (fst slot) ys \<and> snd slot = last ys \<and>
     int (length ys) = objects_to_move t c \<and> (\<forall>y\<in>set ys. class_of t y c)"

definition sizes_fine :: "central_list \<Rightarrow> bool" where
  "sizes_fine l \<longleftrightarrow> 0 \<le> cf_used_slots l \<and> cf_used_slots l \<le> cf_cache_size l \<and> cf_cache_size l \<le> cf_max_cache_size l \<and>
     cf_max_cache_size l \<le> kMaxNumTransferEntries"

definition chained :: "(nat \<times> int \<Rightarrow> addr list) \<Rightarrow> (nat \<times> int) set \<Rightarrow> addr set" where
  "chained T I = (\<Union>p\<in>I. set (T p))"

definition slots_ok :: "(nat \<times> int \<Rightarrow> addr list) \<Rightarrow> addr set \<Rightarrow> 'k tcm \<Rightarrow> bool" where
  "slots_ok T Y t \<longleftrightarrow> (\<forall>c i. (c, i) \<in> used_slots t \<longrightarrow> chain_ok t c (cf_tc_slots (tm_central t c) i) (T (c, i))) \<and>
     (\<forall>p\<in>used_slots t. \<forall>q\<in>used_slots t. p \<noteq> q \<longrightarrow> set (T p) \<inter> set (T q) = {}) \<and> Y \<inter> chained T (used_slots t) = {} \<and>
     (\<forall>c<num_size_classes (tm_sizemap t). sizes_fine (tm_central t c)) \<and> 0 \<le> tm_race t \<and> tm_race t \<le> int (num_size_classes (tm_sizemap t))"

definition central_ok :: "'k tc_env \<Rightarrow> ('k \<Rightarrow> addr set) \<Rightarrow> addr set \<Rightarrow> 'k tcm \<Rightarrow> bool" where
  "central_ok env own Y t \<longleftrightarrow> (\<exists>T F. spans_ok env own F (Y \<union> chained T (used_slots t)) t \<and> slots_ok T Y t)"

text \<open>Changes of the slots only.\<close>

definition same_lists_as :: "central_list \<Rightarrow> central_list \<Rightarrow> bool" where
  "same_lists_as l l' \<longleftrightarrow> cf_size_class l' = cf_size_class l \<and> cf_empty l' = cf_empty l \<and> cf_nonempty l' = cf_nonempty l \<and>
     cf_num_spans l' = cf_num_spans l \<and> cf_counter l' = cf_counter l"

lemma sized_central [simp]: "sized (t\<lparr>tm_central := C\<rparr>) = sized t" "sized (t\<lparr>tm_race := r\<rparr>) = sized t"
  by (rule sized_live, simp)+

lemma class_of_central [simp]: "class_of (t\<lparr>tm_central := C\<rparr>) = class_of t" "class_of (t\<lparr>tm_race := r\<rparr>) = class_of t"
  by (simp_all add: class_of_def fun_eq_iff)

lemma spans_ok_slots:
  assumes "spans_ok env own F X t" "same_lists_as (tm_central t c) l"
  shows "spans_ok env own F X (upd_central c l t)"
proof -
  let ?t = "upd_central c l t"
  have "lists_fine ?t F d (tm_central ?t d)" if "d < num_size_classes (tm_sizemap t)" for d
    using spans_okD(6) [OF assms(1) that] assms(2)
    by (cases "d = c") (simp_all add: lists_fine_def same_lists_as_def class_spans_def)
  then show ?thesis using assms(1) by (simp add: spans_ok_def span_fine_def)
qed

lemma spans_ok_race: "spans_ok env own F X (t\<lparr>tm_race := r\<rparr>) = spans_ok env own F X t"
  by (simp add: spans_ok_def span_fine_def lists_fine_def class_spans_def)

lemma used_slots_cong:
  assumes "tm_sizemap t' = tm_sizemap t" "\<And>c. cf_used_slots (tm_central t' c) = cf_used_slots (tm_central t c)"
  shows "used_slots t' = used_slots t"
  using assms by (simp add: used_slots_def)

lemma chain_kept:
  assumes "kept_objects X t t'" "chain_ok t c slot ys" "set ys \<subseteq> X"
  shows "chain_ok t' c slot ys"
  using assms kept_sll [OF assms(1,3)] by (auto simp: chain_ok_def kept_objects_def)

text \<open>The transfer cache does not notice operations on the spans that keep its chains.\<close>

lemma slots_ok_kept:
  assumes s: "slots_ok T Y t" and k: "kept_rest (Y' \<union> chained T (used_slots t)) t t'" and y: "Y' \<inter> chained T (used_slots t) = {}"
  shows "slots_ok T Y' t'" "used_slots t' = used_slots t"
proof -
  have m: "tm_sizemap t' = tm_sizemap t" "tm_race t' = tm_race t" "\<And>c. same_slots (tm_central t c) (tm_central t' c)"
    using k by (simp_all add: kept_rest_def kept_objects_def)
  then show u: "used_slots t' = used_slots t" by (intro used_slots_cong) (simp_all add: same_slots_def)
  have ko: "kept_objects (chained T (used_slots t)) t t'" using k by (auto simp: kept_rest_def intro: kept_mono(1))
  have "chain_ok t' c (cf_tc_slots (tm_central t' c) i) (T (c, i))" if i: "(c, i) \<in> used_slots t" for c i
  proof -
    have "chain_ok t c (cf_tc_slots (tm_central t c) i) (T (c, i))" using s i unfolding slots_ok_def by blast
    moreover have "set (T (c, i)) \<subseteq> chained T (used_slots t)" using i by (auto simp: chained_def)
    ultimately show ?thesis using chain_kept [OF ko] m(3) by (simp add: same_slots_def)
  qed
  moreover have "sizes_fine (tm_central t' c) = sizes_fine (tm_central t c)" for c using m(3) [of c] by (simp add: sizes_fine_def same_slots_def)
  ultimately show "slots_ok T Y' t'" using s y unfolding slots_ok_def u m(1,2) by auto
qed

text \<open>What an operation of the transfer cache does for the clients.\<close>

definition passed :: "'k tc_env \<Rightarrow> ('k \<Rightarrow> addr set) \<Rightarrow> addr set \<Rightarrow> addr set \<Rightarrow> 'k tcm \<Rightarrow> 'k tcm \<Rightarrow> bool" where
  "passed env own Y Y' t t' \<longleftrightarrow> central_ok env own Y' t' \<and> kept_objects (Y \<inter> Y') t t'"

text \<open>Whole lists go back to the spans.\<close>

lemma release_central:
  assumes c: "central_ok env own Y t" and ys: "sll (tm_mem t) p ys" "set ys \<subseteq> Y" "\<forall>y\<in>set ys. class_of t y cl"
  shows "sure (ReleaseListToSpans env cl p t) (passed env own Y (Y - set ys) t)"
proof -
  obtain T F where ok: "spans_ok env own F (Y \<union> chained T (used_slots t)) t" and s: "slots_ok T Y t" using c by (auto simp: central_ok_def)
  have yi: "Y \<inter> chained T (used_slots t) = {}" using s by (simp add: slots_ok_def)
  then have e: "Y \<union> chained T (used_slots t) - set ys = (Y - set ys) \<union> chained T (used_slots t)" using ys(2) by blast
  show ?thesis
  proof (rule sure_mono [OF ReleaseListToSpans_ok [OF ok ys(1) _ ys(3)]])
    show "set ys \<subseteq> Y \<union> chained T (used_slots t)" using ys(2) by blast
    fix t' assume "given_back env own (Y \<union> chained T (used_slots t) - set ys) t t'"
    then obtain F' where ok': "spans_ok env own F' ((Y - set ys) \<union> chained T (used_slots t)) t'"
      and k: "kept_rest ((Y - set ys) \<union> chained T (used_slots t)) t t'" unfolding given_back_def e by blast
    have s': "slots_ok T (Y - set ys) t'" and u: "used_slots t' = used_slots t" using slots_ok_kept [OF s k] yi by auto
    have "kept_objects (Y \<inter> (Y - set ys)) t t'" using k by (auto simp: kept_rest_def intro: kept_mono(1))
    then show "passed env own Y (Y - set ys) t t'" using ok' s' unfolding passed_def central_ok_def u [symmetric] by blast
  qed
qed

lemma chain_central [simp]:
  "chain_ok (t\<lparr>tm_central := C\<rparr>) = chain_ok t" "chain_ok (t\<lparr>tm_race := r\<rparr>) = chain_ok t"
  by (simp_all add: chain_ok_def fun_eq_iff)

lemma kept_central [simp]: "kept_objects X t (t\<lparr>tm_central := C\<rparr>)" "kept_objects X t (t\<lparr>tm_race := r\<rparr>)"
  by (simp_all add: kept_objects_def)

lemma central_race:
  assumes "central_ok env own Y t" "0 \<le> r" "r \<le> int (num_size_classes (tm_sizemap t))"
  shows "central_ok env own Y (t\<lparr>tm_race := r\<rparr>)"
proof -
  have u: "used_slots (t\<lparr>tm_race := r\<rparr>) = used_slots t" by (rule used_slots_cong) simp_all
  show ?thesis using assms unfolding central_ok_def slots_ok_def u spans_ok_race by auto
qed

text \<open>A different capacity of a class.\<close>

lemma central_resize:
  assumes c: "central_ok env own Y t" and l: "cf_used_slots (tm_central t c) \<le> k" "k \<le> cf_max_cache_size (tm_central t c)"
  shows "central_ok env own Y (upd_central c ((tm_central t c)\<lparr>cf_cache_size := k\<rparr>) t)"
proof -
  let ?t = "upd_central c ((tm_central t c)\<lparr>cf_cache_size := k\<rparr>) t"
  obtain T F where ok: "spans_ok env own F (Y \<union> chained T (used_slots t)) t" and s: "slots_ok T Y t" using c by (auto simp: central_ok_def)
  have u: "used_slots ?t = used_slots t" by (rule used_slots_cong) simp_all
  have "spans_ok env own F (Y \<union> chained T (used_slots t)) ?t" by (rule spans_ok_slots [OF ok]) (simp add: same_lists_as_def)
  moreover have "sizes_fine (tm_central ?t d)" if "d < num_size_classes (tm_sizemap t)" for d
    using s that l by (cases "d = c") (auto simp: slots_ok_def sizes_fine_def)
  then have "slots_ok T Y ?t" using s unfolding slots_ok_def u by simp
  ultimately show ?thesis unfolding central_ok_def u [symmetric] by blast
qed

text \<open>The chain in the last slot is taken out.\<close>

lemma pop_slot:
  assumes c: "central_ok env own Y t" "c < num_size_classes (tm_sizemap t)" and i: "cf_used_slots (tm_central t c) = i + 1" "0 \<le> i"
    and k: "i \<le> k" "k \<le> cf_max_cache_size (tm_central t c)"
  shows "\<exists>ys. central_ok env own (Y \<union> set ys) (upd_central c ((tm_central t c)\<lparr>cf_cache_size := k, cf_used_slots := i\<rparr>) t) \<and>
    set ys \<inter> Y = {} \<and> chain_ok t c (cf_tc_slots (tm_central t c) i) ys"
proof -
  let ?t = "upd_central c ((tm_central t c)\<lparr>cf_cache_size := k, cf_used_slots := i\<rparr>) t"
  obtain T F where ok: "spans_ok env own F (Y \<union> chained T (used_slots t)) t" and s: "slots_ok T Y t" using c(1) by (auto simp: central_ok_def)
  have p: "(c, i) \<in> used_slots t" using c(2) i by (simp add: used_slots_def)
  have u: "used_slots ?t = used_slots t - {(c, i)}" using i by (auto simp: used_slots_def split: if_splits)
  let ?ys = "T (c, i)"
  have ch: "chain_ok t c (cf_tc_slots (tm_central t c) i) ?ys" using s p unfolding slots_ok_def by blast
  have "Y \<inter> chained T (used_slots t) = {}" using s by (simp add: slots_ok_def)
  then have yd: "set ?ys \<inter> Y = {}" using p by (auto simp: chained_def)
  have un: "chained T (used_slots t) = set ?ys \<union> chained T (used_slots t - {(c, i)})" using p by (auto simp: chained_def)
  have dj: "set ?ys \<inter> set (T q) = {}" if "q \<in> used_slots t - {(c, i)}" for q using s p that unfolding slots_ok_def by blast
  have "spans_ok env own F (Y \<union> chained T (used_slots t)) ?t" by (rule spans_ok_slots [OF ok]) (simp add: same_lists_as_def)
  then have ok': "spans_ok env own F ((Y \<union> set ?ys) \<union> chained T (used_slots ?t)) ?t" unfolding un u by (simp add: Un_assoc)
  have "sizes_fine (tm_central ?t d)" if "d < num_size_classes (tm_sizemap t)" for d
    using s that i k by (cases "d = c") (auto simp: slots_ok_def sizes_fine_def)
  moreover have "(Y \<union> set ?ys) \<inter> chained T (used_slots ?t) = {}"
    using s dj unfolding u slots_ok_def by (auto simp: chained_def)
  moreover have "chain_ok t d (cf_tc_slots (tm_central ?t d) j) (T (d, j))" if "(d, j) \<in> used_slots ?t" for d j
  proof -
    have "chain_ok t d (cf_tc_slots (tm_central t d) j) (T (d, j))" using s that unfolding u slots_ok_def by blast
    then show ?thesis by (cases "d = c") simp_all
  qed
  moreover have "\<forall>p\<in>used_slots ?t. \<forall>q\<in>used_slots ?t. p \<noteq> q \<longrightarrow> set (T p) \<inter> set (T q) = {}" using s unfolding u slots_ok_def by blast
  ultimately have "slots_ok T (Y \<union> set ?ys) ?t" using s by (simp add: slots_ok_def)
  then show ?thesis using ok' ch yd unfolding central_ok_def by blast
qed

text \<open>A chain is put into the next slot.\<close>

lemma push_slot:
  assumes c: "central_ok env own Y t" "c < num_size_classes (tm_sizemap t)" and u: "cf_used_slots (tm_central t c) = i" "i < cf_cache_size (tm_central t c)"
    and ys: "chain_ok t c slot ys" "set ys \<subseteq> Y"
  shows "central_ok env own (Y - set ys)
    (upd_central c ((tm_central t c)\<lparr>cf_used_slots := i + 1, cf_tc_slots := (cf_tc_slots (tm_central t c))(i := slot)\<rparr>) t)"
proof -
  let ?t = "upd_central c ((tm_central t c)\<lparr>cf_used_slots := i + 1, cf_tc_slots := (cf_tc_slots (tm_central t c))(i := slot)\<rparr>) t"
  obtain T F where ok: "spans_ok env own F (Y \<union> chained T (used_slots t)) t" and s: "slots_ok T Y t" using c(1) by (auto simp: central_ok_def)
  let ?T = "T((c, i) := ys)"
  have sf: "sizes_fine (tm_central t c)" using s c(2) by (simp add: slots_ok_def)
  then have i0: "0 \<le> i" using u by (simp add: sizes_fine_def)
  have us: "used_slots ?t = insert (c, i) (used_slots t)" using u i0 c(2) by (auto simp: used_slots_def split: if_splits)
  have np: "(c, i) \<notin> used_slots t" using u by (simp add: used_slots_def)
  have ch: "chained ?T (used_slots ?t) = set ys \<union> chained T (used_slots t)" using np unfolding us by (auto simp: chained_def split: if_splits)
  have yd: "Y \<inter> chained T (used_slots t) = {}" using s by (simp add: slots_ok_def)
  have "spans_ok env own F (Y \<union> chained T (used_slots t)) ?t" by (rule spans_ok_slots [OF ok]) (simp add: same_lists_as_def)
  moreover have "Y \<union> chained T (used_slots t) = (Y - set ys) \<union> chained ?T (used_slots ?t)" unfolding ch using ys(2) by blast
  ultimately have ok': "spans_ok env own F ((Y - set ys) \<union> chained ?T (used_slots ?t)) ?t" by simp
  have "sizes_fine (tm_central ?t d)" if "d < num_size_classes (tm_sizemap t)" for d
    using s that u sf by (cases "d = c") (auto simp: slots_ok_def sizes_fine_def)
  moreover have "(Y - set ys) \<inter> chained ?T (used_slots ?t) = {}" unfolding ch using yd by blast
  moreover have "chain_ok t d (cf_tc_slots (tm_central ?t d) j) (?T (d, j))" if j: "(d, j) \<in> used_slots ?t" for d j
  proof (cases "(d, j) = (c, i)")
    case True then show ?thesis using ys(1) by simp
  next
    case False
    then have "chain_ok t d (cf_tc_slots (tm_central t d) j) (T (d, j))" using s j unfolding us slots_ok_def by blast
    then show ?thesis using False by (cases "d = c") auto
  qed
  moreover have "set (?T p) \<inter> set (?T q) = {}" if "p \<in> used_slots ?t" "q \<in> used_slots ?t" "p \<noteq> q" for p q
  proof -
    have old: "set ys \<inter> set (T r) = {}" if "r \<in> used_slots t" for r using yd ys(2) that by (auto simp: chained_def)
    have "set (T p) \<inter> set (T q) = {}" if "p \<in> used_slots t" "q \<in> used_slots t" using s that \<open>p \<noteq> q\<close> unfolding slots_ok_def by blast
    then show ?thesis using that old [of p] old [of q] np unfolding us by auto
  qed
  ultimately have "slots_ok ?T (Y - set ys) ?t" using s by (simp add: slots_ok_def)
  then show ?thesis using ok' unfolding central_ok_def by blast
qed

section \<open>The operations of the transfer cache\<close>

lemma central_okD:
  assumes "central_ok env own Y t"
  shows "classes_ok (tm_sizemap t)" "\<And>c. c < num_size_classes (tm_sizemap t) \<Longrightarrow> sizes_fine (tm_central t c)"
    "\<And>c. c < num_size_classes (tm_sizemap t) \<Longrightarrow> cf_size_class (tm_central t c) = c"
    "0 \<le> tm_race t" "tm_race t \<le> int (num_size_classes (tm_sizemap t))"
  using assms spans_okD(3,6) unfolding central_ok_def slots_ok_def lists_fine_def by metis+

lemma passed_refl: "central_ok env own Y t \<Longrightarrow> passed env own Y Y t t"
  by (simp add: passed_def)

lemma passed_trans:
  assumes "passed env own Y Y t t1" "passed env own Y Y t1 t2" shows "passed env own Y Y t t2"
  using assms kept_trans(1) unfolding passed_def Int_absorb by blast

lemma ShrinkCache_ok:
  assumes ok: "central_ok env own Y t" and c: "c < num_size_classes (tm_sizemap t)"
  shows "sure (ShrinkCache env c force t) (\<lambda>(r, t'). passed env own Y Y t t')"
proof -
  let ?l = "tm_central t c"
  have sf: "sizes_fine ?l" by (rule central_okD(2) [OF ok c])
  then have n: "0 \<le> cf_used_slots ?l" "cf_used_slots ?l \<le> cf_cache_size ?l" "cf_cache_size ?l \<le> cf_max_cache_size ?l" by (simp_all add: sizes_fine_def)
  consider "cf_cache_size ?l = 0 \<or> \<not> force \<and> cf_used_slots ?l = cf_cache_size ?l" | "cf_cache_size ?l \<noteq> 0" "force" "cf_used_slots ?l = cf_cache_size ?l"
    | "cf_cache_size ?l \<noteq> 0" "cf_used_slots ?l \<noteq> cf_cache_size ?l" by blast
  then show ?thesis
  proof cases
    case 1 then show ?thesis using passed_refl [OF ok] by (auto simp: ShrinkCache_def Let_def)
  next
    case 2
    let ?i = "cf_used_slots ?l - 1"
    let ?t1 = "upd_central c (?l\<lparr>cf_cache_size := ?i, cf_used_slots := ?i\<rparr>) t"
    obtain ys where ys: "central_ok env own (Y \<union> set ys) ?t1" "set ys \<inter> Y = {}" "chain_ok t c (cf_tc_slots ?l ?i) ys"
      using pop_slot [OF ok c, of ?i ?i] 2 n by auto
    have "sll (tm_mem ?t1) (fst (cf_tc_slots ?l ?i)) ys" "\<forall>y\<in>set ys. class_of ?t1 y c" using ys(3) by (simp_all add: chain_ok_def)
    from release_central [OF ys(1) this(1) _ this(2)] obtain t' where
      t': "ReleaseListToSpans env c (fst (cf_tc_slots ?l ?i)) ?t1 = Inr t'" "passed env own (Y \<union> set ys) (Y \<union> set ys - set ys) ?t1 t'" by (auto simp: sure_def)
    have e: "Y \<union> set ys - set ys = Y" "(Y \<union> set ys) \<inter> Y = Y" using ys(2) by blast+
    have "kept_objects Y t ?t1" by simp
    then have "passed env own Y Y t t'" using t'(2) kept_trans(1) unfolding passed_def e Int_absorb by blast
    moreover have "ShrinkCache env c force t = Inr (True, t')" using 2 n t'(1) by (simp add: ShrinkCache_def Let_def)
    ultimately show ?thesis by simp
  next
    case 3
    let ?t1 = "upd_central c (?l\<lparr>cf_cache_size := cf_cache_size ?l - 1\<rparr>) t"
    have "central_ok env own Y ?t1" by (rule central_resize [OF ok]) (use n 3 in simp_all)
    moreover have "ShrinkCache env c force t = Inr (True, ?t1)" using 3 n by (simp add: ShrinkCache_def Let_def)
    ultimately show ?thesis by (simp add: passed_def)
  qed
qed

lemma wrap_class_mod: "0 < n \<Longrightarrow> 0 \<le> t \<Longrightarrow> wrap_class n t = Inr (t mod n)"
proof (induction n t rule: wrap_class.induct)
  case (1 n t)
  then show ?case by (subst wrap_class.simps) (auto simp: mod_pos_pos_trivial)
qed

lemma EvictRandomSizeClass_ok:
  assumes ok: "central_ok env own Y t"
  shows "sure (EvictRandomSizeClass env locked force t) (\<lambda>(r, t'). passed env own Y Y t t')"
proof -
  let ?n = "int (num_size_classes (tm_sizemap t))" and ?r = "tm_race t"
  note D = central_okD [OF ok]
  have n: "0 < ?n" "?n \<le> 96" using D(1) by (simp_all add: classes_ok_def kClassSizesMax_def)
  have r: "\<not> ?r \<ge> int_max" using D(5) n by (simp add: int_max_def)
  obtain i where i: "(if ?r \<ge> ?n then bindR (wrap_class ?n ?r) (\<lambda>i. Inr (i, t\<lparr>tm_race := ?r + 1\<rparr>\<lparr>tm_race := i\<rparr>)) else Inr (?r, t\<lparr>tm_race := ?r + 1\<rparr>)) =
      Inr (fst i, t\<lparr>tm_race := snd i\<rparr>)" "0 \<le> fst i" "fst i < ?n" "0 \<le> snd i" "snd i \<le> ?n"
  proof (cases "?r \<ge> ?n")
    case True
    show thesis by (rule that [of "(?r mod ?n, ?r mod ?n)"]) (use True n D(4) wrap_class_mod [of ?n ?r] in \<open>simp_all add: less_imp_le\<close>)
  next
    case False
    show thesis by (rule that [of "(?r, ?r + 1)"]) (use False D(4) in simp_all)
  qed
  let ?t2 = "t\<lparr>tm_race := snd i\<rparr>"
  have ok2: "central_ok env own Y ?t2" by (rule central_race [OF ok i(4,5)])
  have p: "passed env own Y Y t ?t2" using ok2 by (simp add: passed_def)
  have "EvictRandomSizeClass env locked force t = (if nat (fst i) = locked then Inr (False, ?t2) else ShrinkCache env (nat (fst i)) force ?t2)"
    using r i(1-3) by (simp add: EvictRandomSizeClass_def Let_def)
  moreover have "sure (ShrinkCache env (nat (fst i)) force ?t2) (\<lambda>(r, t'). passed env own Y Y t t')"
    by (rule sure_mono [OF ShrinkCache_ok [OF ok2]]) (use i(2,3) passed_trans [OF p] in \<open>auto simp: nat_less_iff\<close>)
  ultimately show ?thesis using p by simp
qed

lemma MakeCacheSpace_ok:
  assumes ok: "central_ok env own Y t" and c: "c < num_size_classes (tm_sizemap t)"
  shows "sure (MakeCacheSpace env c t) (\<lambda>(r, t'). passed env own Y Y t t' \<and>
    (r \<longrightarrow> cf_used_slots (tm_central t' c) < cf_cache_size (tm_central t' c)))"
proof -
  let ?l = "tm_central t c"
  consider "cf_used_slots ?l < cf_cache_size ?l" | "\<not> cf_used_slots ?l < cf_cache_size ?l" "cf_cache_size ?l = cf_max_cache_size ?l"
    | "\<not> cf_used_slots ?l < cf_cache_size ?l" "cf_cache_size ?l \<noteq> cf_max_cache_size ?l" by blast
  then show ?thesis
  proof cases
    case 3
    let ?k = "\<lambda>(ok, t2). let c2 = tm_central t2 c in if ok \<and> cf_cache_size c2 < cf_max_cache_size c2
                 then Inr (True, upd_central c (c2\<lparr>cf_cache_size := cf_cache_size c2 + 1\<rparr>) t2) else Inr (False, t2)"
    have "sure (bindR (EvictRandomSizeClass env (cf_size_class ?l) False t) (\<lambda>(ok, t1).
                if ok then Inr (True, t1) else EvictRandomSizeClass env (cf_size_class ?l) True t1)) (\<lambda>(r, t'). passed env own Y Y t t')"
    proof (rule sure_bind [OF EvictRandomSizeClass_ok [OF ok]], clarify)
      fix r t1 assume p: "passed env own Y Y t t1"
      then have "central_ok env own Y t1" by (simp add: passed_def)
      from EvictRandomSizeClass_ok [OF this, of "cf_size_class ?l" True]
      have "sure (EvictRandomSizeClass env (cf_size_class ?l) True t1) (\<lambda>(r, t'). passed env own Y Y t t')"
        by (rule sure_mono) (auto intro: passed_trans [OF p])
      then show "sure (if r then Inr (True, t1) else EvictRandomSizeClass env (cf_size_class ?l) True t1) (\<lambda>(r, t'). passed env own Y Y t t')"
        using p by simp
    qed
    then have "sure (bindR (bindR (EvictRandomSizeClass env (cf_size_class ?l) False t) (\<lambda>(ok, t1).
        if ok then Inr (True, t1) else EvictRandomSizeClass env (cf_size_class ?l) True t1)) ?k)
      (\<lambda>(r, t'). passed env own Y Y t t' \<and> (r \<longrightarrow> cf_used_slots (tm_central t' c) < cf_cache_size (tm_central t' c)))"
    proof (rule sure_bind, clarify)
      fix r t2 assume p: "passed env own Y Y t t2"
      let ?l2 = "tm_central t2 c"
      have ok2: "central_ok env own Y t2" "tm_sizemap t2 = tm_sizemap t" using p by (simp_all add: passed_def kept_objects_def)
      have sf: "sizes_fine ?l2" using central_okD(2) [OF ok2(1), of c] c ok2(2) by simp
      show "sure (let c2 = ?l2 in if r \<and> cf_cache_size c2 < cf_max_cache_size c2
                 then Inr (True, upd_central c (c2\<lparr>cf_cache_size := cf_cache_size c2 + 1\<rparr>) t2) else Inr (False, t2)) (\<lambda>(r, t'). passed env own Y Y t t' \<and> (r \<longrightarrow> cf_used_slots (tm_central t' c) < cf_cache_size (tm_central t' c)))"
      proof (cases "r \<and> cf_cache_size ?l2 < cf_max_cache_size ?l2")
        case True
        let ?t3 = "upd_central c (?l2\<lparr>cf_cache_size := cf_cache_size ?l2 + 1\<rparr>) t2"
        have "central_ok env own Y ?t3" by (rule central_resize [OF ok2(1)]) (use sf True in \<open>simp_all add: sizes_fine_def\<close>)
        then have "passed env own Y Y t ?t3" by (intro passed_trans [OF p]) (simp add: passed_def)
        then show ?thesis using True sf by (simp add: Let_def sizes_fine_def)
      qed (use p in \<open>auto simp: Let_def\<close>)
    qed
    then show ?thesis using 3 by (simp add: MakeCacheSpace_def Let_def)
  qed (use passed_refl [OF ok] in \<open>simp_all add: MakeCacheSpace_def Let_def\<close>)
qed

lemma slots_ok_for: "slots_ok T Y t \<Longrightarrow> Z \<inter> chained T (used_slots t) = {} \<Longrightarrow> slots_ok T Z t"
  by (simp add: slots_ok_def)

lemma InsertRange_ok:
  assumes ok: "central_ok env own Y t" and c: "c < num_size_classes (tm_sizemap t)" "c \<noteq> 0"
    and ys: "sll (tm_mem t) start ys" "ys \<noteq> [] \<Longrightarrow> e = last ys" "N = int (length ys)" "set ys \<subseteq> Y" "\<forall>y\<in>set ys. class_of t y c"
  shows "sure (InsertRange env c start e N t) (passed env own Y (Y - set ys) t)"
proof -
  have sc: "cf_size_class (tm_central t c) = c" by (rule central_okD(3) [OF ok c(1)])
  have pos: "0 < objects_to_move t c" using classes_okD [OF central_okD(1) [OF ok] c(2,1)] by (simp add: class_fits_def)
  let ?k = "\<lambda>(space, t1). if space then
         let l = tm_central t1 c; slot = cf_used_slots l in check (slot \<ge> 0) (check (slot < cf_max_cache_size l)
           (if slot \<ge> kMaxNumTransferEntries then Inl OutOfBounds
            else Inr (upd_central c (l\<lparr>cf_used_slots := slot + 1, cf_tc_slots := (cf_tc_slots l)(slot := (start, e))\<rparr>) t1)))
       else ReleaseListToSpans env c start t1"
  have run: "InsertRange env c start e N t = bindR (if N = objects_to_move t c then MakeCacheSpace env c t else Inr (False, t)) ?k"
    by (simp add: InsertRange_def sc)
  have first: "sure (if N = objects_to_move t c then MakeCacheSpace env c t else Inr (False, t)) (\<lambda>(r, t'). passed env own Y Y t t' \<and>
    (r \<longrightarrow> N = objects_to_move t c \<and> cf_used_slots (tm_central t' c) < cf_cache_size (tm_central t' c)))"
    using MakeCacheSpace_ok [OF ok c(1)] passed_refl [OF ok] by (auto elim!: sure_mono)
  show ?thesis
    unfolding run
  proof (rule sure_bind [OF first], clarify)
    fix r t1 assume p: "passed env own Y Y t t1" and r: "r \<longrightarrow> N = objects_to_move t c \<and> cf_used_slots (tm_central t1 c) < cf_cache_size (tm_central t1 c)"
    then have ok1: "central_ok env own Y t1" and k1: "kept_objects Y t t1" by (simp_all add: passed_def)
    then have m1: "tm_sizemap t1 = tm_sizemap t" by (simp add: kept_objects_def)
    have ys1: "sll (tm_mem t1) start ys" "\<forall>y\<in>set ys. class_of t1 y c"
      using ys kept_sll [OF k1 ys(4)] k1 by (auto simp: kept_objects_def)
    show "sure (if r then
         let l = tm_central t1 c; slot = cf_used_slots l in check (slot \<ge> 0) (check (slot < cf_max_cache_size l)
           (if slot \<ge> kMaxNumTransferEntries then Inl OutOfBounds
            else Inr (upd_central c (l\<lparr>cf_used_slots := slot + 1, cf_tc_slots := (cf_tc_slots l)(slot := (start, e))\<rparr>) t1)))
       else ReleaseListToSpans env c start t1) (passed env own Y (Y - set ys) t)"
    proof (cases r)
      case True
      let ?l = "tm_central t1 c"
      have sf: "sizes_fine ?l" using central_okD(2) [OF ok1, of c] c(1) m1 by simp
      have ne: "ys \<noteq> []" using r True pos ys(3) by auto
      have "chain_ok t1 c (start, e) ys" using ys1 ys(2,3) ne r True m1 by (simp add: chain_ok_def)
      from push_slot [OF ok1 _ refl _ this ys(4)] r True c(1) m1
      have "central_ok env own (Y - set ys) (upd_central c (?l\<lparr>cf_used_slots := cf_used_slots ?l + 1, cf_tc_slots := (cf_tc_slots ?l)(cf_used_slots ?l := (start, e))\<rparr>) t1)"
        by simp
      moreover have "kept_objects (Y \<inter> (Y - set ys)) t t1" using kept_mono(1) [OF k1] by blast
      ultimately show ?thesis
        using True r sf kept_trans(1) [OF _ kept_central(1)] by (simp add: Let_def sizes_fine_def passed_def)
    next
      case False
      have e: "Y \<inter> (Y - set ys) = Y - set ys" by blast
      have "kept_objects (Y - set ys) t t1" using kept_mono(1) [OF k1] by blast
      then show ?thesis using release_central [OF ok1 ys1(1) ys(4) ys1(2)] False kept_trans(1)
        unfolding passed_def e by (auto elim!: sure_mono)
    qed
  qed
qed

text \<open>What \<open>RemoveRange\<close> gives: a linked list of at most \<open>N\<close> objects of the class that nobody held.\<close>

definition range_taken :: "'k tc_env \<Rightarrow> ('k \<Rightarrow> addr set) \<Rightarrow> addr set \<Rightarrow> nat \<Rightarrow> int \<Rightarrow> 'k tcm \<Rightarrow> addr list \<Rightarrow> int \<times> addr \<times> addr \<times> 'k tcm \<Rightarrow> bool" where
  "range_taken env own Y c N t ys r \<longleftrightarrow> (case r of (n, start, e, t') \<Rightarrow> n = int (length ys) \<and> n \<le> N \<and> sll (tm_mem t') start ys \<and>
     (ys \<noteq> [] \<longrightarrow> e = last ys) \<and> set ys \<inter> Y = {} \<and> (\<forall>y\<in>set ys. class_of t' y c) \<and> passed env own Y (Y \<union> set ys) t t' \<and>
     (ys = [] \<longrightarrow> e = NULL \<and> (\<forall>a. \<not> fits (class_to_pages (tm_sizemap t) ! c) (ph_spans (tm_heap t)) a)))"

lemma taken_central:
  assumes s: "slots_ok T Y t" and k: "taken env own (Y \<union> chained T (used_slots t)) c ys t t'"
  shows "set ys \<inter> Y = {}" "\<forall>y\<in>set ys. class_of t' y c" "passed env own Y (Y \<union> set ys) t t'"
proof -
  let ?I = "chained T (used_slots t)"
  obtain F where ok: "spans_ok env own F (Y \<union> ?I \<union> set ys) t'" using k by (auto simp: taken_def)
  have kr: "kept_rest (Y \<union> ?I) t t'" and d: "set ys \<inter> (Y \<union> ?I) = {}" and cl: "\<forall>y\<in>set ys. class_of t' y c" using k by (simp_all add: taken_def)
  have yd: "Y \<inter> ?I = {}" using s by (simp add: slots_ok_def)
  have u: "used_slots t' = used_slots t" by (rule slots_ok_kept(2) [OF s kr yd])
  have s': "slots_ok T Y t'" by (rule slots_ok_kept(1) [OF s kr yd])
  have "slots_ok T (Y \<union> set ys) t'" by (rule slots_ok_for [OF s']) (use d yd in \<open>auto simp: u\<close>)
  moreover have "Y \<union> ?I \<union> set ys = (Y \<union> set ys) \<union> chained T (used_slots t')" by (auto simp: u)
  ultimately have "central_ok env own (Y \<union> set ys) t'" using ok unfolding central_ok_def by auto
  moreover have "Y \<inter> (Y \<union> set ys) = Y" by blast
  ultimately show "passed env own Y (Y \<union> set ys) t t'" using kr by (auto simp: passed_def kept_rest_def intro: kept_mono(1))
  show "set ys \<inter> Y = {}" "\<forall>y\<in>set ys. class_of t' y c" using d cl by blast+
qed

lemma RemoveRange_ok:
  assumes ok: "central_ok env own Y t" and c: "c < num_size_classes (tm_sizemap t)" "c \<noteq> 0" "0 < N"
  shows "unless_oom (RemoveRange env c N t) (\<lambda>r. \<exists>ys. range_taken env own Y c N t ys r)"
proof -
  let ?l = "tm_central t c"
  have sc: "cf_size_class ?l = c" by (rule central_okD(3) [OF ok c(1)])
  have sf: "sizes_fine ?l" by (rule central_okD(2) [OF ok c(1)])
  show ?thesis
  proof (cases "N = objects_to_move t c \<and> cf_used_slots ?l > 0")
    case True
    let ?i = "cf_used_slots ?l - 1"
    let ?t1 = "upd_central c (?l\<lparr>cf_used_slots := ?i\<rparr>) t"
    have "?l\<lparr>cf_cache_size := cf_cache_size ?l, cf_used_slots := ?i\<rparr> = ?l\<lparr>cf_used_slots := ?i\<rparr>" by simp
    then obtain ys where ys: "central_ok env own (Y \<union> set ys) ?t1" "set ys \<inter> Y = {}" "chain_ok t c (cf_tc_slots ?l ?i) ys"
      using pop_slot [OF ok c(1), of ?i "cf_cache_size ?l"] True sf by (auto simp: sizes_fine_def)
    obtain p q where pq: "cf_tc_slots ?l ?i = (p, q)" by fastforce
    have run: "RemoveRange env c N t = Inr (N, p, q, ?t1)" using True c(3) pq by (simp add: RemoveRange_def sc Let_def)
    have "range_taken env own Y c N t ys (N, p, q, ?t1)"
      using ys True pq by (simp add: range_taken_def chain_ok_def passed_def)
    then show ?thesis unfolding run by auto
  next
    case False
    obtain T F where sp: "spans_ok env own F (Y \<union> chained T (used_slots t)) t" and s: "slots_ok T Y t" using ok by (auto simp: central_ok_def)
    let ?X = "Y \<union> chained T (used_slots t)"
    have run: "RemoveRange env c N t = bindR (FetchFromOneSpansSafe env c N t) (\<lambda>(result, start, end_ptr, t1).
             if result \<noteq> 0 then remove_loop c N result start end_ptr t1 else Inr (result, start, end_ptr, t1))"
      using False c(3) by (auto simp: RemoveRange_def sc Let_def)
    show ?thesis
      unfolding run
    proof (rule oom_bind [OF FetchFromOneSpansSafe_ok [OF sp c]], clarify)
      fix start e t1 ys
      assume ys: "int (length ys) \<le> N" "sll (tm_mem t1) start ys" "ys \<noteq> [] \<longrightarrow> e = last ys" "taken env own ?X c ys t t1"
        "ys = [] \<longrightarrow> e = NULL \<and> (\<forall>a. \<not> fits (class_to_pages (tm_sizemap t) ! c) (ph_spans (tm_heap t)) a)"
      show "unless_oom (if int (length ys) \<noteq> 0 then remove_loop c N (int (length ys)) start e t1 else Inr (int (length ys), start, e, t1))
        (\<lambda>r. \<exists>ys. range_taken env own Y c N t ys r)"
      proof (cases "ys = []")
        case True
        then have "range_taken env own Y c N t ys (int (length ys), start, e, t1)"
          using ys taken_central [OF s ys(4)] by (simp add: range_taken_def)
        then show ?thesis using True by auto
      next
        case False
        have "tm_sizemap t1 = tm_sizemap t" using ys(4) by (simp add: taken_def kept_rest_def kept_objects_def)
        then have "sure (remove_loop c N (int (length ys)) start (last ys) t1) (\<lambda>(n, start, e, t'). \<exists>zs. zs \<noteq> [] \<and> n = int (length zs) \<and> n \<le> N \<and>
            sll (tm_mem t') start zs \<and> e = last zs \<and> taken env own ?X c zs t t')"
          using remove_loop_ok [OF ys(4,2) False ys(1)] c(1) by simp
        then have "sure (remove_loop c N (int (length ys)) start (last ys) t1) (\<lambda>r. \<exists>ys. range_taken env own Y c N t ys r)"
          by (rule sure_mono) (fastforce simp: range_taken_def dest: taken_central [OF s])
        then show ?thesis using False ys(3) by (simp add: oom_sure)
      qed
    qed
  qed
qed

end
