(* ===== verification/World_Frame.thy ===== *)
theory World_Frame
  imports Page_Heap_Props
begin

text \<open>
  Several allocators share the chunks of metadata and the system: the page heap, the allocators of thread
  caches and of stack traces. Whatever one of them does, the memory that the others were given stays theirs:
  \<open>wframe\<close> says so of two states of the world, and the lemmas that every operation of the page heap that ends
  is such a step.
\<close>

section \<open>Steps of the world\<close>

definition wframe :: "'k tc_env \<Rightarrow> ('k \<Rightarrow> addr set) \<Rightarrow> 'k world \<Rightarrow> 'k world \<Rightarrow> bool" where
  "wframe env own w w' \<longleftrightarrow> (\<forall>X. meta_ok env own X w \<longrightarrow> meta_ok env own X w')"

lemma wframe_refl [simp]: "wframe env own w w"
  by (simp add: wframe_def)

lemma wframe_trans: "wframe env own w w1 \<Longrightarrow> wframe env own w1 w2 \<Longrightarrow> wframe env own w w2"
  by (simp add: wframe_def)

lemma wframe_pha: "pha_inv sz env own Z U al h w \<Longrightarrow> wframe env own w w' \<Longrightarrow> pha_inv sz env own Z U al h w'"
  unfolding pha_inv_def wframe_def by blast

text \<open>A result, if there is one, satisfies \<open>P\<close>.\<close>

definition when_ok :: "'a result \<Rightarrow> ('a \<Rightarrow> bool) \<Rightarrow> bool" where
  "when_ok m P \<longleftrightarrow> (\<forall>x. m = Inr x \<longrightarrow> P x)"

lemma when_ok_simps [simp]: "when_ok (Inr x) P = P x" "when_ok (Inl e) P"
  by (simp_all add: when_ok_def)

lemma when_ok_bind: "when_ok m P \<Longrightarrow> (\<And>x. P x \<Longrightarrow> when_ok (f x) Q) \<Longrightarrow> when_ok (bindR m f) Q"
  by (cases m) (simp_all add: when_ok_def)

lemma when_ok_any: "(\<And>x. when_ok (f x) Q) \<Longrightarrow> when_ok (bindR m f) Q"
  by (cases m) simp_all

lemma when_ok_check: "(c \<Longrightarrow> when_ok m P) \<Longrightarrow> when_ok (check c m) P"
  by (cases c) simp_all

lemma when_ok_if: "(c \<Longrightarrow> when_ok m P) \<Longrightarrow> (\<not> c \<Longrightarrow> when_ok n P) \<Longrightarrow> when_ok (if c then m else n) P"
  by simp

lemma when_ok_mono: "when_ok m P \<Longrightarrow> (\<And>x. P x \<Longrightarrow> Q x) \<Longrightarrow> when_ok m Q"
  by (simp add: when_ok_def)

lemma when_ok_sure: "sure m P \<Longrightarrow> when_ok m Q \<Longrightarrow> sure m (\<lambda>x. P x \<and> Q x)"
  by (auto simp: sure_def)

lemma when_ok_oom: "unless_oom m P \<Longrightarrow> when_ok m Q \<Longrightarrow> unless_oom m (\<lambda>x. P x \<and> Q x)"
  by (auto simp: unless_oom_def sure_def)

text \<open>Steps that only look something up.\<close>

lemmas when_ok_look = when_ok_any [where m = "the_span h sp" for h sp] when_ok_any [where m = "GetDescriptor h p" for h p]
  when_ok_any [where m = "leftover_apart sp h" for h sp]

section \<open>Metadata\<close>

lemma wframe_meta:
  assumes "mem_os env own" "0 < b" "b < 2 ^ 47" "wframe env own w0 w"
  shows "when_ok (MetaDataAlloc env b w) (\<lambda>(p, w'). wframe env own w0 w')"
proof -
  have "meta_ok env own X w'" if x: "meta_ok env own X w" "MetaDataAlloc env b w = Inr (p, w')" for X p w'
  proof -
    have "if p = NULL then meta_ok env own X w' else meta_ok env own (X \<union> block p b) w'"
      using MetaDataAlloc_ok [OF assms(1) x(1) assms(2,3)] x(2) by (simp split: if_splits)
    then show ?thesis using meta_ok_subset [of env own "X \<union> block p b" w' X] by (simp split: if_splits)
  qed
  then have "wframe env own w w'" if "MetaDataAlloc env b w = Inr (p, w')" for p w' using that unfolding wframe_def by blast
  then show ?thesis unfolding when_ok_def using wframe_trans [OF assms(4)] by blast
qed

lemma wframe_pha_new:
  assumes "mem_os env own" "wframe env own w0 w"
  shows "when_ok (pha_new sz env al h w) (\<lambda>(p, al', h', w'). wframe env own w0 w')"
proof -
  have "when_ok (if pha_free_avail al < sz then
      bindR (MetaDataAlloc env kAllocIncrement w) (\<lambda>(area, w1).
        if area = NULL then Inl OutOfMemory
        else Inr (al\<lparr>pha_free_area := area, pha_free_avail := kAllocIncrement\<rparr>, map_zero area kAllocIncrement h, w1))
      else Inr (al, h, w)) (\<lambda>(al1, h1, w1). wframe env own w0 w1)"
    by (intro when_ok_if when_ok_bind [OF wframe_meta [OF assms(1) _ _ assms(2)]]) (use assms(2) in \<open>auto simp: kAllocIncrement_def\<close>)
  note area = when_ok_bind [OF this]
  show ?thesis unfolding pha_new_def
    by (rule when_ok_if, rule when_ok_any, use assms(2) in force) (rule area, clarsimp)
qed

lemma wframe_pha_init:
  assumes "mem_os env own" "wframe env own w0 w"
  shows "when_ok (pha_init sz env h w) (\<lambda>(al', h', w'). wframe env own w0 w')"
  unfolding pha_init_def
  by (intro when_ok_check when_ok_bind [OF wframe_pha_new [OF assms]]) (auto simp: when_ok_def bindR_eq_Inr)

section \<open>The page heap\<close>

abbreviation hframe :: "'k tc_env \<Rightarrow> ('k \<Rightarrow> addr set) \<Rightarrow> 'k world \<Rightarrow> 'k page_heap \<Rightarrow> bool" where
  "hframe env own w h \<equiv> wframe env own w (ph_world h)"

text \<open>Most steps leave the world alone.\<close>

lemma set_world [simp]: "ph_world (set_small loc i xs h) = ph_world h" "ph_world (set_large loc ys h) = ph_world h"
  by (simp_all add: set_small_def set_large_def)

lemma same_world:
  "when_ok (upd_span sp f h) (\<lambda>h'. ph_world h' = ph_world h)"
  "when_ok (pagemap_set p sp h) (\<lambda>h'. ph_world h' = ph_world h)"
  "when_ok (delete_span sp h) (\<lambda>h'. ph_world h' = ph_world h)"
  by (auto simp: when_ok_def upd_span_def pagemap_set_def delete_span_def bindR_eq_Inr)

lemma hframe_eq:
  "hframe env own w h \<Longrightarrow> when_ok (upd_span sp f h) (hframe env own w)"
  "hframe env own w h \<Longrightarrow> when_ok (pagemap_set p sp h) (hframe env own w)"
  "hframe env own w h \<Longrightarrow> when_ok (delete_span sp h) (hframe env own w)"
  using same_world by (fastforce elim!: when_ok_mono)+

lemma hframe_RecordSpan: "hframe env own w h \<Longrightarrow> when_ok (RecordSpan sp h) (hframe env own w)"
  unfolding RecordSpan_def by (rule when_ok_look, rule when_ok_bind [OF hframe_eq(2)], assumption) (auto intro: hframe_eq(2))

lemma hframe_lists:
  "hframe env own w h \<Longrightarrow> when_ok (PrependToFreeList sp h) (hframe env own w)"
  "hframe env own w h \<Longrightarrow> when_ok (RemoveFromFreeList sp h) (hframe env own w)"
  unfolding PrependToFreeList_def RemoveFromFreeList_def Let_def
  by (auto intro!: when_ok_look when_ok_check when_ok_if hframe_eq split: prod.splits)

lemma hframe_new_span:
  assumes "mem_os env own" "hframe env own w h"
  shows "when_ok (new_span env p len h) (\<lambda>(sp, h'). hframe env own w h')"
proof -
  have "when_ok (NewSpan env p len (ph_span_allocator h) (ph_words h) (ph_world h) (ph_spans h)) (\<lambda>(sp, al, words, w', st). wframe env own w w')"
    unfolding NewSpan_def by (rule when_ok_bind [OF wframe_pha_new [OF assms]]) auto
  then show ?thesis unfolding new_span_def by (rule when_ok_bind) auto
qed

lemma hframe_CommitSpan:
  assumes "hframe env own w h" shows "when_ok (CommitSpan sp h) (hframe env own w)"
  unfolding CommitSpan_def Let_def using assms by (auto intro!: when_ok_look simp: TCMalloc_SystemCommit_def)

lemma hframe_DecommitSpan:
  assumes "mem_os env own" "hframe env own w h" shows "when_ok (DecommitSpan env sp h) (\<lambda>(rv, h'). hframe env own w h')"
proof -
  have "own k \<subseteq> own k' \<and> (sys_ok env ss \<longrightarrow> sys_ok env ss')" if r: "TCMalloc_SystemRelease env a n ss k = Inr (rv, ss', k')" for a n ss k rv ss' k'
  proof -
    have "k' = k \<or> (\<exists>x y ret. madvise_loop env x y k = Some (ret, k'))" "ss' = ss \<or> ss' = ss\<lparr>ss_pagesize := os_getpagesize env\<rparr>"
      using r unfolding TCMalloc_SystemRelease_def Let_def check_def by (auto split: if_splits option.splits)
    then show ?thesis using madvise_loop_owns [OF assms(1), of _ _ k _ k'] sys_ok_page [of env ss] by (metis subset_refl)
  qed
  then have "wframe env own w1 (w1\<lparr>w_sys := ss', w_os := k'\<rparr>)"
    if "TCMalloc_SystemRelease env a n (w_sys w1) (w_os w1) = Inr (rv, ss', k')" for a n rv ss' k' w1
    using that meta_ok_grow [of env own _ w1 "w1\<lparr>w_sys := ss', w_os := k'\<rparr>"] unfolding wframe_def by (force simp: meta_ok_def)
  then show ?thesis
    unfolding DecommitSpan_def Let_def using wframe_trans [OF assms(2)]
    by (intro when_ok_look) (auto simp: when_ok_def bindR_eq_Inr)
qed

text \<open>One step after the other; branches are given by \<open>hframe_branch\<close>.\<close>

lemma hframe_branch:
  "(c \<Longrightarrow> when_ok m (hframe env own w)) \<Longrightarrow> (\<not> c \<Longrightarrow> when_ok n (hframe env own w)) \<Longrightarrow> (\<And>h. hframe env own w h \<Longrightarrow> when_ok (f h) Q) \<Longrightarrow>
   when_ok (bindR (if c then m else n) f) Q"
  by (rule when_ok_bind [where P = "hframe env own w"]) auto

lemmas hframe_steps = when_ok_check when_ok_bind [OF hframe_eq(1)] when_ok_bind [OF hframe_eq(2)] when_ok_bind [OF hframe_eq(3)]
  when_ok_bind [OF hframe_RecordSpan] when_ok_bind [OF hframe_lists(1)] when_ok_bind [OF hframe_lists(2)] when_ok_bind [OF hframe_CommitSpan]

lemma hframe_Carve:
  assumes "mem_os env own" "hframe env own w h" shows "when_ok (Carve env sp n h) (\<lambda>(r, h'). hframe env own w h')"
proof -
  note new = when_ok_bind [OF hframe_new_span [OF assms(1)]]
  show ?thesis unfolding Carve_def Let_def
    apply (insert assms(2))
    apply ((rule when_ok_check when_ok_look hframe_steps | assumption)+)[1]
    apply (rule hframe_branch [where env = env and own = own and w = w])
      apply ((rule new hframe_steps hframe_eq when_ok_look | assumption | clarify)+)[1]
     apply simp
    apply (rule hframe_branch [where env = env and own = own and w = w])
      apply (erule hframe_CommitSpan)
     apply simp
    apply (intro when_ok_look when_ok_check, simp)
    done
qed

lemma hframe_Split:
  assumes "mem_os env own" "hframe env own w h" shows "when_ok (Split env sp n h) (\<lambda>(r, h'). hframe env own w h')"
proof -
  note new = when_ok_bind [OF hframe_new_span [OF assms(1)]]
  show ?thesis unfolding Split_def Let_def
    apply (insert assms(2))
    apply ((rule new when_ok_check when_ok_look hframe_steps | assumption | clarify)+)[1]
    apply simp
    done
qed

lemma hframe_PreMerge:
  assumes "mem_os env own" "hframe env own w h" shows "when_ok (CheckAndHandlePreMerge env sp other h) (\<lambda>(r, h'). hframe env own w h')"
proof -
  note dec = when_ok_bind [OF hframe_DecommitSpan [OF assms(1)]]
  show ?thesis unfolding CheckAndHandlePreMerge_def
    apply (insert assms(2))
    apply ((rule dec when_ok_if when_ok_look hframe_steps | assumption | clarify | simp)+)
    done
qed

lemma hframe_merge:
  assumes "mem_os env own" "hframe env own w h"
  shows "when_ok (merge_prev env sp p h) (hframe env own w)" "when_ok (merge_next env sp p h) (hframe env own w)"
proof -
  note pre = when_ok_bind [OF hframe_PreMerge [OF assms(1)]]
  show "when_ok (merge_prev env sp p h) (hframe env own w)"
    unfolding merge_prev_def
    apply (insert assms(2))
    apply (rule when_ok_look, rule pre, assumption, clarify, rule when_ok_if, simp)
    apply ((rule when_ok_look hframe_steps hframe_eq | assumption)+)[1]
    done
  show "when_ok (merge_next env sp p h) (hframe env own w)"
    unfolding merge_next_def
    apply (insert assms(2))
    apply (rule when_ok_look, rule pre, assumption, clarify, rule when_ok_if, simp)
    apply ((rule when_ok_look hframe_steps hframe_eq | assumption)+)[1]
    done
qed

lemma hframe_MergeIntoFreeList:
  assumes "mem_os env own" "hframe env own w h" shows "when_ok (MergeIntoFreeList env sp h) (hframe env own w)"
proof -
  note dec = when_ok_bind [OF hframe_DecommitSpan [OF assms(1)]]
    and merge = when_ok_bind [OF hframe_merge(1) [OF assms(1)]] when_ok_bind [OF hframe_merge(2) [OF assms(1)]]
  show ?thesis unfolding MergeIntoFreeList_def
    apply (insert assms(2))
    apply (rule when_ok_look, rule when_ok_check)
    apply (rule hframe_branch [where env = env and own = own and w = w])
      apply (rule dec, assumption, clarify, rule when_ok_if, erule hframe_eq(1), simp)
     apply simp
    apply (rule merge, assumption)+
    apply (erule hframe_lists(1))
    done
qed

lemma hframe_ReleaseSpan:
  assumes "mem_os env own" "hframe env own w h" shows "when_ok (ReleaseSpan env sp h) (\<lambda>(r, h'). hframe env own w h')"
proof -
  note dec = when_ok_bind [OF hframe_DecommitSpan [OF assms(1)]] and merge = when_ok_bind [OF hframe_MergeIntoFreeList [OF assms(1)]]
  show ?thesis unfolding ReleaseSpan_def
    apply (insert assms(2))
    apply (rule when_ok_look, rule when_ok_check, rule dec, assumption, clarify, rule when_ok_if)
     apply (rule hframe_steps, assumption, rule when_ok_look, rule hframe_steps, assumption, rule merge, assumption, simp)
    apply simp
    done
qed

lemma hframe_release_round:
  assumes "mem_os env own"
  shows "hframe env own w h \<Longrightarrow> when_ok (release_round env i n r h) (\<lambda>(b, r', h'). hframe env own w h')"
proof (induction i arbitrary: r h)
  case (Suc i)
  let ?h = "if ph_release_index h > kMaxPages then h\<lparr>ph_release_index := 0\<rparr> else h"
  have h: "hframe env own w ?h" using Suc.prems by simp
  show ?case
  proof (cases "r < n")
    case True
    show ?thesis
    proof (cases "release_candidate ?h")
      case None
      then show ?thesis using True Suc.IH [of "?h\<lparr>ph_release_index := ph_release_index ?h + 1\<rparr>" r] h by (simp add: Let_def)
    next
      case (Some sp)
      have "when_ok (bindR (ReleaseSpan env sp ?h) (\<lambda>(len, h2). if len = 0 then Inr (True, r, h2)
          else release_round env i n (r + len) (h2\<lparr>ph_release_index := ph_release_index h2 + 1\<rparr>))) (\<lambda>(b, r', h'). hframe env own w h')"
        by (rule when_ok_bind [OF hframe_ReleaseSpan [OF assms h]], clarify, rule when_ok_if, simp, rule Suc.IH, simp)
      then show ?thesis using True Some by (simp add: Let_def)
    qed
  qed (use Suc.prems in simp)
qed simp

lemma hframe_release_loop:
  assumes run: "release_loop env n r h = Some res"
  shows "mem_os env own \<longrightarrow> hframe env own w h \<longrightarrow> when_ok res (\<lambda>(r', h'). hframe env own w h')"
proof (rule release_loop.raw_induct [OF _ run,
      where P = "\<lambda>env n r h res. mem_os env own \<longrightarrow> hframe env own w h \<longrightarrow> when_ok res (\<lambda>(r', h'). hframe env own w h')"], intro impI)
  fix f :: "'a tc_env \<Rightarrow> int \<Rightarrow> int \<Rightarrow> 'a page_heap \<Rightarrow> (int \<times> 'a page_heap) result option" and env n r h res
  assume ih: "\<And>env n r h res. f env n r h = Some res \<Longrightarrow> mem_os env own \<longrightarrow> hframe env own w h \<longrightarrow> when_ok res (\<lambda>(r', h'). hframe env own w h')"
    and os: "mem_os env own" "hframe env own w h"
    and step: "(if r < n \<and> 0 < free_bytes (ph_stats_of h) then
        (case release_round env (nat (kMaxPages + 1)) n r h of Inl e \<Rightarrow> Some (Inl e)
         | Inr x \<Rightarrow> if fst x then Some (Inr (fst (snd x), snd (snd x))) else f env n (fst (snd x)) (snd (snd x)))
      else Some (Inr (r, h))) = Some res"
  show "when_ok res (\<lambda>(r', h'). hframe env own w h')"
    using step ih [of env n] os hframe_release_round [OF os, of "nat (kMaxPages + 1)" n r]
    by (auto simp: when_ok_def split: if_splits sum.splits)
qed

lemma hframe_Release:
  assumes "mem_os env own" "hframe env own w h" shows "when_ok (ReleaseAtLeastNPages env n h) (\<lambda>(r, h'). hframe env own w h')"
  using hframe_release_loop [of env n 0 h _ own w] assms by (auto simp: ReleaseAtLeastNPages_def split: option.splits)

lemma hframe_Scavenge:
  assumes "mem_os env own" "hframe env own w h" shows "when_ok (IncrementalScavenge env n h) (hframe env own w)"
  unfolding IncrementalScavenge_def Let_def
  by (intro when_ok_if when_ok_bind [OF hframe_Release [OF assms(1)]]) (use assms(2) in auto)

lemma hframe_Delete:
  assumes "mem_os env own" "hframe env own w h" shows "when_ok (Delete env sp h) (hframe env own w)"
proof -
  note steps = when_ok_bind [OF hframe_MergeIntoFreeList [OF assms(1)]] when_ok_bind [OF hframe_Scavenge [OF assms(1)]]
  show ?thesis unfolding Delete_def
    apply (insert assms(2))
    apply ((rule when_ok_look steps hframe_steps | assumption)+)[1]
    apply simp
    done
qed

lemma hframe_EnsureLimit:
  assumes "mem_os env own" "hframe env own w h" shows "when_ok (EnsureLimit env n b h) (\<lambda>(r, h'). hframe env own w h')"
  unfolding EnsureLimit_def Let_def
  by (intro when_ok_if when_ok_check when_ok_bind [OF hframe_Release [OF assms]]) (use assms(2) in auto)

lemma hframe_alloc_large:
  assumes run: "alloc_large env n h = Some res"
  shows "mem_os env own \<longrightarrow> hframe env own w h \<longrightarrow> when_ok res (\<lambda>(r, h'). hframe env own w h')"
proof (rule alloc_large.raw_induct [OF _ run,
      where P = "\<lambda>env n h res. mem_os env own \<longrightarrow> hframe env own w h \<longrightarrow> when_ok res (\<lambda>(r, h'). hframe env own w h')"], intro impI)
  fix f :: "'a tc_env \<Rightarrow> int \<Rightarrow> 'a page_heap \<Rightarrow> (addr option \<times> 'a page_heap) result option" and env n h res
  assume ih: "\<And>env n h res. f env n h = Some res \<Longrightarrow> mem_os env own \<longrightarrow> hframe env own w h \<longrightarrow> when_ok res (\<lambda>(r, h'). hframe env own w h')"
    and os: "mem_os env own" "hframe env own w h"
    and step: "(case best_spans n h of Inl e \<Rightarrow> Some (Inl e)
      | Inr bs \<Rightarrow> if snd bs = fst bs then
            (case snd bs of None \<Rightarrow> Some (Inr (None, h))
             | Some best \<Rightarrow> Some (bindR (Carve env best n h) (\<lambda>(sp, h1). Inr (Some sp, h1))))
          else (case EnsureLimit env n False h of Inl e \<Rightarrow> Some (Inl e)
             | Inr r1 \<Rightarrow> if fst r1 then
                   Some (case snd bs of None \<Rightarrow> Inl NullDeref
                         | Some best \<Rightarrow> bindR (Carve env best n (snd r1)) (\<lambda>(sp, h2). Inr (Some sp, h2)))
                 else (case EnsureLimit env n True (snd r1) of Inl e \<Rightarrow> Some (Inl e)
                    | Inr r2 \<Rightarrow> if fst r2 then f env n (snd r2) else Some (check (fst bs = None) (Inr (None, snd r2)))))) = Some res"
  have c: "when_ok (bindR (Carve env best n h1) (\<lambda>(sp, h2). Inr (Some sp, h2))) (\<lambda>(r, h'). hframe env own w h')" if "hframe env own w h1" for best h1
    by (rule when_ok_bind [OF hframe_Carve [OF os(1) that]]) auto
  have e1: "hframe env own w (snd r1)" if "EnsureLimit env n b h1 = Inr r1" "hframe env own w h1" for b h1 r1
    using hframe_EnsureLimit [OF os(1) that(2), of n b] that(1) by (auto simp: when_ok_def)
  show "when_ok res (\<lambda>(r, h'). hframe env own w h')"
    using step by (auto split: sum.splits if_splits option.splits simp: os c intro!: c e1 when_ok_check dest!: ih [rule_format, OF _ os(1)])
      (metis e1 os(2) snd_conv)
qed

lemma hframe_AllocLarge:
  assumes "mem_os env own" "hframe env own w h" shows "when_ok (AllocLarge env n h) (\<lambda>(r, h'). hframe env own w h')"
  using hframe_alloc_large [of env n h _ own w] assms by (auto simp: AllocLarge_def split: option.splits)

lemma hframe_carve_some:
  assumes "mem_os env own" "hframe env own w h"
  shows "when_ok (bindR (the_span h sp) (\<lambda>x. check (c x) (bindR (Carve env sp n h) (\<lambda>(r, h1). Inr (Some r, h1))))) (\<lambda>(r, h'). hframe env own w h')"
  by (rule when_ok_look, rule when_ok_check, rule when_ok_bind [OF hframe_Carve [OF assms]]) auto

lemma hframe_search_lists:
  "mem_os env own \<Longrightarrow> hframe env own w h \<Longrightarrow> when_ok (search_lists env n s h) (\<lambda>(r, h'). hframe env own w h')"
proof (induction env n s h rule: search_lists.induct)
  case (1 env n s h)
  show ?case
  proof (cases "s \<le> kMaxPages")
    case s: True
    show ?thesis
    proof (cases "ph_normal h (s - 1)")
      case (Cons sp sps)
      then show ?thesis using s hframe_carve_some [OF "1.prems"] by (subst search_lists.simps) simp
    next
      case Nil
      show ?thesis
      proof (cases "ph_returned h (s - 1) = []")
        case True
        then show ?thesis using s Nil "1.IH" "1.prems" by (subst search_lists.simps) simp
      next
        case False
        have "when_ok (bindR (EnsureLimit env n True h) (\<lambda>(ok, h1).
               if ok then
                 (case ph_returned h1 (s - 1) of
                    sp # _ \<Rightarrow> bindR (the_span h1 sp) (\<lambda>x. check (sp_location x = ON_RETURNED_FREELIST)
                        (bindR (Carve env sp n h1) (\<lambda>(r, h2). Inr (Some r, h2))))
                  | [] \<Rightarrow> search_lists env n (s + 1) h1)
               else search_lists env n (s + 1) h1)) (\<lambda>(r, h'). hframe env own w h')"
        proof (rule when_ok_bind [where P = "\<lambda>x. EnsureLimit env n True h = Inr x \<and> hframe env own w (snd x)"], goal_cases)
          case 1
          show ?case using hframe_EnsureLimit [OF "1.prems"] by (auto simp: when_ok_def)
        qed (use s Nil False "1.IH" "1.prems" hframe_carve_some [OF "1.prems"(1)] in \<open>auto split: list.splits\<close>)
        then show ?thesis using s Nil False by (subst search_lists.simps) simp
      qed
    qed
  qed (use hframe_AllocLarge [OF "1.prems"] in \<open>subst search_lists.simps, simp\<close>)
qed

lemma hframe_Search:
  assumes "mem_os env own" "hframe env own w h" shows "when_ok (SearchFreeAndLargeLists env n h) (\<lambda>(r, h'). hframe env own w h')"
  unfolding SearchFreeAndLargeLists_def by (intro when_ok_check hframe_search_lists assms)

lemma wframe_sys_alloc:
  assumes "mem_os env own" "0 < ask" "ask \<le> kMaxValidPages" "wframe env own w0 w"
  shows "when_ok (sys_alloc_w env (to_size_t (push_bit kPageShift ask)) kPageSize w) (\<lambda>(r, w'). wframe env own w0 w')"
proof -
  have sz: "to_size_t (push_bit kPageShift ask) = ask * 8192"
    using assms(2,3) by (simp add: push_bit_eq_mult kPageShift_def kMaxValidPages_def to_size_t_id)
  have "meta_ok env own X w'" if x: "meta_ok env own X w" and r: "sys_alloc_w env (ask * 8192) (2 ^ 13) w = Inr (res, w')" for X res w'
  proof (cases "ask = kMaxValidPages")
    case True
    then have "w' = w" using r by (simp add: sys_alloc_w_def TCMalloc_SystemAlloc_def kMaxValidPages_def to_size_t_def)
    then show ?thesis using x by simp
  next
    case False
    then have lt: "ask * 8192 + 2 ^ 13 < 2 ^ 64" using assms(3) by (simp add: kMaxValidPages_def)
    have "sys_ok env (w_sys w)" using x by (simp add: meta_ok_def)
    from sys_alloc_w_ok [OF assms(1) this _ lt] assms(2) r
    have w': "sys_ok env (w_sys w')" "w_meta w' = w_meta w"
      "case res of None \<Rightarrow> own (w_os w) \<subseteq> own (w_os w') | Some (p, n) \<Rightarrow> new_block own (w_os w) (w_os w') p n"
      by (auto split: option.splits)
    then have "own (w_os w) \<subseteq> own (w_os w')" by (auto dest: new_block_owns split: option.splits prod.splits)
    then show ?thesis using meta_ok_grow [OF x _ w'(1)] w'(2) by simp
  qed
  then have "wframe env own w w'" if "sys_alloc_w env (ask * 8192) (2 ^ 13) w = Inr (res, w')" for res w'
    using that unfolding wframe_def by blast
  moreover have "kPageSize = 2 ^ 13" by (simp add: kPageSize_def)
  ultimately show ?thesis unfolding when_ok_def sz using wframe_trans [OF assms(4)] by auto
qed

lemma hframe_sys_alloc:
  assumes "mem_os env own" "hframe env own w h" "0 < ask" "ask \<le> kMaxValidPages"
  shows "when_ok (sys_alloc_ph env ask h) (\<lambda>(r, h'). hframe env own w h')"
proof -
  note sys = when_ok_bind [OF wframe_sys_alloc [OF assms(1,3,4)]]
  show ?thesis unfolding sys_alloc_ph_def
    by (rule when_ok_bind [OF hframe_EnsureLimit [OF assms(1,2)]], clarify, rule when_ok_if) (rule sys, assumption, clarsimp, simp)
qed

lemma wframe_ensure:
  assumes "mem_os env own" "wframe env own w0 w"
  shows "when_ok (pm2_ensure map_bits (MetaDataAlloc env) p n m w) (\<lambda>(ok, m', w'). wframe env own w0 w')"
proof -
  have alloc: "\<exists>q v'. MetaDataAlloc env b v = Inr (q, v') \<and> meta_ok env own X v'" if v: "meta_ok env own X v" "0 < b" "b \<le> 2 ^ map_bits * 8" for X b v
  proof -
    have b: "b < 2 ^ 47" using v(3) by (simp add: map_bits_def)
    have "when_ok (MetaDataAlloc env b v) (\<lambda>(q, v'). wframe env own v v')" by (rule wframe_meta [OF assms(1) v(2) b]) simp
    then show ?thesis using MetaDataAlloc_ok [OF assms(1) v(1,2) b] v(1) by (auto simp: when_ok_def wframe_def)
  qed
  have "meta_ok env own X w'" if "meta_ok env own X w" "pm2_ensure map_bits (MetaDataAlloc env) p n m w = Inr (ok, m', w')" for X ok m' w'
    using pm2.ensure_inv [of "meta_ok env own X" map_bits "MetaDataAlloc env" w p n m, OF alloc that(1)] that(2) by auto
  then have "wframe env own w w'" if "pm2_ensure map_bits (MetaDataAlloc env) p n m w = Inr (ok, m', w')" for ok m' w'
    using that unfolding wframe_def by blast
  then show ?thesis unfolding when_ok_def using wframe_trans [OF assms(2)] by blast
qed

lemma hframe_grow_with:
  assumes "mem_os env own" "hframe env own w h"
  shows "when_ok (grow_with env p n h) (\<lambda>(r, h'). hframe env own w h')"
proof -
  note new = when_ok_bind [OF hframe_new_span [OF assms(1)]] and ens = when_ok_bind [OF wframe_ensure [OF assms(1)]]
    and del = when_ok_bind [OF hframe_Delete [OF assms(1)]]
  have pre: "pm2_preallocate map_bits alloc m v = Inr (m, v)" for alloc :: "'a world node_alloc" and m v
    by (simp add: pm2_preallocate_def map_bits_def)
  show ?thesis unfolding grow_with_def Let_def pre bindR_simps prod.case
    apply (insert assms(2))
    apply (rule when_ok_check)
    apply (rule hframe_branch [where env = env and own = own and w = w], simp, simp)
    apply (rule ens, assumption, clarify, rule when_ok_if)
     apply (rule new, simp, clarify)
     apply ((rule del hframe_steps | assumption)+)[1]
     apply simp_all
    done
qed

lemma hframe_GrowHeap:
  assumes "mem_os env own" "hframe env own w h" "0 < n"
  shows "when_ok (GrowHeap env n h) (\<lambda>(r, h'). hframe env own w h')"
proof (cases "n > kMaxValidPages")
  case True
  then show ?thesis using assms(2) by (auto simp: GrowHeap_def intro: when_ok_check)
next
  case False
  let ?ask = "if n > kMinSystemAlloc then n else kMinSystemAlloc"
  have ask: "0 < ?ask" "?ask \<le> kMaxValidPages" "n \<le> kMaxValidPages"
    using assms(3) False by (auto simp: kMinSystemAlloc_def kMaxPages_def kMaxValidPages_def)
  note sys = when_ok_bind [OF hframe_sys_alloc [OF assms(1) _ ask(1,2)]] and sys2 = when_ok_bind [OF hframe_sys_alloc [OF assms(1) _ assms(3) ask(3)]]
  show ?thesis unfolding GrowHeap_def Let_def if_not_P [OF False]
    apply (insert assms(2))
    apply (rule when_ok_check, rule sys, assumption, clarify)
    subgoal for res h1
      by (cases res) (auto intro!: sys2 hframe_grow_with [OF assms(1)] when_ok_if split: option.splits)
    done
qed

lemma hframe_New:
  assumes "mem_os env own" "hframe env own w h"
  shows "when_ok (New env n h) (\<lambda>(r, h'). hframe env own w h')"
proof (cases "0 < n")
  case True
  note search = when_ok_bind [OF hframe_Search [OF assms(1)]] and rel = when_ok_bind [OF hframe_Release [OF assms(1)]]
    and grow = when_ok_bind [OF hframe_GrowHeap [OF assms(1) _ True]]
  have last: "when_ok (bindR (GrowHeap env n h3) (\<lambda>(grown, h4). if \<not> grown then check (stats_balanced h4) (Inr (None, h4))
      else SearchFreeAndLargeLists env n h4)) (\<lambda>(r, h'). hframe env own w h')" if "hframe env own w h3" for h3
    by (rule grow [OF that], clarify, rule when_ok_if, rule when_ok_check, simp, rule hframe_Search [OF assms(1)])
  show ?thesis unfolding New_def Let_def
    apply (rule when_ok_check, rule search [OF assms(2)], clarify)
    subgoal for r h1
      apply (cases r; simp only: option.case)
       apply (rule when_ok_bind [where P = "\<lambda>(r, h'). hframe env own w h'"])
        apply (rule when_ok_if)
         apply (rule rel, assumption, clarify, rule hframe_Search [OF assms(1)], assumption)
        apply simp
       apply clarify
      subgoal for r2 h3 by (cases r2; simp only: option.case; simp add: last)
      apply simp
      done
    done
qed (simp add: New_def)

end
