(* ===== verification/Central_Frame.thy ===== *)
theory Central_Frame
  imports Central_Transfer World_Frame
begin

text \<open>
  The central free lists, too, leave the memory of the other allocators alone: they change the world only
  through the page heap.
\<close>

abbreviation tframe :: "'k tc_env \<Rightarrow> ('k \<Rightarrow> addr set) \<Rightarrow> 'k world \<Rightarrow> 'k tcm \<Rightarrow> bool" where
  "tframe env own w t \<equiv> hframe env own w (tm_heap t)"

lemmas tframe_look = when_ok_look when_ok_any [where m = "MapObjectToSpan t p" for t p]
  when_ok_any [where m = "objects_per_span m s" for m s] when_ok_any [where m = "unlink sp c" for sp c]
  when_ok_any [where m = "SLL_SetNext m p q" for m p q] when_ok_any [where m = "SLL_Next m p" for m p]
  when_ok_any [where m = "fetch_walk m N r p" for m N r p] when_ok_any [where m = "cache_classes ps c pc" for ps c pc]
  when_ok_any [where m = "cut_objects sz l p t f n m" for sz l p t f n m] when_ok_any [where m = "wrap_class n i" for n i]

lemma tframe_ReleaseToSpans:
  assumes "mem_os env own" "tframe env own w t" shows "when_ok (ReleaseToSpans env cl p t) (tframe env own w)"
proof -
  note del = when_ok_bind [OF hframe_Delete [OF assms(1)]]
  show ?thesis unfolding ReleaseToSpans_def Let_def
    apply (insert assms(2))
    apply (rule tframe_look, rule when_ok_check, rule tframe_look, rule when_ok_check)
    apply (rule when_ok_any)
    apply (rule hframe_steps, assumption, rule when_ok_if)
     apply ((rule tframe_look del | assumption)+)[1]
     apply simp
    apply ((rule tframe_look hframe_steps | assumption)+)[1]
    apply simp
    done
qed

lemma tframe_release_list:
  assumes run: "release_list env cl p t = Some res"
  shows "mem_os env own \<longrightarrow> tframe env own w t \<longrightarrow> when_ok res (tframe env own w)"
proof (rule release_list.raw_induct [OF _ run,
      where P = "\<lambda>env cl p t res. mem_os env own \<longrightarrow> tframe env own w t \<longrightarrow> when_ok res (tframe env own w)"], intro impI)
  fix f :: "'a tc_env \<Rightarrow> nat \<Rightarrow> addr \<Rightarrow> 'a tcm \<Rightarrow> 'a tcm result option" and env cl p t res
  assume ih: "\<And>env cl p t res. f env cl p t = Some res \<Longrightarrow> mem_os env own \<longrightarrow> tframe env own w t \<longrightarrow> when_ok res (tframe env own w)"
    and os: "mem_os env own" "tframe env own w t"
    and step: "(if p = NULL then Some (Inr t) else case SLL_Next (tm_mem t) p of Inl e \<Rightarrow> Some (Inl e)
        | Inr nxt \<Rightarrow> (case ReleaseToSpans env cl p t of Inl e \<Rightarrow> Some (Inl e) | Inr t1 \<Rightarrow> f env cl nxt t1)) = Some res"
  have "tframe env own w t1" if "ReleaseToSpans env cl p t = Inr t1" for t1
    using tframe_ReleaseToSpans [OF os, of cl p] that by (simp add: when_ok_def)
  then show "when_ok res (tframe env own w)" using step os ih [of env cl]
    by (cases "ReleaseToSpans env cl p t") (auto simp: when_ok_def split: if_splits sum.splits)
qed

lemma tframe_ReleaseListToSpans:
  assumes "mem_os env own" "tframe env own w t" shows "when_ok (ReleaseListToSpans env cl p t) (tframe env own w)"
  using tframe_release_list [of env cl p t _ own w] assms by (auto simp: ReleaseListToSpans_def split: option.splits)

lemma tframe_ShrinkCache:
  assumes "mem_os env own" "tframe env own w t" shows "when_ok (ShrinkCache env cl force t) (\<lambda>(r, t'). tframe env own w t')"
proof -
  note rel = when_ok_bind [OF tframe_ReleaseListToSpans [OF assms(1)]]
  show ?thesis unfolding ShrinkCache_def Let_def
    by (intro when_ok_if when_ok_check rel) (use assms(2) in simp_all)
qed

lemma tframe_Evict:
  assumes "mem_os env own" "tframe env own w t" shows "when_ok (EvictRandomSizeClass env c force t) (\<lambda>(r, t'). tframe env own w t')"
proof -
  have "when_ok (if n \<le> r then bindR (wrap_class n r) (\<lambda>i. Inr (i, (t\<lparr>tm_race := r + 1\<rparr>)\<lparr>tm_race := i\<rparr>)) else Inr (r, t\<lparr>tm_race := r + 1\<rparr>))
      (\<lambda>(i, t2). tframe env own w t2)" for n r
    by (intro when_ok_if tframe_look) (use assms(2) in simp_all)
  from when_ok_bind [OF this] show ?thesis unfolding EvictRandomSizeClass_def Let_def
    apply (intro when_ok_if)
     apply simp
    apply (erule meta_allE, erule meta_allE, erule meta_allE, erule meta_allE, erule meta_mp)
    apply (clarify, intro when_ok_check when_ok_if tframe_ShrinkCache [OF assms(1)])
     apply simp_all
    done
qed

lemma tframe_MakeCacheSpace:
  assumes "mem_os env own" "tframe env own w t" shows "when_ok (MakeCacheSpace env c t) (\<lambda>(r, t'). tframe env own w t')"
proof -
  let ?P = "\<lambda>(r, t'). tframe env own w t'"
  have "when_ok (bindR (EvictRandomSizeClass env k False t) (\<lambda>(ok, t1). if ok then Inr (True, t1) else EvictRandomSizeClass env k True t1)) ?P" for k
    by (rule when_ok_bind [OF tframe_Evict [OF assms]]) (auto intro: tframe_Evict [OF assms(1)])
  note evict = when_ok_bind [OF this]
  show ?thesis unfolding MakeCacheSpace_def Let_def
    by (intro when_ok_if evict) (use assms(2) in auto)
qed

lemma tframe_InsertRange:
  assumes "mem_os env own" "tframe env own w t" shows "when_ok (InsertRange env c p q N t) (tframe env own w)"
proof -
  have "when_ok (if b then MakeCacheSpace env c t else Inr (False, t)) (\<lambda>(r, t'). tframe env own w t')" for b
    using tframe_MakeCacheSpace [OF assms] assms(2) by simp
  note space = when_ok_bind [OF this]
  show ?thesis unfolding InsertRange_def Let_def
    by (rule space, clarify, rule when_ok_if) (auto intro!: when_ok_check tframe_ReleaseListToSpans [OF assms(1)])
qed

lemma tframe_Fetch:
  assumes "tframe env own w t" shows "when_ok (FetchFromOneSpans c N t) (\<lambda>(n, p, q, t'). tframe env own w t')"
proof (cases "cf_nonempty (tm_central t c)")
  case (Cons sp sps)
  show ?thesis unfolding FetchFromOneSpans_def Let_def Cons list.case
    apply (insert assms)
    apply (rule tframe_look, rule when_ok_check, rule tframe_look, clarify, rule when_ok_any)
    apply ((rule tframe_look hframe_steps | assumption)+)[1]
    apply simp
    done
qed (use assms in \<open>simp add: FetchFromOneSpans_def\<close>)

lemma hframe_RegisterSizeClass:
  assumes "hframe env own w h" shows "when_ok (RegisterSizeClass sp c h) (hframe env own w)"
  unfolding RegisterSizeClass_def
  apply (insert assms)
  apply ((rule when_ok_look hframe_steps | assumption)+)[1]
  apply (rule when_ok_any, simp)
  done

lemma tframe_Populate:
  assumes "mem_os env own" "tframe env own w t" shows "when_ok (Populate env c t) (tframe env own w)"
proof -
  note new = when_ok_bind [OF hframe_New [OF assms]] and reg = when_ok_bind [OF hframe_RegisterSizeClass]
  show ?thesis unfolding Populate_def Let_def
    apply (rule new, clarify)
    subgoal for r h1
      apply (cases r; simp only: option.case)
       apply simp
      apply (rule reg, assumption, rule tframe_look, rule when_ok_check, rule tframe_look, rule tframe_look, clarify, rule when_ok_check)
      apply (rule hframe_steps, assumption, simp)
      done
    done
qed

lemma tframe_FetchSafe:
  assumes "mem_os env own" "tframe env own w t" shows "when_ok (FetchFromOneSpansSafe env c N t) (\<lambda>(n, p, q, t'). tframe env own w t')"
proof -
  note pop = when_ok_bind [OF tframe_Populate [OF assms(1)]]
  show ?thesis unfolding FetchFromOneSpansSafe_def
    by (rule when_ok_bind [OF tframe_Fetch [OF assms(2)]], clarify, rule when_ok_if) (auto intro!: pop tframe_Fetch)
qed

lemma tframe_remove_loop:
  "tframe env own w t \<Longrightarrow> when_ok (remove_loop c N r p q t) (\<lambda>(n, p', q', t'). tframe env own w t')"
proof (induction c N r p q t rule: remove_loop.induct)
  case (1 c N r p q t)
  have "tframe env own w t1" if "FetchFromOneSpans c (N - r) t = Inr (n, x, y, t1)" for n x y t1
    using tframe_Fetch [OF "1.prems", of c "N - r"] that by (simp add: when_ok_def)
  then show ?case using "1.IH" "1.prems"
    by (subst remove_loop.simps) (auto split: sum.splits prod.splits)
qed

lemma tframe_RemoveRange:
  assumes "mem_os env own" "tframe env own w t" shows "when_ok (RemoveRange env c N t) (\<lambda>(n, p, q, t'). tframe env own w t')"
proof -
  note fetch = when_ok_bind [OF tframe_FetchSafe [OF assms]]
  show ?thesis unfolding RemoveRange_def Let_def
    apply (rule when_ok_check, rule when_ok_if)
     apply (use assms(2) in \<open>auto intro!: when_ok_check split: prod.splits\<close>)[1]
    apply (rule fetch, clarify, rule when_ok_if, erule tframe_remove_loop, simp)
    done
qed

end
