(* ===== verification/Static_Vars.thy ===== *)
theory Static_Vars
  imports Central_Frame
begin

text \<open>
  The static variables of the allocator and their initialisation: src/libs/tcmalloc/src/static_vars.h and
  static_vars.cc. The allocators of stack traces and of profile buckets take their memory from the same
  chunks as the spans; the lists of sampled objects and growth stacks start empty.
\<close>

section \<open>Initialisation\<close>

definition sizeof_StackTrace :: int where "sizeof_StackTrace = 264"
definition sizeof_Bucket :: int where "sizeof_Bucket = 288"

record 'k statics =
  st_tcm :: "'k tcm"
  st_stacktraces :: "ph_allocator \<times> store"
  st_buckets :: "ph_allocator \<times> store"

text \<open>The memory of the central lists before the constructors run.\<close>

definition central_zero :: central_list where
  "central_zero = \<lparr>cf_size_class = 0, cf_empty = [], cf_nonempty = [], cf_num_spans = 0, cf_counter = 0,
     cf_tc_slots = (\<lambda>_. (NULL, NULL)), cf_used_slots = 0, cf_cache_size = 0, cf_max_cache_size = 0\<rparr>"

fun init_central :: "size_map \<Rightarrow> nat list \<Rightarrow> (nat \<Rightarrow> central_list) \<Rightarrow> (nat \<Rightarrow> central_list) result" where
  "init_central m [] C = Inr C"
| "init_central m (i # is) C = bindR (cf_Init m i) (\<lambda>c. init_central m is (C(i := c)))"

definition InitStaticVars :: "'k tc_env \<Rightarrow> int \<Rightarrow> bool \<Rightarrow> 'k world \<Rightarrow> 'k statics result" where
  "InitStaticVars env transfer aggressive_decommit w =
     bindR (size_map_init transfer) (\<lambda>m.
     bindR (pha_init sizeof_Span env (\<lambda>_. None) w) (\<lambda>(al, ws, w).
     bindR (pha_new sizeof_Span env al ws w) (\<lambda>(_, al, ws, w).
     bindR (pha_new sizeof_Span env al ws w) (\<lambda>(_, al, ws, w).
     bindR (pha_init sizeof_StackTrace env (\<lambda>_. None) w) (\<lambda>(tal, tws, w).
     bindR (pha_init sizeof_Bucket env (\<lambda>_. None) w) (\<lambda>(bal, bws, w).
     bindR (init_central m [0..<num_size_classes m] (\<lambda>_. central_zero)) (\<lambda>C.
     Inr \<lparr>st_tcm = \<lparr>tm_sizemap = m, tm_central = C, tm_race = 0,
            tm_heap = (page_heap_new al ws w)\<lparr>ph_aggressive_decommit := aggressive_decommit\<rparr>,
            tm_cache = pc_Clear, tm_mem = (\<lambda>_. None)\<rparr>,
          st_stacktraces = (tal, tws), st_buckets = (bal, bws)\<rparr>)))))))"

section \<open>The central lists after their initialisation\<close>

definition central_fresh :: "nat \<Rightarrow> central_list \<Rightarrow> bool" where
  "central_fresh i c \<longleftrightarrow> cf_size_class c = i \<and> cf_empty c = [] \<and> cf_nonempty c = [] \<and> cf_num_spans c = 0 \<and> cf_counter c = 0 \<and>
     cf_used_slots c = 0 \<and> 0 \<le> cf_cache_size c \<and> cf_cache_size c \<le> cf_max_cache_size c \<and> cf_max_cache_size c \<le> kMaxNumTransferEntries"

lemma cf_Init_ok:
  assumes "classes_ok m" "i < num_size_classes m"
  shows "sure (cf_Init m i) (central_fresh i)"
proof (cases "i = 0")
  case True
  then show ?thesis by (simp add: cf_Init_def Let_def central_fresh_def kMaxNumTransferEntries_def)
next
  case False
  then have "class_fits m i" using classes_okD [OF assms(1)] assms(2) by simp
  then show ?thesis using False
    by (auto simp: cf_Init_def Let_def central_fresh_def kMaxNumTransferEntries_def class_fits_def min_def max_def)
qed

lemma init_central_ok:
  assumes "classes_ok m" "\<forall>i\<in>set is. i < num_size_classes m"
  shows "sure (init_central m is C) (\<lambda>C'. (\<forall>i\<in>set is. central_fresh i (C' i)) \<and> (\<forall>i. i \<notin> set is \<longrightarrow> C' i = C i))"
  using assms(2)
proof (induction "is" arbitrary: C)
  case (Cons i js)
  have "sure (cf_Init m i) (central_fresh i)" using cf_Init_ok [OF assms(1)] Cons.prems by simp
  then show ?case
    unfolding init_central.simps
  proof (rule sure_bind)
    fix c assume c: "central_fresh i c"
    have "\<forall>i\<in>set js. i < num_size_classes m" using Cons.prems by simp
    from Cons.IH [OF this, of "C(i := c)"]
    show "sure (init_central m js (C(i := c))) (\<lambda>C'. (\<forall>i\<in>set (i # js). central_fresh i (C' i)) \<and> (\<forall>j. j \<notin> set (i # js) \<longrightarrow> C' j = C j))"
      by (rule sure_mono) (use c in \<open>auto split: if_splits\<close>)
  qed
qed simp

lemma central_fresh_ok:
  assumes h: "plain_heap env own h" "madvise_ends env" "live (ph_spans h) = (\<lambda>_. None)"
    and m: "classes_ok m" and C: "\<forall>i<num_size_classes m. central_fresh i (C i)"
  shows "central_ok env own {} \<lparr>tm_sizemap = m, tm_central = C, tm_race = 0, tm_heap = h, tm_cache = pc, tm_mem = mem\<rparr>"
proof -
  let ?t = "\<lparr>tm_sizemap = m, tm_central = C, tm_race = 0, tm_heap = h, tm_cache = pc, tm_mem = mem\<rparr>"
  have sz: "sized ?t a = None" for a using h(3) by (simp add: sized_def)
  have cs: "class_spans ?t c = {}" for c by (simp add: class_spans_def sz)
  have us: "used_slots ?t = {}" using C by (auto simp: used_slots_def central_fresh_def)
  have "spans_ok env own (\<lambda>_. []) {} ?t"
    using h m C by (simp add: spans_ok_def sz lists_fine_def cs central_fresh_def cache_ok_def)
  moreover have "slots_ok (\<lambda>_. []) {} ?t"
    using C by (auto simp: slots_ok_def us chained_def sizes_fine_def central_fresh_def)
  ultimately show ?thesis by (auto simp: central_ok_def us chained_def)
qed

section \<open>All static variables after their initialisation\<close>

lemma pha_init_oom:
  assumes "mem_os env own" "meta_ok env own Z w" "0 < sz" "sz \<le> kAllocIncrement"
  shows "unless_oom (pha_init sz env h w) (\<lambda>(al, h', w'). pha_inv sz env own Z {} al h' w' \<and> pha_inuse al = 0)"
proof -
  let ?a0 = "\<lparr>pha_free_area = NULL, pha_free_avail = 0, pha_free_list = NULL, pha_inuse = 0\<rparr>"
  have "pha_rep sz {} [] ?a0 h" by (simp add: pha_rep_def apart_def blocks_def)
  then have i0: "pha_inv sz env own Z {} ?a0 h w" using assms(2)
    by (intro pha_inv_def [THEN iffD2] exI [of _ "[]"]) (simp add: pha_mem_def blocks_def)
  have "pha_init sz env h w = Inl OutOfMemory \<or> (\<exists>x. pha_init sz env h w = Inr x)"
  proof (cases "pha_new sz env ?a0 h w = Inl OutOfMemory")
    case False
    then obtain p a1 h1 w1 where n: "pha_new sz env ?a0 h w = Inr (p, a1, h1, w1)" "pha_inv sz env own Z {p} a1 h1 w1"
      using pha_new_ok [OF assms(1) i0 assms(3,4)] by auto
    then show ?thesis using pha_delete_ok [OF n(2), of p] assms(4) by (auto simp: pha_init_def)
  qed (use assms(4) in \<open>simp add: pha_init_def\<close>)
  then show ?thesis using pha_init_ok [OF assms, of h] by (auto simp: unless_oom_def sure_def)
qed

lemma pha_new_oom:
  assumes "mem_os env own" "pha_inv sz env own Z U al h w" "0 < sz" "sz \<le> kAllocIncrement"
  shows "unless_oom (pha_new sz env al h w) (\<lambda>(p, al', h', w'). p \<notin> U \<and> 0 < p \<and>
    block p sz \<inter> (Z \<union> blocks sz U) = {} \<and> pha_inv sz env own Z (insert p U) al' h' w')"
  using pha_new_ok [OF assms] by (auto simp: unless_oom_def sure_def)

lemma static_sizes: "0 < sizeof_Span" "sizeof_Span \<le> kAllocIncrement" "0 < sizeof_StackTrace" "sizeof_StackTrace \<le> kAllocIncrement"
    "0 < sizeof_Bucket" "sizeof_Bucket \<le> kAllocIncrement"
  by (simp_all add: sizeof_Span_def sizeof_StackTrace_def sizeof_Bucket_def kAllocIncrement_def)

definition statics_ok :: "'k tc_env \<Rightarrow> ('k \<Rightarrow> addr set) \<Rightarrow> 'k statics \<Rightarrow> bool" where
  "statics_ok env own s \<longleftrightarrow> central_ok env own {} (st_tcm s) \<and>
     (\<exists>U. case st_stacktraces s of (al, ws) \<Rightarrow> pha_inv sizeof_StackTrace env own {} U al ws (ph_world (tm_heap (st_tcm s)))) \<and>
     (\<exists>U. case st_buckets s of (al, ws) \<Rightarrow> pha_inv sizeof_Bucket env own {} U al ws (ph_world (tm_heap (st_tcm s))))"

text \<open>The span allocator with its two spare objects.\<close>

lemma init_span_allocator:
  assumes "mem_os env own" "meta_ok env own {} w"
  shows "unless_oom (bindR (pha_init sizeof_Span env (\<lambda>_. None) w) (\<lambda>(al, ws, w).
     bindR (pha_new sizeof_Span env al ws w) (\<lambda>(_, al, ws, w). pha_new sizeof_Span env al ws w)))
   (\<lambda>(_, al, ws, w). pha_inv sizeof_Span env own {} {} al ws w)"
proof (rule oom_bind [OF pha_init_oom [OF assms static_sizes(1,2)]], clarify)
  fix al ws w assume "pha_inv sizeof_Span env own {} {} al ws w"
  from pha_new_oom [OF assms(1) this static_sizes(1,2)]
  show "unless_oom (bindR (pha_new sizeof_Span env al ws w) (\<lambda>(_, al, ws, w). pha_new sizeof_Span env al ws w))
     (\<lambda>(_, al, ws, w). pha_inv sizeof_Span env own {} {} al ws w)"
  proof (rule oom_bind, clarify)
    fix p al ws w assume "pha_inv sizeof_Span env own {} {p} al ws w"
    from pha_new_oom [OF assms(1) this static_sizes(1,2)]
    show "unless_oom (pha_new sizeof_Span env al ws w) (\<lambda>(_, al, ws, w). pha_inv sizeof_Span env own {} {} al ws w)"
      by (rule oom_mono) (auto elim: pha_inv_forget)
  qed
qed

text \<open>Another allocator is initialised; those before it keep their memory.\<close>

lemma init_other:
  assumes "mem_os env own" "pha_inv sz env own {} {} al ws w" "0 < sz'" "sz' \<le> kAllocIncrement"
  shows "unless_oom (pha_init sz' env h w) (\<lambda>(al', h', w'). pha_inv sz' env own {} {} al' h' w' \<and> wframe env own w w')"
proof -
  have "meta_ok env own {} w" using assms(2) by (auto simp: pha_inv_def elim: meta_ok_subset)
  from when_ok_oom [OF pha_init_oom [OF assms(1) this assms(3,4), of h] wframe_pha_init [OF assms(1) wframe_refl]]
  show ?thesis by (rule oom_mono) auto
qed

lemma InitStaticVars_ok:
  assumes os: "mem_os env own" "mem_cap own" "madvise_ends env" "heap_limit_mb env = 0" and w: "meta_ok env own {} w"
    and m: "size_map_init transfer = Inr m" "classes_ok m"
  shows "unless_oom (InitStaticVars env transfer False w) (statics_ok env own)"
proof -
  obtain C where C: "init_central m [0..<num_size_classes m] (\<lambda>_. central_zero) = Inr C" "\<forall>i<num_size_classes m. central_fresh i (C i)"
    using init_central_ok [OF m(2), of "[0..<num_size_classes m]" "\<lambda>_. central_zero"] by (auto simp: sure_def)
  have run: "InitStaticVars env transfer False w =
     bindR (bindR (pha_init sizeof_Span env (\<lambda>_. None) w) (\<lambda>(al, ws, w).
       bindR (pha_new sizeof_Span env al ws w) (\<lambda>(_, al, ws, w). pha_new sizeof_Span env al ws w))) (\<lambda>(_, al, ws, w).
     bindR (pha_init sizeof_StackTrace env (\<lambda>_. None) w) (\<lambda>(tal, tws, w).
     bindR (pha_init sizeof_Bucket env (\<lambda>_. None) w) (\<lambda>(bal, bws, w).
     Inr \<lparr>st_tcm = \<lparr>tm_sizemap = m, tm_central = C, tm_race = 0, tm_heap = page_heap_new al ws w, tm_cache = pc_Clear, tm_mem = (\<lambda>_. None)\<rparr>,
          st_stacktraces = (tal, tws), st_buckets = (bal, bws)\<rparr>)))"
    by (simp add: InitStaticVars_def m(1) C(1) bindR_assoc split_def page_heap_new_def)
  show ?thesis unfolding run
  proof (rule oom_bind [OF init_span_allocator [OF os(1) w]], clarify, goal_cases)
    case s: (1 _ al ws w1)
    show ?case
    proof (rule oom_bind [OF init_other [OF os(1) s static_sizes(3,4)]], clarify, goal_cases)
      case t: (1 tal tws w2)
      show ?case
      proof (rule oom_bind [OF init_other [OF os(1) t(1) static_sizes(5,6)]], clarify, goal_cases)
        case b: (1 bal bws w3)
        have "pha_inv sizeof_Span env own {} {} al ws w3" by (rule wframe_pha [OF s wframe_trans [OF t(2) b(2)]])
        then have "plain_heap env own (page_heap_new al ws w3)"
          using page_heap_new_ok [of env own al ws w3] os by (simp add: plain_heap_def page_heap_new_def)
        moreover have "live (ph_spans (page_heap_new al ws w3)) = (\<lambda>_. None)" by (simp add: page_heap_new_def live_def fun_eq_iff)
        ultimately have "central_ok env own {} \<lparr>tm_sizemap = m, tm_central = C, tm_race = 0, tm_heap = page_heap_new al ws w3,
            tm_cache = pc_Clear, tm_mem = (\<lambda>_. None)\<rparr>" by (rule central_fresh_ok [OF _ os(3) _ m(2) C(2)])
        then show ?case using wframe_pha [OF t(1) b(2)] b(1) by (auto simp: statics_ok_def page_heap_new_def)
      qed
    qed
  qed
qed

end
