(* ===== verification/Sampler.thy ===== *)
theory Sampler
  imports Page_Heap_Merge
begin

unbundle bit_operations_syntax

text \<open>
  The sampler of a thread cache: src/libs/tcmalloc/src/sampler.h and sampler.cc. It counts the bytes that may
  still be allocated before an allocation is sampled. \<open>param\<close> is \<open>FLAGS_tcmalloc_sample_parameter\<close>; the floating-point
  formula that turns a random number and the parameter into the next interval is the argument \<open>interval\<close>.
\<close>

section \<open>The code\<close>

record sampler =
  sam_bytes :: int
  sam_rnd :: "64 word"
  sam_initialized :: bool

definition to_int64 :: "int \<Rightarrow> int" where
  "to_int64 x = (x + 2 ^ 63) mod 2 ^ 64 - 2 ^ 63"

definition NextRandom :: "64 word \<Rightarrow> 64 word" where
  "NextRandom rnd = (0x5DEECE66D * rnd + 0xB) AND NOT (push_bit 48 (NOT 0))"

text \<open>\<open>interval q param\<close> is \<open>min((log2(q) - 26) * (-log(2) * param), MAX_SSIZE)\<close>, converted to \<open>ssize_t\<close>.\<close>

definition PickNextSamplingPoint :: "int \<Rightarrow> (int \<Rightarrow> int \<Rightarrow> int) \<Rightarrow> sampler \<Rightarrow> int \<times> sampler" where
  "PickNextSamplingPoint param interval s =
     (if param \<le> 0 then (16 * 2 ^ 20, s)
      else let r = NextRandom (sam_rnd s); q = uint (drop_bit 22 r) mod 2 ^ 32 + 1
           in (interval q param, s\<lparr>sam_rnd := r\<rparr>))"

definition sam_Init :: "int \<Rightarrow> (int \<Rightarrow> int \<Rightarrow> int) \<Rightarrow> 64 word \<Rightarrow> sampler \<Rightarrow> sampler result" where
  "sam_Init param interval seed s =
     check (seed \<noteq> 0)
       (let s1 = s\<lparr>sam_rnd := (NextRandom ^^ 20) seed\<rparr>; (b, s2) = PickNextSamplingPoint param interval s1
        in Inr (s2\<lparr>sam_bytes := b\<rparr>))"

definition RecordAllocationSlow :: "int \<Rightarrow> (int \<Rightarrow> int \<Rightarrow> int) \<Rightarrow> 64 word \<Rightarrow> int \<Rightarrow> sampler \<Rightarrow> (bool \<times> sampler) result" where
  "RecordAllocationSlow param interval this k s =
     bindR (if sam_initialized s then Inr (False, s)
            else bindR (sam_Init param interval this (s\<lparr>sam_initialized := True\<rparr>)) (\<lambda>s1.
              if to_size_t (sam_bytes s1) \<ge> k then Inr (True, s1\<lparr>sam_bytes := to_int64 (sam_bytes s1 - k)\<rparr>)
              else Inr (False, s1))) (\<lambda>(done, s2).
       if done then Inr (True, s2)
       else let (b, s3) = PickNextSamplingPoint param interval s2 in Inr (param \<le> 0, s3\<lparr>sam_bytes := b\<rparr>))"

text \<open>\<open>inited\<close> is \<open>Static::IsInited()\<close>.\<close>

definition RecordAllocation :: "int \<Rightarrow> (int \<Rightarrow> int \<Rightarrow> int) \<Rightarrow> bool \<Rightarrow> 64 word \<Rightarrow> int \<Rightarrow> sampler \<Rightarrow> (bool \<times> sampler) result" where
  "RecordAllocation param interval inited this k s =
     check (inited \<or> sam_bytes s = 0)
       (if to_size_t (sam_bytes s) < k
        then bindR (RecordAllocationSlow param interval this k s) (\<lambda>(r, s1). check inited (Inr (r, s1)))
        else check inited (Inr (True, s\<lparr>sam_bytes := to_int64 (sam_bytes s - k)\<rparr>)))"

definition sam_TryRecordAllocationFast :: "int \<Rightarrow> sampler \<Rightarrow> (bool \<times> sampler) result" where
  "sam_TryRecordAllocationFast k s =
     check (to_int64 k \<ge> 0)
       (let b = sam_bytes s - to_int64 k in
        if b < - (2 ^ 63) then Inl SignedOverflow
        else if b < 0 then Inr (False, s\<lparr>sam_bytes := to_int64 (b + k)\<rparr>) else Inr (True, s\<lparr>sam_bytes := b\<rparr>))"

section \<open>The counter\<close>

text \<open>The counter is not negative; the formula never gives a negative interval.\<close>

definition sampler_ok :: "sampler \<Rightarrow> bool" where
  "sampler_ok s \<longleftrightarrow> 0 \<le> sam_bytes s \<and> sam_bytes s < 2 ^ 63"

definition interval_ok :: "(int \<Rightarrow> int \<Rightarrow> int) \<Rightarrow> bool" where
  "interval_ok interval \<longleftrightarrow> (\<forall>q p. 0 \<le> interval q p \<and> interval q p < 2 ^ 63)"

text \<open>The generator is the linear congruence of \<open>drand48\<close>.\<close>

lemma NextRandom_mod [code]: "NextRandom rnd = word_of_int ((0x5DEECE66D * uint rnd + 0xB) mod 2 ^ 48)"
proof -
  have "NextRandom rnd = take_bit 48 (0x5DEECE66D * rnd + 0xB)"
    by (rule bit_word_eqI) (auto simp: NextRandom_def bit_simps)
  also have "\<dots> = word_of_int (take_bit 48 (uint (0x5DEECE66D * rnd + 0xB)))"
    by (simp add: take_bit_word_eq_self unsigned_take_bit_eq flip: unsigned_take_bit_eq)
  also have "take_bit 48 (uint (0x5DEECE66D * rnd + 0xB)) = (0x5DEECE66D * uint rnd + 0xB) mod 2 ^ 48"
    by (simp add: uint_word_ariths take_bit_eq_mod mod_simps mod_mod_cancel)
  finally show ?thesis .
qed

lemma to_int64_id: "- (2 ^ 63) \<le> x \<Longrightarrow> x < 2 ^ 63 \<Longrightarrow> to_int64 x = x"
  by (simp add: to_int64_def)

lemma pick_ok:
  assumes "interval_ok interval"
  shows "case PickNextSamplingPoint param interval s of (b, s') \<Rightarrow> 0 \<le> b \<and> b < 2 ^ 63 \<and> (\<exists>r. s' = s\<lparr>sam_rnd := r\<rparr>)"
proof -
  have "\<exists>r. s = s\<lparr>sam_rnd := r\<rparr>" by (rule exI [of _ "sam_rnd s"]) simp
  then show ?thesis using assms by (auto simp: PickNextSamplingPoint_def interval_ok_def Let_def)
qed

lemma sam_Init_ok:
  assumes "interval_ok interval" "seed \<noteq> 0"
  shows "sure (sam_Init param interval seed s) (\<lambda>s'. sampler_ok s' \<and> sam_initialized s' = sam_initialized s)"
  using pick_ok [OF assms(1), where param = param and s = "s\<lparr>sam_rnd := (NextRandom ^^ 20) seed\<rparr>"] assms(2)
  by (auto simp: sam_Init_def sampler_ok_def split: prod.splits)

lemma sampler_ok_sub: "sampler_ok s \<Longrightarrow> 0 \<le> k \<Longrightarrow> k \<le> sam_bytes s \<Longrightarrow> sampler_ok (s\<lparr>sam_bytes := to_int64 (sam_bytes s - k)\<rparr>)"
  by (simp add: sampler_ok_def to_int64_id)

lemma RecordAllocationSlow_ok:
  assumes "interval_ok interval" "this \<noteq> 0" "0 \<le> k"
  shows "sure (RecordAllocationSlow param interval this k s) (\<lambda>(r, s'). sampler_ok s' \<and> sam_initialized s' \<and> (param \<le> 0 \<longrightarrow> r))"
proof -
  have pick: "case PickNextSamplingPoint param interval x of (b, x') \<Rightarrow> sampler_ok (x'\<lparr>sam_bytes := b\<rparr>) \<and> sam_initialized x' = sam_initialized x" for x
    using pick_ok [OF assms(1), where param = param and s = x] by (auto simp: sampler_ok_def split: prod.splits)
  show ?thesis unfolding RecordAllocationSlow_def
  proof (rule sure_bind [where P = "\<lambda>(d, x). sam_initialized x \<and> (d \<longrightarrow> sampler_ok x)"], goal_cases)
    case 1
    have "sampler_ok x \<Longrightarrow> to_size_t (sam_bytes x) = sam_bytes x" for x by (simp add: sampler_ok_def to_size_t_id)
    then show ?case using sam_Init_ok [OF assms(1,2), where param = param and s = "s\<lparr>sam_initialized := True\<rparr>"] sampler_ok_sub assms(3)
      by (auto simp: sure_def)
  next
    case (2 x)
    then show ?case using pick [of "snd x"] by (auto split: prod.splits)
  qed
qed

lemma RecordAllocation_ok:
  assumes "interval_ok interval" "this \<noteq> 0" "0 \<le> k" "sampler_ok s"
  shows "sure (RecordAllocation param interval True this k s) (\<lambda>(r, s'). sampler_ok s' \<and> (param \<le> 0 \<longrightarrow> r))"
proof -
  have b: "to_size_t (sam_bytes s) = sam_bytes s" using assms(4) by (simp add: sampler_ok_def to_size_t_id)
  show ?thesis using RecordAllocationSlow_ok [OF assms(1-3), where param = param and s = s] sampler_ok_sub [OF assms(4,3)]
    by (auto simp: RecordAllocation_def b sure_def)
qed

text \<open>
  The fast path of the sampler agrees with the full one. For a size below \<open>2 ^ 63\<close> and a counter in its
  range, \<open>TryRecordAllocationFast\<close> does not overflow; if it says that no sampling is needed, \<open>RecordAllocation\<close> says the
  same and leaves the same counter; otherwise it has changed nothing, so that the caller may call \<open>RecordAllocation\<close>,
  which then takes its slow path. The counter stays in its range, and with a parameter that is not positive
  no allocation is ever sampled.
\<close>
lemma sampler_fast_path_agrees:
  assumes "interval_ok interval" "this \<noteq> 0" "sampler_ok s" "0 \<le> k" "k < 2 ^ 63"
  shows "(case sam_TryRecordAllocationFast k s of
      Inl e \<Rightarrow> False
    | Inr (True, s') \<Rightarrow> RecordAllocation param interval True this k s = Inr (True, s') \<and> sam_bytes s' = sam_bytes s - k
    | Inr (False, s') \<Rightarrow> s' = s \<and> RecordAllocation param interval True this k s = RecordAllocationSlow param interval this k s) \<and>
    (\<exists>r s'. RecordAllocation param interval True this k s = Inr (r, s') \<and> sampler_ok s' \<and> (param \<le> 0 \<longrightarrow> r))"
proof
  have k: "to_int64 k = k" using assms(4,5) by (simp add: to_int64_id)
  have b: "to_size_t (sam_bytes s) = sam_bytes s" "0 \<le> sam_bytes s" "sam_bytes s < 2 ^ 63"
    using assms(3) by (simp_all add: sampler_ok_def to_size_t_id)
  have slow: "bindR (RecordAllocationSlow param interval this k s) (\<lambda>(r, s1). check True (Inr (r, s1))) = RecordAllocationSlow param interval this k s"
    by (cases "RecordAllocationSlow param interval this k s") auto
  show "case sam_TryRecordAllocationFast k s of
      Inl e \<Rightarrow> False
    | Inr (True, s') \<Rightarrow> RecordAllocation param interval True this k s = Inr (True, s') \<and> sam_bytes s' = sam_bytes s - k
    | Inr (False, s') \<Rightarrow> s' = s \<and> RecordAllocation param interval True this k s = RecordAllocationSlow param interval this k s"
  proof (cases "sam_bytes s < k")
    case True
    then have "sam_TryRecordAllocationFast k s = Inr (False, s)" using b assms(4,5)
      by (simp add: sam_TryRecordAllocationFast_def k Let_def to_int64_id)
    then show ?thesis using slow True by (simp add: RecordAllocation_def b)
  next
    case False
    then have "sam_TryRecordAllocationFast k s = Inr (True, s\<lparr>sam_bytes := sam_bytes s - k\<rparr>)" using assms(4)
      by (simp add: sam_TryRecordAllocationFast_def k Let_def)
    then show ?thesis using False b assms(4) by (simp add: RecordAllocation_def b to_int64_id)
  qed
  show "\<exists>r s'. RecordAllocation param interval True this k s = Inr (r, s') \<and> sampler_ok s' \<and> (param \<le> 0 \<longrightarrow> r)"
    using RecordAllocation_ok [OF assms(1,2,4,3), where param = param] by (auto simp: sure_def)
qed

lemma sampler_fast_path_agrees_witness:
  "sam_TryRecordAllocationFast 100 \<lparr>sam_bytes = 40, sam_rnd = 7, sam_initialized = True\<rparr> =
     Inr (False, \<lparr>sam_bytes = 40, sam_rnd = 7, sam_initialized = True\<rparr>) \<and>
   (\<exists>r s'. RecordAllocation 1024 (\<lambda>q p. q) True 64 100 \<lparr>sam_bytes = 40, sam_rnd = 7, sam_initialized = True\<rparr> = Inr (r, s') \<and> sampler_ok s')"
proof -
  let ?s = "\<lparr>sam_bytes = 40, sam_rnd = 7, sam_initialized = True\<rparr>" and ?i = "\<lambda>(q :: int) (p :: int). q mod 2 ^ 63"
  have i: "interval_ok ?i" by (simp add: interval_ok_def)
  have s: "sampler_ok ?s" by (simp add: sampler_ok_def)
  have f: "sam_TryRecordAllocationFast 100 ?s = Inr (False, ?s)" by code_simp
  have "RecordAllocation 1024 ?i True 64 100 ?s = RecordAllocation 1024 (\<lambda>q p. q) True 64 100 ?s" by code_simp
  with sampler_fast_path_agrees [OF i _ s, of 64 100 1024] f show ?thesis by fastforce
qed

end
