(* ===== verification/Thread_Cache.thy ===== *)
theory Thread_Cache
  imports Static_Vars Sampler
begin

text \<open>
  The thread caches: src/libs/tcmalloc/src/thread_cache.h and thread_cache.cc (with \<open>HAVE_TLS\<close>). Each thread has a
  list of free objects per size class, filled from and emptied into the central free lists, and a limit on the
  bytes in them, which the threads take from a common budget and from each other.

  A \<open>FreeList\<close> is a record; the objects are linked through the same words as in the central lists. The caches are a
  map from addresses, kept when a cache is deleted (the memory may be used again and is not cleared); the list
  \<open>thread_heaps_\<close> is the sequence it links, so \<open>next_\<close> and \<open>prev_\<close> are positions in it. Unsigned 32-bit members are
  integers with \<open>mod 2 ^ 32\<close> written out, the \<open>int32\<close> members wrap on conversion and overflow on addition;
  \<open>unclaimed_cache_space_\<close> (64 bits, changed by at most 1 GB a call) is an unbounded integer. The calls of \<open>pthread_setspecific\<close>
  are taken not to allocate, so that \<open>in_setspecific_\<close> is never set when another operation runs.
\<close>

section \<open>Constants\<close>

definition kMaxThreadCacheSize :: int where "kMaxThreadCacheSize = 4 * 2 ^ 20"
definition kDefaultOverallThreadCacheSize :: int where "kDefaultOverallThreadCacheSize = 8 * kMaxThreadCacheSize"
definition kMinThreadCacheSize :: int where "kMinThreadCacheSize = kMaxSize * 2"
definition kStealAmount :: int where "kStealAmount = 2 ^ 16"
definition kMaxOverages :: int where "kMaxOverages = 3"
definition kMaxDynamicFreeListLength :: int where "kMaxDynamicFreeListLength = 8192"
definition sizeof_ThreadCache :: int where "sizeof_ThreadCache = 3136"

definition to_uint32 :: "int \<Rightarrow> int" where
  "to_uint32 x = x mod 2 ^ 32"

definition mul32 :: "int \<Rightarrow> int \<Rightarrow> int result" where
  "mul32 a b = (if int_min \<le> a * b \<and> a * b \<le> int_max then Inr (a * b) else Inl SignedOverflow)"

section \<open>Free lists\<close>

record free_list =
  fl_list :: addr
  fl_length :: int
  fl_lowater :: int
  fl_max_length :: int
  fl_overages :: int
  fl_size :: int

definition fl_Init :: "int \<Rightarrow> free_list" where
  "fl_Init sz = \<lparr>fl_list = NULL, fl_length = 0, fl_lowater = 0, fl_max_length = 1, fl_overages = 0, fl_size = to_int32 sz\<rparr>"

definition set_max_length :: "int \<Rightarrow> free_list \<Rightarrow> free_list" where
  "set_max_length n fl = fl\<lparr>fl_max_length := to_uint32 n\<rparr>"

definition set_length_overages :: "int \<Rightarrow> free_list \<Rightarrow> free_list" where
  "set_length_overages n fl = fl\<lparr>fl_overages := to_uint32 n\<rparr>"

definition clear_lowwatermark :: "free_list \<Rightarrow> free_list" where
  "clear_lowwatermark fl = fl\<lparr>fl_lowater := fl_length fl\<rparr>"

text \<open>\<open>length_ -= N; if (length_ < lowater_) lowater_ = length_\<close>\<close>

definition shorten :: "int \<Rightarrow> free_list \<Rightarrow> free_list" where
  "shorten N fl = (let n = to_uint32 (fl_length fl - N)
     in fl\<lparr>fl_length := n, fl_lowater := (if n < fl_lowater fl then n else fl_lowater fl)\<rparr>)"

text \<open>The new length, the list and the words.\<close>

definition fl_Push :: "addr \<Rightarrow> free_list \<Rightarrow> store \<Rightarrow> (int \<times> free_list \<times> store) result" where
  "fl_Push ptr fl m =
     (let length = to_uint32 (fl_length fl + 1)
      in bindR (SLL_Push m (fl_list fl) ptr) (\<lambda>(l, m'). Inr (length, fl\<lparr>fl_list := l, fl_length := length\<rparr>, m')))"

definition fl_Pop :: "free_list \<Rightarrow> store \<Rightarrow> (addr \<times> free_list) result" where
  "fl_Pop fl m = check (fl_list fl \<noteq> NULL)
     (bindR (SLL_Pop m (fl_list fl)) (\<lambda>(l, rv). Inr (rv, (shorten 1 fl)\<lparr>fl_list := l\<rparr>)))"

definition fl_TryPop :: "free_list \<Rightarrow> store \<Rightarrow> (addr option \<times> free_list) result" where
  "fl_TryPop fl m =
     bindR (SLL_TryPop m (fl_list fl)) (\<lambda>(l, r).
       case r of None \<Rightarrow> Inr (None, fl\<lparr>fl_list := l\<rparr>) | Some rv \<Rightarrow> Inr (Some rv, (shorten 1 fl)\<lparr>fl_list := l\<rparr>))"

definition fl_PushRange :: "int \<Rightarrow> addr \<Rightarrow> addr \<Rightarrow> free_list \<Rightarrow> store \<Rightarrow> (free_list \<times> store) result" where
  "fl_PushRange N start end_ptr fl m =
     bindR (SLL_PushRange m (fl_list fl) start end_ptr) (\<lambda>(l, m'). Inr (fl\<lparr>fl_list := l, fl_length := to_uint32 (fl_length fl + N)\<rparr>, m'))"

definition fl_PopRange :: "int \<Rightarrow> free_list \<Rightarrow> store \<Rightarrow> (addr \<times> addr \<times> free_list \<times> store) result" where
  "fl_PopRange N fl m =
     bindR (SLL_PopRange m (fl_list fl) N) (\<lambda>(l, start, end_ptr, m').
       check (fl_length fl \<ge> to_uint32 N) (Inr (start, end_ptr, (shorten N fl)\<lparr>fl_list := l\<rparr>, m')))"

section \<open>State\<close>

record thread_cache =
  th_list :: "nat \<Rightarrow> free_list"
  th_size :: int
  th_max_size :: int
  th_sampler :: sampler
  th_tid :: "64 word"
  th_in_setspecific :: bool

record 'k tstate =
  tg_tcm :: "'k tcm"
  tg_heaps :: "addr list"
  tg_cache :: "addr \<Rightarrow> thread_cache option"
  tg_count :: int
  tg_steal :: addr
  tg_overall :: int
  tg_per_thread :: int
  tg_unclaimed :: int
  tg_allocator :: "ph_allocator \<times> store"
  tg_heap :: "64 word \<Rightarrow> addr"
  tg_fast_path_heap :: "64 word \<Rightarrow> addr"
  tg_heap_key :: "64 word \<Rightarrow> addr"
  tg_tsd_inited :: bool
  tg_sample_parameter :: int
  tg_interval :: "int \<Rightarrow> int \<Rightarrow> int"

definition the_cache :: "'k tstate \<Rightarrow> addr \<Rightarrow> thread_cache result" where
  "the_cache g h = (if h = NULL then Inl NullDeref else case tg_cache g h of None \<Rightarrow> Inl OutOfBounds | Some c \<Rightarrow> Inr c)"

abbreviation set_cache :: "addr \<Rightarrow> thread_cache \<Rightarrow> 'k tstate \<Rightarrow> 'k tstate" where
  "set_cache h c g \<equiv> g\<lparr>tg_cache := (tg_cache g)(h \<mapsto> c)\<rparr>"

abbreviation set_list :: "nat \<Rightarrow> free_list \<Rightarrow> thread_cache \<Rightarrow> thread_cache" where
  "set_list cl fl c \<equiv> c\<lparr>th_list := (th_list c)(cl := fl)\<rparr>"

text \<open>\<open>h->next_\<close>\<close>

definition next_heap :: "addr list \<Rightarrow> addr \<Rightarrow> addr" where
  "next_heap hs v = (case dropWhile (\<lambda>x. x \<noteq> v) hs of _ # y # _ \<Rightarrow> y | _ \<Rightarrow> NULL)"

section \<open>One cache and the central lists\<close>

text \<open>The loop of \<open>ReleaseToCentralCache\<close>; with a batch of no objects it would not end.\<close>

function release_batches :: "'k tc_env \<Rightarrow> nat \<Rightarrow> int \<Rightarrow> int \<Rightarrow> free_list \<Rightarrow> 'k tcm \<Rightarrow> (int \<times> free_list \<times> 'k tcm) result" where
  "release_batches env cl batch N src t =
     (if N > batch then
        if batch \<le> 0 then Inl Diverges
        else bindR (fl_PopRange batch src (tm_mem t)) (\<lambda>(head, tail, src1, m).
             bindR (InsertRange env cl head tail batch (t\<lparr>tm_mem := m\<rparr>)) (\<lambda>t1.
             release_batches env cl batch (N - batch) src1 t1))
      else Inr (N, src, t))"
  by pat_completeness auto
termination by (relation "measure (\<lambda>(env, cl, batch, N, src, t). nat N)") auto

declare release_batches.simps [simp del]

definition ReleaseToCentralCache :: "'k tc_env \<Rightarrow> nat \<Rightarrow> int \<Rightarrow> thread_cache \<times> 'k tcm \<Rightarrow> (thread_cache \<times> 'k tcm) result" where
  "ReleaseToCentralCache env cl N = (\<lambda>(c, t).
     let src = th_list c cl;
         n = (if to_size_t N > fl_length src then to_int32 (fl_length src) else N);
         delta_bytes = to_size_t (n * byte_size_for_class (tm_sizemap t) cl)
     in bindR (release_batches env cl (objects_to_move t cl) n src t) (\<lambda>(n1, src1, t1).
        bindR (fl_PopRange n1 src1 (tm_mem t1)) (\<lambda>(head, tail, src2, m).
        bindR (InsertRange env cl head tail n1 (t1\<lparr>tm_mem := m\<rparr>)) (\<lambda>t2.
        Inr ((set_list cl src2 c)\<lparr>th_size := to_int32 (th_size c - delta_bytes)\<rparr>, t2)))))"

definition grow_max_length :: "int \<Rightarrow> free_list \<Rightarrow> free_list result" where
  "grow_max_length batch fl =
     (if fl_max_length fl < to_size_t batch then Inr (set_max_length (fl_max_length fl + 1) fl)
      else let n = min (to_int32 (fl_max_length fl + batch)) kMaxDynamicFreeListLength
           in if batch = 0 then Inl DivByZero
              else let n1 = n - c_rem n batch in check (c_rem n1 batch = 0) (Inr (set_max_length n1 fl)))"

text \<open>The first component is the object; \<open>None\<close> stands for the result of \<open>oom_handler\<close>.\<close>

definition FetchFromCentralCache ::
  "'k tc_env \<Rightarrow> nat \<Rightarrow> int \<Rightarrow> thread_cache \<times> 'k tcm \<Rightarrow> (addr option \<times> thread_cache \<times> 'k tcm) result" where
  "FetchFromCentralCache env cl byte_size = (\<lambda>(c, t).
     let list = th_list c cl; batch_size = objects_to_move t cl; num_to_move = min (to_int32 (fl_max_length list)) batch_size
     in check (fl_list list = NULL)
       (bindR (RemoveRange env cl num_to_move t) (\<lambda>(fetch_count, start, end_ptr, t1).
          if fetch_count = 0 then check (start = NULL) (Inr (None, c, t1))
          else check (start \<noteq> NULL)
            (let n = fetch_count - 1
             in bindR (if n \<ge> 0 then
                    bindR (mul32 byte_size n) (\<lambda>d. bindR (add32 (th_size c) d) (\<lambda>sz.
                    bindR (SLL_Next (tm_mem t1) start) (\<lambda>nxt.
                    bindR (fl_PushRange n nxt end_ptr list (tm_mem t1)) (\<lambda>(list1, m). Inr (sz, list1, m)))))
                  else Inr (th_size c, list, tm_mem t1)) (\<lambda>(sz, list1, m).
                bindR (grow_max_length batch_size list1) (\<lambda>list2.
                Inr (Some start, (set_list cl list2 c)\<lparr>th_size := sz\<rparr>, t1\<lparr>tm_mem := m\<rparr>)))))))"

definition Allocate ::
  "'k tc_env \<Rightarrow> int \<Rightarrow> nat \<Rightarrow> thread_cache \<times> 'k tcm \<Rightarrow> (addr option \<times> thread_cache \<times> 'k tcm) result" where
  "Allocate env sz cl = (\<lambda>(c, t).
     check (sz \<le> kMaxSize) (check (sz \<noteq> 0) (check (sz = byte_size_for_class (tm_sizemap t) cl)
       (bindR (fl_TryPop (th_list c cl) (tm_mem t)) (\<lambda>(r, list1).
          case r of
            None \<Rightarrow> FetchFromCentralCache env cl (to_int32 sz) (set_list cl list1 c, t)
          | Some rv \<Rightarrow> Inr (Some rv, (set_list cl list1 c)\<lparr>th_size := to_int32 (th_size c - sz)\<rparr>, t))))))"

text \<open>The loop of \<open>Cleanup\<close>.\<close>

fun cleanup_lists :: "'k tc_env \<Rightarrow> nat list \<Rightarrow> thread_cache \<times> 'k tcm \<Rightarrow> (thread_cache \<times> 'k tcm) result" where
  "cleanup_lists env [] s = Inr s"
| "cleanup_lists env (cl # cls) s =
     bindR (if fl_length (th_list (fst s) cl) > 0 then ReleaseToCentralCache env cl (to_int32 (fl_length (th_list (fst s) cl))) s else Inr s)
       (cleanup_lists env cls)"

definition th_Cleanup :: "'k tc_env \<Rightarrow> thread_cache \<times> 'k tcm \<Rightarrow> (thread_cache \<times> 'k tcm) result" where
  "th_Cleanup env = (\<lambda>(c, t). cleanup_lists env [0..<num_size_classes (tm_sizemap t)] (c, t))"

text \<open>One round of the loop of \<open>Scavenge\<close>.\<close>

definition scavenge_list :: "'k tc_env \<Rightarrow> nat \<Rightarrow> thread_cache \<times> 'k tcm \<Rightarrow> (thread_cache \<times> 'k tcm) result" where
  "scavenge_list env cl = (\<lambda>(c, t).
     let lowmark = to_int32 (fl_lowater (th_list c cl))
     in bindR (if lowmark > 0 then
            let drop = (if lowmark > 1 then lowmark div 2 else 1)
            in bindR (ReleaseToCentralCache env cl drop (c, t)) (\<lambda>(c1, t1).
               let list = th_list c1 cl; batch_size = objects_to_move t1 cl
               in Inr (if fl_max_length list > to_size_t batch_size
                       then set_list cl (set_max_length (max (to_int32 (fl_max_length list - batch_size)) batch_size) list) c1 else c1, t1))
          else Inr (c, t)) (\<lambda>(c2, t2).
        Inr (set_list cl (clear_lowwatermark (th_list c2 cl)) c2, t2)))"

fun scavenge_lists :: "'k tc_env \<Rightarrow> nat list \<Rightarrow> thread_cache \<times> 'k tcm \<Rightarrow> (thread_cache \<times> 'k tcm) result" where
  "scavenge_lists env [] s = Inr s"
| "scavenge_lists env (cl # cls) s = bindR (scavenge_list env cl s) (scavenge_lists env cls)"

section \<open>Limits\<close>

definition SetMaxSize :: "addr \<Rightarrow> int \<Rightarrow> 'k tstate \<Rightarrow> 'k tstate result" where
  "SetMaxSize h n g = bindR (the_cache g h) (\<lambda>c. Inr (set_cache h (c\<lparr>th_max_size := to_int32 n\<rparr>) g))"

text \<open>The loop of \<open>IncreaseCacheLimitLocked\<close>, with the number of rounds that are left.\<close>

fun steal_loop :: "nat \<Rightarrow> addr \<Rightarrow> 'k tstate \<Rightarrow> 'k tstate result" where
  "steal_loop 0 this g = Inr g"
| "steal_loop (Suc i) this g =
     bindR (if tg_steal g = NULL then check (tg_heaps g \<noteq> []) (Inr (hd (tg_heaps g))) else Inr (tg_steal g)) (\<lambda>v.
     bindR (the_cache g v) (\<lambda>cv.
       if v = this \<or> to_size_t (th_max_size cv) \<le> kMinThreadCacheSize
       then steal_loop i this (g\<lparr>tg_steal := next_heap (tg_heaps g) v\<rparr>)
       else bindR (SetMaxSize v (th_max_size cv - kStealAmount) g) (\<lambda>g1.
            bindR (the_cache g1 this) (\<lambda>c.
            bindR (SetMaxSize this (th_max_size c + kStealAmount) g1) (\<lambda>g2.
            Inr (g2\<lparr>tg_steal := next_heap (tg_heaps g) v\<rparr>))))))"

definition IncreaseCacheLimitLocked :: "addr \<Rightarrow> 'k tstate \<Rightarrow> 'k tstate result" where
  "IncreaseCacheLimitLocked this g =
     (if tg_unclaimed g > 0 then
        bindR (the_cache g this) (\<lambda>c.
        SetMaxSize this (th_max_size c + kStealAmount) (g\<lparr>tg_unclaimed := tg_unclaimed g - kStealAmount\<rparr>))
      else steal_loop 10 this g)"

section \<open>Giving objects back\<close>

text \<open>A step on one cache and the central lists, in the whole state.\<close>

definition on_cache :: "addr \<Rightarrow> (thread_cache \<times> 'k tcm \<Rightarrow> (thread_cache \<times> 'k tcm) result) \<Rightarrow> 'k tstate \<Rightarrow> 'k tstate result" where
  "on_cache h f g = bindR (the_cache g h) (\<lambda>c. bindR (f (c, tg_tcm g)) (\<lambda>(c', t'). Inr ((set_cache h c' g)\<lparr>tg_tcm := t'\<rparr>)))"

definition th_Allocate :: "'k tc_env \<Rightarrow> addr \<Rightarrow> int \<Rightarrow> nat \<Rightarrow> 'k tstate \<Rightarrow> (addr option \<times> 'k tstate) result" where
  "th_Allocate env h sz cl g =
     bindR (the_cache g h) (\<lambda>c. bindR (Allocate env sz cl (c, tg_tcm g)) (\<lambda>(r, c', t'). Inr (r, (set_cache h c' g)\<lparr>tg_tcm := t'\<rparr>)))"

definition th_Scavenge :: "'k tc_env \<Rightarrow> addr \<Rightarrow> 'k tstate \<Rightarrow> 'k tstate result" where
  "th_Scavenge env h g =
     bindR (on_cache h (scavenge_lists env [0..<num_size_classes (tm_sizemap (tg_tcm g))]) g) (IncreaseCacheLimitLocked h)"

text \<open>\<open>ListTooLong\<close> up to the call of \<open>Scavenge\<close>.\<close>

definition list_too_long :: "'k tc_env \<Rightarrow> nat \<Rightarrow> thread_cache \<times> 'k tcm \<Rightarrow> (thread_cache \<times> 'k tcm) result" where
  "list_too_long env cl = (\<lambda>(c, t).
     bindR (add32 (th_size c) (fl_size (th_list c cl))) (\<lambda>sz.
     let batch_size = objects_to_move t cl
     in bindR (ReleaseToCentralCache env cl batch_size (c\<lparr>th_size := sz\<rparr>, t)) (\<lambda>(c1, t1).
        let list = th_list c1 cl
        in if fl_max_length list < to_size_t batch_size then Inr (set_list cl (set_max_length (fl_max_length list + 1) list) c1, t1)
           else if fl_max_length list > to_size_t batch_size then
             let list1 = set_length_overages (fl_overages list + 1) list
             in if fl_overages list1 > kMaxOverages then
                  check (fl_max_length list1 > to_size_t batch_size)
                    (Inr (set_list cl (set_length_overages 0 (set_max_length (fl_max_length list1 - batch_size) list1)) c1, t1))
                else Inr (set_list cl list1 c1, t1)
           else Inr (c1, t1))))"

definition scavenge_if_full :: "'k tc_env \<Rightarrow> addr \<Rightarrow> 'k tstate \<Rightarrow> 'k tstate result" where
  "scavenge_if_full env h g = bindR (the_cache g h) (\<lambda>c. if th_size c > th_max_size c then th_Scavenge env h g else Inr g)"

definition ListTooLong :: "'k tc_env \<Rightarrow> addr \<Rightarrow> nat \<Rightarrow> 'k tstate \<Rightarrow> 'k tstate result" where
  "ListTooLong env h cl g = bindR (on_cache h (list_too_long env cl) g) (scavenge_if_full env h)"

text \<open>\<open>Deallocate\<close> up to the comparison of the lengths: whether the list has become too long.\<close>

definition push_to_list :: "addr \<Rightarrow> nat \<Rightarrow> thread_cache \<times> 'k tcm \<Rightarrow> (bool \<times> thread_cache \<times> 'k tcm) result" where
  "push_to_list ptr cl = (\<lambda>(c, t).
     let list = th_list c cl
     in check (fl_max_length list > 0) (check (ptr \<noteq> fl_list list)
       (bindR (fl_Push ptr list (tm_mem t)) (\<lambda>(length, list1, m).
          Inr (length > fl_max_length list1, set_list cl list1 c, t\<lparr>tm_mem := m\<rparr>)))))"

definition add_size :: "nat \<Rightarrow> thread_cache \<Rightarrow> thread_cache result" where
  "add_size cl c = bindR (add32 (th_size c) (fl_size (th_list c cl))) (\<lambda>sz. Inr (c\<lparr>th_size := sz\<rparr>))"

definition Deallocate :: "'k tc_env \<Rightarrow> addr \<Rightarrow> addr \<Rightarrow> nat \<Rightarrow> 'k tstate \<Rightarrow> 'k tstate result" where
  "Deallocate env h ptr cl g =
     bindR (the_cache g h) (\<lambda>c.
     bindR (push_to_list ptr cl (c, tg_tcm g)) (\<lambda>(long, c1, t1).
       let g1 = (set_cache h c1 g)\<lparr>tg_tcm := t1\<rparr>
       in if long then ListTooLong env h cl g1
          else bindR (add_size cl c1) (\<lambda>c2. scavenge_if_full env h (set_cache h c2 g1))))"

section \<open>Caches come and go\<close>

definition fl_zero :: free_list where
  "fl_zero = \<lparr>fl_list = NULL, fl_length = 0, fl_lowater = 0, fl_max_length = 0, fl_overages = 0, fl_size = 0\<rparr>"

text \<open>Memory that was never a cache is zero.\<close>

definition th_zero :: thread_cache where
  "th_zero = \<lparr>th_list = (\<lambda>_. fl_zero), th_size = 0, th_max_size = 0,
     th_sampler = \<lparr>sam_bytes = 0, sam_rnd = 0, sam_initialized = False\<rparr>, th_tid = 0, th_in_setspecific = False\<rparr>"

text \<open>The part of \<open>Init\<close> behind the limits.\<close>

definition init_lists :: "size_map \<Rightarrow> thread_cache \<Rightarrow> thread_cache" where
  "init_lists m c = c\<lparr>th_list := (\<lambda>cl. if cl < num_size_classes m then fl_Init (byte_size_for_class m cl) else th_list c cl)\<rparr>"

definition th_Init :: "addr \<Rightarrow> 64 word \<Rightarrow> 'k tstate \<Rightarrow> 'k tstate result" where
  "th_Init h tid g =
     (let old = (case tg_cache g h of None \<Rightarrow> th_zero | Some c \<Rightarrow> c)
      in bindR (IncreaseCacheLimitLocked h (set_cache h (old\<lparr>th_size := 0, th_max_size := 0\<rparr>) g)) (\<lambda>g1.
         bindR (the_cache g1 h) (\<lambda>c1.
         bindR (if th_max_size c1 = 0 then
                  bindR (SetMaxSize h kMinThreadCacheSize g1) (\<lambda>g2.
                  let g3 = g2\<lparr>tg_unclaimed := tg_unclaimed g2 - kMinThreadCacheSize\<rparr> in check (tg_unclaimed g3 < 0) (Inr g3))
                else Inr g1) (\<lambda>g4.
         bindR (the_cache g4 h) (\<lambda>c4.
         let c5 = init_lists (tm_sizemap (tg_tcm g4)) (c4\<lparr>th_tid := tid, th_in_setspecific := False\<rparr>)
         in bindR (sam_Init (tg_sample_parameter g4) (tg_interval g4) (ucast (ucast tid :: 32 word)) (th_sampler c5)) (\<lambda>sam.
            Inr (set_cache h (c5\<lparr>th_sampler := sam\<rparr>) g4)))))))"

abbreviation tg_world :: "'k tstate \<Rightarrow> 'k world" where
  "tg_world g \<equiv> ph_world (tm_heap (tg_tcm g))"

definition set_world_of :: "'k world \<Rightarrow> 'k tstate \<Rightarrow> 'k tstate" where
  "set_world_of w g = g\<lparr>tg_tcm := (tg_tcm g)\<lparr>tm_heap := (tm_heap (tg_tcm g))\<lparr>ph_world := w\<rparr>\<rparr>\<rparr>"

definition NewHeap :: "'k tc_env \<Rightarrow> 64 word \<Rightarrow> 'k tstate \<Rightarrow> (addr \<times> 'k tstate) result" where
  "NewHeap env tid g =
     bindR (pha_new sizeof_ThreadCache env (fst (tg_allocator g)) (snd (tg_allocator g)) (tg_world g)) (\<lambda>(h, al, ws, w).
     bindR (th_Init h tid ((set_world_of w g)\<lparr>tg_allocator := (al, ws)\<rparr>)) (\<lambda>g1.
     bindR (if tg_heaps g1 \<noteq> [] then Inr g1 else check (tg_steal g1 = NULL) (Inr (g1\<lparr>tg_steal := h\<rparr>))) (\<lambda>g2.
     Inr (h, g2\<lparr>tg_heaps := h # tg_heaps g2, tg_count := tg_count g2 + 1\<rparr>))))"

definition DeleteCache :: "'k tc_env \<Rightarrow> addr \<Rightarrow> 'k tstate \<Rightarrow> 'k tstate result" where
  "DeleteCache env h g =
     bindR (on_cache h (th_Cleanup env) g) (\<lambda>g1.
     bindR (the_cache g1 h) (\<lambda>c.
     let hs = remove1 h (tg_heaps g1);
         s1 = (if tg_steal g1 = h then next_heap (tg_heaps g1) h else tg_steal g1);
         s2 = (if s1 = NULL then (case hs of [] \<Rightarrow> NULL | x # _ \<Rightarrow> x) else s1)
     in bindR (pha_delete h (fst (tg_allocator g1)) (snd (tg_allocator g1))) (\<lambda>(al, ws).
        Inr (g1\<lparr>tg_heaps := hs, tg_count := tg_count g1 - 1, tg_steal := s2,
                tg_unclaimed := tg_unclaimed g1 + th_max_size c, tg_allocator := (al, ws)\<rparr>))))"

section \<open>The cache of a thread\<close>

text \<open>
  \<open>me\<close> is \<open>pthread_self()\<close>. Before \<open>InitTSD\<close> the list of caches is searched for the thread.
\<close>

definition CreateCacheIfNecessary :: "'k tc_env \<Rightarrow> 64 word \<Rightarrow> 'k tstate \<Rightarrow> (addr \<times> 'k tstate) result" where
  "CreateCacheIfNecessary env me g =
     (let found = (if tg_tsd_inited g then None else find (\<lambda>h. map_option th_tid (tg_cache g h) = Some me) (tg_heaps g))
      in bindR (case found of None \<Rightarrow> NewHeap env me g | Some h \<Rightarrow> Inr (h, g)) (\<lambda>(h, g1).
         bindR (the_cache g1 h) (\<lambda>c.
         Inr (h, if \<not> th_in_setspecific c \<and> tg_tsd_inited g1
                 then g1\<lparr>tg_heap_key := (tg_heap_key g1)(me := h), tg_heap := (tg_heap g1)(me := h),
                         tg_fast_path_heap := (tg_fast_path_heap g1)(me := h)\<rparr>
                 else g1))))"

definition GetCache :: "'k tc_env \<Rightarrow> 64 word \<Rightarrow> 'k tstate \<Rightarrow> (addr \<times> 'k tstate) result" where
  "GetCache env me g = (if tg_heap g me = NULL then CreateCacheIfNecessary env me g else Inr (tg_heap g me, g))"

definition InitTSD :: "'k tstate \<Rightarrow> 'k tstate result" where
  "InitTSD g = check (\<not> tg_tsd_inited g) (Inr (g\<lparr>tg_tsd_inited := True, tg_heap_key := (\<lambda>_. NULL)\<rparr>))"

abbreviation clear_heap :: "64 word \<Rightarrow> 'k tstate \<Rightarrow> 'k tstate" where
  "clear_heap me g \<equiv> g\<lparr>tg_heap := (tg_heap g)(me := NULL), tg_fast_path_heap := (tg_fast_path_heap g)(me := NULL)\<rparr>"

definition BecomeIdle :: "'k tc_env \<Rightarrow> 64 word \<Rightarrow> 'k tstate \<Rightarrow> 'k tstate result" where
  "BecomeIdle env me g =
     (if \<not> tg_tsd_inited g then Inr g
      else let h = tg_heap g me
      in if h = NULL then Inr g
         else bindR (the_cache g h) (\<lambda>c.
              if th_in_setspecific c then Inr g
              else DeleteCache env h ((clear_heap me g)\<lparr>tg_heap_key := (tg_heap_key g)(me := NULL)\<rparr>)))"

definition BecomeTemporarilyIdle :: "'k tc_env \<Rightarrow> 64 word \<Rightarrow> 'k tstate \<Rightarrow> 'k tstate result" where
  "BecomeTemporarilyIdle env me g = (if tg_heap g me = NULL then Inr g else on_cache (tg_heap g me) (th_Cleanup env) g)"

definition DestroyThreadCache :: "'k tc_env \<Rightarrow> 64 word \<Rightarrow> addr \<Rightarrow> 'k tstate \<Rightarrow> 'k tstate result" where
  "DestroyThreadCache env me ptr g = (if ptr = NULL then Inr g else DeleteCache env ptr (clear_heap me g))"

text \<open>The end of a thread: the value of the key is cleared and its destructor called.\<close>

definition thread_exit :: "'k tc_env \<Rightarrow> 64 word \<Rightarrow> 'k tstate \<Rightarrow> 'k tstate result" where
  "thread_exit env me g = DestroyThreadCache env me (tg_heap_key g me) (g\<lparr>tg_heap_key := (tg_heap_key g)(me := NULL)\<rparr>)"

section \<open>The overall limit\<close>

text \<open>\<open>scale m space per\<close> is \<open>m * (space / per)\<close> in floating point, converted to \<open>int32\<close>.\<close>

fun rescale :: "(int \<Rightarrow> int \<Rightarrow> int \<Rightarrow> int) \<Rightarrow> int \<Rightarrow> int \<Rightarrow> addr list \<Rightarrow> int \<Rightarrow> 'k tstate \<Rightarrow> (int \<times> 'k tstate) result" where
  "rescale scale space per [] claimed g = Inr (claimed, g)"
| "rescale scale space per (h # hs) claimed g =
     bindR (the_cache g h) (\<lambda>c.
     bindR (if space < per then SetMaxSize h (scale (th_max_size c) space per) g else Inr g) (\<lambda>g1.
     bindR (the_cache g1 h) (\<lambda>c1. rescale scale space per hs (to_size_t (claimed + th_max_size c1)) g1)))"

definition RecomputePerThreadCacheSize :: "(int \<Rightarrow> int \<Rightarrow> int \<Rightarrow> int) \<Rightarrow> 'k tstate \<Rightarrow> 'k tstate result" where
  "RecomputePerThreadCacheSize scale g =
     (let n = (if tg_count g > 0 then tg_count g else 1);
          space = min (max (tg_overall g div n) kMinThreadCacheSize) kMaxThreadCacheSize
      in bindR (rescale scale space (max 1 (tg_per_thread g)) (tg_heaps g) 0 g) (\<lambda>(claimed, g1).
         Inr (g1\<lparr>tg_unclaimed := to_int64 (tg_overall g1 - claimed), tg_per_thread := space\<rparr>)))"

definition set_overall_thread_cache_size :: "(int \<Rightarrow> int \<Rightarrow> int \<Rightarrow> int) \<Rightarrow> int \<Rightarrow> 'k tstate \<Rightarrow> 'k tstate result" where
  "set_overall_thread_cache_size scale new_size g =
     RecomputePerThreadCacheSize scale (g\<lparr>tg_overall := min (max new_size kMinThreadCacheSize) (2 ^ 30)\<rparr>)"

section \<open>Statistics\<close>

fun GetThreadStats :: "'k tstate \<Rightarrow> addr list \<Rightarrow> 64 word \<times> (nat \<Rightarrow> 64 word) \<Rightarrow> (64 word \<times> (nat \<Rightarrow> 64 word)) result" where
  "GetThreadStats g [] r = Inr r"
| "GetThreadStats g (h # hs) r =
     bindR (the_cache g h) (\<lambda>c.
     GetThreadStats g hs (fst r + word_of_int (th_size c),
       (\<lambda>cl. if cl < num_size_classes (tm_sizemap (tg_tcm g)) then snd r cl + word_of_int (fl_length (th_list c cl)) else snd r cl)))"

section \<open>Initialisation\<close>

text \<open>
  \<open>InitModule\<close>: the environment variable \<open>TCMALLOC_MAX_TOTAL_THREAD_CACHE_BYTES\<close> is an argument; the static variables
  of the file have their initial values.
\<close>

definition InitModule ::
  "'k tc_env \<Rightarrow> (int \<Rightarrow> int \<Rightarrow> int \<Rightarrow> int) \<Rightarrow> int \<Rightarrow> bool \<Rightarrow> int \<Rightarrow> (int \<Rightarrow> int \<Rightarrow> int) \<Rightarrow> int option \<Rightarrow> 'k world \<Rightarrow>
   ('k tstate \<times> 'k statics) result" where
  "InitModule env scale transfer aggressive_decommit param interval tcb w =
     bindR (InitStaticVars env transfer aggressive_decommit w) (\<lambda>s.
     bindR (pha_init sizeof_ThreadCache env (\<lambda>_. None) (ph_world (tm_heap (st_tcm s)))) (\<lambda>(al, ws, w1).
     let g = \<lparr>tg_tcm = (st_tcm s)\<lparr>tm_heap := (tm_heap (st_tcm s))\<lparr>ph_world := w1\<rparr>\<rparr>, tg_heaps = [], tg_cache = (\<lambda>_. None), tg_count = 0,
              tg_steal = NULL, tg_overall = kDefaultOverallThreadCacheSize, tg_per_thread = kMaxThreadCacheSize,
              tg_unclaimed = kDefaultOverallThreadCacheSize, tg_allocator = (al, ws), tg_heap = (\<lambda>_. NULL),
              tg_fast_path_heap = (\<lambda>_. NULL), tg_heap_key = (\<lambda>_. NULL), tg_tsd_inited = False,
              tg_sample_parameter = param, tg_interval = interval\<rparr>
     in bindR (case tcb of None \<Rightarrow> Inr g | Some n \<Rightarrow> set_overall_thread_cache_size scale (to_size_t n) g) (\<lambda>g1. Inr (g1, s))))"

end
