(* ===== verification/Thread_Cache_Lists.thy ===== *)
theory Thread_Cache_Lists
  imports Thread_Cache
begin

text \<open>
  One thread cache and the central lists. \<open>L cl\<close> is the sequence of objects in the list of class \<open>cl\<close>, \<open>W\<close> the set of
  the objects that other caches and the program hold: taking and giving back keeps both apart, changes no word of \<open>W\<close>,
  fails no assertion, and the count of bytes is exact.
\<close>

section \<open>Results with limits\<close>

text \<open>The system has no memory, or the 32-bit count of the bytes in a cache is exhausted, or \<open>Q\<close> holds.\<close>

definition unless_limit :: "'a result \<Rightarrow> ('a \<Rightarrow> bool) \<Rightarrow> bool" where
  "unless_limit m Q \<longleftrightarrow> m = Inl OutOfMemory \<or> m = Inl SignedOverflow \<or> sure m Q"

lemma limit_simps [simp]: "unless_limit (Inr x) Q = Q x" "unless_limit (Inl e) Q = (e = OutOfMemory \<or> e = SignedOverflow)"
  by (auto simp: unless_limit_def)

lemma limit_oom: "unless_oom m Q \<Longrightarrow> unless_limit m Q"
  by (auto simp: unless_limit_def unless_oom_def)

lemma limit_sure: "sure m Q \<Longrightarrow> unless_limit m Q"
  by (simp add: unless_limit_def)

lemma limit_bind: "unless_limit m P \<Longrightarrow> (\<And>x. P x \<Longrightarrow> unless_limit (f x) Q) \<Longrightarrow> unless_limit (bindR m f) Q"
  unfolding unless_limit_def sure_def by (metis bindR_simps)

lemma limit_mono: "unless_limit m P \<Longrightarrow> (\<And>x. P x \<Longrightarrow> Q x) \<Longrightarrow> unless_limit m Q"
  by (auto simp: unless_limit_def sure_def)

lemma limit_when: "unless_limit m P \<Longrightarrow> when_ok m Q \<Longrightarrow> unless_limit m (\<lambda>x. P x \<and> Q x)"
  by (auto simp: unless_limit_def sure_def)

lemma add32_limit: "- (2 ^ 31) \<le> a + b \<Longrightarrow> unless_limit (add32 a b) (\<lambda>s. s = a + b \<and> s \<le> int_max)"
  by (simp add: add32_def int_min_def)

section \<open>Writing to objects that are out\<close>

lemma central_mem:
  assumes c: "central_ok env own Y t" and m: "\<And>a. a \<notin> Y \<Longrightarrow> m a = tm_mem t a" "Y \<subseteq> dom m"
  shows "central_ok env own Y (t\<lparr>tm_mem := m\<rparr>)"
proof -
  let ?t = "t\<lparr>tm_mem := m\<rparr>"
  obtain T F where ok: "spans_ok env own F (Y \<union> chained T (used_slots t)) t" and s: "slots_ok T Y t"
    using c by (auto simp: central_ok_def)
  have d: "Y \<inter> chained T (used_slots t) = {}" using s by (simp add: slots_ok_def)
  have u: "used_slots ?t = used_slots t" by (rule used_slots_cong) simp_all
  have same: "m a = tm_mem t a" if "a \<in> chained T (used_slots t)" for a using m(1) d that by blast
  have "Y \<union> chained T (used_slots t) \<subseteq> dom m" using m(2) out_object(1) [OF ok] same by (auto simp: dom_def)
  then have "spans_ok env own F (Y \<union> chained T (used_slots t)) ?t" by (intro spans_ok_mem [OF ok]) (auto simp: m(1))
  moreover have "chain_ok ?t c (cf_tc_slots (tm_central t c) i) (T (c, i))" if i: "(c, i) \<in> used_slots t" for c i
  proof -
    have "\<And>x. x \<in> set (T (c, i)) \<Longrightarrow> m x = tm_mem t x" using same i by (auto simp: chained_def)
    then have "sll m p (T (c, i)) = sll (tm_mem t) p (T (c, i))" for p by (rule lseg_cong)
    then show ?thesis using s i by (simp add: slots_ok_def chain_ok_def)
  qed
  then have "slots_ok T Y ?t" using s unfolding slots_ok_def u by simp
  ultimately show ?thesis unfolding central_ok_def u by blast
qed

lemma central_spans: "central_ok env own Y t \<Longrightarrow> \<exists>F X. Y \<subseteq> X \<and> spans_ok env own F X t"
  unfolding central_ok_def by (elim exE conjE) (rule exI, rule exI, rule conjI [OF Un_upper1], assumption)

lemma central_object:
  assumes "central_ok env own Y t" "y \<in> Y" shows "y \<in> dom (tm_mem t)" "y \<noteq> NULL"
proof -
  obtain F X where X: "Y \<subseteq> X" "spans_ok env own F X t" using central_spans [OF assms(1)] by blast
  then have y: "y \<in> X" using assms(2) by blast
  show "y \<in> dom (tm_mem t)" by (rule out_object(1) [OF X(2) y])
  obtain a s where "sized t a = Some s" "y \<in> cells (tm_sizemap t) s" using out_object(2) [OF X(2) y] by blast
  then show "y \<noteq> NULL" using cell_nonnull [OF X(2)] by force
qed

text \<open>An object has one class.\<close>

lemma class_of_unique:
  assumes "central_ok env own Y t" "class_of t x c" "class_of t x d" shows "c = d"
proof -
  obtain F X where X: "spans_ok env own F X t" using central_spans [OF assms(1)] by blast
  obtain a s b u where s: "sized t a = Some s" "x \<in> cells (tm_sizemap t) s" "sp_sizeclass s = c" and u: "sized t b = Some u" "x \<in> cells (tm_sizemap t) u" "sp_sizeclass u = d"
    using assms(2,3) by (auto simp: class_of_def)
  have "a = b" by (rule cells_disjoint [OF X s(1) u(1) s(2) u(2)])
  then show ?thesis using s u by simp
qed

lemma class_of_pos: "class_of t x c \<Longrightarrow> c \<noteq> 0"
  by (auto simp: class_of_def sized_Some)

lemma kept_mem: "(\<And>y. y \<in> X \<Longrightarrow> m y = tm_mem t y) \<Longrightarrow> kept_objects X t (t\<lparr>tm_mem := m\<rparr>)"
  by (simp add: kept_objects_def)

section \<open>Free lists\<close>

definition fl_ok :: "'k tcm \<Rightarrow> nat \<Rightarrow> free_list \<Rightarrow> addr list \<Rightarrow> bool" where
  "fl_ok t cl fl ys \<longleftrightarrow> sll (tm_mem t) (fl_list fl) ys \<and> fl_length fl = int (length ys) \<and>
     0 \<le> fl_lowater fl \<and> fl_lowater fl \<le> fl_length fl \<and> 1 \<le> fl_max_length fl \<and> fl_max_length fl \<le> kMaxDynamicFreeListLength \<and>
     fl_length fl \<le> kMaxDynamicFreeListLength + 1 \<and> 0 \<le> fl_overages fl \<and> fl_overages fl \<le> kMaxOverages \<and>
     fl_size fl = byte_size_for_class (tm_sizemap t) cl \<and> (\<forall>y\<in>set ys. class_of t y cl)"

definition moves_ok :: "size_map \<Rightarrow> bool" where
  "moves_ok m \<longleftrightarrow> (\<forall>c<num_size_classes m. num_objects_to_move m ! c \<le> kMaxDynamicFreeListLength \<and>
     0 \<le> byte_size_for_class m c \<and> byte_size_for_class m c \<le> kMaxSize)"

lemma fl_ok_kept:
  assumes "kept_objects X t t'" "set ys \<subseteq> X" "fl_ok t cl fl ys" shows "fl_ok t' cl fl ys"
  using assms kept_sll [OF assms(1,2)] unfolding fl_ok_def by (auto simp: kept_objects_def)

lemma to_uint32_id: "0 \<le> x \<Longrightarrow> x < 2 ^ 32 \<Longrightarrow> to_uint32 x = x"
  by (simp add: to_uint32_def)

lemma shorten_sel [simp]: "fl_list (shorten n fl) = fl_list fl" "fl_max_length (shorten n fl) = fl_max_length fl"
    "fl_overages (shorten n fl) = fl_overages fl" "fl_size (shorten n fl) = fl_size fl"
  by (simp_all add: shorten_def Let_def)

lemma fl_ok_shorten:
  assumes "fl_ok t cl fl ys" "k \<le> length ys" "sll m l (drop k ys)"
  shows "fl_ok (t\<lparr>tm_mem := m\<rparr>) cl ((shorten (int k) fl)\<lparr>fl_list := l\<rparr>) (drop k ys)"
proof -
  have "to_uint32 (fl_length fl - int k) = int (length (drop k ys))"
    using assms(1,2) by (subst to_uint32_id) (auto simp: fl_ok_def kMaxDynamicFreeListLength_def)
  then show ?thesis using assms(1,3) set_drop_subset [of k ys] by (auto simp: fl_ok_def shorten_def Let_def)
qed

lemma fl_ok_push:
  assumes "fl_ok t cl fl ys" "p \<noteq> NULL" "p \<in> dom (tm_mem t)" "p \<notin> set ys" "class_of t p cl" "fl_length fl \<le> kMaxDynamicFreeListLength"
  shows "\<exists>fl1. fl_Push p fl (tm_mem t) = Inr (fl_length fl + 1, fl1, (tm_mem t)(p \<mapsto> fl_list fl)) \<and>
    fl_ok (t\<lparr>tm_mem := (tm_mem t)(p \<mapsto> fl_list fl)\<rparr>) cl fl1 (p # ys) \<and> fl_max_length fl1 = fl_max_length fl"
proof -
  have "sll (tm_mem t) (fl_list fl) ys" using assms(1) by (simp add: fl_ok_def)
  note s = SLL_Push_sll [OF this assms(2-4)]
  have "to_uint32 (fl_length fl + 1) = fl_length fl + 1"
    using assms(1,6) by (intro to_uint32_id) (auto simp: fl_ok_def kMaxDynamicFreeListLength_def)
  then have "fl_Push p fl (tm_mem t) = Inr (fl_length fl + 1, fl\<lparr>fl_list := p, fl_length := fl_length fl + 1\<rparr>, (tm_mem t)(p \<mapsto> fl_list fl))"
    by (simp add: fl_Push_def Let_def s(1))
  then show ?thesis using s(2) assms(1,5,6) by (auto simp: fl_ok_def)
qed

section \<open>Giving a range back\<close>

definition range_back :: "'k tc_env \<Rightarrow> ('k \<Rightarrow> addr set) \<Rightarrow> addr set \<Rightarrow> nat \<Rightarrow> nat \<Rightarrow> addr list \<Rightarrow> free_list \<Rightarrow> 'k tcm \<Rightarrow> free_list \<Rightarrow> 'k tcm \<Rightarrow> bool" where
  "range_back env own Y cl k ys fl t fl' t' \<longleftrightarrow> central_ok env own (Y \<union> set (drop k ys)) t' \<and>
     kept_objects (Y \<union> set (drop k ys)) t t' \<and> fl_ok t' cl fl' (drop k ys) \<and> fl_max_length fl' = fl_max_length fl \<and> fl_overages fl' = fl_overages fl"

lemma pop_insert:
  assumes ok: "central_ok env own (Y \<union> set ys) t" and d: "Y \<inter> set ys = {}" and fl: "fl_ok t cl fl ys"
    and k: "0 < k" "k \<le> length ys" and cl: "cl < num_size_classes (tm_sizemap t)" "cl \<noteq> 0"
  shows "sure (bindR (fl_PopRange (int k) fl (tm_mem t)) (\<lambda>(head, tail, fl1, m).
      bindR (InsertRange env cl head tail (int k) (t\<lparr>tm_mem := m\<rparr>)) (\<lambda>t1. Inr (fl1, t1)))) (\<lambda>(fl1, t1). range_back env own Y cl k ys fl t fl1 t1)"
proof -
  let ?xs = "take k ys" and ?zs = "drop k ys"
  have l: "sll (tm_mem t) (fl_list fl) ys" "fl_length fl = int (length ys)" "fl_length fl \<le> kMaxDynamicFreeListLength + 1" using fl by (simp_all add: fl_ok_def)
  obtain q e m where p: "SLL_PopRange (tm_mem t) (fl_list fl) (int k) = Inr (q, fl_list fl, e, m)" "sll m (fl_list fl) ?xs" "sll m q ?zs"
      "e = last ?xs" "m = (tm_mem t)(e \<mapsto> NULL)"
    using SLL_PopRange_all [OF l(1) k] by blast
  have ne: "?xs \<noteq> []" using k by auto
  have e: "e \<in> set ?xs" using p(4) ne last_in_set by blast
  have dis: "set ?xs \<inter> set ?zs = {}" using set_take_disj_set_drop_if_distinct [OF sll_distinct [OF l(1)] le_refl] .
  have un: "set ys = set ?xs \<union> set ?zs" by (metis append_take_drop_id set_append)
  have ey: "e \<in> Y \<union> set ys" "e \<notin> Y \<union> set ?zs" using e dis d un by blast+
  let ?fl = "(shorten (int k) fl)\<lparr>fl_list := q\<rparr>" and ?t = "t\<lparr>tm_mem := m\<rparr>"
  have "to_uint32 (int k) = int k" using k l(2,3) by (intro to_uint32_id) (auto simp: kMaxDynamicFreeListLength_def)
  then have pop: "fl_PopRange (int k) fl (tm_mem t) = Inr (fl_list fl, e, ?fl, m)"
    using k(2) l(2) by (simp add: fl_PopRange_def p(1))
  have ok1: "central_ok env own (Y \<union> set ys) ?t"
    using ey(1) central_object(1) [OF ok] by (intro central_mem [OF ok]) (auto simp: p(5))
  have cls: "\<forall>y\<in>set ?xs. class_of ?t y cl" using fl un by (auto simp: fl_ok_def)
  have "sure (InsertRange env cl (fl_list fl) e (int k) ?t) (passed env own (Y \<union> set ys) (Y \<union> set ys - set ?xs) ?t)"
    by (rule InsertRange_ok [OF ok1 _ cl(2)]) (use cl(1) p k(2) un cls in auto)
  moreover have "Y \<union> set ys - set ?xs = Y \<union> set ?zs" "(Y \<union> set ys) \<inter> (Y \<union> set ?zs) = Y \<union> set ?zs" using un dis d by blast+
  ultimately have ins: "sure (InsertRange env cl (fl_list fl) e (int k) ?t) (\<lambda>t1. central_ok env own (Y \<union> set ?zs) t1 \<and> kept_objects (Y \<union> set ?zs) ?t t1)"
    by (auto simp: passed_def elim!: sure_mono)
  have k0: "kept_objects (Y \<union> set ?zs) t ?t" using ey(2) by (intro kept_mem) (auto simp: p(5))
  have f1: "fl_ok ?t cl ?fl ?zs" by (rule fl_ok_shorten [OF fl k(2) p(3)])
  show ?thesis unfolding pop bindR_simps prod.case
  proof (rule sure_bind [OF ins])
    fix t1 assume t1: "central_ok env own (Y \<union> set ?zs) t1 \<and> kept_objects (Y \<union> set ?zs) ?t t1"
    then have "fl_ok t1 cl ?fl ?zs" using fl_ok_kept [OF _ _ f1] by blast
    then show "sure (Inr (?fl, t1)) (\<lambda>(fl1, t1). range_back env own Y cl k ys fl t fl1 t1)"
      using t1 kept_trans(1) [OF k0] by (simp add: range_back_def)
  qed
qed

lemma range_back_trans:
  assumes "range_back env own Y cl j ys fl t fl1 t1" "range_back env own Y cl k (drop j ys) fl1 t1 fl2 t2"
  shows "range_back env own Y cl (j + k) ys fl t fl2 t2"
proof -
  have e: "drop k (drop j ys) = drop (j + k) ys" by (simp add: add.commute)
  have "set (drop (j + k) ys) \<subseteq> set (drop j ys)" by (metis e set_drop_subset)
  then have "kept_objects (Y \<union> set (drop (j + k) ys)) t t1" using assms(1) by (auto simp: range_back_def intro: kept_mono(1))
  then have "kept_objects (Y \<union> set (drop (j + k) ys)) t t2"
    by (rule kept_trans(1)) (use assms(2) in \<open>simp add: range_back_def add.commute\<close>)
  then show ?thesis using assms by (simp add: range_back_def add.commute)
qed

lemma bindR_pair: "bindR (bindR m (\<lambda>(x, y). f x y)) g = bindR m (\<lambda>(x, y). bindR (f x y) g)"
  by (cases m) (auto split: prod.splits)

lemma release_range:
  assumes "central_ok env own (Y \<union> set ys) t" "Y \<inter> set ys = {}" "fl_ok t cl fl ys"
    and "0 < k" "k \<le> length ys" and cl: "cl < num_size_classes (tm_sizemap t)" "cl \<noteq> 0" and b: "0 < batch"
  shows "sure (bindR (release_batches env cl (int batch) (int k) fl t) (\<lambda>(n1, fl1, t1).
      bindR (fl_PopRange n1 fl1 (tm_mem t1)) (\<lambda>(head, tail, fl2, m).
      bindR (InsertRange env cl head tail n1 (t1\<lparr>tm_mem := m\<rparr>)) (\<lambda>t2. Inr (fl2, t2))))) (\<lambda>(fl2, t2). range_back env own Y cl k ys fl t fl2 t2)"
  using assms
proof (induction k arbitrary: ys fl t rule: less_induct)
  case (less k)
  let ?r = "\<lambda>(n1, fl1, t1). bindR (fl_PopRange n1 fl1 (tm_mem t1)) (\<lambda>(head, tail, fl2, m).
      bindR (InsertRange env cl head tail n1 (t1\<lparr>tm_mem := m\<rparr>)) (\<lambda>t2. Inr (fl2, t2)))"
  show ?case
  proof (cases "k \<le> batch")
    case True
    then have "release_batches env cl (int batch) (int k) fl t = Inr (int k, fl, t)" by (subst release_batches.simps) simp
    then show ?thesis using pop_insert [OF less.prems(1-7)] by simp
  next
    case False
    let ?p = "bindR (fl_PopRange (int batch) fl (tm_mem t)) (\<lambda>(head, tail, fl1, m).
        bindR (InsertRange env cl head tail (int batch) (t\<lparr>tm_mem := m\<rparr>)) (\<lambda>t1. Inr (fl1, t1)))"
    have "release_batches env cl (int batch) (int k) fl t = bindR ?p (\<lambda>(fl1, t1). release_batches env cl (int batch) (int (k - batch)) fl1 t1)"
      using b False by (subst release_batches.simps) (simp add: bindR_assoc split_def of_nat_diff)
    then have e: "bindR (release_batches env cl (int batch) (int k) fl t) ?r = bindR ?p (\<lambda>(fl1, t1). bindR (release_batches env cl (int batch) (int (k - batch)) fl1 t1) ?r)"
      by (simp only: bindR_pair)
    have bl: "batch \<le> length ys" using False less.prems(5) by simp
    show ?thesis unfolding e
    proof (rule sure_bind [OF pop_insert [OF less.prems(1-3) b bl less.prems(6,7)]], clarify)
      fix fl1 t1 assume r: "range_back env own Y cl batch ys fl t fl1 t1"
      have s: "tm_sizemap t1 = tm_sizemap t" using r by (simp add: range_back_def kept_objects_def)
      have "sure (bindR (release_batches env cl (int batch) (int (k - batch)) fl1 t1) ?r)
          (\<lambda>(fl2, t2). range_back env own Y cl (k - batch) (drop batch ys) fl1 t1 fl2 t2)"
        by (rule less.IH) (use r False less.prems b s set_drop_subset [of batch ys] in \<open>auto simp: range_back_def\<close>)
      then show "sure (bindR (release_batches env cl (int batch) (int (k - batch)) fl1 t1) ?r) (\<lambda>(fl2, t2). range_back env own Y cl k ys fl t fl2 t2)"
        by (rule sure_mono) (use range_back_trans [OF r] False in force)
    qed
  qed
qed

section \<open>One cache\<close>

definition held :: "size_map \<Rightarrow> (nat \<Rightarrow> addr list) \<Rightarrow> addr set" where
  "held m L = (\<Union>cl<num_size_classes m. set (L cl))"

definition others :: "size_map \<Rightarrow> nat \<Rightarrow> (nat \<Rightarrow> addr list) \<Rightarrow> addr set" where
  "others m cl L = (\<Union>d\<in>{..<num_size_classes m} - {cl}. set (L d))"

definition bytes_in :: "size_map \<Rightarrow> (nat \<Rightarrow> addr list) \<Rightarrow> int" where
  "bytes_in m L = (\<Sum>cl<num_size_classes m. int (length (L cl)) * byte_size_for_class m cl)"

definition lists_in :: "'k tc_env \<Rightarrow> ('k \<Rightarrow> addr set) \<Rightarrow> addr set \<Rightarrow> thread_cache \<Rightarrow> (nat \<Rightarrow> addr list) \<Rightarrow> 'k tcm \<Rightarrow> bool" where
  "lists_in env own W c L t \<longleftrightarrow> central_ok env own (W \<union> held (tm_sizemap t) L) t \<and> W \<inter> held (tm_sizemap t) L = {} \<and> moves_ok (tm_sizemap t) \<and>
     (\<forall>cl<num_size_classes (tm_sizemap t). fl_ok t cl (th_list c cl) (L cl))"

lemma lists_in_size [simp]: "lists_in env own W (c\<lparr>th_size := s\<rparr>) L t = lists_in env own W c L t"
  by (simp add: lists_in_def)

definition th_rep :: "'k tc_env \<Rightarrow> ('k \<Rightarrow> addr set) \<Rightarrow> addr set \<Rightarrow> thread_cache \<Rightarrow> (nat \<Rightarrow> addr list) \<Rightarrow> 'k tcm \<Rightarrow> bool" where
  "th_rep env own W c L t \<longleftrightarrow> lists_in env own W c L t \<and> th_size c = bytes_in (tm_sizemap t) L \<and> th_size c \<le> int_max"

definition same_cache :: "thread_cache \<Rightarrow> thread_cache \<Rightarrow> bool" where
  "same_cache c c' \<longleftrightarrow> th_max_size c' = th_max_size c \<and> th_sampler c' = th_sampler c \<and> th_tid c' = th_tid c \<and> th_in_setspecific c' = th_in_setspecific c"

definition shrunk :: "(nat \<Rightarrow> addr list) \<Rightarrow> (nat \<Rightarrow> addr list) \<Rightarrow> bool" where
  "shrunk L L' \<longleftrightarrow> (\<forall>cl. \<exists>k. L' cl = drop k (L cl))"

lemma shrunk_refl [simp]: "shrunk L L"
  unfolding shrunk_def by (metis drop0)

lemma shrunk_trans: "shrunk L L1 \<Longrightarrow> shrunk L1 L2 \<Longrightarrow> shrunk L L2"
  unfolding shrunk_def by (metis drop_drop)

lemma shrunk_upd: "shrunk L (L(cl := drop k (L cl)))"
  unfolding shrunk_def by (metis drop0 fun_upd_apply)

lemma shrunk_sub: assumes "shrunk L L'" shows "set (L' cl) \<subseteq> set (L cl)" "length (L' cl) \<le> length (L cl)"
proof -
  obtain k where "L' cl = drop k (L cl)" using assms by (auto simp: shrunk_def)
  then show "set (L' cl) \<subseteq> set (L cl)" "length (L' cl) \<le> length (L cl)" by (simp_all add: set_drop_subset)
qed

lemma same_cache_trans: "same_cache c c1 \<Longrightarrow> same_cache c1 c2 \<Longrightarrow> same_cache c c2"
  by (simp add: same_cache_def)

lemma held_split: "cl < num_size_classes m \<Longrightarrow> held m L = others m cl L \<union> set (L cl)"
  by (auto simp: held_def others_def)

lemma others_upd [simp]: "others m cl (L(cl := ys)) = others m cl L"
  by (auto simp: others_def)

lemma bytes_upd:
  assumes "cl < num_size_classes m"
  shows "bytes_in m (L(cl := ys)) = bytes_in m L + (int (length ys) - int (length (L cl))) * byte_size_for_class m cl"
proof -
  have "bytes_in m K = (\<Sum>d\<in>{..<num_size_classes m} - {cl}. int (length (K d)) * byte_size_for_class m d) + int (length (K cl)) * byte_size_for_class m cl" for K
    unfolding bytes_in_def by (subst sum.remove [of _ cl]) (use assms in auto)
  moreover have "(\<Sum>d\<in>{..<num_size_classes m} - {cl}. int (length ((L(cl := ys)) d)) * byte_size_for_class m d) =
      (\<Sum>d\<in>{..<num_size_classes m} - {cl}. int (length (L d)) * byte_size_for_class m d)" by (rule sum.cong) auto
  ultimately show ?thesis by (simp add: left_diff_distrib)
qed

lemma bytes_nonneg: "moves_ok m \<Longrightarrow> 0 \<le> bytes_in m L"
  unfolding bytes_in_def by (intro sum_nonneg) (auto simp: moves_ok_def)

text \<open>The lists of different classes are apart, because an object has one class.\<close>

lemma lists_in_apart:
  assumes "lists_in env own W c L t" "cl < num_size_classes (tm_sizemap t)"
  shows "(W \<union> others (tm_sizemap t) cl L) \<inter> set (L cl) = {}" "W \<inter> others (tm_sizemap t) cl L = {}"
proof -
  have "y \<notin> others (tm_sizemap t) cl L" if "y \<in> set (L cl)" for y
  proof
    assume "y \<in> others (tm_sizemap t) cl L"
    then obtain d where d: "d < num_size_classes (tm_sizemap t)" "d \<noteq> cl" "y \<in> set (L d)" by (auto simp: others_def)
    then have "class_of t y cl" "class_of t y d" using assms that by (auto simp: lists_in_def fl_ok_def)
    then show False using class_of_unique d(2) assms(1) unfolding lists_in_def by blast
  qed
  then show "(W \<union> others (tm_sizemap t) cl L) \<inter> set (L cl) = {}" "W \<inter> others (tm_sizemap t) cl L = {}"
    using assms held_split [OF assms(2), of L] by (auto simp: lists_in_def)
qed

text \<open>One list of the cache changes.\<close>

lemma lists_in_set:
  assumes ok: "lists_in env own W c L t" and cl: "cl < num_size_classes (tm_sizemap t)"
    and k: "kept_objects (others (tm_sizemap t) cl L) t t'"
    and new: "fl_ok t' cl fl ys" "central_ok env own (V \<union> others (tm_sizemap t) cl L \<union> set ys) t'" "V \<inter> (others (tm_sizemap t) cl L \<union> set ys) = {}"
  shows "lists_in env own V (c\<lparr>th_list := (th_list c)(cl := fl), th_size := s\<rparr>) (L(cl := ys)) t'"
proof -
  have m: "tm_sizemap t' = tm_sizemap t" using k by (simp add: kept_objects_def)
  have h: "held (tm_sizemap t) (L(cl := ys)) = others (tm_sizemap t) cl L \<union> set ys" by (simp add: held_split [OF cl])
  have "fl_ok t' d (th_list c d) (L d)" if "d < num_size_classes (tm_sizemap t)" "d \<noteq> cl" for d
    by (rule fl_ok_kept [OF k]) (use that ok in \<open>auto simp: others_def lists_in_def\<close>)
  then show ?thesis using ok new by (auto simp: lists_in_def m h Un_assoc)
qed

lemma lists_in_kept:
  assumes "lists_in env own W c L t" "kept_objects (held (tm_sizemap t) L) t t'"
    and "central_ok env own (V \<union> held (tm_sizemap t) L) t'" "V \<inter> held (tm_sizemap t) L = {}"
  shows "lists_in env own V c L t'"
proof -
  have m: "tm_sizemap t' = tm_sizemap t" using assms(2) by (simp add: kept_objects_def)
  have "fl_ok t' cl (th_list c cl) (L cl)" if "cl < num_size_classes (tm_sizemap t)" for cl
    by (rule fl_ok_kept [OF assms(2)]) (use that assms(1) in \<open>auto simp: held_def lists_in_def\<close>)
  then show ?thesis using assms by (simp add: lists_in_def m)
qed

lemma move_bounds:
  assumes "lists_in env own W c L t" "cl < num_size_classes (tm_sizemap t)" "cl \<noteq> 0"
  shows "1 \<le> objects_to_move t cl" "objects_to_move t cl \<le> kMaxDynamicFreeListLength" "to_size_t (objects_to_move t cl) = objects_to_move t cl"
    "8 \<le> byte_size_for_class (tm_sizemap t) cl" "byte_size_for_class (tm_sizemap t) cl \<le> kMaxSize"
proof -
  have "class_fits (tm_sizemap t) cl"
    using classes_okD [OF central_okD(1), of env own "W \<union> held (tm_sizemap t) L" t cl] assms by (auto simp: lists_in_def)
  moreover have "objects_to_move t cl \<le> kMaxDynamicFreeListLength \<and> byte_size_for_class (tm_sizemap t) cl \<le> kMaxSize"
    using assms by (auto simp: lists_in_def moves_ok_def)
  ultimately show "1 \<le> objects_to_move t cl" "objects_to_move t cl \<le> kMaxDynamicFreeListLength" "to_size_t (objects_to_move t cl) = objects_to_move t cl"
      "8 \<le> byte_size_for_class (tm_sizemap t) cl" "byte_size_for_class (tm_sizemap t) cl \<le> kMaxSize"
    by (auto simp: class_fits_def kMaxDynamicFreeListLength_def to_size_t_id)
qed

definition released :: "'k tc_env \<Rightarrow> ('k \<Rightarrow> addr set) \<Rightarrow> addr set \<Rightarrow> nat \<Rightarrow> nat \<Rightarrow> thread_cache \<Rightarrow> (nat \<Rightarrow> addr list) \<Rightarrow> 'k tcm \<Rightarrow> thread_cache \<Rightarrow> 'k tcm \<Rightarrow> bool" where
  "released env own W cl k c L t c' t' \<longleftrightarrow> th_rep env own W c' (L(cl := drop k (L cl))) t' \<and> kept_objects W t t' \<and> same_cache c c' \<and>
     fl_max_length (th_list c' cl) = fl_max_length (th_list c cl) \<and> fl_overages (th_list c' cl) = fl_overages (th_list c cl)"

lemma ReleaseToCentralCache_ok:
  assumes r: "th_rep env own W c L t" and cl: "cl < num_size_classes (tm_sizemap t)" "cl \<noteq> 0"
    and N: "0 < N" "N < 2 ^ 31" "L cl \<noteq> []"
  shows "sure (ReleaseToCentralCache env cl N (c, t)) (\<lambda>(c', t'). released env own W cl (min (nat N) (length (L cl))) c L t c' t')"
proof -
  let ?ys = "L cl" and ?k = "min (nat N) (length (L cl))" and ?fl = "th_list c cl" and ?m = "tm_sizemap t"
  let ?Y = "W \<union> others ?m cl L" and ?sz = "byte_size_for_class ?m cl"
  have li: "lists_in env own W c L t" and sz: "th_size c = bytes_in ?m L" "th_size c \<le> int_max" using r by (simp_all add: th_rep_def)
  note mb = move_bounds [OF li cl]
  have fl: "fl_ok t cl ?fl ?ys" using li cl by (simp add: lists_in_def)
  then have len: "fl_length ?fl = int (length ?ys)" "length ?ys \<le> 8193" by (simp_all add: fl_ok_def kMaxDynamicFreeListLength_def)
  have k: "0 < ?k" "?k \<le> length ?ys" using N by auto
  have n: "(if to_size_t N > fl_length ?fl then to_int32 (fl_length ?fl) else N) = int ?k"
    using N len by (auto simp: to_size_t_id to_int32_id)
  have ok: "central_ok env own (?Y \<union> set ?ys) t" using li held_split [OF cl(1), of L] by (simp add: lists_in_def Un_assoc)
  note ap = lists_in_apart [OF li cl(1)]
  define b where "b = nat (objects_to_move t cl)"
  have b: "objects_to_move t cl = int b" "0 < b" using mb(1) by (simp_all add: b_def)
  have ksz: "0 \<le> int ?k * ?sz" "int ?k * ?sz \<le> 8193 * kMaxSize" using mb(4,5) len(2) k(2) by (auto intro!: mult_mono)
  then have delta: "to_size_t (int ?k * ?sz) = int ?k * ?sz" by (simp add: to_size_t_id kMaxSize_def)
  have bu: "bytes_in ?m (L(cl := drop ?k ?ys)) = bytes_in ?m L - int ?k * ?sz"
    using k(2) by (simp add: bytes_upd [OF cl(1)] of_nat_diff left_diff_distrib algebra_simps)
  have pos: "0 \<le> bytes_in ?m (L(cl := drop ?k ?ys))" using li by (intro bytes_nonneg) (simp add: lists_in_def)
  have size: "to_int32 (th_size c - int ?k * ?sz) = bytes_in ?m (L(cl := drop ?k ?ys))"
    using bu pos sz ksz by (subst to_int32_id) (auto simp: int_max_def)
  have run: "ReleaseToCentralCache env cl N (c, t) = bindR (bindR (release_batches env cl (int b) (int ?k) ?fl t) (\<lambda>(n1, fl1, t1).
      bindR (fl_PopRange n1 fl1 (tm_mem t1)) (\<lambda>(head, tail, fl2, m).
      bindR (InsertRange env cl head tail n1 (t1\<lparr>tm_mem := m\<rparr>)) (\<lambda>t2. Inr (fl2, t2))))) (\<lambda>(fl2, t2).
      Inr (c\<lparr>th_list := (th_list c)(cl := fl2), th_size := bytes_in ?m (L(cl := drop ?k ?ys))\<rparr>, t2))"
    unfolding ReleaseToCentralCache_def Let_def prod.case n b(1) delta size by (simp add: bindR_assoc split_def)
  show ?thesis unfolding run
  proof (rule sure_bind [OF release_range [OF ok ap(1) fl k cl b(2)]], clarify)
    fix fl2 t2 assume rb: "range_back env own ?Y cl ?k ?ys ?fl t fl2 t2"
    let ?c = "c\<lparr>th_list := (th_list c)(cl := fl2), th_size := bytes_in ?m (L(cl := drop ?k ?ys))\<rparr>"
    have dr: "set (drop ?k ?ys) \<subseteq> set ?ys" by (rule set_drop_subset)
    have ko: "kept_objects (others ?m cl L) t t2" "kept_objects W t t2" using rb by (auto simp: range_back_def intro: kept_mono(1))
    have "lists_in env own W ?c (L(cl := drop ?k ?ys)) t2"
      by (rule lists_in_set [OF li cl(1) ko(1)]) (use rb ap dr in \<open>auto simp: range_back_def\<close>)
    moreover have "tm_sizemap t2 = ?m" using ko(2) by (simp add: kept_objects_def)
    ultimately have "th_rep env own W ?c (L(cl := drop ?k ?ys)) t2" using bu sz(1,2) ksz(1) by (simp add: th_rep_def)
    then show "sure (Inr (?c, t2)) (\<lambda>(c', t'). released env own W cl ?k c L t c' t')"
      using ko(2) rb by (simp add: released_def same_cache_def range_back_def)
  qed
qed

end
