(* ===== verification/Thread_Cache_Ops.thy ===== *)
theory Thread_Cache_Ops
  imports Thread_Cache_Lists
begin

text \<open>
  The operations of one thread cache, each against its lists: taking an object, putting one back, emptying
  lists and scavenging.
\<close>

section \<open>Tuning of the lists\<close>

definition tuned :: "free_list \<Rightarrow> free_list \<Rightarrow> bool" where
  "tuned fl fl' \<longleftrightarrow> fl_list fl' = fl_list fl \<and> fl_length fl' = fl_length fl \<and> fl_size fl' = fl_size fl \<and>
     0 \<le> fl_lowater fl' \<and> fl_lowater fl' \<le> fl_length fl' \<and> 1 \<le> fl_max_length fl' \<and> fl_max_length fl' \<le> kMaxDynamicFreeListLength \<and>
     0 \<le> fl_overages fl' \<and> fl_overages fl' \<le> kMaxOverages"

lemma fl_ok_tuned: "fl_ok t cl fl ys \<Longrightarrow> tuned fl fl' \<Longrightarrow> fl_ok t cl fl' ys"
  by (simp add: fl_ok_def tuned_def)

lemma th_rep_tuned:
  assumes "th_rep env own W c L t" "tuned (th_list c cl) fl"
  shows "th_rep env own W (set_list cl fl c) L t"
proof -
  have "fl_ok t d (th_list (set_list cl fl c) d) (L d)" if "d < num_size_classes (tm_sizemap t)" for d
  proof (cases "d = cl")
    case True
    then show ?thesis using fl_ok_tuned [OF _ assms(2), of t cl "L cl"] assms(1) that by (simp add: th_rep_def lists_in_def)
  qed (use assms(1) that in \<open>simp add: th_rep_def lists_in_def\<close>)
  then show ?thesis using assms(1) by (simp add: th_rep_def lists_in_def)
qed

lemma th_rep_fl:
  assumes "th_rep env own W c L t" "cl < num_size_classes (tm_sizemap t)"
  shows "fl_ok t cl (th_list c cl) (L cl)"
  using assms by (simp add: th_rep_def lists_in_def)

text \<open>The list of class 0 is never used.\<close>

lemma th_rep_zero:
  assumes "th_rep env own W c L t" "0 < num_size_classes (tm_sizemap t)" shows "L 0 = []"
proof (rule ccontr)
  assume "L 0 \<noteq> []"
  then have "class_of t (hd (L 0)) 0" using th_rep_fl [OF assms] by (auto simp: fl_ok_def)
  then show False using class_of_pos by blast
qed

lemma tuned_max: "fl_ok t cl fl ys \<Longrightarrow> 1 \<le> n \<Longrightarrow> n \<le> kMaxDynamicFreeListLength \<Longrightarrow> tuned fl (set_max_length n fl)"
  by (simp add: tuned_def fl_ok_def set_max_length_def to_uint32_id kMaxDynamicFreeListLength_def)

section \<open>Scavenging\<close>

text \<open>A step of one cache that only gives objects back.\<close>

definition gives_back :: "'k tc_env \<Rightarrow> ('k \<Rightarrow> addr set) \<Rightarrow> addr set \<Rightarrow> thread_cache \<Rightarrow> (nat \<Rightarrow> addr list) \<Rightarrow> 'k tcm \<Rightarrow> thread_cache \<times> 'k tcm \<Rightarrow> bool" where
  "gives_back env own W c L t = (\<lambda>(c', t'). \<exists>L'. shrunk L L' \<and> th_rep env own W c' L' t' \<and> kept_objects W t t' \<and> same_cache c c')"

lemma gives_back_refl: "th_rep env own W c L t \<Longrightarrow> gives_back env own W c L t (c, t)"
  by (auto simp: gives_back_def same_cache_def intro!: exI [of _ L])

lemma gives_back_trans:
  assumes "shrunk L L1" "kept_objects W t t1" "same_cache c c1" "gives_back env own W c1 L1 t1 s"
  shows "gives_back env own W c L t s"
proof -
  obtain c2 t2 L2 where s: "s = (c2, t2)" "shrunk L1 L2" "th_rep env own W c2 L2 t2" "kept_objects W t1 t2" "same_cache c1 c2"
    using assms(4) by (cases s) (auto simp: gives_back_def)
  then show ?thesis
    using shrunk_trans [OF assms(1) s(2)] kept_trans(1) [OF assms(2) s(4)] same_cache_trans [OF assms(3) s(5)] by (auto simp: gives_back_def)
qed

lemma scavenge_list_ok:
  assumes r: "th_rep env own W c L t" and cl: "cl < num_size_classes (tm_sizemap t)"
  shows "sure (scavenge_list env cl (c, t)) (gives_back env own W c L t)"
proof -
  let ?fl = "th_list c cl" and ?lo = "fl_lowater (th_list c cl)"
  have fl: "fl_ok t cl ?fl (L cl)" by (rule th_rep_fl [OF r cl])
  then have lo: "0 \<le> ?lo" "?lo \<le> int (length (L cl))" "length (L cl) \<le> 8193" by (simp_all add: fl_ok_def kMaxDynamicFreeListLength_def)
  then have ti: "to_int32 ?lo = ?lo" by (simp add: to_int32_id)
  have clear: "gives_back env own W c1 L1 t1 (set_list cl (clear_lowwatermark (th_list c1 cl)) c1, t1)"
    if r1: "th_rep env own W c1 L1 t1" "cl < num_size_classes (tm_sizemap t1)" for c1 L1 t1
  proof -
    have "tuned (th_list c1 cl) (clear_lowwatermark (th_list c1 cl))"
      using th_rep_fl [OF r1] by (simp add: tuned_def fl_ok_def clear_lowwatermark_def)
    then show ?thesis using th_rep_tuned [OF r1(1)] by (auto simp: gives_back_def same_cache_def intro!: exI [of _ L1])
  qed
  show ?thesis
  proof (cases "?lo > 0")
    case False
    then show ?thesis using clear [OF r cl] by (simp add: scavenge_list_def Let_def ti)
  next
    case True
    let ?d = "if ?lo > 1 then ?lo div 2 else 1"
    have d: "0 < ?d" "?d < 2 ^ 31" "L cl \<noteq> []" using True lo by auto
    have c0: "cl \<noteq> 0" using d(3) th_rep_zero [OF r] cl by (cases "cl = 0") auto
    define k where "k = min (nat ?d) (length (L cl))"
    let ?tune = "\<lambda>c1 t1. if fl_max_length (th_list c1 cl) > to_size_t (objects_to_move t1 cl)
      then set_list cl (set_max_length (max (to_int32 (fl_max_length (th_list c1 cl) - objects_to_move t1 cl)) (objects_to_move t1 cl)) (th_list c1 cl)) c1 else c1"
    have run: "scavenge_list env cl (c, t) = bindR (ReleaseToCentralCache env cl ?d (c, t)) (\<lambda>(c1, t1).
        Inr (set_list cl (clear_lowwatermark (th_list (?tune c1 t1) cl)) (?tune c1 t1), t1))"
      unfolding scavenge_list_def Let_def prod.case ti if_P [OF True] bindR_assoc by (rule arg_cong [where f = "bindR _"]) (auto simp: fun_eq_iff)
    show ?thesis unfolding run
    proof (rule sure_bind [OF ReleaseToCentralCache_ok [OF r cl c0 d]], clarify)
      fix c1 t1 assume "released env own W cl (min (nat ?d) (length (L cl))) c L t c1 t1"
      then have rel: "released env own W cl k c L t c1 t1" by (simp only: k_def)
      then have r1: "th_rep env own W c1 (L(cl := drop k (L cl))) t1" and k1: "kept_objects W t t1" "same_cache c c1" by (simp_all add: released_def)
      have cl1: "cl < num_size_classes (tm_sizemap t1)" using cl k1(1) by (simp add: kept_objects_def)
      have "lists_in env own W c1 (L(cl := drop k (L cl))) t1" using r1 by (simp add: th_rep_def)
      note mb = move_bounds [OF this cl1 c0]
      note f1 = th_rep_fl [OF r1 cl1]
      have mx: "1 \<le> fl_max_length (th_list c1 cl)" "fl_max_length (th_list c1 cl) \<le> 8192" using f1 by (simp_all add: fl_ok_def kMaxDynamicFreeListLength_def)
      have r2: "th_rep env own W (?tune c1 t1) (L(cl := drop k (L cl))) t1"
      proof (cases "fl_max_length (th_list c1 cl) > to_size_t (objects_to_move t1 cl)")
        case True
        have "to_int32 (fl_max_length (th_list c1 cl) - objects_to_move t1 cl) = fl_max_length (th_list c1 cl) - objects_to_move t1 cl"
          using mx mb(1,2) by (simp add: to_int32_id kMaxDynamicFreeListLength_def)
        then have "tuned (th_list c1 cl) (set_max_length (max (to_int32 (fl_max_length (th_list c1 cl) - objects_to_move t1 cl)) (objects_to_move t1 cl)) (th_list c1 cl))"
          by (intro tuned_max [OF f1]) (use mx mb(1,2) in \<open>auto simp: kMaxDynamicFreeListLength_def\<close>)
        then show ?thesis using th_rep_tuned [OF r1] True by simp
      qed (use r1 in simp)
      have sc: "same_cache c (?tune c1 t1)" using k1(2) by (simp add: same_cache_def)
      show "sure (Inr (set_list cl (clear_lowwatermark (th_list (?tune c1 t1) cl)) (?tune c1 t1), t1)) (gives_back env own W c L t)"
        unfolding sure_simps by (rule gives_back_trans [OF shrunk_upd k1(1) sc clear [OF r2 cl1]])
    qed
  qed
qed

lemma scavenge_lists_ok:
  assumes "th_rep env own W c L t" "\<forall>cl\<in>set cls. cl < num_size_classes (tm_sizemap t)"
  shows "sure (scavenge_lists env cls (c, t)) (gives_back env own W c L t)"
  using assms
proof (induction cls arbitrary: c L t)
  case Nil
  then show ?case by (simp add: gives_back_refl)
next
  case (Cons cl cls)
  have cl: "cl < num_size_classes (tm_sizemap t)" using Cons.prems(2) by simp
  show ?case unfolding scavenge_lists.simps
  proof (rule sure_bind [OF scavenge_list_ok [OF Cons.prems(1) cl]])
    fix s assume "gives_back env own W c L t s"
    then obtain c1 t1 L1 where s: "s = (c1, t1)" "shrunk L L1" "th_rep env own W c1 L1 t1" "kept_objects W t t1" "same_cache c c1"
      by (cases s) (auto simp: gives_back_def)
    have "\<forall>cl\<in>set cls. cl < num_size_classes (tm_sizemap t1)" using Cons.prems(2) s(4) by (simp add: kept_objects_def)
    from Cons.IH [OF s(3) this] show "sure (scavenge_lists env cls s) (gives_back env own W c L t)"
      unfolding s(1) by (rule sure_mono) (rule gives_back_trans [OF s(2,4,5)])
  qed
qed

section \<open>Emptying a cache\<close>

lemma cleanup_lists_ok:
  assumes "th_rep env own W c L t" "\<forall>cl\<in>set cls. cl < num_size_classes (tm_sizemap t)"
  shows "sure (cleanup_lists env cls (c, t)) (\<lambda>(c', t'). \<exists>L'. shrunk L L' \<and> (\<forall>cl\<in>set cls. L' cl = []) \<and>
     th_rep env own W c' L' t' \<and> kept_objects W t t' \<and> same_cache c c')"
  using assms
proof (induction cls arbitrary: c L t)
  case Nil
  then show ?case by (auto simp: same_cache_def intro!: exI [of _ L])
next
  case (Cons cl cls)
  have cl: "cl < num_size_classes (tm_sizemap t)" using Cons.prems(2) by simp
  have fl: "fl_length (th_list c cl) = int (length (L cl))" "length (L cl) \<le> 8193"
    using th_rep_fl [OF Cons.prems(1) cl] by (simp_all add: fl_ok_def kMaxDynamicFreeListLength_def)
  have one: "sure (if fl_length (th_list c cl) > 0 then ReleaseToCentralCache env cl (to_int32 (fl_length (th_list c cl))) (c, t) else Inr (c, t))
     (\<lambda>(c1, t1). th_rep env own W c1 (L(cl := [])) t1 \<and> kept_objects W t t1 \<and> same_cache c c1)"
  proof (cases "L cl = []")
    case True
    then have "L(cl := []) = L" by auto
    then show ?thesis using Cons.prems(1) fl True by (simp add: same_cache_def)
  next
    case False
    then have c0: "cl \<noteq> 0" using th_rep_zero [OF Cons.prems(1)] cl by (cases "cl = 0") auto
    have n: "to_int32 (fl_length (th_list c cl)) = int (length (L cl))" "0 < fl_length (th_list c cl)" using fl False by (simp_all add: to_int32_id)
    show ?thesis unfolding if_P [OF n(2)] n(1)
      by (rule sure_mono [OF ReleaseToCentralCache_ok [OF Cons.prems(1) cl c0 _ _ False]]) (use False fl(2) in \<open>auto simp: released_def\<close>)
  qed
  show ?case unfolding cleanup_lists.simps fst_conv
  proof (rule sure_bind [OF one], clarify)
    fix c1 t1 assume s: "th_rep env own W c1 (L(cl := [])) t1" "kept_objects W t t1" "same_cache c c1"
    have sh: "shrunk L (L(cl := []))" using shrunk_upd [of L cl "length (L cl)"] by simp
    have "\<forall>cl\<in>set cls. cl < num_size_classes (tm_sizemap t1)" using Cons.prems(2) s(2) by (simp add: kept_objects_def)
    from Cons.IH [OF s(1) this]
    show "sure (cleanup_lists env cls (c1, t1)) (\<lambda>(c', t'). \<exists>L'. shrunk L L' \<and> (\<forall>cl\<in>set (cl # cls). L' cl = []) \<and>
       th_rep env own W c' L' t' \<and> kept_objects W t t' \<and> same_cache c c')"
    proof (rule sure_mono, clarify)
      fix c' t' L' assume l: "shrunk (L(cl := [])) L'" "\<forall>cl\<in>set cls. L' cl = []" "th_rep env own W c' L' t'" "kept_objects W t1 t'" "same_cache c1 c'"
      have "L' cl = []" using shrunk_sub(2) [OF l(1), of cl] by simp
      then show "\<exists>L'. shrunk L L' \<and> (\<forall>cl\<in>set (cl # cls). L' cl = []) \<and> th_rep env own W c' L' t' \<and> kept_objects W t t' \<and> same_cache c c'"
        using l shrunk_trans [OF sh l(1)] kept_trans(1) [OF s(2) l(4)] same_cache_trans [OF s(3) l(5)] by (intro exI [of _ L']) simp
    qed
  qed
qed

lemma Cleanup_ok:
  assumes "th_rep env own W c L t"
  shows "sure (th_Cleanup env (c, t)) (\<lambda>(c', t'). th_rep env own W c' (\<lambda>_. []) t' \<and> kept_objects W t t' \<and> same_cache c c')"
proof -
  have "\<forall>cl\<in>set [0..<num_size_classes (tm_sizemap t)]. cl < num_size_classes (tm_sizemap t)" by simp
  from cleanup_lists_ok [OF assms this] show ?thesis unfolding th_Cleanup_def prod.case
  proof (rule sure_mono, clarify)
    fix c' t' L' assume l: "\<forall>cl\<in>set [0..<num_size_classes (tm_sizemap t)]. L' cl = []" "th_rep env own W c' L' t'" "kept_objects W t t'" "same_cache c c'"
    have "num_size_classes (tm_sizemap t') = num_size_classes (tm_sizemap t)" using l(3) by (simp add: kept_objects_def)
    then have "th_rep env own W c' (\<lambda>_. []) t'" using l(1,2) by (auto simp: th_rep_def lists_in_def held_def bytes_in_def)
    then show "th_rep env own W c' (\<lambda>_. []) t' \<and> kept_objects W t t' \<and> same_cache c c'" using l by simp
  qed
qed

section \<open>Putting an object back\<close>

text \<open>The object has joined its list, but the count of bytes does not include it yet.\<close>

definition pushed :: "'k tc_env \<Rightarrow> ('k \<Rightarrow> addr set) \<Rightarrow> addr set \<Rightarrow> nat \<Rightarrow> thread_cache \<Rightarrow> (nat \<Rightarrow> addr list) \<Rightarrow> 'k tcm \<Rightarrow> bool" where
  "pushed env own W cl c L t \<longleftrightarrow> lists_in env own W c L t \<and> L cl \<noteq> [] \<and> 0 \<le> th_size c \<and>
     th_size c + byte_size_for_class (tm_sizemap t) cl = bytes_in (tm_sizemap t) L"

lemma push_to_list_ok:
  assumes r: "th_rep env own (insert p W) c L t" and p: "p \<notin> W" "class_of t p cl" and cl: "cl < num_size_classes (tm_sizemap t)"
    and len: "int (length (L cl)) \<le> kMaxDynamicFreeListLength"
  shows "sure (push_to_list p cl (c, t)) (\<lambda>(long, c', t'). pushed env own W cl c' (L(cl := p # L cl)) t' \<and> kept_objects W t t' \<and> same_cache c c' \<and>
     long = (int (length (L cl)) + 1 > fl_max_length (th_list c' cl)))"
proof -
  let ?m = "tm_sizemap t" and ?fl = "th_list c cl"
  have li: "lists_in env own (insert p W) c L t" using r by (simp add: th_rep_def)
  have fl: "fl_ok t cl ?fl (L cl)" by (rule th_rep_fl [OF r cl])
  have ok: "central_ok env own (insert p W \<union> held ?m L) t" "insert p W \<inter> held ?m L = {}" using li by (simp_all add: lists_in_def)
  have pd: "p \<in> dom (tm_mem t)" "p \<noteq> NULL" using central_object [OF ok(1), of p] by simp_all
  have pl: "p \<notin> set (L cl)" using ok(2) held_split [OF cl, of L] by auto
  have ne: "p \<noteq> fl_list ?fl" using fl pl pd(2) by (cases "L cl") (auto simp: fl_ok_def)
  have l: "fl_length ?fl = int (length (L cl))" using fl by (simp add: fl_ok_def)
  let ?mem = "(tm_mem t)(p \<mapsto> fl_list ?fl)" and ?t = "t\<lparr>tm_mem := (tm_mem t)(p \<mapsto> fl_list (th_list c cl))\<rparr>"
  obtain fl1 where f: "fl_Push p ?fl (tm_mem t) = Inr (fl_length ?fl + 1, fl1, ?mem)" "fl_ok ?t cl fl1 (p # L cl)" "fl_max_length fl1 = fl_max_length ?fl"
    using fl_ok_push [OF fl pd(2,1) pl p(2)] len l by auto
  have run: "push_to_list p cl (c, t) = Inr (int (length (L cl)) + 1 > fl_max_length ?fl, set_list cl fl1 c, ?t)"
    using fl ne f l by (simp add: push_to_list_def Let_def fl_ok_def)
  have w: "W \<inter> (others ?m cl L \<union> set (p # L cl)) = {}" using ok(2) p(1) held_split [OF cl, of L] by auto
  have pw: "p \<notin> W" "p \<notin> others ?m cl L" using p(1) ok(2) held_split [OF cl, of L] by auto
  have "central_ok env own (insert p W \<union> held ?m L) ?t"
    by (rule central_mem [OF ok(1)]) (use central_object(1) [OF ok(1)] in auto)
  then have ok1: "central_ok env own (W \<union> others ?m cl L \<union> set (p # L cl)) ?t" using held_split [OF cl, of L] by (simp add: insert_commute Un_assoc)
  have k: "kept_objects (others ?m cl L) t ?t" "kept_objects W t ?t" by (rule kept_mem, use pw in auto)+
  have "lists_in env own W (c\<lparr>th_list := (th_list c)(cl := fl1), th_size := th_size c\<rparr>) (L(cl := p # L cl)) ?t"
    by (rule lists_in_set [OF li cl k(1) f(2) ok1 w])
  moreover have "th_size c = bytes_in ?m L" "0 \<le> bytes_in ?m L" using r bytes_nonneg by (auto simp: th_rep_def lists_in_def)
  ultimately have "pushed env own W cl (set_list cl fl1 c) (L(cl := p # L cl)) ?t" by (simp add: pushed_def bytes_upd [OF cl])
  then show ?thesis using k(2) f(3) by (simp add: run same_cache_def)
qed

lemma add_size_ok:
  assumes "pushed env own W cl c L t" "cl < num_size_classes (tm_sizemap t)"
  shows "unless_limit (add_size cl c) (\<lambda>c'. th_rep env own W c' L t \<and> same_cache c c')"
proof -
  have fl: "fl_size (th_list c cl) = byte_size_for_class (tm_sizemap t) cl" "0 \<le> byte_size_for_class (tm_sizemap t) cl" "0 \<le> th_size c"
    using assms by (simp_all add: pushed_def lists_in_def fl_ok_def moves_ok_def)
  show ?thesis unfolding add_size_def fl(1)
    by (rule limit_bind [OF add32_limit]) (use assms(1) fl in \<open>auto simp: pushed_def th_rep_def lists_in_def same_cache_def\<close>)
qed

text \<open>At least one object leaves a list that is too long.\<close>

lemma list_too_long_ok:
  assumes pu: "pushed env own W cl c L t" and cl: "cl < num_size_classes (tm_sizemap t)"
  shows "unless_limit (list_too_long env cl (c, t)) (\<lambda>(c', t'). \<exists>k. 0 < k \<and> th_rep env own W c' (L(cl := drop k (L cl))) t' \<and>
     kept_objects W t t' \<and> same_cache c c')"
proof -
  have li: "lists_in env own W c L t" and ne: "L cl \<noteq> []" using pu by (simp_all add: pushed_def)
  have fl: "fl_ok t cl (th_list c cl) (L cl)" using li cl by (simp add: lists_in_def)
  have c0: "cl \<noteq> 0" using fl ne class_of_pos by (cases "L cl") (auto simp: fl_ok_def)
  note mb = move_bounds [OF li cl c0]
  define b where "b = objects_to_move t cl"
  have b: "1 \<le> b" "b \<le> 8192" "to_size_t b = b" using mb by (simp_all add: b_def kMaxDynamicFreeListLength_def)
  let ?tune = "\<lambda>(c1, t1). let list = th_list c1 cl
      in if fl_max_length list < b then Inr (set_list cl (set_max_length (fl_max_length list + 1) list) c1, t1)
         else if fl_max_length list > b then
           let list1 = set_length_overages (fl_overages list + 1) list
           in if fl_overages list1 > kMaxOverages then check (fl_max_length list1 > b)
                (Inr (set_list cl (set_length_overages 0 (set_max_length (fl_max_length list1 - b) list1)) c1, t1))
              else Inr (set_list cl list1 c1, t1)
         else Inr (c1, t1)"
  have tune: "sure (?tune (c1, t1)) (\<lambda>(c2, t2). t2 = t1 \<and> th_rep env own W c2 L1 t1 \<and> same_cache c1 c2)"
    if r1: "th_rep env own W c1 L1 t1" "cl < num_size_classes (tm_sizemap t1)" for c1 L1 t1
  proof -
    let ?l = "th_list c1 cl"
    have f1: "fl_ok t1 cl ?l (L1 cl)" by (rule th_rep_fl [OF r1])
    then have f: "1 \<le> fl_max_length ?l" "fl_max_length ?l \<le> 8192" "0 \<le> fl_overages ?l" "fl_overages ?l \<le> 3"
      by (simp_all add: fl_ok_def kMaxDynamicFreeListLength_def kMaxOverages_def)
    have ov: "to_uint32 (fl_overages ?l + 1) = fl_overages ?l + 1" using f by (simp add: to_uint32_id)
    note T = th_rep_tuned [OF r1(1), of cl]
    consider "fl_max_length ?l < b" | "fl_max_length ?l = b" | "fl_max_length ?l > b" "fl_overages ?l + 1 > 3" | "fl_max_length ?l > b" "\<not> fl_overages ?l + 1 > 3"
      by linarith
    then show ?thesis
    proof cases
      case 1
      have "tuned ?l (set_max_length (fl_max_length ?l + 1) ?l)"
        by (rule tuned_max [OF f1]) (use 1 b f in \<open>simp_all add: kMaxDynamicFreeListLength_def\<close>)
      then show ?thesis using 1 T by (simp add: Let_def same_cache_def)
    next
      case 2
      then show ?thesis using r1(1) by (simp add: same_cache_def)
    next
      case 3
      have "tuned ?l (set_length_overages 0 (set_max_length (fl_max_length ?l - b) (set_length_overages (fl_overages ?l + 1) ?l)))"
        using f1 3 b f by (simp add: tuned_def fl_ok_def set_length_overages_def set_max_length_def to_uint32_id kMaxDynamicFreeListLength_def kMaxOverages_def)
      then show ?thesis using 3 T ov by (simp add: Let_def same_cache_def set_length_overages_def kMaxOverages_def set_max_length_def)
    next
      case 4
      have "tuned ?l (set_length_overages (fl_overages ?l + 1) ?l)"
        using f1 4 f ov by (simp add: tuned_def fl_ok_def set_length_overages_def kMaxOverages_def)
      then show ?thesis using 4 T ov by (simp add: Let_def same_cache_def set_length_overages_def kMaxOverages_def)
    qed
  qed
  have fs: "fl_size (th_list c cl) = byte_size_for_class (tm_sizemap t) cl" using fl by (simp add: fl_ok_def)
  have run: "list_too_long env cl (c, t) = bindR (add32 (th_size c) (byte_size_for_class (tm_sizemap t) cl)) (\<lambda>sz.
      bindR (ReleaseToCentralCache env cl b (c\<lparr>th_size := sz\<rparr>, t)) ?tune)"
    unfolding list_too_long_def Let_def prod.case fs b_def [symmetric] b(3) ..
  show ?thesis unfolding run
  proof (rule limit_bind [OF add32_limit])
    show "- (2 ^ 31) \<le> th_size c + byte_size_for_class (tm_sizemap t) cl" using pu mb(4) by (simp add: pushed_def)
    fix sz assume sz: "sz = th_size c + byte_size_for_class (tm_sizemap t) cl \<and> sz \<le> int_max"
    have r: "th_rep env own W (c\<lparr>th_size := sz\<rparr>) L t" using pu sz by (simp add: pushed_def th_rep_def lists_in_def)
    have "sure (bindR (ReleaseToCentralCache env cl b (c\<lparr>th_size := sz\<rparr>, t)) ?tune) (\<lambda>(c', t'). \<exists>k. 0 < k \<and>
        th_rep env own W c' (L(cl := drop k (L cl))) t' \<and> kept_objects W t t' \<and> same_cache c c')"
    proof (rule sure_bind [OF ReleaseToCentralCache_ok [OF r cl c0 _ _ ne]])
      show "0 < b" "b < 2 ^ 31" using b by simp_all
      fix s assume "case s of (c1, t1) \<Rightarrow> released env own W cl (min (nat b) (length (L cl))) (c\<lparr>th_size := sz\<rparr>) L t c1 t1"
      then obtain c1 t1 k where s: "s = (c1, t1)" "k = min (nat b) (length (L cl))" "released env own W cl k (c\<lparr>th_size := sz\<rparr>) L t c1 t1"
        by (cases s) auto
      then have r1: "th_rep env own W c1 (L(cl := drop k (L cl))) t1" "kept_objects W t t1" "same_cache c c1" by (simp_all add: released_def same_cache_def)
      have k: "0 < k" using s(2) b(1) ne by simp
      have "cl < num_size_classes (tm_sizemap t1)" using cl r1(2) by (simp add: kept_objects_def)
      from tune [OF r1(1) this]
      show "sure (?tune s) (\<lambda>(c', t'). \<exists>k. 0 < k \<and> th_rep env own W c' (L(cl := drop k (L cl))) t' \<and> kept_objects W t t' \<and> same_cache c c')"
        unfolding s(1) by (rule sure_mono) (use k r1 same_cache_trans in auto)
    qed
    then show "unless_limit (bindR (ReleaseToCentralCache env cl b (c\<lparr>th_size := sz\<rparr>, t)) ?tune) (\<lambda>(c', t'). \<exists>k. 0 < k \<and>
        th_rep env own W c' (L(cl := drop k (L cl))) t' \<and> kept_objects W t t' \<and> same_cache c c')" by (rule limit_sure)
  qed
qed

section \<open>Taking an object\<close>

lemma grow_max_length_ok:
  assumes "1 \<le> fl_max_length fl" "fl_max_length fl \<le> kMaxDynamicFreeListLength" "1 \<le> b" "b \<le> kMaxDynamicFreeListLength"
  shows "\<exists>n. grow_max_length b fl = Inr (fl\<lparr>fl_max_length := n\<rparr>) \<and> 1 \<le> n \<and> n \<le> kMaxDynamicFreeListLength"
proof (cases "fl_max_length fl < b")
  case True
  then have "grow_max_length b fl = Inr (fl\<lparr>fl_max_length := fl_max_length fl + 1\<rparr>)"
    using assms by (simp add: grow_max_length_def to_size_t_id set_max_length_def to_uint32_id kMaxDynamicFreeListLength_def)
  then show ?thesis using True assms by auto
next
  case False
  let ?n = "min (fl_max_length fl + b) kMaxDynamicFreeListLength"
  have n: "b \<le> ?n" "?n \<le> kMaxDynamicFreeListLength" using False assms by auto
  have r: "0 \<le> ?n mod b" "?n mod b < b" using assms(3) by simp_all
  have e: "?n - ?n mod b = ?n div b * b" by (simp add: minus_mod_eq_div_mult)
  have d: "1 \<le> ?n div b" using n(1) assms(3) zdiv_mono1 [OF n(1), of b] by simp
  have pos: "1 \<le> ?n - ?n mod b" using mult_mono [OF d assms(3)] d assms(3) unfolding e by simp
  have "c_rem (?n - ?n mod b) b = (?n - ?n mod b) mod b" using pos assms(3) by (intro c_rem_nonneg) auto
  then have c0: "c_rem (?n - ?n mod b) b = 0" unfolding e by simp
  have c: "c_rem ?n b = ?n mod b" "to_int32 (fl_max_length fl + b) = fl_max_length fl + b" "to_size_t b = b"
    using assms n pos by (simp_all add: c_rem_nonneg to_int32_id to_size_t_id kMaxDynamicFreeListLength_def)
  have "grow_max_length b fl = Inr (fl\<lparr>fl_max_length := ?n - ?n mod b\<rparr>)"
    using False assms pos n r unfolding grow_max_length_def Let_def set_max_length_def c c0
    by (simp add: to_uint32_id kMaxDynamicFreeListLength_def)
  then show ?thesis using pos n r by auto
qed

definition obtained :: "'k tc_env \<Rightarrow> ('k \<Rightarrow> addr set) \<Rightarrow> addr set \<Rightarrow> nat \<Rightarrow> thread_cache \<Rightarrow> (nat \<Rightarrow> addr list) \<Rightarrow> 'k tcm \<Rightarrow> addr option \<times> thread_cache \<times> 'k tcm \<Rightarrow> bool" where
  "obtained env own W cl c L t = (\<lambda>(r, c', t'). kept_objects W t t' \<and> same_cache c c' \<and>
     (case r of None \<Rightarrow> th_rep env own W c' L t' \<and> (\<forall>a. \<not> fits (class_to_pages (tm_sizemap t) ! cl) (ph_spans (tm_heap t)) a)
      | Some p \<Rightarrow> \<exists>L'. p \<notin> W \<and> class_of t' p cl \<and> th_rep env own (insert p W) c' L' t' \<and>
          (\<forall>d. int (length (L' d)) \<le> max (int (length (L d))) kMaxDynamicFreeListLength)))"

text \<open>The first object of a range is handed out, the others become the list.\<close>

lemma fetched_ok:
  assumes r: "th_rep env own W c L t" and cl: "cl < num_size_classes (tm_sizemap t)" "cl \<noteq> 0" and nil: "L cl = []"
    and ys: "sll (tm_mem t1) p (p # zs)" "set (p # zs) \<inter> (W \<union> held (tm_sizemap t) L) = {}" "\<forall>y\<in>set (p # zs). class_of t1 y cl"
    and ok: "central_ok env own (W \<union> held (tm_sizemap t) L \<union> set (p # zs)) t1" and k: "kept_objects (W \<union> held (tm_sizemap t) L) t t1"
    and fl: "fl_ok t1 cl fl zs" and len: "int (length zs) \<le> kMaxDynamicFreeListLength"
    and sz: "sz = th_size c + byte_size_for_class (tm_sizemap t) cl * int (length zs)" "sz \<le> int_max"
  shows "obtained env own W cl c L t (Some p, (set_list cl fl c)\<lparr>th_size := sz\<rparr>, t1)"
proof -
  let ?m = "tm_sizemap t" and ?c = "(set_list cl fl c)\<lparr>th_size := sz\<rparr>" and ?L = "L(cl := zs)"
  have li: "lists_in env own W c L t" and s0: "th_size c = bytes_in ?m L" using r by (simp_all add: th_rep_def)
  have m: "tm_sizemap t1 = ?m" using k by (simp add: kept_objects_def)
  have h: "held ?m L = others ?m cl L" using held_split [OF cl(1), of L] nil by simp
  have ko: "kept_objects (others ?m cl L) t t1" "kept_objects W t t1" using k h by (auto intro: kept_mono(1))
  have pz: "p \<notin> set zs" using sll_distinct [OF ys(1)] by simp
  have wo: "W \<inter> others ?m cl L = {}" using li h by (simp add: lists_in_def)
  have "lists_in env own (insert p W) ?c ?L t1"
    by (rule lists_in_set [OF li cl(1) ko(1) fl]) (use ok ys(2) wo pz h in \<open>auto simp: insert_commute Un_assoc\<close>)
  moreover have "sz = bytes_in ?m ?L" using sz(1) s0 nil by (simp add: bytes_upd [OF cl(1)] mult.commute)
  ultimately have "th_rep env own (insert p W) ?c ?L t1" using sz(2) by (simp add: th_rep_def m)
  moreover have "p \<notin> W" "class_of t1 p cl" using ys(2,3) by auto
  moreover have "\<forall>d. int (length (?L d)) \<le> max (int (length (L d))) kMaxDynamicFreeListLength" using len by simp
  ultimately show ?thesis using ko(2) by (auto simp: obtained_def same_cache_def intro!: exI [of _ ?L])
qed

lemma FetchFromCentralCache_ok:
  assumes r: "th_rep env own W c L t" and cl: "cl < num_size_classes (tm_sizemap t)" "cl \<noteq> 0" and nil: "L cl = []"
  shows "unless_limit (FetchFromCentralCache env cl (byte_size_for_class (tm_sizemap t) cl) (c, t)) (obtained env own W cl c L t)"
proof -
  let ?m = "tm_sizemap t" and ?fl = "th_list c cl" and ?sz = "byte_size_for_class (tm_sizemap t) cl" and ?Y = "W \<union> held (tm_sizemap t) L"
  have li: "lists_in env own W c L t" and s0: "th_size c = bytes_in ?m L" using r by (simp_all add: th_rep_def)
  have ok: "central_ok env own ?Y t" using li by (simp add: lists_in_def)
  note mb = move_bounds [OF li cl]
  have fl: "fl_ok t cl ?fl []" using th_rep_fl [OF r cl(1)] nil by simp
  then have f: "fl_list ?fl = NULL" "1 \<le> fl_max_length ?fl" "fl_max_length ?fl \<le> kMaxDynamicFreeListLength" "fl_length ?fl = 0" by (simp_all add: fl_ok_def)
  define N where "N = min (to_int32 (fl_max_length ?fl)) (objects_to_move t cl)"
  have N: "0 < N" "N \<le> kMaxDynamicFreeListLength" using f mb(1,2) by (auto simp: N_def to_int32_id kMaxDynamicFreeListLength_def)
  have yy: "?Y \<inter> (?Y \<union> Z) = ?Y" for Z by blast
  show ?thesis unfolding FetchFromCentralCache_def Let_def prod.case N_def [symmetric] if_P f(1) simp_thms check_simps
  proof (rule limit_bind [OF limit_oom [OF RemoveRange_ok [OF ok cl N(1)]]], clarify, goal_cases)
    case (1 n start e t1 ys)
    then have ys: "n = int (length ys)" "n \<le> N" "sll (tm_mem t1) start ys" "ys \<noteq> [] \<longrightarrow> e = last ys" "set ys \<inter> ?Y = {}" "\<forall>y\<in>set ys. class_of t1 y cl"
        "central_ok env own (?Y \<union> set ys) t1" "kept_objects ?Y t t1" "ys = [] \<longrightarrow> (\<forall>a. \<not> fits (class_to_pages ?m ! cl) (ph_spans (tm_heap t)) a)"
      by (simp_all add: range_taken_def passed_def yy)
    have m: "tm_sizemap t1 = ?m" using ys(8) by (simp add: kept_objects_def)
    show ?case
    proof (cases ys)
      case Nil
      have "lists_in env own W c L t1"
        by (rule lists_in_kept [OF li]) (use li ys(7,8) Nil in \<open>auto simp: lists_in_def intro: kept_mono(1)\<close>)
      then have "th_rep env own W c L t1" using r by (simp add: th_rep_def m)
      then show ?thesis using ys Nil by (auto simp: obtained_def same_cache_def intro: kept_mono(1))
    next
      case (Cons p zs)
      then obtain q where q: "start = p" "p \<noteq> NULL" "tm_mem t1 p = Some q" "sll (tm_mem t1) q zs" using ys(3) by (auto split: option.splits)
      have n: "n \<noteq> 0" "n - 1 = int (length zs)" "0 \<le> int (length zs)" using ys(1) Cons by auto
      have zl: "int (length zs) \<le> kMaxDynamicFreeListLength" using n(2) ys(2) N(2) by simp
      let ?fl1 = "?fl\<lparr>fl_list := q, fl_length := int (length zs)\<rparr>"
      have pr: "fl_PushRange (int (length zs)) q e ?fl (tm_mem t1) = Inr (?fl1, tm_mem t1)"
      proof (cases "zs = []")
        case True
        then show ?thesis using q(4) f by (simp add: fl_PushRange_def SLL_PushRange_def to_uint32_def)
      next
        case False
        then have qn: "q \<noteq> NULL" using q(4) by (cases zs) auto
        obtain us where us: "zs = us @ [e]" using False ys(4) Cons by (metis append_butlast_last_id last_ConsR list.distinct(1))
        have "SLL_PushRange (tm_mem t1) NULL q e = Inr (q, (tm_mem t1)(e \<mapsto> NULL))"
          using SLL_PushRange_sll(1) [of "tm_mem t1" q us e NULL "[]"] q(4) us by simp
        moreover have "(tm_mem t1)(e \<mapsto> NULL) = tm_mem t1" using q(4) us by (auto simp: lseg_append fun_upd_idem split: option.splits)
        ultimately show ?thesis using f zl by (simp add: fl_PushRange_def to_uint32_id kMaxDynamicFreeListLength_def)
      qed
      obtain k where g: "grow_max_length (objects_to_move t cl) ?fl1 = Inr (?fl1\<lparr>fl_max_length := k\<rparr>)" "1 \<le> k" "k \<le> kMaxDynamicFreeListLength"
        using grow_max_length_ok [of ?fl1, OF _ _ mb(1,2)] f by auto
      have f2: "fl_ok t1 cl (?fl1\<lparr>fl_max_length := k\<rparr>) zs" using fl q(4) g(2,3) zl ys(6) Cons by (simp add: fl_ok_def m)
      have fin: "obtained env own W cl c L t (Some p, (set_list cl (?fl1\<lparr>fl_max_length := k\<rparr>) c)\<lparr>th_size := s\<rparr>, t1)"
        if "s = th_size c + ?sz * int (length zs)" "s \<le> int_max" for s
        by (rule fetched_ok [OF r cl nil _ _ _ _ ys(8) f2 zl that]) (use ys Cons q(1) in auto)
      have nn: "SLL_Next (tm_mem t1) p = Inr q" using q by (simp add: SLL_Next_def)
      have "0 \<le> bytes_in ?m L" using li by (intro bytes_nonneg) (simp add: lists_in_def)
      moreover have "0 \<le> ?sz * int (length zs)" using mb(4) by simp
      ultimately have b0: "- (2 ^ 31) \<le> th_size c + ?sz * int (length zs)" using s0 by simp
      have "unless_limit (bindR (mul32 ?sz (int (length zs))) (add32 (th_size c))) (\<lambda>s. s = th_size c + ?sz * int (length zs) \<and> s \<le> int_max)"
        unfolding mul32_def using add32_limit [OF b0] by simp
      moreover have "(if n = 0 then check (start = NULL) (Inr (None, c, t1)) else check (start \<noteq> NULL) (bindR (if n - 1 \<ge> 0 then
            bindR (mul32 ?sz (n - 1)) (\<lambda>d. bindR (add32 (th_size c) d) (\<lambda>sz. bindR (SLL_Next (tm_mem t1) start) (\<lambda>nxt.
            bindR (fl_PushRange (n - 1) nxt e ?fl (tm_mem t1)) (\<lambda>(list1, m). Inr (sz, list1, m)))))
            else Inr (th_size c, ?fl, tm_mem t1)) (\<lambda>(sz, list1, m). bindR (grow_max_length (objects_to_move t cl) list1) (\<lambda>list2.
            Inr (Some start, (set_list cl list2 c)\<lparr>th_size := sz\<rparr>, t1\<lparr>tm_mem := m\<rparr>))))) =
          bindR (bindR (mul32 ?sz (int (length zs))) (add32 (th_size c))) (\<lambda>s. Inr (Some p, (set_list cl (?fl1\<lparr>fl_max_length := k\<rparr>) c)\<lparr>th_size := s\<rparr>, t1))"
        unfolding n(2) q(1) using n(1) q(2) by (simp add: nn pr g(1) bindR_assoc)
      ultimately show ?thesis using fin by (auto intro: limit_bind)
    qed
  qed
qed

lemma Allocate_ok:
  assumes r: "th_rep env own W c L t" and cl: "cl < num_size_classes (tm_sizemap t)" "cl \<noteq> 0"
  shows "unless_limit (Allocate env (byte_size_for_class (tm_sizemap t) cl) cl (c, t)) (obtained env own W cl c L t)"
proof -
  let ?m = "tm_sizemap t" and ?fl = "th_list c cl" and ?sz = "byte_size_for_class (tm_sizemap t) cl"
  have li: "lists_in env own W c L t" and s0: "th_size c = bytes_in ?m L" "th_size c \<le> int_max" using r by (simp_all add: th_rep_def)
  note mb = move_bounds [OF li cl]
  have fl: "fl_ok t cl ?fl (L cl)" by (rule th_rep_fl [OF r cl(1)])
  have l: "sll (tm_mem t) (fl_list ?fl) (L cl)" using fl by (simp add: fl_ok_def)
  have ts: "to_int32 ?sz = ?sz" using mb(4,5) by (simp add: to_int32_id kMaxSize_def)
  have run: "Allocate env ?sz cl (c, t) = bindR (fl_TryPop ?fl (tm_mem t)) (\<lambda>(r, list1). case r of
      None \<Rightarrow> FetchFromCentralCache env cl ?sz (set_list cl list1 c, t)
    | Some rv \<Rightarrow> Inr (Some rv, (set_list cl list1 c)\<lparr>th_size := to_int32 (th_size c - ?sz)\<rparr>, t))"
    using mb(4,5) unfolding Allocate_def prod.case ts by simp
  show ?thesis
  proof (cases "L cl")
    case Nil
    then have "fl_TryPop ?fl (tm_mem t) = Inr (None, ?fl)" using l by (simp add: fl_TryPop_def SLL_TryPop_def)
    then show ?thesis unfolding run using FetchFromCentralCache_ok [OF r cl Nil] by simp
  next
    case (Cons p zs)
    then obtain q where q: "SLL_TryPop (tm_mem t) (fl_list ?fl) = Inr (q, Some p)" "sll (tm_mem t) q zs" using SLL_TryPop_sll [OF l] by auto
    let ?fl1 = "(shorten 1 ?fl)\<lparr>fl_list := q\<rparr>" and ?L = "L(cl := zs)"
    have "fl_ok (t\<lparr>tm_mem := tm_mem t\<rparr>) cl ((shorten (int 1) ?fl)\<lparr>fl_list := q\<rparr>) (drop 1 (L cl))" by (rule fl_ok_shorten [OF fl]) (use Cons q(2) in auto)
    then have f1: "fl_ok t cl ?fl1 zs" using Cons by simp
    have bu: "bytes_in ?m ?L = bytes_in ?m L - ?sz" by (simp add: bytes_upd [OF cl(1)] Cons)
    have "0 \<le> bytes_in ?m ?L" using li by (intro bytes_nonneg) (simp add: lists_in_def)
    then have ti: "to_int32 (th_size c - ?sz) = bytes_in ?m ?L" using s0 bu mb(4) by (subst to_int32_id) (auto simp: int_max_def)
    have al: "Allocate env ?sz cl (c, t) = Inr (Some p, (set_list cl ?fl1 c)\<lparr>th_size := bytes_in ?m ?L\<rparr>, t)"
      unfolding run by (simp add: fl_TryPop_def q(1) ti)
    note ap = lists_in_apart [OF li cl(1)]
    have pz: "p \<notin> set zs" using sll_distinct [OF l] Cons by simp
    have "central_ok env own (insert p W \<union> others ?m cl L \<union> set zs) t"
      using li held_split [OF cl(1), of L] Cons by (simp add: lists_in_def insert_commute Un_assoc Un_insert_right)
    then have "lists_in env own (insert p W) ((set_list cl ?fl1 c)\<lparr>th_size := bytes_in ?m ?L\<rparr>) ?L t"
      by (intro lists_in_set [OF li cl(1) _ f1]) (use ap Cons pz in auto)
    then have "th_rep env own (insert p W) ((set_list cl ?fl1 c)\<lparr>th_size := bytes_in ?m ?L\<rparr>) ?L t" using s0 bu mb(4) by (simp add: th_rep_def)
    moreover have "p \<notin> W" "class_of t p cl" using ap(1) Cons fl by (auto simp: fl_ok_def)
    moreover have "int (length (?L d)) \<le> max (int (length (L d))) kMaxDynamicFreeListLength" for d using Cons by (simp add: max_def)
    ultimately show ?thesis unfolding al limit_simps obtained_def prod.case option.case by (auto simp: same_cache_def intro!: exI [of _ ?L])
  qed
qed

end
