(* ===== verification/Thread_Frame.thy ===== *)
theory Thread_Frame
  imports Thread_Cache_Ops
begin

text \<open>
  The operations of a thread cache change the world only through the central lists, so they leave the memory of the
  other allocators alone.
\<close>

lemma frame_insert:
  assumes "mem_os env own" "tframe env own w t"
  shows "when_ok (InsertRange env cl p q n (t\<lparr>tm_mem := m\<rparr>)) (tframe env own w)"
  using tframe_InsertRange [OF assms(1), of w "t\<lparr>tm_mem := m\<rparr>"] assms(2) by simp

lemma frame_pop_insert:
  assumes "mem_os env own" "tframe env own w t" and f: "\<And>fl1 t1. tframe env own w t1 \<Longrightarrow> when_ok (f fl1 t1) Q"
  shows "when_ok (bindR (fl_PopRange k fl (tm_mem t)) (\<lambda>(head, tail, fl1, m).
      bindR (InsertRange env cl head tail k (t\<lparr>tm_mem := m\<rparr>)) (\<lambda>t1. f fl1 t1))) Q"
  by (rule when_ok_any, clarify) (rule when_ok_bind [OF frame_insert [OF assms(1,2)]], rule f)

lemma frame_release_batches:
  assumes "mem_os env own" "tframe env own w t"
  shows "when_ok (release_batches env cl b N fl t) (\<lambda>(n, fl', t'). tframe env own w t')"
  using assms(2)
proof (induction "nat N" arbitrary: N fl t rule: less_induct)
  case less
  show ?case
  proof (cases "N > b \<and> \<not> b \<le> 0")
    case True
    then have "nat (N - b) < nat N" by simp
    note ih = less.hyps [OF this]
    show ?thesis using True by (subst release_batches.simps) (simp add: frame_pop_insert [OF assms(1) less.prems] ih)
  qed (use less.prems in \<open>subst release_batches.simps, auto\<close>)
qed

lemma frame_ReleaseToCentralCache:
  assumes "mem_os env own" "tframe env own w t"
  shows "when_ok (ReleaseToCentralCache env cl N (c, t)) (\<lambda>(c', t'). tframe env own w t')"
  unfolding ReleaseToCentralCache_def Let_def prod.case
  by (rule when_ok_bind [OF frame_release_batches [OF assms]], clarify) (rule frame_pop_insert [OF assms(1)], simp_all)

lemma frame_FetchFromCentralCache:
  assumes "mem_os env own" "tframe env own w t"
  shows "when_ok (FetchFromCentralCache env cl bs (c, t)) (\<lambda>(r, c', t'). tframe env own w t')"
  unfolding FetchFromCentralCache_def Let_def prod.case
  apply (rule when_ok_check, rule when_ok_bind [OF tframe_RemoveRange [OF assms]], clarify)
  apply (rule when_ok_if, rule when_ok_check, simp)
  apply (rule when_ok_check, rule when_ok_any, clarify, rule when_ok_any, simp)
  done

lemma frame_Allocate:
  assumes "mem_os env own" "tframe env own w t"
  shows "when_ok (Allocate env sz cl (c, t)) (\<lambda>(r, c', t'). tframe env own w t')"
  unfolding Allocate_def prod.case
  apply (rule when_ok_check, rule when_ok_check, rule when_ok_check, rule when_ok_any, clarify)
  apply (auto split: option.split intro: frame_FetchFromCentralCache [OF assms] assms(2))
  done

lemma frame_scavenge_list:
  assumes "mem_os env own" "tframe env own w t"
  shows "when_ok (scavenge_list env cl (c, t)) (\<lambda>(c', t'). tframe env own w t')"
proof -
  note rel = when_ok_bind [OF frame_ReleaseToCentralCache [OF assms]]
  have "when_ok (if b then bindR (ReleaseToCentralCache env cl d (c, t)) (\<lambda>(c1, t1). Inr (f c1 t1, t1)) else Inr (c, t)) (\<lambda>(c', t'). tframe env own w t')" for b d f
    by (rule when_ok_if, rule rel, clarify) (use assms(2) in auto)
  then show ?thesis unfolding scavenge_list_def Let_def prod.case by (rule when_ok_bind) auto
qed

lemma frame_scavenge_lists:
  assumes "mem_os env own"
  shows "tframe env own w t \<Longrightarrow> when_ok (scavenge_lists env cls (c, t)) (\<lambda>(c', t'). tframe env own w t')"
proof (induction cls arbitrary: c t)
  case (Cons cl cls)
  show ?case unfolding scavenge_lists.simps by (rule when_ok_bind [OF frame_scavenge_list [OF assms Cons.prems]], clarify) (rule Cons.IH)
qed simp

lemma frame_cleanup_lists:
  assumes "mem_os env own"
  shows "tframe env own w t \<Longrightarrow> when_ok (cleanup_lists env cls (c, t)) (\<lambda>(c', t'). tframe env own w t')"
proof (induction cls arbitrary: c t)
  case (Cons cl cls)
  have "when_ok (if b then ReleaseToCentralCache env cl n (c, t) else Inr (c, t)) (\<lambda>(c', t'). tframe env own w t')" for b n
    using frame_ReleaseToCentralCache [OF assms Cons.prems] Cons.prems by simp
  then show ?case unfolding cleanup_lists.simps by (rule when_ok_bind) (clarify, rule Cons.IH)
qed simp

lemma frame_Cleanup:
  "mem_os env own \<Longrightarrow> tframe env own w t \<Longrightarrow> when_ok (th_Cleanup env (c, t)) (\<lambda>(c', t'). tframe env own w t')"
  by (simp add: th_Cleanup_def frame_cleanup_lists)

lemma frame_list_too_long:
  assumes "mem_os env own" "tframe env own w t"
  shows "when_ok (list_too_long env cl (c, t)) (\<lambda>(c', t'). tframe env own w t')"
  unfolding list_too_long_def Let_def prod.case
  by (rule when_ok_any, rule when_ok_bind [OF frame_ReleaseToCentralCache [OF assms]], clarify) (auto intro!: when_ok_check)

lemma frame_push_to_list:
  "tframe env own w t \<Longrightarrow> when_ok (push_to_list p cl (c, t)) (\<lambda>(l, c', t'). tframe env own w t')"
  unfolding push_to_list_def Let_def prod.case by (rule when_ok_check, rule when_ok_check, rule when_ok_any) auto

end
