(* ===== verification/Thread_Limits.thy ===== *)
theory Thread_Limits
  imports Thread_Cache_Lists
begin

text \<open>
  The limits of the thread caches. What is unclaimed and what the caches have claimed add up to the overall limit,
  and no limit leaves the range of an \<open>int32\<close>: a cache grows only by taking from the budget or from a cache that has more
  than the minimum, so what the caches have above the minimum is never more than the overall limit and one step.
\<close>

section \<open>The invariant\<close>

definition claim :: "'k tstate \<Rightarrow> addr \<Rightarrow> int" where
  "claim g h = (case tg_cache g h of None \<Rightarrow> 0 | Some c \<Rightarrow> th_max_size c)"

definition excess :: "int \<Rightarrow> int" where
  "excess m = max 0 (m - kMinThreadCacheSize)"

definition limits_ok :: "'k tstate \<Rightarrow> addr set \<Rightarrow> bool" where
  "limits_ok g H \<longleftrightarrow> finite H \<and> NULL \<notin> H \<and> H \<subseteq> dom (tg_cache g) \<and> kMinThreadCacheSize \<le> tg_overall g \<and> tg_overall g \<le> 2 ^ 30 \<and>
     (\<forall>h\<in>H. 0 \<le> claim g h \<and> kStealAmount dvd claim g h) \<and> tg_unclaimed g + (\<Sum>h\<in>H. claim g h) = tg_overall g \<and>
     (\<Sum>h\<in>H. excess (claim g h)) \<le> tg_overall g + kStealAmount"

definition steal_ok :: "'k tstate \<Rightarrow> bool" where
  "steal_ok g \<longleftrightarrow> (tg_steal g = NULL \<or> tg_steal g \<in> set (tg_heaps g))"

text \<open>A step that changes limits only.\<close>

definition limit_step :: "'k tstate \<Rightarrow> 'k tstate \<Rightarrow> bool" where
  "limit_step g g' \<longleftrightarrow> (\<exists>C u s. g' = g\<lparr>tg_cache := C, tg_unclaimed := u, tg_steal := s\<rparr> \<and>
     (\<forall>h. rel_option (\<lambda>c c'. c' = c\<lparr>th_max_size := th_max_size c'\<rparr>) (tg_cache g h) (C h)))"

lemma limit_constants: "kMinThreadCacheSize = 524288" "kStealAmount = 65536"
  by (simp_all add: kMinThreadCacheSize_def kStealAmount_def kMaxSize_def)

lemma limit_step_refl [simp]: "limit_step g (g\<lparr>tg_steal := s\<rparr>)" "limit_step g g"
proof -
  have r: "rel_option (\<lambda>c c'. c' = c\<lparr>th_max_size := th_max_size c'\<rparr>) x x" for x by (cases x) simp_all
  show "limit_step g (g\<lparr>tg_steal := s\<rparr>)" unfolding limit_step_def
    by (rule exI [of _ "tg_cache g"], rule exI [of _ "tg_unclaimed g"], rule exI [of _ s]) (simp add: r)
  show "limit_step g g" unfolding limit_step_def
    by (rule exI [of _ "tg_cache g"], rule exI [of _ "tg_unclaimed g"], rule exI [of _ "tg_steal g"]) (simp add: r)
qed

lemma limit_step_trans:
  assumes "limit_step g g1" "limit_step g1 g2" shows "limit_step g g2"
proof -
  let ?R = "\<lambda>c c' :: thread_cache. c' = c\<lparr>th_max_size := th_max_size c'\<rparr>"
  obtain C1 u1 s1 where 1: "g1 = g\<lparr>tg_cache := C1, tg_unclaimed := u1, tg_steal := s1\<rparr>" "\<forall>h. rel_option ?R (tg_cache g h) (C1 h)"
    using assms(1) by (auto simp: limit_step_def)
  obtain C2 u2 s2 where 2: "g2 = g1\<lparr>tg_cache := C2, tg_unclaimed := u2, tg_steal := s2\<rparr>" "\<forall>h. rel_option ?R (tg_cache g1 h) (C2 h)"
    using assms(2) by (auto simp: limit_step_def)
  have "rel_option ?R (tg_cache g h) (C2 h)" for h
  proof -
    have "rel_option ?R (tg_cache g h) (C1 h)" "rel_option ?R (C1 h) (C2 h)" using 1 2(2) by simp_all
    then show ?thesis by (cases "tg_cache g h"; cases "C1 h"; cases "C2 h") (auto, metis thread_cache.surjective thread_cache.update_convs(3))
  qed
  then show ?thesis unfolding limit_step_def 2(1) 1(1)
    by (intro exI [of _ C2] exI [of _ u2] exI [of _ s2]) simp
qed

lemma limit_step_set:
  assumes "tg_cache g h = Some c" shows "limit_step g ((set_cache h (c\<lparr>th_max_size := m\<rparr>) g)\<lparr>tg_unclaimed := u, tg_steal := s\<rparr>)"
proof -
  have r: "rel_option (\<lambda>c c'. c' = c\<lparr>th_max_size := th_max_size c'\<rparr>) x x" for x by (cases x) simp_all
  show ?thesis unfolding limit_step_def
    by (rule exI [of _ "(tg_cache g)(h \<mapsto> c\<lparr>th_max_size := m\<rparr>)"], rule exI [of _ u], rule exI [of _ s]) (use assms r in auto)
qed

lemma the_cache_ok: "h \<noteq> NULL \<Longrightarrow> tg_cache g h = Some c \<Longrightarrow> the_cache g h = Inr c"
  by (simp add: the_cache_def)

lemma next_heap_mem: "next_heap hs v = NULL \<or> next_heap hs v \<in> set hs"
proof (cases "dropWhile (\<lambda>x. x \<noteq> v) hs")
  case (Cons a xs)
  then have "set xs \<subseteq> set hs" using set_dropWhileD [of _ "\<lambda>x. x \<noteq> v" hs] by (metis list.set_intros(2) subsetI)
  then show ?thesis by (cases xs) (simp_all add: next_heap_def Cons)
qed (simp only: next_heap_def list.case simp_thms)

text \<open>No limit is near the end of the range.\<close>

lemma claim_bound:
  assumes "limits_ok g H" "h \<in> H" shows "0 \<le> claim g h" "claim g h \<le> 2 ^ 30 + 655360"
proof -
  show "0 \<le> claim g h" using assms by (simp add: limits_ok_def)
  have "excess (claim g h) \<le> (\<Sum>h\<in>H. excess (claim g h))" using assms by (intro member_le_sum) (auto simp: limits_ok_def excess_def)
  then show "claim g h \<le> 2 ^ 30 + 655360" using assms(1) by (simp add: limits_ok_def excess_def limit_constants)
qed

lemma claims_nonneg: "limits_ok g H \<Longrightarrow> (\<Sum>h\<in>H. excess (claim g h)) \<le> (\<Sum>h\<in>H. claim g h)"
  by (rule sum_mono) (simp add: limits_ok_def excess_def limit_constants)

text \<open>One claim changes.\<close>

lemma sum_change:
  fixes f f' :: "addr \<Rightarrow> int"
  assumes "finite H" "h \<in> H" "\<And>x. x \<in> H \<Longrightarrow> x \<noteq> h \<Longrightarrow> f' x = f x"
  shows "(\<Sum>x\<in>H. f' x) = (\<Sum>x\<in>H. f x) + f' h - f h"
proof -
  have "(\<Sum>x\<in>H - {h}. f' x) = (\<Sum>x\<in>H - {h}. f x)" by (rule sum.cong) (use assms(3) in auto)
  then show ?thesis using sum.remove [OF assms(1,2), of f'] sum.remove [OF assms(1,2), of f] by simp
qed

lemma claim_set [simp]: "claim (g\<lparr>tg_cache := (tg_cache g)(h \<mapsto> c)\<rparr>) = (claim g)(h := th_max_size c)" "claim (g\<lparr>tg_steal := s\<rparr>) = claim g"
    "claim (g\<lparr>tg_unclaimed := u\<rparr>) = claim g"
  by (auto simp: claim_def)

lemma limits_ok_steal [simp]: "limits_ok (g\<lparr>tg_steal := s\<rparr>) H = limits_ok g H"
  by (simp add: limits_ok_def)

section \<open>Raising a limit\<close>

lemma excess_up: "excess (m + kStealAmount) \<le> excess m + kStealAmount"
  by (simp add: excess_def limit_constants)

lemma excess_down: "kStealAmount dvd m \<Longrightarrow> m > kMinThreadCacheSize \<Longrightarrow> excess (m - kStealAmount) = excess m - kStealAmount"
  by (auto simp: excess_def limit_constants dvd_def)

lemma raise_from_budget:
  assumes ok: "limits_ok g H" and h: "h \<in> H" "tg_cache g h = Some c" and u: "tg_unclaimed g > 0"
  shows "limits_ok ((set_cache h (c\<lparr>th_max_size := th_max_size c + kStealAmount\<rparr>) g)\<lparr>tg_unclaimed := tg_unclaimed g - kStealAmount\<rparr>) H"
proof -
  let ?g = "(set_cache h (c\<lparr>th_max_size := th_max_size c + kStealAmount\<rparr>) g)\<lparr>tg_unclaimed := tg_unclaimed g - kStealAmount\<rparr>"
  have cl: "claim g h = th_max_size c" by (simp add: claim_def h(2))
  have cg: "claim ?g = (claim g)(h := th_max_size c + kStealAmount)" by (auto simp: claim_def)
  have s: "(\<Sum>x\<in>H. claim ?g x) = (\<Sum>x\<in>H. claim g x) + kStealAmount"
    using sum_change [of H h "claim ?g" "claim g"] ok h(1) cl cg by (simp add: limits_ok_def)
  have "(\<Sum>x\<in>H. excess (claim ?g x)) \<le> (\<Sum>x\<in>H. claim ?g x)"
    by (rule sum_mono) (use ok cl h(1) in \<open>auto simp: cg limits_ok_def excess_def limit_constants\<close>)
  then have "(\<Sum>x\<in>H. excess (claim ?g x)) \<le> tg_overall g + kStealAmount" using s u ok by (simp add: limits_ok_def)
  moreover have "\<forall>x\<in>H. 0 \<le> claim ?g x \<and> kStealAmount dvd claim ?g x" using ok cl h(1) by (auto simp: cg limits_ok_def limit_constants)
  ultimately show ?thesis using ok s by (auto simp: limits_ok_def)
qed

lemma raise_by_steal:
  assumes ok: "limits_ok g H" and h: "h \<in> H" "tg_cache g h = Some c" and v: "v \<in> H" "v \<noteq> h" "tg_cache g v = Some cv" "th_max_size cv > kMinThreadCacheSize"
  shows "limits_ok (set_cache h (c\<lparr>th_max_size := th_max_size c + kStealAmount\<rparr>) (set_cache v (cv\<lparr>th_max_size := th_max_size cv - kStealAmount\<rparr>) g)) H"
proof -
  let ?g = "set_cache h (c\<lparr>th_max_size := th_max_size c + kStealAmount\<rparr>) (set_cache v (cv\<lparr>th_max_size := th_max_size cv - kStealAmount\<rparr>) g)"
  let ?f = "(claim g)(v := th_max_size cv - kStealAmount)"
  have cl: "claim g h = th_max_size c" "claim g v = th_max_size cv" by (simp_all add: claim_def h(2) v(3))
  let ?F = "?f(h := th_max_size c + kStealAmount)"
  have cg: "claim ?g = ?F" by (auto simp: claim_def)
  have fin: "finite H" using ok by (simp add: limits_ok_def)
  have s: "(\<Sum>x\<in>H. claim ?g x) = (\<Sum>x\<in>H. claim g x)"
    unfolding cg using sum_change [OF fin h(1), of ?F ?f] sum_change [OF fin v(1), of ?f "claim g"] v(2) cl by simp
  have d: "kStealAmount dvd th_max_size cv" using ok v(1) cl(2) by (auto simp: limits_ok_def)
  have "(\<Sum>x\<in>H. excess (claim ?g x)) = (\<Sum>x\<in>H. excess (?f x)) + excess (th_max_size c + kStealAmount) - excess (th_max_size c)"
    unfolding cg using sum_change [OF fin h(1), of "\<lambda>x. excess (?F x)" "\<lambda>x. excess (?f x)"] v(2) cl by simp
  moreover have "(\<Sum>x\<in>H. excess (?f x)) = (\<Sum>x\<in>H. excess (claim g x)) - kStealAmount"
    using sum_change [OF fin v(1), of "\<lambda>x. excess (?f x)" "\<lambda>x. excess (claim g x)"] excess_down [OF d v(4)] cl by simp
  ultimately have "(\<Sum>x\<in>H. excess (claim ?g x)) \<le> tg_overall g + kStealAmount"
    using excess_up [of "th_max_size c"] ok by (simp add: limits_ok_def)
  moreover have "0 \<le> th_max_size c \<and> kStealAmount dvd th_max_size c" using ok h(1) cl(1) by (auto simp: limits_ok_def)
  then have "\<forall>x\<in>H. 0 \<le> claim ?g x \<and> kStealAmount dvd claim ?g x"
    unfolding cg using ok d v(4) by (auto simp: limits_ok_def limit_constants)
  ultimately show ?thesis using ok s by (auto simp: limits_ok_def)
qed

definition raised :: "addr set \<Rightarrow> addr \<Rightarrow> 'k tstate \<Rightarrow> 'k tstate \<Rightarrow> bool" where
  "raised H this g g' \<longleftrightarrow> limits_ok g' H \<and> limit_step g g' \<and> steal_ok g' \<and> (tg_unclaimed g > 0 \<longrightarrow> claim g' this > 0) \<and>
     (tg_unclaimed g \<le> 0 \<longrightarrow> tg_unclaimed g' = tg_unclaimed g)"

lemma steal_loop_ok:
  assumes "limits_ok g H" "this \<in> H" "set (tg_heaps g) \<subseteq> H" "steal_ok g" "tg_heaps g \<noteq> []" "tg_unclaimed g \<le> 0"
  shows "sure (steal_loop i this g) (raised H this g)"
  using assms
proof (induction i arbitrary: g)
  case 0
  then show ?case by (simp add: raised_def)
next
  case (Suc i)
  define v where "v = (if tg_steal g = NULL then hd (tg_heaps g) else tg_steal g)"
  have v: "(if tg_steal g = NULL then check (tg_heaps g \<noteq> []) (Inr (hd (tg_heaps g))) else Inr (tg_steal g)) = Inr v" using Suc.prems(5) by (simp add: v_def)
  have vh: "v \<in> set (tg_heaps g)" using Suc.prems(4,5) by (auto simp: v_def steal_ok_def)
  then have vH: "v \<in> H" using Suc.prems(3) by blast
  have "H \<subseteq> dom (tg_cache g)" using Suc.prems(1) by (simp add: limits_ok_def)
  then obtain cv c where cv: "tg_cache g v = Some cv" and c: "tg_cache g this = Some c" using Suc.prems(2) vH by blast
  have nn: "v \<noteq> NULL" "this \<noteq> NULL" using Suc.prems(1,2) vH by (auto simp: limits_ok_def)
  have mv: "0 \<le> th_max_size cv" "th_max_size cv \<le> 2 ^ 30 + 655360" using claim_bound [OF Suc.prems(1) vH] cv by (simp_all add: claim_def)
  have mc: "0 \<le> th_max_size c" "th_max_size c \<le> 2 ^ 30 + 655360" using claim_bound [OF Suc.prems(1,2)] c by (simp_all add: claim_def)
  let ?n = "next_heap (tg_heaps g) v"
  have sn: "steal_ok (g\<lparr>tg_steal := ?n\<rparr>)" using next_heap_mem by (simp add: steal_ok_def)
  show ?case
  proof (cases "v = this \<or> th_max_size cv \<le> kMinThreadCacheSize")
    case True
    then have e: "steal_loop (Suc i) this g = steal_loop i this (g\<lparr>tg_steal := ?n\<rparr>)"
      using v nn cv mv by (auto simp: the_cache_ok to_size_t_id)
    have "sure (steal_loop i this (g\<lparr>tg_steal := ?n\<rparr>)) (raised H this (g\<lparr>tg_steal := ?n\<rparr>))" by (rule Suc.IH) (use Suc.prems sn in auto)
    then show ?thesis unfolding e by (rule sure_mono) (auto simp: raised_def intro: limit_step_trans [OF limit_step_refl(1)])
  next
    case False
    let ?g1 = "set_cache v (cv\<lparr>th_max_size := th_max_size cv - kStealAmount\<rparr>) g"
    let ?g2 = "set_cache this (c\<lparr>th_max_size := th_max_size c + kStealAmount\<rparr>) ?g1"
    have e: "steal_loop (Suc i) this g = Inr (?g2\<lparr>tg_steal := ?n\<rparr>)"
      using v nn cv c mv mc False by (simp add: the_cache_ok to_size_t_id SetMaxSize_def to_int32_id limit_constants)
    have "limits_ok ?g2 H" by (rule raise_by_steal [OF Suc.prems(1,2) c vH _ cv]) (use False in auto)
    moreover have "limit_step g (?g1\<lparr>tg_unclaimed := tg_unclaimed g, tg_steal := tg_steal g\<rparr>)" by (rule limit_step_set [OF cv])
    then have s1: "limit_step g ?g1" by simp
    have "limit_step ?g1 (?g2\<lparr>tg_unclaimed := tg_unclaimed g, tg_steal := ?n\<rparr>)" by (rule limit_step_set) (use c False in auto)
    then have "limit_step g (?g2\<lparr>tg_steal := ?n\<rparr>)" using limit_step_trans [OF s1] by simp
    ultimately show ?thesis unfolding e using Suc.prems(6) sn by (simp add: raised_def steal_ok_def)
  qed
qed

lemma IncreaseCacheLimitLocked_ok:
  assumes ok: "limits_ok g H" "this \<in> H" "set (tg_heaps g) \<subseteq> H" "steal_ok g" and e: "tg_heaps g = [] \<Longrightarrow> tg_unclaimed g > 0"
  shows "sure (IncreaseCacheLimitLocked this g) (raised H this g)"
proof (cases "tg_unclaimed g > 0")
  case True
  have "H \<subseteq> dom (tg_cache g)" using ok(1) by (simp add: limits_ok_def)
  then obtain c where c: "tg_cache g this = Some c" using ok(2) by blast
  have nn: "this \<noteq> NULL" using ok(1,2) by (auto simp: limits_ok_def)
  have mc: "0 \<le> th_max_size c" "th_max_size c \<le> 2 ^ 30 + 655360" using claim_bound [OF ok(1,2)] c by (simp_all add: claim_def)
  let ?g = "(set_cache this (c\<lparr>th_max_size := th_max_size c + kStealAmount\<rparr>) g)\<lparr>tg_unclaimed := tg_unclaimed g - kStealAmount\<rparr>"
  have r: "IncreaseCacheLimitLocked this g = Inr ?g"
    using True c nn mc by (simp add: IncreaseCacheLimitLocked_def the_cache_ok SetMaxSize_def to_int32_id limit_constants)
  have "limit_step g ((set_cache this (c\<lparr>th_max_size := th_max_size c + kStealAmount\<rparr>) g)\<lparr>tg_unclaimed := tg_unclaimed g - kStealAmount, tg_steal := tg_steal g\<rparr>)"
    by (rule limit_step_set [OF c])
  then have "limit_step g ?g" by simp
  then show ?thesis unfolding r using raise_from_budget [OF ok(1,2) c True] True mc ok(4) by (simp add: raised_def steal_ok_def limit_constants)
next
  case False
  then have "tg_heaps g \<noteq> []" using e by blast
  then show ?thesis using False steal_loop_ok [OF ok] by (simp add: IncreaseCacheLimitLocked_def)
qed

end
