(* ===== verification/Thread_State.thy ===== *)
theory Thread_State
  imports Thread_Frame Thread_Limits
begin

text \<open>
  All thread caches together. \<open>U\<close> is the set of objects that the program holds: they, the lists of the caches and the
  central lists share no object, and every operation of the caches keeps this.
\<close>

section \<open>The invariant\<close>

definition all_held :: "size_map \<Rightarrow> addr set \<Rightarrow> (addr \<Rightarrow> nat \<Rightarrow> addr list) \<Rightarrow> addr set" where
  "all_held m H L = (\<Union>h\<in>H. held m (L h))"

definition cache_fine :: "'k tcm \<Rightarrow> thread_cache \<Rightarrow> (nat \<Rightarrow> addr list) \<Rightarrow> bool" where
  "cache_fine t c K \<longleftrightarrow> (\<forall>cl<num_size_classes (tm_sizemap t). fl_ok t cl (th_list c cl) (K cl) \<and> int (length (K cl)) \<le> kMaxDynamicFreeListLength) \<and>
     th_size c = bytes_in (tm_sizemap t) K \<and> th_size c \<le> int_max \<and> sampler_ok (th_sampler c) \<and> \<not> th_in_setspecific c"

definition objects_ok ::
  "'k tc_env \<Rightarrow> ('k \<Rightarrow> addr set) \<Rightarrow> addr set \<Rightarrow> addr set \<Rightarrow> (addr \<Rightarrow> nat \<Rightarrow> addr list) \<Rightarrow> (addr \<Rightarrow> thread_cache option) \<Rightarrow> 'k tcm \<Rightarrow> bool" where
  "objects_ok env own U H L C t \<longleftrightarrow> central_ok env own (U \<union> all_held (tm_sizemap t) H L) t \<and> moves_ok (tm_sizemap t) \<and>
     U \<inter> all_held (tm_sizemap t) H L = {} \<and>
     (\<forall>h\<in>H. \<forall>h'\<in>H. h \<noteq> h' \<longrightarrow> held (tm_sizemap t) (L h) \<inter> held (tm_sizemap t) (L h') = {}) \<and>
     (\<forall>h\<in>H. \<exists>c. C h = Some c \<and> cache_fine t c (L h))"

text \<open>A thread finds its own cache.\<close>

definition tls_ok :: "'k tstate \<Rightarrow> bool" where
  "tls_ok g \<longleftrightarrow> (\<forall>me. tg_heap_key g me = tg_heap g me \<and> (tg_fast_path_heap g me = NULL \<or> tg_fast_path_heap g me = tg_heap g me) \<and>
     (tg_heap g me \<noteq> NULL \<longrightarrow> tg_tsd_inited g \<and> tg_heap g me \<in> set (tg_heaps g) \<and> map_option th_tid (tg_cache g (tg_heap g me)) = Some me))"

definition threads_rep :: "'k tc_env \<Rightarrow> ('k \<Rightarrow> addr set) \<Rightarrow> addr set \<Rightarrow> (addr \<Rightarrow> nat \<Rightarrow> addr list) \<Rightarrow> 'k tstate \<Rightarrow> bool" where
  "threads_rep env own U L g \<longleftrightarrow> objects_ok env own U (set (tg_heaps g)) L (tg_cache g) (tg_tcm g) \<and>
     distinct (tg_heaps g) \<and> limits_ok g (set (tg_heaps g)) \<and> steal_ok g \<and> tg_count g = int (length (tg_heaps g)) \<and> interval_ok (tg_interval g) \<and>
     pha_inv sizeof_ThreadCache env own {} (set (tg_heaps g)) (fst (tg_allocator g)) (snd (tg_allocator g)) (tg_world g) \<and> tls_ok g"

definition threads_ok :: "'k tc_env \<Rightarrow> ('k \<Rightarrow> addr set) \<Rightarrow> addr set \<Rightarrow> 'k tstate \<Rightarrow> bool" where
  "threads_ok env own U g \<longleftrightarrow> (\<exists>L. threads_rep env own U L g)"

section \<open>One cache among the others\<close>

abbreviation rest_of :: "size_map \<Rightarrow> addr set \<Rightarrow> (addr \<Rightarrow> nat \<Rightarrow> addr list) \<Rightarrow> addr \<Rightarrow> addr set" where
  "rest_of m H L h \<equiv> all_held m (H - {h}) L"

lemma all_held_split: "h \<in> H \<Longrightarrow> all_held m H L = rest_of m H L h \<union> held m (L h)"
  by (auto simp: all_held_def)

lemma rest_upd [simp]: "rest_of m H (L(h := K)) h = rest_of m H L h"
  by (auto simp: all_held_def)

lemma objects_cache:
  assumes "objects_ok env own U H L C t" "h \<in> H" "C h = Some c"
  shows "th_rep env own (U \<union> rest_of (tm_sizemap t) H L h) c (L h) t" "cache_fine t c (L h)" "U \<inter> rest_of (tm_sizemap t) H L h = {}"
    "\<And>cl. cl < num_size_classes (tm_sizemap t) \<Longrightarrow> int (length (L h cl)) \<le> kMaxDynamicFreeListLength"
proof -
  let ?m = "tm_sizemap t"
  have s: "all_held ?m H L = rest_of ?m H L h \<union> held ?m (L h)" by (rule all_held_split [OF assms(2)])
  show f: "cache_fine t c (L h)" using assms by (auto simp: objects_ok_def)
  then show "int (length (L h cl)) \<le> kMaxDynamicFreeListLength" if "cl < num_size_classes ?m" for cl using that by (simp add: cache_fine_def)
  show "U \<inter> rest_of ?m H L h = {}" using assms(1) s by (auto simp: objects_ok_def)
  have "rest_of ?m H L h \<inter> held ?m (L h) = {}" using assms(1,2) unfolding objects_ok_def all_held_def by blast
  moreover have "U \<inter> held ?m (L h) = {}" using assms(1) s by (auto simp: objects_ok_def)
  ultimately have "lists_in env own (U \<union> rest_of ?m H L h) c (L h) t"
    using assms(1) f s by (auto simp: objects_ok_def lists_in_def cache_fine_def Un_assoc)
  then show "th_rep env own (U \<union> rest_of ?m H L h) c (L h) t" using f by (simp add: th_rep_def cache_fine_def)
qed

lemma cache_fine_kept:
  assumes "cache_fine t c K" "kept_objects (held (tm_sizemap t) K) t t'" shows "cache_fine t' c K"
proof -
  have "tm_sizemap t' = tm_sizemap t" using assms(2) by (simp add: kept_objects_def)
  moreover have "fl_ok t' cl (th_list c cl) (K cl)" if "cl < num_size_classes (tm_sizemap t)" for cl
    by (rule fl_ok_kept [OF assms(2)]) (use assms(1) that in \<open>auto simp: held_def cache_fine_def\<close>)
  ultimately show ?thesis using assms(1) by (simp add: cache_fine_def)
qed

text \<open>The cache \<open>h\<close> has changed, the others have not been touched, the program now holds \<open>V\<close>.\<close>

lemma objects_step:
  assumes ok: "objects_ok env own U H L C t" and h: "h \<in> H" and k: "kept_objects (rest_of (tm_sizemap t) H L h) t t'"
    and r: "th_rep env own (V \<union> rest_of (tm_sizemap t) H L h) c' K t'" "V \<inter> rest_of (tm_sizemap t) H L h = {}"
    and len: "\<And>cl. cl < num_size_classes (tm_sizemap t) \<Longrightarrow> int (length (K cl)) \<le> kMaxDynamicFreeListLength"
    and c': "sampler_ok (th_sampler c')" "\<not> th_in_setspecific c'"
  shows "objects_ok env own V H (L(h := K)) (C(h \<mapsto> c')) t'"
proof -
  let ?m = "tm_sizemap t" and ?R = "rest_of (tm_sizemap t) H L h"
  have m: "tm_sizemap t' = ?m" using k by (simp add: kept_objects_def)
  have li: "lists_in env own (V \<union> ?R) c' K t'" and sz: "th_size c' = bytes_in ?m K" "th_size c' \<le> int_max" using r(1) by (simp_all add: th_rep_def m)
  have s: "all_held ?m H (L(h := K)) = ?R \<union> held ?m K" using all_held_split [OF h, of ?m "L(h := K)"] by simp
  have "central_ok env own (V \<union> all_held ?m H (L(h := K))) t'" "(V \<union> ?R) \<inter> held ?m K = {}" using li by (simp_all add: lists_in_def m s Un_assoc)
  moreover have "cache_fine t' c' K" using li len sz c' by (simp add: cache_fine_def lists_in_def m)
  moreover have "\<exists>c. C x = Some c \<and> cache_fine t' c (L x)" if "x \<in> H" "x \<noteq> h" for x
  proof -
    have "kept_objects (held ?m (L x)) t t'" by (rule kept_mono(1) [OF k]) (use that in \<open>auto simp: all_held_def\<close>)
    then show ?thesis using ok that(1) cache_fine_kept by (metis objects_ok_def)
  qed
  moreover have "held ?m (L x) \<inter> held ?m (L y) = {}" if "x \<in> H" "y \<in> H" "x \<noteq> y" for x y using ok that by (auto simp: objects_ok_def)
  moreover have "held ?m (L x) \<subseteq> ?R" if "x \<in> H" "x \<noteq> h" for x using that by (auto simp: all_held_def)
  ultimately show ?thesis using ok r(2) unfolding objects_ok_def m s by (auto; blast)
qed

section \<open>Steps of the whole state\<close>

definition same_threads :: "'k tstate \<Rightarrow> 'k tstate \<Rightarrow> bool" where
  "same_threads g g' \<longleftrightarrow> tg_heaps g' = tg_heaps g \<and> tg_heap g' = tg_heap g \<and> tg_heap_key g' = tg_heap_key g \<and>
     tg_fast_path_heap g' = tg_fast_path_heap g \<and> tg_tsd_inited g' = tg_tsd_inited g \<and> tg_sample_parameter g' = tg_sample_parameter g \<and>
     tg_interval g' = tg_interval g"

text \<open>The program held \<open>U\<close> and now holds \<open>V\<close>; what it held before and after has not changed.\<close>

definition served :: "'k tc_env \<Rightarrow> ('k \<Rightarrow> addr set) \<Rightarrow> addr set \<Rightarrow> addr set \<Rightarrow> 'k tstate \<Rightarrow> 'k tstate \<Rightarrow> bool" where
  "served env own U V g g' \<longleftrightarrow> threads_ok env own V g' \<and> kept_objects (U \<inter> V) (tg_tcm g) (tg_tcm g') \<and> same_threads g g'"

lemma same_threads_trans: "same_threads g g1 \<Longrightarrow> same_threads g1 g2 \<Longrightarrow> same_threads g g2"
  by (simp add: same_threads_def)

lemma served_refl: "threads_ok env own U g \<Longrightarrow> served env own U U g g"
  by (simp add: served_def same_threads_def)

lemma served_trans: "served env own U V g g1 \<Longrightarrow> served env own V V g1 g2 \<Longrightarrow> served env own U V g g2"
  using kept_trans(1) kept_mono(1) same_threads_trans unfolding served_def by (metis Int_absorb Int_lower2)

lemma threads_env:
  assumes "threads_ok env own U g" shows "mem_os env own" "classes_ok (tm_sizemap (tg_tcm g))" "NULL \<notin> set (tg_heaps g)" "moves_ok (tm_sizemap (tg_tcm g))"
proof -
  obtain L where ok: "threads_rep env own U L g" using assms by (auto simp: threads_ok_def)
  then obtain Y where Y: "central_ok env own Y (tg_tcm g)" by (auto simp: threads_rep_def objects_ok_def)
  then obtain F X where "spans_ok env own F X (tg_tcm g)" using central_spans by blast
  then show "mem_os env own" by (rule spans_okD(8))
  show "classes_ok (tm_sizemap (tg_tcm g))" by (rule central_okD(1) [OF Y])
  show "NULL \<notin> set (tg_heaps g)" "moves_ok (tm_sizemap (tg_tcm g))" using ok by (simp_all add: threads_rep_def limits_ok_def objects_ok_def)
qed

lemma threads_cache:
  assumes "threads_rep env own U L g" "h \<in> set (tg_heaps g)"
  shows "\<exists>c. tg_cache g h = Some c \<and> the_cache g h = Inr c"
proof -
  have "h \<noteq> NULL" using assms by (auto simp: threads_rep_def limits_ok_def)
  moreover obtain c where "tg_cache g h = Some c" using assms by (auto simp: threads_rep_def objects_ok_def)
  ultimately show ?thesis by (simp add: the_cache_def)
qed

lemma threads_step:
  assumes ok: "threads_rep env own U L g" and h: "h \<in> set (tg_heaps g)" "tg_cache g h = Some c"
    and k: "kept_objects (rest_of (tm_sizemap (tg_tcm g)) (set (tg_heaps g)) L h) (tg_tcm g) t'"
    and r: "th_rep env own (V \<union> rest_of (tm_sizemap (tg_tcm g)) (set (tg_heaps g)) L h) c' K t'"
      "V \<inter> rest_of (tm_sizemap (tg_tcm g)) (set (tg_heaps g)) L h = {}"
    and len: "\<And>cl. cl < num_size_classes (tm_sizemap (tg_tcm g)) \<Longrightarrow> int (length (K cl)) \<le> kMaxDynamicFreeListLength"
    and c': "same_cache c c'" and w: "tframe env own (tg_world g) t'"
  shows "threads_rep env own V (L(h := K)) ((set_cache h c' g)\<lparr>tg_tcm := t'\<rparr>)"
proof -
  let ?g = "(set_cache h c' g)\<lparr>tg_tcm := t'\<rparr>"
  have o: "objects_ok env own U (set (tg_heaps g)) L (tg_cache g) (tg_tcm g)" using ok by (simp add: threads_rep_def)
  note f = objects_cache(2) [OF o h]
  have "objects_ok env own V (set (tg_heaps g)) (L(h := K)) ((tg_cache g)(h \<mapsto> c')) t'"
    by (rule objects_step [OF o h(1) k r len]) (use f c' in \<open>auto simp: cache_fine_def same_cache_def\<close>)
  moreover have "claim ?g = claim g" using h(2) c' by (auto simp: claim_def fun_eq_iff same_cache_def)
  then have "limits_ok ?g (set (tg_heaps g))" using ok by (auto simp: threads_rep_def limits_ok_def)
  moreover have "pha_inv sizeof_ThreadCache env own {} (set (tg_heaps g)) (fst (tg_allocator g)) (snd (tg_allocator g)) (ph_world (tm_heap t'))"
    by (rule wframe_pha [OF _ w]) (use ok in \<open>simp add: threads_rep_def\<close>)
  moreover have "tls_ok ?g" using ok h(2) c' by (auto simp: threads_rep_def tls_ok_def same_cache_def)
  ultimately show ?thesis using ok by (simp add: threads_rep_def steal_ok_def)
qed

lemma threads_limits:
  assumes ok: "threads_ok env own U g" and r: "raised (set (tg_heaps g)) h g g'"
  shows "served env own U U g g'"
proof -
  obtain L where L: "threads_rep env own U L g" using ok by (auto simp: threads_ok_def)
  obtain C u s where g': "g' = g\<lparr>tg_cache := C, tg_unclaimed := u, tg_steal := s\<rparr>"
    and rel: "\<And>h. rel_option (\<lambda>c c'. c' = c\<lparr>th_max_size := th_max_size c'\<rparr>) (tg_cache g h) (C h)"
    using r by (auto simp: raised_def limit_step_def)
  have fine: "cache_fine t (c\<lparr>th_max_size := m\<rparr>) K = cache_fine t c K" for t c m K by (simp add: cache_fine_def)
  have C: "\<exists>m. C h = Some (c\<lparr>th_max_size := m\<rparr>)" if "tg_cache g h = Some c" for h c
    using rel [of h] that by (cases "C h") auto
  have "\<exists>c. C h = Some c \<and> cache_fine (tg_tcm g) c (L h)" if "h \<in> set (tg_heaps g)" for h
    using L that C [of h] fine unfolding threads_rep_def objects_ok_def by metis
  then have "objects_ok env own U (set (tg_heaps g)) L C (tg_tcm g)" using L unfolding threads_rep_def objects_ok_def by simp
  moreover have "map_option th_tid (C x) = map_option th_tid (tg_cache g x)" for x
    using rel [of x] by (cases "tg_cache g x"; cases "C x") (auto, metis thread_cache.select_convs(5) thread_cache.surjective thread_cache.update_convs(3))
  then have "tls_ok g'" using L by (simp add: threads_rep_def tls_ok_def g')
  moreover have "limits_ok g' (set (tg_heaps g))" "steal_ok g'" using r by (simp_all add: raised_def)
  ultimately have "threads_rep env own U L g'" using L by (simp add: threads_rep_def g')
  then show ?thesis by (auto simp: served_def threads_ok_def same_threads_def g')
qed

text \<open>An operation that only gives objects back.\<close>

lemma on_cache_gives:
  assumes ok: "threads_ok env own U g" and h: "h \<in> set (tg_heaps g)"
    and f: "\<And>W c L. th_rep env own W c L (tg_tcm g) \<Longrightarrow> sure (f (c, tg_tcm g)) (gives_back env own W c L (tg_tcm g))"
    and w: "\<And>c. when_ok (f (c, tg_tcm g)) (\<lambda>(c', t'). tframe env own (tg_world g) t')"
  shows "sure (on_cache h f g) (served env own U U g)"
proof -
  let ?t = "tg_tcm g" and ?m = "tm_sizemap (tg_tcm g)"
  obtain L where L: "threads_rep env own U L g" using ok by (auto simp: threads_ok_def)
  obtain c where c: "tg_cache g h = Some c" "the_cache g h = Inr c" using threads_cache [OF L h] by blast
  have o: "objects_ok env own U (set (tg_heaps g)) L (tg_cache g) ?t" using L by (simp add: threads_rep_def)
  note oc = objects_cache [OF o h c(1)]
  let ?R = "rest_of ?m (set (tg_heaps g)) L h"
  show ?thesis unfolding on_cache_def c(2) bindR_simps
  proof (rule sure_bind [OF when_ok_sure [OF f [OF oc(1)] w]], clarify)
    fix c' t' assume "gives_back env own (U \<union> ?R) c (L h) ?t (c', t')" and tf: "tframe env own (tg_world g) t'"
    then obtain K where K: "shrunk (L h) K" "th_rep env own (U \<union> ?R) c' K t'" "kept_objects (U \<union> ?R) ?t t'" "same_cache c c'" by (auto simp: gives_back_def)
    have "threads_rep env own U (L(h := K)) ((set_cache h c' g)\<lparr>tg_tcm := t'\<rparr>)"
    proof (rule threads_step [OF L h c(1) _ K(2) oc(3) _ K(4) tf])
      show "kept_objects ?R ?t t'" using K(3) by (rule kept_mono(1)) simp
      fix cl assume "cl < num_size_classes ?m"
      then show "int (length (K cl)) \<le> kMaxDynamicFreeListLength" using oc(4) [of cl] shrunk_sub(2) [OF K(1), of cl] by linarith
    qed
    moreover have "kept_objects U ?t t'" using K(3) by (rule kept_mono(1)) simp
    ultimately show "sure (Inr ((set_cache h c' g)\<lparr>tg_tcm := t'\<rparr>)) (served env own U U g)"
      by (auto simp: served_def threads_ok_def same_threads_def)
  qed
qed

lemma Scavenge_ok:
  assumes "threads_ok env own U g" "h \<in> set (tg_heaps g)"
  shows "sure (th_Scavenge env h g) (served env own U U g)"
proof -
  let ?n = "num_size_classes (tm_sizemap (tg_tcm g))"
  have "sure (on_cache h (scavenge_lists env [0..<?n]) g) (served env own U U g)"
    by (rule on_cache_gives [OF assms scavenge_lists_ok frame_scavenge_lists]) (use threads_env(1) [OF assms(1)] in auto)
  then show ?thesis unfolding th_Scavenge_def
  proof (rule sure_bind)
    fix g1 assume s: "served env own U U g g1"
    then have ok: "threads_ok env own U g1" and h: "h \<in> set (tg_heaps g1)" using assms(2) by (simp_all add: served_def same_threads_def)
    have "sure (IncreaseCacheLimitLocked h g1) (raised (set (tg_heaps g1)) h g1)"
      by (rule IncreaseCacheLimitLocked_ok) (use ok h in \<open>auto simp: threads_ok_def threads_rep_def\<close>)
    then show "sure (IncreaseCacheLimitLocked h g1) (served env own U U g)"
      by (rule sure_mono) (rule served_trans [OF s], rule threads_limits [OF ok])
  qed
qed

lemma scavenge_if_full_ok:
  assumes "threads_ok env own U g" "h \<in> set (tg_heaps g)"
  shows "sure (scavenge_if_full env h g) (served env own U U g)"
proof -
  obtain L where L: "threads_rep env own U L g" using assms(1) by (auto simp: threads_ok_def)
  obtain c where "the_cache g h = Inr c" using threads_cache [OF L assms(2)] by blast
  then show ?thesis using Scavenge_ok [OF assms] served_refl [OF assms(1)] by (simp add: scavenge_if_full_def)
qed

section \<open>Giving an object back\<close>

lemma Deallocate_ok:
  assumes ok: "threads_ok env own U g" and h: "h \<in> set (tg_heaps g)"
    and p: "p \<in> U" "class_of (tg_tcm g) p cl" "cl < num_size_classes (tm_sizemap (tg_tcm g))"
  shows "unless_limit (Deallocate env h p cl g) (served env own U (U - {p}) g)"
proof -
  let ?t = "tg_tcm g" and ?m = "tm_sizemap (tg_tcm g)" and ?V = "U - {p}"
  note os = threads_env(1) [OF ok]
  obtain L where L: "threads_rep env own U L g" using ok by (auto simp: threads_ok_def)
  obtain c where c: "tg_cache g h = Some c" "the_cache g h = Inr c" using threads_cache [OF L h] by blast
  have nn: "h \<noteq> NULL" using threads_env(3) [OF ok] h by auto
  have o: "objects_ok env own U (set (tg_heaps g)) L (tg_cache g) ?t" using L by (simp add: threads_rep_def)
  note oc = objects_cache [OF o h c(1)]
  let ?R = "rest_of ?m (set (tg_heaps g)) L h" and ?K = "(L h)(cl := p # L h cl)"
  let ?W = "?V \<union> ?R"
  have e: "insert p ?W = U \<union> ?R" using p(1) by blast
  have pw: "p \<notin> ?W" using oc(3) p(1) by blast
  have vr: "?V \<inter> ?R = {}" using oc(3) by blast
  have uv: "U \<inter> ?V = ?V" by blast
  have push: "sure (push_to_list p cl (c, ?t)) (\<lambda>x. (case x of (long, c', t') \<Rightarrow> pushed env own ?W cl c' ?K t' \<and> kept_objects ?W ?t t' \<and> same_cache c c' \<and>
     long = (int (length (L h cl)) + 1 > fl_max_length (th_list c' cl))) \<and> (case x of (l, c', t') \<Rightarrow> tframe env own (tg_world g) t'))"
    by (rule when_ok_sure [OF push_to_list_ok frame_push_to_list]) (use oc(1) e pw p oc(4) in auto)
  text \<open>The cache is \<open>c2\<close> and its lists are \<open>K\<close> before the check of its size.\<close>
  have fin: "sure (scavenge_if_full env h ((set_cache h c2 g)\<lparr>tg_tcm := t2\<rparr>)) (served env own U ?V g)"
    if r: "th_rep env own ?W c2 (?K(cl := drop k (p # L h cl))) t2" "kept_objects ?W ?t t2" "same_cache c c2" "tframe env own (tg_world g) t2"
      and l: "int (length (drop k (p # L h cl))) \<le> kMaxDynamicFreeListLength" for c2 t2 k
  proof -
    let ?g = "(set_cache h c2 g)\<lparr>tg_tcm := t2\<rparr>" and ?K' = "?K(cl := drop k (p # L h cl))"
    have "threads_rep env own ?V (L(h := ?K')) ?g"
      by (rule threads_step [OF L h c(1) _ r(1) vr _ r(3,4)]) (use r(2) l oc(4) in \<open>auto intro: kept_mono(1)\<close>)
    then have ok1: "threads_ok env own ?V ?g" by (auto simp: threads_ok_def)
    have "kept_objects ?V ?t t2" using r(2) by (rule kept_mono(1)) blast
    then have "served env own U ?V g ?g" using ok1 by (simp add: served_def same_threads_def uv)
    then show ?thesis using scavenge_if_full_ok [OF ok1, of h] h by (auto elim!: sure_mono intro: served_trans)
  qed
  show ?thesis unfolding Deallocate_def c(2) bindR_simps
  proof (rule limit_bind [OF limit_sure [OF push]], clarify)
    fix long c1 t1 assume pu: "pushed env own ?W cl c1 ?K t1" and k1: "kept_objects ?W ?t t1" and s1: "same_cache c c1"
      and tf: "tframe env own (tg_world g) t1"
    have cl: "cl < num_size_classes (tm_sizemap t1)" using p(3) k1 by (simp add: kept_objects_def)
    let ?long = "int (length (L h cl)) + 1 > fl_max_length (th_list c1 cl)"
    have "unless_limit (if ?long then ListTooLong env h cl ((set_cache h c1 g)\<lparr>tg_tcm := t1\<rparr>)
        else bindR (add_size cl c1) (\<lambda>c2. scavenge_if_full env h (set_cache h c2 ((set_cache h c1 g)\<lparr>tg_tcm := t1\<rparr>)))) (served env own U ?V g)"
    proof (rule if_split [THEN iffD2], intro conjI impI)
      assume ?long
      have r: "ListTooLong env h cl ((set_cache h c1 g)\<lparr>tg_tcm := t1\<rparr>) = bindR (list_too_long env cl (c1, t1)) (\<lambda>(c2, t2).
          scavenge_if_full env h ((set_cache h c2 g)\<lparr>tg_tcm := t2\<rparr>))"
        using nn by (simp add: ListTooLong_def on_cache_def the_cache_ok bindR_assoc split_def)
      show "unless_limit (ListTooLong env h cl ((set_cache h c1 g)\<lparr>tg_tcm := t1\<rparr>)) (served env own U ?V g)" unfolding r
      proof (rule limit_bind [OF limit_when [OF list_too_long_ok [OF pu cl] frame_list_too_long [OF os tf]]], clarify)
        fix c2 t2 k assume k: "0 < k" "th_rep env own ?W c2 (?K(cl := drop k (?K cl))) t2" "kept_objects ?W t1 t2" "same_cache c1 c2" "tframe env own (tg_world g) t2"
        have "int (length (drop k (p # L h cl))) \<le> kMaxDynamicFreeListLength" using k(1) oc(4) [OF p(3)] by simp
        then show "unless_limit (scavenge_if_full env h ((set_cache h c2 g)\<lparr>tg_tcm := t2\<rparr>)) (served env own U ?V g)"
          using fin [of c2 k t2] k kept_trans(1) [OF k1 k(3)] same_cache_trans [OF s1 k(4)] by (intro limit_sure) simp
      qed
    next
      assume nl: "\<not> ?long"
      show "unless_limit (bindR (add_size cl c1) (\<lambda>c2. scavenge_if_full env h (set_cache h c2 ((set_cache h c1 g)\<lparr>tg_tcm := t1\<rparr>)))) (served env own U ?V g)"
      proof (rule limit_bind [OF add_size_ok [OF pu cl]])
        fix c2 assume c2: "th_rep env own ?W c2 ?K t1 \<and> same_cache c1 c2"
        have "fl_max_length (th_list c1 cl) \<le> kMaxDynamicFreeListLength" using pu cl by (simp add: pushed_def lists_in_def fl_ok_def)
        then have "int (length (drop 0 (p # L h cl))) \<le> kMaxDynamicFreeListLength" using nl by simp
        then have sc: "sure (scavenge_if_full env h ((set_cache h c2 g)\<lparr>tg_tcm := t1\<rparr>)) (served env own U ?V g)"
          using c2 k1 tf same_cache_trans [OF s1] by (intro fin [where k = 0]) auto
        have g2: "set_cache h c2 ((set_cache h c1 g)\<lparr>tg_tcm := t1\<rparr>) = (set_cache h c2 g)\<lparr>tg_tcm := t1\<rparr>" by simp
        show "unless_limit (scavenge_if_full env h (set_cache h c2 ((set_cache h c1 g)\<lparr>tg_tcm := t1\<rparr>))) (served env own U ?V g)"
          unfolding g2 by (rule limit_sure [OF sc])
      qed
    qed
    then show "unless_limit (let g1 = (set_cache h c1 g)\<lparr>tg_tcm := t1\<rparr> in if ?long then ListTooLong env h cl g1
        else bindR (add_size cl c1) (\<lambda>c2. scavenge_if_full env h (set_cache h c2 g1))) (served env own U ?V g)" by (simp only: Let_def)
  qed
qed

end
