(* ===== verification/Thread_Heaps.thy ===== *)
theory Thread_Heaps
  imports Thread_State
begin

text \<open>
  Objects from a thread cache in the whole state, and the caches that come and go with the threads.
\<close>

section \<open>Taking an object\<close>

lemma th_Allocate_ok:
  assumes ok: "threads_ok env own U g" and h: "h \<in> set (tg_heaps g)" and cl: "cl < num_size_classes (tm_sizemap (tg_tcm g))" "cl \<noteq> 0"
  shows "unless_limit (th_Allocate env h (byte_size_for_class (tm_sizemap (tg_tcm g)) cl) cl g) (\<lambda>(r, g'). case r of
      None \<Rightarrow> served env own U U g g' \<and> (\<forall>a. \<not> fits (class_to_pages (tm_sizemap (tg_tcm g)) ! cl) (ph_spans (tm_heap (tg_tcm g))) a)
    | Some p \<Rightarrow> p \<notin> U \<and> class_of (tg_tcm g') p cl \<and> served env own U (insert p U) g g')"
proof -
  let ?t = "tg_tcm g" and ?m = "tm_sizemap (tg_tcm g)"
  obtain L where L: "threads_rep env own U L g" using ok by (auto simp: threads_ok_def)
  obtain c where c: "tg_cache g h = Some c" "the_cache g h = Inr c" using threads_cache [OF L h] by blast
  have o: "objects_ok env own U (set (tg_heaps g)) L (tg_cache g) ?t" using L by (simp add: threads_rep_def)
  note oc = objects_cache [OF o h c(1)]
  let ?R = "rest_of ?m (set (tg_heaps g)) L h"
  have served: "served env own U V g ((set_cache h c' g)\<lparr>tg_tcm := t'\<rparr>)"
    if r: "th_rep env own (V \<union> ?R) c' K t'" "V \<inter> ?R = {}" "kept_objects (U \<union> ?R) ?t t'" "same_cache c c'" "tframe env own (tg_world g) t'" "U \<subseteq> V"
      and l: "\<And>d. d < num_size_classes ?m \<Longrightarrow> int (length (K d)) \<le> kMaxDynamicFreeListLength" for V K c' t'
  proof -
    have "kept_objects ?R ?t t'" using r(3) by (rule kept_mono(1)) simp
    then have "threads_rep env own V (L(h := K)) ((set_cache h c' g)\<lparr>tg_tcm := t'\<rparr>)" by (rule threads_step [OF L h c(1) _ r(1,2) l r(4,5)])
    moreover have "kept_objects (U \<inter> V) ?t t'" using r(3) by (rule kept_mono(1)) blast
    ultimately show ?thesis by (auto simp: served_def threads_ok_def same_threads_def)
  qed
  show ?thesis unfolding th_Allocate_def c(2) bindR_simps
  proof (rule limit_bind [OF limit_when [OF Allocate_ok [OF oc(1) cl] frame_Allocate [OF threads_env(1) [OF ok] wframe_refl]]], clarify, goal_cases)
    case (1 r c' t')
    show ?case
    proof (cases r)
      case None
      then show ?thesis using 1 served [of U c' "L h" t'] oc(3,4) by (simp add: obtained_def)
    next
      case (Some p)
      then obtain K where K: "p \<notin> U \<union> ?R" "class_of t' p cl" "th_rep env own (insert p (U \<union> ?R)) c' K t'"
          "\<forall>d. int (length (K d)) \<le> max (int (length (L h d))) kMaxDynamicFreeListLength" "kept_objects (U \<union> ?R) ?t t'" "same_cache c c'"
        using 1(1) by (auto simp: obtained_def)
      have "int (length (K d)) \<le> kMaxDynamicFreeListLength" if "d < num_size_classes ?m" for d using K(4) oc(4) [OF that] by (metis max.absorb2)
      then have "served env own U (insert p U) g ((set_cache h c' g)\<lparr>tg_tcm := t'\<rparr>)"
        by (intro served [OF _ _ K(5,6) 1(2)]) (use K(1,3) oc(3) in auto)
      then show ?thesis using K(1,2) Some by simp
    qed
  qed
qed

section \<open>A new cache\<close>

lemma central_world:
  assumes c: "central_ok env own Y t" and w: "wframe env own (ph_world (tm_heap t)) w"
  shows "central_ok env own Y (t\<lparr>tm_heap := (tm_heap t)\<lparr>ph_world := w\<rparr>\<rparr>)" "kept_objects Y t (t\<lparr>tm_heap := (tm_heap t)\<lparr>ph_world := w\<rparr>\<rparr>)"
proof -
  let ?h = "(tm_heap t)\<lparr>ph_world := w\<rparr>" and ?t = "t\<lparr>tm_heap := (tm_heap t)\<lparr>ph_world := w\<rparr>\<rparr>"
  obtain T F where ok: "spans_ok env own F (Y \<union> chained T (used_slots t)) t" and s: "slots_ok T Y t" using c by (auto simp: central_ok_def)
  have "mem_ok env own ?h" using spans_okD(7) [OF ok] wframe_pha [OF _ w] by (auto simp: heap_ok_def ph_inv_def mem_ok_def)
  moreover have "parts {} ?h" using spans_okD(7) [OF ok] by (simp add: heap_ok_def ph_inv_def parts_def small_ok_def large_ok_def)
  moreover have "stats_balanced ?h" using spans_okD(7) [OF ok] by (simp add: heap_ok_def stats_balanced_def)
  ultimately have "plain_heap env own ?h" using spans_okD(1) [OF ok] by (simp add: plain_heap_def heap_ok_def ph_inv_def)
  then have sh: "spans_ok env own F (Y \<union> chained T (used_slots t)) ?t" "kept_rest (Y \<union> chained T (used_slots t)) t ?t"
    by (intro spans_ok_heap [OF ok]; simp)+
  have d: "Y \<inter> chained T (used_slots t) = {}" using s by (simp add: slots_ok_def)
  show "central_ok env own Y ?t" unfolding central_ok_def slots_ok_kept(2) [OF s sh(2) d]
    using slots_ok_kept [OF s sh(2) d] sh(1) by auto
  show "kept_objects Y t ?t" using sh(2) by (auto simp: kept_rest_def intro: kept_mono(1))
qed

text \<open>The claims when a new cache takes part.\<close>

lemma limits_enter:
  assumes "limits_ok g H" "h \<notin> H" "h \<noteq> NULL"
  shows "limits_ok (set_cache h (c\<lparr>th_size := 0, th_max_size := 0\<rparr>) g) (insert h H)" (is "limits_ok ?g _")
proof -
  have cg: "claim ?g = (claim g)(h := 0)" by simp
  have s: "(\<Sum>x\<in>H. (if x = h then 0 else claim g x)) = (\<Sum>x\<in>H. claim g x)" by (rule sum.cong) (use assms(2) in auto)
  have e: "(\<Sum>x\<in>H. excess (if x = h then 0 else claim g x)) = (\<Sum>x\<in>H. excess (claim g x))" by (rule sum.cong) (use assms(2) in auto)
  have "excess 0 = 0" by (simp add: excess_def limit_constants)
  then show ?thesis using assms s e unfolding limits_ok_def cg by (auto simp: fun_upd_def)
qed

lemma limits_leave:
  assumes "limits_ok g H" "h \<in> H"
  shows "limits_ok (g\<lparr>tg_unclaimed := tg_unclaimed g + claim g h\<rparr>) (H - {h})"
proof -
  have f: "finite H" using assms(1) by (simp add: limits_ok_def)
  have "(\<Sum>x\<in>H. claim g x) = claim g h + (\<Sum>x\<in>H - {h}. claim g x)" "(\<Sum>x\<in>H. excess (claim g x)) = excess (claim g h) + (\<Sum>x\<in>H - {h}. excess (claim g x))"
    by (rule sum.remove [OF f assms(2)])+
  moreover have "0 \<le> excess (claim g h)" by (simp add: excess_def)
  ultimately show ?thesis using assms by (auto simp: limits_ok_def)
qed

lemma limits_forced:
  assumes "limits_ok g H" "h \<in> H" "tg_cache g h = Some c" "th_max_size c = 0"
  shows "limits_ok ((set_cache h (c\<lparr>th_max_size := kMinThreadCacheSize\<rparr>) g)\<lparr>tg_unclaimed := tg_unclaimed g - kMinThreadCacheSize\<rparr>) H" (is "limits_ok ?g _")
proof -
  have f: "finite H" using assms(1) by (simp add: limits_ok_def)
  have c0: "claim g h = 0" using assms(3,4) by (simp add: claim_def)
  let ?f = "(claim g)(h := kMinThreadCacheSize)"
  have cg: "claim ?g = ?f" by (auto simp: claim_def)
  have s: "(\<Sum>x\<in>H. ?f x) = (\<Sum>x\<in>H. claim g x) + kMinThreadCacheSize" using sum_change [OF f assms(2), of ?f "claim g"] c0 by simp
  have e: "(\<Sum>x\<in>H. excess (?f x)) = (\<Sum>x\<in>H. excess (claim g x))"
    using sum_change [OF f assms(2), of "\<lambda>x. excess (?f x)" "\<lambda>x. excess (claim g x)"] c0 by (simp add: excess_def limit_constants)
  show ?thesis using assms(1) s e unfolding limits_ok_def cg by (auto simp: limit_constants)
qed

text \<open>\<open>Init\<close> up to the lists: the new cache has a limit.\<close>

definition entered :: "addr \<Rightarrow> thread_cache \<Rightarrow> 'k tstate \<Rightarrow> 'k tstate \<Rightarrow> bool" where
  "entered h c g g' \<longleftrightarrow> limits_ok g' (insert h (set (tg_heaps g))) \<and> steal_ok g' \<and>
     (\<exists>C u s m. g' = g\<lparr>tg_cache := C, tg_unclaimed := u, tg_steal := s\<rparr> \<and> C h = Some (c\<lparr>th_max_size := m\<rparr>) \<and>
        (\<forall>x. x \<noteq> h \<longrightarrow> rel_option (\<lambda>c c'. c' = c\<lparr>th_max_size := th_max_size c'\<rparr>) (tg_cache g x) (C x)))"

lemma th_Init_limits:
  assumes l: "limits_ok g (set (tg_heaps g))" "steal_ok g" and h: "h \<notin> set (tg_heaps g)" "h \<noteq> NULL"
  shows "sure (bindR (IncreaseCacheLimitLocked h (set_cache h (c\<lparr>th_size := 0, th_max_size := 0\<rparr>) g)) (\<lambda>g1.
     bindR (the_cache g1 h) (\<lambda>c1.
     if th_max_size c1 = 0 then bindR (SetMaxSize h kMinThreadCacheSize g1) (\<lambda>g2.
       let g3 = g2\<lparr>tg_unclaimed := tg_unclaimed g2 - kMinThreadCacheSize\<rparr> in check (tg_unclaimed g3 < 0) (Inr g3))
     else Inr g1))) (entered h (c\<lparr>th_size := 0\<rparr>) g)"
proof -
  let ?c = "c\<lparr>th_size := 0, th_max_size := 0\<rparr>" and ?H = "insert h (set (tg_heaps g))"
  let ?g = "set_cache h ?c g"
  let ?R = "\<lambda>c c' :: thread_cache. c' = c\<lparr>th_max_size := th_max_size c'\<rparr>"
  have l0: "limits_ok ?g ?H" by (rule limits_enter [OF l(1) h])
  have "tg_unclaimed ?g > 0" if "tg_heaps g = []" using l(1) that by (simp add: limits_ok_def limit_constants)
  then have inc: "sure (IncreaseCacheLimitLocked h ?g) (raised ?H h ?g)"
    by (intro IncreaseCacheLimitLocked_ok [OF l0]) (use l(2) in \<open>auto simp: steal_ok_def\<close>)
  show ?thesis
  proof (rule sure_bind [OF inc])
    fix g1 assume r: "raised ?H h ?g g1"
    then obtain C u s where g1: "g1 = ?g\<lparr>tg_cache := C, tg_unclaimed := u, tg_steal := s\<rparr>"
      and rel: "\<And>x. rel_option ?R (tg_cache ?g x) (C x)" by (auto simp: raised_def limit_step_def)
    have "rel_option ?R (Some ?c) (C h)" using rel [of h] by simp
    then obtain m where m: "C h = Some (?c\<lparr>th_max_size := m\<rparr>)" by (cases "C h") auto
    then have m': "C h = Some (c\<lparr>th_size := 0, th_max_size := m\<rparr>)" by simp
    have rx: "rel_option ?R (tg_cache g x) (C x)" if "x \<noteq> h" for x using rel [of x] that by simp
    have tc: "the_cache g1 h = Inr (c\<lparr>th_size := 0, th_max_size := m\<rparr>)" using h(2) m' by (simp add: the_cache_def g1)
    have lim: "limits_ok g1 ?H" "steal_ok g1" using r by (simp_all add: raised_def)
    show "sure (bindR (the_cache g1 h) (\<lambda>c1. if th_max_size c1 = 0 then bindR (SetMaxSize h kMinThreadCacheSize g1) (\<lambda>g2.
        let g3 = g2\<lparr>tg_unclaimed := tg_unclaimed g2 - kMinThreadCacheSize\<rparr> in check (tg_unclaimed g3 < 0) (Inr g3)) else Inr g1)) (entered h (c\<lparr>th_size := 0\<rparr>) g)"
    proof (cases "m = 0")
      case False
      have "entered h (c\<lparr>th_size := 0\<rparr>) g g1" unfolding entered_def
        by (rule conjI [OF lim(1)], rule conjI [OF lim(2)], rule exI [of _ C], rule exI [of _ u], rule exI [of _ s], rule exI [of _ m])
          (use g1 m' rx in simp)
      then show ?thesis using False by (simp add: tc)
    next
      case True
      have "claim g1 h = 0" using m' True by (simp add: claim_def g1)
      then have un: "tg_unclaimed g \<le> 0" "u = tg_unclaimed g" using r by (auto simp: raised_def g1)
      let ?c2 = "c\<lparr>th_size := 0, th_max_size := kMinThreadCacheSize\<rparr>"
      let ?g2 = "(set_cache h ?c2 g1)\<lparr>tg_unclaimed := tg_unclaimed g1 - kMinThreadCacheSize\<rparr>"
      have "limits_ok ((set_cache h ((c\<lparr>th_size := 0, th_max_size := m\<rparr>)\<lparr>th_max_size := kMinThreadCacheSize\<rparr>) g1)\<lparr>tg_unclaimed := tg_unclaimed g1 - kMinThreadCacheSize\<rparr>) ?H"
        by (rule limits_forced [OF lim(1)]) (use m' True in \<open>auto simp: g1\<close>)
      then have l2: "limits_ok ?g2 ?H" "steal_ok ?g2" using lim(2) by (simp_all add: steal_ok_def)
      have "entered h (c\<lparr>th_size := 0\<rparr>) g ?g2" unfolding entered_def
        by (rule conjI [OF l2(1)], rule conjI [OF l2(2)], rule exI [of _ "C(h \<mapsto> ?c2)"], rule exI [of _ "u - kMinThreadCacheSize"], rule exI [of _ s],
            rule exI [of _ kMinThreadCacheSize]) (use rx in \<open>simp add: g1\<close>)
      moreover have "to_int32 kMinThreadCacheSize = kMinThreadCacheSize" "tg_unclaimed g1 - kMinThreadCacheSize < 0"
        using un by (simp_all add: to_int32_id limit_constants g1)
      ultimately show ?thesis using True by (simp add: tc SetMaxSize_def Let_def)
    qed
  qed
qed

lemma ucast_up_nonzero: assumes "(x :: 32 word) \<noteq> 0" shows "(ucast x :: 64 word) \<noteq> 0"
proof -
  obtain n where "bit x n" using assms by (auto simp: bit_eq_iff)
  then have "bit (ucast x :: 64 word) n" using bit_imp_le_length [of x n] by (simp add: bit_ucast_iff)
  then show ?thesis by auto
qed

lemma th_Init_ok:
  assumes l: "limits_ok g (set (tg_heaps g))" "steal_ok g" and h: "h \<notin> set (tg_heaps g)" "h \<noteq> NULL"
    and i: "interval_ok (tg_interval g)" "moves_ok (tm_sizemap (tg_tcm g))" and tid: "(ucast tid :: 32 word) \<noteq> 0"
  shows "sure (th_Init h tid g) (\<lambda>g'. limits_ok g' (insert h (set (tg_heaps g))) \<and> steal_ok g' \<and>
     (\<exists>C u s c. g' = g\<lparr>tg_cache := C, tg_unclaimed := u, tg_steal := s\<rparr> \<and> C h = Some c \<and> cache_fine (tg_tcm g) c (\<lambda>_. []) \<and> th_tid c = tid \<and>
        (\<forall>x. x \<noteq> h \<longrightarrow> rel_option (\<lambda>c c'. c' = c\<lparr>th_max_size := th_max_size c'\<rparr>) (tg_cache g x) (C x))))"
proof -
  let ?t = "tg_tcm g" and ?m = "tm_sizemap (tg_tcm g)" and ?seed = "ucast (ucast tid :: 32 word) :: 64 word"
  define old where "old = (case tg_cache g h of None \<Rightarrow> th_zero | Some c \<Rightarrow> c)"
  have seed: "?seed \<noteq> 0" by (rule ucast_up_nonzero [OF tid])
  have run: "th_Init h tid g = bindR (bindR (IncreaseCacheLimitLocked h (set_cache h (old\<lparr>th_size := 0, th_max_size := 0\<rparr>) g)) (\<lambda>g1.
     bindR (the_cache g1 h) (\<lambda>c1.
     if th_max_size c1 = 0 then bindR (SetMaxSize h kMinThreadCacheSize g1) (\<lambda>g2.
       let g3 = g2\<lparr>tg_unclaimed := tg_unclaimed g2 - kMinThreadCacheSize\<rparr> in check (tg_unclaimed g3 < 0) (Inr g3))
     else Inr g1))) (\<lambda>g4. bindR (the_cache g4 h) (\<lambda>c4.
     let c5 = init_lists (tm_sizemap (tg_tcm g4)) (c4\<lparr>th_tid := tid, th_in_setspecific := False\<rparr>)
     in bindR (sam_Init (tg_sample_parameter g4) (tg_interval g4) ?seed (th_sampler c5)) (\<lambda>sam. Inr (set_cache h (c5\<lparr>th_sampler := sam\<rparr>) g4))))"
    unfolding th_Init_def Let_def old_def bindR_assoc ..
  show ?thesis unfolding run
  proof (rule sure_bind [OF th_Init_limits [OF l h]])
    fix g4 assume "entered h (old\<lparr>th_size := 0\<rparr>) g g4"
    then obtain C u s m where lim: "limits_ok g4 (insert h (set (tg_heaps g)))" "steal_ok g4"
      and g4: "g4 = g\<lparr>tg_cache := C, tg_unclaimed := u, tg_steal := s\<rparr>" and Ch: "C h = Some (old\<lparr>th_size := 0, th_max_size := m\<rparr>)"
      and rx: "\<forall>x. x \<noteq> h \<longrightarrow> rel_option (\<lambda>c c'. c' = c\<lparr>th_max_size := th_max_size c'\<rparr>) (tg_cache g x) (C x)"
      unfolding entered_def by blast
    let ?c5 = "init_lists ?m (old\<lparr>th_size := 0, th_max_size := m, th_tid := tid, th_in_setspecific := False\<rparr>)"
    have tc: "the_cache g4 h = Inr (old\<lparr>th_size := 0, th_max_size := m\<rparr>)" using h(2) Ch by (simp add: the_cache_def g4)
    have sam: "sure (sam_Init (tg_sample_parameter g) (tg_interval g) ?seed (th_sampler ?c5)) sampler_ok"
      using sam_Init_ok [OF i(1) seed] by (rule sure_mono) simp
    have e: "(bindR (the_cache g4 h) (\<lambda>c4. let c5 = init_lists (tm_sizemap (tg_tcm g4)) (c4\<lparr>th_tid := tid, th_in_setspecific := False\<rparr>)
        in bindR (sam_Init (tg_sample_parameter g4) (tg_interval g4) ?seed (th_sampler c5)) (\<lambda>sam. Inr (set_cache h (c5\<lparr>th_sampler := sam\<rparr>) g4)))) =
      bindR (sam_Init (tg_sample_parameter g) (tg_interval g) ?seed (th_sampler ?c5)) (\<lambda>sam. Inr (set_cache h (?c5\<lparr>th_sampler := sam\<rparr>) g4))"
      unfolding tc bindR_simps Let_def by (simp add: g4)
    show "sure (bindR (the_cache g4 h) (\<lambda>c4. let c5 = init_lists (tm_sizemap (tg_tcm g4)) (c4\<lparr>th_tid := tid, th_in_setspecific := False\<rparr>)
        in bindR (sam_Init (tg_sample_parameter g4) (tg_interval g4) ?seed (th_sampler c5)) (\<lambda>sam. Inr (set_cache h (c5\<lparr>th_sampler := sam\<rparr>) g4))))
      (\<lambda>g'. limits_ok g' (insert h (set (tg_heaps g))) \<and> steal_ok g' \<and>
        (\<exists>C u s c. g' = g\<lparr>tg_cache := C, tg_unclaimed := u, tg_steal := s\<rparr> \<and> C h = Some c \<and> cache_fine ?t c (\<lambda>_. []) \<and> th_tid c = tid \<and>
        (\<forall>x. x \<noteq> h \<longrightarrow> rel_option (\<lambda>c c'. c' = c\<lparr>th_max_size := th_max_size c'\<rparr>) (tg_cache g x) (C x))))"
      unfolding e
    proof (rule sure_bind [OF sam], unfold sure_simps)
      fix sam assume so: "sampler_ok sam"
      let ?c = "?c5\<lparr>th_sampler := sam\<rparr>"
      let ?g = "set_cache h ?c g4"
      have "claim ?g = claim g4" using Ch by (auto simp: claim_def g4 fun_eq_iff init_lists_def)
      then have "limits_ok ?g (insert h (set (tg_heaps g)))" using lim(1) by (auto simp: limits_ok_def)
      moreover have "steal_ok ?g" using lim(2) by (simp add: steal_ok_def)
      moreover have "to_int32 (byte_size_for_class ?m cl) = byte_size_for_class ?m cl" if "cl < num_size_classes ?m" for cl
      proof -
        have "0 \<le> byte_size_for_class ?m cl" "byte_size_for_class ?m cl \<le> kMaxSize" using i(2) that by (simp_all add: moves_ok_def)
        then show ?thesis by (simp add: to_int32_id kMaxSize_def)
      qed
      then have "cache_fine ?t ?c (\<lambda>_. [])" using so
        by (auto simp: cache_fine_def init_lists_def fl_ok_def fl_Init_def bytes_in_def int_max_def kMaxDynamicFreeListLength_def kMaxOverages_def)
      moreover have "th_tid ?c = tid" by (simp add: init_lists_def)
      moreover have "?g = g\<lparr>tg_cache := C(h \<mapsto> ?c), tg_unclaimed := u, tg_steal := s\<rparr>" by (simp add: g4)
      ultimately show "limits_ok ?g (insert h (set (tg_heaps g))) \<and> steal_ok ?g \<and>
        (\<exists>C u s c. ?g = g\<lparr>tg_cache := C, tg_unclaimed := u, tg_steal := s\<rparr> \<and> C h = Some c \<and> cache_fine ?t c (\<lambda>_. []) \<and> th_tid c = tid \<and>
        (\<forall>x. x \<noteq> h \<longrightarrow> rel_option (\<lambda>c c'. c' = c\<lparr>th_max_size := th_max_size c'\<rparr>) (tg_cache g x) (C x)))"
        by (intro conjI exI [of _ "C(h \<mapsto> ?c)"] exI [of _ u] exI [of _ s] exI [of _ ?c]) (use rx in simp_all)
    qed
  qed
qed

section \<open>The list of caches\<close>

lemma rel_tid:
  assumes "rel_option (\<lambda>c c' :: thread_cache. c' = c\<lparr>th_max_size := th_max_size c'\<rparr>) x y"
  shows "map_option th_tid y = map_option th_tid x" "cache_fine t c K \<Longrightarrow> x = Some c \<Longrightarrow> \<exists>c'. y = Some c' \<and> cache_fine t c' K"
proof -
  have t: "c' = c\<lparr>th_max_size := th_max_size c'\<rparr> \<Longrightarrow> th_tid c' = th_tid c" for c c' :: thread_cache
    by (metis thread_cache.select_convs(5) thread_cache.surjective thread_cache.update_convs(3))
  show "map_option th_tid y = map_option th_tid x" using assms by (cases rule: option.rel_cases) (simp, simp only: option.map t)
  assume f: "cache_fine t c K" "x = Some c"
  have fm: "cache_fine t (c\<lparr>th_max_size := m\<rparr>) K" for m using f(1) by (simp add: cache_fine_def)
  obtain c' where c': "y = Some c'" "c' = c\<lparr>th_max_size := th_max_size c'\<rparr>" using assms f(2) by (cases rule: option.rel_cases) blast+
  have "cache_fine t c' K" by (subst c'(2)) (rule fm)
  then show "\<exists>c'. y = Some c' \<and> cache_fine t c' K" using c'(1) by blast
qed

definition same_tls :: "'k tstate \<Rightarrow> 'k tstate \<Rightarrow> bool" where
  "same_tls g g' \<longleftrightarrow> tg_heap g' = tg_heap g \<and> tg_heap_key g' = tg_heap_key g \<and> tg_fast_path_heap g' = tg_fast_path_heap g \<and>
     tg_tsd_inited g' = tg_tsd_inited g \<and> tg_sample_parameter g' = tg_sample_parameter g \<and> tg_interval g' = tg_interval g"

lemma NewHeap_ok:
  assumes ok: "threads_ok env own U g" and tid: "(ucast tid :: 32 word) \<noteq> 0"
  shows "unless_oom (NewHeap env tid g) (\<lambda>(h, g'). h \<notin> set (tg_heaps g) \<and> tg_heaps g' = h # tg_heaps g \<and> threads_ok env own U g' \<and>
    kept_objects U (tg_tcm g) (tg_tcm g') \<and> same_tls g g' \<and> map_option th_tid (tg_cache g' h) = Some tid)"
proof -
  let ?hs = "tg_heaps g" and ?sz = sizeof_ThreadCache
  obtain L where L: "threads_rep env own U L g" using ok by (auto simp: threads_ok_def)
  have pi: "pha_inv ?sz env own {} (set ?hs) (fst (tg_allocator g)) (snd (tg_allocator g)) (tg_world g)" using L by (simp add: threads_rep_def)
  note os = threads_env(1) [OF ok]
  have al: "unless_oom (pha_new ?sz env (fst (tg_allocator g)) (snd (tg_allocator g)) (tg_world g))
      (\<lambda>x. (case x of (p, al', h', w') \<Rightarrow> p \<notin> set ?hs \<and> 0 < p \<and> block p ?sz \<inter> ({} \<union> blocks ?sz (set ?hs)) = {} \<and> pha_inv ?sz env own {} (insert p (set ?hs)) al' h' w') \<and>
       (case x of (p, al', h', w') \<Rightarrow> wframe env own (tg_world g) w'))"
    by (rule when_ok_oom [OF pha_new_oom [OF os pi] wframe_pha_new [OF os wframe_refl]]) (simp_all add: sizeof_ThreadCache_def kAllocIncrement_def)
  show ?thesis unfolding NewHeap_def
  proof (rule oom_bind [OF al], clarify, goal_cases)
    case (1 h al ws w)
    let ?g = "(set_world_of w g)\<lparr>tg_allocator := (al, ws)\<rparr>" and ?t = "(tg_tcm g)\<lparr>tm_heap := (tm_heap (tg_tcm g))\<lparr>ph_world := w\<rparr>\<rparr>"
    let ?Y = "U \<union> all_held (tm_sizemap (tg_tcm g)) (set ?hs) L"
    have g: "tg_tcm ?g = ?t" "tg_heaps ?g = ?hs" "tg_cache ?g = tg_cache g" "tg_interval ?g = tg_interval g" by (simp_all add: set_world_of_def)
    have c0: "central_ok env own ?Y (tg_tcm g)" using L by (simp add: threads_rep_def objects_ok_def)
    note cw = central_world [OF c0 \<open>wframe env own (tg_world g) w\<close>]
    have fine: "cache_fine ?t c (L x)" if "x \<in> set ?hs" "cache_fine (tg_tcm g) c (L x)" for c x
      by (rule cache_fine_kept [OF that(2) kept_mono(1) [OF cw(2)]]) (use that(1) in \<open>auto simp: all_held_def\<close>)
    have lg: "limits_ok ?g (set (tg_heaps ?g))" "steal_ok ?g" using L by (auto simp: threads_rep_def limits_ok_def claim_def steal_ok_def set_world_of_def)
    have ini: "sure (th_Init h tid ?g) (\<lambda>g'. limits_ok g' (insert h (set (tg_heaps ?g))) \<and> steal_ok g' \<and>
     (\<exists>C u s c. g' = ?g\<lparr>tg_cache := C, tg_unclaimed := u, tg_steal := s\<rparr> \<and> C h = Some c \<and> cache_fine (tg_tcm ?g) c (\<lambda>_. []) \<and> th_tid c = tid \<and>
        (\<forall>x. x \<noteq> h \<longrightarrow> rel_option (\<lambda>c c'. c' = c\<lparr>th_max_size := th_max_size c'\<rparr>) (tg_cache ?g x) (C x))))"
      by (rule th_Init_ok [OF lg _ _ _ _ tid]) (use 1 L in \<open>auto simp: g threads_rep_def objects_ok_def\<close>)
    show ?case
    proof (rule oom_bind [OF oom_sure [OF ini]], goal_cases)
      case (1 g1)
      then obtain C u s c where lim: "limits_ok g1 (insert h (set ?hs))" "steal_ok g1" and g1: "g1 = ?g\<lparr>tg_cache := C, tg_unclaimed := u, tg_steal := s\<rparr>"
        and c: "C h = Some c" "cache_fine ?t c (\<lambda>_. [])" "th_tid c = tid"
        and rx: "\<And>x. x \<noteq> h \<Longrightarrow> rel_option (\<lambda>c c'. c' = c\<lparr>th_max_size := th_max_size c'\<rparr>) (tg_cache g x) (C x)" by (auto simp: g)
      let ?s = "if ?hs = [] then h else s" and ?L = "L(h := \<lambda>_. [])"
      let ?g' = "g1\<lparr>tg_steal := ?s, tg_heaps := h # ?hs, tg_count := tg_count g1 + 1\<rparr>"
      have hn: "tg_heaps g1 = ?hs" by (simp add: g1 set_world_of_def)
      have run: "bindR (if tg_heaps g1 \<noteq> [] then Inr g1 else check (tg_steal g1 = NULL) (Inr (g1\<lparr>tg_steal := h\<rparr>))) (\<lambda>g2.
          Inr (h, g2\<lparr>tg_heaps := h # tg_heaps g2, tg_count := tg_count g2 + 1\<rparr>)) = Inr (h, ?g')"
        using lim(2) by (auto simp: steal_ok_def g1 set_world_of_def)
      have hh: "h \<notin> set ?hs" using \<open>h \<notin> set ?hs\<close> .
      have hl: "held m (?L x) = (if x = h then {} else held m (L x))" for x m by (simp add: held_def)
      have ah: "all_held (tm_sizemap ?t) (insert h (set ?hs)) ?L = all_held (tm_sizemap (tg_tcm g)) (set ?hs) L"
        unfolding all_held_def hl using hh by (auto split: if_splits)
      have "\<exists>c. C x = Some c \<and> cache_fine ?t c (?L x)" if "x \<in> insert h (set ?hs)" for x
      proof (cases "x = h")
        case False
        have "\<forall>x\<in>set ?hs. \<exists>c. tg_cache g x = Some c \<and> cache_fine (tg_tcm g) c (L x)" using L by (simp add: threads_rep_def objects_ok_def)
        moreover have xh: "x \<in> set ?hs" using that False by simp
        ultimately obtain c0 where c0: "tg_cache g x = Some c0" "cache_fine (tg_tcm g) c0 (L x)" by blast
        have "\<exists>c'. C x = Some c' \<and> cache_fine ?t c' (L x)" by (rule rel_tid(2) [OF rx [OF False] fine [OF xh c0(2)] c0(1)])
        then show ?thesis using False by simp
      qed (use c in auto)
      then have ob: "objects_ok env own U (insert h (set ?hs)) ?L C ?t"
        using L cw(1) unfolding objects_ok_def ah hl threads_rep_def by simp
      have li: "limits_ok ?g' (insert h (set ?hs))" using lim(1) by (simp add: limits_ok_def claim_def)
      have st: "steal_ok ?g'" using lim(2) by (auto simp: steal_ok_def g1 set_world_of_def)
      have tl: "tls_ok ?g'"
      proof -
        have "map_option th_tid (C x) = map_option th_tid (tg_cache g x)" if "x \<in> set ?hs" for x using rel_tid(1) [OF rx] that hh by metis
        then show ?thesis using L by (auto simp: threads_rep_def tls_ok_def g1 set_world_of_def)
      qed
      have "threads_rep env own U ?L ?g'"
        using L ob li st tl hh \<open>pha_inv ?sz env own {} (insert h (set ?hs)) al ws w\<close> by (simp add: threads_rep_def g1 set_world_of_def)
      then have "threads_ok env own U ?g'" by (auto simp: threads_ok_def)
      moreover have "kept_objects U (tg_tcm g) (tg_tcm ?g')" using kept_mono(1) [OF cw(2), of U] by (simp add: g1 set_world_of_def)
      moreover have "same_tls g ?g'" by (simp add: same_tls_def g1 set_world_of_def)
      ultimately show ?case unfolding run using hh c by (simp add: g1)
    qed
  qed
qed

section \<open>A cache is deleted\<close>

lemma next_heap_other:
  assumes "distinct hs" "next_heap hs v \<noteq> NULL" shows "next_heap hs v \<in> set hs - {v}"
proof (cases "dropWhile (\<lambda>x. x \<noteq> v) hs")
  case Nil
  then have "next_heap hs v = NULL" by (simp only: next_heap_def list.case)
  then show ?thesis using assms(2) by simp
next
  case (Cons a xs)
  have a: "a = v" using hd_dropWhile [of "\<lambda>x. x \<noteq> v" hs] Cons by simp
  have "distinct (a # xs)" using distinct_dropWhile [OF assms(1), of "\<lambda>x. x \<noteq> v"] Cons by simp
  moreover have "set xs \<subseteq> set hs" using set_dropWhileD [of _ "\<lambda>x. x \<noteq> v" hs] Cons by (metis list.set_intros(2) subsetI)
  ultimately show ?thesis using assms(2) a by (cases xs) (auto simp: next_heap_def Cons)
qed

lemma objects_remove:
  assumes ok: "objects_ok env own U H L C t" and h: "held (tm_sizemap t) (L h) = {}"
  shows "objects_ok env own U (H - {h}) L C t"
proof -
  have "all_held (tm_sizemap t) (H - {h}) L = all_held (tm_sizemap t) H L" using h by (auto simp: all_held_def)
  then show ?thesis using ok by (auto simp: objects_ok_def)
qed

lemma DeleteCache_ok:
  assumes ok: "threads_ok env own U g" and h: "h \<in> set (tg_heaps g)" "\<forall>me. tg_heap g me \<noteq> h"
  shows "sure (DeleteCache env h g) (\<lambda>g'. threads_ok env own U g' \<and> tg_heaps g' = remove1 h (tg_heaps g) \<and>
     kept_objects U (tg_tcm g) (tg_tcm g') \<and> same_tls g g')"
proof -
  let ?t = "tg_tcm g" and ?m = "tm_sizemap (tg_tcm g)" and ?hs = "tg_heaps g"
  obtain L where L: "threads_rep env own U L g" using ok by (auto simp: threads_ok_def)
  obtain c where c: "tg_cache g h = Some c" "the_cache g h = Inr c" using threads_cache [OF L h(1)] by blast
  have nn: "h \<noteq> NULL" using threads_env(3) [OF ok] h(1) by auto
  have o: "objects_ok env own U (set ?hs) L (tg_cache g) ?t" using L by (simp add: threads_rep_def)
  note oc = objects_cache [OF o h(1) c(1)]
  let ?R = "rest_of ?m (set ?hs) L h" and ?L = "L(h := \<lambda>_. [])"
  show ?thesis unfolding DeleteCache_def on_cache_def c(2) bindR_simps bindR_assoc
  proof (rule sure_bind [OF when_ok_sure [OF Cleanup_ok [OF oc(1)] frame_Cleanup [OF threads_env(1) [OF ok] wframe_refl]]], clarify, goal_cases)
    case (1 c' t')
    let ?g = "(set_cache h c' g)\<lparr>tg_tcm := t'\<rparr>"
    have k: "kept_objects ?R ?t t'" "kept_objects U ?t t'" using \<open>kept_objects (U \<union> ?R) ?t t'\<close> by (auto intro: kept_mono(1))
    have r: "threads_rep env own U ?L ?g"
      by (rule threads_step [OF L h(1) c(1) k(1) \<open>th_rep env own (U \<union> ?R) c' (\<lambda>_. []) t'\<close> oc(3) _ \<open>same_cache c c'\<close> \<open>tframe env own (tg_world g) t'\<close>]) (simp add: kMaxDynamicFreeListLength_def)
    have d: "distinct ?hs" using L by (simp add: threads_rep_def)
    have set: "set (remove1 h ?hs) = set ?hs - {h}" by (rule set_remove1_eq [OF d])
    have al: "pha_inv sizeof_ThreadCache env own {} (set ?hs) (fst (tg_allocator g)) (snd (tg_allocator g)) (ph_world (tm_heap t'))" using r by (simp add: threads_rep_def)
    obtain al ws where del: "pha_delete h (fst (tg_allocator g)) (snd (tg_allocator g)) = Inr (al, ws)"
      "pha_inv sizeof_ThreadCache env own {} (set ?hs - {h}) al ws (ph_world (tm_heap t'))" using pha_delete_ok [OF al h(1)] by blast
    define s1 where "s1 = (if tg_steal g = h then next_heap ?hs h else tg_steal g)"
    define s2 where "s2 = (if s1 = NULL then (case remove1 h ?hs of [] \<Rightarrow> NULL | x # _ \<Rightarrow> x) else s1)"
    let ?g' = "?g\<lparr>tg_heaps := remove1 h ?hs, tg_count := tg_count g - 1, tg_steal := s2, tg_unclaimed := tg_unclaimed g + th_max_size c', tg_allocator := (al, ws)\<rparr>"
    have so: "tg_steal g = NULL \<or> tg_steal g \<in> set ?hs" using L by (simp add: threads_rep_def steal_ok_def)
    have "s1 = NULL \<or> s1 \<in> set (remove1 h ?hs)"
    proof (cases "tg_steal g = h")
      case True
      then show ?thesis using next_heap_other [OF d, of h] unfolding s1_def set by (cases "next_heap ?hs h = NULL") simp_all
    qed (use so in \<open>simp add: s1_def set\<close>)
    then have s2: "s2 = NULL \<or> s2 \<in> set (remove1 h ?hs)" unfolding s2_def by (cases "remove1 h ?hs") auto
    have run: "bindR (the_cache ?g h) (\<lambda>c. let hs = remove1 h (tg_heaps ?g); s1 = if tg_steal ?g = h then next_heap (tg_heaps ?g) h else tg_steal ?g;
        s2 = if s1 = NULL then (case hs of [] \<Rightarrow> NULL | x # _ \<Rightarrow> x) else s1
      in bindR (pha_delete h (fst (tg_allocator ?g)) (snd (tg_allocator ?g))) (\<lambda>(al, ws).
        Inr (?g\<lparr>tg_heaps := hs, tg_count := tg_count ?g - 1, tg_steal := s2, tg_unclaimed := tg_unclaimed ?g + th_max_size c, tg_allocator := (al, ws)\<rparr>))) = Inr ?g'"
      using nn del(1) by (simp add: the_cache_def Let_def s2_def s1_def)
    have lo: "limits_ok ?g (set ?hs)" using r by (simp add: threads_rep_def)
    have "limits_ok (?g\<lparr>tg_unclaimed := tg_unclaimed ?g + claim ?g h\<rparr>) (set ?hs - {h})" by (rule limits_leave [OF lo h(1)])
    then have li: "limits_ok ?g' (set ?hs - {h})" by (simp add: limits_ok_def claim_def)
    have "objects_ok env own U (set ?hs - {h}) ?L (tg_cache ?g) t'"
      by (rule objects_remove) (use r in \<open>simp_all add: threads_rep_def held_def\<close>)
    moreover have "tls_ok ?g'" using r h(2) set by (auto simp: threads_rep_def tls_ok_def)
    moreover have "tg_count g - 1 = int (length (remove1 h ?hs))"
    proof -
      have "0 < length ?hs" using h(1) by auto
      then have "int (length ?hs - 1) = int (length ?hs) - 1" by linarith
      then show ?thesis using L h(1) by (simp add: threads_rep_def length_remove1)
    qed
    ultimately have "threads_rep env own U ?L ?g'" using r li s2 d del(2) by (simp add: threads_rep_def set steal_ok_def distinct_remove1)
    then have "threads_ok env own U ?g'" by (auto simp: threads_ok_def)
    then show ?case unfolding bindR_simps run sure_simps using k(2) by (simp add: same_tls_def)
  qed
qed

text \<open>A thread that gives up its cache.\<close>

lemma clear_ok:
  assumes ok: "threads_ok env own U g" and h: "tg_heap g me \<noteq> NULL"
  shows "threads_ok env own U ((clear_heap me g)\<lparr>tg_heap_key := (tg_heap_key g)(me := NULL)\<rparr>)"
    "tg_heap g me \<in> set (tg_heaps g)" "\<forall>x. ((tg_heap g)(me := NULL)) x \<noteq> tg_heap g me" "the_cache g (tg_heap g me) \<noteq> Inl e"
    "tg_heap_key g me = tg_heap g me" "\<And>c. the_cache g (tg_heap g me) = Inr c \<Longrightarrow> \<not> th_in_setspecific c"
proof -
  obtain L where L: "threads_rep env own U L g" using ok by (auto simp: threads_ok_def)
  then have t: "tls_ok g" by (simp add: threads_rep_def)
  then show m: "tg_heap g me \<in> set (tg_heaps g)" "tg_heap_key g me = tg_heap g me" using h by (simp_all add: tls_ok_def)
  have tid: "map_option th_tid (tg_cache g (tg_heap g x)) = Some x" if "tg_heap g x \<noteq> NULL" for x using t that by (simp add: tls_ok_def)
  have "tg_heap g x \<noteq> tg_heap g me" if "x \<noteq> me" for x
  proof
    assume e: "tg_heap g x = tg_heap g me"
    then show False using tid [of x] tid [OF h] h that by simp
  qed
  then show "\<forall>x. ((tg_heap g)(me := NULL)) x \<noteq> tg_heap g me" using h by simp
  show "the_cache g (tg_heap g me) \<noteq> Inl e" using threads_cache [OF L m(1)] by auto
  have "\<forall>x\<in>set (tg_heaps g). \<exists>c. tg_cache g x = Some c \<and> cache_fine (tg_tcm g) c (L x)" using L by (simp add: threads_rep_def objects_ok_def)
  then show "\<not> th_in_setspecific c" if "the_cache g (tg_heap g me) = Inr c" for c
    using m(1) that h by (auto simp: the_cache_def cache_fine_def split: option.splits)
  have "tls_ok ((clear_heap me g)\<lparr>tg_heap_key := (tg_heap_key g)(me := NULL)\<rparr>)" using t by (simp add: tls_ok_def)
  moreover have "limits_ok ((clear_heap me g)\<lparr>tg_heap_key := (tg_heap_key g)(me := NULL)\<rparr>) (set (tg_heaps g))" using L by (simp add: threads_rep_def limits_ok_def claim_def)
  ultimately have "threads_rep env own U L ((clear_heap me g)\<lparr>tg_heap_key := (tg_heap_key g)(me := NULL)\<rparr>)" using L by (simp add: threads_rep_def steal_ok_def)
  then show "threads_ok env own U ((clear_heap me g)\<lparr>tg_heap_key := (tg_heap_key g)(me := NULL)\<rparr>)" by (auto simp: threads_ok_def)
qed

lemma clear_delete:
  assumes ok: "threads_ok env own U g" and h: "tg_heap g me \<noteq> NULL"
  shows "sure (DeleteCache env (tg_heap g me) ((clear_heap me g)\<lparr>tg_heap_key := (tg_heap_key g)(me := NULL)\<rparr>))
    (\<lambda>g'. threads_ok env own U g' \<and> tg_heap g' = (tg_heap g)(me := NULL) \<and> tg_tsd_inited g' = tg_tsd_inited g \<and>
      tg_sample_parameter g' = tg_sample_parameter g \<and> kept_objects U (tg_tcm g) (tg_tcm g'))"
  by (rule sure_mono [OF DeleteCache_ok [OF clear_ok(1) [OF assms]]]) (use clear_ok(2,3) [OF assms] in \<open>auto simp: same_tls_def\<close>)

lemma BecomeIdle_ok:
  assumes "threads_ok env own U g"
  shows "sure (BecomeIdle env me g) (\<lambda>g'. threads_ok env own U g' \<and> kept_objects U (tg_tcm g) (tg_tcm g') \<and> (tg_tsd_inited g \<longrightarrow> tg_heap g' me = NULL) \<and>
     tg_sample_parameter g' = tg_sample_parameter g)"
proof (cases "\<not> tg_tsd_inited g \<or> tg_heap g me = NULL")
  case True
  then show ?thesis using assms by (auto simp: BecomeIdle_def)
next
  case False
  then have h: "tg_heap g me \<noteq> NULL" by simp
  obtain c where c: "the_cache g (tg_heap g me) = Inr c" using clear_ok(4) [OF assms h] by (cases "the_cache g (tg_heap g me)") auto
  show ?thesis using False clear_delete [OF assms h] clear_ok(6) [OF assms h c] by (auto simp: BecomeIdle_def c elim!: sure_mono)
qed

lemma thread_exit_ok:
  assumes "threads_ok env own U g"
  shows "sure (thread_exit env me g) (\<lambda>g'. threads_ok env own U g' \<and> kept_objects U (tg_tcm g) (tg_tcm g') \<and> tg_heap g' me = NULL \<and>
     tg_sample_parameter g' = tg_sample_parameter g \<and> tg_tsd_inited g' = tg_tsd_inited g)"
proof (cases "tg_heap g me = NULL")
  case True
  obtain L where L: "threads_rep env own U L g" using assms by (auto simp: threads_ok_def)
  then have k: "tg_heap_key g me = NULL" using True by (simp add: threads_rep_def tls_ok_def)
  then have "g\<lparr>tg_heap_key := (tg_heap_key g)(me := NULL)\<rparr> = g" by (simp add: fun_upd_idem)
  then show ?thesis using assms True k by (simp add: thread_exit_def DestroyThreadCache_def)
next
  case False
  have e: "clear_heap me (g\<lparr>tg_heap_key := (tg_heap_key g)(me := NULL)\<rparr>) = (clear_heap me g)\<lparr>tg_heap_key := (tg_heap_key g)(me := NULL)\<rparr>" by simp
  have r: "thread_exit env me g = DeleteCache env (tg_heap g me) ((clear_heap me g)\<lparr>tg_heap_key := (tg_heap_key g)(me := NULL)\<rparr>)"
    using clear_ok(5) [OF assms False] False unfolding thread_exit_def DestroyThreadCache_def e by simp
  show ?thesis unfolding r by (rule sure_mono [OF clear_delete [OF assms False]]) auto
qed

end
