(* ===== verification/Thread_Module.thy ===== *)
theory Thread_Module
  imports Thread_Heaps
begin

text \<open>
  How a thread comes to its cache, and the state after \<open>InitModule\<close>.
\<close>

section \<open>The cache of a thread\<close>

lemma threads_fine:
  assumes "threads_ok env own U g" "h \<in> set (tg_heaps g)"
  shows "\<exists>c. the_cache g h = Inr c \<and> \<not> th_in_setspecific c \<and> sampler_ok (th_sampler c)"
proof -
  obtain L where L: "threads_rep env own U L g" using assms(1) by (auto simp: threads_ok_def)
  then have "\<forall>h\<in>set (tg_heaps g). \<exists>c. tg_cache g h = Some c \<and> cache_fine (tg_tcm g) c (L h)" by (simp add: threads_rep_def objects_ok_def)
  moreover have "h \<noteq> NULL" using threads_env(3) [OF assms(1)] assms(2) by auto
  ultimately show ?thesis using assms(2) by (auto simp: the_cache_def cache_fine_def)
qed

lemma threads_assign:
  assumes ok: "threads_ok env own U g" and h: "h \<in> set (tg_heaps g)" "map_option th_tid (tg_cache g h) = Some me" "tg_tsd_inited g"
  shows "threads_ok env own U (g\<lparr>tg_heap_key := (tg_heap_key g)(me := h), tg_heap := (tg_heap g)(me := h), tg_fast_path_heap := (tg_fast_path_heap g)(me := h)\<rparr>)"
    (is "threads_ok env own U ?g")
proof -
  obtain L where L: "threads_rep env own U L g" using ok by (auto simp: threads_ok_def)
  have "tls_ok ?g" using L h by (auto simp: threads_rep_def tls_ok_def)
  moreover have "limits_ok ?g (set (tg_heaps g))" using L by (simp add: threads_rep_def limits_ok_def claim_def)
  ultimately have "threads_rep env own U L ?g" using L by (simp add: threads_rep_def steal_ok_def)
  then show ?thesis by (auto simp: threads_ok_def)
qed

text \<open>The state after a thread has asked for its cache.\<close>

definition has_cache :: "'k tc_env \<Rightarrow> ('k \<Rightarrow> addr set) \<Rightarrow> addr set \<Rightarrow> 64 word \<Rightarrow> 'k tstate \<Rightarrow> addr \<times> 'k tstate \<Rightarrow> bool" where
  "has_cache env own U me g = (\<lambda>(h, g'). h \<in> set (tg_heaps g') \<and> threads_ok env own U g' \<and> kept_objects U (tg_tcm g) (tg_tcm g') \<and>
     (tg_tsd_inited g \<longrightarrow> tg_heap g' me = h) \<and> tg_tsd_inited g' = tg_tsd_inited g \<and> tg_sample_parameter g' = tg_sample_parameter g)"

lemma CreateCacheIfNecessary_ok:
  assumes ok: "threads_ok env own U g" and me: "(ucast me :: 32 word) \<noteq> 0" "tg_heap g me = NULL"
  shows "unless_oom (CreateCacheIfNecessary env me g) (has_cache env own U me g)"
proof -
  define found where "found = (if tg_tsd_inited g then None else find (\<lambda>h. map_option th_tid (tg_cache g h) = Some me) (tg_heaps g))"
  have "unless_oom (case found of None \<Rightarrow> NewHeap env me g | Some h \<Rightarrow> Inr (h, g)) (\<lambda>(h, g'). h \<in> set (tg_heaps g') \<and> threads_ok env own U g' \<and>
     kept_objects U (tg_tcm g) (tg_tcm g') \<and> same_tls g g' \<and> map_option th_tid (tg_cache g' h) = Some me)"
  proof (cases found)
    case None
    show ?thesis unfolding None option.case by (rule oom_mono [OF NewHeap_ok [OF ok me(1)]]) auto
  next
    case (Some h)
    then have "h \<in> set (tg_heaps g) \<and> map_option th_tid (tg_cache g h) = Some me"
      unfolding found_def by (auto simp: find_Some_iff split: if_splits)
    then show ?thesis using Some ok by (simp add: same_tls_def)
  qed
  then show ?thesis unfolding CreateCacheIfNecessary_def found_def [symmetric] Let_def
  proof (rule oom_bind, unfold split_paired_all prod.case)
    fix h g1 assume 1: "h \<in> set (tg_heaps g1) \<and> threads_ok env own U g1 \<and> kept_objects U (tg_tcm g) (tg_tcm g1) \<and> same_tls g g1 \<and> map_option th_tid (tg_cache g1 h) = Some me"
    then obtain c where c: "the_cache g1 h = Inr c" "\<not> th_in_setspecific c" using threads_fine by blast
    have "has_cache env own U me g (h, if tg_tsd_inited g1
       then g1\<lparr>tg_heap_key := (tg_heap_key g1)(me := h), tg_heap := (tg_heap g1)(me := h), tg_fast_path_heap := (tg_fast_path_heap g1)(me := h)\<rparr> else g1)"
      using threads_assign [of env own U g1 h me] 1 by (simp add: has_cache_def same_tls_def)
    then show "unless_oom (bindR (the_cache g1 h) (\<lambda>c. Inr (h, if \<not> th_in_setspecific c \<and> tg_tsd_inited g1
       then g1\<lparr>tg_heap_key := (tg_heap_key g1)(me := h), tg_heap := (tg_heap g1)(me := h), tg_fast_path_heap := (tg_fast_path_heap g1)(me := h)\<rparr> else g1)))
      (has_cache env own U me g)" using c by simp
  qed
qed

lemma GetCache_ok:
  assumes ok: "threads_ok env own U g" and me: "(ucast me :: 32 word) \<noteq> 0"
  shows "unless_oom (GetCache env me g) (has_cache env own U me g)"
proof (cases "tg_heap g me = NULL")
  case True
  then show ?thesis using CreateCacheIfNecessary_ok [OF ok me True] by (simp add: GetCache_def)
next
  case False
  then show ?thesis using clear_ok(2) [OF ok False] ok by (simp add: GetCache_def has_cache_def)
qed

lemma BecomeTemporarilyIdle_ok:
  assumes ok: "threads_ok env own U g" shows "sure (BecomeTemporarilyIdle env me g) (served env own U U g)"
proof (cases "tg_heap g me = NULL")
  case False
  have g: "\<And>W c L. th_rep env own W c L (tg_tcm g) \<Longrightarrow> sure (th_Cleanup env (c, tg_tcm g)) (gives_back env own W c L (tg_tcm g))"
  proof -
    fix W c L assume "th_rep env own W c L (tg_tcm g)"
    from Cleanup_ok [OF this] show "sure (th_Cleanup env (c, tg_tcm g)) (gives_back env own W c L (tg_tcm g))"
    proof (rule sure_mono, clarify)
      fix c' t' assume "th_rep env own W c' (\<lambda>_. []) t'" "kept_objects W (tg_tcm g) t'" "same_cache c c'"
      moreover have "shrunk L (\<lambda>_. [])" unfolding shrunk_def by (metis drop_all order_refl)
      ultimately show "gives_back env own W c L (tg_tcm g) (c', t')" by (auto simp: gives_back_def)
    qed
  qed
  have "sure (on_cache (tg_heap g me) (th_Cleanup env) g) (served env own U U g)"
    by (rule on_cache_gives [OF ok clear_ok(2) [OF ok False] g frame_Cleanup [OF threads_env(1) [OF ok] wframe_refl]])
  then show ?thesis using False by (simp add: BecomeTemporarilyIdle_def)
qed (use served_refl [OF ok] in \<open>simp add: BecomeTemporarilyIdle_def\<close>)

section \<open>Initialisation\<close>

lemma InitTSD_ok:
  assumes ok: "threads_ok env own U g" and i: "\<not> tg_tsd_inited g"
  shows "sure (InitTSD g) (\<lambda>g'. threads_ok env own U g' \<and> tg_tsd_inited g' \<and> g' = g\<lparr>tg_tsd_inited := True\<rparr>)"
proof -
  obtain L where L: "threads_rep env own U L g" using ok by (auto simp: threads_ok_def)
  then have t: "tls_ok g" by (simp add: threads_rep_def)
  then have k: "tg_heap_key g = (\<lambda>_. NULL)" using i by (fastforce simp: tls_ok_def)
  have e: "g\<lparr>tg_tsd_inited := True, tg_heap_key := (\<lambda>_. NULL)\<rparr> = g\<lparr>tg_tsd_inited := True\<rparr>" by (rule tstate.equality) (simp_all add: k)
  have "tls_ok (g\<lparr>tg_tsd_inited := True\<rparr>)" using t by (simp add: tls_ok_def)
  moreover have "limits_ok (g\<lparr>tg_tsd_inited := True\<rparr>) (set (tg_heaps g))" using L by (simp add: threads_rep_def limits_ok_def claim_def)
  ultimately have "threads_rep env own U L (g\<lparr>tg_tsd_inited := True\<rparr>)" using L by (simp add: threads_rep_def steal_ok_def)
  then show ?thesis using i by (auto simp: InitTSD_def e threads_ok_def)
qed

lemma default_moves_ok: "moves_ok default_map"
proof -
  have "\<forall>c \<in> set [0..<86]. let z = default_sizes ! c in num_move_size 32 z \<le> 8192 \<and> 0 \<le> z \<and> z \<le> 262144" by code_simp
  then show ?thesis
    by (simp add: moves_ok_def byte_size_for_class_def default_map_def kClassSizesMax_def Let_def kMaxSize_def kMaxDynamicFreeListLength_def)
qed

text \<open>The state with no cache, and the overall limit set when there is none.\<close>

lemma no_caches_ok:
  assumes c: "central_ok env own {} (tg_tcm g)" and m: "moves_ok (tm_sizemap (tg_tcm g))"
    and a: "pha_inv sizeof_ThreadCache env own {} {} (fst (tg_allocator g)) (snd (tg_allocator g)) (tg_world g)"
    and g: "tg_heaps g = []" "tg_count g = 0" "tg_steal g = NULL" "tg_heap g = (\<lambda>_. NULL)" "tg_fast_path_heap g = (\<lambda>_. NULL)" "tg_heap_key g = (\<lambda>_. NULL)"
    and l: "kMinThreadCacheSize \<le> tg_overall g" "tg_overall g \<le> 2 ^ 30" "tg_unclaimed g = tg_overall g" and i: "interval_ok (tg_interval g)"
  shows "threads_ok env own {} g"
proof -
  have "limits_ok g {}" using l by (simp add: limits_ok_def limit_constants)
  moreover have "objects_ok env own {} {} (\<lambda>_ _. []) (tg_cache g) (tg_tcm g)" using c m by (simp add: objects_ok_def all_held_def)
  ultimately have "threads_rep env own {} (\<lambda>_ _. []) g" using a g i by (simp add: threads_rep_def steal_ok_def tls_ok_def)
  then show ?thesis by (auto simp: threads_ok_def)
qed

lemma set_overall_none:
  assumes "tg_heaps g = []" "tg_count g = 0"
  shows "\<exists>n p. set_overall_thread_cache_size scale new_size g = Inr (g\<lparr>tg_overall := n, tg_unclaimed := n, tg_per_thread := p\<rparr>) \<and>
    kMinThreadCacheSize \<le> n \<and> n \<le> 2 ^ 30"
proof -
  let ?n = "min (max new_size kMinThreadCacheSize) (2 ^ 30)" and ?p = "\<lambda>n. min (max n kMinThreadCacheSize) kMaxThreadCacheSize"
  have n: "kMinThreadCacheSize \<le> ?n" "?n \<le> 2 ^ 30" by (simp_all add: limit_constants)
  then have "to_int64 ?n = ?n" by (simp add: to_int64_id limit_constants)
  then have "set_overall_thread_cache_size scale new_size g = Inr (g\<lparr>tg_overall := ?n, tg_unclaimed := ?n, tg_per_thread := ?p ?n\<rparr>)"
    using assms by (simp add: set_overall_thread_cache_size_def RecomputePerThreadCacheSize_def)
  then show ?thesis using n by blast
qed

lemma ThreadCache_size: "0 < sizeof_ThreadCache" "sizeof_ThreadCache \<le> kAllocIncrement"
  by (simp_all add: sizeof_ThreadCache_def kAllocIncrement_def)

lemma InitModule_ok:
  assumes os: "mem_os env own" "mem_cap own" "madvise_ends env" "heap_limit_mb env = 0" and w: "meta_ok env own {} w"
    and m: "size_map_init transfer = Inr m" "classes_ok m" "moves_ok m" and i: "interval_ok interval"
  shows "unless_oom (InitModule env scale transfer False param interval tcb w) (\<lambda>(g, s). threads_ok env own {} g \<and>
     tm_sizemap (tg_tcm g) = m \<and> tg_sample_parameter g = param \<and> tg_interval g = interval \<and> \<not> tg_tsd_inited g)"
proof -
  have sm: "when_ok (InitStaticVars env transfer False w) (\<lambda>s. tm_sizemap (st_tcm s) = m)"
    by (auto simp: InitStaticVars_def m(1) when_ok_def bindR_eq_Inr)
  show ?thesis unfolding InitModule_def
  proof (rule oom_bind [OF when_ok_oom [OF InitStaticVars_ok [OF os w m(1,2)] sm]])
    fix s assume s: "statics_ok env own s \<and> tm_sizemap (st_tcm s) = m"
    let ?w = "ph_world (tm_heap (st_tcm s))"
    obtain U al ws where b: "pha_inv sizeof_Bucket env own {} U al ws ?w" using s by (auto simp: statics_ok_def)
    have c: "central_ok env own {} (st_tcm s)" using s by (simp add: statics_ok_def)
    have meta: "meta_ok env own {} ?w" using b by (auto simp: pha_inv_def elim: meta_ok_subset)
    show "unless_oom (bindR (pha_init sizeof_ThreadCache env (\<lambda>_. None) ?w) (\<lambda>(al, ws, w1).
     let g = \<lparr>tg_tcm = (st_tcm s)\<lparr>tm_heap := (tm_heap (st_tcm s))\<lparr>ph_world := w1\<rparr>\<rparr>, tg_heaps = [], tg_cache = (\<lambda>_. None), tg_count = 0,
              tg_steal = NULL, tg_overall = kDefaultOverallThreadCacheSize, tg_per_thread = kMaxThreadCacheSize,
              tg_unclaimed = kDefaultOverallThreadCacheSize, tg_allocator = (al, ws), tg_heap = (\<lambda>_. NULL),
              tg_fast_path_heap = (\<lambda>_. NULL), tg_heap_key = (\<lambda>_. NULL), tg_tsd_inited = False,
              tg_sample_parameter = param, tg_interval = interval\<rparr>
     in bindR (case tcb of None \<Rightarrow> Inr g | Some n \<Rightarrow> set_overall_thread_cache_size scale (to_size_t n) g) (\<lambda>g1. Inr (g1, s))))
     (\<lambda>(g, s). threads_ok env own {} g \<and> tm_sizemap (tg_tcm g) = m \<and> tg_sample_parameter g = param \<and> tg_interval g = interval \<and> \<not> tg_tsd_inited g)"
    proof (rule oom_bind [OF when_ok_oom [OF pha_init_oom [OF os(1) meta ThreadCache_size] wframe_pha_init [OF os(1) wframe_refl]]], clarify, goal_cases)
      case (1 al ws w1)
      let ?g = "\<lparr>tg_tcm = (st_tcm s)\<lparr>tm_heap := (tm_heap (st_tcm s))\<lparr>ph_world := w1\<rparr>\<rparr>, tg_heaps = [], tg_cache = (\<lambda>_. None), tg_count = 0,
              tg_steal = NULL, tg_overall = kDefaultOverallThreadCacheSize, tg_per_thread = kMaxThreadCacheSize,
              tg_unclaimed = kDefaultOverallThreadCacheSize, tg_allocator = (al, ws), tg_heap = (\<lambda>_. NULL),
              tg_fast_path_heap = (\<lambda>_. NULL), tg_heap_key = (\<lambda>_. NULL), tg_tsd_inited = False,
              tg_sample_parameter = param, tg_interval = interval\<rparr>"
      have c': "central_ok env own {} (tg_tcm ?g)" "kept_objects {} (st_tcm s) (tg_tcm ?g)" using central_world [OF c, of w1] 1 by simp_all
      have fin: "threads_ok env own {} (?g\<lparr>tg_overall := n, tg_unclaimed := n, tg_per_thread := p\<rparr>)" if "kMinThreadCacheSize \<le> n" "n \<le> 2 ^ 30" for n p
        by (rule no_caches_ok) (use c' 1 that i m(3) s in \<open>simp_all add: kept_objects_def\<close>)
      have "\<exists>n p. (case tcb of None \<Rightarrow> Inr ?g | Some n \<Rightarrow> set_overall_thread_cache_size scale (to_size_t n) ?g) =
          Inr (?g\<lparr>tg_overall := n, tg_unclaimed := n, tg_per_thread := p\<rparr>) \<and> kMinThreadCacheSize \<le> n \<and> n \<le> 2 ^ 30"
      proof (cases tcb)
        case None
        then show ?thesis
          by (intro exI [of _ kDefaultOverallThreadCacheSize] exI [of _ kMaxThreadCacheSize])
            (simp add: kDefaultOverallThreadCacheSize_def kMaxThreadCacheSize_def limit_constants)
      next
        case (Some k)
        show ?thesis unfolding Some option.case by (rule set_overall_none) simp_all
      qed
      then obtain n p where np: "(case tcb of None \<Rightarrow> Inr ?g | Some n \<Rightarrow> set_overall_thread_cache_size scale (to_size_t n) ?g) =
          Inr (?g\<lparr>tg_overall := n, tg_unclaimed := n, tg_per_thread := p\<rparr>)" "kMinThreadCacheSize \<le> n" "n \<le> 2 ^ 30" by blast
      show ?case unfolding Let_def np(1) bindR_simps using fin [OF np(2,3), of p] c'(2) s by (simp add: kept_objects_def)
    qed
  qed
qed

end
