(* ===== verification/Malloc.thy ===== *)
theory Malloc
  imports Thread_Module
begin

unbundle bit_operations_syntax

text \<open>
  The exported routines: src/libs/tcmalloc/src/tcmalloc.cc. Small requests go to the cache of the thread, larger ones
  and sampled ones to the page heap; \<open>free\<close> finds out which by the cache of size classes and the page map.

  \<open>me\<close> is the calling thread. Sizes are integers below \<open>2 ^ 64\<close>. No hooks are installed, \<open>tc_new_mode\<close> is 0 and the
  emergency allocator is not compiled in, so a failed request of the C routines returns a null pointer (here
  \<open>None\<close>) with \<open>errno = ENOMEM\<close>; the operators of C++, which call the new-handler, are left out. A stack trace is
  reduced to the size that it records. What \<open>memset\<close> and \<open>memcpy\<close> copy is not modelled: of the blocks only the extent is.
\<close>

section \<open>Sizes\<close>

definition pages_of :: "int \<Rightarrow> int" where
  "pages_of sz = uint (pages (word_of_int sz))"

definition align_size_up :: "int \<Rightarrow> int \<Rightarrow> int result" where
  "align_size_up sz align =
     check (align \<le> kPageSize)
       (let new_size = to_size_t (sz + align - 1) AND NOT (align - 1)
        in Inr (if new_size = 0 then if sz = 0 then align else sz else new_size))"

definition size_class_with_alignment :: "size_map \<Rightarrow> int \<Rightarrow> int \<Rightarrow> nat option result" where
  "size_class_with_alignment m sz align =
     (if align > kPageSize then Inr None
      else bindR (align_size_up sz align) (\<lambda>sz.
        case get_size_class m sz of
          None \<Rightarrow> Inr None
        | Some cl \<Rightarrow> check (class_to_size m ! cl AND (align - 1) = 0) (Inr (Some cl))))"

text \<open>\<open>flags\<close> is a 32-bit \<open>int\<close>; the result of the shift is a \<open>size_t\<close>.\<close>

definition nallocx_slow :: "size_map \<Rightarrow> int \<Rightarrow> int \<Rightarrow> int result" where
  "nallocx_slow m sz flags =
     (let align = to_size_t (2 ^ nat (flags AND 0x3f))
      in bindR (size_class_with_alignment m sz align) (\<lambda>r.
         case r of Some cl \<Rightarrow> Inr (byte_size_for_class m cl) | None \<Rightarrow> Inr (to_size_t (push_bit kPageShift (pages_of sz)))))"

definition tc_nallocx :: "size_map \<Rightarrow> int \<Rightarrow> int \<Rightarrow> int result" where
  "tc_nallocx m sz flags =
     (if flags \<noteq> 0 then nallocx_slow m sz flags
      else case get_size_class m sz of
             Some cl \<Rightarrow> if cl \<noteq> 0 then Inr (byte_size_for_class m cl) else nallocx_slow m sz 0
           | None \<Rightarrow> nallocx_slow m sz 0)"

text \<open>Whether to report, and the new threshold.\<close>

definition should_report_large :: "int \<Rightarrow> int \<Rightarrow> bool \<times> int" where
  "should_report_large num_pages threshold =
     (if threshold > 0 \<and> num_pages \<ge> drop_bit kPageShift threshold
      then (True, if threshold + threshold div 8 < 8 * 2 ^ 30 then threshold + threshold div 8 else 8 * 2 ^ 30)
      else (False, threshold))"

section \<open>State\<close>

record 'k mstate =
  ma_threads :: "'k tstate"
  ma_stacktraces :: "ph_allocator \<times> store"
  ma_traces :: "addr \<Rightarrow> int option"
  ma_sampled :: "addr list"
  ma_threshold :: int
  ma_reports :: "(int \<times> addr option) list"

abbreviation ma_tcm :: "'k mstate \<Rightarrow> 'k tcm" where
  "ma_tcm s \<equiv> tg_tcm (ma_threads s)"

abbreviation set_tcm :: "'k tcm \<Rightarrow> 'k mstate \<Rightarrow> 'k mstate" where
  "set_tcm t s \<equiv> s\<lparr>ma_threads := (ma_threads s)\<lparr>tg_tcm := t\<rparr>\<rparr>"

section \<open>Results\<close>

definition CheckCachedSizeClass :: "addr \<Rightarrow> 'k tcm \<Rightarrow> bool result" where
  "CheckCachedSizeClass ptr t =
     (let p = drop_bit kPageShift ptr
      in bindR (pc_TryGet (tm_cache t) p) (\<lambda>r.
         case r of
           None \<Rightarrow> Inr True
         | Some v \<Rightarrow> bindR (GetDescriptor (tm_heap t) p) (\<lambda>d. bindR (the_span (tm_heap t) d) (\<lambda>s. Inr (v = int (sp_sizeclass s))))))"

definition CheckedMallocResult :: "addr option \<Rightarrow> 'k tcm \<Rightarrow> addr option result" where
  "CheckedMallocResult result t =
     (case result of None \<Rightarrow> Inr None | Some p \<Rightarrow> bindR (CheckCachedSizeClass p t) (\<lambda>b. check b (Inr (Some p))))"

definition SpanToMallocResult :: "addr \<Rightarrow> 'k tcm \<Rightarrow> (addr option \<times> 'k tcm) result" where
  "SpanToMallocResult sp t =
     bindR (the_span (tm_heap t) sp) (\<lambda>s.
     bindR (pc_Invalidate (sp_start s) (tm_cache t)) (\<lambda>pc.
     let t1 = t\<lparr>tm_cache := pc\<rparr>
     in bindR (CheckedMallocResult (Some (push_bit kPageShift (sp_start s))) t1) (\<lambda>r. Inr (r, t1))))"

section \<open>Sampling\<close>

text \<open>The sampler lies 3080 bytes into the cache; its address is the first seed.\<close>

definition SampleAllocation :: "addr \<Rightarrow> int \<Rightarrow> 'k tstate \<Rightarrow> (bool \<times> 'k tstate) result" where
  "SampleAllocation h k g =
     bindR (the_cache g h) (\<lambda>c.
     bindR (RecordAllocation (tg_sample_parameter g) (tg_interval g) True (word_of_int (h + 3080)) k (th_sampler c)) (\<lambda>(r, sam).
     Inr (\<not> r, set_cache h (c\<lparr>th_sampler := sam\<rparr>) g)))"

definition TryRecordAllocationFast :: "addr \<Rightarrow> int \<Rightarrow> 'k tstate \<Rightarrow> (bool \<times> 'k tstate) result" where
  "TryRecordAllocationFast h k g =
     bindR (the_cache g h) (\<lambda>c.
     bindR (sam_TryRecordAllocationFast k (th_sampler c)) (\<lambda>(r, sam). Inr (r, set_cache h (c\<lparr>th_sampler := sam\<rparr>) g)))"

definition DoSampledAllocation :: "'k tc_env \<Rightarrow> int \<Rightarrow> 'k mstate \<Rightarrow> (addr option \<times> 'k mstate) result" where
  "DoSampledAllocation env sz s =
     (let t = ma_tcm s in
      bindR (New env (pages_of (if sz = 0 then 1 else sz)) (tm_heap t)) (\<lambda>(r, h1).
        case r of
          None \<Rightarrow> Inr (None, set_tcm (t\<lparr>tm_heap := h1\<rparr>) s)
        | Some sp \<Rightarrow>
            bindR (pha_new sizeof_StackTrace env (fst (ma_stacktraces s)) (snd (ma_stacktraces s)) (ph_world h1)) (\<lambda>(stack, al, ws, w).
            bindR (upd_span sp (\<lambda>x. x\<lparr>sp_sample := True, sp_objects := stack\<rparr>) (h1\<lparr>ph_world := w\<rparr>)) (\<lambda>h2.
            bindR (SpanToMallocResult sp (t\<lparr>tm_heap := h2\<rparr>)) (\<lambda>(p, t1).
            Inr (p, (set_tcm t1 s)\<lparr>ma_stacktraces := (al, ws), ma_traces := (ma_traces s)(stack \<mapsto> sz), ma_sampled := sp # ma_sampled s\<rparr>))))))"

section \<open>Allocation\<close>

definition do_malloc_pages :: "'k tc_env \<Rightarrow> addr \<Rightarrow> int \<Rightarrow> 'k mstate \<Rightarrow> (addr option \<times> 'k mstate) result" where
  "do_malloc_pages env heap sz s =
     (let num_pages = pages_of sz in
      bindR (SampleAllocation heap sz (ma_threads s)) (\<lambda>(sampled, g1).
      let s1 = s\<lparr>ma_threads := g1\<rparr> in
      bindR (if sampled then DoSampledAllocation env sz s1
             else let t = ma_tcm s1 in
               bindR (New env num_pages (tm_heap t)) (\<lambda>(r, h1).
                 case r of
                   None \<Rightarrow> Inr (None, set_tcm (t\<lparr>tm_heap := h1\<rparr>) s1)
                 | Some sp \<Rightarrow> bindR (SpanToMallocResult sp (t\<lparr>tm_heap := h1\<rparr>)) (\<lambda>(p, t1). Inr (p, set_tcm t1 s1)))) (\<lambda>(result, s2).
      let (report_large, thr) = should_report_large num_pages (ma_threshold s2); s3 = s2\<lparr>ma_threshold := thr\<rparr>
      in Inr (result, if report_large then s3\<lparr>ma_reports := (num_pages, result) # ma_reports s3\<rparr> else s3))))"

definition do_malloc :: "'k tc_env \<Rightarrow> 64 word \<Rightarrow> int \<Rightarrow> 'k mstate \<Rightarrow> (addr option \<times> 'k mstate) result" where
  "do_malloc env me sz s =
     bindR (GetCache env me (ma_threads s)) (\<lambda>(cache, g1).
     check (cache \<noteq> NULL)
       (let s1 = s\<lparr>ma_threads := g1\<rparr>; m = tm_sizemap (tg_tcm g1)
        in case get_size_class m sz of
             None \<Rightarrow> do_malloc_pages env cache sz s1
           | Some cl \<Rightarrow>
               let allocated_size = class_to_size m ! cl
               in bindR (SampleAllocation cache allocated_size g1) (\<lambda>(sampled, g2).
                  if sampled then DoSampledAllocation env sz (s1\<lparr>ma_threads := g2\<rparr>)
                  else bindR (th_Allocate env cache allocated_size cl g2) (\<lambda>(p, g3).
                       bindR (CheckedMallocResult p (tg_tcm g3)) (\<lambda>r. Inr (r, s1\<lparr>ma_threads := g3\<rparr>))))))"

text \<open>\<open>do_allocate_full<malloc_oom>\<close>, and with \<open>GetFastPathCache\<close> the fast path of \<open>tc_malloc\<close>.\<close>

definition do_allocate_full :: "'k tc_env \<Rightarrow> 64 word \<Rightarrow> int \<Rightarrow> 'k mstate \<Rightarrow> (addr option \<times> 'k mstate) result" where
  "do_allocate_full env me sz s =
     bindR (do_malloc env me sz s) (\<lambda>(p, s1). bindR (CheckedMallocResult p (ma_tcm s1)) (\<lambda>r. Inr (r, s1)))"

definition tc_malloc :: "'k tc_env \<Rightarrow> 64 word \<Rightarrow> int \<Rightarrow> 'k mstate \<Rightarrow> (addr option \<times> 'k mstate) result" where
  "tc_malloc env me sz s =
     (let g = ma_threads s; cache = tg_fast_path_heap g me; m = tm_sizemap (tg_tcm g)
      in if cache = NULL then do_allocate_full env me sz s
         else case get_size_class m sz of
                None \<Rightarrow> do_allocate_full env me sz s
              | Some cl \<Rightarrow>
                  let allocated_size = byte_size_for_class m cl
                  in bindR (TryRecordAllocationFast cache allocated_size g) (\<lambda>(ok, g1).
                     if \<not> ok then do_allocate_full env me sz (s\<lparr>ma_threads := g1\<rparr>)
                     else bindR (th_Allocate env cache allocated_size cl g1) (\<lambda>(p, g2).
                          bindR (CheckedMallocResult p (tg_tcm g2)) (\<lambda>r. Inr (r, s\<lparr>ma_threads := g2\<rparr>)))))"

definition do_calloc :: "'k tc_env \<Rightarrow> 64 word \<Rightarrow> int \<Rightarrow> int \<Rightarrow> 'k mstate \<Rightarrow> (addr option \<times> 'k mstate) result" where
  "do_calloc env me n elem_size s =
     (let sz = to_size_t (n * elem_size)
      in if elem_size \<noteq> 0 \<and> sz div elem_size \<noteq> n then Inr (None, s) else do_malloc env me sz s)"

section \<open>Release\<close>

definition do_free_pages :: "'k tc_env \<Rightarrow> addr \<Rightarrow> 'k mstate \<Rightarrow> 'k mstate result" where
  "do_free_pages env sp s =
     (let t = ma_tcm s in
      bindR (the_span (tm_heap t) sp) (\<lambda>x.
      bindR (if sp_sample x then
               if sp \<notin> set (ma_sampled s) then Inl NullDeref
               else bindR (pha_delete (sp_objects x) (fst (ma_stacktraces s)) (snd (ma_stacktraces s))) (\<lambda>(al, ws).
                    bindR (upd_span sp (\<lambda>x. x\<lparr>sp_objects := NULL\<rparr>) (tm_heap t)) (\<lambda>h1.
                    Inr ((set_tcm (t\<lparr>tm_heap := h1\<rparr>) s)\<lparr>ma_stacktraces := (al, ws), ma_traces := (ma_traces s)(sp_objects x := None),
                      ma_sampled := remove1 sp (ma_sampled s)\<rparr>)))
             else Inr s) (\<lambda>s1.
      bindR (Delete env sp (tm_heap (ma_tcm s1))) (\<lambda>h2. Inr (set_tcm ((ma_tcm s1)\<lparr>tm_heap := h2\<rparr>) s1)))))"

text \<open>The end of \<open>do_free_with_callback\<close>: the object of class \<open>cl\<close> goes to the thread cache or to the central list.\<close>

definition free_object :: "'k tc_env \<Rightarrow> addr \<Rightarrow> addr \<Rightarrow> nat \<Rightarrow> 'k tstate \<Rightarrow> 'k tstate result" where
  "free_object env heap ptr cl g =
     (if heap \<noteq> NULL then Deallocate env heap ptr cl g
      else bindR (SLL_SetNext (tm_mem (tg_tcm g)) ptr NULL) (\<lambda>m1.
           bindR (InsertRange env cl ptr ptr 1 ((tg_tcm g)\<lparr>tm_mem := m1\<rparr>)) (\<lambda>t1. Inr (g\<lparr>tg_tcm := t1\<rparr>))))"

text \<open>\<open>hint\<close> is the size of a sized release; \<open>InvalidFree\<close> ends the process.\<close>

definition do_free_with_callback :: "'k tc_env \<Rightarrow> 64 word \<Rightarrow> addr \<Rightarrow> int option \<Rightarrow> 'k mstate \<Rightarrow> 'k mstate result" where
  "do_free_with_callback env me ptr hint s =
     (let g = ma_threads s; t = tg_tcm g; heap = tg_heap g me; p = drop_bit kPageShift ptr
      in check (case hint of None \<Rightarrow> True | Some size_hint \<Rightarrow> size_hint < kPageSize)
       (case (case hint of None \<Rightarrow> None | Some size_hint \<Rightarrow> get_size_class (tm_sizemap t) size_hint) of
          Some cl \<Rightarrow> bindR (free_object env heap ptr cl g) (\<lambda>g1. Inr (s\<lparr>ma_threads := g1\<rparr>))
        | None \<Rightarrow>
            bindR (if hint = None then pc_TryGet (tm_cache t) p else Inr None) (\<lambda>hit.
            case hit of
              Some cl \<Rightarrow> bindR (free_object env heap ptr (nat cl) g) (\<lambda>g1. Inr (s\<lparr>ma_threads := g1\<rparr>))
            | None \<Rightarrow>
                bindR (GetDescriptor (tm_heap t) p) (\<lambda>sp.
                if sp = NULL then if ptr \<noteq> NULL then Inl CheckFailed else Inr s
                else bindR (the_span (tm_heap t) sp) (\<lambda>x.
                  let cl = sp_sizeclass x
                  in if cl = 0 then check (ptr mod kPageSize = 0) (check (sp_start x = p) (do_free_pages env sp s))
                     else bindR (if hint = None then bindR (pc_Put p (int cl) (tm_cache t)) (\<lambda>pc. Inr (g\<lparr>tg_tcm := t\<lparr>tm_cache := pc\<rparr>\<rparr>)) else Inr g) (\<lambda>g1.
                          bindR (free_object env heap ptr cl g1) (\<lambda>g2. Inr (s\<lparr>ma_threads := g2\<rparr>))))))))"

definition do_free :: "'k tc_env \<Rightarrow> 64 word \<Rightarrow> addr \<Rightarrow> 'k mstate \<Rightarrow> 'k mstate result" where
  "do_free env me ptr s = do_free_with_callback env me ptr None s"

definition tc_free :: "'k tc_env \<Rightarrow> 64 word \<Rightarrow> addr \<Rightarrow> 'k mstate \<Rightarrow> 'k mstate result" where
  "tc_free env me ptr s = do_free env me ptr s"

definition tc_free_sized :: "'k tc_env \<Rightarrow> 64 word \<Rightarrow> addr \<Rightarrow> int \<Rightarrow> 'k mstate \<Rightarrow> 'k mstate result" where
  "tc_free_sized env me ptr sz s =
     (if ptr AND (kPageSize - 1) = 0 then tc_free env me ptr s else do_free_with_callback env me ptr (Some sz) s)"

section \<open>Reallocation\<close>

text \<open>\<open>InvalidGetSizeForRealloc\<close> ends the process.\<close>

definition GetSizeWithCallback :: "addr \<Rightarrow> 'k mstate \<Rightarrow> int result" where
  "GetSizeWithCallback ptr s =
     (let t = ma_tcm s; m = tm_sizemap t; p = drop_bit kPageShift ptr
      in if ptr = NULL then Inr 0
         else bindR (pc_TryGet (tm_cache t) p) (\<lambda>hit.
           case hit of
             Some cl \<Rightarrow> Inr (byte_size_for_class m (nat cl))
           | None \<Rightarrow>
               bindR (GetDescriptor (tm_heap t) p) (\<lambda>sp.
               if sp = NULL then Inl CheckFailed
               else bindR (the_span (tm_heap t) sp) (\<lambda>x.
                 if sp_sizeclass x \<noteq> 0 then Inr (byte_size_for_class m (sp_sizeclass x))
                 else if sp_sample x then
                   (case ma_traces s (sp_objects x) of None \<Rightarrow> Inl NullDeref | Some orig_size \<Rightarrow> tc_nallocx m orig_size 0)
                 else Inr (to_size_t (push_bit kPageShift (sp_length x)))))))"

definition do_realloc :: "'k tc_env \<Rightarrow> 64 word \<Rightarrow> addr \<Rightarrow> int \<Rightarrow> 'k mstate \<Rightarrow> (addr option \<times> 'k mstate) result" where
  "do_realloc env me old_ptr new_size s =
     bindR (GetSizeWithCallback old_ptr s) (\<lambda>old_size.
     let min_growth = min (old_size div 4) (2 ^ 64 - 1 - old_size);
         lower_bound_to_grow = old_size + min_growth;
         upper_bound_to_shrink = old_size div 2
     in if new_size > old_size \<or> new_size < upper_bound_to_shrink then
          bindR (if new_size > old_size \<and> new_size < lower_bound_to_grow then do_malloc env me lower_bound_to_grow s else Inr (None, s)) (\<lambda>(p1, s1).
          bindR (case p1 of None \<Rightarrow> do_malloc env me new_size s1 | Some p \<Rightarrow> Inr (Some p, s1)) (\<lambda>(p2, s2).
          case p2 of None \<Rightarrow> Inr (None, s2)
          | Some p \<Rightarrow> bindR (do_free_with_callback env me old_ptr None s2) (\<lambda>s3. Inr (Some p, s3))))
        else Inr (Some old_ptr, s))"

definition tc_realloc :: "'k tc_env \<Rightarrow> 64 word \<Rightarrow> addr \<Rightarrow> int \<Rightarrow> 'k mstate \<Rightarrow> (addr option \<times> 'k mstate) result" where
  "tc_realloc env me old_ptr new_size s =
     (if old_ptr = NULL then do_malloc env me new_size s
      else if new_size = 0 then bindR (do_free env me old_ptr s) (\<lambda>s1. Inr (None, s1))
      else do_realloc env me old_ptr new_size s)"

section \<open>Aligned allocation\<close>

text \<open>The loop that skips to an aligned page.\<close>

partial_function (option) skip_pages :: "int \<Rightarrow> int \<Rightarrow> int \<Rightarrow> int option" where
  "skip_pages start align skip =
     (if push_bit kPageShift (start + skip) AND (align - 1) \<noteq> 0 then skip_pages start align (skip + 1) else Some skip)"

text \<open>The pages before and behind the aligned part go back.\<close>

definition carve_aligned :: "'k tc_env \<Rightarrow> int \<Rightarrow> int \<Rightarrow> int \<Rightarrow> addr \<Rightarrow> 'k page_heap \<Rightarrow> (addr \<times> 'k page_heap) result" where
  "carve_aligned env align alloc needed sp h =
     bindR (the_span h sp) (\<lambda>x.
     case skip_pages (sp_start x) align 0 of
       None \<Rightarrow> Inl Diverges
     | Some skip \<Rightarrow>
         check (skip < alloc)
           (bindR (if skip > 0 then bindR (Split env sp skip h) (\<lambda>(rest, h1). bindR (Delete env sp h1) (\<lambda>h2. Inr (rest, h2))) else Inr (sp, h)) (\<lambda>(sp1, h3).
            bindR (the_span h3 sp1) (\<lambda>y.
            check (sp_length y \<ge> needed)
              (if sp_length y > needed
               then bindR (Split env sp1 needed h3) (\<lambda>(trailer, h4). bindR (Delete env trailer h4) (\<lambda>h5. Inr (sp1, h5)))
               else Inr (sp1, h3))))))"

definition do_memalign_pages :: "'k tc_env \<Rightarrow> int \<Rightarrow> int \<Rightarrow> 'k mstate \<Rightarrow> (addr option \<times> 'k mstate) result" where
  "do_memalign_pages env align sz s =
     check (align AND (align - 1) = 0) (check (align > kPageSize)
       (if to_size_t (sz + align) < sz then Inr (None, s)
        else let sz = (if sz = 0 then 1 else sz); t = ma_tcm s; alloc = pages_of (to_size_t (sz + align))
          in bindR (New env alloc (tm_heap t)) (\<lambda>(r, h1).
             case r of
               None \<Rightarrow> Inr (None, set_tcm (t\<lparr>tm_heap := h1\<rparr>) s)
             | Some sp \<Rightarrow>
                 bindR (carve_aligned env align alloc (pages_of sz) sp h1) (\<lambda>(sp1, h2).
                 bindR (SpanToMallocResult sp1 (t\<lparr>tm_heap := h2\<rparr>)) (\<lambda>(p, t1). Inr (p, set_tcm t1 s))))))"

definition memalign_pages :: "'k tc_env \<Rightarrow> int \<Rightarrow> int \<Rightarrow> 'k mstate \<Rightarrow> (addr option \<times> 'k mstate) result" where
  "memalign_pages env align sz s =
     bindR (do_memalign_pages env align sz s) (\<lambda>(rv, s1). bindR (CheckedMallocResult rv (ma_tcm s1)) (\<lambda>r. Inr (r, s1)))"

definition tc_memalign :: "'k tc_env \<Rightarrow> 64 word \<Rightarrow> int \<Rightarrow> int \<Rightarrow> 'k mstate \<Rightarrow> (addr option \<times> 'k mstate) result" where
  "tc_memalign env me align sz s =
     (if align > kPageSize then memalign_pages env align sz s
      else bindR (align_size_up sz align) (\<lambda>n. tc_malloc env me n s))"

text \<open>The result of \<open>tc_posix_memalign\<close> is an error code: \<open>EINVAL\<close> is 22, \<open>ENOMEM\<close> 12.\<close>

definition tc_posix_memalign :: "'k tc_env \<Rightarrow> 64 word \<Rightarrow> int \<Rightarrow> int \<Rightarrow> 'k mstate \<Rightarrow> (int \<times> addr option \<times> 'k mstate) result" where
  "tc_posix_memalign env me align sz s =
     (if align mod 8 \<noteq> 0 \<or> align AND (align - 1) \<noteq> 0 \<or> align = 0 then Inr (22, None, s)
      else bindR (tc_memalign env me align sz s) (\<lambda>(result, s1).
        case result of None \<Rightarrow> Inr (12, None, s1) | Some p \<Rightarrow> Inr (0, Some p, s1)))"

definition tc_valloc :: "'k tc_env \<Rightarrow> 64 word \<Rightarrow> int \<Rightarrow> 'k mstate \<Rightarrow> (addr option \<times> 'k mstate) result" where
  "tc_valloc env me sz s = tc_memalign env me (os_getpagesize env) sz s"

definition pvalloc_size :: "int \<Rightarrow> int \<Rightarrow> int" where
  "pvalloc_size pagesize sz =
     (let sz = (if sz = 0 then pagesize else sz) in to_size_t (sz + pagesize - 1) AND NOT (pagesize - 1))"

definition tc_pvalloc :: "'k tc_env \<Rightarrow> 64 word \<Rightarrow> int \<Rightarrow> 'k mstate \<Rightarrow> (addr option \<times> 'k mstate) result" where
  "tc_pvalloc env me sz s =
     tc_memalign env me (os_getpagesize env) (pvalloc_size (os_getpagesize env) sz) s"

end
