(* ===== verification/Central_Props.thy ===== *)
theory Central_Props
  imports Static_Vars
begin

text \<open>
  The central free lists as the thread caches see them: an interface for sources of ranges of objects, its
  interpretation on the central lists, and the properties of the central lists.
\<close>

section \<open>The bytes of an object\<close>

lemma cell_blocks:
  assumes "x \<in> cells m s" "y \<in> cells m s" "x \<noteq> y" "0 < byte_size_for_class m (sp_sizeclass s)"
  shows "block x (byte_size_for_class m (sp_sizeclass s)) \<inter> block y (byte_size_for_class m (sp_sizeclass s)) = {}"
proof -
  let ?z = "byte_size_for_class m (sp_sizeclass s)"
  obtain i j where ij: "x = sp_start s * kPageSize + int i * ?z" "y = sp_start s * kPageSize + int j * ?z"
    using assms(1,2) by (auto simp: cell_list_def)
  then have "int i \<noteq> int j" using assms(3) by auto
  then have "int i + 1 \<le> int j \<or> int j + 1 \<le> int i" by linarith
  then have "(int i + 1) * ?z \<le> int j * ?z \<or> (int j + 1) * ?z \<le> int i * ?z" using assms(4) by (auto simp: mult_right_mono)
  then show ?thesis unfolding ij by (auto simp: algebra_simps)
qed

lemma object_in_span:
  assumes "spans_ok env own F X t" "sized t a = Some s" "x \<in> cells (tm_sizemap t) s"
  shows "b \<in> block x (byte_size_for_class (tm_sizemap t) (sp_sizeclass s)) \<Longrightarrow> b div kPageSize \<in> page_set s"
  using cell_extent [OF assms(3) sized_fits(2) [OF assms(1,2)]] by (auto simp: page_set_def kPageSize_def)

lemma objects_apart:
  assumes ok: "spans_ok env own F X t" and x: "class_of t x c" and y: "class_of t y d" and ne: "x \<noteq> y"
  shows "block x (byte_size_for_class (tm_sizemap t) c) \<inter> block y (byte_size_for_class (tm_sizemap t) d) = {}"
proof -
  obtain a s where a: "sized t a = Some s" "x \<in> cells (tm_sizemap t) s" "sp_sizeclass s = c" using x by (auto simp: class_of_def)
  obtain b u where b: "sized t b = Some u" "y \<in> cells (tm_sizemap t) u" "sp_sizeclass u = d" using y by (auto simp: class_of_def)
  show ?thesis
  proof (cases "a = b")
    case True
    then show ?thesis using cell_blocks [of x "tm_sizemap t" s y] a b ne sized_fits(2) [OF ok a(1)] by simp
  next
    case False
    then have "page_set s \<inter> page_set u = {}"
      using geo_disjoint [OF spans_okD(9) [OF ok], of a s b u] a(1) b(1) by (simp add: sized_Some)
    then show ?thesis using object_in_span [OF ok a(1,2)] object_in_span [OF ok b(1,2)] a(3) b(3) by blast
  qed
qed

lemma object_owned:
  assumes ok: "spans_ok env own F X t" and x: "class_of t x c"
  shows "block x (byte_size_for_class (tm_sizemap t) c) \<subseteq> own (w_os (ph_world (tm_heap t)))"
proof -
  obtain a s where a: "sized t a = Some s" "x \<in> cells (tm_sizemap t) s" "sp_sizeclass s = c" using x by (auto simp: class_of_def)
  have "block x (byte_size_for_class (tm_sizemap t) c) \<subseteq> heap_mem (ph_spans (tm_heap t))"
    using object_in_span [OF ok a(1,2)] a(1,3) unfolding heap_mem_def heap_pages_def sized_Some by blast
  moreover have "heap_mem (ph_spans (tm_heap t)) \<subseteq> own (w_os (ph_world (tm_heap t)))"
    by (rule heap_mem_owned [OF heap_okD(3) [OF spans_okD(7) [OF ok]]])
  ultimately show ?thesis by blast
qed

section \<open>Sources of ranges of objects\<close>

text \<open>
  A client takes ranges of a size class and gives back, by its position, one of the ranges it holds. A range
  is the class, the first and the last object and the number of objects.
\<close>

type_synonym chain = "nat \<times> addr \<times> addr \<times> int"

datatype range_request = Take nat int | Put nat

fun trade ::
  "(nat \<Rightarrow> int \<Rightarrow> 's \<Rightarrow> (int \<times> addr \<times> addr \<times> 's) result) \<Rightarrow> (nat \<Rightarrow> addr \<Rightarrow> addr \<Rightarrow> int \<Rightarrow> 's \<Rightarrow> 's result) \<Rightarrow>
   range_request list \<Rightarrow> chain list \<Rightarrow> 's \<Rightarrow> (chain list \<times> 's) result" where
  "trade get put [] held s = Inr (held, s)"
| "trade get put (Take c N # rs) held s =
     bindR (get c N s) (\<lambda>(n, p, e, s'). trade get put rs (if n = 0 then held else (c, p, e, n) # held) s')"
| "trade get put (Put i # rs) held s =
     (if i < length held then
        case held ! i of (c, p, e, n) \<Rightarrow> bindR (put c p e n s) (\<lambda>s'. trade get put rs (take i held @ drop (Suc i) held) s')
      else trade get put rs held s)"

definition is_chain :: "store \<Rightarrow> (addr \<Rightarrow> nat \<Rightarrow> bool) \<Rightarrow> (nat \<Rightarrow> bool) \<Rightarrow> chain \<Rightarrow> addr list \<Rightarrow> bool" where
  "is_chain m cl v h ys \<longleftrightarrow> (case h of (c, p, e, n) \<Rightarrow>
     v c \<and> ys \<noteq> [] \<and> sll m p ys \<and> e = last ys \<and> n = int (length ys) \<and> (\<forall>y\<in>set ys. cl y c))"

text \<open>Leaving out one of several lists.\<close>

lemma concat_drop:
  assumes "i < length yss" "distinct (concat yss)"
  shows "distinct (concat (take i yss @ drop (Suc i) yss))"
    "set (concat (take i yss @ drop (Suc i) yss)) = set (concat yss) - set (yss ! i)"
proof -
  have e: "concat yss = concat (take i yss) @ yss ! i @ concat (drop (Suc i) yss)"
    using id_take_nth_drop [OF assms(1)] by (metis concat.simps(2) concat_append)
  show "distinct (concat (take i yss @ drop (Suc i) yss))"
    using assms(2) unfolding e by auto
  show "set (concat (take i yss @ drop (Suc i) yss)) = set (concat yss) - set (yss ! i)"
    using assms(2) unfolding e by auto
qed

locale object_source =
  fixes ok :: "addr set \<Rightarrow> 's \<Rightarrow> bool" and words :: "'s \<Rightarrow> store" and cls :: "'s \<Rightarrow> addr \<Rightarrow> nat \<Rightarrow> bool" and valid :: "'s \<Rightarrow> nat \<Rightarrow> bool"
    and get :: "nat \<Rightarrow> int \<Rightarrow> 's \<Rightarrow> (int \<times> addr \<times> addr \<times> 's) result" and put :: "nat \<Rightarrow> addr \<Rightarrow> addr \<Rightarrow> int \<Rightarrow> 's \<Rightarrow> 's result"
    and same :: "addr set \<Rightarrow> 's \<Rightarrow> 's \<Rightarrow> bool"
  assumes same_law: "same Y s s' \<Longrightarrow> valid s' = valid s \<and> (\<forall>y\<in>Y. words s' y = words s y \<and> (\<forall>c. cls s y c \<longrightarrow> cls s' y c))"
    and get_law: "ok Y s \<Longrightarrow> valid s c \<Longrightarrow> 0 < N \<Longrightarrow> unless_oom (get c N s) (\<lambda>(n, p, e, s'). \<exists>ys. n = int (length ys) \<and> n \<le> N \<and>
       sll (words s') p ys \<and> (ys \<noteq> [] \<longrightarrow> e = last ys) \<and> set ys \<inter> Y = {} \<and> (\<forall>y\<in>set ys. cls s' y c) \<and> ok (Y \<union> set ys) s' \<and> same Y s s')"
    and put_law: "ok Y s \<Longrightarrow> is_chain (words s) (cls s) (valid s) (c, p, e, n) ys \<Longrightarrow> set ys \<subseteq> Y \<Longrightarrow>
       sure (put c p e n s) (\<lambda>s'. ok (Y - set ys) s' \<and> same (Y - set ys) s s')"
begin

abbreviation holds :: "'s \<Rightarrow> chain list \<Rightarrow> addr list list \<Rightarrow> bool" where
  "holds s held yss \<equiv> list_all2 (is_chain (words s) (cls s) (valid s)) held yss \<and> distinct (concat yss) \<and> ok (set (concat yss)) s"

lemma chains_kept:
  assumes "same Y s s'" "\<forall>ys\<in>set yss. set ys \<subseteq> Y" "list_all2 (is_chain (words s) (cls s) (valid s)) held yss"
  shows "list_all2 (is_chain (words s') (cls s') (valid s')) held yss"
  using assms(3,2)
proof (induction held yss rule: list_all2_induct)
  case (Cons h held ys yss)
  note sm = same_law [OF assms(1)]
  have "sll (words s') p ys = sll (words s) p ys" for p by (rule lseg_cong) (use sm Cons.prems in auto)
  then have "is_chain (words s') (cls s') (valid s') h ys" using Cons.hyps(1) sm Cons.prems by (auto simp: is_chain_def split: prod.splits)
  then show ?case using Cons by simp
qed simp

text \<open>Whatever a client takes and gives back, the ranges it holds are intact and have no object in common.\<close>

lemma trade_ok:
  "holds s held yss \<Longrightarrow> \<forall>c N. Take c N \<in> set rs \<longrightarrow> valid s c \<and> 0 < N \<Longrightarrow>
   unless_oom (trade get put rs held s) (\<lambda>(held', s'). \<exists>yss'. holds s' held' yss')"
proof (induction rs arbitrary: held yss s)
  case (Cons q rs)
  show ?case
  proof (cases q)
    case (Take c N)
    then have c: "valid s c" "0 < N" using Cons.prems(2) by auto
    have o: "ok (set (concat yss)) s" using Cons.prems(1) by simp
    show ?thesis unfolding Take trade.simps
    proof (rule oom_bind [OF get_law [OF o c]], clarify)
      fix p e s' ys
      assume ys: "sll (words s') p ys" "ys \<noteq> [] \<longrightarrow> e = last ys" "set ys \<inter> set (concat yss) = {}" "\<forall>y\<in>set ys. cls s' y c"
        "ok (set (concat yss) \<union> set ys) s'" and sm: "same (set (concat yss)) s s'"
      have kept: "list_all2 (is_chain (words s') (cls s') (valid s')) held yss"
        by (rule chains_kept [OF sm]) (use Cons.prems(1) in auto)
      have v: "valid s' = valid s" using same_law [OF sm] by blast
      have rq: "\<forall>c N. Take c N \<in> set rs \<longrightarrow> valid s' c \<and> 0 < N" using Cons.prems(2) v by auto
      show "unless_oom (trade get put rs (if int (length ys) = 0 then held else (c, p, e, int (length ys)) # held) s')
        (\<lambda>(held', s'). \<exists>yss'. holds s' held' yss')"
      proof (cases "ys = []")
        case True
        then show ?thesis using Cons.IH [OF _ rq] kept Cons.prems(1) ys(5) by auto
      next
        case False
        have "is_chain (words s') (cls s') (valid s') (c, p, e, int (length ys)) ys" using ys False c(1) v by (simp add: is_chain_def)
        moreover have "distinct ys" using sll_distinct [OF ys(1)] .
        ultimately have "holds s' ((c, p, e, int (length ys)) # held) (ys # yss)"
          using kept Cons.prems(1) ys(3,5) by (auto simp: Un_commute)
        from Cons.IH [OF this rq] show ?thesis using False by simp
      qed
    qed
  next
    case (Put i)
    show ?thesis
    proof (cases "i < length held")
      case True
      obtain c p e n where h: "held ! i = (c, p, e, n)" by (metis prod_cases4)
      have i: "i < length yss" and ch: "is_chain (words s) (cls s) (valid s) (c, p, e, n) (yss ! i)"
        using True Cons.prems(1) h by (auto simp: list_all2_conv_all_nth)
      have d: "distinct (concat yss)" "ok (set (concat yss)) s" using Cons.prems(1) by simp_all
      have sub: "set (yss ! i) \<subseteq> set (concat yss)" using nth_mem [OF i] by auto
      let ?yss = "take i yss @ drop (Suc i) yss"
      have "unless_oom (bindR (put c p e n s) (\<lambda>s'. trade get put rs (take i held @ drop (Suc i) held) s')) (\<lambda>(held', s'). \<exists>yss'. holds s' held' yss')"
      proof (rule oom_bind [OF oom_sure [OF put_law [OF d(2) ch sub]]])
        fix s' assume s': "ok (set (concat yss) - set (yss ! i)) s' \<and> same (set (concat yss) - set (yss ! i)) s s'"
        note cd = concat_drop [OF i d(1)]
        have la: "list_all2 (is_chain (words s) (cls s) (valid s)) (take i held @ drop (Suc i) held) ?yss"
          using Cons.prems(1) by (auto intro!: list_all2_appendI)
        have sm: "same (set (concat ?yss)) s s'" using s' unfolding cd(2) by blast
        have "\<forall>ys\<in>set ?yss. set ys \<subseteq> set (concat ?yss)" unfolding set_concat by blast
        from chains_kept [OF sm this la]
        have "list_all2 (is_chain (words s') (cls s') (valid s')) (take i held @ drop (Suc i) held) ?yss" .
        then have "holds s' (take i held @ drop (Suc i) held) ?yss" using cd s' by simp
        moreover have "\<forall>c N. Take c N \<in> set rs \<longrightarrow> valid s' c \<and> 0 < N" using Cons.prems(2) same_law s' by fastforce
        ultimately show "unless_oom (trade get put rs (take i held @ drop (Suc i) held) s') (\<lambda>(held', s'). \<exists>yss'. holds s' held' yss')"
          by (rule Cons.IH)
      qed
      then show ?thesis using True Put h by simp
    next
      case False
      then show ?thesis using Cons.IH [OF Cons.prems(1)] Cons.prems(2) Put by simp
    qed
  qed
qed auto

end

interpretation cl: object_source "central_ok env own" tm_mem class_of "\<lambda>t c. c \<noteq> 0 \<and> c < num_size_classes (tm_sizemap t)"
    "RemoveRange env" "InsertRange env" kept_objects
  for env :: "'k tc_env" and own :: "'k \<Rightarrow> addr set"
proof
  fix Y and t t' :: "'k tcm"
  assume "kept_objects Y t t'"
  then show "(\<lambda>c. c \<noteq> 0 \<and> c < num_size_classes (tm_sizemap t')) = (\<lambda>c. c \<noteq> 0 \<and> c < num_size_classes (tm_sizemap t)) \<and>
      (\<forall>y\<in>Y. tm_mem t' y = tm_mem t y \<and> (\<forall>c. class_of t y c \<longrightarrow> class_of t' y c))"
    by (simp add: kept_objects_def)
next
  fix Y and t :: "'k tcm" and c :: nat and N :: int
  assume "central_ok env own Y t" "c \<noteq> 0 \<and> c < num_size_classes (tm_sizemap t)" "0 < N"
  moreover have "Y \<inter> (Y \<union> Z) = Y" for Z by blast
  ultimately show "unless_oom (RemoveRange env c N t) (\<lambda>(n, p, e, t'). \<exists>ys. n = int (length ys) \<and> n \<le> N \<and>
       sll (tm_mem t') p ys \<and> (ys \<noteq> [] \<longrightarrow> e = last ys) \<and> set ys \<inter> Y = {} \<and> (\<forall>y\<in>set ys. class_of t' y c) \<and>
       central_ok env own (Y \<union> set ys) t' \<and> kept_objects Y t t')"
    using RemoveRange_ok [of env own Y t c N] by (auto simp: range_taken_def passed_def elim!: oom_mono)
next
  fix Y and t :: "'k tcm" and c :: nat and p e n ys
  assume ok: "central_ok env own Y t" and ys: "is_chain (tm_mem t) (class_of t) (\<lambda>c. c \<noteq> 0 \<and> c < num_size_classes (tm_sizemap t)) (c, p, e, n) ys" "set ys \<subseteq> Y"
  have "sure (InsertRange env c p e n t) (passed env own Y (Y - set ys) t)"
    by (rule InsertRange_ok [OF ok]) (use ys in \<open>auto simp: is_chain_def\<close>)
  moreover have "Y \<inter> (Y - set ys) = Y - set ys" by blast
  ultimately show "sure (InsertRange env c p e n t) (\<lambda>t'. central_ok env own (Y - set ys) t' \<and> kept_objects (Y - set ys) t t')"
    by (auto simp: passed_def elim!: sure_mono)
qed

section \<open>Properties\<close>

text \<open>
  C7: the central free lists never hand out an object twice. From any state that satisfies the invariant
  with no object out (the state after \<open>InitStaticVars\<close>), take and give back ranges of objects in any order: no
  assertion fails, no loop runs forever, no invalid word is read; the only failure is that the system has no memory
  for a span descriptor. Each range that is held is still a linked list of the stated number of objects of its size
  class, no object is in two ranges, the bytes of any two objects that are out are disjoint, and they belong to memory
  that the system granted.
\<close>
theorem central_lists_trade:
  assumes "central_ok env own {} t"
    and "\<forall>c N. Take c N \<in> set rs \<longrightarrow> c \<noteq> 0 \<and> c < num_size_classes (tm_sizemap t) \<and> 0 < N"
  shows "unless_oom (trade (RemoveRange env) (InsertRange env) rs [] t) (\<lambda>(held, t'). \<exists>yss.
    list_all2 (is_chain (tm_mem t') (class_of t') (\<lambda>c. c \<noteq> 0 \<and> c < num_size_classes (tm_sizemap t'))) held yss \<and> distinct (concat yss) \<and>
    (\<forall>x c. x \<in> set (concat yss) \<and> class_of t' x c \<longrightarrow> block x (byte_size_for_class (tm_sizemap t') c) \<subseteq> own (w_os (ph_world (tm_heap t')))) \<and>
    (\<forall>x y c d. x \<in> set (concat yss) \<and> y \<in> set (concat yss) \<and> x \<noteq> y \<and> class_of t' x c \<and> class_of t' y d \<longrightarrow>
       block x (byte_size_for_class (tm_sizemap t') c) \<inter> block y (byte_size_for_class (tm_sizemap t') d) = {}))"
proof -
  have "unless_oom (trade (RemoveRange env) (InsertRange env) rs [] t) (\<lambda>(held, t'). \<exists>yss.
    list_all2 (is_chain (tm_mem t') (class_of t') (\<lambda>c. c \<noteq> 0 \<and> c < num_size_classes (tm_sizemap t'))) held yss \<and> distinct (concat yss) \<and>
    central_ok env own (set (concat yss)) t')"
    by (rule cl.trade_ok [of _ "[]"]) (use assms in auto)
  then show ?thesis
  proof (rule oom_mono, clarify, goal_cases)
    case (1 held t' yss)
    from 1 obtain T F where "spans_ok env own F (set (concat yss) \<union> chained T (used_slots t')) t'" unfolding central_ok_def by blast
    note objects_apart [OF this] object_owned [OF this]
    then show ?case using 1 by blast
  qed
qed

text \<open>Two size classes: 2048 bytes, two objects at a time, on spans of one page.\<close>

definition tiny_map :: size_map where
  "tiny_map = \<lparr>class_array = [], num_objects_to_move = [0, 2], class_to_size = [0, 2048], class_to_pages = [0, 1], num_size_classes = 2\<rparr>"

definition tiny_central :: "nat \<Rightarrow> central_list" where
  "tiny_central i = central_zero\<lparr>cf_size_class := i, cf_cache_size := 1, cf_max_cache_size := 2\<rparr>"

definition tiny_tcm :: "int tcm" where
  "tiny_tcm = \<lparr>tm_sizemap = tiny_map, tm_central = tiny_central, tm_race = 0, tm_heap = cap_heap, tm_cache = pc_Clear, tm_mem = (\<lambda>_. None)\<rparr>"

lemma tiny_ok: "central_ok cap_env cap_own {} tiny_tcm"
  unfolding tiny_tcm_def
proof (rule central_fresh_ok [OF cap_heap_plain cap_madvise_ends])
  show "live (ph_spans cap_heap) = (\<lambda>_. None)" using start_heap_ok [OF cap_mem_os world_new_ok cap_heap_start] by simp
  show "classes_ok tiny_map"
    by (auto simp: classes_ok_def class_fits_def tiny_map_def kClassSizesMax_def byte_size_for_class_def kPageSize_def)
  show "\<forall>i<num_size_classes tiny_map. central_fresh i (tiny_central i)"
    by (simp add: central_fresh_def tiny_central_def central_zero_def kMaxNumTransferEntries_def)
qed

theorem central_lists_trade_witness:
  "case trade (RemoveRange cap_env) (InsertRange cap_env) [Take 1 2, Take 1 3, Put 1, Take 1 2] [] tiny_tcm of
     Inr (held, t') \<Rightarrow> length held = 2 \<and> (\<exists>yss. list_all2 (is_chain (tm_mem t') (class_of t') (\<lambda>c. c \<noteq> 0 \<and> c < num_size_classes (tm_sizemap t'))) held yss \<and>
       distinct (concat yss)) | Inl e \<Rightarrow> False"
proof -
  let ?rs = "[Take 1 2, Take 1 3, Put 1, Take 1 2]"
  have e: "case trade (RemoveRange cap_env) (InsertRange cap_env) ?rs [] tiny_tcm of Inr (held, t') \<Rightarrow> length held = 2 | Inl e \<Rightarrow> False" by code_simp
  have "\<forall>c N. Take c N \<in> set ?rs \<longrightarrow> c \<noteq> 0 \<and> c < num_size_classes (tm_sizemap tiny_tcm) \<and> 0 < N"
    by (auto simp: tiny_tcm_def tiny_map_def)
  from central_lists_trade [OF tiny_ok this] e show ?thesis
    by (auto simp: unless_oom_def sure_def simp del: trade.simps split: sum.splits)
qed

text \<open>
  C39: \<open>RemoveRange\<close>. In every state that satisfies the invariant, with the objects \<open>Y\<close> out, it keeps the
  invariant and hands out at most \<open>N\<close> objects of the class, linked from \<open>start\<close> to \<open>end\<close>, none of which was
  out before; the words and the classes of the objects in \<open>Y\<close> are unchanged. It hands out none only if the page heap
  has no free span that is long enough for the class.
\<close>
theorem central_remove_range:
  assumes "central_ok env own Y t" "c \<noteq> 0" "c < num_size_classes (tm_sizemap t)" "0 < N"
  shows "unless_oom (RemoveRange env c N t) (\<lambda>(n, start, e, t'). \<exists>ys. n = int (length ys) \<and> n \<le> N \<and> sll (tm_mem t') start ys \<and>
    (ys \<noteq> [] \<longrightarrow> e = last ys) \<and> set ys \<inter> Y = {} \<and> (\<forall>y\<in>set ys. class_of t' y c) \<and> central_ok env own (Y \<union> set ys) t' \<and>
    (\<forall>y\<in>Y. tm_mem t' y = tm_mem t y \<and> (\<forall>d. class_of t y d \<longrightarrow> class_of t' y d)) \<and>
    (n = 0 \<longrightarrow> (\<forall>a. \<not> fits (class_to_pages (tm_sizemap t) ! c) (ph_spans (tm_heap t)) a)))"
proof -
  have e: "Y \<inter> (Y \<union> Z) = Y" for Z by blast
  show ?thesis
  proof (rule oom_mono [OF RemoveRange_ok [OF assms(1,3,2,4)]], clarify, goal_cases)
    case (1 n start e t' ys)
    then show ?case by (intro exI [of _ ys]) (simp add: range_taken_def passed_def kept_objects_def e)
  qed
qed

theorem central_remove_range_witness:
  "case RemoveRange cap_env 1 3 tiny_tcm of Inr (n, start, e, t') \<Rightarrow>
     n = 3 \<and> (\<exists>ys. length ys = 3 \<and> sll (tm_mem t') start ys \<and> e = last ys \<and> central_ok cap_env cap_own (set ys) t') | Inl e \<Rightarrow> False"
proof -
  have e: "case RemoveRange cap_env 1 3 tiny_tcm of Inr (n, start, e, t') \<Rightarrow> n = 3 | Inl e \<Rightarrow> False" by code_simp
  have c: "(1 :: nat) < num_size_classes (tm_sizemap tiny_tcm)" by (simp add: tiny_tcm_def tiny_map_def)
  from central_remove_range [OF tiny_ok _ c, of 3] e show ?thesis
    by (auto simp: unless_oom_def sure_def split: sum.splits)
qed

text \<open>
  C40: the static initialisation. With the default size classes, \<open>InitStaticVars\<close> ends, unless the system
  has no memory, and establishes the invariant of the whole allocator: size classes, central lists, page heap and the
  allocators of metadata, with no object out.
\<close>
theorem static_vars_init:
  assumes "mem_os env own" "mem_cap own" "madvise_ends env" "heap_limit_mb env = 0" "meta_ok env own {} w"
  shows "unless_oom (InitStaticVars env kDefaultTransferNumObjecs False w) (\<lambda>s. statics_ok env own s \<and> tm_sizemap (st_tcm s) = default_map)"
proof -
  have "when_ok (InitStaticVars env kDefaultTransferNumObjecs False w) (\<lambda>s. tm_sizemap (st_tcm s) = default_map)"
    by (auto simp: InitStaticVars_def size_map_init_default when_ok_def bindR_eq_Inr)
  from when_ok_oom [OF InitStaticVars_ok [OF assms size_map_init_default default_classes_ok] this] show ?thesis by (rule oom_mono) simp
qed

theorem static_vars_init_witness:
  "case InitStaticVars cap_env kDefaultTransferNumObjecs False (world_new 5000) of
     Inr s \<Rightarrow> statics_ok cap_env cap_own s | Inl e \<Rightarrow> False"
proof -
  have "heap_limit_mb cap_env = 0" by (simp add: cap_env_def bump_env_def)
  note init = static_vars_init [OF cap_mem_os cap_mem_cap cap_madvise_ends this world_new_ok, of 5000]
  have "case bindR (pha_init sizeof_Span cap_env (\<lambda>_. None) (world_new 5000)) (\<lambda>(al, ws, w).
     bindR (pha_new sizeof_Span cap_env al ws w) (\<lambda>(_, al, ws, w). bindR (pha_new sizeof_Span cap_env al ws w) (\<lambda>(_, al, ws, w).
     bindR (pha_init sizeof_StackTrace cap_env (\<lambda>_. None) w) (\<lambda>(tal, tws, w). pha_init sizeof_Bucket cap_env (\<lambda>_. None) w)))) of
       Inl e \<Rightarrow> False | Inr x \<Rightarrow> True" by code_simp
  moreover obtain C where "init_central default_map [0..<num_size_classes default_map] (\<lambda>_. central_zero) = Inr C"
    using init_central_ok [OF default_classes_ok, of "[0..<num_size_classes default_map]" "\<lambda>_. central_zero"] by (auto simp: sure_def)
  ultimately have "InitStaticVars cap_env kDefaultTransferNumObjecs False (world_new 5000) \<noteq> Inl OutOfMemory"
    by (auto simp: InitStaticVars_def size_map_init_default bindR_def split: sum.splits)
  with init show ?thesis by (auto simp: unless_oom_def sure_def)
qed

end
