(* ===== verification/Malloc_Inv.thy ===== *)
theory Malloc_Inv
  imports Malloc Central_Props
begin

text \<open>
  Whole pages and objects side by side: the page heap gives out and takes back spans while the central lists
  and the thread caches keep their objects, and the invariant of the exported routines.
\<close>

section \<open>Spans that are not cut\<close>

lemma plain_Some: "plain t a = Some s \<longleftrightarrow> ph_spans (tm_heap t) a = Some s \<and> sp_location s = IN_USE \<and> sp_sizeclass s = 0"
  by (auto simp: plain_def live_def split: option.splits if_splits)

lemma plain_sized: "plain t a = Some s \<Longrightarrow> sized t a = None"
  by (auto simp: plain_def sized_def split: option.splits if_splits)

text \<open>A change of spans that are not cut, as the central lists see it.\<close>

lemma central_heap:
  assumes c: "central_ok env own Y t" and h: "plain_heap env own h" and sz: "sized (t\<lparr>tm_heap := h, tm_cache := pc\<rparr>) = sized t"
    and pc: "cache_ok (ph_spans h) pc"
  shows "central_ok env own Y (t\<lparr>tm_heap := h, tm_cache := pc\<rparr>)" "class_of (t\<lparr>tm_heap := h, tm_cache := pc\<rparr>) = class_of t"
proof -
  let ?t = "t\<lparr>tm_heap := h, tm_cache := pc\<rparr>"
  show co: "class_of ?t = class_of t" by (simp add: class_of_def fun_eq_iff sz)
  obtain T F where ok: "spans_ok env own F (Y \<union> chained T (used_slots t)) t" and s: "slots_ok T Y t" using c by (auto simp: central_ok_def)
  have u: "used_slots ?t = used_slots t" by (rule used_slots_cong) simp_all
  have "span_fine ?t F X a x = span_fine t F X a x" for X a x by (simp add: span_fine_def)
  moreover have "class_spans ?t k = class_spans t k" for k by (simp add: class_spans_def sz)
  then have "lists_fine ?t F k l = lists_fine t F k l" for k l by (simp add: lists_fine_def)
  ultimately have "spans_ok env own F (Y \<union> chained T (used_slots t)) ?t" using ok h pc by (simp add: spans_ok_def sz)
  moreover have "chain_ok ?t k l ys = chain_ok t k l ys" for k l ys by (simp add: chain_ok_def co)
  then have "slots_ok T Y ?t" using s by (simp add: slots_ok_def u)
  ultimately show "central_ok env own Y ?t" unfolding central_ok_def u by blast
qed

lemma live_plain:
  assumes "live (ph_spans (tm_heap t')) = (live (ph_spans (tm_heap t)))(a := x)"
    and "\<And>s. x = Some s \<Longrightarrow> sp_sizeclass s = 0" "\<And>s. live (ph_spans (tm_heap t)) a = Some s \<Longrightarrow> sp_sizeclass s = 0"
  shows "sized t' = sized t" "plain t' = (plain t)(a := x)"
proof -
  have "sized t' b = sized t b \<and> plain t' b = ((plain t)(a := x)) b" for b
    using assms(2,3) by (cases "b = a") (auto simp: sized_def plain_def assms(1) split: option.splits)
  then show "sized t' = sized t" "plain t' = (plain t)(a := x)" by blast+
qed

section \<open>The thread caches beside a change of the page heap\<close>

lemma cache_fine_cong:
  assumes "tm_sizemap t' = tm_sizemap t" "tm_mem t' = tm_mem t" "class_of t' = class_of t" shows "cache_fine t' c K = cache_fine t c K"
  by (simp add: cache_fine_def fl_ok_def assms)

lemma threads_tcm:
  assumes ok: "threads_ok env own U g" and c: "\<And>Y. central_ok env own Y (tg_tcm g) \<Longrightarrow> central_ok env own Y t'"
    and t': "tm_sizemap t' = tm_sizemap (tg_tcm g)" "tm_mem t' = tm_mem (tg_tcm g)" "class_of t' = class_of (tg_tcm g)" and w: "tframe env own (tg_world g) t'"
  shows "threads_ok env own U (g\<lparr>tg_tcm := t'\<rparr>)"
proof -
  obtain L where L: "threads_rep env own U L g" using ok by (auto simp: threads_ok_def)
  then have "objects_ok env own U (set (tg_heaps g)) L (tg_cache g) t'" using c by (simp add: threads_rep_def objects_ok_def t' cache_fine_cong [OF t'])
  moreover have "limits_ok (g\<lparr>tg_tcm := t'\<rparr>) (set (tg_heaps g))" using L by (simp add: threads_rep_def limits_ok_def claim_def)
  moreover have "pha_inv sizeof_ThreadCache env own {} (set (tg_heaps g)) (fst (tg_allocator g)) (snd (tg_allocator g)) (ph_world (tm_heap t'))"
    by (rule wframe_pha [OF _ w]) (use L in \<open>simp add: threads_rep_def\<close>)
  ultimately have "threads_rep env own U L (g\<lparr>tg_tcm := t'\<rparr>)" using L by (simp add: threads_rep_def steal_ok_def tls_ok_def)
  then show ?thesis by (auto simp: threads_ok_def)
qed

lemma threads_spans:
  assumes "threads_ok env own U g" shows "\<exists>F X. U \<subseteq> X \<and> spans_ok env own F X (tg_tcm g)"
proof -
  obtain L where "threads_rep env own U L g" using assms by (auto simp: threads_ok_def)
  then have "central_ok env own (U \<union> all_held (tm_sizemap (tg_tcm g)) (set (tg_heaps g)) L) (tg_tcm g)" by (simp add: threads_rep_def objects_ok_def)
  then show ?thesis using central_spans by (metis Un_subset_iff)
qed

text \<open>The state with another page heap and class cache.\<close>

definition heap_step :: "'k tc_env \<Rightarrow> ('k \<Rightarrow> addr set) \<Rightarrow> addr set \<Rightarrow> 'k tstate \<Rightarrow> 'k tcm \<Rightarrow> bool" where
  "heap_step env own U g t' \<longleftrightarrow> threads_ok env own U (g\<lparr>tg_tcm := t'\<rparr>) \<and> tm_sizemap t' = tm_sizemap (tg_tcm g) \<and> class_of t' = class_of (tg_tcm g)"

lemma heap_stepI:
  assumes ok: "threads_ok env own U g" and h: "plain_heap env own h" "hframe env own (tg_world g) h"
    and sz: "sized ((tg_tcm g)\<lparr>tm_heap := h, tm_cache := pc\<rparr>) = sized (tg_tcm g)" and pc: "cache_ok (ph_spans h) pc"
  shows "heap_step env own U g ((tg_tcm g)\<lparr>tm_heap := h, tm_cache := pc\<rparr>)"
proof -
  obtain L where "threads_rep env own U L g" using ok by (auto simp: threads_ok_def)
  then obtain Y where Y: "central_ok env own Y (tg_tcm g)" by (auto simp: threads_rep_def objects_ok_def)
  note c = central_heap [OF _ h(1) sz pc]
  have "threads_ok env own U (g\<lparr>tg_tcm := (tg_tcm g)\<lparr>tm_heap := h, tm_cache := pc\<rparr>\<rparr>)"
    by (rule threads_tcm [OF ok c(1)]) (use c(2) [OF Y] h(2) in simp_all)
  then show ?thesis using c(2) [OF Y] by (simp add: heap_step_def)
qed

lemma threads_heap:
  assumes "threads_ok env own U g"
  shows "plain_heap env own (tm_heap (tg_tcm g))" "madvise_ends env" "cache_ok (ph_spans (tm_heap (tg_tcm g))) (tm_cache (tg_tcm g))"
    "geo (ph_spans (tm_heap (tg_tcm g))) (ph_pagemap (tm_heap (tg_tcm g)))"
proof -
  obtain F X where X: "spans_ok env own F X (tg_tcm g)" using threads_spans [OF assms] by blast
  note spans_okD [OF X]
  then show "plain_heap env own (tm_heap (tg_tcm g))" "madvise_ends env" "cache_ok (ph_spans (tm_heap (tg_tcm g))) (tm_cache (tg_tcm g))"
    "geo (ph_spans (tm_heap (tg_tcm g))) (ph_pagemap (tm_heap (tg_tcm g)))" by blast+
qed

section \<open>The class cache\<close>

lemma page_of: "drop_bit kPageShift p = p div kPageSize" "push_bit kPageShift p = p * kPageSize"
  by (simp_all add: drop_bit_eq_div push_bit_eq_mult kPageShift_def kPageSize_def)

lemma start_page: "p * kPageSize div kPageSize = p" "p * kPageSize mod kPageSize = 0"
  by (simp_all add: kPageSize_def)

lemma live_span_ok:
  assumes "threads_ok env own U g" "live (ph_spans (tm_heap (tg_tcm g))) a = Some s"
  shows "span_ok (ph_pagemap (tm_heap (tg_tcm g))) a s" "cached_fine (tm_cache (tg_tcm g)) s" "a \<noteq> NULL" "the_span (tm_heap (tg_tcm g)) a = Inr s"
    "sp_start s \<in> page_set s" "\<And>p. p \<in> page_set s \<Longrightarrow> key_ok p"
proof -
  have s: "ph_spans (tm_heap (tg_tcm g)) a = Some s" using assms(2) by (simp add: live_def split: option.splits if_splits)
  show so: "span_ok (ph_pagemap (tm_heap (tg_tcm g))) a s" by (rule geo_span [OF threads_heap(4) [OF assms(1)] s])
  show "cached_fine (tm_cache (tg_tcm g)) s" using threads_heap(3) [OF assms(1)] assms(2) by (simp add: cache_ok_def)
  show a: "a \<noteq> NULL" "sp_start s \<in> page_set s" using so by (simp_all add: span_ok_def page_set_def)
  show "the_span (tm_heap (tg_tcm g)) a = Inr s" using a s by (simp add: the_span_def)
  show "key_ok p" if "p \<in> page_set s" for p by (rule span_keys [OF so that])
qed

lemma sized_is_live: "sized t a = Some s \<Longrightarrow> live (ph_spans (tm_heap t)) a = Some s"
  by (simp add: sized_def split: option.splits if_splits)

lemma plain_is_live: "plain t a = Some s \<Longrightarrow> live (ph_spans (tm_heap t)) a = Some s"
  by (simp add: plain_def split: option.splits if_splits)

text \<open>Where a page leads: the class cache and the page map.\<close>

lemma small_page:
  assumes ok: "threads_ok env own U g" and s: "sized (tg_tcm g) a = Some s" "x \<in> cells (tm_sizemap (tg_tcm g)) s"
  shows "GetDescriptor (tm_heap (tg_tcm g)) (x div kPageSize) = Inr a" "key_ok (x div kPageSize)"
    "pc_lookup (tm_cache (tg_tcm g)) (x div kPageSize) \<in> {None, Some (int (sp_sizeclass s))}" "x div kPageSize \<in> page_set s"
proof -
  obtain F X where X: "spans_ok env own F X (tg_tcm g)" using threads_spans [OF ok] by blast
  show p: "x div kPageSize \<in> page_set s" by (rule cell_page [OF s(2) sized_fits(2) [OF X s(1)]])
  note l = live_span_ok [OF ok sized_is_live [OF s(1)]]
  show "GetDescriptor (tm_heap (tg_tcm g)) (x div kPageSize) = Inr a" using MapObjectToSpan_ok [OF X s] by (simp add: MapObjectToSpan_def page_of)
  show "key_ok (x div kPageSize)" by (rule l(6) [OF p])
  show "pc_lookup (tm_cache (tg_tcm g)) (x div kPageSize) \<in> {None, Some (int (sp_sizeclass s))}"
    using l(2) p s(1) by (auto simp: cached_fine_def sized_Some)
qed

lemma big_page:
  assumes ok: "threads_ok env own U g" and s: "plain (tg_tcm g) a = Some s"
  shows "GetDescriptor (tm_heap (tg_tcm g)) (sp_start s) = Inr a" "key_ok (sp_start s)" "pc_lookup (tm_cache (tg_tcm g)) (sp_start s) = None"
proof -
  note l = live_span_ok [OF ok plain_is_live [OF s]]
  show "key_ok (sp_start s)" by (rule l(6) [OF l(5)])
  show "pc_lookup (tm_cache (tg_tcm g)) (sp_start s) = None" using l(2) s by (simp add: cached_fine_def plain_Some)
  show "GetDescriptor (tm_heap (tg_tcm g)) (sp_start s) = Inr a" using l(1) by (simp add: GetDescriptor_ok span_ok_def)
qed

lemma CheckedMallocResult_small:
  assumes "threads_ok env own U g" "class_of (tg_tcm g) x c"
  shows "CheckedMallocResult (Some x) (tg_tcm g) = Inr (Some x)"
proof -
  obtain a s where s: "sized (tg_tcm g) a = Some s" "x \<in> cells (tm_sizemap (tg_tcm g)) s" using assms(2) by (auto simp: class_of_def)
  note p = small_page [OF assms(1) s]
  show ?thesis using p live_span_ok(4) [OF assms(1) sized_is_live [OF s(1)]]
    by (auto simp: CheckedMallocResult_def CheckCachedSizeClass_def page_of pc_runs(1) Let_def)
qed

lemma CheckedMallocResult_big:
  assumes "threads_ok env own U g" "plain (tg_tcm g) a = Some s"
  shows "CheckedMallocResult (Some (sp_start s * kPageSize)) (tg_tcm g) = Inr (Some (sp_start s * kPageSize))"
  using big_page [OF assms] by (simp add: CheckedMallocResult_def CheckCachedSizeClass_def page_of start_page pc_runs(1) Let_def)

section \<open>A span from the page heap\<close>

lemma cache_invalidate:
  assumes ok: "threads_ok env own U g" and h: "plain_heap env own h" "live (ph_spans h) = (live (ph_spans (tm_heap (tg_tcm g))))(a \<mapsto> s)"
    and s: "live (ph_spans (tm_heap (tg_tcm g))) a = None" "sp_sizeclass s = 0"
  shows "cache_ok (ph_spans h) (pc_put (sp_start s) kInvalidMask (tm_cache (tg_tcm g)))" (is "cache_ok _ ?pc") "key_ok (sp_start s)"
proof -
  have g: "geo (ph_spans h) (ph_pagemap h)" using h(1) heap_okD(1) by (auto simp: plain_heap_def)
  have so: "span_ok (ph_pagemap h) b u" if "live (ph_spans h) b = Some u" for b u
    using geo_span [OF g] that by (auto simp: live_def split: option.splits if_splits)
  have sa: "span_ok (ph_pagemap h) a s" using so h(2) by simp
  then have ks: "sp_start s \<in> page_set s" by (simp add: span_ok_def page_set_def)
  show k: "key_ok (sp_start s)" by (rule span_keys [OF sa ks])
  have lk: "pc_lookup ?pc p = (if pc_hash p = pc_hash (sp_start s) then None else pc_lookup (tm_cache (tg_tcm g)) p)" if "key_ok p" for p
    using pc_lookup_entry [OF k that, of kInvalidMask] by (simp add: kInvalidMask_def)
  show "cache_ok (ph_spans h) ?pc" unfolding cache_ok_def
  proof (intro allI impI)
    fix b u assume b: "live (ph_spans h) b = Some u"
    show "cached_fine ?pc u"
    proof (cases "b = a")
      case True
      then show ?thesis using b h(2) s(2) lk [OF k] by (simp add: cached_fine_def)
    next
      case False
      then have f: "cached_fine (tm_cache (tg_tcm g)) u" using b h(2) threads_heap(3) [OF ok] by (simp add: cache_ok_def)
      show ?thesis by (rule cached_fine_less [OF f]) (use lk span_keys [OF so [OF b]] so [OF b] in \<open>auto simp: span_ok_def page_set_def\<close>)
    qed
  qed
qed

lemma SpanToMallocResult_ok:
  assumes ok: "threads_ok env own U g" and h: "plain_heap env own h" "hframe env own (tg_world g) h"
    and lv: "live (ph_spans h) = (live (ph_spans (tm_heap (tg_tcm g))))(a \<mapsto> s)" "live (ph_spans (tm_heap (tg_tcm g))) a = None" and s: "sp_sizeclass s = 0"
  shows "sure (SpanToMallocResult a ((tg_tcm g)\<lparr>tm_heap := h\<rparr>)) (\<lambda>(r, t'). r = Some (sp_start s * kPageSize) \<and> heap_step env own U g t' \<and>
    plain t' = (plain (tg_tcm g))(a \<mapsto> s))"
proof -
  let ?t = "tg_tcm g" and ?pc = "pc_put (sp_start s) kInvalidMask (tm_cache (tg_tcm g))"
  let ?t' = "?t\<lparr>tm_heap := h, tm_cache := ?pc\<rparr>"
  note ci = cache_invalidate [OF ok h(1) lv s]
  have pl: "sized ?t' = sized ?t" "plain ?t' = (plain ?t)(a \<mapsto> s)" using live_plain [of ?t' ?t a "Some s"] lv s by auto
  have st: "heap_step env own U g ?t'" by (rule heap_stepI [OF ok h pl(1) ci(1)])
  then have ok': "threads_ok env own U (g\<lparr>tg_tcm := ?t'\<rparr>)" by (simp add: heap_step_def)
  have p: "plain (tg_tcm (g\<lparr>tg_tcm := ?t'\<rparr>)) a = Some s" using pl(2) by simp
  have "the_span h a = Inr s" using live_span_ok(4) [OF ok' plain_is_live [OF p]] by simp
  then show ?thesis using CheckedMallocResult_big [OF ok' p] st pl(2) pc_runs(3) [OF ci(2)]
    by (simp add: SpanToMallocResult_def page_of Let_def)
qed

definition span_out :: "'k tc_env \<Rightarrow> ('k \<Rightarrow> addr set) \<Rightarrow> addr set \<Rightarrow> int \<Rightarrow> 'k tstate \<Rightarrow> addr option \<times> 'k tcm \<Rightarrow> bool" where
  "span_out env own U n g = (\<lambda>(r, t'). heap_step env own U g t' \<and> (case r of
      None \<Rightarrow> plain t' = plain (tg_tcm g) \<and> (\<forall>a. \<not> fits n (ph_spans (tm_heap (tg_tcm g))) a)
    | Some p \<Rightarrow> \<exists>a s. live (ph_spans (tm_heap (tg_tcm g))) a = None \<and> plain t' = (plain (tg_tcm g))(a \<mapsto> s) \<and> p = sp_start s * kPageSize \<and>
        sp_length s = n \<and> \<not> sp_sample s))"

lemma new_span_out:
  assumes ok: "threads_ok env own U g" and n: "0 < n"
  shows "unless_oom (bindR (New env n (tm_heap (tg_tcm g))) (\<lambda>(r, h1). case r of None \<Rightarrow> Inr (None, (tg_tcm g)\<lparr>tm_heap := h1\<rparr>)
      | Some sp \<Rightarrow> SpanToMallocResult sp ((tg_tcm g)\<lparr>tm_heap := h1\<rparr>))) (span_out env own U n g)"
proof -
  let ?t = "tg_tcm g"
  note th = threads_heap [OF ok] threads_env(1) [OF ok]
  show ?thesis
  proof (rule oom_bind [OF when_ok_oom [OF New_ok [OF th(1,2) n] hframe_New [OF th(5) wframe_refl]]], unfold split_paired_all prod.case, goal_cases)
    case (1 r h1)
    then have w: "hframe env own (tg_world g) h1" by simp
    show ?case
    proof (cases r)
      case None
      then have h: "heap_stable env own (tm_heap ?t) h1" "\<forall>a. \<not> fits n (ph_spans (tm_heap ?t)) a" using 1 by simp_all
      then have p: "plain_heap env own h1" and l: "live (ph_spans h1) = live (ph_spans (tm_heap ?t))" using th(1) by (auto simp: heap_stable_def plain_heap_def)
      have "heap_step env own U g (?t\<lparr>tm_heap := h1, tm_cache := tm_cache ?t\<rparr>)"
        by (rule heap_stepI [OF ok p w]) (use l th(3) in \<open>auto simp: cache_ok_def intro: sized_live\<close>)
      then show ?thesis using None h(2) plain_live [of "?t\<lparr>tm_heap := h1\<rparr>" ?t] l by (simp add: span_out_def)
    next
      case (Some sp)
      then obtain s where h: "heap_ok env own h1" "live (ph_spans (tm_heap ?t)) sp = None" "sp_length s = n" "sp_sizeclass s = 0" "\<not> sp_sample s"
          "live (ph_spans h1) = (live (ph_spans (tm_heap ?t)))(sp \<mapsto> s)" "ph_aggressive_decommit h1 = ph_aggressive_decommit (tm_heap ?t)"
        using 1 by (auto simp: span_granted_def)
      have p: "plain_heap env own h1" using th(1) h(1,7) by (simp add: plain_heap_def)
      show ?thesis unfolding Some option.case
      proof (rule oom_sure [OF sure_mono [OF SpanToMallocResult_ok [OF ok p w h(6,2,4)]]], clarify)
        fix q t' assume "heap_step env own U g t'" "plain t' = (plain ?t)(sp \<mapsto> s)"
        then show "span_out env own U n g (Some (sp_start s * kPageSize), t')"
          unfolding span_out_def prod.case option.case using h(2,3,5) by blast
      qed
    qed
  qed
qed

lemma delete_plain:
  assumes ok: "threads_ok env own U g" and s: "plain (tg_tcm g) a = Some s"
  shows "sure (Delete env a (tm_heap (tg_tcm g))) (\<lambda>h. heap_step env own U g ((tg_tcm g)\<lparr>tm_heap := h\<rparr>) \<and>
    plain ((tg_tcm g)\<lparr>tm_heap := h\<rparr>) = (plain (tg_tcm g))(a := None))"
proof -
  let ?t = "tg_tcm g"
  note th = threads_heap [OF ok] threads_env(1) [OF ok]
  have sp: "ph_spans (tm_heap ?t) a = Some s" "sp_location s = IN_USE" "sp_sizeclass s = 0" using s by (simp_all add: plain_Some)
  have hk: "heap_ok env own (tm_heap ?t)" using th(1) by (simp add: plain_heap_def)
  show ?thesis
  proof (rule sure_mono [OF when_ok_sure [OF Delete_ok [OF th(5,2) hk sp(1,2)] hframe_Delete [OF th(5) wframe_refl]]])
    fix h assume h: "(heap_ok env own h \<and> live (ph_spans h) = (live (ph_spans (tm_heap ?t)))(a := None) \<and>
      heap_pages (ph_spans h) = heap_pages (ph_spans (tm_heap ?t)) \<and> ph_aggressive_decommit h = ph_aggressive_decommit (tm_heap ?t) \<and>
      system_bytes (ph_stats_of h) = system_bytes (ph_stats_of (tm_heap ?t))) \<and> hframe env own (ph_world (tm_heap ?t)) h"
    have p: "plain_heap env own h" using th(1) h by (simp add: plain_heap_def)
    have l: "live (ph_spans (tm_heap ?t)) a = Some s" by (rule plain_is_live [OF s])
    have pl: "sized (?t\<lparr>tm_heap := h\<rparr>) = sized ?t" "plain (?t\<lparr>tm_heap := h\<rparr>) = (plain ?t)(a := None)"
      using live_plain [of "?t\<lparr>tm_heap := h\<rparr>" ?t a None] h l sp(3) by auto
    have co: "cache_ok (ph_spans h) (tm_cache ?t)" using cache_ok_del [OF th(3)] h by blast
    have "heap_step env own U g (?t\<lparr>tm_heap := h, tm_cache := tm_cache ?t\<rparr>)"
      by (rule heap_stepI [OF ok p _ _ co]) (use h pl in simp_all)
    then show "heap_step env own U g (?t\<lparr>tm_heap := h\<rparr>) \<and> plain (?t\<lparr>tm_heap := h\<rparr>) = (plain ?t)(a := None)" using pl(2) by simp
  qed
qed

end
