(* ===== verification/Malloc_Ops.thy ===== *)
theory Malloc_Ops
  imports Malloc_Inv
begin

text \<open>
  The invariant of the exported routines, and that \<open>malloc\<close>, \<open>calloc\<close>, \<open>free\<close> and \<open>realloc\<close> keep it. \<open>A\<close> gives for each
  block that the program holds the number of bytes it may use; the blocks in \<open>U\<close> are objects of a size class,
  the others are whole spans. Sampling is off, which is the default of \<open>TCMALLOC_SAMPLE_PARAMETER\<close>.
\<close>

section \<open>The invariant\<close>

definition small_block :: "'k tcm \<Rightarrow> addr \<Rightarrow> int \<Rightarrow> bool" where
  "small_block t p n \<longleftrightarrow> (\<exists>c. class_of t p c \<and> c < num_size_classes (tm_sizemap t) \<and> n \<le> byte_size_for_class (tm_sizemap t) c)"

definition big_block :: "'k tcm \<Rightarrow> addr \<Rightarrow> int \<Rightarrow> bool" where
  "big_block t p n \<longleftrightarrow> (\<exists>a s. plain t a = Some s \<and> p = sp_start s * kPageSize \<and> n \<le> sp_length s * kPageSize \<and> \<not> sp_sample s)"

text \<open>The memory of a process lies in the lower half of the address space.\<close>

definition user_half :: "('k \<Rightarrow> addr set) \<Rightarrow> bool" where
  "user_half own \<longleftrightarrow> (\<forall>k. own k \<subseteq> {0<..<2 ^ 47})"

definition live_ok :: "'k tc_env \<Rightarrow> ('k \<Rightarrow> addr set) \<Rightarrow> size_map \<Rightarrow> addr set \<Rightarrow> (addr \<Rightarrow> int option) \<Rightarrow> 'k tstate \<Rightarrow> bool" where
  "live_ok env own m U A g \<longleftrightarrow> U \<subseteq> dom A \<and> threads_ok env own U g \<and> tm_sizemap (tg_tcm g) = m \<and> map_ok m \<and> user_half own \<and>
     tg_sample_parameter g \<le> 0 \<and> (\<forall>p n. A p = Some n \<longrightarrow> (if p \<in> U then small_block (tg_tcm g) p n else big_block (tg_tcm g) p n))"

definition malloc_ok :: "'k tc_env \<Rightarrow> ('k \<Rightarrow> addr set) \<Rightarrow> size_map \<Rightarrow> (addr \<Rightarrow> int option) \<Rightarrow> 'k mstate \<Rightarrow> bool" where
  "malloc_ok env own m A s \<longleftrightarrow> (\<exists>U. live_ok env own m U A (ma_threads s))"

section \<open>Blocks lie in different spans\<close>

text \<open>The span of a block.\<close>

definition block_span :: "'k tcm \<Rightarrow> addr \<Rightarrow> int \<Rightarrow> addr \<Rightarrow> span \<Rightarrow> bool" where
  "block_span t p n a s \<longleftrightarrow> live (ph_spans (tm_heap t)) a = Some s \<and> p div kPageSize \<in> page_set s \<and> (\<forall>b\<in>block p n. b div kPageSize \<in> page_set s) \<and>
     (if sp_sizeclass s = 0 then p = sp_start s * kPageSize
      else p \<in> cells (tm_sizemap t) s \<and> n \<le> byte_size_for_class (tm_sizemap t) (sp_sizeclass s))"

lemma small_block_span:
  assumes ok: "threads_ok env own U g" and b: "small_block (tg_tcm g) p n" shows "\<exists>a s. block_span (tg_tcm g) p n a s \<and> sp_sizeclass s \<noteq> 0"
proof -
  obtain F X where X: "spans_ok env own F X (tg_tcm g)" using threads_spans [OF ok] by blast
  obtain a s where s: "sized (tg_tcm g) a = Some s" "p \<in> cells (tm_sizemap (tg_tcm g)) s" "n \<le> byte_size_for_class (tm_sizemap (tg_tcm g)) (sp_sizeclass s)"
    using b by (auto simp: small_block_def class_of_def)
  have "x div kPageSize \<in> page_set s" if "x \<in> block p n" for x
    by (rule object_in_span [OF X s(1,2)]) (use that s(3) in auto)
  moreover have "p div kPageSize \<in> page_set s" by (rule cell_page [OF s(2) sized_fits(2) [OF X s(1)]])
  moreover have "sp_sizeclass s \<noteq> 0" using s(1) by (simp add: sized_Some)
  ultimately show ?thesis using s sized_is_live [OF s(1)] unfolding block_span_def by (intro exI [of _ a] exI [of _ s]) simp
qed

lemma big_block_span:
  assumes ok: "threads_ok env own U g" and b: "big_block (tg_tcm g) p n" shows "\<exists>a s. block_span (tg_tcm g) p n a s \<and> plain (tg_tcm g) a = Some s"
proof -
  obtain a s where s: "plain (tg_tcm g) a = Some s" "p = sp_start s * kPageSize" "n \<le> sp_length s * kPageSize" using b by (auto simp: big_block_def)
  have "x div kPageSize \<in> page_set s" if "x \<in> block p n" for x
  proof -
    have "sp_start s * kPageSize \<le> x" "x < (sp_start s + sp_length s) * kPageSize" using that s(2,3) by (auto simp: algebra_simps)
    then show ?thesis using page_bounds by (simp add: page_set_def)
  qed
  moreover have "p div kPageSize \<in> page_set s" using live_span_ok(5) [OF ok plain_is_live [OF s(1)]] by (simp add: s(2) start_page)
  ultimately show ?thesis using s plain_is_live [OF s(1)] unfolding block_span_def by (intro exI [of _ a] exI [of _ s]) (simp add: plain_Some)
qed

lemma block_has_span:
  assumes "live_ok env own m U A g" "A p = Some n" shows "\<exists>a s. block_span (tg_tcm g) p n a s"
proof -
  have "threads_ok env own U g" "if p \<in> U then small_block (tg_tcm g) p n else big_block (tg_tcm g) p n" using assms by (auto simp: live_ok_def)
  then show ?thesis using small_block_span [of env own U g p n] big_block_span [of env own U g p n] by (auto split: if_splits)
qed

lemma spans_meet:
  assumes ok: "threads_ok env own U g" and s: "block_span (tg_tcm g) p n a s" and u: "block_span (tg_tcm g) q k b u"
    and x: "x \<in> page_set s" "x \<in> page_set u"
  shows "a = b" "u = s"
proof -
  have l: "ph_spans (tm_heap (tg_tcm g)) a = Some s" "ph_spans (tm_heap (tg_tcm g)) b = Some u"
    using s u by (auto simp: block_span_def live_def split: option.splits if_splits)
  show "a = b" using geo_same [OF threads_heap(4) [OF ok] l x] .
  then show "u = s" using l by simp
qed

lemma blocks_apart:
  assumes ok: "live_ok env own m U A g" and p: "A p = Some n" and q: "A q = Some k" and ne: "p \<noteq> q"
  shows "block p n \<inter> block q k = {}"
proof (rule ccontr)
  assume "block p n \<inter> block q k \<noteq> {}"
  then obtain x where x: "x \<in> block p n" "x \<in> block q k" by blast
  have t: "threads_ok env own U g" using ok by (simp add: live_ok_def)
  obtain F X where X: "spans_ok env own F X (tg_tcm g)" using threads_spans [OF t] by blast
  obtain a s b u where s: "block_span (tg_tcm g) p n a s" and u: "block_span (tg_tcm g) q k b u"
    using block_has_span [OF ok p] block_has_span [OF ok q] by blast
  have "x div kPageSize \<in> page_set s" "x div kPageSize \<in> page_set u" using s u x by (auto simp: block_span_def)
  note e = spans_meet [OF t s u this]
  show False
  proof (cases "sp_sizeclass s = 0")
    case True
    then show ?thesis using s u ne by (auto simp: block_span_def e)
  next
    case False
    let ?m = "tm_sizemap (tg_tcm g)"
    let ?z = "byte_size_for_class ?m (sp_sizeclass s)"
    have c: "p \<in> cells ?m s" "n \<le> ?z" "q \<in> cells ?m s" "k \<le> ?z" using s u False by (simp_all add: block_span_def e)
    have "sized (tg_tcm g) a = Some s" using s False by (simp add: block_span_def sized_def)
    then have "block p ?z \<inter> block q ?z = {}" using cell_blocks [OF c(1,3) ne] sized_fits(2) [OF X] by blast
    moreover have "x \<in> block p ?z \<inter> block q ?z" using x c(2,4) by auto
    ultimately show ?thesis by blast
  qed
qed

lemma block_owned:
  assumes ok: "live_ok env own m U A g" and p: "A p = Some n" shows "block p n \<subseteq> own (w_os (tg_world g))"
proof
  fix x assume x: "x \<in> block p n"
  have t: "threads_ok env own U g" using ok by (simp add: live_ok_def)
  obtain a s where s: "block_span (tg_tcm g) p n a s" using block_has_span [OF ok p] by blast
  have "ph_spans (tm_heap (tg_tcm g)) a = Some s" "x div kPageSize \<in> page_set s"
    using s x by (auto simp: block_span_def live_def split: option.splits if_splits)
  then have "x \<in> heap_mem (ph_spans (tm_heap (tg_tcm g)))" unfolding heap_mem_def heap_pages_def by blast
  moreover have "mem_ok env own (tm_heap (tg_tcm g))" using threads_heap(1) [OF t] heap_okD(3) by (auto simp: plain_heap_def)
  ultimately show "x \<in> own (w_os (tg_world g))" using heap_mem_owned by blast
qed

section \<open>Steps of the set of blocks\<close>

lemma small_block_kept: "kept_objects U t t' \<Longrightarrow> p \<in> U \<Longrightarrow> small_block t p n \<Longrightarrow> small_block t' p n"
  by (auto simp: small_block_def kept_objects_def)

lemma big_block_plain: "plain t' = plain t \<Longrightarrow> big_block t' p n = big_block t p n"
  by (simp add: big_block_def)

lemma live_keep:
  assumes "live_ok env own m U A g" "threads_ok env own U g'" "kept_objects U (tg_tcm g) (tg_tcm g')" "tg_sample_parameter g' = tg_sample_parameter g"
  shows "live_ok env own m U A g'"
proof -
  have k: "plain (tg_tcm g') = plain (tg_tcm g)" "tm_sizemap (tg_tcm g') = tm_sizemap (tg_tcm g)" using assms(3) by (simp_all add: kept_objects_def)
  have "if p \<in> U then small_block (tg_tcm g') p n else big_block (tg_tcm g') p n" if "A p = Some n" for p n
    using assms(1) that small_block_kept [OF assms(3)] big_block_plain [OF k(1)] by (auto simp: live_ok_def)
  then show ?thesis using assms k(2) by (simp add: live_ok_def)
qed

lemma live_take:
  assumes ok: "live_ok env own m U A g" and g': "threads_ok env own (insert p U) g'" "kept_objects U (tg_tcm g) (tg_tcm g')" "tg_sample_parameter g' = tg_sample_parameter g"
    and p: "p \<notin> U" "class_of (tg_tcm g') p c" "c < num_size_classes m" "n \<le> byte_size_for_class m c"
  shows "p \<notin> dom A" "live_ok env own m (insert p U) (A(p \<mapsto> n)) g'"
proof -
  have k: "plain (tg_tcm g') = plain (tg_tcm g)" "tm_sizemap (tg_tcm g') = m" using g'(2) ok by (simp_all add: kept_objects_def live_ok_def)
  have sm: "small_block (tg_tcm g') p n" using p k(2) by (auto simp: small_block_def)
  have b: "if q \<in> U then small_block (tg_tcm g') q i else big_block (tg_tcm g') q i" if "A q = Some i" for q i
    using ok that small_block_kept [OF g'(2)] big_block_plain [OF k(1)] by (auto simp: live_ok_def)
  have "\<not> big_block (tg_tcm g') p i" for i
  proof
    assume "big_block (tg_tcm g') p i"
    then obtain a s where s: "block_span (tg_tcm g') p i a s" "sp_sizeclass s = 0" using big_block_span [OF g'(1), of p i] unfolding plain_Some by blast
    obtain b u where u: "block_span (tg_tcm g') p n b u" "sp_sizeclass u \<noteq> 0" using small_block_span [OF g'(1) sm] by blast
    have "p div kPageSize \<in> page_set s" "p div kPageSize \<in> page_set u" using s(1) u(1) by (simp_all add: block_span_def)
    from spans_meet(2) [OF g'(1) s(1) u(1) this] show False using s(2) u(2) by simp
  qed
  then show "p \<notin> dom A" using b [of p] p(1) by auto
  have "if q \<in> insert p U then small_block (tg_tcm g') q i else big_block (tg_tcm g') q i" if "(A(p \<mapsto> n)) q = Some i" for q i
    using that sm b [of q i] by (auto split: if_splits)
  then show "live_ok env own m (insert p U) (A(p \<mapsto> n)) g'" using ok g' k(2) by (auto simp: live_ok_def)
qed

lemma live_released:
  assumes ok: "live_ok env own m U A g" and g': "threads_ok env own (U - {p}) g'" "kept_objects (U - {p}) (tg_tcm g) (tg_tcm g')" "tg_sample_parameter g' = tg_sample_parameter g"
    and p: "p \<in> U"
  shows "live_ok env own m (U - {p}) (A(p := None)) g'"
proof -
  have k: "plain (tg_tcm g') = plain (tg_tcm g)" "tm_sizemap (tg_tcm g') = m" using g'(2) ok by (simp_all add: kept_objects_def live_ok_def)
  have "if q \<in> U - {p} then small_block (tg_tcm g') q i else big_block (tg_tcm g') q i" if q: "(A(p := None)) q = Some i" for q i
  proof -
    have qp: "q \<noteq> p" "A q = Some i" using q by (auto split: if_splits)
    then have "if q \<in> U then small_block (tg_tcm g) q i else big_block (tg_tcm g) q i" using ok by (simp add: live_ok_def)
    then show ?thesis using qp(1) small_block_kept [OF g'(2), of q i] big_block_plain [OF k(1), of q i] by (auto split: if_splits)
  qed
  then show ?thesis using ok g' k(2) by (auto simp: live_ok_def)
qed

lemma live_span_in:
  assumes ok: "live_ok env own m U A g" and t': "heap_step env own U g t'" "plain t' = (plain (tg_tcm g))(a \<mapsto> s)" "live (ph_spans (tm_heap (tg_tcm g))) a = None"
    and s: "\<not> sp_sample s" "n \<le> sp_length s * kPageSize"
  shows "sp_start s * kPageSize \<notin> dom A" "live_ok env own m U (A(sp_start s * kPageSize \<mapsto> n)) (g\<lparr>tg_tcm := t'\<rparr>)"
proof -
  let ?p = "sp_start s * kPageSize" and ?g = "g\<lparr>tg_tcm := t'\<rparr>"
  have th: "threads_ok env own U ?g" "tm_sizemap t' = m" "class_of t' = class_of (tg_tcm g)" using t'(1) ok by (simp_all add: heap_step_def live_ok_def)
  have na: "plain (tg_tcm g) a = None" "sized (tg_tcm g) a = None" using t'(3) by (simp_all add: plain_def sized_def)
  have new: "big_block t' ?p n" using t'(2) s by (auto simp: big_block_def)
  have sm: "small_block t' q i = small_block (tg_tcm g) q i" for q i using th(2,3) ok by (simp add: small_block_def live_ok_def)
  have bg: "big_block t' q i" if big: "big_block (tg_tcm g) q i" for q i
  proof -
    obtain b u where u: "plain (tg_tcm g) b = Some u" "q = sp_start u * kPageSize" "i \<le> sp_length u * kPageSize" "\<not> sp_sample u" using big by (auto simp: big_block_def)
    then have "plain t' b = Some u" using t'(2) na(1) by auto
    then show ?thesis using u by (auto simp: big_block_def)
  qed
  have b: "if q \<in> U then small_block t' q i else big_block t' q i" if "A q = Some i" for q i
    using ok that sm bg by (auto simp: live_ok_def)
  obtain F X where X: "spans_ok env own F X t'" using threads_spans [OF th(1)] by auto
  have pa: "plain t' a = Some s" using t'(2) by simp
  have pg: "?p div kPageSize \<in> page_set s" using live_span_ok(5) [of env own U ?g a s] th(1) plain_is_live [OF pa] by (simp add: start_page)
  have sa: "block_span (tg_tcm ?g) ?p 0 a s" using pa pg plain_is_live [OF pa] by (simp add: block_span_def plain_Some)
  show out: "?p \<notin> dom A"
  proof
    assume "?p \<in> dom A"
    then obtain i where i: "A ?p = Some i" by blast
    show False
    proof (cases "?p \<in> U")
      case True
      then have "small_block (tg_tcm ?g) ?p i" using b [OF i] by simp
      then obtain c u where u: "block_span (tg_tcm ?g) ?p i c u" "sp_sizeclass u \<noteq> 0" using small_block_span [OF th(1)] by blast
      then have "?p div kPageSize \<in> page_set u" by (simp add: block_span_def)
      then show False using spans_meet(2) [OF th(1) sa u(1) pg] u(2) pa by (simp add: plain_Some)
    next
      case False
      then have "big_block (tg_tcm g) ?p i" using ok i by (auto simp: live_ok_def)
      then obtain c u where u: "plain (tg_tcm g) c = Some u" "?p = sp_start u * kPageSize" by (auto simp: big_block_def)
      then have uc: "plain t' c = Some u" "c \<noteq> a" using t'(2) na(1) by auto
      have "sp_start u \<in> page_set u" using live_span_ok(5) [of env own U ?g c u] th(1) plain_is_live [OF uc(1)] by simp
      then have pu: "?p div kPageSize \<in> page_set u" unfolding u(2) start_page .
      have "block_span (tg_tcm ?g) ?p 0 c u" using uc u(2) pu plain_is_live [OF uc(1)] by (simp add: block_span_def plain_Some)
      then show False using spans_meet(1) [OF th(1) sa _ pg pu] uc(2) by blast
    qed
  qed
  have "U \<subseteq> dom A" using ok by (simp add: live_ok_def)
  then have "if q \<in> U then small_block t' q i else big_block t' q i" if "(A(?p \<mapsto> n)) q = Some i" for q i
    using that new b [of q i] out by (auto split: if_splits)
  then show "live_ok env own m U (A(?p \<mapsto> n)) ?g" using ok th by (auto simp: live_ok_def)
qed

lemma live_span_out:
  assumes ok: "live_ok env own m U A g" and t': "heap_step env own U g t'" "plain t' = (plain (tg_tcm g))(a := None)"
    and s: "plain (tg_tcm g) a = Some s" "p = sp_start s * kPageSize" "p \<notin> U"
  shows "live_ok env own m U (A(p := None)) (g\<lparr>tg_tcm := t'\<rparr>)"
proof -
  have th: "threads_ok env own U (g\<lparr>tg_tcm := t'\<rparr>)" "tm_sizemap t' = m" "class_of t' = class_of (tg_tcm g)" using t'(1) ok by (simp_all add: heap_step_def live_ok_def)
  have sm: "small_block t' q i = small_block (tg_tcm g) q i" for q i using th(2,3) ok by (simp add: small_block_def live_ok_def)
  have bg: "big_block t' q i" if big: "big_block (tg_tcm g) q i" "q \<noteq> p" for q i
  proof -
    obtain b u where u: "plain (tg_tcm g) b = Some u" "q = sp_start u * kPageSize" "i \<le> sp_length u * kPageSize" "\<not> sp_sample u" using big(1) by (auto simp: big_block_def)
    then have "b \<noteq> a" using s(1,2) big(2) by auto
    then have "plain t' b = Some u" using t'(2) u(1) by simp
    then show ?thesis using u by (auto simp: big_block_def)
  qed
  have "if q \<in> U then small_block t' q i else big_block t' q i" if q: "(A(p := None)) q = Some i" for q i
  proof -
    have qp: "q \<noteq> p" "A q = Some i" using q by (auto split: if_splits)
    then have "if q \<in> U then small_block (tg_tcm g) q i else big_block (tg_tcm g) q i" using ok by (simp add: live_ok_def)
    then show ?thesis using qp(1) sm bg by (auto split: if_splits)
  qed
  moreover have "U \<subseteq> dom (A(p := None))" using ok s(3) by (auto simp: live_ok_def)
  ultimately show ?thesis using ok th by (auto simp: live_ok_def)
qed

end
