(* ===== verification/Malloc_Run.thy ===== *)
theory Malloc_Run
  imports Malloc_Ops
begin

text \<open>
  \<open>malloc\<close>, \<open>calloc\<close>, \<open>free\<close> and \<open>realloc\<close> keep the invariant.
\<close>

section \<open>Sizes\<close>

lemma get_class_ok:
  assumes "map_ok m" "0 \<le> n" "get_size_class m n = Some c"
  shows "c \<noteq> 0" "c < num_size_classes m" "n \<le> byte_size_for_class m c"
proof -
  have n: "n \<le> kMaxSize" using assms(3) by (simp add: get_size_class_def class_index_maybe_def kMaxSmallSize_def kMaxSize_def split: if_splits)
  have "c = size_class m n" using assms(3) by (simp add: get_size_class_def class_index_maybe_eq [OF assms(2) n] size_class_def)
  then have "class_ok (class_to_size m) (num_size_classes m) c n" using assms(1,2) n by (simp add: map_ok_def)
  then show "c \<noteq> 0" "c < num_size_classes m" "n \<le> byte_size_for_class m c" by (auto simp: class_ok_def byte_size_for_class_def)
qed

lemma get_class_none: "get_size_class m n = None \<Longrightarrow> kMaxSize < n"
  by (auto simp: get_size_class_def class_index_maybe_def kMaxSmallSize_def kMaxSize_def split: if_splits)

lemma pages_of_eq:
  assumes "0 \<le> n" "n < 2 ^ 64"
  shows "pages_of n = (n + 8191) div 8192" "n \<le> pages_of n * kPageSize" "0 < n \<Longrightarrow> 0 < pages_of n"
proof -
  have u: "int (unat (word_of_int n :: 64 word)) = n" using assms by (simp add: uint_word_of_int_eq take_bit_int_eq_self)
  have "pages_of n = int (unat (pages (word_of_int n)))" by (simp add: pages_of_def)
  also have "\<dots> = (int (unat (word_of_int n :: 64 word)) + 8191) div 8192" unfolding pages_words by (simp add: zdiv_int)
  finally show e: "pages_of n = (n + 8191) div 8192" unfolding u .
  show "n \<le> pages_of n * kPageSize" "0 < n \<Longrightarrow> 0 < pages_of n" unfolding e kPageSize_def using assms(1) by linarith+
qed

section \<open>The samplers\<close>

lemma threads_sampler:
  assumes ok: "threads_ok env own U g" and c: "tg_cache g h = Some c" and s: "sampler_ok sam"
  shows "threads_ok env own U (set_cache h (c\<lparr>th_sampler := sam\<rparr>) g)"
proof -
  let ?c = "c\<lparr>th_sampler := sam\<rparr>"
  obtain L where L: "threads_rep env own U L g" using ok by (auto simp: threads_ok_def)
  have f: "cache_fine t c K \<Longrightarrow> cache_fine t ?c K" for t K using s by (simp add: cache_fine_def)
  have "\<exists>x. ((tg_cache g)(h \<mapsto> ?c)) k = Some x \<and> cache_fine (tg_tcm g) x (L k)" if k: "k \<in> set (tg_heaps g)" for k
  proof -
    have "\<forall>k\<in>set (tg_heaps g). \<exists>x. tg_cache g k = Some x \<and> cache_fine (tg_tcm g) x (L k)" using L by (simp add: threads_rep_def objects_ok_def)
    then obtain x where x: "tg_cache g k = Some x" "cache_fine (tg_tcm g) x (L k)" using k by blast
    show ?thesis
    proof (cases "k = h")
      case True
      then show ?thesis using x c f [of "tg_tcm g" "L k"] by simp
    qed (use x in simp)
  qed
  then have "objects_ok env own U (set (tg_heaps g)) L ((tg_cache g)(h \<mapsto> ?c)) (tg_tcm g)" using L unfolding threads_rep_def objects_ok_def by simp
  moreover have "claim (set_cache h ?c g) = claim g" using c by (auto simp: claim_def fun_eq_iff)
  then have "limits_ok (set_cache h ?c g) (set (tg_heaps g))" using L c by (auto simp: threads_rep_def limits_ok_def)
  moreover have "tls_ok (set_cache h ?c g)" using L c by (auto simp: threads_rep_def tls_ok_def)
  ultimately have "threads_rep env own U L (set_cache h ?c g)" using L by (simp add: threads_rep_def steal_ok_def)
  then show ?thesis by (auto simp: threads_ok_def)
qed

lemma sampler_address:
  assumes ok: "threads_ok env own U g" and u: "user_half own" and h: "h \<in> set (tg_heaps g)"
  shows "(word_of_int (h + 3080) :: 64 word) \<noteq> 0"
proof -
  obtain L where "threads_rep env own U L g" using ok by (auto simp: threads_ok_def)
  then have "pha_inv sizeof_ThreadCache env own {} (set (tg_heaps g)) (fst (tg_allocator g)) (snd (tg_allocator g)) (tg_world g)" by (simp add: threads_rep_def)
  then have "blocks sizeof_ThreadCache (set (tg_heaps g)) \<subseteq> own (w_os (tg_world g))" by (auto simp: pha_inv_def pha_mem_def meta_ok_def blocks_def)
  moreover have "h + 3080 \<in> blocks sizeof_ThreadCache (set (tg_heaps g))" using h unfolding blocks_def by (intro UN_I [of h]) (simp_all add: sizeof_ThreadCache_def)
  ultimately have "h + 3080 \<in> {0<..<2 ^ 47}" using u unfolding user_half_def by blast
  then have r: "0 < h + 3080" "h + 3080 < 2 ^ 47" by simp_all
  show ?thesis
  proof
    assume "(word_of_int (h + 3080) :: 64 word) = 0"
    moreover have "uint (word_of_int (h + 3080) :: 64 word) = h + 3080"
      unfolding uint_word_of_int_eq by (rule take_bit_int_eq_self) (use r in simp_all)
    ultimately have "uint (0 :: 64 word) = h + 3080" by simp
    then show False using r(1) by simp
  qed
qed

text \<open>What \<open>malloc\<close> knows after it has asked the sampler.\<close>

definition sampled_as :: "'k tc_env \<Rightarrow> ('k \<Rightarrow> addr set) \<Rightarrow> addr set \<Rightarrow> 'k tstate \<Rightarrow> 'k tstate \<Rightarrow> bool" where
  "sampled_as env own U g g' \<longleftrightarrow> threads_ok env own U g' \<and> tg_tcm g' = tg_tcm g \<and> same_threads g g'"

lemma SampleAllocation_ok:
  assumes ok: "live_ok env own m U A g" and h: "h \<in> set (tg_heaps g)" and k: "0 \<le> k"
  shows "sure (SampleAllocation h k g) (\<lambda>(r, g'). \<not> r \<and> sampled_as env own U g g')"
proof -
  have t: "threads_ok env own U g" "user_half own" "tg_sample_parameter g \<le> 0" using ok by (simp_all add: live_ok_def)
  obtain c where c: "the_cache g h = Inr c" "sampler_ok (th_sampler c)" using threads_fine [OF t(1) h] by blast
  have c': "tg_cache g h = Some c" using c(1) by (simp add: the_cache_def split: if_splits option.splits)
  obtain L where "threads_rep env own U L g" using t(1) by (auto simp: threads_ok_def)
  then have "interval_ok (tg_interval g)" by (simp add: threads_rep_def)
  from RecordAllocation_ok [OF this sampler_address [OF t(1,2) h] k c(2), of "tg_sample_parameter g"]
  show ?thesis unfolding SampleAllocation_def c(1) bindR_simps
    by (rule sure_bind) (use threads_sampler [OF t(1) c'] t(3) in \<open>auto simp: sampled_as_def same_threads_def\<close>)
qed

lemma TryRecordAllocationFast_ok:
  assumes ok: "live_ok env own m U A g" and h: "h \<in> set (tg_heaps g)" and k: "0 \<le> k" "k < 2 ^ 63"
  shows "sure (TryRecordAllocationFast h k g) (\<lambda>(r, g'). sampled_as env own U g g')"
proof -
  have t: "threads_ok env own U g" using ok by (simp add: live_ok_def)
  obtain c where c: "the_cache g h = Inr c" "sampler_ok (th_sampler c)" using threads_fine [OF t h] by blast
  have c': "tg_cache g h = Some c" using c(1) by (simp add: the_cache_def split: if_splits option.splits)
  let ?s = "th_sampler c"
  have "sure (sam_TryRecordAllocationFast k ?s) (\<lambda>(r, s'). sampler_ok s')"
    using c(2) k by (auto simp: sam_TryRecordAllocationFast_def Let_def to_int64_id sampler_ok_def)
  then show ?thesis unfolding TryRecordAllocationFast_def c(1) bindR_simps
    by (rule sure_bind) (use threads_sampler [OF t c'] in \<open>auto simp: sampled_as_def same_threads_def\<close>)
qed

lemma sampled_live: "live_ok env own m U A g \<Longrightarrow> sampled_as env own U g g' \<Longrightarrow> live_ok env own m U A g'"
  by (rule live_keep) (simp_all add: sampled_as_def same_threads_def)

section \<open>Allocation\<close>

text \<open>The state after an allocation of \<open>n\<close> bytes.\<close>

definition allotted :: "'k tc_env \<Rightarrow> ('k \<Rightarrow> addr set) \<Rightarrow> size_map \<Rightarrow> (addr \<Rightarrow> int option) \<Rightarrow> int \<Rightarrow> addr option \<times> 'k mstate \<Rightarrow> bool" where
  "allotted env own m A n = (\<lambda>(r, s'). case r of None \<Rightarrow> malloc_ok env own m A s' | Some p \<Rightarrow> p \<notin> dom A \<and> malloc_ok env own m (A(p \<mapsto> n)) s')"

lemma malloc_ok_other [simp]:
  "malloc_ok env own m A (s\<lparr>ma_threshold := x\<rparr>) = malloc_ok env own m A s" "malloc_ok env own m A (s\<lparr>ma_reports := y\<rparr>) = malloc_ok env own m A s"
  by (simp_all add: malloc_ok_def)

lemma small_alloc_ok:
  assumes ok: "live_ok env own m U A g" and h: "h \<in> set (tg_heaps g)" and cl: "cl \<noteq> 0" "cl < num_size_classes m" "n \<le> byte_size_for_class m cl"
  shows "unless_limit (bindR (th_Allocate env h (byte_size_for_class m cl) cl g) (\<lambda>(p, g'). bindR (CheckedMallocResult p (tg_tcm g')) (\<lambda>r. Inr (r, s\<lparr>ma_threads := g'\<rparr>))))
    (allotted env own m A n)"
proof -
  have t: "threads_ok env own U g" "tm_sizemap (tg_tcm g) = m" using ok by (simp_all add: live_ok_def)
  note al = th_Allocate_ok [OF t(1) h, of cl, unfolded t(2), OF cl(2,1)]
  show ?thesis
  proof (rule limit_bind [OF al], unfold split_paired_all prod.case, goal_cases)
    case (1 r g')
    show ?case
    proof (cases r)
      case None
      then have "threads_ok env own U g'" "kept_objects U (tg_tcm g) (tg_tcm g')" "tg_sample_parameter g' = tg_sample_parameter g" using 1 by (simp_all add: served_def same_threads_def)
      from live_keep [OF ok this] show ?thesis using None by (auto simp: CheckedMallocResult_def allotted_def malloc_ok_def)
    next
      case (Some p)
      have g': "threads_ok env own (insert p U) g'" "kept_objects U (tg_tcm g) (tg_tcm g')" "tg_sample_parameter g' = tg_sample_parameter g" "p \<notin> U" "class_of (tg_tcm g') p cl"
        using 1 Some by (auto simp: served_def same_threads_def intro: kept_mono(1))
      note lt = live_take [OF ok g' cl(2,3)]
      show ?thesis using lt CheckedMallocResult_small [OF g'(1,5)] Some by (auto simp: allotted_def malloc_ok_def)
    qed
  qed
qed

lemma span_alloc_ok:
  assumes ok: "live_ok env own m U A (ma_threads s)" and n: "0 < k" "n \<le> k * kPageSize"
  shows "unless_oom (let t = ma_tcm s in bindR (New env k (tm_heap t)) (\<lambda>(r, h1). case r of None \<Rightarrow> Inr (None, set_tcm (t\<lparr>tm_heap := h1\<rparr>) s)
      | Some sp \<Rightarrow> bindR (SpanToMallocResult sp (t\<lparr>tm_heap := h1\<rparr>)) (\<lambda>(p, t1). Inr (p, set_tcm t1 s)))) (allotted env own m A n)"
proof -
  let ?g = "ma_threads s" and ?t = "ma_tcm s"
  have t: "threads_ok env own U ?g" using ok by (simp add: live_ok_def)
  have e: "(let t = ?t in bindR (New env k (tm_heap t)) (\<lambda>(r, h1). case r of None \<Rightarrow> Inr (None, set_tcm (t\<lparr>tm_heap := h1\<rparr>) s)
      | Some sp \<Rightarrow> bindR (SpanToMallocResult sp (t\<lparr>tm_heap := h1\<rparr>)) (\<lambda>(p, t1). Inr (p, set_tcm t1 s)))) =
    bindR (bindR (New env k (tm_heap ?t)) (\<lambda>(r, h1). case r of None \<Rightarrow> Inr (None, ?t\<lparr>tm_heap := h1\<rparr>) | Some sp \<Rightarrow> SpanToMallocResult sp (?t\<lparr>tm_heap := h1\<rparr>)))
      (\<lambda>(p, t1). Inr (p, set_tcm t1 s))"
    unfolding Let_def bindR_assoc by (rule arg_cong [where f = "bindR (New env k (tm_heap ?t))"]) (auto split: option.splits)
  show ?thesis unfolding e
  proof (rule oom_bind [OF new_span_out [OF t n(1)]], clarify)
    fix r t1 assume o: "span_out env own U k ?g (r, t1)"
    show "unless_oom (Inr (r, set_tcm t1 s)) (allotted env own m A n)"
    proof (cases r)
      case None
      then have h: "heap_step env own U ?g t1" "plain t1 = plain (tg_tcm ?g)" using o by (simp_all add: span_out_def)
      then have th: "threads_ok env own U (?g\<lparr>tg_tcm := t1\<rparr>)" "tm_sizemap t1 = m" "class_of t1 = class_of ?t" using ok by (simp_all add: heap_step_def live_ok_def)
      have "small_block t1 p i = small_block ?t p i" "big_block t1 p i = big_block ?t p i" for p i
        using th(2,3) h(2) ok by (simp_all add: small_block_def big_block_def live_ok_def)
      then have "live_ok env own m U A (?g\<lparr>tg_tcm := t1\<rparr>)" using ok th(1,2) by (simp add: live_ok_def)
      then show ?thesis using None by (auto simp: allotted_def malloc_ok_def)
    next
      case (Some p)
      then obtain a x where x: "live (ph_spans (tm_heap ?t)) a = None" "plain t1 = (plain ?t)(a \<mapsto> x)" "p = sp_start x * kPageSize" "sp_length x = k" "\<not> sp_sample x"
        and h: "heap_step env own U ?g t1" using o by (auto simp: span_out_def)
      have "n \<le> sp_length x * kPageSize" using n(2) x(4) by simp
      note lv = live_span_in [OF ok h x(2,1,5) this]
      show ?thesis unfolding Some x(3) using lv by (auto simp: allotted_def malloc_ok_def)
    qed
  qed
qed

lemma do_malloc_pages_ok:
  assumes ok: "live_ok env own m U A (ma_threads s)" and h: "h \<in> set (tg_heaps (ma_threads s))" and n: "0 < n" "n < 2 ^ 64"
  shows "unless_limit (do_malloc_pages env h n s) (allotted env own m A n)"
  unfolding do_malloc_pages_def Let_def
proof (rule limit_bind [OF limit_sure [OF SampleAllocation_ok [OF ok h]]], goal_cases)
  case 1 then show ?case using n by simp
next
  case (2 x)
  then obtain g1 where x: "x = (False, g1)" "sampled_as env own U (ma_threads s) g1" by (cases x) auto
  have l: "live_ok env own m U A (ma_threads (s\<lparr>ma_threads := g1\<rparr>))" using sampled_live [OF ok x(2)] by simp
  have k: "0 < pages_of n" "n \<le> pages_of n * kPageSize" using pages_of_eq [OF _ n(2)] n(1) by simp_all
  note sp = span_alloc_ok [OF l k, unfolded Let_def]
  show ?case unfolding x prod.case if_False
  proof (rule limit_bind [OF limit_oom [OF sp]], goal_cases)
    case (1 y)
    obtain r s2 b x where y: "y = (r, s2)" "should_report_large (pages_of n) (ma_threshold s2) = (b, x)" by (cases y, cases "should_report_large (pages_of n) (ma_threshold (snd y))") auto
    then show ?case using 1 by (cases r; cases b) (simp_all add: allotted_def)
  qed
qed

lemma do_malloc_ok:
  assumes ok: "malloc_ok env own m A s" and me: "(ucast me :: 32 word) \<noteq> 0" and n: "0 \<le> n" "n < 2 ^ 64"
  shows "unless_limit (do_malloc env me n s) (allotted env own m A n)"
proof -
  obtain U where U: "live_ok env own m U A (ma_threads s)" using ok by (auto simp: malloc_ok_def)
  then have t: "threads_ok env own U (ma_threads s)" "map_ok m" by (simp_all add: live_ok_def)
  show ?thesis unfolding do_malloc_def
  proof (rule limit_bind [OF limit_oom [OF GetCache_ok [OF t(1) me]]], unfold split_paired_all prod.case, goal_cases)
    case (1 h g1)
    then have h: "h \<in> set (tg_heaps g1)" "threads_ok env own U g1" "kept_objects U (ma_tcm s) (tg_tcm g1)" "tg_sample_parameter g1 = tg_sample_parameter (ma_threads s)"
      by (auto simp: has_cache_def)
    have l1: "live_ok env own m U A g1" by (rule live_keep [OF U h(2-4)])
    then have m1: "tm_sizemap (tg_tcm g1) = m" by (simp add: live_ok_def)
    have nn: "h \<noteq> NULL" using threads_env(3) [OF h(2)] h(1) by auto
    show ?case
    proof (cases "get_size_class m n")
      case None
      then have "0 < n" using get_class_none [of m n] by (simp add: kMaxSize_def)
      then have "unless_limit (do_malloc_pages env h n (s\<lparr>ma_threads := g1\<rparr>)) (allotted env own m A n)" using do_malloc_pages_ok [of env own m U A "s\<lparr>ma_threads := g1\<rparr>"] l1 h(1) n by simp
      then show ?thesis using None nn by (simp add: m1 Let_def)
    next
      case (Some cl)
      note c = get_class_ok [OF t(2) n(1) Some]
      have z: "0 \<le> byte_size_for_class m cl" using c(3) n(1) by simp
      have "unless_limit (bindR (SampleAllocation h (byte_size_for_class m cl) g1) (\<lambda>(sampled, g2).
          if sampled then DoSampledAllocation env n (s\<lparr>ma_threads := g1\<rparr>\<lparr>ma_threads := g2\<rparr>)
          else bindR (th_Allocate env h (byte_size_for_class m cl) cl g2) (\<lambda>(p, g3). bindR (CheckedMallocResult p (tg_tcm g3)) (\<lambda>r. Inr (r, s\<lparr>ma_threads := g1\<rparr>\<lparr>ma_threads := g3\<rparr>)))))
        (allotted env own m A n)"
      proof (rule limit_bind [OF limit_sure [OF SampleAllocation_ok [OF l1 h(1) z]]], goal_cases)
        case (1 x)
        then obtain g2 where x: "x = (False, g2)" "sampled_as env own U g1 g2" by (cases x) auto
        have "h \<in> set (tg_heaps g2)" using x(2) h(1) by (simp add: sampled_as_def same_threads_def)
        from small_alloc_ok [OF sampled_live [OF l1 x(2)] this c(1-3), of "s\<lparr>ma_threads := g1\<rparr>"] show ?case by (simp add: x)
      qed
      then have "unless_limit (check (h \<noteq> NULL) (let s1 = s\<lparr>ma_threads := g1\<rparr> in let allocated_size = class_to_size m ! cl in
          bindR (SampleAllocation h allocated_size g1) (\<lambda>(sampled, g2). if sampled then DoSampledAllocation env n (s1\<lparr>ma_threads := g2\<rparr>)
            else bindR (th_Allocate env h allocated_size cl g2) (\<lambda>(p, g3). bindR (CheckedMallocResult p (tg_tcm g3)) (\<lambda>r. Inr (r, s1\<lparr>ma_threads := g3\<rparr>))))))
        (allotted env own m A n)"
        unfolding Let_def byte_size_for_class_def [symmetric] using nn by simp
      then show ?thesis using Some by (simp only: m1 Let_def option.case)
    qed
  qed
qed

end
