(* ===== verification/Alloc_Spec.thy ===== *)
theory Alloc_Spec
  imports Thread_Cache_Lists
begin

text \<open>
  What a program expects of a memory allocator. The program holds blocks, each with what it knows of it (a size
  class, a size); it asks for blocks, gives back blocks that it holds, and writes to them. The interface says what the
  allocator promises for one request; the lemma on sequences of requests is proved once and used for the thread caches
  and for \<open>malloc\<close>.
\<close>

text \<open>A block that is held is given by its position among the blocks that are held.\<close>

datatype ('r, 'f, 'o) event = Acquire 'r | Discard 'f nat | Write nat int | Maintain 'o

type_synonym 'i holding = "(addr \<times> 'i \<times> int option) list"

fun serve_events ::
  "('r \<Rightarrow> 's \<Rightarrow> ((addr \<times> 'i) option \<times> 's) result) \<Rightarrow> ('f \<Rightarrow> addr \<Rightarrow> 'i \<Rightarrow> 's \<Rightarrow> 's result) \<Rightarrow> (addr \<Rightarrow> int \<Rightarrow> 's \<Rightarrow> 's) \<Rightarrow>
   ('o \<Rightarrow> 's \<Rightarrow> 's result) \<Rightarrow> ('r, 'f, 'o) event list \<Rightarrow> 'i holding \<Rightarrow> 's \<Rightarrow> ('i holding \<times> 's) result" where
  "serve_events acquire discard poke maintain [] hs s = Inr (hs, s)"
| "serve_events acquire discard poke maintain (Acquire r # es) hs s =
     bindR (acquire r s) (\<lambda>(b, s'). serve_events acquire discard poke maintain es (case b of None \<Rightarrow> hs | Some (p, i) \<Rightarrow> (p, i, None) # hs) s')"
| "serve_events acquire discard poke maintain (Discard f n # es) hs s =
     (if n < length hs then
        case hs ! n of (p, i, v) \<Rightarrow> bindR (discard f p i s) (serve_events acquire discard poke maintain es (take n hs @ drop (Suc n) hs))
      else serve_events acquire discard poke maintain es hs s)"
| "serve_events acquire discard poke maintain (Write n v # es) hs s =
     (if n < length hs then
        case hs ! n of (p, i, u) \<Rightarrow> serve_events acquire discard poke maintain es (hs[n := (p, i, Some v)]) (poke p v s)
      else serve_events acquire discard poke maintain es hs s)"
| "serve_events acquire discard poke maintain (Maintain x # es) hs s =
     bindR (maintain x s) (serve_events acquire discard poke maintain es hs)"

text \<open>The blocks that are held, and the values last written to them.\<close>

definition blocks_of :: "'i holding \<Rightarrow> addr \<Rightarrow> 'i option" where
  "blocks_of hs = map_of (map (\<lambda>(p, i, v). (p, i)) hs)"

lemma blocks_of_simps [simp]: "blocks_of [] = (\<lambda>_. None)" "blocks_of ((p, i, v) # hs) = (blocks_of hs)(p \<mapsto> i)"
  by (simp_all add: blocks_of_def)

lemma blocks_of_Some: "distinct (map fst hs) \<Longrightarrow> (blocks_of hs p = Some i) = (\<exists>v. (p, i, v) \<in> set hs)"
  unfolding blocks_of_def by (subst map_of_eq_Some_iff) (auto simp: comp_def split_def, force)

lemma dom_blocks_of: "dom (blocks_of hs) = fst ` set hs"
  unfolding blocks_of_def by (simp add: dom_map_of_conv_image_fst image_image split_def)

lemma mem_blocks_of: "(p, i, u) \<in> set hs \<Longrightarrow> p \<in> dom (blocks_of hs)"
  unfolding dom_blocks_of by (rule image_eqI [of _ _ "(p, i, u)"]) simp_all

lemma blocks_of_write:
  assumes "n < length hs" "hs ! n = (p, i, u)"
  shows "blocks_of (hs[n := (p, i, v)]) = blocks_of hs" "map fst (hs[n := (p, i, v)]) = map fst hs"
proof -
  have "map (\<lambda>(p, i, v). (p, i)) (hs[n := (p, i, v)]) = map (\<lambda>(p, i, v). (p, i)) hs"
    using assms by (intro nth_equalityI) (auto simp: nth_list_update)
  then show "blocks_of (hs[n := (p, i, v)]) = blocks_of hs" by (simp add: blocks_of_def)
  show "map fst (hs[n := (p, i, v)]) = map fst hs" using assms by (intro nth_equalityI) (auto simp: nth_list_update)
qed

lemma take_drop_split: "n < length xs \<Longrightarrow> xs = take n xs @ xs ! n # drop (Suc n) xs"
  by (rule id_take_nth_drop)

lemma blocks_of_discard:
  assumes "n < length hs" "hs ! n = (p, i, u)" "distinct (map fst hs)"
  shows "blocks_of (take n hs @ drop (Suc n) hs) = (blocks_of hs)(p := None)" "distinct (map fst (take n hs @ drop (Suc n) hs))"
    "set (take n hs @ drop (Suc n) hs) = set hs - {(p, i, u)}" "blocks_of hs p = Some i"
proof -
  have e: "hs = take n hs @ (p, i, u) # drop (Suc n) hs" using take_drop_split [OF assms(1)] assms(2) by simp
  have d: "distinct (map fst (take n hs) @ p # map fst (drop (Suc n) hs))" using assms(3) by (subst (asm) e) simp
  then show d': "distinct (map fst (take n hs @ drop (Suc n) hs))" by auto
  have "(p, i, u) \<notin> set (take n hs) \<union> set (drop (Suc n) hs)" using d by force
  moreover have "set hs = insert (p, i, u) (set (take n hs) \<union> set (drop (Suc n) hs))" by (subst e) simp
  ultimately show s: "set (take n hs @ drop (Suc n) hs) = set hs - {(p, i, u)}" by auto
  have m: "(p, i, u) \<in> set hs" by (subst e) simp
  then show "blocks_of hs p = Some i" using assms(3) by (auto simp: blocks_of_Some)
  have ne: "q \<noteq> p" if "(q, j, v) \<in> set (take n hs @ drop (Suc n) hs)" for q j v using that d by force
  have "blocks_of (take n hs @ drop (Suc n) hs) q = ((blocks_of hs)(p := None)) q" for q
  proof (cases "q = p")
    case True
    then show ?thesis using ne by (force simp: blocks_of_Some [OF d'] not_Some_eq [symmetric] simp del: not_Some_eq)
  next
    case False
    have "(blocks_of (take n hs @ drop (Suc n) hs) q = Some j) = (blocks_of hs q = Some j)" for j
      unfolding blocks_of_Some [OF d'] blocks_of_Some [OF assms(3)] s using False by auto
    then show ?thesis using False by (metis fun_upd_other option.exhaust)
  qed
  then show "blocks_of (take n hs @ drop (Suc n) hs) = (blocks_of hs)(p := None)" by blast
qed

section \<open>The interface\<close>

locale allocator =
  fixes ok :: "(addr \<Rightarrow> 'i option) \<Rightarrow> 's \<Rightarrow> bool" and extent :: "'i \<Rightarrow> int" and mine :: "'s \<Rightarrow> addr set"
    and reads :: "'s \<Rightarrow> addr \<Rightarrow> int \<Rightarrow> bool"
    and acquire :: "'r \<Rightarrow> 's \<Rightarrow> ((addr \<times> 'i) option \<times> 's) result" and discard :: "'f \<Rightarrow> addr \<Rightarrow> 'i \<Rightarrow> 's \<Rightarrow> 's result"
    and poke :: "addr \<Rightarrow> int \<Rightarrow> 's \<Rightarrow> 's" and maintain :: "'o \<Rightarrow> 's \<Rightarrow> 's result"
    and good :: "('r, 'f, 'o) event \<Rightarrow> bool"
  assumes apart: "ok A s \<Longrightarrow> A p = Some i \<Longrightarrow> A q = Some j \<Longrightarrow> p \<noteq> q \<Longrightarrow> block p (extent i) \<inter> block q (extent j) = {}"
    and inside: "ok A s \<Longrightarrow> A p = Some i \<Longrightarrow> block p (extent i) \<subseteq> mine s"
    and acquire_law: "ok A s \<Longrightarrow> good (Acquire r) \<Longrightarrow> unless_limit (acquire r s) (\<lambda>(b, s').
      (\<forall>p\<in>dom A. \<forall>v. reads s p v \<longrightarrow> reads s' p v) \<and> (case b of None \<Rightarrow> ok A s' | Some (p, i) \<Rightarrow> p \<notin> dom A \<and> ok (A(p \<mapsto> i)) s'))"
    and discard_law: "ok A s \<Longrightarrow> good (Discard f n) \<Longrightarrow> A p = Some i \<Longrightarrow> unless_limit (discard f p i s) (\<lambda>s'.
      (\<forall>q\<in>dom A - {p}. \<forall>v. reads s q v \<longrightarrow> reads s' q v) \<and> ok (A(p := None)) s')"
    and poke_law: "ok A s \<Longrightarrow> p \<in> dom A \<Longrightarrow> ok A (poke p v s) \<and> reads (poke p v s) p v \<and> (\<forall>q\<in>dom A - {p}. \<forall>u. reads s q u \<longrightarrow> reads (poke p v s) q u)"
    and maintain_law: "ok A s \<Longrightarrow> good (Maintain x) \<Longrightarrow> unless_limit (maintain x s) (\<lambda>s'. (\<forall>p\<in>dom A. \<forall>v. reads s p v \<longrightarrow> reads s' p v) \<and> ok A s')"
begin

text \<open>The holding is in order: the blocks are live, and each has the value last written to it.\<close>

definition holds :: "'i holding \<Rightarrow> 's \<Rightarrow> bool" where
  "holds hs s \<longleftrightarrow> distinct (map fst hs) \<and> ok (blocks_of hs) s \<and> (\<forall>(p, i, u)\<in>set hs. \<forall>v. u = Some v \<longrightarrow> reads s p v)"

lemma holds_kept:
  assumes "holds hs s" "\<forall>p\<in>dom (blocks_of hs). \<forall>v. reads s p v \<longrightarrow> reads s' p v" "ok (blocks_of hs) s'"
  shows "holds hs s'"
  using assms unfolding holds_def dom_blocks_of by (fastforce split: prod.splits)

lemma holds_discard:
  assumes h: "holds hs s" and n: "n < length hs" "hs ! n = (p, i, u)"
    and k: "\<forall>q\<in>dom (blocks_of hs) - {p}. \<forall>v. reads s q v \<longrightarrow> reads s' q v" and o': "ok ((blocks_of hs)(p := None)) s'"
  shows "holds (take n hs @ drop (Suc n) hs) s'"
proof -
  have d: "distinct (map fst hs)" using h by (simp add: holds_def)
  note b = blocks_of_discard [OF n d]
  have m: "(p, i, u) \<in> set hs" using nth_mem [OF n(1)] n(2) by simp
  have "reads s' q v" if "(q, j, Some v) \<in> set hs - {(p, i, u)}" for q j v
  proof -
    have "q \<noteq> p" using that m eq_key_imp_eq_value [OF d, of p "(i, u)"] by blast
    moreover have "q \<in> dom (blocks_of hs)" using that mem_blocks_of [of q j "Some v" hs] by blast
    moreover have "reads s q v" using that h by (auto simp: holds_def)
    ultimately show ?thesis using k by blast
  qed
  then show ?thesis using b(1,2) o' unfolding holds_def b(3) by auto
qed

lemma holds_write:
  assumes h: "holds hs s" and n: "n < length hs" "hs ! n = (p, i, u)"
  shows "holds (hs[n := (p, i, Some v)]) (poke p v s)"
proof -
  have d: "distinct (map fst hs)" and o': "ok (blocks_of hs) s" using h by (simp_all add: holds_def)
  note w = blocks_of_write [OF n, of "Some v"]
  have p: "p \<in> dom (blocks_of hs)" using nth_mem [OF n(1)] unfolding n(2) by (rule mem_blocks_of)
  note pk = poke_law [OF o' p, of v]
  have "reads (poke p v s) q x" if "(q, j, Some x) \<in> set (hs[n := (p, i, Some v)])" for q j x
  proof -
    have "\<exists>k<length hs. hs[n := (p, i, Some v)] ! k = (q, j, Some x)" using that unfolding in_set_conv_nth length_list_update .
    then obtain k where k: "k < length hs" "hs[n := (p, i, Some v)] ! k = (q, j, Some x)" by blast
    show ?thesis
    proof (cases "k = n")
      case True
      then show ?thesis using k pk n(1) by simp
    next
      case False
      then have hk: "hs ! k = (q, j, Some x)" using k by simp
      then have m: "(q, j, Some x) \<in> set hs" using nth_mem [OF k(1)] by simp
      have "q \<noteq> p" using nth_eq_iff_index_eq [OF d, of k n] False k(1) n hk by simp
      moreover have "q \<in> dom (blocks_of hs)" by (rule mem_blocks_of [OF m])
      moreover have "reads s q x" using h m by (auto simp: holds_def)
      ultimately show ?thesis using pk by blast
    qed
  qed
  then show ?thesis unfolding holds_def w using d pk by auto
qed

lemma serve_ok:
  assumes "holds hs s" "\<forall>e\<in>set es. good e"
  shows "unless_limit (serve_events acquire discard poke maintain es hs s) (\<lambda>(hs', s'). holds hs' s')"
  using assms
proof (induction es arbitrary: hs s)
  case (Cons e es)
  note IH = Cons.IH
  have g: "good e" "\<forall>e\<in>set es. good e" using Cons.prems(2) by simp_all
  have h: "holds hs s" by (rule Cons.prems(1))
  then have o': "ok (blocks_of hs) s" by (simp add: holds_def)
  show ?case
  proof (cases e)
    case (Acquire r)
    have "unless_limit (acquire r s) (\<lambda>(b, s'). holds (case b of None \<Rightarrow> hs | Some (p, i) \<Rightarrow> (p, i, None) # hs) s')"
    proof (rule limit_mono [OF acquire_law [OF o' g(1) [unfolded Acquire]]], clarify)
      fix b s' assume k: "\<forall>p\<in>dom (blocks_of hs). \<forall>v. reads s p v \<longrightarrow> reads s' p v"
        and c: "case b of None \<Rightarrow> ok (blocks_of hs) s' | Some (p, i) \<Rightarrow> p \<notin> dom (blocks_of hs) \<and> ok ((blocks_of hs)(p \<mapsto> i)) s'"
      show "holds (case b of None \<Rightarrow> hs | Some (p, i) \<Rightarrow> (p, i, None) # hs) s'"
      proof (cases b)
        case None
        then show ?thesis using holds_kept [OF h k] c by simp
      next
        case (Some x)
        have "reads s' p v" if "(p, i, Some v) \<in> set hs" for p i v
        proof -
          have "reads s p v" using h that by (auto simp: holds_def)
          then show ?thesis using k mem_blocks_of [OF that] by blast
        qed
        then show ?thesis using Some c h by (cases x) (auto simp: holds_def dom_blocks_of)
      qed
    qed
    then show ?thesis unfolding Acquire serve_events.simps by (rule limit_bind) (auto intro: IH [OF _ g(2)])
  next
    case (Discard f n)
    show ?thesis
    proof (cases "n < length hs")
      case True
      obtain p i u where n: "hs ! n = (p, i, u)" by (cases "hs ! n")
      have "blocks_of hs p = Some i" using blocks_of_discard(4) [OF True n] h by (simp add: holds_def)
      from discard_law [OF o' g(1) [unfolded Discard] this]
      have "unless_limit (discard f p i s) (\<lambda>s'. holds (take n hs @ drop (Suc n) hs) s')"
        by (rule limit_mono) (use holds_discard [OF h True n] in blast)
      then have "unless_limit (bindR (discard f p i s) (serve_events acquire discard poke maintain es (take n hs @ drop (Suc n) hs))) (\<lambda>(hs', s'). holds hs' s')"
        by (rule limit_bind) (rule IH [OF _ g(2)])
      then show ?thesis using True n unfolding Discard serve_events.simps by simp
    qed (use IH [OF h g(2)] in \<open>simp add: Discard\<close>)
  next
    case (Write n v)
    then show ?thesis using IH [OF h g(2)] holds_write [OF h, of n] IH [OF _ g(2)] by (cases "hs ! n") (auto simp: Write)
  next
    case (Maintain x)
    have "unless_limit (maintain x s) (holds hs)"
      by (rule limit_mono [OF maintain_law [OF o' g(1) [unfolded Maintain]]]) (use holds_kept [OF h] in blast)
    then show ?thesis unfolding Maintain serve_events.simps by (rule limit_bind) (rule IH [OF _ g(2)])
  qed
qed simp

lemma serve_from_nothing:
  assumes "ok (\<lambda>_. None) s" "\<forall>e\<in>set es. good e"
  shows "unless_limit (serve_events acquire discard poke maintain es [] s) (\<lambda>(hs, s').
    distinct (map fst hs) \<and> (\<forall>p i v. (p, i, Some v) \<in> set hs \<longrightarrow> reads s' p v) \<and> (\<forall>p i u. (p, i, u) \<in> set hs \<longrightarrow> block p (extent i) \<subseteq> mine s') \<and>
    (\<forall>p i u q j w. (p, i, u) \<in> set hs \<and> (q, j, w) \<in> set hs \<and> p \<noteq> q \<longrightarrow> block p (extent i) \<inter> block q (extent j) = {}) \<and> ok (blocks_of hs) s')"
proof -
  have "holds [] s" using assms(1) by (simp add: holds_def)
  then show ?thesis
  proof (rule limit_mono [OF serve_ok [OF _ assms(2)]], clarify)
    fix hs s' assume h: "holds hs s'"
    then have d: "distinct (map fst hs)" and o': "ok (blocks_of hs) s'" by (simp_all add: holds_def)
    have b: "blocks_of hs p = Some i" if "(p, i, u) \<in> set hs" for p i u using that d by (auto simp: blocks_of_Some)
    show "distinct (map fst hs) \<and> (\<forall>p i v. (p, i, Some v) \<in> set hs \<longrightarrow> reads s' p v) \<and> (\<forall>p i u. (p, i, u) \<in> set hs \<longrightarrow> block p (extent i) \<subseteq> mine s') \<and>
      (\<forall>p i u q j w. (p, i, u) \<in> set hs \<and> (q, j, w) \<in> set hs \<and> p \<noteq> q \<longrightarrow> block p (extent i) \<inter> block q (extent j) = {}) \<and> ok (blocks_of hs) s'"
    proof (intro conjI allI impI)
      show "reads s' p v" if "(p, i, Some v) \<in> set hs" for p i v using h that by (auto simp: holds_def)
      show "block p (extent i) \<subseteq> mine s'" if "(p, i, u) \<in> set hs" for p i u by (rule inside [OF o' b [OF that]])
      show "block p (extent i) \<inter> block q (extent j) = {}" if "(p, i, u) \<in> set hs \<and> (q, j, w) \<in> set hs \<and> p \<noteq> q" for p i u q j w
        using apart [OF o' b b] that by blast
    qed (use d o' in auto)
  qed
qed

end

end
