(* ===== verification/Thread_Props.thy ===== *)
theory Thread_Props
  imports Thread_Module Alloc_Spec Central_Props
begin

text \<open>
  The thread caches as an allocator of objects of the size classes, for any number of threads whose operations
  interleave, and the properties of the thread caches.
\<close>

section \<open>Requests of threads\<close>

text \<open>A thread asks for an object of a class, gives one back, ends or goes idle.\<close>

datatype thread_care = Exit "64 word" | Idle "64 word" | TemporarilyIdle "64 word"

definition cache_acquire :: "'k tc_env \<Rightarrow> 64 word \<times> nat \<Rightarrow> 'k tstate \<Rightarrow> ((addr \<times> nat) option \<times> 'k tstate) result" where
  "cache_acquire env r g = (case r of (me, cl) \<Rightarrow>
     bindR (GetCache env me g) (\<lambda>(h, g1).
     bindR (th_Allocate env h (byte_size_for_class (tm_sizemap (tg_tcm g1)) cl) cl g1) (\<lambda>(p, g2). Inr (map_option (\<lambda>p. (p, cl)) p, g2))))"

definition cache_discard :: "'k tc_env \<Rightarrow> 64 word \<Rightarrow> addr \<Rightarrow> nat \<Rightarrow> 'k tstate \<Rightarrow> 'k tstate result" where
  "cache_discard env me p cl g = bindR (GetCache env me g) (\<lambda>(h, g1). Deallocate env h p cl g1)"

definition poke_word :: "addr \<Rightarrow> int \<Rightarrow> 'k tstate \<Rightarrow> 'k tstate" where
  "poke_word p v g = g\<lparr>tg_tcm := (tg_tcm g)\<lparr>tm_mem := (tm_mem (tg_tcm g))(p \<mapsto> v)\<rparr>\<rparr>"

fun cache_maintain :: "'k tc_env \<Rightarrow> thread_care \<Rightarrow> 'k tstate \<Rightarrow> 'k tstate result" where
  "cache_maintain env (Exit me) g = thread_exit env me g"
| "cache_maintain env (Idle me) g = BecomeIdle env me g"
| "cache_maintain env (TemporarilyIdle me) g = BecomeTemporarilyIdle env me g"

fun cache_request_ok :: "size_map \<Rightarrow> (64 word \<times> nat, 64 word, thread_care) event \<Rightarrow> bool" where
  "cache_request_ok m (Acquire (me, cl)) = ((ucast me :: 32 word) \<noteq> 0 \<and> cl \<noteq> 0 \<and> cl < num_size_classes m)"
| "cache_request_ok m (Discard me n) = ((ucast me :: 32 word) \<noteq> 0)"
| "cache_request_ok m (Write n v) = True"
| "cache_request_ok m (Maintain x) = True"

section \<open>The interface\<close>

definition caches_ok :: "'k tc_env \<Rightarrow> ('k \<Rightarrow> addr set) \<Rightarrow> size_map \<Rightarrow> (addr \<Rightarrow> nat option) \<Rightarrow> 'k tstate \<Rightarrow> bool" where
  "caches_ok env own m A g \<longleftrightarrow> threads_ok env own (dom A) g \<and> tm_sizemap (tg_tcm g) = m \<and>
     (\<forall>p c. A p = Some c \<longrightarrow> class_of (tg_tcm g) p c \<and> c < num_size_classes m)"

abbreviation word_reads :: "'k tstate \<Rightarrow> addr \<Rightarrow> int \<Rightarrow> bool" where
  "word_reads g p v \<equiv> tm_mem (tg_tcm g) p = Some v"

lemma caches_spans:
  assumes "caches_ok env own m A g" shows "\<exists>F X. spans_ok env own F X (tg_tcm g)"
proof -
  obtain L where "threads_rep env own (dom A) L g" using assms by (auto simp: caches_ok_def threads_ok_def)
  then have "central_ok env own (dom A \<union> all_held (tm_sizemap (tg_tcm g)) (set (tg_heaps g)) L) (tg_tcm g)" by (simp add: threads_rep_def objects_ok_def)
  then show ?thesis using central_spans by blast
qed

lemma caches_kept:
  assumes "caches_ok env own m A g" "threads_ok env own (dom B) g'" "kept_objects (dom B) (tg_tcm g) (tg_tcm g')" "B \<subseteq>\<^sub>m A"
  shows "caches_ok env own m B g'" "\<forall>p\<in>dom B. \<forall>v. word_reads g p v \<longrightarrow> word_reads g' p v"
proof -
  have k: "tm_sizemap (tg_tcm g') = tm_sizemap (tg_tcm g)" "class_of (tg_tcm g) p c \<Longrightarrow> class_of (tg_tcm g') p c" "tm_mem (tg_tcm g') p = tm_mem (tg_tcm g) p"
    if "p \<in> dom B" for p c using assms(3) that by (simp_all add: kept_objects_def)
  have m: "tm_sizemap (tg_tcm g') = m" using assms(1,3) by (simp add: kept_objects_def caches_ok_def)
  have "class_of (tg_tcm g') p c \<and> c < num_size_classes m" if b: "B p = Some c" for p c
  proof -
    have "p \<in> dom B" using b by blast
    moreover have "A p = Some c" using assms(4) b by (auto simp: map_le_def dom_def)
    ultimately show ?thesis using assms(1) k(2) by (auto simp: caches_ok_def)
  qed
  then show "caches_ok env own m B g'" using assms(2) m by (simp add: caches_ok_def)
  show "\<forall>p\<in>dom B. \<forall>v. word_reads g p v \<longrightarrow> word_reads g' p v" using k(3) by simp
qed

lemma poke_threads:
  assumes "threads_ok env own U g" "p \<in> U"
  shows "threads_ok env own U (poke_word p v g)" "kept_objects (U - {p}) (tg_tcm g) (tg_tcm (poke_word p v g))"
proof -
  let ?t = "tg_tcm g" and ?m = "(tm_mem (tg_tcm g))(p \<mapsto> v)"
  obtain L where L: "threads_rep env own U L g" using assms(1) by (auto simp: threads_ok_def)
  let ?Y = "U \<union> all_held (tm_sizemap ?t) (set (tg_heaps g)) L" and ?t' = "?t\<lparr>tm_mem := ?m\<rparr>"
  have o: "objects_ok env own U (set (tg_heaps g)) L (tg_cache g) ?t" using L by (simp add: threads_rep_def)
  then have c: "central_ok env own ?Y ?t" and d: "U \<inter> all_held (tm_sizemap ?t) (set (tg_heaps g)) L = {}" by (simp_all add: objects_ok_def)
  have c': "central_ok env own ?Y ?t'"
    by (rule central_mem [OF c]) (use assms(2) central_object(1) [OF c] in auto)
  have k: "kept_objects X ?t ?t'" if "p \<notin> X" for X by (rule kept_mem) (use that in auto)
  have "cache_fine ?t' x (L h)" if "h \<in> set (tg_heaps g)" "cache_fine ?t x (L h)" for x h
    by (rule cache_fine_kept [OF that(2) k]) (use d assms(2) that(1) in \<open>auto simp: all_held_def\<close>)
  then have "objects_ok env own U (set (tg_heaps g)) L (tg_cache g) ?t'" using o c' unfolding objects_ok_def by fastforce
  moreover have "limits_ok (poke_word p v g) (set (tg_heaps g))" using L by (simp add: threads_rep_def limits_ok_def claim_def poke_word_def)
  ultimately have "threads_rep env own U L (poke_word p v g)" using L by (simp add: threads_rep_def poke_word_def steal_ok_def tls_ok_def)
  then show "threads_ok env own U (poke_word p v g)" by (auto simp: threads_ok_def)
  show "kept_objects (U - {p}) (tg_tcm g) (tg_tcm (poke_word p v g))" using k [of "U - {p}"] by (simp add: poke_word_def)
qed

lemma cache_acquire_ok:
  assumes A: "caches_ok env own m A g" and me: "(ucast me :: 32 word) \<noteq> 0" and cl: "cl \<noteq> 0" "cl < num_size_classes m"
  shows "unless_limit (cache_acquire env (me, cl) g) (\<lambda>(b, g'). (\<forall>p\<in>dom A. \<forall>v. word_reads g p v \<longrightarrow> word_reads g' p v) \<and>
     (case b of None \<Rightarrow> caches_ok env own m A g' | Some (p, i) \<Rightarrow> p \<notin> dom A \<and> caches_ok env own m (A(p \<mapsto> i)) g'))"
proof -
  have ok: "threads_ok env own (dom A) g" using A by (simp add: caches_ok_def)
  show ?thesis unfolding cache_acquire_def prod.case
  proof (rule limit_bind [OF limit_oom [OF GetCache_ok [OF ok me]]], clarify)
    fix h g1 assume h: "has_cache env own (dom A) me g (h, g1)"
    then have h1: "h \<in> set (tg_heaps g1)" "threads_ok env own (dom A) g1" "kept_objects (dom A) (tg_tcm g) (tg_tcm g1)" by (auto simp: has_cache_def)
    note A1 = caches_kept [OF A h1(2,3) map_le_refl]
    have m1: "tm_sizemap (tg_tcm g1) = m" using A1(1) by (simp add: caches_ok_def)
    note al = th_Allocate_ok [OF h1(2,1), of cl, unfolded m1, OF cl(2,1)]
    show "unless_limit (bindR (th_Allocate env h (byte_size_for_class (tm_sizemap (tg_tcm g1)) cl) cl g1) (\<lambda>(p, g2). Inr (map_option (\<lambda>p. (p, cl)) p, g2)))
      (\<lambda>(b, g'). (\<forall>p\<in>dom A. \<forall>v. word_reads g p v \<longrightarrow> word_reads g' p v) \<and>
         (case b of None \<Rightarrow> caches_ok env own m A g' | Some (p, i) \<Rightarrow> p \<notin> dom A \<and> caches_ok env own m (A(p \<mapsto> i)) g'))"
      unfolding m1
    proof (rule limit_bind [OF al], unfold split_paired_all prod.case, goal_cases)
      case (1 r g2)
      show ?case
      proof (cases r)
        case None
        then have s: "threads_ok env own (dom A) g2" "kept_objects (dom A) (tg_tcm g1) (tg_tcm g2)" using 1 by (simp_all add: served_def)
        show ?thesis using None caches_kept [OF A1(1) s map_le_refl] A1(2) by simp
      next
        case (Some p)
        then have s: "threads_ok env own (insert p (dom A)) g2" "kept_objects (dom A) (tg_tcm g1) (tg_tcm g2)" "p \<notin> dom A" "class_of (tg_tcm g2) p cl"
          using 1 by (auto simp: served_def intro: kept_mono(1))
        have cl2: "class_of (tg_tcm g2) q c \<and> c < num_size_classes m" if "A q = Some c" for q c
        proof -
          have "q \<in> dom A" using that by blast
          then show ?thesis using A1(1) s(2) that by (auto simp: caches_ok_def kept_objects_def)
        qed
        have m2: "tm_sizemap (tg_tcm g2) = m" using s(2) m1 by (simp add: kept_objects_def)
        have "caches_ok env own m (A(p \<mapsto> cl)) g2" using s m2 cl2 cl(2) by (auto simp: caches_ok_def)
        moreover have "\<forall>q\<in>dom A. \<forall>v. word_reads g1 q v \<longrightarrow> word_reads g2 q v" using s(2) by (simp add: kept_objects_def)
        ultimately show ?thesis using Some s(3) A1(2) by simp
      qed
    qed
  qed
qed

lemma cache_discard_ok:
  assumes A: "caches_ok env own m A g" and me: "(ucast me :: 32 word) \<noteq> 0" and p: "A p = Some cl"
  shows "unless_limit (cache_discard env me p cl g) (\<lambda>g'. (\<forall>q\<in>dom A - {p}. \<forall>v. word_reads g q v \<longrightarrow> word_reads g' q v) \<and> caches_ok env own m (A(p := None)) g')"
proof -
  have ok: "threads_ok env own (dom A) g" using A by (simp add: caches_ok_def)
  have dp: "dom (A(p := None)) = dom A - {p}" "A(p := None) \<subseteq>\<^sub>m A" "dom A \<inter> (dom A - {p}) = dom A - {p}" by (auto simp: map_le_def split: if_splits)
  show ?thesis unfolding cache_discard_def
  proof (rule limit_bind [OF limit_oom [OF GetCache_ok [OF ok me]]], clarify)
    fix h g1 assume h: "has_cache env own (dom A) me g (h, g1)"
    then have h1: "h \<in> set (tg_heaps g1)" "threads_ok env own (dom A) g1" "kept_objects (dom A) (tg_tcm g) (tg_tcm g1)" by (auto simp: has_cache_def)
    note A1 = caches_kept [OF A h1(2,3) map_le_refl]
    have c: "p \<in> dom A" "class_of (tg_tcm g1) p cl" "cl < num_size_classes (tm_sizemap (tg_tcm g1))" using A1(1) p by (auto simp: caches_ok_def)
    show "unless_limit (Deallocate env h p cl g1) (\<lambda>g'. (\<forall>q\<in>dom A - {p}. \<forall>v. word_reads g q v \<longrightarrow> word_reads g' q v) \<and> caches_ok env own m (A(p := None)) g')"
    proof (rule limit_mono [OF Deallocate_ok [OF h1(2,1) c]])
      fix g2 assume "served env own (dom A) (dom A - {p}) g1 g2"
      then have s: "threads_ok env own (dom (A(p := None))) g2" "kept_objects (dom (A(p := None))) (tg_tcm g1) (tg_tcm g2)" by (simp_all add: served_def dp)
      show "(\<forall>q\<in>dom A - {p}. \<forall>v. word_reads g q v \<longrightarrow> word_reads g2 q v) \<and> caches_ok env own m (A(p := None)) g2"
        using caches_kept [OF A1(1) s dp(2)] A1(2) unfolding dp(1) by simp
    qed
  qed
qed

lemma cache_maintain_ok:
  assumes A: "caches_ok env own m A g"
  shows "sure (cache_maintain env x g) (\<lambda>g'. (\<forall>p\<in>dom A. \<forall>v. word_reads g p v \<longrightarrow> word_reads g' p v) \<and> caches_ok env own m A g')"
proof -
  have ok: "threads_ok env own (dom A) g" using A by (simp add: caches_ok_def)
  have "sure (cache_maintain env x g) (\<lambda>g'. threads_ok env own (dom A) g' \<and> kept_objects (dom A) (tg_tcm g) (tg_tcm g'))"
  proof (cases x)
    case (Exit me)
    then show ?thesis using thread_exit_ok [OF ok, of me] by (auto elim!: sure_mono)
  next
    case (Idle me)
    then show ?thesis using BecomeIdle_ok [OF ok, of me] by (auto elim!: sure_mono)
  next
    case (TemporarilyIdle me)
    then show ?thesis using BecomeTemporarilyIdle_ok [OF ok, of me] by (auto elim!: sure_mono simp: served_def)
  qed
  then show ?thesis by (rule sure_mono) (use caches_kept [OF A _ _ map_le_refl] in blast)
qed

interpretation tc: allocator "caches_ok env own m" "byte_size_for_class m" "\<lambda>g. own (w_os (tg_world g))" word_reads
    "cache_acquire env" "cache_discard env" poke_word "cache_maintain env" "cache_request_ok m"
  for env :: "'k tc_env" and own :: "'k \<Rightarrow> addr set" and m :: size_map
proof (unfold_locales, goal_cases)
  case (1 A g p i q j)
  obtain F X where X: "spans_ok env own F X (tg_tcm g)" using caches_spans [OF 1(1)] by blast
  have c: "class_of (tg_tcm g) p i" "class_of (tg_tcm g) q j" "tm_sizemap (tg_tcm g) = m" using 1 by (simp_all add: caches_ok_def)
  show ?case using objects_apart [OF X c(1,2) 1(4)] unfolding c(3) .
next
  case (2 A g p i)
  obtain F X where X: "spans_ok env own F X (tg_tcm g)" using caches_spans [OF 2(1)] by blast
  have c: "class_of (tg_tcm g) p i" "tm_sizemap (tg_tcm g) = m" using 2 by (simp_all add: caches_ok_def)
  show ?case using object_owned [OF X c(1)] unfolding c(2) .
next
  case (3 A g r)
  then show ?case using cache_acquire_ok [OF 3(1)] by (cases r) simp
next
  case (4 A g f n p i)
  then show ?case using cache_discard_ok [OF 4(1) _ 4(3)] by simp
next
  case (5 A g p v)
  note pk = poke_threads [of env own "dom A" g p v]
  have t: "threads_ok env own (dom A) g" using 5(1) by (simp add: caches_ok_def)
  have "class_of (tg_tcm (poke_word p v g)) = class_of (tg_tcm g)" by (simp add: poke_word_def class_of_def fun_eq_iff sized_def)
  then have "caches_ok env own m A (poke_word p v g)" using 5 pk(1) [OF t 5(2)] by (simp add: caches_ok_def poke_word_def)
  then show ?case by (simp add: poke_word_def)
next
  case (6 A g x)
  then show ?case by (intro limit_sure cache_maintain_ok) simp
qed

section \<open>Properties\<close>

text \<open>
  C2: the thread caches are an allocator. From any state that satisfies the invariant with no object out, any
  number of threads take objects of the size classes, write to them, give them back (also to the cache of another
  thread), go idle and end, in any order. No assertion fails, no pointer is invalid and no loop runs forever; the run can
  only stop because the system has no memory or because the 32-bit byte count of one cache is exhausted. The objects that are
  held are different, their bytes are pairwise disjoint and belong to memory that the system granted, and
  every object that was written to still has the value last written.
\<close>
theorem thread_caches_serve:
  assumes "threads_ok env own {} g" "tm_sizemap (tg_tcm g) = m" "\<forall>e\<in>set es. cache_request_ok m e"
  shows "unless_limit (serve_events (cache_acquire env) (cache_discard env) poke_word (cache_maintain env) es [] g) (\<lambda>(hs, g').
    distinct (map fst hs) \<and> (\<forall>p c v. (p, c, Some v) \<in> set hs \<longrightarrow> tm_mem (tg_tcm g') p = Some v) \<and>
    (\<forall>p c u. (p, c, u) \<in> set hs \<longrightarrow> block p (byte_size_for_class m c) \<subseteq> own (w_os (tg_world g'))) \<and>
    (\<forall>p c u q d w. (p, c, u) \<in> set hs \<and> (q, d, w) \<in> set hs \<and> p \<noteq> q \<longrightarrow>
       block p (byte_size_for_class m c) \<inter> block q (byte_size_for_class m d) = {}) \<and> caches_ok env own m (blocks_of hs) g')"
  by (rule tc.serve_from_nothing) (use assms in \<open>simp_all add: caches_ok_def\<close>)

text \<open>A state with two size classes and no cache.\<close>

definition tiny_threads :: "int tstate" where
  "tiny_threads = \<lparr>tg_tcm = tiny_tcm, tg_heaps = [], tg_cache = (\<lambda>_. None), tg_count = 0, tg_steal = NULL,
     tg_overall = kDefaultOverallThreadCacheSize, tg_per_thread = kMaxThreadCacheSize, tg_unclaimed = kDefaultOverallThreadCacheSize,
     tg_allocator = (\<lparr>pha_free_area = NULL, pha_free_avail = 0, pha_free_list = NULL, pha_inuse = 0\<rparr>, \<lambda>_. None),
     tg_heap = (\<lambda>_. NULL), tg_fast_path_heap = (\<lambda>_. NULL), tg_heap_key = (\<lambda>_. NULL), tg_tsd_inited = True,
     tg_sample_parameter = 0, tg_interval = (\<lambda>_ _. 0)\<rparr>"

lemma tiny_caches:
  "pha_inv sizeof_ThreadCache cap_env cap_own {} {} (fst (tg_allocator tiny_threads)) (snd (tg_allocator tiny_threads)) (tg_world tiny_threads)"
proof -
  let ?a0 = "\<lparr>pha_free_area = NULL, pha_free_avail = 0, pha_free_list = NULL, pha_inuse = 0\<rparr>"
  have "pha_rep sizeof_ThreadCache {} [] ?a0 (\<lambda>_. None)" by (simp add: pha_rep_def apart_def blocks_def)
  moreover have "\<exists>S. meta_ok cap_env cap_own S (ph_world cap_heap)" using cap_heap_plain by (auto simp: plain_heap_def heap_ok_def ph_inv_def mem_ok_def pha_inv_def)
  then have "meta_ok cap_env cap_own {} (ph_world cap_heap)" by (auto elim: meta_ok_subset)
  ultimately show ?thesis unfolding pha_inv_def by (intro exI [of _ "[]"]) (simp add: tiny_threads_def tiny_tcm_def pha_mem_def blocks_def)
qed

lemma tiny_threads_ok: "threads_ok cap_env cap_own {} tiny_threads"
proof (rule no_caches_ok)
  show "moves_ok (tm_sizemap (tg_tcm tiny_threads))"
    by (auto simp: moves_ok_def tiny_threads_def tiny_tcm_def tiny_map_def byte_size_for_class_def kMaxSize_def kMaxDynamicFreeListLength_def less_Suc_eq numeral_2_eq_2)
  show "pha_inv sizeof_ThreadCache cap_env cap_own {} {} (fst (tg_allocator tiny_threads)) (snd (tg_allocator tiny_threads)) (tg_world tiny_threads)" by (rule tiny_caches)
qed (simp_all add: tiny_threads_def tiny_ok limit_constants kDefaultOverallThreadCacheSize_def kMaxThreadCacheSize_def interval_ok_def)

theorem thread_caches_serve_witness:
  "case serve_events (cache_acquire cap_env) (cache_discard cap_env) poke_word (cache_maintain cap_env)
     [Acquire (5, 1), Write 0 7, Acquire (6, 1), Acquire (5, 1), Discard 6 0, Maintain (Exit 6)] [] tiny_threads of
     Inr (hs, g') \<Rightarrow> length hs = 2 \<and> (\<exists>p c. (p, c, Some 7) \<in> set hs \<and> tm_mem (tg_tcm g') p = Some 7) | Inl e \<Rightarrow> False"
proof -
  let ?es = "[Acquire (5, 1), Write 0 7, Acquire (6, 1), Acquire (5, 1), Discard 6 0, Maintain (Exit 6)]"
  have e: "case serve_events (cache_acquire cap_env) (cache_discard cap_env) poke_word (cache_maintain cap_env) ?es [] tiny_threads of
     Inr (hs, g') \<Rightarrow> length hs = 2 \<and> snd (snd (hs ! 1)) = Some 7 | Inl e \<Rightarrow> False" by code_simp
  have "\<forall>e\<in>set ?es. cache_request_ok (tm_sizemap (tg_tcm tiny_threads)) e" by (simp add: tiny_threads_def tiny_tcm_def tiny_map_def)
  note ts = thread_caches_serve [OF tiny_threads_ok refl this]
  obtain hs g' where r: "serve_events (cache_acquire cap_env) (cache_discard cap_env) poke_word (cache_maintain cap_env) ?es [] tiny_threads = Inr (hs, g')"
      "length hs = 2" "snd (snd (hs ! 1)) = Some 7" using e by (auto simp del: serve_events.simps split: sum.splits)
  obtain p c where pc: "hs ! 1 = (p, c, Some 7)" using r(3) by (cases "hs ! 1") auto
  then have "(p, c, Some 7) \<in> set hs" using nth_mem [of 1 hs] r(2) by simp
  moreover have "tm_mem (tg_tcm g') p = Some 7" using ts calculation unfolding r(1) by simp
  ultimately show ?thesis using r(2) unfolding r(1) by auto
qed

text \<open>
  C15: the limits of the thread caches. After any such run, what the caches may hold and what is left of the budget add
  up to the overall limit; no limit is negative or leaves the range of an \<open>int32\<close>; the byte count of every cache
  is exactly the size of the objects in its lists, every list has the stated length, at most 8192 objects and a low-water mark
  within it, and every thread that has a cache finds a cache of its own.
\<close>
theorem thread_limits_conserved:
  assumes "threads_ok env own {} g" "tm_sizemap (tg_tcm g) = m" "\<forall>e\<in>set es. cache_request_ok m e"
  shows "unless_limit (serve_events (cache_acquire env) (cache_discard env) poke_word (cache_maintain env) es [] g) (\<lambda>(hs, g').
    tg_unclaimed g' + (\<Sum>h\<in>set (tg_heaps g'). claim g' h) = tg_overall g' \<and>
    (\<forall>h\<in>set (tg_heaps g'). \<exists>c L. tg_cache g' h = Some c \<and> 0 \<le> th_max_size c \<and> th_max_size c < 2 ^ 31 \<and>
       th_size c = (\<Sum>cl<num_size_classes m. int (length (L cl)) * byte_size_for_class m cl) \<and>
       (\<forall>cl<num_size_classes m. sll (tm_mem (tg_tcm g')) (fl_list (th_list c cl)) (L cl) \<and> fl_length (th_list c cl) = int (length (L cl)) \<and>
          length (L cl) \<le> 8192 \<and> fl_lowater (th_list c cl) \<le> fl_length (th_list c cl))) \<and>
    (\<forall>me. tg_heap g' me \<noteq> NULL \<longrightarrow> map_option th_tid (tg_cache g' (tg_heap g' me)) = Some me))"
proof -
  have "unless_limit (serve_events (cache_acquire env) (cache_discard env) poke_word (cache_maintain env) es [] g) (\<lambda>(hs, g'). caches_ok env own m (blocks_of hs) g')"
    by (rule limit_mono [OF tc.serve_from_nothing [of env own m]]) (use assms in \<open>auto simp: caches_ok_def\<close>)
  then show ?thesis
  proof (rule limit_mono, clarify)
    fix hs g' assume "caches_ok env own m (blocks_of hs) g'"
    then obtain L where L: "threads_rep env own (dom (blocks_of hs)) L g'" and m: "tm_sizemap (tg_tcm g') = m" by (auto simp: caches_ok_def threads_ok_def)
    then have li: "limits_ok g' (set (tg_heaps g'))" and tl: "tls_ok g'" by (simp_all add: threads_rep_def)
    have "\<exists>c K. tg_cache g' h = Some c \<and> 0 \<le> th_max_size c \<and> th_max_size c < 2 ^ 31 \<and>
       th_size c = (\<Sum>cl<num_size_classes m. int (length (K cl)) * byte_size_for_class m cl) \<and>
       (\<forall>cl<num_size_classes m. sll (tm_mem (tg_tcm g')) (fl_list (th_list c cl)) (K cl) \<and> fl_length (th_list c cl) = int (length (K cl)) \<and>
          length (K cl) \<le> 8192 \<and> fl_lowater (th_list c cl) \<le> fl_length (th_list c cl))" if h: "h \<in> set (tg_heaps g')" for h
    proof -
      have "\<forall>h\<in>set (tg_heaps g'). \<exists>c. tg_cache g' h = Some c \<and> cache_fine (tg_tcm g') c (L h)" using L by (simp add: threads_rep_def objects_ok_def)
      then obtain c where c: "tg_cache g' h = Some c" "cache_fine (tg_tcm g') c (L h)" using h by blast
      then have "0 \<le> th_max_size c" "th_max_size c < 2 ^ 31" using claim_bound [OF li h] by (simp_all add: claim_def)
      then show ?thesis using c by (intro exI [of _ c] exI [of _ "L h"]) (auto simp: cache_fine_def m fl_ok_def bytes_in_def kMaxDynamicFreeListLength_def)
    qed
    then show "tg_unclaimed g' + (\<Sum>h\<in>set (tg_heaps g'). claim g' h) = tg_overall g' \<and>
    (\<forall>h\<in>set (tg_heaps g'). \<exists>c L. tg_cache g' h = Some c \<and> 0 \<le> th_max_size c \<and> th_max_size c < 2 ^ 31 \<and>
       th_size c = (\<Sum>cl<num_size_classes m. int (length (L cl)) * byte_size_for_class m cl) \<and>
       (\<forall>cl<num_size_classes m. sll (tm_mem (tg_tcm g')) (fl_list (th_list c cl)) (L cl) \<and> fl_length (th_list c cl) = int (length (L cl)) \<and>
          length (L cl) \<le> 8192 \<and> fl_lowater (th_list c cl) \<le> fl_length (th_list c cl))) \<and>
    (\<forall>me. tg_heap g' me \<noteq> NULL \<longrightarrow> map_option th_tid (tg_cache g' (tg_heap g' me)) = Some me)"
      using li tl by (auto simp: limits_ok_def tls_ok_def)
  qed
qed

theorem thread_limits_conserved_witness:
  "case serve_events (cache_acquire cap_env) (cache_discard cap_env) poke_word (cache_maintain cap_env)
     [Acquire (5, 1), Acquire (6, 1), Discard 6 0, Maintain (Exit 5)] [] tiny_threads of
     Inr (hs, g') \<Rightarrow> length (tg_heaps g') = 1 \<and> tg_unclaimed g' + (\<Sum>h\<in>set (tg_heaps g'). claim g' h) = tg_overall g' | Inl e \<Rightarrow> False"
proof -
  let ?es = "[Acquire (5, 1), Acquire (6, 1), Discard 6 0, Maintain (Exit 5)]"
  have e: "case serve_events (cache_acquire cap_env) (cache_discard cap_env) poke_word (cache_maintain cap_env) ?es [] tiny_threads of
     Inr (hs, g') \<Rightarrow> length (tg_heaps g') = 1 | Inl e \<Rightarrow> False" by code_simp
  have "\<forall>e\<in>set ?es. cache_request_ok (tm_sizemap (tg_tcm tiny_threads)) e" by (simp add: tiny_threads_def tiny_tcm_def tiny_map_def)
  from thread_limits_conserved [OF tiny_threads_ok refl this] e show ?thesis by (auto simp: unless_limit_def sure_def simp del: serve_events.simps split: sum.splits)
qed



end
