(* ===== verification/Malloc_Free.thy ===== *)
theory Malloc_Free
  imports Malloc_Run Thread_Props
begin

text \<open>
  The other routines: the fast path of \<open>malloc\<close>, \<open>calloc\<close>, \<open>free\<close> and \<open>realloc\<close> keep the invariant.
\<close>

section \<open>Allocation\<close>

lemma CheckedMallocResult_block:
  assumes ok: "live_ok env own m U A g" and p: "A p = Some n"
  shows "CheckedMallocResult (Some p) (tg_tcm g) = Inr (Some p)"
proof -
  have t: "threads_ok env own U g" using ok by (simp add: live_ok_def)
  have b: "if p \<in> U then small_block (tg_tcm g) p n else big_block (tg_tcm g) p n" using ok p by (simp add: live_ok_def)
  show ?thesis
  proof (cases "p \<in> U")
    case True
    then obtain c where "class_of (tg_tcm g) p c" using b by (auto simp: small_block_def)
    then show ?thesis by (rule CheckedMallocResult_small [OF t])
  next
    case False
    then obtain a s where s: "plain (tg_tcm g) a = Some s" "p = sp_start s * kPageSize" using b by (auto simp: big_block_def)
    show ?thesis unfolding s(2) by (rule CheckedMallocResult_big [OF t s(1)])
  qed
qed

lemma allotted_checked:
  assumes "allotted env own m A n (p, s)" shows "CheckedMallocResult p (ma_tcm s) = Inr p"
proof (cases p)
  case (Some q)
  then obtain U where U: "live_ok env own m U (A(q \<mapsto> n)) (ma_threads s)" using assms by (auto simp: allotted_def malloc_ok_def)
  show ?thesis unfolding Some by (rule CheckedMallocResult_block [OF U, of q n]) simp
qed (simp add: CheckedMallocResult_def)

lemma do_allocate_full_ok:
  assumes "malloc_ok env own m A s" "(ucast me :: 32 word) \<noteq> 0" "0 \<le> n" "n < 2 ^ 64"
  shows "unless_limit (do_allocate_full env me n s) (allotted env own m A n)"
  unfolding do_allocate_full_def
  by (rule limit_bind [OF do_malloc_ok [OF assms]]) (auto simp: allotted_checked)

lemma tc_malloc_ok:
  assumes ok: "malloc_ok env own m A s" and me: "(ucast me :: 32 word) \<noteq> 0" and n: "0 \<le> n" "n < 2 ^ 64"
  shows "unless_limit (tc_malloc env me n s) (allotted env own m A n)"
proof -
  let ?g = "ma_threads s" and ?h = "tg_fast_path_heap (ma_threads s) me"
  obtain U where U: "live_ok env own m U A ?g" using ok by (auto simp: malloc_ok_def)
  then have t: "threads_ok env own U ?g" "map_ok m" "tm_sizemap (tg_tcm ?g) = m" by (simp_all add: live_ok_def)
  note full = do_allocate_full_ok [OF ok me n]
  show ?thesis
  proof (cases "?h = NULL")
    case True
    then show ?thesis using full by (simp add: tc_malloc_def)
  next
    case False
    obtain L where "threads_rep env own U L ?g" using t(1) by (auto simp: threads_ok_def)
    then have "?h = tg_heap ?g me" using False by (auto simp: threads_rep_def tls_ok_def)
    then have h: "?h \<in> set (tg_heaps ?g)" using clear_ok(2) [OF t(1)] False by simp
    show ?thesis
    proof (cases "get_size_class m n")
      case None
      then show ?thesis using full False by (simp add: tc_malloc_def t(3))
    next
      case (Some cl)
      note c = get_class_ok [OF t(2) n(1) Some]
      have "byte_size_for_class m cl \<le> kMaxSize" using threads_env(4) [OF t(1)] c(2) by (simp add: moves_ok_def t(3))
      then have z: "0 \<le> byte_size_for_class m cl" "byte_size_for_class m cl < 2 ^ 63" using c(3) n(1) by (simp_all add: kMaxSize_def)
      have "unless_limit (bindR (TryRecordAllocationFast ?h (byte_size_for_class m cl) ?g) (\<lambda>(ok, g1).
          if \<not> ok then do_allocate_full env me n (s\<lparr>ma_threads := g1\<rparr>)
          else bindR (th_Allocate env ?h (byte_size_for_class m cl) cl g1) (\<lambda>(p, g2).
            bindR (CheckedMallocResult p (tg_tcm g2)) (\<lambda>r. Inr (r, s\<lparr>ma_threads := g2\<rparr>))))) (allotted env own m A n)"
      proof (rule limit_bind [OF limit_sure [OF TryRecordAllocationFast_ok [OF U h z]]], unfold split_paired_all prod.case, goal_cases)
        case (1 ok g1)
        have l1: "live_ok env own m U A g1" by (rule sampled_live [OF U 1])
        have h1: "?h \<in> set (tg_heaps g1)" using 1 h by (simp add: sampled_as_def same_threads_def)
        have "malloc_ok env own m A (s\<lparr>ma_threads := g1\<rparr>)" using l1 by (auto simp: malloc_ok_def)
        from do_allocate_full_ok [OF this me n] small_alloc_ok [OF l1 h1 c] show ?case by simp
      qed
      then show ?thesis using Some False by (simp add: tc_malloc_def t(3) Let_def)
    qed
  qed
qed

text \<open>The overflow check of \<open>calloc\<close>.\<close>

lemma calloc_overflow:
  assumes "0 \<le> n" "n < 2 ^ 64" "0 < k" "k < 2 ^ 64"
  shows "to_size_t (n * k) div k = n \<longleftrightarrow> n * k < 2 ^ 64"
proof
  assume "n * k < 2 ^ 64"
  moreover have "0 \<le> n * k" using assms by simp
  ultimately show "to_size_t (n * k) div k = n" using assms(3) by (simp add: to_size_t_id)
next
  assume e: "to_size_t (n * k) div k = n"
  have "to_size_t (n * k) div k * k \<le> to_size_t (n * k)" using div_mult_mod_eq [of "to_size_t (n * k)" k] pos_mod_sign [OF assms(3), of "to_size_t (n * k)"] by linarith
  moreover have "to_size_t (n * k) < 2 ^ 64" by (simp add: to_size_t_def)
  ultimately show "n * k < 2 ^ 64" using e by simp
qed

lemma do_calloc_ok:
  assumes ok: "malloc_ok env own m A s" and me: "(ucast me :: 32 word) \<noteq> 0" and n: "0 \<le> n" "n < 2 ^ 64" "0 \<le> k" "k < 2 ^ 64"
  shows "unless_limit (do_calloc env me n k s) (\<lambda>(r, s'). allotted env own m A (n * k) (r, s') \<and> (2 ^ 64 \<le> n * k \<longrightarrow> r = None))"
proof (cases "n * k < 2 ^ 64")
  case True
  have nk: "0 \<le> n * k" using n by simp
  have "k \<noteq> 0 \<longrightarrow> to_size_t (n * k) div k = n" using calloc_overflow [OF n(1,2) _ n(4)] True n(3) by simp
  then have "do_calloc env me n k s = do_malloc env me (n * k) s" using True nk by (simp add: do_calloc_def to_size_t_id)
  then show ?thesis using do_malloc_ok [OF ok me nk True] True by (auto elim!: limit_mono)
next
  case False
  then have "k \<noteq> 0" by auto
  then have "do_calloc env me n k s = Inr (None, s)" using calloc_overflow [OF n(1,2) _ n(4)] n(3) False by (auto simp: do_calloc_def)
  then show ?thesis using ok by (simp add: allotted_def)
qed

section \<open>Release\<close>

text \<open>One object goes to the central list.\<close>

lemma threads_release:
  assumes ok: "threads_ok env own U g" and p: "p \<in> U" "class_of (tg_tcm g) p c" "c < num_size_classes (tm_sizemap (tg_tcm g))" "tm_mem (tg_tcm g) p = Some NULL"
  shows "sure (InsertRange env c p p 1 (tg_tcm g)) (\<lambda>t'. threads_ok env own (U - {p}) (g\<lparr>tg_tcm := t'\<rparr>) \<and> kept_objects (U - {p}) (tg_tcm g) t')"
proof -
  let ?t = "tg_tcm g" and ?H = "set (tg_heaps g)"
  obtain L where L: "threads_rep env own U L g" using ok by (auto simp: threads_ok_def)
  let ?W = "all_held (tm_sizemap ?t) ?H L"
  have o: "objects_ok env own U ?H L (tg_cache g) ?t" using L by (simp add: threads_rep_def)
  then have c: "central_ok env own (U \<union> ?W) ?t" "U \<inter> ?W = {}" by (simp_all add: objects_ok_def)
  have nn: "p \<noteq> NULL" using central_object(2) [OF c(1)] p(1) by blast
  have e: "U \<union> ?W - set [p] = (U - {p}) \<union> ?W" using c(2) p(1) by auto
  have "sure (InsertRange env c p p 1 ?t) (passed env own (U \<union> ?W) (U \<union> ?W - set [p]) ?t)"
    by (rule InsertRange_ok [OF c(1) p(3) class_of_pos [OF p(2)]]) (use p nn in auto)
  from when_ok_sure [OF this tframe_InsertRange [OF threads_env(1) [OF ok] wframe_refl]]
  show ?thesis
  proof (rule sure_mono)
    fix t' assume r: "passed env own (U \<union> ?W) (U \<union> ?W - set [p]) ?t t' \<and> tframe env own (tg_world g) t'"
    then have k: "kept_objects ((U - {p}) \<union> ?W) ?t t'" and c': "central_ok env own ((U - {p}) \<union> ?W) t'"
      unfolding e passed_def by (auto intro: kept_mono(1))
    have m: "tm_sizemap t' = tm_sizemap ?t" using k by (simp add: kept_objects_def)
    have "cache_fine t' x (L h)" if "h \<in> ?H" "cache_fine ?t x (L h)" for x h
      by (rule cache_fine_kept [OF that(2) kept_mono(1) [OF k]]) (use that(1) in \<open>auto simp: all_held_def\<close>)
    then have "objects_ok env own (U - {p}) ?H L (tg_cache g) t'" using o c' c(2) unfolding objects_ok_def m by fastforce
    moreover have "limits_ok (g\<lparr>tg_tcm := t'\<rparr>) ?H" using L by (simp add: threads_rep_def limits_ok_def claim_def)
    moreover have "pha_inv sizeof_ThreadCache env own {} ?H (fst (tg_allocator g)) (snd (tg_allocator g)) (ph_world (tm_heap t'))"
      by (rule wframe_pha [where w = "tg_world g"]) (use L r in \<open>simp_all add: threads_rep_def\<close>)
    ultimately have "threads_rep env own (U - {p}) L (g\<lparr>tg_tcm := t'\<rparr>)" using L by (simp add: threads_rep_def steal_ok_def tls_ok_def)
    then show "threads_ok env own (U - {p}) (g\<lparr>tg_tcm := t'\<rparr>) \<and> kept_objects (U - {p}) ?t t'" using k by (auto simp: threads_ok_def intro: kept_mono(1))
  qed
qed

lemma free_object_ok:
  assumes ok: "live_ok env own m U A g" and p: "p \<in> U" "class_of (tg_tcm g) p c" "c < num_size_classes m"
  shows "unless_limit (free_object env (tg_heap g me) p c g) (live_ok env own m (U - {p}) (A(p := None)))"
proof -
  have t: "threads_ok env own U g" "tm_sizemap (tg_tcm g) = m" using ok by (simp_all add: live_ok_def)
  have uv: "U \<inter> (U - {p}) = U - {p}" by blast
  show ?thesis
  proof (cases "tg_heap g me = NULL")
    case False
    have "unless_limit (Deallocate env (tg_heap g me) p c g) (served env own U (U - {p}) g)"
      by (rule Deallocate_ok [OF t(1) clear_ok(2) [OF t(1) False] p(1,2)]) (use p(3) t(2) in simp)
    then show ?thesis unfolding free_object_def using False
      by (auto elim!: limit_mono intro!: live_released [OF ok _ _ _ p(1)] simp: served_def same_threads_def uv)
  next
    case True
    let ?g = "poke_word p NULL g"
    obtain F X where X: "U \<subseteq> X" "spans_ok env own F X (tg_tcm g)" using threads_spans [OF t(1)] by blast
    have pd: "p \<in> dom (tm_mem (tg_tcm g))" using out_object(1) [OF X(2)] X(1) p(1) by blast
    have pn: "p \<noteq> NULL" using p(2) cell_nonnull [OF X(2)] by (force simp: class_of_def)
    have st: "SLL_SetNext (tm_mem (tg_tcm g)) p NULL = Inr ((tm_mem (tg_tcm g))(p \<mapsto> NULL))" using pd pn by (auto simp: SLL_SetNext_def)
    note pk = poke_threads [OF t(1) p(1), of NULL]
    have cp: "class_of (tg_tcm ?g) p c" using p(2) by (simp add: poke_word_def class_of_def sized_def)
    have "sure (InsertRange env c p p 1 (tg_tcm ?g)) (\<lambda>t'. threads_ok env own (U - {p}) (?g\<lparr>tg_tcm := t'\<rparr>) \<and> kept_objects (U - {p}) (tg_tcm ?g) t')"
      by (rule threads_release [OF pk(1) p(1) cp]) (use p(3) t(2) in \<open>simp_all add: poke_word_def\<close>)
    then have "sure (bindR (InsertRange env c p p 1 (tg_tcm ?g)) (\<lambda>t1. Inr (g\<lparr>tg_tcm := t1\<rparr>))) (live_ok env own m (U - {p}) (A(p := None)))"
    proof (rule sure_bind, goal_cases)
      case (1 t')
      then have r: "threads_ok env own (U - {p}) (g\<lparr>tg_tcm := t'\<rparr>)" "kept_objects (U - {p}) (tg_tcm ?g) t'" by (simp_all add: poke_word_def)
      show ?case unfolding sure_simps by (rule live_released [OF ok r(1) _ _ p(1)]) (use kept_trans(1) [OF pk(2) r(2)] in simp_all)
    qed
    then have "unless_limit (bindR (InsertRange env c p p 1 ((tg_tcm g)\<lparr>tm_mem := (tm_mem (tg_tcm g))(p \<mapsto> NULL)\<rparr>)) (\<lambda>t1. Inr (g\<lparr>tg_tcm := t1\<rparr>)))
      (live_ok env own m (U - {p}) (A(p := None)))" by (intro limit_sure) (simp add: poke_word_def)
    then show ?thesis unfolding free_object_def using True st by simp
  qed
qed

text \<open>The class of a freed object is remembered.\<close>

lemma cache_put_ok:
  assumes ok: "live_ok env own m U A g" and s: "sized (tg_tcm g) a = Some s" "p \<in> page_set s"
  shows "\<exists>pc. pc_Put p (int (sp_sizeclass s)) (tm_cache (tg_tcm g)) = Inr pc \<and> live_ok env own m U A (g\<lparr>tg_tcm := (tg_tcm g)\<lparr>tm_cache := pc\<rparr>\<rparr>)"
proof -
  let ?t = "tg_tcm g" and ?c = "int (sp_sizeclass s)"
  have t: "threads_ok env own U g" using ok by (simp add: live_ok_def)
  obtain F X where X: "spans_ok env own F X ?t" using threads_spans [OF t] by blast
  note th = threads_heap [OF t]
  note ls = live_span_ok [OF t]
  have k: "key_ok p" by (rule ls(6) [OF sized_is_live [OF s(1)] s(2)])
  have "sp_sizeclass s < num_size_classes (tm_sizemap ?t)" using spans_okD(5) [OF X s(1)] by (simp add: span_fine_def)
  then have c: "0 \<le> ?c" "?c < 128" using spans_okD(3) [OF X] by (auto simp: classes_ok_def kClassSizesMax_def)
  let ?pc = "pc_put p ?c (tm_cache ?t)"
  have lk: "pc_lookup ?pc q = (if pc_hash q = pc_hash p then if q = p then Some ?c else None else pc_lookup (tm_cache ?t) q)" if "key_ok q" for q
    using pc_lookup_entry [OF k that, of ?c] c by simp
  have "cached_fine ?pc u" if b: "live (ph_spans (tm_heap ?t)) b = Some u" for b u
  proof (cases "p \<in> page_set u")
    case True
    have l: "ph_spans (tm_heap ?t) b = Some u" using b by (simp add: live_def split: option.splits if_splits)
    moreover have "ph_spans (tm_heap ?t) a = Some s" using s(1) by (simp add: sized_Some)
    ultimately have "b = a" by (rule geo_same [OF th(4) _ _ True s(2)])
    then have us: "u = s" using l s(1) by (simp add: sized_Some)
    have "pc_lookup ?pc q \<in> {None, Some ?c}" if "q \<in> page_set s" for q
      using lk [OF ls(6) [OF sized_is_live [OF s(1)] that]] ls(2) [OF sized_is_live [OF s(1)]] that s(1) by (auto simp: cached_fine_def sized_Some)
    then show ?thesis using s(1) by (simp add: us cached_fine_def sized_Some)
  next
    case False
    show ?thesis
      by (rule cached_fine_less [OF ls(2) [OF b] _ ls(5) [OF b]]) (use lk ls(6) [OF b] False in auto)
  qed
  then have co: "cache_ok (ph_spans (tm_heap ?t)) ?pc" by (simp add: cache_ok_def)
  have st: "heap_step env own U g (?t\<lparr>tm_heap := tm_heap ?t, tm_cache := ?pc\<rparr>)"
    by (rule heap_stepI [OF t th(1) wframe_refl _ co], rule sized_live) simp
  have pl: "plain (?t\<lparr>tm_cache := ?pc\<rparr>) = plain ?t" by (rule plain_live) simp
  have "kept_objects U ?t (?t\<lparr>tm_cache := ?pc\<rparr>)" using st pl by (simp add: kept_objects_def heap_step_def)
  then have "live_ok env own m U A (g\<lparr>tg_tcm := ?t\<lparr>tm_cache := ?pc\<rparr>\<rparr>)" by (intro live_keep [OF ok]) (use st in \<open>simp_all add: heap_step_def\<close>)
  then show ?thesis using pc_runs(2) [OF k c] by blast
qed

lemma free_small_ok:
  assumes ok: "live_ok env own m U A (ma_threads s)" and p: "p \<in> U"
  shows "unless_limit (do_free env me p s) (malloc_ok env own m (A(p := None)))"
proof -
  let ?g = "ma_threads s" and ?t = "ma_tcm s"
  have t: "threads_ok env own U ?g" "tm_sizemap ?t = m" using ok by (simp_all add: live_ok_def)
  obtain n where "A p = Some n" using ok p by (auto simp: live_ok_def)
  then have "small_block ?t p n" using ok p by (auto simp: live_ok_def split: if_splits)
  then obtain a x where x: "sized ?t a = Some x" "p \<in> cells (tm_sizemap ?t) x" "sp_sizeclass x < num_size_classes m" using t(2) by (auto simp: small_block_def class_of_def)
  let ?c = "sp_sizeclass x"
  have c: "class_of ?t p ?c" using x by (auto simp: class_of_def)
  note pg = small_page [OF t(1) x(1,2)]
  have fr: "unless_limit (bindR (free_object env (tg_heap g me) p ?c g) (\<lambda>g1. Inr (s\<lparr>ma_threads := g1\<rparr>))) (malloc_ok env own m (A(p := None)))"
    if "live_ok env own m U A g" "class_of (tg_tcm g) p ?c" for g
    by (rule limit_bind [OF free_object_ok [OF that(1) p that(2) x(3)]]) (auto simp: malloc_ok_def)
  show ?thesis
  proof (cases "pc_lookup (tm_cache ?t) (p div kPageSize)")
    case (Some v)
    then have "nat v = ?c" using pg(3) by auto
    then show ?thesis using fr [OF ok c] Some
      by (simp add: do_free_def do_free_with_callback_def page_of pc_runs(1) [OF pg(2)] Let_def)
  next
    case None
    obtain pc where pc: "pc_Put (p div kPageSize) (int ?c) (tm_cache ?t) = Inr pc" "live_ok env own m U A (?g\<lparr>tg_tcm := ?t\<lparr>tm_cache := pc\<rparr>\<rparr>)"
      using cache_put_ok [OF ok x(1) pg(4)] by blast
    note l = live_span_ok [OF t(1) sized_is_live [OF x(1)]]
    have "class_of (?t\<lparr>tm_cache := pc\<rparr>) p ?c" using c by (simp add: class_of_def sized_def)
    then show ?thesis using fr [OF pc(2)] None pc(1) pg(1) l(3,4) x(1)
      by (simp add: do_free_def do_free_with_callback_def page_of pc_runs(1) [OF pg(2)] Let_def sized_Some)
  qed
qed

lemma free_big_ok:
  assumes ok: "live_ok env own m U A (ma_threads s)" and p: "A p = Some n" "p \<notin> U"
  shows "sure (do_free env me p s) (malloc_ok env own m (A(p := None)))"
proof -
  let ?g = "ma_threads s" and ?t = "ma_tcm s"
  have t: "threads_ok env own U ?g" using ok by (simp add: live_ok_def)
  have "big_block ?t p n" using ok p by (auto simp: live_ok_def split: if_splits)
  then obtain a x where x: "plain ?t a = Some x" "p = sp_start x * kPageSize" "\<not> sp_sample x" by (auto simp: big_block_def)
  note pg = big_page [OF t x(1)] and l = live_span_ok [OF t plain_is_live [OF x(1)]]
  have "sure (do_free_pages env a s) (malloc_ok env own m (A(p := None)))"
    unfolding do_free_pages_def Let_def l(4) bindR_simps if_not_P [OF x(3)]
  proof (rule sure_bind [OF delete_plain [OF t x(1)]])
    fix h assume h: "heap_step env own U ?g (?t\<lparr>tm_heap := h\<rparr>) \<and> plain (?t\<lparr>tm_heap := h\<rparr>) = (plain ?t)(a := None)"
    have "live_ok env own m U (A(p := None)) (?g\<lparr>tg_tcm := ?t\<lparr>tm_heap := h\<rparr>\<rparr>)" by (rule live_span_out [OF ok _ _ x(1,2) p(2)]) (use h in simp_all)
    then show "sure (Inr (set_tcm (?t\<lparr>tm_heap := h\<rparr>) s)) (malloc_ok env own m (A(p := None)))" by (auto simp: malloc_ok_def)
  qed
  then show ?thesis using pg l(3,4) x
    by (simp add: do_free_def do_free_with_callback_def page_of start_page pc_runs(1) [OF pg(2)] Let_def plain_Some)
qed

lemma do_free_ok:
  assumes ok: "malloc_ok env own m A s" and p: "p \<in> dom A"
  shows "unless_limit (do_free env me p s) (malloc_ok env own m (A(p := None)))"
proof -
  obtain U where U: "live_ok env own m U A (ma_threads s)" using ok by (auto simp: malloc_ok_def)
  show ?thesis
  proof (cases "p \<in> U")
    case True
    then show ?thesis by (rule free_small_ok [OF U])
  next
    case False
    then show ?thesis using p free_big_ok [OF U] by (auto intro: limit_sure)
  qed
qed

section \<open>Reallocation\<close>

text \<open>The size of a block is at least what was asked for.\<close>

lemma GetSize_ok:
  assumes ok: "malloc_ok env own m A s" and p: "A p = Some n"
  shows "sure (GetSizeWithCallback p s) (\<lambda>k. n \<le> k \<and> 0 < k \<and> k < 2 ^ 64 \<and> (\<forall>i\<le>k. malloc_ok env own m (A(p \<mapsto> i)) s))"
proof -
  let ?g = "ma_threads s" and ?t = "ma_tcm s"
  obtain U where U: "live_ok env own m U A ?g" using ok by (auto simp: malloc_ok_def)
  then have t: "threads_ok env own U ?g" "tm_sizemap ?t = m" by (simp_all add: live_ok_def)
  have upd: "malloc_ok env own m (A(p \<mapsto> i)) s" if "if p \<in> U then small_block ?t p i else big_block ?t p i" for i
    unfolding malloc_ok_def by (rule exI [of _ U]) (use U that in \<open>auto simp: live_ok_def\<close>)
  have b: "if p \<in> U then small_block ?t p n else big_block ?t p n" using U p by (simp add: live_ok_def)
  show ?thesis
  proof (cases "p \<in> U")
    case True
    then obtain a x where x: "sized ?t a = Some x" "p \<in> cells (tm_sizemap ?t) x" "sp_sizeclass x < num_size_classes m" "n \<le> byte_size_for_class m (sp_sizeclass x)"
      using b t(2) by (auto simp: small_block_def class_of_def)
    obtain F X where X: "spans_ok env own F X ?t" using threads_spans [OF t(1)] by blast
    note pg = small_page [OF t(1) x(1,2)] and l = live_span_ok [OF t(1) sized_is_live [OF x(1)]]
    have nn: "p \<noteq> NULL" using cell_nonnull [OF X x(1,2)] by simp
    have z: "0 < byte_size_for_class m (sp_sizeclass x)" using sized_fits(2) [OF X x(1)] t(2) by simp
    have "byte_size_for_class m (sp_sizeclass x) \<le> kMaxSize" using threads_env(4) [OF t(1)] x(3) by (simp add: moves_ok_def t(2))
    moreover have "GetSizeWithCallback p s = Inr (byte_size_for_class m (sp_sizeclass x))"
      using pg(1,3) l(3,4) nn t(2) x(1) by (auto simp: GetSizeWithCallback_def page_of pc_runs(1) [OF pg(2)] Let_def sized_Some)
    moreover have "small_block ?t p i" if "i \<le> byte_size_for_class m (sp_sizeclass x)" for i
      using x that t(2) by (auto simp: small_block_def class_of_def)
    ultimately show ?thesis using x(4) z upd True by (simp add: kMaxSize_def)
  next
    case False
    then obtain a x where x: "plain ?t a = Some x" "p = sp_start x * kPageSize" "n \<le> sp_length x * kPageSize" "\<not> sp_sample x" using b by (auto simp: big_block_def)
    note pg = big_page [OF t(1) x(1)] and l = live_span_ok [OF t(1) plain_is_live [OF x(1)]]
    have r: "0 < sp_start x" "0 < sp_length x" "sp_start x + sp_length x \<le> 2 ^ 34" using l(1) by (simp_all add: span_ok_def)
    then have k: "0 < sp_length x * kPageSize" "sp_length x * kPageSize < 2 ^ 64" "p \<noteq> NULL" by (simp_all add: x(2) kPageSize_def)
    then have "GetSizeWithCallback p s = Inr (sp_length x * kPageSize)"
      using pg(1,3) l(3,4) x by (simp add: GetSizeWithCallback_def page_of start_page pc_runs(1) [OF pg(2)] Let_def plain_Some to_size_t_id)
    moreover have "big_block ?t p i" if "i \<le> sp_length x * kPageSize" for i using x that by (auto simp: big_block_def)
    ultimately show ?thesis using x(3) k upd False by simp
  qed
qed

text \<open>The state after a reallocation.\<close>

definition moved :: "'k tc_env \<Rightarrow> ('k \<Rightarrow> addr set) \<Rightarrow> size_map \<Rightarrow> (addr \<Rightarrow> int option) \<Rightarrow> addr \<Rightarrow> int \<Rightarrow> addr option \<times> 'k mstate \<Rightarrow> bool" where
  "moved env own m A p n = (\<lambda>(r, s'). case r of None \<Rightarrow> malloc_ok env own m A s'
     | Some q \<Rightarrow> (q = p \<or> q \<notin> dom A) \<and> malloc_ok env own m (A(p := None, q \<mapsto> n)) s')"

lemma malloc_ok_less:
  assumes "malloc_ok env own m (A(p \<mapsto> k)) s" "n \<le> k" shows "malloc_ok env own m (A(p \<mapsto> n)) s"
proof -
  obtain U where U: "live_ok env own m U (A(p \<mapsto> k)) (ma_threads s)" using assms(1) by (auto simp: malloc_ok_def)
  then have "if p \<in> U then small_block (ma_tcm s) p k else big_block (ma_tcm s) p k" by (simp add: live_ok_def)
  then have "if p \<in> U then small_block (ma_tcm s) p n else big_block (ma_tcm s) p n" using assms(2) by (force simp: small_block_def big_block_def)
  then show ?thesis unfolding malloc_ok_def by (intro exI [of _ U]) (use U in \<open>auto simp: live_ok_def\<close>)
qed

lemma allotted_less: "allotted env own m A k x \<Longrightarrow> n \<le> k \<Longrightarrow> allotted env own m A n x"
  by (auto simp: allotted_def intro: malloc_ok_less split: option.splits)

lemma do_realloc_ok:
  assumes ok: "malloc_ok env own m A s" and p: "A p = Some k" and me: "(ucast me :: 32 word) \<noteq> 0" and n: "0 \<le> n" "n < 2 ^ 64"
  shows "unless_limit (do_realloc env me p n s) (moved env own m A p n)"
  unfolding do_realloc_def
proof (rule limit_bind [OF limit_sure [OF GetSize_ok [OF ok p]]])
  fix z assume z: "k \<le> z \<and> 0 < z \<and> z < 2 ^ 64 \<and> (\<forall>i\<le>z. malloc_ok env own m (A(p \<mapsto> i)) s)"
  let ?lo = "z + min (z div 4) (2 ^ 64 - 1 - z)"
  have lo: "0 \<le> ?lo" "?lo < 2 ^ 64" using z by auto
  have fin: "unless_limit (bindR (do_free_with_callback env me p None s2) (\<lambda>s3. Inr (Some q, s3))) (moved env own m A p n)"
    if q: "q \<notin> dom A" "malloc_ok env own m (A(q \<mapsto> n)) s2" for q s2
  proof -
    have pq: "p \<noteq> q" using q(1) p by auto
    have "unless_limit (do_free_with_callback env me p None s2) (malloc_ok env own m ((A(q \<mapsto> n))(p := None)))"
      using do_free_ok [OF q(2), of p] p by (auto simp: do_free_def)
    moreover have "(A(q \<mapsto> n))(p := None) = A(p := None, q \<mapsto> n)" using pq by (rule fun_upd_twist [symmetric])
    ultimately show ?thesis by (intro limit_bind) (use q(1) in \<open>auto simp: moved_def\<close>)
  qed
  have "unless_limit (if n > z \<and> n < ?lo then do_malloc env me ?lo s else Inr (None, s)) (allotted env own m A n)"
  proof (cases "n > z \<and> n < ?lo")
    case True
    then have "n \<le> ?lo" by simp
    then show ?thesis unfolding if_P [OF True] by (blast intro: limit_mono [OF do_malloc_ok [OF ok me lo]] allotted_less)
  next
    case False
    then show ?thesis unfolding if_not_P [OF False] using ok by (simp add: allotted_def)
  qed
  then have "unless_limit (bindR (if n > z \<and> n < ?lo then do_malloc env me ?lo s else Inr (None, s)) (\<lambda>(p1, s1).
      bindR (case p1 of None \<Rightarrow> do_malloc env me n s1 | Some q \<Rightarrow> Inr (Some q, s1)) (\<lambda>(p2, s2).
      case p2 of None \<Rightarrow> Inr (None, s2) | Some q \<Rightarrow> bindR (do_free_with_callback env me p None s2) (\<lambda>s3. Inr (Some q, s3))))) (moved env own m A p n)"
  proof (rule limit_bind, unfold split_paired_all prod.case, goal_cases)
    case (1 p1 s1)
    have "unless_limit (case p1 of None \<Rightarrow> do_malloc env me n s1 | Some q \<Rightarrow> Inr (Some q, s1)) (allotted env own m A n)"
    proof (cases p1)
      case None
      then have "malloc_ok env own m A s1" using 1 by (simp add: allotted_def)
      from do_malloc_ok [OF this me n] show ?thesis using None by simp
    next
      case (Some q)
      then show ?thesis using \<open>allotted env own m A n (p1, s1)\<close> by simp
    qed
    then show ?case
    proof (rule limit_bind, unfold split_paired_all prod.case, goal_cases)
      case (1 p2 s2)
      then show ?case using fin by (cases p2) (auto simp: allotted_def moved_def)
    qed
  qed
  moreover have "moved env own m A p n (Some p, s)" if "n \<le> z" using z that by (simp add: moved_def)
  ultimately show "unless_limit (let min_growth = min (z div 4) (2 ^ 64 - 1 - z); lower_bound_to_grow = z + min_growth; upper_bound_to_shrink = z div 2
     in if n > z \<or> n < upper_bound_to_shrink then
          bindR (if n > z \<and> n < lower_bound_to_grow then do_malloc env me lower_bound_to_grow s else Inr (None, s)) (\<lambda>(p1, s1).
          bindR (case p1 of None \<Rightarrow> do_malloc env me n s1 | Some p \<Rightarrow> Inr (Some p, s1)) (\<lambda>(p2, s2).
          case p2 of None \<Rightarrow> Inr (None, s2) | Some q \<Rightarrow> bindR (do_free_with_callback env me p None s2) (\<lambda>s3. Inr (Some q, s3))))
        else Inr (Some p, s)) (moved env own m A p n)"
    unfolding Let_def by (cases "n > z \<or> n < z div 2") (simp_all only: if_P if_not_P simp_thms limit_simps not_less de_Morgan_disj)
qed

end
