(* ===== verification/Malloc_Props.thy ===== *)
theory Malloc_Props
  imports Malloc_Free
begin

text \<open>
  The exported routines as an allocator of blocks of bytes: \<open>malloc\<close>, \<open>calloc\<close> and \<open>free\<close> for any number of
  threads, and \<open>realloc\<close>.
\<close>

section \<open>Requests\<close>

datatype request = Malloc "64 word" int | Calloc "64 word" int int

fun malloc_acquire :: "'k tc_env \<Rightarrow> request \<Rightarrow> 'k mstate \<Rightarrow> ((addr \<times> int) option \<times> 'k mstate) result" where
  "malloc_acquire env (Malloc me n) s = bindR (tc_malloc env me n s) (\<lambda>(p, s'). Inr (map_option (\<lambda>p. (p, n)) p, s'))"
| "malloc_acquire env (Calloc me n k) s = bindR (do_calloc env me n k s) (\<lambda>(p, s'). Inr (map_option (\<lambda>p. (p, n * k)) p, s'))"

definition malloc_discard :: "'k tc_env \<Rightarrow> 64 word \<Rightarrow> addr \<Rightarrow> int \<Rightarrow> 'k mstate \<Rightarrow> 'k mstate result" where
  "malloc_discard env me p n s = tc_free env me p s"

definition malloc_maintain :: "'k tc_env \<Rightarrow> thread_care \<Rightarrow> 'k mstate \<Rightarrow> 'k mstate result" where
  "malloc_maintain env x s = bindR (cache_maintain env x (ma_threads s)) (\<lambda>g. Inr (s\<lparr>ma_threads := g\<rparr>))"

text \<open>The contents of the blocks are not part of the state.\<close>

definition no_write :: "addr \<Rightarrow> int \<Rightarrow> 'k mstate \<Rightarrow> 'k mstate" where
  "no_write p v s = s"

text \<open>The arguments are of type \<open>size_t\<close>; the sampler of a thread asserts that the low half of the thread id is not 0.\<close>

fun malloc_request_ok :: "(request, 64 word, thread_care) event \<Rightarrow> bool" where
  "malloc_request_ok (Acquire (Malloc me n)) = ((ucast me :: 32 word) \<noteq> 0 \<and> 0 \<le> n \<and> n < 2 ^ 64)"
| "malloc_request_ok (Acquire (Calloc me n k)) = ((ucast me :: 32 word) \<noteq> 0 \<and> 0 \<le> n \<and> n < 2 ^ 64 \<and> 0 \<le> k \<and> k < 2 ^ 64)"
| "malloc_request_ok (Discard me n) = True"
| "malloc_request_ok (Write n v) = True"
| "malloc_request_ok (Maintain x) = True"

section \<open>The interface\<close>

lemma allotted_acquired:
  assumes "unless_limit r (allotted env own m A n)"
  shows "unless_limit (bindR r (\<lambda>(p, s'). Inr (map_option (\<lambda>p. (p, n)) p, s'))) (\<lambda>(b, s').
    case b of None \<Rightarrow> malloc_ok env own m A s' | Some (p, i) \<Rightarrow> p \<notin> dom A \<and> malloc_ok env own m (A(p \<mapsto> i)) s')"
  by (rule limit_bind [OF assms]) (auto simp: allotted_def split: option.splits)

lemma malloc_acquire_ok:
  assumes "malloc_ok env own m A s" "malloc_request_ok (Acquire r)"
  shows "unless_limit (malloc_acquire env r s) (\<lambda>(b, s').
    case b of None \<Rightarrow> malloc_ok env own m A s' | Some (p, i) \<Rightarrow> p \<notin> dom A \<and> malloc_ok env own m (A(p \<mapsto> i)) s')"
proof (cases r)
  case (Malloc me n)
  show ?thesis unfolding Malloc malloc_acquire.simps by (intro allotted_acquired tc_malloc_ok [OF assms(1)]) (use assms(2) Malloc in auto)
next
  case (Calloc me n k)
  have c: "unless_limit (do_calloc env me n k s) (allotted env own m A (n * k))"
    by (rule limit_mono [OF do_calloc_ok [OF assms(1)]]) (use assms(2) Calloc in auto)
  show ?thesis unfolding Calloc malloc_acquire.simps by (rule allotted_acquired [OF c])
qed

lemma malloc_maintain_ok:
  assumes ok: "malloc_ok env own m A s" shows "sure (malloc_maintain env x s) (malloc_ok env own m A)"
proof -
  obtain U where U: "live_ok env own m U A (ma_threads s)" using ok by (auto simp: malloc_ok_def)
  then have t: "threads_ok env own U (ma_threads s)" by (simp add: live_ok_def)
  have "sure (cache_maintain env x (ma_threads s)) (\<lambda>g. threads_ok env own U g \<and> kept_objects U (ma_tcm s) (tg_tcm g) \<and>
    tg_sample_parameter g = tg_sample_parameter (ma_threads s))"
  proof (cases x)
    case (Exit me)
    then show ?thesis using thread_exit_ok [OF t, of me] by (auto elim!: sure_mono)
  next
    case (Idle me)
    then show ?thesis using BecomeIdle_ok [OF t, of me] by (auto elim!: sure_mono)
  next
    case (TemporarilyIdle me)
    then show ?thesis using BecomeTemporarilyIdle_ok [OF t, of me] by (auto elim!: sure_mono simp: served_def same_threads_def)
  qed
  then show ?thesis unfolding malloc_maintain_def by (rule sure_bind) (auto simp: malloc_ok_def intro: live_keep [OF U])
qed

interpretation mal: allocator "malloc_ok env own m" "\<lambda>n. n" "\<lambda>s. own (w_os (tg_world (ma_threads s)))" "\<lambda>_ _ _. True"
  "malloc_acquire env" "malloc_discard env" no_write "malloc_maintain env" malloc_request_ok
  for env :: "'k tc_env" and own :: "'k \<Rightarrow> addr set" and m :: size_map
proof (unfold_locales, goal_cases)
  case (1 A s p i q j)
  then show ?case using blocks_apart unfolding malloc_ok_def by blast
next
  case (2 A s p i)
  then show ?case using block_owned unfolding malloc_ok_def by blast
next
  case (3 A s r)
  then show ?case using malloc_acquire_ok by simp
next
  case (4 A s f n p i)
  then have "p \<in> dom A" by blast
  then show ?case using do_free_ok [OF 4(1)] by (simp add: malloc_discard_def tc_free_def)
next
  case (5 A s p v)
  then show ?case by (simp add: no_write_def)
next
  case (6 A s x)
  then show ?case by (auto intro: limit_sure [OF malloc_maintain_ok])
qed

lemma block_nonnull:
  assumes "malloc_ok env own m A s" "A p = Some n" shows "p \<noteq> NULL"
proof
  assume p: "p = NULL"
  obtain U where U: "live_ok env own m U A (ma_threads s)" using assms(1) by (auto simp: malloc_ok_def)
  then have t: "threads_ok env own U (ma_threads s)" by (simp add: live_ok_def)
  obtain a x where x: "block_span (ma_tcm s) p n a x" using block_has_span [OF U assms(2)] by blast
  then have "0 < sp_start x" using live_span_ok(1) [OF t] by (auto simp: block_span_def span_ok_def)
  then show False using x p by (auto simp: block_span_def page_set_def)
qed

text \<open>
  The overflow check of \<open>calloc\<close>. A request whose product does not fit in a \<open>size_t\<close> returns a null pointer and
  changes nothing; every other request is \<open>malloc\<close> of the exact product.
\<close>
lemma calloc_checks_overflow:
  assumes "0 \<le> n" "n < 2 ^ 64" "0 \<le> k" "k < 2 ^ 64"
  shows "do_calloc env me n k s = (if n * k < 2 ^ 64 then do_malloc env me (n * k) s else Inr (None, s))"
proof (cases "k = 0")
  case False
  have "0 \<le> n * k" using assms by simp
  then show ?thesis using calloc_overflow [OF assms(1,2) _ assms(4)] False assms(3) by (auto simp: do_calloc_def Let_def to_size_t_id)
qed (simp add: do_calloc_def to_size_t_def)

section \<open>Properties\<close>

text \<open>
  C1: \<open>malloc\<close>, \<open>calloc\<close> and \<open>free\<close> are an allocator. From any state that satisfies the invariant (sampling is off in it, as
  it is by default) with no block out, any
  number of threads ask for blocks of any size of a \<open>size_t\<close>, release blocks that any of them got, go idle and end, in
  any order. No assertion fails, no pointer is invalid and no loop runs forever; the run can only stop because
  the system refuses metadata or because the 32-bit byte count of one thread cache is exhausted. The blocks that are held have
  different addresses, each has at least the bytes asked for, these bytes are pairwise disjoint and
  belong to memory that the system granted.
\<close>
theorem malloc_serves:
  assumes "malloc_ok env own m (\<lambda>_. None) s" "\<forall>e\<in>set es. malloc_request_ok e"
  shows "unless_limit (serve_events (malloc_acquire env) (malloc_discard env) no_write (malloc_maintain env) es [] s) (\<lambda>(hs, s').
    distinct (map fst hs) \<and> (\<forall>p n u. (p, n, u) \<in> set hs \<longrightarrow> block p n \<subseteq> own (w_os (tg_world (ma_threads s')))) \<and>
    (\<forall>p n u q k w. (p, n, u) \<in> set hs \<and> (q, k, w) \<in> set hs \<and> p \<noteq> q \<longrightarrow> block p n \<inter> block q k = {}) \<and> malloc_ok env own m (blocks_of hs) s')"
  by (rule limit_mono [OF mal.serve_from_nothing [OF assms]]) auto

text \<open>A state with one size class, of the largest size, no cache and no block.\<close>

definition one_class :: "nat list \<Rightarrow> size_map" where
  "one_class xs = \<lparr>class_array = 1 # 1 # 1 # xs, num_objects_to_move = [0, 2], class_to_size = [0, 262144], class_to_pages = [0, 32], num_size_classes = 2\<rparr>"

definition one_map :: size_map where
  "one_map = one_class (replicate 2166 1)"

definition one_state :: "size_map \<Rightarrow> int mstate" where
  "one_state m = \<lparr>ma_threads = tiny_threads\<lparr>tg_tcm := tiny_tcm\<lparr>tm_sizemap := m\<rparr>\<rparr>,
     ma_stacktraces = (\<lparr>pha_free_area = NULL, pha_free_avail = 0, pha_free_list = NULL, pha_inuse = 0\<rparr>, \<lambda>_. None),
     ma_traces = (\<lambda>_. None), ma_sampled = [], ma_threshold = 0, ma_reports = []\<rparr>"

lemma one_map_ok: "map_ok one_map" "classes_ok one_map" "moves_ok one_map"
proof -
  have one_map_class: "size_class one_map s = 1" if "0 \<le> s" "s \<le> kMaxSize" for s
  proof -
    have "nat (class_index s) < nat kClassArraySize" using class_index_range [OF that] by simp
    then have "nat (class_index s) < 2169" by (simp add: kClassArraySize_def kMaxSize_def)
    then have "(replicate 2169 1 :: nat list) ! nat (class_index s) = 1" by (rule nth_replicate)
    moreover have "replicate 2169 (1 :: nat) = 1 # 1 # 1 # replicate 2166 1" using replicate_add [of 3 2166 "1 :: nat"] by (simp add: numeral_3_eq_3)
    ultimately show ?thesis by (simp add: size_class_def one_map_def one_class_def)
  qed
  then show "map_ok one_map" by (auto simp: map_ok_def sizes_ok_def class_ok_def one_map_def one_class_def kMaxSize_def less_Suc_eq numeral_2_eq_2)
  show "classes_ok one_map" by (auto simp: classes_ok_def class_fits_def one_map_def one_class_def kClassSizesMax_def byte_size_for_class_def kPageSize_def)
  show "moves_ok one_map" by (auto simp: moves_ok_def one_map_def one_class_def byte_size_for_class_def kMaxSize_def kMaxDynamicFreeListLength_def less_Suc_eq numeral_2_eq_2)
qed

lemma one_state_ok: "malloc_ok cap_env cap_own one_map (\<lambda>_. None) (one_state one_map)"
proof -
  have cf: "central_ok cap_env cap_own {} (tiny_tcm\<lparr>tm_sizemap := one_map\<rparr>)"
    unfolding tiny_tcm_def tcm.update_convs tcm.simps
  proof (rule central_fresh_ok [OF cap_heap_plain cap_madvise_ends])
    show "live (ph_spans cap_heap) = (\<lambda>_. None)" using start_heap_ok [OF cap_mem_os world_new_ok cap_heap_start] by simp
    show "\<forall>i<num_size_classes one_map. central_fresh i (tiny_central i)"
      by (simp add: one_map_def one_class_def central_fresh_def tiny_central_def central_zero_def kMaxNumTransferEntries_def)
  qed (rule one_map_ok)
  have "threads_ok cap_env cap_own {} (tiny_threads\<lparr>tg_tcm := tiny_tcm\<lparr>tm_sizemap := one_map\<rparr>\<rparr>)"
  proof (rule no_caches_ok)
    show "pha_inv sizeof_ThreadCache cap_env cap_own {} {} (fst (tg_allocator (tiny_threads\<lparr>tg_tcm := tiny_tcm\<lparr>tm_sizemap := one_map\<rparr>\<rparr>)))
      (snd (tg_allocator (tiny_threads\<lparr>tg_tcm := tiny_tcm\<lparr>tm_sizemap := one_map\<rparr>\<rparr>))) (tg_world (tiny_threads\<lparr>tg_tcm := tiny_tcm\<lparr>tm_sizemap := one_map\<rparr>\<rparr>))"
      using tiny_caches by (simp add: tiny_threads_def)
  qed (simp_all add: tiny_threads_def cf one_map_ok limit_constants kDefaultOverallThreadCacheSize_def kMaxThreadCacheSize_def interval_ok_def)
  moreover have "user_half cap_own" by (auto simp: user_half_def cap_own_def)
  ultimately have "live_ok cap_env cap_own one_map {} (\<lambda>_. None) (ma_threads (one_state one_map))"
    by (simp add: live_ok_def one_state_def one_map_ok tiny_threads_def)
  then show ?thesis unfolding malloc_ok_def by blast
qed

lemma one_state_run:
  "case serve_events (malloc_acquire cap_env) (malloc_discard cap_env) no_write (malloc_maintain cap_env)
     [Acquire (Malloc 5 300000), Acquire (Calloc 6 (2 ^ 63) 2), Acquire (Malloc 5 16), Discard 6 1] [] (one_state (one_class xs)) of
     Inr (hs, s') \<Rightarrow> length hs = 1 | Inl e \<Rightarrow> False"
  by code_simp

theorem malloc_serves_witness:
  "case serve_events (malloc_acquire cap_env) (malloc_discard cap_env) no_write (malloc_maintain cap_env)
     [Acquire (Malloc 5 300000), Acquire (Calloc 6 (2 ^ 63) 2), Acquire (Malloc 5 16), Discard 6 1] [] (one_state one_map) of
     Inr (hs, s') \<Rightarrow> length hs = 1 \<and> (\<forall>(p, n, u)\<in>set hs. block p n \<subseteq> cap_own (w_os (tg_world (ma_threads s')))) | Inl e \<Rightarrow> False"
proof -
  let ?es = "[Acquire (Malloc 5 300000), Acquire (Calloc 6 (2 ^ 63) 2), Acquire (Malloc 5 16), Discard 6 1]"
  let ?r = "serve_events (malloc_acquire cap_env) (malloc_discard cap_env) no_write (malloc_maintain cap_env) ?es [] (one_state one_map)"
  have "case ?r of Inr (hs, s') \<Rightarrow> length hs = 1 | Inl e \<Rightarrow> False" unfolding one_map_def by (rule one_state_run)
  then obtain hs s' where r: "?r = Inr (hs, s')" "length hs = 1" by (cases ?r) (auto simp del: serve_events.simps)
  have "\<forall>e\<in>set ?es. malloc_request_ok e" by simp
  note s = malloc_serves [OF one_state_ok this, unfolded r(1) limit_simps prod.case]
  show ?thesis using s r(2) unfolding r(1) by fastforce
qed

text \<open>
  C14: \<open>realloc\<close>. For a block of the program, it either fails and leaves every block as it was, or gives a block of the new
  size, at the old address or at one that is not in use, in place of the old block; with size 0 it releases the block and
  returns a null pointer. The other blocks keep their place and size, and the invariant holds.
\<close>
theorem realloc_moves:
  assumes "malloc_ok env own m A s" "A p = Some k" "(ucast me :: 32 word) \<noteq> 0" "0 \<le> n" "n < 2 ^ 64"
  shows "unless_limit (tc_realloc env me p n s) (\<lambda>(r, s'). case r of
      None \<Rightarrow> malloc_ok env own m (if n = 0 then A(p := None) else A) s'
    | Some q \<Rightarrow> 0 < n \<and> (q = p \<or> q \<notin> dom A) \<and> malloc_ok env own m (A(p := None, q \<mapsto> n)) s')"
proof -
  have nn: "p \<noteq> NULL" using block_nonnull [OF assms(1,2)] .
  have d: "p \<in> dom A" using assms(2) by blast
  show ?thesis
  proof (cases "n = 0")
    case True
    then show ?thesis using nn by (auto simp: tc_realloc_def intro: limit_bind [OF do_free_ok [OF assms(1) d]])
  next
    case False
    then have "unless_limit (tc_realloc env me p n s) (moved env own m A p n)" using nn do_realloc_ok [OF assms] by (simp add: tc_realloc_def)
    then show ?thesis by (rule limit_mono) (use False assms(4) in \<open>auto simp: moved_def split: option.splits\<close>)
  qed
qed

lemma one_state_grows:
  "case bindR (tc_malloc cap_env 5 300000 (one_state (one_class xs))) (\<lambda>(p, s). bindR (tc_realloc cap_env 6 (the p) 600000 s) (\<lambda>(q, s'). Inr (p, q, s'))) of
     Inr (p, q, s') \<Rightarrow> p \<noteq> None \<and> q \<noteq> None \<and> q \<noteq> p | Inl e \<Rightarrow> False"
  by code_simp

theorem realloc_moves_witness:
  "\<exists>p s q s'. tc_malloc cap_env 5 300000 (one_state one_map) = Inr (Some p, s) \<and> tc_realloc cap_env 6 p 600000 s = Inr (Some q, s') \<and> q \<noteq> p \<and>
     malloc_ok cap_env cap_own one_map [q \<mapsto> 600000] s'"
proof -
  obtain p s q s' where r: "tc_malloc cap_env 5 300000 (one_state one_map) = Inr (Some p, s)" "tc_realloc cap_env 6 p 600000 s = Inr (Some q, s')" "q \<noteq> p"
  proof -
    note g = one_state_grows [of "replicate 2166 1", folded one_map_def]
    obtain x s where 1: "tc_malloc cap_env 5 300000 (one_state one_map) = Inr (x, s)"
      using g by (cases "tc_malloc cap_env 5 300000 (one_state one_map)") auto
    obtain y s' where 2: "tc_realloc cap_env 6 (the x) 600000 s = Inr (y, s')"
      using g unfolding 1 by (cases "tc_realloc cap_env 6 (the x) 600000 s") auto
    have "x \<noteq> None" "y \<noteq> None" "y \<noteq> x" using g unfolding 1 bindR_simps prod.case 2 by simp_all
    then obtain p q where "x = Some p" "y = Some q" "q \<noteq> p" by auto
    then show ?thesis using that 1 2 by simp
  qed
  have ids: "(ucast (5 :: 64 word) :: 32 word) \<noteq> 0" "(ucast (6 :: 64 word) :: 32 word) \<noteq> 0" by simp_all
  have "unless_limit (tc_malloc cap_env 5 300000 (one_state one_map)) (allotted cap_env cap_own one_map (\<lambda>_. None) 300000)"
    by (rule tc_malloc_ok [OF one_state_ok ids(1)]) simp_all
  then have "malloc_ok cap_env cap_own one_map [p \<mapsto> 300000] s" by (simp add: r(1) allotted_def)
  from realloc_moves [OF this _ ids(2), of p 300000 600000] r(2,3) show ?thesis using r by auto
qed

end
