(* ===== verification/Spec2Isabelle.thy ===== *)
theory Spec2Isabelle
  imports Client Listen_Service Log_File Malloc_Props
begin

text \<open>
  Verification of libnetxcq (src/), a network library in C++, and of the memory allocator it ships and
  links (src/libs/tcmalloc/src).

  \<^bold>\<open>The program.\<close> A server starts one listening service (\<open>MainModule\<close>, src/main_module.cpp; \<open>ListenService\<close>
  and its factory, src/listen). The TCP service accepts connections and hands each descriptor to the
  \<open>ConnectorManager\<close>, which gives it to the connector thread \<open>fd mod thread_num\<close> (src/connector). A connector
  thread keeps a table of connectors and an epoll descriptor; when a descriptor is readable it fills the
  connector's input buffer (\<open>SocketInput::feed\<close>), parses packets out of it (\<open>Connector::exec_parse\<close>), and the
  answers go through the output buffer (\<open>SocketOutput::write\<close>, \<open>refresh\<close>). Both buffers are circular arrays. The
  UDP service puts each datagram as a task into a thread pool (src/common/thread/thread_pool.h). Packets are
  protobuf messages behind a six-byte header (src/packet). Below all of it \<open>malloc\<close> is tcmalloc: size classes,
  a cache of objects per thread, a central free list per class that cuts spans of pages into objects, a page heap that keeps the spans, and
  the system allocator over \<open>sbrk\<close> and \<open>mmap\<close>.

  \<^bold>\<open>Conventions.\<close> A computation that the C++ standard leaves undefined, or an assertion or check that fails,
  is the value \<open>Inl\<close> of an error; \<open>Inr\<close> carries the result (theory \<open>Prelude\<close>). Integers that the code relies on
  to wrap are reduced explicitly; signed overflow is an error. System calls are fields of a record (\<open>Posix_Api\<close>
  for the network part, \<open>tc_env\<close> in \<open>Sys_Alloc\<close> for memory) over an arbitrary type of kernel states; what the
  code relies on of them (a \<open>recv\<close> writes at most the bytes asked for, \<open>mmap\<close> returns memory nobody owns) is a
  named hypothesis, and the witnesses instantiate it with a concrete kernel. The protobuf runtime is a parameter
  in the same way (\<open>protobuf_ok\<close>).

  \<^bold>\<open>Network layer.\<close>
  \<^item> \<open>Byte_Order\<close>, \<open>Proto_Messages\<close>: integers in memory and on the wire, the generated message classes and their
    wire format; round trips, and the parser ends on every input.
  \<^item> \<open>Buffer_Spec\<close>, \<open>Ring_Buffer\<close>, \<open>Socket_Input\<close>, \<open>Socket_Output\<close>: the circular buffers
    (src/socket/socket_input.cpp, socket_output.cpp). \<open>Buffer_Spec\<close> states as locales what the packet layer
    needs of them: a byte source and a byte sink. \<open>feed\<close> appends exactly the bytes of the stream and keeps the
    invariant unless data that arrive between its \<open>ioctl\<close> and its second \<open>recv\<close> overrun the array; the theorems say
    exactly when they do and what happens then (\<open>feed_overrun\<close>), and no property assumes when
    data arrive (only the lemma \<open>ct_main_loop_keeps\<close> takes it that none arrive there). \<open>refresh\<close>
    ends and sends everything in order; a wrapped write may write outside the array, and when is stated too.
  \<^item> \<open>Connector\<close>: \<open>Socket\<close>, \<open>Connector\<close>, \<open>User\<close>, the packet factory (src/connector/connector.cpp, src/packet).
    A packet sent is the packet parsed; a ping is answered by exactly one frame; incomplete headers and unknown
    ids fault.
  \<^item> \<open>Event_Loop\<close>, \<open>Connector_Thread\<close>, \<open>Connector_Manager\<close>: the epoll loop, the table of connectors and its
    interleaving with the listening thread as a step relation, and the routing of descriptors to threads.
  \<^item> \<open>Thread_Pool\<close>: the queue and the pool as a step relation whose steps are the test of the stop flag, the pop, the
    call of the task and its return; tasks leave the queue in order, each is called at most once, none is lost while the
    pool runs, and with two workers a task may be called before one that left the queue earlier.
  \<^item> \<open>Listen_Service\<close>, \<open>Log_File\<close>, \<open>Client\<close>: the services, the UDP socket, the log and the example client.

  \<^bold>\<open>Allocator.\<close> From the bottom up:
  \<^item> \<open>Tc_Prelude\<close>, \<open>Sys_Alloc\<close>: alignment, and memory from the system (system-alloc.cc).
  \<^item> \<open>Linked_List\<close>, \<open>Span\<close>: intrusive lists over an explicit store (linked_list.h, span.h, span.cc), shown to
    implement sequences.
  \<^item> \<open>Metadata_Alloc\<close>: \<open>MetaDataAlloc\<close> and \<open>PageHeapAllocator\<close> (common.cc, page_heap_allocator.h).
  \<^item> \<open>Size_Map\<close>, \<open>Page_Map\<close>, \<open>Packed_Cache\<close>: the size classes (common.h, common.cc), the radix trees (pagemap.h)
    and the lossy cache (packed-cache-inl.h), each against a reference definition.
  \<^item> \<open>Page_Heap\<close> (page_heap.h, page_heap.cc), with the invariant in \<open>Page_Heap_Inv\<close>, its preservation in
    \<open>Page_Heap_Merge\<close>, \<open>Page_Heap_Delete\<close>, \<open>Page_Heap_Alloc\<close>, \<open>Page_Heap_New\<close>, and the interface \<open>page_source\<close> with
    its interpretation in \<open>Page_Heap_Props\<close>.
  \<^item> \<open>Central_Free_List\<close> (central_freelist.h, central_freelist.cc), with its invariant in \<open>Central_Inv\<close>, its
    preservation in \<open>Central_Spans\<close>, \<open>Central_Populate\<close>, \<open>Central_Transfer\<close>, and the interface \<open>object_source\<close>
    with its interpretation in \<open>Central_Props\<close>.
  \<^item> \<open>World_Frame\<close>, \<open>Central_Frame\<close>, \<open>Static_Vars\<close>: what one allocator leaves alone of the others' memory, and the
    initialisation (static_vars.cc).
  \<^item> \<open>Sampler\<close>, \<open>Thread_Cache\<close> (sampler.h, sampler.cc, thread_cache.h, thread_cache.cc): the counter of sampled bytes and
    the caches of the threads. \<open>Thread_Cache_Lists\<close> and \<open>Thread_Cache_Ops\<close> relate the lists of one cache to sequences of
    objects; \<open>Thread_Limits\<close> is the conservation of the limits; \<open>Thread_Frame\<close>, \<open>Thread_State\<close>, \<open>Thread_Heaps\<close> and \<open>Thread_Module\<close>
    carry the invariant of all caches over every operation, the coming and going of threads and the initialisation.
  \<^item> \<open>Alloc_Spec\<close> states as the locale \<open>allocator\<close> what a program expects of an allocator, with the lemma on sequences of
    requests; \<open>Thread_Props\<close> interprets it on the thread caches and holds their properties.
  \<^item> \<open>Malloc\<close> (tcmalloc.cc): the exported C routines. \<open>Malloc_Inv\<close>, \<open>Malloc_Ops\<close>, \<open>Malloc_Run\<close> and \<open>Malloc_Free\<close> show that each
    keeps the invariant, with small objects and whole spans side by side; \<open>Malloc_Props\<close> interprets \<open>allocator\<close> on
    \<open>malloc\<close>, \<open>calloc\<close> and \<open>free\<close>.

  \<^bold>\<open>Loops and fuel.\<close> No definition has a fuel bound of its own. The event loops run over a given sequence of
  values of the stop flag, so every finite run is covered. Loops whose end depends on a parameter are partial
  functions into \<open>option\<close> (\<open>so_send_loop\<close>, \<open>msg_merge_partial\<close>, \<open>madvise_loop\<close>, \<open>release_loop\<close>, \<open>alloc_large\<close>,
  \<open>release_list\<close>), and not returning is an error value that the theorems exclude; the others are total functions
  with termination proofs.

  \<^bold>\<open>Hypotheses of the allocator theorems.\<close> \<open>mem_os\<close>: the system returns memory that is not in use;
  \<open>madvise_ends\<close>: \<open>madvise\<close> does not report \<open>EAGAIN\<close> for ever; \<open>mem_cap\<close>: less than 16 TB are owned; no heap limit
  (\<open>heap_limit_mb = 0\<close>) and no aggressive decommit, whose assertion failure is shown separately; for the exported
  routines sampling is off (\<open>tg_sample_parameter \<le> 0\<close>) and the system grants only addresses below \<open>2 ^ 47\<close> (\<open>user_half\<close>). A run may stop
  early with \<open>OutOfMemory\<close> or because the 32-bit byte count of a thread cache overflows (\<open>unless_limit\<close>); the theorems
  exclude every other error.

  \<^bold>\<open>Not modelled.\<close> Spin locks, mutexes and condition variables: the allocator is sequential, one operation after
  the other; the network part interleaves at the granularity of its critical sections.
  The look-up of a connector and the read from it are one step, because the other thread only inserts absent
  descriptors. Thread start, gflags, the singleton
  macro and the log texts of the network part are glue. Of tcmalloc, the profilers, the heap checker, the memory
  region map, hooks, stack unwinding, symbolization, raw system calls and the wrappers of processor instructions
  are diagnostic or platform code around the allocator; they observe it and do not change what it returns.

  \<^bold>\<open>Left out of the modelled files.\<close> The nodes of the \<open>std::set\<close>s of the page heap (their allocation through
  \<open>STLPageHeapAllocator\<close> may end the process) and the growth stack traces: running out of metadata there is no case of
  the model. Arithmetic on \<open>double\<close> is taken as exact rationals (\<open>scavenge_delay\<close>, \<open>scaled_threads\<close>) or is a
  parameter (the sampling interval, the ratio of \<open>RecomputePerThreadCacheSize\<close>). \<open>cached_size\<close> of the generated messages is unbounded.
  Assertions that cannot fail where they stand are no branches: \<open>LgFloor\<close> (\<open>lg_floor_assert\<close>), the range in \<open>ClassIndex\<close>, the
  location of the leftover in \<open>Split\<close>, the constant \<open>sizeof\<close> in \<open>InitStaticVars\<close>. \<open>delete\<close> on memory of \<open>new[]\<close> in \<open>send_packet\<close> is
  a finding, not an error of the model. Of tcmalloc.cc: the operators \<open>new\<close> and \<open>delete\<close> with the new-handler, hooks, emergency
  malloc, statistics and \<open>mallopt\<close>, and the bytes that \<open>memset\<close> and \<open>memcpy\<close> move. The aligned routines are modelled without
  theorems. Fork handlers only take locks.
\<close>

section \<open>Properties that span components\<close>

text \<open>
  C12: the example client and the server understand each other. If the bytes that the client sends for
  a packet (with no NUL in its serialised form, and within the client's array) are at the front of a
  connector's input buffer, \<open>exec_parse\<close> takes exactly them, succeeds, and queues the answer's frame.
\<close>
theorem client_ping_answered:
  assumes "reply_ok pb" "length (packet_bytes pb p) < 1024" "0 \<notin> set (packet_bytes pb p)"
    and "client_message pb p = Inr (message, sz)"
    and "conn_socket c = Some sk" "socket_inv sk"
    and "ring_contents (socket_input sk) = take (nat sz) message @ rest"
    and "so_room (int (6 + length (packet_bytes pb (ping_reply pb)))) (socket_output sk)"
  shows "\<exists>sk'. exec_parse pb c = Inr (c\<lparr>conn_socket := Some sk'\<rparr>) \<and> socket_inv sk' \<and>
    ring_contents (socket_input sk') = rest \<and>
    ring_contents (socket_output sk') =
      ring_contents (socket_output sk) @ map Some (frame 2 (packet_bytes pb (ping_reply pb)))"
proof -
  have pb: "protobuf_ok pb" "length (packet_bytes pb (ping_reply pb)) + 6 < 2 ^ 31"
    using assms(1) by (simp_all add: reply_ok_def)
  have "take (nat sz) message = map Some (frame 1 (packet_bytes pb p))"
    using client_message_core [OF pb(1) assms(2,3)] assms(4) by auto
  then have q: "ring_contents (socket_input sk) = map Some (frame 1 (packet_bytes pb p)) @ rest"
    using assms(7) by simp
  have "length (packet_bytes pb p) < 2 ^ 31" using assms(2) by simp
  from exec_parse_ping_core [OF pb(1) assms(5,6) q this pb(2) assms(8)] show ?thesis .
qed

text \<open>A connector that has received the client's packet, split over the end of the array.\<close>

definition wrapped_ping :: connector where
  "wrapped_ping =
     (let bs = map Some (frame 1 ([10, 15] @ client_text)) in
      \<lparr>conn_socket = Some (socket_new\<lparr>socket_fd := 7, socket_input :=
        \<lparr>rb_buffer = drop 10 bs @ replicate 10 (Some 0) @ take 10 bs, rb_len = 33, rb_max = SOCKET_INPUT_MAXSIZE,
         rb_head = 23, rb_tail = 13\<rparr>\<rparr>)\<rparr>)"

theorem client_ping_answered_witness:
  "\<exists>sk'. exec_parse proto_rt wrapped_ping = Inr \<lparr>conn_socket = Some sk'\<rparr> \<and>
    ring_contents (socket_input sk') = [] \<and>
    ring_contents (socket_output sk') = map Some (frame 2 (packet_bytes proto_rt (ping_reply proto_rt)))"
proof -
  let ?b = "packet_bytes proto_rt (client_packet proto_rt)"
  have b: "?b = [10, 15] @ client_text" by (rule proto_client_bytes)
  have ok: "length ?b < 1024" "0 \<notin> set ?b" using client_text_ok by (simp_all add: b)
  obtain message sz where m: "client_message proto_rt (client_packet proto_rt) = Inr (message, sz)"
    "take (nat sz) message = map Some (frame 1 ?b)"
    using client_message_core [OF proto_rt_ok ok] by blast
  obtain sk where sk: "conn_socket wrapped_ping = Some sk" "socket_inv sk" "socket_output sk = so_new"
    "ring_contents (socket_input sk) = take (nat sz) message @ []"
    unfolding m(2) b
    by (simp add: wrapped_ping_def Let_def socket_new_def socket_inv_def so_new_inv si_inv_def ring_inv_def
        input_sizes int_max_def client_text_ok ring_contents_def)
  have "so_room (int (6 + length (packet_bytes proto_rt (ping_reply proto_rt)))) (socket_output sk)"
    by (simp add: sk(3) proto_reply_small so_new_room)
  from client_ping_answered [OF proto_rt_reply ok m(1) sk(1,2,4) this]
  show ?thesis by (auto simp: sk(3) so_new_contents wrapped_ping_def Let_def)
qed

end
